(* ===== verification/Prelude.thy ===== *)
theory Prelude
  imports Main "HOL-Library.Word"
begin

unbundle bit_operations_syntax

text \<open>
  Shared vocabulary of the development: the machine types of the C sources, the
  error-and-state computations in which the stateful C functions are written, the
  big-endian integer codecs of \<^verbatim>\<open>sshbuf.h\<close>, and the generic facts about lists,
  words and option values that the component theories use.

  The target of the build is \<^verbatim>\<open>wasm32\<close> (the WALI tool chain compiles the
  applications for that ABI), so \<^verbatim>\<open>size_t\<close>, pointers and \<^verbatim>\<open>long\<close> are 32 bits wide.
\<close>

subsection \<open>Machine types\<close>

type_synonym u8 = "8 word"
type_synonym u16 = "16 word"
type_synonym u32 = "32 word"
type_synonym u64 = "64 word"

text \<open>Largest value of \<^verbatim>\<open>size_t\<close> on the 32-bit target, and of \<^verbatim>\<open>int\<close>.\<close>

definition SIZE_MAX :: nat where
  "SIZE_MAX = 2 ^ 32 - 1"

definition INT_MAX :: int where
  "INT_MAX = 2 ^ 31 - 1"

text \<open>A pointer is an allocation (numbered) and an offset into it.\<close>

type_synonym ptr = "nat \<times> nat"

definition ptr_add :: "ptr \<Rightarrow> nat \<Rightarrow> ptr" where
  "ptr_add p n = (fst p, snd p + n)"

subsection \<open>Computations with an error result and a state\<close>

text \<open>
  A C function that updates an object in place and returns \<^verbatim>\<open>0\<close> or a negative error
  code is a computation: it takes the object and gives back either the error or the
  values it stores through its result pointers, together with the updated object.
  The object is returned on the error paths too, because the C code may have changed it
  before it failed.
\<close>

type_synonym ('e, 's, 'a) run = "'s \<Rightarrow> ('e + 'a) \<times> 's"

named_theorems run_simps \<open>unfolding rules of the computations\<close>

definition ret :: "'a \<Rightarrow> ('e, 's, 'a) run" where
  "ret x s = (Inr x, s)"

definition throw :: "'e \<Rightarrow> ('e, 's, 'a) run" where
  "throw e s = (Inl e, s)"

definition andthen :: "('e, 's, 'a) run \<Rightarrow> ('a \<Rightarrow> ('e, 's, 'b) run) \<Rightarrow> ('e, 's, 'b) run" where
  "andthen m k s = (case m s of (Inl e, s') \<Rightarrow> (Inl e, s') | (Inr x, s') \<Rightarrow> k x s')"

lemmas [run_simps] = ret_def throw_def andthen_def

lemma andthen_ret [simp]: "andthen (ret x) k = k x"
  by (rule ext) (simp add: run_simps)

lemma andthen_throw [simp]: "andthen (throw e) k = throw e"
  by (rule ext) (simp add: run_simps)

lemma andthen_assoc: "andthen (andthen m k) h = andthen m (\<lambda>x. andthen (k x) h)"
  by (rule ext) (auto simp: run_simps split: prod.splits sum.splits)

lemma andthen_InrE:
  assumes "andthen m k s = (Inr y, t)"
  obtains x s' where "m s = (Inr x, s')" and "k x s' = (Inr y, t)"
  using assms by (auto simp: andthen_def split: prod.splits sum.splits)

lemma andthen_InrI: "m s = (Inr x, s') \<Longrightarrow> andthen m k s = k x s'"
  by (simp add: andthen_def)

lemma andthen_InlI: "m s = (Inl e, s') \<Longrightarrow> andthen m k s = (Inl e, s')"
  by (simp add: andthen_def)

text \<open>
  A property of states that a computation keeps whether it succeeds or fails. The
  invariants of the buffers are proved for each operation in this form, and the
  combinators below carry them to the operations built from others.
\<close>

definition preserves :: "('s \<Rightarrow> bool) \<Rightarrow> ('e, 's, 'a) run \<Rightarrow> bool" where
  "preserves I m \<longleftrightarrow> (\<forall>s. I s \<longrightarrow> I (snd (m s)))"

lemma preservesI [intro?]: "(\<And>s. I s \<Longrightarrow> I (snd (m s))) \<Longrightarrow> preserves I m"
  by (simp add: preserves_def)

lemma preservesD: "preserves I m \<Longrightarrow> I s \<Longrightarrow> I (snd (m s))"
  by (simp add: preserves_def)

lemma preserves_runD: "preserves I m \<Longrightarrow> I s \<Longrightarrow> m s = (r, t) \<Longrightarrow> I t"
  using preservesD by fastforce

lemma preserves_ret [simp, intro]: "preserves I (ret x)"
  by (simp add: preserves_def ret_def)

lemma preserves_throw [simp, intro]: "preserves I (throw e)"
  by (simp add: preserves_def throw_def)

lemma preserves_andthen [intro]:
  assumes "preserves I m" and "\<And>x. preserves I (k x)"
  shows "preserves I (andthen m k)"
proof
  fix s assume "I s"
  obtain r s' where ms: "m s = (r, s')" by fastforce
  then have "I s'" using assms(1) \<open>I s\<close> by (rule preserves_runD[rotated 2])
  then show "I (snd (andthen m k s))"
    using ms assms(2) by (cases r) (auto simp: andthen_def dest: preservesD)
qed

subsection \<open>Big-endian integers: the PEEK and POKE macros of sshbuf.h\<close>

definition PEEK_U64 :: "u8 list \<Rightarrow> u64" where
  "PEEK_U64 p =
     push_bit 56 (ucast (p ! 0)) OR push_bit 48 (ucast (p ! 1)) OR
     push_bit 40 (ucast (p ! 2)) OR push_bit 32 (ucast (p ! 3)) OR
     push_bit 24 (ucast (p ! 4)) OR push_bit 16 (ucast (p ! 5)) OR
     push_bit 8 (ucast (p ! 6)) OR ucast (p ! 7)"

definition PEEK_U32 :: "u8 list \<Rightarrow> u32" where
  "PEEK_U32 p =
     push_bit 24 (ucast (p ! 0)) OR push_bit 16 (ucast (p ! 1)) OR
     push_bit 8 (ucast (p ! 2)) OR ucast (p ! 3)"

definition PEEK_U16 :: "u8 list \<Rightarrow> u16" where
  "PEEK_U16 p = push_bit 8 (ucast (p ! 0)) OR ucast (p ! 1)"

definition POKE_U64 :: "u64 \<Rightarrow> u8 list" where
  "POKE_U64 v =
     [ucast (drop_bit 56 v AND 0xff), ucast (drop_bit 48 v AND 0xff),
      ucast (drop_bit 40 v AND 0xff), ucast (drop_bit 32 v AND 0xff),
      ucast (drop_bit 24 v AND 0xff), ucast (drop_bit 16 v AND 0xff),
      ucast (drop_bit 8 v AND 0xff), ucast (v AND 0xff)]"

definition POKE_U32 :: "u32 \<Rightarrow> u8 list" where
  "POKE_U32 v =
     [ucast (drop_bit 24 v AND 0xff), ucast (drop_bit 16 v AND 0xff),
      ucast (drop_bit 8 v AND 0xff), ucast (v AND 0xff)]"

definition POKE_U16 :: "u16 \<Rightarrow> u8 list" where
  "POKE_U16 v = [ucast (drop_bit 8 v AND 0xff), ucast (v AND 0xff)]"

lemma mask_255: "(255::'a::len word) = mask 8"
  by (simp add: mask_eq_exp_minus_1)

lemmas byte_bit_simps =
  mask_255 bit_or_iff bit_push_bit_iff bit_unsigned_iff bit_and_iff bit_drop_bit_eq
  bit_mask_iff less_diff_conv2

lemma PEEK_POKE_U16 [simp]: "PEEK_U16 (POKE_U16 v) = v"
proof (rule bit_word_eqI)
  fix n assume "n < LENGTH(16)"
  then consider "n < 8" | "8 \<le> n" "n < 16" by fastforce
  then show "bit (PEEK_U16 (POKE_U16 v)) n = bit v n"
    by cases (simp_all add: PEEK_U16_def POKE_U16_def byte_bit_simps)
qed

lemma PEEK_POKE_U32 [simp]: "PEEK_U32 (POKE_U32 v) = v"
proof (rule bit_word_eqI)
  fix n assume "n < LENGTH(32)"
  then consider "n < 8" | "8 \<le> n" "n < 16" | "16 \<le> n" "n < 24" | "24 \<le> n" "n < 32"
    by fastforce
  then show "bit (PEEK_U32 (POKE_U32 v)) n = bit v n"
    by cases (simp_all add: PEEK_U32_def POKE_U32_def byte_bit_simps)
qed

lemma PEEK_POKE_U64 [simp]: "PEEK_U64 (POKE_U64 v) = v"
proof (rule bit_word_eqI)
  fix n assume "n < LENGTH(64)"
  then consider "n < 8" | "8 \<le> n" "n < 16" | "16 \<le> n" "n < 24" | "24 \<le> n" "n < 32"
    | "32 \<le> n" "n < 40" | "40 \<le> n" "n < 48" | "48 \<le> n" "n < 56" | "56 \<le> n" "n < 64"
    by fastforce
  then show "bit (PEEK_U64 (POKE_U64 v)) n = bit v n"
    by cases (simp_all add: PEEK_U64_def POKE_U64_def byte_bit_simps)
qed

lemma length_POKE [simp]:
  "length (POKE_U64 v) = 8" "length (POKE_U32 w) = 4" "length (POKE_U16 x) = 2"
  by (simp_all add: POKE_U64_def POKE_U32_def POKE_U16_def)

lemma length_4_ex: "length xs = 4 \<Longrightarrow> \<exists>a b c d. xs = [a, b, c, d]"
  by (auto simp: numeral_eq_Suc length_Suc_conv)

lemma bit_u8_high: "8 \<le> n \<Longrightarrow> \<not> bit (b :: u8) n"
  using bit_imp_le_length [of b n] by auto

lemma POKE_PEEK_U32: "length p = 4 \<Longrightarrow> POKE_U32 (PEEK_U32 p) = p"
proof -
  assume "length p = 4"
  then obtain a b c d where p: "p = [a, b, c, d]" using length_4_ex by blast
  have byte: "x = y" if "\<And>n. n < 8 \<Longrightarrow> bit x n = bit y n" for x y :: u8
    using that by (intro bit_word_eqI) simp
  show ?thesis
    unfolding p POKE_U32_def PEEK_U32_def
    by (auto intro!: byte simp: byte_bit_simps bit_u8_high)
qed

text \<open>Only the first bytes count: the value read does not depend on what follows.\<close>

lemma PEEK_append [simp]:
  "length p = 8 \<Longrightarrow> PEEK_U64 (p @ q) = PEEK_U64 p"
  "length r = 4 \<Longrightarrow> PEEK_U32 (r @ q) = PEEK_U32 r"
  "length s = 2 \<Longrightarrow> PEEK_U16 (s @ q) = PEEK_U16 s"
  by (simp_all add: PEEK_U64_def PEEK_U32_def PEEK_U16_def nth_append)

lemma PEEK_take [simp]:
  "8 \<le> n \<Longrightarrow> n \<le> length p \<Longrightarrow> PEEK_U64 (take n p) = PEEK_U64 p"
  "4 \<le> n \<Longrightarrow> n \<le> length p \<Longrightarrow> PEEK_U32 (take n p) = PEEK_U32 p"
  "2 \<le> n \<Longrightarrow> n \<le> length p \<Longrightarrow> PEEK_U16 (take n p) = PEEK_U16 p"
  by (simp_all add: PEEK_U64_def PEEK_U32_def PEEK_U16_def)

subsection \<open>Lists as memory\<close>

text \<open>
  \<open>mem_write k bs m\<close> is the effect of \<^verbatim>\<open>memcpy(m + k, bs, length bs)\<close> on the bytes of
  an allocation; \<open>mem_read k n m\<close> are the \<open>n\<close> bytes at \<open>m + k\<close>.
\<close>

definition mem_write :: "nat \<Rightarrow> 'a list \<Rightarrow> 'a list \<Rightarrow> 'a list" where
  "mem_write k bs m = take k m @ bs @ drop (k + length bs) m"

definition mem_read :: "nat \<Rightarrow> nat \<Rightarrow> 'a list \<Rightarrow> 'a list" where
  "mem_read k n m = take n (drop k m)"

lemma length_mem_write [simp]:
  "k + length bs \<le> length m \<Longrightarrow> length (mem_write k bs m) = length m"
  by (simp add: mem_write_def)

lemma length_mem_read [simp]: "k + n \<le> length m \<Longrightarrow> length (mem_read k n m) = n"
  by (simp add: mem_read_def)

lemma mem_write_Nil [simp]: "k \<le> length m \<Longrightarrow> mem_write k [] m = m"
  by (simp add: mem_write_def)

lemma mem_read_0 [simp]: "mem_read k 0 m = []"
  by (simp add: mem_read_def)

lemma mem_read_write_same [simp]:
  "k + length bs \<le> length m \<Longrightarrow> mem_read k (length bs) (mem_write k bs m) = bs"
  by (simp add: mem_read_def mem_write_def)

lemma mem_read_write_before:
  "j + n \<le> k \<Longrightarrow> k \<le> length m \<Longrightarrow> mem_read j n (mem_write k bs m) = mem_read j n m"
  by (simp add: mem_read_def mem_write_def drop_take)

lemma mem_read_write_around:
  "j \<le> k \<Longrightarrow> k + length bs \<le> j + n \<Longrightarrow> j + n \<le> length m \<Longrightarrow>
   mem_read j n (mem_write k bs m) = mem_write (k - j) bs (mem_read j n m)"
proof -
  assume le: "j \<le> k" "k + length bs \<le> j + n" "j + n \<le> length m"
  have "drop (k - j + length bs) (drop j m) = drop (k + length bs) m"
    using le by (simp add: add.commute)
  moreover have "n = k - j \<Longrightarrow> bs = []" and "k - j \<le> n" and "length bs \<le> n + j - k"
    using le by simp_all
  ultimately show ?thesis
    using le by (auto simp add: mem_read_def mem_write_def drop_take min_def)
qed

lemma mem_read_append:
  "mem_read k (n + l) m = mem_read k n m @ mem_read (k + n) l m"
  by (simp add: mem_read_def take_add add.commute [of k n])

lemma mem_read_drop: "drop i (mem_read k n m) = mem_read (k + i) (n - i) m"
  by (simp add: mem_read_def drop_take add.commute)

lemma mem_read_take: "i \<le> n \<Longrightarrow> take i (mem_read k n m) = mem_read k i m"
  by (simp add: mem_read_def min_def)

end
