(* ===== verification/Alloc.thy ===== *)
theory Alloc
  imports Prelude
begin

text \<open>
  The allocator and \<^verbatim>\<open>recallocarray\<close> (\<^verbatim>\<open>openbsd-compat/recallocarray.c\<close>), on which the
  buffers and the bitmaps grow and shrink their storage.

  The C allocator is a parameter of the functions that allocate: for a request of \<open>n\<close> bytes
  \<open>malloc\<close> gives the address of the new allocation, or \<open>None\<close> where the C function returns
  \<^verbatim>\<open>NULL\<close>. Nothing is assumed of it, so every theorem covers allocation failure at any point.
\<close>

record allocator =
  malloc :: "nat \<Rightarrow> ptr option"
  getpagesize :: nat

text \<open>\<^verbatim>\<open>calloc(nmemb, size)\<close> of libc: it fails when the product overflows, and zero-fills.\<close>

definition calloc :: "allocator \<Rightarrow> 'a \<Rightarrow> nat \<Rightarrow> nat \<Rightarrow> (ptr \<times> 'a list) option" where
  "calloc A z nmemb sz =
     (if nmemb * sz > SIZE_MAX then None
      else map_option (\<lambda>p. (p, replicate nmemb z)) (malloc A (nmemb * sz)))"

definition MUL_NO_OVERFLOW :: nat where
  "MUL_NO_OVERFLOW = 2 ^ 16"

text \<open>
  The contents of the array are a list of its elements, \<open>z\<close> being the element whose bytes are all
  zero; \<open>sz\<close> is the size of an element in bytes.
\<close>

definition recallocarray ::
    "allocator \<Rightarrow> 'a \<Rightarrow> ptr option \<Rightarrow> 'a list \<Rightarrow> nat \<Rightarrow> nat \<Rightarrow> nat \<Rightarrow> (ptr \<times> 'a list) option" where
  "recallocarray A z p xs oldnmemb newnmemb sz =
     (case p of
        None \<Rightarrow> calloc A z newnmemb sz
      | Some q \<Rightarrow>
          if (newnmemb \<ge> MUL_NO_OVERFLOW \<or> sz \<ge> MUL_NO_OVERFLOW) \<and>
             newnmemb > 0 \<and> SIZE_MAX div newnmemb < sz
          then None
          else let newsize = newnmemb * sz in
          if (oldnmemb \<ge> MUL_NO_OVERFLOW \<or> sz \<ge> MUL_NO_OVERFLOW) \<and>
             oldnmemb > 0 \<and> SIZE_MAX div oldnmemb < sz
          then None
          else let oldsize = oldnmemb * sz in
          if newsize \<le> oldsize \<and> oldsize - newsize < oldsize div 2 \<and>
             oldsize - newsize < getpagesize A
          then Some (q, take newnmemb xs)
          else (case malloc A newsize of
                  None \<Rightarrow> None
                | Some newptr \<Rightarrow>
                    Some (newptr,
                      if newsize > oldsize
                      then take oldnmemb xs @ replicate (newnmemb - oldnmemb) z
                      else take newnmemb xs)))"

text \<open>
  What the callers rely on: the result has the requested number of elements, the old elements
  are kept up to the smaller of the two sizes, and the elements beyond the old ones are zero.
\<close>

lemma recallocarray_contents:
  assumes "recallocarray A z (Some p) xs (length xs) n sz = Some (q, ys)" and "0 < sz"
  shows "ys = take n (xs @ replicate (n - length xs) z)"
proof (cases "length xs * sz < n * sz")
  case True
  then have "length xs < n" using assms(2) by simp
  then show ?thesis using assms
    by (auto simp: recallocarray_def Let_def split: if_splits option.splits)
next
  case False
  then have "n \<le> length xs" using assms(2) by simp
  then show ?thesis using assms
    by (auto simp: recallocarray_def Let_def split: if_splits option.splits)
qed

lemma recallocarray_length:
  "recallocarray A z (Some p) xs (length xs) n sz = Some (q, ys) \<Longrightarrow> 0 < sz \<Longrightarrow> length ys = n"
  by (drule recallocarray_contents) auto

lemma recallocarray_grow:
  "recallocarray A z (Some p) xs (length xs) n sz = Some (q, ys) \<Longrightarrow> 0 < sz \<Longrightarrow>
   length xs \<le> n \<Longrightarrow> ys = xs @ replicate (n - length xs) z"
  by (drule recallocarray_contents) auto

text \<open>Growing succeeds whenever \<^verbatim>\<open>malloc\<close> does and the byte counts fit into \<^verbatim>\<open>size_t\<close>.\<close>

lemma recallocarray_grow_Some:
  assumes "length xs < n" and "0 < sz" and "n * sz \<le> SIZE_MAX" and "malloc A (n * sz) = Some q"
  shows "recallocarray A z (Some p) xs (length xs) n sz =
           Some (q, xs @ replicate (n - length xs) z)"
proof -
  have le: "length xs * sz < n * sz" using assms(1,2) by simp
  have ok: "sz \<le> SIZE_MAX div m" if "0 < m" "m * sz \<le> SIZE_MAX" for m
    using that by (simp add: less_eq_div_iff_mult_less_eq mult.commute)
  from ok[of n] ok[of "length xs"] le assms show ?thesis
    by (auto simp: recallocarray_def Let_def not_less)
qed

text \<open>An allocator that never fails, for the statements that an operation succeeds.\<close>

definition never_fails :: "allocator \<Rightarrow> bool" where
  "never_fails A \<longleftrightarrow> (\<forall>n. malloc A n \<noteq> None)"

lemma never_fails_malloc: "never_fails A \<Longrightarrow> \<exists>p. malloc A n = Some p"
  unfolding never_fails_def by (metis option.exhaust)

lemma recallocarray_total:
  assumes "never_fails A" and "n * sz \<le> SIZE_MAX" and "m * sz \<le> SIZE_MAX"
  shows "recallocarray A z p xs m n sz \<noteq> None"
proof -
  have ok: "sz \<le> SIZE_MAX div k" if "0 < k" "k * sz \<le> SIZE_MAX" for k
    using that by (simp add: less_eq_div_iff_mult_less_eq mult.commute)
  have g: "((k \<ge> MUL_NO_OVERFLOW \<or> sz \<ge> MUL_NO_OVERFLOW) \<and> k > 0 \<and> SIZE_MAX div k < sz) = False"
    if "k * sz \<le> SIZE_MAX" for k
    using ok [of k] that by auto
  obtain q where "malloc A (n * sz) = Some q"
    using assms(1) unfolding never_fails_def by blast
  then show ?thesis
    unfolding recallocarray_def Let_def g [OF assms(2)] g [OF assms(3)] calloc_def if_False
    using assms(2) by (cases "sz = 0") (simp_all split: option.split)
qed

definition demo_allocator :: allocator where
  "demo_allocator = \<lparr>malloc = (\<lambda>n. Some (n, 0)), getpagesize = 65536\<rparr>"

lemma demo_never_fails: "never_fails demo_allocator"
  by (simp add: never_fails_def demo_allocator_def)

end
