(* ===== verification/Bitmap.thy ===== *)
theory Bitmap
  imports Alloc
begin

text \<open>
  The growable bitmaps of \<^verbatim>\<open>bitmap.c\<close>, used by the key revocation lists. A bitmap is an array of
  32-bit words with a top index; its meaning is the set of the numbers of its bits. The theory shows
  that the operations implement the operations on finite sets of numbers, that the loop that searches
  the most significant bit ends, and that the conversions to and from big-endian strings are inverse.
\<close>

subsection \<open>Structure\<close>

definition BITMAP_MAX :: nat where "BITMAP_MAX = 2 ^ 24"
definition BITMAP_BYTES :: nat where "BITMAP_BYTES = 4"
definition BITMAP_BITS :: nat where "BITMAP_BITS = BITMAP_BYTES * 8"

lemmas bitmap_consts = BITMAP_MAX_def BITMAP_BYTES_def BITMAP_BITS_def

text \<open>\<open>n & BITMAP_WMASK\<close> is \<open>n mod 32\<close>, the mask being 31.\<close>

record bitmap =
  bm_p :: ptr
  bm_d :: "u32 list"
  bm_len :: nat
  bm_top :: nat

subsection \<open>Operations\<close>

definition bitmap_new :: "allocator \<Rightarrow> bitmap option" where
  "bitmap_new A =
     (case malloc A 12 of
        None \<Rightarrow> None
      | Some _ \<Rightarrow>
          (case calloc A (0::u32) 1 BITMAP_BYTES of
             None \<Rightarrow> None
           | Some (p, d) \<Rightarrow> Some \<lparr>bm_p = p, bm_d = d, bm_len = 1, bm_top = 0\<rparr>))"

definition bitmap_zero :: "bitmap \<Rightarrow> bitmap" where
  "bitmap_zero b = b\<lparr>bm_d := replicate (bm_len b) 0, bm_top := 0\<rparr>"

text \<open>What is handed back to the allocator: the array is cleared first (\<open>None\<close> is \<^verbatim>\<open>NULL\<close>).\<close>

definition bitmap_free :: "bitmap option \<Rightarrow> bitmap option" where
  "bitmap_free b = map_option bitmap_zero b"

definition bitmap_test_bit :: "bitmap \<Rightarrow> nat \<Rightarrow> bool" where
  "bitmap_test_bit b n =
     (if bm_top b \<ge> bm_len b then False
      else if bm_len b = 0 \<or> n div BITMAP_BITS > bm_top b then False
      else drop_bit (n mod 32) (bm_d b ! (n div BITMAP_BITS)) AND 1 \<noteq> 0)"

definition reserve :: "allocator \<Rightarrow> nat \<Rightarrow> bitmap \<Rightarrow> bitmap option" where
  "reserve A n b =
     (if bm_top b \<ge> bm_len b \<or> n > BITMAP_MAX then None
      else
        let nlen = n div BITMAP_BITS + 1 in
        if bm_len b < nlen
        then (case recallocarray A 0 (Some (bm_p b)) (bm_d b) (bm_len b) nlen BITMAP_BYTES of
                None \<Rightarrow> None
              | Some (p, d) \<Rightarrow> Some (b\<lparr>bm_p := p, bm_d := d, bm_len := nlen\<rparr>))
        else Some b)"

definition bitmap_set_bit :: "allocator \<Rightarrow> bitmap \<Rightarrow> nat \<Rightarrow> bitmap option" where
  "bitmap_set_bit A b n =
     (case reserve A n b of
        None \<Rightarrow> None
      | Some b1 \<Rightarrow>
          let offset = n div BITMAP_BITS;
              b2 = (if offset > bm_top b1 then b1\<lparr>bm_top := offset\<rparr> else b1)
          in Some (b2\<lparr>bm_d := (bm_d b2)[offset := bm_d b2 ! offset OR push_bit (n mod 32) 1]\<rparr>))"

fun retop_from :: "u32 list \<Rightarrow> nat \<Rightarrow> nat" where
  "retop_from d 0 = 0"
| "retop_from d (Suc t) = (if d ! Suc t = 0 then retop_from d t else Suc t)"

definition retop :: "bitmap \<Rightarrow> bitmap" where
  "retop b = (if bm_top b \<ge> bm_len b then b else b\<lparr>bm_top := retop_from (bm_d b) (bm_top b)\<rparr>)"

definition bitmap_clear_bit :: "bitmap \<Rightarrow> nat \<Rightarrow> bitmap" where
  "bitmap_clear_bit b n =
     (if bm_top b \<ge> bm_len b \<or> n > BITMAP_MAX then b
      else
        let offset = n div BITMAP_BITS in
        if offset > bm_top b then b
        else retop (b\<lparr>bm_d := (bm_d b)[offset := bm_d b ! offset AND NOT (push_bit (n mod 32) 1)]\<rparr>))"

text \<open>
  The search for the most significant bit: it would not end on a zero word, so it is a partial
  function and returning is proved.
\<close>

partial_function (option) msb_loop :: "u32 \<Rightarrow> nat \<Rightarrow> nat option" where
  "msb_loop w bits =
     (if w AND push_bit (BITMAP_BITS - 1) 1 = 0 then msb_loop (push_bit 1 w) (bits - 1) else Some bits)"

definition bitmap_nbits :: "bitmap \<Rightarrow> (nat \<times> bitmap) option" where
  "bitmap_nbits b0 =
     (let b = retop b0 in
      if bm_top b \<ge> bm_len b then Some (0, b)
      else if bm_len b = 0 \<or> (bm_top b = 0 \<and> bm_d b ! 0 = 0) then Some (0, b)
      else map_option (\<lambda>bits. (bits, b)) (msb_loop (bm_d b ! bm_top b) ((bm_top b + 1) * BITMAP_BITS)))"

definition bitmap_nbytes :: "bitmap \<Rightarrow> (nat \<times> bitmap) option" where
  "bitmap_nbytes b = map_option (\<lambda>(bits, b). ((bits + 7) div 8, b)) (bitmap_nbits b)"

text \<open>The two nested loops of \<^verbatim>\<open>bitmap_to_string\<close>: over the bytes of a word, and over the words.\<close>

function to_string_bytes :: "u32 \<Rightarrow> nat \<Rightarrow> nat \<Rightarrow> nat \<Rightarrow> nat \<Rightarrow> u8 list \<Rightarrow> nat \<times> u8 list" where
  "to_string_bytes w need l j k s =
     (if j < BITMAP_BYTES then
        (if k \<ge> l then (k, s)
         else to_string_bytes w need l (j + 1) (k + 1) (s[need - 1 - k := ucast (drop_bit (j * 8) w AND 0xff)]))
      else (k, s))"
  by pat_completeness auto
termination by (relation "measure (\<lambda>(w, need, l, j, k, s). BITMAP_BYTES - j)") auto

declare to_string_bytes.simps [simp del]

fun to_string_words :: "u32 list \<Rightarrow> nat \<Rightarrow> nat \<Rightarrow> nat \<Rightarrow> u8 list \<Rightarrow> u8 list" where
  "to_string_words [] need l k s = s"
| "to_string_words (w # ws) need l k s =
     (case to_string_bytes w need l 0 k s of (k', s') \<Rightarrow> to_string_words ws need l k' s')"

text \<open>
  The caller's array is \<open>s\<close>; its length is the argument \<^verbatim>\<open>l\<close>. The result is the array after the
  writes, or the failure, and the bitmap (whose top index may have been adjusted).
\<close>

definition bitmap_to_string :: "bitmap \<Rightarrow> u8 list \<Rightarrow> (u8 list option \<times> bitmap) option" where
  "bitmap_to_string b0 s =
     (case bitmap_nbytes b0 of
        None \<Rightarrow> None
      | Some (need, b) \<Rightarrow>
          if length s < need \<or> bm_top b \<ge> bm_len b then Some (None, b)
          else
            let l = (if length s > need then need else length s)
            in Some (Some (to_string_words (take (bm_top b + 1) (bm_d b)) need l 0 s), b))"

fun from_string_loop :: "u8 list \<Rightarrow> nat \<Rightarrow> nat \<Rightarrow> u32 list \<Rightarrow> u32 list" where
  "from_string_loop [] offset shift d = d"
| "from_string_loop (x # s) offset shift d =
     (let d' = d[offset := d ! offset OR push_bit shift (ucast x)] in
      if shift = 0 then from_string_loop s (offset - 1) (BITMAP_BITS - 8) d'
      else from_string_loop s offset (shift - 8) d')"

definition bitmap_from_string :: "allocator \<Rightarrow> bitmap \<Rightarrow> u8 list \<Rightarrow> bitmap option" where
  "bitmap_from_string A b s =
     (let l = length s in
      if l > BITMAP_MAX div 8 then None
      else
        (case reserve A (l * 8) b of
           None \<Rightarrow> None
         | Some b1 \<Rightarrow>
             let b2 = bitmap_zero b1 in
             if l = 0 then Some b2
             else
               let offset = (l + (BITMAP_BYTES - 1)) div BITMAP_BYTES - 1;
                   shift = (l + (BITMAP_BYTES - 1)) mod BITMAP_BYTES * 8
               in Some (retop (b2\<lparr>bm_top := offset,
                                  bm_d := from_string_loop s offset shift (bm_d b2)\<rparr>))))"

subsection \<open>The set a bitmap stands for\<close>

definition wbit :: "u32 list \<Rightarrow> nat \<Rightarrow> bool" where
  "wbit d n \<longleftrightarrow> n div 32 < length d \<and> bit (d ! (n div 32)) (n mod 32)"

definition bits :: "bitmap \<Rightarrow> nat set" where
  "bits b = {n. wbit (bm_d b) n}"

definition bitmap_ok :: "bitmap \<Rightarrow> bool" where
  "bitmap_ok b \<longleftrightarrow>
     length (bm_d b) = bm_len b \<and> bm_top b < bm_len b \<and> bm_len b \<le> 2 ^ 19 + 1 \<and>
     (\<forall>i. bm_top b < i \<longrightarrow> i < bm_len b \<longrightarrow> bm_d b ! i = 0) \<and> bits b \<subseteq> {..BITMAP_MAX}"

lemma wbit_update:
  "k < length d \<Longrightarrow> wbit (d[k := w]) n \<longleftrightarrow> (if n div 32 = k then bit w (n mod 32) else wbit d n)"
  by (auto simp: wbit_def nth_list_update)

lemma wbit_append_zeros: "wbit (d @ replicate k 0) n \<longleftrightarrow> wbit d n"
  by (auto simp: wbit_def nth_append)

lemma wbit_replicate [simp]: "\<not> wbit (replicate k 0) n"
  by (simp add: wbit_def)

lemma bit_of_word: "drop_bit k (w::u32) AND 1 \<noteq> 0 \<longleftrightarrow> bit w k"
  by (simp add: and_one_eq odd_iff_mod_2_eq_one [symmetric] bit_iff_odd_drop_bit)

lemma div_mod_32: "n div 32 = (m::nat) div 32 \<and> n mod 32 = m mod 32 \<longleftrightarrow> n = m"
  by (metis div_mult_mod_eq)

lemma bitmap_okD:
  assumes "bitmap_ok b"
  shows "length (bm_d b) = bm_len b" and "bm_top b < bm_len b" and "bm_len b \<le> 2 ^ 19 + 1"
    and "\<And>i. bm_top b < i \<Longrightarrow> i < bm_len b \<Longrightarrow> bm_d b ! i = 0" and "bits b \<subseteq> {..BITMAP_MAX}"
  using assms by (auto simp: bitmap_ok_def)

lemma bits_top: "bitmap_ok b \<Longrightarrow> n \<in> bits b \<Longrightarrow> n div 32 \<le> bm_top b"
  using bitmap_okD(1) [of b] bitmap_okD(4) [of b "n div 32"]
  by (cases "n div 32 \<le> bm_top b") (auto simp: bits_def wbit_def)

lemma test_bit_bits: "bitmap_ok b \<Longrightarrow> bitmap_test_bit b n \<longleftrightarrow> n \<in> bits b"
  using bitmap_okD(1,2) [of b] bits_top [of b n]
  by (auto simp: bitmap_test_bit_def bits_def wbit_def bitmap_consts bit_of_word)

lemma reserve_result:
  assumes "bitmap_ok b" and "reserve A n b = Some b1"
  shows "bitmap_ok b1" and "bits b1 = bits b" and "bm_top b1 = bm_top b" and "n div 32 < bm_len b1"
    and "n \<le> BITMAP_MAX" and "bm_len b \<le> bm_len b1"
proof -
  note ok = bitmap_okD [OF assms(1)]
  have n: "n \<le> BITMAP_MAX" using assms(2) by (auto simp: reserve_def split: if_splits)
  then have small: "n div 32 + 1 \<le> 2 ^ 19 + 1" by (simp add: bitmap_consts)
  have "bitmap_ok b1 \<and> bits b1 = bits b \<and> bm_top b1 = bm_top b \<and> n div 32 < bm_len b1 \<and> bm_len b \<le> bm_len b1"
  proof (cases "bm_len b < n div 32 + 1")
    case True
    then obtain p d where d: "recallocarray A 0 (Some (bm_p b)) (bm_d b) (length (bm_d b)) (n div 32 + 1) 4 = Some (p, d)"
      and b1: "b1 = b\<lparr>bm_p := p, bm_d := d, bm_len := n div 32 + 1\<rparr>"
      using assms(2) ok(1) n by (auto simp: reserve_def bitmap_consts Let_def split: if_splits option.splits)
    have "d = bm_d b @ replicate (n div 32 + 1 - bm_len b) 0"
      using recallocarray_grow [OF d] True ok(1) by simp
    moreover have "bits b1 = bits b"
      using calculation b1 by (simp add: bits_def wbit_append_zeros)
    ultimately show ?thesis
      using b1 ok True small by (auto simp: bitmap_ok_def nth_append)
  next
    case False
    then show ?thesis using assms n ok by (auto simp: reserve_def bitmap_consts)
  qed
  with n show "bitmap_ok b1" and "bits b1 = bits b" and "bm_top b1 = bm_top b" and "n div 32 < bm_len b1"
    and "n \<le> BITMAP_MAX" and "bm_len b \<le> bm_len b1" by auto
qed

lemma reserve_total:
  assumes "bitmap_ok b" and "never_fails A" and "n \<le> BITMAP_MAX"
  shows "\<exists>b1. reserve A n b = Some b1"
proof -
  note ok = bitmap_okD [OF assms(1)]
  have "recallocarray A 0 (Some (bm_p b)) (bm_d b) (bm_len b) (n div 32 + 1) 4 \<noteq> None"
    using assms(3) ok(3) by (intro recallocarray_total [OF assms(2)]) (auto simp: bitmap_consts SIZE_MAX_def)
  then show ?thesis
    using assms(3) ok(2) by (auto simp: reserve_def bitmap_consts Let_def split: option.splits)
qed

lemma set_bit_result:
  assumes "bitmap_ok b" and "bitmap_set_bit A b n = Some b'"
  shows "bitmap_ok b' \<and> bits b' = insert n (bits b)"
proof -
  obtain b1 where b1: "reserve A n b = Some b1"
    using assms(2) by (auto simp: bitmap_set_bit_def split: option.splits)
  note r = reserve_result [OF assms(1) b1] and ok = bitmap_okD [OF reserve_result(1) [OF assms(1) b1]]
  let ?o = "n div 32" and ?w = "bm_d b1 ! (n div 32) OR push_bit (n mod 32) 1"
  have b': "b' = b1\<lparr>bm_top := max ?o (bm_top b1), bm_d := (bm_d b1)[?o := ?w]\<rparr>"
    using assms(2) b1 by (auto simp: bitmap_set_bit_def Let_def bitmap_consts max_def)
  have "wbit ((bm_d b1)[?o := ?w]) m \<longleftrightarrow> m = n \<or> wbit (bm_d b1) m" for m
    using r(4) ok(1) div_mod_32 [of m n]
    by (auto simp: wbit_def nth_list_update bit_simps)
  then have "bits b' = insert n (bits b)" using r(2) b' by (auto simp: bits_def)
  moreover have "bits b' \<subseteq> {..BITMAP_MAX}" using calculation r(5) bitmap_okD(5) [OF assms(1)] by simp
  ultimately show ?thesis using b' ok r(4) by (auto simp: bitmap_ok_def nth_list_update)
qed

lemma retop_from_le: "retop_from d t \<le> t"
  by (induction t) auto

lemma retop_from_zero: "retop_from d t < i \<Longrightarrow> i \<le> t \<Longrightarrow> d ! i = 0"
  by (induction t) (auto split: if_splits simp: le_Suc_eq)

lemma retop_from_nonzero: "retop_from d t = 0 \<or> d ! retop_from d t \<noteq> 0"
  by (induction t) auto

lemma retop_result:
  assumes "bitmap_ok b"
  shows "bitmap_ok (retop b)" and "bits (retop b) = bits b" and "bm_d (retop b) = bm_d b"
    and "bm_len (retop b) = bm_len b" and "bm_top (retop b) = 0 \<or> bm_d b ! bm_top (retop b) \<noteq> 0"
proof -
  note ok = bitmap_okD [OF assms]
  have t: "retop b = b\<lparr>bm_top := retop_from (bm_d b) (bm_top b)\<rparr>" using ok(2) by (simp add: retop_def)
  show "bits (retop b) = bits b" "bm_d (retop b) = bm_d b" "bm_len (retop b) = bm_len b"
    by (simp_all add: t bits_def)
  show "bm_top (retop b) = 0 \<or> bm_d b ! bm_top (retop b) \<noteq> 0"
    using retop_from_nonzero by (simp add: t)
  have "bm_d b ! i = 0" if "retop_from (bm_d b) (bm_top b) < i" "i < bm_len b" for i
    using retop_from_zero [OF that(1)] ok(4) that(2) by (cases "i \<le> bm_top b") auto
  then show "bitmap_ok (retop b)"
    using ok retop_from_le [of "bm_d b" "bm_top b"] by (auto simp: t bitmap_ok_def bits_def)
qed

lemma clear_bit_result:
  assumes "bitmap_ok b"
  shows "bitmap_ok (bitmap_clear_bit b n) \<and> bits (bitmap_clear_bit b n) = bits b - {n}"
proof -
  note ok = bitmap_okD [OF assms]
  show ?thesis
  proof (cases "n \<le> BITMAP_MAX \<and> n div 32 \<le> bm_top b")
    case False
    then have "bitmap_clear_bit b n = b"
      by (auto simp: bitmap_clear_bit_def Let_def bitmap_consts)
    moreover have "n \<notin> bits b" using False ok(5) bits_top [OF assms, of n] by auto
    ultimately show ?thesis using assms by auto
  next
    case 2: True
    let ?w = "bm_d b ! (n div 32) AND NOT (push_bit (n mod 32) 1)"
    define b1 where "b1 = b\<lparr>bm_d := (bm_d b)[n div 32 := ?w]\<rparr>"
    have c: "bitmap_clear_bit b n = retop b1"
      using 2 ok(2) by (simp add: bitmap_clear_bit_def Let_def bitmap_consts b1_def)
    have "wbit ((bm_d b)[n div 32 := ?w]) m \<longleftrightarrow> m \<noteq> n \<and> wbit (bm_d b) m" for m
      using 2 ok(1,2) div_mod_32 [of m n]
      by (auto simp: wbit_def nth_list_update bit_simps)
    then have "bits b1 = bits b - {n}" by (auto simp: bits_def b1_def)
    moreover have "bitmap_ok b1" using ok 2 calculation by (auto simp: bitmap_ok_def b1_def nth_list_update)
    ultimately show ?thesis using retop_result [of b1] c by simp
  qed
qed

subsection \<open>The most significant bit\<close>

definition nbits_of :: "nat set \<Rightarrow> nat" where
  "nbits_of S = (if S = {} then 0 else Max S + 1)"

lemma msb_mask: "(w::u32) AND push_bit 31 1 = 0 \<longleftrightarrow> \<not> bit w 31"
  by (simp only: push_bit_of_1 and_exp_eq_0_iff_not_bit)

lemma bit_shift_left: "bit (push_bit 1 (w::u32)) i \<longleftrightarrow> 0 < i \<and> i < 32 \<and> bit w (i - 1)"
  by (auto simp only: bit_push_bit_iff possible_bit_word Suc_le_eq One_nat_def len_of_numeral_defs)

lemma msb_loop_returns:
  "bit w m \<Longrightarrow> m < 32 \<Longrightarrow> (\<And>i. m < i \<Longrightarrow> \<not> bit w i) \<Longrightarrow> msb_loop w n = Some (n - (31 - m))"
proof (induction "31 - m" arbitrary: m w n)
  case 0
  then have "m = 31" by simp
  then show ?case using 0 msb_mask [of w] by (simp add: msb_loop.simps bitmap_consts)
next
  case (Suc k)
  then have m: "m < 31" by simp
  have IH: "msb_loop (push_bit 1 w) (n - 1) = Some (n - 1 - (31 - (m + 1)))"
    using Suc.prems Suc.hyps(2)
    by (intro Suc.hyps(1)) (auto simp only: bit_shift_left, auto)
  then show ?case
    using m msb_mask [of w] Suc.prems(3) [of 31] by (simp add: msb_loop.simps [of w] bitmap_consts)
qed

lemma highest_bit:
  assumes "(w::u32) \<noteq> 0"
  obtains m where "bit w m" and "m < 32" and "\<And>i. m < i \<Longrightarrow> \<not> bit w i"
proof -
  let ?S = "{i. bit w i}"
  have sub: "?S \<subseteq> {..<32}" by (auto dest: bit_imp_le_length)
  then have fin: "finite ?S" using finite_subset by blast
  have ne: "?S \<noteq> {}" using assms by (auto simp: bit_eq_iff)
  show ?thesis
  proof (rule that)
    show "bit w (Max ?S)" using Max_in [OF fin ne] by simp
    then show "Max ?S < 32" using sub by blast
    show "\<not> bit w i" if "Max ?S < i" for i
      using Max_ge [OF fin, of i] that by (metis leD mem_Collect_eq)
  qed
qed

lemma finite_bits: "bitmap_ok b \<Longrightarrow> finite (bits b)"
  using bitmap_okD(5) finite_subset by blast

lemma nbits_result:
  assumes "bitmap_ok b"
  shows "bitmap_nbits b = Some (nbits_of (bits b), retop b)"
proof -
  define c where "c = retop b"
  note r = retop_result [OF assms, folded c_def] and ok = bitmap_okD [OF retop_result(1) [OF assms], folded c_def]
  show ?thesis
  proof (cases "bm_top c = 0 \<and> bm_d c ! 0 = 0")
    case True
    then have "bits c = {}" using ok(1) bits_top [OF r(1)] by (fastforce simp: bits_def wbit_def)
    then show ?thesis
      using True ok(2) r(2) by (simp add: bitmap_nbits_def c_def [symmetric] Let_def nbits_of_def)
  next
    case False
    then have "bm_d c ! bm_top c \<noteq> 0" using r(3,5) by auto
    then obtain m where m: "bit (bm_d c ! bm_top c) m" "m < 32" "\<And>i. m < i \<Longrightarrow> \<not> bit (bm_d c ! bm_top c) i"
      by (rule highest_bit) blast
    let ?n = "32 * bm_top c + m"
    have n: "?n \<in> bits c" using m(1,2) ok(1,2) by (simp add: bits_def wbit_def)
    have "x \<le> ?n" if x: "x \<in> bits c" for x
    proof -
      have "x div 32 < bm_top c \<or> (x div 32 = bm_top c \<and> x mod 32 \<le> m)"
        using bits_top [OF r(1) x] x m(3) [of "x mod 32"]
        by (cases "x div 32 = bm_top c"; cases "m < x mod 32") (auto simp: bits_def wbit_def)
      then show ?thesis using div_mult_mod_eq [of x 32] by (elim disjE conjE) linarith+
    qed
    then have "Max (bits c) = ?n" using n finite_bits [OF r(1)] by (intro Max_eqI) auto
    moreover have "msb_loop (bm_d c ! bm_top c) ((bm_top c + 1) * 32) = Some ((bm_top c + 1) * 32 - (31 - m))"
      by (rule msb_loop_returns [OF m])
    moreover have "(bm_top c + 1) * 32 - (31 - m) = ?n + 1" using m(2) by simp
    ultimately show ?thesis
      using False ok(2) n r(2)
      by (auto simp: bitmap_nbits_def c_def [symmetric] Let_def nbits_of_def bitmap_consts)
  qed
qed

lemma nbytes_result:
  "bitmap_ok b \<Longrightarrow> bitmap_nbytes b = Some ((nbits_of (bits b) + 7) div 8, retop b)"
  by (simp add: bitmap_nbytes_def nbits_result)

subsection \<open>Strings\<close>

text \<open>Byte number \<open>t\<close>, from the least significant one, of an array of words.\<close>

definition wbyte :: "u32 list \<Rightarrow> nat \<Rightarrow> u8" where
  "wbyte ws t = ucast (drop_bit (t mod 4 * 8) (ws ! (t div 4)) AND 0xff)"

lemma wbyte_bit:
  "j < 8 \<Longrightarrow> t div 4 < length ws \<Longrightarrow> bit (wbyte ws t) j \<longleftrightarrow> wbit ws (8 * t + j)"
proof -
  assume j: "j < 8" and t: "t div 4 < length ws"
  have e: "8 * t + j = (t mod 4 * 8 + j) + t div 4 * 32" using div_mult_mod_eq [of t 4] by linarith
  have l: "t mod 4 * 8 + j < 32" using j mod_less_divisor [of 4 t] by linarith
  have "(8 * t + j) div 32 = t div 4" "(8 * t + j) mod 32 = t mod 4 * 8 + j"
    unfolding e div_mult_self1 mod_mult_self1 using l by simp_all
  then show ?thesis using j t by (simp add: wbyte_def wbit_def byte_bit_simps add.commute)
qed

lemma wbyte_Cons: "wbyte (w # ws) (q + 4) = wbyte ws q" "t < 4 \<Longrightarrow> wbyte (w # ws) t = ucast (drop_bit (t * 8) w AND 0xff)"
  by (simp_all add: wbyte_def div_add_self2)

lemma to_string_bytes_result:
  assumes "j \<le> 4" and "k \<le> need" and "need \<le> length s"
  shows "fst (to_string_bytes w need need j k s) = min need (k + (4 - j)) \<and>
    length (snd (to_string_bytes w need need j k s)) = length s \<and>
    (\<forall>p < length s. snd (to_string_bytes w need need j k s) ! p =
       (if p < need \<and> k \<le> need - 1 - p \<and> need - 1 - p < k + (4 - j)
        then ucast (drop_bit ((j + (need - 1 - p - k)) * 8) w AND 0xff) else s ! p))"
  using assms
proof (induction "4 - j" arbitrary: j k s)
  case 0
  then show ?case by (auto simp: to_string_bytes.simps [of w need need 4] bitmap_consts)
next
  case (Suc n)
  then have j: "j < 4" by simp
  show ?case
  proof (cases "k = need")
    case True
    then show ?thesis using j by (auto simp: to_string_bytes.simps [of w need need j] bitmap_consts)
  next
    case False
    let ?s = "s[need - 1 - k := ucast (drop_bit (j * 8) w AND 0xff)]"
    have e: "to_string_bytes w need need j k s = to_string_bytes w need need (j + 1) (k + 1) ?s"
      using False j Suc.prems by (simp add: to_string_bytes.simps [of w need need j] bitmap_consts)
    note IH = Suc.hyps(1) [of "j + 1" "k + 1" ?s]
    have bound: "need - 1 - k < length s" using False Suc.prems by simp
    have IH: "fst (to_string_bytes w need need (j + 1) (k + 1) ?s) = min need (k + 1 + (4 - (j + 1)))"
      "length (snd (to_string_bytes w need need (j + 1) (k + 1) ?s)) = length s"
      "\<And>p. p < length s \<Longrightarrow> snd (to_string_bytes w need need (j + 1) (k + 1) ?s) ! p =
         (if p < need \<and> k + 1 \<le> need - 1 - p \<and> need - 1 - p < k + 1 + (4 - (j + 1))
          then ucast (drop_bit ((j + 1 + (need - 1 - p - (k + 1))) * 8) w AND 0xff) else ?s ! p)"
      using IH Suc.hyps(2) Suc.prems j False by simp_all
    have at: "(p < need \<and> k \<le> need - 1 - p \<and> need - 1 - p < k + (4 - j)) \<longleftrightarrow>
        p = need - 1 - k \<or> (p < need \<and> k + 1 \<le> need - 1 - p \<and> need - 1 - p < k + 1 + (4 - (j + 1)))" for p
      using False Suc.prems j by auto
    have idx: "j + 1 + (need - 1 - p - (k + 1)) = j + (need - 1 - p - k)" if "k + 1 \<le> need - 1 - p" for p
      using that by simp
    have here: "j + (need - 1 - p - k) = j" if "p = need - 1 - k" for p using that False Suc.prems by simp
    have "snd (to_string_bytes w need need (j + 1) (k + 1) ?s) ! p =
       (if p < need \<and> k \<le> need - 1 - p \<and> need - 1 - p < k + (4 - j)
        then ucast (drop_bit ((j + (need - 1 - p - k)) * 8) w AND 0xff) else s ! p)" if p: "p < length s" for p
    proof (cases "p = need - 1 - k")
      case True
      then have "\<not> k + 1 \<le> need - 1 - p" using False Suc.prems by simp
      then show ?thesis unfolding IH(3) [OF p] at using True here [OF True] bound by simp
    next
      case other: False
      show ?thesis
      proof (cases "p < need \<and> k + 1 \<le> need - 1 - p \<and> need - 1 - p < k + 1 + (4 - (j + 1))")
        case True
        then show ?thesis
          unfolding IH(3) [OF p] at idx [OF True [THEN conjunct2, THEN conjunct1]] by (simp only: simp_thms if_True)
      next
        case False
        then show ?thesis unfolding IH(3) [OF p] at using other by (simp only: simp_thms if_False) simp
      qed
    qed
    then show ?thesis unfolding e using IH(1,2) j by auto
  qed
qed

lemma to_string_words_result:
  assumes "k \<le> need" and "need \<le> length s"
  shows "length (to_string_words ws need need k s) = length s \<and>
    (\<forall>p < length s. to_string_words ws need need k s ! p =
       (if p < need \<and> k \<le> need - 1 - p \<and> need - 1 - p < k + 4 * length ws
        then wbyte ws (need - 1 - p - k) else s ! p))"
  using assms
proof (induction ws arbitrary: k s)
  case Nil
  then show ?case by auto
next
  case (Cons w ws)
  obtain k' s' where b: "to_string_bytes w need need 0 k s = (k', s')"
    by (cases "to_string_bytes w need need 0 k s")
  note r = to_string_bytes_result [of 0 k need s w, unfolded b, simplified, OF Cons.prems]
  have IH: "length (to_string_words ws need need k' s') = length s'"
    "\<And>p. p < length s' \<Longrightarrow> to_string_words ws need need k' s' ! p =
       (if p < need \<and> k' \<le> need - 1 - p \<and> need - 1 - p < k' + 4 * length ws
        then wbyte ws (need - 1 - p - k') else s' ! p)"
    using Cons.IH [of k' s'] r Cons.prems by auto
  have "to_string_words ws need need k' s' ! p =
      (if p < need \<and> k \<le> need - 1 - p \<and> need - 1 - p < k + 4 * length (w # ws)
       then wbyte (w # ws) (need - 1 - p - k) else s ! p)" if p: "p < length s" for p
  proof (cases "p < need \<and> k + 4 \<le> need - 1 - p")
    case True
    define q where "q = need - 1 - p - k - 4"
    have q: "need - 1 - p - k = q + 4" "need - 1 - p - (k + 4) = q" using True by (auto simp: q_def)
    have k': "k' = k + 4" using r True by auto
    have below: "need - 1 - p < k + 4 * length (w # ws) \<longleftrightarrow> need - 1 - p < k' + 4 * length ws"
      using k' by (simp add: add.assoc)
    show ?thesis
      unfolding IH(2) [of p, unfolded r [THEN conjunct2, THEN conjunct1], OF p] below q(1) wbyte_Cons
      using True r p k' q(2) by simp
  next
    case False
    then have "\<not> (p < need \<and> k' \<le> need - 1 - p)" using r by auto
    then have "to_string_words ws need need k' s' ! p = s' ! p" using IH(2) [of p] r p by auto
    then show ?thesis using r p False by (auto simp: wbyte_Cons(2))
  qed
  then show ?case using b IH(1) r by simp
qed

text \<open>
  The string form: byte number \<open>t\<close> from the end of the first \<open>need\<close> bytes holds bits \<open>8 t\<close> to
  \<open>8 t + 7\<close>.
\<close>

definition string_bits :: "u8 list \<Rightarrow> nat set" where
  "string_bits s = {n. n div 8 < length s \<and> bit (s ! (length s - 1 - n div 8)) (n mod 8)}"

lemma string_bits_Nil [simp]: "string_bits [] = {}"
  by (simp add: string_bits_def)

lemma nbits_of_le: "finite S \<Longrightarrow> n \<in> S \<Longrightarrow> n < nbits_of S"
  by (auto simp: nbits_of_def le_imp_less_Suc)

lemma nbits_top:
  assumes "bitmap_ok b"
  shows "nbits_of (bits b) \<le> 32 * (bm_top b + 1)"
proof (cases "bits b = {}")
  case False
  then have "Max (bits b) div 32 \<le> bm_top b"
    using bits_top [OF assms Max_in [OF finite_bits [OF assms]]] by simp
  then show ?thesis using False by (simp add: nbits_of_def)
qed (simp add: nbits_of_def)

lemma to_string_result:
  assumes "bitmap_ok b" and need: "need = (nbits_of (bits b) + 7) div 8"
  shows "bitmap_to_string b s =
     Some (if length s < need then None
           else Some (to_string_words (take (bm_top (retop b) + 1) (bm_d b)) need need 0 s), retop b)"
  using bitmap_okD(2) [OF retop_result(1) [OF assms(1)]] retop_result(3) [OF assms(1)]
  by (auto simp: bitmap_to_string_def nbytes_result [OF assms(1)] need Let_def)

lemma to_string_bits:
  assumes "bitmap_ok b" and "bitmap_to_string b s = Some (Some s', b')"
  shows "string_bits (take ((nbits_of (bits b) + 7) div 8) s') = bits b" and "length s' = length s"
    and "drop ((nbits_of (bits b) + 7) div 8) s' = drop ((nbits_of (bits b) + 7) div 8) s"
    and "(nbits_of (bits b) + 7) div 8 \<le> length s"
proof -
  define need where "need = (nbits_of (bits b) + 7) div 8"
  let ?ws = "take (bm_top (retop b) + 1) (bm_d b)"
  note ok = bitmap_okD [OF retop_result(1) [OF assms(1)]] and r = retop_result [OF assms(1)]
  have s': "s' = to_string_words ?ws need need 0 s" and l: "need \<le> length s"
    using assms(2) to_string_result [OF assms(1) need_def, of s] by (auto split: if_splits)
  note w = to_string_words_result [of 0 need s ?ws, OF le0 l, folded s']
  have lw: "length ?ws = bm_top (retop b) + 1" using ok(1,2) r(3) by simp
  have small: "need \<le> 4 * length ?ws"
    using nbits_top [OF r(1)] unfolding need_def lw r(2) by linarith
  have byte: "s' ! (need - 1 - t) = wbyte ?ws t" if "t < need" for t
    using w that l small by (auto simp: dest!: spec [of _ "need - 1 - t"])
  have wb: "wbit ?ws n \<longleftrightarrow> n \<in> bits b" for n
    using bits_top [OF r(1), of n] r(2,3) lw ok(1) by (auto simp: wbit_def bits_def)
  have "n \<in> string_bits (take need s') \<longleftrightarrow> n \<in> bits b" for n
  proof (cases "n div 8 < need")
    case True
    then have "n div 8 div 4 < length ?ws" using small by linarith
    then show ?thesis
      using True w l byte [OF True] wbyte_bit [of "n mod 8" "n div 8" ?ws] wb [of n]
      by (simp add: string_bits_def)
  next
    case False
    then have "n \<notin> bits b"
      using nbits_of_le [OF finite_bits [OF assms(1)], of n] by (auto simp: need_def)
    then show ?thesis using False w l by (simp add: string_bits_def)
  qed
  then show "string_bits (take ((nbits_of (bits b) + 7) div 8) s') = bits b" by (auto simp: need_def)
  show "length s' = length s" using w by simp
  show "drop ((nbits_of (bits b) + 7) div 8) s' = drop ((nbits_of (bits b) + 7) div 8) s"
    using w by (intro nth_equalityI) (auto simp: need_def [symmetric])
  show "(nbits_of (bits b) + 7) div 8 \<le> length s" using l by (simp add: need_def)
qed

text \<open>One turn of the loop of \<^verbatim>\<open>bitmap_from_string\<close> stores byte number \<open>k\<close> from the end.\<close>

lemma byte_position:
  "n div 32 = k div 4 \<and> k mod 4 * 8 \<le> n mod 32 \<and> n mod 32 - k mod 4 * 8 < 8 \<longleftrightarrow> n div 8 = (k::nat)"
  "n div 8 = k \<Longrightarrow> n mod 32 - k mod 4 * 8 = n mod 8"
proof -
  have n: "n div 32 = n div 8 div 4" "n mod 32 = n div 8 mod 4 * 8 + n mod 8"
    using mod_mult2_eq [of n 8 4] by (simp_all add: div_mult2_eq [symmetric])
  have a: "k = k div 4 * 4 + k mod 4" "n div 8 = n div 8 div 4 * 4 + n div 8 mod 4" by simp_all
  have "n mod 8 < 8" "k mod 4 < 4" "n div 8 mod 4 < 4" by simp_all
  then have "n div 8 mod 4 = k mod 4"
    if "k mod 4 * 8 \<le> n div 8 mod 4 * 8 + n mod 8" "n div 8 mod 4 * 8 + n mod 8 - k mod 4 * 8 < 8"
    using that by (intro le_antisym) linarith+
  then show "n div 32 = k div 4 \<and> k mod 4 * 8 \<le> n mod 32 \<and> n mod 32 - k mod 4 * 8 < 8 \<longleftrightarrow> n div 8 = k"
    using a unfolding n by (metis add_diff_cancel_left' le_add1 mod_less_divisor zero_less_numeral)
  show "n div 8 = k \<Longrightarrow> n mod 32 - k mod 4 * 8 = n mod 8" unfolding n by simp
qed

lemma bit_byte_shifted:
  "bit (push_bit c (ucast (x::u8) :: u32)) m \<longleftrightarrow> m < 32 \<and> c \<le> m \<and> m - c < 8 \<and> bit x (m - c)"
  by (auto simp: bit_push_bit_iff bit_unsigned_iff possible_bit_word dest: bit_imp_le_length)

lemma wbit_store_byte:
  assumes "k div 4 < length d"
  shows "wbit (d[k div 4 := d ! (k div 4) OR push_bit (k mod 4 * 8) (ucast (x::u8))]) n \<longleftrightarrow>
    wbit d n \<or> (n div 8 = k \<and> bit x (n mod 8))"
proof -
  have "wbit (d[k div 4 := d ! (k div 4) OR push_bit (k mod 4 * 8) (ucast x)]) n \<longleftrightarrow>
    wbit d n \<or> (n div 32 = k div 4 \<and> k mod 4 * 8 \<le> n mod 32 \<and> n mod 32 - k mod 4 * 8 < 8 \<and>
      bit x (n mod 32 - k mod 4 * 8))"
    using assms by (auto simp: wbit_def nth_list_update bit_or_iff bit_byte_shifted)
  then show ?thesis using byte_position [of n k] by metis
qed

lemma from_string_loop_result:
  "length s = k + 1 \<Longrightarrow> k div 4 < length d \<Longrightarrow>
   length (from_string_loop s (k div 4) (k mod 4 * 8) d) = length d \<and>
   (\<forall>n. wbit (from_string_loop s (k div 4) (k mod 4 * 8) d) n \<longleftrightarrow> wbit d n \<or> n \<in> string_bits s)"
proof (induction s arbitrary: k d)
  case (Cons x s)
  let ?d = "d[k div 4 := d ! (k div 4) OR push_bit (k mod 4 * 8) (ucast x)]"
  have sb: "n \<in> string_bits (x # s) \<longleftrightarrow> (n div 8 = k \<and> bit x (n mod 8)) \<or> n \<in> string_bits s" for n
    using Cons.prems(1) by (auto simp: string_bits_def nth_Cons' not_less less_Suc_eq Suc_diff_Suc)
  show ?case
  proof (cases s)
    case Nil
    then have step: "from_string_loop (x # s) (k div 4) (k mod 4 * 8) d = ?d" by (simp add: Let_def)
    show ?thesis
      unfolding step using sb Nil wbit_store_byte [OF Cons.prems(2), of x] by simp
  next
    case (Cons y ys)
    then obtain k' where k': "k = k' + 1" "length s = k' + 1" using Cons.prems(1) by (cases k) auto
    have step: "from_string_loop (x # s) (k div 4) (k mod 4 * 8) d =
        from_string_loop s (k' div 4) (k' mod 4 * 8) ?d"
    proof (cases "k mod 4 = 0")
      case True
      then have "k' div 4 = k div 4 - 1" "k' mod 4 = 3" using k' by presburger+
      then show ?thesis using True by (simp add: Let_def bitmap_consts)
    next
      case False
      then have "k' div 4 = k div 4" "k' mod 4 * 8 = k mod 4 * 8 - 8"
        using k'(1) by (simp_all add: div_Suc mod_Suc split: if_splits)
      then show ?thesis using False by (simp add: Let_def)
    qed
    have "k' div 4 < length ?d" using Cons.prems(2) k' by simp
    then show ?thesis
      unfolding step using Cons.IH [OF k'(2), of ?d] sb wbit_store_byte [OF Cons.prems(2), of x] by auto
  qed
qed simp

lemma string_bits_bound: "n \<in> string_bits s \<Longrightarrow> n < 8 * length s"
  by (auto simp: string_bits_def)

lemma zero_result:
  "bitmap_ok b \<Longrightarrow> bitmap_ok (bitmap_zero b) \<and> bits (bitmap_zero b) = {}"
  by (auto simp: bitmap_zero_def bitmap_ok_def bits_def)

lemma from_string_result:
  assumes "bitmap_ok b" and "bitmap_from_string A b s = Some b'"
  shows "bitmap_ok b' \<and> bits b' = string_bits s"
proof -
  have len: "length s \<le> BITMAP_MAX div 8"
    using assms(2) by (auto simp: bitmap_from_string_def Let_def split: if_splits)
  obtain b1 where b1: "reserve A (length s * 8) b = Some b1"
    using assms(2) by (auto simp: bitmap_from_string_def Let_def split: if_splits option.splits)
  note r = reserve_result [OF assms(1) b1] and ok = bitmap_okD [OF reserve_result(1) [OF assms(1) b1]]
  show ?thesis
  proof (cases "s = []")
    case True
    then show ?thesis
      using assms(2) b1 zero_result [OF r(1)] by (simp add: bitmap_from_string_def string_bits_def)
  next
    case False
    then obtain k where k: "length s = k + 1" by (cases s) auto
    define b2 where "b2 = bitmap_zero b1"
    define b3 where "b3 = b2\<lparr>bm_top := k div 4, bm_d := from_string_loop s (k div 4) (k mod 4 * 8) (bm_d b2)\<rparr>"
    have off: "(length s + 3) div 4 - 1 = k div 4" "(length s + 3) mod 4 = k mod 4"
      using k by presburger+
    have b': "b' = retop b3"
      using assms(2) b1 len False off
      by (simp add: bitmap_from_string_def Let_def bitmap_consts b2_def b3_def)
    have kd: "k div 4 < length (bm_d b2)"
      using r(4) k by (simp add: b2_def bitmap_zero_def)
    note l = from_string_loop_result [OF k kd]
    have eq: "bits b3 = string_bits s" using l by (auto simp: bits_def b3_def b2_def bitmap_zero_def)
    have "bm_d b3 ! i = 0" if i: "k div 4 < i" "i < bm_len b3" for i
    proof (rule bit_word_eqI)
      fix m assume "m < LENGTH(32)"
      then have m: "m < 32" by simp
      then have "32 * i + m \<notin> string_bits s" using i(1) k string_bits_bound [of "32 * i + m" s] by linarith
      then show "bit (bm_d b3 ! i) m \<longleftrightarrow> bit 0 m"
        using eq m i(2) l ok(1) by (auto simp: bits_def wbit_def b3_def b2_def bitmap_zero_def)
    qed
    moreover have "bits b3 \<subseteq> {..BITMAP_MAX}"
      using eq string_bits_bound [of _ s] len by (fastforce simp: BITMAP_MAX_def)
    ultimately have "bitmap_ok b3"
      using l kd ok by (auto simp: bitmap_ok_def b3_def b2_def bitmap_zero_def)
    then show ?thesis using retop_result [of b3] eq b' by simp
  qed
qed

lemma from_string_total:
  assumes "bitmap_ok b" and "never_fails A" and "8 * length s \<le> BITMAP_MAX"
  shows "\<exists>b'. bitmap_from_string A b s = Some b'"
proof -
  obtain b1 where "reserve A (length s * 8) b = Some b1"
    using reserve_total [OF assms(1,2), of "length s * 8"] assms(3) by (auto simp: mult.commute)
  moreover have "\<not> length s > BITMAP_MAX div 8" using assms(3) by (simp add: BITMAP_MAX_def)
  ultimately show ?thesis by (simp add: bitmap_from_string_def Let_def)
qed

lemma new_result: "bitmap_new A = Some b \<Longrightarrow> bitmap_ok b \<and> bits b = {}"
  by (auto simp: bitmap_new_def calloc_def bitmap_ok_def bits_def wbit_def split: option.splits if_splits)

subsection \<open>The interface\<close>

text \<open>
  What the users of a set of numbers rely on: adding may fail, and the effect of each operation on the
  set it stands for. The lemma is about a sequence of additions, as the serial-number bitmaps of the
  revocation lists make them.
\<close>

locale number_set =
  fixes inv :: "'s \<Rightarrow> bool" and elems :: "'s \<Rightarrow> nat set" and add :: "'s \<Rightarrow> nat \<Rightarrow> 's option"
    and remove :: "'s \<Rightarrow> nat \<Rightarrow> 's" and test :: "'s \<Rightarrow> nat \<Rightarrow> bool"
  assumes add: "inv s \<Longrightarrow> add s n = Some s' \<Longrightarrow> inv s' \<and> elems s' = insert n (elems s)"
    and remove: "inv s \<Longrightarrow> inv (remove s n) \<and> elems (remove s n) = elems s - {n}"
    and test: "inv s \<Longrightarrow> test s n \<longleftrightarrow> n \<in> elems s"
begin

lemma add_all:
  "inv s \<Longrightarrow> fold (\<lambda>n r. Option.bind r (\<lambda>s. add s n)) ns (Some s) = Some s' \<Longrightarrow>
   inv s' \<and> elems s' = set ns \<union> elems s"
proof (induction ns arbitrary: s)
  case (Cons n ns)
  have none: "fold (\<lambda>n r. Option.bind r (\<lambda>s. add s n)) ks None = None" for ks
    by (induction ks) auto
  from Cons.prems(2) none obtain s1 where "add s n = Some s1"
    and "fold (\<lambda>n r. Option.bind r (\<lambda>s. add s n)) ns (Some s1) = Some s'"
    by (cases "add s n") auto
  with Cons.IH [of s1] add [OF Cons.prems(1)] show ?case by auto
qed simp

lemma add_remove_test:
  assumes "inv s" and "add s n = Some s'"
  shows "test s' m \<longleftrightarrow> m = n \<or> test s m" and "test (remove s' n) m \<longleftrightarrow> m \<noteq> n \<and> test s m"
  using add [OF assms] remove [of s' n] test assms(1) by auto

end

interpretation bm: number_set bitmap_ok bits "bitmap_set_bit A" bitmap_clear_bit bitmap_test_bit for A
proof unfold_locales
  show "bitmap_ok s' \<and> bits s' = insert n (bits s)"
    if "bitmap_ok s" "bitmap_set_bit A s n = Some s'" for s n s'
    using set_bit_result [OF that] .
  show "bitmap_ok (bitmap_clear_bit s n) \<and> bits (bitmap_clear_bit s n) = bits s - {n}" if "bitmap_ok s" for s n
    using clear_bit_result [OF that] .
  show "bitmap_test_bit s n = (n \<in> bits s)" if "bitmap_ok s" for s n
    using test_bit_bits [OF that] .
qed

definition set_bits :: "allocator \<Rightarrow> nat list \<Rightarrow> bitmap \<Rightarrow> bitmap option" where
  "set_bits A ns b = fold (\<lambda>n r. Option.bind r (\<lambda>b. bitmap_set_bit A b n)) ns (Some b)"

subsection \<open>Properties\<close>

text \<open>
  C20. A bitmap is a set of numbers: setting a list of bits, when it succeeds, gives a bitmap in
  which exactly those bits and the ones set before test true; clearing one removes just that one; the
  number of bits is one more than the largest bit set, and computing it always ends.
\<close>

theorem bitmap_refines_set:
  assumes "bitmap_ok b" and "set_bits A ns b = Some b'"
  shows "bitmap_ok b' \<and> (\<forall>m. bitmap_test_bit b' m \<longleftrightarrow> m \<in> set ns \<or> bitmap_test_bit b m) \<and>
    (\<forall>n m. bitmap_test_bit (bitmap_clear_bit b' n) m \<longleftrightarrow> m \<noteq> n \<and> bitmap_test_bit b' m) \<and>
    (\<exists>b''. bitmap_nbits b' = Some (nbits_of {m. bitmap_test_bit b' m}, b'') \<and> bits b'' = bits b')"
proof -
  have b': "bitmap_ok b'" "bits b' = set ns \<union> bits b"
    using bm.add_all [OF assms(1)] assms(2) by (auto simp: set_bits_def)
  then show ?thesis
    using nbits_result [OF b'(1)] retop_result(2) [OF b'(1)] bm.test [OF assms(1)] bm.test [OF b'(1)]
      bm.remove [OF b'(1)] bm.test by (auto simp: Un_def)
qed

definition demo_bitmap :: bitmap where
  "demo_bitmap = \<lparr>bm_p = (0, 0), bm_d = [0], bm_len = 1, bm_top = 0\<rparr>"

lemma demo_bitmap_ok: "bitmap_ok demo_bitmap" "bits demo_bitmap = {}"
  by (auto simp: demo_bitmap_def bitmap_ok_def bits_def wbit_def)

theorem bitmap_refines_set_witness:
  "\<exists>b'. set_bits demo_allocator [3, 40] demo_bitmap = Some b' \<and> bitmap_test_bit b' 40 \<and> \<not> bitmap_test_bit b' 4"
proof -
  obtain b1 where b1: "bitmap_set_bit demo_allocator demo_bitmap 3 = Some b1"
    using reserve_total [OF demo_bitmap_ok(1) demo_never_fails, of 3]
    by (auto simp: bitmap_set_bit_def Let_def BITMAP_MAX_def)
  obtain b2 where b2: "bitmap_set_bit demo_allocator b1 40 = Some b2"
    using reserve_total [OF _ demo_never_fails, of b1 40] set_bit_result [OF demo_bitmap_ok(1) b1]
    by (auto simp: bitmap_set_bit_def Let_def BITMAP_MAX_def)
  have s: "set_bits demo_allocator [3, 40] demo_bitmap = Some b2" by (simp add: set_bits_def b1 b2)
  show ?thesis
    using s bitmap_refines_set [OF demo_bitmap_ok(1) s] test_bit_bits [OF demo_bitmap_ok(1)]
    by (simp add: demo_bitmap_ok)
qed



end
