(* ===== verification/Ssherr.thy ===== *)
theory Ssherr
  imports Prelude
begin

text \<open>
  The error codes of \<^verbatim>\<open>ssherr.h\<close> and their messages (\<^verbatim>\<open>ssherr.c\<close>). Every fallible
  operation of the buffer, matching, channel and revocation-list components reports one of these.
  The numeric codes are the ones of the header; a successful return is code 0.
\<close>

datatype (plugins only: code) ssherr =
    SSH_ERR_INTERNAL_ERROR
  | SSH_ERR_ALLOC_FAIL
  | SSH_ERR_MESSAGE_INCOMPLETE
  | SSH_ERR_INVALID_FORMAT
  | SSH_ERR_BIGNUM_IS_NEGATIVE
  | SSH_ERR_STRING_TOO_LARGE
  | SSH_ERR_BIGNUM_TOO_LARGE
  | SSH_ERR_ECPOINT_TOO_LARGE
  | SSH_ERR_NO_BUFFER_SPACE
  | SSH_ERR_INVALID_ARGUMENT
  | SSH_ERR_KEY_BITS_MISMATCH
  | SSH_ERR_EC_CURVE_INVALID
  | SSH_ERR_KEY_TYPE_MISMATCH
  | SSH_ERR_KEY_TYPE_UNKNOWN
  | SSH_ERR_EC_CURVE_MISMATCH
  | SSH_ERR_EXPECTED_CERT
  | SSH_ERR_KEY_LACKS_CERTBLOB
  | SSH_ERR_KEY_CERT_UNKNOWN_TYPE
  | SSH_ERR_KEY_CERT_INVALID_SIGN_KEY
  | SSH_ERR_KEY_INVALID_EC_VALUE
  | SSH_ERR_SIGNATURE_INVALID
  | SSH_ERR_LIBCRYPTO_ERROR
  | SSH_ERR_UNEXPECTED_TRAILING_DATA
  | SSH_ERR_SYSTEM_ERROR
  | SSH_ERR_KEY_CERT_INVALID
  | SSH_ERR_AGENT_COMMUNICATION
  | SSH_ERR_AGENT_FAILURE
  | SSH_ERR_DH_GEX_OUT_OF_RANGE
  | SSH_ERR_DISCONNECTED
  | SSH_ERR_MAC_INVALID
  | SSH_ERR_NO_CIPHER_ALG_MATCH
  | SSH_ERR_NO_MAC_ALG_MATCH
  | SSH_ERR_NO_COMPRESS_ALG_MATCH
  | SSH_ERR_NO_KEX_ALG_MATCH
  | SSH_ERR_NO_HOSTKEY_ALG_MATCH
  | SSH_ERR_NO_HOSTKEY_LOADED
  | SSH_ERR_PROTOCOL_MISMATCH
  | SSH_ERR_NO_PROTOCOL_VERSION
  | SSH_ERR_NEED_REKEY
  | SSH_ERR_PASSPHRASE_TOO_SHORT
  | SSH_ERR_FILE_CHANGED
  | SSH_ERR_KEY_UNKNOWN_CIPHER
  | SSH_ERR_KEY_WRONG_PASSPHRASE
  | SSH_ERR_KEY_BAD_PERMISSIONS
  | SSH_ERR_KEY_CERT_MISMATCH
  | SSH_ERR_KEY_NOT_FOUND
  | SSH_ERR_AGENT_NOT_PRESENT
  | SSH_ERR_AGENT_NO_IDENTITIES
  | SSH_ERR_BUFFER_READ_ONLY
  | SSH_ERR_KRL_BAD_MAGIC
  | SSH_ERR_KEY_REVOKED
  | SSH_ERR_CONN_CLOSED
  | SSH_ERR_CONN_TIMEOUT
  | SSH_ERR_CONN_CORRUPT
  | SSH_ERR_PROTOCOL_ERROR
  | SSH_ERR_KEY_LENGTH
  | SSH_ERR_NUMBER_TOO_LARGE
  | SSH_ERR_SIGN_ALG_UNSUPPORTED
  | SSH_ERR_FEATURE_UNSUPPORTED
  | SSH_ERR_DEVICE_NOT_FOUND

primrec ssherr_code :: "ssherr \<Rightarrow> int" where
  "ssherr_code SSH_ERR_INTERNAL_ERROR = -1"
| "ssherr_code SSH_ERR_ALLOC_FAIL = -2"
| "ssherr_code SSH_ERR_MESSAGE_INCOMPLETE = -3"
| "ssherr_code SSH_ERR_INVALID_FORMAT = -4"
| "ssherr_code SSH_ERR_BIGNUM_IS_NEGATIVE = -5"
| "ssherr_code SSH_ERR_STRING_TOO_LARGE = -6"
| "ssherr_code SSH_ERR_BIGNUM_TOO_LARGE = -7"
| "ssherr_code SSH_ERR_ECPOINT_TOO_LARGE = -8"
| "ssherr_code SSH_ERR_NO_BUFFER_SPACE = -9"
| "ssherr_code SSH_ERR_INVALID_ARGUMENT = -10"
| "ssherr_code SSH_ERR_KEY_BITS_MISMATCH = -11"
| "ssherr_code SSH_ERR_EC_CURVE_INVALID = -12"
| "ssherr_code SSH_ERR_KEY_TYPE_MISMATCH = -13"
| "ssherr_code SSH_ERR_KEY_TYPE_UNKNOWN = -14"
| "ssherr_code SSH_ERR_EC_CURVE_MISMATCH = -15"
| "ssherr_code SSH_ERR_EXPECTED_CERT = -16"
| "ssherr_code SSH_ERR_KEY_LACKS_CERTBLOB = -17"
| "ssherr_code SSH_ERR_KEY_CERT_UNKNOWN_TYPE = -18"
| "ssherr_code SSH_ERR_KEY_CERT_INVALID_SIGN_KEY = -19"
| "ssherr_code SSH_ERR_KEY_INVALID_EC_VALUE = -20"
| "ssherr_code SSH_ERR_SIGNATURE_INVALID = -21"
| "ssherr_code SSH_ERR_LIBCRYPTO_ERROR = -22"
| "ssherr_code SSH_ERR_UNEXPECTED_TRAILING_DATA = -23"
| "ssherr_code SSH_ERR_SYSTEM_ERROR = -24"
| "ssherr_code SSH_ERR_KEY_CERT_INVALID = -25"
| "ssherr_code SSH_ERR_AGENT_COMMUNICATION = -26"
| "ssherr_code SSH_ERR_AGENT_FAILURE = -27"
| "ssherr_code SSH_ERR_DH_GEX_OUT_OF_RANGE = -28"
| "ssherr_code SSH_ERR_DISCONNECTED = -29"
| "ssherr_code SSH_ERR_MAC_INVALID = -30"
| "ssherr_code SSH_ERR_NO_CIPHER_ALG_MATCH = -31"
| "ssherr_code SSH_ERR_NO_MAC_ALG_MATCH = -32"
| "ssherr_code SSH_ERR_NO_COMPRESS_ALG_MATCH = -33"
| "ssherr_code SSH_ERR_NO_KEX_ALG_MATCH = -34"
| "ssherr_code SSH_ERR_NO_HOSTKEY_ALG_MATCH = -35"
| "ssherr_code SSH_ERR_NO_HOSTKEY_LOADED = -36"
| "ssherr_code SSH_ERR_PROTOCOL_MISMATCH = -37"
| "ssherr_code SSH_ERR_NO_PROTOCOL_VERSION = -38"
| "ssherr_code SSH_ERR_NEED_REKEY = -39"
| "ssherr_code SSH_ERR_PASSPHRASE_TOO_SHORT = -40"
| "ssherr_code SSH_ERR_FILE_CHANGED = -41"
| "ssherr_code SSH_ERR_KEY_UNKNOWN_CIPHER = -42"
| "ssherr_code SSH_ERR_KEY_WRONG_PASSPHRASE = -43"
| "ssherr_code SSH_ERR_KEY_BAD_PERMISSIONS = -44"
| "ssherr_code SSH_ERR_KEY_CERT_MISMATCH = -45"
| "ssherr_code SSH_ERR_KEY_NOT_FOUND = -46"
| "ssherr_code SSH_ERR_AGENT_NOT_PRESENT = -47"
| "ssherr_code SSH_ERR_AGENT_NO_IDENTITIES = -48"
| "ssherr_code SSH_ERR_BUFFER_READ_ONLY = -49"
| "ssherr_code SSH_ERR_KRL_BAD_MAGIC = -50"
| "ssherr_code SSH_ERR_KEY_REVOKED = -51"
| "ssherr_code SSH_ERR_CONN_CLOSED = -52"
| "ssherr_code SSH_ERR_CONN_TIMEOUT = -53"
| "ssherr_code SSH_ERR_CONN_CORRUPT = -54"
| "ssherr_code SSH_ERR_PROTOCOL_ERROR = -55"
| "ssherr_code SSH_ERR_KEY_LENGTH = -56"
| "ssherr_code SSH_ERR_NUMBER_TOO_LARGE = -57"
| "ssherr_code SSH_ERR_SIGN_ALG_UNSUPPORTED = -58"
| "ssherr_code SSH_ERR_FEATURE_UNSUPPORTED = -59"
| "ssherr_code SSH_ERR_DEVICE_NOT_FOUND = -60"

text \<open>
  \<^verbatim>\<open>ssh_err\<close>. For \<^verbatim>\<open>SSH_ERR_SYSTEM_ERROR\<close> the code returns \<^verbatim>\<open>strerror(errno)\<close>, which is the
  argument \<open>strerr\<close>.
\<close>

definition ssh_err :: "string \<Rightarrow> int \<Rightarrow> string" where
  "ssh_err strerr n =
    (if n = 0 then ''success''
     else if n = ssherr_code SSH_ERR_INTERNAL_ERROR then ''unexpected internal error''
     else if n = ssherr_code SSH_ERR_ALLOC_FAIL then ''memory allocation failed''
     else if n = ssherr_code SSH_ERR_MESSAGE_INCOMPLETE then ''incomplete message''
     else if n = ssherr_code SSH_ERR_INVALID_FORMAT then ''invalid format''
     else if n = ssherr_code SSH_ERR_BIGNUM_IS_NEGATIVE then ''bignum is negative''
     else if n = ssherr_code SSH_ERR_STRING_TOO_LARGE then ''string is too large''
     else if n = ssherr_code SSH_ERR_BIGNUM_TOO_LARGE then ''bignum is too large''
     else if n = ssherr_code SSH_ERR_ECPOINT_TOO_LARGE then ''elliptic curve point is too large''
     else if n = ssherr_code SSH_ERR_NO_BUFFER_SPACE then ''insufficient buffer space''
     else if n = ssherr_code SSH_ERR_INVALID_ARGUMENT then ''invalid argument''
     else if n = ssherr_code SSH_ERR_KEY_BITS_MISMATCH then ''key bits do not match''
     else if n = ssherr_code SSH_ERR_EC_CURVE_INVALID then ''invalid elliptic curve''
     else if n = ssherr_code SSH_ERR_KEY_TYPE_MISMATCH then ''key type does not match''
     else if n = ssherr_code SSH_ERR_KEY_TYPE_UNKNOWN then ''unknown or unsupported key type''
     else if n = ssherr_code SSH_ERR_EC_CURVE_MISMATCH then ''elliptic curve does not match''
     else if n = ssherr_code SSH_ERR_EXPECTED_CERT then ''plain key provided where certificate required''
     else if n = ssherr_code SSH_ERR_KEY_LACKS_CERTBLOB then ''key lacks certificate data''
     else if n = ssherr_code SSH_ERR_KEY_CERT_UNKNOWN_TYPE then ''unknown/unsupported certificate type''
     else if n = ssherr_code SSH_ERR_KEY_CERT_INVALID_SIGN_KEY then ''invalid certificate signing key''
     else if n = ssherr_code SSH_ERR_KEY_INVALID_EC_VALUE then ''invalid elliptic curve value''
     else if n = ssherr_code SSH_ERR_SIGNATURE_INVALID then ''incorrect signature''
     else if n = ssherr_code SSH_ERR_LIBCRYPTO_ERROR then ''error in libcrypto''
     else if n = ssherr_code SSH_ERR_UNEXPECTED_TRAILING_DATA then ''unexpected bytes remain after decoding''
     else if n = ssherr_code SSH_ERR_SYSTEM_ERROR then strerr
     else if n = ssherr_code SSH_ERR_KEY_CERT_INVALID then ''invalid certificate''
     else if n = ssherr_code SSH_ERR_AGENT_COMMUNICATION then ''communication with agent failed''
     else if n = ssherr_code SSH_ERR_AGENT_FAILURE then ''agent refused operation''
     else if n = ssherr_code SSH_ERR_DH_GEX_OUT_OF_RANGE then ''DH GEX group out of range''
     else if n = ssherr_code SSH_ERR_DISCONNECTED then ''disconnected''
     else if n = ssherr_code SSH_ERR_MAC_INVALID then ''message authentication code incorrect''
     else if n = ssherr_code SSH_ERR_NO_CIPHER_ALG_MATCH then ''no matching cipher found''
     else if n = ssherr_code SSH_ERR_NO_MAC_ALG_MATCH then ''no matching MAC found''
     else if n = ssherr_code SSH_ERR_NO_COMPRESS_ALG_MATCH then ''no matching compression method found''
     else if n = ssherr_code SSH_ERR_NO_KEX_ALG_MATCH then ''no matching key exchange method found''
     else if n = ssherr_code SSH_ERR_NO_HOSTKEY_ALG_MATCH then ''no matching host key type found''
     else if n = ssherr_code SSH_ERR_PROTOCOL_MISMATCH then ''protocol version mismatch''
     else if n = ssherr_code SSH_ERR_NO_PROTOCOL_VERSION then ''could not read protocol version''
     else if n = ssherr_code SSH_ERR_NO_HOSTKEY_LOADED then ''could not load host key''
     else if n = ssherr_code SSH_ERR_NEED_REKEY then ''rekeying not supported by peer''
     else if n = ssherr_code SSH_ERR_PASSPHRASE_TOO_SHORT then ''passphrase is too short (minimum five characters)''
     else if n = ssherr_code SSH_ERR_FILE_CHANGED then ''file changed while reading''
     else if n = ssherr_code SSH_ERR_KEY_UNKNOWN_CIPHER then ''key encrypted using unsupported cipher''
     else if n = ssherr_code SSH_ERR_KEY_WRONG_PASSPHRASE then ''incorrect passphrase supplied to decrypt private key''
     else if n = ssherr_code SSH_ERR_KEY_BAD_PERMISSIONS then ''bad permissions''
     else if n = ssherr_code SSH_ERR_KEY_CERT_MISMATCH then ''certificate does not match key''
     else if n = ssherr_code SSH_ERR_KEY_NOT_FOUND then ''key not found''
     else if n = ssherr_code SSH_ERR_AGENT_NOT_PRESENT then ''agent not present''
     else if n = ssherr_code SSH_ERR_AGENT_NO_IDENTITIES then ''agent contains no identities''
     else if n = ssherr_code SSH_ERR_BUFFER_READ_ONLY then ''internal error: buffer is read-only''
     else if n = ssherr_code SSH_ERR_KRL_BAD_MAGIC then ''KRL file has invalid magic number''
     else if n = ssherr_code SSH_ERR_KEY_REVOKED then ''Key is revoked''
     else if n = ssherr_code SSH_ERR_CONN_CLOSED then ''Connection closed''
     else if n = ssherr_code SSH_ERR_CONN_TIMEOUT then ''Connection timed out''
     else if n = ssherr_code SSH_ERR_CONN_CORRUPT then ''Connection corrupted''
     else if n = ssherr_code SSH_ERR_PROTOCOL_ERROR then ''Protocol error''
     else if n = ssherr_code SSH_ERR_KEY_LENGTH then ''Invalid key length''
     else if n = ssherr_code SSH_ERR_NUMBER_TOO_LARGE then ''number is too large''
     else if n = ssherr_code SSH_ERR_SIGN_ALG_UNSUPPORTED then ''signature algorithm not supported''
     else if n = ssherr_code SSH_ERR_FEATURE_UNSUPPORTED then ''requested feature not supported''
     else if n = ssherr_code SSH_ERR_DEVICE_NOT_FOUND then ''device not found''
     else ''unknown error'')"

lemma ssherr_code_range: "ssherr_code e \<in> {-60..-1}"
  by (cases e) simp_all

lemma ssherr_code_neg: "ssherr_code e < 0"
  using ssherr_code_range [of e] by simp

text \<open>A number that is no code of the header falls through to the default branch.\<close>

lemma ssh_err_unknown: "n < -60 \<or> 0 < n \<Longrightarrow> ssh_err strerr n = ''unknown error''"
proof -
  assume out: "n < -60 \<or> 0 < n"
  then have "n \<noteq> ssherr_code e" for e
    using ssherr_code_range [of e] by auto
  moreover have "n \<noteq> 0" using out by auto
  ultimately show ?thesis by (simp add: ssh_err_def del: ssherr_code.simps)
qed

end
