(* ===== verification/Sshbuf.thy ===== *)
theory Sshbuf
  imports Alloc Ssherr
begin

text \<open>
  The growable byte buffer of \<^verbatim>\<open>sshbuf.c\<close>: allocation, packing, reservation and consumption.
  The structure is the record \<open>sshbuf\<close>; its extra field \<open>sb_mem\<close> holds the \<^verbatim>\<open>alloc\<close> bytes the
  pointer \<^verbatim>\<open>cd\<close> refers to. In a writable buffer \<^verbatim>\<open>d\<close> and \<^verbatim>\<open>cd\<close> are the same pointer, so a write
  through \<^verbatim>\<open>d\<close> is an update of \<open>sb_mem\<close>.

  Sizes are natural numbers: every sum the code forms is bounded by the sanity check and the
  guards in front of it, which keep it below \<^verbatim>\<open>SSHBUF_SIZE_MAX\<close> (0x8000000) plus a few bytes, so no
  \<^verbatim>\<open>size_t\<close> operation of these functions wraps. The buffers reached through \<^verbatim>\<open>parent\<close> are in the theory
  of the buffer heap; here \<open>sb_parent\<close> is only the stored address.
\<close>

subsection \<open>Constants and structure\<close>

definition SSHBUF_SIZE_MAX :: nat where "SSHBUF_SIZE_MAX = 0x8000000"
definition SSHBUF_REFS_MAX :: nat where "SSHBUF_REFS_MAX = 0x100000"
definition SSHBUF_MAX_BIGNUM :: nat where "SSHBUF_MAX_BIGNUM = 16384 div 8"
definition SSHBUF_SIZE_INIT :: nat where "SSHBUF_SIZE_INIT = 256"
definition SSHBUF_SIZE_INC :: nat where "SSHBUF_SIZE_INC = 256"
definition SSHBUF_PACK_MIN :: nat where "SSHBUF_PACK_MIN = 8192"

lemmas sshbuf_consts =
  SSHBUF_SIZE_MAX_def SSHBUF_REFS_MAX_def SSHBUF_MAX_BIGNUM_def SSHBUF_SIZE_INIT_def
  SSHBUF_SIZE_INC_def SSHBUF_PACK_MIN_def

definition ROUNDUP :: "nat \<Rightarrow> nat \<Rightarrow> nat" where
  "ROUNDUP x y = ((x + (y - 1)) div y) * y"

record sshbuf =
  sb_d :: "ptr option"
  sb_cd :: "ptr option"
  sb_mem :: "u8 list"
  sb_off :: nat
  sb_size :: nat
  sb_max_size :: nat
  sb_alloc :: nat
  sb_readonly :: bool
  sb_refcount :: nat
  sb_parent :: "nat option"

type_synonym 'a bufop = "(ssherr, sshbuf, 'a) run"

text \<open>The size of the structure on the 32-bit target: nine four-byte fields.\<close>

definition sizeof_sshbuf :: nat where
  "sizeof_sshbuf = 36"

subsection \<open>Operations\<close>

text \<open>
  The condition of \<^verbatim>\<open>sshbuf_check_sanity\<close>. On an insane buffer the C function raises
  \<^verbatim>\<open>SIGSEGV\<close> with the default action; the value it would return after that is the error below.
\<close>

definition sshbuf_insane :: "sshbuf \<Rightarrow> bool" where
  "sshbuf_insane buf \<longleftrightarrow>
     (\<not> sb_readonly buf \<and> sb_d buf \<noteq> sb_cd buf) \<or>
     sb_refcount buf < 1 \<or> sb_refcount buf > SSHBUF_REFS_MAX \<or>
     sb_cd buf = None \<or>
     sb_max_size buf > SSHBUF_SIZE_MAX \<or>
     sb_alloc buf > sb_max_size buf \<or>
     sb_size buf > sb_alloc buf \<or>
     sb_off buf > sb_size buf"

definition sshbuf_check_sanity :: "unit bufop" where
  "sshbuf_check_sanity buf =
     (if sshbuf_insane buf then throw SSH_ERR_INTERNAL_ERROR buf else ret () buf)"

definition sshbuf_maybe_pack :: "bool \<Rightarrow> sshbuf \<Rightarrow> sshbuf" where
  "sshbuf_maybe_pack force buf =
     (if sb_off buf = 0 \<or> sb_readonly buf \<or> sb_refcount buf > 1 then buf
      else if force \<or> (sb_off buf \<ge> SSHBUF_PACK_MIN \<and> sb_off buf \<ge> sb_size buf div 2)
      then buf\<lparr>sb_mem := mem_write 0 (mem_read (sb_off buf) (sb_size buf - sb_off buf) (sb_mem buf))
                                  (sb_mem buf),
               sb_size := sb_size buf - sb_off buf, sb_off := 0\<rparr>
      else buf)"

definition sshbuf_new :: "allocator \<Rightarrow> sshbuf option" where
  "sshbuf_new A =
     (case malloc A sizeof_sshbuf of
        None \<Rightarrow> None
      | Some _ \<Rightarrow>
          (case calloc A (0::u8) 1 SSHBUF_SIZE_INIT of
             None \<Rightarrow> None
           | Some (p, _) \<Rightarrow>
               Some \<lparr>sb_d = Some p, sb_cd = Some p, sb_mem = replicate SSHBUF_SIZE_INIT 0,
                     sb_off = 0, sb_size = 0, sb_max_size = SSHBUF_SIZE_MAX,
                     sb_alloc = SSHBUF_SIZE_INIT, sb_readonly = False, sb_refcount = 1,
                     sb_parent = None\<rparr>))"

text \<open>A blob is a pointer (\<open>None\<close> for \<^verbatim>\<open>NULL\<close>) and the bytes it refers to.\<close>

definition sshbuf_from :: "allocator \<Rightarrow> ptr option \<Rightarrow> u8 list \<Rightarrow> sshbuf option" where
  "sshbuf_from A blob bs =
     (if blob = None \<or> length bs > SSHBUF_SIZE_MAX then None
      else (case malloc A sizeof_sshbuf of
              None \<Rightarrow> None
            | Some _ \<Rightarrow>
                Some \<lparr>sb_d = None, sb_cd = blob, sb_mem = bs,
                      sb_off = 0, sb_size = length bs, sb_max_size = length bs,
                      sb_alloc = length bs, sb_readonly = True, sb_refcount = 1,
                      sb_parent = None\<rparr>))"

definition sshbuf_reset :: "allocator \<Rightarrow> sshbuf \<Rightarrow> sshbuf" where
  "sshbuf_reset A buf =
     (if sb_readonly buf \<or> sb_refcount buf > 1 then buf\<lparr>sb_off := sb_size buf\<rparr>
      else if sshbuf_insane buf then buf
      else
        let b1 = buf\<lparr>sb_off := 0, sb_size := 0\<rparr>;
            b2 = (if sb_alloc b1 \<noteq> SSHBUF_SIZE_INIT
                  then (case recallocarray A 0 (sb_d b1) (sb_mem b1) (sb_alloc b1) SSHBUF_SIZE_INIT 1 of
                          None \<Rightarrow> b1
                        | Some (p, m) \<Rightarrow>
                            b1\<lparr>sb_d := Some p, sb_cd := Some p, sb_mem := m,
                               sb_alloc := SSHBUF_SIZE_INIT\<rparr>)
                  else b1)
        in b2\<lparr>sb_mem := replicate (sb_alloc b2) 0\<rparr>)"

text \<open>
  \<^verbatim>\<open>sshbuf_set_max_size\<close> in three parts: the checks and the packing, the reallocation, and the
  final comparison with the assignment.
\<close>

definition sshbuf_commit_max :: "nat \<Rightarrow> unit bufop" where
  "sshbuf_commit_max max_size buf =
     (if max_size < sb_alloc buf then throw SSH_ERR_NO_BUFFER_SPACE buf
      else ret () (buf\<lparr>sb_max_size := max_size\<rparr>))"

definition sshbuf_shrink :: "allocator \<Rightarrow> nat \<Rightarrow> unit bufop" where
  "sshbuf_shrink A max_size buf =
     (if max_size < sb_alloc buf \<and> max_size > sb_size buf
      then
        let rlen0 = (if sb_size buf < SSHBUF_SIZE_INIT then SSHBUF_SIZE_INIT
                     else ROUNDUP (sb_size buf) SSHBUF_SIZE_INC);
            rlen = (if rlen0 > max_size then max_size else rlen0)
        in (case recallocarray A 0 (sb_d buf) (sb_mem buf) (sb_alloc buf) rlen 1 of
              None \<Rightarrow> throw SSH_ERR_ALLOC_FAIL buf
            | Some (dp, m) \<Rightarrow>
                sshbuf_commit_max max_size
                  (buf\<lparr>sb_d := Some dp, sb_cd := Some dp, sb_mem := m, sb_alloc := rlen\<rparr>))
      else sshbuf_commit_max max_size buf)"

definition sshbuf_set_max_size :: "allocator \<Rightarrow> nat \<Rightarrow> unit bufop" where
  "sshbuf_set_max_size A max_size =
     andthen sshbuf_check_sanity (\<lambda>_ buf.
       if max_size = sb_max_size buf then ret () buf
       else if sb_readonly buf \<or> sb_refcount buf > 1 then throw SSH_ERR_BUFFER_READ_ONLY buf
       else if max_size > SSHBUF_SIZE_MAX then throw SSH_ERR_NO_BUFFER_SPACE buf
       else sshbuf_shrink A max_size (sshbuf_maybe_pack (max_size < sb_size buf) buf))"

definition sshbuf_len :: "sshbuf \<Rightarrow> nat" where
  "sshbuf_len buf = (if sshbuf_insane buf then 0 else sb_size buf - sb_off buf)"

definition sshbuf_avail :: "sshbuf \<Rightarrow> nat" where
  "sshbuf_avail buf =
     (if sshbuf_insane buf \<or> sb_readonly buf \<or> sb_refcount buf > 1 then 0
      else sb_max_size buf - (sb_size buf - sb_off buf))"

definition sshbuf_ptr :: "sshbuf \<Rightarrow> ptr option" where
  "sshbuf_ptr buf =
     (if sshbuf_insane buf then None else map_option (\<lambda>p. ptr_add p (sb_off buf)) (sb_cd buf))"

definition sshbuf_mutable_ptr :: "sshbuf \<Rightarrow> ptr option" where
  "sshbuf_mutable_ptr buf =
     (if sshbuf_insane buf \<or> sb_readonly buf \<or> sb_refcount buf > 1 then None
      else map_option (\<lambda>p. ptr_add p (sb_off buf)) (sb_d buf))"

definition sshbuf_check_reserve :: "nat \<Rightarrow> unit bufop" where
  "sshbuf_check_reserve len =
     andthen sshbuf_check_sanity (\<lambda>_ buf.
       if sb_readonly buf \<or> sb_refcount buf > 1 then throw SSH_ERR_BUFFER_READ_ONLY buf
       else if len > sb_max_size buf \<or> sb_max_size buf - len < sb_size buf - sb_off buf
       then throw SSH_ERR_NO_BUFFER_SPACE buf
       else ret () buf)"

text \<open>
  \<^verbatim>\<open>sshbuf_allocate\<close> in two parts: \<open>sshbuf_grow\<close> is what follows the call of
  \<^verbatim>\<open>sshbuf_maybe_pack\<close>.
\<close>

definition sshbuf_grow :: "allocator \<Rightarrow> nat \<Rightarrow> unit bufop" where
  "sshbuf_grow A len buf =
     (if len + sb_size buf \<le> sb_alloc buf then ret () buf
      else
        let need = len + sb_size buf - sb_alloc buf;
            rlen0 = ROUNDUP (sb_alloc buf + need) SSHBUF_SIZE_INC;
            rlen = (if rlen0 > sb_max_size buf then sb_alloc buf + need else rlen0)
        in (case recallocarray A 0 (sb_d buf) (sb_mem buf) (sb_alloc buf) rlen 1 of
              None \<Rightarrow> throw SSH_ERR_ALLOC_FAIL buf
            | Some (dp, m) \<Rightarrow>
                sshbuf_check_reserve len
                  (buf\<lparr>sb_alloc := rlen, sb_cd := Some dp, sb_d := Some dp, sb_mem := m\<rparr>)))"

definition sshbuf_allocate :: "allocator \<Rightarrow> nat \<Rightarrow> unit bufop" where
  "sshbuf_allocate A len =
     andthen (sshbuf_check_reserve len) (\<lambda>_ buf.
       sshbuf_grow A len (sshbuf_maybe_pack (sb_size buf + len > sb_max_size buf) buf))"

text \<open>
  \<^verbatim>\<open>sshbuf_reserve\<close> stores \<^verbatim>\<open>buf->d + buf->size\<close> through \<^verbatim>\<open>dpp\<close>; the result of the model is that
  position, as an offset into \<open>sb_mem\<close>.
\<close>

definition sshbuf_reserve :: "allocator \<Rightarrow> nat \<Rightarrow> nat bufop" where
  "sshbuf_reserve A len =
     andthen (sshbuf_allocate A len) (\<lambda>_ buf.
       let dp = sb_size buf in ret dp (buf\<lparr>sb_size := sb_size buf + len\<rparr>))"

definition sshbuf_consume :: "nat \<Rightarrow> unit bufop" where
  "sshbuf_consume len =
     andthen sshbuf_check_sanity (\<lambda>_ buf.
       if len = 0 then ret () buf
       else if len > sshbuf_len buf then throw SSH_ERR_MESSAGE_INCOMPLETE buf
       else
         let buf = buf\<lparr>sb_off := sb_off buf + len\<rparr> in
         ret () (if sb_off buf = sb_size buf then buf\<lparr>sb_off := 0, sb_size := 0\<rparr> else buf))"

definition sshbuf_consume_end :: "nat \<Rightarrow> unit bufop" where
  "sshbuf_consume_end len =
     andthen sshbuf_check_sanity (\<lambda>_ buf.
       if len = 0 then ret () buf
       else if len > sshbuf_len buf then throw SSH_ERR_MESSAGE_INCOMPLETE buf
       else ret () (buf\<lparr>sb_size := sb_size buf - len\<rparr>))"

subsection \<open>Well-formed buffers and their contents\<close>

text \<open>
  A buffer is well formed when it passes the sanity check and the allocation behind \<^verbatim>\<open>cd\<close> has
  \<^verbatim>\<open>alloc\<close> bytes. Its contents are the bytes between \<^verbatim>\<open>off\<close> and \<^verbatim>\<open>size\<close>: what a reader of the
  buffer still sees.
\<close>

definition sshbuf_ok :: "sshbuf \<Rightarrow> bool" where
  "sshbuf_ok buf \<longleftrightarrow> \<not> sshbuf_insane buf \<and> length (sb_mem buf) = sb_alloc buf"

definition sshbuf_bytes :: "sshbuf \<Rightarrow> u8 list" where
  "sshbuf_bytes buf = mem_read (sb_off buf) (sb_size buf - sb_off buf) (sb_mem buf)"

definition sshbuf_writable :: "sshbuf \<Rightarrow> bool" where
  "sshbuf_writable buf \<longleftrightarrow> \<not> sb_readonly buf \<and> sb_refcount buf \<le> 1"

lemma sshbuf_okD:
  assumes "sshbuf_ok buf"
  shows "\<not> sshbuf_insane buf" "length (sb_mem buf) = sb_alloc buf"
    "sb_off buf \<le> sb_size buf" "sb_size buf \<le> sb_alloc buf" "sb_alloc buf \<le> sb_max_size buf"
    "sb_max_size buf \<le> SSHBUF_SIZE_MAX" "1 \<le> sb_refcount buf" "sb_refcount buf \<le> SSHBUF_REFS_MAX"
    "\<exists>p. sb_cd buf = Some p" "\<not> sb_readonly buf \<Longrightarrow> sb_d buf = sb_cd buf"
  using assms by (auto simp: sshbuf_ok_def sshbuf_insane_def)

lemma sshbuf_check_sanity_ok [simp]: "sshbuf_ok buf \<Longrightarrow> sshbuf_check_sanity buf = (Inr (), buf)"
  by (simp add: sshbuf_check_sanity_def sshbuf_ok_def run_simps)

lemma andthen_sanity [simp]: "sshbuf_ok buf \<Longrightarrow> andthen sshbuf_check_sanity k buf = k () buf"
  by (simp add: andthen_def)

lemma length_sshbuf_bytes [simp]: "sshbuf_ok buf \<Longrightarrow> length (sshbuf_bytes buf) = sshbuf_len buf"
  using sshbuf_okD [of buf] by (simp add: sshbuf_bytes_def sshbuf_len_def)

lemma sshbuf_len_ok: "sshbuf_ok buf \<Longrightarrow> sshbuf_len buf = sb_size buf - sb_off buf"
  by (simp add: sshbuf_len_def sshbuf_ok_def)

lemma sshbuf_len_le_max: "sshbuf_ok buf \<Longrightarrow> sshbuf_len buf \<le> SSHBUF_SIZE_MAX"
  using sshbuf_okD [of buf] by (simp add: sshbuf_len_ok)

subsection \<open>Packing\<close>

text \<open>
  \<open>same_view b b'\<close>: the two buffers show the same bytes and differ only in how these are stored.
\<close>

definition same_view :: "sshbuf \<Rightarrow> sshbuf \<Rightarrow> bool" where
  "same_view b b' \<longleftrightarrow>
     sshbuf_bytes b' = sshbuf_bytes b \<and> sb_size b' - sb_off b' = sb_size b - sb_off b \<and>
     sb_max_size b' = sb_max_size b \<and> sb_readonly b' = sb_readonly b \<and>
     sb_refcount b' = sb_refcount b \<and> sb_parent b' = sb_parent b"

lemma same_view_refl [simp]: "same_view b b"
  by (simp add: same_view_def)

lemma same_view_trans [trans]: "same_view a b \<Longrightarrow> same_view b c \<Longrightarrow> same_view a c"
  by (simp add: same_view_def)

lemma sshbuf_maybe_pack_ok:
  assumes "sshbuf_ok b"
  shows "sshbuf_ok (sshbuf_maybe_pack force b)"
  using assms sshbuf_okD [OF assms]
  by (auto simp: sshbuf_ok_def sshbuf_insane_def sshbuf_maybe_pack_def)

lemma sshbuf_maybe_pack_view:
  assumes "sshbuf_ok b"
  shows "same_view b (sshbuf_maybe_pack force b)"
  using sshbuf_okD [OF assms]
  by (auto simp: same_view_def sshbuf_bytes_def sshbuf_maybe_pack_def mem_read_def mem_write_def)

lemma sshbuf_maybe_pack_alloc [simp]: "sb_alloc (sshbuf_maybe_pack force b) = sb_alloc b"
  and sshbuf_maybe_pack_d [simp]: "sb_d (sshbuf_maybe_pack force b) = sb_d b"
  by (simp_all add: sshbuf_maybe_pack_def)

lemma sshbuf_maybe_pack_size:
  "sb_size (sshbuf_maybe_pack force b) \<le> sb_size b"
  by (simp add: sshbuf_maybe_pack_def)

lemma sshbuf_maybe_pack_force:
  "sshbuf_writable b \<Longrightarrow> sb_size (sshbuf_maybe_pack True b) = sb_size b - sb_off b"
  by (auto simp: sshbuf_maybe_pack_def sshbuf_writable_def)

subsection \<open>Reserving space\<close>

lemma ROUNDUP_ge: "0 < y \<Longrightarrow> x \<le> ROUNDUP x y"
proof -
  assume y: "0 < y"
  have "x + (y - 1) = ROUNDUP x y + (x + (y - 1)) mod y"
    unfolding ROUNDUP_def by (simp add: div_mult_mod_eq)
  moreover have "(x + (y - 1)) mod y < y" using y by simp
  ultimately show ?thesis by linarith
qed

lemma sshbuf_check_reserve_ok:
  assumes "sshbuf_ok b"
  shows "sshbuf_check_reserve len b =
    (if \<not> sshbuf_writable b then (Inl SSH_ERR_BUFFER_READ_ONLY, b)
     else if sshbuf_len b + len > sb_max_size b then (Inl SSH_ERR_NO_BUFFER_SPACE, b)
     else (Inr (), b))"
  using assms sshbuf_okD [OF assms]
  by (auto simp: sshbuf_check_reserve_def sshbuf_writable_def sshbuf_len_ok run_simps)

lemma sshbuf_realloc_ok:
  assumes "sshbuf_ok b" and "sshbuf_writable b" and "sb_alloc b < n" and "n \<le> sb_max_size b"
    and "recallocarray A 0 (sb_d b) (sb_mem b) (sb_alloc b) n 1 = Some (dp, m)"
  defines "b' \<equiv> b\<lparr>sb_alloc := n, sb_cd := Some dp, sb_d := Some dp, sb_mem := m\<rparr>"
  shows "sshbuf_ok b'" and "same_view b b'" and "sshbuf_writable b'"
proof -
  note ok = sshbuf_okD [OF assms(1)]
  obtain p where d: "sb_d b = Some p"
    using ok(9,10) assms(2) by (auto simp: sshbuf_writable_def)
  have m: "m = sb_mem b @ replicate (n - length (sb_mem b)) 0"
    using assms(3,5) ok(2) by (intro recallocarray_grow [of A 0 p _ n 1 dp]) (simp_all add: d)
  show "sshbuf_ok b'"
    using assms(1,2,3,4) ok by (auto simp: b'_def sshbuf_ok_def sshbuf_insane_def m sshbuf_writable_def)
  show "same_view b b'"
    using ok assms(3) by (simp add: b'_def same_view_def sshbuf_bytes_def m mem_read_def)
  show "sshbuf_writable b'"
    using assms(2) by (simp add: b'_def sshbuf_writable_def)
qed

lemma sshbuf_grow_result:
  assumes ok: "sshbuf_ok b" and wr: "sshbuf_writable b" and fits: "sb_size b + len \<le> sb_max_size b"
  obtains (no_memory) "sshbuf_grow A len b = (Inl SSH_ERR_ALLOC_FAIL, b)"
  | (success) b' where "sshbuf_grow A len b = (Inr (), b')" "sshbuf_ok b'" "same_view b b'"
      "sb_size b' + len \<le> sb_alloc b'"
proof (cases "len + sb_size b \<le> sb_alloc b")
  case True
  then show thesis using success [of b] ok by (simp add: sshbuf_grow_def ret_def)
next
  case grow: False
  define rlen where "rlen =
    (if ROUNDUP (len + sb_size b) SSHBUF_SIZE_INC > sb_max_size b
     then len + sb_size b else ROUNDUP (len + sb_size b) SSHBUF_SIZE_INC)"
  have run: "sshbuf_grow A len b =
    (case recallocarray A 0 (sb_d b) (sb_mem b) (sb_alloc b) rlen 1 of
        None \<Rightarrow> (Inl SSH_ERR_ALLOC_FAIL, b)
      | Some (dp, m) \<Rightarrow> sshbuf_check_reserve len
          (b\<lparr>sb_alloc := rlen, sb_cd := Some dp, sb_d := Some dp, sb_mem := m\<rparr>))"
    using grow by (auto simp: sshbuf_grow_def Let_def rlen_def throw_def split: option.split)
  have need: "sb_alloc b < rlen" "len + sb_size b \<le> rlen" "rlen \<le> sb_max_size b"
    using grow fits ROUNDUP_ge [of SSHBUF_SIZE_INC "len + sb_size b"]
    by (auto simp: rlen_def sshbuf_consts)
  show thesis
  proof (cases "recallocarray A 0 (sb_d b) (sb_mem b) (sb_alloc b) rlen 1")
    case None
    then show thesis using no_memory run by simp
  next
    case (Some dpm)
    then obtain dp m where rc: "recallocarray A 0 (sb_d b) (sb_mem b) (sb_alloc b) rlen 1 = Some (dp, m)"
      by (cases dpm) auto
    define b2 where "b2 = b\<lparr>sb_alloc := rlen, sb_cd := Some dp, sb_d := Some dp, sb_mem := m\<rparr>"
    have b2: "sshbuf_ok b2" "same_view b b2" "sshbuf_writable b2"
      using sshbuf_realloc_ok [OF ok wr need(1,3) rc] by (simp_all add: b2_def)
    have "sshbuf_check_reserve len b2 = (Inr (), b2)"
      using sshbuf_check_reserve_ok [OF b2(1), of len] b2 fits by (simp add: b2_def sshbuf_len_ok)
    then show thesis using success [of b2] b2 run rc need by (simp add: b2_def)
  qed
qed

text \<open>
  \<^verbatim>\<open>sshbuf_allocate\<close> on a well-formed buffer: it refuses a read-only or shared buffer and a request
  beyond the maximum, it may fail for want of memory, and otherwise there is room for \<open>len\<close> bytes
  behind the contents. In no case do the contents change.
\<close>

lemma sshbuf_allocate_result:
  assumes "sshbuf_ok b"
  obtains (read_only) "\<not> sshbuf_writable b" "sshbuf_allocate A len b = (Inl SSH_ERR_BUFFER_READ_ONLY, b)"
  | (no_space) "sshbuf_writable b" "sshbuf_len b + len > sb_max_size b"
      "sshbuf_allocate A len b = (Inl SSH_ERR_NO_BUFFER_SPACE, b)"
  | (no_memory) b' where "sshbuf_writable b" "sshbuf_len b + len \<le> sb_max_size b"
      "sshbuf_allocate A len b = (Inl SSH_ERR_ALLOC_FAIL, b')" "sshbuf_ok b'" "same_view b b'"
  | (success) b' where "sshbuf_writable b" "sshbuf_len b + len \<le> sb_max_size b"
      "sshbuf_allocate A len b = (Inr (), b')" "sshbuf_ok b'" "same_view b b'"
      "sb_size b' + len \<le> sb_alloc b'"
proof (cases "sshbuf_writable b \<and> sshbuf_len b + len \<le> sb_max_size b")
  case False
  then show thesis
    using read_only no_space sshbuf_check_reserve_ok [OF assms, of len]
    by (cases "sshbuf_writable b") (auto simp: sshbuf_allocate_def andthen_def)
next
  case True
  define b1 where "b1 = sshbuf_maybe_pack (sb_size b + len > sb_max_size b) b"
  have b1: "sshbuf_ok b1" "same_view b b1" "sshbuf_writable b1"
    using assms True sshbuf_maybe_pack_ok sshbuf_maybe_pack_view
    by (auto simp: b1_def same_view_def sshbuf_writable_def)
  have run: "sshbuf_allocate A len b = sshbuf_grow A len b1"
    using sshbuf_check_reserve_ok [OF assms, of len] True
    by (simp add: sshbuf_allocate_def andthen_def b1_def)
  have fits: "sb_size b1 + len \<le> sb_max_size b1"
  proof (cases "sb_size b + len > sb_max_size b")
    case big: True
    with True have "sb_size b1 = sb_size b - sb_off b"
      by (simp add: b1_def sshbuf_maybe_pack_force)
    with True b1(2) assms show ?thesis by (simp add: sshbuf_len_ok same_view_def)
  next
    case False
    with sshbuf_maybe_pack_size [of False b] b1(2) show ?thesis
      by (simp add: b1_def same_view_def)
  qed
  show thesis
    by (rule sshbuf_grow_result [OF b1(1,3) fits, of A])
      (use True run b1 in \<open>auto intro: no_memory success same_view_trans\<close>)
qed

text \<open>With an allocator that never fails, a request within the limit is granted.\<close>

lemma sshbuf_allocate_total:
  assumes "sshbuf_ok b" and "sshbuf_writable b" and "sshbuf_len b + len \<le> sb_max_size b"
    and "never_fails A"
  shows "fst (sshbuf_allocate A len b) = Inr ()"
proof -
  have bound: "m \<le> sb_max_size b' \<Longrightarrow> sshbuf_ok b' \<Longrightarrow> m * 1 \<le> SIZE_MAX" for m b'
    using sshbuf_okD(6) [of b'] by (simp add: SIZE_MAX_def sshbuf_consts)
  have grow: "fst (sshbuf_grow A len b') \<noteq> Inl SSH_ERR_ALLOC_FAIL"
    if b': "sshbuf_ok b'" and fit: "len + sb_size b' \<le> sb_max_size b'" for b'
  proof -
    define rlen where "rlen = (if ROUNDUP (len + sb_size b') SSHBUF_SIZE_INC > sb_max_size b'
       then len + sb_size b' else ROUNDUP (len + sb_size b') SSHBUF_SIZE_INC)"
    have "recallocarray A 0 (sb_d b') (sb_mem b') (sb_alloc b') rlen 1 \<noteq> None"
      using bound [OF _ b'] fit sshbuf_okD(5) [OF b']
      by (intro recallocarray_total [OF assms(4)]) (auto simp: rlen_def)
    then show ?thesis
      by (auto simp: sshbuf_grow_def Let_def rlen_def ret_def sshbuf_check_reserve_def
          sshbuf_check_sanity_def run_simps split: option.splits if_splits)
  qed
  define b1 where "b1 = sshbuf_maybe_pack (sb_size b + len > sb_max_size b) b"
  have "sshbuf_allocate A len b = sshbuf_grow A len b1"
    using sshbuf_check_reserve_ok [OF assms(1), of len] assms(2,3)
    by (simp add: sshbuf_allocate_def andthen_def b1_def)
  moreover have "len + sb_size b1 \<le> sb_max_size b1"
    using assms(1,2,3) sshbuf_maybe_pack_view [OF assms(1), of "sb_size b + len > sb_max_size b"]
      sshbuf_maybe_pack_force [OF assms(2)] sshbuf_maybe_pack_size [of False b]
    by (cases "sb_size b + len > sb_max_size b") (auto simp: b1_def same_view_def sshbuf_len_ok)
  ultimately have "fst (sshbuf_allocate A len b) \<noteq> Inl SSH_ERR_ALLOC_FAIL"
    using grow [of b1] sshbuf_maybe_pack_ok [OF assms(1)] by (simp add: b1_def)
  then show ?thesis
    by (rule_tac sshbuf_allocate_result [OF assms(1), of A len]) (use assms(2,3) in auto)
qed

text \<open>
  \<open>same_owner b b'\<close>: the limits, the read-only flag, the reference count and the parent agree.
\<close>

definition same_owner :: "sshbuf \<Rightarrow> sshbuf \<Rightarrow> bool" where
  "same_owner b b' \<longleftrightarrow>
     sb_max_size b' = sb_max_size b \<and> sb_readonly b' = sb_readonly b \<and>
     sb_refcount b' = sb_refcount b \<and> sb_parent b' = sb_parent b"

lemma same_view_owner: "same_view b b' \<Longrightarrow> same_owner b b'"
  by (simp add: same_view_def same_owner_def)

lemma same_owner_refl [simp]: "same_owner b b"
  by (simp add: same_owner_def)

lemma same_owner_trans [trans]: "same_owner a b \<Longrightarrow> same_owner b c \<Longrightarrow> same_owner a c"
  by (simp add: same_owner_def)

lemma same_owner_writable: "same_owner b b' \<Longrightarrow> sshbuf_writable b' = sshbuf_writable b"
  by (simp add: same_owner_def sshbuf_writable_def)

lemma sshbuf_reserve_result:
  assumes "sshbuf_ok b"
  obtains (failure) e b' where "sshbuf_reserve A len b = (Inl e, b')" "sshbuf_ok b'" "same_view b b'"
      "e = (if \<not> sshbuf_writable b then SSH_ERR_BUFFER_READ_ONLY
            else if sshbuf_len b + len > sb_max_size b then SSH_ERR_NO_BUFFER_SPACE
            else SSH_ERR_ALLOC_FAIL)"
  | (success) dp b' where "sshbuf_reserve A len b = (Inr dp, b')" "sshbuf_ok b'" "same_owner b b'"
      "sshbuf_writable b" "sshbuf_len b + len \<le> sb_max_size b"
      "sb_size b' = dp + len" "sb_off b' \<le> dp"
      "mem_read (sb_off b') (dp - sb_off b') (sb_mem b') = sshbuf_bytes b"
proof (rule sshbuf_allocate_result [OF assms, of A len])
  fix b' assume al: "sshbuf_writable b" "sshbuf_len b + len \<le> sb_max_size b"
      "sshbuf_allocate A len b = (Inr (), b')" "sshbuf_ok b'" "same_view b b'"
      "sb_size b' + len \<le> sb_alloc b'"
  define b2 where "b2 = b'\<lparr>sb_size := sb_size b' + len\<rparr>"
  have "sshbuf_reserve A len b = (Inr (sb_size b'), b2)"
    using al(3) by (simp add: sshbuf_reserve_def andthen_def ret_def b2_def)
  moreover have "sshbuf_ok b2"
    using al(4,6) sshbuf_okD [OF al(4)] by (auto simp: b2_def sshbuf_ok_def sshbuf_insane_def)
  moreover have "same_owner b b2"
    using al(5) by (simp add: same_view_def same_owner_def b2_def)
  moreover have "mem_read (sb_off b2) (sb_size b' - sb_off b2) (sb_mem b2) = sshbuf_bytes b"
  proof -
    have "sshbuf_bytes b' = sshbuf_bytes b" using al(5) by (simp add: same_view_def)
    then show ?thesis by (simp add: b2_def sshbuf_bytes_def)
  qed
  ultimately show thesis
    using al(1,2) sshbuf_okD(3) [OF al(4)] success [of "sb_size b'" b2] by (simp add: b2_def)
qed (use failure assms in \<open>auto simp: sshbuf_reserve_def andthen_def\<close>)

text \<open>
  The bytes the caller then stores at the position it was given (\<^verbatim>\<open>memcpy\<close> or one of the
  \<^verbatim>\<open>POKE\<close> macros).
\<close>

definition sshbuf_store :: "nat \<Rightarrow> u8 list \<Rightarrow> sshbuf \<Rightarrow> sshbuf" where
  "sshbuf_store dp bs buf = buf\<lparr>sb_mem := mem_write dp bs (sb_mem buf)\<rparr>"

lemma sshbuf_store_ok:
  "sshbuf_ok b \<Longrightarrow> dp + length bs \<le> sb_alloc b \<Longrightarrow> sshbuf_ok (sshbuf_store dp bs b)"
  by (auto simp: sshbuf_ok_def sshbuf_insane_def sshbuf_store_def)

lemma sshbuf_store_owner [simp]: "same_owner b (sshbuf_store dp bs b)"
  by (simp add: same_owner_def sshbuf_store_def)

lemma sshbuf_reserve_store:
  assumes "sshbuf_ok b" and "sshbuf_reserve A (length bs) b = (Inr dp, b1)"
  shows "sshbuf_ok (sshbuf_store dp bs b1)"
    and "sshbuf_bytes (sshbuf_store dp bs b1) = sshbuf_bytes b @ bs"
    and "same_owner b (sshbuf_store dp bs b1)"
proof -
  have r: "sshbuf_ok b1" "same_owner b b1" "sb_size b1 = dp + length bs" "sb_off b1 \<le> dp"
     "mem_read (sb_off b1) (dp - sb_off b1) (sb_mem b1) = sshbuf_bytes b"
    using sshbuf_reserve_result [OF assms(1), of A "length bs"] assms(2) by auto
  have len: "dp + length bs \<le> length (sb_mem b1)" using sshbuf_okD [OF r(1)] r(3) by simp
  show "sshbuf_ok (sshbuf_store dp bs b1)"
    using sshbuf_store_ok [OF r(1)] len sshbuf_okD [OF r(1)] by simp
  show "same_owner b (sshbuf_store dp bs b1)"
    using same_owner_trans [OF r(2) sshbuf_store_owner] .
  have "sshbuf_bytes (sshbuf_store dp bs b1)
      = mem_read (sb_off b1) ((dp - sb_off b1) + length bs) (mem_write dp bs (sb_mem b1))"
    using r(3,4) by (simp add: sshbuf_bytes_def sshbuf_store_def)
  also have "\<dots> = mem_read (sb_off b1) (dp - sb_off b1) (mem_write dp bs (sb_mem b1)) @
      mem_read dp (length bs) (mem_write dp bs (sb_mem b1))"
    using r(4) mem_read_append [of "sb_off b1" "dp - sb_off b1" "length bs"] by simp
  also have "\<dots> = sshbuf_bytes b @ bs"
    using r(4,5) len by (simp add: mem_read_write_before)
  finally show "sshbuf_bytes (sshbuf_store dp bs b1) = sshbuf_bytes b @ bs" .
qed

subsection \<open>Consuming\<close>

lemma sshbuf_consume_Inr:
  assumes "sshbuf_ok b" and "n \<le> sshbuf_len b"
  obtains b' where "sshbuf_consume n b = (Inr (), b')" "sshbuf_ok b'" "same_owner b b'"
    "sshbuf_bytes b' = drop n (sshbuf_bytes b)" "sb_mem b' = sb_mem b" "sb_cd b' = sb_cd b"
    "sb_alloc b' = sb_alloc b"
proof -
  note ok = sshbuf_okD [OF assms(1)]
  have run: "sshbuf_consume n b = (Inr (),
      if n = 0 then b
      else if sb_off b + n = sb_size b then b\<lparr>sb_off := 0, sb_size := 0\<rparr>
      else b\<lparr>sb_off := sb_off b + n\<rparr>)" (is "_ = (_, ?b')")
    using assms by (auto simp: sshbuf_consume_def run_simps Let_def)
  have le: "sb_off b + n \<le> sb_size b" using assms ok by (simp add: sshbuf_len_ok)
  show thesis
  proof (rule that [OF run])
    show "sshbuf_ok ?b'" using assms(1) le by (auto simp: sshbuf_ok_def sshbuf_insane_def)
    show "sshbuf_bytes ?b' = drop n (sshbuf_bytes b)"
      using le by (auto simp: sshbuf_bytes_def mem_read_drop)
  qed (auto simp: same_owner_def)
qed

lemma sshbuf_consume_Inl:
  "sshbuf_ok b \<Longrightarrow> sshbuf_len b < n \<Longrightarrow>
   sshbuf_consume n b = (Inl SSH_ERR_MESSAGE_INCOMPLETE, b)"
  by (auto simp: sshbuf_consume_def run_simps)

lemma sshbuf_consume_end_Inr:
  assumes "sshbuf_ok b" and "n \<le> sshbuf_len b"
  obtains b' where "sshbuf_consume_end n b = (Inr (), b')" "sshbuf_ok b'" "same_owner b b'"
    "sshbuf_bytes b' = take (sshbuf_len b - n) (sshbuf_bytes b)" "sb_mem b' = sb_mem b"
proof -
  note ok = sshbuf_okD [OF assms(1)]
  have run: "sshbuf_consume_end n b = (Inr (), b\<lparr>sb_size := sb_size b - n\<rparr>)" (is "_ = (_, ?b')")
    using assms by (auto simp: sshbuf_consume_end_def run_simps)
  have le: "sb_off b + n \<le> sb_size b" using assms ok by (simp add: sshbuf_len_ok)
  show thesis
  proof (rule that [OF run])
    show "sshbuf_ok ?b'" using assms(1) le by (auto simp: sshbuf_ok_def sshbuf_insane_def)
    show "sshbuf_bytes ?b' = take (sshbuf_len b - n) (sshbuf_bytes b)"
      using le assms(1) by (simp add: sshbuf_bytes_def mem_read_take sshbuf_len_ok add.commute)
  qed (auto simp: same_owner_def)
qed

lemma sshbuf_consume_end_Inl:
  "sshbuf_ok b \<Longrightarrow> sshbuf_len b < n \<Longrightarrow>
   sshbuf_consume_end n b = (Inl SSH_ERR_MESSAGE_INCOMPLETE, b)"
  by (auto simp: sshbuf_consume_end_def run_simps)

subsection \<open>Creation, reset and the size limit\<close>

lemma sshbuf_new_ok:
  "sshbuf_new A = Some b \<Longrightarrow>
   sshbuf_ok b \<and> sshbuf_bytes b = [] \<and> sshbuf_writable b \<and> sb_max_size b = SSHBUF_SIZE_MAX \<and>
   sb_refcount b = 1 \<and> sb_parent b = None"
  by (auto simp: sshbuf_new_def sshbuf_ok_def sshbuf_insane_def sshbuf_bytes_def sshbuf_writable_def
        sshbuf_consts split: option.splits)

lemma sshbuf_from_ok:
  "sshbuf_from A p bs = Some b \<Longrightarrow>
   sshbuf_ok b \<and> sshbuf_bytes b = bs \<and> \<not> sshbuf_writable b \<and> sb_readonly b \<and>
   sb_refcount b = 1 \<and> sb_parent b = None \<and> sb_mem b = bs \<and> sb_cd b = p"
  by (auto simp: sshbuf_from_def sshbuf_ok_def sshbuf_insane_def sshbuf_bytes_def sshbuf_writable_def
        sshbuf_consts mem_read_def split: option.splits if_splits)

text \<open>
  The reallocation to \<^verbatim>\<open>SSHBUF_SIZE_INIT\<close> bytes in \<^verbatim>\<open>sshbuf_reset\<close> may fail; the old allocation is
  then kept. Either way the buffer is empty and all of its storage is zero. The limit matters: the new
  allocation is not compared with \<^verbatim>\<open>max_size\<close>, so the sanity condition only survives when the limit
  is at least \<^verbatim>\<open>SSHBUF_SIZE_INIT\<close>.
\<close>

lemma sshbuf_reset_erases:
  assumes "sshbuf_ok b" and "sshbuf_writable b"
  shows "set (sb_mem (sshbuf_reset A b)) \<subseteq> {0}" and "sshbuf_bytes (sshbuf_reset A b) = []"
    and "same_owner b (sshbuf_reset A b)"
  using assms sshbuf_okD [OF assms(1)]
  by (auto simp: sshbuf_reset_def sshbuf_writable_def Let_def same_owner_def sshbuf_bytes_def
        split: option.split)

lemma sshbuf_reset_ok:
  assumes "sshbuf_ok b" and "sshbuf_writable b" and "SSHBUF_SIZE_INIT \<le> sb_max_size b"
  shows "sshbuf_ok (sshbuf_reset A b)"
  using assms(2,3) sshbuf_okD [OF assms(1)]
  by (auto simp: sshbuf_reset_def sshbuf_writable_def Let_def sshbuf_ok_def sshbuf_insane_def
        split: option.split)

lemma sshbuf_reset_shared:
  "\<not> sshbuf_writable b \<Longrightarrow> sshbuf_reset A b = b\<lparr>sb_off := sb_size b\<rparr>"
  by (auto simp: sshbuf_reset_def sshbuf_writable_def)

lemma sshbuf_reset_shared_ok:
  "sshbuf_ok b \<Longrightarrow> \<not> sshbuf_writable b \<Longrightarrow>
   sshbuf_ok (sshbuf_reset A b) \<and> sshbuf_bytes (sshbuf_reset A b) = [] \<and>
   same_owner b (sshbuf_reset A b)"
  by (auto simp: sshbuf_reset_shared sshbuf_ok_def sshbuf_insane_def sshbuf_bytes_def same_owner_def)

text \<open>Shrinking the allocation keeps the contents as long as they fit.\<close>

lemma sshbuf_realloc_view:
  assumes "sshbuf_ok b" and "sshbuf_writable b" and "sb_size b \<le> n" and "n \<le> sb_max_size b"
    and "recallocarray A 0 (sb_d b) (sb_mem b) (sb_alloc b) n 1 = Some (dp, m)"
  defines "b' \<equiv> b\<lparr>sb_d := Some dp, sb_cd := Some dp, sb_mem := m, sb_alloc := n\<rparr>"
  shows "sshbuf_ok b'" and "same_view b b'"
proof -
  note ok = sshbuf_okD [OF assms(1)]
  obtain p where d: "sb_d b = Some p"
    using ok(9,10) assms(2) by (auto simp: sshbuf_writable_def)
  have m: "m = take n (sb_mem b @ replicate (n - length (sb_mem b)) 0)"
    using assms(5) ok(2) by (intro recallocarray_contents [of A 0 p _ n 1 dp]) (simp_all add: d)
  show "sshbuf_ok b'"
    using assms(3,4) ok by (auto simp: b'_def sshbuf_ok_def sshbuf_insane_def m)
  show "same_view b b'"
    using ok assms(3) by (simp add: b'_def same_view_def sshbuf_bytes_def m mem_read_def drop_take)
qed

text \<open>
  What \<^verbatim>\<open>sshbuf_set_max_size\<close> promises: on success the new limit is installed and the contents,
  which are at most that long, are kept; on failure nothing but the storage layout has changed.
\<close>

definition max_size_changed :: "nat \<Rightarrow> sshbuf \<Rightarrow> (ssherr + unit) \<times> sshbuf \<Rightarrow> bool" where
  "max_size_changed n b res \<longleftrightarrow>
     sshbuf_ok (snd res) \<and> sshbuf_bytes (snd res) = sshbuf_bytes b \<and>
     (case fst res of Inl e \<Rightarrow> sb_max_size (snd res) = sb_max_size b
      | Inr _ \<Rightarrow> sb_max_size (snd res) = n \<and> sshbuf_len b \<le> n) \<and>
     sb_refcount (snd res) = sb_refcount b \<and> sb_readonly (snd res) = sb_readonly b \<and>
     sb_parent (snd res) = sb_parent b"

lemma sshbuf_bytes_max_size [simp]: "sshbuf_bytes (b\<lparr>sb_max_size := n\<rparr>) = sshbuf_bytes b"
  by (simp add: sshbuf_bytes_def)

lemma max_size_changed_view:
  "same_view b b' \<Longrightarrow> sshbuf_ok b \<Longrightarrow> sshbuf_ok b' \<Longrightarrow> max_size_changed n b' r \<Longrightarrow> max_size_changed n b r"
  by (cases "fst r") (auto simp: max_size_changed_def same_view_def sshbuf_len_ok)

lemma sshbuf_commit_max_changed:
  assumes "sshbuf_ok b" and "n \<le> SSHBUF_SIZE_MAX"
  shows "max_size_changed n b (sshbuf_commit_max n b)"
proof (cases "n < sb_alloc b")
  case False
  then have "sshbuf_ok (b\<lparr>sb_max_size := n\<rparr>)"
    using assms by (auto simp: sshbuf_ok_def sshbuf_insane_def)
  then show ?thesis
    using False assms sshbuf_okD [OF assms(1)]
    by (simp add: sshbuf_commit_max_def max_size_changed_def ret_def sshbuf_len_ok)
qed (use assms in \<open>simp add: sshbuf_commit_max_def max_size_changed_def throw_def\<close>)

lemma sshbuf_shrink_changed:
  assumes ok: "sshbuf_ok b" and wr: "sshbuf_writable b" and n: "n \<le> SSHBUF_SIZE_MAX"
  shows "max_size_changed n b (sshbuf_shrink A n b)"
proof (cases "n < sb_alloc b \<and> n > sb_size b")
  case True
  define rlen where "rlen = min n (if sb_size b < SSHBUF_SIZE_INIT then SSHBUF_SIZE_INIT
                        else ROUNDUP (sb_size b) SSHBUF_SIZE_INC)"
  have rl: "sb_size b \<le> rlen" "rlen \<le> sb_max_size b"
    using True ROUNDUP_ge [of SSHBUF_SIZE_INC "sb_size b"] sshbuf_okD(5) [OF ok]
    by (auto simp: rlen_def sshbuf_consts)
  have run: "sshbuf_shrink A n b =
     (case recallocarray A 0 (sb_d b) (sb_mem b) (sb_alloc b) rlen 1 of
        None \<Rightarrow> (Inl SSH_ERR_ALLOC_FAIL, b)
      | Some (dp, m) \<Rightarrow> sshbuf_commit_max n
          (b\<lparr>sb_d := Some dp, sb_cd := Some dp, sb_mem := m, sb_alloc := rlen\<rparr>))"
    using True by (auto simp: sshbuf_shrink_def Let_def rlen_def throw_def min_def not_less split: option.split)
  show ?thesis
  proof (cases "recallocarray A 0 (sb_d b) (sb_mem b) (sb_alloc b) rlen 1")
    case None
    then show ?thesis using run ok by (simp add: max_size_changed_def)
  next
    case (Some dpm)
    then obtain dp m where rc: "recallocarray A 0 (sb_d b) (sb_mem b) (sb_alloc b) rlen 1 = Some (dp, m)"
      by (cases dpm) auto
    note sh = sshbuf_realloc_view [OF ok wr rl rc]
    show ?thesis
      using max_size_changed_view [OF sh(2) ok sh(1) sshbuf_commit_max_changed [OF sh(1) n]]
        run rc by simp
  qed
qed (use sshbuf_commit_max_changed [OF ok n] in \<open>auto simp: sshbuf_shrink_def\<close>)

lemma sshbuf_set_max_size_changed:
  assumes "sshbuf_ok b"
  shows "max_size_changed n b (sshbuf_set_max_size A n b)"
proof (cases "n = sb_max_size b \<or> \<not> sshbuf_writable b \<or> n > SSHBUF_SIZE_MAX")
  case True
  then show ?thesis
    using assms sshbuf_okD [OF assms]
    by (auto simp: sshbuf_set_max_size_def max_size_changed_def run_simps sshbuf_writable_def sshbuf_len_ok)
next
  case False
  define b1 where "b1 = sshbuf_maybe_pack (n < sb_size b) b"
  have b1: "sshbuf_ok b1" "same_view b b1"
    using assms sshbuf_maybe_pack_ok sshbuf_maybe_pack_view by (auto simp: b1_def)
  then have "max_size_changed n b1 (sshbuf_shrink A n b1)"
    using False same_owner_writable same_view_owner by (intro sshbuf_shrink_changed) auto
  then have "max_size_changed n b (sshbuf_shrink A n b1)"
    using max_size_changed_view b1 assms by blast
  then show ?thesis
    using False assms by (auto simp: sshbuf_set_max_size_def b1_def sshbuf_writable_def)
qed

end
