(* ===== verification/Nchan.thy ===== *)
theory Nchan
  imports Sshbuf
begin

text \<open>
  The channel state machine of \<^verbatim>\<open>nchan.c\<close>: the input and output halves of a channel, the events that
  move them (read or write failure, drained buffers, messages from the peer) and the messages and file
  descriptor operations they cause; with \<^verbatim>\<open>channel_close_fd\<close> of \<^verbatim>\<open>channels.c\<close>, which they call.

  A fatal error ends the process: a computation that reaches it fails and sends nothing more. The packet layer is
  the parameter \<open>send_ok\<close>, whether \<^verbatim>\<open>sshpkt_start\<close>, the puts and \<^verbatim>\<open>sshpkt_send\<close> succeed for a message.
\<close>

subsection \<open>Constants\<close>

definition SSH_CHANNEL_OPEN :: nat where "SSH_CHANNEL_OPEN = 4"
definition SSH_CHANNEL_LARVAL :: nat where "SSH_CHANNEL_LARVAL = 10"
definition SSH_CHANNEL_ZOMBIE :: nat where "SSH_CHANNEL_ZOMBIE = 14"

definition CHAN_INPUT_OPEN :: nat where "CHAN_INPUT_OPEN = 0"
definition CHAN_INPUT_WAIT_DRAIN :: nat where "CHAN_INPUT_WAIT_DRAIN = 1"
definition CHAN_INPUT_WAIT_OCLOSE :: nat where "CHAN_INPUT_WAIT_OCLOSE = 2"
definition CHAN_INPUT_CLOSED :: nat where "CHAN_INPUT_CLOSED = 3"

definition CHAN_OUTPUT_OPEN :: nat where "CHAN_OUTPUT_OPEN = 0"
definition CHAN_OUTPUT_WAIT_DRAIN :: nat where "CHAN_OUTPUT_WAIT_DRAIN = 1"
definition CHAN_OUTPUT_WAIT_IEOF :: nat where "CHAN_OUTPUT_WAIT_IEOF = 2"
definition CHAN_OUTPUT_CLOSED :: nat where "CHAN_OUTPUT_CLOSED = 3"

definition CHAN_CLOSE_SENT :: u32 where "CHAN_CLOSE_SENT = 0x01"
definition CHAN_CLOSE_RCVD :: u32 where "CHAN_CLOSE_RCVD = 0x02"
definition CHAN_EOF_SENT :: u32 where "CHAN_EOF_SENT = 0x04"
definition CHAN_EOF_RCVD :: u32 where "CHAN_EOF_RCVD = 0x08"
definition CHAN_LOCAL :: u32 where "CHAN_LOCAL = 0x10"

definition CHAN_EXTENDED_IGNORE :: nat where "CHAN_EXTENDED_IGNORE = 0"
definition CHAN_EXTENDED_READ :: nat where "CHAN_EXTENDED_READ = 1"
definition CHAN_EXTENDED_WRITE :: nat where "CHAN_EXTENDED_WRITE = 2"

definition SSH_CHAN_IO_RFD :: u32 where "SSH_CHAN_IO_RFD = 0x01"
definition SSH_CHAN_IO_WFD :: u32 where "SSH_CHAN_IO_WFD = 0x02"
definition SSH_CHAN_IO_EFD :: u32 where "SSH_CHAN_IO_EFD = 0x04 OR 0x08"
definition SSH_CHAN_IO_SOCK :: u32 where "SSH_CHAN_IO_SOCK = 0x10 OR 0x20"

definition CHANNEL_RESTORE_RFD :: u32 where "CHANNEL_RESTORE_RFD = 0x01"
definition CHANNEL_RESTORE_WFD :: u32 where "CHANNEL_RESTORE_WFD = 0x02"
definition CHANNEL_RESTORE_EFD :: u32 where "CHANNEL_RESTORE_EFD = 0x04"

definition SSH_BUG_EXTEOF :: u32 where "SSH_BUG_EXTEOF = 0x00200000"
definition SSH_NEW_OPENSSH :: u32 where "SSH_NEW_OPENSSH = 0x04000000"

lemmas chan_states =
  CHAN_INPUT_OPEN_def CHAN_INPUT_WAIT_DRAIN_def CHAN_INPUT_WAIT_OCLOSE_def CHAN_INPUT_CLOSED_def
  CHAN_OUTPUT_OPEN_def CHAN_OUTPUT_WAIT_DRAIN_def CHAN_OUTPUT_WAIT_IEOF_def CHAN_OUTPUT_CLOSED_def

subsection \<open>State\<close>

text \<open>The fields of \<^verbatim>\<open>struct Channel\<close> that these functions read or write.\<close>

record channel =
  ch_type :: nat
  ch_remote_id :: u32
  ch_have_remote_id :: bool
  ch_istate :: nat
  ch_ostate :: nat
  ch_flags :: u32
  ch_rfd :: int
  ch_wfd :: int
  ch_efd :: int
  ch_sock :: int
  ch_io_want :: u32
  ch_io_ready :: u32
  ch_pfds :: "int list"
  ch_restore_block :: u32
  ch_restore_flags :: "int list"
  ch_input :: sshbuf
  ch_output :: sshbuf
  ch_extended :: sshbuf
  ch_extended_usage :: nat
  ch_ctype :: string

datatype chan_msg = Msg_EOF u32 | Msg_CLOSE u32 | Msg_EOW u32

datatype fdop = Op_setfl int int | Op_close int | Op_shutdown_rd int | Op_shutdown_wr int

text \<open>
  The connection as the channel sees it: the compatibility flags of \<^verbatim>\<open>struct ssh\<close>, the messages sent so
  far (newest first), the file descriptor operations made (newest first), and the channel.
\<close>

record chan_state =
  cs_compat :: u32
  cs_sent :: "chan_msg list"
  cs_ops :: "fdop list"
  cs_c :: channel

datatype fatal = Bad_state | No_remote_id | Send_failed

type_synonym 'a chanop = "(fatal, chan_state, 'a) run"

text \<open>What the channel code relies on: the packet layer, the results of \<^verbatim>\<open>close\<close>, the allocator.\<close>

record chan_env =
  send_ok :: "chan_msg \<Rightarrow> bool"
  close_result :: "int \<Rightarrow> int"
  ce_alloc :: allocator

definition upd_c :: "(channel \<Rightarrow> channel) \<Rightarrow> unit chanop" where
  "upd_c f s = ret () (s\<lparr>cs_c := f (cs_c s)\<rparr>)"

definition do_op :: "fdop \<Rightarrow> unit chanop" where
  "do_op x s = ret () (s\<lparr>cs_ops := x # cs_ops s\<rparr>)"

definition do_send :: "chan_env \<Rightarrow> chan_msg \<Rightarrow> unit chanop" where
  "do_send E m s = (if send_ok E m then ret () (s\<lparr>cs_sent := m # cs_sent s\<rparr>) else throw Send_failed s)"

definition skip :: "unit chanop" where "skip = ret ()"

subsection \<open>Closing descriptors\<close>

text \<open>
  The argument \<^verbatim>\<open>fdp\<close> points to one of the four descriptor fields of the channel. It is dereferenced
  again after those fields have been overwritten, so the model keeps it as a name of the field.
\<close>

datatype fdsel = RFD | WFD | EFD | SOCK

fun get_fd :: "fdsel \<Rightarrow> channel \<Rightarrow> int" where
  "get_fd RFD c = ch_rfd c"
| "get_fd WFD c = ch_wfd c"
| "get_fd EFD c = ch_efd c"
| "get_fd SOCK c = ch_sock c"

fun set_fd :: "fdsel \<Rightarrow> int \<Rightarrow> channel \<Rightarrow> channel" where
  "set_fd RFD v c = c\<lparr>ch_rfd := v\<rparr>"
| "set_fd WFD v c = c\<lparr>ch_wfd := v\<rparr>"
| "set_fd EFD v c = c\<lparr>ch_efd := v\<rparr>"
| "set_fd SOCK v c = c\<lparr>ch_sock := v\<rparr>"

definition clear_io :: "u32 \<Rightarrow> nat \<Rightarrow> channel \<Rightarrow> channel" where
  "clear_io msk i c =
     c\<lparr>ch_io_want := ch_io_want c AND NOT msk, ch_io_ready := ch_io_ready c AND NOT msk,
       ch_pfds := (ch_pfds c)[i := - 1]\<rparr>"

text \<open>One of the four blocks that forget a descriptor: \<open>f\<close> is the field compared with \<^verbatim>\<open>*fdp\<close>.\<close>

definition forget_fd :: "fdsel \<Rightarrow> fdsel \<Rightarrow> u32 \<Rightarrow> nat \<Rightarrow> channel \<Rightarrow> channel" where
  "forget_fd fdp f msk i c =
     (if get_fd fdp c = get_fd f c then set_fd f (- 1) (clear_io msk i c) else c)"

definition restore_op :: "fdsel \<Rightarrow> channel \<Rightarrow> fdop list" where
  "restore_op fdp c =
     (let fd = get_fd fdp c in
      if fd = ch_rfd c \<and> ch_restore_block c AND CHANNEL_RESTORE_RFD \<noteq> 0 then [Op_setfl fd (ch_restore_flags c ! 0)]
      else if fd = ch_wfd c \<and> ch_restore_block c AND CHANNEL_RESTORE_WFD \<noteq> 0 then [Op_setfl fd (ch_restore_flags c ! 1)]
      else if fd = ch_efd c \<and> ch_restore_block c AND CHANNEL_RESTORE_EFD \<noteq> 0 then [Op_setfl fd (ch_restore_flags c ! 2)]
      else [])"

definition forget_all :: "fdsel \<Rightarrow> channel \<Rightarrow> channel" where
  "forget_all fdp c =
     forget_fd fdp SOCK SSH_CHAN_IO_SOCK 3
       (forget_fd fdp EFD SSH_CHAN_IO_EFD 2
         (forget_fd fdp WFD SSH_CHAN_IO_WFD 1
           (forget_fd fdp RFD SSH_CHAN_IO_RFD 0 c)))"

definition channel_close_fd :: "chan_env \<Rightarrow> fdsel \<Rightarrow> int chanop" where
  "channel_close_fd E fdp s =
     (let c = cs_c s; fd = get_fd fdp c in
      if fd = - 1 then ret 0 s
      else ret (close_result E fd)
             (s\<lparr>cs_ops := Op_close fd # restore_op fdp c @ cs_ops s,
                cs_c := set_fd fdp (- 1) (forget_all fdp c)\<rparr>))"

definition channel_close_fds :: "chan_env \<Rightarrow> unit chanop" where
  "channel_close_fds E s =
     (let sock = ch_sock (cs_c s); rfd = ch_rfd (cs_c s); wfd = ch_wfd (cs_c s); efd = ch_efd (cs_c s) in
      andthen (channel_close_fd E SOCK) (\<lambda>_.
      andthen (if rfd \<noteq> sock then channel_close_fd E RFD else ret 0) (\<lambda>_.
      andthen (if wfd \<noteq> sock \<and> wfd \<noteq> rfd then channel_close_fd E WFD else ret 0) (\<lambda>_.
      andthen (if efd \<noteq> sock \<and> efd \<noteq> rfd \<and> efd \<noteq> wfd then channel_close_fd E EFD else ret 0) (\<lambda>_.
      skip)))) s)"

subsection \<open>Actions\<close>

definition chan_set_istate :: "nat \<Rightarrow> unit chanop" where
  "chan_set_istate next s =
     (if ch_istate (cs_c s) > CHAN_INPUT_CLOSED \<or> next > CHAN_INPUT_CLOSED then throw Bad_state s
      else upd_c (\<lambda>c. c\<lparr>ch_istate := next\<rparr>) s)"

definition chan_set_ostate :: "nat \<Rightarrow> unit chanop" where
  "chan_set_ostate next s =
     (if ch_ostate (cs_c s) > CHAN_OUTPUT_CLOSED \<or> next > CHAN_OUTPUT_CLOSED then throw Bad_state s
      else upd_c (\<lambda>c. c\<lparr>ch_ostate := next\<rparr>) s)"

definition chan_shutdown_write :: "chan_env \<Rightarrow> unit chanop" where
  "chan_shutdown_write E =
     andthen (upd_c (\<lambda>c. c\<lparr>ch_output := sshbuf_reset (ce_alloc E) (ch_output c)\<rparr>)) (\<lambda>_ s.
       if ch_type (cs_c s) = SSH_CHANNEL_LARVAL then skip s
       else if ch_sock (cs_c s) \<noteq> - 1 then do_op (Op_shutdown_wr (ch_sock (cs_c s))) s
       else andthen (channel_close_fd E WFD) (\<lambda>_. skip) s)"

definition chan_shutdown_read :: "chan_env \<Rightarrow> unit chanop" where
  "chan_shutdown_read E s =
     (if ch_type (cs_c s) = SSH_CHANNEL_LARVAL then skip s
      else if ch_sock (cs_c s) \<noteq> - 1 then do_op (Op_shutdown_rd (ch_sock (cs_c s))) s
      else andthen (channel_close_fd E RFD) (\<lambda>_. skip) s)"

definition chan_shutdown_extended_read :: "chan_env \<Rightarrow> unit chanop" where
  "chan_shutdown_extended_read E s =
     (if ch_type (cs_c s) = SSH_CHANNEL_LARVAL \<or> ch_efd (cs_c s) = - 1 then skip s
      else if ch_extended_usage (cs_c s) \<noteq> CHAN_EXTENDED_READ \<and>
              ch_extended_usage (cs_c s) \<noteq> CHAN_EXTENDED_IGNORE then skip s
      else andthen (channel_close_fd E EFD) (\<lambda>_. skip) s)"

definition chan_send_eof2 :: "chan_env \<Rightarrow> unit chanop" where
  "chan_send_eof2 E s =
     (if ch_istate (cs_c s) = CHAN_INPUT_WAIT_DRAIN
      then if \<not> ch_have_remote_id (cs_c s) then throw No_remote_id s
           else andthen (do_send E (Msg_EOF (ch_remote_id (cs_c s))))
                  (\<lambda>_. upd_c (\<lambda>c. c\<lparr>ch_flags := ch_flags c OR CHAN_EOF_SENT\<rparr>)) s
      else skip s)"

definition chan_send_close2 :: "chan_env \<Rightarrow> unit chanop" where
  "chan_send_close2 E s =
     (if ch_ostate (cs_c s) \<noteq> CHAN_OUTPUT_CLOSED \<or> ch_istate (cs_c s) \<noteq> CHAN_INPUT_CLOSED then skip s
      else if ch_flags (cs_c s) AND CHAN_CLOSE_SENT \<noteq> 0 then skip s
      else if \<not> ch_have_remote_id (cs_c s) then throw No_remote_id s
      else andthen (do_send E (Msg_CLOSE (ch_remote_id (cs_c s))))
             (\<lambda>_. upd_c (\<lambda>c. c\<lparr>ch_flags := ch_flags c OR CHAN_CLOSE_SENT\<rparr>)) s)"

definition chan_send_eow2 :: "chan_env \<Rightarrow> unit chanop" where
  "chan_send_eow2 E s =
     (if ch_ostate (cs_c s) = CHAN_OUTPUT_CLOSED then skip s
      else if cs_compat s AND SSH_NEW_OPENSSH = 0 then skip s
      else if \<not> ch_have_remote_id (cs_c s) then throw No_remote_id s
      else do_send E (Msg_EOW (ch_remote_id (cs_c s))) s)"

subsection \<open>Events\<close>

definition chan_read_failed :: "chan_env \<Rightarrow> unit chanop" where
  "chan_read_failed E s =
     (if ch_istate (cs_c s) = CHAN_INPUT_OPEN
      then andthen (chan_shutdown_read E) (\<lambda>_. chan_set_istate CHAN_INPUT_WAIT_DRAIN) s
      else skip s)"

definition chan_ibuf_empty :: "chan_env \<Rightarrow> unit chanop" where
  "chan_ibuf_empty E s =
     (if sshbuf_len (ch_input (cs_c s)) \<noteq> 0 then skip s
      else if ch_istate (cs_c s) = CHAN_INPUT_WAIT_DRAIN
      then andthen (if ch_flags (cs_c s) AND (CHAN_CLOSE_SENT OR CHAN_LOCAL) = 0 then chan_send_eof2 E else skip)
             (\<lambda>_. chan_set_istate CHAN_INPUT_CLOSED) s
      else skip s)"

definition chan_obuf_empty :: "chan_env \<Rightarrow> unit chanop" where
  "chan_obuf_empty E s =
     (if sshbuf_len (ch_output (cs_c s)) \<noteq> 0 then skip s
      else if ch_ostate (cs_c s) = CHAN_OUTPUT_WAIT_DRAIN
      then andthen (chan_shutdown_write E) (\<lambda>_. chan_set_ostate CHAN_OUTPUT_CLOSED) s
      else skip s)"

definition chan_rcvd_eow :: "chan_env \<Rightarrow> unit chanop" where
  "chan_rcvd_eow E s =
     (if ch_istate (cs_c s) = CHAN_INPUT_OPEN
      then andthen (chan_shutdown_read E) (\<lambda>_. chan_set_istate CHAN_INPUT_CLOSED) s
      else skip s)"

definition CHANNEL_EFD_OUTPUT_ACTIVE :: "channel \<Rightarrow> bool" where
  "CHANNEL_EFD_OUTPUT_ACTIVE c \<longleftrightarrow>
     ch_extended_usage c = CHAN_EXTENDED_WRITE \<and> ch_efd c \<noteq> - 1 \<and>
     (ch_flags c AND (CHAN_EOF_RCVD OR CHAN_CLOSE_RCVD) = 0 \<or> sshbuf_len (ch_extended c) > 0)"

definition chan_rcvd_ieof :: "chan_env \<Rightarrow> unit chanop" where
  "chan_rcvd_ieof E =
     andthen (upd_c (\<lambda>c. c\<lparr>ch_flags := ch_flags c OR CHAN_EOF_RCVD\<rparr>)) (\<lambda>_.
     andthen (\<lambda>s. if ch_ostate (cs_c s) = CHAN_OUTPUT_OPEN then chan_set_ostate CHAN_OUTPUT_WAIT_DRAIN s else skip s) (\<lambda>_ s.
       if ch_ostate (cs_c s) = CHAN_OUTPUT_WAIT_DRAIN \<and> sshbuf_len (ch_output (cs_c s)) = 0 \<and>
          \<not> CHANNEL_EFD_OUTPUT_ACTIVE (cs_c s)
       then chan_obuf_empty E s else skip s))"

text \<open>\<^verbatim>\<open>chan_rcvd_oclose\<close> in its parts: the flag, the larval case, and the two switches.\<close>

definition oclose_output :: "unit chanop" where
  "oclose_output s =
     (if ch_ostate (cs_c s) = CHAN_OUTPUT_OPEN then chan_set_ostate CHAN_OUTPUT_WAIT_DRAIN s else skip s)"

definition oclose_input :: "chan_env \<Rightarrow> unit chanop" where
  "oclose_input E s =
     (if ch_istate (cs_c s) = CHAN_INPUT_OPEN
      then andthen (chan_shutdown_read E) (\<lambda>_. andthen (chan_shutdown_extended_read E)
             (\<lambda>_. chan_set_istate CHAN_INPUT_CLOSED)) s
      else if ch_istate (cs_c s) = CHAN_INPUT_WAIT_DRAIN
      then andthen (if ch_flags (cs_c s) AND CHAN_LOCAL = 0 then chan_send_eof2 E else skip)
             (\<lambda>_. andthen (chan_shutdown_extended_read E) (\<lambda>_. chan_set_istate CHAN_INPUT_CLOSED)) s
      else skip s)"

definition chan_rcvd_oclose :: "chan_env \<Rightarrow> unit chanop" where
  "chan_rcvd_oclose E =
     andthen (\<lambda>s. if ch_flags (cs_c s) AND CHAN_LOCAL = 0
                  then upd_c (\<lambda>c. c\<lparr>ch_flags := ch_flags c OR CHAN_CLOSE_RCVD\<rparr>) s else skip s) (\<lambda>_ s.
       if ch_type (cs_c s) = SSH_CHANNEL_LARVAL
       then andthen (chan_set_ostate CHAN_OUTPUT_CLOSED) (\<lambda>_. chan_set_istate CHAN_INPUT_CLOSED) s
       else andthen oclose_output (\<lambda>_. oclose_input E) s)"

definition chan_write_failed :: "chan_env \<Rightarrow> unit chanop" where
  "chan_write_failed E s =
     (if ch_ostate (cs_c s) = CHAN_OUTPUT_OPEN \<or> ch_ostate (cs_c s) = CHAN_OUTPUT_WAIT_DRAIN
      then andthen (chan_shutdown_write E) (\<lambda>_ s.
             andthen (if ch_ctype (cs_c s) = ''session'' then chan_send_eow2 E else skip)
               (\<lambda>_. chan_set_ostate CHAN_OUTPUT_CLOSED) s) s
      else skip s)"

definition chan_mark_dead :: "unit chanop" where
  "chan_mark_dead = upd_c (\<lambda>c. c\<lparr>ch_type := SSH_CHANNEL_ZOMBIE\<rparr>)"

definition chan_is_dead :: "chan_env \<Rightarrow> bool \<Rightarrow> bool chanop" where
  "chan_is_dead E do_snd s =
     (if ch_type (cs_c s) = SSH_CHANNEL_ZOMBIE then ret True s
      else if ch_istate (cs_c s) \<noteq> CHAN_INPUT_CLOSED \<or> ch_ostate (cs_c s) \<noteq> CHAN_OUTPUT_CLOSED then ret False s
      else if cs_compat s AND SSH_BUG_EXTEOF \<noteq> 0 \<and> ch_extended_usage (cs_c s) = CHAN_EXTENDED_WRITE \<and>
              ch_efd (cs_c s) \<noteq> - 1 \<and> sshbuf_len (ch_extended (cs_c s)) > 0 then ret False s
      else if ch_flags (cs_c s) AND CHAN_LOCAL \<noteq> 0 then ret True s
      else if ch_flags (cs_c s) AND CHAN_CLOSE_SENT = 0 \<and> \<not> do_snd \<and> ch_flags (cs_c s) AND CHAN_CLOSE_RCVD \<noteq> 0
      then ret True s
      else andthen (if ch_flags (cs_c s) AND CHAN_CLOSE_SENT = 0 \<and> do_snd then chan_send_close2 E else skip)
             (\<lambda>_ s. ret (ch_flags (cs_c s) AND CHAN_CLOSE_SENT \<noteq> 0 \<and> ch_flags (cs_c s) AND CHAN_CLOSE_RCVD \<noteq> 0) s) s)"

subsection \<open>Flags as bits\<close>

lemma u32_flags:
  "(x::u32) AND 0x01 = 0 \<longleftrightarrow> \<not> bit x 0" "(x::u32) AND 0x02 = 0 \<longleftrightarrow> \<not> bit x 1"
  "(x::u32) AND 0x04 = 0 \<longleftrightarrow> \<not> bit x 2" "(x::u32) AND 0x08 = 0 \<longleftrightarrow> \<not> bit x 3"
  "(x::u32) AND 0x10 = 0 \<longleftrightarrow> \<not> bit x 4"
  using and_exp_eq_0_iff_not_bit [of x 0] and_exp_eq_0_iff_not_bit [of x 1] and_exp_eq_0_iff_not_bit [of x 2]
    and_exp_eq_0_iff_not_bit [of x 3] and_exp_eq_0_iff_not_bit [of x 4] by simp_all

lemma u32_two_flags:
  "(x::u32) AND (a OR b) = 0 \<longleftrightarrow> x AND a = 0 \<and> x AND b = 0"
  by (auto simp: bit_eq_iff bit_simps)

lemma bit_or_exp: "bit ((x::u32) OR 2 ^ k) n \<longleftrightarrow> bit x n \<or> (n = k \<and> k < 32)"
  by (auto simp: bit_simps)

lemma bit_or_flags:
  "bit ((x::u32) OR 0x01) n \<longleftrightarrow> bit x n \<or> n = 0" "bit ((x::u32) OR 0x02) n \<longleftrightarrow> bit x n \<or> n = 1"
  "bit ((x::u32) OR 0x04) n \<longleftrightarrow> bit x n \<or> n = 2" "bit ((x::u32) OR 0x08) n \<longleftrightarrow> bit x n \<or> n = 3"
  using bit_or_exp [of x 0] bit_or_exp [of x 1] bit_or_exp [of x 2] bit_or_exp [of x 3] by simp_all

lemmas chan_flags =
  CHAN_CLOSE_SENT_def CHAN_CLOSE_RCVD_def CHAN_EOF_SENT_def CHAN_EOF_RCVD_def CHAN_LOCAL_def
  u32_two_flags u32_flags bit_or_flags

abbreviation close_sent :: "channel \<Rightarrow> bool" where "close_sent c \<equiv> bit (ch_flags c) 0"
abbreviation close_rcvd :: "channel \<Rightarrow> bool" where "close_rcvd c \<equiv> bit (ch_flags c) 1"
abbreviation eof_sent :: "channel \<Rightarrow> bool" where "eof_sent c \<equiv> bit (ch_flags c) 2"
abbreviation eof_rcvd :: "channel \<Rightarrow> bool" where "eof_rcvd c \<equiv> bit (ch_flags c) 3"
abbreviation local_chan :: "channel \<Rightarrow> bool" where "local_chan c \<equiv> bit (ch_flags c) 4"

subsection \<open>Frames\<close>

text \<open>
  Everything a descriptor operation leaves alone: the halves, the flags, what was sent, and the fields
  that decide later steps.
\<close>

definition proto_same :: "chan_state \<Rightarrow> chan_state \<Rightarrow> bool" where
  "proto_same s t \<longleftrightarrow>
     cs_sent t = cs_sent s \<and> cs_compat t = cs_compat s \<and> ch_type (cs_c t) = ch_type (cs_c s) \<and>
     ch_istate (cs_c t) = ch_istate (cs_c s) \<and> ch_ostate (cs_c t) = ch_ostate (cs_c s) \<and>
     ch_flags (cs_c t) = ch_flags (cs_c s) \<and> ch_have_remote_id (cs_c t) = ch_have_remote_id (cs_c s) \<and>
     ch_remote_id (cs_c t) = ch_remote_id (cs_c s) \<and> ch_ctype (cs_c t) = ch_ctype (cs_c s) \<and>
     ch_input (cs_c t) = ch_input (cs_c s) \<and> ch_extended (cs_c t) = ch_extended (cs_c s) \<and>
     ch_extended_usage (cs_c t) = ch_extended_usage (cs_c s)"

lemma set_fd_frame:
  "ch_type (set_fd f v c) = ch_type c" "ch_istate (set_fd f v c) = ch_istate c"
  "ch_ostate (set_fd f v c) = ch_ostate c" "ch_flags (set_fd f v c) = ch_flags c"
  "ch_have_remote_id (set_fd f v c) = ch_have_remote_id c" "ch_remote_id (set_fd f v c) = ch_remote_id c"
  "ch_ctype (set_fd f v c) = ch_ctype c" "ch_input (set_fd f v c) = ch_input c"
  "ch_output (set_fd f v c) = ch_output c" "ch_extended (set_fd f v c) = ch_extended c"
  "ch_extended_usage (set_fd f v c) = ch_extended_usage c"
  by (cases f; simp)+

lemma forget_all_frame:
  "ch_type (forget_all f c) = ch_type c" "ch_istate (forget_all f c) = ch_istate c"
  "ch_ostate (forget_all f c) = ch_ostate c" "ch_flags (forget_all f c) = ch_flags c"
  "ch_have_remote_id (forget_all f c) = ch_have_remote_id c" "ch_remote_id (forget_all f c) = ch_remote_id c"
  "ch_ctype (forget_all f c) = ch_ctype c" "ch_input (forget_all f c) = ch_input c"
  "ch_output (forget_all f c) = ch_output c" "ch_extended (forget_all f c) = ch_extended c"
  "ch_extended_usage (forget_all f c) = ch_extended_usage c"
  by (simp_all add: forget_all_def forget_fd_def set_fd_frame clear_io_def)

text \<open>The descriptor operations never fail.\<close>

lemma close_fd_frame:
  "\<exists>r t. channel_close_fd E f s = (Inr r, t) \<and> proto_same s t \<and> ch_output (cs_c t) = ch_output (cs_c s)"
  by (auto simp: channel_close_fd_def run_simps Let_def proto_same_def set_fd_frame forget_all_frame)

lemma shutdown_read_frame:
  "\<exists>t. chan_shutdown_read E s = (Inr (), t) \<and> proto_same s t \<and> ch_output (cs_c t) = ch_output (cs_c s)"
  using close_fd_frame [of E RFD s]
  by (auto simp: chan_shutdown_read_def do_op_def skip_def run_simps proto_same_def)

lemma shutdown_extended_read_frame:
  "\<exists>t. chan_shutdown_extended_read E s = (Inr (), t) \<and> proto_same s t \<and> ch_output (cs_c t) = ch_output (cs_c s)"
  using close_fd_frame [of E EFD s]
  by (auto simp: chan_shutdown_extended_read_def skip_def run_simps proto_same_def)

lemma shutdown_write_frame:
  "\<exists>t. chan_shutdown_write E s = (Inr (), t) \<and> proto_same s t \<and>
     ch_output (cs_c t) = sshbuf_reset (ce_alloc E) (ch_output (cs_c s))"
  using close_fd_frame [of E WFD "s\<lparr>cs_c := (cs_c s)\<lparr>ch_output := sshbuf_reset (ce_alloc E) (ch_output (cs_c s))\<rparr>\<rparr>"]
  by (auto simp: chan_shutdown_write_def upd_c_def do_op_def skip_def run_simps proto_same_def)

subsection \<open>The protocol invariant\<close>

fun is_close :: "chan_msg \<Rightarrow> bool" where "is_close (Msg_CLOSE _) = True" | "is_close _ = False"
fun is_eof :: "chan_msg \<Rightarrow> bool" where "is_eof (Msg_EOF _) = True" | "is_eof _ = False"
fun is_eow :: "chan_msg \<Rightarrow> bool" where "is_eow (Msg_EOW _) = True" | "is_eow _ = False"

text \<open>
  The invariant, on the plain values: the halves are in one of the states in use; each message was sent
  at most once and its flag (close sent, EOF sent) records it; the close was the last message, and was
  sent with both halves closed.
\<close>

definition proto_inv :: "nat \<Rightarrow> nat \<Rightarrow> bool \<Rightarrow> bool \<Rightarrow> chan_msg list \<Rightarrow> bool" where
  "proto_inv i o' cs es ms \<longleftrightarrow>
     i \<in> {CHAN_INPUT_OPEN, CHAN_INPUT_WAIT_DRAIN, CHAN_INPUT_CLOSED} \<and>
     o' \<in> {CHAN_OUTPUT_OPEN, CHAN_OUTPUT_WAIT_DRAIN, CHAN_OUTPUT_CLOSED} \<and>
     length (filter is_close ms) = (if cs then 1 else 0) \<and>
     length (filter is_eof ms) = (if es then 1 else 0) \<and>
     length (filter is_eow ms) \<le> (if o' = CHAN_OUTPUT_CLOSED then 1 else 0) \<and>
     (cs \<longrightarrow> i = CHAN_INPUT_CLOSED \<and> o' = CHAN_OUTPUT_CLOSED) \<and>
     (es \<longrightarrow> i = CHAN_INPUT_CLOSED) \<and>
     (ms \<noteq> [] \<longrightarrow> (\<forall>m \<in> set (tl ms). \<not> is_close m))"

text \<open>The transitions of the two halves, and the three messages.\<close>

lemma proto_inv_states:
  assumes "proto_inv i o' cs es ms"
  shows "i = CHAN_INPUT_OPEN \<or> i = CHAN_INPUT_WAIT_DRAIN \<or> i = CHAN_INPUT_CLOSED"
    and "o' = CHAN_OUTPUT_OPEN \<or> o' = CHAN_OUTPUT_WAIT_DRAIN \<or> o' = CHAN_OUTPUT_CLOSED"
    and "i \<le> CHAN_INPUT_CLOSED" and "o' \<le> CHAN_OUTPUT_CLOSED"
  using assms by (auto simp: proto_inv_def chan_states)

lemma proto_inv_drain_input:
  "proto_inv CHAN_INPUT_OPEN o' cs es ms \<Longrightarrow> proto_inv CHAN_INPUT_WAIT_DRAIN o' cs es ms"
  by (auto simp: proto_inv_def chan_states)

lemma proto_inv_close_input: "proto_inv i o' cs es ms \<Longrightarrow> proto_inv CHAN_INPUT_CLOSED o' cs es ms"
  by (auto simp: proto_inv_def chan_states)

lemma proto_inv_drain_output:
  "proto_inv i CHAN_OUTPUT_OPEN cs es ms \<Longrightarrow> proto_inv i CHAN_OUTPUT_WAIT_DRAIN cs es ms"
  by (auto simp: proto_inv_def chan_states)

lemma proto_inv_close_output: "proto_inv i o' cs es ms \<Longrightarrow> proto_inv i CHAN_OUTPUT_CLOSED cs es ms"
  by (auto simp: proto_inv_def chan_states)

lemma proto_inv_send_eof:
  "proto_inv CHAN_INPUT_WAIT_DRAIN o' cs es ms \<Longrightarrow> proto_inv CHAN_INPUT_CLOSED o' cs True (Msg_EOF r # ms)"
  by (auto simp: proto_inv_def chan_states filter_empty_conv)

lemma proto_inv_send_eow:
  "proto_inv i o' cs es ms \<Longrightarrow> o' \<noteq> CHAN_OUTPUT_CLOSED \<Longrightarrow> proto_inv i CHAN_OUTPUT_CLOSED cs es (Msg_EOW r # ms)"
  by (auto simp: proto_inv_def chan_states filter_empty_conv)

lemma proto_inv_send_close:
  "proto_inv CHAN_INPUT_CLOSED CHAN_OUTPUT_CLOSED False es ms \<Longrightarrow>
   proto_inv CHAN_INPUT_CLOSED CHAN_OUTPUT_CLOSED True es (Msg_CLOSE r # ms)"
  by (auto simp: proto_inv_def filter_empty_conv)

definition chan_inv :: "chan_state \<Rightarrow> bool" where
  "chan_inv s \<longleftrightarrow>
     proto_inv (ch_istate (cs_c s)) (ch_ostate (cs_c s)) (close_sent (cs_c s)) (eof_sent (cs_c s)) (cs_sent s)"

text \<open>Progress: no half goes back, no flag is lost, what was sent stays sent.\<close>

definition chan_mono :: "chan_state \<Rightarrow> chan_state \<Rightarrow> bool" where
  "chan_mono s t \<longleftrightarrow>
     ch_istate (cs_c s) \<le> ch_istate (cs_c t) \<and> ch_ostate (cs_c s) \<le> ch_ostate (cs_c t) \<and>
     (\<forall>n. bit (ch_flags (cs_c s)) n \<longrightarrow> bit (ch_flags (cs_c t)) n) \<and>
     (\<exists>ms. cs_sent t = ms @ cs_sent s)"

definition good_step :: "chan_state \<Rightarrow> (fatal + 'a) \<times> chan_state \<Rightarrow> bool" where
  "good_step s p \<longleftrightarrow> (case p of (Inl e, t) \<Rightarrow> True | (Inr x, t) \<Rightarrow> chan_inv t \<and> chan_mono s t)"

datatype chan_event =
  Read_failed | Ibuf_empty | Obuf_empty | Rcvd_eow | Rcvd_ieof | Rcvd_oclose | Write_failed | Mark_dead
  | Is_dead bool

fun chan_handle :: "chan_env \<Rightarrow> chan_event \<Rightarrow> unit chanop" where
  "chan_handle E Read_failed = chan_read_failed E"
| "chan_handle E Ibuf_empty = chan_ibuf_empty E"
| "chan_handle E Obuf_empty = chan_obuf_empty E"
| "chan_handle E Rcvd_eow = chan_rcvd_eow E"
| "chan_handle E Rcvd_ieof = chan_rcvd_ieof E"
| "chan_handle E Rcvd_oclose = chan_rcvd_oclose E"
| "chan_handle E Write_failed = chan_write_failed E"
| "chan_handle E Mark_dead = chan_mark_dead"
| "chan_handle E (Is_dead b) = andthen (chan_is_dead E b) (\<lambda>_. skip)"

lemmas chan_acts = upd_c_def do_send_def skip_def run_simps chan_set_istate_def chan_set_ostate_def

lemma mono_refl [simp]: "chan_mono s s" by (simp add: chan_mono_def)

lemma mono_trans: "chan_mono s t \<Longrightarrow> chan_mono t u \<Longrightarrow> chan_mono s u"
  by (auto simp: chan_mono_def)

text \<open>A state with the same protocol fields.\<close>

lemma proto_same_inv: "proto_same s t \<Longrightarrow> chan_inv t = chan_inv s"
  by (simp add: proto_same_def chan_inv_def)

lemma proto_same_mono: "proto_same s t \<Longrightarrow> chan_mono t u = chan_mono s u"
  by (simp add: proto_same_def chan_mono_def)

lemma good_seq:
  assumes "good_step s (m s)" and "\<And>x t. m s = (Inr x, t) \<Longrightarrow> good_step t (k x t)"
  shows "good_step s (andthen m k s)"
proof (cases "m s")
  case (Pair r t)
  show ?thesis
  proof (cases r)
    case (Inl e)
    then show ?thesis using Pair by (simp add: good_step_def andthen_def)
  next
    case (Inr x)
    then show ?thesis
      using Pair assms(1) assms(2) [of x t] mono_trans [of s t]
      by (auto simp: good_step_def andthen_def split: sum.splits prod.splits)
  qed
qed

lemma good_InrD: "good_step s (Inr x, t) \<Longrightarrow> chan_inv t" by (simp add: good_step_def)

text \<open>Computations that keep the protocol fields, and the changes of a half, are good steps.\<close>

lemma good_step_from: "good_step t p \<Longrightarrow> proto_same s t \<Longrightarrow> good_step s p"
  by (auto simp: good_step_def proto_same_mono split: sum.splits prod.splits)

lemma proto_sameD:
  assumes "proto_same s t"
  shows "ch_istate (cs_c t) = ch_istate (cs_c s)" and "ch_ostate (cs_c t) = ch_ostate (cs_c s)"
    and "ch_flags (cs_c t) = ch_flags (cs_c s)" and "ch_type (cs_c t) = ch_type (cs_c s)"
    and "cs_sent t = cs_sent s" and "cs_compat t = cs_compat s"
    and "ch_have_remote_id (cs_c t) = ch_have_remote_id (cs_c s)"
    and "ch_remote_id (cs_c t) = ch_remote_id (cs_c s)" and "ch_ctype (cs_c t) = ch_ctype (cs_c s)"
    and "ch_extended_usage (cs_c t) = ch_extended_usage (cs_c s)"
  using assms by (simp_all add: proto_same_def)

lemma skip_good: "chan_inv t \<Longrightarrow> good_step t (skip t)"
  by (simp add: good_step_def skip_def ret_def)

lemma set_istate_good:
  assumes "chan_inv s"
  shows "good_step s (chan_set_istate CHAN_INPUT_CLOSED s)"
    and "ch_istate (cs_c s) = CHAN_INPUT_OPEN \<Longrightarrow> good_step s (chan_set_istate CHAN_INPUT_WAIT_DRAIN s)"
  using assms proto_inv_states(3) proto_inv_close_input proto_inv_drain_input
  by (simp_all add: chan_set_istate_def good_step_def chan_mono_def chan_inv_def upd_c_def run_simps chan_states(1,2))

lemma set_ostate_good:
  assumes "chan_inv s"
  shows "good_step s (chan_set_ostate CHAN_OUTPUT_CLOSED s)"
    and "ch_ostate (cs_c s) = CHAN_OUTPUT_OPEN \<Longrightarrow> good_step s (chan_set_ostate CHAN_OUTPUT_WAIT_DRAIN s)"
  using assms proto_inv_states(4) proto_inv_close_output proto_inv_drain_output
  by (simp_all add: chan_set_ostate_def good_step_def chan_mono_def chan_inv_def upd_c_def run_simps chan_states(5,6))

lemma read_failed_good:
  assumes i: "chan_inv s"
  shows "good_step s (chan_read_failed E s)"
proof -
  obtain t where t: "chan_shutdown_read E s = (Inr (), t)" "proto_same s t"
    using shutdown_read_frame by blast
  have "good_step t (chan_set_istate CHAN_INPUT_WAIT_DRAIN t)" if "ch_istate (cs_c s) = CHAN_INPUT_OPEN"
    by (rule set_istate_good(2)) (use i that t(2) in \<open>simp_all add: proto_same_inv proto_sameD(1)\<close>)
  then show ?thesis
    using skip_good [OF i] t(1) by (auto simp: chan_read_failed_def andthen_def intro: good_step_from [OF _ t(2)])
qed

lemma rcvd_eow_good:
  assumes i: "chan_inv s"
  shows "good_step s (chan_rcvd_eow E s)"
proof -
  obtain t where t: "chan_shutdown_read E s = (Inr (), t)" "proto_same s t"
    using shutdown_read_frame by blast
  have "good_step t (chan_set_istate CHAN_INPUT_CLOSED t)"
    by (rule set_istate_good(1)) (use i t(2) in \<open>simp add: proto_same_inv\<close>)
  then show ?thesis
    using skip_good [OF i] t(1) by (auto simp: chan_rcvd_eow_def andthen_def intro: good_step_from [OF _ t(2)])
qed

lemma obuf_empty_good:
  assumes i: "chan_inv s"
  shows "good_step s (chan_obuf_empty E s)"
proof -
  obtain t where t: "chan_shutdown_write E s = (Inr (), t)" "proto_same s t"
    using shutdown_write_frame by blast
  have "good_step t (chan_set_ostate CHAN_OUTPUT_CLOSED t)"
    by (rule set_ostate_good(1)) (use i t(2) in \<open>simp add: proto_same_inv\<close>)
  then show ?thesis
    using skip_good [OF i] t(1) by (auto simp: chan_obuf_empty_def andthen_def intro: good_step_from [OF _ t(2)])
qed

text \<open>Sending the EOF and closing the input half, with only descriptor operations in between.\<close>

definition eof_state :: "chan_state \<Rightarrow> chan_state" where
  "eof_state s =
     s\<lparr>cs_sent := Msg_EOF (ch_remote_id (cs_c s)) # cs_sent s,
       cs_c := (cs_c s)\<lparr>ch_flags := ch_flags (cs_c s) OR CHAN_EOF_SENT\<rparr>\<rparr>"

lemma send_eof_result:
  "ch_istate (cs_c s) = CHAN_INPUT_WAIT_DRAIN \<Longrightarrow>
   chan_send_eof2 E s =
    (if \<not> ch_have_remote_id (cs_c s) then (Inl No_remote_id, s)
     else if send_ok E (Msg_EOF (ch_remote_id (cs_c s))) then (Inr (), eof_state s) else (Inl Send_failed, s))"
  by (simp add: chan_send_eof2_def do_send_def upd_c_def run_simps eof_state_def)

lemma eof_state_fields:
  "ch_istate (cs_c (eof_state s)) = ch_istate (cs_c s)" "ch_ostate (cs_c (eof_state s)) = ch_ostate (cs_c s)"
  "bit (ch_flags (cs_c (eof_state s))) n \<longleftrightarrow> bit (ch_flags (cs_c s)) n \<or> n = 2"
  "cs_sent (eof_state s) = Msg_EOF (ch_remote_id (cs_c s)) # cs_sent s"
  by (simp_all add: eof_state_def chan_flags)

lemma eof_close_good:
  assumes i: "chan_inv s" and w: "ch_istate (cs_c s) = CHAN_INPUT_WAIT_DRAIN" and "proto_same (eof_state s) t"
  shows "good_step s (chan_set_istate CHAN_INPUT_CLOSED t)"
proof -
  have "chan_inv (t\<lparr>cs_c := (cs_c t)\<lparr>ch_istate := CHAN_INPUT_CLOSED\<rparr>\<rparr>)"
    using i w proto_inv_send_eof proto_sameD [OF assms(3)] by (simp add: chan_inv_def eof_state_fields)
  then show ?thesis
    using w proto_sameD [OF assms(3)]
    by (simp add: good_step_def chan_set_istate_def upd_c_def run_simps chan_mono_def eof_state_fields chan_states(2,4))
qed

lemma ibuf_empty_good:
  assumes i: "chan_inv s"
  shows "good_step s (chan_ibuf_empty E s)"
proof (cases "sshbuf_len (ch_input (cs_c s)) = 0 \<and> ch_istate (cs_c s) = CHAN_INPUT_WAIT_DRAIN")
  case True
  have "proto_same (eof_state s) (eof_state s)" by (simp add: proto_same_def)
  note e = eof_close_good [OF i True [THEN conjunct2] this] and c = set_istate_good(1) [OF i]
  show ?thesis
    using True e c
    by (simp add: chan_ibuf_empty_def andthen_def send_eof_result skip_def ret_def)
      (simp add: good_step_def)
next
  case False
  then show ?thesis using skip_good [OF i] by (auto simp: chan_ibuf_empty_def)
qed

text \<open>Setting a flag other than the two that record a message.\<close>

lemma set_flag_good:
  assumes "chan_inv s" and "\<And>n. bit (f (ch_flags (cs_c s))) n \<longleftrightarrow> bit (ch_flags (cs_c s)) n \<or> n = k" and "k \<noteq> 0" and "k \<noteq> 2"
  shows "good_step s (upd_c (\<lambda>c. c\<lparr>ch_flags := f (ch_flags c)\<rparr>) s)"
  using assms by (simp add: good_step_def upd_c_def ret_def chan_inv_def chan_mono_def)

lemma rcvd_ieof_good:
  assumes "chan_inv s"
  shows "good_step s (chan_rcvd_ieof E s)"
  unfolding chan_rcvd_ieof_def
proof (rule good_seq)
  let ?u = "upd_c (\<lambda>c. c\<lparr>ch_flags := ch_flags c OR CHAN_EOF_RCVD\<rparr>) s"
  show 1: "good_step s ?u"
    using set_flag_good [OF assms, of "\<lambda>f. f OR CHAN_EOF_RCVD" 3] by (simp add: chan_flags)
  fix x t assume t: "?u = (Inr x, t)"
  let ?o = "(if ch_ostate (cs_c t) = CHAN_OUTPUT_OPEN then chan_set_ostate CHAN_OUTPUT_WAIT_DRAIN t else skip t)"
  have i: "chan_inv t" using 1 t by (simp add: good_step_def)
  show "good_step t (andthen (\<lambda>s. if ch_ostate (cs_c s) = CHAN_OUTPUT_OPEN
      then chan_set_ostate CHAN_OUTPUT_WAIT_DRAIN s else skip s) (\<lambda>_ s.
       if ch_ostate (cs_c s) = CHAN_OUTPUT_WAIT_DRAIN \<and> sshbuf_len (ch_output (cs_c s)) = 0 \<and>
          \<not> CHANNEL_EFD_OUTPUT_ACTIVE (cs_c s) then chan_obuf_empty E s else skip s) t)"
  proof (rule good_seq)
    show 2: "good_step t ?o"
      using set_ostate_good(2) [OF i] skip_good [OF i] by simp
    fix y v assume "?o = (Inr y, v)"
    then have "chan_inv v" using 2 by (simp add: good_step_def)
    then show "good_step v (if ch_ostate (cs_c v) = CHAN_OUTPUT_WAIT_DRAIN \<and> sshbuf_len (ch_output (cs_c v)) = 0 \<and>
          \<not> CHANNEL_EFD_OUTPUT_ACTIVE (cs_c v) then chan_obuf_empty E v else skip v)"
      using obuf_empty_good [of v E] skip_good [of v] by simp
  qed
qed

lemma oclose_output_good: "chan_inv s \<Longrightarrow> good_step s (oclose_output s)"
  using set_ostate_good(2) skip_good by (simp add: oclose_output_def)

lemma oclose_input_good:
  assumes i: "chan_inv s"
  shows "good_step s (oclose_input E s)"
proof -
  obtain t where t: "chan_shutdown_read E s = (Inr (), t)" "proto_same s t"
    using shutdown_read_frame by blast
  obtain u where u: "chan_shutdown_extended_read E t = (Inr (), u)" "proto_same t u"
    using shutdown_extended_read_frame by blast
  obtain v where v: "chan_shutdown_extended_read E s = (Inr (), v)" "proto_same s v"
    using shutdown_extended_read_frame by blast
  obtain w where w: "chan_shutdown_extended_read E (eof_state s) = (Inr (), w)" "proto_same (eof_state s) w"
    using shutdown_extended_read_frame by blast
  have su: "proto_same s u" using t(2) u(2) by (simp add: proto_same_def)
  have gu: "good_step s (chan_set_istate CHAN_INPUT_CLOSED u)"
    using good_step_from [OF set_istate_good(1) su] i su by (simp add: proto_same_inv)
  have gv: "good_step s (chan_set_istate CHAN_INPUT_CLOSED v)"
    using good_step_from [OF set_istate_good(1) v(2)] i v(2) by (simp add: proto_same_inv)
  have gw: "ch_istate (cs_c s) = CHAN_INPUT_WAIT_DRAIN \<Longrightarrow> good_step s (chan_set_istate CHAN_INPUT_CLOSED w)"
    using eof_close_good [OF i _ w(2)] .
  show ?thesis
  proof (cases "ch_istate (cs_c s) = CHAN_INPUT_WAIT_DRAIN")
    case True
    then show ?thesis
      using gv gw v(1) w(1)
      by (simp add: oclose_input_def andthen_def send_eof_result skip_def ret_def chan_states(1,2))
        (simp add: good_step_def)
  next
    case False
    then show ?thesis
      using gu t(1) u(1) skip_good [OF i] by (simp add: oclose_input_def andthen_def)
  qed
qed

lemma rcvd_oclose_good:
  assumes "chan_inv s"
  shows "good_step s (chan_rcvd_oclose E s)"
  unfolding chan_rcvd_oclose_def
proof (rule good_seq)
  let ?u = "if ch_flags (cs_c s) AND CHAN_LOCAL = 0
            then upd_c (\<lambda>c. c\<lparr>ch_flags := ch_flags c OR CHAN_CLOSE_RCVD\<rparr>) s else skip s"
  show 1: "good_step s ?u"
    using set_flag_good [OF assms, of "\<lambda>f. f OR CHAN_CLOSE_RCVD" 1] skip_good [OF assms]
    by (simp add: chan_flags)
  fix x t assume t: "?u = (Inr x, t)"
  have i: "chan_inv t" using 1 t by (simp add: good_step_def split: if_splits)
  show "good_step t (if ch_type (cs_c t) = SSH_CHANNEL_LARVAL
       then andthen (chan_set_ostate CHAN_OUTPUT_CLOSED) (\<lambda>_. chan_set_istate CHAN_INPUT_CLOSED) t
       else andthen oclose_output (\<lambda>_. oclose_input E) t)"
  proof (cases "ch_type (cs_c t) = SSH_CHANNEL_LARVAL")
    case True
    have "good_step t (andthen (chan_set_ostate CHAN_OUTPUT_CLOSED) (\<lambda>_. chan_set_istate CHAN_INPUT_CLOSED) t)"
      using set_ostate_good(1) [OF i] by (rule good_seq) (metis set_ostate_good(1) [OF i] good_InrD set_istate_good(1))
    then show ?thesis using True by simp
  next
    case False
    have "good_step t (andthen oclose_output (\<lambda>_. oclose_input E) t)"
      using oclose_output_good [OF i] by (rule good_seq) (metis oclose_output_good [OF i] good_InrD oclose_input_good)
    then show ?thesis using False by simp
  qed
qed

lemma write_failed_good:
  assumes i: "chan_inv s"
  shows "good_step s (chan_write_failed E s)"
proof -
  obtain t where t: "chan_shutdown_write E s = (Inr (), t)" "proto_same s t"
    using shutdown_write_frame by blast
  have it: "chan_inv t" using i t(2) by (simp add: proto_same_inv)
  have eow: "good_step t (chan_set_ostate CHAN_OUTPUT_CLOSED (t\<lparr>cs_sent := Msg_EOW (ch_remote_id (cs_c t)) # cs_sent t\<rparr>))"
    if "ch_ostate (cs_c t) \<noteq> CHAN_OUTPUT_CLOSED"
    using it that proto_inv_send_eow proto_inv_states(4)
    by (simp add: good_step_def chan_set_ostate_def upd_c_def run_simps chan_inv_def chan_mono_def)
  have "good_step t (andthen (if ch_ctype (cs_c t) = ''session'' then chan_send_eow2 E else skip)
          (\<lambda>_. chan_set_ostate CHAN_OUTPUT_CLOSED) t)"
    using set_ostate_good(1) [OF it] eow
    by (simp add: andthen_def chan_send_eow2_def do_send_def skip_def ret_def throw_def)
      (simp add: good_step_def)
  then show ?thesis
    using skip_good [OF i] t(1)
    by (auto simp: chan_write_failed_def andthen_def [of "chan_shutdown_write E"] intro: good_step_from [OF _ t(2)])
qed

lemma send_close_good:
  assumes i: "chan_inv s"
  shows "good_step s (chan_send_close2 E s)"
proof (cases "ch_ostate (cs_c s) = CHAN_OUTPUT_CLOSED \<and> ch_istate (cs_c s) = CHAN_INPUT_CLOSED \<and> \<not> close_sent (cs_c s)")
  case True
  then have "proto_inv CHAN_INPUT_CLOSED CHAN_OUTPUT_CLOSED True (eof_sent (cs_c s)) (Msg_CLOSE r # cs_sent s)" for r
    using i proto_inv_send_close by (simp add: chan_inv_def)
  with True show ?thesis
    by (simp add: chan_send_close2_def do_send_def andthen_def upd_c_def ret_def throw_def chan_flags
          good_step_def chan_inv_def chan_mono_def)
next
  case False
  then show ?thesis using skip_good [OF i] by (auto simp: chan_send_close2_def chan_flags)
qed

lemma is_dead_good: "chan_inv s \<Longrightarrow> good_step s (chan_is_dead E b s)"
proof -
  assume i: "chan_inv s"
  have r: "good_step t (ret x t)" if "chan_inv t" for t and x :: bool
    using that by (simp add: good_step_def ret_def)
  have "good_step s (andthen (if c then chan_send_close2 E else skip) (\<lambda>_ s. ret (f s) s) s)" for c and f :: "chan_state \<Rightarrow> bool"
  proof (rule good_seq)
    show g: "good_step s ((if c then chan_send_close2 E else skip) s)"
      using send_close_good [OF i] skip_good [OF i] by simp
    show "good_step t (ret (f t) t)" if "(if c then chan_send_close2 E else skip) s = (Inr x, t)" for x t
      using g that r by (metis good_InrD)
  qed
  then show ?thesis using r [OF i] by (simp add: chan_is_dead_def)
qed

lemma mark_dead_good: "chan_inv s \<Longrightarrow> good_step s (chan_mark_dead s)"
  by (simp add: chan_mark_dead_def good_step_def upd_c_def ret_def chan_inv_def chan_mono_def)

lemma chan_handle_good: "chan_inv s \<Longrightarrow> good_step s (chan_handle E ev s)"
proof (cases ev)
  case (Is_dead b)
  assume i: "chan_inv s"
  have "good_step s (andthen (chan_is_dead E b) (\<lambda>_. skip) s)"
    using is_dead_good [OF i] by (rule good_seq) (metis is_dead_good [OF i] good_InrD skip_good)
  then show ?thesis by (simp add: Is_dead)
qed (simp_all add: read_failed_good ibuf_empty_good obuf_empty_good rcvd_eow_good rcvd_ieof_good
      rcvd_oclose_good write_failed_good mark_dead_good)

subsection \<open>Runs\<close>

text \<open>
  A run of a channel: it starts with both halves open, nothing sent, and no flag but possibly
  \<^verbatim>\<open>CHAN_LOCAL\<close>; events are handled in any order; in between the rest of the program may change
  everything else (buffers, descriptors, the remote identifier, the type).
\<close>

definition chan_start :: "chan_state \<Rightarrow> bool" where
  "chan_start s \<longleftrightarrow>
     ch_istate (cs_c s) = CHAN_INPUT_OPEN \<and> ch_ostate (cs_c s) = CHAN_OUTPUT_OPEN \<and>
     ch_flags (cs_c s) \<in> {0, CHAN_LOCAL} \<and> cs_sent s = []"

definition env_step :: "chan_state \<Rightarrow> chan_state \<Rightarrow> bool" where
  "env_step s t \<longleftrightarrow>
     cs_sent t = cs_sent s \<and> ch_istate (cs_c t) = ch_istate (cs_c s) \<and>
     ch_ostate (cs_c t) = ch_ostate (cs_c s) \<and> ch_flags (cs_c t) = ch_flags (cs_c s)"

inductive chan_reach :: "chan_env \<Rightarrow> chan_state \<Rightarrow> chan_state \<Rightarrow> bool" for E where
  reach_start: "chan_start s \<Longrightarrow> chan_reach E s s"
| reach_event: "chan_reach E s t \<Longrightarrow> chan_handle E ev t = (Inr (), u) \<Longrightarrow> chan_reach E s u"
| reach_env: "chan_reach E s t \<Longrightarrow> env_step t u \<Longrightarrow> chan_reach E s u"

lemma bit_16: "bit (0x10::u32) n \<longleftrightarrow> n = 4"
  using bit_or_exp [of 0 4 n] by simp

lemma start_inv: "chan_start s \<Longrightarrow> chan_inv s"
  by (auto simp: chan_start_def chan_inv_def proto_inv_def CHAN_LOCAL_def bit_16)

lemma reach_inv: "chan_reach E s t \<Longrightarrow> chan_inv t \<and> chan_mono s t"
proof (induction rule: chan_reach.induct)
  case (reach_start s)
  then show ?case by (simp add: start_inv)
next
  case (reach_event s t ev u)
  then show ?case
    using chan_handle_good [of t E ev] mono_trans [of s t u] by (simp add: good_step_def)
next
  case (reach_env s t u)
  then show ?case by (simp add: env_step_def chan_inv_def chan_mono_def)
qed


subsection \<open>Fatal errors and teardown\<close>

definition no_fatal :: "chan_env \<Rightarrow> chan_state \<Rightarrow> bool" where
  "no_fatal E s \<longleftrightarrow> ch_have_remote_id (cs_c s) \<and> (\<forall>m. send_ok E m)"

text \<open>The two halves change without an error, the states being in range.\<close>

lemma set_istate_total:
  "chan_inv s \<Longrightarrow> n \<le> CHAN_INPUT_CLOSED \<Longrightarrow>
   chan_set_istate n s = (Inr (), s\<lparr>cs_c := (cs_c s)\<lparr>ch_istate := n\<rparr>\<rparr>)"
  using proto_inv_states(3) by (simp add: chan_set_istate_def upd_c_def ret_def chan_inv_def) fastforce

lemma set_ostate_total:
  "chan_inv s \<Longrightarrow> n \<le> CHAN_OUTPUT_CLOSED \<Longrightarrow>
   chan_set_ostate n s = (Inr (), s\<lparr>cs_c := (cs_c s)\<lparr>ch_ostate := n\<rparr>\<rparr>)"
  using proto_inv_states(4) by (simp add: chan_set_ostate_def upd_c_def ret_def chan_inv_def) fastforce

lemma states_le:
  "CHAN_INPUT_WAIT_DRAIN \<le> CHAN_INPUT_CLOSED" "CHAN_OUTPUT_WAIT_DRAIN \<le> CHAN_OUTPUT_CLOSED"
  by (simp_all add: chan_states)

lemma istate_le_inv: "ch_istate (cs_c s) \<le> CHAN_INPUT_CLOSED \<Longrightarrow> n \<le> CHAN_INPUT_CLOSED \<Longrightarrow>
   chan_set_istate n s = (Inr (), s\<lparr>cs_c := (cs_c s)\<lparr>ch_istate := n\<rparr>\<rparr>)"
  by (simp add: chan_set_istate_def upd_c_def ret_def)

lemma obuf_empty_result:
  assumes "chan_inv s"
  shows "\<exists>t. chan_obuf_empty E s = (Inr (), t) \<and>
    (ch_ostate (cs_c s) \<noteq> CHAN_OUTPUT_OPEN \<and> sshbuf_len (ch_output (cs_c s)) = 0 \<longrightarrow>
       ch_ostate (cs_c t) = CHAN_OUTPUT_CLOSED) \<and>
    ch_istate (cs_c t) = ch_istate (cs_c s) \<and> ch_flags (cs_c t) = ch_flags (cs_c s) \<and>
    ch_type (cs_c t) = ch_type (cs_c s) \<and> cs_compat t = cs_compat s \<and>
    ch_have_remote_id (cs_c t) = ch_have_remote_id (cs_c s) \<and>
    ch_extended_usage (cs_c t) = ch_extended_usage (cs_c s)"
proof -
  obtain t where t: "chan_shutdown_write E s = (Inr (), t)" "proto_same s t"
    using shutdown_write_frame by blast
  have "chan_set_ostate CHAN_OUTPUT_CLOSED t = (Inr (), t\<lparr>cs_c := (cs_c t)\<lparr>ch_ostate := CHAN_OUTPUT_CLOSED\<rparr>\<rparr>)"
    by (rule set_ostate_total) (use assms t(2) in \<open>simp_all add: proto_same_inv\<close>)
  moreover have "ch_ostate (cs_c s) = CHAN_OUTPUT_OPEN \<or> ch_ostate (cs_c s) = CHAN_OUTPUT_WAIT_DRAIN \<or>
      ch_ostate (cs_c s) = CHAN_OUTPUT_CLOSED"
    using assms proto_inv_states(2) unfolding chan_inv_def by blast
  ultimately show ?thesis
    using t(1) proto_sameD [OF t(2)] by (auto simp: chan_obuf_empty_def andthen_def skip_def ret_def)
qed

definition drain_state :: "chan_state \<Rightarrow> chan_state" where
  "drain_state s =
     (if ch_ostate (cs_c s) = CHAN_OUTPUT_OPEN
      then s\<lparr>cs_c := (cs_c s)\<lparr>ch_ostate := CHAN_OUTPUT_WAIT_DRAIN\<rparr>\<rparr> else s)"

definition ieof_state :: "chan_state \<Rightarrow> chan_state" where
  "ieof_state s = drain_state (s\<lparr>cs_c := (cs_c s)\<lparr>ch_flags := ch_flags (cs_c s) OR CHAN_EOF_RCVD\<rparr>\<rparr>)"

lemma rcvd_ieof_eq:
  "chan_rcvd_ieof E s =
    (let t = ieof_state s in
     if ch_ostate (cs_c t) = CHAN_OUTPUT_WAIT_DRAIN \<and> sshbuf_len (ch_output (cs_c t)) = 0 \<and>
        \<not> CHANNEL_EFD_OUTPUT_ACTIVE (cs_c t)
     then chan_obuf_empty E t else (Inr (), t))"
  by (simp add: chan_rcvd_ieof_def chan_acts ieof_state_def drain_state_def Let_def chan_states)

lemma ieof_state_inv: "chan_inv s \<Longrightarrow> chan_inv (ieof_state s)"
  by (auto simp: chan_inv_def ieof_state_def drain_state_def chan_flags intro: proto_inv_drain_output)

text \<open>What a received close leaves: the input half closed, the rest of the protocol fields in place.\<close>

definition input_closed :: "chan_state \<Rightarrow> chan_state \<Rightarrow> bool" where
  "input_closed s t \<longleftrightarrow>
     ch_istate (cs_c t) = CHAN_INPUT_CLOSED \<and> ch_ostate (cs_c t) = ch_ostate (cs_c s) \<and>
     cs_compat t = cs_compat s \<and> ch_type (cs_c t) = ch_type (cs_c s) \<and>
     ch_have_remote_id (cs_c t) = ch_have_remote_id (cs_c s) \<and> ch_output (cs_c t) = ch_output (cs_c s) \<and>
     ch_extended_usage (cs_c t) = ch_extended_usage (cs_c s) \<and>
     (\<forall>n. n \<noteq> 2 \<longrightarrow> bit (ch_flags (cs_c t)) n = bit (ch_flags (cs_c s)) n)"

lemma oclose_input_total:
  assumes i: "chan_inv s" and "no_fatal E s"
  shows "\<exists>t. oclose_input E s = (Inr (), t) \<and> input_closed s t"
proof -
  have closes: "chan_set_istate CHAN_INPUT_CLOSED u = (Inr (), u\<lparr>cs_c := (cs_c u)\<lparr>ch_istate := CHAN_INPUT_CLOSED\<rparr>\<rparr>)"
    if "ch_istate (cs_c u) = ch_istate (cs_c s)" for u
    using istate_le_inv [of u CHAN_INPUT_CLOSED] that proto_inv_states(3) [OF i [unfolded chan_inv_def]] by simp
  obtain t where t: "chan_shutdown_read E s = (Inr (), t)" "proto_same s t" "ch_output (cs_c t) = ch_output (cs_c s)"
    using shutdown_read_frame by blast
  obtain u where u: "chan_shutdown_extended_read E t = (Inr (), u)" "proto_same t u" "ch_output (cs_c u) = ch_output (cs_c t)"
    using shutdown_extended_read_frame by blast
  obtain v where v: "chan_shutdown_extended_read E s = (Inr (), v)" "proto_same s v" "ch_output (cs_c v) = ch_output (cs_c s)"
    using shutdown_extended_read_frame by blast
  obtain w where w: "chan_shutdown_extended_read E (eof_state s) = (Inr (), w)" "proto_same (eof_state s) w"
    "ch_output (cs_c w) = ch_output (cs_c (eof_state s))"
    using shutdown_extended_read_frame by blast
  have f: "ch_have_remote_id (cs_c s)" "\<And>m. send_ok E m" using assms(2) by (simp_all add: no_fatal_def)
  consider "ch_istate (cs_c s) = CHAN_INPUT_OPEN" | "ch_istate (cs_c s) = CHAN_INPUT_WAIT_DRAIN"
    | "ch_istate (cs_c s) = CHAN_INPUT_CLOSED" using proto_inv_states(1) [OF i [unfolded chan_inv_def]] by blast
  then show ?thesis
  proof cases
    case 1
    then show ?thesis
      using t u closes [of u] proto_sameD [OF t(2)] proto_sameD [OF u(2)]
      by (simp add: oclose_input_def andthen_def input_closed_def)
  next
    case 2
    then show ?thesis
      using v w closes [of v] closes [of w] proto_sameD [OF v(2)] proto_sameD [OF w(2)] f
      by (simp add: oclose_input_def andthen_def send_eof_result skip_def ret_def input_closed_def
            eof_state_fields chan_states(1,2)) (simp add: eof_state_def)
  next
    case 3
    then show ?thesis by (simp add: oclose_input_def skip_def ret_def input_closed_def chan_states)
  qed
qed

definition oclose_state :: "chan_state \<Rightarrow> chan_state" where
  "oclose_state s =
     (if local_chan (cs_c s) then s
      else s\<lparr>cs_c := (cs_c s)\<lparr>ch_flags := ch_flags (cs_c s) OR CHAN_CLOSE_RCVD\<rparr>\<rparr>)"

lemma rcvd_oclose_eq:
  "ch_type (cs_c s) \<noteq> SSH_CHANNEL_LARVAL \<Longrightarrow>
   chan_rcvd_oclose E s = oclose_input E (drain_state (oclose_state s))"
  by (simp add: chan_rcvd_oclose_def oclose_output_def chan_acts oclose_state_def drain_state_def
        chan_states chan_flags)

lemma oclose_states_inv:
  "chan_inv s \<Longrightarrow> chan_inv (drain_state (oclose_state s))"
  "no_fatal E s \<Longrightarrow> no_fatal E (drain_state (oclose_state s))"
  by (auto simp: chan_inv_def drain_state_def oclose_state_def chan_flags no_fatal_def
        intro: proto_inv_drain_output)

lemma handle_no_fatal:
  assumes i: "chan_inv s" and n: "no_fatal E s"
  shows "\<exists>t. chan_handle E ev s = (Inr (), t)"
proof -
  have f: "ch_have_remote_id (cs_c s)" "\<And>m. send_ok E m" using n by (simp_all add: no_fatal_def)
  obtain t where t: "chan_shutdown_read E s = (Inr (), t)" "proto_same s t" using shutdown_read_frame by blast
  obtain u where u: "chan_shutdown_write E s = (Inr (), u)" "proto_same s u" using shutdown_write_frame by blast
  have ti: "chan_inv t" and ui: "chan_inv u" using i t(2) u(2) by (simp_all add: proto_same_inv)
  note le = proto_inv_states(3,4) [OF i [unfolded chan_inv_def]]
  show ?thesis
  proof (cases ev)
    case Rcvd_oclose
    have "\<exists>t. chan_rcvd_oclose E s = (Inr (), t)" if "ch_type (cs_c s) = SSH_CHANNEL_LARVAL"
      using that le
      by (simp add: chan_rcvd_oclose_def chan_set_ostate_def chan_set_istate_def upd_c_def skip_def run_simps)
    moreover have "\<exists>t. chan_rcvd_oclose E s = (Inr (), t)" if "ch_type (cs_c s) \<noteq> SSH_CHANNEL_LARVAL"
      using oclose_input_total [OF oclose_states_inv(1) [OF i] oclose_states_inv(2) [OF n]] rcvd_oclose_eq [OF that]
      by auto
    ultimately show ?thesis using Rcvd_oclose by auto
  next
    case Obuf_empty
    then show ?thesis using obuf_empty_result [OF i, of E] by auto
  next
    case Rcvd_ieof
    then show ?thesis using obuf_empty_result [OF ieof_state_inv [OF i], of E] by (auto simp: rcvd_ieof_eq Let_def)
  next
    case Write_failed
    have "ch_ostate (cs_c u) = ch_ostate (cs_c s)" by (rule proto_sameD(2) [OF u(2)])
    then show ?thesis using Write_failed le u f proto_sameD(7) [OF u(2)]
      by (simp add: chan_write_failed_def andthen_def chan_send_eow2_def do_send_def skip_def ret_def
            chan_set_ostate_def upd_c_def)
  next
    case (Is_dead b)
    then show ?thesis
      using f by (simp add: chan_is_dead_def chan_send_close2_def do_send_def upd_c_def skip_def run_simps)
  qed (use le f t set_istate_total [OF ti, of CHAN_INPUT_WAIT_DRAIN] set_istate_total [OF ti, of CHAN_INPUT_CLOSED] states_le in
      \<open>simp_all add: chan_read_failed_def chan_rcvd_eow_def chan_ibuf_empty_def chan_mark_dead_def send_eof_result
          andthen_def skip_def ret_def upd_c_def istate_le_inv eof_state_fields\<close>)
qed

text \<open>Both halves closed, the close received: asking whether the channel is dead sends the close.\<close>

lemma is_dead_sends:
  assumes "ch_istate (cs_c s) = CHAN_INPUT_CLOSED" and "ch_ostate (cs_c s) = CHAN_OUTPUT_CLOSED"
    and "close_rcvd (cs_c s)" and "no_fatal E s"
    and "cs_compat s AND SSH_BUG_EXTEOF = 0 \<or> ch_extended_usage (cs_c s) \<noteq> CHAN_EXTENDED_WRITE"
  shows "\<exists>t. chan_is_dead E True s = (Inr True, t)"
  using assms
  by (auto simp: chan_is_dead_def chan_send_close2_def chan_acts no_fatal_def chan_flags)

subsection \<open>Descriptors\<close>

text \<open>
  The effect of \<^verbatim>\<open>channel_close_fd\<close> on the four fields. The blocks run in the order read, write, extended,
  socket, and the block of the field \<^verbatim>\<open>fdp\<close> points to overwrites \<^verbatim>\<open>*fdp\<close>: a later field with the same
  descriptor is not recognised any more.
\<close>

fun fd_rank :: "fdsel \<Rightarrow> nat" where
  "fd_rank RFD = 0" | "fd_rank WFD = 1" | "fd_rank EFD = 2" | "fd_rank SOCK = 3"

lemma forget_all_fd:
  "get_fd g (set_fd f (- 1) (forget_all f c)) =
     (if g = f then - 1 else if fd_rank g < fd_rank f \<and> get_fd g c = get_fd f c then - 1 else get_fd g c)"
  by (cases f; cases g) (auto simp: forget_all_def forget_fd_def clear_io_def)

lemma close_fd_result:
  "channel_close_fd E f s =
     (if get_fd f (cs_c s) = - 1 then (Inr 0, s)
      else (Inr (close_result E (get_fd f (cs_c s))),
            s\<lparr>cs_ops := Op_close (get_fd f (cs_c s)) # restore_op f (cs_c s) @ cs_ops s,
              cs_c := set_fd f (- 1) (forget_all f (cs_c s))\<rparr>))"
  by (simp add: channel_close_fd_def Let_def run_simps)

fun closed_fds :: "fdop list \<Rightarrow> int list" where
  "closed_fds [] = []"
| "closed_fds (Op_close fd # ops) = fd # closed_fds ops"
| "closed_fds (_ # ops) = closed_fds ops"

lemma closed_fds_append [simp]: "closed_fds (xs @ ys) = closed_fds xs @ closed_fds ys"
  by (induction xs rule: closed_fds.induct) auto

lemma closed_fds_restore [simp]: "closed_fds (restore_op f c) = []"
  by (simp add: restore_op_def Let_def)

lemma close_if:
  "\<exists>r t. (if b then channel_close_fd E f else ret 0) s = (Inr r, t) \<and>
     closed_fds (cs_ops t) =
       (if b \<and> get_fd f (cs_c s) \<noteq> - 1 then [get_fd f (cs_c s)] else []) @ closed_fds (cs_ops s) \<and>
     (\<forall>g. (b \<longrightarrow> g \<noteq> f \<and> get_fd g (cs_c s) \<noteq> get_fd f (cs_c s)) \<longrightarrow> get_fd g (cs_c t) = get_fd g (cs_c s))"
  by (auto simp: close_fd_result ret_def forget_all_fd)

lemma close_fds_closed:
  fixes s :: chan_state
  defines "sock \<equiv> ch_sock (cs_c s)" and "rfd \<equiv> ch_rfd (cs_c s)" and "wfd \<equiv> ch_wfd (cs_c s)"
    and "efd \<equiv> ch_efd (cs_c s)"
  shows "\<exists>t. channel_close_fds E s = (Inr (), t) \<and>
    closed_fds (cs_ops t) =
      (if efd \<noteq> sock \<and> efd \<noteq> rfd \<and> efd \<noteq> wfd \<and> efd \<noteq> - 1 then [efd] else []) @
      (if wfd \<noteq> sock \<and> wfd \<noteq> rfd \<and> wfd \<noteq> - 1 then [wfd] else []) @
      (if rfd \<noteq> sock \<and> rfd \<noteq> - 1 then [rfd] else []) @ (if sock \<noteq> - 1 then [sock] else []) @
      closed_fds (cs_ops s)"
proof -
  define b2 b3 b4 where "b2 = (rfd \<noteq> sock)" and "b3 = (wfd \<noteq> sock \<and> wfd \<noteq> rfd)"
    and "b4 = (efd \<noteq> sock \<and> efd \<noteq> rfd \<and> efd \<noteq> wfd)"
  obtain r1 t1 where 1: "channel_close_fd E SOCK s = (Inr r1, t1)"
    "closed_fds (cs_ops t1) = (if sock \<noteq> - 1 then [sock] else []) @ closed_fds (cs_ops s)"
    "\<And>g. g \<noteq> SOCK \<Longrightarrow> get_fd g (cs_c s) \<noteq> sock \<Longrightarrow> get_fd g (cs_c t1) = get_fd g (cs_c s)"
    using close_if [of True E SOCK s] by (auto simp: sock_def)
  obtain r2 t2 where 2: "(if b2 then channel_close_fd E RFD else ret 0) t1 = (Inr r2, t2)"
    "closed_fds (cs_ops t2) = (if b2 \<and> ch_rfd (cs_c t1) \<noteq> - 1 then [ch_rfd (cs_c t1)] else []) @ closed_fds (cs_ops t1)"
    "\<And>g. (b2 \<Longrightarrow> g \<noteq> RFD \<and> get_fd g (cs_c t1) \<noteq> ch_rfd (cs_c t1)) \<Longrightarrow> get_fd g (cs_c t2) = get_fd g (cs_c t1)"
    using close_if [of b2 E RFD t1] by auto
  obtain r3 t3 where 3: "(if b3 then channel_close_fd E WFD else ret 0) t2 = (Inr r3, t3)"
    "closed_fds (cs_ops t3) = (if b3 \<and> ch_wfd (cs_c t2) \<noteq> - 1 then [ch_wfd (cs_c t2)] else []) @ closed_fds (cs_ops t2)"
    "\<And>g. (b3 \<Longrightarrow> g \<noteq> WFD \<and> get_fd g (cs_c t2) \<noteq> ch_wfd (cs_c t2)) \<Longrightarrow> get_fd g (cs_c t3) = get_fd g (cs_c t2)"
    using close_if [of b3 E WFD t2] by auto
  obtain r4 t4 where 4: "(if b4 then channel_close_fd E EFD else ret 0) t3 = (Inr r4, t4)"
    "closed_fds (cs_ops t4) = (if b4 \<and> ch_efd (cs_c t3) \<noteq> - 1 then [ch_efd (cs_c t3)] else []) @ closed_fds (cs_ops t3)"
    using close_if [of b4 E EFD t3] by auto
  have run: "channel_close_fds E s = (Inr (), t4)"
    using 1(1) 2(1) 3(1) 4(1) unfolding b2_def b3_def b4_def
    by (simp add: channel_close_fds_def Let_def andthen_def skip_def ret_def sock_def rfd_def wfd_def efd_def)
  have r: "b2 \<Longrightarrow> ch_rfd (cs_c t1) = rfd" using 1(3) [of RFD] by (simp add: b2_def rfd_def)
  have w: "b3 \<Longrightarrow> ch_wfd (cs_c t2) = wfd"
    using 1(3) [of WFD] 2(3) [of WFD] r by (auto simp: b3_def wfd_def)
  have "b4 \<Longrightarrow> get_fd EFD (cs_c t2) = efd"
    using 1(3) [of EFD] 2(3) [of EFD] r by (auto simp: b4_def efd_def)
  then have e: "b4 \<Longrightarrow> ch_efd (cs_c t3) = efd"
    using 3(3) [of EFD] w by (auto simp: b4_def)
  have if_eq: "(if b \<and> x \<noteq> - 1 then [x] else []) = (if b \<and> y \<noteq> - 1 then [y] else [])" if "b \<Longrightarrow> x = y"
    for b and x y :: int using that by auto
  have "closed_fds (cs_ops t4) = (if b4 \<and> efd \<noteq> - 1 then [efd] else []) @ (if b3 \<and> wfd \<noteq> - 1 then [wfd] else []) @
      (if b2 \<and> rfd \<noteq> - 1 then [rfd] else []) @ (if sock \<noteq> - 1 then [sock] else []) @ closed_fds (cs_ops s)"
    unfolding 4(2) 3(2) 2(2) 1(2)
    using if_eq [of b4, OF e] if_eq [of b3, OF w] if_eq [of b2, OF r] by presburger
  then show ?thesis using run by (simp add: b2_def b3_def b4_def conj_assoc)
qed

subsection \<open>Properties\<close>


text \<open>The runs are not empty: a fresh channel whose peer closes it.\<close>

definition demo_empty_buf :: sshbuf where
  "demo_empty_buf =
     \<lparr>sb_d = Some (1, 0), sb_cd = Some (1, 0), sb_mem = replicate 256 0, sb_off = 0, sb_size = 0,
      sb_max_size = SSHBUF_SIZE_MAX, sb_alloc = 256, sb_readonly = False, sb_refcount = 1, sb_parent = None\<rparr>"

lemma demo_empty_buf_len: "sshbuf_len demo_empty_buf = 0"
  by (simp add: sshbuf_len_def demo_empty_buf_def)

definition demo_channel :: channel where
  "demo_channel =
     \<lparr>ch_type = SSH_CHANNEL_OPEN, ch_remote_id = 7, ch_have_remote_id = True, ch_istate = CHAN_INPUT_OPEN,
      ch_ostate = CHAN_OUTPUT_OPEN, ch_flags = 0, ch_rfd = 5, ch_wfd = 6, ch_efd = - 1, ch_sock = - 1,
      ch_io_want = 0, ch_io_ready = 0, ch_pfds = [- 1, - 1, - 1, - 1], ch_restore_block = 0,
      ch_restore_flags = [0, 0, 0], ch_input = demo_empty_buf, ch_output = demo_empty_buf, ch_extended = demo_empty_buf,
      ch_extended_usage = CHAN_EXTENDED_IGNORE, ch_ctype = ''session''\<rparr>"

definition demo_state :: chan_state where
  "demo_state = \<lparr>cs_compat = 0, cs_sent = [], cs_ops = [], cs_c = demo_channel\<rparr>"

definition demo_env :: chan_env where
  "demo_env = \<lparr>send_ok = (\<lambda>_. True), close_result = (\<lambda>_. 0), ce_alloc = demo_allocator\<rparr>"

lemma demo_start: "chan_start demo_state" "no_fatal demo_env demo_state"
  by (simp_all add: chan_start_def demo_state_def demo_channel_def no_fatal_def demo_env_def)


text \<open>
  C23. No event is fatal: on a channel that a run reaches, whose remote identifier is known, and with a
  packet layer that accepts messages, every event handler returns.
\<close>

theorem channel_events_return:
  assumes "chan_reach E s0 s" and "no_fatal E s"
  shows "\<exists>t. chan_handle E ev s = (Inr (), t)"
  using handle_no_fatal reach_inv assms by blast

theorem channel_events_return_witness: "\<exists>t. chan_handle demo_env Rcvd_oclose demo_state = (Inr (), t)"
  using channel_events_return [OF reach_start [OF demo_start(1)] demo_start(2)] .



text \<open>
  C25. Closing all descriptors of a channel closes each of them exactly once, also when several fields
  hold the same one.
\<close>

theorem channel_close_fds_once:
  "\<exists>t fds. channel_close_fds E s = (Inr (), t) \<and> closed_fds (cs_ops t) = fds @ closed_fds (cs_ops s) \<and>
     distinct fds \<and>
     set fds = {ch_sock (cs_c s), ch_rfd (cs_c s), ch_wfd (cs_c s), ch_efd (cs_c s)} - {- 1}"
proof -
  let ?sock = "ch_sock (cs_c s)" and ?rfd = "ch_rfd (cs_c s)" and ?wfd = "ch_wfd (cs_c s)" and ?efd = "ch_efd (cs_c s)"
  let ?fds = "(if ?efd \<noteq> ?sock \<and> ?efd \<noteq> ?rfd \<and> ?efd \<noteq> ?wfd \<and> ?efd \<noteq> - 1 then [?efd] else []) @
      (if ?wfd \<noteq> ?sock \<and> ?wfd \<noteq> ?rfd \<and> ?wfd \<noteq> - 1 then [?wfd] else []) @
      (if ?rfd \<noteq> ?sock \<and> ?rfd \<noteq> - 1 then [?rfd] else []) @ (if ?sock \<noteq> - 1 then [?sock] else [])"
  have "distinct ?fds" by auto
  moreover have "set ?fds = {?sock, ?rfd, ?wfd, ?efd} - {- 1}" by auto
  ultimately show ?thesis using close_fds_closed [of E s] by (metis append_assoc)
qed

text \<open>
  C26. A defect of \<^verbatim>\<open>channel_close_fd\<close>: it compares the fields with \<^verbatim>\<open>*fdp\<close> after overwriting \<^verbatim>\<open>*fdp\<close> with
  -1. When the read and write descriptors are the same and the read field is closed, the write field keeps
  the closed descriptor.
\<close>

theorem channel_close_fd_leaves_alias:
  assumes "ch_rfd (cs_c s) = fd" and "ch_wfd (cs_c s) = fd" and "fd \<noteq> - 1"
  shows "\<exists>r t. channel_close_fd E RFD s = (Inr r, t) \<and> fd \<in> set (closed_fds (cs_ops t)) \<and>
    ch_rfd (cs_c t) = - 1 \<and> ch_wfd (cs_c t) = fd"
proof -
  let ?c = "set_fd RFD (- 1) (forget_all RFD (cs_c s))"
  have "ch_rfd ?c = - 1" "ch_wfd ?c = fd"
    using forget_all_fd [of RFD RFD "cs_c s"] forget_all_fd [of WFD RFD "cs_c s"] assms(2) by simp_all
  then show ?thesis using assms by (simp add: close_fd_result del: set_fd.simps)
qed

theorem channel_close_fd_leaves_alias_witness:
  "\<exists>r t. channel_close_fd demo_env RFD (demo_state\<lparr>cs_c := demo_channel\<lparr>ch_wfd := 5\<rparr>\<rparr>) = (Inr r, t) \<and>
     ch_wfd (cs_c t) = 5"
  using channel_close_fd_leaves_alias [of "demo_state\<lparr>cs_c := demo_channel\<lparr>ch_wfd := 5\<rparr>\<rparr>" 5 demo_env]
  by (auto simp: demo_channel_def)

end
