(* ===== verification/Cstring.thy ===== *)
theory Cstring
  imports Prelude
begin

text \<open>
  C strings. A string argument is the list of its characters before the terminating zero. The
  functions that write into a fixed array (\<^verbatim>\<open>openbsd-compat/strlcpy.c\<close>,
  \<^verbatim>\<open>openbsd-compat/strlcat.c\<close>) are modelled on the array, a list of characters, and shown to
  implement their effect on the strings the arrays hold; \<^verbatim>\<open>strsep\<close> (\<^verbatim>\<open>openbsd-compat/strsep.c\<close>)
  is modelled on the remaining string, and shown to enumerate the fields of the string.
\<close>

subsection \<open>Characters\<close>

text \<open>The character classes of \<^verbatim>\<open>ctype.h\<close> in the C locale.\<close>

definition NUL :: char where "NUL = CHR 0x00"

definition ccode :: "char \<Rightarrow> nat" where "ccode c = of_char c"

definition isupper :: "char \<Rightarrow> bool" where "isupper c \<longleftrightarrow> 65 \<le> ccode c \<and> ccode c \<le> 90"
definition islower :: "char \<Rightarrow> bool" where "islower c \<longleftrightarrow> 97 \<le> ccode c \<and> ccode c \<le> 122"
definition isdigit :: "char \<Rightarrow> bool" where "isdigit c \<longleftrightarrow> 48 \<le> ccode c \<and> ccode c \<le> 57"
definition isalpha :: "char \<Rightarrow> bool" where "isalpha c \<longleftrightarrow> isupper c \<or> islower c"
definition isalnum :: "char \<Rightarrow> bool" where "isalnum c \<longleftrightarrow> isalpha c \<or> isdigit c"
definition isspace :: "char \<Rightarrow> bool" where
  "isspace c \<longleftrightarrow> ccode c = 32 \<or> (9 \<le> ccode c \<and> ccode c \<le> 13)"

definition tolower :: "char \<Rightarrow> char" where
  "tolower c = (if isupper c then char_of (ccode c + 32) else c)"

definition toupper :: "char \<Rightarrow> char" where
  "toupper c = (if islower c then char_of (ccode c - 32) else c)"

lemmas ctype_defs = isupper_def islower_def isdigit_def isalpha_def isalnum_def isspace_def ccode_def

lemma ccode_less [simp]: "ccode c < 256"
  unfolding ccode_def using range_nat_of_char by auto

lemma char_of_ccode [simp]: "char_of (ccode c) = c"
  by (simp add: ccode_def)

lemma ccode_char_of [simp]: "n < 256 \<Longrightarrow> ccode (char_of n) = n"
  by (simp add: ccode_def)

lemma ccode_inject [simp]: "ccode c = ccode d \<longleftrightarrow> c = d"
  by (simp add: ccode_def)

lemma isupper_tolower [simp]: "\<not> isupper (tolower c)"
  by (cases "isupper c") (auto simp: tolower_def isupper_def)

lemma tolower_idem [simp]: "tolower (tolower c) = tolower c"
  by (simp add: tolower_def [of "tolower c"])

subsection \<open>The string held by an array\<close>

definition cstr :: "char list \<Rightarrow> string" where
  "cstr a = takeWhile (\<lambda>c. c \<noteq> NUL) a"

lemma length_cstr_le: "length (cstr a) \<le> length a"
  by (simp add: cstr_def length_takeWhile_le)

lemma cstr_append_NUL: "NUL \<notin> set s \<Longrightarrow> cstr (s @ NUL # r) = s"
  by (induction s) (auto simp: cstr_def)

lemma cstr_no_NUL [simp]: "NUL \<notin> set (cstr a)"
  by (auto simp: cstr_def dest: set_takeWhileD)

lemma take_length_cstr [simp]: "take (length (cstr a)) a = cstr a"
  by (simp add: cstr_def flip: takeWhile_eq_take)

lemma cstr_split:
  assumes "length (cstr a) < length a"
  obtains r where "a = cstr a @ NUL # r"
proof -
  have "takeWhile (\<lambda>c. c \<noteq> NUL) a \<noteq> a"
    using assms less_irrefl unfolding cstr_def by metis
  then have "dropWhile (\<lambda>c. c \<noteq> NUL) a \<noteq> []" by (simp add: takeWhile_eq_all_conv dropWhile_eq_Nil_conv)
  then obtain x r where x: "dropWhile (\<lambda>c. c \<noteq> NUL) a = x # r" by (cases "dropWhile (\<lambda>c. c \<noteq> NUL) a") auto
  then have "x = NUL" using hd_dropWhile [of "\<lambda>c. c \<noteq> NUL" a] by auto
  then have "a = cstr a @ NUL # r"
    using x takeWhile_dropWhile_id [of "\<lambda>c. c \<noteq> NUL" a] by (simp add: cstr_def)
  then show ?thesis by (rule that)
qed

lemma cstr_take: "length (cstr a) < n \<Longrightarrow> cstr (take n a) = cstr a"
proof (induction a arbitrary: n)
  case Nil
  then show ?case by simp
next
  case (Cons c a)
  then show ?case by (cases n) (auto simp: cstr_def)
qed

subsection \<open>Bounded copy\<close>

text \<open>
  The copying loop of \<^verbatim>\<open>strlcpy\<close>. Its arguments are the iterations left (\<open>n - 1\<close> in the C code), the
  array, the position \<open>d\<close> and the rest of the source with its terminator; the result says whether the
  terminator was copied.
\<close>

fun strlcpy_loop :: "nat \<Rightarrow> char list \<Rightarrow> nat \<Rightarrow> char list \<Rightarrow> bool \<times> char list \<times> nat" where
  "strlcpy_loop 0 dst d s = (False, dst, d)"
| "strlcpy_loop (Suc k) dst d [] = (False, dst, d)"
| "strlcpy_loop (Suc k) dst d (c # s) =
     (if c = NUL then (True, dst[d := c], d + 1) else strlcpy_loop k (dst[d := c]) (d + 1) s)"

definition strlcpy :: "char list \<Rightarrow> string \<Rightarrow> nat \<Rightarrow> nat \<times> char list" where
  "strlcpy dst src siz =
     (length src,
      if siz = 0 then dst
      else (case strlcpy_loop (siz - 1) dst 0 (src @ [NUL]) of
              (finished, a, d) \<Rightarrow> if finished then a else a[d := NUL]))"

lemma strlcpy_loop_copies:
  assumes "d + k < length dst" and "NUL \<notin> set src"
  shows "strlcpy_loop k dst d (src @ [NUL]) =
    (if length src < k
     then (True, take d dst @ src @ NUL # drop (d + length src + 1) dst, d + length src + 1)
     else (False, take d dst @ take k src @ drop (d + k) dst, d + k))"
  using assms
proof (induction k arbitrary: dst d src)
  case 0
  then show ?case by simp
next
  case (Suc k)
  show ?case
  proof (cases src)
    case Nil
    then show ?thesis using Suc.prems by (simp add: upd_conv_take_nth_drop)
  next
    case (Cons c s)
    have "strlcpy_loop k (dst[d := c]) (d + 1) (s @ [NUL]) =
      (if length s < k
       then (True, take (d + 1) (dst[d := c]) @ s @ NUL # drop (d + 1 + length s + 1) (dst[d := c]), d + 1 + length s + 1)
       else (False, take (d + 1) (dst[d := c]) @ take k s @ drop (d + 1 + k) (dst[d := c]), d + 1 + k))"
      by (rule Suc.IH) (use Suc.prems Cons in auto)
    moreover have "take (d + 1) (dst[d := c]) = take d dst @ [c]"
      using Suc.prems by (simp add: take_Suc_conv_app_nth)
    ultimately show ?thesis using Suc.prems Cons by auto
  qed
qed

lemma strlcpy_result:
  assumes "siz \<le> length dst" and "0 < siz" and "NUL \<notin> set src"
  shows "snd (strlcpy dst src siz) =
    (if length src < siz then src @ NUL # drop (length src + 1) dst
     else take (siz - 1) src @ NUL # drop siz dst)"
proof (cases "length src < siz - 1")
  case True
  then show ?thesis using assms strlcpy_loop_copies [of 0 "siz - 1" dst src] by (auto simp: strlcpy_def)
next
  case False
  have *: "length src < siz \<Longrightarrow> siz = Suc (length src)" using False assms(2) by simp
  have "drop (siz - 1) dst = dst ! (siz - 1) # drop siz dst"
    using assms Cons_nth_drop_Suc [of "siz - 1" dst] by auto
  then show ?thesis
    using False assms strlcpy_loop_copies [of 0 "siz - 1" dst src]
    by (cases "length src < siz") (auto simp: strlcpy_def list_update_append not_less dest!: *)
qed

text \<open>A string cut to a buffer of \<open>siz\<close> bytes.\<close>

definition truncated :: "nat \<Rightarrow> string \<Rightarrow> string" where
  "truncated siz s = take (siz - 1) s"

lemma NUL_notin_take: "NUL \<notin> set s \<Longrightarrow> NUL \<notin> set (take n s)"
  by (auto dest: in_set_takeD)

lemma strlcpy_string:
  assumes "siz \<le> length dst" and "0 < siz" and "NUL \<notin> set src"
  shows "cstr (snd (strlcpy dst src siz)) = truncated siz src"
    and "length (snd (strlcpy dst src siz)) = length dst"
    and "drop siz (snd (strlcpy dst src siz)) = drop siz dst"
  using assms
  by (auto simp: strlcpy_result truncated_def cstr_append_NUL NUL_notin_take drop_Cons' Suc_diff_Suc)

subsection \<open>Bounded append\<close>

text \<open>
  The loop that finds the end of the destination gives the smaller of \<open>siz\<close> and the length of the
  string in it; the second loop copies while more than one byte is left.
\<close>

definition strnlen :: "char list \<Rightarrow> nat \<Rightarrow> nat" where
  "strnlen a n = length (cstr (take n a))"

fun strlcat_loop :: "char list \<Rightarrow> nat \<Rightarrow> nat \<Rightarrow> string \<Rightarrow> char list" where
  "strlcat_loop dst d n [] = dst[d := NUL]"
| "strlcat_loop dst d n (c # s) =
     (if n \<noteq> 1 then strlcat_loop (dst[d := c]) (d + 1) (n - 1) s else strlcat_loop dst d n s)"

definition strlcat :: "char list \<Rightarrow> string \<Rightarrow> nat \<Rightarrow> nat \<times> char list" where
  "strlcat dst src siz =
     (let dlen = strnlen dst siz; n = siz - dlen in
      (dlen + length src, if n = 0 then dst else strlcat_loop dst dlen n src))"

lemma strlcat_loop_result:
  "0 < n \<Longrightarrow> d + n \<le> length dst \<Longrightarrow>
   strlcat_loop dst d n s = take d dst @ take (n - 1) s @ NUL # drop (d + length (take (n - 1) s) + 1) dst"
proof (induction dst d n s rule: strlcat_loop.induct)
  case (1 dst d n)
  then show ?case by (simp add: upd_conv_take_nth_drop)
next
  case (2 dst d n c s)
  show ?case
  proof (cases "n = 1")
    case True
    then show ?thesis using 2 by simp
  next
    case False
    have "take (d + 1) (dst[d := c]) = take d dst @ [c]"
      using 2 by (simp add: take_Suc_conv_app_nth)
    moreover have "n - 1 = Suc (n - 1 - 1)" using False 2 by simp
    ultimately show ?thesis using False 2 by (auto simp: take_Cons')
  qed
qed

text \<open>The effect on the string in the destination, when it is terminated within \<open>siz\<close> bytes.\<close>

definition strlcat_str :: "nat \<Rightarrow> string \<Rightarrow> string \<Rightarrow> string" where
  "strlcat_str siz dst src = dst @ take (siz - 1 - length dst) src"

lemma strlcat_string:
  assumes "siz \<le> length dst" and "length (cstr dst) < siz" and "NUL \<notin> set src"
  shows "cstr (snd (strlcat dst src siz)) = strlcat_str siz (cstr dst) src"
    and "length (snd (strlcat dst src siz)) = length dst"
    and "fst (strlcat dst src siz) = length (cstr dst) + length src"
proof -
  have *: "cstr (take siz dst) = cstr dst" using assms(2) by (rule cstr_take)
  let ?n = "siz - length (cstr dst)"
  have r: "snd (strlcat dst src siz) =
    cstr dst @ take (?n - 1) src @ NUL # drop (length (cstr dst) + length (take (?n - 1) src) + 1) dst"
    using assms strlcat_loop_result [of ?n "length (cstr dst)" dst src] take_length_cstr [of dst]
    by (simp add: strlcat_def strnlen_def * Let_def)
  show "cstr (snd (strlcat dst src siz)) = strlcat_str siz (cstr dst) src"
    using cstr_append_NUL [of "cstr dst @ take (?n - 1) src"] assms(3)
    by (simp add: r strlcat_str_def NUL_notin_take diff_right_commute)
  show "length (snd (strlcat dst src siz)) = length dst"
    using assms(1,2) by (auto simp: r)
  show "fst (strlcat dst src siz) = length (cstr dst) + length src"
    by (simp add: strlcat_def strnlen_def * Let_def)
qed

lemma strlcat_str_fits: "length dst + length src < siz \<Longrightarrow> strlcat_str siz dst src = dst @ src"
  by (simp add: strlcat_str_def)

subsection \<open>Fields of a string\<close>

text \<open>
  \<^verbatim>\<open>strsep\<close>: the token up to the first delimiter, and what \<^verbatim>\<open>*stringp\<close> refers to afterwards
  (\<open>None\<close> is \<^verbatim>\<open>NULL\<close>: no more tokens).
\<close>

fun strsep_scan :: "string \<Rightarrow> string \<Rightarrow> string \<times> string option" where
  "strsep_scan delim [] = ([], None)"
| "strsep_scan delim (c # s) =
     (if c \<in> set delim then ([], Some s)
      else (case strsep_scan delim s of (tok, rest) \<Rightarrow> (c # tok, rest)))"

definition strsep :: "string \<Rightarrow> string option \<Rightarrow> string option \<times> string option" where
  "strsep delim sp =
     (case sp of
        None \<Rightarrow> (None, None)
      | Some s \<Rightarrow> (case strsep_scan delim s of (tok, rest) \<Rightarrow> (Some tok, rest)))"

lemma strsep_None [simp]: "strsep delim None = (None, None)"
  by (simp add: strsep_def)

lemma strsep_scan_shorter: "strsep_scan delim s = (tok, Some r) \<Longrightarrow> length r < length s"
  by (induction delim s arbitrary: tok r rule: strsep_scan.induct)
    (auto split: if_splits prod.splits intro: less_SucI)

lemma strsep_shorter: "strsep delim (Some s) = (tok, Some r) \<Longrightarrow> length r < length s"
  by (auto simp: strsep_def split: prod.splits dest: strsep_scan_shorter)

text \<open>The fields of a string between commas, as a specification, and its inverse.\<close>

fun splits :: "char \<Rightarrow> string \<Rightarrow> string list" where
  "splits d [] = [[]]"
| "splits d (c # s) =
     (if c = d then [] # splits d s else (c # hd (splits d s)) # tl (splits d s))"

fun joins :: "char \<Rightarrow> string list \<Rightarrow> string" where
  "joins d [] = []"
| "joins d [t] = t"
| "joins d (t # u # ts) = t @ d # joins d (u # ts)"

lemma splits_not_Nil [simp]: "splits d s \<noteq> []"
  by (cases s) auto

lemma splits_append: "d \<notin> set t \<Longrightarrow> splits d (t @ d # s) = t # splits d s"
  by (induction t) auto

lemma splits_single: "d \<notin> set t \<Longrightarrow> splits d t = [t]"
  by (induction t) auto

lemma splits_field: "t \<in> set (splits d s) \<Longrightarrow> d \<notin> set t"
proof (induction d s arbitrary: t rule: splits.induct)
  case (2 d c s)
  then show ?case by (cases "splits d s") (auto split: if_splits)
qed simp

lemma joins_splits: "joins d (splits d s) = s"
proof (induction d s rule: splits.induct)
  case (2 d c s)
  then show ?case by (cases "splits d s"; cases "tl (splits d s)") auto
qed simp

lemma splits_joins:
  "ts \<noteq> [] \<Longrightarrow> (\<And>t. t \<in> set ts \<Longrightarrow> d \<notin> set t) \<Longrightarrow> splits d (joins d ts) = ts"
  by (induction d ts rule: joins.induct) (auto simp: splits_append splits_single)

lemma length_joins: "ts \<noteq> [] \<Longrightarrow> length (joins d ts) + 1 = sum_list (map (\<lambda>t. length t + 1) ts)"
  by (induction d ts rule: joins.induct) auto

lemma strsep_scan_splits:
  "strsep_scan [d] s = (tok, rest) \<Longrightarrow>
   splits d s = tok # (case rest of None \<Rightarrow> [] | Some r \<Rightarrow> splits d r)"
proof (induction "[d]" s arbitrary: tok rule: strsep_scan.induct)
  case (2 c s)
  then show ?case by (auto split: if_splits prod.splits)
qed simp

text \<open>
  Every loop over \<^verbatim>\<open>strsep\<close> with a one-character delimiter steps through the fields of the string.
\<close>

lemma strsep_splits:
  assumes "strsep [d] (Some s) = (tok, rest)"
  obtains t where "tok = Some t"
    and "splits d s = t # (case rest of None \<Rightarrow> [] | Some r \<Rightarrow> splits d r)"
  using assms strsep_scan_splits by (auto simp: strsep_def split: prod.splits)

lemma strsep_fields:
  "strsep [d] (Some s) =
     (Some (hd (splits d s)),
      if tl (splits d s) = [] then None else Some (drop (length (hd (splits d s)) + 1) s))"
proof (induction s)
  case Nil
  show ?case by (simp add: strsep_def)
next
  case (Cons c s)
  then show ?case by (auto simp: strsep_def split: prod.splits)
qed

lemma takeWhile_field: "takeWhile (\<lambda>c. c \<noteq> d) s = hd (splits d s)"
  by (induction s) auto

end
