(* ===== verification/Match.thy ===== *)
theory Match
  imports Cstring Alloc
begin

text \<open>
  Wildcard and list matching (\<^verbatim>\<open>match.c\<close>): patterns with \<open>*\<close> and \<open>?\<close>, comma-separated pattern
  lists with negation, the negotiation of proposal lists, and their filters. The functions that also
  match addresses are in the theory of address matching.
\<close>

subsection \<open>Patterns\<close>

lemma length_dropWhile_tail: "dropWhile P p = d # q \<Longrightarrow> length q < length p"
  using length_dropWhile_le [of P p] by simp

text \<open>
  The two loops of \<^verbatim>\<open>match_pattern\<close> that follow an asterisk are the functions \<open>match_known\<close> (the
  next pattern character is known) and \<open>match_any\<close>.
\<close>

function match_pattern :: "string \<Rightarrow> string \<Rightarrow> bool"
  and match_known :: "string \<Rightarrow> char \<Rightarrow> string \<Rightarrow> bool"
  and match_any :: "string \<Rightarrow> string \<Rightarrow> bool" where
  "match_pattern s [] = (s = [])"
| "match_pattern s (c # p) =
     (if c = CHR ''*'' then
        (case dropWhile (\<lambda>d. d = CHR ''*'') p of
           [] \<Rightarrow> True
         | d # q \<Rightarrow> if d \<noteq> CHR ''?'' \<and> d \<noteq> CHR ''*'' then match_known s d q else match_any s (d # q))
      else
        (case s of
           [] \<Rightarrow> False
         | x # xs \<Rightarrow> if c \<noteq> CHR ''?'' \<and> c \<noteq> x then False else match_pattern xs p))"
| "match_known [] d q = False"
| "match_known (x # xs) d q = (if x = d \<and> match_pattern xs q then True else match_known xs d q)"
| "match_any [] p = False"
| "match_any (x # xs) p = (if match_pattern (x # xs) p then True else match_any xs p)"
  by pat_completeness auto
termination
  by (relation "measures [\<lambda>x. case x of Inl (s, p) \<Rightarrow> length p
                        | Inr (Inl (s, d, q)) \<Rightarrow> length q + 1 | Inr (Inr (s, p)) \<Rightarrow> length p,
                 \<lambda>x. case x of Inl (s, p) \<Rightarrow> length s
                        | Inr (Inl (s, d, q)) \<Rightarrow> length s | Inr (Inr (s, p)) \<Rightarrow> length s + 1]")
    (auto dest!: length_dropWhile_tail)

text \<open>What a pattern means, independently of the algorithm.\<close>

inductive globs :: "string \<Rightarrow> string \<Rightarrow> bool" where
  globs_nil: "globs [] []"
| globs_star: "globs p u \<Longrightarrow> globs (CHR ''*'' # p) (t @ u)"
| globs_any: "globs p s \<Longrightarrow> globs (CHR ''?'' # p) (x # s)"
| globs_lit: "c \<noteq> CHR ''*'' \<Longrightarrow> c \<noteq> CHR ''?'' \<Longrightarrow> globs p s \<Longrightarrow> globs (c # p) (c # s)"

inductive_cases globs_NilE: "globs [] s"
inductive_cases globs_ConsE: "globs (c # p) s"

lemma globs_Nil_iff: "globs [] s \<longleftrightarrow> s = []"
  by (auto intro: globs_nil elim: globs_NilE)

lemma globs_star_iff: "globs (CHR ''*'' # p) s \<longleftrightarrow> (\<exists>t u. s = t @ u \<and> globs p u)"
  by (blast intro: globs_star elim: globs_ConsE)

lemma globs_char_iff:
  "c \<noteq> CHR ''*'' \<Longrightarrow>
   globs (c # p) s \<longleftrightarrow> (\<exists>x xs. s = x # xs \<and> (c = CHR ''?'' \<or> c = x) \<and> globs p xs)"
  by (auto intro: globs_any globs_lit elim: globs_ConsE)

lemma globs_star_all: "globs [CHR ''*''] s"
  using globs_star [OF globs_nil, of s] by simp

lemma globs_star_star: "globs (CHR ''*'' # CHR ''*'' # p) s \<longleftrightarrow> globs (CHR ''*'' # p) s"
proof
  assume "globs (CHR ''*'' # CHR ''*'' # p) s"
  then obtain t u v where "s = t @ u @ v" "globs p v" by (auto simp: globs_star_iff)
  then show "globs (CHR ''*'' # p) s" using globs_star [of p v "t @ u"] by simp
next
  assume "globs (CHR ''*'' # p) s"
  then show "globs (CHR ''*'' # CHR ''*'' # p) s" using globs_star [of _ s "[]"] by simp
qed

lemma globs_skip_stars:
  "globs (CHR ''*'' # p) s \<longleftrightarrow> globs (CHR ''*'' # dropWhile (\<lambda>d. d = CHR ''*'') p) s"
  by (induction p) (auto simp: globs_star_star)

lemma globs_star_Cons_iff:
  "globs (CHR ''*'' # p) (x # xs) \<longleftrightarrow> globs p (x # xs) \<or> globs (CHR ''*'' # p) xs"
  by (auto simp: globs_star_iff Cons_eq_append_conv)

lemma globs_star_Nil_iff: "globs (CHR ''*'' # p) [] \<longleftrightarrow> globs p []"
  by (auto simp: globs_star_iff)

lemma match_pattern_globs:
  "match_pattern s p = globs p s"
  "d \<noteq> CHR ''?'' \<Longrightarrow> d \<noteq> CHR ''*'' \<Longrightarrow> match_known s d q = globs (CHR ''*'' # d # q) s"
  "p' \<noteq> [] \<Longrightarrow> hd p' \<noteq> CHR ''*'' \<Longrightarrow> match_any s' p' = globs (CHR ''*'' # p') s'"
proof (induction s p and s d q and s' p' rule: match_pattern_match_known_match_any.induct)
  case (2 s c p)
  show ?case
  proof (cases "c = CHR ''*''")
    case True
    show ?thesis
    proof (cases "dropWhile (\<lambda>d. d = CHR ''*'') p")
      case Nil
      then have "globs (CHR ''*'' # p) s" using globs_skip_stars [of p s] globs_star_all [of s] by metis
      then show ?thesis using True Nil by (simp del: dropWhile_eq_Nil_conv)
    next
      case (Cons d q)
      then have "d \<noteq> CHR ''*''" using hd_dropWhile [of "\<lambda>d. d = CHR ''*''" p] by simp
      then show ?thesis
        using True Cons 2(1,2) [OF True Cons] globs_skip_stars [of p s]
        by (cases "d = CHR ''?''") simp_all
    qed
  next
    case False
    then show ?thesis using 2(3) by (auto simp: globs_char_iff split: list.splits)
  qed
qed (auto simp: globs_Nil_iff globs_star_Nil_iff globs_star_Cons_iff globs_char_iff neq_Nil_conv)

subsection \<open>Pattern lists\<close>

definition SUB_SIZE :: nat where "SUB_SIZE = 1024"

text \<open>
  The loop that extracts a subpattern: it stops at a comma, at the end, or when the array is full;
  the first argument is the room left.
\<close>

fun sub_scan :: "nat \<Rightarrow> bool \<Rightarrow> string \<Rightarrow> string \<times> string" where
  "sub_scan 0 dolower p = ([], p)"
| "sub_scan (Suc k) dolower [] = ([], [])"
| "sub_scan (Suc k) dolower (c # p) =
     (if c = CHR '','' then ([], c # p)
      else (case sub_scan k dolower p of
              (sub, rest) \<Rightarrow> ((if dolower \<and> isupper c then tolower c else c) # sub, rest)))"

definition skip_comma :: "string \<Rightarrow> string" where
  "skip_comma p = (if p \<noteq> [] \<and> hd p = CHR '','' then tl p else p)"

text \<open>One turn of the loop of \<^verbatim>\<open>match_pattern_list\<close>: negation, subpattern, and the rest.\<close>

definition next_sub :: "bool \<Rightarrow> string \<Rightarrow> bool \<times> string \<times> string" where
  "next_sub dolower pat =
     (let negated = (hd pat = CHR ''!''); p = (if negated then tl pat else pat) in
      case sub_scan (SUB_SIZE - 1) dolower p of (sub, rest) \<Rightarrow> (negated, sub, skip_comma rest))"

lemma sub_scan_length: "sub_scan k dolower p = (sub, rest) \<Longrightarrow> length p = length sub + length rest"
  by (induction k dolower p arbitrary: sub rule: sub_scan.induct) (auto split: if_splits prod.splits)

lemma sub_scan_empty:
  "sub_scan (Suc k) dolower p = ([], rest) \<Longrightarrow> rest = p \<and> (p = [] \<or> hd p = CHR '','')"
  by (cases p) (auto split: if_splits prod.splits)

lemma next_sub_shorter:
  assumes "pat \<noteq> []" and "next_sub dolower pat = (negated, sub, rest)"
  shows "length rest < length pat"
proof -
  let ?p = "if hd pat = CHR ''!'' then tl pat else pat"
  obtain r where r: "sub_scan (Suc 1022) dolower ?p = (sub, r)" "rest = skip_comma r"
    "negated = (hd pat = CHR ''!'')"
    using assms(2) by (auto simp: next_sub_def SUB_SIZE_def Let_def split: prod.splits)
  have "length rest \<le> length r" by (simp add: r skip_comma_def)
  moreover have "length r < length pat" if "hd pat = CHR ''!'' \<or> sub \<noteq> []"
    using sub_scan_length [OF r(1)] that assms(1) by (cases pat) (auto split: if_splits)
  moreover have "length rest < length pat" if "hd pat \<noteq> CHR ''!''" "sub = []"
    using sub_scan_empty [of 1022 dolower pat r] r that assms(1) by (auto simp: skip_comma_def)
  ultimately show ?thesis by fastforce
qed

function mpl_loop :: "bool \<Rightarrow> string \<Rightarrow> string \<Rightarrow> bool \<Rightarrow> int" where
  "mpl_loop dolower str pat got_positive =
     (if pat = [] then (if got_positive then 1 else 0)
      else
        (case next_sub dolower pat of
           (negated, sub, rest) \<Rightarrow>
             if length sub \<ge> SUB_SIZE - 1 then 0
             else if match_pattern str sub
             then (if negated then - 1 else mpl_loop dolower str rest True)
             else mpl_loop dolower str rest got_positive))"
  by pat_completeness auto
termination
  by (relation "measure (\<lambda>(dolower, str, pat, got). length pat)")
    (auto dest: next_sub_shorter [OF _ sym])

declare mpl_loop.simps [simp del]

definition match_pattern_list :: "string \<Rightarrow> string \<Rightarrow> bool \<Rightarrow> int" where
  "match_pattern_list str pat dolower = mpl_loop dolower str pat False"

definition match_usergroup_pattern_list :: "string \<Rightarrow> string \<Rightarrow> int" where
  "match_usergroup_pattern_list str pat = match_pattern_list str pat False"

text \<open>\<^verbatim>\<open>lowercase\<close> of \<^verbatim>\<open>misc.c\<close>.\<close>

definition lowercase :: "string \<Rightarrow> string" where
  "lowercase s = map tolower s"

definition match_hostname :: "string \<Rightarrow> string \<Rightarrow> int" where
  "match_hostname host pat = match_pattern_list (lowercase host) pat True"

text \<open>
  The meaning of a pattern list: its fields between commas (a trailing empty field is not one), each
  a negation flag and a subpattern.
\<close>

definition entry :: "bool \<Rightarrow> string \<Rightarrow> bool \<times> string" where
  "entry dolower f =
     (if f \<noteq> [] \<and> hd f = CHR ''!'' then (True, if dolower then lowercase (tl f) else tl f)
      else (False, if dolower then lowercase f else f))"

definition entries :: "bool \<Rightarrow> string \<Rightarrow> (bool \<times> string) list" where
  "entries dolower pat =
     (let fs = splits (CHR '','') pat in
      map (entry dolower) (if last fs = [] then butlast fs else fs))"

definition list_result :: "(bool \<times> string) list \<Rightarrow> string \<Rightarrow> int" where
  "list_result es str =
     (if \<exists>p. (True, p) \<in> set es \<and> globs p str then - 1
      else if \<exists>p. (False, p) \<in> set es \<and> globs p str then 1 else 0)"

lemma sub_scan_field:
  "length (hd (splits (CHR '','') p)) < k \<Longrightarrow>
   sub_scan k dolower p =
     ((if dolower then lowercase (hd (splits (CHR '','') p)) else hd (splits (CHR '','') p)),
      drop (length (hd (splits (CHR '','') p))) p)"
  by (induction k dolower p rule: sub_scan.induct) (auto simp: lowercase_def tolower_def)

lemma sub_scan_too_long:
  "k \<le> length (hd (splits (CHR '','') p)) \<Longrightarrow> length (fst (sub_scan k dolower p)) = k"
  by (induction k dolower p rule: sub_scan.induct) (auto split: prod.splits if_splits)

lemma drop_field:
  "splits d (drop (length (hd (splits d p)) + 1) p) =
     (if tl (splits d p) = [] then [[]] else tl (splits d p))"
  by (induction p) auto

lemma entries_Nil [simp]: "entries dolower [] = []"
  by (simp add: entries_def)

lemma entries_rec:
  assumes "pat \<noteq> []"
  shows "entries dolower pat =
    entry dolower (hd (splits (CHR '','') pat)) #
    entries dolower (drop (length (hd (splits (CHR '','') pat)) + 1) pat)"
proof -
  obtain f fs where f: "splits (CHR '','') pat = f # fs" by (cases "splits (CHR '','') pat") auto
  have "pat = f" if "fs = []" using joins_splits [of "CHR '',''" pat] f that by simp
  then show ?thesis
    using f assms drop_field [of "CHR '',''" pat] by (auto simp: entries_def Let_def)
qed

lemma next_sub_entry:
  assumes "pat \<noteq> []" and f: "f = hd (splits (CHR '','') pat)"
    and short: "length (snd (entry dolower f)) < SUB_SIZE - 1"
  shows "next_sub dolower pat =
    (fst (entry dolower f), snd (entry dolower f), drop (length f + 1) pat)"
proof -
  obtain c p where c: "pat = c # p" using assms(1) by (cases pat) auto
  define p1 where "p1 = (if c = CHR ''!'' then p else pat)"
  define f1 where "f1 = hd (splits (CHR '','') p1)"
  have neg: "(f \<noteq> [] \<and> hd f = CHR ''!'') = (c = CHR ''!'')" using c f by auto
  have f1: "f1 = (if c = CHR ''!'' then tl f else f)" using c f by (auto simp: f1_def p1_def)
  have "length f1 < SUB_SIZE - 1"
    using short neg f1 by (auto simp: entry_def lowercase_def split: if_splits)
  then have "sub_scan (SUB_SIZE - 1) dolower p1 =
      ((if dolower then lowercase f1 else f1), drop (length f1) p1)"
    unfolding f1_def by (rule sub_scan_field)
  moreover have "skip_comma (drop (length f1) p1) = drop (length f1 + 1) p1"
    unfolding f1_def by (induction p1) (auto simp: skip_comma_def)
  moreover have "drop (length f1 + 1) p1 = drop (length f + 1) pat"
    using c f f1 by (auto simp: p1_def)
  ultimately have "next_sub dolower pat =
      (c = CHR ''!'', (if dolower then lowercase f1 else f1), drop (length f + 1) pat)"
    using c by (cases "c = CHR ''!''") (simp_all add: next_sub_def Let_def p1_def)
  then show ?thesis using neg f1 by (auto simp: entry_def)
qed

lemma mpl_loop_result:
  "list_all (\<lambda>e. length (snd e) < SUB_SIZE - 1) (entries dolower pat) \<Longrightarrow>
   mpl_loop dolower str pat got =
     (if \<exists>p. (True, p) \<in> set (entries dolower pat) \<and> globs p str then - 1
      else if got \<or> (\<exists>p. (False, p) \<in> set (entries dolower pat) \<and> globs p str) then 1 else 0)"
proof (induction dolower str pat got rule: mpl_loop.induct)
  case (1 dolower str pat got)
  show ?case
  proof (cases "pat = []")
    case True
    then show ?thesis by (simp add: mpl_loop.simps [of _ _ "[]"])
  next
    case False
    let ?f = "hd (splits (CHR '','') pat)"
    obtain negated sub where e: "entry dolower ?f = (negated, sub)" by (cases "entry dolower ?f")
    let ?r = "drop (length ?f + 1) pat"
    have es: "entries dolower pat = (negated, sub) # entries dolower ?r"
      using entries_rec [OF False] e by simp
    then have short: "length sub < SUB_SIZE - 1" using 1(3) by simp
    then have n: "next_sub dolower pat = (negated, sub, ?r)"
      using next_sub_entry [OF False refl] e by simp
    have m: "mpl_loop dolower str pat got =
      (if match_pattern str sub then (if negated then - 1 else mpl_loop dolower str ?r True)
       else mpl_loop dolower str ?r got)"
      using False short n by (simp add: mpl_loop.simps [of _ _ pat])
    have long: "\<not> SUB_SIZE - 1 \<le> length sub" using short by simp
    have rest: "list_all (\<lambda>e. length (snd e) < SUB_SIZE - 1) (entries dolower ?r)" using 1(3) es by simp
    note IH = 1(1) [OF False n [symmetric] refl long _ _ rest] 1(2) [OF False n [symmetric] refl long _ rest]
    show ?thesis
      unfolding m es using IH by (cases negated; cases "match_pattern str sub") (auto simp: match_pattern_globs)
  qed
qed

lemma next_sub_long:
  assumes "pat \<noteq> []" and "\<not> length (snd (entry dolower (hd (splits (CHR '','') pat)))) < SUB_SIZE - 1"
  shows "length (fst (snd (next_sub dolower pat))) = SUB_SIZE - 1"
proof -
  obtain c p where c: "pat = c # p" using assms(1) by (cases pat) auto
  define p1 where "p1 = (if c = CHR ''!'' then p else pat)"
  have "SUB_SIZE - 1 \<le> length (hd (splits (CHR '','') p1))"
    using assms(2) c by (auto simp: entry_def lowercase_def p1_def split: if_splits)
  then show ?thesis
    using sub_scan_too_long [of "SUB_SIZE - 1" p1 dolower] c
    by (auto simp: next_sub_def Let_def p1_def split: prod.splits)
qed

lemma mpl_loop_long:
  "\<not> list_all (\<lambda>e. length (snd e) < SUB_SIZE - 1) (entries dolower pat) \<Longrightarrow>
   mpl_loop dolower str pat got \<in> {- 1, 0}"
proof (induction dolower str pat got rule: mpl_loop.induct)
  case (1 dolower str pat got)
  then have ne: "pat \<noteq> []" by auto
  let ?e = "entry dolower (hd (splits (CHR '','') pat))"
  let ?r = "drop (length (hd (splits (CHR '','') pat)) + 1) pat"
  show ?case
  proof (cases "length (snd ?e) < SUB_SIZE - 1")
    case True
    then have n: "next_sub dolower pat = (fst ?e, snd ?e, ?r)" by (rule next_sub_entry [OF ne refl])
    have rest: "\<not> list_all (\<lambda>e. length (snd e) < SUB_SIZE - 1) (entries dolower ?r)"
      using 1(3) entries_rec [OF ne, of dolower] True by simp
    have long: "\<not> SUB_SIZE - 1 \<le> length (snd ?e)" using True by simp
    note IH = 1(1) [OF ne n [symmetric] refl long _ _ rest] 1(2) [OF ne n [symmetric] refl long _ rest]
    show ?thesis
      using IH long n ne by (simp add: mpl_loop.simps [of _ _ pat])
  next
    case False
    then show ?thesis
      using next_sub_long [OF ne False] ne
      by (cases "next_sub dolower pat") (simp add: mpl_loop.simps [of _ _ pat])
  qed
qed

subsection \<open>Negotiation\<close>

definition MAX_PROP :: nat where "MAX_PROP = 40"

abbreviation sep_size :: "string option \<Rightarrow> nat" where
  "sep_size sp \<equiv> (case sp of None \<Rightarrow> 0 | Some s \<Rightarrow> Suc (length s))"

lemma strsep_size: "strsep delim sp = (Some p, sp') \<Longrightarrow> sep_size sp' < sep_size sp"
  by (cases sp; cases sp') (auto simp: strsep_shorter)

text \<open>The loop that stores the server's proposals.\<close>

function server_props :: "nat \<Rightarrow> string option \<Rightarrow> string list" where
  "server_props i sp =
     (case strsep '','' sp of
        (None, _) \<Rightarrow> []
      | (Some p, sp') \<Rightarrow>
          if p = [] then [] else if i < MAX_PROP then p # server_props (i + 1) sp' else [])"
  by pat_completeness auto
termination
  by (relation "measure (\<lambda>(i, sp). sep_size sp)") (auto dest: strsep_size [OF sym])

declare server_props.simps [simp del]

text \<open>
  The loop over the client's proposals. \<open>c\<close> is the client's list: after the first call of
  \<^verbatim>\<open>strsep\<close> its first comma is overwritten, so \<^verbatim>\<open>strlen(c)\<close> is the length of its first field;
  \<^verbatim>\<open>cp - c\<close> is the number of characters before what is left.
\<close>

function client_props :: "string \<Rightarrow> string list \<Rightarrow> string option \<Rightarrow> string option \<times> nat" where
  "client_props c sprops cp =
     (let strlen_c = length (takeWhile (\<lambda>x. x \<noteq> CHR '','') c) in
      case strsep '','' cp of
        (None, _) \<Rightarrow> (None, strlen_c)
      | (Some p, cp') \<Rightarrow>
          if p = [] then (None, strlen_c)
          else if p \<in> set sprops
          then (Some p, case cp' of None \<Rightarrow> strlen_c | Some r \<Rightarrow> length c - length r)
          else client_props c sprops cp')"
  by pat_completeness auto
termination
  by (relation "measure (\<lambda>(c, ps, cp). sep_size cp)") (auto dest: strsep_size [OF sym])

declare client_props.simps [simp del]

definition match_list :: "string \<Rightarrow> string \<Rightarrow> string option \<times> nat" where
  "match_list client server = client_props client (server_props 0 (Some server)) (Some client)"

text \<open>The proposals of a list: its fields up to the first empty one.\<close>

definition props :: "string \<Rightarrow> string list" where
  "props s = takeWhile (\<lambda>p. p \<noteq> []) (splits (CHR '','') s)"

lemma props_rec:
  "props s =
     (case strsep '','' (Some s) of
        (None, _) \<Rightarrow> []
      | (Some p, rest) \<Rightarrow> if p = [] then [] else p # (case rest of None \<Rightarrow> [] | Some r \<Rightarrow> props r))"
proof -
  obtain tok rest where "strsep '','' (Some s) = (tok, rest)" by (cases "strsep '','' (Some s)")
  moreover from strsep_splits [OF this] obtain t where "tok = Some t"
    "splits (CHR '','') s = t # (case rest of None \<Rightarrow> [] | Some r \<Rightarrow> splits (CHR '','') r)" by blast
  ultimately show ?thesis by (auto simp: props_def split: option.splits)
qed

lemma server_props_take:
  "server_props i sp = take (MAX_PROP - i) (case sp of None \<Rightarrow> [] | Some s \<Rightarrow> props s)"
proof (induction i sp rule: server_props.induct)
  case (1 i sp)
  show ?case
  proof (cases sp)
    case None
    then show ?thesis by (simp add: server_props.simps)
  next
    case (Some s)
    obtain t rest where st: "strsep '','' (Some s) = (Some t, rest)"
      by (cases "strsep '','' (Some s)") (auto elim: strsep_splits)
    have "Suc (MAX_PROP - Suc i) = MAX_PROP - i" if "i < MAX_PROP" using that by simp
    then show ?thesis
      using 1 [of "Some t" rest t] Some st
      by (auto simp: server_props.simps [of i] props_rec [of s] take_Cons' split: option.splits)
  qed
qed

lemma client_props_find:
  "fst (client_props c ps cp) =
     find (\<lambda>p. p \<in> set ps) (case cp of None \<Rightarrow> [] | Some s \<Rightarrow> props s)"
proof (induction c ps cp rule: client_props.induct)
  case (1 c ps cp)
  show ?case
  proof (cases cp)
    case None
    then show ?thesis by (simp add: client_props.simps Let_def)
  next
    case (Some s)
    obtain t rest where st: "strsep '','' (Some s) = (Some t, rest)"
      by (cases "strsep '','' (Some s)") (auto elim: strsep_splits)
    then show ?thesis
      using 1 [OF refl, of "Some t" rest t] Some
      by (auto simp: client_props.simps [of c] props_rec [of s] Let_def split: option.splits)
  qed
qed

text \<open>
  After a match at position \<open>n\<close>, the proposals of the rest are the ones that follow the match.
\<close>

lemma props_dropWhile: "props (dropWhile (\<lambda>x. x \<noteq> CHR '','') c) = []"
  by (induction c) (auto simp: props_def)

lemma props_first_field_end: "props (drop (length (takeWhile (\<lambda>x. x \<noteq> CHR '','') c)) c) = []"
  using props_dropWhile [of c] by (simp add: dropWhile_eq_drop)

lemma strsep_suffix: "strsep [d] (Some s) = (Some t, Some r) \<Longrightarrow> s = t @ d # r"
proof (induction s arbitrary: t)
  case (Cons c s)
  then show ?case by (auto simp: strsep_def split: prod.splits if_splits)
qed (simp add: strsep_def)

lemma client_props_next:
  "client_props c ps cp = (Some p, n) \<Longrightarrow> cp = Some s \<Longrightarrow> c = pre @ s \<Longrightarrow>
   props (drop n c) = tl (dropWhile (\<lambda>q. q \<notin> set ps) (props s))"
proof (induction c ps cp arbitrary: s pre rule: client_props.induct)
  case (1 c ps cp)
  obtain t rest where st: "strsep '','' (Some s) = (Some t, rest)"
    by (cases "strsep '','' (Some s)") (auto elim: strsep_splits)
  have ne: "t \<noteq> []" using 1(2,3) st by (auto simp: client_props.simps [of c] Let_def)
  then have ps: "props s = t # (case rest of None \<Rightarrow> [] | Some r \<Rightarrow> props r)"
    using st by (simp add: props_rec [of s])
  show ?case
  proof (cases "t \<in> set ps")
    case True
    then have n: "n = (case rest of None \<Rightarrow> length (takeWhile (\<lambda>x. x \<noteq> CHR '','') c)
                                | Some r \<Rightarrow> length c - length r)"
      using 1(2,3) st ne by (simp add: client_props.simps [of c] Let_def)
    have "drop n c = r" if "rest = Some r" for r
      using n that 1(4) st strsep_suffix [of "CHR '',''" s t r] by simp
    then show ?thesis
      using True ps props_first_field_end [of c] n by (cases rest) auto
  next
    case False
    then obtain r where r: "rest = Some r" and c: "client_props c ps (Some r) = (Some p, n)"
      using 1(2,3) st ne by (cases rest) (auto simp: client_props.simps [of c] client_props.simps [of c ps None] Let_def)
    have "c = (pre @ t @ '','') @ r" using 1(4) strsep_suffix st r by simp
    then show ?thesis
      using 1(1) [OF refl, of "Some t" rest t r "pre @ t @ '',''"] st r c ne False ps 1(3)
      by simp
  qed
qed

subsection \<open>Filters\<close>

function filter_loop :: "string \<Rightarrow> bool \<Rightarrow> nat \<Rightarrow> string option \<Rightarrow> string \<Rightarrow> string" where
  "filter_loop pats denylist len tmp fix_prop =
     (case strsep '','' tmp of
        (None, _) \<Rightarrow> fix_prop
      | (Some cp, tmp') \<Rightarrow>
          (let r = match_pattern_list cp pats False in
           if (denylist \<and> r \<noteq> 1) \<or> (\<not> denylist \<and> r = 1)
           then
             let fp = (if fix_prop \<noteq> [] then strlcat_str len fix_prop '','' else fix_prop) in
             filter_loop pats denylist len tmp' (strlcat_str len fp cp)
           else filter_loop pats denylist len tmp' fix_prop))"
  by pat_completeness auto
termination
  by (relation "measure (\<lambda>(pats, deny, len, tmp, fp). sep_size tmp)") (auto dest: strsep_size [OF sym])

declare filter_loop.simps [simp del]

text \<open>\<^verbatim>\<open>strdup\<close> allocates the same number of bytes as the result; either failure gives \<^verbatim>\<open>NULL\<close>.\<close>

definition filter_list :: "allocator \<Rightarrow> string \<Rightarrow> string \<Rightarrow> bool \<Rightarrow> string option" where
  "filter_list A proposal pats denylist =
     (let len = length proposal + 1 in
      if malloc A len = None \<or> malloc A (length proposal + 1) = None then None
      else Some (filter_loop pats denylist len (Some proposal) []))"

definition match_filter_denylist :: "allocator \<Rightarrow> string \<Rightarrow> string \<Rightarrow> string option" where
  "match_filter_denylist A proposal pats = filter_list A proposal pats True"

definition match_filter_allowlist :: "allocator \<Rightarrow> string \<Rightarrow> string \<Rightarrow> string option" where
  "match_filter_allowlist A proposal pats = filter_list A proposal pats False"

definition kept :: "string \<Rightarrow> bool \<Rightarrow> string \<Rightarrow> bool" where
  "kept pats denylist p \<longleftrightarrow> (match_pattern_list p pats False = 1) \<noteq> denylist"

lemma splits_length_rest:
  "strsep [d] (Some s) = (Some t, rest) \<Longrightarrow>
   length s = length t + (case rest of None \<Rightarrow> 0 | Some r \<Rightarrow> length r + 1)"
proof (induction s arbitrary: t)
  case (Cons c s)
  then show ?case by (auto simp: strsep_def split: prod.splits if_splits)
qed (simp add: strsep_def)

text \<open>The buffer of \<open>strlen(proposal) + 1\<close> bytes is never too small, so nothing is cut.\<close>

lemma filter_loop_None: "filter_loop pats denylist len None fp = fp"
  by (simp add: filter_loop.simps)

lemma joins_merge: "joins d ((t @ d # u) # ts) = joins d (t # u # ts)"
  by (cases ts) auto

lemma filter_loop_result:
  "(if fp = [] then length s else length fp + 1 + length s) < len \<Longrightarrow>
   filter_loop pats denylist len (Some s) fp =
     joins (CHR '','') ((if fp = [] then dropWhile (\<lambda>t. t = []) else (#) fp)
        (filter (kept pats denylist) (splits (CHR '','') s)))"
proof (induction s arbitrary: fp rule: measure_induct_rule [of length])
  case (less s)
  obtain t rest where st: "strsep '','' (Some s) = (Some t, rest)"
    by (cases "strsep '','' (Some s)") (auto elim: strsep_splits)
  have sp: "splits (CHR '','') s = t # (case rest of None \<Rightarrow> [] | Some r \<Rightarrow> splits (CHR '','') r)"
    using strsep_splits [OF st] by blast
  note len = splits_length_rest [OF st]
  define fp' where "fp' = (if kept pats denylist t then if fp = [] then t else fp @ CHR '','' # t else fp)"
  have step: "filter_loop pats denylist len (Some s) fp = filter_loop pats denylist len rest fp'"
    using st less(2) len
    by (auto simp: filter_loop.simps [of _ _ _ "Some s"] fp'_def kept_def Let_def strlcat_str_fits)
  show ?case
  proof (cases rest)
    case None
    then show ?thesis
      using step sp by (cases "fp = []") (auto simp: filter_loop_None fp'_def)
  next
    case (Some r)
    have bound: "(if fp' = [] then length r else length fp' + 1 + length r) < len"
      using len less(2) Some by (auto simp: fp'_def)
    have "filter_loop pats denylist len (Some r) fp' =
      joins (CHR '','') ((if fp' = [] then dropWhile (\<lambda>t. t = []) else (#) fp')
        (filter (kept pats denylist) (splits (CHR '','') r)))"
      by (rule less(1)) (use len Some bound in auto)
    then show ?thesis
      using step sp Some by (cases "fp = []") (auto simp: fp'_def joins_merge)
  qed
qed

subsection \<open>Properties\<close>

text \<open>
  C17. The matching algorithm, with its skipping of asterisks and its search for the next known
  character, decides exactly the declarative meaning of patterns.
\<close>

theorem match_pattern_correct: "match_pattern s p \<longleftrightarrow> globs p s"
  by (rule match_pattern_globs)

text \<open>
  C18. Pattern lists: when every subpattern fits the buffer, the result is -1 if a negated entry
  matches (wherever it stands in the list), otherwise 1 if an entry matches, otherwise 0. With a
  subpattern that does not fit the result is never positive, so an oversized list cannot admit anyone.
\<close>

theorem match_pattern_list_spec:
  "(list_all (\<lambda>e. length (snd e) < SUB_SIZE - 1) (entries dolower pat) \<longrightarrow>
      match_pattern_list str pat dolower = list_result (entries dolower pat) str) \<and>
   (\<not> list_all (\<lambda>e. length (snd e) < SUB_SIZE - 1) (entries dolower pat) \<longrightarrow>
      match_pattern_list str pat dolower \<in> {- 1, 0})"
  using mpl_loop_result [of dolower pat str False] mpl_loop_long [of dolower pat str False]
  unfolding match_pattern_list_def list_result_def simp_thms by blast

theorem match_pattern_list_spec_witness:
  "match_pattern_list ''bob'' ''b*,!*x'' False = list_result [(False, ''b*''), (True, ''*x'')] ''bob''"
  using match_pattern_list_spec [of False "''b*,!*x''" "''bob''"]
  by (simp add: entries_def entry_def SUB_SIZE_def)

text \<open>
  C19. Negotiation: the result is the first proposal of the client that is among the first 40
  proposals of the server. After a match, continuing at the returned offset considers exactly
  the client's proposals that follow it, also when the match was the last one, where the offset is
  not the end of the list but the position of its first comma.
\<close>

theorem match_list_spec:
  "fst (match_list client server) = find (\<lambda>p. p \<in> set (take MAX_PROP (props server))) (props client) \<and>
   (\<forall>p n. match_list client server = (Some p, n) \<longrightarrow>
      fst (match_list (drop n client) server) =
      find (\<lambda>p. p \<in> set (take MAX_PROP (props server)))
        (tl (dropWhile (\<lambda>p. p \<notin> set (take MAX_PROP (props server))) (props client))))"
  using client_props_next [of client _ "Some client" _ _ client "[]"]
  by (auto simp: match_list_def client_props_find server_props_take)

theorem match_list_spec_witness:
  "match_list ''a,b'' ''b,c'' = (Some ''b'', 1) \<and> fst (match_list (drop 1 ''a,b'') ''b,c'') = None"
proof -
  have m: "match_list ''a,b'' ''b,c'' = (Some ''b'', 1)" by code_simp
  show ?thesis
    using m match_list_spec [of "''a,b''" "''b,c''", THEN conjunct2, rule_format, OF m]
    by (simp add: props_def MAX_PROP_def)
qed

text \<open>
  Filtering a proposal list keeps exactly the entries the filter selects, in order: the result
  is never cut by the size of its buffer, and is their list, without the leading empty ones. It fails
  only when an allocation does.
\<close>

theorem filter_list_spec:
  "filter_list A proposal pats denylist =
     (if malloc A (length proposal + 1) = None then None
      else Some (joins (CHR '','') (dropWhile (\<lambda>t. t = [])
             (filter (kept pats denylist) (splits (CHR '','') proposal)))))"
  using filter_loop_result [of "[]" proposal "length proposal + 1" pats denylist]
  by (auto simp: filter_list_def Let_def)

end
