(* ===== verification/Strtonum.thy ===== *)
theory Strtonum
  imports Cstring
begin

text \<open>
  Conversion of strings to numbers: \<^verbatim>\<open>strtoul\<close>, \<^verbatim>\<open>strtoull\<close>, \<^verbatim>\<open>strtoll\<close> and \<^verbatim>\<open>strtonum\<close> of
  \<^verbatim>\<open>openbsd-compat\<close>, and the functions of \<^verbatim>\<open>misc.c\<close> that parse ports and numbers with them. The cutoff
  arithmetic of the accumulating loops is kept as it is, and shown to saturate exactly at the limits of
  the machine types.
\<close>

subsection \<open>The unsigned conversions\<close>

definition ULONG_MAX :: nat where "ULONG_MAX = 2 ^ 32 - 1"
definition ULLONG_MAX :: nat where "ULLONG_MAX = 2 ^ 64 - 1"

definition digit_val :: "char \<Rightarrow> nat option" where
  "digit_val c =
     (if isdigit c then Some (ccode c - 48)
      else if isalpha c then Some (if isupper c then ccode c - 55 else ccode c - 87)
      else None)"

text \<open>
  The loop: \<open>any\<close> is 0 before the first digit, 1 after one, -1 after an overflow. The rest starts with the
  character that ended the loop.
\<close>

fun acc_loop :: "nat \<Rightarrow> nat \<Rightarrow> nat \<Rightarrow> int \<Rightarrow> string \<Rightarrow> nat \<times> int \<times> string" where
  "acc_loop M base acc any [] = (acc, any, [])"
| "acc_loop M base acc any (c # s) =
     (case digit_val c of
        None \<Rightarrow> (acc, any, c # s)
      | Some d \<Rightarrow>
          if d \<ge> base then (acc, any, c # s)
          else if any < 0 then acc_loop M base acc any s
          else if acc > M div base \<or> (acc = M div base \<and> d > M mod base) then acc_loop M base M (- 1) s
          else acc_loop M base (acc * base + d) 1 s)"

text \<open>The part before the loop: white space, sign, and the prefix that selects the base.\<close>

definition skip_sign :: "string \<Rightarrow> bool \<times> string" where
  "skip_sign s =
     (if s \<noteq> [] \<and> hd s = CHR ''-'' then (True, tl s)
      else if s \<noteq> [] \<and> hd s = CHR ''+'' then (False, tl s) else (False, s))"

definition skip_base :: "nat \<Rightarrow> string \<Rightarrow> nat \<times> string" where
  "skip_base base s =
     (let (base1, s1) =
            (if (base = 0 \<or> base = 16) \<and> s \<noteq> [] \<and> hd s = CHR ''0'' \<and> tl s \<noteq> [] \<and>
                (hd (tl s) = CHR ''x'' \<or> hd (tl s) = CHR ''X'')
             then (16, drop 2 s) else (base, s))
      in (if base1 = 0 then (if s1 \<noteq> [] \<and> hd s1 = CHR ''0'' then 8 else 10) else base1, s1))"

text \<open>The result: the value, what \<^verbatim>\<open>endptr\<close> refers to, and whether \<^verbatim>\<open>errno\<close> was set to \<^verbatim>\<open>ERANGE\<close>.\<close>

definition strtounsigned :: "nat \<Rightarrow> nat \<Rightarrow> string \<Rightarrow> nat \<times> string \<times> bool" where
  "strtounsigned M base nptr =
     (case skip_sign (dropWhile isspace nptr) of
        (neg, s) \<Rightarrow>
          (case skip_base base s of
             (base', s') \<Rightarrow>
               (case acc_loop M base' 0 0 s' of
                  (acc, any, rest) \<Rightarrow>
                    (if neg \<and> any > 0 then (M + 1 - acc) mod (M + 1) else acc,
                     if any \<noteq> 0 then rest else nptr, any < 0))))"

definition strtoul :: "nat \<Rightarrow> string \<Rightarrow> nat \<times> string \<times> bool" where
  "strtoul base nptr = strtounsigned ULONG_MAX base nptr"

definition strtoull :: "nat \<Rightarrow> string \<Rightarrow> nat \<times> string \<times> bool" where
  "strtoull base nptr = strtounsigned ULLONG_MAX base nptr"

subsection \<open>The signed conversion\<close>

definition LLONG_MAX :: int where "LLONG_MAX = 2 ^ 63 - 1"
definition LLONG_MIN :: int where "LLONG_MIN = - (2 ^ 63)"

text \<open>Division and remainder of C, which truncate.\<close>

definition cdiv :: "int \<Rightarrow> int \<Rightarrow> int" where
  "cdiv a b = (if a < 0 then - ((- a) div b) else a div b)"

definition cmod :: "int \<Rightarrow> int \<Rightarrow> int" where
  "cmod a b = (if a < 0 then - ((- a) mod b) else a mod b)"

definition signed_cutoff :: "bool \<Rightarrow> int \<Rightarrow> int \<times> int" where
  "signed_cutoff neg base =
     (let limit = (if neg then LLONG_MIN else LLONG_MAX);
          cutlim = cmod limit base; cutoff = cdiv limit base
      in if neg
         then (let (cutlim1, cutoff1) = (if cutlim > 0 then (cutlim - base, cutoff + 1) else (cutlim, cutoff))
               in (cutoff1, - cutlim1))
         else (cutoff, cutlim))"

fun signed_loop :: "bool \<Rightarrow> int \<Rightarrow> int \<Rightarrow> nat \<Rightarrow> int \<Rightarrow> int \<Rightarrow> string \<Rightarrow> int \<times> int \<times> string" where
  "signed_loop neg cutoff cutlim base acc any [] = (acc, any, [])"
| "signed_loop neg cutoff cutlim base acc any (c # s) =
     (case digit_val c of
        None \<Rightarrow> (acc, any, c # s)
      | Some d \<Rightarrow>
          if d \<ge> base then (acc, any, c # s)
          else if any < 0 then signed_loop neg cutoff cutlim base acc any s
          else if neg
          then (if acc < cutoff \<or> (acc = cutoff \<and> int d > cutlim)
                then signed_loop neg cutoff cutlim base LLONG_MIN (- 1) s
                else signed_loop neg cutoff cutlim base (acc * int base - int d) 1 s)
          else (if acc > cutoff \<or> (acc = cutoff \<and> int d > cutlim)
                then signed_loop neg cutoff cutlim base LLONG_MAX (- 1) s
                else signed_loop neg cutoff cutlim base (acc * int base + int d) 1 s))"

definition strtoll :: "nat \<Rightarrow> string \<Rightarrow> int \<times> string \<times> bool" where
  "strtoll base nptr =
     (case skip_sign (dropWhile isspace nptr) of
        (neg, s) \<Rightarrow>
          (case skip_base base s of
             (base', s') \<Rightarrow>
               (case signed_cutoff neg (int base') of
                  (cutoff, cutlim) \<Rightarrow>
                    (case signed_loop neg cutoff cutlim base' 0 0 s' of
                       (acc, any, rest) \<Rightarrow> (acc, if any \<noteq> 0 then rest else nptr, any < 0)))))"

subsection \<open>Bounded conversion\<close>

datatype numerr = Num_invalid | Num_too_small | Num_too_large

text \<open>\<^verbatim>\<open>numstr == ep\<close> when nothing was consumed; the rest is then the whole string.\<close>

definition strtonum :: "string \<Rightarrow> int \<Rightarrow> int \<Rightarrow> int \<times> numerr option" where
  "strtonum numstr minval maxval =
     (if minval > maxval then (0, Some Num_invalid)
      else
        (case strtoll 10 numstr of
           (ll, ep, erange) \<Rightarrow>
             if ep = numstr \<or> ep \<noteq> [] then (0, Some Num_invalid)
             else if (ll = LLONG_MIN \<and> erange) \<or> ll < minval then (0, Some Num_too_small)
             else if (ll = LLONG_MAX \<and> erange) \<or> ll > maxval then (0, Some Num_too_large)
             else (ll, None)))"

subsection \<open>The value of a string of digits\<close>

definition dec :: "string \<Rightarrow> nat" where
  "dec ds = foldl (\<lambda>v c. v * 10 + (ccode c - 48)) 0 ds"

text \<open>The digits of a base at the start of a string, and their value on top of \<open>acc\<close>.\<close>

definition is_digit :: "nat \<Rightarrow> char \<Rightarrow> bool" where
  "is_digit base c \<longleftrightarrow> (case digit_val c of None \<Rightarrow> False | Some d \<Rightarrow> d < base)"

definition horner :: "nat \<Rightarrow> nat \<Rightarrow> string \<Rightarrow> nat" where
  "horner base acc ds = foldl (\<lambda>v c. v * base + the (digit_val c)) acc ds"

lemma horner_Cons [simp]: "horner base acc (c # ds) = horner base (acc * base + the (digit_val c)) ds"
  by (simp add: horner_def)

lemma horner_Nil [simp]: "horner base acc [] = acc"
  by (simp add: horner_def)

lemma horner_ge: "1 \<le> base \<Longrightarrow> acc \<le> horner base acc ds"
proof (induction ds arbitrary: acc)
  case (Cons c ds)
  have "acc \<le> acc * base + the (digit_val c)" using Cons.prems by (simp add: trans_le_add1)
  then show ?case using Cons by (simp add: order_trans)
qed simp

lemma cutoff_exact:
  assumes "0 < base" and "d < base"
  shows "(acc > M div base \<or> (acc = M div base \<and> d > M mod base)) \<longleftrightarrow> acc * base + d > (M::nat)"
proof -
  have m: "M = M div base * base + M mod base" by simp
  consider "acc < M div base" | "acc = M div base" | "acc > M div base" by linarith
  then show ?thesis
  proof cases
    case 1
    then have "(acc + 1) * base \<le> M div base * base" using mult_le_mono1 [of "acc + 1" "M div base" base] by simp
    then have "acc * base + base \<le> M div base * base" by simp
    then have "acc * base + d \<le> M" using assms(2) div_times_less_eq_dividend [of M base] by linarith
    then show ?thesis using 1 by auto
  next
    case 2
    have "M < M div base * base + d \<longleftrightarrow> M mod base < d" using m by linarith
    then show ?thesis using 2 by auto
  next
    case 3
    then have "(M div base + 1) * base \<le> acc * base" using mult_le_mono1 [of "M div base + 1" acc base] by simp
    moreover have "M < (M div base + 1) * base" using dividend_less_div_times [OF assms(1), of M] by simp
    ultimately show ?thesis using 3 by simp
  qed
qed

lemma acc_loop_overflowed:
  "acc_loop M base acc (- 1) s = (acc, - 1, dropWhile (is_digit base) s)"
  by (induction s) (auto simp: is_digit_def split: option.splits)

lemma acc_loop_result:
  assumes "1 \<le> base" and "acc \<le> M" and "0 \<le> any"
  shows "acc_loop M base acc any s =
    (let ds = takeWhile (is_digit base) s; v = horner base acc ds in
     (min v M, if v > M then - 1 else if ds = [] then any else 1, dropWhile (is_digit base) s))"
  using assms(2,3)
proof (induction s arbitrary: acc any)
  case Nil
  then show ?case by simp
next
  case (Cons c s)
  show ?case
  proof (cases "is_digit base c")
    case False
    then show ?thesis using Cons.prems by (auto simp: is_digit_def split: option.splits)
  next
    case True
    then obtain d where d: "digit_val c = Some d" "d < base" by (auto simp: is_digit_def split: option.splits)
    have cut: "(acc > M div base \<or> (acc = M div base \<and> d > M mod base)) \<longleftrightarrow> acc * base + d > M"
      using assms(1) d(2) by (intro cutoff_exact) auto
    have step: "acc_loop M base acc any (c # s) =
        (if acc * base + d > M then acc_loop M base M (- 1) s else acc_loop M base (acc * base + d) 1 s)"
      unfolding acc_loop.simps(2) d(1) option.case cut using d(2) Cons.prems(2) by simp
    show ?thesis
    proof (cases "acc * base + d > M")
      case over: True
      then have "horner base (acc * base + d) (takeWhile (is_digit base) s) > M"
        using horner_ge [OF assms(1), of "acc * base + d"] by (meson less_le_trans)
      then show ?thesis
        unfolding step using over True d(1) by (simp add: acc_loop_overflowed Let_def min_absorb2)
    next
      case False
      then show ?thesis
        unfolding step using True d(1) Cons.IH [of "acc * base + d" 1] by (simp add: Let_def)
    qed
  qed
qed

lemma digit_val_dec: "isdigit c \<Longrightarrow> digit_val c = Some (ccode c - 48)"
  by (simp add: digit_val_def)

lemma is_digit_10: "is_digit 10 c \<longleftrightarrow> isdigit c"
  by (auto simp: is_digit_def digit_val_def isdigit_def isalpha_def isupper_def islower_def)

lemma horner_dec: "list_all isdigit ds \<Longrightarrow> horner 10 acc ds = foldl (\<lambda>v c. v * 10 + (ccode c - 48)) acc ds"
  by (induction ds arbitrary: acc) (simp_all add: digit_val_dec)

lemma takeWhile_digits: "list_all isdigit (takeWhile isdigit s)"
  by (auto simp: list_all_iff dest: set_takeWhileD)

lemma horner_takeWhile: "horner 10 0 (takeWhile isdigit s) = dec (takeWhile isdigit s)"
  by (simp add: horner_dec takeWhile_digits dec_def)

lemma skip_base_10 [simp]: "skip_base 10 s = (10, s)"
  by (simp add: skip_base_def)

text \<open>The unsigned conversion in base ten.\<close>

lemma strtounsigned_dec:
  assumes "skip_sign (dropWhile isspace nptr) = (neg, s)" and "ds = takeWhile isdigit s"
  shows "strtounsigned M 10 nptr =
    (if dec ds > M then M else if neg \<and> ds \<noteq> [] then (M + 1 - dec ds) mod (M + 1) else dec ds,
     if ds = [] then nptr else dropWhile isdigit s, dec ds > M)"
proof -
  have d: "dec [] = 0" by (simp add: dec_def)
  have "acc_loop M 10 0 0 s =
      (min (dec ds) M, if dec ds > M then - 1 else if ds = [] then 0 else 1, dropWhile isdigit s)"
    using acc_loop_result [of 10 0 M 0 s] assms(2)
    by (simp add: is_digit_10 [abs_def] horner_takeWhile Let_def)
  then show ?thesis
    using assms(1) d by (auto simp: strtounsigned_def)
qed

lemma digit_not_sign: "isdigit c \<Longrightarrow> \<not> isspace c \<and> c \<noteq> CHR ''-'' \<and> c \<noteq> CHR ''+''"
  by (auto simp: isdigit_def isspace_def ccode_def)

lemma skip_sign_digit: "s \<noteq> [] \<Longrightarrow> isdigit (hd s) \<Longrightarrow> skip_sign (dropWhile isspace s) = (False, s)"
  by (cases s) (auto simp: skip_sign_def dest: digit_not_sign)

lemma strtoul_digits:
  assumes "s \<noteq> []" and "isdigit (hd s)"
  shows "strtoul 10 s = (min (dec (takeWhile isdigit s)) ULONG_MAX, dropWhile isdigit s,
                         dec (takeWhile isdigit s) > ULONG_MAX)"
  using strtounsigned_dec [OF skip_sign_digit [OF assms] refl, of ULONG_MAX] assms
  by (cases s) (auto simp: strtoul_def min_def)

subsection \<open>The signed conversion mirrors the unsigned one\<close>

abbreviation signed_limit :: "bool \<Rightarrow> nat" where
  "signed_limit neg \<equiv> (if neg then 2 ^ 63 else 2 ^ 63 - 1)"

abbreviation signed_of :: "bool \<Rightarrow> nat \<Rightarrow> int" where
  "signed_of neg v \<equiv> (if neg then - int v else int v)"

lemma signed_cutoff_eq:
  assumes "0 < base"
  shows "signed_cutoff neg (int base) =
     (signed_of neg (signed_limit neg div base), int (signed_limit neg mod base))"
proof -
  have "(2 ^ 63 :: int) = int (2 ^ 63)" "(2 ^ 63 - 1 :: int) = int (2 ^ 63 - 1)" by (simp_all add: of_nat_diff)
  moreover have "\<not> - (int (2 ^ 63) mod int base) > 0" using assms by (simp add: not_less)
  ultimately show ?thesis
    by (auto simp: signed_cutoff_def cdiv_def cmod_def LLONG_MIN_def LLONG_MAX_def Let_def zdiv_int zmod_int)
qed

lemma signed_loop_mirror:
  assumes "signed_of neg L = (if neg then LLONG_MIN else LLONG_MAX)"
  shows "signed_loop neg (signed_of neg (L div base)) (int (L mod base)) base (signed_of neg acc) any s =
    (case acc_loop L base acc any s of (a, n, r) \<Rightarrow> (signed_of neg a, n, r))"
proof (induction s arbitrary: acc any)
  case Nil
  show ?case by simp
next
  case (Cons c s)
  show ?case
  proof (cases "digit_val c")
    case None
    then show ?thesis by simp
  next
    case (Some d)
    show ?thesis
    proof (cases neg)
      case True
      have "acc * base + d \<ge> 0" by simp
      moreover have "- int acc * int base - int d = - int (acc * base + d)" by simp
      moreover have "(- int acc < - int (L div base) \<or> (- int acc = - int (L div base) \<and> int d > int (L mod base))) \<longleftrightarrow>
          (acc > L div base \<or> (acc = L div base \<and> d > L mod base))" by (simp only: neg_less_iff_less neg_equal_iff_equal of_nat_less_iff of_nat_eq_iff)
      ultimately show ?thesis
        using True Some assms Cons.IH [of acc any] Cons.IH [of L "- 1"] Cons.IH [of "acc * base + d" 1]
        by (simp del: of_nat_add of_nat_mult)
    next
      case False
      have "int acc * int base + int d = int (acc * base + d)" by simp
      moreover have "(int acc > int (L div base) \<or> (int acc = int (L div base) \<and> int d > int (L mod base))) \<longleftrightarrow>
          (acc > L div base \<or> (acc = L div base \<and> d > L mod base))" by (simp only: of_nat_less_iff of_nat_eq_iff)
      ultimately show ?thesis
        using False Some assms Cons.IH [of acc any] Cons.IH [of L "- 1"] Cons.IH [of "acc * base + d" 1]
        by (simp del: of_nat_add of_nat_mult)
    qed
  qed
qed

lemma strtoll_dec:
  assumes "skip_sign (dropWhile isspace nptr) = (neg, s)" and "ds = takeWhile isdigit s"
  shows "strtoll 10 nptr =
    (signed_of neg (min (dec ds) (signed_limit neg)),
     if ds = [] then nptr else dropWhile isdigit s, dec ds > signed_limit neg)"
proof -
  have d: "dec [] = 0" by (simp add: dec_def)
  have "acc_loop (signed_limit neg) 10 0 0 s =
      (min (dec ds) (signed_limit neg), if dec ds > signed_limit neg then - 1 else if ds = [] then 0 else 1,
       dropWhile isdigit s)"
    using acc_loop_result [of 10 0 "signed_limit neg" 0 s] assms(2)
    by (simp add: is_digit_10 [abs_def] horner_takeWhile Let_def)
  moreover have "signed_of neg (signed_limit neg) = (if neg then LLONG_MIN else LLONG_MAX)"
    by (simp add: LLONG_MIN_def LLONG_MAX_def of_nat_diff)
  note signed_loop_mirror [OF this, of 10 0 0 s]
  ultimately show ?thesis
    using assms(1) d signed_cutoff_eq [of 10 neg]
    by (auto simp: strtoll_def simp del: power_numeral)
qed

subsection \<open>Callers in misc.c\<close>

datatype atoi_error = Atoi_missing | Atoi_num numerr

text \<open>The value stored through \<^verbatim>\<open>val\<close>, or the error string.\<close>

definition atoi_err :: "string option \<Rightarrow> atoi_error + int" where
  "atoi_err nptr =
     (case nptr of
        None \<Rightarrow> Inl Atoi_missing
      | Some s \<Rightarrow>
          if s = [] then Inl Atoi_missing
          else (case strtonum s 0 INT_MAX of
                  (num, None) \<Rightarrow> Inr num
                | (num, Some e) \<Rightarrow> Inl (Atoi_num e)))"

text \<open>\<open>getservbyname\<close> is the port (in host order) the services database has for a TCP service.\<close>

definition a2port :: "(string \<Rightarrow> u16 option) \<Rightarrow> string \<Rightarrow> int" where
  "a2port getservbyname s =
     (case strtonum s 0 65535 of
        (port, None) \<Rightarrow> port
      | (port, Some _) \<Rightarrow>
          (case getservbyname s of None \<Rightarrow> - 1 | Some p \<Rightarrow> uint p))"

subsection \<open>Properties\<close>

text \<open>A decimal numeral: white space, an optional sign, and digits.\<close>

definition numeral_of :: "string \<Rightarrow> int \<Rightarrow> bool" where
  "numeral_of s v \<longleftrightarrow>
     (\<exists>ws sg ds. s = ws @ sg @ ds \<and> list_all isspace ws \<and> sg \<in> {[], ''+'', ''-''} \<and> ds \<noteq> [] \<and>
        list_all isdigit ds \<and> v = (if sg = ''-'' then - int (dec ds) else int (dec ds)))"

lemma skip_sign_cases:
  assumes "skip_sign t = (neg, s)"
  obtains sg where "t = sg @ s" and "sg \<in> {[], ''+'', ''-''}" and "neg \<longleftrightarrow> sg = ''-''"
proof (cases t)
  case Nil
  then show ?thesis using assms that [of "[]"] by (simp add: skip_sign_def)
next
  case (Cons c u)
  then consider "c = CHR ''-''" "neg" "s = u" | "c = CHR ''+''" "\<not> neg" "s = u" | "\<not> neg" "s = t"
    using assms by (auto simp: skip_sign_def split: if_splits)
  then show ?thesis
    by cases (use Cons that [of "''-''"] that [of "''+''"] that [of "[]"] in auto)
qed

lemma numeral_parse:
  assumes "list_all isspace ws" and "sg \<in> {[], ''+'', ''-''}" and "ds \<noteq> []" and "list_all isdigit ds"
  shows "skip_sign (dropWhile isspace (ws @ sg @ ds)) = (sg = ''-'', ds)"
proof -
  have "\<not> isspace (hd (sg @ ds))"
    using assms(2-4) digit_not_sign by (cases ds) (auto simp: isspace_def ccode_def)
  moreover have "sg @ ds \<noteq> []" using assms(3) by simp
  ultimately have "dropWhile isspace (ws @ sg @ ds) = sg @ ds"
    using assms(1) by (cases "sg @ ds") (auto simp: dropWhile_append list_all_iff)
  moreover have "skip_sign (sg @ ds) = (sg = ''-'', ds)"
    using assms(2-4) digit_not_sign by (cases ds) (auto simp: skip_sign_def)
  ultimately show ?thesis by simp
qed

lemma takeWhile_all_digits: "list_all isdigit ds \<Longrightarrow> takeWhile isdigit ds = ds \<and> dropWhile isdigit ds = []"
  by (simp add: list_all_iff takeWhile_eq_all_conv)

lemma strtonum_None:
  "strtoll 10 s = (ll, ep, er) \<Longrightarrow>
   strtonum s lo hi = (v, None) \<longleftrightarrow>
     lo \<le> hi \<and> ep = [] \<and> s \<noteq> [] \<and> \<not> (ll = LLONG_MIN \<and> er) \<and> \<not> (ll = LLONG_MAX \<and> er) \<and>
     lo \<le> ll \<and> ll \<le> hi \<and> v = ll"
  by (auto simp: strtonum_def)



end
