(* ===== verification/Addr.thy ===== *)
theory Addr
  imports Strtonum
begin

text \<open>
  IP addresses and networks (\<^verbatim>\<open>addr.c\<close>). The address union of \<^verbatim>\<open>struct xaddr\<close> is the list of its 16
  bytes in memory order; an IPv4 address is in the first four. The bitwise operations on its 32-bit
  words act on each byte, and a word stored through \<^verbatim>\<open>htonl\<close> is its big-endian bytes, so the model does
  not depend on the byte order of the machine. The resolver functions \<^verbatim>\<open>getaddrinfo\<close> and
  \<^verbatim>\<open>getnameinfo\<close> are parameters.
\<close>

subsection \<open>Addresses\<close>

definition AF_INET :: nat where "AF_INET = 2"
definition AF_INET6 :: nat where "AF_INET6 = 10"

record xaddr =
  af :: nat
  addr8 :: "u8 list"
  scope_id :: u32

text \<open>Socket addresses: the family, the port (in host order), the address bytes and the scope.\<close>

record sockaddr =
  sa_family :: nat
  sa_port :: u16
  sa_addr :: "u8 list"
  sa_scope :: u32

definition sizeof_in4 :: nat where "sizeof_in4 = 16"
definition sizeof_in6 :: nat where "sizeof_in6 = 28"

definition zero_xaddr :: xaddr where
  "zero_xaddr = \<lparr>af = 0, addr8 = replicate 16 0, scope_id = 0\<rparr>"

definition addr_unicast_masklen :: "nat \<Rightarrow> int" where
  "addr_unicast_masklen fam = (if fam = AF_INET then 32 else if fam = AF_INET6 then 128 else - 1)"

definition masklen_valid :: "nat \<Rightarrow> nat \<Rightarrow> bool" where
  "masklen_valid fam masklen =
     (if fam = AF_INET then masklen \<le> 32 else if fam = AF_INET6 then masklen \<le> 128 else False)"

text \<open>\<open>len\<close> is the room in the caller's structure; the result has the length stored back.\<close>

definition addr_xaddr_to_sa :: "xaddr \<Rightarrow> nat \<Rightarrow> u16 \<Rightarrow> (sockaddr \<times> nat) option" where
  "addr_xaddr_to_sa xa len port =
     (if af xa = AF_INET then
        (if len < sizeof_in4 then None
         else Some (\<lparr>sa_family = AF_INET, sa_port = port, sa_addr = take 4 (addr8 xa), sa_scope = 0\<rparr>, sizeof_in4))
      else if af xa = AF_INET6 then
        (if len < sizeof_in6 then None
         else Some (\<lparr>sa_family = AF_INET6, sa_port = port, sa_addr = addr8 xa, sa_scope = scope_id xa\<rparr>, sizeof_in6))
      else None)"

definition addr_sa_to_xaddr :: "sockaddr \<Rightarrow> nat \<Rightarrow> xaddr option" where
  "addr_sa_to_xaddr sa slen =
     (if sa_family sa = AF_INET then
        (if slen < sizeof_in4 then None
         else Some (zero_xaddr\<lparr>af := AF_INET, addr8 := mem_write 0 (take 4 (sa_addr sa)) (addr8 zero_xaddr)\<rparr>))
      else if sa_family sa = AF_INET6 then
        (if slen < sizeof_in6 then None
         else Some (zero_xaddr\<lparr>af := AF_INET6, addr8 := take 16 (sa_addr sa), scope_id := sa_scope sa\<rparr>))
      else None)"

subsection \<open>Masks\<close>

definition addr_invert :: "xaddr \<Rightarrow> xaddr option" where
  "addr_invert n =
     (if af n = AF_INET then Some (n\<lparr>addr8 := map (\<lambda>b. NOT b) (take 4 (addr8 n)) @ drop 4 (addr8 n)\<rparr>)
      else if af n = AF_INET6 then Some (n\<lparr>addr8 := map (\<lambda>b. NOT b) (addr8 n)\<rparr>)
      else None)"

definition mask_word :: "nat \<Rightarrow> u32" where
  "mask_word l = push_bit (32 - l) 0xffffffff AND 0xffffffff"

text \<open>The loop over the words of an IPv6 mask: \<open>k\<close> words are left.\<close>

fun mask_words :: "nat \<Rightarrow> nat \<Rightarrow> u8 list" where
  "mask_words 0 l = []"
| "mask_words (Suc k) l =
     (if l \<ge> 32 then [0xff, 0xff, 0xff, 0xff] @ mask_words k (l - 32)
      else (if l \<noteq> 0 then POKE_U32 (mask_word l) else [0, 0, 0, 0]) @ replicate (4 * k) 0)"

definition addr_netmask :: "nat \<Rightarrow> nat \<Rightarrow> xaddr option" where
  "addr_netmask fam l =
     (if \<not> masklen_valid fam l then None
      else if fam = AF_INET then
        Some (zero_xaddr\<lparr>af := AF_INET,
                addr8 := (if l = 0 then replicate 4 0 else POKE_U32 (mask_word l)) @ replicate 12 0\<rparr>)
      else if fam = AF_INET6 then Some (zero_xaddr\<lparr>af := AF_INET6, addr8 := mask_words 4 l\<rparr>)
      else None)"

definition addr_hostmask :: "nat \<Rightarrow> nat \<Rightarrow> xaddr option" where
  "addr_hostmask fam l = (case addr_netmask fam l of None \<Rightarrow> None | Some n \<Rightarrow> addr_invert n)"

definition bytes_op :: "(u8 \<Rightarrow> u8 \<Rightarrow> u8) \<Rightarrow> u8 list \<Rightarrow> u8 list \<Rightarrow> u8 list" where
  "bytes_op f xs ys = map (\<lambda>(x, y). f x y) (zip xs ys)"

definition addr_and :: "xaddr \<Rightarrow> xaddr \<Rightarrow> xaddr option" where
  "addr_and a b =
     (if af a \<noteq> af b then None
      else if af a = AF_INET
      then Some (a\<lparr>addr8 := bytes_op (AND) (take 4 (addr8 a)) (take 4 (addr8 b)) @ drop 4 (addr8 a)\<rparr>)
      else if af a = AF_INET6 then Some (a\<lparr>addr8 := bytes_op (AND) (addr8 a) (addr8 b)\<rparr>)
      else None)"

definition addr_or :: "xaddr \<Rightarrow> xaddr \<Rightarrow> xaddr option" where
  "addr_or a b =
     (if af a \<noteq> af b then None
      else if af a = AF_INET
      then Some (a\<lparr>addr8 := bytes_op (OR) (take 4 (addr8 a)) (take 4 (addr8 b)) @ drop 4 (addr8 a)\<rparr>)
      else if af a = AF_INET6 then Some (a\<lparr>addr8 := bytes_op (OR) (addr8 a) (addr8 b)\<rparr>)
      else None)"

fun cmp_bytes :: "u8 list \<Rightarrow> u8 list \<Rightarrow> int" where
  "cmp_bytes (x # xs) (y # ys) = (if uint x - uint y \<noteq> 0 then uint x - uint y else cmp_bytes xs ys)"
| "cmp_bytes _ _ = 0"

definition addr_cmp :: "xaddr \<Rightarrow> xaddr \<Rightarrow> int" where
  "addr_cmp a b =
     (if af a \<noteq> af b then (if af a = AF_INET6 then 1 else - 1)
      else if af a = AF_INET then
        (if take 4 (addr8 a) = take 4 (addr8 b) then 0
         else if PEEK_U32 (addr8 a) > PEEK_U32 (addr8 b) then 1 else - 1)
      else if af a = AF_INET6 then
        (if cmp_bytes (addr8 a) (addr8 b) \<noteq> 0 then cmp_bytes (addr8 a) (addr8 b)
         else if scope_id a = scope_id b then 0
         else if scope_id a > scope_id b then 1 else - 1)
      else - 1)"

text \<open>The C function returns 0 for true and -1 for false.\<close>

definition addr_is_all0s :: "xaddr \<Rightarrow> bool" where
  "addr_is_all0s a =
     (if af a = AF_INET then list_all (\<lambda>b. b = 0) (take 4 (addr8 a))
      else if af a = AF_INET6 then list_all (\<lambda>b. b = 0) (addr8 a)
      else False)"

text \<open>The carry runs from the last word to the first; \<open>i\<close> words are left.\<close>

fun incr_words :: "nat \<Rightarrow> u8 list \<Rightarrow> u8 list" where
  "incr_words 0 xs = xs"
| "incr_words (Suc i) xs =
     (let n = PEEK_U32 (drop (4 * i) xs) + 1; ys = mem_write (4 * i) (POKE_U32 n) xs in
      if n \<noteq> 0 then ys else incr_words i ys)"

definition addr_increment :: "xaddr \<Rightarrow> xaddr" where
  "addr_increment a =
     (if af a = AF_INET then a\<lparr>addr8 := mem_write 0 (POKE_U32 (PEEK_U32 (addr8 a) + 1)) (addr8 a)\<rparr>
      else if af a = AF_INET6 then a\<lparr>addr8 := incr_words 4 (addr8 a)\<rparr>
      else a)"

definition addr_host_is_all0s :: "xaddr \<Rightarrow> nat \<Rightarrow> bool" where
  "addr_host_is_all0s a masklen =
     (case addr_hostmask (af a) masklen of
        None \<Rightarrow> False
      | Some tmp_mask \<Rightarrow>
          (case addr_and a tmp_mask of None \<Rightarrow> False | Some tmp_result \<Rightarrow> addr_is_all0s tmp_result))"

definition addr_host_to_all1s :: "xaddr \<Rightarrow> nat \<Rightarrow> xaddr option" where
  "addr_host_to_all1s a masklen =
     (case addr_hostmask (af a) masklen of None \<Rightarrow> None | Some tmp_mask \<Rightarrow> addr_or a tmp_mask)"

definition addr_netmatch :: "xaddr \<Rightarrow> xaddr \<Rightarrow> nat \<Rightarrow> int" where
  "addr_netmatch host net masklen =
     (if af host \<noteq> af net then - 1
      else (case addr_netmask (af host) masklen of
              None \<Rightarrow> - 1
            | Some tmp_mask \<Rightarrow>
                (case addr_and host tmp_mask of None \<Rightarrow> - 1 | Some tmp_result \<Rightarrow> addr_cmp tmp_result net)))"

subsection \<open>Text form\<close>

text \<open>
  \<open>gai\<close> is \<^verbatim>\<open>getaddrinfo\<close> with \<^verbatim>\<open>AI_NUMERICHOST\<close>: the first address for the text and its length, or
  \<open>None\<close> when it fails or gives no address.
\<close>

type_synonym resolver = "string \<Rightarrow> (sockaddr \<times> nat) option"

definition addr_pton :: "resolver \<Rightarrow> string \<Rightarrow> xaddr option" where
  "addr_pton gai p = (case gai p of None \<Rightarrow> None | Some (sa, len) \<Rightarrow> addr_sa_to_xaddr sa len)"

text \<open>\<open>gni\<close> is \<^verbatim>\<open>getnameinfo\<close> with \<^verbatim>\<open>NI_NUMERICHOST\<close>, given the room for the text; \<open>None\<close> is an error.\<close>

definition addr_ntop :: "(sockaddr \<Rightarrow> nat \<Rightarrow> string option) \<Rightarrow> xaddr \<Rightarrow> nat \<Rightarrow> string option" where
  "addr_ntop gni n len =
     (case addr_xaddr_to_sa n 128 0 of
        None \<Rightarrow> None
      | Some (ss, slen) \<Rightarrow> if len = 0 then None else gni ss len)"

datatype cidr_error = Cidr_parse | Cidr_inconsistent

definition addr_pton_cidr :: "resolver \<Rightarrow> string \<Rightarrow> cidr_error + xaddr \<times> nat" where
  "addr_pton_cidr gai p =
     (if length p \<ge> 64 then Inl Cidr_parse
      else
        let host = takeWhile (\<lambda>c. c \<noteq> CHR ''/'') p; mp = dropWhile (\<lambda>c. c \<noteq> CHR ''/'') p;
            m = (if mp = [] then None else Some (tl mp))
        in if (case m of
                 None \<Rightarrow> False
               | Some t \<Rightarrow> t = [] \<or> \<not> isdigit (hd t) \<or> fst (snd (strtoul 10 t)) \<noteq> [] \<or> fst (strtoul 10 t) > 128)
        then Inl Cidr_parse
        else
          (case addr_pton gai host of
             None \<Rightarrow> Inl Cidr_parse
           | Some tmp \<Rightarrow>
               let masklen = (case m of None \<Rightarrow> nat (addr_unicast_masklen (af tmp)) | Some t \<Rightarrow> fst (strtoul 10 t)) in
               if \<not> masklen_valid (af tmp) masklen then Inl Cidr_inconsistent
               else if \<not> addr_host_is_all0s tmp masklen then Inl Cidr_inconsistent
               else Inr (tmp, masklen)))"

subsection \<open>Addresses as sequences of bits\<close>

text \<open>Bit number \<open>i\<close> of an address, from the most significant one.\<close>

definition abit :: "u8 list \<Rightarrow> nat \<Rightarrow> bool" where
  "abit xs i \<longleftrightarrow> bit (xs ! (i div 8)) (7 - i mod 8)"

definition fam_bits :: "nat \<Rightarrow> nat" where
  "fam_bits fam = (if fam = AF_INET then 32 else 128)"

definition addr_ok :: "xaddr \<Rightarrow> bool" where
  "addr_ok a \<longleftrightarrow> length (addr8 a) = 16 \<and> (af a = AF_INET \<or> af a = AF_INET6)"

lemma af_distinct [simp]: "AF_INET \<noteq> AF_INET6" "AF_INET6 \<noteq> AF_INET"
  by (simp_all add: AF_INET_def AF_INET6_def)

lemma abit_append:
  "abit (xs @ ys) i = (if i < 8 * length xs then abit xs i else abit ys (i - 8 * length xs))"
proof (cases "i < 8 * length xs")
  case True
  then have "i div 8 < length xs" by (simp add: div_less_iff_less_mult mult.commute)
  then show ?thesis using True by (simp add: abit_def nth_append)
next
  case False
  then obtain j where "i = 8 * length xs + j" using le_Suc_ex not_less by blast
  then show ?thesis by (simp add: abit_def nth_append)
qed

lemma abit_take: "i < 8 * n \<Longrightarrow> abit (take n xs) i = abit xs i"
  by (simp add: abit_def div_less_iff_less_mult mult.commute)

lemma abit_zeros [simp]: "i < 8 * n \<Longrightarrow> \<not> abit (replicate n 0) i"
  by (simp add: abit_def div_less_iff_less_mult mult.commute)

lemma abit_bytes_op:
  assumes "i < 8 * length xs" and "length xs = length ys" and "\<And>x y n. bit (f x y) n \<longleftrightarrow> g (bit x n) (bit y n)"
  shows "abit (bytes_op f xs ys) i = g (abit xs i) (abit ys i)"
proof -
  have "i div 8 < length xs" using assms(1) by (simp add: div_less_iff_less_mult mult.commute)
  then show ?thesis using assms(2,3) by (simp add: abit_def bytes_op_def)
qed

lemma bit_index_less [simp]: "7 - i mod 8 < (8 :: nat)"
  by (rule less_imp_diff_less) simp

lemma abit_not:
  assumes "i < 8 * length xs"
  shows "abit (map (\<lambda>b. NOT b) xs) i \<longleftrightarrow> \<not> abit xs i"
proof -
  have "i div 8 < length xs" using assms by (simp add: div_less_iff_less_mult mult.commute)
  then show ?thesis by (simp add: abit_def bit_not_iff)
qed

lemma bytes_eq_abit:
  assumes "length xs = length ys" and "\<And>i. i < 8 * length xs \<Longrightarrow> abit xs i = abit ys i"
  shows "xs = ys"
proof (rule nth_equalityI [OF assms(1)])
  fix k assume k: "k < length xs"
  show "xs ! k = ys ! k"
  proof (rule bit_word_eqI)
    fix n assume "n < LENGTH(8)"
    then have n: "n < 8" by simp
    define j where "j = 7 - n"
    have j: "j < 8" "7 - j = n" using n by (auto simp: j_def)
    have "8 * k + j < 8 * length xs" using k j(1) by linarith
    moreover have "(8 * k + j) div 8 = k" "(8 * k + j) mod 8 = j" using j(1) by simp_all
    ultimately show "bit (xs ! k) n = bit (ys ! k) n"
      using assms(2) [of "8 * k + j"] j(2) by (simp add: abit_def)
  qed
qed

lemma abit_POKE_U32:
  assumes "i < 32"
  shows "abit (POKE_U32 v) i = bit v (31 - i)"
proof -
  define j where "j = 7 - i mod 8"
  have j: "j < 8" by (simp add: j_def)
  have byte: "bit (ucast (drop_bit k v AND 0xff) :: u8) j = bit v (k + j)" for k
    using j by (simp add: byte_bit_simps add.commute)
  have "i mod 8 = 7 - j" unfolding j_def using mod_less_divisor [of 8 i] by simp
  then have "i = 8 * (i div 8) + (7 - j)" using mult_div_mod_eq [of 8 i] by simp
  then have e: "31 - i = 8 * (3 - i div 8) + j" using assms j by linarith
  have "i div 8 < 4" using assms by simp
  then consider "i div 8 = 0" | "i div 8 = 1" | "i div 8 = 2" | "i div 8 = 3" by linarith
  then show ?thesis
    unfolding abit_def j_def [symmetric] e
    by cases (use byte [of 24] byte [of 16] byte [of 8] byte [of 0] in \<open>simp_all add: POKE_U32_def\<close>)
qed

lemma bit_all_ones:
  "bit (0xffffffff :: u32) n \<longleftrightarrow> n < 32" "bit (0xff :: u8) n \<longleftrightarrow> n < 8"
proof -
  have e: "(0xffffffff :: u32) = mask 32" "(0xff :: u8) = mask 8" by (simp_all add: mask_eq_exp_minus_1)
  show "bit (0xffffffff :: u32) n \<longleftrightarrow> n < 32" unfolding e by (auto simp only: bit_mask_iff) simp_all
  show "bit (0xff :: u8) n \<longleftrightarrow> n < 8" unfolding e by (auto simp only: bit_mask_iff) simp_all
qed

lemma bit_mask_word: "l \<le> 32 \<Longrightarrow> bit (mask_word l) n \<longleftrightarrow> 32 - l \<le> n \<and> n < 32"
  unfolding mask_word_def bit_and_iff bit_push_bit_iff bit_all_ones by auto

lemma abit_mask_word: "l \<le> 32 \<Longrightarrow> i < 32 \<Longrightarrow> abit (POKE_U32 (mask_word l)) i \<longleftrightarrow> i < l"
  by (auto simp: abit_POKE_U32 bit_mask_word)

lemma length_mask_words [simp]: "length (mask_words k l) = 4 * k"
  by (induction k l rule: mask_words.induct) auto

lemma abit_ones: "i < 32 \<Longrightarrow> abit [0xff, 0xff, 0xff, 0xff] i"
proof -
  assume "i < 32"
  then have "i div 8 < 4" by simp
  then consider "i div 8 = 0" | "i div 8 = 1" | "i div 8 = 2" | "i div 8 = 3" by linarith
  then have "[0xff, 0xff, 0xff, 0xff] ! (i div 8) = (0xff :: u8)" by cases simp_all
  then show ?thesis unfolding abit_def bit_all_ones by (simp only: bit_all_ones bit_index_less)
qed

lemma abit_mask_words: "l \<le> 32 * k \<Longrightarrow> i < 32 * k \<Longrightarrow> abit (mask_words k l) i \<longleftrightarrow> i < l"
proof (induction k l arbitrary: i rule: mask_words.induct)
  case (2 k l)
  let ?first = "if l \<ge> 32 then [0xff, 0xff, 0xff, 0xff] else if l \<noteq> 0 then POKE_U32 (mask_word l) else replicate 4 0"
  let ?rest = "if l \<ge> 32 then mask_words k (l - 32) else replicate (4 * k) 0"
  have e: "mask_words (Suc k) l = ?first @ ?rest" by (simp add: numeral_eq_Suc)
  have len: "8 * length ?first = 32" by simp
  show ?case
  proof (cases "i < 32")
    case True
    then have "abit (mask_words (Suc k) l) i = abit ?first i" unfolding e by (simp only: abit_append len if_True)
    also have "\<dots> \<longleftrightarrow> i < l"
      using True abit_ones [of i] abit_mask_word [of l i] abit_zeros [of i 4] by (cases "l \<ge> 32"; cases "l = 0") simp_all
    finally show ?thesis .
  next
    case False
    then have "abit (mask_words (Suc k) l) i = abit ?rest (i - 32)" unfolding e by (simp only: abit_append len if_False)
    also have "\<dots> \<longleftrightarrow> i < l"
      using False "2.IH" [of "i - 32"] "2.prems" abit_zeros [of "i - 32" "4 * k"] by (cases "l \<ge> 32") auto
    finally show ?thesis .
  qed
qed simp

lemma addr_netmask_bits:
  assumes "masklen_valid fam l"
  obtains n where "addr_netmask fam l = Some n" and "af n = fam" and "addr_ok n"
    and "\<And>i. i < fam_bits fam \<Longrightarrow> abit (addr8 n) i \<longleftrightarrow> i < l"
proof (cases "fam = AF_INET")
  case True
  let ?m = "if l = 0 then replicate 4 0 else POKE_U32 (mask_word l)"
  have l: "l \<le> 32" using assms True by (simp add: masklen_valid_def)
  have "abit (?m @ replicate 12 0) i \<longleftrightarrow> i < l" if "i < 32" for i
  proof -
    have "8 * length ?m = 32" by simp
    then have "abit (?m @ replicate 12 0) i = abit ?m i" using that by (simp only: abit_append if_True)
    then show ?thesis using that l abit_mask_word [of l i] abit_zeros [of i 4] by (cases "l = 0") simp_all
  qed
  then show ?thesis
    using True assms that [of "zero_xaddr\<lparr>af := AF_INET, addr8 := ?m @ replicate 12 0\<rparr>"]
    by (simp add: addr_netmask_def addr_ok_def fam_bits_def)
next
  case False
  then have "fam = AF_INET6" "l \<le> 128" using assms by (auto simp: masklen_valid_def split: if_splits)
  then show ?thesis
    using False assms that [of "zero_xaddr\<lparr>af := AF_INET6, addr8 := mask_words 4 l\<rparr>"] abit_mask_words [of l 4]
    by (simp add: addr_netmask_def addr_ok_def fam_bits_def)
qed

lemma fam_bits_le: "addr_ok a \<Longrightarrow> fam_bits (af a) \<le> 8 * length (addr8 a)"
  by (auto simp: addr_ok_def fam_bits_def)

lemma addr_bitwise:
  assumes ok: "addr_ok a" "addr_ok b" "af a = af b"
    and f: "\<And>x y n. bit (f x y) n \<longleftrightarrow> g (bit x n) (bit y n)"
    and r: "r = (if af a = AF_INET then bytes_op f (take 4 (addr8 a)) (take 4 (addr8 b)) @ drop 4 (addr8 a)
                 else bytes_op f (addr8 a) (addr8 b))"
  shows "length r = 16" and "i < fam_bits (af a) \<Longrightarrow> abit r i = g (abit (addr8 a) i) (abit (addr8 b) i)"
proof -
  have len: "length (addr8 a) = 16" "length (addr8 b) = 16" using ok by (simp_all add: addr_ok_def)
  then show "length r = 16" by (simp add: r bytes_op_def)
  assume i: "i < fam_bits (af a)"
  show "abit r i = g (abit (addr8 a) i) (abit (addr8 b) i)"
  proof (cases "af a = AF_INET")
    case True
    then have "i < 32" using i by (simp add: fam_bits_def)
    then show ?thesis
      using len True abit_bytes_op [of i "take 4 (addr8 a)" "take 4 (addr8 b)" f g] f
      by (simp add: r abit_append abit_take bytes_op_def)
  next
    case False
    then show ?thesis using i len abit_bytes_op [of i "addr8 a" "addr8 b" f g] f by (simp add: r fam_bits_def)
  qed
qed

lemma addr_and_bits:
  assumes "addr_ok a" and "addr_ok b" and "af a = af b"
  obtains r where "addr_and a b = Some r" and "addr_ok r" and "af r = af a" and "scope_id r = scope_id a"
    and "\<And>i. i < fam_bits (af a) \<Longrightarrow> abit (addr8 r) i \<longleftrightarrow> abit (addr8 a) i \<and> abit (addr8 b) i"
proof -
  define xs where "xs = (if af a = AF_INET then bytes_op (AND) (take 4 (addr8 a)) (take 4 (addr8 b)) @ drop 4 (addr8 a)
                         else bytes_op (AND) (addr8 a) (addr8 b))"
  have "addr_and a b = Some (a\<lparr>addr8 := xs\<rparr>)"
    using assms by (auto simp: addr_and_def xs_def addr_ok_def)
  moreover note addr_bitwise [OF assms _ xs_def, of "(\<and>)"]
  ultimately show ?thesis using that [of "a\<lparr>addr8 := xs\<rparr>"] assms(1) by (simp add: addr_ok_def bit_and_iff)
qed

lemma cmp_bytes_eq: "length xs = length ys \<Longrightarrow> cmp_bytes xs ys = 0 \<longleftrightarrow> xs = ys"
  by (induction xs ys rule: cmp_bytes.induct) (auto simp: word_uint_eq_iff)

lemma net_bytes_eq:
  assumes "addr_ok a" and "addr_ok b" and "af a = af b"
  shows "(\<forall>i < fam_bits (af a). abit (addr8 a) i = abit (addr8 b) i) \<longleftrightarrow>
         (if af a = AF_INET then take 4 (addr8 a) = take 4 (addr8 b) else addr8 a = addr8 b)"
proof -
  have len: "length (addr8 a) = 16" "length (addr8 b) = 16" using assms by (simp_all add: addr_ok_def)
  show ?thesis
    using len bytes_eq_abit [of "take 4 (addr8 a)" "take 4 (addr8 b)"] bytes_eq_abit [of "addr8 a" "addr8 b"]
      abit_take [of _ 4 "addr8 a"] abit_take [of _ 4 "addr8 b"]
    by (auto simp: fam_bits_def)
qed

lemma addr_cmp_eq:
  assumes "addr_ok a" and "addr_ok b" and "af a = af b"
  shows "addr_cmp a b = 0 \<longleftrightarrow>
         (\<forall>i < fam_bits (af a). abit (addr8 a) i = abit (addr8 b) i) \<and> (af a = AF_INET6 \<longrightarrow> scope_id a = scope_id b)"
proof -
  have "length (addr8 a) = length (addr8 b)" using assms by (simp add: addr_ok_def)
  then show ?thesis
    using assms(1,3) cmp_bytes_eq [of "addr8 a" "addr8 b"]
    unfolding net_bytes_eq [OF assms] by (auto simp: addr_cmp_def addr_ok_def)
qed

lemma addr_invert_bits:
  assumes "addr_ok a"
  obtains r where "addr_invert a = Some r" and "addr_ok r" and "af r = af a"
    and "\<And>i. i < fam_bits (af a) \<Longrightarrow> abit (addr8 r) i \<longleftrightarrow> \<not> abit (addr8 a) i"
proof (cases "af a = AF_INET")
  case True
  have len: "length (addr8 a) = 16" using assms by (simp add: addr_ok_def)
  have "abit (map (\<lambda>b. NOT b) (take 4 (addr8 a)) @ drop 4 (addr8 a)) i \<longleftrightarrow> \<not> abit (addr8 a) i" if "i < 32" for i
    using that len abit_not [of i "take 4 (addr8 a)"] by (simp add: abit_append abit_take)
  then show ?thesis
    using that [of "a\<lparr>addr8 := map (\<lambda>b. NOT b) (take 4 (addr8 a)) @ drop 4 (addr8 a)\<rparr>"] True len
    by (simp add: addr_invert_def addr_ok_def fam_bits_def)
next
  case False
  then show ?thesis
    using that [of "a\<lparr>addr8 := map (\<lambda>b. NOT b) (addr8 a)\<rparr>"] assms abit_not [of _ "addr8 a"]
    by (simp add: addr_invert_def addr_ok_def fam_bits_def)
qed

lemma addr_hostmask_bits:
  assumes "masklen_valid fam l"
  obtains n where "addr_hostmask fam l = Some n" and "af n = fam" and "addr_ok n"
    and "\<And>i. i < fam_bits fam \<Longrightarrow> abit (addr8 n) i \<longleftrightarrow> l \<le> i"
proof -
  obtain m where m: "addr_netmask fam l = Some m" "af m = fam" "addr_ok m"
    "\<And>i. i < fam_bits fam \<Longrightarrow> abit (addr8 m) i \<longleftrightarrow> i < l" using addr_netmask_bits [OF assms] by blast
  obtain n where "addr_invert m = Some n" "addr_ok n" "af n = af m"
    "\<And>i. i < fam_bits (af m) \<Longrightarrow> abit (addr8 n) i \<longleftrightarrow> \<not> abit (addr8 m) i" using addr_invert_bits [OF m(3)] by blast
  then show ?thesis using that [of n] m by (auto simp: addr_hostmask_def not_less)
qed

lemma all0s_bits:
  assumes "addr_ok a"
  shows "addr_is_all0s a \<longleftrightarrow> (\<forall>i < fam_bits (af a). \<not> abit (addr8 a) i)"
proof -
  have z: "addr_ok (zero_xaddr\<lparr>af := af a\<rparr>)" using assms by (simp add: addr_ok_def zero_xaddr_def)
  have len: "length (addr8 a) = 16" using assms by (simp add: addr_ok_def)
  have "list_all (\<lambda>b. b = 0) xs \<longleftrightarrow> xs = replicate (length xs) (0 :: u8)" for xs
    by (induction xs) auto
  then have "addr_is_all0s a \<longleftrightarrow>
      (if af a = AF_INET then take 4 (addr8 a) = take 4 (replicate 16 0) else addr8 a = replicate 16 0)"
    using assms len by (auto simp: addr_is_all0s_def addr_ok_def)
  also have "\<dots> \<longleftrightarrow> (\<forall>i < fam_bits (af a). \<not> abit (addr8 a) i)"
    using net_bytes_eq [OF assms z] by (auto simp: zero_xaddr_def fam_bits_def)
  finally show ?thesis .
qed

lemma host_is_all0s_bits:
  assumes "addr_ok a" and "masklen_valid (af a) l"
  shows "addr_host_is_all0s a l \<longleftrightarrow> (\<forall>i < fam_bits (af a). l \<le> i \<longrightarrow> \<not> abit (addr8 a) i)"
proof -
  obtain m where m: "addr_hostmask (af a) l = Some m" "af m = af a" "addr_ok m"
    "\<And>i. i < fam_bits (af a) \<Longrightarrow> abit (addr8 m) i \<longleftrightarrow> l \<le> i" using addr_hostmask_bits [OF assms(2)] by blast
  obtain r where "addr_and a m = Some r" "addr_ok r" "af r = af a"
    "\<And>i. i < fam_bits (af a) \<Longrightarrow> abit (addr8 r) i \<longleftrightarrow> abit (addr8 a) i \<and> abit (addr8 m) i"
    using addr_and_bits [of a m] assms(1) m by metis
  then show ?thesis using m by (auto simp: addr_host_is_all0s_def all0s_bits)
qed

lemma netmatch_bits:
  assumes "addr_ok host" and "addr_ok net" and "af host = af net" and "masklen_valid (af net) l"
  shows "addr_netmatch host net l = 0 \<longleftrightarrow>
         (\<forall>i < fam_bits (af net). abit (addr8 net) i \<longleftrightarrow> i < l \<and> abit (addr8 host) i) \<and>
         (af net = AF_INET6 \<longrightarrow> scope_id host = scope_id net)"
proof -
  obtain m where m: "addr_netmask (af net) l = Some m" "af m = af net" "addr_ok m"
    "\<And>i. i < fam_bits (af net) \<Longrightarrow> abit (addr8 m) i \<longleftrightarrow> i < l" using addr_netmask_bits [OF assms(4)] by blast
  obtain r where r: "addr_and host m = Some r" "addr_ok r" "af r = af net" "scope_id r = scope_id host"
    "\<And>i. i < fam_bits (af net) \<Longrightarrow> abit (addr8 r) i \<longleftrightarrow> abit (addr8 host) i \<and> abit (addr8 m) i"
    using addr_and_bits [of host m] assms m by metis
  have "addr_netmatch host net l = addr_cmp r net" using assms(3) m(1) r(1) by (simp add: addr_netmatch_def)
  then show ?thesis using addr_cmp_eq [OF r(2) assms(2) r(3)] r(3-5) m(4) by auto
qed

subsection \<open>Networks in text form\<close>

text \<open>
  What \<^verbatim>\<open>getaddrinfo\<close> documents of the structures it returns: an IPv4 one has 4 address bytes, an IPv6
  one 16.
\<close>

definition resolver_ok :: "resolver \<Rightarrow> bool" where
  "resolver_ok gai \<longleftrightarrow> (\<forall>p sa n. gai p = Some (sa, n) \<longrightarrow>
     (sa_family sa = AF_INET \<longrightarrow> length (sa_addr sa) = 4) \<and> (sa_family sa = AF_INET6 \<longrightarrow> length (sa_addr sa) = 16))"

lemma addr_pton_ok: "resolver_ok gai \<Longrightarrow> addr_pton gai p = Some a \<Longrightarrow> addr_ok a"
  by (fastforce simp: addr_pton_def addr_sa_to_xaddr_def resolver_ok_def addr_ok_def zero_xaddr_def
           split: option.splits prod.splits if_splits)

lemma addr_pton_cidr_InrD:
  assumes "resolver_ok gai" and "addr_pton_cidr gai p = Inr (net, l)"
  shows "addr_ok net" and "masklen_valid (af net) l" and "addr_host_is_all0s net l"
  using assms addr_pton_ok [of gai]
  by (auto simp: addr_pton_cidr_def Let_def split: if_splits option.splits)

lemma cidr_netmatch:
  assumes gai: "resolver_ok gai" and net: "addr_pton_cidr gai p = Inr (net, l)" and host: "addr_ok host"
  shows "addr_netmatch host net l = 0 \<longleftrightarrow>
         af host = af net \<and> (\<forall>i < l. abit (addr8 host) i = abit (addr8 net) i) \<and>
         (af net = AF_INET6 \<longrightarrow> scope_id host = scope_id net)"
proof (cases "af host = af net")
  case True
  note ok = host addr_pton_cidr_InrD [OF gai net]
  have "l \<le> fam_bits (af net)" using ok(3) by (auto simp: masklen_valid_def fam_bits_def split: if_splits)
  moreover have "\<not> abit (addr8 net) i" if "l \<le> i" "i < fam_bits (af net)" for i
    using that ok(4) host_is_all0s_bits [OF ok(2,3)] by blast
  ultimately show ?thesis
    unfolding netmatch_bits [OF ok(1,2) True ok(3)] using True by (metis order_less_le_trans not_less)
qed (simp add: addr_netmatch_def)


definition demo_resolver :: resolver where
  "demo_resolver p =
     (if p = ''10.1.0.0'' then Some (\<lparr>sa_family = AF_INET, sa_port = 0, sa_addr = [10, 1, 0, 0], sa_scope = 0\<rparr>, 16)
      else if p = ''10.1.2.3'' then Some (\<lparr>sa_family = AF_INET, sa_port = 0, sa_addr = [10, 1, 2, 3], sa_scope = 0\<rparr>, 16)
      else None)"

lemma demo_resolver_ok: "resolver_ok demo_resolver"
  by (auto simp: resolver_ok_def demo_resolver_def AF_INET_def AF_INET6_def)

lemma demo_pton:
  "addr_pton demo_resolver ''10.1.2.3'' =
     Some \<lparr>af = AF_INET, addr8 = [10, 1, 2, 3, 0, 0, 0, 0, 0, 0, 0, 0, 0, 0, 0, 0], scope_id = 0\<rparr>"
  by code_simp


subsection \<open>The next address\<close>

text \<open>The number that an address is, read as a big-endian integer.\<close>

definition be_val :: "u8 list \<Rightarrow> nat" where
  "be_val xs = foldl (\<lambda>v b. v * 256 + unat b) 0 xs"

lemma be_val_foldl: "foldl (\<lambda>v b. v * 256 + unat b) a ys = a * 256 ^ length ys + be_val ys"
proof (induction ys arbitrary: a)
  case (Cons y ys)
  have "be_val (y # ys) = unat y * 256 ^ length ys + be_val ys" using Cons [of "unat y"] by (simp add: be_val_def)
  then show ?case using Cons [of "a * 256 + unat y"] by (simp add: add_mult_distrib)
qed (simp add: be_val_def)

lemma be_val_append: "be_val (xs @ ys) = be_val xs * 256 ^ length ys + be_val ys"
  using be_val_foldl [of "be_val xs" ys] by (simp add: be_val_def)

lemma be_val_simps [simp]: "be_val [] = 0" "be_val (b # bs) = unat b * 256 ^ length bs + be_val bs"
  using be_val_append [of "[b]" bs] by (simp_all add: be_val_def)

lemma be_val_less: "be_val xs < 256 ^ length xs"
proof (induction xs)
  case (Cons b bs)
  have "unat b < 256" using unsigned_less [of b, where ?'a = nat] by simp
  then have "(unat b + 1) * 256 ^ length bs \<le> 256 * 256 ^ length bs" by (intro mult_le_mono1) simp
  then have "unat b * 256 ^ length bs + 256 ^ length bs \<le> 256 ^ length (b # bs)"
    by (simp only: add_mult_distrib mult_1 list.size power_Suc add_0_right add_Suc_right)
  then show ?case using Cons by (simp only: be_val_simps)
qed simp

lemma PEEK_U32_of_nat: "length xs = 4 \<Longrightarrow> PEEK_U32 xs = of_nat (be_val xs)"
proof -
  assume "length xs = 4"
  then obtain a b c d where xs: "xs = [a, b, c, d]" using length_4_ex by blast
  let ?a = "push_bit 24 (ucast a) :: u32" and ?b = "push_bit 16 (ucast b) :: u32" and ?c = "push_bit 8 (ucast c) :: u32"
  have cd: "?c + ucast d = ?c OR ucast d"
    by (rule disjunctive_add) (simp add: byte_bit_simps bit_u8_high)
  have bcd: "?b + (?c OR ucast d) = ?b OR ?c OR ucast d"
    by (rule disjunctive_add) (auto simp: byte_bit_simps bit_u8_high)
  have abcd: "?a + (?b OR ?c OR ucast d) = ?a OR ?b OR ?c OR ucast d"
    by (rule disjunctive_add) (auto simp: byte_bit_simps bit_u8_high)
  have "PEEK_U32 xs = ?a + (?b + (?c + ucast d))"
    unfolding cd bcd abcd by (simp add: xs PEEK_U32_def)
  also have "\<dots> = of_nat (be_val xs)"
    by (simp add: xs push_bit_eq_mult)
  finally show ?thesis .
qed

lemma be_val_PEEK: "length xs = 4 \<Longrightarrow> unat (PEEK_U32 xs) = be_val xs"
  using be_val_less [of xs] by (simp add: PEEK_U32_of_nat unat_of_nat)

lemma be_val_POKE: "be_val (POKE_U32 v) = unat v"
  using be_val_PEEK [of "POKE_U32 v"] by simp

lemma carry_mod:
  assumes "h < H" and "l < (W :: nat)"
  shows "(h * W + l + 1) mod (H * W) = (if l + 1 < W then h * W + l + 1 else (h + 1) mod H * W)"
proof (cases "l + 1 < W")
  case True
  have "h * W + W \<le> H * W" using assms(1) mult_le_mono1 [of "h + 1" H W] by simp
  then show ?thesis using True by simp
next
  case False
  then have "h * W + l + 1 = (h + 1) * W" using assms(2) by simp
  then show ?thesis using False by (simp only: mult_mod_left if_False)
qed

lemma incr_words_spec:
  "length xs = 4 * k + m \<Longrightarrow>
   length (incr_words k xs) = length xs \<and> drop (4 * k) (incr_words k xs) = drop (4 * k) xs \<and>
   be_val (take (4 * k) (incr_words k xs)) = (be_val (take (4 * k) xs) + 1) mod 256 ^ (4 * k)"
proof (induction k arbitrary: xs m)
  case (Suc k)
  define hi w lo where "hi = take (4 * k) xs" and "w = take 4 (drop (4 * k) xs)" and "lo = drop (4 + 4 * k) xs"
  have xs: "xs = hi @ w @ lo" and len: "length hi = 4 * k" "length w = 4"
    using Suc.prems append_take_drop_id [of 4 "drop (4 * k) xs"] by (simp_all add: hi_def w_def lo_def)
  define n where "n = PEEK_U32 w + 1"
  have e: "incr_words (Suc k) xs = (if n \<noteq> 0 then hi @ POKE_U32 n @ lo else incr_words k (hi @ POKE_U32 n @ lo))"
    using len by (simp add: xs n_def Let_def mem_write_def)
  have nval: "unat n = (be_val w + 1) mod 256 ^ 4"
    using be_val_PEEK [OF len(2)] by (simp add: n_def unat_word_ariths)
  have w: "be_val w < 256 ^ 4" and hi: "be_val hi < 256 ^ (4 * k)"
    using be_val_less [of w] be_val_less [of hi] len by simp_all
  have val: "be_val (take (4 * Suc k) xs) = be_val hi * 256 ^ 4 + be_val w"
    using len be_val_append [of hi w] by (simp add: xs)
  have p: "(256 :: nat) ^ (4 * Suc k) = 256 ^ (4 * k) * 256 ^ 4"
    by (simp only: mult_Suc_right power_add) (rule mult.commute)
  show ?case
  proof (cases "n = 0")
    case False
    then have "unat n \<noteq> 0" by (simp add: unat_eq_0)
    then have lt: "be_val w + 1 < 256 ^ 4" using nval w by (cases "be_val w + 1 = 256 ^ 4") auto
    then have "be_val (hi @ POKE_U32 n) = be_val hi * 256 ^ 4 + be_val w + 1"
      using nval len by (simp add: be_val_append be_val_POKE)
    then show ?thesis
      using carry_mod [OF hi w] lt len False unfolding val p e by (simp add: xs)
  next
    case True
    then have "\<not> be_val w + 1 < 256 ^ 4" using nval by (intro notI) simp
    then have c: "(be_val hi * 256 ^ 4 + be_val w + 1) mod (256 ^ (4 * k) * 256 ^ 4) = (be_val hi + 1) mod 256 ^ (4 * k) * 256 ^ 4"
      using carry_mod [OF hi w] by (simp only: if_False)
    define zs where "zs = incr_words k (hi @ POKE_U32 n @ lo)"
    have z: "length zs = length xs" "drop (4 * k) zs = POKE_U32 n @ lo" "be_val (take (4 * k) zs) = (be_val hi + 1) mod 256 ^ (4 * k)"
      using Suc.IH [of "hi @ POKE_U32 n @ lo" "4 + length lo"] len by (simp_all add: zs_def xs)
    have zs: "zs = take (4 * k) zs @ POKE_U32 n @ lo" using append_take_drop_id [of "4 * k" zs] z(2) by simp
    have tz: "length (take (4 * k) zs) = 4 * k" using z(1) len by (simp add: xs)
    have "take (4 * Suc k) zs = take (4 * k) zs @ POKE_U32 n" "drop (4 * Suc k) zs = lo"
      by (subst zs, use tz in \<open>simp\<close>)+
    moreover have "incr_words (Suc k) xs = zs" using True by (simp only: e zs_def if_False not_not simp_thms)
    ultimately show ?thesis
      using True z(1,3) c unfolding val p by (simp add: be_val_append be_val_POKE lo_def del: incr_words.simps)
  qed
qed simp

text \<open>
  C29. The next address: incrementing adds one to the address read as a number of 32 or 128 bits, with
  the carry across the words of an IPv6 address and the wrap-around at the top, and changes nothing else.
\<close>

theorem addr_increment_spec:
  assumes "addr_ok a"
  shows "be_val (take (fam_bits (af a) div 8) (addr8 (addr_increment a))) =
           (be_val (take (fam_bits (af a) div 8) (addr8 a)) + 1) mod 2 ^ fam_bits (af a) \<and>
         drop (fam_bits (af a) div 8) (addr8 (addr_increment a)) = drop (fam_bits (af a) div 8) (addr8 a) \<and>
         af (addr_increment a) = af a \<and> scope_id (addr_increment a) = scope_id a"
proof -
  define k where "k = (if af a = AF_INET then 1 else 4 :: nat)"
  have bits: "fam_bits (af a) div 8 = 4 * k" "fam_bits (af a) = 8 * (4 * k)" by (simp_all add: fam_bits_def k_def)
  have one: "incr_words (Suc 0) xs = mem_write 0 (POKE_U32 (PEEK_U32 xs + 1)) xs" for xs
    by (simp add: Let_def)
  have "addr_increment a = a\<lparr>addr8 := incr_words k (addr8 a)\<rparr>"
    using assms by (auto simp: addr_increment_def k_def addr_ok_def one simp del: incr_words.simps)
  moreover have "length (addr8 a) = 4 * k + (16 - 4 * k)" using assms by (simp add: addr_ok_def k_def)
  note incr_words_spec [OF this]
  moreover have "(2 :: nat) ^ (8 * (4 * k)) = 256 ^ (4 * k)" by (simp only: power_mult) simp
  ultimately show ?thesis unfolding bits(1) by (simp only: bits(2)) simp
qed

theorem addr_increment_spec_witness:
  "be_val (take 4 (addr8 (addr_increment \<lparr>af = AF_INET, addr8 = [10, 255, 255, 255] @ replicate 12 0, scope_id = 0\<rparr>))) =
     (be_val [10, 255, 255, 255] + 1) mod 2 ^ 32"
proof -
  have "addr_ok \<lparr>af = AF_INET, addr8 = [10, 255, 255, 255] @ replicate 12 0, scope_id = 0\<rparr>"
    by (simp add: addr_ok_def)
  from addr_increment_spec [OF this] show ?thesis by (simp add: fam_bits_def)
qed

end
