(* ===== verification/Addrmatch.thy ===== *)
theory Addrmatch
  imports Match Addr
begin

text \<open>
  Address lists (\<^verbatim>\<open>addrmatch.c\<close>) and the two functions of \<^verbatim>\<open>match.c\<close> that use them, \<^verbatim>\<open>match_host_and_ip\<close>
  and \<^verbatim>\<open>match_user\<close>. A \<^verbatim>\<open>NULL\<close> string argument is \<open>None\<close>.
\<close>

subsection \<open>Mixed lists of networks and wildcards\<close>

text \<open>The loop of \<^verbatim>\<open>addr_match_list\<close>; \<open>a\<close> is the address with its parsed form, \<open>result\<close> is \<^verbatim>\<open>ret\<close>.\<close>

function aml_loop :: "resolver \<Rightarrow> (string \<times> xaddr) option \<Rightarrow> string option \<Rightarrow> int \<Rightarrow> int" where
  "aml_loop gai a list result =
     (case strsep '','' list of
        (None, _) \<Rightarrow> result
      | (Some cp0, list') \<Rightarrow>
          (let neg = (cp0 \<noteq> [] \<and> hd cp0 = CHR ''!''); cp = (if neg then tl cp0 else cp0) in
           if cp = [] then - 2
           else
             (case addr_pton_cidr gai cp of
                Inl Cidr_inconsistent \<Rightarrow> - 2
              | Inr (match_addr, masklen) \<Rightarrow>
                  if (case a of None \<Rightarrow> False | Some (addr, try_addr) \<Rightarrow> addr_netmatch try_addr match_addr masklen = 0)
                  then (if neg then - 1 else aml_loop gai a list' 1)
                  else aml_loop gai a list' result
              | Inl Cidr_parse \<Rightarrow>
                  if (case a of None \<Rightarrow> False | Some (addr, try_addr) \<Rightarrow> match_pattern addr cp)
                  then (if neg then - 1 else aml_loop gai a list' 1)
                  else aml_loop gai a list' result)))"
  by pat_completeness auto
termination
  by (relation "measure (\<lambda>(gai, a, list, result). sep_size list)") (auto dest: strsep_size [OF sym])

declare aml_loop.simps [simp del]

definition addr_match_list :: "allocator \<Rightarrow> resolver \<Rightarrow> string option \<Rightarrow> string \<Rightarrow> int" where
  "addr_match_list A gai addr list =
     (case addr of
        None \<Rightarrow> if malloc A (length list + 1) = None then - 1 else aml_loop gai None (Some list) 0
      | Some ad \<Rightarrow>
          (case addr_pton gai ad of
             None \<Rightarrow> 0
           | Some try_addr \<Rightarrow>
               if malloc A (length list + 1) = None then - 1 else aml_loop gai (Some (ad, try_addr)) (Some list) 0))"

subsection \<open>Lists of networks\<close>

definition INET6_ADDRSTRLEN :: nat where "INET6_ADDRSTRLEN = 46"

definition VALID_CIDR_CHARS :: string where "VALID_CIDR_CHARS = ''0123456789abcdefABCDEF.:/''"

text \<open>An entry with a character outside the set sets \<^verbatim>\<open>ret\<close> but does not end the loop.\<close>

function cidr_loop :: "resolver \<Rightarrow> xaddr option \<Rightarrow> string option \<Rightarrow> int \<Rightarrow> int" where
  "cidr_loop gai try_addr list result0 =
     (case strsep '','' list of
        (None, _) \<Rightarrow> result0
      | (Some cp, list') \<Rightarrow>
          if cp = [] then - 1
          else if length cp > INET6_ADDRSTRLEN + 3 then - 1
          else
            (let result = (if length (takeWhile (\<lambda>c. c \<in> set VALID_CIDR_CHARS) cp) \<noteq> length cp then - 1 else result0) in
             case addr_pton_cidr gai cp of
               Inl Cidr_parse \<Rightarrow> - 1
             | Inl Cidr_inconsistent \<Rightarrow> - 1
             | Inr (match_addr, masklen) \<Rightarrow>
                 (case try_addr of
                    None \<Rightarrow> cidr_loop gai try_addr list' result
                  | Some t \<Rightarrow>
                      cidr_loop gai try_addr list' (if addr_netmatch t match_addr masklen = 0 then 1 else result))))"
  by pat_completeness auto
termination
  by (relation "measure (\<lambda>(gai, t, list, result). sep_size list)") (auto dest: strsep_size [OF sym])

declare cidr_loop.simps [simp del]

definition addr_match_cidr_list :: "allocator \<Rightarrow> resolver \<Rightarrow> string option \<Rightarrow> string \<Rightarrow> int" where
  "addr_match_cidr_list A gai addr list =
     (case addr of
        None \<Rightarrow> if malloc A (length list + 1) = None then - 1 else cidr_loop gai None (Some list) 0
      | Some ad \<Rightarrow>
          (case addr_pton gai ad of
             None \<Rightarrow> 0
           | Some try_addr \<Rightarrow>
               if malloc A (length list + 1) = None then - 1 else cidr_loop gai (Some try_addr) (Some list) 0))"

subsection \<open>Hosts and users\<close>

definition match_host_and_ip :: "allocator \<Rightarrow> resolver \<Rightarrow> string option \<Rightarrow> string option \<Rightarrow> string \<Rightarrow> int" where
  "match_host_and_ip A gai host ipaddr patterns =
     (let mip = addr_match_list A gai ipaddr patterns in
      if mip = - 2 then - 1
      else
        (case (host, ipaddr) of
           (Some h, Some ip) \<Rightarrow>
             if mip = - 1 then 0
             else
               let mhost = match_hostname h patterns in
               if mhost = - 1 then 0
               else if mhost = 0 \<and> mip = 0 then 0 else 1
         | _ \<Rightarrow> 0))"

definition match_user ::
    "allocator \<Rightarrow> resolver \<Rightarrow> string option \<Rightarrow> string option \<Rightarrow> string option \<Rightarrow> string \<Rightarrow> int" where
  "match_user A gai user host ipaddr pat =
     (let at = dropWhile (\<lambda>c. c \<noteq> CHR ''@'') pat in
      if user = None \<and> host = None \<and> ipaddr = None
      then (if at \<noteq> [] \<and> match_host_and_ip A gai None None (tl at) < 0 then - 1 else 0)
      else
        (case user of
           None \<Rightarrow> 0
         | Some u \<Rightarrow>
             if at = [] then (if match_pattern u pat then 1 else 0)
             else if match_pattern u (takeWhile (\<lambda>c. c \<noteq> CHR ''@'') pat)
             then match_host_and_ip A gai host ipaddr (tl at)
             else 0))"

subsection \<open>What the lists mean\<close>

text \<open>
  An entry of a mixed list is a text with an optional negation. It is invalid when it is empty or a
  network with bits set beyond its prefix; it matches as a network if it is one, else as a wildcard
  pattern on the text of the address.
\<close>

definition al_entry :: "string \<Rightarrow> bool \<times> string" where
  "al_entry f = (if f \<noteq> [] \<and> hd f = CHR ''!'' then (True, tl f) else (False, f))"

definition al_invalid :: "resolver \<Rightarrow> string \<Rightarrow> bool" where
  "al_invalid gai e \<longleftrightarrow> e = [] \<or> addr_pton_cidr gai e = Inl Cidr_inconsistent"

definition in_network :: "xaddr \<Rightarrow> xaddr \<Rightarrow> nat \<Rightarrow> bool" where
  "in_network host net l \<longleftrightarrow>
     af host = af net \<and> (\<forall>i < l. abit (addr8 host) i = abit (addr8 net) i) \<and>
     (af net = AF_INET6 \<longrightarrow> scope_id host = scope_id net)"

definition al_matches :: "resolver \<Rightarrow> string \<times> xaddr \<Rightarrow> string \<Rightarrow> bool" where
  "al_matches gai a e \<longleftrightarrow>
     (case addr_pton_cidr gai e of
        Inr (net, l) \<Rightarrow> in_network (snd a) net l
      | Inl Cidr_parse \<Rightarrow> globs e (fst a)
      | Inl Cidr_inconsistent \<Rightarrow> False)"

definition al_hit :: "resolver \<Rightarrow> (string \<times> xaddr) option \<Rightarrow> string \<Rightarrow> bool" where
  "al_hit gai a e = (case a of None \<Rightarrow> False | Some x \<Rightarrow> al_matches gai x e)"

text \<open>The first entry that is invalid or a negated match decides; else any match does.\<close>

definition al_outcome :: "('e \<Rightarrow> bool) \<Rightarrow> (bool \<times> 'e \<Rightarrow> bool) \<Rightarrow> ('e \<Rightarrow> bool) \<Rightarrow> int \<Rightarrow> (bool \<times> 'e) list \<Rightarrow> int" where
  "al_outcome bad stop hit r es =
     (case find stop es of
        Some (neg, e) \<Rightarrow> if bad e then - 2 else - 1
      | None \<Rightarrow> if \<exists>(neg, e) \<in> set es. hit e then 1 else r)"

definition al_result :: "resolver \<Rightarrow> (string \<times> xaddr) option \<Rightarrow> string \<Rightarrow> int" where
  "al_result gai a s =
     al_outcome (al_invalid gai) (\<lambda>(neg, e). al_invalid gai e \<or> (neg \<and> al_hit gai a e)) (al_hit gai a) 0
       (map al_entry (splits (CHR '','') s))"

lemma netmatch_in_network:
  "resolver_ok gai \<Longrightarrow> addr_pton_cidr gai p = Inr (net, l) \<Longrightarrow> addr_ok host \<Longrightarrow>
   addr_netmatch host net l = 0 \<longleftrightarrow> in_network host net l"
  by (simp add: in_network_def cidr_netmatch)

lemma al_outcome_simps:
  "al_outcome bad stop hit r [] = r"
  "al_outcome bad stop hit r ((neg, e) # es) =
     (if stop (neg, e) then (if bad e then - 2 else - 1) else al_outcome bad stop hit (if hit e then 1 else r) es)"
  by (auto simp: al_outcome_def split: option.splits)

lemma aml_loop_step:
  assumes "resolver_ok gai" and "\<And>ad t. a = Some (ad, t) \<Longrightarrow> addr_ok t"
    and "strsep '','' list = (Some f, list')" and "al_entry f = (neg, e)"
  shows "aml_loop gai a list r =
    (if al_invalid gai e then - 2 else if neg \<and> al_hit gai a e then - 1
     else aml_loop gai a list' (if al_hit gai a e then 1 else r))"
proof -
  have e: "neg \<longleftrightarrow> f \<noteq> [] \<and> hd f = CHR ''!''" "e = (if f \<noteq> [] \<and> hd f = CHR ''!'' then tl f else f)"
    using assms(4) by (auto simp: al_entry_def split: if_splits)
  let ?next = "\<lambda>hit. if hit then (if neg then - 1 else aml_loop gai a list' 1) else aml_loop gai a list' r"
  have u: "aml_loop gai a list r =
    (if e = [] then - 2
     else (case addr_pton_cidr gai e of
             Inl Cidr_inconsistent \<Rightarrow> - 2
           | Inr (net, l) \<Rightarrow> ?next (case a of None \<Rightarrow> False | Some (addr, t) \<Rightarrow> addr_netmatch t net l = 0)
           | Inl Cidr_parse \<Rightarrow> ?next (case a of None \<Rightarrow> False | Some (addr, t) \<Rightarrow> match_pattern addr e)))"
    unfolding aml_loop.simps [of gai a list r] assms(3) e by (simp add: Let_def)
  have hit: "(case a of None \<Rightarrow> False | Some (addr, t) \<Rightarrow> addr_netmatch t net l = 0) \<longleftrightarrow> al_hit gai a e"
    if "addr_pton_cidr gai e = Inr (net, l)" for net l
    using that assms(2) netmatch_in_network [OF assms(1) that]
    by (auto simp: al_hit_def al_matches_def split: option.splits)
  have wild: "(case a of None \<Rightarrow> False | Some (addr, t) \<Rightarrow> match_pattern addr e) \<longleftrightarrow> al_hit gai a e"
    if "addr_pton_cidr gai e = Inl Cidr_parse"
    using that by (auto simp: al_hit_def al_matches_def match_pattern_globs split: option.splits)
  show ?thesis
  proof (cases "addr_pton_cidr gai e")
    case (Inl er)
    then show ?thesis using wild
      by (cases er) (simp_all add: u al_invalid_def)
  next
    case (Inr x)
    then show ?thesis using hit
      by (cases x) (simp add: u al_invalid_def)
  qed
qed

lemma aml_loop_result:
  assumes "resolver_ok gai" and "\<And>ad t. a = Some (ad, t) \<Longrightarrow> addr_ok t"
  shows "aml_loop gai a (Some s) r =
         al_outcome (al_invalid gai) (\<lambda>(neg, e). al_invalid gai e \<or> (neg \<and> al_hit gai a e)) (al_hit gai a) r
           (map al_entry (splits (CHR '','') s))"
proof (induction "length s" arbitrary: s r rule: less_induct)
  case less
  obtain f list' where sep: "strsep '','' (Some s) = (Some f, list')"
    and fs: "splits (CHR '','') s = f # (case list' of None \<Rightarrow> [] | Some t \<Rightarrow> splits (CHR '','') t)"
    using strsep_splits [of "CHR '',''" s] by (metis prod.exhaust)
  obtain neg e where e: "al_entry f = (neg, e)" by fastforce
  note step = aml_loop_step [OF assms sep e]
  show ?case
  proof (cases list')
    case None
    then show ?thesis by (simp add: step fs e al_outcome_simps aml_loop.simps [of gai a None])
  next
    case (Some t)
    then have "length t < length s" using sep strsep_shorter by blast
    then show ?thesis using less Some by (auto simp add: step fs e al_outcome_simps)
  qed
qed


lemma addr_match_list_result:
  assumes "resolver_ok gai"
  shows "addr_match_list A gai addr list =
    (if \<exists>ad. addr = Some ad \<and> addr_pton gai ad = None then 0
     else if malloc A (length list + 1) = None then - 1
     else al_result gai (map_option (\<lambda>ad. (ad, the (addr_pton gai ad))) addr) list)"
  using aml_loop_result [OF assms, of None list 0] aml_loop_result [OF assms, of "Some (_, _)" list 0]
    addr_pton_ok [OF assms]
  by (auto simp: addr_match_list_def al_result_def split: option.splits)

lemma al_outcomeD:
  assumes "al_outcome bad stop hit 0 es \<noteq> - 2" and "al_outcome bad stop hit 0 es \<noteq> - 1"
  shows "\<And>x. x \<in> set es \<Longrightarrow> \<not> stop x" and "al_outcome bad stop hit 0 es \<noteq> 0 \<Longrightarrow> \<exists>(neg, e) \<in> set es. hit e"
  using assms by (auto simp: al_outcome_def find_None_iff split: option.splits if_splits)

lemma al_resultD:
  assumes "al_result gai a s \<noteq> - 2" and "al_result gai a s \<noteq> - 1"
  shows "\<And>e. (True, e) \<in> set (map al_entry (splits (CHR '','') s)) \<Longrightarrow> \<not> al_hit gai a e"
    and "al_result gai a s \<noteq> 0 \<Longrightarrow> \<exists>e. (False, e) \<in> set (map al_entry (splits (CHR '','') s)) \<and> al_hit gai a e"
proof -
  note d = al_outcomeD [OF assms [unfolded al_result_def], folded al_result_def]
  show neg: "\<not> al_hit gai a e" if "(True, e) \<in> set (map al_entry (splits (CHR '','') s))" for e
    using d(1) [OF that] by simp
  assume "al_result gai a s \<noteq> 0"
  then obtain x where "x \<in> set (map al_entry (splits (CHR '','') s))" "al_hit gai a (snd x)"
    using d(2) unfolding case_prod_beta by blast
  then show "\<exists>e. (False, e) \<in> set (map al_entry (splits (CHR '','') s)) \<and> al_hit gai a e"
    using neg by (metis (full_types) prod.collapse)
qed

text \<open>
  C30. Mixed address lists: an unparsable address never matches; otherwise the first entry that is
  invalid gives -2, or the first negated entry that matches gives -1, whichever comes first; else the
  result is 1 if an entry matches and 0 if not. Entries match as networks by their prefix bits, or as
  wildcards.
\<close>

theorem addr_match_list_spec:
  assumes "resolver_ok gai"
  shows "addr_match_list A gai addr list =
    (if \<exists>ad. addr = Some ad \<and> addr_pton gai ad = None then 0
     else if malloc A (length list + 1) = None then - 1
     else al_result gai (map_option (\<lambda>ad. (ad, the (addr_pton gai ad))) addr) list)"
  by (rule addr_match_list_result [OF assms])

theorem addr_match_list_spec_witness:
  "addr_match_list demo_allocator demo_resolver (Some ''10.1.2.3'') ''!10.1.*'' =
     al_result demo_resolver (Some (''10.1.2.3'', the (addr_pton demo_resolver ''10.1.2.3''))) ''!10.1.*''"
  using addr_match_list_spec [OF demo_resolver_ok, of demo_allocator "Some ''10.1.2.3''" "''!10.1.*''"]
  by (simp add: demo_allocator_def demo_pton)



subsection \<open>What lists of networks mean\<close>

definition cidr_bad :: "resolver \<Rightarrow> string \<Rightarrow> bool" where
  "cidr_bad gai e \<longleftrightarrow> e = [] \<or> length e > INET6_ADDRSTRLEN + 3 \<or> (\<exists>er. addr_pton_cidr gai e = Inl er)"

definition cidr_junk :: "string \<Rightarrow> bool" where
  "cidr_junk e \<longleftrightarrow> \<not> set e \<subseteq> set VALID_CIDR_CHARS"

definition cidr_hit :: "resolver \<Rightarrow> xaddr option \<Rightarrow> string \<Rightarrow> bool" where
  "cidr_hit gai t e \<longleftrightarrow> (\<exists>a net l. t = Some a \<and> addr_pton_cidr gai e = Inr (net, l) \<and> in_network a net l)"

text \<open>The last entry that is in the network, or has invalid characters, decides.\<close>

fun cidr_verdict :: "resolver \<Rightarrow> xaddr option \<Rightarrow> int \<Rightarrow> string list \<Rightarrow> int" where
  "cidr_verdict gai t r [] = r"
| "cidr_verdict gai t r (e # es) =
     cidr_verdict gai t (if cidr_hit gai t e then 1 else if cidr_junk e then - 1 else r) es"

lemma junk_chars: "length (takeWhile (\<lambda>c. c \<in> set V) cp) \<noteq> length cp \<longleftrightarrow> \<not> set cp \<subseteq> set V"
  by (induction cp) auto

lemma cidr_loop_step:
  assumes "resolver_ok gai" and "\<And>a. t = Some a \<Longrightarrow> addr_ok a" and "strsep '','' list = (Some e, list')"
  shows "cidr_loop gai t list r =
    (if cidr_bad gai e then - 1
     else cidr_loop gai t list' (if cidr_hit gai t e then 1 else if cidr_junk e then - 1 else r))"
proof (cases "cidr_bad gai e")
  case True
  then show ?thesis
    by (auto simp: cidr_loop.simps [of gai t list r] assms(3) cidr_bad_def Let_def split: cidr_error.splits)
next
  case False
  then obtain net l where net: "addr_pton_cidr gai e = Inr (net, l)" by (cases "addr_pton_cidr gai e") (auto simp: cidr_bad_def)
  have "cidr_hit gai t e \<longleftrightarrow> (\<exists>a. t = Some a \<and> addr_netmatch a net l = 0)"
    using assms(2) netmatch_in_network [OF assms(1) net] by (auto simp: cidr_hit_def net)
  then show ?thesis
    using False net
    by (auto simp: cidr_loop.simps [of gai t list r] assms(3) cidr_bad_def cidr_junk_def junk_chars Let_def split: option.splits)
qed

lemma cidr_loop_result:
  assumes "resolver_ok gai" and "\<And>a. t = Some a \<Longrightarrow> addr_ok a"
  shows "cidr_loop gai t (Some s) r =
    (if \<exists>e \<in> set (splits (CHR '','') s). cidr_bad gai e then - 1 else cidr_verdict gai t r (splits (CHR '','') s))"
proof (induction "length s" arbitrary: s r rule: less_induct)
  case less
  obtain e list' where sep: "strsep '','' (Some s) = (Some e, list')"
    and fs: "splits (CHR '','') s = e # (case list' of None \<Rightarrow> [] | Some t \<Rightarrow> splits (CHR '','') t)"
    using strsep_splits [of "CHR '',''" s] by (metis prod.exhaust)
  note step = cidr_loop_step [OF assms sep]
  show ?case
  proof (cases list')
    case None
    then show ?thesis by (simp add: step fs cidr_loop.simps [of gai t None])
  next
    case (Some u)
    then have "length u < length s" using sep strsep_shorter by blast
    then show ?thesis using less Some by (auto simp: step fs)
  qed
qed



end
