(* ===== verification/Srclimit.thy ===== *)
theory Srclimit
  imports Addr
begin

text \<open>
  The limit on unauthenticated connections per source network (\<^verbatim>\<open>srclimit.c\<close>). The static variables
  are a record; the array of children is a list of identifiers and masked addresses, with -1 marking a
  free slot. \<^verbatim>\<open>getpeername\<close> is a parameter of the check: the peer's address, or \<open>None\<close> when it fails.
\<close>

subsection \<open>Operations\<close>

record srclimit =
  max_children :: int
  max_persource :: int
  ipv4_masklen :: int
  ipv6_masklen :: int
  child :: "(int \<times> xaddr) list"

text \<open>\<open>None\<close> is the fatal exit, for an invalid number or when \<^verbatim>\<open>xcalloc\<close> fails.\<close>

definition srclimit_init :: "(nat \<Rightarrow> bool) \<Rightarrow> srclimit \<Rightarrow> int \<Rightarrow> int \<Rightarrow> int \<Rightarrow> int \<Rightarrow> srclimit option" where
  "srclimit_init alloc_ok st mx persource ipv4len ipv6len =
     (let st1 = st\<lparr>max_children := mx, ipv4_masklen := ipv4len, ipv6_masklen := ipv6len, max_persource := persource\<rparr> in
      if persource = INT_MAX then Some st1
      else if mx \<le> 0 then None
      else if \<not> alloc_ok (nat mx) then None
      else Some (st1\<lparr>child := replicate (nat mx) (- 1, zero_xaddr)\<rparr>))"

text \<open>The loop that counts the entries of the network and finds the first free slot.\<close>

fun scan_children :: "xaddr \<Rightarrow> nat \<Rightarrow> nat \<Rightarrow> nat \<Rightarrow> (int \<times> xaddr) list \<Rightarrow> nat \<times> nat" where
  "scan_children xb i first_unused count [] = (first_unused, count)"
| "scan_children xb i first_unused count ((cid, caddr) # cs) =
     (if cid = - 1 then scan_children xb (i + 1) (if i < first_unused then i else first_unused) count cs
      else if addr_cmp caddr xb = 0 then scan_children xb (i + 1) first_unused (count + 1) cs
      else scan_children xb (i + 1) first_unused count cs)"

definition source_net :: "srclimit \<Rightarrow> xaddr \<Rightarrow> xaddr option" where
  "source_net st xa =
     (let bits = (if af xa = AF_INET then ipv4_masklen st else ipv6_masklen st) in
      case addr_netmask (af xa) (nat (bits mod 2 ^ 32)) of
        None \<Rightarrow> None
      | Some xmask \<Rightarrow> addr_and xa xmask)"

text \<open>
  \<open>gni\<close> is \<^verbatim>\<open>getnameinfo\<close>, called by \<^verbatim>\<open>addr_ntop\<close> for the message. The result is whether the connection
  is allowed.
\<close>

definition srclimit_check_allow ::
    "(sockaddr \<Rightarrow> nat \<Rightarrow> string option) \<Rightarrow> (sockaddr \<times> nat) option \<Rightarrow> int \<Rightarrow> srclimit \<Rightarrow> bool \<times> srclimit" where
  "srclimit_check_allow gni peer cid st =
     (if max_persource st = INT_MAX then (True, st)
      else
        (case peer of
           None \<Rightarrow> (True, st)
         | Some (sa, addrlen) \<Rightarrow>
             (case addr_sa_to_xaddr sa addrlen of
                None \<Rightarrow> (True, st)
              | Some xa \<Rightarrow>
                  (case source_net st xa of
                     None \<Rightarrow> (True, st)
                   | Some xb \<Rightarrow>
                       (case scan_children xb 0 (nat (max_children st)) 0 (child st) of
                          (first_unused, count) \<Rightarrow>
                            if addr_ntop gni xa 1025 = None then (True, st)
                            else if first_unused = nat (max_children st) then (False, st)
                            else if int count \<ge> max_persource st then (False, st)
                            else (True, st\<lparr>child := (child st)[first_unused := (cid, xb)]\<rparr>))))))"

fun clear_child :: "int \<Rightarrow> (int \<times> xaddr) list \<Rightarrow> (int \<times> xaddr) list" where
  "clear_child cid [] = []"
| "clear_child cid ((c, a) # cs) = (if c = cid then (- 1, a) # cs else (c, a) # clear_child cid cs)"

definition srclimit_done :: "int \<Rightarrow> srclimit \<Rightarrow> srclimit" where
  "srclimit_done cid st = (if max_persource st = INT_MAX then st else st\<lparr>child := clear_child cid (child st)\<rparr>)"

subsection \<open>The limit holds\<close>

text \<open>Connections of a network that are counted.\<close>

definition uses :: "(int \<times> xaddr) list \<Rightarrow> xaddr \<Rightarrow> nat" where
  "uses cs net = length (filter (\<lambda>(c, a). c \<noteq> - 1 \<and> addr_cmp a net = 0) cs)"

definition free_slot :: "(int \<times> xaddr) list \<Rightarrow> nat" where
  "free_slot cs = length (takeWhile (\<lambda>(c, a). c \<noteq> - 1) cs)"

definition limits_ok :: "srclimit \<Rightarrow> bool" where
  "limits_ok st \<longleftrightarrow>
     max_persource st = INT_MAX \<or>
     (0 < max_children st \<and> length (child st) = nat (max_children st) \<and>
      (\<forall>(c, a) \<in> set (child st). c \<noteq> - 1 \<longrightarrow> addr_ok a) \<and>
      (\<forall>net. addr_ok net \<longrightarrow> uses (child st) net \<le> nat (max_persource st)))"

lemma uses_Cons: "uses ((c, a) # cs) net = (if c \<noteq> - 1 \<and> addr_cmp a net = 0 then 1 else 0) + uses cs net"
  by (simp add: uses_def)

lemma scan_children_after: "fu \<le> i \<Longrightarrow> scan_children xb i fu n cs = (fu, n + uses cs xb)"
  by (induction xb i fu n cs rule: scan_children.induct) (auto simp: uses_def)

lemma scan_children_spec:
  "i + length cs \<le> fu \<Longrightarrow> scan_children xb i fu n cs =
     (if free_slot cs = length cs then fu else i + free_slot cs, n + uses cs xb)"
proof (induction xb i fu n cs rule: scan_children.induct)
  case (2 xb i fu n c a cs)
  show ?case
  proof (cases "c = - 1")
    case True
    then show ?thesis using 2 scan_children_after [of i "i + 1" xb n cs] by (simp add: uses_def free_slot_def)
  next
    case False
    then show ?thesis using 2 by (auto simp: uses_def free_slot_def)
  qed
qed (simp add: uses_def free_slot_def)

lemma free_slot_le: "free_slot cs \<le> length cs"
  by (simp add: free_slot_def length_takeWhile_le)

lemma uses_update:
  "free_slot cs < length cs \<Longrightarrow> c \<noteq> - 1 \<Longrightarrow>
   uses (cs[free_slot cs := (c, a)]) net = uses cs net + (if addr_cmp a net = 0 then 1 else 0)"
  by (induction cs) (auto simp: uses_def free_slot_def)

lemma uses_clear: "cid \<noteq> - 1 \<Longrightarrow> uses (clear_child cid cs) net \<le> uses cs net"
  by (induction cid cs rule: clear_child.induct) (auto simp: uses_def)

lemma set_clear: "(c, a) \<in> set (clear_child cid cs) \<Longrightarrow> c \<noteq> - 1 \<Longrightarrow> (c, a) \<in> set cs"
  by (induction cid cs rule: clear_child.induct) (auto split: if_splits)

lemma length_clear [simp]: "length (clear_child cid cs) = length cs"
  by (induction cid cs rule: clear_child.induct) auto

text \<open>Comparing equal is an equivalence on well-formed addresses.\<close>

lemma addr_cmp_0_af: "addr_cmp a b = 0 \<Longrightarrow> af a = af b"
  by (auto simp: addr_cmp_def split: if_splits)

lemma addr_cmp_0_trans:
  assumes "addr_ok a" and "addr_ok b" and "addr_ok c" and "addr_cmp b c = 0"
  shows "addr_cmp a b = 0 \<longleftrightarrow> addr_cmp a c = 0"
proof -
  have bc: "af b = af c" using addr_cmp_0_af [OF assms(4)] .
  show ?thesis
  proof (cases "af a = af b")
    case True
    then show ?thesis
      using addr_cmp_eq [OF assms(1,2)] addr_cmp_eq [OF assms(1,3)] addr_cmp_eq [OF assms(2,3) bc] assms(4) bc
      by auto
  next
    case False
    then show ?thesis using addr_cmp_0_af bc by metis
  qed
qed

lemma uses_same_net:
  assumes "\<forall>(c, a) \<in> set cs. c \<noteq> - 1 \<longrightarrow> addr_ok a" and "addr_ok x" and "addr_ok y" and "addr_cmp x y = 0"
  shows "uses cs x = uses cs y"
  using assms(1) addr_cmp_0_trans [OF _ assms(2-4)]
  by (induction cs) (auto simp: uses_def)

text \<open>Structures of socket addresses as \<^verbatim>\<open>getpeername\<close> fills them.\<close>

definition peer_ok :: "(sockaddr \<times> nat) option \<Rightarrow> bool" where
  "peer_ok peer \<longleftrightarrow> (\<forall>sa n. peer = Some (sa, n) \<longrightarrow>
     (sa_family sa = AF_INET \<longrightarrow> length (sa_addr sa) = 4) \<and> (sa_family sa = AF_INET6 \<longrightarrow> length (sa_addr sa) = 16))"

lemma sa_to_xaddr_ok: "peer_ok (Some (sa, n)) \<Longrightarrow> addr_sa_to_xaddr sa n = Some a \<Longrightarrow> addr_ok a"
  by (auto simp: addr_sa_to_xaddr_def peer_ok_def addr_ok_def zero_xaddr_def split: if_splits)

lemma source_net_ok:
  assumes "addr_ok xa" and "source_net st xa = Some xb"
  shows "addr_ok xb" and "af xb = af xa"
proof -
  let ?l = "nat ((if af xa = AF_INET then ipv4_masklen st else ipv6_masklen st) mod 2 ^ 32)"
  obtain m where m: "addr_netmask (af xa) ?l = Some m" "addr_and xa m = Some xb"
    using assms(2) unfolding source_net_def Let_def by (auto split: option.splits)
  then have "masklen_valid (af xa) ?l" by (auto simp: addr_netmask_def split: if_splits)
  then have "addr_ok m" "af m = af xa" using addr_netmask_bits [of "af xa" ?l] m(1) by (metis option.inject)+
  then show "addr_ok xb" "af xb = af xa" using addr_and_bits [OF assms(1), of m] m(2) by (metis option.inject)+
qed

lemma limits_ok_check:
  assumes "limits_ok st" and "peer_ok peer" and "cid \<noteq> - 1"
  shows "limits_ok (snd (srclimit_check_allow gni peer cid st))"
proof (cases "snd (srclimit_check_allow gni peer cid st) = st")
  case False
  then obtain sa n xa xb where p: "max_persource st \<noteq> INT_MAX" "peer = Some (sa, n)" "addr_sa_to_xaddr sa n = Some xa"
    "source_net st xa = Some xb" by (auto simp: srclimit_check_allow_def split: option.splits if_splits)
  have xb: "addr_ok xb" using source_net_ok sa_to_xaddr_ok p assms(2) by blast
  have lim: "length (child st) = nat (max_children st)" "\<forall>(c, a) \<in> set (child st). c \<noteq> - 1 \<longrightarrow> addr_ok a"
    "\<And>net. addr_ok net \<Longrightarrow> uses (child st) net \<le> nat (max_persource st)" "0 < max_children st"
    using assms(1) p(1) by (auto simp: limits_ok_def)
  let ?k = "free_slot (child st)" and ?cs = "child st"
  have k: "?k < length ?cs" and few: "int (uses ?cs xb) < max_persource st"
    and st: "snd (srclimit_check_allow gni peer cid st) = st\<lparr>child := ?cs[?k := (cid, xb)]\<rparr>"
    using False p lim(1) scan_children_spec [of 0 ?cs "nat (max_children st)" xb 0] free_slot_le [of ?cs]
    by (auto simp: srclimit_check_allow_def split: if_splits)
  have "uses (?cs[?k := (cid, xb)]) net \<le> nat (max_persource st)" if "addr_ok net" for net
    using uses_update [OF k assms(3), of xb net] few lim(3) [OF that] uses_same_net [OF lim(2) xb that] by auto
  moreover have "\<forall>(c, a) \<in> set (?cs[?k := (cid, xb)]). c \<noteq> - 1 \<longrightarrow> addr_ok a"
    using lim(2) xb set_update_subset_insert [of ?cs ?k "(cid, xb)"] by blast
  ultimately show ?thesis using lim(1,4) unfolding st by (simp add: limits_ok_def)
qed (use assms in simp)

lemma limits_ok_done: "limits_ok st \<Longrightarrow> cid \<noteq> - 1 \<Longrightarrow> limits_ok (srclimit_done cid st)"
  by (auto simp: limits_ok_def srclimit_done_def dest: set_clear intro: order_trans [OF uses_clear])

lemma limits_ok_init: "srclimit_init ok st mx p l4 l6 = Some st' \<Longrightarrow> limits_ok st'"
  by (auto simp: srclimit_init_def limits_ok_def uses_def Let_def split: if_splits)

text \<open>The life of the daemon: connections arrive and leave in any order.\<close>

datatype conn_event = Arrive "(sockaddr \<times> nat) option" int | Leave int

fun conn_step :: "(sockaddr \<Rightarrow> nat \<Rightarrow> string option) \<Rightarrow> srclimit \<Rightarrow> conn_event \<Rightarrow> srclimit" where
  "conn_step gni st (Arrive peer cid) = snd (srclimit_check_allow gni peer cid st)"
| "conn_step gni st (Leave cid) = srclimit_done cid st"

fun event_ok :: "conn_event \<Rightarrow> bool" where
  "event_ok (Arrive peer cid) \<longleftrightarrow> peer_ok peer \<and> cid \<noteq> - 1"
| "event_ok (Leave cid) \<longleftrightarrow> cid \<noteq> - 1"

lemma conn_step_limits:
  "limits_ok st \<Longrightarrow> event_ok e \<Longrightarrow>
   limits_ok (conn_step gni st e) \<and> max_persource (conn_step gni st e) = max_persource st"
proof (cases e)
  case (Arrive peer cid)
  assume "limits_ok st" "event_ok e"
  moreover have "max_persource (snd (srclimit_check_allow gni peer cid st)) = max_persource st"
    by (simp add: srclimit_check_allow_def split: option.split prod.split)
  ultimately show ?thesis using Arrive limits_ok_check by simp
next
  case (Leave cid)
  assume "limits_ok st" "event_ok e"
  then show ?thesis using Leave limits_ok_done by (simp add: srclimit_done_def)
qed

lemma conn_run_limits:
  "limits_ok st \<Longrightarrow> list_all event_ok es \<Longrightarrow>
   limits_ok (foldl (conn_step gni) st es) \<and> max_persource (foldl (conn_step gni) st es) = max_persource st"
  by (induction es arbitrary: st) (simp_all add: conn_step_limits)



end
