(* ===== verification/Rbtree.thy ===== *)
theory Rbtree
  imports Main "HOL-Library.Tree"
begin

text \<open>
  The search trees of \<^verbatim>\<open>openbsd-compat/sys-tree.h\<close>. The searches and the insertion of a leaf are written
  on binary trees as the macros write them; the colours and rotations, which keep the tree balanced, do
  not change the sequence of the elements and are not modelled. The clients keep a tree as that sequence:
  the lemmas of this theory show that the searches and the insertion depend on it alone, for every shape
  of the tree, whenever at most one element compares equal.
\<close>

subsection \<open>The macros\<close>

fun rbt_find :: "('a \<Rightarrow> 'a \<Rightarrow> int) \<Rightarrow> 'a \<Rightarrow> 'a tree \<Rightarrow> 'a option" where
  "rbt_find cmp elm Leaf = None"
| "rbt_find cmp elm (Node l tmp r) =
     (if cmp elm tmp < 0 then rbt_find cmp elm l
      else if cmp elm tmp > 0 then rbt_find cmp elm r
      else Some tmp)"

fun rbt_nfind_from :: "('a \<Rightarrow> 'a \<Rightarrow> int) \<Rightarrow> 'a \<Rightarrow> 'a option \<Rightarrow> 'a tree \<Rightarrow> 'a option" where
  "rbt_nfind_from cmp elm res Leaf = res"
| "rbt_nfind_from cmp elm res (Node l tmp r) =
     (if cmp elm tmp < 0 then rbt_nfind_from cmp elm (Some tmp) l
      else if cmp elm tmp > 0 then rbt_nfind_from cmp elm res r
      else Some tmp)"

definition rbt_nfind :: "('a \<Rightarrow> 'a \<Rightarrow> int) \<Rightarrow> 'a \<Rightarrow> 'a tree \<Rightarrow> 'a option" where
  "rbt_nfind cmp elm t = rbt_nfind_from cmp elm None t"

text \<open>The insertion returns an element that compares equal, or adds a leaf.\<close>

fun rbt_insert :: "('a \<Rightarrow> 'a \<Rightarrow> int) \<Rightarrow> 'a \<Rightarrow> 'a tree \<Rightarrow> 'a option \<times> 'a tree" where
  "rbt_insert cmp elm Leaf = (None, Node Leaf elm Leaf)"
| "rbt_insert cmp elm (Node l tmp r) =
     (if cmp elm tmp < 0 then (case rbt_insert cmp elm l of (e, l') \<Rightarrow> (e, Node l' tmp r))
      else if cmp elm tmp > 0 then (case rbt_insert cmp elm r of (e, r') \<Rightarrow> (e, Node l tmp r'))
      else (Some tmp, Node l tmp r))"

subsection \<open>On the sequence of elements\<close>

definition rb_find :: "('a \<Rightarrow> 'a \<Rightarrow> int) \<Rightarrow> 'a \<Rightarrow> 'a list \<Rightarrow> 'a option" where
  "rb_find cmp x t = find (\<lambda>e. cmp x e = 0) t"

definition rb_insert :: "('a \<Rightarrow> 'a \<Rightarrow> int) \<Rightarrow> 'a \<Rightarrow> 'a list \<Rightarrow> 'a option \<times> 'a list" where
  "rb_insert cmp x t =
     (case rb_find cmp x t of
        Some e \<Rightarrow> (Some e, t)
      | None \<Rightarrow> (None, takeWhile (\<lambda>e. 0 \<le> cmp x e) t @ x # dropWhile (\<lambda>e. 0 \<le> cmp x e) t))"

text \<open>Along the sequence the comparison with \<open>x\<close> goes from greater over equal to less.\<close>

definition falling :: "('a \<Rightarrow> 'a \<Rightarrow> int) \<Rightarrow> 'a \<Rightarrow> 'a list \<Rightarrow> bool" where
  "falling cmp x t \<longleftrightarrow> sorted_wrt (\<lambda>a b. (cmp x a \<le> 0 \<longrightarrow> cmp x b \<le> 0) \<and> (cmp x a < 0 \<longrightarrow> cmp x b < 0)) t"

definition one_equal :: "('a \<Rightarrow> 'a \<Rightarrow> int) \<Rightarrow> 'a \<Rightarrow> 'a list \<Rightarrow> bool" where
  "one_equal cmp x t \<longleftrightarrow> (\<forall>a \<in> set t. \<forall>b \<in> set t. cmp x a = 0 \<longrightarrow> cmp x b = 0 \<longrightarrow> a = b)"

lemma falling_append:
  "falling cmp x (s @ t) \<longleftrightarrow> falling cmp x s \<and> falling cmp x t \<and>
     (\<forall>a \<in> set s. \<forall>b \<in> set t. (cmp x a \<le> 0 \<longrightarrow> cmp x b \<le> 0) \<and> (cmp x a < 0 \<longrightarrow> cmp x b < 0))"
  by (simp add: falling_def sorted_wrt_append)

lemma falling_Cons:
  "falling cmp x (a # t) \<longleftrightarrow>
     (\<forall>b \<in> set t. (cmp x a \<le> 0 \<longrightarrow> cmp x b \<le> 0) \<and> (cmp x a < 0 \<longrightarrow> cmp x b < 0)) \<and> falling cmp x t"
  by (simp add: falling_def)

lemma falling_Node:
  assumes "falling cmp x (inorder (Node l a r))"
  shows "falling cmp x (inorder l)" and "falling cmp x (inorder r)"
    and "0 < cmp x a \<Longrightarrow> e \<in> set_tree l \<Longrightarrow> 0 < cmp x e" and "cmp x a < 0 \<Longrightarrow> e \<in> set_tree r \<Longrightarrow> cmp x e < 0"
proof -
  have f: "falling cmp x (inorder l)" "falling cmp x (inorder r)"
    "\<forall>e \<in> set_tree l. cmp x e \<le> 0 \<longrightarrow> cmp x a \<le> 0" "\<forall>e \<in> set_tree r. cmp x a < 0 \<longrightarrow> cmp x e < 0"
    using assms by (simp_all add: falling_append falling_Cons)
  show "falling cmp x (inorder l)" "falling cmp x (inorder r)" by fact+
  show "0 < cmp x e" if "0 < cmp x a" "e \<in> set_tree l" using f(3) that by fastforce
  show "cmp x e < 0" if "cmp x a < 0" "e \<in> set_tree r" using f(4) that by blast
qed

lemma rbt_find_None: "falling cmp x (inorder t) \<Longrightarrow> rbt_find cmp x t = None \<longleftrightarrow> (\<forall>e \<in> set_tree t. cmp x e \<noteq> 0)"
proof (induction t)
  case (Node l a r)
  note f = falling_Node [OF Node.prems]
  consider "cmp x a < 0" | "cmp x a > 0" | "cmp x a = 0" by linarith
  then show ?case
  proof cases
    case 1
    then show ?thesis using Node.IH(1) [OF f(1)] f(4) [OF 1] by fastforce
  next
    case 2
    then show ?thesis using Node.IH(2) [OF f(2)] f(3) [OF 2] by fastforce
  qed auto
qed simp

lemma rbt_find_Some: "rbt_find cmp x t = Some e \<Longrightarrow> e \<in> set_tree t \<and> cmp x e = 0"
  by (induction t) (auto split: if_splits)

lemma rbt_find_rb_find:
  assumes "falling cmp x (inorder t)" and "one_equal cmp x (inorder t)"
  shows "rbt_find cmp x t = rb_find cmp x (inorder t)"
proof (cases "rbt_find cmp x t")
  case None
  then have "rb_find cmp x (inorder t) = None"
    using rbt_find_None [OF assms(1)] by (simp add: rb_find_def find_None_iff)
  then show ?thesis using None by simp
next
  case (Some e)
  then have e: "e \<in> set (inorder t)" "cmp x e = 0" using rbt_find_Some by fastforce+
  then obtain d where d: "rb_find cmp x (inorder t) = Some d"
    by (cases "rb_find cmp x (inorder t)") (auto simp: rb_find_def find_None_iff)
  have "d \<in> set (inorder t)" "cmp x d = 0" using d by (auto simp: rb_find_def find_Some_iff simp del: set_inorder)
  then have "d = e" using e assms(2) unfolding one_equal_def by blast
  then show ?thesis using Some d by simp
qed

lemma while_Node:
  "\<not> P a \<Longrightarrow> takeWhile P (xs @ a # ys) = takeWhile P xs \<and> dropWhile P (xs @ a # ys) = dropWhile P xs @ a # ys"
  "P a \<Longrightarrow> \<forall>e \<in> set xs. P e \<Longrightarrow> takeWhile P (xs @ a # ys) = xs @ a # takeWhile P ys \<and> dropWhile P (xs @ a # ys) = dropWhile P ys"
  by (induction xs) auto

text \<open>
  The element found by \<^verbatim>\<open>RB_NFIND\<close> compares equal if any does (when several do, which one depends on the
  shape), and is otherwise the first one that is greater.
\<close>

lemma rbt_nfind_from_spec:
  "falling cmp x (inorder t) \<Longrightarrow>
   (if \<exists>e \<in> set_tree t. cmp x e = 0
    then \<exists>e \<in> set_tree t. cmp x e = 0 \<and> rbt_nfind_from cmp x res t = Some e
    else rbt_nfind_from cmp x res t =
      (case dropWhile (\<lambda>e. 0 \<le> cmp x e) (inorder t) of [] \<Rightarrow> res | e # _ \<Rightarrow> Some e))"
proof (induction t arbitrary: res)
  case (Node l a r)
  note f = falling_Node [OF Node.prems]
  consider (less) "cmp x a < 0" | (greater) "cmp x a > 0" | (equal) "cmp x a = 0" by linarith
  then show ?case
  proof cases
    case less
    then have "(\<exists>e \<in> set_tree (Node l a r). cmp x e = 0) \<longleftrightarrow> (\<exists>e \<in> set_tree l. cmp x e = 0)"
      using f(4) [OF less] by fastforce
    moreover have "dropWhile (\<lambda>e. 0 \<le> cmp x e) (inorder (Node l a r)) = dropWhile (\<lambda>e. 0 \<le> cmp x e) (inorder l) @ a # inorder r"
      using less while_Node(1) [of "\<lambda>e. 0 \<le> cmp x e" a] by simp
    ultimately show ?thesis
      using less Node.IH(1) [OF f(1), of "Some a"]
      by (cases "dropWhile (\<lambda>e. 0 \<le> cmp x e) (inorder l)") (auto split: if_splits simp del: inorder.simps dropWhile_eq_Nil_conv)
  next
    case greater
    then have "(\<exists>e \<in> set_tree (Node l a r). cmp x e = 0) \<longleftrightarrow> (\<exists>e \<in> set_tree r. cmp x e = 0)"
      using f(3) [OF greater] by fastforce
    moreover have "dropWhile (\<lambda>e. 0 \<le> cmp x e) (inorder (Node l a r)) = dropWhile (\<lambda>e. 0 \<le> cmp x e) (inorder r)"
      using greater f(3) [OF greater] while_Node(2) [of "\<lambda>e. 0 \<le> cmp x e" a "inorder l"] by (simp add: less_imp_le)
    ultimately show ?thesis using greater Node.IH(2) [OF f(2), of res] by (auto split: if_splits)
  qed auto
qed simp

lemma rbt_insert_found: "rbt_find cmp x t = Some e \<Longrightarrow> rbt_insert cmp x t = (Some e, t)"
  by (induction t) (auto split: if_splits)

lemma rbt_insert_new:
  "falling cmp x (inorder t) \<Longrightarrow> rbt_find cmp x t = None \<Longrightarrow>
   fst (rbt_insert cmp x t) = None \<and>
   inorder (snd (rbt_insert cmp x t)) = takeWhile (\<lambda>e. 0 \<le> cmp x e) (inorder t) @ x # dropWhile (\<lambda>e. 0 \<le> cmp x e) (inorder t)"
proof (induction t)
  case (Node l a r)
  note f = falling_Node [OF Node.prems(1)]
  consider (less) "cmp x a < 0" | (greater) "cmp x a > 0" using Node.prems(2) by (fastforce split: if_splits)
  then show ?case
  proof cases
    case less
    then show ?thesis
      using Node.IH(1) [OF f(1)] Node.prems(2) while_Node(1) [of "\<lambda>e. 0 \<le> cmp x e" a]
      by (simp add: case_prod_beta)
  next
    case greater
    then show ?thesis
      using Node.IH(2) [OF f(2)] Node.prems(2) f(3) [OF greater] while_Node(2) [of "\<lambda>e. 0 \<le> cmp x e" a "inorder l"]
      by (simp add: less_imp_le case_prod_beta)
  qed
qed simp

lemma rbt_insert_rb_insert:
  assumes "falling cmp x (inorder t)" and "one_equal cmp x (inorder t)"
  shows "fst (rbt_insert cmp x t) = fst (rb_insert cmp x (inorder t))"
    and "inorder (snd (rbt_insert cmp x t)) = snd (rb_insert cmp x (inorder t))"
  using rbt_find_rb_find [OF assms] rbt_insert_found [of cmp x t] rbt_insert_new [OF assms(1)]
  by (auto simp: rb_insert_def split: option.splits)

subsection \<open>Trees as sets\<close>

text \<open>What a comparison function has to satisfy for the trees to represent sets.\<close>

locale rb_order =
  fixes cmp :: "'a \<Rightarrow> 'a \<Rightarrow> int"
  assumes cmp_eq: "cmp x y = 0 \<longleftrightarrow> x = y"
    and cmp_sym: "cmp x y < 0 \<Longrightarrow> 0 < cmp y x"
    and cmp_total: "0 < cmp x y \<Longrightarrow> cmp y x < 0"
    and cmp_trans: "cmp x y < 0 \<Longrightarrow> cmp y z < 0 \<Longrightarrow> cmp x z < 0"
begin

definition rb_sorted :: "'a list \<Rightarrow> bool" where
  "rb_sorted t \<longleftrightarrow> sorted_wrt (\<lambda>x y. cmp x y < 0) t"

lemma rb_sorted_Nil: "rb_sorted []"
  by (simp add: rb_sorted_def)

lemma find_iff: "rb_find cmp x t \<noteq> None \<longleftrightarrow> x \<in> set t"
  by (auto simp: rb_find_def find_None_iff cmp_eq)

lemma insert_set: "set (snd (rb_insert cmp x t)) = insert x (set t)"
proof (cases "rb_find cmp x t")
  case None
  then have "snd (rb_insert cmp x t) = takeWhile (\<lambda>e. 0 \<le> cmp x e) t @ x # dropWhile (\<lambda>e. 0 \<le> cmp x e) t"
    by (simp add: rb_insert_def)
  moreover have "set t = set (takeWhile (\<lambda>e. 0 \<le> cmp x e) t) \<union> set (dropWhile (\<lambda>e. 0 \<le> cmp x e) t)"
    unfolding set_append [symmetric] by simp
  ultimately show ?thesis by simp
next
  case (Some e)
  then have "x \<in> set t" using find_iff [of x t] by simp
  then show ?thesis using Some by (simp add: rb_insert_def insert_absorb)
qed

lemma insert_sorted: "rb_sorted t \<Longrightarrow> rb_sorted (snd (rb_insert cmp x t))"
proof (cases "rb_find cmp x t")
  case None
  assume s: "rb_sorted t"
  let ?l = "takeWhile (\<lambda>e. 0 \<le> cmp x e) t" and ?r = "dropWhile (\<lambda>e. 0 \<le> cmp x e) t"
  have notin: "x \<notin> set t" using None find_iff [of x t] by simp
  have t: "t = ?l @ ?r" by simp
  have below: "cmp e x < 0" if "e \<in> set ?l" for e
  proof -
    have "0 \<le> cmp x e" "e \<in> set t" using that set_takeWhileD by fast+
    moreover have "cmp x e \<noteq> 0" using notin \<open>e \<in> set t\<close> cmp_eq by auto
    ultimately show ?thesis using cmp_total by simp
  qed
  have lr: "sorted_wrt (\<lambda>x y. cmp x y < 0) ?l" "sorted_wrt (\<lambda>x y. cmp x y < 0) ?r"
    "\<forall>a \<in> set ?l. \<forall>b \<in> set ?r. cmp a b < 0"
  proof -
    have "sorted_wrt (\<lambda>x y. cmp x y < 0) (?l @ ?r)" using s by (simp add: rb_sorted_def)
    then show "sorted_wrt (\<lambda>x y. cmp x y < 0) ?l" "sorted_wrt (\<lambda>x y. cmp x y < 0) ?r"
      "\<forall>a \<in> set ?l. \<forall>b \<in> set ?r. cmp a b < 0" unfolding sorted_wrt_append by simp_all
  qed
  have above: "cmp x e < 0" if "e \<in> set ?r" for e
  proof -
    obtain d q where Cons: "?r = d # q" using \<open>e \<in> set ?r\<close> by (cases ?r) auto
    then have d: "cmp x d < 0" using dropWhile_eq_Cons_conv [of "\<lambda>e. 0 \<le> cmp x e" t d q] by auto
    show ?thesis
    proof (cases "e = d")
      case False
      then have "cmp d e < 0" using lr(2) that Cons by auto
      then show ?thesis using d cmp_trans by blast
    qed (simp add: d)
  qed
  show ?thesis
    using None lr below above by (auto simp: rb_sorted_def rb_insert_def sorted_wrt_append)
next
  case (Some e)
  then show "rb_sorted t \<Longrightarrow> ?thesis" by (simp add: rb_insert_def)
qed

lemma sorted_distinct: "rb_sorted t \<Longrightarrow> distinct t"
proof (induction t)
  case (Cons a t)
  then have "\<forall>e \<in> set t. cmp a e < 0" "rb_sorted t" by (auto simp: rb_sorted_def)
  moreover have "cmp a a = 0" by (simp add: cmp_eq)
  ultimately show ?case using Cons by auto
qed simp

text \<open>A tree is determined by the set of its elements.\<close>

lemma sorted_unique: "rb_sorted s \<Longrightarrow> rb_sorted t \<Longrightarrow> set s = set t \<Longrightarrow> s = t"
proof (induction s arbitrary: t)
  case (Cons a s)
  then obtain b u where t: "t = b # u" by (cases t) auto
  have a: "\<forall>e \<in> set s. cmp a e < 0" "rb_sorted s" and b: "\<forall>e \<in> set u. cmp b e < 0" "rb_sorted u"
    using Cons.prems(1,2) by (auto simp: rb_sorted_def t)
  have "a = b"
  proof (rule ccontr)
    assume "a \<noteq> b"
    then have "cmp b a < 0" "cmp a b < 0" using Cons.prems(3) a b t by auto
    then show False using cmp_sym by fastforce
  qed
  moreover have "a \<notin> set s" "b \<notin> set u" using a b cmp_eq [of a a] cmp_eq [of b b] by auto
  ultimately have "set s = set u" using Cons.prems(3) t by auto
  then show ?case using Cons.IH [OF a(2) b(2)] t \<open>a = b\<close> by simp
qed simp

text \<open>On a sorted tree the macros are the operations on the sequence, whatever the shape.\<close>

lemma sorted_falling: "rb_sorted t \<Longrightarrow> falling cmp x t" "one_equal cmp x t"
proof -
  show "one_equal cmp x t" by (simp add: one_equal_def cmp_eq)
  assume "rb_sorted t"
  then show "falling cmp x t" unfolding rb_sorted_def falling_def
    by (rule sorted_wrt_mono_rel [rotated]) (metis cmp_eq cmp_trans order_le_less)
qed

lemma tree_find: "rb_sorted (inorder t) \<Longrightarrow> rbt_find cmp x t = rb_find cmp x (inorder t)"
  by (rule rbt_find_rb_find) (simp_all add: sorted_falling)

lemma tree_insert:
  "rb_sorted (inorder t) \<Longrightarrow> inorder (snd (rbt_insert cmp x t)) = snd (rb_insert cmp x (inorder t))"
  by (rule rbt_insert_rb_insert) (simp_all add: sorted_falling)

end

end
