(* ===== verification/Byte_Buffer.thy ===== *)
theory Byte_Buffer
  imports Ssherr
begin

text \<open>
  Two interfaces between the buffer and the code that encodes and decodes messages with it.
  \<open>byte_buffer\<close> is what a first-in first-out byte buffer promises; \<open>buffer_codec\<close> is what a pair of a
  writer and a reader for one kind of value promises. The lemmas inside the locales are proved once
  from these laws; the buffer theories interpret the locales on the model's own operations.
\<close>

subsection \<open>A byte queue\<close>

fun put_all :: "('b \<Rightarrow> (ssherr, 's, unit) run) \<Rightarrow> 'b list \<Rightarrow> (ssherr, 's, unit) run" where
  "put_all put [] = ret ()"
| "put_all put (x # xs) = andthen (put x) (\<lambda>_. put_all put xs)"

fun get_all :: "('k \<Rightarrow> (ssherr, 's, 'v) run) \<Rightarrow> 'k list \<Rightarrow> (ssherr, 's, 'v list) run" where
  "get_all get [] = ret []"
| "get_all get (k # ks) = andthen (get k) (\<lambda>v. andthen (get_all get ks) (\<lambda>vs. ret (v # vs)))"

locale byte_buffer =
  fixes inv :: "'s \<Rightarrow> bool"
    and content :: "'s \<Rightarrow> u8 list"
    and put :: "u8 list \<Rightarrow> (ssherr, 's, unit) run"
    and get :: "nat \<Rightarrow> (ssherr, 's, u8 list) run"
  assumes put_Inr: "inv s \<Longrightarrow> put bs s = (Inr (), t) \<Longrightarrow> inv t \<and> content t = content s @ bs"
    and put_Inl: "inv s \<Longrightarrow> put bs s = (Inl e, t) \<Longrightarrow> inv t \<and> content t = content s"
    and get_Inr: "inv s \<Longrightarrow> n \<le> length (content s) \<Longrightarrow>
      \<exists>t. get n s = (Inr (take n (content s)), t) \<and> inv t \<and> content t = drop n (content s)"
    and get_Inl: "inv s \<Longrightarrow> length (content s) < n \<Longrightarrow> get n s = (Inl SSH_ERR_MESSAGE_INCOMPLETE, s)"
begin

lemma put_all_content:
  "inv s \<Longrightarrow> put_all put bss s = (Inr (), t) \<Longrightarrow> inv t \<and> content t = content s @ concat bss"
proof (induction bss arbitrary: s)
  case Nil
  then show ?case by (simp add: ret_def)
next
  case (Cons bs bss)
  from Cons.prems(2) obtain s' where "put bs s = (Inr (), s')" "put_all put bss s' = (Inr (), t)"
    by (auto elim: andthen_InrE)
  with Cons.IH [of s'] Cons.prems(1) put_Inr show ?case by fastforce
qed

text \<open>A failed write leaves a prefix of the chunks behind, and never damages what was there.\<close>

lemma put_all_failure:
  "inv s \<Longrightarrow> put_all put bss s = (Inl e, t) \<Longrightarrow>
   inv t \<and> (\<exists>k < length bss. content t = content s @ concat (take k bss))"
proof (induction bss arbitrary: s)
  case Nil
  then show ?case by (simp add: ret_def)
next
  case (Cons bs bss)
  show ?case
  proof (cases "put bs s")
    case (Pair r s')
    show ?thesis
    proof (cases r)
      case (Inl e')
      with Cons.prems Pair put_Inl [of s bs e' s'] show ?thesis
        by (auto simp: andthen_def intro!: exI [of _ 0])
    next
      case (Inr u)
      with Cons.prems Pair have "inv s'" "content s' = content s @ bs" "put_all put bss s' = (Inl e, t)"
        using put_Inr by (auto simp: andthen_def)
      with Cons.IH obtain k where "inv t" "k < length bss" "content t = content s @ bs @ concat (take k bss)"
        by fastforce
      then show ?thesis by (auto intro!: exI [of _ "Suc k"])
    qed
  qed
qed

lemma get_all_content:
  "inv s \<Longrightarrow> content s = concat bss @ rest \<Longrightarrow>
   \<exists>t. get_all get (map length bss) s = (Inr bss, t) \<and> inv t \<and> content t = rest"
proof (induction bss arbitrary: s)
  case Nil
  then show ?case by (simp add: ret_def)
next
  case (Cons bs bss)
  then obtain s' where "get (length bs) s = (Inr bs, s')" "inv s'" "content s' = concat bss @ rest"
    using get_Inr [of s "length bs"] by auto
  with Cons.IH [of s'] show ?case by (auto simp: andthen_def ret_def)
qed

text \<open>
  First in, first out: chunks written one after the other are read back, in order and whole, after
  whatever was queued before them, and nothing is left over.
\<close>

lemma fifo:
  assumes "inv s" and "put_all put bss s = (Inr (), t)"
  shows "\<exists>u. get_all get (map length (content s # bss)) t = (Inr (content s # bss), u) \<and>
             inv u \<and> content u = []"
proof -
  have "inv t" "content t = concat (content s # bss) @ []"
    using put_all_content [OF assms] by simp_all
  then show ?thesis by (rule get_all_content)
qed

end

subsection \<open>A codec: values of one kind written to and read from a buffer\<close>

locale buffer_codec =
  fixes inv :: "'s \<Rightarrow> bool"
    and content :: "'s \<Rightarrow> u8 list"
    and enc :: "'v \<Rightarrow> u8 list"
    and valid :: "'v \<Rightarrow> bool"
    and put :: "'v \<Rightarrow> (ssherr, 's, unit) run"
    and get :: "(ssherr, 's, 'v) run"
  assumes put_enc: "inv s \<Longrightarrow> put v s = (Inr (), t) \<Longrightarrow> inv t \<and> content t = content s @ enc v"
    and get_enc: "inv s \<Longrightarrow> valid v \<Longrightarrow> content s = enc v @ rest \<Longrightarrow>
      \<exists>t. get s = (Inr v, t) \<and> inv t \<and> content t = rest"
begin

lemma put_all_enc:
  "inv s \<Longrightarrow> put_all put vs s = (Inr (), t) \<Longrightarrow> inv t \<and> content t = content s @ concat (map enc vs)"
proof (induction vs arbitrary: s)
  case Nil
  then show ?case by (simp add: ret_def)
next
  case (Cons v vs)
  from Cons.prems(2) obtain s' where "put v s = (Inr (), s')" "put_all put vs s' = (Inr (), t)"
    by (auto elim: andthen_InrE)
  with Cons.IH [of s'] Cons.prems(1) put_enc show ?case by fastforce
qed

lemma get_all_enc:
  "inv s \<Longrightarrow> list_all valid vs \<Longrightarrow> content s = concat (map enc vs) @ rest \<Longrightarrow>
   \<exists>t. get_all (\<lambda>_::unit. get) (replicate (length vs) ()) s = (Inr vs, t) \<and> inv t \<and> content t = rest"
proof (induction vs arbitrary: s)
  case Nil
  then show ?case by (simp add: ret_def)
next
  case (Cons v vs)
  then obtain s' where "get s = (Inr v, s')" "inv s'" "content s' = concat (map enc vs) @ rest"
    using get_enc [of s v] by auto
  with Cons.IH [of s'] Cons.prems(2) show ?case by (auto simp: andthen_def ret_def)
qed

text \<open>The round trip of a sequence of values through an empty buffer.\<close>

lemma roundtrip_all:
  assumes "inv s" and "content s = []" and "list_all valid vs" and "put_all put vs s = (Inr (), t)"
  shows "\<exists>u. get_all (\<lambda>_::unit. get) (replicate (length vs) ()) t = (Inr vs, u) \<and> inv u \<and> content u = []"
  using put_all_enc [OF assms(1,4)] get_all_enc [of t vs "[]"] assms by simp

lemma roundtrip_one:
  assumes "inv s" and "content s = []" and "valid v" and "put v s = (Inr (), t)"
  shows "\<exists>u. get t = (Inr v, u) \<and> inv u \<and> content u = []"
  using put_enc [OF assms(1,4)] get_enc [of t v "[]"] assms by simp

end

end
