(* ===== verification/Sshbuf_Getput.thy ===== *)
theory Sshbuf_Getput
  imports Sshbuf Byte_Buffer
begin

unbundle bit_operations_syntax

text \<open>
  The encoders and decoders of \<^verbatim>\<open>sshbuf-getput-basic.c\<close>: raw bytes, integers, length-prefixed
  strings, C strings and multiple-precision integers, with the peek and poke accessors.

  Positions in the buffer's storage are offsets from \<^verbatim>\<open>cd\<close>. A C function that stores through a
  result pointer returns the value; the pointer a caller may pass as \<^verbatim>\<open>NULL\<close> only decides whether the
  value is stored, except in \<^verbatim>\<open>sshbuf_get_string\<close> and \<^verbatim>\<open>sshbuf_get_cstring\<close>, where it also decides
  whether memory is allocated and is an argument of the model.
\<close>

subsection \<open>Fixed-size values\<close>

definition sshbuf_get :: "nat \<Rightarrow> u8 list bufop" where
  "sshbuf_get len buf =
     (let p = sb_off buf in
      andthen (sshbuf_consume len) (\<lambda>_ b. ret (mem_read p len (sb_mem b)) b) buf)"

definition sshbuf_get_u64 :: "u64 bufop" where
  "sshbuf_get_u64 buf =
     (let p = sb_off buf in
      andthen (sshbuf_consume 8) (\<lambda>_ b. ret (PEEK_U64 (mem_read p 8 (sb_mem b))) b) buf)"

definition sshbuf_get_u32 :: "u32 bufop" where
  "sshbuf_get_u32 buf =
     (let p = sb_off buf in
      andthen (sshbuf_consume 4) (\<lambda>_ b. ret (PEEK_U32 (mem_read p 4 (sb_mem b))) b) buf)"

definition sshbuf_get_u16 :: "u16 bufop" where
  "sshbuf_get_u16 buf =
     (let p = sb_off buf in
      andthen (sshbuf_consume 2) (\<lambda>_ b. ret (PEEK_U16 (mem_read p 2 (sb_mem b))) b) buf)"

definition sshbuf_get_u8 :: "u8 bufop" where
  "sshbuf_get_u8 buf =
     (let p = sb_off buf in
      andthen (sshbuf_consume 1) (\<lambda>_ b. ret (sb_mem b ! p) b) buf)"

definition check_offset :: "bool \<Rightarrow> nat \<Rightarrow> nat \<Rightarrow> unit bufop" where
  "check_offset wr offset len buf =
     (if sshbuf_ptr buf = None then throw SSH_ERR_INTERNAL_ERROR buf
      else if offset \<ge> SIZE_MAX - len then throw SSH_ERR_INVALID_ARGUMENT buf
      else if offset + len > sshbuf_len buf
      then throw (if wr then SSH_ERR_NO_BUFFER_SPACE else SSH_ERR_MESSAGE_INCOMPLETE) buf
      else ret () buf)"

definition check_roffset :: "nat \<Rightarrow> nat \<Rightarrow> nat bufop" where
  "check_roffset offset len =
     andthen (check_offset False offset len) (\<lambda>_ buf. ret (sb_off buf + offset) buf)"

definition sshbuf_peek_u64 :: "nat \<Rightarrow> u64 bufop" where
  "sshbuf_peek_u64 offset =
     andthen (check_roffset offset 8) (\<lambda>p buf. ret (PEEK_U64 (mem_read p 8 (sb_mem buf))) buf)"

definition sshbuf_peek_u32 :: "nat \<Rightarrow> u32 bufop" where
  "sshbuf_peek_u32 offset =
     andthen (check_roffset offset 4) (\<lambda>p buf. ret (PEEK_U32 (mem_read p 4 (sb_mem buf))) buf)"

definition sshbuf_peek_u16 :: "nat \<Rightarrow> u16 bufop" where
  "sshbuf_peek_u16 offset =
     andthen (check_roffset offset 2) (\<lambda>p buf. ret (PEEK_U16 (mem_read p 2 (sb_mem buf))) buf)"

definition sshbuf_peek_u8 :: "nat \<Rightarrow> u8 bufop" where
  "sshbuf_peek_u8 offset =
     andthen (check_roffset offset 1) (\<lambda>p buf. ret (sb_mem buf ! p) buf)"

subsection \<open>Length-prefixed strings\<close>

text \<open>The result is the position of the string's first byte and its length.\<close>

definition sshbuf_peek_string_direct :: "(nat \<times> nat) bufop" where
  "sshbuf_peek_string_direct buf =
     (let p = sb_off buf in
      if sshbuf_len buf < 4 then throw SSH_ERR_MESSAGE_INCOMPLETE buf
      else
        let len = unat (PEEK_U32 (mem_read p 4 (sb_mem buf))) in
        if len > SSHBUF_SIZE_MAX - 4 then throw SSH_ERR_STRING_TOO_LARGE buf
        else if sshbuf_len buf - 4 < len then throw SSH_ERR_MESSAGE_INCOMPLETE buf
        else ret (p + 4, len) buf)"

definition sshbuf_get_string_direct :: "(nat \<times> nat) bufop" where
  "sshbuf_get_string_direct =
     andthen sshbuf_peek_string_direct (\<lambda>(p, len) buf.
       case sshbuf_consume (len + 4) buf of
         (Inl _, b) \<Rightarrow> throw SSH_ERR_INTERNAL_ERROR b
       | (Inr _, b) \<Rightarrow> ret (p, len) b)"

text \<open>
  \<^verbatim>\<open>sshbuf_get_string\<close>: \<open>valp\<close> says whether the caller passed a pointer for the copy. The copy
  has a zero byte behind the string.
\<close>

definition sshbuf_get_string :: "allocator \<Rightarrow> bool \<Rightarrow> (u8 list option \<times> nat) bufop" where
  "sshbuf_get_string A valp =
     andthen sshbuf_get_string_direct (\<lambda>(val, len) buf.
       if valp
       then (case malloc A (len + 1) of
               None \<Rightarrow> throw SSH_ERR_ALLOC_FAIL buf
             | Some _ \<Rightarrow> ret (Some (mem_read val len (sb_mem buf) @ [0]), len) buf)
       else ret (None, len) buf)"

text \<open>\<^verbatim>\<open>memchr(p, 0, n)\<close>: the index of the first zero byte.\<close>

fun memchr0 :: "u8 list \<Rightarrow> nat option" where
  "memchr0 [] = None"
| "memchr0 (b # bs) = (if b = 0 then Some 0 else map_option Suc (memchr0 bs))"

definition sshbuf_get_cstring :: "allocator \<Rightarrow> bool \<Rightarrow> (u8 list option \<times> nat) bufop" where
  "sshbuf_get_cstring A valp =
     andthen sshbuf_peek_string_direct (\<lambda>(p, len) buf.
       let s = mem_read p len (sb_mem buf) in
       if len > 0 \<and> (case memchr0 s of None \<Rightarrow> False | Some z \<Rightarrow> z < len - 1)
       then throw SSH_ERR_INVALID_FORMAT buf
       else
         (case sshbuf_get_string_direct buf of
            (Inl _, b) \<Rightarrow> throw SSH_ERR_INTERNAL_ERROR b
          | (Inr _, b) \<Rightarrow>
              if valp
              then (case malloc A (len + 1) of
                      None \<Rightarrow> throw SSH_ERR_ALLOC_FAIL b
                    | Some _ \<Rightarrow> ret (Some (s @ [0]), len) b)
              else ret (None, len) b))"

subsection \<open>Appending\<close>

definition sshbuf_put :: "allocator \<Rightarrow> u8 list \<Rightarrow> unit bufop" where
  "sshbuf_put A v =
     andthen (sshbuf_reserve A (length v)) (\<lambda>p buf. ret () (sshbuf_store p v buf))"

text \<open>
  The bytes a caller sees through \<^verbatim>\<open>sshbuf_ptr\<close> and \<^verbatim>\<open>sshbuf_len\<close> (none, on an insane buffer).
\<close>

definition sshbuf_seen :: "sshbuf \<Rightarrow> u8 list" where
  "sshbuf_seen v = mem_read (sb_off v) (sshbuf_len v) (sb_mem v)"

definition sshbuf_putb :: "allocator \<Rightarrow> sshbuf option \<Rightarrow> unit bufop" where
  "sshbuf_putb A v = (case v of None \<Rightarrow> ret () | Some vb \<Rightarrow> sshbuf_put A (sshbuf_seen vb))"

text \<open>
  \<^verbatim>\<open>sshbuf_putfv\<close>: \<open>out\<close> is the text \<^verbatim>\<open>vsnprintf\<close> produces for the format and its arguments, or
  \<open>None\<close> when it reports an error. The second call formats the same arguments again, so its length
  check cannot fail.
\<close>

definition sshbuf_putfv :: "allocator \<Rightarrow> u8 list option \<Rightarrow> unit bufop" where
  "sshbuf_putfv A out =
     (case out of
        None \<Rightarrow> throw SSH_ERR_INVALID_ARGUMENT
      | Some str \<Rightarrow>
          if str = [] then ret ()
          else andthen (sshbuf_reserve A (length str + 1)) (\<lambda>p buf.
                 sshbuf_consume_end 1 (sshbuf_store p (str @ [0]) buf)))"

definition sshbuf_put_u64 :: "allocator \<Rightarrow> u64 \<Rightarrow> unit bufop" where
  "sshbuf_put_u64 A val =
     andthen (sshbuf_reserve A 8) (\<lambda>p buf. ret () (sshbuf_store p (POKE_U64 val) buf))"

definition sshbuf_put_u32 :: "allocator \<Rightarrow> u32 \<Rightarrow> unit bufop" where
  "sshbuf_put_u32 A val =
     andthen (sshbuf_reserve A 4) (\<lambda>p buf. ret () (sshbuf_store p (POKE_U32 val) buf))"

definition sshbuf_put_u16 :: "allocator \<Rightarrow> u16 \<Rightarrow> unit bufop" where
  "sshbuf_put_u16 A val =
     andthen (sshbuf_reserve A 2) (\<lambda>p buf. ret () (sshbuf_store p (POKE_U16 val) buf))"

definition sshbuf_put_u8 :: "allocator \<Rightarrow> u8 \<Rightarrow> unit bufop" where
  "sshbuf_put_u8 A val =
     andthen (sshbuf_reserve A 1) (\<lambda>p buf. ret () (sshbuf_store p [val] buf))"

definition check_woffset :: "nat \<Rightarrow> nat \<Rightarrow> nat bufop" where
  "check_woffset offset len =
     andthen (check_offset True offset len) (\<lambda>_ buf.
       if sshbuf_mutable_ptr buf = None then throw SSH_ERR_BUFFER_READ_ONLY buf
       else ret (sb_off buf + offset) buf)"

definition sshbuf_poke_u64 :: "nat \<Rightarrow> u64 \<Rightarrow> unit bufop" where
  "sshbuf_poke_u64 offset val =
     andthen (check_woffset offset 8) (\<lambda>p buf. ret () (sshbuf_store p (POKE_U64 val) buf))"

definition sshbuf_poke_u32 :: "nat \<Rightarrow> u32 \<Rightarrow> unit bufop" where
  "sshbuf_poke_u32 offset val =
     andthen (check_woffset offset 4) (\<lambda>p buf. ret () (sshbuf_store p (POKE_U32 val) buf))"

definition sshbuf_poke_u16 :: "nat \<Rightarrow> u16 \<Rightarrow> unit bufop" where
  "sshbuf_poke_u16 offset val =
     andthen (check_woffset offset 2) (\<lambda>p buf. ret () (sshbuf_store p (POKE_U16 val) buf))"

definition sshbuf_poke_u8 :: "nat \<Rightarrow> u8 \<Rightarrow> unit bufop" where
  "sshbuf_poke_u8 offset val =
     andthen (check_woffset offset 1) (\<lambda>p buf. ret () (sshbuf_store p [val] buf))"

definition sshbuf_poke :: "nat \<Rightarrow> u8 list \<Rightarrow> unit bufop" where
  "sshbuf_poke offset v =
     andthen (check_woffset offset (length v)) (\<lambda>p buf. ret () (sshbuf_store p v buf))"

definition sshbuf_put_string :: "allocator \<Rightarrow> u8 list \<Rightarrow> unit bufop" where
  "sshbuf_put_string A v =
     (if length v > SSHBUF_SIZE_MAX - 4 then throw SSH_ERR_NO_BUFFER_SPACE
      else andthen (sshbuf_reserve A (length v + 4)) (\<lambda>d buf.
             ret () (sshbuf_store (d + 4) v
                       (sshbuf_store d (POKE_U32 (of_nat (length v))) buf))))"

text \<open>A C string argument is the list of its bytes before the terminating zero; \<open>None\<close> is \<^verbatim>\<open>NULL\<close>.\<close>

definition sshbuf_put_cstring :: "allocator \<Rightarrow> u8 list option \<Rightarrow> unit bufop" where
  "sshbuf_put_cstring A v = sshbuf_put_string A (case v of None \<Rightarrow> [] | Some s \<Rightarrow> s)"

definition sshbuf_put_stringb :: "allocator \<Rightarrow> sshbuf option \<Rightarrow> unit bufop" where
  "sshbuf_put_stringb A v =
     sshbuf_put_string A (case v of None \<Rightarrow> [] | Some vb \<Rightarrow> sshbuf_seen vb)"

text \<open>\<^verbatim>\<open>sshbuf_get_stringb\<close> moves a string from \<open>buf\<close> to the end of \<open>v\<close>; it updates both.\<close>

definition sshbuf_get_stringb ::
    "allocator \<Rightarrow> sshbuf \<times> sshbuf \<Rightarrow> (ssherr + unit) \<times> (sshbuf \<times> sshbuf)" where
  "sshbuf_get_stringb A bv =
     (let (buf, v) = bv in
      case sshbuf_peek_string_direct buf of
        (Inl r, b1) \<Rightarrow> (Inl r, (b1, v))
      | (Inr _, b1) \<Rightarrow>
          (case sshbuf_get_u32 b1 of
             (Inl r, b2) \<Rightarrow> (Inl r, (b2, v))
           | (Inr len, b2) \<Rightarrow>
               (case sshbuf_reserve A (unat len) v of
                  (Inl r, v1) \<Rightarrow> (Inl r, (b2, v1))
                | (Inr p, v1) \<Rightarrow>
                    (case sshbuf_get (unat len) b2 of
                       (Inl r, b3) \<Rightarrow> (Inl r, (b3, v1))
                     | (Inr bs, b3) \<Rightarrow> (Inr (), (b3, sshbuf_store p bs v1))))))"

subsection \<open>Multiple-precision integers\<close>

definition bignum_prepend :: "u8 list \<Rightarrow> u8 list" where
  "bignum_prepend s = (if s \<noteq> [] \<and> s ! 0 AND 0x80 \<noteq> 0 then [0] else [])"

definition sshbuf_put_bignum2_bytes :: "allocator \<Rightarrow> u8 list \<Rightarrow> unit bufop" where
  "sshbuf_put_bignum2_bytes A v =
     (if length v > SSHBUF_SIZE_MAX - 5 then throw SSH_ERR_NO_BUFFER_SPACE
      else
        let s = dropWhile (\<lambda>b. b = 0) v; prepend = bignum_prepend s in
        andthen (sshbuf_reserve A (length s + 4 + length prepend)) (\<lambda>d buf.
          ret () (sshbuf_store d (POKE_U32 (of_nat (length s + length prepend)) @ prepend @ s) buf)))"

definition sshbuf_get_bignum2_bytes_direct :: "u8 list bufop" where
  "sshbuf_get_bignum2_bytes_direct =
     andthen sshbuf_peek_string_direct (\<lambda>(p, olen) buf.
       let d = mem_read p olen (sb_mem buf) in
       if olen \<noteq> 0 \<and> d ! 0 AND 0x80 \<noteq> 0 then throw SSH_ERR_BIGNUM_IS_NEGATIVE buf
       else if olen > SSHBUF_MAX_BIGNUM + 1 \<or> (olen = SSHBUF_MAX_BIGNUM + 1 \<and> d ! 0 \<noteq> 0)
       then throw SSH_ERR_BIGNUM_TOO_LARGE buf
       else (case sshbuf_consume (olen + 4) buf of
               (Inl _, b) \<Rightarrow> throw SSH_ERR_INTERNAL_ERROR b
             | (Inr _, b) \<Rightarrow> ret (dropWhile (\<lambda>b. b = 0) d) b))"

subsection \<open>Appending bytes\<close>

lemma sshbuf_put_result:
  assumes "sshbuf_ok b"
  obtains (failure) e b' where "sshbuf_put A bs b = (Inl e, b')" "sshbuf_ok b'" "same_view b b'"
      "e = (if \<not> sshbuf_writable b then SSH_ERR_BUFFER_READ_ONLY
            else if sshbuf_len b + length bs > sb_max_size b then SSH_ERR_NO_BUFFER_SPACE
            else SSH_ERR_ALLOC_FAIL)"
  | (success) b' where "sshbuf_put A bs b = (Inr (), b')" "sshbuf_ok b'" "same_owner b b'"
      "sshbuf_bytes b' = sshbuf_bytes b @ bs" "sshbuf_writable b"
      "sshbuf_len b + length bs \<le> sb_max_size b"
proof (rule sshbuf_reserve_result [OF assms, of A "length bs"])
  fix e b' assume "sshbuf_reserve A (length bs) b = (Inl e, b')" "sshbuf_ok b'" "same_view b b'"
    "e = (if \<not> sshbuf_writable b then SSH_ERR_BUFFER_READ_ONLY
            else if sshbuf_len b + length bs > sb_max_size b then SSH_ERR_NO_BUFFER_SPACE
            else SSH_ERR_ALLOC_FAIL)"
  then show thesis using failure [of e b'] by (simp add: sshbuf_put_def andthen_def)
next
  fix dp b1 assume r: "sshbuf_reserve A (length bs) b = (Inr dp, b1)" "sshbuf_writable b"
    "sshbuf_len b + length bs \<le> sb_max_size b"
  note st = sshbuf_reserve_store [OF assms r(1)]
  show thesis
    using success [of "sshbuf_store dp bs b1"] r st by (simp add: sshbuf_put_def andthen_def ret_def)
qed

lemma sshbuf_put_Inr:
  "sshbuf_ok b \<Longrightarrow> sshbuf_put A bs b = (Inr (), b') \<Longrightarrow>
   sshbuf_ok b' \<and> sshbuf_bytes b' = sshbuf_bytes b @ bs \<and> same_owner b b'"
  by (rule sshbuf_put_result [of b A bs]) auto

lemma sshbuf_put_Inl:
  "sshbuf_ok b \<Longrightarrow> sshbuf_put A bs b = (Inl e, b') \<Longrightarrow>
   sshbuf_ok b' \<and> sshbuf_bytes b' = sshbuf_bytes b \<and> same_owner b b'"
  by (rule sshbuf_put_result [of b A bs]) (auto simp: same_view_def same_owner_def)

text \<open>The integer writers are \<^verbatim>\<open>sshbuf_put\<close> of the encoded bytes, and so is \<^verbatim>\<open>sshbuf_put_string\<close>.\<close>

lemma sshbuf_put_int:
  "sshbuf_put_u64 A v = sshbuf_put A (POKE_U64 v)"
  "sshbuf_put_u32 A w = sshbuf_put A (POKE_U32 w)"
  "sshbuf_put_u16 A x = sshbuf_put A (POKE_U16 x)"
  "sshbuf_put_u8 A y = sshbuf_put A [y]"
  by (simp_all add: sshbuf_put_u64_def sshbuf_put_u32_def sshbuf_put_u16_def sshbuf_put_u8_def sshbuf_put_def)

lemma mem_write_twice:
  "k + length xs + length ys \<le> length m \<Longrightarrow>
   mem_write (k + length xs) ys (mem_write k xs m) = mem_write k (xs @ ys) m"
  by (simp add: mem_write_def ac_simps)

lemma sshbuf_put_string_eq:
  assumes "sshbuf_ok b" and "length v \<le> SSHBUF_SIZE_MAX - 4"
  shows "sshbuf_put_string A v b = sshbuf_put A (POKE_U32 (of_nat (length v)) @ v) b"
proof (rule sshbuf_reserve_result [OF assms(1), of A "length v + 4"])
  fix dp b' assume r: "sshbuf_reserve A (length v + 4) b = (Inr dp, b')" "sshbuf_ok b'"
    "sb_size b' = dp + (length v + 4)"
  have "dp + 4 + length v \<le> length (sb_mem b')" using r sshbuf_okD [OF r(2)] by simp
  then show ?thesis
    using assms(2) r(1) mem_write_twice [of dp "POKE_U32 (of_nat (length v))" v "sb_mem b'"]
    by (simp add: sshbuf_put_string_def sshbuf_put_def andthen_def ret_def sshbuf_store_def
        add.commute [of 4 "length v"])
qed (use assms(2) in \<open>simp add: sshbuf_put_string_def sshbuf_put_def andthen_def
        add.commute [of 4 "length v"]\<close>)

lemma sshbuf_put_string_long:
  "length v > SSHBUF_SIZE_MAX - 4 \<Longrightarrow> sshbuf_put_string A v b = (Inl SSH_ERR_NO_BUFFER_SPACE, b)"
  by (simp add: sshbuf_put_string_def throw_def)

subsection \<open>Reading bytes\<close>

lemma sshbuf_get_ok:
  assumes "sshbuf_ok b" and "n \<le> sshbuf_len b"
  obtains b' where "sshbuf_get n b = (Inr (take n (sshbuf_bytes b)), b')" "sshbuf_ok b'"
    "sshbuf_bytes b' = drop n (sshbuf_bytes b)" "same_owner b b'" "sb_mem b' = sb_mem b"
proof (rule sshbuf_consume_Inr [OF assms])
  fix b' assume c: "sshbuf_consume n b = (Inr (), b')" "sshbuf_ok b'" "same_owner b b'"
    "sshbuf_bytes b' = drop n (sshbuf_bytes b)" "sb_mem b' = sb_mem b"
  have "mem_read (sb_off b) n (sb_mem b) = take n (sshbuf_bytes b)"
    using assms by (simp add: sshbuf_bytes_def mem_read_take sshbuf_len_ok)
  then show thesis
    using that [of b'] c by (simp add: sshbuf_get_def andthen_def ret_def)
qed

lemma sshbuf_get_short:
  "sshbuf_ok b \<Longrightarrow> sshbuf_len b < n \<Longrightarrow> sshbuf_get n b = (Inl SSH_ERR_MESSAGE_INCOMPLETE, b)"
  by (simp add: sshbuf_get_def andthen_def sshbuf_consume_Inl)

lemma sshbuf_get_int:
  "sshbuf_get_u64 = andthen (sshbuf_get 8) (\<lambda>bs. ret (PEEK_U64 bs))"
  "sshbuf_get_u32 = andthen (sshbuf_get 4) (\<lambda>bs. ret (PEEK_U32 bs))"
  "sshbuf_get_u16 = andthen (sshbuf_get 2) (\<lambda>bs. ret (PEEK_U16 bs))"
  by (rule ext, simp add: sshbuf_get_u64_def sshbuf_get_u32_def sshbuf_get_u16_def sshbuf_get_def
      run_simps split: prod.split sum.split)+

lemma sshbuf_get_u8_eq:
  assumes "sshbuf_ok b"
  shows "sshbuf_get_u8 b = andthen (sshbuf_get 1) (\<lambda>bs. ret (bs ! 0)) b"
proof (cases "1 \<le> sshbuf_len b")
  case True
  then have "sb_off b < length (sb_mem b)" using assms sshbuf_okD [OF assms] by (simp add: sshbuf_len_ok)
  then show ?thesis
    by (rule_tac sshbuf_consume_Inr [OF assms True])
       (simp add: sshbuf_get_u8_def sshbuf_get_def andthen_def ret_def mem_read_def)
next
  case False
  then show ?thesis
    using assms by (simp add: sshbuf_get_u8_def sshbuf_get_def andthen_def sshbuf_consume_Inl)
qed

text \<open>The buffer is a byte queue.\<close>

interpretation sb: byte_buffer sshbuf_ok sshbuf_bytes "sshbuf_put A" sshbuf_get
proof
  fix b n assume "sshbuf_ok b" "n \<le> length (sshbuf_bytes b)"
  then show "\<exists>t. sshbuf_get n b = (Inr (take n (sshbuf_bytes b)), t) \<and> sshbuf_ok t \<and>
      sshbuf_bytes t = drop n (sshbuf_bytes b)"
    by (metis length_sshbuf_bytes sshbuf_get_ok)
next
  fix b bs t assume "sshbuf_ok b" "sshbuf_put A bs b = (Inr (), t)"
  then show "sshbuf_ok t \<and> sshbuf_bytes t = sshbuf_bytes b @ bs" using sshbuf_put_Inr by blast
next
  fix b bs e t assume "sshbuf_ok b" "sshbuf_put A bs b = (Inl e, t)"
  then show "sshbuf_ok t \<and> sshbuf_bytes t = sshbuf_bytes b" using sshbuf_put_Inl by blast
qed (simp add: sshbuf_get_short)

lemma sshbuf_get_append:
  assumes "sshbuf_ok b" and "sshbuf_bytes b = bs @ rest"
  shows "\<exists>b'. sshbuf_get (length bs) b = (Inr bs, b') \<and> sshbuf_ok b' \<and> sshbuf_bytes b' = rest"
  using sb.get_Inr [OF assms(1), of "length bs"] assms(2) by auto

subsection \<open>Strings\<close>

text \<open>
  \<^verbatim>\<open>sshbuf_peek_string_direct\<close> on a well-formed buffer, in terms of the contents only. The position
  it returns is inside the contents together with all of the string's bytes.
\<close>

lemma sshbuf_peek_string_result:
  assumes "sshbuf_ok b"
  shows "sshbuf_peek_string_direct b =
    (let bs = sshbuf_bytes b; n = unat (PEEK_U32 bs) in
     if length bs < 4 then (Inl SSH_ERR_MESSAGE_INCOMPLETE, b)
     else if n > SSHBUF_SIZE_MAX - 4 then (Inl SSH_ERR_STRING_TOO_LARGE, b)
     else if length bs - 4 < n then (Inl SSH_ERR_MESSAGE_INCOMPLETE, b)
     else (Inr (sb_off b + 4, n), b))"
proof -
  have "PEEK_U32 (mem_read (sb_off b) 4 (sb_mem b)) = PEEK_U32 (sshbuf_bytes b)" if "4 \<le> sshbuf_len b"
  proof -
    have "mem_read (sb_off b) 4 (sb_mem b) = take 4 (sshbuf_bytes b)"
      using that assms by (simp add: sshbuf_bytes_def mem_read_take sshbuf_len_ok)
    then show ?thesis using that assms by simp
  qed
  then show ?thesis
    using assms by (auto simp: sshbuf_peek_string_direct_def Let_def ret_def throw_def)
qed

lemma sshbuf_mem_in_bytes:
  "sshbuf_ok b \<Longrightarrow> i + n \<le> sshbuf_len b \<Longrightarrow>
   mem_read (sb_off b + i) n (sb_mem b) = take n (drop i (sshbuf_bytes b))"
  by (simp add: sshbuf_bytes_def mem_read_drop mem_read_take sshbuf_len_ok)

text \<open>The string \<^verbatim>\<open>sshbuf_get_string_direct\<close> refers to, as its caller reads it.\<close>

definition get_string_bytes :: "u8 list bufop" where
  "get_string_bytes =
     andthen sshbuf_get_string_direct (\<lambda>(p, len) b. ret (mem_read p len (sb_mem b)) b)"

definition string_enc :: "u8 list \<Rightarrow> u8 list" where
  "string_enc v = POKE_U32 (of_nat (length v)) @ v"

definition string_valid :: "u8 list \<Rightarrow> bool" where
  "string_valid v \<longleftrightarrow> length v \<le> SSHBUF_SIZE_MAX - 4"

lemma unat_length_valid: "n \<le> SSHBUF_SIZE_MAX \<Longrightarrow> unat (of_nat n :: u32) = n"
  by (simp add: unat_of_nat sshbuf_consts)

lemma sshbuf_peek_string_enc:
  assumes "sshbuf_ok b" and "string_valid v" and "sshbuf_bytes b = string_enc v @ rest"
  shows "sshbuf_peek_string_direct b = (Inr (sb_off b + 4, length v), b)"
    and "mem_read (sb_off b + 4) (length v) (sb_mem b) = v"
    and "length v + 4 \<le> sshbuf_len b"
proof -
  have len: "sshbuf_len b = 4 + length v + length rest"
    using assms(1,3) length_sshbuf_bytes [of b] by (simp add: string_enc_def)
  have n: "unat (PEEK_U32 (sshbuf_bytes b)) = length v"
    using assms(2,3) by (simp add: string_enc_def string_valid_def unat_length_valid)
  show "sshbuf_peek_string_direct b = (Inr (sb_off b + 4, length v), b)"
    using sshbuf_peek_string_result [OF assms(1)] n len assms(1,2) by (simp add: string_valid_def Let_def)
  show "mem_read (sb_off b + 4) (length v) (sb_mem b) = v"
    using sshbuf_mem_in_bytes [OF assms(1), of 4 "length v"] len assms(3) by (simp add: string_enc_def)
  show "length v + 4 \<le> sshbuf_len b" using len by simp
qed

lemma sshbuf_get_string_direct_ok:
  assumes "sshbuf_ok b" and "sshbuf_peek_string_direct b = (Inr (p, n), b)"
  obtains b' where "sshbuf_get_string_direct b = (Inr (p, n), b')" "sshbuf_ok b'" "same_owner b b'"
    "sshbuf_bytes b' = drop (n + 4) (sshbuf_bytes b)" "sb_mem b' = sb_mem b"
proof -
  have "n + 4 \<le> sshbuf_len b"
    using sshbuf_peek_string_result [OF assms(1)] assms by (auto simp: Let_def split: if_splits)
  then obtain b' where c: "sshbuf_consume (n + 4) b = (Inr (), b')" "sshbuf_ok b'" "same_owner b b'"
    "sshbuf_bytes b' = drop (n + 4) (sshbuf_bytes b)" "sb_mem b' = sb_mem b"
    using sshbuf_consume_Inr [OF assms(1)] by metis
  then have "sshbuf_get_string_direct b = (Inr (p, n), b')"
    by (simp add: sshbuf_get_string_direct_def andthen_def ret_def assms(2))
  then show thesis using c by (intro that)
qed

lemma get_string_bytes_enc:
  assumes "sshbuf_ok b" and "string_valid v" and "sshbuf_bytes b = string_enc v @ rest"
  shows "\<exists>b'. get_string_bytes b = (Inr v, b') \<and> sshbuf_ok b' \<and> sshbuf_bytes b' = rest"
proof -
  note pk = sshbuf_peek_string_enc [OF assms]
  obtain b' where "sshbuf_get_string_direct b = (Inr (sb_off b + 4, length v), b')" "sshbuf_ok b'"
      "sshbuf_bytes b' = drop (length v + 4) (sshbuf_bytes b)" "sb_mem b' = sb_mem b"
    using sshbuf_get_string_direct_ok [OF assms(1) pk(1)] by metis
  then show ?thesis
    using pk(2) assms(3) by (simp add: get_string_bytes_def andthen_def ret_def string_enc_def)
qed

subsection \<open>Codecs\<close>

lemma get_int_codec:
  assumes "sshbuf_ok b" and "sshbuf_bytes b = bs @ rest" and "rd bs = v"
  shows "\<exists>b'. andthen (sshbuf_get (length bs)) (\<lambda>x. ret (rd x)) b = (Inr v, b') \<and>
    sshbuf_ok b' \<and> sshbuf_bytes b' = rest"
  using sshbuf_get_append [OF assms(1,2)] assms(3) by (auto simp: andthen_def ret_def)

lemma get_int_enc:
  assumes "sshbuf_ok b"
  shows "sshbuf_bytes b = POKE_U64 v @ rest \<Longrightarrow>
      \<exists>t. sshbuf_get_u64 b = (Inr v, t) \<and> sshbuf_ok t \<and> sshbuf_bytes t = rest"
    and "sshbuf_bytes b = POKE_U32 w @ rest \<Longrightarrow>
      \<exists>t. sshbuf_get_u32 b = (Inr w, t) \<and> sshbuf_ok t \<and> sshbuf_bytes t = rest"
    and "sshbuf_bytes b = POKE_U16 x @ rest \<Longrightarrow>
      \<exists>t. sshbuf_get_u16 b = (Inr x, t) \<and> sshbuf_ok t \<and> sshbuf_bytes t = rest"
    and "sshbuf_bytes b = [y] @ rest \<Longrightarrow>
      \<exists>t. sshbuf_get_u8 b = (Inr y, t) \<and> sshbuf_ok t \<and> sshbuf_bytes t = rest"
  using get_int_codec [OF assms, of "POKE_U64 v" rest PEEK_U64]
    get_int_codec [OF assms, of "POKE_U32 w" rest PEEK_U32]
    get_int_codec [OF assms, of "POKE_U16 x" rest PEEK_U16]
    get_int_codec [OF assms, of "[y]" rest "\<lambda>bs. bs ! 0"]
  by (simp_all add: sshbuf_get_int sshbuf_get_u8_eq [OF assms])

interpretation u64_codec: buffer_codec sshbuf_ok sshbuf_bytes POKE_U64 "\<lambda>_. True"
  "sshbuf_put_u64 A" sshbuf_get_u64
  by unfold_locales (simp add: sshbuf_put_int sb.put_Inr, rule get_int_enc)

interpretation u32_codec: buffer_codec sshbuf_ok sshbuf_bytes POKE_U32 "\<lambda>_. True"
  "sshbuf_put_u32 A" sshbuf_get_u32
  by unfold_locales (simp add: sshbuf_put_int sb.put_Inr, rule get_int_enc)

interpretation u16_codec: buffer_codec sshbuf_ok sshbuf_bytes POKE_U16 "\<lambda>_. True"
  "sshbuf_put_u16 A" sshbuf_get_u16
  by unfold_locales (simp add: sshbuf_put_int sb.put_Inr, rule get_int_enc)

interpretation u8_codec: buffer_codec sshbuf_ok sshbuf_bytes "\<lambda>v. [v]" "\<lambda>_. True"
  "sshbuf_put_u8 A" sshbuf_get_u8
  by unfold_locales (simp add: sshbuf_put_int sb.put_Inr, rule get_int_enc)

interpretation string_codec: buffer_codec sshbuf_ok sshbuf_bytes string_enc string_valid
  "sshbuf_put_string A" get_string_bytes
proof
  fix b v t assume ok: "sshbuf_ok b" and put: "sshbuf_put_string A v b = (Inr (), t)"
  then have "length v \<le> SSHBUF_SIZE_MAX - 4"
    using sshbuf_put_string_long [of v A b] by (cases "length v \<le> SSHBUF_SIZE_MAX - 4") auto
  with ok put show "sshbuf_ok t \<and> sshbuf_bytes t = sshbuf_bytes b @ string_enc v"
    using sb.put_Inr by (simp add: sshbuf_put_string_eq string_enc_def)
qed (rule get_string_bytes_enc)

text \<open>Multiple-precision integers: the canonical form has no leading zero byte.\<close>

definition bignum_enc :: "u8 list \<Rightarrow> u8 list" where
  "bignum_enc v = (let s = dropWhile (\<lambda>b. b = 0) v in string_enc (bignum_prepend s @ s))"

definition bignum_valid :: "u8 list \<Rightarrow> bool" where
  "bignum_valid v \<longleftrightarrow> length v \<le> SSHBUF_MAX_BIGNUM \<and> dropWhile (\<lambda>b. b = 0) v = v"

lemma length_bignum_prepend: "length (bignum_prepend s) \<le> 1"
  by (simp add: bignum_prepend_def)

lemma sshbuf_put_bignum2_eq:
  "sshbuf_put_bignum2_bytes A v =
    (if length v > SSHBUF_SIZE_MAX - 5 then throw SSH_ERR_NO_BUFFER_SPACE
     else sshbuf_put A (bignum_enc v))"
  by (simp add: sshbuf_put_bignum2_bytes_def sshbuf_put_def bignum_enc_def string_enc_def Let_def ac_simps)

lemma bignum_first_byte:
  "bignum_prepend s @ s \<noteq> [] \<Longrightarrow> (bignum_prepend s @ s) ! 0 AND 0x80 = 0"
  by (auto simp: bignum_prepend_def)

lemma dropWhile_prepend:
  "dropWhile (\<lambda>b. b = 0) s = s \<Longrightarrow> dropWhile (\<lambda>b. b = 0) (bignum_prepend s @ s) = s"
  by (auto simp: bignum_prepend_def)

lemma get_bignum2_enc:
  assumes "sshbuf_ok b" and "bignum_valid v" and "sshbuf_bytes b = bignum_enc v @ rest"
  shows "\<exists>b'. sshbuf_get_bignum2_bytes_direct b = (Inr v, b') \<and> sshbuf_ok b' \<and> sshbuf_bytes b' = rest"
proof -
  define d where "d = bignum_prepend v @ v"
  have v: "dropWhile (\<lambda>b. b = 0) v = v" "length v \<le> SSHBUF_MAX_BIGNUM"
    using assms(2) by (simp_all add: bignum_valid_def)
  have len: "length d \<le> SSHBUF_MAX_BIGNUM + 1"
    and lead: "length d = SSHBUF_MAX_BIGNUM + 1 \<Longrightarrow> d ! 0 = 0"
    using v(2) by (auto simp: d_def bignum_prepend_def)
  have enc: "sshbuf_bytes b = string_enc d @ rest"
    using assms(3) v(1) by (simp add: bignum_enc_def d_def)
  have "string_valid d" using len by (simp add: string_valid_def sshbuf_consts)
  note pk = sshbuf_peek_string_enc [OF assms(1) this enc]
  obtain b' where c: "sshbuf_consume (length d + 4) b = (Inr (), b')" "sshbuf_ok b'"
    "sshbuf_bytes b' = drop (length d + 4) (sshbuf_bytes b)"
    using sshbuf_consume_Inr [OF assms(1) pk(3)] by metis
  have "sshbuf_get_bignum2_bytes_direct b = (Inr (dropWhile (\<lambda>b. b = 0) d), b')"
    using pk(1,2) c(1) len lead bignum_first_byte [of v]
    by (auto simp: sshbuf_get_bignum2_bytes_direct_def andthen_def Let_def ret_def d_def [symmetric])
  then show ?thesis
    using c(2,3) enc dropWhile_prepend [OF v(1)] by (simp add: d_def string_enc_def)
qed

interpretation bignum_codec: buffer_codec sshbuf_ok sshbuf_bytes bignum_enc bignum_valid
  "sshbuf_put_bignum2_bytes A" sshbuf_get_bignum2_bytes_direct
proof
  fix b v t assume "sshbuf_ok b" "sshbuf_put_bignum2_bytes A v b = (Inr (), t)"
  then show "sshbuf_ok t \<and> sshbuf_bytes t = sshbuf_bytes b @ bignum_enc v"
    using sb.put_Inr by (auto simp: sshbuf_put_bignum2_eq throw_def split: if_splits)
qed (rule get_bignum2_enc)

subsection \<open>C strings\<close>

lemma memchr0_Some: "memchr0 s = Some z \<Longrightarrow> z < length s \<and> s ! z = 0 \<and> (\<forall>i<z. s ! i \<noteq> 0)"
proof (induction s arbitrary: z)
  case (Cons a s)
  then show ?case by (auto split: if_splits simp: less_Suc_eq_0_disj)
qed simp

lemma memchr0_None: "memchr0 s = None \<longleftrightarrow> 0 \<notin> set s"
  by (induction s) auto

lemma memchr0_interior:
  "(case memchr0 s of None \<Rightarrow> False | Some z \<Rightarrow> z < length s - 1) \<longleftrightarrow> 0 \<in> set (butlast s)"
proof (induction s)
  case (Cons a s)
  then show ?case by (cases s) (auto split: option.splits simp: memchr0_None dest: in_set_butlastD)
qed simp

lemma sshbuf_get_cstring_result:
  assumes "sshbuf_ok b"
  shows "sshbuf_get_cstring A valp b =
    (case sshbuf_peek_string_direct b of
       (Inl e, _) \<Rightarrow> (Inl e, b)
     | (Inr (p, len), _) \<Rightarrow>
         let s = take len (drop 4 (sshbuf_bytes b)) in
         if 0 \<in> set (butlast s) then (Inl SSH_ERR_INVALID_FORMAT, b)
         else let b' = snd (sshbuf_get_string_direct b) in
              if \<not> valp then (Inr (None, len), b')
              else if malloc A (len + 1) = None then (Inl SSH_ERR_ALLOC_FAIL, b')
              else (Inr (Some (s @ [0]), len), b'))"
proof (cases "sshbuf_peek_string_direct b")
  case (Pair r b1)
  show ?thesis
  proof (cases r)
    case (Inl e)
    then show ?thesis
      using Pair sshbuf_peek_string_result [OF assms]
      by (auto simp: sshbuf_get_cstring_def andthen_def Let_def split: if_splits)
  next
    case (Inr pl)
    then obtain p len where pl: "sshbuf_peek_string_direct b = (Inr (p, len), b)"
        "p = sb_off b + 4" "len + 4 \<le> sshbuf_len b"
      using Pair sshbuf_peek_string_result [OF assms] assms by (auto simp: Let_def split: if_splits)
    obtain b' where b': "sshbuf_get_string_direct b = (Inr (p, len), b')"
      using sshbuf_get_string_direct_ok [OF assms pl(1)] by metis
    define s where "s = take len (drop 4 (sshbuf_bytes b))"
    have s: "mem_read p len (sb_mem b) = s"
      using sshbuf_mem_in_bytes [OF assms, of 4 len] pl(2,3) by (simp add: s_def)
    have "length s = len" using pl(3) assms by (simp add: s_def)
    then have guard: "(len > 0 \<and> (case memchr0 s of None \<Rightarrow> False | Some z \<Rightarrow> z < len - 1)) =
        (0 \<in> set (butlast s))"
      using memchr0_interior [of s] by (auto split: option.splits)
    show ?thesis
      unfolding sshbuf_get_cstring_def andthen_def pl(1) prod.case sum.case s_def [symmetric] Let_def s
        guard b'
      by (auto simp: ret_def throw_def split: option.splits)
  qed
qed

subsection \<open>Random access\<close>

lemma sshbuf_ptr_ok: "sshbuf_ok b \<Longrightarrow> sshbuf_ptr b \<noteq> None"
  using sshbuf_okD(9) [of b] by (auto simp: sshbuf_ptr_def sshbuf_ok_def)

lemma sshbuf_mutable_ptr_ok: "sshbuf_ok b \<Longrightarrow> sshbuf_mutable_ptr b = None \<longleftrightarrow> \<not> sshbuf_writable b"
  using sshbuf_okD [of b] by (auto simp: sshbuf_mutable_ptr_def sshbuf_writable_def)

text \<open>
  On a well-formed buffer the overflow guard of \<^verbatim>\<open>check_offset\<close> only rejects offsets that are out of
  range anyway, so the check is exactly "the bytes are there".
\<close>

lemma check_offset_ok:
  assumes "sshbuf_ok b"
  shows "check_offset wr offset len b =
    (if offset + len \<le> sshbuf_len b then (Inr (), b)
     else if offset \<ge> SIZE_MAX - len then (Inl SSH_ERR_INVALID_ARGUMENT, b)
     else (Inl (if wr then SSH_ERR_NO_BUFFER_SPACE else SSH_ERR_MESSAGE_INCOMPLETE), b))"
proof -
  have "sshbuf_len b < SIZE_MAX"
    using sshbuf_len_le_max [OF assms] by (simp add: SIZE_MAX_def sshbuf_consts)
  then show ?thesis
    using sshbuf_ptr_ok [OF assms] by (auto simp: check_offset_def run_simps)
qed

lemma check_woffset_ok:
  assumes "sshbuf_ok b"
  shows "check_woffset offset len b =
    (if offset + len \<le> sshbuf_len b
     then if sshbuf_writable b then (Inr (sb_off b + offset), b) else (Inl SSH_ERR_BUFFER_READ_ONLY, b)
     else if offset \<ge> SIZE_MAX - len then (Inl SSH_ERR_INVALID_ARGUMENT, b)
     else (Inl SSH_ERR_NO_BUFFER_SPACE, b))"
  using assms by (simp add: check_woffset_def andthen_def check_offset_ok sshbuf_mutable_ptr_ok run_simps)

lemma sshbuf_poke_int:
  "sshbuf_poke_u64 k v = sshbuf_poke k (POKE_U64 v)"
  "sshbuf_poke_u32 k w = sshbuf_poke k (POKE_U32 w)"
  "sshbuf_poke_u16 k x = sshbuf_poke k (POKE_U16 x)"
  "sshbuf_poke_u8 k y = sshbuf_poke k [y]"
  by (simp_all add: sshbuf_poke_u64_def sshbuf_poke_u32_def sshbuf_poke_u16_def sshbuf_poke_u8_def
      sshbuf_poke_def)

lemma sshbuf_poke_ok:
  assumes "sshbuf_ok b" and "k + length v \<le> sshbuf_len b" and "sshbuf_writable b"
  obtains b' where "sshbuf_poke k v b = (Inr (), b')" "sshbuf_ok b'" "same_owner b b'"
    "sshbuf_bytes b' = mem_write k v (sshbuf_bytes b)"
proof -
  define b' where "b' = sshbuf_store (sb_off b + k) v b"
  note ok = sshbuf_okD [OF assms(1)]
  have le: "sb_off b + k + length v \<le> sb_size b" using assms(2) ok(3) by (simp add: sshbuf_len_ok [OF assms(1)])
  have "sshbuf_poke k v b = (Inr (), b')"
    using assms by (simp add: sshbuf_poke_def andthen_def check_woffset_ok ret_def b'_def)
  moreover have "sshbuf_ok b'"
    using le ok(4) by (auto simp: b'_def intro!: sshbuf_store_ok assms(1))
  moreover have "sshbuf_bytes b' = mem_write k v (sshbuf_bytes b)"
    using le ok mem_read_write_around [of "sb_off b" "sb_off b + k" v "sb_size b - sb_off b" "sb_mem b"]
    by (simp add: b'_def sshbuf_bytes_def sshbuf_store_def)
  ultimately show thesis by (intro that) (simp_all add: b'_def)
qed

lemma sshbuf_peek_ok:
  assumes "sshbuf_ok b"
  shows "k + 8 \<le> sshbuf_len b \<Longrightarrow> sshbuf_peek_u64 k b = (Inr (PEEK_U64 (drop k (sshbuf_bytes b))), b)"
    and "k + 4 \<le> sshbuf_len b \<Longrightarrow> sshbuf_peek_u32 k b = (Inr (PEEK_U32 (drop k (sshbuf_bytes b))), b)"
    and "k + 2 \<le> sshbuf_len b \<Longrightarrow> sshbuf_peek_u16 k b = (Inr (PEEK_U16 (drop k (sshbuf_bytes b))), b)"
    and "k + 1 \<le> sshbuf_len b \<Longrightarrow> sshbuf_peek_u8 k b = (Inr (sshbuf_bytes b ! k), b)"
  using assms sshbuf_mem_in_bytes [OF assms, of k] sshbuf_okD [OF assms]
  by (auto simp: sshbuf_peek_u64_def sshbuf_peek_u32_def sshbuf_peek_u16_def sshbuf_peek_u8_def
      check_roffset_def andthen_def check_offset_ok ret_def sshbuf_bytes_def mem_read_def sshbuf_len_ok)

subsection \<open>What every operation keeps\<close>

text \<open>
  \<open>buf_frame b b'\<close>: the new buffer is well formed, its reference count, flag and parent are those of
  the old one, and if the old one was read-only or shared then its storage is untouched: the bytes, the
  pointer and the allocation size that child buffers refer to have not changed.
\<close>

definition buf_frame :: "sshbuf \<Rightarrow> sshbuf \<Rightarrow> bool" where
  "buf_frame b b' \<longleftrightarrow>
     sshbuf_ok b' \<and> sb_refcount b' = sb_refcount b \<and> sb_readonly b' = sb_readonly b \<and>
     sb_parent b' = sb_parent b \<and>
     (\<not> sshbuf_writable b \<longrightarrow>
        sb_mem b' = sb_mem b \<and> sb_cd b' = sb_cd b \<and> sb_alloc b' = sb_alloc b)"

definition bufop_safe :: "'a bufop \<Rightarrow> bool" where
  "bufop_safe m \<longleftrightarrow> (\<forall>b. sshbuf_ok b \<longrightarrow> buf_frame b (snd (m b)))"

lemma buf_frame_refl: "sshbuf_ok b \<Longrightarrow> buf_frame b b"
  by (simp add: buf_frame_def)

lemma buf_frame_trans: "buf_frame a b \<Longrightarrow> buf_frame b c \<Longrightarrow> buf_frame a c"
  by (auto simp: buf_frame_def sshbuf_writable_def)

lemma buf_frame_owner:
  "sshbuf_ok b' \<Longrightarrow> same_owner b b' \<Longrightarrow> sshbuf_writable b \<Longrightarrow> buf_frame b b'"
  by (simp add: buf_frame_def same_owner_def)

lemma bufop_safeD: "bufop_safe m \<Longrightarrow> sshbuf_ok b \<Longrightarrow> m b = (r, b') \<Longrightarrow> buf_frame b b'"
  by (auto simp: bufop_safe_def)

lemma bufop_safe_const [simp, intro]: "bufop_safe (ret x)" "bufop_safe (throw e)"
  by (simp_all add: bufop_safe_def ret_def throw_def buf_frame_refl)

lemma bufop_safe_andthen:
  assumes "bufop_safe m" and "\<And>x. bufop_safe (k x)"
  shows "bufop_safe (andthen m k)"
  unfolding bufop_safe_def
proof (intro allI impI)
  fix b assume "sshbuf_ok b"
  obtain r b' where m: "m b = (r, b')" by fastforce
  with assms(1) \<open>sshbuf_ok b\<close> have f: "buf_frame b b'" by (auto dest: bufop_safeD)
  then have "sshbuf_ok b'" by (simp add: buf_frame_def)
  with assms(2) have "buf_frame b' (snd (k x b'))" for x by (simp add: bufop_safe_def)
  with f buf_frame_trans show "buf_frame b (snd (andthen m k b))"
    by (cases r) (auto simp: andthen_def m)
qed

lemma bufop_safe_sanity: "bufop_safe sshbuf_check_sanity"
  by (simp add: bufop_safe_def buf_frame_refl)

lemma bufop_safe_consume: "bufop_safe (sshbuf_consume n)"
  unfolding bufop_safe_def
proof (intro allI impI)
  fix b assume ok: "sshbuf_ok b"
  show "buf_frame b (snd (sshbuf_consume n b))"
  proof (cases "n \<le> sshbuf_len b")
    case True
    show ?thesis
      by (rule sshbuf_consume_Inr [OF ok True]) (simp add: buf_frame_def same_owner_def)
  qed (use ok in \<open>simp add: sshbuf_consume_Inl buf_frame_refl\<close>)
qed

lemma bufop_safe_consume_end: "bufop_safe (sshbuf_consume_end n)"
  unfolding bufop_safe_def
proof (intro allI impI)
  fix b assume ok: "sshbuf_ok b"
  show "buf_frame b (snd (sshbuf_consume_end n b))"
  proof (cases "n \<le> sshbuf_len b")
    case True
    then have "sb_cd (snd (sshbuf_consume_end n b)) = sb_cd b"
      "sb_alloc (snd (sshbuf_consume_end n b)) = sb_alloc b"
      using ok by (simp_all add: sshbuf_consume_end_def run_simps)
    then show ?thesis
      by (rule_tac sshbuf_consume_end_Inr [OF ok True]) (simp add: buf_frame_def same_owner_def)
  qed (use ok in \<open>simp add: sshbuf_consume_end_Inl buf_frame_refl\<close>)
qed

lemma sshbuf_reserve_unwritable:
  "sshbuf_ok b \<Longrightarrow> \<not> sshbuf_writable b \<Longrightarrow>
   sshbuf_reserve A n b = (Inl SSH_ERR_BUFFER_READ_ONLY, b)"
  by (rule sshbuf_allocate_result [of b A n]) (auto simp: sshbuf_reserve_def andthen_def)

lemma bufop_safe_reserve: "bufop_safe (sshbuf_reserve A n)"
  unfolding bufop_safe_def
proof (intro allI impI)
  fix b assume ok: "sshbuf_ok b"
  show "buf_frame b (snd (sshbuf_reserve A n b))"
  proof (cases "sshbuf_writable b")
    case True
    show ?thesis
      by (rule sshbuf_reserve_result [OF ok, of A n])
        (use True in \<open>auto intro: buf_frame_owner same_view_owner\<close>)
  qed (use ok in \<open>simp add: sshbuf_reserve_unwritable buf_frame_refl\<close>)
qed

lemma bufop_safe_put: "bufop_safe (sshbuf_put A bs)"
  unfolding bufop_safe_def
proof (intro allI impI)
  fix b assume ok: "sshbuf_ok b"
  show "buf_frame b (snd (sshbuf_put A bs b))"
  proof (cases "sshbuf_writable b")
    case True
    show ?thesis
      by (rule sshbuf_put_result [OF ok, of A bs])
        (use True in \<open>auto intro: buf_frame_owner same_view_owner\<close>)
  qed (use ok in \<open>simp add: sshbuf_put_def andthen_def sshbuf_reserve_unwritable buf_frame_refl\<close>)
qed

lemma bufop_safe_poke: "bufop_safe (sshbuf_poke k v)"
  unfolding bufop_safe_def
proof (intro allI impI)
  fix b assume ok: "sshbuf_ok b"
  show "buf_frame b (snd (sshbuf_poke k v b))"
  proof (cases "k + length v \<le> sshbuf_len b \<and> sshbuf_writable b")
    case True
    then show ?thesis
      using sshbuf_poke_ok [OF ok, of k v] buf_frame_owner [of _ b] by (metis snd_conv)
  next
    case False
    then show ?thesis
      using ok by (auto simp: sshbuf_poke_def andthen_def check_woffset_ok buf_frame_refl)
  qed
qed

lemma bufop_safe_set_max_size: "bufop_safe (sshbuf_set_max_size A n)"
  unfolding bufop_safe_def
proof (intro allI impI)
  fix b assume ok: "sshbuf_ok b"
  have "\<not> sshbuf_writable b \<Longrightarrow> snd (sshbuf_set_max_size A n b) = b"
    using ok by (auto simp: sshbuf_set_max_size_def sshbuf_writable_def run_simps)
  then show "buf_frame b (snd (sshbuf_set_max_size A n b))"
    using sshbuf_set_max_size_changed [OF ok, of n A] by (auto simp: max_size_changed_def buf_frame_def)
qed

lemma bufop_safe_const_state: "(\<And>b. snd (m b) = b) \<Longrightarrow> bufop_safe m"
  by (simp add: bufop_safe_def buf_frame_refl)

lemma peek_string_state: "snd (sshbuf_peek_string_direct b) = b"
  by (simp add: sshbuf_peek_string_direct_def Let_def ret_def throw_def)

lemma bufop_safe_same_state: "bufop_safe m' \<Longrightarrow> (\<And>b. snd (m b) = snd (m' b)) \<Longrightarrow> bufop_safe m"
  by (simp add: bufop_safe_def)

lemma sshbuf_get_state:
  "snd (sshbuf_get n b) = snd (sshbuf_consume n b)"
  "snd (sshbuf_get_u64 b) = snd (sshbuf_consume 8 b)"
  "snd (sshbuf_get_u32 b) = snd (sshbuf_consume 4 b)"
  "snd (sshbuf_get_u16 b) = snd (sshbuf_consume 2 b)"
  "snd (sshbuf_get_u8 b) = snd (sshbuf_consume 1 b)"
  by (simp_all add: sshbuf_get_def sshbuf_get_u64_def sshbuf_get_u32_def sshbuf_get_u16_def
      sshbuf_get_u8_def run_simps split: prod.split sum.split)

lemmas bufop_safe_gets = sshbuf_get_state [THEN bufop_safe_same_state [OF bufop_safe_consume]]

lemma bufop_safe_consume_result:
  "bufop_safe (\<lambda>buf. case sshbuf_consume n buf of
        (Inl _, b) \<Rightarrow> throw e b | (Inr _, b) \<Rightarrow> ret (f buf) b)"
  by (rule bufop_safe_same_state [OF bufop_safe_consume [of n]])
    (simp add: ret_def throw_def split: prod.split sum.split)

lemma bufop_safe_If: "bufop_safe m \<Longrightarrow> bufop_safe m' \<Longrightarrow> bufop_safe (\<lambda>b. if c b then m b else m' b)"
  by (simp add: bufop_safe_def)

lemma throw_state: "snd (throw e b) = b"
  by (simp add: throw_def)

lemma bufop_safe_peek_string: "bufop_safe sshbuf_peek_string_direct"
  by (rule bufop_safe_const_state) (rule peek_string_state)

lemma bufop_safe_get_string_direct: "bufop_safe sshbuf_get_string_direct"
  unfolding sshbuf_get_string_direct_def
  by (rule bufop_safe_andthen [OF bufop_safe_peek_string])
    (auto intro: bufop_safe_consume_result split: prod.split)

lemma bufop_safe_get_string: "bufop_safe (sshbuf_get_string A valp)"
  unfolding sshbuf_get_string_def
  by (rule bufop_safe_andthen [OF bufop_safe_get_string_direct])
    (auto intro!: bufop_safe_const_state simp: run_simps split: option.split)

lemma bufop_safe_get_cstring: "bufop_safe (sshbuf_get_cstring A valp)"
  unfolding bufop_safe_def
proof (intro allI impI)
  fix b assume ok: "sshbuf_ok b"
  have "buf_frame b (snd (sshbuf_get_string_direct b))"
    using bufop_safe_get_string_direct ok by (simp add: bufop_safe_def)
  then show "buf_frame b (snd (sshbuf_get_cstring A valp b))"
    using ok by (simp add: sshbuf_get_cstring_result Let_def buf_frame_refl split: prod.split sum.split)
qed

lemma bufop_safe_put_string: "bufop_safe (sshbuf_put_string A v)"
  unfolding bufop_safe_def
proof (intro allI impI)
  fix b assume ok: "sshbuf_ok b"
  show "buf_frame b (snd (sshbuf_put_string A v b))"
  proof (cases "length v \<le> SSHBUF_SIZE_MAX - 4")
    case True
    with ok bufop_safe_put show ?thesis by (simp add: sshbuf_put_string_eq bufop_safe_def)
  qed (use ok in \<open>simp add: sshbuf_put_string_long buf_frame_refl\<close>)
qed

lemma sshbuf_putfv_eq:
  "str \<noteq> [] \<Longrightarrow> sshbuf_putfv A (Some str) =
     andthen (sshbuf_put A (str @ [0])) (\<lambda>_. sshbuf_consume_end 1)"
  by (rule ext) (simp add: sshbuf_putfv_def sshbuf_put_def run_simps split: prod.split sum.split)

lemma bufop_safe_putfv: "bufop_safe (sshbuf_putfv A out)"
proof (cases out)
  case (Some str)
  then show ?thesis
    using bufop_safe_andthen [OF bufop_safe_put bufop_safe_consume_end]
    by (cases "str = []") (simp_all add: sshbuf_putfv_eq, simp add: sshbuf_putfv_def)
qed (simp add: sshbuf_putfv_def)

lemma bufop_safe_bignum:
  "bufop_safe (sshbuf_put_bignum2_bytes A v)" "bufop_safe sshbuf_get_bignum2_bytes_direct"
proof -
  show "bufop_safe (sshbuf_put_bignum2_bytes A v)"
    by (simp add: sshbuf_put_bignum2_eq bufop_safe_put)
  show "bufop_safe sshbuf_get_bignum2_bytes_direct"
    unfolding sshbuf_get_bignum2_bytes_direct_def
    by (rule bufop_safe_andthen [OF bufop_safe_peek_string])
      (auto simp: Let_def split: prod.split
        intro!: bufop_safe_If bufop_safe_consume_result bufop_safe_const_state [of "throw _"] throw_state)
qed

subsection \<open>Success\<close>

lemma sshbuf_put_total:
  assumes "sshbuf_ok b" and "sshbuf_writable b" and "sshbuf_len b + length bs \<le> sb_max_size b"
    and "never_fails A"
  shows "fst (sshbuf_put A bs b) = Inr ()"
  using sshbuf_allocate_total [OF assms]
  by (auto simp: sshbuf_put_def sshbuf_reserve_def run_simps split: prod.splits sum.splits)

lemma put_all_total:
  assumes "sshbuf_ok b" and "sshbuf_writable b" and "sshbuf_len b + length (concat bss) \<le> sb_max_size b"
    and "never_fails A"
  shows "\<exists>b'. put_all (sshbuf_put A) bss b = (Inr (), b')"
  using assms(1-3)
proof (induction bss arbitrary: b)
  case Nil
  then show ?case by (simp add: ret_def)
next
  case (Cons bs bss)
  have "fst (sshbuf_put A bs b) = Inr ()"
    using Cons.prems by (intro sshbuf_put_total assms(4)) auto
  then obtain b1 where b1: "sshbuf_put A bs b = (Inr (), b1)" by (metis prod.collapse)
  from sshbuf_put_Inr [OF Cons.prems(1) b1] Cons.prems
  have "sshbuf_ok b1" "sshbuf_writable b1" "sshbuf_len b1 + length (concat bss) \<le> sb_max_size b1"
    using length_sshbuf_bytes [of b1] length_sshbuf_bytes [of b]
    by (auto simp: same_owner_writable) (auto simp: same_owner_def)
  with Cons.IH b1 show ?case by (simp add: andthen_def)
qed

text \<open>Reading a C string that was written.\<close>

lemma get_cstring_enc:
  assumes b: "sshbuf_ok b" "sshbuf_bytes b = string_enc v @ rest" and v: "string_valid v" "0 \<notin> set v" and A: "never_fails A"
  obtains b' n where "sshbuf_get_cstring A True b = (Inr (Some (v @ [0]), n), b')" and "buf_frame b b'" and "sshbuf_bytes b' = rest"
proof -
  note pk = sshbuf_peek_string_enc [OF b(1) v(1) b(2)]
  obtain b' where b': "sshbuf_get_string_direct b = (Inr (sb_off b + 4, length v), b')" "sshbuf_bytes b' = drop (length v + 4) (sshbuf_bytes b)"
    using sshbuf_get_string_direct_ok [OF b(1) pk(1)] by metis
  obtain p where "malloc A (length v + 1) = Some p" using never_fails_malloc [OF A] by blast
  moreover have "take (length v) (drop 4 (sshbuf_bytes b)) = v" "0 \<notin> set (butlast v)"
    using b(2) v(2) by (auto simp: string_enc_def dest: in_set_butlastD)
  ultimately have run: "sshbuf_get_cstring A True b = (Inr (Some (v @ [0]), length v), b')"
    using pk(1) b'(1) by (simp add: sshbuf_get_cstring_result [OF b(1)] Let_def)
  show thesis using that [OF run bufop_safeD [OF bufop_safe_get_cstring b(1) run]] b'(2) b(2) by (simp add: string_enc_def)
qed

text \<open>A fresh buffer from an allocator that succeeds, for the witnesses.\<close>

definition demo_buf :: sshbuf where
  "demo_buf = the (sshbuf_new demo_allocator)"

lemma demo_buf_new: "sshbuf_new demo_allocator = Some demo_buf"
  by (simp add: demo_buf_def sshbuf_new_def calloc_def demo_allocator_def sshbuf_consts
      SIZE_MAX_def)

lemma demo_buf_ok:
  "sshbuf_ok demo_buf" "sshbuf_bytes demo_buf = []" "sshbuf_writable demo_buf"
  "sb_max_size demo_buf = 134217728" "sshbuf_len demo_buf = 0"
  using sshbuf_new_ok [OF demo_buf_new] length_sshbuf_bytes [of demo_buf]
  by (simp_all add: sshbuf_consts)

subsection \<open>Properties\<close>


text \<open>
  C12. Appending to a well-formed buffer: on success the new bytes follow the old contents; a
  failure leaves the contents alone and is reported as read-only, out of space or out of memory in that
  order; and with an allocator that does not fail every request within the limit is granted.
\<close>

theorem sshbuf_put_spec:
  assumes "sshbuf_ok b"
  shows "(case sshbuf_put A bs b of
      (Inr _, b') \<Rightarrow> sshbuf_bytes b' = sshbuf_bytes b @ bs \<and> sshbuf_writable b \<and>
        sshbuf_len b + length bs \<le> sb_max_size b
    | (Inl e, b') \<Rightarrow> sshbuf_bytes b' = sshbuf_bytes b \<and>
        e = (if \<not> sshbuf_writable b then SSH_ERR_BUFFER_READ_ONLY
             else if sshbuf_len b + length bs > sb_max_size b then SSH_ERR_NO_BUFFER_SPACE
             else SSH_ERR_ALLOC_FAIL) \<and>
        (never_fails A \<longrightarrow> e \<noteq> SSH_ERR_ALLOC_FAIL))"
proof (rule sshbuf_put_result [OF assms, of A bs])
  fix e b' assume f: "sshbuf_put A bs b = (Inl e, b')" "same_view b b'"
    "e = (if \<not> sshbuf_writable b then SSH_ERR_BUFFER_READ_ONLY
            else if sshbuf_len b + length bs > sb_max_size b then SSH_ERR_NO_BUFFER_SPACE
            else SSH_ERR_ALLOC_FAIL)"
  then show ?thesis
    using sshbuf_put_total [OF assms, of bs A] by (auto simp: same_view_def)
qed simp

theorem sshbuf_put_spec_witness:
  "sshbuf_ok demo_buf \<and> (\<exists>b'. sshbuf_put demo_allocator [1, 2, 3] demo_buf = (Inr (), b') \<and>
     sshbuf_bytes b' = [1, 2, 3])"
proof -
  have "fst (sshbuf_put demo_allocator [1, 2, 3] demo_buf) = Inr ()"
    by (intro sshbuf_put_total demo_never_fails) (simp_all add: demo_buf_ok)
  then show ?thesis
    using sshbuf_put_spec [OF demo_buf_ok(1), where A = demo_allocator and bs = "[1, 2, 3]"]
    by (cases "sshbuf_put demo_allocator [1, 2, 3] demo_buf") (simp add: demo_buf_ok)
qed

text \<open>
  C13. First in, first out: chunks appended one after the other are read back whole and in order, after
  the contents that were there before, and the buffer is then empty.
\<close>

theorem sshbuf_fifo:
  assumes "sshbuf_ok b" and "put_all (sshbuf_put A) bss b = (Inr (), b')"
  shows "\<exists>u. get_all sshbuf_get (map length (sshbuf_bytes b # bss)) b' = (Inr (sshbuf_bytes b # bss), u) \<and>
             sshbuf_ok u \<and> sshbuf_bytes u = []"
  using assms by (rule sb.fifo)

theorem sshbuf_fifo_witness:
  "\<exists>b' u. put_all (sshbuf_put demo_allocator) [[1], [2, 3]] demo_buf = (Inr (), b') \<and>
     get_all sshbuf_get [0, 1, 2] b' = (Inr [[], [1], [2, 3]], u) \<and> sshbuf_bytes u = []"
proof -
  obtain b' where b': "put_all (sshbuf_put demo_allocator) [[1], [2, 3]] demo_buf = (Inr (), b')"
    using put_all_total [OF demo_buf_ok(1,3) _ demo_never_fails, of "[[1], [2, 3]]"]
    by (auto simp: demo_buf_ok)
  show ?thesis
    using sshbuf_fifo [OF demo_buf_ok(1) b'] b' by (auto simp: demo_buf_ok numeral_2_eq_2)
qed

text \<open>
  C14. Sequences of 64-, 32-, 16- and 8-bit integers written to an empty buffer are read back
  unchanged, and nothing is left over.
\<close>

theorem sshbuf_integers_roundtrip:
  assumes "sshbuf_ok b" and "sshbuf_bytes b = []"
  shows "(put_all (sshbuf_put_u64 A) ws b = (Inr (), t) \<longrightarrow>
      (\<exists>u. get_all (\<lambda>_. sshbuf_get_u64) (replicate (length ws) ()) t = (Inr ws, u) \<and> sshbuf_bytes u = [])) \<and>
    (put_all (sshbuf_put_u32 A) xs b = (Inr (), t) \<longrightarrow>
      (\<exists>u. get_all (\<lambda>_. sshbuf_get_u32) (replicate (length xs) ()) t = (Inr xs, u) \<and> sshbuf_bytes u = [])) \<and>
    (put_all (sshbuf_put_u16 A) ys b = (Inr (), t) \<longrightarrow>
      (\<exists>u. get_all (\<lambda>_. sshbuf_get_u16) (replicate (length ys) ()) t = (Inr ys, u) \<and> sshbuf_bytes u = [])) \<and>
    (put_all (sshbuf_put_u8 A) zs b = (Inr (), t) \<longrightarrow>
      (\<exists>u. get_all (\<lambda>_. sshbuf_get_u8) (replicate (length zs) ()) t = (Inr zs, u) \<and> sshbuf_bytes u = []))"
  using u64_codec.roundtrip_all [OF assms, of ws A t] u32_codec.roundtrip_all [OF assms, of xs A t]
    u16_codec.roundtrip_all [OF assms, of ys A t] u8_codec.roundtrip_all [OF assms, of zs A t]
  by (auto simp: list_all_iff)

lemma demo_put_u32:
  obtains t where "put_all (sshbuf_put_u32 demo_allocator) [7, 0xffffffff] demo_buf = (Inr (), t)"
  using put_all_total [OF demo_buf_ok(1,3) _ demo_never_fails, of "[POKE_U32 7, POKE_U32 0xffffffff]"]
  by (auto simp: demo_buf_ok sshbuf_put_int)

theorem sshbuf_integers_roundtrip_witness:
  "\<exists>t u. put_all (sshbuf_put_u32 demo_allocator) [7, 0xffffffff] demo_buf = (Inr (), t) \<and>
     get_all (\<lambda>_. sshbuf_get_u32) [(), ()] t = (Inr [7, 0xffffffff], u)"
proof -
  obtain t where t: "put_all (sshbuf_put_u32 demo_allocator) [7, 0xffffffff] demo_buf = (Inr (), t)"
    by (rule demo_put_u32)
  show ?thesis
    using t sshbuf_integers_roundtrip [OF demo_buf_ok(1,2), where A = demo_allocator and
        ws = "[]" and xs = "[7, 0xffffffff]" and ys = "[]" and zs = "[]" and t = t,
        THEN conjunct2, THEN conjunct1, THEN mp, OF t]
    by (auto simp: numeral_2_eq_2)
qed

text \<open>
  Length-prefixed strings: a sequence of strings written with \<^verbatim>\<open>sshbuf_put_string\<close> to an empty
  buffer is read back unchanged through \<^verbatim>\<open>sshbuf_get_string_direct\<close>; a write that succeeds never had
  a string above the size limit.
\<close>

theorem sshbuf_strings_roundtrip:
  assumes "sshbuf_ok b" and "sshbuf_bytes b = []" and "list_all string_valid vs"
    and "put_all (sshbuf_put_string A) vs b = (Inr (), t)"
  shows "\<exists>u. get_all (\<lambda>_. get_string_bytes) (replicate (length vs) ()) t = (Inr vs, u) \<and>
             sshbuf_ok u \<and> sshbuf_bytes u = []"
  using string_codec.roundtrip_all [OF assms] .

theorem sshbuf_strings_roundtrip_witness:
  "\<exists>t u. put_all (sshbuf_put_string demo_allocator) [[104, 105]] demo_buf = (Inr (), t) \<and>
     get_all (\<lambda>_. get_string_bytes) [()] t = (Inr [[104, 105]], u)"
proof -
  obtain t where "put_all (sshbuf_put demo_allocator) [string_enc [104, 105]] demo_buf = (Inr (), t)"
    using put_all_total [OF demo_buf_ok(1,3) _ demo_never_fails, of "[string_enc [104, 105]]"]
    by (auto simp: demo_buf_ok string_enc_def)
  then have t: "put_all (sshbuf_put_string demo_allocator) [[104, 105]] demo_buf = (Inr (), t)"
    using sshbuf_put_string_eq [OF demo_buf_ok(1), of "[104, 105]" demo_allocator]
    by (simp add: andthen_def string_enc_def sshbuf_consts)
  have "list_all string_valid [[104, 105]]" by (simp add: string_valid_def sshbuf_consts)
  then show ?thesis
    using sshbuf_strings_roundtrip [OF demo_buf_ok(1,2) _ t] t by auto
qed

text \<open>
  C15. Multiple-precision integers: whatever big-endian magnitude is written, the reader returns it
  without its leading zero bytes, provided that fits into \<^verbatim>\<open>SSHBUF_MAX_BIGNUM\<close> bytes; the byte prepended
  to keep the number positive never shows.
\<close>

theorem sshbuf_bignum_roundtrip:
  assumes "sshbuf_ok b" and "sshbuf_bytes b = []"
    and "length (dropWhile (\<lambda>x. x = 0) v) \<le> SSHBUF_MAX_BIGNUM"
    and "sshbuf_put_bignum2_bytes A v b = (Inr (), t)"
  shows "\<exists>u. sshbuf_get_bignum2_bytes_direct t = (Inr (dropWhile (\<lambda>x. x = 0) v), u) \<and>
             sshbuf_ok u \<and> sshbuf_bytes u = []"
proof -
  define s where "s = dropWhile (\<lambda>x. x = 0) v"
  have strip: "dropWhile (\<lambda>x. x = 0) s = s" by (simp add: s_def)
  have "sshbuf_ok t" "sshbuf_bytes t = bignum_enc v"
    using bignum_codec.put_enc [OF assms(1,4)] assms(2) by simp_all
  moreover have "bignum_enc v = bignum_enc s" by (simp add: bignum_enc_def s_def)
  moreover have "bignum_valid s" using assms(3) strip by (simp add: bignum_valid_def s_def)
  ultimately show ?thesis using bignum_codec.get_enc [of t s "[]"] by (simp add: s_def)
qed

theorem sshbuf_bignum_roundtrip_witness:
  "\<exists>t u. sshbuf_put_bignum2_bytes demo_allocator [0, 0, 200, 1] demo_buf = (Inr (), t) \<and>
     sshbuf_get_bignum2_bytes_direct t = (Inr [200, 1], u)"
proof -
  have "fst (sshbuf_put demo_allocator (bignum_enc [0, 0, 200, 1]) demo_buf) = Inr ()"
    by (intro sshbuf_put_total demo_never_fails)
      (simp_all add: demo_buf_ok bignum_enc_def string_enc_def bignum_prepend_def)
  then obtain t where t: "sshbuf_put_bignum2_bytes demo_allocator [0, 0, 200, 1] demo_buf = (Inr (), t)"
    by (cases "sshbuf_put demo_allocator (bignum_enc [0, 0, 200, 1]) demo_buf")
      (simp add: sshbuf_put_bignum2_eq sshbuf_consts)
  show ?thesis
    using sshbuf_bignum_roundtrip [OF demo_buf_ok(1,2) _ t] t by (auto simp: sshbuf_consts)
qed

text \<open>
  A C string taken from a message never contains a zero byte except possibly as its last byte; what
  is returned (with a terminator appended) is exactly the string at the head of the buffer, and it is
  consumed.
\<close>

theorem sshbuf_get_cstring_safe:
  assumes "sshbuf_ok b" and "sshbuf_get_cstring A True b = (Inr (cs, len), b')"
  shows "\<exists>str. cs = Some (str @ [0]) \<and> length str = len \<and> 0 \<notin> set (butlast str) \<and>
    sshbuf_bytes b = POKE_U32 (of_nat len) @ str @ sshbuf_bytes b' \<and> sshbuf_ok b'"
proof -
  obtain p where pk: "sshbuf_peek_string_direct b = (Inr (p, len), b)"
    and s: "cs = Some (take len (drop 4 (sshbuf_bytes b)) @ [0])"
      "0 \<notin> set (butlast (take len (drop 4 (sshbuf_bytes b))))"
      "b' = snd (sshbuf_get_string_direct b)"
    using assms(2) peek_string_state [of b] unfolding sshbuf_get_cstring_result [OF assms(1)]
    by (auto simp: Let_def split: prod.splits sum.splits if_splits)
  have len: "4 + len \<le> length (sshbuf_bytes b)" "len = unat (PEEK_U32 (sshbuf_bytes b))"
    using pk unfolding sshbuf_peek_string_result [OF assms(1)] by (auto simp: Let_def split: if_splits)
  obtain b2 where b2: "sshbuf_get_string_direct b = (Inr (p, len), b2)" "sshbuf_ok b2"
      "sshbuf_bytes b2 = drop (len + 4) (sshbuf_bytes b)"
    using sshbuf_get_string_direct_ok [OF assms(1) pk] by metis
  have "take 4 (sshbuf_bytes b) = POKE_U32 (of_nat len)"
    using len POKE_PEEK_U32 [of "take 4 (sshbuf_bytes b)"] by simp
  moreover have "sshbuf_bytes b = take 4 (sshbuf_bytes b) @ take len (drop 4 (sshbuf_bytes b)) @
      drop (len + 4) (sshbuf_bytes b)"
    by (simp add: add.commute [of len 4] flip: drop_drop) (metis append_take_drop_id drop_drop add.commute)
  ultimately show ?thesis
    using s b2 len by (intro exI [of _ "take len (drop 4 (sshbuf_bytes b))"]) auto
qed

lemma demo_string:
  obtains t where "sshbuf_put_string demo_allocator [104, 105] demo_buf = (Inr (), t)"
    "sshbuf_ok t" "sshbuf_bytes t = string_enc [104, 105]" "sshbuf_writable t" "sb_max_size t = 134217728"
proof -
  have "fst (sshbuf_put demo_allocator (string_enc [104, 105]) demo_buf) = Inr ()"
    by (intro sshbuf_put_total demo_never_fails) (simp_all add: demo_buf_ok string_enc_def)
  then obtain t where t: "sshbuf_put_string demo_allocator [104, 105] demo_buf = (Inr (), t)"
      "sshbuf_put demo_allocator (string_enc [104, 105]) demo_buf = (Inr (), t)"
    using sshbuf_put_string_eq [OF demo_buf_ok(1), of "[104, 105]" demo_allocator]
    by (cases "sshbuf_put demo_allocator (string_enc [104, 105]) demo_buf")
      (simp add: string_enc_def sshbuf_consts)
  then show thesis
    using that [OF t(1)] sshbuf_put_Inr [OF demo_buf_ok(1) t(2)] demo_buf_ok
    by (auto simp: same_owner_writable) (auto simp: same_owner_def)
qed

theorem sshbuf_get_cstring_safe_witness:
  "\<exists>t b'. sshbuf_ok t \<and> sshbuf_bytes t = string_enc [104, 105] \<and>
     sshbuf_get_cstring demo_allocator True t = (Inr (Some [104, 105, 0], 2), b') \<and> sshbuf_ok b'"
proof -
  obtain t where t: "sshbuf_ok t" "sshbuf_bytes t = string_enc [104, 105]"
    by (rule demo_string)
  have v: "string_valid [104, 105]" by (simp add: string_valid_def sshbuf_consts)
  note pk = sshbuf_peek_string_enc [OF t(1) v, of "[]"]
  have "sshbuf_get_cstring demo_allocator True t =
      (Inr (Some [104, 105, 0], 2), snd (sshbuf_get_string_direct t))"
    using pk(1) t unfolding sshbuf_get_cstring_result [OF t(1)]
    by (simp add: Let_def string_enc_def demo_allocator_def)
  then show ?thesis using sshbuf_get_cstring_safe [OF t(1)] t by blast
qed

text \<open>
  Random access: writing a 32-bit value over bytes that are there succeeds on a writable buffer,
  the value is then read back at that offset, every other byte is as before, and the length does not
  change; on a read-only or shared buffer the write is refused and nothing changes.
\<close>

theorem sshbuf_poke_peek_u32:
  assumes "sshbuf_ok b" and "k + 4 \<le> sshbuf_len b"
  shows "(sshbuf_writable b \<longrightarrow>
     (\<exists>b'. sshbuf_poke_u32 k v b = (Inr (), b') \<and> sshbuf_ok b' \<and>
        sshbuf_peek_u32 k b' = (Inr v, b') \<and>
        take k (sshbuf_bytes b') = take k (sshbuf_bytes b) \<and>
        drop (k + 4) (sshbuf_bytes b') = drop (k + 4) (sshbuf_bytes b) \<and>
        sshbuf_len b' = sshbuf_len b)) \<and>
    (\<not> sshbuf_writable b \<longrightarrow> sshbuf_poke_u32 k v b = (Inl SSH_ERR_BUFFER_READ_ONLY, b))"
proof (intro conjI impI)
  assume wr: "sshbuf_writable b"
  obtain b' where b': "sshbuf_poke k (POKE_U32 v) b = (Inr (), b')" "sshbuf_ok b'"
      "sshbuf_bytes b' = mem_write k (POKE_U32 v) (sshbuf_bytes b)"
    using sshbuf_poke_ok [OF assms(1) _ wr, of k "POKE_U32 v"] assms(2) by auto
  have len: "sshbuf_len b' = sshbuf_len b"
    using b'(2,3) assms length_sshbuf_bytes [of b'] by simp
  have "sshbuf_peek_u32 k b' = (Inr v, b')"
    using sshbuf_peek_ok(2) [OF b'(2), of k] assms b'(3) len by (simp add: mem_write_def)
  then show "\<exists>b'. sshbuf_poke_u32 k v b = (Inr (), b') \<and> sshbuf_ok b' \<and>
        sshbuf_peek_u32 k b' = (Inr v, b') \<and>
        take k (sshbuf_bytes b') = take k (sshbuf_bytes b) \<and>
        drop (k + 4) (sshbuf_bytes b') = drop (k + 4) (sshbuf_bytes b) \<and>
        sshbuf_len b' = sshbuf_len b"
    using b' len assms by (auto simp: sshbuf_poke_int mem_write_def)
next
  assume "\<not> sshbuf_writable b"
  then show "sshbuf_poke_u32 k v b = (Inl SSH_ERR_BUFFER_READ_ONLY, b)"
    using assms by (simp add: sshbuf_poke_u32_def andthen_def check_woffset_ok)
qed

theorem sshbuf_poke_peek_u32_witness:
  "\<exists>t b'. sshbuf_ok t \<and> sshbuf_len t = 6 \<and> sshbuf_poke_u32 1 0xdeadbeef t = (Inr (), b') \<and>
     sshbuf_peek_u32 1 b' = (Inr 0xdeadbeef, b')"
proof -
  obtain t where t: "sshbuf_ok t" "sshbuf_bytes t = string_enc [104, 105]" "sshbuf_writable t"
    by (rule demo_string)
  then have "sshbuf_len t = 6" using length_sshbuf_bytes [of t] by (simp add: string_enc_def)
  with t show ?thesis using sshbuf_poke_peek_u32 [OF t(1), of 1 "0xdeadbeef"] by auto
qed

text \<open>
  \<^verbatim>\<open>sshbuf_get_stringb\<close> moves the string at the head of one buffer to the end of another: when the
  destination is writable and has room and memory is available, the source loses exactly the
  string and its length prefix, and the destination gains exactly the string's bytes.
\<close>

theorem sshbuf_get_stringb_moves:
  assumes "sshbuf_ok b" and "sshbuf_ok v" and "sshbuf_bytes b = string_enc s @ rest"
    and "string_valid s" and "sshbuf_writable v" and "sshbuf_len v + length s \<le> sb_max_size v"
    and "never_fails A"
  shows "\<exists>b' v'. sshbuf_get_stringb A (b, v) = (Inr (), (b', v')) \<and> sshbuf_ok b' \<and> sshbuf_ok v' \<and>
    sshbuf_bytes b' = rest \<and> sshbuf_bytes v' = sshbuf_bytes v @ s"
proof -
  have enc: "sshbuf_bytes b = POKE_U32 (of_nat (length s)) @ (s @ rest)"
    using assms(3) by (simp add: string_enc_def)
  obtain b1 where b1: "sshbuf_get_u32 b = (Inr (of_nat (length s)), b1)" "sshbuf_ok b1"
      "sshbuf_bytes b1 = s @ rest"
    using get_int_enc(2) [OF assms(1) enc] by auto
  obtain b2 where b2: "sshbuf_get (length s) b1 = (Inr s, b2)" "sshbuf_ok b2" "sshbuf_bytes b2 = rest"
    using sshbuf_get_append [OF b1(2,3)] by auto
  have "fst (sshbuf_reserve A (length s) v) \<noteq> Inl e" for e
    using sshbuf_allocate_total [OF assms(2,5,6,7)]
    by (auto simp: sshbuf_reserve_def run_simps split: prod.splits sum.splits)
  then obtain p v1 where p: "sshbuf_reserve A (length s) v = (Inr p, v1)"
    by (cases "sshbuf_reserve A (length s) v", cases "fst (sshbuf_reserve A (length s) v)") auto
  have n: "unat (of_nat (length s) :: u32) = length s"
    using assms(4) by (simp add: string_valid_def unat_length_valid)
  have "sshbuf_get_stringb A (b, v) = (Inr (), (b2, sshbuf_store p s v1))"
    using sshbuf_peek_string_enc(1) [OF assms(1,4,3)] b1(1) b2(1) p n
    by (simp add: sshbuf_get_stringb_def)
  then show ?thesis using b2 sshbuf_reserve_store [OF assms(2) p] by blast
qed

theorem sshbuf_get_stringb_moves_witness:
  "\<exists>t b' v'. sshbuf_ok t \<and> sshbuf_get_stringb demo_allocator (t, demo_buf) = (Inr (), (b', v')) \<and>
     sshbuf_bytes b' = [] \<and> sshbuf_bytes v' = [104, 105]"
proof -
  obtain t where t: "sshbuf_ok t" "sshbuf_bytes t = string_enc [104, 105] @ []"
    by (rule demo_string) simp
  have v: "string_valid [104, 105]" by (simp add: string_valid_def sshbuf_consts)
  show ?thesis
    using sshbuf_get_stringb_moves [OF t(1) demo_buf_ok(1) t(2) v demo_buf_ok(3) _ demo_never_fails] t(1)
    by (auto simp: demo_buf_ok)
qed

text \<open>
  Changing the size limit never loses data: whatever happens, the buffer stays well formed with
  the same contents; on success the limit is the requested one and the contents fit below it, on
  failure the limit is unchanged.
\<close>

theorem sshbuf_set_max_size_spec:
  assumes "sshbuf_ok b"
  shows "max_size_changed n b (sshbuf_set_max_size A n b)"
  using assms by (rule sshbuf_set_max_size_changed)

theorem sshbuf_set_max_size_spec_witness:
  "sshbuf_ok demo_buf \<and> max_size_changed 100 demo_buf (sshbuf_set_max_size demo_allocator 100 demo_buf)"
  using sshbuf_set_max_size_spec [OF demo_buf_ok(1)] demo_buf_ok(1) by blast

text \<open>
  Resetting a writable buffer erases it: all of its storage is zero afterwards and nothing is
  left to read; the buffer stays well formed when its limit is at least \<^verbatim>\<open>SSHBUF_SIZE_INIT\<close>. Resetting a
  read-only or shared buffer only makes it appear empty: its storage is kept.
\<close>

theorem sshbuf_reset_spec:
  assumes "sshbuf_ok b"
  shows "sshbuf_bytes (sshbuf_reset A b) = [] \<and>
    (sshbuf_writable b \<longrightarrow> set (sb_mem (sshbuf_reset A b)) \<subseteq> {0}) \<and>
    (SSHBUF_SIZE_INIT \<le> sb_max_size b \<or> \<not> sshbuf_writable b \<longrightarrow> sshbuf_ok (sshbuf_reset A b)) \<and>
    (\<not> sshbuf_writable b \<longrightarrow> sb_mem (sshbuf_reset A b) = sb_mem b)"
proof (cases "sshbuf_writable b")
  case True
  then show ?thesis using sshbuf_reset_erases [OF assms, of A] sshbuf_reset_ok [OF assms, of A] by auto
next
  case False
  moreover have "sb_mem (sshbuf_reset A b) = sb_mem b"
    using sshbuf_reset_shared [OF False, of A] by simp
  ultimately show ?thesis using sshbuf_reset_shared_ok [OF assms False, of A] by blast
qed

theorem sshbuf_reset_spec_witness:
  "\<exists>t. sshbuf_ok t \<and> sshbuf_bytes t \<noteq> [] \<and> sshbuf_bytes (sshbuf_reset demo_allocator t) = [] \<and>
     sshbuf_ok (sshbuf_reset demo_allocator t)"
proof -
  obtain t where t: "sshbuf_ok t" "sshbuf_bytes t = string_enc [104, 105]" "sb_max_size t = 134217728"
    by (rule demo_string)
  show ?thesis
    using sshbuf_reset_spec [OF t(1), of demo_allocator] t
    by (auto simp: string_enc_def sshbuf_consts POKE_U32_def)
qed


end
