(* ===== verification/Krl.thy ===== *)
theory Krl
  imports Rbtree Sshbuf_Getput
begin

text \<open>
  Key revocation lists (\<^verbatim>\<open>krl.c\<close>): the data, revoking and checking. The trees are the sequences of
  their elements in order (\<^verbatim>\<open>sys-tree.h\<close>), serial numbers are 64-bit words, blobs and key identifiers
  are byte lists (an identifier holds no NUL). Keys are a type parameter, and the functions of
  \<^verbatim>\<open>sshkey.c\<close> that the lists call are a record of operations.
\<close>

subsection \<open>Data\<close>

record 'k key_ops =
  sshkey_equal :: "'k \<Rightarrow> 'k \<Rightarrow> bool"
  sshkey_from_private :: "'k \<Rightarrow> ssherr + 'k"
  sshkey_is_cert :: "'k \<Rightarrow> bool"
  sshkey_drop_cert :: "'k \<Rightarrow> ssherr + 'k"
  sshkey_to_blob :: "'k \<Rightarrow> ssherr + u8 list"
  sshkey_from_blob :: "u8 list \<Rightarrow> ssherr + 'k"
  fingerprint_sha1 :: "'k \<Rightarrow> ssherr + u8 list"
  fingerprint_sha256 :: "'k \<Rightarrow> ssherr + u8 list"
  cert_serial :: "'k \<Rightarrow> u64"
  cert_key_id :: "'k \<Rightarrow> u8 list"
  cert_signature_key :: "'k \<Rightarrow> 'k"

type_synonym revoked_serial = "u64 \<times> u64"

record 'k revoked_certs =
  ca_key :: "'k option"
  revoked_serials :: "revoked_serial list"
  revoked_key_ids :: "u8 list list"

record 'k ssh_krl =
  krl_version :: u64
  generated_date :: u64
  krl_flags :: u64
  comment :: "u8 list option"
  revoked_keys :: "u8 list list"
  revoked_sha1s :: "u8 list list"
  revoked_sha256s :: "u8 list list"
  revoked_cas :: "'k revoked_certs list"

text \<open>Sizes of the structures on the 32-bit target.\<close>

definition sizeof_serial :: nat where "sizeof_serial = 32"
definition sizeof_key_id :: nat where "sizeof_key_id = 20"
definition sizeof_blob :: nat where "sizeof_blob = 24"
definition sizeof_certs :: nat where "sizeof_certs = 20"
definition sizeof_krl :: nat where "sizeof_krl = 48"

subsection \<open>Comparisons\<close>

definition serial_cmp :: "revoked_serial \<Rightarrow> revoked_serial \<Rightarrow> int" where
  "serial_cmp a b =
     (if snd a \<ge> fst b \<and> fst a \<le> snd b then 0 else if fst a < fst b then - 1 else 1)"

text \<open>\<^verbatim>\<open>strcmp\<close> and \<^verbatim>\<open>memcmp\<close> (of equally long blocks).\<close>

fun strcmp :: "u8 list \<Rightarrow> u8 list \<Rightarrow> int" where
  "strcmp [] [] = 0"
| "strcmp [] (y # ys) = - 1"
| "strcmp (x # xs) [] = 1"
| "strcmp (x # xs) (y # ys) = (if x = y then strcmp xs ys else uint x - uint y)"

fun memcmp :: "u8 list \<Rightarrow> u8 list \<Rightarrow> int" where
  "memcmp (x # xs) (y # ys) = (if x = y then memcmp xs ys else uint x - uint y)"
| "memcmp _ _ = 0"

definition key_id_cmp :: "u8 list \<Rightarrow> u8 list \<Rightarrow> int" where
  "key_id_cmp a b = strcmp a b"

definition blob_cmp :: "u8 list \<Rightarrow> u8 list \<Rightarrow> int" where
  "blob_cmp a b =
     (if length a \<noteq> length b then
        (let m = min (length a) (length b); r = memcmp (take m a) (take m b) in
         if r \<noteq> 0 then r else if length a > length b then 1 else - 1)
      else memcmp a b)"

subsection \<open>Revoking\<close>

definition empty_krl :: "'k ssh_krl" where
  "empty_krl = \<lparr>krl_version = 0, generated_date = 0, krl_flags = 0, comment = None, revoked_keys = [],
                revoked_sha1s = [], revoked_sha256s = [], revoked_cas = []\<rparr>"

definition ssh_krl_init :: "allocator \<Rightarrow> 'k ssh_krl option" where
  "ssh_krl_init A = (if malloc A sizeof_krl = None then None else Some empty_krl)"

definition ssh_krl_set_version :: "u64 \<Rightarrow> 'k ssh_krl \<Rightarrow> 'k ssh_krl" where
  "ssh_krl_set_version v krl = krl\<lparr>krl_version := v\<rparr>"

definition ssh_krl_set_comment :: "allocator \<Rightarrow> u8 list \<Rightarrow> (ssherr, 'k ssh_krl, unit) run" where
  "ssh_krl_set_comment A c krl =
     (if malloc A (length c + 1) = None then (Inl SSH_ERR_ALLOC_FAIL, krl\<lparr>comment := None\<rparr>)
      else (Inr (), krl\<lparr>comment := Some c\<rparr>))"

definition same_ca :: "'k key_ops \<Rightarrow> 'k option \<Rightarrow> 'k revoked_certs \<Rightarrow> bool" where
  "same_ca K ca rc \<longleftrightarrow>
     (ca = None \<and> ca_key rc = None) \<or>
     (case (ca_key rc, ca) of (Some a, Some b) \<Rightarrow> sshkey_equal K a b | _ \<Rightarrow> False)"

text \<open>The result is the position of the entry in the list, \<open>None\<close> when there is none.\<close>

definition revoked_certs_for_ca_key ::
    "'k key_ops \<Rightarrow> allocator \<Rightarrow> 'k option \<Rightarrow> bool \<Rightarrow> (ssherr, 'k ssh_krl, nat option) run" where
  "revoked_certs_for_ca_key K A ca allow_create krl =
     (let i = length (takeWhile (\<lambda>rc. \<not> same_ca K ca rc) (revoked_cas krl)) in
      if i < length (revoked_cas krl) then (Inr (Some i), krl)
      else if \<not> allow_create then (Inr None, krl)
      else if malloc A sizeof_certs = None then (Inl SSH_ERR_ALLOC_FAIL, krl)
      else
        (case (case ca of None \<Rightarrow> Inr None | Some k \<Rightarrow> map_sum id Some (sshkey_from_private K k)) of
           Inl e \<Rightarrow> (Inl e, krl)
         | Inr ck \<Rightarrow>
             (Inr (Some i),
              krl\<lparr>revoked_cas := revoked_cas krl @ [\<lparr>ca_key = ck, revoked_serials = [], revoked_key_ids = []\<rparr>]\<rparr>)))"

text \<open>The loops that coalesce a range with its predecessors (nearest first) and successors.\<close>

fun merge_prev :: "revoked_serial list \<Rightarrow> revoked_serial \<Rightarrow> revoked_serial list \<times> revoked_serial" where
  "merge_prev [] ers = ([], ers)"
| "merge_prev (crs # ps) ers =
     (if fst ers \<noteq> 0 \<and> snd crs < fst ers - 1 then (crs # ps, ers)
      else merge_prev ps (if fst crs < fst ers then (fst crs, snd ers) else ers))"

fun merge_next :: "revoked_serial list \<Rightarrow> revoked_serial \<Rightarrow> revoked_serial list \<times> revoked_serial" where
  "merge_next [] ers = ([], ers)"
| "merge_next (crs # ss) ers =
     (if snd ers \<noteq> - 1 \<and> fst crs > snd ers + 1 then (crs # ss, ers)
      else merge_next ss (if snd crs > snd ers then (fst ers, snd crs) else ers))"

text \<open>
  The tree is given by its sequence \<open>rt\<close>; \<open>sh\<close> is the shape that the earlier insertions and removals, with
  their rotations, have given it. The entry that is inserted or grown stands between \<open>before\<close> and \<open>after\<close>.
\<close>

type_synonym shape = "revoked_serial list \<Rightarrow> revoked_serial tree"

definition before :: "'a \<Rightarrow> 'a list \<Rightarrow> 'a list" where
  "before x ts = takeWhile (\<lambda>e. e \<noteq> x) ts"

definition after :: "'a \<Rightarrow> 'a list \<Rightarrow> 'a list" where
  "after x ts = tl (dropWhile (\<lambda>e. e \<noteq> x) ts)"

definition coalesce :: "revoked_serial list \<Rightarrow> revoked_serial \<Rightarrow> revoked_serial list \<Rightarrow> revoked_serial list" where
  "coalesce pre ers post =
     (case merge_prev (rev pre) ers of
        (ps, ers1) \<Rightarrow> (case merge_next post ers1 of (ss, ers2) \<Rightarrow> rev ps @ ers2 # ss))"

definition insert_serial_range ::
    "shape \<Rightarrow> allocator \<Rightarrow> u64 \<Rightarrow> u64 \<Rightarrow> (ssherr, revoked_serial list, unit) run" where
  "insert_serial_range sh A lo hi rt =
     (let rs = (lo, hi); found = rbt_nfind serial_cmp rs (sh rt) in
      if found = None \<or> serial_cmp (the found) rs \<noteq> 0
      then (if malloc A sizeof_serial = None then (Inl SSH_ERR_ALLOC_FAIL, rt)
            else (case rbt_insert serial_cmp rs (sh rt) of
                    (Some _, _) \<Rightarrow> (Inl SSH_ERR_INTERNAL_ERROR, rt)
                  | (None, t1) \<Rightarrow> (Inr (), coalesce (before rs (inorder t1)) rs (after rs (inorder t1)))))
      else
        (let ers = the found in
         (Inr (), coalesce (before ers rt)
                    (if fst ers > lo then lo else fst ers, if snd ers < hi then hi else snd ers)
                    (after ers rt))))"

text \<open>Applying an operation to the entry of one certification authority.\<close>

definition on_ca :: "nat \<Rightarrow> (ssherr, 'k revoked_certs, unit) run \<Rightarrow> (ssherr, 'k ssh_krl, unit) run" where
  "on_ca i f krl =
     (case f (revoked_cas krl ! i) of (r, rc) \<Rightarrow> (r, krl\<lparr>revoked_cas := (revoked_cas krl)[i := rc]\<rparr>))"

definition ssh_krl_revoke_cert_by_serial_range ::
    "'k key_ops \<Rightarrow> shape \<Rightarrow> allocator \<Rightarrow> 'k option \<Rightarrow> u64 \<Rightarrow> u64 \<Rightarrow> (ssherr, 'k ssh_krl, unit) run" where
  "ssh_krl_revoke_cert_by_serial_range K sh A ca lo hi =
     (if lo > hi \<or> lo = 0 then throw SSH_ERR_INVALID_ARGUMENT
      else andthen (revoked_certs_for_ca_key K A ca True) (\<lambda>i.
        on_ca (the i) (\<lambda>rc.
          case insert_serial_range sh A lo hi (revoked_serials rc) of (r, t) \<Rightarrow> (r, rc\<lparr>revoked_serials := t\<rparr>))))"

definition ssh_krl_revoke_cert_by_serial ::
    "'k key_ops \<Rightarrow> shape \<Rightarrow> allocator \<Rightarrow> 'k option \<Rightarrow> u64 \<Rightarrow> (ssherr, 'k ssh_krl, unit) run" where
  "ssh_krl_revoke_cert_by_serial K sh A ca serial = ssh_krl_revoke_cert_by_serial_range K sh A ca serial serial"

definition ssh_krl_revoke_cert_by_key_id ::
    "'k key_ops \<Rightarrow> allocator \<Rightarrow> 'k option \<Rightarrow> u8 list \<Rightarrow> (ssherr, 'k ssh_krl, unit) run" where
  "ssh_krl_revoke_cert_by_key_id K A ca key_id =
     andthen (revoked_certs_for_ca_key K A ca True) (\<lambda>i.
       if malloc A sizeof_key_id = None \<or> malloc A (length key_id + 1) = None then throw SSH_ERR_ALLOC_FAIL
       else on_ca (the i) (\<lambda>rc.
         (Inr (), rc\<lparr>revoked_key_ids := snd (rb_insert key_id_cmp key_id (revoked_key_ids rc))\<rparr>)))"

definition plain_key_blob :: "'k key_ops \<Rightarrow> 'k \<Rightarrow> ssherr + u8 list" where
  "plain_key_blob K key =
     (case sshkey_from_private K key of
        Inl e \<Rightarrow> Inl e
      | Inr kcopy \<Rightarrow>
          (case (if sshkey_is_cert K kcopy then sshkey_drop_cert K kcopy else Inr kcopy) of
             Inl e \<Rightarrow> Inl e
           | Inr k \<Rightarrow> sshkey_to_blob K k))"

definition revoke_blob :: "allocator \<Rightarrow> u8 list \<Rightarrow> (ssherr, u8 list list, unit) run" where
  "revoke_blob A blob rbt =
     (if malloc A sizeof_blob = None then (Inl SSH_ERR_ALLOC_FAIL, rbt)
      else (Inr (), snd (rb_insert blob_cmp blob rbt)))"

definition ssh_krl_revoke_key_explicit :: "'k key_ops \<Rightarrow> allocator \<Rightarrow> 'k \<Rightarrow> (ssherr, 'k ssh_krl, unit) run" where
  "ssh_krl_revoke_key_explicit K A key krl =
     (case plain_key_blob K key of
        Inl e \<Rightarrow> (Inl e, krl)
      | Inr blob \<Rightarrow> (case revoke_blob A blob (revoked_keys krl) of (r, t) \<Rightarrow> (r, krl\<lparr>revoked_keys := t\<rparr>)))"

definition revoke_by_hash :: "allocator \<Rightarrow> u8 list \<Rightarrow> (ssherr, u8 list list, unit) run" where
  "revoke_by_hash A p target =
     (if malloc A (length p) = None then (Inl SSH_ERR_SYSTEM_ERROR, target) else revoke_blob A p target)"

definition ssh_krl_revoke_key_sha1 :: "allocator \<Rightarrow> u8 list \<Rightarrow> (ssherr, 'k ssh_krl, unit) run" where
  "ssh_krl_revoke_key_sha1 A p krl =
     (if length p \<noteq> 20 then (Inl SSH_ERR_INVALID_FORMAT, krl)
      else (case revoke_by_hash A p (revoked_sha1s krl) of (r, t) \<Rightarrow> (r, krl\<lparr>revoked_sha1s := t\<rparr>)))"

definition ssh_krl_revoke_key_sha256 :: "allocator \<Rightarrow> u8 list \<Rightarrow> (ssherr, 'k ssh_krl, unit) run" where
  "ssh_krl_revoke_key_sha256 A p krl =
     (if length p \<noteq> 32 then (Inl SSH_ERR_INVALID_FORMAT, krl)
      else (case revoke_by_hash A p (revoked_sha256s krl) of (r, t) \<Rightarrow> (r, krl\<lparr>revoked_sha256s := t\<rparr>)))"

definition ssh_krl_revoke_key :: "'k key_ops \<Rightarrow> shape \<Rightarrow> allocator \<Rightarrow> 'k \<Rightarrow> (ssherr, 'k ssh_krl, unit) run" where
  "ssh_krl_revoke_key K sh A key =
     (if \<not> sshkey_is_cert K key then ssh_krl_revoke_key_explicit K A key
      else if cert_serial K key = 0
      then ssh_krl_revoke_cert_by_key_id K A (Some (cert_signature_key K key)) (cert_key_id K key)
      else ssh_krl_revoke_cert_by_serial K sh A (Some (cert_signature_key K key)) (cert_serial K key))"

subsection \<open>Checking\<close>

definition is_cert_revoked :: "'k key_ops \<Rightarrow> 'k \<Rightarrow> 'k revoked_certs \<Rightarrow> ssherr + unit" where
  "is_cert_revoked K key rc =
     (if rb_find key_id_cmp (cert_key_id K key) (revoked_key_ids rc) \<noteq> None then Inl SSH_ERR_KEY_REVOKED
      else if cert_serial K key = 0 then Inr ()
      else if rb_find serial_cmp (cert_serial K key, cert_serial K key) (revoked_serials rc) \<noteq> None
      then Inl SSH_ERR_KEY_REVOKED
      else Inr ())"

definition check_ca :: "'k key_ops \<Rightarrow> allocator \<Rightarrow> 'k ssh_krl \<Rightarrow> 'k \<Rightarrow> 'k option \<Rightarrow> ssherr + unit" where
  "check_ca K A krl key ca =
     (case revoked_certs_for_ca_key K A ca False krl of
        (Inl e, _) \<Rightarrow> Inl e
      | (Inr None, _) \<Rightarrow> Inr ()
      | (Inr (Some i), krl') \<Rightarrow> is_cert_revoked K key (revoked_cas krl' ! i))"

definition is_key_revoked :: "'k key_ops \<Rightarrow> allocator \<Rightarrow> 'k ssh_krl \<Rightarrow> 'k \<Rightarrow> ssherr + unit" where
  "is_key_revoked K A krl key =
     (case fingerprint_sha1 K key of
        Inl e \<Rightarrow> Inl e
      | Inr h1 \<Rightarrow>
          if rb_find blob_cmp h1 (revoked_sha1s krl) \<noteq> None then Inl SSH_ERR_KEY_REVOKED
          else
            (case fingerprint_sha256 K key of
               Inl e \<Rightarrow> Inl e
             | Inr h2 \<Rightarrow>
                 if rb_find blob_cmp h2 (revoked_sha256s krl) \<noteq> None then Inl SSH_ERR_KEY_REVOKED
                 else
                   (case plain_key_blob K key of
                      Inl e \<Rightarrow> Inl e
                    | Inr b \<Rightarrow>
                        if rb_find blob_cmp b (revoked_keys krl) \<noteq> None then Inl SSH_ERR_KEY_REVOKED
                        else if \<not> sshkey_is_cert K key then Inr ()
                        else
                          (case check_ca K A krl key (Some (cert_signature_key K key)) of
                             Inl e \<Rightarrow> Inl e
                           | Inr _ \<Rightarrow> check_ca K A krl key None))))"

definition ssh_krl_check_key :: "'k key_ops \<Rightarrow> allocator \<Rightarrow> 'k ssh_krl \<Rightarrow> 'k \<Rightarrow> ssherr + unit" where
  "ssh_krl_check_key K A krl key =
     (case is_key_revoked K A krl key of
        Inl e \<Rightarrow> Inl e
      | Inr _ \<Rightarrow> if sshkey_is_cert K key then is_key_revoked K A krl (cert_signature_key K key) else Inr ())"

subsection \<open>Ranges of serial numbers\<close>

text \<open>The set a tree of ranges stands for; its ranges are in order with a gap between neighbours.\<close>

definition serials :: "revoked_serial list \<Rightarrow> u64 set" where
  "serials t = (\<Union>r \<in> set t. {fst r .. snd r})"

definition apart :: "revoked_serial \<Rightarrow> revoked_serial \<Rightarrow> bool" where
  "apart a b \<longleftrightarrow> unat (snd a) + 1 < unat (fst b)"

definition ranges_ok :: "revoked_serial list \<Rightarrow> bool" where
  "ranges_ok t \<longleftrightarrow> (\<forall>r \<in> set t. fst r \<le> snd r) \<and> sorted_wrt apart t"

lemma serials_simps [simp]:
  "serials [] = {}" "serials (r # t) = {fst r .. snd r} \<union> serials t" "serials (s @ t) = serials s \<union> serials t"
  "serials (rev t) = serials t"
  by (auto simp: serials_def)

lemma ranges_ok_append:
  "ranges_ok (s @ t) \<longleftrightarrow> ranges_ok s \<and> ranges_ok t \<and> (\<forall>a \<in> set s. \<forall>b \<in> set t. apart a b)"
  by (auto simp: ranges_ok_def sorted_wrt_append)

lemma ranges_ok_Cons: "ranges_ok (r # t) \<longleftrightarrow> fst r \<le> snd r \<and> (\<forall>b \<in> set t. apart r b) \<and> ranges_ok t"
  by (auto simp: ranges_ok_def)

lemma ranges_ok_Nil [simp]: "ranges_ok []"
  by (simp add: ranges_ok_def)

lemma unat_pred: "(x :: u64) \<noteq> 0 \<Longrightarrow> unat (x - 1) = unat x - 1"
  by (simp add: unat_minus_one)

lemma unat_succ: "(x :: u64) \<noteq> - 1 \<Longrightarrow> unat (x + 1) = unat x + 1"
proof -
  assume "x \<noteq> - 1"
  then have "x + 1 \<noteq> 0" by (metis add_eq_0_iff add.commute)
  then show ?thesis using unat_pred [of "x + 1"] by (simp add: unat_eq_0 [symmetric])
qed

lemma range_join:
  fixes a b c d :: u64
  assumes "a \<le> b" and "c \<le> d" and "a \<le> c" and "unat c \<le> unat b + 1"
  shows "{a .. b} \<union> {c .. d} = {a .. max b d}"
  using assms by (auto simp: max_def word_le_nat_alt word_less_nat_alt split: if_splits)

lemma merge_prev_spec:
  "ranges_ok (rev ps) \<Longrightarrow> fst e \<le> snd e \<Longrightarrow> (\<forall>p \<in> set ps. snd p \<le> snd e) \<Longrightarrow> merge_prev ps e = (qs, f) \<Longrightarrow>
   ranges_ok (rev qs @ [f]) \<and> serials qs \<union> {fst f .. snd f} = serials ps \<union> {fst e .. snd e} \<and>
   fst f \<le> fst e \<and> snd f = snd e"
proof (induction ps e arbitrary: qs f rule: merge_prev.induct)
  case (1 e)
  then show ?case by (auto simp: ranges_ok_def)
next
  case (2 c ps e)
  have ok: "ranges_ok (rev ps)" "fst c \<le> snd c" "\<forall>p \<in> set ps. apart p c" "snd c \<le> snd e" "\<forall>p \<in> set ps. snd p \<le> snd e"
    using 2(2,4) by (auto simp: ranges_ok_append ranges_ok_Cons)
  show ?case
  proof (cases "fst e \<noteq> 0 \<and> snd c < fst e - 1")
    case True
    then have "apart c e" using unat_pred [of "fst e"] by (auto simp: apart_def word_less_nat_alt)
    moreover have "\<forall>p \<in> set ps. apart p e"
      using ok(2,3) \<open>apart c e\<close> by (fastforce simp: apart_def word_le_nat_alt)
    ultimately show ?thesis
      using 2(2,3,5) True by (auto simp: ranges_ok_append ranges_ok_Cons)
  next
    case False
    define g where "g = (if fst c < fst e then (fst c, snd e) else e)"
    have g: "fst g = min (fst c) (fst e)" "snd g = snd e" by (auto simp: g_def min_def)
    have u: "{fst c .. snd c} \<union> {fst e .. snd e} = {fst g .. snd g}"
    proof (cases "fst c < fst e")
      case True
      then have "fst e \<noteq> 0" by auto
      then have "unat (fst e) \<le> unat (snd c) + 1"
        using False unat_pred [of "fst e"] by (auto simp: word_less_nat_alt)
      then show ?thesis using range_join [OF ok(2) 2(3)] True ok(4) by (simp add: g min_def max_def less_imp_le)
    next
      case F: False
      then show ?thesis using ok(4) by (auto simp: g min_def)
    qed
    have "merge_prev ps g = (qs, f)" using 2(5) False by (auto simp: g_def)
    moreover have "fst g \<le> snd g" using 2(3) by (simp add: g min_le_iff_disj)
    ultimately have "ranges_ok (rev qs @ [f]) \<and> serials qs \<union> {fst f .. snd f} = serials ps \<union> {fst g .. snd g} \<and>
        fst f \<le> fst g \<and> snd f = snd g"
      using 2(1) [OF False, folded g_def, of qs f] ok(1,5) unfolding g(2) by blast
    moreover have "fst g \<le> fst e" by (simp add: g)
    ultimately show ?thesis using u g(2) by auto
  qed
qed

lemma merge_next_spec:
  "ranges_ok ss \<Longrightarrow> fst e \<le> snd e \<Longrightarrow> (\<forall>p \<in> set ss. fst e \<le> fst p) \<Longrightarrow> merge_next ss e = (qs, f) \<Longrightarrow>
   ranges_ok (f # qs) \<and> serials qs \<union> {fst f .. snd f} = serials ss \<union> {fst e .. snd e} \<and> fst f = fst e"
proof (induction ss e arbitrary: qs f rule: merge_next.induct)
  case (1 e)
  then show ?case by (auto simp: ranges_ok_def)
next
  case (2 c ss e)
  have ok: "ranges_ok ss" "fst c \<le> snd c" "\<forall>p \<in> set ss. apart c p" "fst e \<le> fst c"
    using 2(2,4) by (auto simp: ranges_ok_Cons)
  show ?case
  proof (cases "snd e \<noteq> - 1 \<and> fst c > snd e + 1")
    case True
    then have "apart e c" using unat_succ [of "snd e"] by (simp add: apart_def word_less_nat_alt)
    moreover have "\<forall>p \<in> set ss. apart e p"
      using \<open>apart e c\<close> ok(2,3) by (fastforce simp: apart_def word_le_nat_alt)
    ultimately show ?thesis using 2(2,3,5) True by (auto simp: ranges_ok_Cons)
  next
    case False
    define g where "g = (if snd c > snd e then (fst e, snd c) else e)"
    have g: "fst g = fst e" "snd g = max (snd e) (snd c)" by (auto simp: g_def max_def)
    have "unat (fst c) \<le> unat (snd e) + 1"
    proof (cases "snd e = - 1")
      case True
      then show ?thesis using word_n1_ge [of "fst c"] by (simp add: word_le_nat_alt)
    next
      case F: False
      then show ?thesis using False unat_succ [OF F] by (simp add: word_less_nat_alt)
    qed
    then have u: "{fst e .. snd e} \<union> {fst c .. snd c} = {fst g .. snd g}"
      unfolding g using range_join [OF 2(3) ok(2) ok(4)] by simp
    have "fst g \<le> snd g" using 2(3) by (simp add: g le_max_iff_disj)
    moreover have "\<forall>p \<in> set ss. fst g \<le> fst p"
      using ok(2-4) by (fastforce simp: g apart_def word_le_nat_alt)
    moreover have "merge_next ss g = (qs, f)" using 2(5) False by (auto simp: g_def)
    ultimately have "ranges_ok (f # qs) \<and> serials qs \<union> {fst f .. snd f} = serials ss \<union> {fst g .. snd g} \<and> fst f = fst g"
      using 2(1) [of qs f] ok(1) False unfolding g_def by blast
    then show ?thesis using u g(1) by auto
  qed
qed

lemma coalesce_spec:
  assumes "ranges_ok pre" and "ranges_ok post" and "fst e \<le> snd e"
    and "\<forall>p \<in> set pre. snd p \<le> snd e" and "\<forall>p \<in> set post. fst e \<le> fst p"
  shows "ranges_ok (coalesce pre e post)" and "serials (coalesce pre e post) = serials pre \<union> {fst e .. snd e} \<union> serials post"
proof -
  obtain ps e1 ss e2 where m: "merge_prev (rev pre) e = (ps, e1)" "merge_next post e1 = (ss, e2)"
    by (metis surj_pair)
  then have c: "coalesce pre e post = rev ps @ e2 # ss" by (simp add: coalesce_def)
  have "ranges_ok (rev (rev pre))" "\<forall>p \<in> set (rev pre). snd p \<le> snd e" using assms by simp_all
  note p = merge_prev_spec [OF this(1) assms(3) this(2) m(1)]
  then have "\<forall>q \<in> set post. fst e1 \<le> fst q" "fst e1 \<le> snd e1" using assms(3,5) by (auto dest: order_trans)
  note n = merge_next_spec [OF assms(2) this(2,1) m(2)]
  have "apart a b" if "a \<in> set ps" "b \<in> set (e2 # ss)" for a b
  proof -
    have "apart a e2" using p n that(1) by (auto simp: ranges_ok_append apart_def)
    moreover have "b \<in> set ss \<Longrightarrow> apart e2 b" "fst e2 \<le> snd e2" using n by (auto simp: ranges_ok_Cons)
    ultimately show ?thesis using that(2) by (fastforce simp: apart_def word_le_nat_alt)
  qed
  then show "ranges_ok (coalesce pre e post)" using p n by (simp add: ranges_ok_append c)
  have "serials ps \<union> {fst e1 .. snd e1} = serials pre \<union> {fst e .. snd e}"
    using p unfolding serials_simps by blast
  moreover have "serials ss \<union> {fst e2 .. snd e2} = serials post \<union> {fst e1 .. snd e1}" using n by blast
  ultimately show "serials (coalesce pre e post) = serials pre \<union> {fst e .. snd e} \<union> serials post"
    unfolding c serials_simps by blast
qed

lemma serial_cmp_facts:
  "fst e \<le> snd e \<Longrightarrow> lo \<le> hi \<Longrightarrow> \<not> serial_cmp (lo, hi) e \<le> 0 \<Longrightarrow> snd e < lo"
  "fst e \<le> snd e \<Longrightarrow> lo \<le> hi \<Longrightarrow> serial_cmp (lo, hi) e < 0 \<Longrightarrow> hi < fst e"
  "serial_cmp e (lo, hi) = 0 \<longleftrightarrow> serial_cmp (lo, hi) e = 0"
  "serial_cmp (lo, hi) e = 0 \<longleftrightarrow> fst e \<le> hi \<and> lo \<le> snd e"
  by (auto simp: serial_cmp_def split: if_splits)

lemma serials_falling:
  assumes "ranges_ok t" and "lo \<le> hi"
  shows "falling serial_cmp (lo, hi) t"
  unfolding falling_def
proof (rule sorted_wrt_mono_rel [of t apart])
  fix a b assume ab: "a \<in> set t" "b \<in> set t" "apart a b"
  then have w: "fst a \<le> snd a" "fst b \<le> snd b" using assms(1) by (auto simp: ranges_ok_def)
  have lt: "snd a < fst b" using ab(3) by (simp add: apart_def word_less_nat_alt)
  show "(serial_cmp (lo, hi) a \<le> 0 \<longrightarrow> serial_cmp (lo, hi) b \<le> 0) \<and> (serial_cmp (lo, hi) a < 0 \<longrightarrow> serial_cmp (lo, hi) b < 0)"
    using w lt assms(2) by (auto simp: serial_cmp_def split: if_splits)
qed (use assms(1) in \<open>simp add: ranges_ok_def\<close>)

lemma before_after: "x \<notin> set pre \<Longrightarrow> before x (pre @ x # post) = pre" "x \<notin> set pre \<Longrightarrow> after x (pre @ x # post) = post"
proof -
  assume "x \<notin> set pre"
  then have "\<forall>e \<in> set pre. e \<noteq> x" by blast
  then show "before x (pre @ x # post) = pre" "after x (pre @ x # post) = post"
    by (simp_all add: before_def after_def takeWhile_append2 dropWhile_append2)
qed

text \<open>With an overlap, the entry that the search gives is grown.\<close>

lemma grow_overlap:
  assumes ok: "ranges_ok t" and le: "lo \<le> hi" and e: "e \<in> set t" "serial_cmp (lo, hi) e = 0"
    and t': "t' = coalesce (before e t) (if fst e > lo then lo else fst e, if snd e < hi then hi else snd e) (after e t)"
  shows "ranges_ok t'" and "serials t' = serials t \<union> {lo .. hi}"
proof -
  obtain pre post where t: "t = pre @ e # post" and notin: "e \<notin> set pre" using e(1) by (meson split_list_first)
  have parts: "ranges_ok pre" "ranges_ok post" "\<forall>p \<in> set pre. apart p e" "fst e \<le> snd e" "\<forall>p \<in> set post. apart e p"
    using ok t by (simp_all add: ranges_ok_append ranges_ok_Cons)
  have ov: "fst e \<le> hi" "lo \<le> snd e" using e(2) by (simp_all add: serial_cmp_facts(4))
  define g where "g = (min lo (fst e), max hi (snd e))"
  have "(if fst e > lo then lo else fst e, if snd e < hi then hi else snd e) = g"
    by (auto simp: g_def min_def max_def)
  then have "t' = coalesce pre g post"
    unfolding t' t before_after [OF notin] by simp
  moreover have "\<forall>p \<in> set pre. snd p \<le> snd g"
  proof
    fix p assume "p \<in> set pre"
    then have "snd p < fst e" using parts(3) by (auto simp: apart_def word_less_nat_alt)
    then have "snd p \<le> snd e" using parts(4) by simp
    then show "snd p \<le> snd g" by (simp add: g_def le_max_iff_disj)
  qed
  moreover have "\<forall>p \<in> set post. fst g \<le> fst p"
    using parts(4,5) by (fastforce simp: g_def apart_def word_le_nat_alt min_def)
  moreover have "fst g \<le> snd g" using le by (simp add: g_def min_le_iff_disj le_max_iff_disj)
  moreover have "{fst g .. snd g} = {lo .. hi} \<union> {fst e .. snd e}"
    using ov le parts(4) by (auto simp: g_def min_def max_def)
  ultimately show "ranges_ok t'" "serials t' = serials t \<union> {lo .. hi}"
    using coalesce_spec [OF parts(1,2), of g] t by auto
qed

text \<open>Without one, a new entry is inserted at its place.\<close>

lemma insert_apart:
  assumes ok: "ranges_ok t" and le: "lo \<le> hi" and none: "\<forall>e \<in> set t. serial_cmp (lo, hi) e \<noteq> 0"
    and t1: "t1 = takeWhile (\<lambda>e. 0 \<le> serial_cmp (lo, hi) e) t @ (lo, hi) # dropWhile (\<lambda>e. 0 \<le> serial_cmp (lo, hi) e) t"
    and t': "t' = coalesce (before (lo, hi) t1) (lo, hi) (after (lo, hi) t1)"
  shows "ranges_ok t'" and "serials t' = serials t \<union> {lo .. hi}"
proof -
  let ?P = "\<lambda>e. 0 \<le> serial_cmp (lo, hi) e"
  define pre post where "pre = takeWhile ?P t" and "post = dropWhile ?P t"
  have t: "t = pre @ post" by (simp add: pre_def post_def)
  have wf: "\<And>e. e \<in> set t \<Longrightarrow> fst e \<le> snd e" using ok by (simp add: ranges_ok_def)
  have pre: "\<forall>p \<in> set pre. snd p < lo"
  proof
    fix p assume "p \<in> set pre"
    then have "?P p" "p \<in> set t" unfolding pre_def by (auto dest: set_takeWhileD)
    then show "snd p < lo" using serial_cmp_facts(1) [OF wf le] none by (metis order_antisym)
  qed
  have post: "\<forall>p \<in> set post. hi < fst p"
  proof
    fix p assume p: "p \<in> set post"
    then obtain d q where d: "post = d # q" by (cases post) auto
    then have nd: "\<not> ?P d" unfolding post_def using dropWhile_eq_Cons_conv [of ?P t d q] by simp
    have "falling serial_cmp (lo, hi) post" using serials_falling [OF ok le] t by (simp add: falling_append)
    then have "serial_cmp (lo, hi) p < 0" using d nd p by (auto simp: falling_Cons)
    then show "hi < fst p" using serial_cmp_facts(2) [OF wf le] p t by simp
  qed
  have "(lo, hi) \<notin> set pre" using pre le by force
  then have "t' = coalesce pre (lo, hi) post"
    using t' before_after [of "(lo, hi)" pre post] by (simp add: t1 pre_def post_def)
  moreover have "ranges_ok pre" "ranges_ok post" using ok t by (simp_all add: ranges_ok_append)
  moreover have "\<forall>p \<in> set pre. snd p \<le> hi" "\<forall>p \<in> set post. lo \<le> fst p" using pre post le by fastforce+
  ultimately show "ranges_ok t'" "serials t' = serials t \<union> {lo .. hi}"
    using coalesce_spec [of pre post "(lo, hi)"] le t by auto
qed

lemma insert_serial_range_spec:
  assumes ok: "ranges_ok t" and le: "lo \<le> hi" and alloc: "malloc A sizeof_serial \<noteq> None" and sh: "inorder (sh t) = t"
  obtains t' where "insert_serial_range sh A lo hi t = (Inr (), t')" and "ranges_ok t'"
    and "serials t' = serials t \<union> {lo .. hi}"
proof -
  have f: "falling serial_cmp (lo, hi) (inorder (sh t))" using serials_falling [OF ok le] sh by simp
  have set: "set_tree (sh t) = set t" using set_inorder [of "sh t"] sh by simp
  note nf = rbt_nfind_from_spec [OF f, of None, folded rbt_nfind_def]
  show thesis
  proof (cases "\<exists>e \<in> set t. serial_cmp (lo, hi) e = 0")
    case True
    then obtain e where e: "e \<in> set t" "serial_cmp (lo, hi) e = 0" "rbt_nfind serial_cmp (lo, hi) (sh t) = Some e"
      using nf set by auto
    then have "insert_serial_range sh A lo hi t = (Inr (), coalesce (before e t)
        (if fst e > lo then lo else fst e, if snd e < hi then hi else snd e) (after e t))"
      by (simp add: insert_serial_range_def Let_def serial_cmp_facts(3))
    then show thesis using that grow_overlap [OF ok le e(1,2) refl] by simp
  next
    case False
    then have none: "\<forall>e \<in> set t. serial_cmp (lo, hi) e \<noteq> 0" by blast
    have "rbt_find serial_cmp (lo, hi) (sh t) = None" using rbt_find_None [OF f] none set by simp
    note ins = rbt_insert_new [OF f this, unfolded sh]
    have "rbt_nfind serial_cmp (lo, hi) (sh t) = Some e \<Longrightarrow> serial_cmp e (lo, hi) \<noteq> 0" for e
    proof -
      assume "rbt_nfind serial_cmp (lo, hi) (sh t) = Some e"
      then have "e \<in> set (dropWhile (\<lambda>e. 0 \<le> serial_cmp (lo, hi) e) t)"
        using nf none unfolding set sh by (auto split: list.splits)
      then show ?thesis using none by (metis serial_cmp_facts(3) set_dropWhileD)
    qed
    then have "insert_serial_range sh A lo hi t =
        (case rbt_insert serial_cmp (lo, hi) (sh t) of (Some _, _) \<Rightarrow> (Inl SSH_ERR_INTERNAL_ERROR, t)
         | (None, t1) \<Rightarrow> (Inr (), coalesce (before (lo, hi) (inorder t1)) (lo, hi) (after (lo, hi) (inorder t1))))"
      using alloc by (cases "rbt_nfind serial_cmp (lo, hi) (sh t)") (auto simp: insert_serial_range_def Let_def)
    then show thesis
      using that ins insert_apart [OF ok le none refl refl] by (cases "rbt_insert serial_cmp (lo, hi) (sh t)") auto
  qed
qed

lemma insert_serial_range_cases:
  assumes "ranges_ok t" and "lo \<le> hi" and "inorder (sh t) = t"
  obtains (fail) "malloc A sizeof_serial = None" and "insert_serial_range sh A lo hi t = (Inl SSH_ERR_ALLOC_FAIL, t)"
  | (inserted) t' where "insert_serial_range sh A lo hi t = (Inr (), t')" and "ranges_ok t'"
      and "serials t' = serials t \<union> {lo .. hi}"
proof -
  have m: "malloc demo_allocator sizeof_serial = Some (sizeof_serial, 0)" by (simp add: demo_allocator_def)
  then have d: "malloc demo_allocator sizeof_serial \<noteq> None" by simp
  have "malloc A sizeof_serial = None \<and> insert_serial_range sh A lo hi t = (Inl SSH_ERR_ALLOC_FAIL, t) \<or>
        insert_serial_range sh A lo hi t = insert_serial_range sh demo_allocator lo hi t"
    by (simp add: insert_serial_range_def Let_def m)
  then show thesis using insert_serial_range_spec [of t lo hi demo_allocator sh, OF assms(1,2) d assms(3)] fail inserted by metis
qed

lemma serial_find: "rb_find serial_cmp (s, s) t \<noteq> None \<longleftrightarrow> s \<in> serials t"
proof -
  have "rb_find serial_cmp (s, s) t \<noteq> None \<longleftrightarrow> (\<exists>e \<in> set t. fst e \<le> s \<and> s \<le> snd e)"
    unfolding rb_find_def find_None_iff serial_cmp_facts(4) by blast
  then show ?thesis by (auto simp: serials_def)
qed

subsection \<open>Identifiers and blobs\<close>

lemma strcmp_eq: "strcmp a b = 0 \<longleftrightarrow> a = b"
  by (induction a b rule: strcmp.induct) (auto simp: word_uint_eq_iff)

lemma strcmp_less: "strcmp a b < 0 \<longleftrightarrow> (a, b) \<in> lexord {(x, y). x < y}"
  by (induction a b rule: strcmp.induct) (auto simp: word_less_def)

lemma strcmp_greater: "0 < strcmp a b \<longleftrightarrow> strcmp b a < 0"
  by (induction a b rule: strcmp.induct) auto

lemma strcmp_trans: "strcmp a b < 0 \<Longrightarrow> strcmp b c < 0 \<Longrightarrow> strcmp a c < 0"
  unfolding strcmp_less by (rule lexord_trans) (auto intro: transI)

interpretation ids: rb_order key_id_cmp
  by unfold_locales (auto simp: key_id_cmp_def strcmp_eq strcmp_greater intro: strcmp_trans)

lemma memcmp_strcmp: "length a = length b \<Longrightarrow> memcmp a b = strcmp a b"
  by (induction a b rule: strcmp.induct) auto

lemma strcmp_take:
  "length a < length b \<Longrightarrow>
   strcmp a b = (if strcmp a (take (length a) b) \<noteq> 0 then strcmp a (take (length a) b) else - 1)"
  "length b < length a \<Longrightarrow>
   strcmp a b = (if strcmp (take (length b) a) b \<noteq> 0 then strcmp (take (length b) a) b else 1)"
  by (induction a b rule: strcmp.induct) (auto simp: word_uint_eq_iff)

lemma blob_cmp_strcmp: "blob_cmp a b = strcmp a b"
proof (cases "length a" "length b" rule: linorder_cases)
  case less
  then show ?thesis using strcmp_take(1) [OF less] by (simp add: blob_cmp_def memcmp_strcmp Let_def min_def)
next
  case equal
  then show ?thesis by (simp add: blob_cmp_def memcmp_strcmp)
next
  case greater
  then show ?thesis using strcmp_take(2) [OF greater] by (simp add: blob_cmp_def memcmp_strcmp Let_def min_def)
qed

interpretation blobs: rb_order blob_cmp
  by unfold_locales (auto simp: blob_cmp_strcmp strcmp_eq strcmp_greater intro: strcmp_trans)

subsection \<open>Entries of certification authorities\<close>

lemma find_index:
  "find P xs = (let i = length (takeWhile (\<lambda>x. \<not> P x) xs) in if i < length xs then Some (xs ! i) else None)"
  by (induction xs) (auto simp: Let_def)

lemma check_ca_find:
  "check_ca K A krl key ca =
     (case find (same_ca K ca) (revoked_cas krl) of None \<Rightarrow> Inr () | Some rc \<Rightarrow> is_cert_revoked K key rc)"
  by (simp add: check_ca_def revoked_certs_for_ca_key_def find_index Let_def)

definition krl_ok :: "'k ssh_krl \<Rightarrow> bool" where
  "krl_ok krl \<longleftrightarrow> (\<forall>rc \<in> set (revoked_cas krl). ranges_ok (revoked_serials rc))"

text \<open>One entry, or one list, revokes at least what another does.\<close>

definition certs_le :: "'k revoked_certs \<Rightarrow> 'k revoked_certs \<Rightarrow> bool" where
  "certs_le a b \<longleftrightarrow> serials (revoked_serials a) \<subseteq> serials (revoked_serials b) \<and>
     set (revoked_key_ids a) \<subseteq> set (revoked_key_ids b) \<and> ca_key a = ca_key b"

definition krl_le :: "'k key_ops \<Rightarrow> 'k ssh_krl \<Rightarrow> 'k ssh_krl \<Rightarrow> bool" where
  "krl_le K a b \<longleftrightarrow>
     set (revoked_keys a) \<subseteq> set (revoked_keys b) \<and> set (revoked_sha1s a) \<subseteq> set (revoked_sha1s b) \<and>
     set (revoked_sha256s a) \<subseteq> set (revoked_sha256s b) \<and>
     (\<forall>ca rc. find (same_ca K ca) (revoked_cas a) = Some rc \<longrightarrow>
        (\<exists>rc'. find (same_ca K ca) (revoked_cas b) = Some rc' \<and> certs_le rc rc'))"

lemma certs_le_refl [simp]: "certs_le a a"
  by (simp add: certs_le_def)

lemma krl_le_refl [simp]: "krl_le K a a"
  by (auto simp: krl_le_def)

lemma certs_le_trans: "certs_le a b \<Longrightarrow> certs_le b c \<Longrightarrow> certs_le a c"
  by (auto simp: certs_le_def)

lemma krl_le_trans:
  assumes "krl_le K a b" and "krl_le K b c"
  shows "krl_le K a c"
proof -
  have "\<exists>rc''. find (same_ca K ca) (revoked_cas c) = Some rc'' \<and> certs_le rc rc''"
    if f: "find (same_ca K ca) (revoked_cas a) = Some rc" for ca rc
  proof -
    obtain rc' where "find (same_ca K ca) (revoked_cas b) = Some rc'" "certs_le rc rc'"
      using assms(1) f unfolding krl_le_def by blast
    then show ?thesis using assms(2) certs_le_trans unfolding krl_le_def by blast
  qed
  then show ?thesis using assms unfolding krl_le_def by blast
qed

lemma is_cert_revoked_iff:
  "is_cert_revoked K key rc = Inr () \<longleftrightarrow>
     cert_key_id K key \<notin> set (revoked_key_ids rc) \<and>
     (cert_serial K key = 0 \<or> cert_serial K key \<notin> serials (revoked_serials rc))"
  using ids.find_iff [of "cert_key_id K key" "revoked_key_ids rc"] serial_find [of "cert_serial K key" "revoked_serials rc"]
  by (auto simp: is_cert_revoked_def)

text \<open>What it means for a key, and for a key with its authority, to be accepted.\<close>

definition key_accepted :: "'k key_ops \<Rightarrow> 'k ssh_krl \<Rightarrow> 'k \<Rightarrow> bool" where
  "key_accepted K krl key \<longleftrightarrow>
     (\<exists>h. fingerprint_sha1 K key = Inr h \<and> h \<notin> set (revoked_sha1s krl)) \<and>
     (\<exists>h. fingerprint_sha256 K key = Inr h \<and> h \<notin> set (revoked_sha256s krl)) \<and>
     (\<exists>b. plain_key_blob K key = Inr b \<and> b \<notin> set (revoked_keys krl)) \<and>
     (sshkey_is_cert K key \<longrightarrow>
        (\<forall>ca \<in> {Some (cert_signature_key K key), None}. \<forall>rc. find (same_ca K ca) (revoked_cas krl) = Some rc \<longrightarrow>
           cert_key_id K key \<notin> set (revoked_key_ids rc) \<and>
           (cert_serial K key = 0 \<or> cert_serial K key \<notin> serials (revoked_serials rc))))"

lemma check_ca_iff:
  "check_ca K A krl key ca = Inr () \<longleftrightarrow>
     (\<forall>rc. find (same_ca K ca) (revoked_cas krl) = Some rc \<longrightarrow>
        cert_key_id K key \<notin> set (revoked_key_ids rc) \<and>
        (cert_serial K key = 0 \<or> cert_serial K key \<notin> serials (revoked_serials rc)))"
  by (simp add: check_ca_find is_cert_revoked_iff split: option.splits)

lemma is_key_revoked_iff: "is_key_revoked K A krl key = Inr () \<longleftrightarrow> key_accepted K krl key"
proof -
  have find: "rb_find blob_cmp x t = None \<longleftrightarrow> x \<notin> set t" for x t using blobs.find_iff [of x t] by auto
  have ca: "(case check_ca K A krl key c of Inl e \<Rightarrow> Inl e | Inr _ \<Rightarrow> m) = Inr () \<longleftrightarrow>
      check_ca K A krl key c = Inr () \<and> m = Inr ()" for c and m :: "ssherr + unit"
    by (auto split: sum.splits)
  show ?thesis
    by (cases "fingerprint_sha1 K key"; cases "fingerprint_sha256 K key"; cases "plain_key_blob K key")
      (simp_all add: is_key_revoked_def key_accepted_def find ca check_ca_iff)
qed

lemma check_key_iff:
  "ssh_krl_check_key K A krl key = Inr () \<longleftrightarrow>
     key_accepted K krl key \<and> (sshkey_is_cert K key \<longrightarrow> key_accepted K krl (cert_signature_key K key))"
  using is_key_revoked_iff [of K A krl key] is_key_revoked_iff [of K A krl "cert_signature_key K key"]
  by (auto simp: ssh_krl_check_key_def split: sum.splits)

lemma accepted_antimono: "krl_le K a b \<Longrightarrow> key_accepted K b key \<Longrightarrow> key_accepted K a key"
  unfolding key_accepted_def krl_le_def certs_le_def by (intro conjI) (blast | meson subsetD)+

subsection \<open>Revoking keeps what was revoked\<close>

lemma find_update:
  "find P xs = Some y \<Longrightarrow> i < length xs \<Longrightarrow> P z = P (xs ! i) \<Longrightarrow>
   find P (xs[i := z]) = Some y \<or> (y = xs ! i \<and> find P (xs[i := z]) = Some z)"
proof (induction xs arbitrary: i)
  case (Cons x xs)
  then show ?case by (cases i) (auto split: if_splits)
qed simp

lemma find_append_Some: "find P xs = Some y \<Longrightarrow> find P (xs @ ys) = Some y"
  by (induction xs) (auto split: if_splits)

lemma krl_le_append: "krl_le K krl (krl\<lparr>revoked_cas := revoked_cas krl @ rcs\<rparr>)"
  by (auto simp: krl_le_def find_append_Some)

lemma same_ca_key: "ca_key a = ca_key b \<Longrightarrow> same_ca K ca a = same_ca K ca b"
  by (simp add: same_ca_def)

lemma krl_le_update:
  assumes "certs_le (revoked_cas krl ! i) rc" and "i < length (revoked_cas krl)"
  shows "krl_le K krl (krl\<lparr>revoked_cas := (revoked_cas krl)[i := rc]\<rparr>)"
proof -
  have "\<exists>rc''. find (same_ca K ca) ((revoked_cas krl)[i := rc]) = Some rc'' \<and> certs_le rc' rc''"
    if "find (same_ca K ca) (revoked_cas krl) = Some rc'" for ca rc'
  proof -
    have "ca_key rc = ca_key (revoked_cas krl ! i)" using assms(1) by (simp add: certs_le_def)
    from find_update [OF that assms(2) same_ca_key [OF this]] show ?thesis using assms(1) certs_le_refl by metis
  qed
  then show ?thesis by (simp add: krl_le_def)
qed

lemma for_ca_key_cases:
  assumes "revoked_certs_for_ca_key K A ca True krl = (Inr i, krl')"
    and copy: "\<And>k c. sshkey_from_private K k = Inr c \<Longrightarrow> sshkey_equal K c k"
  obtains (old) "krl' = krl" and "find (same_ca K ca) (revoked_cas krl) \<noteq> None"
  | (new) rc where "same_ca K ca rc" and "ranges_ok (revoked_serials rc)"
      and "krl' = krl\<lparr>revoked_cas := revoked_cas krl @ [rc]\<rparr>" and "find (same_ca K ca) (revoked_cas krl) = None"
proof (cases "find (same_ca K ca) (revoked_cas krl)")
  case None
  then have "\<not> length (takeWhile (\<lambda>rc. \<not> same_ca K ca rc) (revoked_cas krl)) < length (revoked_cas krl)"
    by (simp add: find_index Let_def split: if_splits)
  then have c: "(case (case ca of None \<Rightarrow> Inr None | Some k \<Rightarrow> map_sum id Some (sshkey_from_private K k)) of
      Inl e \<Rightarrow> (Inl e, krl)
    | Inr ck \<Rightarrow> (Inr (Some (length (takeWhile (\<lambda>rc. \<not> same_ca K ca rc) (revoked_cas krl)))),
        krl\<lparr>revoked_cas := revoked_cas krl @ [\<lparr>ca_key = ck, revoked_serials = [], revoked_key_ids = []\<rparr>]\<rparr>)) = (Inr i, krl')"
    using assms(1) by (simp add: revoked_certs_for_ca_key_def Let_def split: if_splits)
  show thesis
  proof (cases ca)
    case n: None
    then show thesis using new [of "\<lparr>ca_key = None, revoked_serials = [], revoked_key_ids = []\<rparr>"] None c by (simp add: same_ca_def)
  next
    case (Some k)
    then obtain b where "sshkey_from_private K k = Inr b" using c by (cases "sshkey_from_private K k") auto
    then show thesis
      using new [of "\<lparr>ca_key = Some b, revoked_serials = [], revoked_key_ids = []\<rparr>"] None Some c copy by (simp add: same_ca_def)
  qed
next
  case (Some rc)
  then have "length (takeWhile (\<lambda>rc. \<not> same_ca K ca rc) (revoked_cas krl)) < length (revoked_cas krl)"
    by (simp add: find_index Let_def split: if_splits)
  then show thesis using old Some assms(1) by (simp add: revoked_certs_for_ca_key_def Let_def)
qed

lemma for_ca_key_index:
  "revoked_certs_for_ca_key K A ca True krl = (Inr i, krl') \<Longrightarrow>
   i = Some (length (takeWhile (\<lambda>rc. \<not> same_ca K ca rc) (revoked_cas krl)))"
  by (auto simp: revoked_certs_for_ca_key_def Let_def split: if_splits sum.splits)

lemma for_ca_key_created:
  assumes "revoked_certs_for_ca_key K A ca True krl = (Inr i, krl')"
    and copy: "\<And>k c. sshkey_from_private K k = Inr c \<Longrightarrow> sshkey_equal K c k"
  shows "\<exists>j. i = Some j \<and> j < length (revoked_cas krl') \<and> same_ca K ca (revoked_cas krl' ! j) \<and>
           (\<forall>k < j. \<not> same_ca K ca (revoked_cas krl' ! k))"
    and "krl_le K krl krl'" and "krl_ok krl \<Longrightarrow> krl_ok krl'"
proof -
  define j where "j = length (takeWhile (\<lambda>rc. \<not> same_ca K ca rc) (revoked_cas krl))"
  have i: "i = Some j" using for_ca_key_index [OF assms(1)] by (simp add: j_def)
  have before: "\<not> same_ca K ca (revoked_cas krl ! k)" "k < length (revoked_cas krl)" if "k < j" for k
    using that length_takeWhile_le [of _ "revoked_cas krl"] unfolding j_def
    by (metis nth_mem set_takeWhileD takeWhile_nth, metis order_less_le_trans)
  from assms show "krl_le K krl krl'" "krl_ok krl \<Longrightarrow> krl_ok krl'"
    by (rule for_ca_key_cases; use krl_le_append in \<open>auto simp: krl_ok_def\<close>)+
  from assms show "\<exists>j. i = Some j \<and> j < length (revoked_cas krl') \<and> same_ca K ca (revoked_cas krl' ! j) \<and>
      (\<forall>k < j. \<not> same_ca K ca (revoked_cas krl' ! k))"
  proof (rule for_ca_key_cases)
    assume "krl' = krl" and "find (same_ca K ca) (revoked_cas krl) \<noteq> None"
    then have "j < length (revoked_cas krl)" by (simp add: find_index Let_def j_def split: if_splits)
    moreover from this have "same_ca K ca (revoked_cas krl ! j)" unfolding j_def using nth_length_takeWhile by blast
    ultimately show ?thesis using i before \<open>krl' = krl\<close> by simp
  next
    fix rc assume rc: "same_ca K ca rc" "krl' = krl\<lparr>revoked_cas := revoked_cas krl @ [rc]\<rparr>"
      and "find (same_ca K ca) (revoked_cas krl) = None"
    then have "\<not> j < length (revoked_cas krl)" by (simp add: find_index Let_def j_def split: if_splits)
    then have "j = length (revoked_cas krl)" using length_takeWhile_le [of _ "revoked_cas krl"] unfolding j_def by (meson le_neq_implies_less)
    then show ?thesis using i before rc by (simp add: nth_append)
  qed
qed

lemma find_first:
  "j < length xs \<Longrightarrow> P (xs ! j) \<Longrightarrow> (\<forall>k < j. \<not> P (xs ! k)) \<Longrightarrow> find P xs = Some (xs ! j)"
  by (auto simp: find_Some_iff)

text \<open>Every change of an entry goes through this lemma.\<close>

lemma revoke_in_ca:
  assumes "andthen (revoked_certs_for_ca_key K A ca True) (\<lambda>i. on_ca (the i) f) krl = (Inr (), krl')"
    and copy: "\<And>k c. sshkey_from_private K k = Inr c \<Longrightarrow> sshkey_equal K c k"
    and f: "\<And>rc rc'. ranges_ok (revoked_serials rc) \<Longrightarrow> f rc = (Inr (), rc') \<Longrightarrow>
              certs_le rc rc' \<and> ranges_ok (revoked_serials rc') \<and> Q rc'"
    and ok: "krl_ok krl"
  shows "krl_ok krl' \<and> krl_le K krl krl' \<and> (\<exists>rc. find (same_ca K ca) (revoked_cas krl') = Some rc \<and> Q rc)"
proof -
  obtain i krl1 where 1: "revoked_certs_for_ca_key K A ca True krl = (Inr i, krl1)" "on_ca (the i) f krl1 = (Inr (), krl')"
    using assms(1) by (rule andthen_InrE)
  note created = for_ca_key_created [OF 1(1) copy]
  obtain j where j: "i = Some j" "j < length (revoked_cas krl1)" "same_ca K ca (revoked_cas krl1 ! j)"
    "\<forall>k < j. \<not> same_ca K ca (revoked_cas krl1 ! k)" using created(1) by blast
  obtain rc' where rc': "f (revoked_cas krl1 ! j) = (Inr (), rc')" "krl' = krl1\<lparr>revoked_cas := (revoked_cas krl1)[j := rc']\<rparr>"
    using 1(2) j(1) by (auto simp: on_ca_def split: prod.splits)
  have ok1: "krl_ok krl1" using created(3) ok by simp
  then have "ranges_ok (revoked_serials (revoked_cas krl1 ! j))" using j(2) by (simp add: krl_ok_def)
  from f [OF this rc'(1)] have fs: "certs_le (revoked_cas krl1 ! j) rc'" "ranges_ok (revoked_serials rc')" "Q rc'" by simp_all
  have "same_ca K ca rc'" using j(3) fs(1) same_ca_key by (metis certs_le_def)
  then have "find (same_ca K ca) (revoked_cas krl') = Some rc'"
    using j find_first [of j "revoked_cas krl'" "same_ca K ca"] by (simp add: rc'(2))
  moreover have "krl_le K krl krl'"
    using created(2) krl_le_update [OF fs(1) j(2)] krl_le_trans unfolding rc'(2) by metis
  moreover have "krl_ok krl'"
    using ok1 fs(2) set_update_subset_insert [of "revoked_cas krl1" j rc'] by (auto simp: krl_ok_def rc'(2))
  ultimately show ?thesis using fs(3) by blast
qed

lemma revoke_range_effect:
  assumes "ssh_krl_revoke_cert_by_serial_range K sh A ca lo hi krl = (Inr (), krl')" and sh: "\<And>t. inorder (sh t) = t"
    and copy: "\<And>k c. sshkey_from_private K k = Inr c \<Longrightarrow> sshkey_equal K c k" and ok: "krl_ok krl"
  shows "krl_ok krl' \<and> krl_le K krl krl' \<and>
    (\<exists>rc. find (same_ca K ca) (revoked_cas krl') = Some rc \<and> {lo .. hi} \<subseteq> serials (revoked_serials rc))"
proof -
  let ?f = "\<lambda>rc :: _ revoked_certs. case insert_serial_range sh A lo hi (revoked_serials rc) of (r, t) \<Rightarrow> (r, rc\<lparr>revoked_serials := t\<rparr>)"
  have le: "lo \<le> hi" and r: "andthen (revoked_certs_for_ca_key K A ca True) (\<lambda>i. on_ca (the i) ?f) krl = (Inr (), krl')"
    using assms(1) by (auto simp: ssh_krl_revoke_cert_by_serial_range_def throw_def split: if_splits)
  show ?thesis
  proof (rule revoke_in_ca [OF r copy _ ok])
    fix rc rc' assume wf: "ranges_ok (revoked_serials rc)" and f: "?f rc = (Inr (), rc')"
    show "certs_le rc rc' \<and> ranges_ok (revoked_serials rc') \<and> {lo .. hi} \<subseteq> serials (revoked_serials rc')"
      by (rule insert_serial_range_cases [of "revoked_serials rc" lo hi sh A, OF wf le sh]) (use f in \<open>auto simp: certs_le_def\<close>)
  qed
qed

lemma revoke_key_id_effect:
  assumes "ssh_krl_revoke_cert_by_key_id K A ca key_id krl = (Inr (), krl')"
    and copy: "\<And>k c. sshkey_from_private K k = Inr c \<Longrightarrow> sshkey_equal K c k" and ok: "krl_ok krl"
  shows "krl_ok krl' \<and> krl_le K krl krl' \<and>
    (\<exists>rc. find (same_ca K ca) (revoked_cas krl') = Some rc \<and> key_id \<in> set (revoked_key_ids rc))"
proof -
  let ?f = "\<lambda>rc :: _ revoked_certs. (Inr (), rc\<lparr>revoked_key_ids := snd (rb_insert key_id_cmp key_id (revoked_key_ids rc))\<rparr>)"
  have r: "andthen (revoked_certs_for_ca_key K A ca True) (\<lambda>i. on_ca (the i) ?f) krl = (Inr (), krl')"
    using assms(1) by (auto simp: ssh_krl_revoke_cert_by_key_id_def andthen_def throw_def split: if_splits prod.splits sum.splits)
  show ?thesis
    by (rule revoke_in_ca [OF r copy _ ok]) (auto simp: certs_le_def ids.insert_set)
qed

lemma revoke_explicit_effect:
  assumes "ssh_krl_revoke_key_explicit K A key krl = (Inr (), krl')" and "krl_ok krl"
  shows "krl_ok krl' \<and> krl_le K krl krl' \<and> (\<exists>b. plain_key_blob K key = Inr b \<and> b \<in> set (revoked_keys krl'))"
  using assms
  by (auto simp: ssh_krl_revoke_key_explicit_def revoke_blob_def krl_ok_def krl_le_def blobs.insert_set
           split: sum.splits if_splits)

subsection \<open>Properties\<close>

text \<open>
  C34. Serial numbers: revoking any sequence of ranges into an empty tree succeeds (when memory suffices)
  and gives, whatever shape the balancing has given to the tree at each step, ordered ranges with gaps
  between them, in which the search finds exactly the serial
  numbers of the ranges.
\<close>

theorem krl_serials_are_sets:
  assumes "never_fails A" and "list_all (\<lambda>(sh, lo, hi). lo \<le> hi \<and> (\<forall>t. inorder (sh t) = t)) rs"
  shows "\<exists>t. put_all (\<lambda>(sh, lo, hi). insert_serial_range sh A lo hi) rs [] = (Inr (), t) \<and> ranges_ok t \<and>
         (\<forall>s. rb_find serial_cmp (s, s) t \<noteq> None \<longleftrightarrow> (\<exists>(sh, lo, hi) \<in> set rs. lo \<le> s \<and> s \<le> hi))"
proof -
  have "\<exists>t. put_all (\<lambda>(sh, lo, hi). insert_serial_range sh A lo hi) rs t0 = (Inr (), t) \<and> ranges_ok t \<and>
      serials t = serials t0 \<union> serials (map snd rs)" if "ranges_ok t0" for t0
    using assms(2) that
  proof (induction rs arbitrary: t0)
    case Nil
    then show ?case by (simp add: ret_def)
  next
    case (Cons r rs)
    obtain sh lo hi where r: "r = (sh, lo, hi)" using prod_cases3 by blast
    then have le: "lo \<le> hi" "inorder (sh t0) = t0" using Cons.prems(1) by auto
    have "malloc A sizeof_serial \<noteq> None" using assms(1) by (simp add: never_fails_def sizeof_serial_def)
    then obtain t1 where t1: "insert_serial_range sh A lo hi t0 = (Inr (), t1)" "ranges_ok t1" "serials t1 = serials t0 \<union> {lo .. hi}"
      using insert_serial_range_spec [of t0 lo hi A sh, OF Cons.prems(2) le(1) _ le(2)] by metis
    then show ?case using Cons.IH [of t1] Cons.prems(1) by (auto simp: r andthen_def)
  qed
  from this [of "[]"] obtain t where t: "put_all (\<lambda>(sh, lo, hi). insert_serial_range sh A lo hi) rs [] = (Inr (), t)" "ranges_ok t"
    "serials t = serials (map snd rs)" by auto
  have "s \<in> serials (map snd rs) \<longleftrightarrow> (\<exists>(sh, lo, hi) \<in> set rs. lo \<le> s \<and> s \<le> hi)" for s
    by (auto simp: serials_def case_prod_beta)
  then show ?thesis using t(1,2) unfolding serial_find t(3) [symmetric] by blast
qed

definition demo_shape :: shape where
  "demo_shape xs = foldr (\<lambda>x t. Node Leaf x t) xs Leaf"

lemma demo_shape_inorder: "inorder (demo_shape t) = t"
  by (induction t) (auto simp: demo_shape_def)

theorem krl_serials_are_sets_witness:
  "\<exists>t. put_all (\<lambda>(sh, lo, hi). insert_serial_range sh demo_allocator lo hi)
      [(demo_shape, 5, 9), (demo_shape, 1, 2), (demo_shape, 3, 4)] [] = (Inr (), t) \<and>
     ranges_ok t \<and> rb_find serial_cmp (7, 7) t \<noteq> None"
  using krl_serials_are_sets [OF demo_never_fails, of "[(demo_shape, 5, 9), (demo_shape, 1, 2), (demo_shape, 3, 4)]"]
  by (auto simp: demo_shape_inorder)

text \<open>
  C35. Revocation: after a key or certificate has been revoked it is never accepted again by the check,
  and nothing that was rejected before becomes accepted, for every list and any behaviour of the key
  library in which a copied key equals its original; the shape of the trees does not matter.
\<close>

theorem krl_revoke_effective:
  assumes ok: "krl_ok krl" and copy: "\<And>k c. sshkey_from_private K k = Inr c \<Longrightarrow> sshkey_equal K c k"
    and sh: "\<And>t. inorder (sh t) = t" and rev: "ssh_krl_revoke_key K sh A key krl = (Inr (), krl')"
  shows "krl_ok krl' \<and> ssh_krl_check_key K A krl' key \<noteq> Inr () \<and>
         (\<forall>k. ssh_krl_check_key K A krl k \<noteq> Inr () \<longrightarrow> ssh_krl_check_key K A krl' k \<noteq> Inr ())"
proof -
  have "krl_ok krl' \<and> krl_le K krl krl' \<and> \<not> key_accepted K krl' key"
  proof (cases "sshkey_is_cert K key")
    case False
    then show ?thesis
      using rev revoke_explicit_effect [OF _ ok, of K A key krl'] by (auto simp: ssh_krl_revoke_key_def key_accepted_def)
  next
    case cert: True
    show ?thesis
    proof (cases "cert_serial K key = 0")
      case True
      then show ?thesis
        using cert rev revoke_key_id_effect [OF _ copy ok, of A "Some (cert_signature_key K key)" "cert_key_id K key" krl']
        by (auto simp: ssh_krl_revoke_key_def key_accepted_def)
    next
      case False
      then show ?thesis
        using cert rev revoke_range_effect [OF _ sh copy ok, of A "Some (cert_signature_key K key)" "cert_serial K key" "cert_serial K key" krl']
        by (auto simp: ssh_krl_revoke_key_def key_accepted_def ssh_krl_revoke_cert_by_serial_def)
    qed
  qed
  then show ?thesis using accepted_antimono [of K krl krl'] unfolding check_key_iff by blast
qed

definition demo_keys :: "u8 list key_ops" where
  "demo_keys = \<lparr>sshkey_equal = (=), sshkey_from_private = Inr, sshkey_is_cert = (\<lambda>k. hd k = 1),
     sshkey_drop_cert = (\<lambda>k. Inr (tl k)), sshkey_to_blob = Inr, sshkey_from_blob = Inr,
     fingerprint_sha1 = (\<lambda>k. Inr (1 # k)), fingerprint_sha256 = (\<lambda>k. Inr (2 # k)),
     cert_serial = (\<lambda>k. ucast (last k)), cert_key_id = tl, cert_signature_key = (\<lambda>k. [0])\<rparr>"

theorem krl_revoke_effective_witness:
  "ssh_krl_check_key demo_keys demo_allocator (snd (ssh_krl_revoke_key demo_keys demo_shape demo_allocator [1, 7] empty_krl)) [1, 7] \<noteq> Inr ()"
proof -
  have ok: "krl_ok empty_krl" by (simp add: krl_ok_def empty_krl_def)
  have copy: "\<And>k c. sshkey_from_private demo_keys k = Inr c \<Longrightarrow> sshkey_equal demo_keys c k"
    by (simp add: demo_keys_def)
  have "fst (ssh_krl_revoke_key demo_keys demo_shape demo_allocator [1, 7] empty_krl) = Inr ()"
    by (simp add: ssh_krl_revoke_key_def ssh_krl_revoke_cert_by_serial_def ssh_krl_revoke_cert_by_serial_range_def
        revoked_certs_for_ca_key_def on_ca_def insert_serial_range_def rbt_nfind_def demo_shape_def Let_def
        demo_keys_def demo_allocator_def empty_krl_def andthen_def)
  then have "ssh_krl_revoke_key demo_keys demo_shape demo_allocator [1, 7] empty_krl =
      (Inr (), snd (ssh_krl_revoke_key demo_keys demo_shape demo_allocator [1, 7] empty_krl))"
    by (metis prod.collapse)
  from krl_revoke_effective [OF ok copy demo_shape_inorder this] show ?thesis by simp
qed

end
