(* ===== verification/Base64.thy ===== *)
theory Base64
  imports Cstring
begin

text \<open>
  Base 64 (\<^verbatim>\<open>openbsd-compat/base64.c\<close>). The encoder writes its output from the start of the target array, so
  the array is the list of the characters written so far; the decoder updates bytes it has written
  before, so its target is the array itself, \<open>None\<close> for \<^verbatim>\<open>NULL\<close>. A result \<open>None\<close> is the return value -1.
\<close>

subsection \<open>Encoding\<close>

definition Base64 :: string where
  "Base64 = ''ABCDEFGHIJKLMNOPQRSTUVWXYZabcdefghijklmnopqrstuvwxyz0123456789+/''"

definition Pad64 :: char where "Pad64 = CHR ''=''"

text \<open>The six-bit groups of three bytes.\<close>

definition output0 :: "u8 \<Rightarrow> u8" where "output0 a = drop_bit 2 a"
definition output1 :: "u8 \<Rightarrow> u8 \<Rightarrow> u8" where "output1 a b = push_bit 4 (a AND 0x03) + drop_bit 4 b"
definition output2 :: "u8 \<Rightarrow> u8 \<Rightarrow> u8" where "output2 b c = push_bit 2 (b AND 0x0f) + drop_bit 6 c"
definition output3 :: "u8 \<Rightarrow> u8" where "output3 c = c AND 0x3f"

definition digit64 :: "u8 \<Rightarrow> char" where "digit64 v = Base64 ! unat v"

fun ntop_loop :: "u8 list \<Rightarrow> nat \<Rightarrow> string \<Rightarrow> (u8 list \<times> string) option" where
  "ntop_loop (a # b # c # src) targsize target =
     (if length target + 4 > targsize then None
      else ntop_loop src targsize
             (target @ [digit64 (output0 a), digit64 (output1 a b), digit64 (output2 b c), digit64 (output3 c)]))"
| "ntop_loop src targsize target = Some (src, target)"

definition ntop_rest :: "u8 list \<Rightarrow> nat \<Rightarrow> string \<Rightarrow> string option" where
  "ntop_rest src targsize target =
     (if src = [] then Some target
      else
        let a = src ! 0; b = (if length src > 1 then src ! 1 else 0) in
        if length target + 4 > targsize then None
        else Some (target @ [digit64 (output0 a), digit64 (output1 a b)] @
                   (if length src = 1 then [Pad64] else [digit64 (output2 b 0)]) @ [Pad64]))"

definition b64_ntop :: "u8 list \<Rightarrow> nat \<Rightarrow> string option" where
  "b64_ntop src targsize =
     (case ntop_loop src targsize [] of
        None \<Rightarrow> None
      | Some (rest, target) \<Rightarrow>
          (case ntop_rest rest targsize target of
             None \<Rightarrow> None
           | Some target' \<Rightarrow> if length target' \<ge> targsize then None else Some target'))"

subsection \<open>Decoding\<close>

definition strchr64 :: "char \<Rightarrow> nat option" where
  "strchr64 c = (let k = length (takeWhile (\<lambda>x. x \<noteq> c) Base64) in if k < length Base64 then Some k else None)"

text \<open>
  One digit of value \<open>v\<close>, by the state of the decoder: the new state and index, and the target. \<open>upd\<close>
  writes to the target when there is one, and fails when the index \<open>n\<close> is outside it.
\<close>

definition upd :: "nat \<Rightarrow> (u8 list \<Rightarrow> u8 list) \<Rightarrow> u8 list option \<Rightarrow> u8 list option option" where
  "upd n f target =
     (case target of None \<Rightarrow> Some None | Some t \<Rightarrow> if n \<ge> length t then None else Some (Some (f t)))"

definition pton_digit :: "nat \<Rightarrow> nat \<Rightarrow> u8 \<Rightarrow> u8 list option \<Rightarrow> (nat \<times> nat \<times> u8 list option) option" where
  "pton_digit state i v target =
     (if state = 0 then
        map_option (\<lambda>t. (1, i, t)) (upd i (\<lambda>t. t[i := push_bit 2 v]) target)
      else if state = 1 then
        map_option (\<lambda>t. (2, i + 1, t))
          (upd (i + 1) (\<lambda>t. t[i := t ! i OR drop_bit 4 v, i + 1 := push_bit 4 (v AND 0x0f)]) target)
      else if state = 2 then
        map_option (\<lambda>t. (3, i + 1, t))
          (upd (i + 1) (\<lambda>t. t[i := t ! i OR drop_bit 2 v, i + 1 := push_bit 6 (v AND 0x03)]) target)
      else map_option (\<lambda>t. (0, i + 1, t)) (upd i (\<lambda>t. t[i := t ! i OR v]) target))"

text \<open>The loop stops at the end of the string or at the first padding character.\<close>

fun pton_loop :: "string \<Rightarrow> nat \<Rightarrow> nat \<Rightarrow> u8 list option \<Rightarrow> (string \<times> nat \<times> nat \<times> u8 list option) option" where
  "pton_loop [] state i target = Some ([], state, i, target)"
| "pton_loop (ch # src) state i target =
     (if isspace ch then pton_loop src state i target
      else if ch = Pad64 then Some (ch # src, state, i, target)
      else
        (case strchr64 ch of
           None \<Rightarrow> None
         | Some v \<Rightarrow>
             (case pton_digit state i (of_nat v) target of
                None \<Rightarrow> None
              | Some (state', i', target') \<Rightarrow> pton_loop src state' i' target')))"

text \<open>What follows the last digit; \<open>src\<close> is the rest of the string behind the padding character.\<close>

definition pton_pad :: "string \<Rightarrow> nat \<Rightarrow> nat \<Rightarrow> u8 list option \<Rightarrow> bool" where
  "pton_pad src state i target \<longleftrightarrow>
     (let tail = (if state = 2
                  then (case dropWhile isspace src of [] \<Rightarrow> None | c # s \<Rightarrow> if c = Pad64 then Some s else None)
                  else Some src)
      in 2 \<le> state \<and> tail \<noteq> None \<and> list_all isspace (the tail) \<and>
         (case target of None \<Rightarrow> True | Some t \<Rightarrow> t ! i = 0))"

definition b64_pton :: "string \<Rightarrow> u8 list option \<Rightarrow> (nat \<times> u8 list option) option" where
  "b64_pton src target =
     (case pton_loop src 0 0 target of
        None \<Rightarrow> None
      | Some (rest, state, i, target') \<Rightarrow>
          (case rest of
             [] \<Rightarrow> if state \<noteq> 0 then None else Some (i, target')
           | _ # s \<Rightarrow> if pton_pad s state i target' then Some (i, target') else None))"

subsection \<open>The alphabet\<close>

lemma length_Base64 [simp]: "length Base64 = 64"
  by (simp add: Base64_def)

lemma distinct_Base64: "distinct Base64"
  by (simp add: Base64_def)

lemma strchr64_digit: "v < 64 \<Longrightarrow> strchr64 (Base64 ! v) = Some v"
  using distinct_Base64 by (simp add: strchr64_def nth_eq_iff_index_eq takeWhile_eq_take_P_nth [of v])

lemma strchr64_Some: "strchr64 c = Some v \<Longrightarrow> v < 64 \<and> Base64 ! v = c"
  using nth_length_takeWhile [of "\<lambda>x. x \<noteq> c" Base64] by (auto simp: strchr64_def Let_def split: if_splits)

lemma Base64_graphic: "c \<in> set Base64 \<Longrightarrow> \<not> isspace c \<and> c \<noteq> Pad64"
proof -
  have "list_all (\<lambda>c. \<not> isspace c \<and> c \<noteq> Pad64) Base64" by (simp add: Base64_def Pad64_def ctype_defs)
  then show "c \<in> set Base64 \<Longrightarrow> \<not> isspace c \<and> c \<noteq> Pad64" by (auto simp: list_all_iff)
qed

lemma space_not_Pad: "\<not> isspace Pad64"
  by (simp add: Pad64_def ctype_defs)

subsection \<open>Six-bit groups\<close>

definition byte0 :: "u8 \<Rightarrow> u8 \<Rightarrow> u8" where "byte0 u v = push_bit 2 u OR drop_bit 4 v"
definition byte1 :: "u8 \<Rightarrow> u8 \<Rightarrow> u8" where "byte1 v w = push_bit 4 (v AND 0x0f) OR drop_bit 2 w"
definition byte2 :: "u8 \<Rightarrow> u8 \<Rightarrow> u8" where "byte2 w x = push_bit 6 (w AND 0x03) OR x"

definition sextet :: "u8 \<Rightarrow> bool" where "sextet v \<longleftrightarrow> \<not> bit v 6 \<and> \<not> bit v 7"

lemma u8_eqI:
  "bit x 0 = bit y 0 \<Longrightarrow> bit x 1 = bit y 1 \<Longrightarrow> bit x 2 = bit y 2 \<Longrightarrow> bit x 3 = bit y 3 \<Longrightarrow>
   bit x 4 = bit y 4 \<Longrightarrow> bit x 5 = bit y 5 \<Longrightarrow> bit x 6 = bit y 6 \<Longrightarrow> bit x 7 = bit y 7 \<Longrightarrow> x = (y :: u8)"
proof (rule bit_word_eqI)
  fix n assume b: "bit x 0 = bit y 0" "bit x 1 = bit y 1" "bit x 2 = bit y 2" "bit x 3 = bit y 3"
    "bit x 4 = bit y 4" "bit x 5 = bit y 5" "bit x 6 = bit y 6" "bit x 7 = bit y 7" and "n < LENGTH(8)"
  then have "n = 0 \<or> n = 1 \<or> n = 2 \<or> n = 3 \<or> n = 4 \<or> n = 5 \<or> n = 6 \<or> n = 7" by simp presburger
  then show "bit x n = bit y n" using b by (elim disjE) (simp_all only:)
qed

lemma low_masks: "(0x03 :: u8) = mask 2" "(0x0f :: u8) = mask 4" "(0x3f :: u8) = mask 6"
  by (simp_all add: mask_eq_exp_minus_1)

lemma output_or:
  "output1 a b = push_bit 4 (a AND 0x03) OR drop_bit 4 b" "output2 b c = push_bit 2 (b AND 0x0f) OR drop_bit 6 c"
  unfolding output1_def output2_def low_masks
  by (rule disjunctive_add; auto simp: byte_bit_simps bit_u8_high)+

lemmas sextet_bits = byte0_def byte1_def byte2_def output0_def output_or output3_def low_masks byte_bit_simps bit_u8_high sextet_def

lemma bytes_of_outputs:
  "byte0 (output0 a) (output1 a b) = a" "byte1 (output1 a b) (output2 b c) = b" "byte2 (output2 b c) (output3 c) = c"
  by (rule u8_eqI; simp add: sextet_bits)+

lemma outputs_of_bytes:
  "sextet u \<Longrightarrow> sextet v \<Longrightarrow> output0 (byte0 u v) = u" "sextet v \<Longrightarrow> sextet w \<Longrightarrow> output1 (byte0 u v) (byte1 v w) = v"
  "sextet w \<Longrightarrow> sextet x \<Longrightarrow> output2 (byte1 v w) (byte2 w x) = w" "sextet x \<Longrightarrow> output3 (byte2 w x) = x"
  by (rule u8_eqI; simp add: sextet_bits)+

lemma sextet_outputs [simp]: "sextet (output0 a)" "sextet (output1 a b)" "sextet (output2 b c)" "sextet (output3 c)"
  by (simp_all add: sextet_bits)

lemma sextet_less: "sextet v \<longleftrightarrow> unat v < 64"
proof -
  have "sextet v \<longleftrightarrow> take_bit 6 v = v"
  proof
    show "take_bit 6 v = v" if "sextet v" by (rule u8_eqI) (use that in \<open>simp_all add: sextet_def bit_take_bit_iff\<close>)
    show "sextet v" if "take_bit 6 v = v"
      using that bit_take_bit_iff [of 6 v 6] bit_take_bit_iff [of 6 v 7] by (simp add: sextet_def)
  qed
  also have "\<dots> \<longleftrightarrow> unat v mod 64 = unat v"
  proof -
    have "unat (take_bit 6 v) = take_bit 6 (unat v)" by (rule unsigned_take_bit_eq)
    then show ?thesis by (simp add: word_unat_eq_iff [of "take_bit 6 v"] take_bit_eq_mod [of 6 "unat v"])
  qed
  finally show ?thesis by auto
qed

lemma strchr64_digit64: "sextet v \<Longrightarrow> strchr64 (digit64 v) = Some (unat v)"
  by (simp add: digit64_def strchr64_digit sextet_less)

lemma digit64_graphic: "sextet v \<Longrightarrow> \<not> isspace (digit64 v) \<and> digit64 v \<noteq> Pad64"
  using Base64_graphic [of "digit64 v"] by (simp add: digit64_def sextet_less)

lemma strchr64_sextet: "strchr64 c = Some k \<Longrightarrow> sextet (of_nat k) \<and> digit64 (of_nat k) = c"
  using strchr64_Some [of c k] by (simp add: sextet_less digit64_def unat_of_nat)

subsection \<open>The encoding of a byte list\<close>

fun enc64 :: "u8 list \<Rightarrow> string" where
  "enc64 [] = []"
| "enc64 [a] = [digit64 (output0 a), digit64 (output1 a 0), Pad64, Pad64]"
| "enc64 [a, b] = [digit64 (output0 a), digit64 (output1 a b), digit64 (output2 b 0), Pad64]"
| "enc64 (a # b # c # s) =
     [digit64 (output0 a), digit64 (output1 a b), digit64 (output2 b c), digit64 (output3 c)] @ enc64 s"

lemma length_enc64: "length (enc64 s) = (length s + 2) div 3 * 4"
proof (induction s rule: enc64.induct)
  case (4 a b c s)
  have "(length s + 2 + 3) div 3 = (length s + 2) div 3 + 1" by simp
  then show ?case using 4 by (simp add: ac_simps)
qed simp_all

lemma ntop_loop_result:
  "ntop_loop src n out =
     (let g = length src div 3 in
      if g > 0 \<and> n < length out + 4 * g then None
      else Some (drop (3 * g) src, out @ enc64 (take (3 * g) src)))"
proof (induction src arbitrary: out rule: enc64.induct)
  case (4 a b c s)
  have "length (a # b # c # s) div 3 = Suc (length s div 3)" by simp
  moreover have "take (3 + m) (a # b # c # s) = a # b # c # take m s" "drop (3 + m) (a # b # c # s) = drop m s" for m
    by (simp_all add: numeral_3_eq_3)
  ultimately show ?case using 4 [of "out @ [digit64 (output0 a), digit64 (output1 a b), digit64 (output2 b c), digit64 (output3 c)]"]
    by (simp add: Let_def)
qed simp_all

lemma enc64_append: "length s mod 3 = 0 \<Longrightarrow> enc64 (s @ t) = enc64 s @ enc64 t"
  by (induction s rule: enc64.induct) simp_all

lemma b64_ntop_result: "b64_ntop src n = (if length (enc64 src) < n then Some (enc64 src) else None)"
proof -
  define g where "g = length src div 3"
  define rest where "rest = drop (3 * g) src"
  have l: "length rest < 3" by (simp_all add: rest_def g_def)
  have t: "length (take (3 * g) src) = 3 * g" by (simp add: g_def)
  have e: "enc64 src = enc64 (take (3 * g) src) @ enc64 rest"
    using enc64_append [of "take (3 * g) src" rest] by (simp only: t) (simp add: rest_def)
  have len: "length (enc64 (take (3 * g) src)) = 4 * g" unfolding length_enc64 t by simp
  consider "rest = []" | a where "rest = [a]" | a b where "rest = [a, b]"
    using l by (cases rest rule: enc64.cases) auto
  moreover obtain out where out: "out = enc64 (take (3 * g) src)" by simp
  have "ntop_loop src n [] = (if g > 0 \<and> n < 4 * g then None else Some (rest, out))"
    by (simp add: ntop_loop_result Let_def g_def [symmetric] rest_def out)
  moreover have "enc64 src = out @ enc64 rest" "length out = 4 * g" using e len out by simp_all
  ultimately show ?thesis by cases (auto simp: b64_ntop_def ntop_rest_def)
qed

subsection \<open>Decoding ignores white space\<close>

abbreviation dense :: "string \<Rightarrow> string" where "dense s \<equiv> filter (\<lambda>c. \<not> isspace c) s"

lemma pton_loop_dense:
  "pton_loop (dense s) st i t = map_option (\<lambda>(r, x). (dense r, x)) (pton_loop s st i t)"
  by (induction s st i t rule: pton_loop.induct) (auto simp: space_not_Pad split: option.splits)

lemma dense_head:
  "dense s = (case dropWhile isspace s of [] \<Rightarrow> [] | c # r \<Rightarrow> c # dense r)"
  by (induction s) auto

lemma dropWhile_dense: "dropWhile isspace (dense s) = dense s"
  by (induction s) auto

lemma pton_pad_dense: "pton_pad (dense s) st i t = pton_pad s st i t"
proof -
  have all: "list_all isspace (dense r) = list_all isspace r" for r by (induction r) auto
  show ?thesis
  proof (cases "st = 2")
    case True
    show ?thesis
    proof (cases "dropWhile isspace s")
      case Nil
      moreover have "dense s = []" using dense_head [of s] unfolding Nil by simp
      ultimately show ?thesis unfolding pton_pad_def dropWhile_dense by (simp only: True Let_def list.case simp_thms if_True)
    next
      case (Cons c r)
      moreover have "dense s = c # dense r" using dense_head [of s] unfolding Cons by simp
      ultimately show ?thesis unfolding pton_pad_def dropWhile_dense by (simp add: True Let_def all)
    qed
  qed (simp add: pton_pad_def Let_def all)
qed

lemma pton_loop_rest: "pton_loop s st i t = Some (r, x) \<Longrightarrow> r = [] \<or> hd r = Pad64"
  by (induction s st i t rule: pton_loop.induct) (auto split: if_splits option.splits)

lemma b64_pton_dense: "b64_pton (dense s) t = b64_pton s t"
proof (cases "pton_loop s 0 0 t")
  case (Some r)
  obtain rest st i t' where r: "r = (rest, st, i, t')" by (metis prod_cases4)
  have "rest = [] \<or> hd rest = Pad64" using pton_loop_rest Some r by simp
  then show ?thesis using Some r
    by (cases rest) (simp_all add: b64_pton_def pton_loop_dense space_not_Pad pton_pad_dense)
qed (simp add: b64_pton_def pton_loop_dense)

subsection \<open>Decoding\<close>

definition pton_end :: "string \<times> nat \<times> nat \<times> u8 list option \<Rightarrow> (nat \<times> u8 list option) option" where
  "pton_end r =
     (case r of (rest, state, i, target) \<Rightarrow>
        (case rest of
           [] \<Rightarrow> if state \<noteq> 0 then None else Some (i, target)
         | _ # s \<Rightarrow> if pton_pad s state i target then Some (i, target) else None))"

definition pton_from :: "string \<Rightarrow> nat \<Rightarrow> nat \<Rightarrow> u8 list \<Rightarrow> (nat \<times> u8 list option) option" where
  "pton_from s state k t = Option.bind (pton_loop s state k (Some t)) pton_end"

lemma b64_pton_from: "b64_pton s (Some t) = pton_from s 0 0 t"
  by (simp add: b64_pton_def pton_from_def pton_end_def split: option.splits)

lemma pton_from_digit:
  assumes "sextet v"
  shows "pton_from (digit64 v # s) 0 k t = (if k < length t then pton_from s 1 k (t[k := push_bit 2 v]) else None)"
    and "pton_from (digit64 v # s) 1 k t = (if k + 1 < length t
      then pton_from s 2 (k + 1) (t[k := t ! k OR drop_bit 4 v, k + 1 := push_bit 4 (v AND 0x0f)]) else None)"
    and "pton_from (digit64 v # s) 2 k t = (if k + 1 < length t
      then pton_from s 3 (k + 1) (t[k := t ! k OR drop_bit 2 v, k + 1 := push_bit 6 (v AND 0x03)]) else None)"
    and "pton_from (digit64 v # s) 3 k t = (if k < length t then pton_from s 0 (k + 1) (t[k := t ! k OR v]) else None)"
  using digit64_graphic [OF assms] strchr64_digit64 [OF assms]
  by (simp_all add: pton_from_def pton_digit_def upd_def)

text \<open>A group of two, three or four digits.\<close>

lemma pton_from_group:
  assumes "sextet u" "sextet v"
  shows "pton_from (digit64 u # digit64 v # s) 0 k t =
      (if k + 1 < length t then pton_from s 2 (k + 1) (t[k := byte0 u v, k + 1 := byte1 v 0]) else None)"
    and "sextet w \<Longrightarrow> pton_from (digit64 u # digit64 v # digit64 w # s) 0 k t =
      (if k + 2 < length t then pton_from s 3 (k + 2) (t[k := byte0 u v, k + 1 := byte1 v w, k + 2 := byte2 w 0]) else None)"
    and "sextet w \<Longrightarrow> sextet x \<Longrightarrow> pton_from (digit64 u # digit64 v # digit64 w # digit64 x # s) 0 k t =
      (if k + 2 < length t then pton_from s 0 (k + 3) (t[k := byte0 u v, k + 1 := byte1 v w, k + 2 := byte2 w x]) else None)"
proof -
  show two: "pton_from (digit64 u # digit64 v # s) 0 k t =
      (if k + 1 < length t then pton_from s 2 (k + 1) (t[k := byte0 u v, k + 1 := byte1 v 0]) else None)" for s
    using assms by (simp add: pton_from_digit(1) pton_from_digit(2) [unfolded One_nat_def] byte0_def byte1_def)
  show three: "pton_from (digit64 u # digit64 v # digit64 w # s) 0 k t =
      (if k + 2 < length t then pton_from s 3 (k + 2) (t[k := byte0 u v, k + 1 := byte1 v w, k + 2 := byte2 w 0]) else None)"
    if "sextet w" for s
    using that by (simp add: two pton_from_digit byte1_def byte2_def)
  show "pton_from (digit64 u # digit64 v # digit64 w # digit64 x # s) 0 k t =
      (if k + 2 < length t then pton_from s 0 (k + 3) (t[k := byte0 u v, k + 1 := byte1 v w, k + 2 := byte2 w x]) else None)"
    if "sextet w" "sextet x"
  proof -
    have k: "k + 3 = Suc (Suc (Suc k))" by simp
    show ?thesis using that by (simp add: three [OF that(1)] pton_from_digit(4) byte2_def k)
  qed
qed

lemma pton_from_pad:
  "pton_from [] st k t = (if st = 0 then Some (k, Some t) else None)"
  "pton_from (Pad64 # s) st k t = (if pton_pad s st k (Some t) then Some (k, Some t) else None)"
  by (simp_all add: pton_from_def pton_end_def space_not_Pad)

lemma output_zero: "byte1 (output1 a 0) 0 = 0" "byte2 (output2 b 0) 0 = 0"
  by (rule u8_eqI; simp add: sextet_bits)+

lemma byte_ignores: "byte1 (output1 a b) (output2 b 0) = b" "byte0 (output0 a) (output1 a b) = a"
  using bytes_of_outputs by simp_all

lemma pton_pad_simps:
  "pton_pad [] 3 k (Some t) \<longleftrightarrow> t ! k = 0" "pton_pad [Pad64] 2 k (Some t) \<longleftrightarrow> t ! k = 0"
  by (simp_all add: pton_pad_def space_not_Pad)

lemma pton_enc64:
  "k + length bs + (if length bs mod 3 = 0 then 0 else 1) \<le> length t \<Longrightarrow>
   \<exists>t'. pton_from (enc64 bs) 0 k t = Some (k + length bs, Some t') \<and> length t' = length t \<and>
        take (k + length bs) t' = take k t @ bs"
proof (induction bs arbitrary: k t rule: enc64.induct)
  case 1
  then show ?case by (simp add: pton_from_pad)
next
  case (2 a)
  then have "k + 1 < length t" by simp
  then show ?case
    by (simp add: pton_from_group(1) pton_from_pad pton_pad_simps output_zero byte_ignores take_Suc_conv_app_nth)
next
  case (3 a b)
  then have "k + 2 < length t" by simp
  then show ?case
    by (simp add: pton_from_group(2) pton_from_pad pton_pad_simps output_zero byte_ignores take_Suc_conv_app_nth nth_list_update)
next
  case (4 a b c s)
  let ?t = "t[k := a, k + 1 := b, k + 2 := c]"
  have m: "length (a # b # c # s) = 3 + length s" "(3 + length s) mod 3 = length s mod 3" by simp_all
  have len: "k + 2 < length t" "k + 3 + length s + (if length s mod 3 = 0 then 0 else 1) \<le> length ?t"
    using "4.prems" m by (auto simp del: One_nat_def)
  have tk: "take (k + 3) ?t = take k t @ [a, b, c]"
    using len(1) by (simp add: numeral_3_eq_3 take_Suc_conv_app_nth nth_list_update)
  have e: "k + length (a # b # c # s) = k + 3 + length s" by simp
  show ?case unfolding e using "4.IH" [OF len(2)] len(1) tk by (auto simp: pton_from_group(3) bytes_of_outputs)
qed

lemma digit_or_not:
  assumes "\<not> isspace c" and "c \<noteq> Pad64"
  obtains (digit) v where "c = digit64 v" "sextet v" | (bad) "\<And>s st k t. pton_from (c # s) st k t = None"
proof (cases "strchr64 c")
  case None
  then show thesis using bad assms by (simp add: pton_from_def)
next
  case (Some v)
  then show thesis using digit [of "of_nat v"] strchr64_sextet [OF Some] by simp
qed

text \<open>
  Decoding gives the bytes whose encoding the string is. The bits of the last digit that belong to no byte
  have to be zero, so that no other string has the same value.
\<close>

definition decoded :: "string \<Rightarrow> nat \<Rightarrow> u8 list \<Rightarrow> nat \<Rightarrow> u8 list \<Rightarrow> bool" where
  "decoded s k t n t' \<longleftrightarrow> k \<le> n \<and> n \<le> length t \<and> length t' = length t \<and> take k t' = take k t \<and>
     s = enc64 (drop k (take n t'))"

lemma decoded_one:
  assumes "sextet u" "sextet v" and "k + 1 < length t" and "pton_from (Pad64 # s) 2 (k + 1) (t[k := byte0 u v, k + 1 := byte1 v 0]) = Some (n, t')"
    and "list_all (\<lambda>c. \<not> isspace c) s"
  shows "\<exists>t''. t' = Some t'' \<and> decoded (digit64 u # digit64 v # Pad64 # s) k t n t''"
proof -
  have pad: "pton_pad s 2 (k + 1) (Some (t[k := byte0 u v, k + 1 := byte1 v 0]))"
    and n: "n = k + 1" "t' = Some (t[k := byte0 u v, k + 1 := byte1 v 0])"
    using assms(4) by (auto simp: pton_from_pad split: if_splits)
  have "byte1 v 0 = 0" using pad assms(3) by (simp add: pton_pad_def Let_def)
  then have v: "output1 (byte0 u v) 0 = v" using outputs_of_bytes(2) [of v 0 u] assms(2) by (simp add: sextet_def)
  have "dropWhile isspace s = s" using assms(5) by (cases s) auto
  then obtain r where r: "s = Pad64 # r" "list_all isspace r"
    using pad unfolding pton_pad_def Let_def by (cases s) (auto split: if_splits)
  then have "s = [Pad64]" using assms(5) by (cases r) simp_all
  then show ?thesis
    using n assms(1-3) v outputs_of_bytes(1) [OF assms(1,2)] by (auto simp: decoded_def take_Suc_conv_app_nth)
qed

lemma decoded_two:
  assumes "sextet u" "sextet v" "sextet w" and "k + 2 < length t"
    and "pton_from (Pad64 # s) 3 (k + 2) (t[k := byte0 u v, k + 1 := byte1 v w, k + 2 := byte2 w 0]) = Some (n, t')"
    and "list_all (\<lambda>c. \<not> isspace c) s"
  shows "\<exists>t''. t' = Some t'' \<and> decoded (digit64 u # digit64 v # digit64 w # Pad64 # s) k t n t''"
proof -
  have pad: "pton_pad s 3 (k + 2) (Some (t[k := byte0 u v, k + 1 := byte1 v w, k + 2 := byte2 w 0]))"
    and n: "n = k + 2" "t' = Some (t[k := byte0 u v, k + 1 := byte1 v w, k + 2 := byte2 w 0])"
    using assms(5) by (auto simp: pton_from_pad split: if_splits)
  have "byte2 w 0 = 0" using pad assms(4) by (simp add: pton_pad_def Let_def)
  then have w: "output2 (byte1 v w) 0 = w" using outputs_of_bytes(3) [of w 0 v] assms(3) by (simp add: sextet_def)
  have "s = []" using pad assms(6) by (cases s) (simp_all add: pton_pad_def Let_def)
  moreover have "output0 (byte0 u v) = u" "output1 (byte0 u v) (byte1 v w) = v" using outputs_of_bytes assms(1-3) by simp_all
  ultimately show ?thesis
    using n assms(4) w by (auto simp: decoded_def take_Suc_conv_app_nth nth_list_update)
qed

lemma decoded_more:
  assumes "sextet u" "sextet v" "sextet w" "sextet x" and "k + 2 < length t"
    and "decoded s (k + 3) (t[k := byte0 u v, k + 1 := byte1 v w, k + 2 := byte2 w x]) n t'"
  shows "decoded (digit64 u # digit64 v # digit64 w # digit64 x # s) k t n t'"
proof -
  let ?t = "t[k := byte0 u v, k + 1 := byte1 v w, k + 2 := byte2 w x]"
  have "take (k + 3) ?t = take k t @ [byte0 u v, byte1 v w, byte2 w x]"
    using assms(5) by (simp add: numeral_3_eq_3 take_Suc_conv_app_nth nth_list_update)
  then have t': "take (k + 3) t' = take k t @ [byte0 u v, byte1 v w, byte2 w x]" and n: "k + 3 \<le> n" "n \<le> length t"
    "length t' = length t" "s = enc64 (drop (k + 3) (take n t'))"
    using assms(6) by (auto simp: decoded_def)
  have "take n t' = take (k + 3) t' @ drop (k + 3) (take n t')"
    using n(1) by (metis append_take_drop_id min.absorb1 take_take)
  then have split: "take n t' = take k t @ [byte0 u v, byte1 v w, byte2 w x] @ drop (k + 3) (take n t')" using t' by simp
  then have "drop k (take n t') = [byte0 u v, byte1 v w, byte2 w x] @ drop (k + 3) (take n t')"
    using assms(5) by (metis append_eq_conv_conj length_take less_imp_le_nat min.absorb2 add_lessD1)
  moreover have "take k t' = take k t"
    using t' assms(5) by (metis append_eq_conv_conj length_take less_imp_le_nat min.absorb1 min.absorb2 take_take add_lessD1 le_add1)
  ultimately show ?thesis using n outputs_of_bytes assms(1-4) by (simp add: decoded_def)
qed

lemma pton_from_cases:
  assumes "pton_from s st k t = Some r" and "list_all (\<lambda>c. \<not> isspace c) s"
  obtains "s = []" "st = 0" | s' where "s = Pad64 # s'" "2 \<le> st" | v s' where "s = digit64 v # s'" "sextet v"
proof (cases s)
  case Nil
  then show thesis using that(1) assms(1) by (simp add: pton_from_pad split: if_splits)
next
  case (Cons c s')
  show thesis
  proof (cases "c = Pad64")
    case True
    then show thesis using that(2) [of s'] assms(1) Cons by (simp add: pton_from_pad pton_pad_def Let_def split: if_splits)
  next
    case False
    then show thesis using digit_or_not [of c] that(3) assms Cons by (metis list.pred_inject(2) option.distinct(1))
  qed
qed

lemma pton_first_two:
  assumes "pton_from s 0 k t = Some r" and "list_all (\<lambda>c. \<not> isspace c) s" and "s \<noteq> []"
  obtains u v s2 where "s = digit64 u # digit64 v # s2" "sextet u" "sextet v" "k + 1 < length t"
    "pton_from s2 2 (k + 1) (t[k := byte0 u v, k + 1 := byte1 v 0]) = Some r" "list_all (\<lambda>c. \<not> isspace c) s2"
proof -
  obtain u s1 where u: "s = digit64 u # s1" "sextet u"
    using assms by (cases rule: pton_from_cases [OF assms(1,2)]) auto
  have "pton_from s1 1 k (t[k := push_bit 2 u]) = Some r" "list_all (\<lambda>c. \<not> isspace c) s1"
    using assms(1,2) u by (simp_all add: pton_from_digit split: if_splits)
  then obtain v s2 where v: "s1 = digit64 v # s2" "sextet v" by (cases rule: pton_from_cases) auto
  then show thesis
    using that [of u v s2] u assms(1,2) pton_from_group(1) [OF u(2) v(2)] by (auto split: if_splits)
qed

lemma pton_decoded:
  "list_all (\<lambda>c. \<not> isspace c) s \<Longrightarrow> pton_from s 0 k t = Some (n, t') \<Longrightarrow> k \<le> length t \<Longrightarrow>
   \<exists>t''. t' = Some t'' \<and> decoded s k t n t''"
proof (induction "length s" arbitrary: s k t rule: less_induct)
  case less
  show ?case
  proof (cases "s = []")
    case True
    then show ?thesis using less.prems by (auto simp: pton_from_pad decoded_def)
  next
    case False
    obtain u v s2 where s: "s = digit64 u # digit64 v # s2" "sextet u" "sextet v" and k: "k + 1 < length t"
      and run2: "pton_from s2 2 (k + 1) (t[k := byte0 u v, k + 1 := byte1 v 0]) = Some (n, t')" "list_all (\<lambda>c. \<not> isspace c) s2"
      by (rule pton_first_two [OF less.prems(2,1) False])
    from run2 show ?thesis
    proof (cases rule: pton_from_cases)
      case (2 s3)
      then show ?thesis using decoded_one [OF s(2,3) k, of s3 n t'] run2 s(1) by simp
    next
      case (3 w s3)
      note w = 3
      have k2: "k + 2 < length t"
        and run3: "pton_from s3 3 (k + 2) (t[k := byte0 u v, k + 1 := byte1 v w, k + 2 := byte2 w 0]) = Some (n, t')"
        using less.prems(2) s w pton_from_group(2) [OF s(2,3) w(2)] by (auto split: if_splits)
      have d3: "list_all (\<lambda>c. \<not> isspace c) s3" using run2(2) w by simp
      from run3 d3 show ?thesis
      proof (cases rule: pton_from_cases)
        case (2 s4)
        then show ?thesis using decoded_two [OF s(2,3) w(2) k2, of s4 n t'] run3 d3 s(1) w(1) by simp
      next
        case (3 x s4)
        let ?t = "t[k := byte0 u v, k + 1 := byte1 v w, k + 2 := byte2 w x]"
        have "pton_from s4 0 (k + 3) ?t = Some (n, t')"
          using less.prems(2) s w 3 k2 pton_from_group(3) [OF s(2,3) w(2) 3(2)] by (auto split: if_splits)
        moreover have "length s4 < length s" "list_all (\<lambda>c. \<not> isspace c) s4" "k + 3 \<le> length ?t"
          using s w 3 d3 k2 by simp_all
        ultimately obtain t'' where "t' = Some t''" "decoded s4 (k + 3) ?t n t''" using less.hyps by blast
        then show ?thesis using decoded_more [OF s(2,3) w(2) 3(2) k2] s(1) w(1) 3(1) by blast
      qed simp
    qed simp
  qed
qed

text \<open>The space the decoder needs: one byte more than the result unless the result is whole groups.\<close>

definition room64 :: "nat \<Rightarrow> nat" where
  "room64 n = (if n mod 3 = 0 then n else n + 1)"

lemma b64_pton_run: "b64_pton s (Some t) = pton_from (dense s) 0 0 t"
  by (metis b64_pton_dense b64_pton_from)

lemma pton_dense_enc64:
  assumes "dense s = enc64 bs" and "room64 (length bs) \<le> length t"
  shows "\<exists>t'. b64_pton s (Some t) = Some (length bs, Some t') \<and> take (length bs) t' = bs"
proof -
  have "0 + length bs + (if length bs mod 3 = 0 then 0 else 1) \<le> length t"
    using assms(2) by (simp add: room64_def split: if_splits)
  from pton_enc64 [OF this] show ?thesis unfolding b64_pton_run assms(1) by auto
qed

lemma pton_only_enc64:
  assumes "b64_pton s (Some t) = Some (length bs, Some t')" and "take (length bs) t' = bs"
  shows "dense s = enc64 bs"
proof -
  have "list_all (\<lambda>c. \<not> isspace c) (dense s)" by (simp add: list_all_iff)
  moreover have "pton_from (dense s) 0 0 t = Some (length bs, Some t')" using assms(1) unfolding b64_pton_run .
  ultimately show ?thesis using pton_decoded [of "dense s" 0 t "length bs" "Some t'"] assms(2) by (simp add: decoded_def)
qed

subsection \<open>Properties\<close>

text \<open>
  C38. Base 64 is exact. The encoder writes the encoding of its input whenever the target has room for it
  and the terminating zero, and fails otherwise. The decoder, given an array with room for the result, accepts
  a string exactly when, white space aside, it is the encoding of a byte list, and then stores that byte list:
  the two are inverse, and every byte list has exactly one accepted encoding.
\<close>

theorem b64_exact:
  "b64_ntop bs m = (if length (enc64 bs) < m then Some (enc64 bs) else None) \<and>
   (room64 (length bs) \<le> length t \<longrightarrow>
      (dense s = enc64 bs \<longleftrightarrow> (\<exists>t'. b64_pton s (Some t) = Some (length bs, Some t') \<and> take (length bs) t' = bs)))"
  using b64_ntop_result pton_dense_enc64 pton_only_enc64 by blast

theorem b64_exact_witness:
  "b64_ntop [104, 105] 5 = Some ''aGk='' \<and>
   (\<exists>t'. b64_pton ''aG k='' (Some [1, 2, 3]) = Some (2, Some t') \<and> take 2 t' = [104, 105])"
proof -
  have e: "enc64 [104, 105] = ''aGk=''"
    by (simp add: output0_def output_or output3_def digit64_def Base64_def Pad64_def)
  have "room64 (length [104, 105 :: u8]) \<le> length [1, 2, 3 :: u8]" by (simp add: room64_def)
  moreover have "dense ''aG k='' = enc64 [104, 105]" unfolding e by (simp add: ctype_defs)
  moreover have "length ''aGk='' < 5" "length [104, 105 :: u8] = 2" by simp_all
  ultimately show ?thesis
    using b64_exact [of "[104, 105]" 5 "[1, 2, 3]" "''aG k=''"] unfolding e by (simp only: if_True simp_thms)
qed

end
