(* ===== verification/Sshbuf_Misc.thy ===== *)
theory Sshbuf_Misc
  imports Sshbuf_Getput Base64
begin

text \<open>
  Buffers and text (\<^verbatim>\<open>sshbuf-misc.c\<close>): hexadecimal and base 64 conversions, copies as strings,
  comparing, searching and filling a buffer from a descriptor. A character put into a buffer is its byte.
\<close>

subsection \<open>Operations\<close>

definition byte_of :: "char \<Rightarrow> u8" where "byte_of c = of_nat (ccode c)"

definition hex :: string where "hex = ''0123456789abcdef''"

definition sshbuf_dtob16 :: "allocator \<Rightarrow> sshbuf \<Rightarrow> string option" where
  "sshbuf_dtob16 A buf =
     (let p = sshbuf_seen buf; len = sshbuf_len buf in
      if len = 0 then map_option (\<lambda>_. []) (malloc A 1)
      else if SIZE_MAX div 2 \<le> len \<or> malloc A (len * 2 + 1) = None then None
      else Some (concat (map (\<lambda>b. [hex ! unat (drop_bit 4 b AND 0xf), hex ! unat (b AND 0xf)]) p)))"

text \<open>The loop that breaks lines after 70 characters; \<open>i\<close> is the number of characters written.\<close>

fun dtob64_wrap :: "allocator \<Rightarrow> nat \<Rightarrow> string \<Rightarrow> unit bufop" where
  "dtob64_wrap A i [] = (if (i - 1) mod 70 \<noteq> 69 then sshbuf_put_u8 A (byte_of (CHR 0x0A)) else ret ())"
| "dtob64_wrap A i (c # s) =
     andthen (sshbuf_put_u8 A (byte_of c)) (\<lambda>_.
       andthen (if i mod 70 = 69 then sshbuf_put_u8 A (byte_of (CHR 0x0A)) else ret ()) (\<lambda>_.
         dtob64_wrap A (i + 1) s))"

definition sshbuf_dtob64 :: "allocator \<Rightarrow> sshbuf \<Rightarrow> bool \<Rightarrow> unit bufop" where
  "sshbuf_dtob64 A d wrap =
     (let len = sshbuf_len d in
      if len \<ge> SIZE_MAX div 2 then throw SSH_ERR_INVALID_ARGUMENT
      else if len = 0 then ret ()
      else
        let slen = (len + 2) div 3 * 4 + 1 in
        if malloc A slen = None then throw SSH_ERR_ALLOC_FAIL
        else
          (case b64_ntop (sshbuf_seen d) slen of
             None \<Rightarrow> throw SSH_ERR_INTERNAL_ERROR
           | Some s \<Rightarrow> if wrap then dtob64_wrap A 0 s else sshbuf_put A (map byte_of s)))"

definition sshbuf_dup_string :: "allocator \<Rightarrow> sshbuf \<Rightarrow> u8 list option" where
  "sshbuf_dup_string A buf =
     (if sshbuf_ptr buf = None then None
      else
        let s = sshbuf_seen buf; l = sshbuf_len buf in
        (case (if l > 0 then memchr0 s else None) of
           None \<Rightarrow> if malloc A (l + 1) = None then None else Some s
         | Some p \<Rightarrow> if p \<noteq> l - 1 then None else if malloc A l = None then None else Some (take (l - 1) s)))"

definition sshbuf_dtob64_string :: "allocator \<Rightarrow> sshbuf \<Rightarrow> bool \<Rightarrow> u8 list option" where
  "sshbuf_dtob64_string A buf wrap =
     (case sshbuf_new A of
        None \<Rightarrow> None
      | Some tmp \<Rightarrow>
          (case sshbuf_dtob64 A buf wrap tmp of
             (Inl _, _) \<Rightarrow> None
           | (Inr _, tmp') \<Rightarrow> sshbuf_dup_string A tmp'))"

text \<open>The decoded bytes go to a fresh array, whose contents \<open>junk\<close> are whatever the allocator left there.\<close>

definition char_of_byte :: "u8 \<Rightarrow> char" where "char_of_byte b = char_of (unat b)"

definition sshbuf_b64tod :: "allocator \<Rightarrow> (nat \<Rightarrow> u8) \<Rightarrow> u8 list \<Rightarrow> unit bufop" where
  "sshbuf_b64tod A junk b64 =
     (let plen = length b64 in
      if plen = 0 then ret ()
      else if malloc A plen = None then throw SSH_ERR_ALLOC_FAIL
      else
        (case b64_pton (map char_of_byte b64) (Some (map junk [0..<plen])) of
           None \<Rightarrow> throw SSH_ERR_INVALID_FORMAT
         | Some (nlen, p) \<Rightarrow> sshbuf_put A (take nlen (the p))))"

lemma consume_end_shorter:
  "sshbuf_consume_end 1 b = (Inr x, b') \<Longrightarrow> 1 < sshbuf_len b \<Longrightarrow> sshbuf_len b' < sshbuf_len b"
  by (auto simp: sshbuf_consume_end_def sshbuf_check_sanity_def run_simps sshbuf_len_def sshbuf_insane_def split: if_splits)

function strip_padding :: "unit bufop" where
  "strip_padding b =
     (let l = sshbuf_len b in
      if l \<le> 1 \<or> sshbuf_ptr b = None then throw SSH_ERR_INTERNAL_ERROR b
      else if sshbuf_seen b ! (l - 1) \<noteq> byte_of Pad64 then ret () b
      else (case sshbuf_consume_end 1 b of (Inl e, b') \<Rightarrow> (Inl e, b') | (Inr _, b') \<Rightarrow> strip_padding b'))"
  by pat_completeness auto
termination
  by (relation "measure sshbuf_len") (auto dest!: consume_end_shorter [unfolded One_nat_def, OF sym])

declare strip_padding.simps [simp del]

definition url_char :: "u8 \<Rightarrow> u8" where
  "url_char c = (if c = byte_of (CHR ''+'') then byte_of (CHR ''-'')
                 else if c = byte_of (CHR ''/'') then byte_of (CHR ''_'') else c)"

definition sshbuf_dtourlb64 :: "allocator \<Rightarrow> sshbuf \<Rightarrow> bool \<Rightarrow> unit bufop" where
  "sshbuf_dtourlb64 A d wrap b64 =
     (case sshbuf_new A of
        None \<Rightarrow> (Inl SSH_ERR_ALLOC_FAIL, b64)
      | Some b \<Rightarrow>
          (case andthen (sshbuf_dtob64 A d wrap) (\<lambda>_. strip_padding) b of
             (Inl e, _) \<Rightarrow> (Inl e, b64)
           | (Inr _, b1) \<Rightarrow>
               if sshbuf_mutable_ptr b1 = None then (Inl SSH_ERR_INTERNAL_ERROR, b64)
               else sshbuf_putb A (Some (sshbuf_store (sb_off b1) (map url_char (sshbuf_seen b1)) b1)) b64))"

definition timingsafe_bcmp :: "u8 list \<Rightarrow> u8 list \<Rightarrow> bool" where
  "timingsafe_bcmp b1 b2 \<longleftrightarrow> fold (\<lambda>(x, y) r. r OR (x XOR y)) (zip b1 b2) 0 \<noteq> (0 :: u8)"

definition sshbuf_cmp :: "sshbuf \<Rightarrow> nat \<Rightarrow> u8 list \<Rightarrow> ssherr + unit" where
  "sshbuf_cmp b offset s =
     (if sshbuf_ptr b = None then Inl SSH_ERR_INTERNAL_ERROR
      else if offset > SSHBUF_SIZE_MAX \<or> length s > SSHBUF_SIZE_MAX \<or> length s = 0 then Inl SSH_ERR_INVALID_ARGUMENT
      else if offset + length s > sshbuf_len b then Inl SSH_ERR_MESSAGE_INCOMPLETE
      else if timingsafe_bcmp (take (length s) (drop offset (sshbuf_seen b))) s then Inl SSH_ERR_INVALID_FORMAT
      else Inr ())"

text \<open>\<^verbatim>\<open>memmem\<close> of the C library: the position of the first occurrence of \<open>s\<close>.\<close>

fun memmem :: "u8 list \<Rightarrow> u8 list \<Rightarrow> nat option" where
  "memmem [] s = (if s = [] then Some 0 else None)"
| "memmem (x # h) s = (if take (length s) (x # h) = s then Some 0 else map_option Suc (memmem h s))"

definition sshbuf_find :: "sshbuf \<Rightarrow> nat \<Rightarrow> u8 list \<Rightarrow> ssherr + nat" where
  "sshbuf_find b start_offset s =
     (if sshbuf_ptr b = None then Inl SSH_ERR_INTERNAL_ERROR
      else if start_offset > SSHBUF_SIZE_MAX \<or> length s > SSHBUF_SIZE_MAX \<or> length s = 0 then Inl SSH_ERR_INVALID_ARGUMENT
      else if start_offset > sshbuf_len b \<or> start_offset + length s > sshbuf_len b then Inl SSH_ERR_MESSAGE_INCOMPLETE
      else (case memmem (drop start_offset (sshbuf_seen b)) s of
              None \<Rightarrow> Inl SSH_ERR_INVALID_FORMAT
            | Some p \<Rightarrow> Inr (start_offset + p)))"

text \<open>
  \<^verbatim>\<open>sshbuf_read\<close>: \<open>rd\<close> is what \<^verbatim>\<open>read\<close> does with a request for \<open>maxlen\<close> bytes, the bytes it stores at the
  destination or \<open>None\<close> for its error.
\<close>

definition sshbuf_read :: "allocator \<Rightarrow> (nat \<Rightarrow> u8 list option) \<Rightarrow> nat \<Rightarrow> nat bufop" where
  "sshbuf_read A rd maxlen =
     andthen (sshbuf_reserve A maxlen) (\<lambda>d buf.
       let bs = (case rd maxlen of None \<Rightarrow> [] | Some bs \<Rightarrow> bs); adjust = maxlen - length bs in
       (case (if adjust \<noteq> 0 then sshbuf_consume_end adjust else ret ()) (sshbuf_store d bs buf) of
          (Inl _, b) \<Rightarrow>
            (Inl SSH_ERR_INTERNAL_ERROR, sshbuf_store (if rd maxlen = None then d - 1 else d + length bs) (replicate adjust 0) b)
        | (Inr _, b) \<Rightarrow> if bs = [] then (Inl SSH_ERR_SYSTEM_ERROR, b) else (Inr (length bs), b)))"

subsection \<open>Characters and bytes\<close>

lemma char_byte [simp]: "char_of_byte (byte_of c) = c"
  by (simp add: char_of_byte_def byte_of_def unat_of_nat)

lemma byte_of_inject [simp]: "byte_of c = byte_of d \<longleftrightarrow> c = d"
  by (metis char_byte)

lemma chars_of_bytes [simp]: "char_of_byte \<circ> byte_of = id"
  by auto

lemma byte_of_NUL: "byte_of c = 0 \<longleftrightarrow> c = NUL"
proof -
  have "byte_of NUL = 0" by (simp add: byte_of_def NUL_def ccode_def)
  then show ?thesis by (metis byte_of_inject)
qed

lemma sshbuf_seen_ok: "sshbuf_ok b \<Longrightarrow> sshbuf_seen b = sshbuf_bytes b"
  by (simp add: sshbuf_seen_def sshbuf_bytes_def sshbuf_len_ok)

lemma sshbuf_ptr_Some: "sshbuf_ok b \<Longrightarrow> \<exists>p. sshbuf_ptr b = Some p"
  using sshbuf_okD(1,9) [of b] by (auto simp: sshbuf_ptr_def)

subsection \<open>Base 64\<close>

lemma sshbuf_put_u8_Inr:
  "sshbuf_ok b \<Longrightarrow> sshbuf_put_u8 A x b = (Inr u, b') \<Longrightarrow> sshbuf_ok b' \<and> sshbuf_bytes b' = sshbuf_bytes b @ [x]"
  using u8_codec.put_enc [of b A x b'] by (cases u) simp

lemma isspace_newline: "isspace (CHR 0x0A)"
  by (simp add: ctype_defs)

lemma dtob64_wrap_result:
  "sshbuf_ok b \<Longrightarrow> dtob64_wrap A i s b = (Inr u, b') \<Longrightarrow>
   \<exists>w. sshbuf_ok b' \<and> sshbuf_bytes b' = sshbuf_bytes b @ map byte_of w \<and> dense w = dense s \<and> set w \<subseteq> insert (CHR 0x0A) (set s)"
proof (induction s arbitrary: b i)
  case Nil
  then show ?case
    using sshbuf_put_u8_Inr [of b A "byte_of (CHR 0x0A)" u b'] isspace_newline
    by (cases "(i - 1) mod 70 \<noteq> 69") (auto simp: ret_def intro: exI [of _ "[CHR 0x0A]"])
next
  case (Cons c s)
  obtain b1 where b1: "sshbuf_put_u8 A (byte_of c) b = (Inr (), b1)"
    using Cons.prems(2) by (auto simp: andthen_def split: prod.splits sum.splits)
  note o1 = sshbuf_put_u8_Inr [OF Cons.prems(1) b1]
  obtain b2 where b2: "(if i mod 70 = 69 then sshbuf_put_u8 A (byte_of (CHR 0x0A)) else ret ()) b1 = (Inr (), b2)"
    and rest: "dtob64_wrap A (i + 1) s b2 = (Inr u, b')"
    using Cons.prems(2) b1 by (auto simp: andthen_def split: prod.splits sum.splits)
  obtain nl where nl: "sshbuf_ok b2" "sshbuf_bytes b2 = sshbuf_bytes b1 @ map byte_of nl" "dense nl = []" "set nl \<subseteq> {CHR 0x0A}"
    using b2 o1 sshbuf_put_u8_Inr [of b1 A "byte_of (CHR 0x0A)" "()" b2] isspace_newline that [of "[CHR 0x0A]"] that [of "[]"]
    by (auto simp: ret_def split: if_splits)
  from Cons.IH [OF nl(1) rest] obtain w where "sshbuf_ok b'" "sshbuf_bytes b' = sshbuf_bytes b2 @ map byte_of w"
    "dense w = dense s" "set w \<subseteq> insert (CHR 0x0A) (set s)" by blast
  then show ?case using o1 nl by (intro exI [of _ "c # nl @ w"]) auto
qed

lemma enc64_chars: "set (enc64 bs) \<subseteq> insert Pad64 (set Base64)"
  by (induction bs rule: enc64.induct) (auto simp: digit64_def sextet_less [symmetric])

lemma enc64_dense: "dense (enc64 bs) = enc64 bs"
proof -
  have "\<forall>c \<in> set (enc64 bs). \<not> isspace c" using enc64_chars [of bs] Base64_graphic space_not_Pad by blast
  then show ?thesis by simp
qed

lemma enc64_NUL: "NUL \<notin> set (enc64 bs)"
proof -
  have "NUL \<notin> set Base64" "NUL \<noteq> Pad64" by (simp_all add: Base64_def NUL_def Pad64_def)
  then show ?thesis using enc64_chars [of bs] by blast
qed

lemma sshbuf_dtob64_result:
  assumes "sshbuf_ok d" and "sshbuf_ok b" and "sshbuf_dtob64 A d wrap b = (Inr u, b')"
  shows "\<exists>w. sshbuf_ok b' \<and> sshbuf_bytes b' = sshbuf_bytes b @ map byte_of w \<and> dense w = enc64 (sshbuf_bytes d) \<and>
             NUL \<notin> set w \<and> (\<not> wrap \<longrightarrow> w = enc64 (sshbuf_bytes d))"
proof (cases "sshbuf_len d = 0")
  case True
  then have "sshbuf_bytes d = []" using assms(1) by (metis length_0_conv length_sshbuf_bytes)
  then show ?thesis using assms True by (intro exI [of _ "[]"]) (auto simp: sshbuf_dtob64_def ret_def throw_def split: if_splits)
next
  case False
  define s where "s = enc64 (sshbuf_bytes d)"
  have n: "b64_ntop (sshbuf_seen d) ((sshbuf_len d + 2) div 3 * 4 + 1) = Some s"
    using assms(1) by (simp add: b64_ntop_result sshbuf_seen_ok length_enc64 s_def)
  have run: "(if wrap then dtob64_wrap A 0 s else sshbuf_put A (map byte_of s)) b = (Inr u, b')"
    using assms(3) False n by (simp add: sshbuf_dtob64_def Let_def throw_def split: if_splits)
  have nl: "NUL \<noteq> CHR 0x0A" by (simp add: NUL_def)
  show ?thesis
  proof (cases wrap)
    case True
    then show ?thesis using dtob64_wrap_result [OF assms(2), of A 0 s u b'] run enc64_dense enc64_NUL [of "sshbuf_bytes d"] nl
      by (auto simp: s_def)
  next
    case False
    then show ?thesis using sshbuf_put_Inr [OF assms(2), of A "map byte_of s" b'] run enc64_dense enc64_NUL
      by (cases u) (auto simp: s_def)
  qed
qed

lemma sshbuf_dup_string_text:
  assumes "sshbuf_ok b" and "0 \<notin> set (sshbuf_bytes b)" and "sshbuf_dup_string A b = Some s"
  shows "s = sshbuf_bytes b"
  using assms sshbuf_ptr_Some [OF assms(1)] memchr0_None [of "sshbuf_bytes b"]
  by (auto simp: sshbuf_dup_string_def sshbuf_seen_ok Let_def split: if_splits)

lemma dtob64_string_text:
  assumes "sshbuf_ok d" and "sshbuf_dtob64_string A d wrap = Some s"
  shows "dense (map char_of_byte s) = enc64 (sshbuf_bytes d) \<and> (\<not> wrap \<longrightarrow> s = map byte_of (enc64 (sshbuf_bytes d)))"
proof -
  obtain b b' where b: "sshbuf_new A = Some b" "sshbuf_dtob64 A d wrap b = (Inr (), b')" "sshbuf_dup_string A b' = Some s"
    using assms(2) by (auto simp: sshbuf_dtob64_string_def split: option.splits prod.splits sum.splits)
  have new: "sshbuf_ok b" "sshbuf_bytes b = []" using sshbuf_new_ok [OF b(1)] by simp_all
  obtain w where w: "sshbuf_ok b'" "sshbuf_bytes b' = map byte_of w" "dense w = enc64 (sshbuf_bytes d)" "NUL \<notin> set w"
    "\<not> wrap \<longrightarrow> w = enc64 (sshbuf_bytes d)"
    using sshbuf_dtob64_result [OF assms(1) new(1) b(2)] new(2) by auto
  have "0 \<notin> set (sshbuf_bytes b')" using w(2,4) byte_of_NUL by auto
  then have "s = map byte_of w" using sshbuf_dup_string_text [OF w(1) _ b(3)] w(2) by simp
  then show ?thesis using w(3,5) by simp
qed

lemma room64_enc: "room64 (length bs) \<le> length (enc64 bs)"
proof (cases "length bs mod 3 = 0")
  case True
  then show ?thesis by (auto simp: room64_def length_enc64 mod_eq_0_iff_dvd)
next
  case False
  then have "0 < length bs mod 3" "length bs mod 3 < 3" by simp_all
  then show ?thesis unfolding room64_def length_enc64 by presburger
qed

lemma sshbuf_b64tod_text:
  assumes "dense (map char_of_byte s) = enc64 bs" and "malloc A (length s) \<noteq> None"
  shows "sshbuf_b64tod A junk s b = (if s = [] then ret () b else sshbuf_put A bs b)"
proof (cases "s = []")
  case False
  let ?t = "map junk [0..<length s]" and ?s = "map char_of_byte s"
  have "length (enc64 bs) \<le> length s" using assms(1) by (metis length_filter_le length_map)
  then have "room64 (length bs) \<le> length ?t" using room64_enc [of bs] by simp
  then obtain t' where "b64_pton ?s (Some ?t) = Some (length bs, Some t')" "take (length bs) t' = bs"
    using pton_dense_enc64 [OF assms(1), of ?t] by blast
  then show ?thesis using False assms(2) by (auto simp: sshbuf_b64tod_def Let_def)
qed (simp add: sshbuf_b64tod_def)

text \<open>The alphabet of the URL-safe encoding.\<close>

definition url64 :: "char \<Rightarrow> char" where
  "url64 c = (if c = CHR ''+'' then CHR ''-'' else if c = CHR ''/'' then CHR ''_'' else c)"

lemma url_char_byte: "url_char (byte_of c) = byte_of (url64 c)"
  by (simp add: url_char_def url64_def)

definition unpadded :: "string \<Rightarrow> string" where
  "unpadded s = takeWhile (\<lambda>c. c \<noteq> Pad64) s"

lemma enc64_padding: "\<exists>k. enc64 bs = unpadded (enc64 bs) @ replicate k Pad64"
proof (induction bs rule: enc64.induct)
  case (2 a)
  show ?case using digit64_graphic by (auto simp: unpadded_def intro: exI [of _ 2] simp: numeral_2_eq_2)
next
  case (3 a b)
  show ?case using digit64_graphic by (auto simp: unpadded_def intro: exI [of _ 1])
next
  case (4 a b c s)
  then show ?case using digit64_graphic by (auto simp: unpadded_def)
qed (simp add: unpadded_def)

lemma strip_padding_result:
  "sshbuf_ok b \<Longrightarrow> strip_padding b = (Inr u, b') \<Longrightarrow>
   buf_frame b b' \<and> sshbuf_bytes b' \<noteq> [] \<and> last (sshbuf_bytes b') \<noteq> byte_of Pad64 \<and>
   (\<exists>k. sshbuf_bytes b = sshbuf_bytes b' @ replicate k (byte_of Pad64))"
proof (induction b rule: strip_padding.induct)
  case (1 b)
  note ok = \<open>sshbuf_ok b\<close>
  have l: "1 < sshbuf_len b" using "1.prems"(2) by (auto simp: strip_padding.simps [of b] Let_def throw_def split: if_splits)
  define bs where "bs = sshbuf_bytes b"
  have len: "length bs = sshbuf_len b" using ok by (simp add: bs_def)
  then have "bs \<noteq> []" using l by auto
  then have bs: "bs \<noteq> []" "sshbuf_seen b ! (sshbuf_len b - 1) = last bs"
    using len ok by (simp_all add: last_conv_nth sshbuf_seen_ok bs_def)
  obtain p where p: "sshbuf_ptr b = Some p" using sshbuf_ptr_Some [OF ok] by blast
  show ?case
  proof (cases "last bs = byte_of Pad64")
    case False
    then have "b' = b" using "1.prems"(2) l p bs(2) by (simp add: strip_padding.simps [of b] ret_def)
    then show ?thesis using False bs(1) buf_frame_refl [OF ok] by (auto simp: bs_def intro: exI [of _ 0])
  next
    case True
    obtain b1 where b1: "sshbuf_consume_end 1 b = (Inr (), b1)" "sshbuf_ok b1"
      "sshbuf_bytes b1 = take (sshbuf_len b - 1) bs"
      using sshbuf_consume_end_Inr [OF ok, of 1] l unfolding bs_def by (metis less_imp_le_nat)
    have run: "strip_padding b1 = (Inr u, b')"
      using "1.prems"(2) l p bs(2) True b1(1) by (simp add: strip_padding.simps [of b])
    have "bs = sshbuf_bytes b1 @ [byte_of Pad64]"
      using b1(3) True bs(1) length_sshbuf_bytes [OF ok] by (metis append_butlast_last_id bs_def butlast_conv_take)
    moreover have "buf_frame b b1" using bufop_safe_consume_end [of 1] ok b1(1) by (auto dest: bufop_safeD)
    moreover have "buf_frame b1 b' \<and> sshbuf_bytes b' \<noteq> [] \<and> last (sshbuf_bytes b') \<noteq> byte_of Pad64 \<and>
      (\<exists>k. sshbuf_bytes b1 = sshbuf_bytes b' @ replicate k (byte_of Pad64))"
      using "1.IH" [OF refl _ _ b1(1) [symmetric] refl b1(2) run] l p bs(2) True by auto
    ultimately show ?thesis using buf_frame_trans replicate_append_same [of _ "byte_of Pad64"]
      unfolding bs_def by (metis append.assoc replicate_Suc)
  qed
qed

lemma enc64_shape:
  assumes "map byte_of (enc64 bs) = x @ replicate k (byte_of Pad64)" and "x \<noteq> []" and "last x \<noteq> byte_of Pad64"
  shows "x = map byte_of (unpadded (enc64 bs))"
proof -
  obtain n where n: "enc64 bs = unpadded (enc64 bs) @ replicate n Pad64" using enc64_padding by blast
  define y where "y = map byte_of (unpadded (enc64 bs))"
  have pad: "\<forall>c \<in> set y. c \<noteq> byte_of Pad64" by (auto simp: y_def unpadded_def dest: set_takeWhileD)
  have eq: "y @ replicate n (byte_of Pad64) = x @ replicate k (byte_of Pad64)"
    using assms(1) n unfolding y_def by (metis map_append map_replicate)
  have strip: "rev (dropWhile (\<lambda>c. c = byte_of Pad64) (rev (z @ replicate m (byte_of Pad64)))) = z"
    if "z = [] \<or> last z \<noteq> byte_of Pad64" for z m
    using that by (cases z rule: rev_cases) (auto simp: dropWhile_append)
  have "y = [] \<or> last y \<noteq> byte_of Pad64" using pad last_in_set [of y] by blast
  then have "y = x" using strip [of y n] strip [of x k] eq assms(3) by simp
  then show ?thesis by (simp add: y_def)
qed

lemma url_store:
  assumes "sshbuf_ok b"
  shows "sshbuf_ok (sshbuf_store (sb_off b) (map url_char (sshbuf_seen b)) b)"
    and "sshbuf_seen (sshbuf_store (sb_off b) (map url_char (sshbuf_seen b)) b) = map url_char (sshbuf_bytes b)"
proof -
  note ok = sshbuf_okD [OF assms]
  have l: "length (sshbuf_seen b) = sb_size b - sb_off b" using assms by (simp add: sshbuf_seen_ok sshbuf_len_ok)
  then show st: "sshbuf_ok (sshbuf_store (sb_off b) (map url_char (sshbuf_seen b)) b)"
    using ok by (intro sshbuf_store_ok [OF assms]) simp
  show "sshbuf_seen (sshbuf_store (sb_off b) (map url_char (sshbuf_seen b)) b) = map url_char (sshbuf_bytes b)"
    using ok l unfolding sshbuf_seen_ok [OF st]
    by (simp add: sshbuf_bytes_def sshbuf_store_def sshbuf_seen_ok [OF assms] mem_read_def mem_write_def)
qed

subsection \<open>Properties\<close>

text \<open>
  The text form of a buffer, with or without line breaks, is read back as the bytes of the buffer: when
  the conversion to text succeeds, the conversion back succeeds on every writable buffer with room for the data
  and appends exactly the data, whatever the memory of the intermediate array held before.
\<close>

theorem sshbuf_b64_roundtrip:
  assumes "sshbuf_ok d" and "sshbuf_dtob64_string A d wrap = Some s"
    and "sshbuf_ok b" and "sshbuf_writable b" and "sshbuf_len b + sshbuf_len d \<le> sb_max_size b" and "never_fails A'"
  shows "\<exists>b'. sshbuf_b64tod A' junk s b = (Inr (), b') \<and> sshbuf_ok b' \<and> sshbuf_bytes b' = sshbuf_bytes b @ sshbuf_bytes d"
proof -
  have chars: "dense (map char_of_byte s) = enc64 (sshbuf_bytes d)" using dtob64_string_text [OF assms(1,2)] by simp
  have run: "sshbuf_b64tod A' junk s b = (if s = [] then ret () b else sshbuf_put A' (sshbuf_bytes d) b)"
    using assms(6) by (intro sshbuf_b64tod_text [OF chars]) (simp add: never_fails_def)
  show ?thesis
  proof (cases "s = []")
    case True
    then have "length (enc64 (sshbuf_bytes d)) = 0" using chars by simp
    then have "sshbuf_bytes d = []" using room64_enc [of "sshbuf_bytes d"] by (auto simp: room64_def split: if_splits)
    then show ?thesis using run True assms(3) by (simp add: ret_def)
  next
    case False
    have "fst (sshbuf_put A' (sshbuf_bytes d) b) = Inr ()" using assms by (intro sshbuf_put_total) simp_all
    then show ?thesis using run False sshbuf_put_Inr [OF assms(3)] by (metis prod.collapse)
  qed
qed

text \<open>A buffer with two bytes and its text, for the witnesses.\<close>

lemma demo_bytes:
  obtains t where "sshbuf_ok t" "sshbuf_bytes t = [104, 105]" "sshbuf_len t = 2" "sshbuf_writable t"
proof -
  have "fst (sshbuf_put demo_allocator [104, 105] demo_buf) = Inr ()"
    by (intro sshbuf_put_total demo_never_fails) (simp_all add: demo_buf_ok)
  then obtain t where t: "sshbuf_put demo_allocator [104, 105] demo_buf = (Inr (), t)"
    by (metis prod.collapse)
  have ok: "sshbuf_ok t" "sshbuf_bytes t = [104, 105]" "same_owner demo_buf t"
    using sshbuf_put_Inr [OF demo_buf_ok(1) t] demo_buf_ok(2) by simp_all
  have "sshbuf_len t = 2" using length_sshbuf_bytes [OF ok(1)] ok(2) by simp
  then show thesis using that [of t] ok demo_buf_ok(3) by (simp add: same_owner_def sshbuf_writable_def)
qed

lemma enc64_demo: "enc64 [104, 105] = ''aGk=''"
  by (simp add: output0_def output_or output3_def digit64_def Base64_def Pad64_def)

lemma demo_dtob64:
  assumes "sshbuf_ok t" "sshbuf_bytes t = [104, 105]" "sshbuf_len t = 2"
  shows "\<exists>b. sshbuf_dtob64 demo_allocator t False demo_buf = (Inr (), b) \<and> same_owner demo_buf b"
proof -
  have "b64_ntop [104, 105] 5 = Some ''aGk=''" by (simp only: b64_ntop_result enc64_demo) simp
  moreover have "fst (sshbuf_put demo_allocator (map byte_of ''aGk='') demo_buf) = Inr ()"
    by (intro sshbuf_put_total demo_never_fails) (simp_all add: demo_buf_ok)
  then obtain b where b: "sshbuf_put demo_allocator (map byte_of ''aGk='') demo_buf = (Inr (), b)" by (metis prod.collapse)
  moreover have "malloc demo_allocator 5 \<noteq> None" using demo_never_fails by (simp add: never_fails_def)
  ultimately show ?thesis
    using assms sshbuf_put_Inr [OF demo_buf_ok(1) b]
    by (intro exI [of _ b]) (auto simp: sshbuf_dtob64_def sshbuf_seen_ok Let_def SIZE_MAX_def)
qed

lemma demo_b64_string:
  assumes "sshbuf_ok t" "sshbuf_bytes t = [104, 105]" "sshbuf_len t = 2"
  shows "sshbuf_dtob64_string demo_allocator t False = Some (map byte_of ''aGk='')"
proof -
  obtain b where b: "sshbuf_dtob64 demo_allocator t False demo_buf = (Inr (), b)" using demo_dtob64 [OF assms] by blast
  have ok: "sshbuf_ok b" "sshbuf_bytes b = map byte_of ''aGk=''"
    using sshbuf_dtob64_result [OF assms(1) demo_buf_ok(1) b] demo_buf_ok(2) assms(2) enc64_demo by auto
  have "0 \<notin> set (sshbuf_bytes b)" unfolding ok(2) using byte_of_NUL by (auto simp: NUL_def)
  moreover obtain p where m: "malloc demo_allocator (sshbuf_len b + 1) = Some p"
    using demo_never_fails unfolding never_fails_def by (metis option.exhaust)
  moreover have "0 < sshbuf_len b" using length_sshbuf_bytes [OF ok(1)] ok(2) by simp
  ultimately have "sshbuf_dup_string demo_allocator b \<noteq> None"
    using sshbuf_ptr_Some [OF ok(1)] memchr0_None [of "sshbuf_bytes b"] ok(1)
    by (auto simp: sshbuf_dup_string_def sshbuf_seen_ok Let_def)
  then obtain s where s: "sshbuf_dtob64_string demo_allocator t False = Some s"
    using b demo_buf_new by (auto simp: sshbuf_dtob64_string_def)
  then show ?thesis using dtob64_string_text [OF assms(1) s] assms(2) enc64_demo by simp
qed

theorem sshbuf_b64_roundtrip_witness:
  "\<exists>t b'. sshbuf_dtob64_string demo_allocator t False = Some (map byte_of ''aGk='') \<and>
     sshbuf_b64tod demo_allocator (\<lambda>_. 7) (map byte_of ''aGk='') demo_buf = (Inr (), b') \<and> sshbuf_bytes b' = [104, 105]"
proof -
  obtain t where t: "sshbuf_ok t" "sshbuf_bytes t = [104, 105]" "sshbuf_len t = 2" by (rule demo_bytes)
  note s = demo_b64_string [OF t]
  show ?thesis
    using sshbuf_b64_roundtrip [OF t(1) s demo_buf_ok(1,3) _ demo_never_fails, of "\<lambda>_. 7"] s t demo_buf_ok by auto
qed

text \<open>
  The URL-safe form without line breaks is the base 64 encoding with its padding removed and the two
  characters that are not URL-safe replaced. The conversion fails on an empty buffer.
\<close>

theorem sshbuf_dtourlb64_spec:
  assumes "sshbuf_ok d" and "sshbuf_ok b64" and "sshbuf_dtourlb64 A d False b64 = (Inr (), b')"
  shows "sshbuf_bytes b' = sshbuf_bytes b64 @ map byte_of (map url64 (unpadded (enc64 (sshbuf_bytes d)))) \<and> sshbuf_bytes d \<noteq> []"
proof -
  obtain b b1 b2 where b: "sshbuf_new A = Some b" "sshbuf_dtob64 A d False b = (Inr (), b1)" "strip_padding b1 = (Inr (), b2)"
    and put: "sshbuf_putb A (Some (sshbuf_store (sb_off b2) (map url_char (sshbuf_seen b2)) b2)) b64 = (Inr (), b')"
    using assms(3) by (auto simp: sshbuf_dtourlb64_def andthen_def split: option.splits prod.splits sum.splits if_splits)
  have new: "sshbuf_ok b" "sshbuf_bytes b = []" using sshbuf_new_ok [OF b(1)] by simp_all
  have b1: "sshbuf_ok b1" "sshbuf_bytes b1 = map byte_of (enc64 (sshbuf_bytes d))"
    using sshbuf_dtob64_result [OF assms(1) new(1) b(2)] new(2) by auto
  obtain k where b2: "sshbuf_ok b2" "sshbuf_bytes b2 \<noteq> []" "last (sshbuf_bytes b2) \<noteq> byte_of Pad64"
    "sshbuf_bytes b1 = sshbuf_bytes b2 @ replicate k (byte_of Pad64)"
    using strip_padding_result [OF b1(1) b(3)] by (auto simp: buf_frame_def)
  have "sshbuf_bytes b2 = map byte_of (unpadded (enc64 (sshbuf_bytes d)))"
    using enc64_shape [of "sshbuf_bytes d" "sshbuf_bytes b2" k] b1(2) b2 by simp
  moreover have "sshbuf_bytes b' = sshbuf_bytes b64 @ map url_char (sshbuf_bytes b2)"
    using put sshbuf_put_Inr [OF assms(2)] url_store(2) [OF b2(1)] by (auto simp: sshbuf_putb_def)
  ultimately show ?thesis using b1(2) b2(2,4) by (auto simp: url_char_byte)
qed

lemma demo_strip:
  assumes "sshbuf_ok b" and "sshbuf_bytes b = map byte_of ''aGk=''"
  shows "\<exists>b'. strip_padding b = (Inr (), b')"
proof -
  have l: "sshbuf_len b = 4" using length_sshbuf_bytes [OF assms(1)] assms(2) by simp
  obtain b1 where b1: "sshbuf_consume_end 1 b = (Inr (), b1)" "sshbuf_ok b1" "sshbuf_bytes b1 = map byte_of ''aGk''"
    using sshbuf_consume_end_Inr [OF assms(1), of 1] l assms(2) by (auto simp: numeral_3_eq_3)
  have "sshbuf_len b1 = 3" using length_sshbuf_bytes [OF b1(2)] b1(3) by simp
  then have "strip_padding b1 = (Inr (), b1)"
    using sshbuf_ptr_Some [OF b1(2)] b1 by (auto simp: strip_padding.simps [of b1] sshbuf_seen_ok ret_def Pad64_def numeral_2_eq_2)
  then show ?thesis
    using sshbuf_ptr_Some [OF assms(1)] b1(1) l assms by (auto simp: strip_padding.simps [of b] sshbuf_seen_ok Pad64_def numeral_3_eq_3)
qed

theorem sshbuf_dtourlb64_spec_witness:
  "\<exists>t b'. sshbuf_dtourlb64 demo_allocator t False demo_buf = (Inr (), b') \<and> sshbuf_bytes b' = map byte_of ''aGk''"
proof -
  obtain t where t: "sshbuf_ok t" "sshbuf_bytes t = [104, 105]" "sshbuf_len t = 2" by (rule demo_bytes)
  obtain b where b: "sshbuf_dtob64 demo_allocator t False demo_buf = (Inr (), b)" "same_owner demo_buf b"
    using demo_dtob64 [OF t] by blast
  have ok: "sshbuf_ok b" "sshbuf_bytes b = map byte_of ''aGk=''"
    using sshbuf_dtob64_result [OF t(1) demo_buf_ok(1) b(1)] demo_buf_ok(2) t(2) enc64_demo by auto
  obtain b1 where b1: "strip_padding b = (Inr (), b1)" using demo_strip [OF ok] by blast
  obtain k where f: "buf_frame b b1" "sshbuf_bytes b = sshbuf_bytes b1 @ replicate k (byte_of Pad64)"
    using strip_padding_result [OF ok(1) b1] by blast
  have ok1: "sshbuf_ok b1" "sshbuf_writable b1"
    using f(1) b(2) demo_buf_ok(3) by (auto simp: buf_frame_def same_owner_def sshbuf_writable_def)
  then have wr: "sshbuf_mutable_ptr b1 \<noteq> None"
    using sshbuf_okD [OF ok1(1)] by (auto simp: sshbuf_mutable_ptr_def sshbuf_writable_def)
  let ?v = "sshbuf_seen (sshbuf_store (sb_off b1) (map url_char (sshbuf_seen b1)) b1)"
  have "length (sshbuf_bytes b1) \<le> length (sshbuf_bytes b)" using f(2) by simp
  then have "length ?v \<le> 4" using url_store(2) [OF ok1(1)] ok(2) by simp
  then have "fst (sshbuf_put demo_allocator ?v demo_buf) = Inr ()"
    by (intro sshbuf_put_total demo_never_fails) (simp_all add: demo_buf_ok)
  then obtain b' where "sshbuf_put demo_allocator ?v demo_buf = (Inr (), b')" by (metis prod.collapse)
  then have b': "sshbuf_dtourlb64 demo_allocator t False demo_buf = (Inr (), b')"
    using demo_buf_new b(1) b1 wr by (simp add: sshbuf_dtourlb64_def andthen_def sshbuf_putb_def)
  show ?thesis
    using sshbuf_dtourlb64_spec [OF t(1) demo_buf_ok(1) b', unfolded t(2) enc64_demo demo_buf_ok(2)] b'
    by (auto simp: unpadded_def Pad64_def url64_def)
qed

lemma timingsafe_bcmp_iff: "length xs = length ys \<Longrightarrow> timingsafe_bcmp xs ys \<longleftrightarrow> xs \<noteq> ys"
proof -
  have xor_zero: "x XOR y = 0 \<longleftrightarrow> x = y" for x y :: u8
    by (metis xor.assoc xor.left_neutral xor.right_neutral xor_self_eq)
  have acc: "fold (\<lambda>(x, y) r. r OR (x XOR y)) ps r = 0 \<longleftrightarrow> r = 0 \<and> list_all (\<lambda>(x, y). x = y) ps" for ps and r :: u8
    by (induction ps arbitrary: r) (simp_all add: or_eq_0_iff xor_zero case_prod_beta conj_assoc)
  assume "length xs = length ys"
  then show ?thesis unfolding timingsafe_bcmp_def acc
    by (induction xs ys rule: list_induct2) auto
qed

lemma memmem_first:
  "s \<noteq> [] \<Longrightarrow> (case memmem h s of
     None \<Rightarrow> \<forall>p. take (length s) (drop p h) \<noteq> s
   | Some p \<Rightarrow> take (length s) (drop p h) = s \<and> (\<forall>q < p. take (length s) (drop q h) \<noteq> s))"
proof (induction h)
  case (Cons x h)
  have shift: "(\<forall>p. P p) \<longleftrightarrow> P 0 \<and> (\<forall>p. P (Suc p))" for P :: "nat \<Rightarrow> bool" by (metis nat.exhaust)
  show ?case
  proof (cases "memmem h s")
    case None
    then show ?thesis using Cons shift [of "\<lambda>p. take (length s) (drop p (x # h)) \<noteq> s"] by simp
  next
    case (Some p)
    then show ?thesis using Cons by (auto simp: less_Suc_eq_0_disj)
  qed
qed simp

text \<open>
  Searching finds the first occurrence of the pattern from the given offset on, and fails exactly when there is
  none; comparing succeeds exactly when the bytes at the offset are those given. Neither reads outside the
  contents.
\<close>

theorem sshbuf_find_cmp_spec:
  assumes "sshbuf_ok b" and "off \<le> SSHBUF_SIZE_MAX" and "0 < length s" and "length s \<le> SSHBUF_SIZE_MAX"
  shows "(case sshbuf_find b off s of
      Inr p \<Rightarrow> off \<le> p \<and> take (length s) (drop p (sshbuf_bytes b)) = s \<and>
        (\<forall>q. off \<le> q \<and> q < p \<longrightarrow> take (length s) (drop q (sshbuf_bytes b)) \<noteq> s)
    | Inl e \<Rightarrow> (\<forall>q. off \<le> q \<longrightarrow> take (length s) (drop q (sshbuf_bytes b)) \<noteq> s) \<and>
        e = (if off + length s > sshbuf_len b then SSH_ERR_MESSAGE_INCOMPLETE else SSH_ERR_INVALID_FORMAT)) \<and>
    (sshbuf_cmp b off s = Inr () \<longleftrightarrow> take (length s) (drop off (sshbuf_bytes b)) = s)"
proof -
  obtain p where ptr: "sshbuf_ptr b = Some p" using sshbuf_ptr_Some [OF assms(1)] by blast
  define bs where "bs = sshbuf_bytes b"
  have bs: "sshbuf_seen b = bs" "sshbuf_len b = length bs" using assms(1) by (simp_all add: bs_def sshbuf_seen_ok)
  have long: "take (length s) (drop q bs) \<noteq> s" if "length bs < q + length s" for q
  proof
    assume "take (length s) (drop q bs) = s"
    then have "length (take (length s) (drop q bs)) = length s" by simp
    then have "length s \<le> length bs - q" by simp
    then show False using that assms(3) by linarith
  qed
  have cmp: "sshbuf_cmp b off s = Inr () \<longleftrightarrow> take (length s) (drop off bs) = s"
    using assms(2-4) ptr bs long [of off] timingsafe_bcmp_iff [of "take (length s) (drop off bs)" s]
    by (auto simp: sshbuf_cmp_def)
  have find: "case sshbuf_find b off s of
      Inr p \<Rightarrow> off \<le> p \<and> take (length s) (drop p bs) = s \<and> (\<forall>q. off \<le> q \<and> q < p \<longrightarrow> take (length s) (drop q bs) \<noteq> s)
    | Inl e \<Rightarrow> (\<forall>q. off \<le> q \<longrightarrow> take (length s) (drop q bs) \<noteq> s) \<and>
        e = (if off + length s > length bs then SSH_ERR_MESSAGE_INCOMPLETE else SSH_ERR_INVALID_FORMAT)"
  proof (cases "off + length s > length bs")
    case True
    then have "sshbuf_find b off s = Inl SSH_ERR_MESSAGE_INCOMPLETE" using assms(2-4) ptr bs by (auto simp: sshbuf_find_def)
    then show ?thesis using True long by simp
  next
    case False
    then have run: "sshbuf_find b off s = (case memmem (drop off bs) s of None \<Rightarrow> Inl SSH_ERR_INVALID_FORMAT | Some p \<Rightarrow> Inr (off + p))"
      using assms(2-4) ptr bs by (auto simp: sshbuf_find_def)
    have ge: "(\<forall>q. off \<le> q \<longrightarrow> P q) \<longleftrightarrow> (\<forall>p. P (off + p))" for P :: "nat \<Rightarrow> bool" by (metis le_add1 le_Suc_ex)
    have "s \<noteq> []" using assms(3) by auto
    from memmem_first [OF this, of "drop off bs"] show ?thesis
      using False run ge [of "\<lambda>q. take (length s) (drop q bs) \<noteq> s"]
        ge [of "\<lambda>q. q < off + the (memmem (drop off bs) s) \<longrightarrow> take (length s) (drop q bs) \<noteq> s"]
      by (auto simp: add.commute split: option.splits)
  qed
  show ?thesis using find cmp unfolding bs_def [symmetric] bs(2) by blast
qed

theorem sshbuf_find_cmp_spec_witness:
  "\<exists>t. sshbuf_find t 0 [105] = Inr 1 \<and> sshbuf_cmp t 1 [105] = Inr ()"
proof -
  obtain t where t: "sshbuf_ok t" "sshbuf_bytes t = [104, 105]" "sshbuf_len t = 2" by (rule demo_bytes)
  have "sshbuf_cmp t 1 [105] = Inr ()"
    using sshbuf_find_cmp_spec [OF t(1), of 1 "[105]"] t by (simp add: sshbuf_consts)
  moreover have "sshbuf_find t 0 [105] = Inr 1"
    using t sshbuf_ptr_Some [OF t(1)] by (auto simp: sshbuf_find_def sshbuf_seen_ok sshbuf_consts)
  ultimately show ?thesis by blast
qed

end
