(* ===== verification/Krl_Write.thy ===== *)
theory Krl_Write
  imports Krl Bitmap Sshbuf_Misc
begin

text \<open>
  Writing key revocation lists (\<^verbatim>\<open>krl.c\<close>): the choice of the section type, the sections of one
  certification authority and the whole list. \<^verbatim>\<open>sshkey_puts\<close> writes the blob of a key as a string; the other
  functions of \<^verbatim>\<open>sshkey.c\<close> are the operations \<open>key_ops\<close>. The counting of the bits of a bitmap always returns
  (theory \<open>Bitmap\<close>), so its result is taken without a case for a loop that does not end.
\<close>

subsection \<open>Constants\<close>

definition KRL_MAGIC :: "u8 list" where "KRL_MAGIC = [0x53, 0x53, 0x48, 0x4b, 0x52, 0x4c, 0x0a, 0x00]"
definition KRL_FORMAT_VERSION :: u32 where "KRL_FORMAT_VERSION = 1"
definition KRL_SECTION_CERTIFICATES :: u8 where "KRL_SECTION_CERTIFICATES = 1"
definition KRL_SECTION_EXPLICIT_KEY :: u8 where "KRL_SECTION_EXPLICIT_KEY = 2"
definition KRL_SECTION_FINGERPRINT_SHA1 :: u8 where "KRL_SECTION_FINGERPRINT_SHA1 = 3"
definition KRL_SECTION_SIGNATURE :: u8 where "KRL_SECTION_SIGNATURE = 4"
definition KRL_SECTION_FINGERPRINT_SHA256 :: u8 where "KRL_SECTION_FINGERPRINT_SHA256 = 5"
definition KRL_SECTION_EXTENSION :: u8 where "KRL_SECTION_EXTENSION = 255"
definition KRL_SECTION_CERT_SERIAL_LIST :: u8 where "KRL_SECTION_CERT_SERIAL_LIST = 0x20"
definition KRL_SECTION_CERT_SERIAL_RANGE :: u8 where "KRL_SECTION_CERT_SERIAL_RANGE = 0x21"
definition KRL_SECTION_CERT_SERIAL_BITMAP :: u8 where "KRL_SECTION_CERT_SERIAL_BITMAP = 0x22"
definition KRL_SECTION_CERT_KEY_ID :: u8 where "KRL_SECTION_CERT_KEY_ID = 0x23"
definition KRL_SECTION_CERT_EXTENSION :: u8 where "KRL_SECTION_CERT_EXTENSION = 0x39"

lemmas krl_sections =
  KRL_SECTION_CERTIFICATES_def KRL_SECTION_EXPLICIT_KEY_def KRL_SECTION_FINGERPRINT_SHA1_def KRL_SECTION_SIGNATURE_def
  KRL_SECTION_FINGERPRINT_SHA256_def KRL_SECTION_EXTENSION_def KRL_SECTION_CERT_SERIAL_LIST_def
  KRL_SECTION_CERT_SERIAL_RANGE_def KRL_SECTION_CERT_SERIAL_BITMAP_def KRL_SECTION_CERT_KEY_ID_def
  KRL_SECTION_CERT_EXTENSION_def

subsection \<open>The type of the next section\<close>

text \<open>The costs of a list, a range, a bitmap that continues and a new bitmap, in bytes.\<close>

record costs =
  cost_list :: u64
  cost_range :: u64
  cost_bitmap :: u64
  cost_bitmap_restart :: u64

definition switch_costs :: "u8 \<Rightarrow> costs" where
  "switch_costs current_state =
     (if current_state = KRL_SECTION_CERT_SERIAL_LIST
      then \<lparr>cost_list = 0, cost_range = 8, cost_bitmap = 8 + 64, cost_bitmap_restart = 8 + 64\<rparr>
      else if current_state = KRL_SECTION_CERT_SERIAL_BITMAP
      then \<lparr>cost_list = 8, cost_range = 8, cost_bitmap = 0, cost_bitmap_restart = 8 + 64\<rparr>
      else if current_state = KRL_SECTION_CERT_SERIAL_RANGE \<or> current_state = 0
      then \<lparr>cost_list = 8, cost_range = 8, cost_bitmap = 8 + 64, cost_bitmap_restart = 8 + 64\<rparr>
      else \<lparr>cost_list = 0, cost_range = 8, cost_bitmap = 0, cost_bitmap_restart = 0\<rparr>)"

definition section_costs :: "u8 \<Rightarrow> u64 \<Rightarrow> bool \<Rightarrow> u64 \<Rightarrow> u64 \<Rightarrow> costs" where
  "section_costs current_state contig0 final last_gap0 next_gap0 =
     (let contig = min contig0 (push_bit 31 1); last_gap = min last_gap0 (push_bit 31 1);
          next_gap = min next_gap0 (push_bit 31 1); c = switch_costs current_state;
          tail = (if final then 0 else 8 + 64); gap = (if final then 0 else min next_gap (8 + 64))
      in \<lparr>cost_list = (cost_list c + (64 * contig + tail) + 7) div 8,
          cost_range = (cost_range c + (2 * 64 + tail) + 7) div 8,
          cost_bitmap = (cost_bitmap c + (last_gap + contig + gap) + 7) div 8,
          cost_bitmap_restart = (cost_bitmap_restart c + (contig + gap) + 7) div 8\<rparr>)"

text \<open>The result is the new state and whether a new section is forced.\<close>

definition choose_next_state :: "u8 \<Rightarrow> u64 \<Rightarrow> bool \<Rightarrow> u64 \<Rightarrow> u64 \<Rightarrow> u8 \<times> bool" where
  "choose_next_state current_state contig final last_gap next_gap =
     (let c = section_costs current_state contig final last_gap next_gap;
          p0 = (KRL_SECTION_CERT_SERIAL_BITMAP, cost_bitmap c);
          p1 = (if cost_range c < snd p0 then (KRL_SECTION_CERT_SERIAL_RANGE, cost_range c) else p0);
          p2 = (if cost_list c < snd p1 then (KRL_SECTION_CERT_SERIAL_LIST, cost_list c) else p1)
      in if cost_bitmap_restart c < snd p2 then (KRL_SECTION_CERT_SERIAL_BITMAP, True) else (fst p2, False))"

subsection \<open>The sections of one authority\<close>

text \<open>\<^verbatim>\<open>malloc\<close> leaves \<open>junk\<close> in the array that the bitmap is written to.\<close>

definition put_bitmap :: "allocator \<Rightarrow> (nat \<Rightarrow> u8) \<Rightarrow> bitmap \<Rightarrow> unit bufop" where
  "put_bitmap A junk bitmap =
     (case the (bitmap_nbytes bitmap) of (len, bm) \<Rightarrow>
        if malloc A len = None then throw SSH_ERR_ALLOC_FAIL
        else (case fst (the (bitmap_to_string bm (map junk [0..<len]))) of
                None \<Rightarrow> throw SSH_ERR_INTERNAL_ERROR
              | Some blob \<Rightarrow> sshbuf_put_bignum2_bytes A blob))"

record gen =
  g_buf :: sshbuf
  g_sect :: sshbuf
  g_state :: u8
  g_last :: u64
  g_bitmap_start :: u64
  g_bitmap :: "bitmap option"

definition to_buf :: "'a bufop \<Rightarrow> (ssherr, gen, 'a) run" where
  "to_buf m g = (case m (g_buf g) of (r, b) \<Rightarrow> (r, g\<lparr>g_buf := b\<rparr>))"

definition to_sect :: "'a bufop \<Rightarrow> (ssherr, gen, 'a) run" where
  "to_sect m g = (case m (g_sect g) of (r, b) \<Rightarrow> (r, g\<lparr>g_sect := b\<rparr>))"

definition finish_section :: "allocator \<Rightarrow> (nat \<Rightarrow> u8) \<Rightarrow> (ssherr, gen, unit) run" where
  "finish_section A junk g0 =
     andthen (if g_state g0 = KRL_SECTION_CERT_SERIAL_BITMAP
              then andthen (to_sect (put_bitmap A junk (the (g_bitmap g0)))) (\<lambda>_ g. ret () (g\<lparr>g_bitmap := None\<rparr>))
              else ret ()) (\<lambda>_.
     andthen (to_buf (sshbuf_put_u8 A (g_state g0))) (\<lambda>_ g.
       to_buf (sshbuf_put_stringb A (Some (g_sect g))) g)) g0"

definition reset_sect :: "allocator \<Rightarrow> gen \<Rightarrow> gen" where
  "reset_sect A g = g\<lparr>g_sect := sshbuf_reset A (g_sect g)\<rparr>"

definition start_section :: "allocator \<Rightarrow> u8 \<Rightarrow> u64 \<Rightarrow> (ssherr, gen, unit) run" where
  "start_section A next_state lo g =
     (let g1 = reset_sect A (g\<lparr>g_state := next_state\<rparr>) in
      if next_state = KRL_SECTION_CERT_SERIAL_BITMAP
      then (case bitmap_new A of
              None \<Rightarrow> (Inl SSH_ERR_ALLOC_FAIL, g1)
            | Some bm \<Rightarrow> to_sect (sshbuf_put_u64 A lo) (g1\<lparr>g_bitmap := Some bm, g_bitmap_start := lo\<rparr>))
      else (Inr (), g1))"

text \<open>
  The serials \<open>lo, lo + 1, \<dots>\<close> of a run of \<open>contig\<close>. The result \<open>False\<close> stands for the jump to \<^verbatim>\<open>out\<close> with \<^verbatim>\<open>r\<close>
  still zero, which the check of the bitmap's gap makes. The argument of \<^verbatim>\<open>bitmap_set_bit\<close> has 32 bits.
\<close>

definition fill_section :: "allocator \<Rightarrow> revoked_serial \<Rightarrow> u64 \<Rightarrow> (ssherr, gen, bool) run" where
  "fill_section A rs contig g =
     (if g_state g = KRL_SECTION_CERT_SERIAL_LIST then
        andthen (to_sect (put_all (sshbuf_put_u64 A) (map (\<lambda>i. fst rs + of_nat i) [0..<unat contig]))) (\<lambda>_. ret True) g
      else if g_state g = KRL_SECTION_CERT_SERIAL_RANGE then
        andthen (to_sect (put_all (sshbuf_put_u64 A) [fst rs, snd rs])) (\<lambda>_. ret True) g
      else if g_state g = KRL_SECTION_CERT_SERIAL_BITMAP then
        (if int (unat (fst rs - g_bitmap_start g)) > INT_MAX then ret False g
         else
           (case set_bits A (map (\<lambda>i. unat (ucast (fst rs + of_nat i - g_bitmap_start g) :: u32)) [0..<unat contig])
                   (the (g_bitmap g)) of
              None \<Rightarrow> (Inl SSH_ERR_ALLOC_FAIL, g)
            | Some bm \<Rightarrow> ret True (g\<lparr>g_bitmap := Some bm\<rparr>)))
      else ret True g)"

definition gen_serial :: "allocator \<Rightarrow> (nat \<Rightarrow> u8) \<Rightarrow> revoked_serial \<Rightarrow> revoked_serial option \<Rightarrow> (ssherr, gen, bool) run" where
  "gen_serial A junk rs nrs g =
     (let gap = (case nrs of None \<Rightarrow> 0 | Some n \<Rightarrow> fst n - snd rs);
          contig = 1 + (snd rs - fst rs);
          st = g_state g;
          (next_state, force_new_sect) =
            choose_next_state st contig (nrs = None) (if st = 0 then 0 else fst rs - g_last g) gap
      in andthen (if st \<noteq> 0 \<and> (force_new_sect \<or> next_state \<noteq> st \<or> st = KRL_SECTION_CERT_SERIAL_RANGE)
                  then andthen (finish_section A junk) (\<lambda>_ g. ret () (reset_sect A g))
                  else ret ()) (\<lambda>_.
         andthen (if next_state \<noteq> st \<or> force_new_sect then start_section A next_state (fst rs) else ret ()) (\<lambda>_.
         andthen (fill_section A rs contig) (\<lambda>more g.
           if more then ret True (g\<lparr>g_last := snd rs\<rparr>) else ret False g))) g)"

fun gen_serials :: "allocator \<Rightarrow> (nat \<Rightarrow> u8) \<Rightarrow> revoked_serial list \<Rightarrow> (ssherr, gen, bool) run" where
  "gen_serials A junk [] = ret True"
| "gen_serials A junk (rs # rest) =
     andthen (gen_serial A junk rs (case rest of [] \<Rightarrow> None | n # _ \<Rightarrow> Some n)) (\<lambda>more.
       if more then gen_serials A junk rest else ret False)"

definition sshkey_puts :: "'k key_ops \<Rightarrow> allocator \<Rightarrow> 'k \<Rightarrow> unit bufop" where
  "sshkey_puts K A key =
     (if sshbuf_new A = None then throw SSH_ERR_ALLOC_FAIL
      else (case sshkey_to_blob K key of Inl e \<Rightarrow> throw e | Inr blob \<Rightarrow> sshbuf_put_string A blob))"

definition gen_key_ids :: "allocator \<Rightarrow> u8 list list \<Rightarrow> (ssherr, gen, unit) run" where
  "gen_key_ids A ids g =
     andthen (to_sect (put_all (\<lambda>s. sshbuf_put_cstring A (Some s)) ids)) (\<lambda>_ g.
       if sshbuf_len (g_sect g) \<noteq> 0
       then andthen (to_buf (sshbuf_put_u8 A KRL_SECTION_CERT_KEY_ID)) (\<lambda>_ g.
              to_buf (sshbuf_put_stringb A (Some (g_sect g))) g) g
       else ret () g) (reset_sect A g)"

definition revoked_certs_generate :: "'k key_ops \<Rightarrow> allocator \<Rightarrow> (nat \<Rightarrow> u8) \<Rightarrow> 'k revoked_certs \<Rightarrow> unit bufop" where
  "revoked_certs_generate K A junk rc buf =
     (case sshbuf_new A of
        None \<Rightarrow> (Inl SSH_ERR_ALLOC_FAIL, buf)
      | Some sect \<Rightarrow>
          (case andthen (to_buf (case ca_key rc of None \<Rightarrow> sshbuf_put_string A [] | Some k \<Rightarrow> sshkey_puts K A k)) (\<lambda>_.
                andthen (to_buf (sshbuf_put_string A [])) (\<lambda>_.
                andthen (gen_serials A junk (revoked_serials rc)) (\<lambda>more.
                  if \<not> more then ret ()
                  else andthen (\<lambda>g. if g_state g \<noteq> 0 then finish_section A junk g else ret () g) (\<lambda>_.
                         gen_key_ids A (revoked_key_ids rc)))))
                \<lparr>g_buf = buf, g_sect = sect, g_state = 0, g_last = 0, g_bitmap_start = 0, g_bitmap = None\<rparr>
           of (r, g) \<Rightarrow> (r, g_buf g)))"

subsection \<open>The whole list\<close>

text \<open>\<open>sect\<close> is threaded with the output buffer.\<close>

definition put_blobs :: "allocator \<Rightarrow> u8 \<Rightarrow> u8 list list \<Rightarrow> (ssherr, sshbuf \<times> sshbuf, unit) run" where
  "put_blobs A type blobs st =
     (case put_all (sshbuf_put_string A) blobs (sshbuf_reset A (snd st)) of
        (Inl e, sect) \<Rightarrow> (Inl e, (fst st, sect))
      | (Inr _, sect) \<Rightarrow>
          if sshbuf_len sect \<noteq> 0
          then (case andthen (sshbuf_put_u8 A type) (\<lambda>_. sshbuf_put_stringb A (Some sect)) (fst st) of
                  (r, buf) \<Rightarrow> (r, (buf, sect)))
          else (Inr (), (fst st, sect)))"

definition put_certs :: "'k key_ops \<Rightarrow> allocator \<Rightarrow> (nat \<Rightarrow> u8) \<Rightarrow> 'k revoked_certs \<Rightarrow> (ssherr, sshbuf \<times> sshbuf, unit) run" where
  "put_certs K A junk rc st =
     (case revoked_certs_generate K A junk rc (sshbuf_reset A (snd st)) of
        (Inl e, sect) \<Rightarrow> (Inl e, (fst st, sect))
      | (Inr _, sect) \<Rightarrow>
          (case andthen (sshbuf_put_u8 A KRL_SECTION_CERTIFICATES) (\<lambda>_. sshbuf_put_stringb A (Some sect)) (fst st) of
             (r, buf) \<Rightarrow> (r, (buf, sect))))"

definition put_krl_header :: "allocator \<Rightarrow> 'k ssh_krl \<Rightarrow> unit bufop" where
  "put_krl_header A krl =
     andthen (sshbuf_put A KRL_MAGIC) (\<lambda>_.
     andthen (sshbuf_put_u32 A KRL_FORMAT_VERSION) (\<lambda>_.
     andthen (sshbuf_put_u64 A (krl_version krl)) (\<lambda>_.
     andthen (sshbuf_put_u64 A (generated_date krl)) (\<lambda>_.
     andthen (sshbuf_put_u64 A (krl_flags krl)) (\<lambda>_.
     andthen (sshbuf_put_string A []) (\<lambda>_.
       sshbuf_put_cstring A (comment krl)))))))"

definition ssh_krl_to_blob ::
    "'k key_ops \<Rightarrow> allocator \<Rightarrow> (nat \<Rightarrow> u8) \<Rightarrow> u64 \<Rightarrow> (ssherr, 'k ssh_krl \<times> sshbuf, unit) run" where
  "ssh_krl_to_blob K A junk now st =
     (let krl = (if generated_date (fst st) = 0 then (fst st)\<lparr>generated_date := now\<rparr> else fst st) in
      case sshbuf_new A of
        None \<Rightarrow> (Inl SSH_ERR_ALLOC_FAIL, (krl, snd st))
      | Some sect \<Rightarrow>
          (case put_krl_header A krl (snd st) of
             (Inl e, buf) \<Rightarrow> (Inl e, (krl, buf))
           | (Inr _, buf) \<Rightarrow>
               (case andthen (put_all (put_certs K A junk) (revoked_cas krl)) (\<lambda>_.
                     andthen (put_blobs A KRL_SECTION_EXPLICIT_KEY (revoked_keys krl)) (\<lambda>_.
                     andthen (put_blobs A KRL_SECTION_FINGERPRINT_SHA1 (revoked_sha1s krl)) (\<lambda>_.
                       put_blobs A KRL_SECTION_FINGERPRINT_SHA256 (revoked_sha256s krl)))) (buf, sect) of
                  (r, (buf', _)) \<Rightarrow> (r, (krl, buf')))))"

end
