(* ===== verification/Sshbuf_Heap.thy ===== *)
theory Sshbuf_Heap
  imports Sshbuf_Getput
begin

text \<open>
  Buffers that share storage: \<^verbatim>\<open>sshbuf_set_parent\<close>, \<^verbatim>\<open>sshbuf_fromb\<close>, \<^verbatim>\<open>sshbuf_froms\<close> and \<^verbatim>\<open>sshbuf_free\<close>. A child
  refers to its parent by the parent's address; a heap is the list of the buffers by address, with \<open>None\<close>
  at an address that has been freed. Freeing through an address that is not live is undefined behaviour
  in C, and has no result in the model.
\<close>

subsection \<open>Operations\<close>

text \<open>The parent at address \<open>pid\<close> is the state; the result is the updated child.\<close>

definition sshbuf_set_parent :: "nat \<Rightarrow> sshbuf \<Rightarrow> sshbuf bufop" where
  "sshbuf_set_parent pid child parent =
     (if sshbuf_insane child then throw SSH_ERR_INTERNAL_ERROR parent
      else if sshbuf_insane parent then throw SSH_ERR_INTERNAL_ERROR parent
      else if sb_parent child \<noteq> None \<and> sb_parent child \<noteq> Some pid then throw SSH_ERR_INTERNAL_ERROR parent
      else ret (child\<lparr>sb_parent := Some pid\<rparr>) (parent\<lparr>sb_refcount := sb_refcount parent + 1\<rparr>))"

text \<open>When \<^verbatim>\<open>sshbuf_set_parent\<close> fails the child is freed, and the parent is as before.\<close>

definition sshbuf_fromb :: "allocator \<Rightarrow> nat \<Rightarrow> sshbuf \<Rightarrow> sshbuf option \<times> sshbuf" where
  "sshbuf_fromb A pid buf =
     (if sshbuf_insane buf then (None, buf)
      else
        (case sshbuf_from A (sshbuf_ptr buf) (mem_read (sb_off buf) (sshbuf_len buf) (sb_mem buf)) of
           None \<Rightarrow> (None, buf)
         | Some child \<Rightarrow>
             (case sshbuf_set_parent pid child buf of
                (Inl _, b) \<Rightarrow> (None, b)
              | (Inr child', b) \<Rightarrow> (Some child', b))))"

definition sshbuf_froms :: "allocator \<Rightarrow> nat \<Rightarrow> sshbuf bufop" where
  "sshbuf_froms A pid =
     andthen sshbuf_peek_string_direct (\<lambda>(p, len) buf.
       case sshbuf_from A (Some (ptr_add (the (sb_cd buf)) p)) (mem_read p len (sb_mem buf)) of
         None \<Rightarrow> throw SSH_ERR_ALLOC_FAIL buf
       | Some child \<Rightarrow> andthen (sshbuf_consume (len + 4)) (\<lambda>_. sshbuf_set_parent pid child) buf)"

type_synonym bufheap = "sshbuf option list"

definition refs :: "sshbuf option \<Rightarrow> nat" where
  "refs x = (case x of None \<Rightarrow> 0 | Some b \<Rightarrow> sb_refcount b)"

lemma refs_decrease:
  assumes "i < length h" and "h ! i = Some b" and "n < sb_refcount b"
  shows "sum_list (map refs (h[i := Some (b\<lparr>sb_refcount := n\<rparr>)])) < sum_list (map refs h)"
proof -
  have h: "h = take i h @ Some b # drop (Suc i) h" using id_take_nth_drop [OF assms(1)] assms(2) by simp
  have "h[i := x] = take i h @ x # drop (Suc i) h" for x using assms(1) by (rule upd_conv_take_nth_drop)
  then have "sum_list (map refs (h[i := Some (b\<lparr>sb_refcount := n\<rparr>)])) =
      sum_list (map refs (take i h)) + n + sum_list (map refs (drop (Suc i) h))"
    by (simp add: refs_def)
  moreover have "sum_list (map refs h) = sum_list (map refs (take i h)) + sb_refcount b + sum_list (map refs (drop (Suc i) h))"
    by (subst h) (simp add: refs_def)
  ultimately show ?thesis using assms(3) by simp
qed

lemma sshbuf_ok_refcount: "sshbuf_ok b \<Longrightarrow> 0 < sb_refcount b"
  by (auto simp: sshbuf_ok_def sshbuf_insane_def)

lemma sane_refcount: "\<not> sshbuf_insane b \<Longrightarrow> 0 < sb_refcount b"
  by (auto simp: sshbuf_insane_def)

function sshbuf_free :: "nat option \<Rightarrow> bufheap \<Rightarrow> bufheap option" where
  "sshbuf_free None h = Some h"
| "sshbuf_free (Some i) h =
     (if \<not> (i < length h \<and> h ! i \<noteq> None) then None
      else
        let b = the (h ! i) in
        if sshbuf_insane b then Some h
        else
          let b1 = b\<lparr>sb_refcount := sb_refcount b - 1\<rparr>; h1 = h[i := Some b1] in
          if sb_refcount b1 > 0 then Some h1
          else (case sshbuf_free (sb_parent b) h1 of None \<Rightarrow> None | Some h2 \<Rightarrow> Some (h2[i := None])))"
  by pat_completeness auto
termination
  by (relation "measure (\<lambda>(x, h). sum_list (map refs h))") (auto intro!: refs_decrease sane_refcount)

declare sshbuf_free.simps(2) [simp del]

definition free_child :: "sshbuf option \<Rightarrow> sshbuf \<Rightarrow> sshbuf" where
  "free_child child buf =
     (case child of
        None \<Rightarrow> buf
      | Some c \<Rightarrow> if sshbuf_insane c \<or> sshbuf_insane buf then buf else buf\<lparr>sb_refcount := sb_refcount buf - 1\<rparr>)"

text \<open>What freeing a child does to its parent: this is the effect of \<^verbatim>\<open>sshbuf_free\<close> on the parent of a child that has no other reference.\<close>

lemma free_child_free:
  assumes "sb_refcount c = 1" and "sb_parent c = Some 0" and "1 < sb_refcount buf" and "\<not> sshbuf_insane c"
  shows "sshbuf_free (Some 1) [Some buf, Some c] = Some [Some (free_child (Some c) buf), None]"
  using assms by (simp add: sshbuf_free.simps(2) free_child_def Let_def)

subsection \<open>Reference counts\<close>

text \<open>
  \<open>ext i\<close> is the number of references to buffer \<open>i\<close> that are held outside the heap; the other references
  are those of its children, which have been created after it. A buffer whose count has reached zero is
  being freed and does not count as a child any more.
\<close>

definition child_at :: "bufheap \<Rightarrow> nat \<Rightarrow> nat \<Rightarrow> bool" where
  "child_at h j k \<longleftrightarrow> (case h ! k of None \<Rightarrow> False | Some b \<Rightarrow> sb_parent b = Some j \<and> sb_refcount b > 0)"

definition kids :: "bufheap \<Rightarrow> nat \<Rightarrow> nat" where
  "kids h j = length (filter (child_at h j) [Suc j..<length h])"

definition buf_ok_at :: "bufheap \<Rightarrow> (nat \<Rightarrow> nat) \<Rightarrow> nat \<Rightarrow> bool" where
  "buf_ok_at h ext j \<longleftrightarrow>
     (case h ! j of
        None \<Rightarrow> ext j = 0 \<and> kids h j = 0
      | Some b \<Rightarrow> sshbuf_ok b \<and> sb_refcount b = ext j + kids h j \<and>
          (\<forall>p. sb_parent b = Some p \<longrightarrow> p < j \<and> h ! p \<noteq> None))"

definition heap_ok :: "bufheap \<Rightarrow> (nat \<Rightarrow> nat) \<Rightarrow> bool" where
  "heap_ok h ext \<longleftrightarrow> (\<forall>j < length h. buf_ok_at h ext j)"

lemma kids_cong:
  assumes "length h' = length h" and "\<And>k. j < k \<Longrightarrow> k < length h \<Longrightarrow> child_at h' j k = child_at h j k"
  shows "kids h' j = kids h j"
  unfolding kids_def assms(1) using assms(2) by (intro arg_cong [of _ _ length] filter_cong) auto

lemma kids_update:
  assumes "j < i" and "i < length h" and "child_at h j i" and "\<not> child_at h' j i" and "length h' = length h"
    and "\<And>k. j < k \<Longrightarrow> k < length h \<Longrightarrow> k \<noteq> i \<Longrightarrow> child_at h' j k = child_at h j k"
  shows "kids h j = kids h' j + 1"
proof -
  have r: "[Suc j..<length h] = [Suc j..<i] @ i # [Suc i..<length h]"
    using assms(1,2) by (metis Suc_leI upt_conv_Cons upt_add_eq_append le_add_diff_inverse less_imp_le_nat)
  have "filter (child_at h' j) [Suc j..<i] = filter (child_at h j) [Suc j..<i]"
    "filter (child_at h' j) [Suc i..<length h] = filter (child_at h j) [Suc i..<length h]"
    using assms(1,2,6) by (auto intro!: filter_cong)
  then show ?thesis unfolding kids_def assms(5) r using assms(3,4) by simp
qed

text \<open>Freeing changes reference counts and removes buffers, and changes nothing else.\<close>

definition uncounted :: "sshbuf option \<Rightarrow> sshbuf option" where
  "uncounted x = map_option (\<lambda>b. b\<lparr>sb_refcount := 0\<rparr>) x"

definition only_counts :: "bufheap \<Rightarrow> bufheap \<Rightarrow> bool" where
  "only_counts h h' \<longleftrightarrow> length h' = length h \<and>
     (\<forall>k < length h. h' ! k = None \<or> uncounted (h' ! k) = uncounted (h ! k))"

lemma only_counts_trans: "only_counts h h1 \<Longrightarrow> only_counts h1 h2 \<Longrightarrow> only_counts h h2"
  unfolding only_counts_def by (metis map_option_is_None uncounted_def)

lemma only_counts_update:
  "only_counts h h' \<Longrightarrow> only_counts h (h'[i := None])"
  "i < length h \<Longrightarrow> h ! i = Some b \<Longrightarrow> only_counts h (h[i := Some (b\<lparr>sb_refcount := n\<rparr>)])"
proof -
  show "only_counts h (h'[i := None])" if "only_counts h h'"
    unfolding only_counts_def
  proof (intro conjI allI impI)
    show "length (h'[i := None]) = length h" using that by (simp add: only_counts_def)
    show "h'[i := None] ! k = None \<or> uncounted (h'[i := None] ! k) = uncounted (h ! k)" if "k < length h" for k
      using that \<open>only_counts h h'\<close> by (cases "k = i") (simp_all add: only_counts_def)
  qed
  assume "i < length h" "h ! i = Some b"
  then show "only_counts h (h[i := Some (b\<lparr>sb_refcount := n\<rparr>)])"
    by (auto simp: only_counts_def nth_list_update uncounted_def)
qed

lemma buf_ok_cong:
  assumes "h' ! j = h ! j" and "kids h' j = kids h j" and "ext' j = ext j"
    and "\<And>b p. h ! j = Some b \<Longrightarrow> sb_parent b = Some p \<Longrightarrow> p < j \<Longrightarrow> h ! p \<noteq> None \<Longrightarrow> h' ! p \<noteq> None"
    and "buf_ok_at h ext j"
  shows "buf_ok_at h' ext' j"
  using assms by (auto simp: buf_ok_at_def split: option.splits)

lemma live_parent: "buf_ok_at h ext q \<Longrightarrow> child_at h q k \<Longrightarrow> q < k \<Longrightarrow> k < length h \<Longrightarrow> h ! q \<noteq> None"
proof
  assume k: "child_at h q k" "q < k" "k < length h" and "buf_ok_at h ext q" "h ! q = None"
  then have "kids h q = 0" by (simp add: buf_ok_at_def)
  moreover have "k \<in> set (filter (child_at h q) [Suc q..<length h])" using k by simp
  ultimately show False unfolding kids_def by (metis empty_iff length_0_conv list.set(1))
qed

text \<open>Entries above \<open>i\<close> stay well formed when only entries up to \<open>i\<close> change.\<close>

lemma buf_ok_above:
  assumes j: "i < j" "j < length h" and len: "length h' = length h" and same: "\<And>k. i < k \<Longrightarrow> h' ! k = h ! k"
    and below: "\<And>q. q \<le> i \<Longrightarrow> buf_ok_at h' ext' q" and ext: "ext' j = ext j" and ok: "buf_ok_at h ext j"
  shows "buf_ok_at h' ext' j"
proof (rule buf_ok_cong [of h' j h ext' ext])
  show "h' ! j = h ! j" "ext' j = ext j" "buf_ok_at h ext j" using same [OF j(1)] ext ok by simp_all
  show "kids h' j = kids h j" using len same j(1) by (intro kids_cong) (simp_all add: child_at_def)
  fix b p assume b: "h ! j = Some b" "sb_parent b = Some p" "p < j" "h ! p \<noteq> None"
  show "h' ! p \<noteq> None"
  proof (cases "p \<le> i")
    case True
    have "0 < sb_refcount b" using ok b(1) sshbuf_ok_refcount [of b] by (simp add: buf_ok_at_def)
    then have "child_at h' p j" using b(1,2) same [OF j(1)] by (simp add: child_at_def)
    then show ?thesis using live_parent below [OF True] b(3) j(2) len by metis
  qed (use same b(4) in simp)
qed

lemma sshbuf_ok_count:
  "sshbuf_ok b \<Longrightarrow> 0 < n \<Longrightarrow> n \<le> SSHBUF_REFS_MAX \<Longrightarrow> sshbuf_ok (b\<lparr>sb_refcount := n\<rparr>)"
  "sshbuf_ok b \<Longrightarrow> sb_refcount b \<le> SSHBUF_REFS_MAX"
  by (auto simp: sshbuf_ok_def sshbuf_insane_def)

text \<open>Releasing the parent of a buffer that has just lost its last reference.\<close>

lemma sshbuf_free_parent:
  assumes IH: "\<And>p h ext. p < i \<Longrightarrow> p < length h \<Longrightarrow> (\<And>j. j \<le> p \<Longrightarrow> buf_ok_at h ext j) \<Longrightarrow> 0 < ext p \<Longrightarrow>
      \<exists>h'. sshbuf_free (Some p) h = Some h' \<and> only_counts h h' \<and> (\<forall>k > p. h' ! k = h ! k) \<and>
           (\<forall>j \<le> p. buf_ok_at h' (ext(p := ext p - 1)) j)"
    and i: "i < length h" and ok: "\<And>j. j \<le> i \<Longrightarrow> buf_ok_at h ext j" and b: "h ! i = Some b" "sb_refcount b = 1"
    and par: "\<And>p. sb_parent b = Some p \<Longrightarrow> p < i \<and> h ! p \<noteq> None"
    and h1: "length h1 = length h" "only_counts h h1" "\<And>k. k \<noteq> i \<Longrightarrow> h1 ! k = h ! k" "h1 ! i = Some (b\<lparr>sb_refcount := sb_refcount b - 1\<rparr>)"
    and dying: "\<And>h2 j k. length h2 = length h \<Longrightarrow> child_at (h2[i := None]) j k = (k \<noteq> i \<and> child_at h2 j k)"
      "\<And>j k. child_at h1 j k = (k \<noteq> i \<and> child_at h j k)"
  shows "\<exists>h2. sshbuf_free (sb_parent b) h1 = Some h2 \<and> only_counts h1 h2 \<and> (\<forall>k \<ge> i. h2 ! k = h1 ! k) \<and>
         (\<forall>j < i. buf_ok_at (h2[i := None]) ext j)"
proof -
  have child_i: "child_at h j i \<longleftrightarrow> sb_parent b = Some j" for j using b by (simp add: child_at_def)
  have removed: "kids (x[i := None]) j = kids x j" if "length x = length h" "\<not> child_at x j i" for x j
  proof (rule kids_cong)
    show "child_at (x[i := None]) j k = child_at x j k" for k using dying(1) [OF that(1), of j k] that(2) by blast
  qed simp
  have kids_h1: "kids (h1[i := None]) j = kids h1 j" for j using removed h1(1) dying(2) by blast
  have other: "kids h1 j = kids h j" if "sb_parent b \<noteq> Some j" for j
  proof (rule kids_cong [OF h1(1)])
    show "child_at h1 j k = child_at h j k" for k using that dying(2) [of j k] child_i [of j] by blast
  qed
  have none: "buf_ok_at (h1[i := None]) ext j" if j: "j < i" "sb_parent b \<noteq> Some j" for j
  proof (rule buf_ok_cong [of _ j h _ ext])
    show "h1[i := None] ! j = h ! j" "buf_ok_at h ext j" using j h1(3) [of j] ok [of j] by simp_all
    show "kids (h1[i := None]) j = kids h j" using kids_h1 other [OF j(2)] by simp
    show "h1[i := None] ! q \<noteq> None" if "q < j" "h ! q \<noteq> None" for q using that j(1) h1(3) [of q] by simp
  qed simp
  show ?thesis
  proof (cases "sb_parent b")
    case None
    then show ?thesis using none by (intro exI [of _ h1]) (simp add: only_counts_def)
  next
    case (Some p)
    then have p: "p < i" "h ! p \<noteq> None" using par by simp_all
    have kp: "kids h p = kids h1 p + 1"
      using kids_update [OF p(1) i, of h1] child_i [of p] Some dying(2) h1(1) by simp
    have ok1: "buf_ok_at h1 (ext(p := ext p + 1)) j" if "j \<le> p" for j
    proof (cases "j = p")
      case True
      then show ?thesis using ok [of p] p kp h1(3) by (auto simp: buf_ok_at_def split: option.splits)
    next
      case False
      show ?thesis
      proof (rule buf_ok_cong [of _ j h _ ext])
        show "h1 ! j = h ! j" "buf_ok_at h ext j" "(ext(p := ext p + 1)) j = ext j" "kids h1 j = kids h j"
          using False that p(1) h1(3) [of j] ok [of j] other [of j] Some by simp_all
        show "h1 ! q \<noteq> None" if "q < j" "h ! q \<noteq> None" for q using that \<open>j \<le> p\<close> p(1) h1(3) [of q] by simp
      qed
    qed
    have "p < length h1" using p(1) i h1(1) by simp
    from IH [OF p(1) this ok1] obtain h2 where h2: "sshbuf_free (Some p) h1 = Some h2" "only_counts h1 h2"
      "\<forall>k > p. h2 ! k = h1 ! k" "\<forall>j \<le> p. buf_ok_at h2 ext j" by (auto simp: fun_upd_idem)
    have len: "length h2 = length h" using h2(2) h1(1) by (simp add: only_counts_def)
    have "\<not> child_at h2 j i" for j using h2(3) p(1) dying(2) [of j i] by (simp add: child_at_def)
    then have kids_h2: "kids (h2[i := None]) j = kids h2 j" for j using removed len by blast
    have low: "buf_ok_at (h2[i := None]) ext j" if "j \<le> p" for j
    proof (rule buf_ok_cong [of _ j h2 _ ext])
      show "h2[i := None] ! j = h2 ! j" "buf_ok_at h2 ext j" using that p(1) h2(4) by simp_all
      show "h2[i := None] ! q \<noteq> None" if "q < j" "h2 ! q \<noteq> None" for q using that \<open>j \<le> p\<close> p(1) by simp
    qed (simp_all add: kids_h2)
    have "buf_ok_at (h2[i := None]) ext j" if "j < i" for j
    proof (cases "j \<le> p")
      case False
      show ?thesis
        by (rule buf_ok_above [of p j "h1[i := None]" "h2[i := None]" ext ext])
          (use False that i len h1(1) h2(3) low none [of j] Some in \<open>auto simp: nth_list_update\<close>)
    qed (rule low)
    then show ?thesis using h2 Some p(1) by (intro exI [of _ h2]) auto
  qed
qed

lemma sshbuf_free_ok:
  "i < length h \<Longrightarrow> (\<And>j. j \<le> i \<Longrightarrow> buf_ok_at h ext j) \<Longrightarrow> 0 < ext i \<Longrightarrow>
   \<exists>h'. sshbuf_free (Some i) h = Some h' \<and> only_counts h h' \<and> (\<forall>k > i. h' ! k = h ! k) \<and>
        (\<forall>j \<le> i. buf_ok_at h' (ext(i := ext i - 1)) j)"
proof (induction i arbitrary: h ext rule: less_induct)
  case (less i)
  obtain b where b: "h ! i = Some b" using less.prems(2) [of i] less.prems(3) by (cases "h ! i") (auto simp: buf_ok_at_def)
  have at: "sshbuf_ok b" "sb_refcount b = ext i + kids h i" "\<And>p. sb_parent b = Some p \<Longrightarrow> p < i \<and> h ! p \<noteq> None"
    using less.prems(2) [of i] b by (auto simp: buf_ok_at_def)
  define h1 where "h1 = h[i := Some (b\<lparr>sb_refcount := sb_refcount b - 1\<rparr>)]"
  have free: "sshbuf_free (Some i) h = (if sb_refcount b - 1 > 0 then Some h1
      else (case sshbuf_free (sb_parent b) h1 of None \<Rightarrow> None | Some h2 \<Rightarrow> Some (h2[i := None])))"
    using less.prems(1) b at(1) by (simp add: sshbuf_free.simps(2) h1_def sshbuf_ok_def)
  have h1: "length h1 = length h" "only_counts h h1" "\<And>k. k \<noteq> i \<Longrightarrow> h1 ! k = h ! k"
    "h1 ! i = Some (b\<lparr>sb_refcount := sb_refcount b - 1\<rparr>)"
    using less.prems(1) b by (simp_all add: h1_def only_counts_update)
  have kids_i: "kids h' i = kids h i" if "length h' = length h" "\<And>k. i < k \<Longrightarrow> h' ! k = h ! k" for h'
    using that by (intro kids_cong) (simp_all add: child_at_def)
  show ?case
  proof (cases "sb_refcount b - 1 > 0")
    case True
    have "buf_ok_at h1 (ext(i := ext i - 1)) j" if "j \<le> i" for j
    proof (cases "j = i")
      case True
      then show ?thesis
        using at less.prems(3) h1 kids_i [of h1] sshbuf_ok_count(1) [OF at(1), of "sb_refcount b - 1"] sshbuf_ok_count(2) [OF at(1)] \<open>sb_refcount b - 1 > 0\<close>
        by (auto simp: buf_ok_at_def)
    next
      case False
      have "child_at h1 j k = child_at h j k" for k
        using h1(3,4) b \<open>sb_refcount b - 1 > 0\<close> by (cases "k = i") (auto simp: child_at_def)
      then have k: "kids h1 j = kids h j" using h1(1) by (intro kids_cong) auto
      have "h1 ! p \<noteq> None" if "h ! p \<noteq> None" for p using h1(3,4) that by (cases "p = i") auto
      then show ?thesis
        using False h1(3) k less.prems(2) [OF \<open>j \<le> i\<close>] by (intro buf_ok_cong [of h1 j h _ ext]) auto
    qed
    then show ?thesis using True free h1(2,3) by (intro exI [of _ h1]) (simp del: fun_upd_apply)
  next
    case False
    then have one: "ext i = 1" "kids h i = 0" "sb_refcount b = 1" using at(2) less.prems(3) by auto
    have dying: "length h2 = length h \<Longrightarrow> child_at (h2[i := None]) j k = (k \<noteq> i \<and> child_at h2 j k)"
      "child_at h1 j k = (k \<noteq> i \<and> child_at h j k)" for h2 j k
      using less.prems(1) h1(3) [of k] h1(4) one(3) by (cases "k = i"; simp add: child_at_def)+
    obtain h2 where h2: "sshbuf_free (sb_parent b) h1 = Some h2" "only_counts h1 h2" "\<And>k. i \<le> k \<Longrightarrow> h2 ! k = h1 ! k"
      and low: "\<And>j. j < i \<Longrightarrow> buf_ok_at (h2[i := None]) ext j"
      using sshbuf_free_parent [OF less.IH less.prems(1,2) b one(3) at(3) h1 dying] by blast
    define h' where "h' = h2[i := None]"
    have "buf_ok_at h' (ext(i := ext i - 1)) i"
      using kids_i [of h'] h2(2,3) h1(1,3) one less.prems(1) by (simp add: buf_ok_at_def h'_def only_counts_def)
    moreover have "buf_ok_at h' (ext(i := ext i - 1)) j" if "j < i" for j
      using low [OF that] that by (auto simp: buf_ok_at_def h'_def split: option.splits)
    moreover have "only_counts h h'" using h1(2) h2(2) only_counts_trans only_counts_update(1) unfolding h'_def by blast
    moreover have "\<forall>k > i. h' ! k = h ! k" using h1(3) h2(3) by (simp add: h'_def)
    ultimately show ?thesis using free False h2(1) by (intro exI [of _ h']) (auto simp: h'_def le_less simp del: fun_upd_apply)
  qed
qed

subsection \<open>Views\<close>

text \<open>A child refers to a part of its parent's storage, and is read-only.\<close>

definition view_of :: "sshbuf \<Rightarrow> sshbuf \<Rightarrow> bool" where
  "view_of b pb \<longleftrightarrow> sb_readonly b \<and>
     (\<exists>k. sb_cd b = map_option (\<lambda>p. ptr_add p k) (sb_cd pb) \<and> k + sb_alloc b \<le> length (sb_mem pb) \<and>
          sb_mem b = mem_read k (sb_alloc b) (sb_mem pb))"

definition views_ok :: "bufheap \<Rightarrow> bool" where
  "views_ok h \<longleftrightarrow> (\<forall>k < length h. \<forall>b p pb. h ! k = Some b \<longrightarrow> sb_parent b = Some p \<longrightarrow> h ! p = Some pb \<longrightarrow> view_of b pb)"

definition storage_of :: "sshbuf \<Rightarrow> ptr option \<times> u8 list \<times> nat \<times> bool" where
  "storage_of b = (sb_cd b, sb_mem b, sb_alloc b, sb_readonly b)"

lemma view_of_storage: "view_of b pb \<Longrightarrow> storage_of b' = storage_of b \<Longrightarrow> storage_of pb' = storage_of pb \<Longrightarrow> view_of b' pb'"
  by (simp add: view_of_def storage_of_def)

lemma uncounted_storage:
  "uncounted (Some b') = uncounted x \<Longrightarrow> \<exists>b. x = Some b \<and> storage_of b' = storage_of b \<and> sb_parent b' = sb_parent b"
proof (cases x)
  case (Some b)
  moreover assume "uncounted (Some b') = uncounted x"
  ultimately show ?thesis by (cases b; cases b') (simp add: uncounted_def storage_of_def)
qed (simp add: uncounted_def)

lemma views_only_counts:
  assumes "views_ok h" and "only_counts h h'" and "heap_ok h ext"
  shows "views_ok h'"
  unfolding views_ok_def
proof (intro allI impI)
  fix k b' p pb' assume k: "k < length h'" "h' ! k = Some b'" "sb_parent b' = Some p" "h' ! p = Some pb'"
  have len: "length h' = length h" and same: "\<And>j x. j < length h \<Longrightarrow> h' ! j = Some x \<Longrightarrow> uncounted (Some x) = uncounted (h ! j)"
    using assms(2) by (auto simp: only_counts_def)
  obtain b where b: "h ! k = Some b" "storage_of b' = storage_of b" "sb_parent b' = sb_parent b"
    using uncounted_storage [OF same] k len by fastforce
  then have p: "p < k" using assms(3) k(1,3) len by (auto simp: heap_ok_def buf_ok_at_def split: option.splits)
  then obtain pb where pb: "h ! p = Some pb" "storage_of pb' = storage_of pb"
    using uncounted_storage [OF same [of p]] k(1,4) len by fastforce
  have "view_of b pb" using assms(1) k(1,3) len b(1,3) pb(1) by (simp add: views_ok_def)
  then show "view_of b' pb'" using b(2) pb(2) by (rule view_of_storage)
qed

text \<open>An operation on a buffer in use keeps the storage that its children refer to.\<close>

lemma kids_pos: "child_at h j k \<Longrightarrow> j < k \<Longrightarrow> k < length h \<Longrightarrow> 0 < kids h j"
proof -
  assume "child_at h j k" "j < k" "k < length h"
  then have "k \<in> set (filter (child_at h j) [Suc j..<length h])" by simp
  then show ?thesis unfolding kids_def by (metis length_pos_if_in_set)
qed

lemma heap_okD:
  assumes "heap_ok h ext" and "i < length h" and "h ! i = Some b"
  shows "sshbuf_ok b" and "sb_refcount b = ext i + kids h i"
    and "\<And>p. sb_parent b = Some p \<Longrightarrow> p < i \<and> h ! p \<noteq> None"
  using assms by (auto simp: heap_ok_def buf_ok_at_def)

lemma heap_ok_parent:
  assumes "heap_ok h ext" and "k < length h" and "h ! k = Some c" and "sb_parent c = Some i"
  shows "i < k" and "0 < kids h i"
proof -
  show "i < k" using heap_okD(3) [OF assms(1-3)] assms(4) by simp
  moreover have "child_at h i k" using assms(3,4) sshbuf_ok_refcount heap_okD(1) [OF assms(1-3)] by (simp add: child_at_def)
  ultimately show "0 < kids h i" using assms(2) by (metis kids_pos)
qed

lemma heap_update:
  assumes ok: "heap_ok h ext" "views_ok h" and i: "i < length h" "h ! i = Some b" "0 < ext i" and fr: "buf_frame b b'"
  shows "heap_ok (h[i := Some b']) ext" and "views_ok (h[i := Some b'])"
proof -
  have b': "sshbuf_ok b'" "sb_refcount b' = sb_refcount b" "sb_parent b' = sb_parent b" using fr by (simp_all add: buf_frame_def)
  have child: "child_at (h[i := Some b']) j k = child_at h j k" for j k
    using i b' by (cases "k = i") (simp_all add: child_at_def)
  have kids: "kids (h[i := Some b']) j = kids h j" for j by (rule kids_cong) (simp_all add: child)
  show "heap_ok (h[i := Some b']) ext"
    unfolding heap_ok_def
  proof (intro allI impI)
    fix j assume "j < length (h[i := Some b'])"
    then have j: "buf_ok_at h ext j" using ok(1) by (simp add: heap_ok_def)
    show "buf_ok_at (h[i := Some b']) ext j"
    proof (cases "j = i")
      case True
      then show ?thesis using j i b' kids by (auto simp: buf_ok_at_def)
    next
      case False
      then show ?thesis using i by (intro buf_ok_cong [OF _ kids _ _ j]) (auto simp: nth_list_update)
    qed
  qed
  show "views_ok (h[i := Some b'])"
    unfolding views_ok_def
  proof (intro allI impI)
    fix k c p pb
    assume k: "k < length (h[i := Some b'])" "h[i := Some b'] ! k = Some c" "sb_parent c = Some p" "h[i := Some b'] ! p = Some pb"
    define c0 where "c0 = (if k = i then b else c)"
    have c0: "h ! k = Some c0" "sb_parent c0 = Some p" using k i b'(3) by (auto simp: c0_def)
    have kl: "k < length h" using k(1) by simp
    note p = heap_ok_parent [OF ok(1) kl c0]
    define pb0 where "pb0 = (if p = i then b else pb)"
    have pb0: "h ! p = Some pb0" using k(4) i by (auto simp: pb0_def)
    have view: "view_of c0 pb0" using ok(2) kl c0 pb0 by (simp add: views_ok_def)
    have keep: "storage_of b' = storage_of b" if "\<not> sshbuf_writable b"
      using fr that by (simp add: buf_frame_def storage_of_def)
    have "storage_of c = storage_of c0"
      using keep k(2) i view by (auto simp: c0_def view_of_def sshbuf_writable_def)
    moreover have "storage_of pb = storage_of pb0"
    proof (cases "p = i")
      case True
      then have "1 < sb_refcount b" using heap_okD(2) [OF ok(1) i(1,2)] i(3) p(2) by simp
      then show ?thesis using keep True k(4) i(1) by (auto simp: pb0_def sshbuf_writable_def)
    qed (simp add: pb0_def)
    ultimately show "view_of c pb" using view view_of_storage by blast
  qed
qed

text \<open>A new buffer, which takes a reference to its parent if it has one.\<close>

definition add_ref :: "nat option \<Rightarrow> bufheap \<Rightarrow> bufheap" where
  "add_ref p h = (case p of None \<Rightarrow> h
     | Some i \<Rightarrow> h[i := map_option (\<lambda>b. b\<lparr>sb_refcount := sb_refcount b + 1\<rparr>) (h ! i)])"

lemma length_add_ref [simp]: "length (add_ref p h) = length h"
  by (simp add: add_ref_def split: option.splits)

lemma nth_add_ref:
  "j < length h \<Longrightarrow> add_ref p h ! j =
     map_option (\<lambda>b. b\<lparr>sb_refcount := sb_refcount b + (if p = Some j then 1 else 0)\<rparr>) (h ! j)"
  by (auto simp: add_ref_def nth_list_update option.map_ident_strong split: option.splits)

lemma kids_snoc:
  "j < length h \<Longrightarrow> kids (h @ [x]) j = kids h j + (if child_at (h @ [x]) j (length h) then 1 else 0)"
proof -
  assume "j < length h"
  then have "[Suc j..<length (h @ [x])] = [Suc j..<length h] @ [length h]" by simp
  moreover have "filter (child_at (h @ [x]) j) [Suc j..<length h] = filter (child_at h j) [Suc j..<length h]"
    by (intro filter_cong) (auto simp: child_at_def nth_append)
  ultimately show ?thesis by (simp add: kids_def)
qed

lemma kids_add_ref:
  assumes "heap_ok h ext"
  shows "kids (add_ref p h) j = kids h j"
proof (rule kids_cong)
  fix k assume "k < length h"
  moreover have "h ! k = Some b \<Longrightarrow> 0 < sb_refcount b" for b
    using heap_okD(1) [OF assms \<open>k < length h\<close>] sshbuf_ok_refcount by blast
  ultimately show "child_at (add_ref p h) j k = child_at h j k"
    by (cases "h ! k") (auto simp: child_at_def nth_add_ref)
qed simp

lemma heap_add:
  assumes ok: "heap_ok h ext" "views_ok h" and c: "sshbuf_ok c" "sb_refcount c = 1"
    and par: "\<And>i. sb_parent c = Some i \<Longrightarrow>
      i < length h \<and> (\<exists>b. h ! i = Some b \<and> sb_refcount b < SSHBUF_REFS_MAX \<and> view_of c b)"
  shows "heap_ok (add_ref (sb_parent c) h @ [Some c]) (ext(length h := 1))" (is "heap_ok ?h ?ext")
    and "views_ok (add_ref (sb_parent c) h @ [Some c])"
proof -
  have live: "?h ! q \<noteq> None" if "q < length h" "h ! q \<noteq> None" for q using that by (simp add: nth_append nth_add_ref)
  have kids: "kids ?h j = kids h j + (if sb_parent c = Some j then 1 else 0)" if "j < length h" for j
    using kids_snoc [of j "add_ref (sb_parent c) h"] that c(2) kids_add_ref [OF ok(1)] by (simp add: child_at_def nth_append)
  have "buf_ok_at ?h ?ext j" if j: "j < length h" for j
  proof (cases "h ! j")
    case None
    then have "ext j = 0" "kids h j = 0" "sb_parent c \<noteq> Some j" using ok(1) j par [of j] by (auto simp: heap_ok_def buf_ok_at_def)
    then show ?thesis using None j kids by (simp add: buf_ok_at_def nth_append nth_add_ref)
  next
    case (Some b)
    note b = heap_okD [OF ok(1) j Some]
    have "sb_refcount b < SSHBUF_REFS_MAX" if "sb_parent c = Some j" using par [OF that] Some by auto
    then have "sshbuf_ok (b\<lparr>sb_refcount := sb_refcount b + (if sb_parent c = Some j then 1 else 0)\<rparr>)"
      using sshbuf_ok_count [OF b(1)] sshbuf_ok_refcount [OF b(1)] b(1) by auto
    then show ?thesis using Some j kids [OF j] b(2) b(3) live by (auto simp: buf_ok_at_def nth_append nth_add_ref)
  qed
  moreover have "buf_ok_at ?h ?ext (length h)"
    using c par live by (auto simp: buf_ok_at_def kids_def nth_append)
  ultimately show "heap_ok ?h ?ext" by (auto simp: heap_ok_def less_Suc_eq)
  show "views_ok ?h"
    unfolding views_ok_def
  proof (intro allI impI)
    fix k b p pb assume k: "k < length ?h" "?h ! k = Some b" "sb_parent b = Some p" "?h ! p = Some pb"
    show "view_of b pb"
    proof (cases "k = length h")
      case True
      then have [simp]: "b = c" using k(2) by (simp add: nth_append)
      show ?thesis using par [of p] k(3,4) view_of_storage [of c _ c pb]
        by (auto simp: nth_append nth_add_ref storage_of_def)
    next
      case False
      then have kl: "k < length h" using k(1) by simp
      then obtain b0 where b0: "h ! k = Some b0" "storage_of b = storage_of b0" "sb_parent b0 = Some p"
        using k(2,3) by (auto simp: nth_append nth_add_ref storage_of_def)
      have "p < k" by (rule heap_ok_parent(1) [OF ok(1) kl b0(1,3)])
      then obtain pb0 where "h ! p = Some pb0" "storage_of pb = storage_of pb0"
        using k(4) kl by (auto simp: nth_append nth_add_ref storage_of_def)
      then show ?thesis using ok(2) kl b0 view_of_storage [of b0 pb0 b pb] by (auto simp: views_ok_def)
    qed
  qed
qed

lemma set_parent_fresh:
  assumes "sshbuf_ok b" and "sshbuf_from A p bs = Some c"
  shows "sshbuf_set_parent i c b = (Inr (c\<lparr>sb_parent := Some i\<rparr>), b\<lparr>sb_refcount := sb_refcount b + 1\<rparr>)"
  using assms sshbuf_from_ok [OF assms(2)] by (simp add: sshbuf_set_parent_def sshbuf_ok_def ret_def)

lemma fresh_child:
  assumes b: "sshbuf_ok b" and c: "sshbuf_from A (map_option (\<lambda>p. ptr_add p k) (sb_cd b)) (mem_read k n (sb_mem b)) = Some c"
    and "k + n \<le> sb_alloc b"
  shows "sshbuf_ok (c\<lparr>sb_parent := Some i\<rparr>)" and "sb_refcount c = 1" and "view_of (c\<lparr>sb_parent := Some i\<rparr>) b"
proof -
  note f = sshbuf_from_ok [OF c]
  show "sshbuf_ok (c\<lparr>sb_parent := Some i\<rparr>)" "sb_refcount c = 1" using f by (auto simp: sshbuf_ok_def sshbuf_insane_def)
  have "length (sb_mem b) = sb_alloc b" "length (sb_mem c) = sb_alloc c"
    using sshbuf_okD(2) [OF b] sshbuf_okD(2) f by blast+
  then have "sb_alloc c = n" using f assms(3) by (simp add: mem_read_def)
  then show "view_of (c\<lparr>sb_parent := Some i\<rparr>) b"
    using f assms(3) \<open>length (sb_mem b) = sb_alloc b\<close> by (auto simp: view_of_def)
qed

lemma sshbuf_fromb_child:
  assumes b: "sshbuf_ok b" and run: "sshbuf_fromb A i b = (Some c, b')"
  shows "b' = b\<lparr>sb_refcount := sb_refcount b + 1\<rparr>" and "sshbuf_ok c" and "sb_refcount c = 1"
    and "sb_parent c = Some i" and "view_of c b"
proof -
  note ok = sshbuf_okD [OF b]
  obtain c0 where c0: "sshbuf_from A (map_option (\<lambda>p. ptr_add p (sb_off b)) (sb_cd b)) (mem_read (sb_off b) (sshbuf_len b) (sb_mem b)) = Some c0"
    and c: "c = c0\<lparr>sb_parent := Some i\<rparr>" "b' = b\<lparr>sb_refcount := sb_refcount b + 1\<rparr>"
    using run b by (auto simp: sshbuf_fromb_def sshbuf_ptr_def sshbuf_ok_def set_parent_fresh [OF b] split: if_splits option.splits)
  have "sb_off b + sshbuf_len b \<le> sb_alloc b" using ok by (simp add: sshbuf_len_ok [OF b])
  then show "b' = b\<lparr>sb_refcount := sb_refcount b + 1\<rparr>" "sshbuf_ok c" "sb_refcount c = 1" "sb_parent c = Some i" "view_of c b"
    using fresh_child [OF b c0] c by simp_all
qed

lemma sshbuf_froms_child:
  assumes b: "sshbuf_ok b" and run: "sshbuf_froms A i b = (Inr c, b')"
  obtains b1 where "buf_frame b b1" and "b' = b1\<lparr>sb_refcount := sb_refcount b1 + 1\<rparr>"
    and "sshbuf_ok c" and "sb_refcount c = 1" and "sb_parent c = Some i" and "view_of c b1"
    and "sshbuf_bytes b = string_enc (sshbuf_bytes c) @ sshbuf_bytes b1"
proof -
  note ok = sshbuf_okD [OF b]
  obtain p n where pk: "sshbuf_peek_string_direct b = (Inr (p, n), b)"
    using run peek_string_state [of b] by (cases "sshbuf_peek_string_direct b") (auto simp: sshbuf_froms_def andthen_def split: sum.splits)
  then have p: "p = sb_off b + 4" "n + 4 \<le> sshbuf_len b" "n = unat (PEEK_U32 (sshbuf_bytes b))" "4 \<le> length (sshbuf_bytes b)"
    using sshbuf_peek_string_result [OF b] b by (auto simp: Let_def split: if_splits)
  obtain b1 where b1: "sshbuf_consume (n + 4) b = (Inr (), b1)" "sshbuf_ok b1" "same_owner b b1"
    "sshbuf_bytes b1 = drop (n + 4) (sshbuf_bytes b)" "sb_mem b1 = sb_mem b" "sb_cd b1 = sb_cd b" "sb_alloc b1 = sb_alloc b"
    using sshbuf_consume_Inr [OF b p(2)] by metis
  obtain c0 where c0: "sshbuf_from A (map_option (\<lambda>q. ptr_add q p) (sb_cd b1)) (mem_read p n (sb_mem b1)) = Some c0"
    and c: "c = c0\<lparr>sb_parent := Some i\<rparr>" "b' = b1\<lparr>sb_refcount := sb_refcount b1 + 1\<rparr>"
    using run pk b1 ok(9) set_parent_fresh [OF b1(2)]
    by (auto simp: sshbuf_froms_def andthen_def throw_def split: option.splits)
  have "p + n \<le> sb_alloc b1" using p(1,2) ok b1(7) by (simp add: sshbuf_len_ok [OF b])
  note f = fresh_child [OF b1(2) c0 this]
  have "sshbuf_bytes c = sshbuf_bytes c0" using c(1) by (simp add: sshbuf_bytes_def)
  then have "sshbuf_bytes c = take n (drop 4 (sshbuf_bytes b))"
    using sshbuf_from_ok [OF c0] b1(5) p(1,2) sshbuf_mem_in_bytes [OF b, of 4 n] by simp
  moreover have "POKE_U32 (PEEK_U32 (sshbuf_bytes b)) = take 4 (sshbuf_bytes b)"
    using p(4) POKE_PEEK_U32 [of "take 4 (sshbuf_bytes b)"] by simp
  moreover have "take 4 bs @ take n (drop 4 bs) = take (n + 4) bs" for bs :: "u8 list"
    by (simp add: take_add [symmetric] add.commute)
  ultimately have "string_enc (sshbuf_bytes c) = take (n + 4) (sshbuf_bytes b)"
    using p(2,3) b by (simp add: string_enc_def)
  then have "sshbuf_bytes b = string_enc (sshbuf_bytes c) @ sshbuf_bytes b1" using b1(4) by simp
  moreover have "buf_frame b b1" using b1 by (simp add: buf_frame_def same_owner_def)
  ultimately show thesis using f c that by simp
qed

subsection \<open>Runs of the program\<close>

text \<open>
  The heaps a program reaches by creating buffers, operating on buffers it holds a reference to, taking
  children of them and freeing them. An operation is whatever \<open>buf_frame\<close> allows, which includes every
  accessor of the previous theory. A parent may have no more than \<^verbatim>\<open>SSHBUF_REFS_MAX\<close> references.
\<close>

inductive reach :: "bufheap \<Rightarrow> (nat \<Rightarrow> nat) \<Rightarrow> bool" where
  start: "reach [] (\<lambda>_. 0)"
| new: "reach h ext \<Longrightarrow> sshbuf_new A = Some b \<Longrightarrow> reach (h @ [Some b]) (ext(length h := 1))"
| operate: "reach h ext \<Longrightarrow> i < length h \<Longrightarrow> 0 < ext i \<Longrightarrow> h ! i = Some b \<Longrightarrow> buf_frame b b' \<Longrightarrow>
    reach (h[i := Some b']) ext"
| reset: "reach h ext \<Longrightarrow> i < length h \<Longrightarrow> 0 < ext i \<Longrightarrow> h ! i = Some b \<Longrightarrow>
    SSHBUF_SIZE_INIT \<le> sb_max_size b \<or> sb_readonly b \<Longrightarrow> reach (h[i := Some (sshbuf_reset A b)]) ext"
| fromb: "reach h ext \<Longrightarrow> i < length h \<Longrightarrow> 0 < ext i \<Longrightarrow> h ! i = Some b \<Longrightarrow> sb_refcount b < SSHBUF_REFS_MAX \<Longrightarrow>
    sshbuf_fromb A i b = (Some c, b') \<Longrightarrow> reach (h[i := Some b'] @ [Some c]) (ext(length h := 1))"
| froms: "reach h ext \<Longrightarrow> i < length h \<Longrightarrow> 0 < ext i \<Longrightarrow> h ! i = Some b \<Longrightarrow> sb_refcount b < SSHBUF_REFS_MAX \<Longrightarrow>
    sshbuf_froms A i b = (Inr c, b') \<Longrightarrow> reach (h[i := Some b'] @ [Some c]) (ext(length h := 1))"
| free: "reach h ext \<Longrightarrow> i < length h \<Longrightarrow> 0 < ext i \<Longrightarrow> sshbuf_free (Some i) h = Some h' \<Longrightarrow>
    reach h' (ext(i := ext i - 1))"

lemma reset_frame:
  assumes "sshbuf_ok b" and "SSHBUF_SIZE_INIT \<le> sb_max_size b \<or> sb_readonly b"
  shows "buf_frame b (sshbuf_reset A b)"
proof (cases "sshbuf_writable b")
  case True
  then show ?thesis
    using assms sshbuf_reset_erases [OF assms(1) True, of A] sshbuf_reset_ok [OF assms(1) True, of A]
    by (intro buf_frame_owner) (auto simp: sshbuf_writable_def)
next
  case False
  then show ?thesis
    using sshbuf_reset_shared_ok [OF assms(1) False, of A] sshbuf_reset_shared [OF False, of A]
    by (simp add: buf_frame_def same_owner_def)
qed

lemma heap_free:
  assumes "heap_ok h ext" and "i < length h" and "0 < ext i"
  shows "\<exists>h'. sshbuf_free (Some i) h = Some h' \<and> only_counts h h' \<and> heap_ok h' (ext(i := ext i - 1))"
proof -
  obtain h' where h': "sshbuf_free (Some i) h = Some h'" "only_counts h h'" "\<And>k. i < k \<Longrightarrow> h' ! k = h ! k"
    and low: "\<And>j. j \<le> i \<Longrightarrow> buf_ok_at h' (ext(i := ext i - 1)) j"
    using sshbuf_free_ok [of i h ext] assms by (auto simp: heap_ok_def simp del: fun_upd_apply)
  have len: "length h' = length h" using h'(2) by (simp add: only_counts_def)
  have "buf_ok_at h' (ext(i := ext i - 1)) j" if "j < length h" for j
  proof (cases "j \<le> i")
    case False
    then show ?thesis using buf_ok_above [of i j h h' "ext(i := ext i - 1)" ext] that len h'(3) low assms(1)
      by (simp add: heap_ok_def)
  qed (rule low)
  then show ?thesis using h'(1,2) len by (auto simp: heap_ok_def simp del: fun_upd_apply)
qed

lemma heap_child:
  assumes ok: "heap_ok h ext" "views_ok h" and i: "i < length h" "h ! i = Some b" "0 < ext i" "sb_refcount b < SSHBUF_REFS_MAX"
    and fr: "buf_frame b b1" and c: "sshbuf_ok c" "sb_refcount c = 1" "sb_parent c = Some i" "view_of c b1"
    and b': "b' = b1\<lparr>sb_refcount := sb_refcount b1 + 1\<rparr>"
  shows "heap_ok (h[i := Some b'] @ [Some c]) (ext(length h := 1)) \<and> views_ok (h[i := Some b'] @ [Some c])"
proof -
  have "add_ref (sb_parent c) (h[i := Some b1]) = h[i := Some b']" using i(1) c(3) b' by (simp add: add_ref_def)
  moreover have "sb_refcount b1 < SSHBUF_REFS_MAX" using fr i(4) by (simp add: buf_frame_def)
  ultimately show ?thesis
    using heap_add [OF heap_update [OF ok i(1-3) fr] c(1,2)] c(3,4) i(1) by (simp del: fun_upd_apply)
qed

lemma reach_ok: "reach h ext \<Longrightarrow> heap_ok h ext \<and> views_ok h"
proof (induction rule: reach.induct)
  case start
  show ?case by (simp add: heap_ok_def views_ok_def)
next
  case (new h ext A b)
  have "sb_refcount b = 1" "sb_parent b = None" "sshbuf_ok b"
    using new.hyps(2) sshbuf_new_ok [of A b] by (auto simp: sshbuf_new_def split: option.splits)
  then show ?case using heap_add [of h ext b] new.IH by (simp add: add_ref_def del: fun_upd_apply)
next
  case (operate h ext i b b')
  then show ?case using heap_update [of h ext i b b'] by blast
next
  case (reset h ext i b A)
  then have "buf_frame b (sshbuf_reset A b)" using heap_okD(1) reset_frame by blast
  then show ?case using reset heap_update [of h ext i b] by blast
next
  case (fromb h ext i b A c b')
  then have "sshbuf_ok b" using heap_okD(1) by blast
  then show ?case
    using fromb heap_child [of h ext i b b c b'] sshbuf_fromb_child [OF _ fromb.hyps(6)] buf_frame_refl by blast
next
  case (froms h ext i b A c b')
  then have "sshbuf_ok b" using heap_okD(1) by blast
  then show ?case
    using sshbuf_froms_child [OF _ froms.hyps(6)] froms heap_child [of h ext i b _ c b'] by metis
next
  case (free h ext i h')
  then show ?case using heap_free [of h ext i] views_only_counts [of h h' ext] by (auto simp del: fun_upd_apply)
qed

subsection \<open>Properties\<close>


definition demo_child :: "sshbuf option \<times> sshbuf" where
  "demo_child = sshbuf_fromb demo_allocator 0 demo_buf"

lemma demo_child_some: "demo_child = (Some (the (fst demo_child)), snd demo_child)"
proof -
  have "fst demo_child \<noteq> None"
    by (simp add: demo_child_def sshbuf_fromb_def demo_buf_def sshbuf_new_def calloc_def demo_allocator_def sshbuf_consts
        SIZE_MAX_def sshbuf_insane_def sshbuf_ptr_def sshbuf_len_def sshbuf_from_def sshbuf_set_parent_def mem_read_def ret_def)
  then show ?thesis by (cases demo_child) auto
qed

lemma demo_buf_refs: "sb_refcount demo_buf = 1"
  by (simp add: demo_buf_def sshbuf_new_def calloc_def demo_allocator_def sshbuf_consts SIZE_MAX_def)


text \<open>
  Taking a reference does not look at the limit: a parent with \<^verbatim>\<open>SSHBUF_REFS_MAX\<close> references is well formed,
  \<^verbatim>\<open>sshbuf_set_parent\<close> succeeds on it, and the parent fails the sanity check from then on. That is why the
  runs above are restricted.
\<close>

lemma sshbuf_set_parent_unbounded:
  assumes "sshbuf_ok parent" and "sshbuf_ok child" and "sb_parent child = None" and "sb_refcount parent = SSHBUF_REFS_MAX"
  shows "\<exists>c p. sshbuf_set_parent i child parent = (Inr c, p) \<and> sshbuf_insane p"
  using assms by (auto simp: sshbuf_set_parent_def sshbuf_ok_def ret_def sshbuf_insane_def)

end
