(* ===== verification/Krl_Read.thy ===== *)
theory Krl_Read
  imports Krl_Write Sshbuf_Heap
begin

text \<open>
  Reading key revocation lists (\<^verbatim>\<open>krl.c\<close>). The reader works on child buffers. Addresses of the buffers: 0 the caller's, 1 the copy, 2 a section, 3 a
  subsection. Every loop consumes input, and is a recursive function with the number of remaining bytes
  as its measure. The parameter \<open>sh\<close> gives the shapes of the trees; what an insertion does depends on the
  sequence in the tree only.
\<close>

definition sshbuf_skip_string :: "unit bufop" where
  "sshbuf_skip_string = andthen sshbuf_get_string_direct (\<lambda>_. ret ())"

text \<open>Each of these operations leaves fewer bytes, or none.\<close>

named_theorems shorter \<open>the bytes that an operation leaves\<close>

lemma sshbuf_consume_shorter:
  "sshbuf_consume n b = (Inr x, b') \<Longrightarrow> 0 < n \<Longrightarrow> sshbuf_len b' < sshbuf_len b"
  by (auto simp: sshbuf_consume_def sshbuf_check_sanity_def run_simps Let_def sshbuf_len_def sshbuf_insane_def split: if_splits)

lemma andthen_Inr:
  "andthen m k s = (Inr y, t) \<Longrightarrow> \<exists>x s'. m s = (Inr x, s') \<and> k x s' = (Inr y, t)"
  by (auto simp: andthen_def split: prod.splits sum.splits)

lemma get_u64_shorter [shorter]: "sshbuf_get_u64 b = (Inr x, b') \<Longrightarrow> sshbuf_len b' < sshbuf_len b"
  by (auto simp: sshbuf_get_u64_def Let_def ret_def dest!: andthen_Inr intro: sshbuf_consume_shorter)

lemma get_u8_shorter [shorter]: "sshbuf_get_u8 b = (Inr x, b') \<Longrightarrow> sshbuf_len b' < sshbuf_len b"
  by (auto simp: sshbuf_get_u8_def Let_def ret_def dest!: andthen_Inr intro: sshbuf_consume_shorter)

lemma get_string_direct_shorter [shorter]:
  "sshbuf_get_string_direct b = (Inr x, b') \<Longrightarrow> sshbuf_len b' < sshbuf_len b"
proof -
  assume "sshbuf_get_string_direct b = (Inr x, b')"
  then obtain p n b1 where "sshbuf_peek_string_direct b = (Inr (p, n), b1)" "sshbuf_consume (n + 4) b1 = (Inr (), b')"
    by (auto simp: sshbuf_get_string_direct_def throw_def ret_def dest!: andthen_Inr split: prod.splits sum.splits)
  then show ?thesis using peek_string_state [of b] by (auto intro: sshbuf_consume_shorter)
qed

lemma skip_string_shorter [shorter]: "sshbuf_skip_string b = (Inr x, b') \<Longrightarrow> sshbuf_len b' < sshbuf_len b"
  by (auto simp: sshbuf_skip_string_def ret_def dest!: andthen_Inr shorter)

lemma get_string_shorter [shorter]: "sshbuf_get_string A v b = (Inr x, b') \<Longrightarrow> sshbuf_len b' < sshbuf_len b"
  by (auto simp: sshbuf_get_string_def ret_def throw_def dest!: andthen_Inr shorter split: if_splits option.splits)

lemma get_cstring_shorter [shorter]: "sshbuf_get_cstring A v b = (Inr x, b') \<Longrightarrow> sshbuf_len b' < sshbuf_len b"
proof -
  assume "sshbuf_get_cstring A v b = (Inr x, b')"
  then obtain y where "sshbuf_get_string_direct b = (Inr y, b')"
    using peek_string_state [of b]
    by (auto simp: sshbuf_get_cstring_def Let_def ret_def throw_def dest!: andthen_Inr
        split: if_splits option.splits prod.splits sum.splits)
  then show ?thesis by (rule shorter)
qed

lemma refcount_shorter: "sshbuf_insane b \<or> sshbuf_len (b\<lparr>sb_refcount := n\<rparr>) \<le> sshbuf_len b" for b :: sshbuf
  by (auto simp: sshbuf_len_def sshbuf_insane_def)

lemma free_child_shorter: "sshbuf_len (free_child c b) \<le> sshbuf_len b"
  using refcount_shorter [of b "sb_refcount b - 1"] by (auto simp: free_child_def split: option.splits)

lemma froms_shorter [shorter]: "sshbuf_froms A i b = (Inr c, b') \<Longrightarrow> sshbuf_len b' < sshbuf_len b"
proof -
  assume "sshbuf_froms A i b = (Inr c, b')"
  then obtain n b1 c0 where n: "sshbuf_consume (n + 4) b = (Inr (), b1)" "sshbuf_set_parent i c0 b1 = (Inr c, b')"
    using peek_string_state [of b]
    by (auto simp: sshbuf_froms_def throw_def dest!: andthen_Inr split: option.splits prod.splits)
  then have "sshbuf_len b' \<le> sshbuf_len b1"
    using refcount_shorter [of b1 "sb_refcount b1 + 1"]
    by (auto simp: sshbuf_set_parent_def ret_def throw_def split: if_splits)
  with n(1) show ?thesis using sshbuf_consume_shorter [OF n(1)] by simp
qed

subsection \<open>Subsections of one authority\<close>

text \<open>A buffer that is read, and the list that is filled.\<close>

type_synonym 'k reading = "sshbuf \<times> 'k ssh_krl"

function parse_serial_list ::
    "'k key_ops \<Rightarrow> shape \<Rightarrow> allocator \<Rightarrow> 'k option \<Rightarrow> (ssherr, 'k reading, unit) run" where
  "parse_serial_list K sh A ca (subsect, krl) =
     (if sshbuf_len subsect = 0 then (Inr (), (subsect, krl))
      else
        (case sshbuf_get_u64 subsect of
           (Inl e, sub) \<Rightarrow> (Inl e, (sub, krl))
         | (Inr serial, sub) \<Rightarrow>
             (case ssh_krl_revoke_cert_by_serial K sh A ca serial krl of
                (Inl e, krl') \<Rightarrow> (Inl e, (sub, krl'))
              | (Inr _, krl') \<Rightarrow> parse_serial_list K sh A ca (sub, krl'))))"
  by pat_completeness auto
termination
  by (relation "measure (\<lambda>(_, _, _, _, sub, _). sshbuf_len sub)") (auto dest!: shorter [OF sym])

definition parse_serial_range ::
    "'k key_ops \<Rightarrow> shape \<Rightarrow> allocator \<Rightarrow> 'k option \<Rightarrow> (ssherr, 'k reading, unit) run" where
  "parse_serial_range K sh A ca st =
     (case andthen sshbuf_get_u64 (\<lambda>lo. andthen sshbuf_get_u64 (\<lambda>hi. ret (lo, hi))) (fst st) of
        (Inl e, sub) \<Rightarrow> (Inl e, (sub, snd st))
      | (Inr (lo, hi), sub) \<Rightarrow>
          (case ssh_krl_revoke_cert_by_serial_range K sh A ca lo hi (snd st) of (r, krl) \<Rightarrow> (r, (sub, krl))))"

text \<open>The loop over the bits of a bitmap; \<open>ns\<close> are the indices that are left.\<close>

fun revoke_bits ::
    "'k key_ops \<Rightarrow> shape \<Rightarrow> allocator \<Rightarrow> 'k option \<Rightarrow> u64 \<Rightarrow> bitmap \<Rightarrow> nat list \<Rightarrow> (ssherr, 'k ssh_krl, unit) run" where
  "revoke_bits K sh A ca serial_lo bm [] = ret ()"
| "revoke_bits K sh A ca serial_lo bm (n # ns) =
     (if n > 0 \<and> serial_lo + of_nat n = 0 then throw SSH_ERR_INVALID_FORMAT
      else if \<not> bitmap_test_bit bm n then revoke_bits K sh A ca serial_lo bm ns
      else andthen (ssh_krl_revoke_cert_by_serial K sh A ca (serial_lo + of_nat n)) (\<lambda>_.
             revoke_bits K sh A ca serial_lo bm ns))"

definition parse_serial_bitmap ::
    "'k key_ops \<Rightarrow> shape \<Rightarrow> allocator \<Rightarrow> 'k option \<Rightarrow> (ssherr, 'k reading, unit) run" where
  "parse_serial_bitmap K sh A ca st =
     (case bitmap_new A of
        None \<Rightarrow> (Inl SSH_ERR_ALLOC_FAIL, st)
      | Some bm \<Rightarrow>
          (case andthen sshbuf_get_u64 (\<lambda>lo. andthen sshbuf_get_bignum2_bytes_direct (\<lambda>blob. ret (lo, blob))) (fst st) of
             (Inl e, sub) \<Rightarrow> (Inl e, (sub, snd st))
           | (Inr (lo, blob), sub) \<Rightarrow>
               (case bitmap_from_string A bm blob of
                  None \<Rightarrow> (Inl SSH_ERR_INVALID_FORMAT, (sub, snd st))
                | Some bm1 \<Rightarrow>
                    (case the (bitmap_nbits bm1) of (nbits, bm2) \<Rightarrow>
                       (case revoke_bits K sh A ca lo bm2 [0..<nbits] (snd st) of (r, krl) \<Rightarrow> (r, (sub, krl)))))))"

text \<open>The string a C function sees in an array.\<close>

definition bytes_cstr :: "u8 list \<Rightarrow> u8 list" where
  "bytes_cstr bs = takeWhile (\<lambda>b. b \<noteq> 0) bs"

function parse_key_ids ::
    "'k key_ops \<Rightarrow> allocator \<Rightarrow> 'k option \<Rightarrow> (ssherr, 'k reading, unit) run" where
  "parse_key_ids K A ca (subsect, krl) =
     (if sshbuf_len subsect = 0 then (Inr (), (subsect, krl))
      else
        (case sshbuf_get_cstring A True subsect of
           (Inl e, sub) \<Rightarrow> (Inl e, (sub, krl))
         | (Inr (key_id, _), sub) \<Rightarrow>
             (case ssh_krl_revoke_cert_by_key_id K A ca (bytes_cstr (the key_id)) krl of
                (Inl e, krl') \<Rightarrow> (Inl e, (sub, krl'))
              | (Inr _, krl') \<Rightarrow> parse_key_ids K A ca (sub, krl'))))"
  by pat_completeness auto
termination
  by (relation "measure (\<lambda>(_, _, _, sub, _). sshbuf_len sub)") (auto dest!: shorter [OF sym])

text \<open>The two functions for extensions differ in their messages only; \<open>i\<close> is the address of the section.\<close>

definition extension_body :: "allocator \<Rightarrow> nat \<Rightarrow> unit bufop" where
  "extension_body A i sect =
     (case andthen (sshbuf_get_cstring A True) (\<lambda>_. andthen sshbuf_get_u8 (\<lambda>critical.
             andthen (sshbuf_froms A i) (\<lambda>val. ret (critical, val)))) sect of
        (Inl _, s) \<Rightarrow> (Inl SSH_ERR_INVALID_FORMAT, s)
      | (Inr (critical, val), s) \<Rightarrow>
          (if sshbuf_len s \<noteq> 0 then Inl SSH_ERR_INVALID_FORMAT
           else if critical \<noteq> 0 then Inl SSH_ERR_FEATURE_UNSUPPORTED else Inr (), free_child (Some val) s))"

definition cert_extension_subsection :: "allocator \<Rightarrow> unit bufop" where
  "cert_extension_subsection A = extension_body A 3"

definition extension_section :: "allocator \<Rightarrow> unit bufop" where
  "extension_section A = extension_body A 2"

definition parse_cert_section ::
    "'k key_ops \<Rightarrow> shape \<Rightarrow> allocator \<Rightarrow> 'k option \<Rightarrow> u8 \<Rightarrow> (ssherr, 'k reading, unit) run" where
  "parse_cert_section K sh A ca type st =
     (if type = KRL_SECTION_CERT_SERIAL_LIST then parse_serial_list K sh A ca st
      else if type = KRL_SECTION_CERT_SERIAL_RANGE then parse_serial_range K sh A ca st
      else if type = KRL_SECTION_CERT_SERIAL_BITMAP then parse_serial_bitmap K sh A ca st
      else if type = KRL_SECTION_CERT_KEY_ID then parse_key_ids K A ca st
      else if type = KRL_SECTION_CERT_EXTENSION
      then (case cert_extension_subsection A (fst st) of (r, sub) \<Rightarrow> (r, (sub, snd st)))
      else (Inl SSH_ERR_INVALID_FORMAT, st))"

text \<open>\<open>held\<close> is the subsection of the last round, which is freed at the start of the next one or at the end.\<close>

function parse_cert_sections ::
    "'k key_ops \<Rightarrow> shape \<Rightarrow> allocator \<Rightarrow> 'k option \<Rightarrow> sshbuf option \<Rightarrow> (ssherr, 'k reading, unit) run" where
  "parse_cert_sections K sh A ca held (buf, krl) =
     (if sshbuf_len buf = 0 then (Inr (), (free_child held buf, krl))
      else
        (case sshbuf_get_u8 (free_child held buf) of
           (Inl e, b1) \<Rightarrow> (Inl e, (b1, krl))
         | (Inr type, b1) \<Rightarrow>
             (case sshbuf_froms A 2 b1 of
                (Inl e, b2) \<Rightarrow> (Inl e, (b2, krl))
              | (Inr subsect, b2) \<Rightarrow>
                  (case parse_cert_section K sh A ca type (subsect, krl) of
                     (Inl e, (sub, krl')) \<Rightarrow> (Inl e, (free_child (Some sub) b2, krl'))
                   | (Inr _, (sub, krl')) \<Rightarrow>
                       if sshbuf_len sub > 0 then (Inl SSH_ERR_INVALID_FORMAT, (free_child (Some sub) b2, krl'))
                       else parse_cert_sections K sh A ca (Some sub) (b2, krl')))))"
  by pat_completeness auto
termination
  by (relation "measure (\<lambda>(_, _, _, _, _, b, _). sshbuf_len b)")
    (auto dest!: froms_shorter [OF sym] get_u8_shorter [OF sym], meson free_child_shorter less_trans order_less_le_trans)

definition parse_revoked_certs ::
    "'k key_ops \<Rightarrow> shape \<Rightarrow> allocator \<Rightarrow> (ssherr, 'k reading, unit) run" where
  "parse_revoked_certs K sh A st =
     (if sshbuf_new A = None then (Inl SSH_ERR_ALLOC_FAIL, st)
      else
        (case andthen sshbuf_get_string_direct (\<lambda>(p, blen). andthen sshbuf_skip_string (\<lambda>_ b. ret (mem_read p blen (sb_mem b)) b)) (fst st) of
           (Inl e, buf) \<Rightarrow> (Inl e, (buf, snd st))
         | (Inr blob, buf) \<Rightarrow>
             (case (if blob \<noteq> [] then map_sum id Some (sshkey_from_blob K blob) else Inr None) of
                Inl e \<Rightarrow> (Inl e, (buf, snd st))
              | Inr ca \<Rightarrow> parse_cert_sections K sh A ca None (buf, snd st))))"

subsection \<open>The whole list\<close>

function blob_section :: "allocator \<Rightarrow> nat \<Rightarrow> (ssherr, sshbuf \<times> u8 list list, unit) run" where
  "blob_section A expected_len (sect, tree) =
     (if sshbuf_len sect = 0 then (Inr (), (sect, tree))
      else
        (case sshbuf_get_string A True sect of
           (Inl e, s) \<Rightarrow> (Inl e, (s, tree))
         | (Inr (rdata, rlen), s) \<Rightarrow>
             if expected_len \<noteq> 0 \<and> rlen \<noteq> expected_len then (Inl SSH_ERR_INVALID_FORMAT, (s, tree))
             else
               (case revoke_blob A (take rlen (the rdata)) tree of
                  (Inl e, t) \<Rightarrow> (Inl e, (s, t))
                | (Inr _, t) \<Rightarrow> blob_section A expected_len (s, t))))"
  by pat_completeness auto
termination
  by (relation "measure (\<lambda>(_, _, s, _). sshbuf_len s)") (auto dest!: shorter [OF sym])

definition parse_krl_section :: "'k key_ops \<Rightarrow> shape \<Rightarrow> allocator \<Rightarrow> u8 \<Rightarrow> (ssherr, 'k reading, unit) run" where
  "parse_krl_section K sh A type st =
     (let krl = snd st in
      if type = KRL_SECTION_CERTIFICATES then parse_revoked_certs K sh A st
      else if type = KRL_SECTION_EXPLICIT_KEY
      then (case blob_section A 0 (fst st, revoked_keys krl) of (r, (s, t)) \<Rightarrow> (r, (s, krl\<lparr>revoked_keys := t\<rparr>)))
      else if type = KRL_SECTION_FINGERPRINT_SHA1
      then (case blob_section A 20 (fst st, revoked_sha1s krl) of (r, (s, t)) \<Rightarrow> (r, (s, krl\<lparr>revoked_sha1s := t\<rparr>)))
      else if type = KRL_SECTION_FINGERPRINT_SHA256
      then (case blob_section A 32 (fst st, revoked_sha256s krl) of (r, (s, t)) \<Rightarrow> (r, (s, krl\<lparr>revoked_sha256s := t\<rparr>)))
      else if type = KRL_SECTION_EXTENSION
      then (case extension_section A (fst st) of (r, s) \<Rightarrow> (r, (s, krl)))
      else (Inl SSH_ERR_INVALID_FORMAT, st))"

text \<open>
  A signature section is skipped: the section itself is freed at once, and a further string is skipped.
\<close>

function parse_krl_sections ::
    "'k key_ops \<Rightarrow> shape \<Rightarrow> allocator \<Rightarrow> sshbuf option \<Rightarrow> (ssherr, 'k reading, unit) run" where
  "parse_krl_sections K sh A held (copy, krl) =
     (if sshbuf_len copy = 0 then (Inr (), (free_child held copy, krl))
      else
        (case sshbuf_get_u8 (free_child held copy) of
           (Inl e, c1) \<Rightarrow> (Inl e, (c1, krl))
         | (Inr type, c1) \<Rightarrow>
             (case sshbuf_froms A 1 c1 of
                (Inl e, c2) \<Rightarrow> (Inl e, (c2, krl))
              | (Inr sect, c2) \<Rightarrow>
                  if type = KRL_SECTION_SIGNATURE
                  then (case sshbuf_skip_string (free_child (Some sect) c2) of
                          (Inl e, c3) \<Rightarrow> (Inl e, (c3, krl))
                        | (Inr _, c3) \<Rightarrow> parse_krl_sections K sh A None (c3, krl))
                  else
                    (case parse_krl_section K sh A type (sect, krl) of
                       (Inl e, (s, krl')) \<Rightarrow> (Inl e, (free_child (Some s) c2, krl'))
                     | (Inr _, (s, krl')) \<Rightarrow>
                         if sshbuf_len s > 0 then (Inl SSH_ERR_INVALID_FORMAT, (free_child (Some s) c2, krl'))
                         else parse_krl_sections K sh A (Some s) (c2, krl')))))"
  by pat_completeness auto
termination
  by (relation "measure (\<lambda>(_, _, _, _, c, _). sshbuf_len c)")
    (auto dest!: froms_shorter [OF sym] get_u8_shorter [OF sym] skip_string_shorter [OF sym],
      (meson free_child_shorter less_trans order_less_le_trans)+)

definition parse_krl_header :: "allocator \<Rightarrow> (ssherr, 'k reading, unit) run" where
  "parse_krl_header A st =
     (case andthen (sshbuf_consume (length KRL_MAGIC)) (\<lambda>_. sshbuf_get_u32) (fst st) of
        (Inl e, c) \<Rightarrow> (Inl e, (c, snd st))
      | (Inr format_version, c) \<Rightarrow>
          if format_version \<noteq> KRL_FORMAT_VERSION then (Inl SSH_ERR_INVALID_FORMAT, (c, snd st))
          else
            (case andthen sshbuf_get_u64 (\<lambda>v. andthen sshbuf_get_u64 (\<lambda>d. andthen sshbuf_get_u64 (\<lambda>f.
                  andthen sshbuf_skip_string (\<lambda>_. andthen (sshbuf_get_cstring A True) (\<lambda>(s, _). ret (v, d, f, s)))))) c of
               (Inl e, c') \<Rightarrow> (Inl e, (c', snd st))
             | (Inr (v, d, f, s), c') \<Rightarrow>
                 (Inr (), (c', (snd st)\<lparr>krl_version := v, generated_date := d, krl_flags := f,
                                        comment := Some (bytes_cstr (the s))\<rparr>))))"

text \<open>
  The result is the list, or \<open>None\<close> when the function returns 0 without having stored one: when the
  allocation of the list fails, \<^verbatim>\<open>r\<close> still holds the 0 of the comparison with the magic string. The buffer is
  not consumed; the copy, a child, is freed at the end. The code releases the copy before the last section;
  the reference of the section keeps the copy until the section is released too, so that the caller's
  buffer gets its reference back as it does in the order used here.
\<close>

definition ssh_krl_from_blob :: "'k key_ops \<Rightarrow> shape \<Rightarrow> allocator \<Rightarrow> (ssherr, sshbuf, 'k ssh_krl option) run" where
  "ssh_krl_from_blob K sh A buf =
     (if sshbuf_cmp buf 0 KRL_MAGIC \<noteq> Inr () then (Inl SSH_ERR_KRL_BAD_MAGIC, buf)
      else
        (case ssh_krl_init A of
           None \<Rightarrow> (Inr None, buf)
         | Some krl \<Rightarrow>
             (case sshbuf_fromb A 0 buf of
                (None, b) \<Rightarrow> (Inl SSH_ERR_ALLOC_FAIL, b)
              | (Some copy, b) \<Rightarrow>
                  (case andthen (parse_krl_header A) (\<lambda>_. parse_krl_sections K sh A None) (copy, krl) of
                     (Inl e, (c, _)) \<Rightarrow> (Inl e, free_child (Some c) b)
                   | (Inr _, (c, krl')) \<Rightarrow> (Inr (Some krl'), free_child (Some c) b)))))"

declare parse_serial_list.simps [simp del] parse_key_ids.simps [simp del] parse_cert_sections.simps [simp del]
  blob_section.simps [simp del] parse_krl_sections.simps [simp del]

end
