(* ===== verification/Krl_View.thy ===== *)
theory Krl_View
  imports Krl
begin

text \<open>
  What a revocation list says: for every certification authority a set of serial numbers and a set of key
  identifiers, and three sets of blobs. Decisions depend on these only, and every operation that revokes
  adds to one of them.
\<close>

subsection \<open>Authorities\<close>

definition ca_eq :: "'k key_ops \<Rightarrow> 'k option \<Rightarrow> 'k option \<Rightarrow> bool" where
  "ca_eq K a b = (case (a, b) of (None, None) \<Rightarrow> True | (Some x, Some y) \<Rightarrow> sshkey_equal K x y | _ \<Rightarrow> False)"

lemma same_ca_eq: "same_ca K ca rc \<longleftrightarrow> ca_eq K (ca_key rc) ca"
  by (auto simp: same_ca_def ca_eq_def split: option.splits)

text \<open>What is assumed of the key library: equality is an equivalence, and a copy equals its original.\<close>

definition keys_ok :: "'k key_ops \<Rightarrow> bool" where
  "keys_ok K \<longleftrightarrow> equivp (sshkey_equal K) \<and> (\<forall>k c. sshkey_from_private K k = Inr c \<longrightarrow> sshkey_equal K c k)"

lemma ca_eq_equiv:
  assumes "keys_ok K"
  shows "ca_eq K a a" and "ca_eq K a b \<Longrightarrow> ca_eq K b a" and "ca_eq K a b \<Longrightarrow> ca_eq K b c \<Longrightarrow> ca_eq K a c"
proof -
  have e: "equivp (sshkey_equal K)" using assms by (simp add: keys_ok_def)
  show "ca_eq K a a" using equivp_reflp [OF e] by (simp add: ca_eq_def split: option.splits)
  show "ca_eq K a b \<Longrightarrow> ca_eq K b a" using equivp_symp [OF e] by (auto simp: ca_eq_def split: option.splits)
  show "ca_eq K a b \<Longrightarrow> ca_eq K b c \<Longrightarrow> ca_eq K a c" using equivp_transp [OF e] by (auto simp: ca_eq_def split: option.splits)
qed

lemma same_ca_cong: "keys_ok K \<Longrightarrow> ca_eq K ca ca' \<Longrightarrow> same_ca K ca = same_ca K ca'"
  unfolding same_ca_eq fun_eq_iff by (meson ca_eq_equiv)

subsection \<open>Well-formed lists and their views\<close>

definition certs_wf :: "'k revoked_certs \<Rightarrow> bool" where
  "certs_wf rc \<longleftrightarrow> ranges_ok (revoked_serials rc) \<and> 0 \<notin> serials (revoked_serials rc) \<and>
     (\<forall>i \<in> set (revoked_key_ids rc). 0 \<notin> set i)"

definition krl_wf :: "'k key_ops \<Rightarrow> 'k ssh_krl \<Rightarrow> bool" where
  "krl_wf K krl \<longleftrightarrow>
     (\<forall>rc \<in> set (revoked_cas krl). certs_wf rc) \<and>
     sorted_wrt (\<lambda>a b. \<not> ca_eq K a b) (map ca_key (revoked_cas krl)) \<and>
     (\<forall>h \<in> set (revoked_sha1s krl). length h = 20) \<and> (\<forall>h \<in> set (revoked_sha256s krl). length h = 32)"

definition ca_serials :: "'k key_ops \<Rightarrow> 'k ssh_krl \<Rightarrow> 'k option \<Rightarrow> u64 set" where
  "ca_serials K krl ca =
     (case find (same_ca K ca) (revoked_cas krl) of None \<Rightarrow> {} | Some rc \<Rightarrow> serials (revoked_serials rc))"

definition ca_ids :: "'k key_ops \<Rightarrow> 'k ssh_krl \<Rightarrow> 'k option \<Rightarrow> u8 list set" where
  "ca_ids K krl ca =
     (case find (same_ca K ca) (revoked_cas krl) of None \<Rightarrow> {} | Some rc \<Rightarrow> set (revoked_key_ids rc))"

text \<open>Two lists that say the same make the same decisions.\<close>

definition krl_same :: "'k key_ops \<Rightarrow> 'k ssh_krl \<Rightarrow> 'k ssh_krl \<Rightarrow> bool" where
  "krl_same K a b \<longleftrightarrow>
     (\<forall>ca. ca_serials K a ca = ca_serials K b ca \<and> ca_ids K a ca = ca_ids K b ca) \<and>
     set (revoked_keys a) = set (revoked_keys b) \<and> set (revoked_sha1s a) = set (revoked_sha1s b) \<and>
     set (revoked_sha256s a) = set (revoked_sha256s b)"

lemma key_accepted_view:
  "key_accepted K krl key \<longleftrightarrow>
     (\<exists>h. fingerprint_sha1 K key = Inr h \<and> h \<notin> set (revoked_sha1s krl)) \<and>
     (\<exists>h. fingerprint_sha256 K key = Inr h \<and> h \<notin> set (revoked_sha256s krl)) \<and>
     (\<exists>b. plain_key_blob K key = Inr b \<and> b \<notin> set (revoked_keys krl)) \<and>
     (sshkey_is_cert K key \<longrightarrow>
        (\<forall>ca \<in> {Some (cert_signature_key K key), None}.
           cert_key_id K key \<notin> ca_ids K krl ca \<and> (cert_serial K key = 0 \<or> cert_serial K key \<notin> ca_serials K krl ca)))"
proof -
  have "(\<forall>rc. find (same_ca K ca) (revoked_cas krl) = Some rc \<longrightarrow>
           cert_key_id K key \<notin> set (revoked_key_ids rc) \<and>
           (cert_serial K key = 0 \<or> cert_serial K key \<notin> serials (revoked_serials rc))) \<longleftrightarrow>
        cert_key_id K key \<notin> ca_ids K krl ca \<and> (cert_serial K key = 0 \<or> cert_serial K key \<notin> ca_serials K krl ca)" for ca
    by (simp add: ca_ids_def ca_serials_def split: option.splits)
  then show ?thesis unfolding key_accepted_def by simp
qed

lemma krl_same_decides:
  assumes "krl_same K a b"
  shows "ssh_krl_check_key K A a key = Inr () \<longleftrightarrow> ssh_krl_check_key K A' b key = Inr ()"
proof -
  have "key_accepted K a k \<longleftrightarrow> key_accepted K b k" for k using assms by (simp add: key_accepted_view krl_same_def)
  then show ?thesis by (simp add: check_key_iff)
qed

subsection \<open>Revoking\<close>

text \<open>The list \<open>krl'\<close> revokes, beyond what \<open>krl\<close> does, the serials \<open>S\<close> and the identifiers \<open>I\<close> of one authority.\<close>

definition revokes :: "'k key_ops \<Rightarrow> 'k option \<Rightarrow> u64 set \<Rightarrow> u8 list set \<Rightarrow> 'k ssh_krl \<Rightarrow> 'k ssh_krl \<Rightarrow> bool" where
  "revokes K ca S I krl krl' \<longleftrightarrow>
     krl_wf K krl' \<and> (\<exists>cas. krl' = krl\<lparr>revoked_cas := cas\<rparr>) \<and>
     (\<forall>ca'. ca_serials K krl' ca' = ca_serials K krl ca' \<union> (if ca_eq K ca ca' then S else {}) \<and>
            ca_ids K krl' ca' = ca_ids K krl ca' \<union> (if ca_eq K ca ca' then I else {}))"

lemma revokes_refl: "krl_wf K krl \<Longrightarrow> revokes K ca {} {} krl krl"
  unfolding revokes_def by (auto intro: exI [of _ "revoked_cas krl"])

lemma revokes_trans:
  assumes "revokes K ca S I a b" and "revokes K ca T J b c"
  shows "revokes K ca (S \<union> T) (I \<union> J) a c"
proof -
  obtain xs ys where "b = a\<lparr>revoked_cas := xs\<rparr>" "c = b\<lparr>revoked_cas := ys\<rparr>" using assms by (auto simp: revokes_def)
  then have "c = a\<lparr>revoked_cas := ys\<rparr>" by simp
  then show ?thesis using assms unfolding revokes_def by auto
qed

lemma find_skip: "\<not> P (xs ! j) \<Longrightarrow> \<not> P y \<Longrightarrow> j < length xs \<Longrightarrow> find P (xs[j := y]) = find P xs"
proof (induction xs arbitrary: j)
  case (Cons x xs)
  then show ?case by (cases j) auto
qed simp

lemma find_snoc: "find P (xs @ [y]) = (case find P xs of None \<Rightarrow> if P y then Some y else None | Some z \<Rightarrow> Some z)"
  by (induction xs) auto

text \<open>Changing the entry of an authority, which is the first one that belongs to it.\<close>

lemma update_entry:
  assumes K: "keys_ok K" and wf: "krl_wf K krl" and j: "j < length (revoked_cas krl)" "same_ca K ca (revoked_cas krl ! j)"
    and rc': "certs_wf rc'" "ca_key rc' = ca_key (revoked_cas krl ! j)"
      "serials (revoked_serials rc') = serials (revoked_serials (revoked_cas krl ! j)) \<union> S"
      "set (revoked_key_ids rc') = set (revoked_key_ids (revoked_cas krl ! j)) \<union> I"
  shows "revokes K ca S I krl (krl\<lparr>revoked_cas := (revoked_cas krl)[j := rc']\<rparr>)"
proof -
  let ?cas = "revoked_cas krl" and ?krl = "krl\<lparr>revoked_cas := (revoked_cas krl)[j := rc']\<rparr>"
  have keys: "map ca_key (?cas[j := rc']) = map ca_key ?cas" using rc'(2) j(1) by (simp add: map_update list_update_same_conv)
  have first: "\<not> same_ca K ca' (?cas ! k)" if "k < j" "ca_eq K ca ca'" for k ca'
  proof
    assume "same_ca K ca' (?cas ! k)"
    then have "ca_eq K (ca_key (?cas ! k)) (ca_key (?cas ! j))"
      using j(2) that(2) ca_eq_equiv [OF K] unfolding same_ca_eq by metis
    moreover have "\<not> ca_eq K (ca_key (?cas ! k)) (ca_key (?cas ! j))"
      using wf that(1) j(1) unfolding krl_wf_def by (auto simp: sorted_wrt_iff_nth_less)
    ultimately show False by simp
  qed
  have found: "find (same_ca K ca') ?cas = Some (?cas ! j)" "find (same_ca K ca') (?cas[j := rc']) = Some rc'" if "ca_eq K ca ca'" for ca'
  proof -
    have m: "same_ca K ca' (?cas ! j)" "same_ca K ca' rc'" using j(2) same_ca_cong [OF K that] rc'(2) by (simp_all add: same_ca_eq)
    show "find (same_ca K ca') ?cas = Some (?cas ! j)" using find_first j(1) m first [OF _ that] by blast
    show "find (same_ca K ca') (?cas[j := rc']) = Some rc'"
      using find_first [of j "?cas[j := rc']" "same_ca K ca'"] j(1) m first [OF _ that] by simp
  qed
  have other: "find (same_ca K ca') (?cas[j := rc']) = find (same_ca K ca') ?cas" if "\<not> ca_eq K ca ca'" for ca'
  proof (rule find_skip [OF _ _ j(1)])
    show "\<not> same_ca K ca' (?cas ! j)" "\<not> same_ca K ca' rc'"
      using j(2) that rc'(2) ca_eq_equiv [OF K] unfolding same_ca_eq by metis+
  qed
  have "krl_wf K ?krl"
    using wf rc'(1) set_update_subset_insert [of ?cas j rc'] keys by (auto simp: krl_wf_def)
  moreover have "ca_serials K ?krl ca' = ca_serials K krl ca' \<union> (if ca_eq K ca ca' then S else {})"
    "ca_ids K ?krl ca' = ca_ids K krl ca' \<union> (if ca_eq K ca ca' then I else {})" for ca'
    using found other rc'(3,4) by (cases "ca_eq K ca ca'"; simp add: ca_serials_def ca_ids_def)+
  ultimately show ?thesis unfolding revokes_def by blast
qed

lemma add_entry:
  assumes K: "keys_ok K" and wf: "krl_wf K krl" and none: "find (same_ca K ca) (revoked_cas krl) = None"
    and rc: "same_ca K ca rc" "revoked_serials rc = []" "revoked_key_ids rc = []"
  shows "revokes K ca {} {} krl (krl\<lparr>revoked_cas := revoked_cas krl @ [rc]\<rparr>)"
proof -
  let ?krl = "krl\<lparr>revoked_cas := revoked_cas krl @ [rc]\<rparr>"
  have "\<not> ca_eq K (ca_key a) (ca_key rc)" if "a \<in> set (revoked_cas krl)" for a
    using that none rc(1) ca_eq_equiv [OF K] unfolding find_None_iff same_ca_eq by metis
  then have "krl_wf K ?krl" using wf rc by (auto simp: krl_wf_def sorted_wrt_append certs_wf_def)
  moreover have "ca_serials K ?krl ca' = ca_serials K krl ca' \<and> ca_ids K ?krl ca' = ca_ids K krl ca'" for ca'
  proof (cases "same_ca K ca' rc")
    case True
    then have "ca_eq K ca ca'" using rc(1) ca_eq_equiv [OF K] unfolding same_ca_eq by metis
    then have "find (same_ca K ca') (revoked_cas krl) = None" using none same_ca_cong [OF K] by metis
    then show ?thesis using True rc by (simp add: ca_serials_def ca_ids_def find_snoc)
  qed (simp add: ca_serials_def ca_ids_def find_snoc split: option.splits)
  ultimately show ?thesis unfolding revokes_def by auto
qed

lemma for_ca_key_revokes:
  assumes run: "revoked_certs_for_ca_key K A ca True krl = (Inr i, krl')" and K: "keys_ok K" and wf: "krl_wf K krl"
  shows "revokes K ca {} {} krl krl'"
    and "\<exists>j. i = Some j \<and> j < length (revoked_cas krl') \<and> same_ca K ca (revoked_cas krl' ! j)"
proof -
  have copy: "\<And>k c. sshkey_from_private K k = Inr c \<Longrightarrow> sshkey_equal K c k" using K by (simp add: keys_ok_def)
  show "\<exists>j. i = Some j \<and> j < length (revoked_cas krl') \<and> same_ca K ca (revoked_cas krl' ! j)"
    using for_ca_key_created(1) [OF run copy] by blast
  show "revokes K ca {} {} krl krl'"
  proof (cases "find (same_ca K ca) (revoked_cas krl)")
    case None
    then have "\<not> length (takeWhile (\<lambda>rc. \<not> same_ca K ca rc) (revoked_cas krl)) < length (revoked_cas krl)"
      by (simp add: find_index Let_def split: if_splits)
    then have c: "(case (case ca of None \<Rightarrow> Inr None | Some k \<Rightarrow> map_sum id Some (sshkey_from_private K k)) of
        Inl e \<Rightarrow> (Inl e, krl)
      | Inr ck \<Rightarrow> (Inr (Some (length (takeWhile (\<lambda>rc. \<not> same_ca K ca rc) (revoked_cas krl)))),
          krl\<lparr>revoked_cas := revoked_cas krl @ [\<lparr>ca_key = ck, revoked_serials = [], revoked_key_ids = []\<rparr>]\<rparr>)) = (Inr i, krl')"
      using run by (simp add: revoked_certs_for_ca_key_def Let_def split: if_splits)
    have "\<exists>ck. ca_eq K ck ca \<and> krl' = krl\<lparr>revoked_cas := revoked_cas krl @ [\<lparr>ca_key = ck, revoked_serials = [], revoked_key_ids = []\<rparr>]\<rparr>"
    proof (cases ca)
      case n: None
      then show ?thesis using c by (intro exI [of _ None]) (simp add: ca_eq_def)
    next
      case (Some k)
      then obtain b where b: "sshkey_from_private K k = Inr b" using c by (cases "sshkey_from_private K k") auto
      then show ?thesis using c Some copy [OF b] by (intro exI [of _ "Some b"]) (simp add: ca_eq_def)
    qed
    then obtain ck where ck: "ca_eq K ck ca" "krl' = krl\<lparr>revoked_cas := revoked_cas krl @ [\<lparr>ca_key = ck, revoked_serials = [], revoked_key_ids = []\<rparr>]\<rparr>"
      by blast
    then show ?thesis using add_entry [OF K wf None, of "\<lparr>ca_key = ck, revoked_serials = [], revoked_key_ids = []\<rparr>"]
      by (simp add: same_ca_eq)
  next
    case (Some rc)
    then have "krl' = krl" using for_ca_key_cases [OF run copy] by auto
    then show ?thesis using revokes_refl [OF wf] by simp
  qed
qed

lemma revoke_in_ca_exact:
  assumes run: "andthen (revoked_certs_for_ca_key K A ca True) (\<lambda>i. on_ca (the i) f) krl = (Inr (), krl')"
    and K: "keys_ok K" and wf: "krl_wf K krl"
    and f: "\<And>rc rc'. certs_wf rc \<Longrightarrow> f rc = (Inr (), rc') \<Longrightarrow> certs_wf rc' \<and> ca_key rc' = ca_key rc \<and>
      serials (revoked_serials rc') = serials (revoked_serials rc) \<union> S \<and> set (revoked_key_ids rc') = set (revoked_key_ids rc) \<union> I"
  shows "revokes K ca S I krl krl'"
proof -
  obtain i krl1 where 1: "revoked_certs_for_ca_key K A ca True krl = (Inr i, krl1)" "on_ca (the i) f krl1 = (Inr (), krl')"
    using run by (rule andthen_InrE)
  note e = for_ca_key_revokes [OF 1(1) K wf]
  obtain j where j: "i = Some j" "j < length (revoked_cas krl1)" "same_ca K ca (revoked_cas krl1 ! j)" using e(2) by blast
  have wf1: "krl_wf K krl1" using e(1) by (simp add: revokes_def)
  obtain rc' where rc': "f (revoked_cas krl1 ! j) = (Inr (), rc')" "krl' = krl1\<lparr>revoked_cas := (revoked_cas krl1)[j := rc']\<rparr>"
    using 1(2) j(1) by (auto simp: on_ca_def split: prod.splits)
  have "certs_wf (revoked_cas krl1 ! j)" using wf1 j(2) by (simp add: krl_wf_def)
  from f [OF this rc'(1)] have "revokes K ca S I krl1 krl'"
    using update_entry [OF K wf1 j(2,3)] rc'(2) by blast
  from revokes_trans [OF e(1) this] show ?thesis by simp
qed

lemma revoke_range_revokes:
  assumes run: "ssh_krl_revoke_cert_by_serial_range K sh A ca lo hi krl = (Inr (), krl')" and sh: "\<And>t. inorder (sh t) = t"
    and K: "keys_ok K" and wf: "krl_wf K krl"
  shows "revokes K ca {lo .. hi} {} krl krl'"
proof -
  let ?f = "\<lambda>rc :: _ revoked_certs. case insert_serial_range sh A lo hi (revoked_serials rc) of (r, t) \<Rightarrow> (r, rc\<lparr>revoked_serials := t\<rparr>)"
  have le: "lo \<le> hi" "lo \<noteq> 0" and r: "andthen (revoked_certs_for_ca_key K A ca True) (\<lambda>i. on_ca (the i) ?f) krl = (Inr (), krl')"
    using run by (auto simp: ssh_krl_revoke_cert_by_serial_range_def throw_def split: if_splits)
  show ?thesis
  proof (rule revoke_in_ca_exact [OF r K wf])
    fix rc rc' assume w: "certs_wf rc" and f: "?f rc = (Inr (), rc')"
    have ok: "ranges_ok (revoked_serials rc)" using w by (simp add: certs_wf_def)
    show "certs_wf rc' \<and> ca_key rc' = ca_key rc \<and> serials (revoked_serials rc') = serials (revoked_serials rc) \<union> {lo..hi} \<and>
        set (revoked_key_ids rc') = set (revoked_key_ids rc) \<union> {}"
      by (rule insert_serial_range_cases [of "revoked_serials rc" lo hi sh A, OF ok le(1) sh])
        (use f w le(2) in \<open>auto simp: certs_wf_def word_le_0_iff\<close>)
  qed
qed

lemma revoke_key_id_revokes:
  assumes run: "ssh_krl_revoke_cert_by_key_id K A ca key_id krl = (Inr (), krl')"
    and K: "keys_ok K" and wf: "krl_wf K krl" and id: "0 \<notin> set key_id"
  shows "revokes K ca {} {key_id} krl krl'"
proof -
  let ?f = "\<lambda>rc :: _ revoked_certs. (Inr (), rc\<lparr>revoked_key_ids := snd (rb_insert key_id_cmp key_id (revoked_key_ids rc))\<rparr>)"
  have r: "andthen (revoked_certs_for_ca_key K A ca True) (\<lambda>i. on_ca (the i) ?f) krl = (Inr (), krl')"
    using run by (auto simp: ssh_krl_revoke_cert_by_key_id_def andthen_def throw_def split: if_splits prod.splits sum.splits)
  show ?thesis
    by (rule revoke_in_ca_exact [OF r K wf]) (use id in \<open>auto simp: certs_wf_def ids.insert_set\<close>)
qed

text \<open>With memory and a key library that can copy, revoking succeeds.\<close>

lemma for_ca_key_total:
  assumes "never_fails A" and "\<And>k. \<exists>c. sshkey_from_private K k = Inr c"
  shows "\<exists>i krl'. revoked_certs_for_ca_key K A ca True krl = (Inr i, krl')"
proof -
  obtain p where p: "malloc A sizeof_certs = Some p" using assms(1) unfolding never_fails_def by (metis option.exhaust)
  show ?thesis
  proof (cases ca)
    case None
    then show ?thesis using p by (simp add: revoked_certs_for_ca_key_def Let_def)
  next
    case (Some k)
    obtain c where "sshkey_from_private K k = Inr c" using assms(2) by blast
    then show ?thesis using p Some by (simp add: revoked_certs_for_ca_key_def Let_def)
  qed
qed

end
