(* ===== verification/Krl_Safe.thy ===== *)
theory Krl_Safe
  imports Krl_Read Krl_View
begin

text \<open>
  Reading a revocation list from arbitrary bytes: every function of the reader keeps its buffer well formed
  with the references it had, on success and on every error, and a list that is returned is well formed.
\<close>

subsection \<open>Child buffers\<close>

lemma free_counted:
  assumes "sshbuf_ok c" and "sshbuf_ok b" and "sb_refcount b < SSHBUF_REFS_MAX"
  shows "free_child (Some c) (b\<lparr>sb_refcount := sb_refcount b + 1\<rparr>) = b"
proof -
  have "sshbuf_ok (b\<lparr>sb_refcount := sb_refcount b + 1\<rparr>)" using sshbuf_ok_count(1) [OF assms(2)] assms(3) by simp
  then show ?thesis using assms(1) by (simp add: free_child_def sshbuf_ok_def)
qed

lemma peek_string_consume:
  assumes "sshbuf_ok b" and "sshbuf_peek_string_direct b = (Inr (p, n), b')"
  obtains b1 where "sshbuf_consume (n + 4) b = (Inr (), b1)" and "buf_frame b b1"
proof -
  have "n + 4 \<le> sshbuf_len b"
    using assms sshbuf_peek_string_result [OF assms(1)] by (auto simp: Let_def split: if_splits)
  from sshbuf_consume_Inr [OF assms(1) this] obtain b1 where b1: "sshbuf_consume (n + 4) b = (Inr (), b1)" by metis
  show thesis using that [OF b1 bufop_safeD [OF bufop_safe_consume assms(1) b1]] .
qed

lemma froms_failed:
  assumes "sshbuf_ok b" and "sshbuf_froms A i b = (Inl e, b')"
  shows "buf_frame b b'"
proof (cases "sshbuf_peek_string_direct b")
  case (Pair r b0)
  then have b0: "b0 = b" using peek_string_state [of b] by simp
  show ?thesis
  proof (cases r)
    case (Inl e')
    then have "b' = b" using assms(2) Pair b0 by (simp add: sshbuf_froms_def andthen_def)
    then show ?thesis using buf_frame_refl assms(1) by simp
  next
    case (Inr x)
    obtain p n where x: "x = (p, n)" by fastforce
    obtain b1 where b1: "sshbuf_consume (n + 4) b = (Inr (), b1)" "buf_frame b b1"
      using peek_string_consume [OF assms(1)] Pair Inr x by metis
    show ?thesis
    proof (cases "sshbuf_from A (Some (ptr_add (the (sb_cd b)) p)) (mem_read p n (sb_mem b))")
      case None
      then have "b' = b" using assms(2) Pair Inr x b0 by (simp add: sshbuf_froms_def andthen_def throw_def)
      then show ?thesis using buf_frame_refl assms(1) by simp
    next
      case (Some c)
      have "sshbuf_ok b1" using b1(2) by (simp add: buf_frame_def)
      from set_parent_fresh [OF this Some] show ?thesis
        using assms(2) Pair Inr x b0 b1 Some by (simp add: sshbuf_froms_def andthen_def)
    qed
  qed
qed

lemma buf_frameD: "buf_frame b b' \<Longrightarrow> sshbuf_ok b' \<and> sb_refcount b' = sb_refcount b"
  by (simp add: buf_frame_def)

subsection \<open>Steps of the reader\<close>

definition reading_ok :: "'k key_ops \<Rightarrow> 'k reading \<Rightarrow> (ssherr + unit) \<times> 'k reading \<Rightarrow> bool" where
  "reading_ok K st res \<longleftrightarrow>
     buf_frame (fst st) (fst (snd res)) \<and> (fst res = Inr () \<longrightarrow> krl_wf K (snd st) \<longrightarrow> krl_wf K (snd (snd res)))"

definition reader_safe :: "'k key_ops \<Rightarrow> (ssherr, 'k reading, unit) run \<Rightarrow> bool" where
  "reader_safe K m \<longleftrightarrow>
     (\<forall>st. sshbuf_ok (fst st) \<longrightarrow> sb_refcount (fst st) < SSHBUF_REFS_MAX \<longrightarrow> reading_ok K st (m st))"

lemma reader_safeI:
  assumes "\<And>b krl. sshbuf_ok b \<Longrightarrow> sb_refcount b < SSHBUF_REFS_MAX \<Longrightarrow> reading_ok K (b, krl) (m (b, krl))"
  shows "reader_safe K m"
  using assms by (auto simp: reader_safe_def)

lemma reading_ok_frame:
  assumes "buf_frame b b1" and "krl_wf K krl \<Longrightarrow> krl_wf K krl1" and "reading_ok K (b1, krl1) res"
  shows "reading_ok K (b, krl) res"
  using assms buf_frame_trans unfolding reading_ok_def by auto

lemma reading_ok_same: "sshbuf_ok b \<Longrightarrow> reading_ok K (b, krl) (r, (b, krl))"
  by (simp add: reading_ok_def buf_frame_refl)

lemma reading_ok_error: "buf_frame b b' \<Longrightarrow> reading_ok K (b, krl) (Inl e, (b', krl'))"
  by (simp add: reading_ok_def)

lemma revoke_serial_wf:
  assumes "ssh_krl_revoke_cert_by_serial K sh A ca s krl = (Inr (), krl')"
    and "\<And>t. inorder (sh t) = t" and "keys_ok K" and "krl_wf K krl"
  shows "krl_wf K krl'"
  using revoke_range_revokes [OF assms(1) [unfolded ssh_krl_revoke_cert_by_serial_def] assms(2-4)] by (simp add: revokes_def)

lemma parse_serial_list_safe:
  assumes "\<And>t. inorder (sh t) = t" and "keys_ok K" and "sshbuf_ok b"
  shows "reading_ok K (b, krl) (parse_serial_list K sh A ca (b, krl))"
  using assms(3)
proof (induction "sshbuf_len b" arbitrary: b krl rule: less_induct)
  case less
  obtain r b1 where g: "sshbuf_get_u64 b = (r, b1)" by fastforce
  then have f: "buf_frame b b1" by (rule bufop_safeD [OF bufop_safe_gets(2) less.prems])
  show ?case
  proof (cases "sshbuf_len b = 0 \<or> (\<exists>e. r = Inl e)")
    case True
    then show ?thesis using f less.prems g
      by (auto simp: parse_serial_list.simps [of K sh A ca b] reading_ok_error reading_ok_same)
  next
    case False
    then obtain s where r: "r = Inr s" by (cases r) auto
    obtain q krl1 where q: "ssh_krl_revoke_cert_by_serial K sh A ca s krl = (q, krl1)" by fastforce
    show ?thesis
    proof (cases q)
      case (Inl e)
      then show ?thesis using False g r q f by (simp add: parse_serial_list.simps [of K sh A ca b] reading_ok_error)
    next
      case (Inr u)
      have wf: "krl_wf K krl1" if "krl_wf K krl"
        using q Inr revoke_serial_wf [of K sh A ca s krl krl1] assms that by simp
      have "reading_ok K (b1, krl1) (parse_serial_list K sh A ca (b1, krl1))"
        using less.hyps [of b1 krl1] get_u64_shorter g r buf_frameD [OF f] by simp
      then show ?thesis using reading_ok_frame [OF f wf] False g r q Inr by (simp add: parse_serial_list.simps [of K sh A ca b])
    qed
  qed
qed

lemma bufop_safe_skip: "bufop_safe sshbuf_skip_string"
  unfolding sshbuf_skip_string_def by (intro bufop_safe_andthen bufop_safe_get_string_direct bufop_safe_const)

text \<open>A step that reads something and then changes the list.\<close>

lemma reading_ok_step:
  assumes "bufop_safe m" and "sshbuf_ok b" and "m b = (Inr x, b1)"
    and "\<And>krl'. f krl = (Inr (), krl') \<Longrightarrow> krl_wf K krl \<Longrightarrow> krl_wf K krl'"
  shows "reading_ok K (b, krl) (case f krl of (r, krl') \<Rightarrow> (r, (b1, krl')))"
  using bufop_safeD [OF assms(1-3)] assms(4) by (auto simp: reading_ok_def split: prod.splits)

lemma parse_serial_range_safe:
  assumes "\<And>t. inorder (sh t) = t" and "keys_ok K" and "sshbuf_ok b"
  shows "reading_ok K (b, krl) (parse_serial_range K sh A ca (b, krl))"
proof -
  let ?m = "andthen sshbuf_get_u64 (\<lambda>lo. andthen sshbuf_get_u64 (\<lambda>hi. ret (lo, hi)))"
  have m: "bufop_safe ?m" by (intro bufop_safe_andthen bufop_safe_gets bufop_safe_const)
  obtain r b1 where g: "?m b = (r, b1)" by fastforce
  show ?thesis
  proof (cases r)
    case (Inl e)
    then show ?thesis using g bufop_safeD [OF m assms(3) g] by (simp add: parse_serial_range_def reading_ok_error)
  next
    case (Inr x)
    obtain lo hi where x: "x = (lo, hi)" by fastforce
    have "krl_wf K krl'" if "ssh_krl_revoke_cert_by_serial_range K sh A ca lo hi krl = (Inr (), krl')" "krl_wf K krl" for krl'
      using revoke_range_revokes [OF that(1) assms(1,2) that(2)] by (simp add: revokes_def)
    from reading_ok_step [OF m assms(3) g [unfolded Inr] this] show ?thesis
      using g Inr x by (simp add: parse_serial_range_def)
  qed
qed

lemma revoke_bits_wf:
  assumes "revoke_bits K sh A ca lo bm ns krl = (Inr (), krl')"
    and "\<And>t. inorder (sh t) = t" and "keys_ok K" and "krl_wf K krl"
  shows "krl_wf K krl'"
  using assms(1,4)
proof (induction ns arbitrary: krl)
  case (Cons n ns)
  then show ?case
    using revoke_serial_wf [OF _ assms(2,3)]
    by (auto simp: throw_def split: if_splits elim!: andthen_InrE)
qed (simp add: ret_def)

lemma parse_serial_bitmap_safe:
  assumes "\<And>t. inorder (sh t) = t" and "keys_ok K" and "sshbuf_ok b"
  shows "reading_ok K (b, krl) (parse_serial_bitmap K sh A ca (b, krl))"
proof -
  let ?m = "andthen sshbuf_get_u64 (\<lambda>lo. andthen sshbuf_get_bignum2_bytes_direct (\<lambda>blob. ret (lo, blob)))"
  have m: "bufop_safe ?m" by (intro bufop_safe_andthen bufop_safe_gets bufop_safe_bignum bufop_safe_const)
  obtain r b1 where g: "?m b = (r, b1)" by fastforce
  note f = bufop_safeD [OF m assms(3) g]
  show ?thesis
  proof (cases "bitmap_new A = None \<or> (\<exists>e. r = Inl e)")
    case True
    then show ?thesis using g f assms(3)
      by (cases "bitmap_new A") (auto simp: parse_serial_bitmap_def reading_ok_error reading_ok_same)
  next
    case False
    then obtain bm lo blob where x: "bitmap_new A = Some bm" "r = Inr (lo, blob)" by (cases r) auto
    show ?thesis
    proof (cases "bitmap_from_string A bm blob")
      case None
      then show ?thesis using g f x by (simp add: parse_serial_bitmap_def reading_ok_error)
    next
      case (Some bm1)
      obtain n bm2 where "the (bitmap_nbits bm1) = (n, bm2)" by fastforce
      then show ?thesis
        using reading_ok_step [OF m assms(3) g [unfolded x(2)], of "revoke_bits K sh A ca lo bm2 [0..<n]" krl K]
          revoke_bits_wf [OF _ assms(1,2), of A ca lo bm2 "[0..<n]" krl] g x Some
        by (simp add: parse_serial_bitmap_def)
    qed
  qed
qed

lemma parse_key_ids_safe:
  assumes "keys_ok K" and "sshbuf_ok b"
  shows "reading_ok K (b, krl) (parse_key_ids K A ca (b, krl))"
  using assms(2)
proof (induction "sshbuf_len b" arbitrary: b krl rule: less_induct)
  case less
  obtain r b1 where g: "sshbuf_get_cstring A True b = (r, b1)" by fastforce
  then have f: "buf_frame b b1" by (rule bufop_safeD [OF bufop_safe_get_cstring less.prems])
  show ?case
  proof (cases "sshbuf_len b = 0 \<or> (\<exists>e. r = Inl e)")
    case True
    then show ?thesis using f less.prems g
      by (auto simp: parse_key_ids.simps [of K A ca b] reading_ok_error reading_ok_same)
  next
    case False
    then obtain s n where r: "r = Inr (s, n)" by (cases r) auto
    obtain q krl1 where q: "ssh_krl_revoke_cert_by_key_id K A ca (bytes_cstr (the s)) krl = (q, krl1)" by fastforce
    show ?thesis
    proof (cases q)
      case (Inl e)
      then show ?thesis using False g r q f by (simp add: parse_key_ids.simps [of K A ca b] reading_ok_error)
    next
      case (Inr u)
      have "0 \<notin> set (bytes_cstr (the s))" by (auto simp: bytes_cstr_def dest: set_takeWhileD)
      then have wf: "krl_wf K krl1" if "krl_wf K krl"
        using q Inr revoke_key_id_revokes [of K A ca "bytes_cstr (the s)" krl krl1] assms(1) that by (simp add: revokes_def)
      have "reading_ok K (b1, krl1) (parse_key_ids K A ca (b1, krl1))"
        using less.hyps [of b1 krl1] get_cstring_shorter g r buf_frameD [OF f] by simp
      then show ?thesis using reading_ok_frame [OF f wf] False g r q Inr by (simp add: parse_key_ids.simps [of K A ca b])
    qed
  qed
qed

lemma extension_body_frame:
  assumes "sshbuf_ok b" and "sb_refcount b < SSHBUF_REFS_MAX"
  shows "buf_frame b (snd (extension_body A i b))"
proof -
  let ?k = "\<lambda>critical. andthen (sshbuf_froms A i) (\<lambda>val. ret (critical, val))"
  let ?m = "andthen (sshbuf_get_cstring A True) (\<lambda>_. sshbuf_get_u8)"
  have m: "bufop_safe ?m" by (intro bufop_safe_andthen bufop_safe_get_cstring bufop_safe_gets)
  obtain r b1 where g: "?m b = (r, b1)" by fastforce
  note f = bufop_safeD [OF m assms(1) g]
  have split: "andthen (sshbuf_get_cstring A True) (\<lambda>_. andthen sshbuf_get_u8 ?k) = andthen ?m ?k"
    by (simp add: andthen_assoc)
  show ?thesis
  proof (cases r)
    case (Inl e)
    then show ?thesis using f g unfolding extension_body_def split by (simp add: andthen_InlI)
  next
    case (Inr critical)
    have b1: "sshbuf_ok b1" "sb_refcount b1 < SSHBUF_REFS_MAX" using buf_frameD [OF f] assms(2) by simp_all
    obtain q b2 where q: "sshbuf_froms A i b1 = (q, b2)" by fastforce
    show ?thesis
    proof (cases q)
      case (Inl e)
      then show ?thesis using buf_frame_trans [OF f froms_failed [OF b1(1)]] g q Inr
        unfolding extension_body_def split by (simp add: andthen_def)
    next
      case c: (Inr c)
      obtain b3 where b3: "buf_frame b1 b3" "b2 = b3\<lparr>sb_refcount := sb_refcount b3 + 1\<rparr>" "sshbuf_ok c"
        using sshbuf_froms_child [OF b1(1) q [unfolded c]] by metis
      have "free_child (Some c) b2 = b3" using free_counted [OF b3(3), of b3] b3(2) buf_frameD [OF b3(1)] b1(2) by simp
      then show ?thesis using buf_frame_trans [OF f b3(1)] g q Inr c
        unfolding extension_body_def split by (simp add: andthen_def ret_def)
    qed
  qed
qed

lemma extension_reading_ok:
  assumes "sshbuf_ok b" and "sb_refcount b < SSHBUF_REFS_MAX"
  shows "reading_ok K (b, krl) (case extension_body A i b of (r, b') \<Rightarrow> (r, (b', krl)))"
  using extension_body_frame [OF assms, of A i] by (cases "extension_body A i b") (simp add: reading_ok_def)

lemma parse_cert_section_safe:
  assumes "\<And>t. inorder (sh t) = t" and "keys_ok K" and "sshbuf_ok b" and "sb_refcount b < SSHBUF_REFS_MAX"
  shows "reading_ok K (b, krl) (parse_cert_section K sh A ca type (b, krl))"
  using assms parse_serial_list_safe [OF assms(1-3)] parse_serial_range_safe [OF assms(1-3)]
    parse_serial_bitmap_safe [OF assms(1-3)] parse_key_ids_safe [OF assms(2,3)] extension_reading_ok [OF assms(3,4), of K krl A 3]
  by (simp add: parse_cert_section_def cert_extension_subsection_def reading_ok_same)

text \<open>
  A round of the two section loops, with the step for one section as \<open>step\<close>: whatever is held from the round before
  has been freed, and the new section is held or freed.
\<close>

lemma section_round:
  assumes b: "sshbuf_ok b" "sb_refcount b < SSHBUF_REFS_MAX" and froms: "sshbuf_froms A i b = (Inr c, b2)"
    and step: "\<And>c. sshbuf_ok c \<Longrightarrow> sb_refcount c < SSHBUF_REFS_MAX \<Longrightarrow> reading_ok K (c, krl) (step (c, krl))"
    and run: "step (c, krl) = (r, (c', krl'))"
  shows "buf_frame b (free_child (Some c') b2)" and "r = Inr () \<Longrightarrow> krl_wf K krl \<Longrightarrow> krl_wf K krl'"
    and "buf_frame b (free_child (Some c) b2)"
proof -
  obtain b3 where b3: "buf_frame b b3" "b2 = b3\<lparr>sb_refcount := sb_refcount b3 + 1\<rparr>" "sshbuf_ok c" "sb_refcount c = 1"
    using sshbuf_froms_child [OF b(1) froms] by metis
  have s: "reading_ok K (c, krl) (r, (c', krl'))" using step [of c] b3(3,4) run by (simp add: sshbuf_consts)
  then have "sshbuf_ok c'" by (simp add: reading_ok_def buf_frame_def)
  then have "free_child (Some c') b2 = b3" "free_child (Some c) b2 = b3"
    using free_counted [of _ b3] b3 buf_frameD [OF b3(1)] b(2) by simp_all
  then show "buf_frame b (free_child (Some c') b2)" "buf_frame b (free_child (Some c) b2)" using b3(1) by simp_all
  show "r = Inr () \<Longrightarrow> krl_wf K krl \<Longrightarrow> krl_wf K krl'" using s by (simp add: reading_ok_def)
qed

lemma section_start:
  assumes "sshbuf_ok b" and "sb_refcount b < SSHBUF_REFS_MAX"
  obtains (type_failed) e b' where "sshbuf_get_u8 b = (Inl e, b')" and "buf_frame b b'"
  | (section_failed) t b1 e b' where "sshbuf_get_u8 b = (Inr t, b1)" and "sshbuf_froms A i b1 = (Inl e, b')" and "buf_frame b b'"
  | (found) t b1 c b2 where "sshbuf_get_u8 b = (Inr t, b1)" and "sshbuf_froms A i b1 = (Inr c, b2)" and "buf_frame b b1"
      and "sshbuf_ok b1" and "sb_refcount b1 < SSHBUF_REFS_MAX" and "sshbuf_len b2 < sshbuf_len b"
proof -
  obtain r b1 where g: "sshbuf_get_u8 b = (r, b1)" by fastforce
  then have f: "buf_frame b b1" by (rule bufop_safeD [OF bufop_safe_gets(5) assms(1)])
  then have b1: "sshbuf_ok b1" "sb_refcount b1 < SSHBUF_REFS_MAX" using buf_frameD [OF f] assms(2) by simp_all
  obtain q b2 where q: "sshbuf_froms A i b1 = (q, b2)" by fastforce
  show thesis
  proof (cases r)
    case (Inr t)
    show thesis
    proof (cases q)
      case (Inl e)
      then show thesis using section_failed g q Inr buf_frame_trans [OF f froms_failed [OF b1(1)]] by metis
    next
      case c: (Inr c)
      have "sshbuf_len b2 < sshbuf_len b" using froms_shorter get_u8_shorter g q Inr c by (metis less_trans)
      then show thesis using found g q Inr c f b1 by metis
    qed
  qed (use type_failed g f in metis)
qed

lemma parse_cert_sections_safe:
  assumes "\<And>t. inorder (sh t) = t" and "keys_ok K"
    and "sshbuf_ok (free_child held b)" and "sb_refcount (free_child held b) < SSHBUF_REFS_MAX"
  shows "reading_ok K (free_child held b, krl) (parse_cert_sections K sh A ca held (b, krl))"
  using assms(3,4)
proof (induction "sshbuf_len b" arbitrary: held b krl rule: less_induct)
  case less
  note unfold = parse_cert_sections.simps [of K sh A ca held b krl]
  show ?case
  proof (cases "sshbuf_len b = 0")
    case True
    then show ?thesis using less.prems by (simp add: unfold reading_ok_same)
  next
    case more: False
    from less.prems show ?thesis
    proof (cases rule: section_start [where A = A and i = 2])
      case (found t b1 c b2)
      obtain s c' krl' where s: "parse_cert_section K sh A ca t (c, krl) = (s, (c', krl'))" using prod_cases3 by blast
      note round = section_round [OF found(4,5,2) parse_cert_section_safe [OF assms(1,2)] s]
      note fr = buf_frame_trans [OF found(3) round(1)]
      show ?thesis
      proof (cases "s = Inr () \<and> sshbuf_len c' = 0")
        case False
        then show ?thesis using found(1,2) more s fr by (cases s) (auto simp: unfold reading_ok_error)
      next
        case True
        have "sshbuf_len b2 < sshbuf_len b" using found(6) free_child_shorter [of held b] by simp
        then have "reading_ok K (free_child (Some c') b2, krl') (parse_cert_sections K sh A ca (Some c') (b2, krl'))"
          using less.hyps buf_frameD [OF fr] less.prems by simp
        from reading_ok_frame [OF fr round(2) this] show ?thesis using True found(1,2) more s by (simp add: unfold)
      qed
    qed (use more in \<open>simp_all add: unfold reading_ok_error\<close>)
  qed
qed

lemma parse_revoked_certs_safe:
  assumes "\<And>t. inorder (sh t) = t" and "keys_ok K" and b: "sshbuf_ok b" "sb_refcount b < SSHBUF_REFS_MAX"
  shows "reading_ok K (b, krl) (parse_revoked_certs K sh A (b, krl))"
proof -
  let ?m = "andthen sshbuf_get_string_direct (\<lambda>(p, blen). andthen sshbuf_skip_string (\<lambda>_ b. ret (mem_read p blen (sb_mem b)) b))"
  have "bufop_safe (\<lambda>b. ret (mem_read p n (sb_mem b)) b)" for p n by (rule bufop_safe_const_state) (simp add: ret_def)
  then have m: "bufop_safe ?m"
    by (auto intro!: bufop_safe_andthen bufop_safe_get_string_direct bufop_safe_skip split: prod.splits)
  obtain r b1 where g: "?m b = (r, b1)" by fastforce
  note f = bufop_safeD [OF m b(1) g]
  have "sshbuf_ok b1" "sb_refcount b1 < SSHBUF_REFS_MAX" using buf_frameD [OF f] b(2) by simp_all
  then have "reading_ok K (b1, krl) (parse_cert_sections K sh A ca None (b1, krl))" for ca
    using parse_cert_sections_safe [OF assms(1,2), of None b1] by (simp add: free_child_def)
  from reading_ok_frame [OF f _ this] show ?thesis
    using g f b(1) by (auto simp: parse_revoked_certs_def reading_ok_error reading_ok_same split: sum.splits)
qed

subsection \<open>The whole list\<close>

lemma get_string_length:
  assumes "sshbuf_ok b" and "sshbuf_get_string A True b = (Inr (v, n), b')"
  shows "length (take n (the v)) = n"
proof -
  obtain p b1 where p: "sshbuf_get_string_direct b = (Inr (p, n), b1)" and v: "the v = mem_read p n (sb_mem b1) @ [0]"
    using assms(2) by (auto simp: sshbuf_get_string_def throw_def ret_def dest!: andthen_Inr split: option.splits if_splits)
  obtain b0 where b0: "sshbuf_peek_string_direct b = (Inr (p, n), b0)"
    using p by (auto simp: sshbuf_get_string_direct_def throw_def ret_def dest!: andthen_Inr split: prod.splits sum.splits)
  then have pn: "b0 = b" "p = sb_off b + 4" "n + 4 \<le> sshbuf_len b"
    using sshbuf_peek_string_result [OF assms(1)] assms(1) by (auto simp: Let_def split: if_splits)
  then have "sb_mem b1 = sb_mem b" using sshbuf_get_string_direct_ok [OF assms(1), of p n] b0 p by (metis prod.inject)
  then show ?thesis using v sshbuf_mem_in_bytes [OF assms(1), of 4 n] pn assms(1) by simp
qed

lemma blob_section_safe:
  assumes "sshbuf_ok b"
  shows "buf_frame b (fst (snd (blob_section A n (b, t)))) \<and>
    (fst (blob_section A n (b, t)) = Inr () \<longrightarrow> n \<noteq> 0 \<longrightarrow> (\<forall>h \<in> set t. length h = n) \<longrightarrow>
      (\<forall>h \<in> set (snd (snd (blob_section A n (b, t)))). length h = n))"
  using assms
proof (induction "sshbuf_len b" arbitrary: b t rule: less_induct)
  case less
  obtain r b1 where g: "sshbuf_get_string A True b = (r, b1)" by fastforce
  then have f: "buf_frame b b1" by (rule bufop_safeD [OF bufop_safe_get_string less.prems])
  note unfold = blob_section.simps [of A n b t]
  show ?case
  proof (cases "sshbuf_len b = 0 \<or> (\<exists>e. r = Inl e)")
    case True
    then show ?thesis using f less.prems g by (auto simp: unfold buf_frame_refl)
  next
    case False
    then obtain v k where r: "r = Inr (v, k)" by (cases r) auto
    have k: "length (take k (the v)) = k" using get_string_length [OF less.prems g [unfolded r]] .
    obtain q t1 where q: "revoke_blob A (take k (the v)) t = (q, t1)" by fastforce
    show ?thesis
    proof (cases "(n \<noteq> 0 \<and> k \<noteq> n) \<or> (\<exists>e. q = Inl e)")
      case True
      then show ?thesis using False g r q f by (auto simp: unfold)
    next
      case ok: False
      have "set t1 \<subseteq> insert (take k (the v)) (set t)"
        using q ok by (auto simp: revoke_blob_def blobs.insert_set split: if_splits)
      then have t1: "\<forall>h \<in> set t1. length h = n" if "\<forall>h \<in> set t. length h = n" "n \<noteq> 0" using that k ok by auto
      have "sshbuf_len b1 < sshbuf_len b" "sshbuf_ok b1" using get_string_shorter g r buf_frameD [OF f] by auto
      note IH = less.hyps [OF this, of t1]
      have "blob_section A n (b, t) = blob_section A n (b1, t1)" using False ok g r q by (cases q) (auto simp: unfold)
      then show ?thesis using IH buf_frame_trans [OF f] t1 by metis
    qed
  qed
qed

lemma blobs_reading_ok:
  assumes "sshbuf_ok b"
    and "\<And>t'. krl_wf K krl \<Longrightarrow> (n \<noteq> 0 \<longrightarrow> (\<forall>h \<in> set t. length h = n) \<longrightarrow> (\<forall>h \<in> set t'. length h = n)) \<Longrightarrow> krl_wf K (store t')"
  shows "reading_ok K (b, krl) (case blob_section A n (b, t) of (r, (s, t')) \<Rightarrow> (r, (s, store t')))"
proof -
  obtain r s t' where run: "blob_section A n (b, t) = (r, (s, t'))" using prod_cases3 by blast
  show ?thesis using blob_section_safe [OF assms(1), of A n t] assms(2) [of t'] by (simp add: run reading_ok_def)
qed

lemma parse_krl_section_safe:
  assumes "\<And>t. inorder (sh t) = t" and "keys_ok K" and b: "sshbuf_ok b" "sb_refcount b < SSHBUF_REFS_MAX"
  shows "reading_ok K (b, krl) (parse_krl_section K sh A type (b, krl))"
proof -
  have "reading_ok K (b, krl) (case blob_section A 0 (b, revoked_keys krl) of (r, (s, t')) \<Rightarrow> (r, (s, krl\<lparr>revoked_keys := t'\<rparr>)))"
    "reading_ok K (b, krl) (case blob_section A 20 (b, revoked_sha1s krl) of (r, (s, t')) \<Rightarrow> (r, (s, krl\<lparr>revoked_sha1s := t'\<rparr>)))"
    "reading_ok K (b, krl) (case blob_section A 32 (b, revoked_sha256s krl) of (r, (s, t')) \<Rightarrow> (r, (s, krl\<lparr>revoked_sha256s := t'\<rparr>)))"
    by (rule blobs_reading_ok [OF b(1)]; simp add: krl_wf_def)+
  moreover note parse_revoked_certs_safe [OF assms, of krl A] extension_reading_ok [OF b, of K krl A 2] reading_ok_same [OF b(1)]
  ultimately show ?thesis by (simp only: parse_krl_section_def extension_section_def Let_def fst_conv snd_conv if_split) blast
qed

lemma parse_krl_sections_safe:
  assumes "\<And>t. inorder (sh t) = t" and "keys_ok K"
    and "sshbuf_ok (free_child held b)" and "sb_refcount (free_child held b) < SSHBUF_REFS_MAX"
  shows "reading_ok K (free_child held b, krl) (parse_krl_sections K sh A held (b, krl))"
  using assms(3,4)
proof (induction "sshbuf_len b" arbitrary: held b krl rule: less_induct)
  case less
  note unfold = parse_krl_sections.simps [of K sh A held b krl]
  show ?case
  proof (cases "sshbuf_len b = 0")
    case True
    then show ?thesis using less.prems by (simp add: unfold reading_ok_same)
  next
    case more: False
    from less.prems show ?thesis
    proof (cases rule: section_start [where A = A and i = 1])
      case (found t b1 c b2)
      obtain s c' krl' where s: "parse_krl_section K sh A t (c, krl) = (s, (c', krl'))" using prod_cases3 by blast
      note round = section_round [OF found(4,5,2) parse_krl_section_safe [OF assms(1,2)] s]
      note fr = buf_frame_trans [OF found(3) round(1)] and fr0 = buf_frame_trans [OF found(3) round(3)]
      have len: "sshbuf_len b2 < sshbuf_len b" using found(6) free_child_shorter [of held b] by simp
      obtain u b3 where u: "sshbuf_skip_string (free_child (Some c) b2) = (u, b3)" by fastforce
      have fr3: "buf_frame (free_child held b) b3"
        using buf_frame_trans [OF fr0 bufop_safeD [OF bufop_safe_skip _ u]] buf_frameD [OF fr0] by blast
      have sig: "reading_ok K (b3, krl) (parse_krl_sections K sh A None (b3, krl))" if "u = Inr ()"
        using less.hyps [of b3 None krl] skip_string_shorter [OF u [unfolded that]] free_child_shorter [of "Some c" b2]
          len buf_frameD [OF fr3] less.prems by (simp add: free_child_def)
      consider "t = KRL_SECTION_SIGNATURE" | "t \<noteq> KRL_SECTION_SIGNATURE" "\<not> (s = Inr () \<and> sshbuf_len c' = 0)"
        | "t \<noteq> KRL_SECTION_SIGNATURE" "s = Inr ()" "sshbuf_len c' = 0" by blast
      then show ?thesis
      proof cases
        case 1
        then show ?thesis using found(1,2) more u fr3 reading_ok_frame [OF fr3 _ sig]
          by (cases u) (simp_all add: unfold reading_ok_error)
      next
        case 2
        then show ?thesis using found(1,2) more s fr by (cases s) (auto simp: unfold reading_ok_error)
      next
        case 3
        have "reading_ok K (free_child (Some c') b2, krl') (parse_krl_sections K sh A (Some c') (b2, krl'))"
          using less.hyps [OF len] buf_frameD [OF fr] less.prems by simp
        from reading_ok_frame [OF fr round(2) this] show ?thesis using 3 found(1,2) more s by (simp add: unfold)
      qed
    qed (use more in \<open>simp_all add: unfold reading_ok_error\<close>)
  qed
qed

lemma parse_krl_header_safe:
  assumes "sshbuf_ok b"
  shows "reading_ok K (b, krl) (parse_krl_header A (b, krl))"
proof -
  let ?m = "andthen (sshbuf_consume (length KRL_MAGIC)) (\<lambda>_. sshbuf_get_u32)"
  let ?k = "andthen sshbuf_get_u64 (\<lambda>v. andthen sshbuf_get_u64 (\<lambda>d. andthen sshbuf_get_u64 (\<lambda>f.
    andthen sshbuf_skip_string (\<lambda>_. andthen (sshbuf_get_cstring A True) (\<lambda>(s, _). ret (v, d, f, s))))))"
  obtain r b1 q b2 where g: "?m b = (r, b1)" and q: "?k b1 = (q, b2)" by fastforce
  have m: "bufop_safe ?m" by (intro bufop_safe_andthen bufop_safe_consume bufop_safe_gets)
  have k: "bufop_safe ?k"
    by (auto intro!: bufop_safe_andthen bufop_safe_gets bufop_safe_skip bufop_safe_get_cstring bufop_safe_const split: prod.splits)
  note f = bufop_safeD [OF m assms g]
  have "buf_frame b b2" using buf_frame_trans [OF f bufop_safeD [OF k _ q]] buf_frameD [OF f] by blast
  then show ?thesis using f g q
    by (cases r; cases q) (auto simp: parse_krl_header_def reading_ok_error, auto simp: reading_ok_def krl_wf_def)
qed

lemma parse_krl_reading_ok:
  assumes "\<And>t. inorder (sh t) = t" and "keys_ok K" and "sshbuf_ok b" and "sb_refcount b < SSHBUF_REFS_MAX"
  shows "reading_ok K (b, krl) (andthen (parse_krl_header A) (\<lambda>_. parse_krl_sections K sh A None) (b, krl))"
proof -
  obtain r b1 krl1 where h: "parse_krl_header A (b, krl) = (r, (b1, krl1))" using prod_cases3 by blast
  have ok: "buf_frame b b1" "r = Inr () \<Longrightarrow> krl_wf K krl \<Longrightarrow> krl_wf K krl1"
    using parse_krl_header_safe [OF assms(3), of K krl A] h by (simp_all add: reading_ok_def)
  have "reading_ok K (b1, krl1) (parse_krl_sections K sh A None (b1, krl1))"
    using parse_krl_sections_safe [OF assms(1,2), of None b1] buf_frameD [OF ok(1)] assms(4) by (simp add: free_child_def)
  from reading_ok_frame [OF ok(1) _ this] show ?thesis using h ok by (cases r) (simp_all add: andthen_def reading_ok_error)
qed

lemma krl_wf_empty: "krl_wf K empty_krl"
  by (simp add: krl_wf_def empty_krl_def)

subsection \<open>Property\<close>

text \<open>
  C36. Reading is safe on every input: from any bytes, whatever allocations fail and whatever the key library
  answers, \<^verbatim>\<open>ssh_krl_from_blob\<close> returns, the caller's buffer is exactly as before (nothing is consumed, and every
  child buffer has given its reference back), and a list that it returns is well formed: no two entries for one
  authority, the ranges of serials ordered, apart and without 0, the identifiers C strings and the
  fingerprints of their proper length. Success without a list happens only when the list cannot be allocated.
\<close>

theorem krl_parse_safe:
  assumes "sshbuf_ok buf" and "sb_refcount buf < SSHBUF_REFS_MAX" and "\<And>t. inorder (sh t) = t" and "keys_ok K"
  shows "\<exists>r. ssh_krl_from_blob K sh A buf = (r, buf) \<and>
    (r = Inr None \<longrightarrow> malloc A sizeof_krl = None) \<and>
    (\<forall>krl. r = Inr (Some krl) \<longrightarrow> krl_wf K krl \<and> take (length KRL_MAGIC) (sshbuf_bytes buf) = KRL_MAGIC)"
proof -
  obtain x b where fb: "sshbuf_fromb A 0 buf = (x, b)" by fastforce
  have magic: "take (length KRL_MAGIC) (sshbuf_bytes buf) = KRL_MAGIC" if "sshbuf_cmp buf 0 KRL_MAGIC = Inr ()"
    using that assms(1)
    by (auto simp: sshbuf_cmp_def sshbuf_seen_ok timingsafe_bcmp_iff split: if_splits)
  show ?thesis
  proof (cases "sshbuf_cmp buf 0 KRL_MAGIC \<noteq> Inr () \<or> malloc A sizeof_krl = None \<or> x = None")
    case True
    moreover have "b = buf" if "x = None"
      using fb that by (auto simp: sshbuf_fromb_def sshbuf_set_parent_def ret_def throw_def split: if_splits option.splits)
    ultimately show ?thesis using fb by (auto simp: ssh_krl_from_blob_def ssh_krl_init_def)
  next
    case False
    then obtain copy where x: "x = Some copy" by blast
    note c = sshbuf_fromb_child [OF assms(1) fb [unfolded x]]
    have "reading_ok K (copy, empty_krl) (andthen (parse_krl_header A) (\<lambda>_. parse_krl_sections K sh A None) (copy, empty_krl))"
      using parse_krl_reading_ok [OF assms(3,4) c(2)] c(3) by (simp add: sshbuf_consts)
    then obtain r c' krl' where run: "andthen (parse_krl_header A) (\<lambda>_. parse_krl_sections K sh A None) (copy, empty_krl) = (r, (c', krl'))"
      and ok: "sshbuf_ok c'" "r = Inr () \<Longrightarrow> krl_wf K krl'"
      using krl_wf_empty by (cases "andthen (parse_krl_header A) (\<lambda>_. parse_krl_sections K sh A None) (copy, empty_krl)")
        (auto simp: reading_ok_def buf_frame_def)
    have "free_child (Some c') b = buf" using free_counted [OF ok(1) assms(1,2)] c(1) by simp
    then show ?thesis using False fb x run ok(2) magic
      by (cases r) (simp_all add: ssh_krl_from_blob_def ssh_krl_init_def)
  qed
qed

lemma demo_keys_ok: "keys_ok demo_keys"
  by (simp add: keys_ok_def demo_keys_def identity_equivp)

definition demo_krl_buf :: sshbuf where
  "demo_krl_buf = snd (sshbuf_put demo_allocator KRL_MAGIC demo_buf)"

theorem krl_parse_safe_witness:
  "\<exists>r. ssh_krl_from_blob demo_keys demo_shape demo_allocator demo_krl_buf = (r, demo_krl_buf)"
proof -
  have "buf_frame demo_buf demo_krl_buf" using bufop_safe_put demo_buf_ok by (simp add: bufop_safe_def demo_krl_buf_def)
  then have "sshbuf_ok demo_krl_buf" "sb_refcount demo_krl_buf < SSHBUF_REFS_MAX"
    using demo_buf_refs by (simp_all add: buf_frame_def sshbuf_consts)
  from krl_parse_safe [OF this demo_shape_inorder demo_keys_ok] show ?thesis by blast
qed

end
