(* ===== verification/Krl_Format.thy ===== *)
theory Krl_Format
  imports Krl_Safe
begin

text \<open>
  The sections of the revocation list format as data, and that the reader understands them: reading the
  encoding of a section adds to the list what the section says.
\<close>

subsection \<open>The environment of the reader\<close>

text \<open>
  Allocations succeed and keys can be copied. The key library can read the keys that it has written, and the
  encoding of a key is not empty.
\<close>

definition reader_env :: "'k key_ops \<Rightarrow> shape \<Rightarrow> allocator \<Rightarrow> bool" where
  "reader_env K sh A \<longleftrightarrow>
     keys_ok K \<and> never_fails A \<and> (\<forall>t. inorder (sh t) = t) \<and> (\<forall>k. \<exists>c. sshkey_from_private K k = Inr c)"

definition blobs_ok :: "'k key_ops \<Rightarrow> bool" where
  "blobs_ok K \<longleftrightarrow>
     (\<forall>k b. sshkey_to_blob K k = Inr b \<longrightarrow> b \<noteq> [] \<and> (\<exists>k'. sshkey_from_blob K b = Inr k' \<and> sshkey_equal K k' k))"

lemma reader_envD:
  assumes "reader_env K sh A"
  shows "keys_ok K" and "never_fails A" and "\<And>t. inorder (sh t) = t" and "\<And>k. \<exists>c. sshkey_from_private K k = Inr c"
  using assms by (auto simp: reader_env_def)

lemma revoke_range_ok:
  assumes "reader_env K sh A" and "krl_wf K krl" and "lo \<le> hi" and "lo \<noteq> 0"
  shows "\<exists>krl'. ssh_krl_revoke_cert_by_serial_range K sh A ca lo hi krl = (Inr (), krl') \<and> revokes K ca {lo .. hi} {} krl krl'"
proof -
  note env = reader_envD [OF assms(1)]
  obtain i krl1 where c: "revoked_certs_for_ca_key K A ca True krl = (Inr i, krl1)" using for_ca_key_total [OF env(2,4)] by blast
  note r = for_ca_key_revokes [OF c env(1) assms(2)]
  obtain j where j: "i = Some j" "j < length (revoked_cas krl1)" using r(2) by blast
  have "krl_wf K krl1" using r(1) by (simp add: revokes_def)
  then have "ranges_ok (revoked_serials (revoked_cas krl1 ! j))" using j(2) by (simp add: krl_wf_def certs_wf_def)
  from insert_serial_range_spec [of _ lo hi A sh, OF this assms(3) _ env(3)] never_fails_malloc [OF env(2)]
  obtain t where "insert_serial_range sh A lo hi (revoked_serials (revoked_cas krl1 ! j)) = (Inr (), t)" by (metis option.distinct(1))
  moreover have "\<not> (lo > hi \<or> lo = 0)" using assms(3,4) by auto
  ultimately have "\<exists>krl'. ssh_krl_revoke_cert_by_serial_range K sh A ca lo hi krl = (Inr (), krl')"
    using c j unfolding ssh_krl_revoke_cert_by_serial_range_def by (simp add: andthen_def on_ca_def)
  then show ?thesis using revoke_range_revokes [OF _ env(3,1) assms(2)] by blast
qed

lemma revoke_serial_ok:
  assumes "reader_env K sh A" and "krl_wf K krl" and "s \<noteq> 0"
  shows "\<exists>krl'. ssh_krl_revoke_cert_by_serial K sh A ca s krl = (Inr (), krl') \<and> revokes K ca {s} {} krl krl'"
  using revoke_range_ok [OF assms(1,2) order_refl assms(3), of ca] by (simp add: ssh_krl_revoke_cert_by_serial_def)

lemma revoke_key_id_ok:
  assumes "reader_env K sh A" and "krl_wf K krl" and "0 \<notin> set s"
  shows "\<exists>krl'. ssh_krl_revoke_cert_by_key_id K A ca s krl = (Inr (), krl') \<and> revokes K ca {} {s} krl krl'"
proof -
  note env = reader_envD [OF assms(1)]
  obtain i krl1 where c: "revoked_certs_for_ca_key K A ca True krl = (Inr i, krl1)" using for_ca_key_total [OF env(2,4)] by blast
  obtain p q where "malloc A sizeof_key_id = Some p" "malloc A (length s + 1) = Some q" using never_fails_malloc [OF env(2)] by metis
  then have "\<exists>krl'. ssh_krl_revoke_cert_by_key_id K A ca s krl = (Inr (), krl')"
    using c by (simp add: ssh_krl_revoke_cert_by_key_id_def andthen_def on_ca_def)
  then show ?thesis using revoke_key_id_revokes [OF _ env(1) assms(2,3)] by blast
qed

subsection \<open>Reading encodings\<close>

lemma string_enc_inject:
  assumes "string_enc v @ r = string_enc w @ s" and "string_valid v" and "length w \<le> SSHBUF_SIZE_MAX"
  shows "v = w" and "r = s"
proof -
  have "POKE_U32 (of_nat (length v)) @ v @ r = POKE_U32 (of_nat (length w)) @ w @ s" using assms(1) by (simp add: string_enc_def)
  then have l: "POKE_U32 (of_nat (length v)) = POKE_U32 (of_nat (length w))" "v @ r = w @ s" by simp_all
  then have "(of_nat (length v) :: u32) = of_nat (length w)" by (metis PEEK_POKE_U32)
  moreover have "unat (of_nat (length v) :: u32) = length v" "unat (of_nat (length w) :: u32) = length w"
    using assms(2,3) unat_length_valid by (auto simp: string_valid_def)
  ultimately have "length v = length w" by metis
  then show "v = w" "r = s" using l(2) by simp_all
qed

lemma froms_total:
  assumes b: "sshbuf_ok b" "sshbuf_bytes b = string_enc v @ rest" and v: "string_valid v" and A: "never_fails A"
  shows "\<exists>c b'. sshbuf_froms A i b = (Inr c, b')"
proof -
  note pk = sshbuf_peek_string_enc [OF b(1) v b(2)]
  obtain b1 where b1: "sshbuf_consume (length v + 4) b = (Inr (), b1)" "buf_frame b b1" using peek_string_consume [OF b(1) pk(1)] by blast
  obtain p where "malloc A sizeof_sshbuf = Some p" using never_fails_malloc [OF A] by blast
  then obtain c where c: "sshbuf_from A (Some (ptr_add (the (sb_cd b)) (sb_off b + 4))) v = Some c"
    using v by (cases p) (simp add: sshbuf_from_def string_valid_def sshbuf_consts)
  have "sshbuf_ok b1" using b1(2) by (simp add: buf_frame_def)
  from set_parent_fresh [OF this c] show ?thesis
    using pk b1 c by (simp add: sshbuf_froms_def andthen_def)
qed

lemma froms_enc:
  assumes b: "sshbuf_ok b" "sb_refcount b < SSHBUF_REFS_MAX" "sshbuf_bytes b = string_enc v @ rest"
    and v: "string_valid v" and A: "never_fails A"
  obtains c b1 where "sshbuf_froms A i b = (Inr c, b1\<lparr>sb_refcount := sb_refcount b1 + 1\<rparr>)" and "sshbuf_ok c" and "sb_refcount c = 1"
    and "sshbuf_bytes c = v" and "buf_frame b b1" and "sshbuf_bytes b1 = rest"
    and "\<And>c'. sshbuf_ok c' \<Longrightarrow> free_child (Some c') (b1\<lparr>sb_refcount := sb_refcount b1 + 1\<rparr>) = b1"
proof -
  obtain c b' where run: "sshbuf_froms A i b = (Inr c, b')" using froms_total [OF b(1,3) v A] by blast
  obtain b1 where b1: "buf_frame b b1" "b' = b1\<lparr>sb_refcount := sb_refcount b1 + 1\<rparr>" "sshbuf_ok c" "sb_refcount c = 1"
    "sshbuf_bytes b = string_enc (sshbuf_bytes c) @ sshbuf_bytes b1" using sshbuf_froms_child [OF b(1) run] by metis
  have "length (sshbuf_bytes c) \<le> SSHBUF_SIZE_MAX" using sshbuf_len_le_max [OF b1(3)] b1(3) by simp
  note inj = string_enc_inject [OF _ v this, of rest "sshbuf_bytes b1"]
  show thesis
  proof (rule that)
    show "sshbuf_bytes c = v" "sshbuf_bytes b1 = rest" using inj b(3) b1(5) by simp_all
    show "free_child (Some c') (b1\<lparr>sb_refcount := sb_refcount b1 + 1\<rparr>) = b1" if "sshbuf_ok c'" for c'
      using free_counted [OF that, of b1] buf_frameD [OF b1(1)] b(2) by simp
  qed (use run b1 in simp_all)
qed

text \<open>Each section adds serials or identifiers of its authority.\<close>

lemma get_u64_enc:
  assumes "sshbuf_ok b" and "sshbuf_bytes b = POKE_U64 v @ rest"
  obtains b' where "sshbuf_get_u64 b = (Inr v, b')" and "sshbuf_ok b'" and "sshbuf_bytes b' = rest"
  using u64_codec.get_enc [OF assms(1) _ assms(2)] by blast

lemma read_serial_list:
  assumes env: "reader_env K sh A"
  shows "sshbuf_ok b \<Longrightarrow> sshbuf_bytes b = concat (map POKE_U64 ss) \<Longrightarrow> 0 \<notin> set ss \<Longrightarrow> krl_wf K krl \<Longrightarrow>
    \<exists>b' krl'. parse_serial_list K sh A ca (b, krl) = (Inr (), (b', krl')) \<and> sshbuf_len b' = 0 \<and> revokes K ca (set ss) {} krl krl'"
proof (induction ss arbitrary: b krl)
  case Nil
  then have "sshbuf_len b = 0" using length_sshbuf_bytes [of b] by simp
  then show ?case using revokes_refl [OF Nil.prems(4)] by (simp add: parse_serial_list.simps)
next
  case (Cons s ss)
  obtain b1 where b1: "sshbuf_get_u64 b = (Inr s, b1)" "sshbuf_ok b1" "sshbuf_bytes b1 = concat (map POKE_U64 ss)"
    using get_u64_enc [OF Cons.prems(1)] Cons.prems(2) by (metis concat.simps(2) list.simps(9))
  have "0 < sshbuf_len b" using get_u64_shorter [OF b1(1)] by simp
  obtain krl1 where r: "ssh_krl_revoke_cert_by_serial K sh A ca s krl = (Inr (), krl1)" "revokes K ca {s} {} krl krl1"
    using revoke_serial_ok [OF env Cons.prems(4)] Cons.prems(3) by fastforce
  have "krl_wf K krl1" using r(2) by (simp add: revokes_def)
  from Cons.IH [OF b1(2,3) _ this] Cons.prems(3) obtain b' krl' where
    "parse_serial_list K sh A ca (b1, krl1) = (Inr (), (b', krl'))" "sshbuf_len b' = 0" "revokes K ca (set ss) {} krl1 krl'"
    by auto
  with revokes_trans [OF r(2) this(3)] b1(1) r(1) \<open>0 < sshbuf_len b\<close> show ?case
    by (subst parse_serial_list.simps) auto
qed

lemma read_serial_range:
  assumes env: "reader_env K sh A" and b: "sshbuf_ok b" "sshbuf_bytes b = POKE_U64 lo @ POKE_U64 hi"
    and lo: "lo \<le> hi" "lo \<noteq> 0" and wf: "krl_wf K krl"
  shows "\<exists>b' krl'. parse_serial_range K sh A ca (b, krl) = (Inr (), (b', krl')) \<and> sshbuf_len b' = 0 \<and> revokes K ca {lo .. hi} {} krl krl'"
proof -
  obtain b1 where b1: "sshbuf_get_u64 b = (Inr lo, b1)" "sshbuf_ok b1" "sshbuf_bytes b1 = POKE_U64 hi @ []"
    using get_u64_enc [OF b] by auto
  obtain b2 where b2: "sshbuf_get_u64 b1 = (Inr hi, b2)" "sshbuf_ok b2" "sshbuf_bytes b2 = []" using get_u64_enc [OF b1(2,3)] by blast
  then have "sshbuf_len b2 = 0" using length_sshbuf_bytes [of b2] by simp
  moreover obtain krl' where "ssh_krl_revoke_cert_by_serial_range K sh A ca lo hi krl = (Inr (), krl')" "revokes K ca {lo .. hi} {} krl krl'"
    using revoke_range_ok [OF env wf lo] by blast
  ultimately show ?thesis using b1(1) b2(1) by (simp add: parse_serial_range_def andthen_def ret_def)
qed

text \<open>The serials that the bits of a bitmap stand for.\<close>

definition bit_serials :: "u64 \<Rightarrow> nat set \<Rightarrow> u64 set" where
  "bit_serials lo B = (\<lambda>n. lo + of_nat n) ` B"

lemma revoke_bits_ok:
  assumes env: "reader_env K sh A" and bm: "bitmap_ok bm" and lo: "\<And>n. n \<in> set ns \<Longrightarrow> lo + of_nat n \<noteq> 0" and wf: "krl_wf K krl"
  shows "\<exists>krl'. revoke_bits K sh A ca lo bm ns krl = (Inr (), krl') \<and> revokes K ca (bit_serials lo (set ns \<inter> bits bm)) {} krl krl'"
  using lo wf
proof (induction ns arbitrary: krl)
  case Nil
  then show ?case using revokes_refl by (simp add: ret_def bit_serials_def)
next
  case (Cons n ns)
  show ?case
  proof (cases "n \<in> bits bm")
    case True
    obtain krl1 where r: "ssh_krl_revoke_cert_by_serial K sh A ca (lo + of_nat n) krl = (Inr (), krl1)" "revokes K ca {lo + of_nat n} {} krl krl1"
      using revoke_serial_ok [OF env Cons.prems(2)] Cons.prems(1) by fastforce
    have "krl_wf K krl1" using r(2) by (simp add: revokes_def)
    from Cons.IH [OF Cons.prems(1) this] obtain krl' where
      k: "revoke_bits K sh A ca lo bm ns krl1 = (Inr (), krl')" "revokes K ca (bit_serials lo (set ns \<inter> bits bm)) {} krl1 krl'" by auto
    have "{lo + of_nat n} \<union> bit_serials lo (set ns \<inter> bits bm) = bit_serials lo (set (n # ns) \<inter> bits bm)"
      using True by (auto simp: bit_serials_def)
    then show ?thesis using revokes_trans [OF r(2) k(2)] k(1) r(1) True Cons.prems(1) bm
      by (simp add: andthen_def test_bit_bits)
  next
    case False
    then have "set (n # ns) \<inter> bits bm = set ns \<inter> bits bm" by auto
    then show ?thesis using Cons False bm by (simp add: test_bit_bits)
  qed
qed

lemma bitmap_new_total: "never_fails A \<Longrightarrow> \<exists>bm. bitmap_new A = Some bm"
  using never_fails_malloc [of A 12] never_fails_malloc [of A 4]
  by (auto simp: bitmap_new_def calloc_def BITMAP_BYTES_def SIZE_MAX_def)

lemma word_add_nonzero:
  assumes "unat (lo :: u64) + k < 2 ^ 64" and "lo \<noteq> 0"
  shows "lo + of_nat k \<noteq> 0"
proof -
  have "unat (lo + of_nat k) = unat lo + k" using assms(1) by (simp add: unat_word_ariths unat_of_nat)
  then show ?thesis using assms(2) by (metis add_eq_0_iff_both_eq_0 unat_eq_zero)
qed

lemma string_bits_strip: "string_bits (dropWhile (\<lambda>b. b = 0) s) = string_bits s"
proof (induction s)
  case (Cons x s)
  have "string_bits (0 # s) = string_bits s"
  proof (rule set_eqI)
    fix n show "n \<in> string_bits (0 # s) \<longleftrightarrow> n \<in> string_bits s"
      by (cases "n div 8 < length s") (auto simp: string_bits_def nth_Cons' less_Suc_eq)
  qed
  then show ?case using Cons by simp
qed simp

definition stripped :: "u8 list \<Rightarrow> u8 list" where
  "stripped s = dropWhile (\<lambda>b. b = 0) s"

lemma stripped_stripped [simp]: "stripped (stripped s) = stripped s"
  by (simp add: stripped_def dropWhile_idem)

lemma bignum_enc_stripped: "bignum_enc (stripped s) = bignum_enc s"
  using stripped_stripped [of s] by (simp add: bignum_enc_def stripped_def)

lemma get_bignum2_large:
  assumes b: "sshbuf_ok b" "sshbuf_bytes b = bignum_enc v @ rest" and len: "SSHBUF_MAX_BIGNUM < length (stripped v)" "sshbuf_len b \<le> SSHBUF_SIZE_MAX - 4"
  shows "sshbuf_get_bignum2_bytes_direct b = (Inl SSH_ERR_BIGNUM_TOO_LARGE, b)"
proof -
  define s d where "s = stripped v" and "d = bignum_prepend s @ s"
  have enc: "sshbuf_bytes b = string_enc d @ rest" using b(2) by (simp add: bignum_enc_def d_def s_def stripped_def Let_def)
  have "string_valid d" using enc len(2) length_sshbuf_bytes [OF b(1)] by (simp add: string_enc_def string_valid_def)
  note pk = sshbuf_peek_string_enc [OF b(1) this enc]
  have "s \<noteq> []" using len(1) by (auto simp: s_def)
  then have "s ! 0 \<noteq> 0" using hd_dropWhile [of "\<lambda>b. b = 0" v] by (simp add: s_def stripped_def hd_conv_nth)
  then have "length d > SSHBUF_MAX_BIGNUM + 1 \<or> (length d = SSHBUF_MAX_BIGNUM + 1 \<and> d ! 0 \<noteq> 0)" "d ! 0 AND 0x80 = 0" "d \<noteq> []"
    using len(1) \<open>s \<noteq> []\<close> bignum_first_byte [of s] by (auto simp: d_def bignum_prepend_def s_def [symmetric])
  then show ?thesis
    using pk(1,2) by (auto simp: sshbuf_get_bignum2_bytes_direct_def andthen_def Let_def throw_def)
qed

lemma read_serial_bitmap:
  assumes env: "reader_env K sh A" and b: "sshbuf_ok b" "sshbuf_bytes b = POKE_U64 lo @ bignum_enc blob"
    and lo: "lo \<noteq> 0" "\<And>n. n \<in> string_bits blob \<Longrightarrow> unat lo + n < 2 ^ 64" and len: "length (stripped blob) \<le> SSHBUF_MAX_BIGNUM"
    and wf: "krl_wf K krl"
  shows "\<exists>b' krl'. parse_serial_bitmap K sh A ca (b, krl) = (Inr (), (b', krl')) \<and> sshbuf_len b' = 0 \<and>
    revokes K ca (bit_serials lo (string_bits blob)) {} krl krl'"
proof -
  note A = reader_envD(2) [OF env]
  obtain b1 where b1: "sshbuf_get_u64 b = (Inr lo, b1)" "sshbuf_ok b1" "sshbuf_bytes b1 = bignum_enc (stripped blob) @ []"
    using get_u64_enc [OF b] by (auto simp: bignum_enc_stripped)
  have "bignum_valid (stripped blob)" using len stripped_stripped [of blob] by (simp add: bignum_valid_def stripped_def)
  from get_bignum2_enc [OF b1(2) this b1(3)] obtain b2 where
    b2: "sshbuf_get_bignum2_bytes_direct b1 = (Inr (stripped blob), b2)" "sshbuf_ok b2" "sshbuf_bytes b2 = []" by blast
  then have "sshbuf_len b2 = 0" using length_sshbuf_bytes [of b2] by simp
  obtain bm where bm: "bitmap_new A = Some bm" using bitmap_new_total [OF A] by blast
  have "8 * length (stripped blob) \<le> BITMAP_MAX" using len by (simp add: sshbuf_consts BITMAP_MAX_def)
  then obtain bm1 where bm1: "bitmap_from_string A bm (stripped blob) = Some bm1" using from_string_total [OF _ A] new_result [OF bm] by blast
  then have ok: "bitmap_ok bm1" "bits bm1 = string_bits blob"
    using from_string_result [OF _ bm1] new_result [OF bm] by (simp_all add: stripped_def string_bits_strip)
  define n where "n = nbits_of (bits bm1)"
  note r = retop_result(1,2) [OF ok(1)]
  have all: "{0..<n} \<inter> bits bm1 = bits bm1" using nbits_of_le [OF finite_bits [OF ok(1)]] by (auto simp: n_def)
  have "lo + of_nat k \<noteq> 0" if "k \<in> set [0..<n]" for k
  proof -
    have "k < n" using that by simp
    then have ne: "bits bm1 \<noteq> {}" by (auto simp: n_def nbits_of_def)
    then have "Max (bits bm1) \<in> string_bits blob" using Max_in [OF finite_bits [OF ok(1)]] ok(2) by simp
    then have "unat lo + k < 2 ^ 64" using lo(2) [of "Max (bits bm1)"] \<open>k < n\<close> ne by (simp add: n_def nbits_of_def)
    then show ?thesis using lo(1) by (rule word_add_nonzero)
  qed
  from revoke_bits_ok [OF env r(1), of "[0..<n]" lo krl ca, OF this wf] all r(2) ok(2) obtain krl' where
    "revoke_bits K sh A ca lo (retop bm1) [0..<n] krl = (Inr (), krl')" "revokes K ca (bit_serials lo (string_bits blob)) {} krl krl'"
    by auto
  then show ?thesis using b1(1) b2(1) \<open>sshbuf_len b2 = 0\<close> bm bm1 nbits_result [OF ok(1)]
    by (simp add: parse_serial_bitmap_def andthen_def ret_def n_def)
qed

lemma read_bitmap_large:
  assumes env: "reader_env K sh A" and b: "sshbuf_ok b" "sshbuf_bytes b = POKE_U64 lo @ bignum_enc blob" "sshbuf_len b \<le> SSHBUF_SIZE_MAX - 4"
    and len: "SSHBUF_MAX_BIGNUM < length (stripped blob)"
  shows "fst (parse_serial_bitmap K sh A ca (b, krl)) = Inl SSH_ERR_BIGNUM_TOO_LARGE"
proof -
  obtain bm where bm: "bitmap_new A = Some bm" using bitmap_new_total [OF reader_envD(2) [OF env]] by blast
  obtain b1 where b1: "sshbuf_get_u64 b = (Inr lo, b1)" "sshbuf_ok b1" "sshbuf_bytes b1 = bignum_enc blob @ []"
    using get_u64_enc [OF b(1,2)] by auto
  have "sshbuf_len b1 \<le> SSHBUF_SIZE_MAX - 4" using get_u64_shorter [OF b1(1)] b(3) by simp
  from get_bignum2_large [OF b1(2,3) len this] show ?thesis
    using bm b1(1) by (simp add: parse_serial_bitmap_def andthen_def)
qed

lemma bytes_cstr_string: "0 \<notin> set v \<Longrightarrow> bytes_cstr (v @ [0]) = v"
  by (simp add: bytes_cstr_def takeWhile_append)

lemma read_key_ids:
  assumes env: "reader_env K sh A"
  shows "sshbuf_ok b \<Longrightarrow> sshbuf_bytes b = concat (map string_enc ids) \<Longrightarrow> \<forall>i \<in> set ids. string_valid i \<and> 0 \<notin> set i \<Longrightarrow>
    krl_wf K krl \<Longrightarrow>
    \<exists>b' krl'. parse_key_ids K A ca (b, krl) = (Inr (), (b', krl')) \<and> sshbuf_len b' = 0 \<and> revokes K ca {} (set ids) krl krl'"
proof (induction ids arbitrary: b krl)
  case Nil
  then have "sshbuf_len b = 0" using length_sshbuf_bytes [of b] by simp
  then show ?case using revokes_refl [OF Nil.prems(4)] by (simp add: parse_key_ids.simps)
next
  case (Cons i ids)
  have i: "sshbuf_bytes b = string_enc i @ concat (map string_enc ids)" "string_valid i" "0 \<notin> set i" using Cons.prems by simp_all
  obtain b1 n where b1: "sshbuf_get_cstring A True b = (Inr (Some (i @ [0]), n), b1)" "buf_frame b b1" "sshbuf_bytes b1 = concat (map string_enc ids)"
    using get_cstring_enc [OF Cons.prems(1) i reader_envD(2) [OF env]] by metis
  have "0 < sshbuf_len b" using get_cstring_shorter [OF b1(1)] by simp
  obtain krl1 where r: "ssh_krl_revoke_cert_by_key_id K A ca i krl = (Inr (), krl1)" "revokes K ca {} {i} krl krl1"
    using revoke_key_id_ok [OF env Cons.prems(4) i(3)] by blast
  have "krl_wf K krl1" "sshbuf_ok b1" using r(2) b1(2) by (simp_all add: revokes_def buf_frame_def)
  with Cons.IH [of b1 krl1] b1(3) Cons.prems(3) obtain b' krl' where
    "parse_key_ids K A ca (b1, krl1) = (Inr (), (b', krl'))" "sshbuf_len b' = 0" "revokes K ca {} (set ids) krl1 krl'"
    by auto
  with revokes_trans [OF r(2) this(3)] b1(1) r(1) \<open>0 < sshbuf_len b\<close> bytes_cstr_string [OF i(3)] show ?case
    by (subst parse_key_ids.simps) auto
qed

subsection \<open>Sections\<close>

datatype csect = Serials "u64 list" | Range u64 u64 | Bits u64 "u8 list" | Ids "u8 list list"

fun sect_type :: "csect \<Rightarrow> u8" where
  "sect_type (Serials _) = KRL_SECTION_CERT_SERIAL_LIST"
| "sect_type (Range _ _) = KRL_SECTION_CERT_SERIAL_RANGE"
| "sect_type (Bits _ _) = KRL_SECTION_CERT_SERIAL_BITMAP"
| "sect_type (Ids _) = KRL_SECTION_CERT_KEY_ID"

fun sect_bytes :: "csect \<Rightarrow> u8 list" where
  "sect_bytes (Serials ss) = concat (map POKE_U64 ss)"
| "sect_bytes (Range lo hi) = POKE_U64 lo @ POKE_U64 hi"
| "sect_bytes (Bits lo blob) = POKE_U64 lo @ bignum_enc blob"
| "sect_bytes (Ids ids) = concat (map string_enc ids)"

fun sect_serials :: "csect \<Rightarrow> u64 set" where
  "sect_serials (Serials ss) = set ss"
| "sect_serials (Range lo hi) = {lo .. hi}"
| "sect_serials (Bits lo blob) = bit_serials lo (string_bits blob)"
| "sect_serials (Ids _) = {}"

fun sect_ids :: "csect \<Rightarrow> u8 list set" where
  "sect_ids (Ids ids) = set ids"
| "sect_ids _ = {}"

fun sect_ok :: "csect \<Rightarrow> bool" where
  "sect_ok (Serials ss) \<longleftrightarrow> 0 \<notin> set ss"
| "sect_ok (Range lo hi) \<longleftrightarrow> lo \<le> hi \<and> lo \<noteq> 0"
| "sect_ok (Bits lo blob) \<longleftrightarrow> lo \<noteq> 0 \<and> (\<forall>n \<in> string_bits blob. unat lo + n < 2 ^ 64)"
| "sect_ok (Ids ids) \<longleftrightarrow> (\<forall>i \<in> set ids. string_valid i \<and> 0 \<notin> set i)"

text \<open>A bitmap with more bytes than a multiple-precision integer may have.\<close>

fun oversized :: "csect \<Rightarrow> bool" where
  "oversized (Bits _ blob) \<longleftrightarrow> SSHBUF_MAX_BIGNUM < length (stripped blob)"
| "oversized _ \<longleftrightarrow> False"

definition sect_enc :: "csect \<Rightarrow> u8 list" where
  "sect_enc c = sect_type c # string_enc (sect_bytes c)"

lemma read_sect:
  assumes env: "reader_env K sh A" and b: "sshbuf_ok b" "sshbuf_bytes b = sect_bytes c" and c: "sect_ok c" "string_valid (sect_bytes c)"
    and wf: "krl_wf K krl"
  shows "(oversized c \<and> fst (parse_cert_section K sh A ca (sect_type c) (b, krl)) = Inl SSH_ERR_BIGNUM_TOO_LARGE) \<or>
    (\<not> oversized c \<and> (\<exists>b' krl'. parse_cert_section K sh A ca (sect_type c) (b, krl) = (Inr (), (b', krl')) \<and> sshbuf_len b' = 0 \<and>
       revokes K ca (sect_serials c) (sect_ids c) krl krl'))"
proof (cases c)
  case (Serials ss)
  then show ?thesis using read_serial_list [OF env b(1) _ _ wf] b(2) c(1) by (simp add: parse_cert_section_def)
next
  case (Range lo hi)
  then show ?thesis using read_serial_range [OF env b(1) _ _ _ wf] b(2) c(1) by (simp add: parse_cert_section_def krl_sections)
next
  case (Bits lo blob)
  have "sshbuf_len b \<le> SSHBUF_SIZE_MAX - 4" using b c(2) length_sshbuf_bytes [OF b(1)] by (simp add: string_valid_def)
  then show ?thesis
    using Bits b c(1) read_bitmap_large [OF env b(1), of lo blob] read_serial_bitmap [OF env b(1), of lo blob krl, OF _ _ _ _ wf]
    by (cases "oversized c") (simp_all add: parse_cert_section_def krl_sections)
next
  case (Ids ids)
  then show ?thesis using read_key_ids [OF env b(1) _ _ wf] b(2) c(1) by (simp add: parse_cert_section_def krl_sections)
qed

lemma len_counted:
  "sshbuf_ok b \<Longrightarrow> sb_refcount b < SSHBUF_REFS_MAX \<Longrightarrow> sshbuf_len (b\<lparr>sb_refcount := sb_refcount b + 1\<rparr>) = sshbuf_len b"
  using sshbuf_ok_count(1) [of b "sb_refcount b + 1"] by (simp add: sshbuf_len_ok)

text \<open>The start of a round of the loops over sections, on an encoded section.\<close>

lemma section_enc:
  assumes b: "sshbuf_ok b" "sb_refcount b < SSHBUF_REFS_MAX" "sshbuf_bytes b = t # string_enc v @ rest"
    and v: "string_valid v" and A: "never_fails A"
  obtains b1 s b2 where "sshbuf_get_u8 b = (Inr t, b1)" and "sshbuf_froms A i b1 = (Inr s, b2)"
    and "sshbuf_ok s" and "sb_refcount s = 1" and "sshbuf_bytes s = v" and "0 < sshbuf_len b"
    and "\<And>s'. sshbuf_ok s' \<Longrightarrow> buf_frame b (free_child (Some s') b2) \<and> sshbuf_len b2 = sshbuf_len (free_child (Some s') b2) \<and>
      sshbuf_bytes (free_child (Some s') b2) = rest"
proof -
  have bytes: "sshbuf_bytes b = [t] @ string_enc v @ rest" using b(3) by simp
  obtain b1 where b1: "sshbuf_get_u8 b = (Inr t, b1)" "sshbuf_bytes b1 = string_enc v @ rest"
    using u8_codec.get_enc [OF b(1) _ bytes] by blast
  note f1 = bufop_safeD [OF bufop_safe_gets(5) b(1) b1(1)]
  have ok1: "sshbuf_ok b1" "sb_refcount b1 < SSHBUF_REFS_MAX" using buf_frameD [OF f1] b(2) by simp_all
  obtain s b2 where s: "sshbuf_froms A i b1 = (Inr s, b2\<lparr>sb_refcount := sb_refcount b2 + 1\<rparr>)" "sshbuf_ok s" "sb_refcount s = 1"
    "sshbuf_bytes s = v" "buf_frame b1 b2" "sshbuf_bytes b2 = rest"
    and free: "\<And>c'. sshbuf_ok c' \<Longrightarrow> free_child (Some c') (b2\<lparr>sb_refcount := sb_refcount b2 + 1\<rparr>) = b2"
    using froms_enc [OF ok1 b1(2) v A, where i = i] by blast
  have ok2: "sshbuf_ok b2" "sb_refcount b2 < SSHBUF_REFS_MAX" using buf_frameD [OF s(5)] ok1(2) by simp_all
  show thesis
  proof (rule that [OF b1(1) s(1-4)])
    show "0 < sshbuf_len b" using get_u8_shorter [OF b1(1)] by simp
    fix s' :: sshbuf assume "sshbuf_ok s'"
    from free [OF this] show "buf_frame b (free_child (Some s') (b2\<lparr>sb_refcount := sb_refcount b2 + 1\<rparr>)) \<and>
      sshbuf_len (b2\<lparr>sb_refcount := sb_refcount b2 + 1\<rparr>) = sshbuf_len (free_child (Some s') (b2\<lparr>sb_refcount := sb_refcount b2 + 1\<rparr>)) \<and>
      sshbuf_bytes (free_child (Some s') (b2\<lparr>sb_refcount := sb_refcount b2 + 1\<rparr>)) = rest"
      using len_counted [OF ok2] s(6) buf_frame_trans [OF f1 s(5)] by simp
  qed
qed

lemma read_sects:
  assumes env: "reader_env K sh A"
  shows "sshbuf_ok (free_child held b) \<Longrightarrow> sb_refcount (free_child held b) < SSHBUF_REFS_MAX \<Longrightarrow>
    sshbuf_len b = sshbuf_len (free_child held b) \<Longrightarrow> sshbuf_bytes (free_child held b) = concat (map sect_enc cs) \<Longrightarrow>
    \<forall>c \<in> set cs. sect_ok c \<and> string_valid (sect_bytes c) \<Longrightarrow> krl_wf K krl \<Longrightarrow>
    ((\<exists>c \<in> set cs. oversized c) \<and> fst (parse_cert_sections K sh A ca held (b, krl)) = Inl SSH_ERR_BIGNUM_TOO_LARGE) \<or>
    ((\<forall>c \<in> set cs. \<not> oversized c) \<and> (\<exists>b' krl'. parse_cert_sections K sh A ca held (b, krl) = (Inr (), (b', krl')) \<and> sshbuf_len b' = 0 \<and>
       revokes K ca (\<Union> (sect_serials ` set cs)) (\<Union> (sect_ids ` set cs)) krl krl'))"
proof (induction cs arbitrary: held b krl)
  case Nil
  then have "sshbuf_len b = 0" "sshbuf_len (free_child held b) = 0" using length_sshbuf_bytes [of "free_child held b"] by simp_all
  then show ?case using revokes_refl [OF Nil.prems(6)] by (simp add: parse_cert_sections.simps)
next
  case (Cons c cs)
  have c: "sect_ok c" "string_valid (sect_bytes c)" using Cons.prems(5) by simp_all
  have "sshbuf_bytes (free_child held b) = sect_type c # string_enc (sect_bytes c) @ concat (map sect_enc cs)"
    using Cons.prems(4) by (simp add: sect_enc_def [of c])
  from section_enc [OF Cons.prems(1,2) this c(2) reader_envD(2) [OF env], where i = 2]
  obtain b1 s b2 where s: "sshbuf_get_u8 (free_child held b) = (Inr (sect_type c), b1)" "sshbuf_froms A 2 b1 = (Inr s, b2)"
    "sshbuf_ok s" "sb_refcount s = 1" "sshbuf_bytes s = sect_bytes c" "sshbuf_len b \<noteq> 0"
    and free: "\<And>s'. sshbuf_ok s' \<Longrightarrow> buf_frame (free_child held b) (free_child (Some s') b2) \<and> sshbuf_len b2 = sshbuf_len (free_child (Some s') b2) \<and>
      sshbuf_bytes (free_child (Some s') b2) = concat (map sect_enc cs)"
    unfolding Cons.prems(3) by (metis less_numeral_extra(3))
  note unfold = parse_cert_sections.simps [of K sh A ca held b krl]
  from read_sect [OF env s(3,5) c Cons.prems(6), of ca] show ?case
  proof (elim disjE conjE exE)
    assume "oversized c" "fst (parse_cert_section K sh A ca (sect_type c) (s, krl)) = Inl SSH_ERR_BIGNUM_TOO_LARGE"
    then show ?thesis using s(1,2,6)
      by (cases "parse_cert_section K sh A ca (sect_type c) (s, krl)") (auto simp: unfold)
  next
    fix s' krl1 assume small: "\<not> oversized c" and run: "parse_cert_section K sh A ca (sect_type c) (s, krl) = (Inr (), (s', krl1))" "sshbuf_len s' = 0"
      and r: "revokes K ca (sect_serials c) (sect_ids c) krl krl1"
    have "reading_ok K (s, krl) (Inr (), (s', krl1))"
      using parse_cert_section_safe [OF reader_envD(3,1) [OF env] s(3), of krl A ca "sect_type c"] run(1) s(4) by (simp add: sshbuf_consts)
    then have "sshbuf_ok s'" by (simp add: reading_ok_def buf_frame_def)
    note f = free [OF this] and wf = r [unfolded revokes_def, THEN conjunct1]
    have "parse_cert_sections K sh A ca held (b, krl) = parse_cert_sections K sh A ca (Some s') (b2, krl1)"
      using s(1,2,6) run by (simp add: unfold)
    then show ?thesis
      using Cons.IH [of "Some s'" b2 krl1, OF _ _ _ _ _ wf] f buf_frameD [of "free_child held b"] Cons.prems(2,5) small revokes_trans [OF r]
      by auto
  qed
qed

end
