(* ===== verification/Krl_Stream.thy ===== *)
theory Krl_Stream
  imports Krl_Format
begin

text \<open>Reading the sections of a whole list: the authorities and the three lists of blobs.\<close>

subsection \<open>One authority\<close>

lemma sshbuf_new_total: "never_fails A \<Longrightarrow> \<exists>b. sshbuf_new A = Some b"
  using never_fails_malloc [of A sizeof_sshbuf] never_fails_malloc [of A 256]
  by (auto simp: sshbuf_new_def calloc_def sshbuf_consts SIZE_MAX_def)

lemma get_string_direct_enc:
  assumes "sshbuf_ok b" and "string_valid v" and "sshbuf_bytes b = string_enc v @ rest"
  obtains p b' where "sshbuf_get_string_direct b = (Inr (p, length v), b')" and "buf_frame b b'" and "sshbuf_bytes b' = rest"
    and "mem_read p (length v) (sb_mem b) = v" and "sb_mem b' = sb_mem b"
proof -
  note pk = sshbuf_peek_string_enc [OF assms]
  obtain b' where b': "sshbuf_get_string_direct b = (Inr (sb_off b + 4, length v), b')" "sb_mem b' = sb_mem b"
      "sshbuf_bytes b' = drop (length v + 4) (sshbuf_bytes b)"
    using sshbuf_get_string_direct_ok [OF assms(1) pk(1)] by metis
  show thesis
    using that [OF b'(1) bufop_safeD [OF bufop_safe_get_string_direct assms(1) b'(1)] _ pk(2) b'(2)] b'(3) assms(3)
    by (simp add: string_enc_def)
qed

definition authority_bytes :: "u8 list \<Rightarrow> csect list \<Rightarrow> u8 list" where
  "authority_bytes kb cs = string_enc kb @ string_enc [] @ concat (map sect_enc cs)"

text \<open>What is found in the blob of the authority's key.\<close>

definition blob_ca :: "'k key_ops \<Rightarrow> u8 list \<Rightarrow> 'k option \<Rightarrow> bool" where
  "blob_ca K kb ca \<longleftrightarrow> (if kb = [] then ca = None else (\<exists>k. ca = Some k \<and> sshkey_from_blob K kb = Inr k))"

lemma read_authority:
  assumes env: "reader_env K sh A" and b: "sshbuf_ok b" "sb_refcount b < SSHBUF_REFS_MAX" "sshbuf_bytes b = authority_bytes kb cs"
    and kb: "string_valid kb" "blob_ca K kb ca" and cs: "\<forall>c \<in> set cs. sect_ok c \<and> string_valid (sect_bytes c)" and wf: "krl_wf K krl"
  shows "((\<exists>c \<in> set cs. oversized c) \<and> fst (parse_revoked_certs K sh A (b, krl)) = Inl SSH_ERR_BIGNUM_TOO_LARGE) \<or>
    ((\<forall>c \<in> set cs. \<not> oversized c) \<and> (\<exists>b' krl'. parse_revoked_certs K sh A (b, krl) = (Inr (), (b', krl')) \<and> sshbuf_len b' = 0 \<and>
       revokes K ca (\<Union> (sect_serials ` set cs)) (\<Union> (sect_ids ` set cs)) krl krl'))"
proof -
  let ?m = "andthen sshbuf_get_string_direct (\<lambda>(p, blen). andthen sshbuf_skip_string (\<lambda>_ b. ret (mem_read p blen (sb_mem b)) b))"
  have bytes: "sshbuf_bytes b = string_enc kb @ (string_enc [] @ concat (map sect_enc cs))" using b(3) by (simp add: authority_bytes_def)
  obtain p b1 where b1: "sshbuf_get_string_direct b = (Inr (p, length kb), b1)" "buf_frame b b1" "sshbuf_bytes b1 = string_enc [] @ concat (map sect_enc cs)"
    "mem_read p (length kb) (sb_mem b) = kb" "sb_mem b1 = sb_mem b"
    using get_string_direct_enc [OF b(1) kb(1) bytes] by metis
  have "string_valid []" "sshbuf_ok b1" using b1(2) by (simp_all add: string_valid_def buf_frame_def)
  from get_string_direct_enc [OF this(2,1) b1(3)] obtain q b2 where
    b2: "sshbuf_get_string_direct b1 = (Inr (q, 0), b2)" "buf_frame b1 b2" "sshbuf_bytes b2 = concat (map sect_enc cs)" "sb_mem b2 = sb_mem b1"
    by (metis list.size(3))
  have m: "?m b = (Inr kb, b2)" using b1 b2 by (simp add: andthen_def sshbuf_skip_string_def ret_def)
  note f = buf_frame_trans [OF b1(2) b2(2)]
  obtain u where "sshbuf_new A = Some u" using sshbuf_new_total reader_envD(2) [OF env] by blast
  then have "parse_revoked_certs K sh A (b, krl) = parse_cert_sections K sh A ca None (b2, krl)"
    using m kb(2) by (auto simp: parse_revoked_certs_def blob_ca_def split: if_splits)
  then show ?thesis
    using read_sects [OF env, of None b2 cs krl ca] b2(3) buf_frameD [OF f] b(2) cs wf by (simp add: free_child_def)
qed

subsection \<open>Blobs\<close>

lemma get_string_enc:
  assumes b: "sshbuf_ok b" "sshbuf_bytes b = string_enc v @ rest" and v: "string_valid v" and A: "never_fails A"
  obtains b' where "sshbuf_get_string A True b = (Inr (Some (v @ [0]), length v), b')" and "sshbuf_ok b'" and "sshbuf_bytes b' = rest"
proof -
  obtain p b' where b': "sshbuf_get_string_direct b = (Inr (p, length v), b')" "buf_frame b b'" "sshbuf_bytes b' = rest"
    "mem_read p (length v) (sb_mem b) = v" "sb_mem b' = sb_mem b"
    using get_string_direct_enc [OF b(1) v b(2)] by metis
  obtain q where "malloc A (length v + 1) = Some q" using never_fails_malloc [OF A] by blast
  then have "sshbuf_get_string A True b = (Inr (Some (v @ [0]), length v), b')"
    using b' by (simp add: sshbuf_get_string_def andthen_def ret_def)
  then show thesis using that b'(2,3) by (simp add: buf_frame_def)
qed

lemma read_blobs:
  assumes A: "never_fails A" and n: "n = 0 \<or> (\<forall>v \<in> set vs. length v = n)" and vs: "\<forall>v \<in> set vs. string_valid v"
  shows "sshbuf_ok b \<Longrightarrow> sshbuf_bytes b = concat (map string_enc vs) \<Longrightarrow>
    \<exists>b' t'. blob_section A n (b, t) = (Inr (), (b', t')) \<and> sshbuf_len b' = 0 \<and> set t' = set t \<union> set vs"
  using n vs
proof (induction vs arbitrary: b t)
  case Nil
  then have "sshbuf_len b = 0" using length_sshbuf_bytes [of b] by simp
  then show ?case by (simp add: blob_section.simps)
next
  case (Cons v vs)
  obtain b1 where b1: "sshbuf_get_string A True b = (Inr (Some (v @ [0]), length v), b1)" "sshbuf_ok b1" "sshbuf_bytes b1 = concat (map string_enc vs)"
    using get_string_enc [OF Cons.prems(1), of v] Cons.prems(2,4) A by (metis concat.simps(2) list.set_intros(1) list.simps(9))
  have "0 < sshbuf_len b" using get_string_shorter [OF b1(1)] by simp
  obtain p where "malloc A sizeof_blob = Some p" using never_fails_malloc [OF A] by blast
  then have t1: "revoke_blob A v t = (Inr (), snd (rb_insert blob_cmp v t))" by (simp add: revoke_blob_def)
  obtain b' t' where r: "blob_section A n (b1, snd (rb_insert blob_cmp v t)) = (Inr (), (b', t'))" "sshbuf_len b' = 0"
    "set t' = set (snd (rb_insert blob_cmp v t)) \<union> set vs"
    using Cons.IH [OF b1(2,3)] Cons.prems(3,4) by (metis list.set_intros(2))
  have "set (snd (rb_insert blob_cmp v t)) = insert v (set t)" by (simp add: blobs.insert_set)
  with r b1(1) t1 \<open>0 < sshbuf_len b\<close> Cons.prems(3) show ?case
    by (subst blob_section.simps) auto
qed

subsection \<open>The loop over the sections\<close>

text \<open>Reading the sections \<open>bs\<close> into \<open>krl\<close> ends with a result and a list that satisfy \<open>P\<close>.\<close>

definition krl_reads ::
    "'k key_ops \<Rightarrow> shape \<Rightarrow> allocator \<Rightarrow> u8 list \<Rightarrow> 'k ssh_krl \<Rightarrow> (ssherr + unit \<Rightarrow> 'k ssh_krl \<Rightarrow> bool) \<Rightarrow> bool" where
  "krl_reads K sh A bs krl P \<longleftrightarrow>
     (\<forall>held b. sshbuf_ok (free_child held b) \<longrightarrow> sb_refcount (free_child held b) < SSHBUF_REFS_MAX \<longrightarrow>
        sshbuf_len b = sshbuf_len (free_child held b) \<longrightarrow> sshbuf_bytes (free_child held b) = bs \<longrightarrow>
        P (fst (parse_krl_sections K sh A held (b, krl))) (snd (snd (parse_krl_sections K sh A held (b, krl)))))"

lemma krl_reads_Nil: "P (Inr ()) krl \<Longrightarrow> krl_reads K sh A [] krl P"
  unfolding krl_reads_def using length_sshbuf_bytes by (fastforce simp: parse_krl_sections.simps)

lemma krl_reads_section:
  assumes env: "reader_env K sh A" and v: "string_valid v" "t \<noteq> KRL_SECTION_SIGNATURE"
    and step: "\<And>s. sshbuf_ok s \<Longrightarrow> sb_refcount s = 1 \<Longrightarrow> sshbuf_bytes s = v \<Longrightarrow>
      (\<exists>e s' krl'. parse_krl_section K sh A t (s, krl) = (Inl e, (s', krl')) \<and> P (Inl e) krl') \<or>
      (\<exists>s' krl'. parse_krl_section K sh A t (s, krl) = (Inr (), (s', krl')) \<and> sshbuf_len s' = 0 \<and> krl_reads K sh A rest krl' P)"
  shows "krl_reads K sh A (t # string_enc v @ rest) krl P"
  unfolding krl_reads_def
proof (intro allI impI)
  fix held b assume b: "sshbuf_ok (free_child held b)" "sb_refcount (free_child held b) < SSHBUF_REFS_MAX"
    "sshbuf_len b = sshbuf_len (free_child held b)" "sshbuf_bytes (free_child held b) = t # string_enc v @ rest"
  from section_enc [OF b(1,2,4) v(1) reader_envD(2) [OF env], where i = 1]
  obtain b1 s b2 where s: "sshbuf_get_u8 (free_child held b) = (Inr t, b1)" "sshbuf_froms A 1 b1 = (Inr s, b2)"
    "sshbuf_ok s" "sb_refcount s = 1" "sshbuf_bytes s = v" "sshbuf_len b \<noteq> 0"
    and free: "\<And>s'. sshbuf_ok s' \<Longrightarrow> buf_frame (free_child held b) (free_child (Some s') b2) \<and> sshbuf_len b2 = sshbuf_len (free_child (Some s') b2) \<and>
      sshbuf_bytes (free_child (Some s') b2) = rest"
    unfolding b(3) by (metis less_numeral_extra(3))
  note unfold = parse_krl_sections.simps [of K sh A held b krl]
  from step [OF s(3-5)]
  show "P (fst (parse_krl_sections K sh A held (b, krl))) (snd (snd (parse_krl_sections K sh A held (b, krl))))"
  proof (elim disjE exE conjE)
    fix e s' krl' assume "parse_krl_section K sh A t (s, krl) = (Inl e, (s', krl'))" "P (Inl e) krl'"
    then show ?thesis using s(1,2,6) v(2) by (simp add: unfold)
  next
    fix s' krl' assume run: "parse_krl_section K sh A t (s, krl) = (Inr (), (s', krl'))" "sshbuf_len s' = 0"
      and rest: "krl_reads K sh A rest krl' P"
    have "reading_ok K (s, krl) (Inr (), (s', krl'))"
      using parse_krl_section_safe [OF reader_envD(3,1) [OF env] s(3), of krl A t] run(1) s(4) by (simp add: sshbuf_consts)
    then have "sshbuf_ok s'" by (simp add: reading_ok_def buf_frame_def)
    note f = free [OF this]
    have "parse_krl_sections K sh A held (b, krl) = parse_krl_sections K sh A (Some s') (b2, krl')"
      using s(1,2,6) run v(2) by (simp add: unfold)
    then show ?thesis using rest f buf_frameD [of "free_child held b"] b(2) unfolding krl_reads_def by metis
  qed
qed

subsection \<open>All authorities\<close>

text \<open>
  An entry of the list, the blob of its key and its sections. A bitmap is too large for the reader only if
  there are more than 78 ranges: each range adds at most 208 bits to a bitmap, and \<open>78 * 208 \<le> 16384\<close>.
\<close>

type_synonym 'k entry = "'k revoked_certs \<times> u8 list \<times> csect list"

fun entry_ok :: "'k key_ops \<Rightarrow> 'k entry \<Rightarrow> bool" where
  "entry_ok K (rc, kb, cs) \<longleftrightarrow>
     (case ca_key rc of None \<Rightarrow> kb = [] | Some k \<Rightarrow> sshkey_to_blob K k = Inr kb) \<and> string_valid kb \<and>
     (\<forall>c \<in> set cs. sect_ok c \<and> string_valid (sect_bytes c)) \<and> string_valid (authority_bytes kb cs) \<and>
     \<Union> (sect_serials ` set cs) = serials (revoked_serials rc) \<and> \<Union> (sect_ids ` set cs) = set (revoked_key_ids rc) \<and>
     ((\<exists>c \<in> set cs. oversized c) \<longrightarrow> 78 < length (revoked_serials rc))"

fun entry_enc :: "'k entry \<Rightarrow> u8 list" where
  "entry_enc (rc, kb, cs) = KRL_SECTION_CERTIFICATES # string_enc (authority_bytes kb cs)"

definition said :: "'k key_ops \<Rightarrow> ('k revoked_certs \<Rightarrow> 'a set) \<Rightarrow> 'k revoked_certs list \<Rightarrow> 'k option \<Rightarrow> 'a set" where
  "said K f rcs ca = \<Union> (f ` {rc \<in> set rcs. ca_eq K (ca_key rc) ca})"

abbreviation rc_serials :: "'k revoked_certs \<Rightarrow> u64 set" where
  "rc_serials rc \<equiv> serials (revoked_serials rc)"

abbreviation rc_ids :: "'k revoked_certs \<Rightarrow> u8 list set" where
  "rc_ids rc \<equiv> set (revoked_key_ids rc)"

definition cas_read :: "'k key_ops \<Rightarrow> 'k revoked_certs list \<Rightarrow> 'k ssh_krl \<Rightarrow> 'k ssh_krl \<Rightarrow> bool" where
  "cas_read K rcs krl krl' \<longleftrightarrow>
     krl_wf K krl' \<and> (\<exists>cas. krl' = krl\<lparr>revoked_cas := cas\<rparr>) \<and>
     (\<forall>ca. ca_serials K krl' ca = ca_serials K krl ca \<union> said K rc_serials rcs ca \<and>
           ca_ids K krl' ca = ca_ids K krl ca \<union> said K rc_ids rcs ca)"

lemma cas_read_Nil: "krl_wf K krl \<Longrightarrow> cas_read K [] krl krl"
  unfolding cas_read_def said_def by (auto intro: exI [of _ "revoked_cas krl"])

lemma said_Cons: "said K f (rc # rcs) ca = (if ca_eq K (ca_key rc) ca then f rc else {}) \<union> said K f rcs ca"
  by (auto simp: said_def)

lemma cas_read_Cons:
  assumes K: "keys_ok K" and r: "revokes K ca (rc_serials rc) (rc_ids rc) krl krl1" "ca_eq K ca (ca_key rc)"
    and rest: "cas_read K rcs krl1 krl'"
  shows "cas_read K (rc # rcs) krl krl'"
proof -
  have e: "ca_eq K ca x \<longleftrightarrow> ca_eq K (ca_key rc) x" for x using ca_eq_equiv [OF K] r(2) by metis
  obtain xs ys where "krl1 = krl\<lparr>revoked_cas := xs\<rparr>" "krl' = krl1\<lparr>revoked_cas := ys\<rparr>"
    using r(1) rest by (auto simp: revokes_def cas_read_def)
  then have "krl' = krl\<lparr>revoked_cas := ys\<rparr>" by simp
  moreover have "krl_wf K krl'" using rest by (simp add: cas_read_def)
  moreover have "ca_serials K krl' x = ca_serials K krl x \<union> said K rc_serials (rc # rcs) x"
    "ca_ids K krl' x = ca_ids K krl x \<union> said K rc_ids (rc # rcs) x" for x
    using r(1) rest by (auto simp: revokes_def cas_read_def said_Cons e)
  ultimately show ?thesis unfolding cas_read_def by blast
qed

lemma entry_ca:
  assumes "entry_ok K (rc, kb, cs)" and "blobs_ok K" and "keys_ok K"
  obtains ca where "blob_ca K kb ca" and "ca_eq K ca (ca_key rc)"
proof (cases "ca_key rc")
  case None
  then show thesis using that [of None] assms(1) by (simp add: blob_ca_def ca_eq_def)
next
  case (Some k)
  then have "sshkey_to_blob K k = Inr kb" using assms(1) by simp
  then obtain k' where "kb \<noteq> []" "sshkey_from_blob K kb = Inr k'" "sshkey_equal K k' k" using assms(2) unfolding blobs_ok_def by blast
  then show thesis using that [of "Some k'"] Some by (simp add: blob_ca_def ca_eq_def)
qed

lemma read_entries:
  assumes env: "reader_env K sh A" and blobs: "blobs_ok K"
  shows "\<forall>e \<in> set es. entry_ok K e \<Longrightarrow> krl_wf K krl \<Longrightarrow>
    (\<And>krl'. cas_read K (map fst es) krl krl' \<Longrightarrow> krl_reads K sh A rest krl' P) \<Longrightarrow>
    (\<And>krl'. \<exists>e \<in> set es. 78 < length (revoked_serials (fst e)) \<Longrightarrow> P (Inl SSH_ERR_BIGNUM_TOO_LARGE) krl') \<Longrightarrow>
    krl_reads K sh A (concat (map entry_enc es) @ rest) krl P"
proof (induction es arbitrary: krl)
  case Nil
  then show ?case using cas_read_Nil [OF Nil.prems(2)] Nil.prems(3) [of krl] by simp
next
  case (Cons e es)
  obtain rc kb cs where e: "e = (rc, kb, cs)" using prod_cases3 by blast
  have ok: "entry_ok K (rc, kb, cs)" using Cons.prems(1) e by simp
  obtain ca where ca: "blob_ca K kb ca" "ca_eq K ca (ca_key rc)" using entry_ca [OF ok blobs reader_envD(1) [OF env]] by blast
  have "krl_reads K sh A (KRL_SECTION_CERTIFICATES # string_enc (authority_bytes kb cs) @ (concat (map entry_enc es) @ rest)) krl P"
  proof (rule krl_reads_section [OF env])
    show "string_valid (authority_bytes kb cs)" "KRL_SECTION_CERTIFICATES \<noteq> KRL_SECTION_SIGNATURE" using ok by (simp_all add: krl_sections)
    fix s assume s: "sshbuf_ok s" "sb_refcount s = 1" "sshbuf_bytes s = authority_bytes kb cs"
    have parse: "parse_krl_section K sh A KRL_SECTION_CERTIFICATES (s, krl) = parse_revoked_certs K sh A (s, krl)"
      by (simp add: parse_krl_section_def)
    have "krl_reads K sh A (concat (map entry_enc es) @ rest) krl1 P" if r: "revokes K ca (rc_serials rc) (rc_ids rc) krl krl1" for krl1
    proof (rule Cons.IH)
      show "krl_wf K krl1" using r by (simp add: revokes_def)
      show "krl_reads K sh A rest krl' P" if "cas_read K (map fst es) krl1 krl'" for krl'
        using Cons.prems(3) cas_read_Cons [OF reader_envD(1) [OF env] r ca(2) that] e by simp
    qed (use Cons.prems(1,4) in auto)
    moreover have "sb_refcount s < SSHBUF_REFS_MAX" using s(2) by (simp add: sshbuf_consts)
    note read_authority [OF env s(1) this s(3) _ ca(1) _ Cons.prems(2)]
    ultimately show "(\<exists>e s' krl'. parse_krl_section K sh A KRL_SECTION_CERTIFICATES (s, krl) = (Inl e, (s', krl')) \<and> P (Inl e) krl') \<or>
      (\<exists>s' krl'. parse_krl_section K sh A KRL_SECTION_CERTIFICATES (s, krl) = (Inr (), (s', krl')) \<and> sshbuf_len s' = 0 \<and>
        krl_reads K sh A (concat (map entry_enc es) @ rest) krl' P)"
      unfolding parse using ok Cons.prems(4) e
      by (cases "parse_revoked_certs K sh A (s, krl)") (fastforce simp: Bex_def)
  qed
  then show ?case using e by simp
qed

subsection \<open>Lists of blobs\<close>

definition blobs_enc :: "u8 \<Rightarrow> u8 list list \<Rightarrow> u8 list" where
  "blobs_enc t vs = (if vs = [] then [] else t # string_enc (concat (map string_enc vs)))"

definition blobs_valid :: "u8 list list \<Rightarrow> bool" where
  "blobs_valid vs \<longleftrightarrow> (\<forall>v \<in> set vs. string_valid v) \<and> string_valid (concat (map string_enc vs))"

lemma read_blob_list:
  assumes env: "reader_env K sh A" and vs: "blobs_valid vs" "n = 0 \<or> (\<forall>v \<in> set vs. length v = n)" and t: "t \<noteq> KRL_SECTION_SIGNATURE"
    and parse: "\<And>s. parse_krl_section K sh A t (s, krl) = (case blob_section A n (s, tree) of (r, (s', t')) \<Rightarrow> (r, (s', store t')))"
    and same: "store tree = krl" and rest: "\<And>t'. set t' = set tree \<union> set vs \<Longrightarrow> krl_reads K sh A rest (store t') P"
  shows "krl_reads K sh A (blobs_enc t vs @ rest) krl P"
proof (cases "vs = []")
  case True
  then show ?thesis using rest [of tree] same by (simp add: blobs_enc_def)
next
  case False
  have "krl_reads K sh A (t # string_enc (concat (map string_enc vs)) @ rest) krl P"
  proof (rule krl_reads_section [OF env _ t])
    show "string_valid (concat (map string_enc vs))" using vs(1) by (simp add: blobs_valid_def)
    fix s assume s: "sshbuf_ok s" "sb_refcount s = 1" "sshbuf_bytes s = concat (map string_enc vs)"
    have "\<forall>v \<in> set vs. string_valid v" using vs(1) by (simp add: blobs_valid_def)
    from read_blobs [OF reader_envD(2) [OF env] vs(2) this s(1,3)] obtain s' t' where
      "blob_section A n (s, tree) = (Inr (), (s', t'))" "sshbuf_len s' = 0" "set t' = set tree \<union> set vs" by blast
    then show "(\<exists>e s' krl'. parse_krl_section K sh A t (s, krl) = (Inl e, (s', krl')) \<and> P (Inl e) krl') \<or>
      (\<exists>s' krl'. parse_krl_section K sh A t (s, krl) = (Inr (), (s', krl')) \<and> sshbuf_len s' = 0 \<and> krl_reads K sh A rest krl' P)"
      unfolding parse using rest by auto
  qed
  then show ?thesis using False by (simp add: blobs_enc_def)
qed

text \<open>The three lists, at the end of the file.\<close>

definition same_blobs :: "'k ssh_krl \<Rightarrow> u8 list list \<Rightarrow> u8 list list \<Rightarrow> u8 list list \<Rightarrow> 'k ssh_krl \<Rightarrow> bool" where
  "same_blobs krl ks h1 h2 krl' \<longleftrightarrow>
     (\<exists>a b c. krl' = krl\<lparr>revoked_keys := a, revoked_sha1s := b, revoked_sha256s := c\<rparr> \<and>
        set a = set (revoked_keys krl) \<union> set ks \<and> set b = set (revoked_sha1s krl) \<union> set h1 \<and>
        set c = set (revoked_sha256s krl) \<union> set h2)"

lemma read_blob_lists:
  assumes env: "reader_env K sh A" and ks: "blobs_valid ks" and h1: "blobs_valid h1" "\<forall>v \<in> set h1. length v = 20"
    and h2: "blobs_valid h2" "\<forall>v \<in> set h2. length v = 32"
    and P: "\<And>krl'. same_blobs krl ks h1 h2 krl' \<Longrightarrow> P (Inr ()) krl'"
  shows "krl_reads K sh A (blobs_enc KRL_SECTION_EXPLICIT_KEY ks @ blobs_enc KRL_SECTION_FINGERPRINT_SHA1 h1 @
    blobs_enc KRL_SECTION_FINGERPRINT_SHA256 h2 @ []) krl P"
proof (rule read_blob_list [OF env ks, where n = 0 and tree = "revoked_keys krl" and store = "\<lambda>t. krl\<lparr>revoked_keys := t\<rparr>"])
  fix a assume a: "set a = set (revoked_keys krl) \<union> set ks"
  let ?a = "krl\<lparr>revoked_keys := a\<rparr>"
  show "krl_reads K sh A (blobs_enc KRL_SECTION_FINGERPRINT_SHA1 h1 @ blobs_enc KRL_SECTION_FINGERPRINT_SHA256 h2 @ []) ?a P"
  proof (rule read_blob_list [OF env h1(1), where n = 20 and tree = "revoked_sha1s krl" and store = "\<lambda>t. ?a\<lparr>revoked_sha1s := t\<rparr>"])
    fix b assume b: "set b = set (revoked_sha1s krl) \<union> set h1"
    let ?b = "?a\<lparr>revoked_sha1s := b\<rparr>"
    show "krl_reads K sh A (blobs_enc KRL_SECTION_FINGERPRINT_SHA256 h2 @ []) ?b P"
    proof (rule read_blob_list [OF env h2(1), where n = 32 and tree = "revoked_sha256s krl" and store = "\<lambda>t. ?b\<lparr>revoked_sha256s := t\<rparr>"])
      fix c assume c: "set c = set (revoked_sha256s krl) \<union> set h2"
      have "same_blobs krl ks h1 h2 (?b\<lparr>revoked_sha256s := c\<rparr>)" unfolding same_blobs_def using a b c by blast
      then show "krl_reads K sh A [] (?b\<lparr>revoked_sha256s := c\<rparr>) P" using P krl_reads_Nil by blast
    qed (use h2(2) in \<open>simp_all add: parse_krl_section_def krl_sections Let_def\<close>)
  qed (use h1(2) in \<open>simp_all add: parse_krl_section_def krl_sections Let_def\<close>)
qed (simp_all add: parse_krl_section_def krl_sections Let_def)

subsection \<open>The whole file\<close>

definition header_enc :: "u64 \<Rightarrow> u64 \<Rightarrow> u64 \<Rightarrow> u8 list \<Rightarrow> u8 list" where
  "header_enc v d f cm =
     KRL_MAGIC @ POKE_U32 KRL_FORMAT_VERSION @ POKE_U64 v @ POKE_U64 d @ POKE_U64 f @ string_enc [] @ string_enc cm"

lemma get_enc_frame:
  assumes "sshbuf_ok b"
  shows "sshbuf_bytes b = POKE_U64 v @ rest \<Longrightarrow> \<exists>b'. sshbuf_get_u64 b = (Inr v, b') \<and> buf_frame b b' \<and> sshbuf_bytes b' = rest"
    and "sshbuf_bytes b = POKE_U32 w @ rest \<Longrightarrow> \<exists>b'. sshbuf_get_u32 b = (Inr w, b') \<and> buf_frame b b' \<and> sshbuf_bytes b' = rest"
  using u64_codec.get_enc [OF assms] u32_codec.get_enc [OF assms] bufop_safeD [OF bufop_safe_gets(2) assms]
    bufop_safeD [OF bufop_safe_gets(3) assms] by blast+

lemma read_header:
  assumes b: "sshbuf_ok b" "sshbuf_bytes b = header_enc v d f cm @ rest" and cm: "string_valid cm" "0 \<notin> set cm" and A: "never_fails A"
  shows "\<exists>b'. parse_krl_header A (b, krl) =
      (Inr (), (b', krl\<lparr>krl_version := v, generated_date := d, krl_flags := f, comment := Some cm\<rparr>)) \<and>
    buf_frame b b' \<and> sshbuf_bytes b' = rest"
proof -
  have len: "length KRL_MAGIC \<le> sshbuf_len b" using b length_sshbuf_bytes [OF b(1)] by (simp add: header_enc_def)
  obtain b0 where b0: "sshbuf_consume (length KRL_MAGIC) b = (Inr (), b0)" "sshbuf_bytes b0 = drop (length KRL_MAGIC) (sshbuf_bytes b)"
    using sshbuf_consume_Inr [OF b(1) len] by metis
  have f0: "buf_frame b b0" using bufop_safeD [OF bufop_safe_consume b(1) b0(1)] .
  have "sshbuf_bytes b0 = POKE_U32 KRL_FORMAT_VERSION @ POKE_U64 v @ POKE_U64 d @ POKE_U64 f @ string_enc [] @ string_enc cm @ rest"
    using b0(2) b(2) by (simp add: header_enc_def)
  from get_enc_frame(2) [OF _ this] obtain b1 where b1: "sshbuf_get_u32 b0 = (Inr KRL_FORMAT_VERSION, b1)" "buf_frame b0 b1"
    "sshbuf_bytes b1 = POKE_U64 v @ POKE_U64 d @ POKE_U64 f @ string_enc [] @ string_enc cm @ rest" using buf_frameD [OF f0] by blast
  from get_enc_frame(1) [OF _ b1(3)] obtain b2 where b2: "sshbuf_get_u64 b1 = (Inr v, b2)" "buf_frame b1 b2"
    "sshbuf_bytes b2 = POKE_U64 d @ POKE_U64 f @ string_enc [] @ string_enc cm @ rest" using buf_frameD [OF b1(2)] by blast
  from get_enc_frame(1) [OF _ b2(3)] obtain b3 where b3: "sshbuf_get_u64 b2 = (Inr d, b3)" "buf_frame b2 b3"
    "sshbuf_bytes b3 = POKE_U64 f @ string_enc [] @ string_enc cm @ rest" using buf_frameD [OF b2(2)] by blast
  from get_enc_frame(1) [OF _ b3(3)] obtain b4 where b4: "sshbuf_get_u64 b3 = (Inr f, b4)" "buf_frame b3 b4"
    "sshbuf_bytes b4 = string_enc [] @ string_enc cm @ rest" using buf_frameD [OF b3(2)] by blast
  have "string_valid []" "sshbuf_ok b4" using buf_frameD [OF b4(2)] by (simp_all add: string_valid_def)
  from get_string_direct_enc [OF this(2,1) b4(3)] obtain q b5 where
    b5: "sshbuf_get_string_direct b4 = (Inr q, b5)" "buf_frame b4 b5" "sshbuf_bytes b5 = string_enc cm @ rest" by metis
  obtain n b6 where b6: "sshbuf_get_cstring A True b5 = (Inr (Some (cm @ [0]), n), b6)" "buf_frame b5 b6" "sshbuf_bytes b6 = rest"
    using get_cstring_enc [OF _ b5(3) cm A] buf_frameD [OF b5(2)] by metis
  have "buf_frame b b6" using f0 b1(2) b2(2) b3(2) b4(2) b5(2) b6(2) buf_frame_trans by blast
  then show ?thesis
    using b0(1) b1(1) b2(1) b3(1) b4(1) b5(1) b6(1,3) bytes_cstr_string [OF cm(2)]
    by (simp add: parse_krl_header_def andthen_def sshbuf_skip_string_def ret_def)
qed

lemma fromb_total:
  assumes "sshbuf_ok b" and "never_fails A"
  shows "\<exists>c b'. sshbuf_fromb A i b = (Some c, b') \<and> sshbuf_bytes c = sshbuf_bytes b"
proof -
  obtain p where p: "sshbuf_ptr b = Some p" using sshbuf_ptr_Some [OF assms(1)] by blast
  obtain q where q: "malloc A sizeof_sshbuf = Some q" using never_fails_malloc [OF assms(2)] by blast
  have bytes: "mem_read (sb_off b) (sshbuf_len b) (sb_mem b) = sshbuf_bytes b" using assms(1) by (simp add: sshbuf_bytes_def sshbuf_len_ok)
  have "\<not> SSHBUF_SIZE_MAX < length (sshbuf_bytes b)" using sshbuf_len_le_max [OF assms(1)] assms(1) by simp
  then obtain c where c: "sshbuf_from A (Some p) (sshbuf_bytes b) = Some c" using q unfolding sshbuf_from_def by (simp only: option.simps) simp
  have cb: "sshbuf_bytes c = sshbuf_bytes b" using sshbuf_from_ok [OF c] by simp
  show ?thesis
    using set_parent_fresh [OF assms(1) c, of i] p c cb assms(1) bytes by (simp add: sshbuf_fromb_def sshbuf_ok_def) (simp add: sshbuf_bytes_def)
qed

lemma cmp_magic:
  assumes "sshbuf_ok b" and "sshbuf_bytes b = KRL_MAGIC @ rest"
  shows "sshbuf_cmp b 0 KRL_MAGIC = Inr ()"
proof -
  obtain p where "sshbuf_ptr b = Some p" using sshbuf_ptr_Some [OF assms(1)] by blast
  moreover have "length KRL_MAGIC \<le> sshbuf_len b" using assms length_sshbuf_bytes [of b] by simp
  moreover have "length KRL_MAGIC \<le> SSHBUF_SIZE_MAX" "KRL_MAGIC \<noteq> []" by (simp_all add: KRL_MAGIC_def sshbuf_consts)
  ultimately show ?thesis using assms by (simp add: sshbuf_cmp_def sshbuf_seen_ok timingsafe_bcmp_iff)
qed

lemma read_krl:
  assumes env: "reader_env (K :: 'k key_ops) sh A" and buf: "sshbuf_ok buf" "sb_refcount buf < SSHBUF_REFS_MAX" "sshbuf_bytes buf = header_enc v d f cm @ bs"
    and cm: "string_valid cm" "0 \<notin> set cm"
    and reads: "krl_reads K sh A bs (empty_krl\<lparr>krl_version := v, generated_date := d, krl_flags := f, comment := Some cm\<rparr>) P"
  shows "(\<exists>krl. ssh_krl_from_blob K sh A buf = (Inr (Some krl), buf) \<and> P (Inr ()) krl) \<or>
    (\<exists>e krl. ssh_krl_from_blob K sh A buf = (Inl e, buf) \<and> P (Inl e) krl)"
proof -
  note A = reader_envD(2) [OF env]
  obtain c b where c: "sshbuf_fromb A 0 buf = (Some c, b)" "sshbuf_bytes c = sshbuf_bytes buf" using fromb_total [OF buf(1) A] by blast
  note fc = sshbuf_fromb_child [OF buf(1) c(1)]
  obtain c1 where c1: "parse_krl_header A (c, empty_krl :: 'k ssh_krl) =
      (Inr (), (c1, empty_krl\<lparr>krl_version := v, generated_date := d, krl_flags := f, comment := Some cm\<rparr>))" "buf_frame c c1" "sshbuf_bytes c1 = bs"
    using read_header [OF fc(2) _ cm A] c(2) buf(3) by metis
  obtain r c2 krl2 where run: "parse_krl_sections K sh A None
      (c1, empty_krl\<lparr>krl_version := v, generated_date := d, krl_flags := f, comment := Some cm\<rparr>) = (r, (c2, krl2))" using prod_cases3 by blast
  have one: "sshbuf_ok (free_child None c1)" "sb_refcount (free_child None c1) < SSHBUF_REFS_MAX" "free_child None c1 = c1"
    using buf_frameD [OF c1(2)] fc(3) by (simp_all add: free_child_def sshbuf_consts)
  have P: "P r krl2" using reads [unfolded krl_reads_def, rule_format, OF one(1,2)] one(3) c1(3) run by simp
  obtain p where "malloc A sizeof_krl = Some p" using never_fails_malloc [OF A] by blast
  then have init: "ssh_krl_init A = Some (empty_krl :: 'k ssh_krl)" by (simp add: ssh_krl_init_def)
  have cmp: "sshbuf_cmp buf 0 KRL_MAGIC = Inr ()" using cmp_magic [OF buf(1)] buf(3) by (simp add: header_enc_def)
  have body: "andthen (parse_krl_header A) (\<lambda>_. parse_krl_sections K sh A None) (c, empty_krl) = (r, (c2, krl2))"
    unfolding andthen_InrI [of "parse_krl_header A", OF c1(1)] by (rule run)
  have r: "ssh_krl_from_blob K sh A buf = (case r of Inl e \<Rightarrow> Inl e | Inr _ \<Rightarrow> Inr (Some krl2), free_child (Some c2) b)"
    unfolding ssh_krl_from_blob_def cmp init c(1) option.case prod.case body by (simp split: sum.splits)
  have "sshbuf_ok c2"
    using parse_krl_sections_safe [OF reader_envD(3,1) [OF env] one(1,2)] run unfolding reading_ok_def buf_frame_def
    by (metis fst_conv snd_conv)
  then have "free_child (Some c2) b = buf" using free_counted [OF _ buf(1,2)] fc(1) by simp
  then show ?thesis using r P by (cases r) auto
qed

end
