(* ===== verification/Krl_Gen.thy ===== *)
theory Krl_Gen
  imports Krl_Stream
begin

text \<open>
  Writing a revocation list: the sections of an authority, in whatever way their types are chosen, say exactly
  what its entry says, and the whole output is the encoding of the list.
\<close>

subsection \<open>The choice of a section type\<close>

lemma unat_bytes: "k < 2 ^ 64 \<Longrightarrow> unat ((of_nat k :: u64) div 8) = k div 8"
  by (simp add: unat_div unat_of_nat)

lemma capped: "\<exists>k :: nat. min (x :: u64) (push_bit 31 1) = of_nat k \<and> k = min (unat x) (2 ^ 31)"
proof -
  have "min x (push_bit 31 1) = of_nat (unat (min x (push_bit 31 1)))" by simp
  moreover have "unat (push_bit 31 1 :: u64) = 2 ^ 31" by (simp add: push_bit_eq_mult)
  then have "unat (min x (push_bit 31 1)) = min (unat x) (2 ^ 31)" by (auto simp: min_def word_le_nat_alt)
  ultimately show ?thesis by metis
qed

text \<open>The costs as numbers: \<open>c\<close>, \<open>l\<close> and \<open>n\<close> are the capped run length and gaps.\<close>

lemma section_costs_nat:
  assumes "c = min (unat contig) (2 ^ 31)" and "l = min (unat last_gap) (2 ^ 31)" and "n = min (unat next_gap) (2 ^ 31)"
    and g_def: "g = (if final then 0 else min n 72)" and t_def: "t = (if final then 0 else 72)"
  shows "unat (cost_range (section_costs st contig final last_gap next_gap)) = (8 + (128 + t) + 7) div 8"
    and "unat (cost_bitmap (section_costs st contig final last_gap next_gap)) = (unat (cost_bitmap (switch_costs st)) + (l + c + g) + 7) div 8"
    and "unat (cost_bitmap_restart (section_costs st contig final last_gap next_gap)) = (unat (cost_bitmap_restart (switch_costs st)) + (c + g) + 7) div 8"
proof -
  have caps: "min contig (push_bit 31 1) = of_nat c" "min last_gap (push_bit 31 1) = of_nat l" "min next_gap (push_bit 31 1) = of_nat n"
    using capped assms(1-3) by metis+
  have small: "c \<le> 2 ^ 31" "l \<le> 2 ^ 31" "n \<le> 2 ^ 31" using assms(1-3) by simp_all
  have sw: "cost_range (switch_costs st) = 8" "unat (cost_bitmap (switch_costs st)) \<le> 72" "unat (cost_bitmap_restart (switch_costs st)) \<le> 72"
    by (auto simp: switch_costs_def)
  have tail: "(if final then 0 else 8 + 64 :: u64) = of_nat t" by (simp add: t_def)
  have gap: "(if final then 0 else min (of_nat n) (8 + 64) :: u64) = of_nat g"
    using small(3) by (auto simp: g_def min_def word_le_nat_alt unat_of_nat)
  have g: "g \<le> 72" by (simp add: g_def)
  define m r where "m = unat (cost_bitmap (switch_costs st))" and "r = unat (cost_bitmap_restart (switch_costs st))"
  have w: "cost_bitmap (switch_costs st) = of_nat m" "cost_bitmap_restart (switch_costs st) = of_nat r" by (simp_all add: m_def r_def)
  show "unat (cost_range (section_costs st contig final last_gap next_gap)) = (8 + (128 + t) + 7) div 8"
    using sw(1) by (simp add: section_costs_def Let_def t_def)
  have e: "cost_bitmap (section_costs st contig final last_gap next_gap) = of_nat (m + (l + c + g) + 7) div 8"
    "cost_bitmap_restart (section_costs st contig final last_gap next_gap) = of_nat (r + (c + g) + 7) div 8"
    by (simp_all only: section_costs_def Let_def caps gap w costs.select_convs) simp_all
  show "unat (cost_bitmap (section_costs st contig final last_gap next_gap)) = (unat (cost_bitmap (switch_costs st)) + (l + c + g) + 7) div 8"
    "unat (cost_bitmap_restart (section_costs st contig final last_gap next_gap)) = (unat (cost_bitmap_restart (switch_costs st)) + (c + g) + 7) div 8"
    unfolding e m_def [symmetric] r_def [symmetric] using small sw(2,3) g by (simp_all only: unat_bytes m_def [symmetric] r_def [symmetric]) (rule unat_bytes, simp)+
qed

lemma choose_next_state_cases:
  assumes "choose_next_state st contig final last_gap next_gap = (ns, force)"
  shows "ns \<in> {KRL_SECTION_CERT_SERIAL_LIST, KRL_SECTION_CERT_SERIAL_RANGE, KRL_SECTION_CERT_SERIAL_BITMAP}"
    and "force \<Longrightarrow> ns = KRL_SECTION_CERT_SERIAL_BITMAP"
    and "ns = KRL_SECTION_CERT_SERIAL_BITMAP \<Longrightarrow> unat contig \<le> 208"
    and "ns = KRL_SECTION_CERT_SERIAL_BITMAP \<Longrightarrow> \<not> force \<Longrightarrow> unat last_gap + unat contig \<le> 208"
proof -
  define c l n where "c = min (unat contig) (2 ^ 31)" and "l = min (unat last_gap) (2 ^ 31)" and "n = min (unat next_gap) (2 ^ 31)"
  note costs = section_costs_nat [OF c_def l_def n_def refl refl, where final = final and st = st]
  let ?c = "section_costs st contig final last_gap next_gap"
  show "ns \<in> {KRL_SECTION_CERT_SERIAL_LIST, KRL_SECTION_CERT_SERIAL_RANGE, KRL_SECTION_CERT_SERIAL_BITMAP}"
    "force \<Longrightarrow> ns = KRL_SECTION_CERT_SERIAL_BITMAP"
    using assms by (auto simp: choose_next_state_def Let_def split: if_splits)
  have bitmap: "cost_bitmap ?c \<le> cost_range ?c" if "ns = KRL_SECTION_CERT_SERIAL_BITMAP" "\<not> force"
    using assms that by (auto simp: choose_next_state_def Let_def krl_sections split: if_splits)
  have restart: "cost_bitmap_restart ?c \<le> cost_range ?c" if force
    using assms that by (auto simp: choose_next_state_def Let_def split: if_splits)
  have l: "l + c \<le> 208" if "ns = KRL_SECTION_CERT_SERIAL_BITMAP" "\<not> force"
    using bitmap [OF that] unfolding word_le_nat_alt costs by (auto split: if_splits)
  then show "ns = KRL_SECTION_CERT_SERIAL_BITMAP \<Longrightarrow> \<not> force \<Longrightarrow> unat last_gap + unat contig \<le> 208"
    by (auto simp: l_def c_def min_def split: if_splits)
  have "c \<le> 208" if force using restart [OF that] unfolding word_le_nat_alt costs by (auto split: if_splits)
  then show "ns = KRL_SECTION_CERT_SERIAL_BITMAP \<Longrightarrow> unat contig \<le> 208"
    using l by (cases force) (auto simp: c_def min_def split: if_splits)
qed

subsection \<open>Sections that are being written\<close>

text \<open>A buffer that can be reset.\<close>

definition sect_buf :: "sshbuf \<Rightarrow> bool" where
  "sect_buf b \<longleftrightarrow> sshbuf_ok b \<and> sshbuf_writable b \<and> SSHBUF_SIZE_INIT \<le> sb_max_size b"

lemma sect_buf_put:
  assumes "sect_buf b" and "sshbuf_put A bs b = (Inr (), b')"
  shows "sect_buf b' \<and> sshbuf_bytes b' = sshbuf_bytes b @ bs"
  using assms sshbuf_put_Inr [of b A bs b'] by (auto simp: sect_buf_def same_owner_def sshbuf_writable_def)

lemma sect_buf_puts:
  "sect_buf b \<Longrightarrow> put_all (\<lambda>x. sshbuf_put A (f x)) xs b = (Inr (), b') \<Longrightarrow> sect_buf b' \<and> sshbuf_bytes b' = sshbuf_bytes b @ concat (map f xs)"
proof (induction xs arbitrary: b)
  case (Cons x xs)
  then show ?case using sect_buf_put [of b A "f x"] by (fastforce elim!: andthen_InrE)
qed (simp add: ret_def)

lemma sect_buf_reset:
  assumes "sect_buf b"
  shows "sect_buf (sshbuf_reset A b) \<and> sshbuf_bytes (sshbuf_reset A b) = []"
  using assms sshbuf_reset_erases [of b A] sshbuf_reset_ok [of b A]
  by (auto simp: sect_buf_def same_owner_def sshbuf_writable_def)

lemma sect_buf_new: "sshbuf_new A = Some b \<Longrightarrow> sect_buf b \<and> sshbuf_bytes b = []"
  using sshbuf_new_ok [of A b] by (simp add: sect_buf_def sshbuf_consts)

lemma put_string_Inr:
  assumes "sshbuf_ok b" and "sshbuf_put_string A v b = (Inr (), b')"
  shows "string_valid v" and "sshbuf_put A (string_enc v) b = (Inr (), b')"
proof -
  show v: "string_valid v" using assms(2) sshbuf_put_string_long [of v A b] by (cases "string_valid v") (auto simp: string_valid_def)
  show "sshbuf_put A (string_enc v) b = (Inr (), b')"
    using assms(2) sshbuf_put_string_eq [OF assms(1)] v by (simp add: string_valid_def string_enc_def)
qed

text \<open>A section is written to \<open>b\<close>.\<close>

lemma put_section:
  assumes "sshbuf_ok b" and "sshbuf_ok sect"
    and "andthen (sshbuf_put_u8 A t) (\<lambda>_. sshbuf_put_stringb A (Some sect)) b = (Inr (), b')"
  shows "sshbuf_ok b'" and "sect_buf b \<Longrightarrow> sect_buf b'"
    and "sshbuf_bytes b' = sshbuf_bytes b @ t # string_enc (sshbuf_bytes sect)" and "string_valid (sshbuf_bytes sect)"
proof -
  obtain b1 where b1: "sshbuf_put_u8 A t b = (Inr (), b1)" "sshbuf_put_string A (sshbuf_bytes sect) b1 = (Inr (), b')"
    using assms(2,3) by (auto simp: sshbuf_put_stringb_def sshbuf_seen_ok elim!: andthen_InrE)
  have ok: "sshbuf_ok b1" "sshbuf_bytes b1 = sshbuf_bytes b @ [t]" using u8_codec.put_enc [OF assms(1) b1(1)] by simp_all
  show "sshbuf_ok b'" "sshbuf_bytes b' = sshbuf_bytes b @ t # string_enc (sshbuf_bytes sect)" "string_valid (sshbuf_bytes sect)"
    using string_codec.put_enc [OF ok(1) b1(2)] ok(2) put_string_Inr(1) [OF ok(1) b1(2)] by simp_all
  assume "sect_buf b"
  then have "sect_buf b1" using sect_buf_put b1(1) by (simp add: sshbuf_put_int)
  then show "sect_buf b'" using sect_buf_put put_string_Inr(2) [OF ok(1) b1(2)] by blast
qed

lemma put_bitmap_Inr:
  assumes bm: "bitmap_ok bm" and run: "put_bitmap A junk bm b = (Inr (), b')"
  obtains blob where "sshbuf_put A (bignum_enc blob) b = (Inr (), b')" and "string_bits blob = bits bm"
    and "length blob = (nbits_of (bits bm) + 7) div 8"
proof -
  let ?n = "(nbits_of (bits bm) + 7) div 8"
  note r = retop_result(1,2) [OF bm]
  obtain blob where blob: "fst (the (bitmap_to_string (retop bm) (map junk [0..<?n]))) = Some blob" "sshbuf_put_bignum2_bytes A blob b = (Inr (), b')"
    using run by (auto simp: put_bitmap_def nbytes_result [OF bm] throw_def split: if_splits option.splits)
  then have "bitmap_to_string (retop bm) (map junk [0..<?n]) = Some (Some blob, retop (retop bm))"
    using to_string_result [OF r(1) refl, of "map junk [0..<?n]"] by (auto split: if_splits)
  from to_string_bits [OF r(1) this] have "string_bits blob = bits bm" "length blob = ?n" by (simp_all add: r(2))
  moreover have "sshbuf_put A (bignum_enc blob) b = (Inr (), b')"
    using blob(2) by (auto simp: sshbuf_put_bignum2_eq throw_def split: if_splits)
  ultimately show thesis using that by blast
qed

text \<open>
  The section in \<open>g_sect\<close> stands for the serials \<open>P\<close>, when \<open>k\<close> ranges have been written. The bits of a bitmap end
  with the last serial, and there are at most 208 of them for each range.
\<close>

definition pending :: "nat \<Rightarrow> u64 set \<Rightarrow> gen \<Rightarrow> bool" where
  "pending k P g \<longleftrightarrow>
     (g_state g = KRL_SECTION_CERT_SERIAL_LIST \<and>
        (\<exists>ss. sshbuf_bytes (g_sect g) = sect_bytes (Serials ss) \<and> 0 \<notin> set ss \<and> P = set ss)) \<or>
     (g_state g = KRL_SECTION_CERT_SERIAL_RANGE \<and>
        (\<exists>lo hi. sshbuf_bytes (g_sect g) = sect_bytes (Range lo hi) \<and> lo \<le> hi \<and> lo \<noteq> 0 \<and> P = {lo .. hi})) \<or>
     (g_state g = KRL_SECTION_CERT_SERIAL_BITMAP \<and>
        (\<exists>bm. g_bitmap g = Some bm \<and> bitmap_ok bm \<and> sshbuf_bytes (g_sect g) = POKE_U64 (g_bitmap_start g) \<and> g_bitmap_start g \<noteq> 0 \<and>
           P = bit_serials (g_bitmap_start g) (bits bm) \<and> unat (g_bitmap_start g) \<le> unat (g_last g) \<and>
           unat (g_last g) - unat (g_bitmap_start g) \<in> bits bm \<and>
           bits bm \<subseteq> {.. unat (g_last g) - unat (g_bitmap_start g)} \<and> unat (g_last g) - unat (g_bitmap_start g) < 208 * k))"

lemma pending_state: "pending k P g \<Longrightarrow> g_state g \<noteq> 0"
proof -
  assume "pending k P g"
  then have "g_state g \<in> {KRL_SECTION_CERT_SERIAL_LIST, KRL_SECTION_CERT_SERIAL_RANGE, KRL_SECTION_CERT_SERIAL_BITMAP}"
    unfolding pending_def by blast
  then show ?thesis by (auto simp: krl_sections)
qed

text \<open>The section that a pending section becomes, once the bits are written.\<close>

definition becomes :: "nat \<Rightarrow> u64 set \<Rightarrow> gen \<Rightarrow> csect \<Rightarrow> bool" where
  "becomes k P g c \<longleftrightarrow>
     sshbuf_bytes (g_sect g) = sect_bytes c \<and> sect_type c = g_state g \<and> sect_ok c \<and> sect_serials c = P \<and> sect_ids c = {} \<and>
     (oversized c \<longrightarrow> 78 < k)"

lemma unat_bound: "unat (w :: u64) < 2 ^ 64"
  using unsigned_less [of w] by simp

lemma nbits_of_bound: "S \<subseteq> {..m} \<Longrightarrow> nbits_of S \<le> m + 1"
  using finite_subset [of S "{..m}"] by (auto simp: nbits_of_def)

lemma bitmap_becomes:
  assumes bm: "bits bm \<subseteq> {.. unat up - unat start}" "unat up - unat start < 208 * k" "unat start \<le> unat (up :: u64)" "start \<noteq> 0"
    and blob: "string_bits blob = bits bm" "length blob = (nbits_of (bits bm) + 7) div 8"
  shows "sect_ok (Bits start blob)" and "oversized (Bits start blob) \<Longrightarrow> 78 < k"
proof -
  have "unat start + n < 2 ^ 64" if "n \<in> bits bm" for n
  proof -
    have "n \<le> unat up - unat start" using that bm(1) by auto
    then show ?thesis using unat_bound [of up] bm(3) by simp
  qed
  then show "sect_ok (Bits start blob)" using bm(4) blob(1) by simp
  show "78 < k" if "oversized (Bits start blob)"
  proof (rule ccontr)
    assume "\<not> 78 < k"
    then have "nbits_of (bits bm) \<le> 208 * 78" using nbits_of_bound [OF bm(1)] bm(2) by simp
    then have "length blob \<le> SSHBUF_MAX_BIGNUM" using blob(2) by (simp add: sshbuf_consts)
    moreover have "length (stripped blob) \<le> length blob" by (simp add: stripped_def length_dropWhile_le)
    ultimately show False using that by simp
  qed
qed

lemma flush_pending:
  assumes p: "pending k P g" and sect: "sect_buf (g_sect g)"
    and run: "(if g_state g = KRL_SECTION_CERT_SERIAL_BITMAP
       then andthen (to_sect (put_bitmap A junk (the (g_bitmap g)))) (\<lambda>_ g. ret () (g\<lparr>g_bitmap := None\<rparr>)) else ret ()) g = (Inr (), g1)"
  shows "sect_buf (g_sect g1)" and "g_buf g1 = g_buf g" and "g_state g1 = g_state g" and "\<exists>c. becomes k P g1 c"
proof -
  have "sect_buf (g_sect g1) \<and> g_buf g1 = g_buf g \<and> g_state g1 = g_state g \<and> (\<exists>c. becomes k P g1 c)"
  proof (cases "g_state g = KRL_SECTION_CERT_SERIAL_BITMAP")
    case False
    then have g1: "g1 = g" using run by (simp add: ret_def)
    have "\<exists>c. becomes k P g c"
      using p False unfolding pending_def becomes_def
      by (elim disjE exE conjE) (rule exI [of _ "Serials _"], simp, rule exI [of _ "Range _ _"], simp, simp)
    then show ?thesis using g1 sect by simp
  next
    case True
    then obtain bm where bm: "g_bitmap g = Some bm" "bitmap_ok bm" "sshbuf_bytes (g_sect g) = POKE_U64 (g_bitmap_start g)" "g_bitmap_start g \<noteq> 0"
        "P = bit_serials (g_bitmap_start g) (bits bm)" "unat (g_bitmap_start g) \<le> unat (g_last g)"
        "bits bm \<subseteq> {.. unat (g_last g) - unat (g_bitmap_start g)}" "unat (g_last g) - unat (g_bitmap_start g) < 208 * k"
      using p by (auto simp: pending_def krl_sections)
    obtain b1 where b1: "put_bitmap A junk bm (g_sect g) = (Inr (), b1)" "g1 = g\<lparr>g_sect := b1, g_bitmap := None\<rparr>"
      using run True bm(1) by (auto simp: to_sect_def andthen_def ret_def split: prod.splits sum.splits)
    obtain blob where blob: "sshbuf_put A (bignum_enc blob) (g_sect g) = (Inr (), b1)" "string_bits blob = bits bm"
      "length blob = (nbits_of (bits bm) + 7) div 8" using put_bitmap_Inr [OF bm(2) b1(1)] by metis
    note b = sect_buf_put [OF sect blob(1)]
    have "becomes k P g1 (Bits (g_bitmap_start g) blob)"
      using bitmap_becomes [OF bm(7,8,6,4) blob(2,3)] b bm(3,5) blob(2) b1(2) True by (simp add: becomes_def)
    then show ?thesis using b b1(2) by auto
  qed
  then show "sect_buf (g_sect g1)" "g_buf g1 = g_buf g" "g_state g1 = g_state g" "\<exists>c. becomes k P g1 c" by simp_all
qed

lemma finish_section_Inr:
  assumes run: "finish_section A junk g = (Inr (), g')" and p: "pending k P g" and buf: "sect_buf (g_buf g)" and sect: "sect_buf (g_sect g)"
  obtains c where "sect_buf (g_buf g')" and "sshbuf_bytes (g_buf g') = sshbuf_bytes (g_buf g) @ sect_enc c" and "sect_buf (g_sect g')"
    and "sect_ok c" and "string_valid (sect_bytes c)" and "sect_serials c = P" and "sect_ids c = {}" and "oversized c \<longrightarrow> 78 < k"
    and "g_state g' = g_state g" and "sect_type c = g_state g"
proof -
  obtain g1 where g1: "(if g_state g = KRL_SECTION_CERT_SERIAL_BITMAP
       then andthen (to_sect (put_bitmap A junk (the (g_bitmap g)))) (\<lambda>_ g. ret () (g\<lparr>g_bitmap := None\<rparr>)) else ret ()) g = (Inr (), g1)"
    and rest: "andthen (to_buf (sshbuf_put_u8 A (g_state g))) (\<lambda>_ g. to_buf (sshbuf_put_stringb A (Some (g_sect g))) g) g1 = (Inr (), g')"
    using run unfolding finish_section_def by (rule andthen_InrE) (use that in simp)
  note f = flush_pending [OF p sect g1]
  obtain c where c: "becomes k P g1 c" using f(4) by blast
  obtain b where b: "andthen (sshbuf_put_u8 A (g_state g)) (\<lambda>_. sshbuf_put_stringb A (Some (g_sect g1))) (g_buf g) = (Inr (), b)" "g' = g1\<lparr>g_buf := b\<rparr>"
    using rest f(2) by (auto simp: to_buf_def andthen_def split: prod.splits sum.splits)
  have "sshbuf_ok (g_buf g)" "sshbuf_ok (g_sect g1)" using buf f(1) by (simp_all add: sect_buf_def)
  note e = put_section [OF this b(1)]
  show thesis
  proof (rule that [of c])
    show "sshbuf_bytes (g_buf g') = sshbuf_bytes (g_buf g) @ sect_enc c" using e(3) b(2) c f(3) by (simp add: sect_enc_def becomes_def)
  qed (use e(2,4) buf b(2) f c in \<open>auto simp: becomes_def\<close>)
qed

subsection \<open>One range\<close>

text \<open>The section is ready for the run that starts with \<open>lo\<close> and has \<open>n\<close> serials.\<close>

definition ready :: "nat \<Rightarrow> u64 set \<Rightarrow> u64 \<Rightarrow> nat \<Rightarrow> gen \<Rightarrow> bool" where
  "ready k P lo n g \<longleftrightarrow>
     (g_state g = KRL_SECTION_CERT_SERIAL_LIST \<and>
        (\<exists>ss. sshbuf_bytes (g_sect g) = sect_bytes (Serials ss) \<and> 0 \<notin> set ss \<and> P = set ss)) \<or>
     (g_state g = KRL_SECTION_CERT_SERIAL_RANGE \<and> sshbuf_bytes (g_sect g) = [] \<and> P = {}) \<or>
     (g_state g = KRL_SECTION_CERT_SERIAL_BITMAP \<and>
        (\<exists>bm. g_bitmap g = Some bm \<and> bitmap_ok bm \<and> sshbuf_bytes (g_sect g) = POKE_U64 (g_bitmap_start g) \<and> g_bitmap_start g \<noteq> 0 \<and>
           P = bit_serials (g_bitmap_start g) (bits bm) \<and> unat (g_bitmap_start g) \<le> unat lo \<and>
           bits bm \<subseteq> {.. unat lo - unat (g_bitmap_start g)} \<and> unat lo - unat (g_bitmap_start g) + n \<le> 208 * (k + 1) \<and>
           unat lo - unat (g_bitmap_start g) \<le> BITMAP_MAX + 208 \<and> n \<le> 208))"

lemma start_section_ready:
  assumes run: "start_section A ns lo g = (Inr (), g')" and sect: "sect_buf (g_sect g)" and lo: "lo \<noteq> 0"
    and ns: "ns \<in> {KRL_SECTION_CERT_SERIAL_LIST, KRL_SECTION_CERT_SERIAL_RANGE, KRL_SECTION_CERT_SERIAL_BITMAP}"
      "ns = KRL_SECTION_CERT_SERIAL_BITMAP \<Longrightarrow> n \<le> 208"
  shows "ready k {} lo n g' \<and> sect_buf (g_sect g') \<and> g_buf g' = g_buf g"
proof -
  let ?b = "sshbuf_reset A (g_sect g)"
  have r: "sect_buf ?b" "sshbuf_bytes ?b = []" using sect_buf_reset [OF sect] by simp_all
  show ?thesis
  proof (cases "ns = KRL_SECTION_CERT_SERIAL_BITMAP")
    case False
    then have "g' = g\<lparr>g_state := ns, g_sect := ?b\<rparr>" using run by (simp add: start_section_def reset_sect_def Let_def)
    then show ?thesis using r ns(1) False by (auto simp: ready_def intro!: exI [of _ "[]"])
  next
    case True
    then obtain bm b1 where bm: "bitmap_new A = Some bm" "sshbuf_put_u64 A lo ?b = (Inr (), b1)"
      "g' = g\<lparr>g_state := ns, g_sect := b1, g_bitmap := Some bm, g_bitmap_start := lo\<rparr>"
      using run by (auto simp: start_section_def reset_sect_def Let_def to_sect_def split: option.splits prod.splits)
    have "sect_buf b1 \<and> sshbuf_bytes b1 = POKE_U64 lo" using sect_buf_put [OF r(1)] bm(2) r(2) by (simp add: sshbuf_put_int)
    then show ?thesis using True bm(3) new_result [OF bm(1)] lo ns(2) by (auto simp: ready_def krl_sections bit_serials_def)
  qed
qed

lemma word_range_image:
  assumes "lo \<le> (hi :: u64)"
  shows "(\<lambda>n. lo + of_nat n) ` {..<unat hi - unat lo + 1} = {lo .. hi}"
proof -
  have le: "unat lo \<le> unat hi" using assms by (simp add: word_le_nat_alt)
  have u: "unat (lo + of_nat n) = unat lo + n" if "n < unat hi - unat lo + 1" for n
    using that unat_bound [of hi] le by (simp add: unat_word_ariths unat_of_nat)
  show ?thesis
  proof (intro equalityI subsetI)
    fix x assume "x \<in> (\<lambda>n. lo + of_nat n) ` {..<unat hi - unat lo + 1}"
    then show "x \<in> {lo .. hi}" using u le by (auto simp: word_le_nat_alt)
  next
    fix x assume x: "x \<in> {lo .. hi}"
    then have "x = lo + of_nat (unat x - unat lo)" by (simp add: word_le_nat_alt of_nat_diff)
    moreover have "unat x - unat lo < unat hi - unat lo + 1" using x le by (auto simp: word_le_nat_alt)
    ultimately show "x \<in> (\<lambda>n. lo + of_nat n) ` {..<unat hi - unat lo + 1}" by blast
  qed
qed

lemma unat_contig:
  assumes "lo \<le> (hi :: u64)" and "lo \<noteq> 0"
  shows "unat (1 + (hi - lo)) = unat hi - unat lo + 1"
proof -
  have "unat (hi - lo) = unat hi - unat lo" using assms(1) by (simp add: unat_sub)
  moreover have "0 < unat lo" using assms(2) by (simp add: unat_gt_0)
  then have "unat hi - unat lo + 1 < 2 ^ 64" using unat_bound [of hi] by simp
  ultimately show ?thesis by (simp add: unat_word_ariths)
qed

lemma unat_of_nat64: "n < 2 ^ 64 \<Longrightarrow> unat (of_nat n :: u64) = n"
  by (simp add: unat_of_nat)

lemma bits_of_run:
  assumes start: "unat start \<le> unat (lo :: u64)" "unat lo - unat start + n < 2 ^ 32"
  shows "map (\<lambda>i. unat (ucast (lo + of_nat i - start) :: u32)) [0..<n] = map (\<lambda>i. unat lo - unat start + i) [0..<n]"
proof (rule map_cong [OF refl])
  fix i assume "i \<in> set [0..<n]"
  then have i: "unat lo - unat start + i < 2 ^ 32" using start(2) by simp
  have "lo - start = of_nat (unat lo - unat start)" using start(1) by (simp add: of_nat_diff)
  then have e: "lo + of_nat i - start = of_nat (unat lo - unat start + i)" by (simp add: algebra_simps)
  have "unat (lo + of_nat i - start) = unat lo - unat start + i" unfolding e using i by (intro unat_of_nat64) simp
  then show "unat (ucast (lo + of_nat i - start) :: u32) = unat lo - unat start + i"
    using i by (simp add: unsigned_ucast_eq take_bit_nat_eq_self)
qed

lemma serials_of_run:
  assumes "unat start \<le> unat lo" and "lo \<le> (hi :: u64)"
  shows "bit_serials start (set (map (\<lambda>i. unat lo - unat start + i) [0..<unat hi - unat lo + 1])) = {lo .. hi}"
proof -
  have e: "start + of_nat (unat lo - unat start + i) = lo + of_nat i" for i using assms(1) by (simp add: of_nat_diff)
  show ?thesis unfolding bit_serials_def set_map image_image set_upt atLeast0LessThan e word_range_image [OF assms(2)] ..
qed

lemma fill_bitmap:
  assumes run: "fill_section A (lo, hi) (1 + (hi - lo)) g = (Inr cont, g')" and st: "g_state g = KRL_SECTION_CERT_SERIAL_BITMAP"
    and r: "ready k P lo (unat hi - unat lo + 1) g" and lo: "lo \<le> hi" "lo \<noteq> 0"
  shows "cont \<and> g_buf g' = g_buf g \<and> g_sect g' = g_sect g \<and> pending (k + 1) (P \<union> {lo .. hi}) (g'\<lparr>g_last := hi\<rparr>)"
proof -
  define n where "n = unat hi - unat lo + 1"
  let ?s = "g_bitmap_start g" and ?d = "unat lo - unat (g_bitmap_start g)" and ?ns = "map (\<lambda>i. unat lo - unat (g_bitmap_start g) + i) [0..<n]"
  obtain bm where bm: "g_bitmap g = Some bm" "bitmap_ok bm" "sshbuf_bytes (g_sect g) = POKE_U64 ?s" "?s \<noteq> 0"
      "P = bit_serials ?s (bits bm)" "unat ?s \<le> unat lo" "bits bm \<subseteq> {..?d}" "?d + n \<le> 208 * (k + 1)" "?d \<le> BITMAP_MAX + 208" "n \<le> 208"
    using r st unfolding n_def [symmetric] by (auto simp: ready_def krl_sections)
  have "unat (lo - ?s) = ?d" using bm(6) by (simp add: unat_sub word_le_nat_alt)
  then have int: "\<not> int (unat (lo - ?s)) > INT_MAX" using bm(9) by (simp add: INT_MAX_def BITMAP_MAX_def)
  have "?d + n < 2 ^ 32" using bm(9,10) by (simp add: BITMAP_MAX_def)
  note ns = bits_of_run [OF bm(6) this]
  have fill: "fill_section A (lo, hi) (1 + (hi - lo)) g =
      (case set_bits A ?ns bm of None \<Rightarrow> (Inl SSH_ERR_ALLOC_FAIL, g) | Some bm \<Rightarrow> ret True (g\<lparr>g_bitmap := Some bm\<rparr>))"
    unfolding fill_section_def fst_conv snd_conv unat_contig [OF lo, folded n_def] ns bm(1) option.sel
    using st int by (simp add: krl_sections)
  obtain bm1 where bm1: "set_bits A ?ns bm = Some bm1" "cont" "g' = g\<lparr>g_bitmap := Some bm1\<rparr>"
    using run unfolding fill by (auto simp: ret_def split: option.splits)
  have ok: "bitmap_ok bm1" "bits bm1 = set ?ns \<union> bits bm" using bm.add_all [OF bm(2) bm1(1) [unfolded set_bits_def]] by simp_all
  have top: "unat hi - unat ?s = ?d + (unat hi - unat lo)" "unat lo \<le> unat hi" using bm(6) lo(1) by (simp_all add: word_le_nat_alt)
  have "unat hi - unat ?s \<in> bits bm1" unfolding top(1) ok(2) by (simp add: n_def)
  moreover have "bits bm1 \<subseteq> {.. unat hi - unat ?s}" unfolding top(1) ok(2) using bm(7) by (fastforce simp: n_def)
  moreover have "unat hi - unat ?s < 208 * (k + 1)" unfolding top(1) using bm(8) by (simp add: n_def)
  moreover have "bit_serials ?s (bits bm1) = P \<union> {lo .. hi}"
    using serials_of_run [OF bm(6) lo(1), folded n_def] ok(2) bm(5) by (simp add: bit_serials_def image_Un Un_commute)
  ultimately show ?thesis using bm1(2,3) st bm(3,4,6) ok(1) top(2) by (simp add: pending_def krl_sections)
qed

lemma fill_section_ready:
  assumes run: "fill_section A (lo, hi) (1 + (hi - lo)) g = (Inr cont, g')"
    and r: "ready k P lo (unat hi - unat lo + 1) g" and lo: "lo \<le> hi" "lo \<noteq> 0" and sect: "sect_buf (g_sect g)"
  shows "cont \<and> g_buf g' = g_buf g \<and> sect_buf (g_sect g') \<and> pending (k + 1) (P \<union> {lo .. hi}) (g'\<lparr>g_last := hi\<rparr>)"
proof -
  note contig = unat_contig [OF lo]
  consider "g_state g = KRL_SECTION_CERT_SERIAL_LIST" | "g_state g = KRL_SECTION_CERT_SERIAL_RANGE" | "g_state g = KRL_SECTION_CERT_SERIAL_BITMAP"
    using r by (auto simp: ready_def)
  then show ?thesis
  proof cases
    case 1
    let ?xs = "map (\<lambda>i. lo + of_nat i) [0..<unat hi - unat lo + 1]"
    obtain ss where ss: "sshbuf_bytes (g_sect g) = sect_bytes (Serials ss)" "0 \<notin> set ss" "P = set ss" using r 1 by (auto simp: ready_def krl_sections)
    obtain b where b: "put_all (sshbuf_put_u64 A) ?xs (g_sect g) = (Inr (), b)" "cont" "g' = g\<lparr>g_sect := b\<rparr>"
      using run 1 contig by (auto simp: fill_section_def to_sect_def andthen_def ret_def split: prod.splits sum.splits)
    have "sect_buf b \<and> sshbuf_bytes b = sshbuf_bytes (g_sect g) @ concat (map POKE_U64 ?xs)"
      using sect_buf_puts [OF sect, of A POKE_U64 ?xs b] b(1) by (simp add: sshbuf_put_int [abs_def])
    moreover have "set ?xs = {lo .. hi}" unfolding set_map set_upt atLeast0LessThan word_range_image [OF lo(1)] ..
    moreover have "0 \<notin> {lo .. hi}" using lo(2) by (simp add: word_le_0_iff)
    ultimately show ?thesis using b(2,3) ss 1 by (auto simp: pending_def intro!: exI [of _ "ss @ ?xs"])
  next
    case 2
    obtain b where b: "put_all (sshbuf_put_u64 A) [lo, hi] (g_sect g) = (Inr (), b)" "cont" "g' = g\<lparr>g_sect := b\<rparr>"
      using run 2 by (auto simp: fill_section_def krl_sections to_sect_def andthen_def ret_def split: prod.splits sum.splits)
    have "sect_buf b \<and> sshbuf_bytes b = sshbuf_bytes (g_sect g) @ concat (map POKE_U64 [lo, hi])"
      using sect_buf_puts [OF sect, of A POKE_U64 "[lo, hi]" b] b(1) by (simp add: sshbuf_put_int [abs_def])
    then show ?thesis using b(2,3) 2 r lo by (auto simp: pending_def ready_def krl_sections)
  next
    case 3
    then show ?thesis using fill_bitmap [OF run 3 r lo] sect by simp
  qed
qed

lemma gap_sum:
  fixes l :: nat
  assumes "s \<le> l" and "l < x" and "l - s < 208 * k" and "x - l + n \<le> 208" and "l - s \<le> m"
  shows "s \<le> x \<and> x - s + n \<le> 208 * (k + 1) \<and> x - s \<le> m + 208 \<and> n \<le> 208 \<and> l - s \<le> x - s"
proof -
  obtain a b where "l = s + a" "x = l + b" using assms(1,2) by (metis le_iff_add less_imp_le)
  then show ?thesis using assms(3-5) by simp
qed

lemma continue_ready:
  assumes p: "pending k P g" and st: "g_state g \<noteq> KRL_SECTION_CERT_SERIAL_RANGE" and last: "g_last g < lo"
    and n: "g_state g = KRL_SECTION_CERT_SERIAL_BITMAP \<Longrightarrow> unat (lo - g_last g) + n \<le> 208"
  shows "ready k P lo n g"
proof (cases "g_state g = KRL_SECTION_CERT_SERIAL_BITMAP")
  case False
  then show ?thesis using p st by (auto simp: pending_def ready_def)
next
  case True
  let ?s = "unat (g_bitmap_start g)" and ?l = "unat (g_last g)"
  obtain bm where bm: "g_bitmap g = Some bm" "bitmap_ok bm" "sshbuf_bytes (g_sect g) = POKE_U64 (g_bitmap_start g)" "g_bitmap_start g \<noteq> 0"
      "P = bit_serials (g_bitmap_start g) (bits bm)" "?s \<le> ?l" "?l - ?s \<in> bits bm" "bits bm \<subseteq> {.. ?l - ?s}" "?l - ?s < 208 * k"
    using p True by (auto simp: pending_def krl_sections)
  have "?l - ?s \<le> BITMAP_MAX" using bm(7) bitmap_okD(5) [OF bm(2)] by auto
  moreover have lt: "?l < unat lo" using last by (simp add: word_less_nat_alt)
  moreover have "unat lo - ?l + n \<le> 208" using n [OF True] last by (simp add: unat_sub order_less_imp_le)
  ultimately have "?s \<le> unat lo \<and> unat lo - ?s + n \<le> 208 * (k + 1) \<and> unat lo - ?s \<le> BITMAP_MAX + 208 \<and> n \<le> 208 \<and> ?l - ?s \<le> unat lo - ?s"
    using gap_sum [OF bm(6) _ bm(9)] by blast
  moreover from this have "bits bm \<subseteq> {.. unat lo - ?s}" using bm(8) by auto
  ultimately show ?thesis unfolding ready_def using True bm(1-5) by auto
qed

text \<open>
  What has been written: \<open>pre\<close>, the finished sections, and the pending one. Together they stand for the
  serials \<open>S\<close> of the first \<open>k\<close> ranges.
\<close>

definition sects_ok :: "nat \<Rightarrow> csect list \<Rightarrow> bool" where
  "sects_ok k cs \<longleftrightarrow> (\<forall>c \<in> set cs. sect_ok c \<and> string_valid (sect_bytes c) \<and> sect_ids c = {} \<and> (oversized c \<longrightarrow> 78 < k))"

definition written :: "u8 list \<Rightarrow> nat \<Rightarrow> csect list \<Rightarrow> gen \<Rightarrow> bool" where
  "written pre k cs g \<longleftrightarrow>
     sect_buf (g_buf g) \<and> sshbuf_bytes (g_buf g) = pre @ concat (map sect_enc cs) \<and> sect_buf (g_sect g) \<and> sects_ok k cs"

definition gen_inv :: "u8 list \<Rightarrow> nat \<Rightarrow> u64 set \<Rightarrow> gen \<Rightarrow> bool" where
  "gen_inv pre k S g \<longleftrightarrow>
     (\<exists>cs P. written pre k cs g \<and> S = \<Union> (sect_serials ` set cs) \<union> P \<and> (if g_state g = 0 then P = {} else pending k P g))"

lemma written_more: "written pre k cs g \<Longrightarrow> k \<le> k' \<Longrightarrow> g_buf g' = g_buf g \<Longrightarrow> sect_buf (g_sect g') \<Longrightarrow> written pre k' cs g'"
  by (force simp: written_def sects_ok_def)

lemma finish_written:
  assumes run: "finish_section A junk g = (Inr (), g')" and w: "written pre k cs g" and p: "pending k P g"
  obtains c where "written pre k (cs @ [c]) g'" and "sect_serials c = P" and "g_state g' = g_state g"
proof -
  have "sect_buf (g_buf g)" "sect_buf (g_sect g)" using w by (simp_all add: written_def)
  from finish_section_Inr [OF run p this] obtain c where c: "sect_buf (g_buf g')" "sshbuf_bytes (g_buf g') = sshbuf_bytes (g_buf g) @ sect_enc c"
    "sect_buf (g_sect g')" "sect_ok c" "string_valid (sect_bytes c)" "sect_serials c = P" "sect_ids c = {}" "oversized c \<longrightarrow> 78 < k"
    "g_state g' = g_state g" by metis
  then have "written pre k (cs @ [c]) g'" using w by (simp add: written_def sects_ok_def)
  then show thesis using that c(6,9) by blast
qed

lemma start_written:
  assumes run: "start_section A ns lo g = (Inr (), g')" and w: "written pre k cs g" "S = \<Union> (sect_serials ` set cs)" and lo: "lo \<noteq> 0"
    and ns: "ns \<in> {KRL_SECTION_CERT_SERIAL_LIST, KRL_SECTION_CERT_SERIAL_RANGE, KRL_SECTION_CERT_SERIAL_BITMAP}"
      "ns = KRL_SECTION_CERT_SERIAL_BITMAP \<Longrightarrow> n \<le> 208"
  shows "\<exists>cs P. written pre k cs g' \<and> S = \<Union> (sect_serials ` set cs) \<union> P \<and> ready k P lo n g'"
proof -
  have "sect_buf (g_sect g)" using w(1) by (simp add: written_def)
  from start_section_ready [OF run this lo ns, of k] written_more [OF w(1) order_refl, of g'] w(2) show ?thesis
    by (intro exI [of _ cs] exI [of _ "{}"]) simp
qed

lemma finish_prepare:
  assumes fin: "finish_section A junk g = (Inr (), g1)" and run: "(if c then start_section A ns lo else ret ()) (reset_sect A g1) = (Inr (), g')"
    and w: "written pre k cs g" "S = \<Union> (sect_serials ` set cs) \<union> P" "pending k P g" and lo: "lo \<noteq> 0"
    and ns: "ns \<in> {KRL_SECTION_CERT_SERIAL_LIST, KRL_SECTION_CERT_SERIAL_RANGE, KRL_SECTION_CERT_SERIAL_BITMAP}"
      "ns = KRL_SECTION_CERT_SERIAL_BITMAP \<Longrightarrow> n \<le> 208"
    and c: "\<not> c \<Longrightarrow> g_state g = KRL_SECTION_CERT_SERIAL_RANGE"
  shows "\<exists>cs P. written pre k cs g' \<and> S = \<Union> (sect_serials ` set cs) \<union> P \<and> ready k P lo n g'"
proof -
  obtain d where d: "written pre k (cs @ [d]) g1" "sect_serials d = P" "g_state g1 = g_state g" using finish_written [OF fin w(1,3)] by blast
  have r: "sect_buf (sshbuf_reset A (g_sect g1))" "sshbuf_bytes (sshbuf_reset A (g_sect g1)) = []"
    using sect_buf_reset d(1) by (auto simp: written_def)
  have w1: "written pre k (cs @ [d]) (reset_sect A g1)" using written_more [OF d(1) order_refl] r(1) by (simp add: reset_sect_def)
  have S: "S = \<Union> (sect_serials ` set (cs @ [d]))" using w(2) d(2) by auto
  show ?thesis
  proof (cases c)
    case True
    then show ?thesis using start_written [OF _ w1 S lo ns] run by simp
  next
    case False
    then have "g' = reset_sect A g1" using run by (simp add: ret_def)
    moreover from this have "ready k {} lo n g'" using r(2) d(3) c [OF False] by (simp add: ready_def reset_sect_def)
    ultimately show ?thesis using w1 S by blast
  qed
qed

lemma prepare_section:
  assumes run: "andthen (if g_state g \<noteq> 0 \<and> (force \<or> ns \<noteq> g_state g \<or> g_state g = KRL_SECTION_CERT_SERIAL_RANGE)
        then andthen (finish_section A junk) (\<lambda>_ g. ret () (reset_sect A g)) else ret ()) (\<lambda>_.
      if ns \<noteq> g_state g \<or> force then start_section A ns lo else ret ()) g = (Inr (), g')"
    and inv: "gen_inv pre k S g" and lo: "lo \<noteq> 0" "g_state g \<noteq> 0 \<Longrightarrow> g_last g < lo"
    and ns: "ns \<in> {KRL_SECTION_CERT_SERIAL_LIST, KRL_SECTION_CERT_SERIAL_RANGE, KRL_SECTION_CERT_SERIAL_BITMAP}"
      "ns = KRL_SECTION_CERT_SERIAL_BITMAP \<Longrightarrow> n \<le> 208"
      "ns = KRL_SECTION_CERT_SERIAL_BITMAP \<Longrightarrow> \<not> force \<Longrightarrow> g_state g = ns \<Longrightarrow> unat (lo - g_last g) + n \<le> 208"
  shows "\<exists>cs P. written pre k cs g' \<and> S = \<Union> (sect_serials ` set cs) \<union> P \<and> ready k P lo n g'"
proof -
  obtain cs P where i: "written pre k cs g" "S = \<Union> (sect_serials ` set cs) \<union> P" "if g_state g = 0 then P = {} else pending k P g"
    using inv by (auto simp: gen_inv_def)
  consider (fresh) "g_state g = 0" | (finish) "g_state g \<noteq> 0" "force \<or> ns \<noteq> g_state g \<or> g_state g = KRL_SECTION_CERT_SERIAL_RANGE"
    | (go_on) "g_state g \<noteq> 0" "\<not> force" "ns = g_state g" "g_state g \<noteq> KRL_SECTION_CERT_SERIAL_RANGE" by blast
  then show ?thesis
  proof cases
    case fresh
    then have "ns \<noteq> g_state g" using ns(1) by (auto simp: krl_sections)
    then show ?thesis using start_written [OF _ i(1) _ lo(1) ns(1,2)] run i(2,3) fresh by simp
  next
    case finish
    then obtain g1 where "finish_section A junk g = (Inr (), g1)" "(if ns \<noteq> g_state g \<or> force then start_section A ns lo else ret ()) (reset_sect A g1) = (Inr (), g')"
      using run by (auto simp: ret_def elim!: andthen_InrE)
    from finish_prepare [OF this i(1,2) _ lo(1) ns(1,2)] i(3) finish show ?thesis by auto
  next
    case go_on
    then have "g' = g" using run by (simp add: ret_def)
    moreover have "pending k P g" using i(3) go_on(1) by simp
    from continue_ready [OF this go_on(4) lo(2) [OF go_on(1)]] ns(3) go_on(2,3) have "ready k P lo n g" by metis
    ultimately show ?thesis using i(1,2) by blast
  qed
qed

lemma gen_serial_Inr:
  assumes run: "gen_serial A junk (lo, hi) nrs g = (Inr cont, g')" and inv: "gen_inv pre k S g"
    and lo: "lo \<le> hi" "lo \<noteq> 0" "g_state g \<noteq> 0 \<Longrightarrow> g_last g < lo"
  shows "cont \<and> gen_inv pre (k + 1) (S \<union> {lo .. hi}) g' \<and> g_last g' = hi \<and> g_state g' \<noteq> 0"
proof -
  let ?gap = "case nrs of None \<Rightarrow> 0 | Some n \<Rightarrow> fst n - hi" and ?contig = "1 + (hi - lo)"
  obtain ns force where c: "choose_next_state (g_state g) ?contig (nrs = None) (if g_state g = 0 then 0 else lo - g_last g) ?gap = (ns, force)"
    by fastforce
  note ch = choose_next_state_cases [OF c, unfolded unat_contig [OF lo(1,2)]]
  let ?m = "andthen (if g_state g \<noteq> 0 \<and> (force \<or> ns \<noteq> g_state g \<or> g_state g = KRL_SECTION_CERT_SERIAL_RANGE)
        then andthen (finish_section A junk) (\<lambda>_ g. ret () (reset_sect A g)) else ret ()) (\<lambda>_.
      if ns \<noteq> g_state g \<or> force then start_section A ns lo else ret ())"
  have "andthen ?m (\<lambda>_. andthen (fill_section A (lo, hi) ?contig) (\<lambda>cont g.
      if cont then ret True (g\<lparr>g_last := hi\<rparr>) else ret False g)) g = (Inr cont, g')"
    using run unfolding gen_serial_def Let_def fst_conv snd_conv c prod.case andthen_assoc .
  then obtain u g1 where g1: "?m g = (Inr u, g1)" and f1: "andthen (fill_section A (lo, hi) ?contig) (\<lambda>cont g.
      if cont then ret True (g\<lparr>g_last := hi\<rparr>) else ret False g) g1 = (Inr cont, g')" by (rule andthen_InrE)
  from f1 obtain d g2 where g2: "fill_section A (lo, hi) ?contig g1 = (Inr d, g2)"
    and g': "(if d then ret True (g2\<lparr>g_last := hi\<rparr>) else ret False g2) = (Inr cont :: ssherr + bool, g')" by (rule andthen_InrE)
  have gap: "unat (lo - g_last g) + (unat hi - unat lo + 1) \<le> 208" if "ns = KRL_SECTION_CERT_SERIAL_BITMAP" "\<not> force" "g_state g = ns"
    using ch(4) [OF that(1,2)] that(1,3) by (simp add: krl_sections)
  obtain cs P where w: "written pre k cs g1" "S = \<Union> (sect_serials ` set cs) \<union> P" "ready k P lo (unat hi - unat lo + 1) g1"
    using prepare_section [OF g1 [unfolded unit_eq [of u]] inv lo(2,3) ch(1,3) gap] by blast
  have "sect_buf (g_sect g1)" using w(1) by (simp add: written_def)
  note f = fill_section_ready [OF g2 w(3) lo(1,2) this]
  have w2: "written pre (k + 1) cs (g2\<lparr>g_last := hi\<rparr>)" using written_more [OF w(1)] f by simp
  have st: "g_state g2 \<noteq> 0" using f pending_state by fastforce
  have "S \<union> {lo .. hi} = \<Union> (sect_serials ` set cs) \<union> (P \<union> {lo .. hi})" using w(2) by auto
  then have "gen_inv pre (k + 1) (S \<union> {lo .. hi}) (g2\<lparr>g_last := hi\<rparr>)"
    unfolding gen_inv_def using w2 f st by (intro exI [of _ cs] exI [of _ "P \<union> {lo .. hi}"]) simp
  then show ?thesis using g' f st by (auto simp: ret_def)
qed

subsection \<open>One authority\<close>

lemma gen_serials_Inr:
  "gen_serials A junk rs g = (Inr cont, g') \<Longrightarrow> gen_inv pre k S g \<Longrightarrow> ranges_ok rs \<Longrightarrow> 0 \<notin> serials rs \<Longrightarrow>
   (g_state g \<noteq> 0 \<Longrightarrow> \<forall>r \<in> set rs. g_last g < fst r) \<Longrightarrow> cont \<and> gen_inv pre (k + length rs) (S \<union> serials rs) g'"
proof (induction rs arbitrary: g k S)
  case Nil
  then show ?case by (simp add: ret_def)
next
  case (Cons r rs)
  obtain lo hi where r: "r = (lo, hi)" by fastforce
  have le: "lo \<le> hi" "ranges_ok rs" "\<forall>r \<in> set rs. apart (lo, hi) r" using Cons.prems(3) r by (simp_all add: ranges_ok_Cons)
  have after: "\<forall>r \<in> set rs. hi < fst r"
  proof
    fix x assume "x \<in> set rs"
    then have "unat hi + 1 < unat (fst x)" using le(3) by (auto simp: apart_def)
    then show "hi < fst x" by (simp add: word_less_nat_alt)
  qed
  have nz: "lo \<noteq> 0" "0 \<notin> serials rs" using Cons.prems(4) le(1) r by auto
  from Cons.prems(1) obtain d g1 where g1: "gen_serial A junk (lo, hi) (case rs of [] \<Rightarrow> None | n # _ \<Rightarrow> Some n) g = (Inr d, g1)"
    and rest: "(if d then gen_serials A junk rs else ret False) g1 = (Inr cont, g')"
    unfolding gen_serials.simps r by (rule andthen_InrE)
  have "g_state g \<noteq> 0 \<Longrightarrow> g_last g < lo" using Cons.prems(5) r by simp
  note s = gen_serial_Inr [OF g1 Cons.prems(2) le(1) nz(1) this]
  have "cont \<and> gen_inv pre (k + 1 + length rs) (S \<union> {lo .. hi} \<union> serials rs) g'"
    using Cons.IH [of g1 "k + 1" "S \<union> {lo .. hi}"] rest s le(2) after nz(2) by simp
  then show ?case by (simp add: r Un_assoc)
qed

lemma sect_buf_put_strings:
  "sect_buf b \<Longrightarrow> put_all (sshbuf_put_string A) vs b = (Inr (), b') \<Longrightarrow>
   sect_buf b' \<and> sshbuf_bytes b' = sshbuf_bytes b @ concat (map string_enc vs) \<and> (\<forall>v \<in> set vs. string_valid v)"
proof (induction vs arbitrary: b)
  case (Cons v vs)
  from Cons.prems(2) obtain b1 where b1: "sshbuf_put_string A v b = (Inr (), b1)" "put_all (sshbuf_put_string A) vs b1 = (Inr (), b')"
    by (auto elim!: andthen_InrE)
  have "sshbuf_ok b" using Cons.prems(1) by (simp add: sect_buf_def)
  note p = put_string_Inr [OF this b1(1)]
  show ?case using Cons.IH [OF _ b1(2)] sect_buf_put [OF Cons.prems(1) p(2)] p(1) by simp
qed (simp add: ret_def)

lemma gen_key_ids_Inr:
  assumes run: "gen_key_ids A ids g = (Inr (), g')" and w: "written pre k cs g" and ids: "\<forall>i \<in> set ids. 0 \<notin> set i"
  obtains cs' where "sect_buf (g_buf g')" and "sshbuf_bytes (g_buf g') = pre @ concat (map sect_enc cs')"
    and "\<forall>c \<in> set cs'. sect_ok c \<and> string_valid (sect_bytes c) \<and> (oversized c \<longrightarrow> 78 < k)"
    and "\<Union> (sect_serials ` set cs') = \<Union> (sect_serials ` set cs)" and "\<Union> (sect_ids ` set cs') = set ids"
proof -
  let ?b = "sshbuf_reset A (g_sect g)"
  have cstr: "(\<lambda>s. sshbuf_put_cstring A (Some s)) = sshbuf_put_string A" by (rule ext) (simp add: sshbuf_put_cstring_def)
  have r: "sect_buf ?b" "sshbuf_bytes ?b = []" using sect_buf_reset w by (auto simp: written_def)
  have buf: "sect_buf (g_buf g)" "sshbuf_bytes (g_buf g) = pre @ concat (map sect_enc cs)" using w by (simp_all add: written_def)
  obtain u g1 where g1: "to_sect (put_all (sshbuf_put_string A) ids) (reset_sect A g) = (Inr u, g1)"
    and rest: "(if sshbuf_len (g_sect g1) \<noteq> 0 then andthen (to_buf (sshbuf_put_u8 A KRL_SECTION_CERT_KEY_ID)) (\<lambda>_ g.
          to_buf (sshbuf_put_stringb A (Some (g_sect g))) g) g1 else ret () g1) = (Inr (), g')"
    using run unfolding gen_key_ids_def cstr by (rule andthen_InrE) (use that in simp)
  obtain b1 where b1: "put_all (sshbuf_put_string A) ids ?b = (Inr (), b1)" "g1 = g\<lparr>g_sect := b1\<rparr>"
    using g1 by (auto simp: to_sect_def reset_sect_def split: prod.splits)
  have s: "sect_buf b1" "sshbuf_bytes b1 = concat (map string_enc ids)" "\<forall>v \<in> set ids. string_valid v"
    using sect_buf_put_strings [OF r(1) b1(1)] r(2) by simp_all
  show thesis
  proof (cases "sshbuf_len b1 = 0")
    case True
    then have "concat (map string_enc ids) = []" using s(1,2) length_sshbuf_bytes [of b1] by (simp add: sect_buf_def)
    then have "ids = []" by (cases ids) (auto simp: string_enc_def POKE_U32_def)
    then show thesis using that [of cs] rest b1(2) True w by (auto simp: ret_def written_def sects_ok_def)
  next
    case False
    then obtain b2 where b2: "andthen (sshbuf_put_u8 A KRL_SECTION_CERT_KEY_ID) (\<lambda>_. sshbuf_put_stringb A (Some b1)) (g_buf g) = (Inr (), b2)"
      "g_buf g' = b2"
      using rest b1(2) by (auto simp: to_buf_def andthen_def split: prod.splits sum.splits)
    have "sshbuf_ok (g_buf g)" "sshbuf_ok b1" using buf(1) s(1) by (simp_all add: sect_buf_def)
    note p = put_section [OF this b2(1)]
    show thesis
    proof (rule that [of "cs @ [Ids ids]"])
      show "sshbuf_bytes (g_buf g') = pre @ concat (map sect_enc (cs @ [Ids ids]))"
        using p(3) b2(2) buf(2) s(2) by (simp add: sect_enc_def [of "Ids ids"])
    qed (use p(2) [OF buf(1)] p(4) b2(2) w s ids in \<open>auto simp: written_def sects_ok_def\<close>)
  qed
qed

definition entry_parts :: "'k key_ops \<Rightarrow> 'k revoked_certs \<Rightarrow> u8 list \<Rightarrow> csect list \<Rightarrow> bool" where
  "entry_parts K rc kb cs \<longleftrightarrow>
     (case ca_key rc of None \<Rightarrow> kb = [] | Some k \<Rightarrow> sshkey_to_blob K k = Inr kb) \<and> string_valid kb \<and>
     (\<forall>c \<in> set cs. sect_ok c \<and> string_valid (sect_bytes c) \<and> (oversized c \<longrightarrow> 78 < length (revoked_serials rc))) \<and>
     \<Union> (sect_serials ` set cs) = serials (revoked_serials rc) \<and> \<Union> (sect_ids ` set cs) = set (revoked_key_ids rc)"

lemma put_ca_key:
  assumes "(case ca_key rc of None \<Rightarrow> sshbuf_put_string A [] | Some k \<Rightarrow> sshkey_puts K A k) b = (Inr (), b')" and "sshbuf_ok b"
  obtains kb where "(case ca_key rc of None \<Rightarrow> kb = [] | Some k \<Rightarrow> sshkey_to_blob K k = Inr kb)" and "sshbuf_put_string A kb b = (Inr (), b')"
proof (cases "ca_key rc")
  case None
  then show thesis using that [of "[]"] assms(1) by simp
next
  case (Some k)
  then obtain kb where "sshkey_to_blob K k = Inr kb" "sshbuf_put_string A kb b = (Inr (), b')"
    using assms(1) by (auto simp: sshkey_puts_def throw_def split: if_splits sum.splits)
  then show thesis using that [of kb] Some by simp
qed

lemma flush_last:
  assumes run: "(if g_state g \<noteq> 0 then finish_section A junk g else ret () g) = (Inr (), g')" and inv: "gen_inv pre k S g"
  obtains cs where "written pre k cs g'" and "S = \<Union> (sect_serials ` set cs)"
proof -
  obtain cs P where i: "written pre k cs g" "S = \<Union> (sect_serials ` set cs) \<union> P" "if g_state g = 0 then P = {} else pending k P g"
    using inv by (auto simp: gen_inv_def)
  show thesis
  proof (cases "g_state g = 0")
    case True
    then show thesis using that [of cs] i run by (simp add: ret_def)
  next
    case False
    then have "finish_section A junk g = (Inr (), g')" "pending k P g" using run i(3) by simp_all
    from finish_written [OF this(1) i(1) this(2)] obtain c where "written pre k (cs @ [c]) g'" "sect_serials c = P" by metis
    then show thesis using that [of "cs @ [c]"] i(2) by auto
  qed
qed

text \<open>The serials and the identifiers.\<close>

definition gen_body :: "allocator \<Rightarrow> (nat \<Rightarrow> u8) \<Rightarrow> 'k revoked_certs \<Rightarrow> (ssherr, gen, unit) run" where
  "gen_body A junk rc = andthen (gen_serials A junk (revoked_serials rc)) (\<lambda>cont.
     if \<not> cont then ret ()
     else andthen (\<lambda>g. if g_state g \<noteq> 0 then finish_section A junk g else ret () g) (\<lambda>_.
            gen_key_ids A (revoked_key_ids rc)))"

lemma gen_body_Inr:
  assumes run: "gen_body A junk rc g = (Inr (), g')" and w: "written pre 0 [] g" "g_state g = 0" and wf: "certs_wf rc"
  obtains cs where "sect_buf (g_buf g')" and "sshbuf_bytes (g_buf g') = pre @ concat (map sect_enc cs)"
    and "\<forall>c \<in> set cs. sect_ok c \<and> string_valid (sect_bytes c) \<and> (oversized c \<longrightarrow> 78 < length (revoked_serials rc))"
    and "\<Union> (sect_serials ` set cs) = serials (revoked_serials rc)" and "\<Union> (sect_ids ` set cs) = set (revoked_key_ids rc)"
proof -
  let ?k = "length (revoked_serials rc)"
  from run [unfolded gen_body_def] obtain d g1 where g1: "gen_serials A junk (revoked_serials rc) g = (Inr d, g1)"
    and rest: "(if \<not> d then ret ()
         else andthen (\<lambda>g. if g_state g \<noteq> 0 then finish_section A junk g else ret () g) (\<lambda>_.
                gen_key_ids A (revoked_key_ids rc))) g1 = (Inr (), g')" by (rule andthen_InrE)
  have inv: "gen_inv pre 0 {} g" using w unfolding gen_inv_def by (intro exI [of _ "[]"] exI [of _ "{}"]) simp
  have rs: "ranges_ok (revoked_serials rc)" "0 \<notin> serials (revoked_serials rc)" "\<forall>i \<in> set (revoked_key_ids rc). 0 \<notin> set i"
    using wf by (simp_all add: certs_wf_def)
  have d: "d" "gen_inv pre ?k (serials (revoked_serials rc)) g1" using gen_serials_Inr [OF g1 inv rs(1,2)] w(2) by simp_all
  from rest d(1) have "andthen (\<lambda>g. if g_state g \<noteq> 0 then finish_section A junk g else ret () g) (\<lambda>_.
      gen_key_ids A (revoked_key_ids rc)) g1 = (Inr (), g')" by simp
  then obtain u g2 where g2: "(if g_state g1 \<noteq> 0 then finish_section A junk g1 else ret () g1) = (Inr u, g2)"
    and ids: "gen_key_ids A (revoked_key_ids rc) g2 = (Inr (), g')" by (rule andthen_InrE)
  obtain cs where cs: "written pre ?k cs g2" "serials (revoked_serials rc) = \<Union> (sect_serials ` set cs)"
    using flush_last [OF g2 [unfolded unit_eq [of u]] d(2)] by blast
  show thesis by (rule gen_key_ids_Inr [OF ids cs(1) rs(3)]) (rule that, assumption+, simp only: cs(2), assumption)
qed

lemma revoked_certs_generate_Inr:
  assumes run: "revoked_certs_generate K A junk rc buf = (Inr (), buf')" and buf: "sect_buf buf" and wf: "certs_wf rc"
  obtains kb cs where "entry_parts K rc kb cs" and "sect_buf buf'" and "sshbuf_bytes buf' = sshbuf_bytes buf @ authority_bytes kb cs"
proof -
  obtain sect where sect: "sshbuf_new A = Some sect" using run by (auto simp: revoked_certs_generate_def split: option.splits)
  define g where "g = \<lparr>g_buf = buf, g_sect = sect, g_state = 0, g_last = 0, g_bitmap_start = 0, g_bitmap = None\<rparr>"
  let ?ca = "case ca_key rc of None \<Rightarrow> sshbuf_put_string A [] | Some k \<Rightarrow> sshkey_puts K A k"
  obtain g' where g': "g_buf g' = buf'" and go: "andthen (to_buf ?ca) (\<lambda>_. andthen (to_buf (sshbuf_put_string A [])) (\<lambda>_. gen_body A junk rc)) g = (Inr (), g')"
    using run unfolding revoked_certs_generate_def sect option.case gen_body_def [symmetric] g_def [symmetric] by (auto split: prod.splits)
  from go obtain u g1 where g1: "to_buf ?ca g = (Inr u, g1)"
    and go1: "andthen (to_buf (sshbuf_put_string A [])) (\<lambda>_. gen_body A junk rc) g1 = (Inr (), g')" by (rule andthen_InrE)
  from go1 obtain v g2 where g2: "to_buf (sshbuf_put_string A []) g1 = (Inr v, g2)" and body: "gen_body A junk rc g2 = (Inr (), g')" by (rule andthen_InrE)
  obtain b1 where b1: "?ca buf = (Inr (), b1)" "g1 = g\<lparr>g_buf := b1\<rparr>" using g1 by (auto simp: to_buf_def g_def split: prod.splits)
  obtain b2 where b2: "sshbuf_put_string A [] b1 = (Inr (), b2)" "g2 = g\<lparr>g_buf := b2\<rparr>" using g2 b1(2) by (auto simp: to_buf_def split: prod.splits)
  have ok: "sshbuf_ok buf" using buf by (simp add: sect_buf_def)
  obtain kb where kb: "(case ca_key rc of None \<Rightarrow> kb = [] | Some k \<Rightarrow> sshkey_to_blob K k = Inr kb)" "sshbuf_put_string A kb buf = (Inr (), b1)"
    using put_ca_key [OF b1(1) ok] by blast
  let ?pre = "sshbuf_bytes buf @ string_enc kb @ string_enc []"
  have "put_all (sshbuf_put_string A) [kb, []] buf = (Inr (), b2)" using kb(2) b2(1) by (simp add: andthen_def ret_def)
  from sect_buf_put_strings [OF buf this] have e2: "sect_buf b2" "sshbuf_bytes b2 = ?pre" "string_valid kb" by simp_all
  have f2: "g_buf g2 = b2" "g_sect g2 = sect" "g_state g2 = 0" using b2(2) by (simp_all add: g_def)
  have w: "written ?pre 0 [] g2" unfolding written_def sects_ok_def f2 using e2 sect_buf_new [OF sect] by simp
  from gen_body_Inr [OF body w f2(3) wf] obtain cs where cs: "sect_buf (g_buf g')" "sshbuf_bytes (g_buf g') = ?pre @ concat (map sect_enc cs)"
    "\<forall>c \<in> set cs. sect_ok c \<and> string_valid (sect_bytes c) \<and> (oversized c \<longrightarrow> 78 < length (revoked_serials rc))"
    "\<Union> (sect_serials ` set cs) = serials (revoked_serials rc)" "\<Union> (sect_ids ` set cs) = set (revoked_key_ids rc)" by metis
  show thesis
    using that [of kb cs] cs kb(1) e2(3) g' by (simp add: entry_parts_def authority_bytes_def)
qed

end
