(* ===== verification/Krl_File.thy ===== *)
theory Krl_File
  imports Krl_Gen
begin

text \<open>
  The file that is written for a revocation list, and what is read back from it: the same header, and the
  same entries, unless a bitmap has become too large for the reader.
\<close>

subsection \<open>The parts of the file\<close>

lemma put_certs_Inr:
  assumes run: "put_certs K A junk rc (buf, sect) = (Inr (), (buf', sect'))" and buf: "sect_buf buf" and sect: "sect_buf sect" and wf: "certs_wf rc"
  shows "\<exists>e. fst e = rc \<and> entry_ok K e \<and> sect_buf buf' \<and> sect_buf sect' \<and> sshbuf_bytes buf' = sshbuf_bytes buf @ entry_enc e"
proof -
  have r: "sect_buf (sshbuf_reset A sect)" "sshbuf_bytes (sshbuf_reset A sect) = []" using sect_buf_reset [OF sect] by simp_all
  have g: "revoked_certs_generate K A junk rc (sshbuf_reset A sect) = (Inr (), sect')"
    and p: "andthen (sshbuf_put_u8 A KRL_SECTION_CERTIFICATES) (\<lambda>_. sshbuf_put_stringb A (Some sect')) buf = (Inr (), buf')"
    using run by (auto simp: put_certs_def split: prod.splits sum.splits)
  obtain kb cs where e: "entry_parts K rc kb cs" "sect_buf sect'" "sshbuf_bytes sect' = authority_bytes kb cs"
    using revoked_certs_generate_Inr [OF g r(1) wf] r(2) by auto
  have "sshbuf_ok buf" "sshbuf_ok sect'" using buf e(2) by (simp_all add: sect_buf_def)
  note s = put_section [OF this p]
  have "entry_ok K (rc, kb, cs)" using e(1,3) s(4) by (auto simp: entry_parts_def)
  then show ?thesis using s(2) [OF buf] s(3) e(2,3) by (intro exI [of _ "(rc, kb, cs)"]) simp
qed

lemma put_all_certs:
  "put_all (put_certs K A junk) rcs (buf, sect) = (Inr (), (buf', sect')) \<Longrightarrow> sect_buf buf \<Longrightarrow> sect_buf sect \<Longrightarrow> \<forall>rc \<in> set rcs. certs_wf rc \<Longrightarrow>
   \<exists>es. map fst es = rcs \<and> (\<forall>e \<in> set es. entry_ok K e) \<and> sect_buf buf' \<and> sect_buf sect' \<and> sshbuf_bytes buf' = sshbuf_bytes buf @ concat (map entry_enc es)"
proof (induction rcs arbitrary: buf sect)
  case Nil
  then show ?case by (simp add: ret_def)
next
  case (Cons rc rcs)
  from Cons.prems(1) obtain b1 s1 where 1: "put_certs K A junk rc (buf, sect) = (Inr (), (b1, s1))" "put_all (put_certs K A junk) rcs (b1, s1) = (Inr (), (buf', sect'))"
    by (auto elim!: andthen_InrE)
  obtain e where e: "fst e = rc" "entry_ok K e" "sect_buf b1" "sect_buf s1" "sshbuf_bytes b1 = sshbuf_bytes buf @ entry_enc e"
    using put_certs_Inr [OF 1(1) Cons.prems(2,3)] Cons.prems(4) by (metis list.set_intros(1))
  obtain es where "map fst es = rcs" "\<forall>e \<in> set es. entry_ok K e" "sect_buf buf'" "sect_buf sect'"
    "sshbuf_bytes buf' = sshbuf_bytes b1 @ concat (map entry_enc es)" using Cons.IH [OF 1(2) e(3,4)] Cons.prems(4) by auto
  then show ?case using e by (intro exI [of _ "e # es"]) simp
qed

lemma put_blobs_Inr:
  assumes run: "put_blobs A t vs (buf, sect) = (Inr (), (buf', sect'))" and buf: "sect_buf buf" and sect: "sect_buf sect"
  shows "sect_buf buf'" and "sect_buf sect'" and "sshbuf_bytes buf' = sshbuf_bytes buf @ blobs_enc t vs" and "blobs_valid vs"
proof -
  have r: "sect_buf (sshbuf_reset A sect)" "sshbuf_bytes (sshbuf_reset A sect) = []" using sect_buf_reset [OF sect] by simp_all
  have p: "put_all (sshbuf_put_string A) vs (sshbuf_reset A sect) = (Inr (), sect')"
    and q: "if sshbuf_len sect' \<noteq> 0 then andthen (sshbuf_put_u8 A t) (\<lambda>_. sshbuf_put_stringb A (Some sect')) buf = (Inr (), buf') else buf' = buf"
    using run by (auto simp: put_blobs_def split: prod.splits sum.splits if_splits)
  have s: "sect_buf sect'" "sshbuf_bytes sect' = concat (map string_enc vs)" "\<forall>v \<in> set vs. string_valid v"
    using sect_buf_put_strings [OF r(1) p] r(2) by simp_all
  then show "sect_buf sect'" by simp
  have ok: "sshbuf_ok buf" "sshbuf_ok sect'" using buf s(1) by (simp_all add: sect_buf_def)
  have "sect_buf buf' \<and> sshbuf_bytes buf' = sshbuf_bytes buf @ blobs_enc t vs \<and> blobs_valid vs"
  proof (cases "vs = []")
    case True
    then have "sshbuf_len sect' = 0" using s(2) length_sshbuf_bytes [OF ok(2)] by simp
    then show ?thesis using q buf True by (simp add: blobs_enc_def blobs_valid_def string_valid_def)
  next
    case False
    then have "sshbuf_len sect' \<noteq> 0" using s(2) length_sshbuf_bytes [OF ok(2)] by (cases vs) (auto simp: string_enc_def POKE_U32_def)
    then have "andthen (sshbuf_put_u8 A t) (\<lambda>_. sshbuf_put_stringb A (Some sect')) buf = (Inr (), buf')" using q by simp
    from put_section [OF ok this] show ?thesis using buf s False by (simp add: blobs_enc_def blobs_valid_def)
  qed
  then show "sect_buf buf'" "sshbuf_bytes buf' = sshbuf_bytes buf @ blobs_enc t vs" "blobs_valid vs" by simp_all
qed

definition comment_bytes :: "'k ssh_krl \<Rightarrow> u8 list" where
  "comment_bytes krl = (case comment krl of None \<Rightarrow> [] | Some c \<Rightarrow> c)"

lemma put_header_Inr:
  assumes run: "put_krl_header A krl buf = (Inr (), buf')" and buf: "sect_buf buf" "sshbuf_bytes buf = []"
  shows "sect_buf buf'" and "sshbuf_bytes buf' = header_enc (krl_version krl) (generated_date krl) (krl_flags krl) (comment_bytes krl)"
    and "string_valid (comment_bytes krl)"
proof -
  have put: "sshbuf_put_cstring A (comment krl) = sshbuf_put_string A (comment_bytes krl)" by (simp add: sshbuf_put_cstring_def comment_bytes_def)
  obtain b where b: "put_all (sshbuf_put A) [KRL_MAGIC, POKE_U32 KRL_FORMAT_VERSION, POKE_U64 (krl_version krl), POKE_U64 (generated_date krl), POKE_U64 (krl_flags krl)]
      buf = (Inr (), b)" "put_all (sshbuf_put_string A) [[], comment_bytes krl] b = (Inr (), buf')"
    using run by (auto simp: put_krl_header_def put sshbuf_put_int ret_def andthen_def split: prod.splits sum.splits)
  have h: "sect_buf b" "sshbuf_bytes b = KRL_MAGIC @ POKE_U32 KRL_FORMAT_VERSION @ POKE_U64 (krl_version krl) @ POKE_U64 (generated_date krl) @ POKE_U64 (krl_flags krl)"
    using sect_buf_puts [of buf A "\<lambda>x. x", OF buf(1) b(1)] buf(2) by simp_all
  from sect_buf_put_strings [OF h(1) b(2)] show "sect_buf buf'" "string_valid (comment_bytes krl)"
    "sshbuf_bytes buf' = header_enc (krl_version krl) (generated_date krl) (krl_flags krl) (comment_bytes krl)"
    using h(2) by (simp_all add: header_enc_def)
qed

lemma to_blob_Inr:
  assumes run: "ssh_krl_to_blob K A junk now (krl, buf) = (Inr (), (krl1, out))" and buf: "sect_buf buf" "sshbuf_bytes buf = []" and wf: "krl_wf K krl"
  obtains es where "map fst es = revoked_cas krl" and "\<forall>e \<in> set es. entry_ok K e" and "sect_buf out" and "string_valid (comment_bytes krl)"
    and "sshbuf_bytes out = header_enc (krl_version krl) (generated_date krl1) (krl_flags krl) (comment_bytes krl) @ concat (map entry_enc es) @
      blobs_enc KRL_SECTION_EXPLICIT_KEY (revoked_keys krl) @ blobs_enc KRL_SECTION_FINGERPRINT_SHA1 (revoked_sha1s krl) @
      blobs_enc KRL_SECTION_FINGERPRINT_SHA256 (revoked_sha256s krl) @ []"
    and "blobs_valid (revoked_keys krl)" and "blobs_valid (revoked_sha1s krl)" and "blobs_valid (revoked_sha256s krl)"
proof -
  define k where "k = (if generated_date krl = 0 then krl\<lparr>generated_date := now\<rparr> else krl)"
  have k: "revoked_cas k = revoked_cas krl" "revoked_keys k = revoked_keys krl" "revoked_sha1s k = revoked_sha1s krl" "revoked_sha256s k = revoked_sha256s krl"
    "krl_version k = krl_version krl" "krl_flags k = krl_flags krl" "comment_bytes k = comment_bytes krl" by (simp_all add: k_def comment_bytes_def)
  obtain sect b0 r where sect: "sshbuf_new A = Some sect" and h: "put_krl_header A k buf = (Inr (), b0)" and k1: "krl1 = k" and
    body: "andthen (put_all (put_certs K A junk) (revoked_cas krl)) (\<lambda>_. andthen (put_blobs A KRL_SECTION_EXPLICIT_KEY (revoked_keys krl)) (\<lambda>_.
      andthen (put_blobs A KRL_SECTION_FINGERPRINT_SHA1 (revoked_sha1s krl)) (\<lambda>_.
        put_blobs A KRL_SECTION_FINGERPRINT_SHA256 (revoked_sha256s krl)))) (b0, sect) = (Inr (), (out, r))"
    using run unfolding ssh_krl_to_blob_def Let_def fst_conv snd_conv k_def [symmetric] k by (auto split: option.splits prod.splits sum.splits)
  from body obtain b1 s1 b2 s2 b3 s3 where
    1: "put_all (put_certs K A junk) (revoked_cas krl) (b0, sect) = (Inr (), (b1, s1))" and
    2: "put_blobs A KRL_SECTION_EXPLICIT_KEY (revoked_keys krl) (b1, s1) = (Inr (), (b2, s2))" and
    3: "put_blobs A KRL_SECTION_FINGERPRINT_SHA1 (revoked_sha1s krl) (b2, s2) = (Inr (), (b3, s3))" and
    4: "put_blobs A KRL_SECTION_FINGERPRINT_SHA256 (revoked_sha256s krl) (b3, s3) = (Inr (), (out, r))"
    by (auto elim!: andthen_InrE)
  note h = put_header_Inr [OF h buf, unfolded k]
  have "sect_buf sect" using sect_buf_new [OF sect] by simp
  moreover have "\<forall>rc \<in> set (revoked_cas krl). certs_wf rc" using wf by (simp add: krl_wf_def)
  ultimately obtain es where es: "map fst es = revoked_cas krl" "\<forall>e \<in> set es. entry_ok K e" "sect_buf b1" "sect_buf s1"
    "sshbuf_bytes b1 = sshbuf_bytes b0 @ concat (map entry_enc es)" using put_all_certs [OF 1 h(1)] by blast
  note p2 = put_blobs_Inr [OF 2 es(3,4)]
  note p3 = put_blobs_Inr [OF 3 p2(1,2)]
  note p4 = put_blobs_Inr [OF 4 p3(1,2)]
  show thesis
    using that [OF es(1,2) p4(1) h(3) _ p2(4) p3(4) p4(4)] h(2) es(5) p2(3) p3(3) p4(3) k1 by simp
qed

subsection \<open>What a list says\<close>

lemma said_find:
  assumes "keys_ok K" and "sorted_wrt (\<lambda>a b. \<not> ca_eq K a b) (map ca_key rcs)"
  shows "said K f rcs ca = (case find (same_ca K ca) rcs of None \<Rightarrow> {} | Some rc \<Rightarrow> f rc)"
  using assms(2)
proof (induction rcs)
  case Nil
  then show ?case by (simp add: said_def)
next
  case (Cons rc rcs)
  show ?case
  proof (cases "ca_eq K (ca_key rc) ca")
    case True
    then have "\<not> ca_eq K (ca_key r) ca" if "r \<in> set rcs" for r
      using Cons.prems that ca_eq_equiv [OF assms(1)] by (metis (no_types, lifting) list.set_map list.simps(9) rev_image_eqI sorted_wrt.simps(2))
    then have "said K f rcs ca = {}" by (auto simp: said_def)
    then show ?thesis using True by (simp add: said_Cons same_ca_eq)
  qed (use Cons in \<open>simp add: said_Cons same_ca_eq\<close>)
qed

lemma said_view:
  assumes "keys_ok K" and "krl_wf K krl"
  shows "said K rc_serials (revoked_cas krl) ca = ca_serials K krl ca" and "said K rc_ids (revoked_cas krl) ca = ca_ids K krl ca"
proof -
  have d: "sorted_wrt (\<lambda>a b. \<not> ca_eq K a b) (map ca_key (revoked_cas krl))" using assms(2) by (simp only: krl_wf_def)
  show "said K rc_serials (revoked_cas krl) ca = ca_serials K krl ca" "said K rc_ids (revoked_cas krl) ca = ca_ids K krl ca"
    unfolding said_find [OF assms(1) d] ca_serials_def ca_ids_def by (rule refl)+
qed

text \<open>The list that is read from the parts of the file.\<close>

lemma read_back:
  assumes env: "reader_env (K :: 'k key_ops) sh A" and blobs: "blobs_ok K" and wf: "krl_wf K krl"
    and es: "map fst es = revoked_cas krl" "\<forall>e \<in> set es. entry_ok K e"
    and vs: "blobs_valid (revoked_keys krl)" "blobs_valid (revoked_sha1s krl)" "blobs_valid (revoked_sha256s krl)"
    and start: "start = empty_krl\<lparr>krl_version := v, generated_date := d, krl_flags := f, comment := c\<rparr>"
  shows "krl_reads K sh A (concat (map entry_enc es) @ blobs_enc KRL_SECTION_EXPLICIT_KEY (revoked_keys krl) @
      blobs_enc KRL_SECTION_FINGERPRINT_SHA1 (revoked_sha1s krl) @ blobs_enc KRL_SECTION_FINGERPRINT_SHA256 (revoked_sha256s krl) @ []) start
    (\<lambda>r krl2. (r = Inr () \<and> krl_same K krl krl2 \<and> krl_version krl2 = v \<and> generated_date krl2 = d \<and> krl_flags krl2 = f \<and> comment krl2 = c) \<or>
       (r = Inl SSH_ERR_BIGNUM_TOO_LARGE \<and> (\<exists>rc \<in> set (revoked_cas krl). 78 < length (revoked_serials rc))))"
    (is "krl_reads K sh A _ start ?P")
proof (rule read_entries [OF env blobs es(2)])
  show "krl_wf K start" by (simp add: start krl_wf_def empty_krl_def)
  have lens: "\<forall>h \<in> set (revoked_sha1s krl). length h = 20" "\<forall>h \<in> set (revoked_sha256s krl). length h = 32" using wf by (simp_all add: krl_wf_def)
  fix krl1 assume "cas_read K (map fst es) start krl1"
  then have c: "cas_read K (revoked_cas krl) start krl1" using es(1) by simp
  obtain cas where cas: "krl1 = start\<lparr>revoked_cas := cas\<rparr>" using c by (auto simp: cas_read_def)
  have views: "ca_serials K krl1 ca = ca_serials K krl ca" "ca_ids K krl1 ca = ca_ids K krl ca" for ca
    using c said_view [OF reader_envD(1) [OF env] wf] by (simp_all add: cas_read_def start ca_serials_def ca_ids_def empty_krl_def)
  show "krl_reads K sh A (blobs_enc KRL_SECTION_EXPLICIT_KEY (revoked_keys krl) @ blobs_enc KRL_SECTION_FINGERPRINT_SHA1 (revoked_sha1s krl) @
      blobs_enc KRL_SECTION_FINGERPRINT_SHA256 (revoked_sha256s krl) @ []) krl1 ?P"
  proof (rule read_blob_lists [OF env vs(1,2) lens(1) vs(3) lens(2)])
    fix krl2 assume "same_blobs krl1 (revoked_keys krl) (revoked_sha1s krl) (revoked_sha256s krl) krl2"
    then obtain x y z where k: "krl2 = krl1\<lparr>revoked_keys := x, revoked_sha1s := y, revoked_sha256s := z\<rparr>"
      "set x = set (revoked_keys krl)" "set y = set (revoked_sha1s krl)" "set z = set (revoked_sha256s krl)"
      by (auto simp: same_blobs_def cas start empty_krl_def)
    have "ca_serials K krl2 ca = ca_serials K krl1 ca" "ca_ids K krl2 ca = ca_ids K krl1 ca" for ca by (simp_all add: k(1) ca_serials_def ca_ids_def)
    then have "krl_same K krl krl2" using views k by (simp add: krl_same_def)
    then show "?P (Inr ()) krl2" by (simp add: k(1) cas start)
  qed
next
  fix krl' assume "\<exists>e \<in> set es. 78 < length (revoked_serials (fst e))"
  then show "?P (Inl SSH_ERR_BIGNUM_TOO_LARGE) krl'" unfolding es(1) [symmetric] by auto
qed

end
