(* ===== verification/Krl_Alternating.thy ===== *)
theory Krl_Alternating
  imports Krl_File
begin

text \<open>
  The lists that revoke every other serial number, on which the writer succeeds: all serials go to one bitmap,
  however many there are.
\<close>

definition alternating :: "nat \<Rightarrow> nat \<Rightarrow> revoked_serial list" where
  "alternating i n = map (\<lambda>j. (of_nat (2 * j + 1), of_nat (2 * j + 1))) [i..<n]"

lemma alternating_Nil: "n \<le> i \<Longrightarrow> alternating i n = []"
  by (simp add: alternating_def)

lemma alternating_Cons: "i < n \<Longrightarrow> alternating i n = (of_nat (2 * i + 1), of_nat (2 * i + 1)) # alternating (Suc i) n"
  by (simp add: alternating_def upt_conv_Cons)

subsection \<open>Buffers with room\<close>

definition roomy :: "nat \<Rightarrow> sshbuf \<Rightarrow> bool" where
  "roomy n b \<longleftrightarrow> sect_buf b \<and> sb_max_size b = SSHBUF_SIZE_MAX \<and> sshbuf_len b \<le> n"

lemma roomy_put:
  assumes "roomy n b" and "n + length bs \<le> SSHBUF_SIZE_MAX" and "never_fails A"
  obtains b' where "sshbuf_put A bs b = (Inr (), b')" and "roomy (n + length bs) b'"
proof -
  have b: "sshbuf_ok b" "sshbuf_writable b" "sshbuf_len b + length bs \<le> sb_max_size b" using assms(1,2) by (auto simp: roomy_def sect_buf_def)
  obtain b' where b': "sshbuf_put A bs b = (Inr (), b')" using sshbuf_put_total [OF b assms(3)] by (metis prod.collapse)
  have s: "sect_buf b'" "sshbuf_bytes b' = sshbuf_bytes b @ bs" using sect_buf_put [OF _ b'] assms(1) by (auto simp: roomy_def)
  have "sb_max_size b' = sb_max_size b" using sshbuf_put_Inr [OF b(1) b'] by (simp add: same_owner_def)
  moreover have "sshbuf_len b' = sshbuf_len b + length bs"
    using s b(1) length_sshbuf_bytes [of b'] length_sshbuf_bytes [of b] by (simp add: sect_buf_def)
  ultimately show thesis using that [OF b'] s(1) assms(1) by (simp add: roomy_def)
qed

lemma roomy_put_string:
  assumes "roomy n b" and "n + length v + 4 \<le> SSHBUF_SIZE_MAX" and "never_fails A"
  obtains b' where "sshbuf_put_string A v b = (Inr (), b')" and "roomy (n + length v + 4) b'"
proof -
  have "n + length (string_enc v) \<le> SSHBUF_SIZE_MAX" using assms(2) by (simp add: string_enc_def)
  from roomy_put [OF assms(1) this assms(3)] obtain b' where b': "sshbuf_put A (string_enc v) b = (Inr (), b')" "roomy (n + length (string_enc v)) b'" by blast
  have "sshbuf_put_string A v b = (Inr (), b')"
    using sshbuf_put_string_eq [of b v A] assms(1,2) b'(1) by (simp add: roomy_def sect_buf_def string_enc_def)
  then show thesis using that b'(2) by (simp add: string_enc_def ac_simps)
qed

lemma roomy_reset: "roomy n b \<Longrightarrow> roomy 0 (sshbuf_reset A b)"
  using sect_buf_reset [of b A] sshbuf_reset_erases(3) [of b A] length_sshbuf_bytes [of "sshbuf_reset A b"]
  by (auto simp: roomy_def sect_buf_def same_owner_def)

lemma roomy_new: "sshbuf_new A = Some b \<Longrightarrow> roomy 0 b"
  using sshbuf_new_ok [of A b] sect_buf_new [of A b] length_sshbuf_bytes [of b] by (auto simp: roomy_def sect_buf_def)

lemma roomy_mono: "roomy n b \<Longrightarrow> n \<le> m \<Longrightarrow> roomy m b"
  by (simp add: roomy_def)

lemma roomy_put_section:
  assumes "roomy n b" and "roomy m sect" and "n + m + 5 \<le> SSHBUF_SIZE_MAX" and "never_fails A"
  obtains b' where "andthen (sshbuf_put_u8 A t) (\<lambda>_. sshbuf_put_stringb A (Some sect)) b = (Inr (), b')" and "roomy (n + m + 5) b'"
proof -
  have seen: "sshbuf_seen sect = sshbuf_bytes sect" "length (sshbuf_bytes sect) \<le> m" using assms(2) by (simp_all add: roomy_def sect_buf_def sshbuf_seen_ok)
  obtain b1 where b1: "sshbuf_put A [t] b = (Inr (), b1)" "roomy (n + 1) b1" using roomy_put [OF assms(1) _ assms(4), of "[t]"] assms(3) by auto
  obtain b2 where b2: "sshbuf_put_string A (sshbuf_bytes sect) b1 = (Inr (), b2)" "roomy (n + 1 + length (sshbuf_bytes sect) + 4) b2"
    using roomy_put_string [OF b1(2) _ assms(4), of "sshbuf_bytes sect"] seen(2) assms(3) by auto
  have "andthen (sshbuf_put_u8 A t) (\<lambda>_. sshbuf_put_stringb A (Some sect)) b = (Inr (), b2)"
    using b1(1) b2(1) seen(1) by (simp add: sshbuf_put_int sshbuf_put_stringb_def andthen_def)
  then show thesis using that roomy_mono [OF b2(2)] seen(2) by simp
qed

subsection \<open>The serials\<close>

lemma costs_alternating:
  "section_costs 0 1 True 0 0 = \<lparr>cost_list = 9, cost_range = 17, cost_bitmap = 10, cost_bitmap_restart = 10\<rparr>"
  "section_costs 0 1 False 0 2 = \<lparr>cost_list = 18, cost_range = 26, cost_bitmap = 10, cost_bitmap_restart = 10\<rparr>"
  "section_costs KRL_SECTION_CERT_SERIAL_BITMAP 1 True 2 0 = \<lparr>cost_list = 9, cost_range = 17, cost_bitmap = 1, cost_bitmap_restart = 10\<rparr>"
  "section_costs KRL_SECTION_CERT_SERIAL_BITMAP 1 False 2 2 = \<lparr>cost_list = 18, cost_range = 26, cost_bitmap = 1, cost_bitmap_restart = 10\<rparr>"
  by (simp_all add: section_costs_def switch_costs_def Let_def krl_sections min_def)

lemma choose_alternating:
  "choose_next_state 0 1 False 0 2 = (KRL_SECTION_CERT_SERIAL_BITMAP, False)"
  "choose_next_state KRL_SECTION_CERT_SERIAL_BITMAP 1 True 2 0 = (KRL_SECTION_CERT_SERIAL_BITMAP, False)"
  "choose_next_state KRL_SECTION_CERT_SERIAL_BITMAP 1 False 2 2 = (KRL_SECTION_CERT_SERIAL_BITMAP, False)"
  by (simp_all add: choose_next_state_def costs_alternating Let_def)

lemma set_bit_total: "bitmap_ok bm \<Longrightarrow> never_fails A \<Longrightarrow> n \<le> BITMAP_MAX \<Longrightarrow> \<exists>bm'. bitmap_set_bit A bm n = Some bm'"
  using reserve_total [of bm A n] by (auto simp: bitmap_set_bit_def Let_def)

text \<open>The state of the writer after the first \<open>i\<close> serials of an alternating list.\<close>

definition alternates :: "nat \<Rightarrow> gen \<Rightarrow> bool" where
  "alternates i g \<longleftrightarrow> g_state g = KRL_SECTION_CERT_SERIAL_BITMAP \<and> g_bitmap_start g = 1 \<and> g_last g = of_nat (2 * i - 1) \<and> roomy 8 (g_sect g) \<and>
     (\<exists>bm. g_bitmap g = Some bm \<and> bitmap_ok bm)"

lemma fill_alternating:
  assumes "g_state g = KRL_SECTION_CERT_SERIAL_BITMAP" and "g_bitmap_start g = 1" and "g_bitmap g = Some bm" and "bitmap_ok bm"
    and "2 * i \<le> BITMAP_MAX" and A: "never_fails A"
  shows "\<exists>bm'. fill_section A (of_nat (2 * i + 1), of_nat (2 * i + 1)) 1 g = (Inr True, g\<lparr>g_bitmap := Some bm'\<rparr>) \<and> bitmap_ok bm'"
proof -
  have small: "2 * i < 2 ^ 32" using assms(5) by (simp add: BITMAP_MAX_def)
  have d: "(of_nat (2 * i + 1) :: u64) - 1 = of_nat (2 * i)" by simp
  have u: "unat (of_nat (2 * i) :: u64) = 2 * i" using small by (intro unat_of_nat64) simp
  have "unat (ucast (of_nat (2 * i) :: u64) :: u32) = 2 * i" using small u by (simp add: unsigned_ucast_eq take_bit_nat_eq_self)
  moreover have "\<not> int (unat (of_nat (2 * i) :: u64)) > INT_MAX" unfolding u using assms(5) by (simp add: INT_MAX_def BITMAP_MAX_def)
  moreover obtain bm' where bm': "bitmap_set_bit A bm (2 * i) = Some bm'" using set_bit_total [OF assms(4) A assms(5)] by blast
  ultimately have "fill_section A (of_nat (2 * i + 1), of_nat (2 * i + 1)) 1 g = (Inr True, g\<lparr>g_bitmap := Some bm'\<rparr>)"
    using assms(1,3) unfolding fill_section_def fst_conv snd_conv assms(2)
    by (simp add: krl_sections set_bits_def d ret_def del: of_nat_add of_nat_mult)
  then show ?thesis using set_bit_result [OF assms(4) bm'] by blast
qed

lemma first_alternating:
  assumes g: "g_state g = 0" "roomy 0 (g_sect g)" and A: "never_fails A"
  shows "\<exists>g'. gen_serial A junk (of_nat 1, of_nat 1) (Some (of_nat 3, of_nat 3)) g = (Inr True, g') \<and> g_buf g' = g_buf g \<and> alternates 1 g'"
proof -
  obtain bm where bm: "bitmap_new A = Some bm" using bitmap_new_total [OF A] by blast
  obtain b where b: "sshbuf_put A (POKE_U64 1) (sshbuf_reset A (g_sect g)) = (Inr (), b)" "roomy (0 + length (POKE_U64 1)) b"
    using roomy_put [OF roomy_reset [OF g(2), of A] _ A, of "POKE_U64 1"] by (auto simp: sshbuf_consts)
  let ?g = "g\<lparr>g_state := KRL_SECTION_CERT_SERIAL_BITMAP, g_sect := b, g_bitmap := Some bm, g_bitmap_start := 1\<rparr>"
  have start: "start_section A KRL_SECTION_CERT_SERIAL_BITMAP 1 g = (Inr (), ?g)"
    using bm b(1) by (simp add: start_section_def reset_sect_def Let_def to_sect_def sshbuf_put_int)
  obtain bm' where f: "fill_section A (of_nat (2 * 0 + 1), of_nat (2 * 0 + 1)) 1 ?g = (Inr True, ?g\<lparr>g_bitmap := Some bm'\<rparr>)" "bitmap_ok bm'"
    using fill_alternating [of ?g bm 0 A] new_result [OF bm] A by auto
  have "gen_serial A junk (of_nat 1, of_nat 1) (Some (of_nat 3, of_nat 3)) g = (Inr True, ?g\<lparr>g_bitmap := Some bm', g_last := 1\<rparr>)"
    using g(1) start f(1) by (simp add: gen_serial_def Let_def choose_alternating andthen_def ret_def krl_sections)
  moreover have "alternates 1 (?g\<lparr>g_bitmap := Some bm', g_last := 1\<rparr>)" using b(2) f(2) by (simp add: alternates_def)
  ultimately show ?thesis by auto
qed

lemma step_alternating:
  assumes g: "alternates i g" "0 < i" and i: "2 * i \<le> BITMAP_MAX" and A: "never_fails A" and nrs: "nrs = None \<or> nrs = Some (of_nat (2 * i + 3), x)"
  shows "\<exists>g'. gen_serial A junk (of_nat (2 * i + 1), of_nat (2 * i + 1)) nrs g = (Inr True, g') \<and> g_buf g' = g_buf g \<and> alternates (Suc i) g'"
proof -
  obtain bm where bm: "g_state g = KRL_SECTION_CERT_SERIAL_BITMAP" "g_bitmap_start g = 1" "g_last g = of_nat (2 * i - 1)" "g_bitmap g = Some bm" "bitmap_ok bm"
    using g(1) by (auto simp: alternates_def)
  obtain bm' where f: "fill_section A (of_nat (2 * i + 1), of_nat (2 * i + 1)) 1 g = (Inr True, g\<lparr>g_bitmap := Some bm'\<rparr>)" "bitmap_ok bm'"
    using fill_alternating [OF bm(1,2,4,5) i A] by blast
  let ?s = "of_nat (2 * i + 1) :: u64" and ?g = "g\<lparr>g_bitmap := Some bm', g_last := of_nat (2 * i + 1)\<rparr>"
  have "2 * i + 1 = (2 * i - 1) + 2" using g(2) by simp
  then have gap: "?s - g_last g = 2" unfolding bm(3) by (metis add_diff_cancel_left' of_nat_add of_nat_numeral)
  have next_gap: "(case nrs of None \<Rightarrow> 0 | Some n \<Rightarrow> fst n - ?s) = (if nrs = None then 0 else 2)" using nrs by (auto simp: algebra_simps)
  have c: "choose_next_state KRL_SECTION_CERT_SERIAL_BITMAP 1 (nrs = None) 2 (if nrs = None then 0 else 2) = (KRL_SECTION_CERT_SERIAL_BITMAP, False)"
    using choose_alternating(2,3) by (cases nrs) simp_all
  have "KRL_SECTION_CERT_SERIAL_BITMAP \<noteq> 0" "KRL_SECTION_CERT_SERIAL_BITMAP \<noteq> KRL_SECTION_CERT_SERIAL_RANGE" by (simp_all add: krl_sections)
  then have "gen_serial A junk (?s, ?s) nrs g = (Inr True, ?g)"
    unfolding gen_serial_def Let_def fst_conv snd_conv next_gap bm(1) gap
    using c f(1) by (simp add: andthen_def ret_def)
  moreover have "alternates (Suc i) ?g" using g(1) bm f(2) by (simp add: alternates_def)
  ultimately show ?thesis by auto
qed

lemma rest_alternating:
  assumes A: "never_fails A" and n: "2 * n \<le> BITMAP_MAX"
  shows "alternates i g \<Longrightarrow> 0 < i \<Longrightarrow> i \<le> n \<Longrightarrow>
    \<exists>g'. gen_serials A junk (alternating i n) g = (Inr True, g') \<and> g_buf g' = g_buf g \<and> alternates n g'"
proof (induction "n - i" arbitrary: i g)
  case 0
  then show ?case by (auto simp: alternating_Nil ret_def)
next
  case (Suc k)
  then have i: "i < n" "2 * i \<le> BITMAP_MAX" using n by simp_all
  let ?nrs = "case alternating (Suc i) n of [] \<Rightarrow> None | r # _ \<Rightarrow> Some r"
  have "?nrs = None \<or> ?nrs = Some (of_nat (2 * i + 3), of_nat (2 * i + 3))"
    by (cases "Suc i < n") (simp_all add: alternating_Cons alternating_Nil)
  from step_alternating [OF Suc.prems(1,2) i(2) A this] obtain g1 where
    g1: "gen_serial A junk (of_nat (2 * i + 1), of_nat (2 * i + 1)) ?nrs g = (Inr True, g1)" "g_buf g1 = g_buf g" "alternates (Suc i) g1" by blast
  have "k = n - Suc i" using Suc.hyps(2) by simp
  from Suc.hyps(1) [OF this g1(3)] i obtain g' where "gen_serials A junk (alternating (Suc i) n) g1 = (Inr True, g')" "g_buf g' = g_buf g1" "alternates n g'" by auto
  then show ?case unfolding alternating_Cons [OF i(1)] gen_serials.simps using g1 by (simp add: andthen_def)
qed

lemma all_alternating:
  assumes g: "g_state g = 0" "roomy 0 (g_sect g)" and A: "never_fails A" and n: "1 < n" "2 * n \<le> BITMAP_MAX"
  shows "\<exists>g'. gen_serials A junk (alternating 0 n) g = (Inr True, g') \<and> g_buf g' = g_buf g \<and> alternates n g'"
proof -
  obtain g1 where g1: "gen_serial A junk (of_nat 1, of_nat 1) (Some (of_nat 3, of_nat 3)) g = (Inr True, g1)" "g_buf g1 = g_buf g" "alternates 1 g1"
    using first_alternating [OF g A] by blast
  obtain g' where g': "gen_serials A junk (alternating 1 n) g1 = (Inr True, g')" "g_buf g' = g_buf g1" "alternates n g'"
    using rest_alternating [OF A n(2) g1(3)] n(1) by auto
  have "alternating 0 n = (of_nat 1, of_nat 1) # alternating 1 n" "alternating 1 n = (of_nat 3, of_nat 3) # alternating 2 n"
    using alternating_Cons [of 0 n] alternating_Cons [of 1 n] n(1) by (simp_all add: numeral_2_eq_2)
  then show ?thesis using g1 g' by (simp add: andthen_def)
qed

subsection \<open>Writing succeeds\<close>

definition BIG :: nat where
  "BIG = 2 ^ 21 + 16"

lemma put_bitmap_total:
  assumes bm: "bitmap_ok bm" and A: "never_fails A" and b: "roomy 8 b"
  shows "\<exists>b'. put_bitmap A junk bm b = (Inr (), b') \<and> roomy BIG b'"
proof -
  let ?n = "(nbits_of (bits bm) + 7) div 8"
  note r = retop_result(1,2) [OF bm]
  obtain blob where blob: "bitmap_to_string (retop bm) (map junk [0..<?n]) = Some (Some blob, retop (retop bm))"
    using to_string_result [OF r(1) refl, of "map junk [0..<?n]"] r(2) by auto
  have "length blob = ?n" using to_string_bits(2) [OF r(1) blob] by simp
  moreover have "nbits_of (bits bm) \<le> BITMAP_MAX + 1" by (rule nbits_of_bound) (rule bitmap_okD(5) [OF bm])
  ultimately have len: "length blob \<le> 2 ^ 21 + 1" by (simp add: BITMAP_MAX_def)
  define s where "s = dropWhile (\<lambda>b. b = 0) blob"
  have "length s \<le> length blob" "length (bignum_prepend s) \<le> 1" unfolding s_def by (rule length_dropWhile_le, rule length_bignum_prepend)
  moreover have "length (bignum_enc blob) = 4 + (length (bignum_prepend s) + length s)" by (simp add: bignum_enc_def string_enc_def Let_def s_def)
  ultimately have enc: "length (bignum_enc blob) \<le> 2 ^ 21 + 6" using len by simp
  obtain b' where b': "sshbuf_put A (bignum_enc blob) b = (Inr (), b')" "roomy (8 + length (bignum_enc blob)) b'"
    using roomy_put [OF b _ A, of "bignum_enc blob"] enc by (auto simp: sshbuf_consts)
  obtain q where "malloc A ?n = Some q" using never_fails_malloc [OF A] by blast
  then have "put_bitmap A junk bm b = sshbuf_put_bignum2_bytes A blob b" using blob by (simp add: put_bitmap_def nbytes_result [OF bm])
  moreover have "\<not> length blob > SSHBUF_SIZE_MAX - 5" using len by (simp add: sshbuf_consts)
  moreover have "roomy BIG b'" using roomy_mono [OF b'(2)] enc by (simp add: BIG_def)
  ultimately show ?thesis using b'(1) by (simp add: sshbuf_put_bignum2_eq)
qed

lemma finish_alternating:
  assumes g: "alternates n g" "roomy m (g_buf g)" and A: "never_fails A" and m: "m \<le> 4096"
  shows "\<exists>g'. finish_section A junk g = (Inr (), g') \<and> roomy (m + BIG + 5) (g_buf g')"
proof -
  obtain bm where bm: "g_state g = KRL_SECTION_CERT_SERIAL_BITMAP" "g_bitmap g = Some bm" "bitmap_ok bm" "roomy 8 (g_sect g)"
    using g(1) by (auto simp: alternates_def)
  obtain b where b: "put_bitmap A junk bm (g_sect g) = (Inr (), b)" "roomy BIG b" using put_bitmap_total [OF bm(3) A bm(4)] by blast
  obtain b' where b': "andthen (sshbuf_put_u8 A KRL_SECTION_CERT_SERIAL_BITMAP) (\<lambda>_. sshbuf_put_stringb A (Some b)) (g_buf g) = (Inr (), b')" "roomy (m + BIG + 5) b'"
    using roomy_put_section [OF g(2) b(2) _ A] m by (auto simp: BIG_def sshbuf_consts)
  have "finish_section A junk g = (Inr (), g\<lparr>g_sect := b, g_bitmap := None, g_buf := b'\<rparr>)"
    using bm(1,2) b(1) b'(1) by (auto simp: finish_section_def to_sect_def to_buf_def andthen_def ret_def split: prod.splits sum.splits)
  then show ?thesis using b'(2) by simp
qed

definition alternating_certs :: "nat \<Rightarrow> 'k revoked_certs" where
  "alternating_certs n = \<lparr>ca_key = None, revoked_serials = alternating 0 n, revoked_key_ids = []\<rparr>"

definition alternating_krl :: "nat \<Rightarrow> 'k ssh_krl" where
  "alternating_krl n = empty_krl\<lparr>revoked_cas := [alternating_certs n]\<rparr>"

lemma alternating_unat:
  assumes "2 * n \<le> BITMAP_MAX" and "r \<in> set (alternating i n)"
  obtains j where "i \<le> j" and "j < n" and "r = (of_nat (2 * j + 1), of_nat (2 * j + 1))" and "unat (fst r) = 2 * j + 1" and "snd r = fst r"
proof -
  obtain j where j: "i \<le> j" "j < n" "r = (of_nat (2 * j + 1), of_nat (2 * j + 1))" using assms(2) by (auto simp: alternating_def)
  moreover have "2 * j + 1 < 2 ^ 64" using j(2) assms(1) by (simp add: BITMAP_MAX_def)
  then have "unat (of_nat (2 * j + 1) :: u64) = 2 * j + 1" by (rule unat_of_nat64)
  ultimately show thesis using that [OF j] by (simp del: of_nat_add of_nat_mult)
qed

lemma alternating_sorted: "2 * n \<le> BITMAP_MAX \<Longrightarrow> sorted_wrt apart (alternating i n)"
proof (induction "n - i" arbitrary: i)
  case 0
  then show ?case by (simp add: alternating_Nil)
next
  case (Suc k)
  then have i: "i < n" and IH: "sorted_wrt apart (alternating (Suc i) n)" by simp_all
  have "apart (of_nat (2 * i + 1), of_nat (2 * i + 1)) r" if r: "r \<in> set (alternating (Suc i) n)" for r
  proof -
    obtain j where j: "Suc i \<le> j" "unat (fst r) = 2 * j + 1" by (rule alternating_unat [OF Suc.prems r])
    have "unat (of_nat (2 * i + 1) :: u64) = 2 * i + 1" using i Suc.prems by (intro unat_of_nat64) (simp add: BITMAP_MAX_def)
    then show ?thesis using j by (simp add: apart_def del: of_nat_add of_nat_mult)
  qed
  then show ?case unfolding alternating_Cons [OF i] using IH by simp
qed

lemma alternating_wf:
  assumes "2 * n \<le> BITMAP_MAX"
  shows "certs_wf (alternating_certs n)" and "krl_wf K (alternating_krl n)"
proof -
  have r: "fst r \<le> snd r \<and> fst r \<noteq> 0" if m: "r \<in> set (alternating 0 n)" for r
    by (rule alternating_unat [OF assms m]) auto
  then have "ranges_ok (alternating 0 n)" using alternating_sorted [OF assms] by (auto simp: ranges_ok_def)
  moreover have "0 \<notin> serials (alternating 0 n)"
  proof
    assume "0 \<in> serials (alternating 0 n)"
    then obtain x where "x \<in> set (alternating 0 n)" "fst x \<le> 0" by (auto simp: serials_def)
    then show False using r by simp
  qed
  ultimately show c: "certs_wf (alternating_certs n)" by (simp add: certs_wf_def alternating_certs_def)
  show "krl_wf K (alternating_krl n)" using c by (simp add: krl_wf_def alternating_krl_def empty_krl_def)
qed

text \<open>The one section that is written.\<close>

definition one_bitmap :: "nat \<Rightarrow> csect \<Rightarrow> bool" where
  "one_bitmap n c \<longleftrightarrow> sect_type c = KRL_SECTION_CERT_SERIAL_BITMAP \<and> sect_ok c \<and> string_valid (sect_bytes c) \<and>
     sect_serials c = serials (alternating 0 n) \<and> sect_ids c = {}"

lemma gen_body_alternating:
  assumes g: "g_state g = 0" "roomy 0 (g_sect g)" "roomy m (g_buf g)" and A: "never_fails A" and n: "1 < n" "2 * n \<le> BITMAP_MAX" and m: "m \<le> 4096"
  shows "\<exists>g' c. gen_body A junk (alternating_certs n) g = (Inr (), g') \<and> roomy (m + BIG + 5) (g_buf g') \<and>
    sshbuf_bytes (g_buf g') = sshbuf_bytes (g_buf g) @ sect_enc c \<and> one_bitmap n c"
proof -
  let ?pre = "sshbuf_bytes (g_buf g)"
  obtain g1 where g1: "gen_serials A junk (alternating 0 n) g = (Inr True, g1)" "g_buf g1 = g_buf g" "alternates n g1"
    using all_alternating [OF g(1,2) A n] by blast
  have st: "g_state g1 = KRL_SECTION_CERT_SERIAL_BITMAP" "g_state g1 \<noteq> 0" using g1(3) by (simp_all add: alternates_def krl_sections)
  obtain g2 where g2: "finish_section A junk g1 = (Inr (), g2)" "roomy (m + BIG + 5) (g_buf g2)"
    using finish_alternating [OF g1(3) _ A m] g(3) g1(2) by auto
  have "written ?pre 0 [] g" using g by (simp add: written_def sects_ok_def roomy_def)
  then have "gen_inv ?pre 0 {} g" unfolding gen_inv_def using g(1) by (intro exI [of _ "[]"] exI [of _ "{}"]) simp
  from gen_serials_Inr [OF g1(1) this] alternating_wf(1) [OF n(2)] g(1)
  have "gen_inv ?pre (length (alternating 0 n)) (serials (alternating 0 n)) g1" by (simp add: certs_wf_def alternating_certs_def)
  then obtain cs P where i: "written ?pre (length (alternating 0 n)) cs g1" "serials (alternating 0 n) = \<Union> (sect_serials ` set cs) \<union> P"
    "pending (length (alternating 0 n)) P g1" using st(2) by (auto simp: gen_inv_def)
  have "concat (map sect_enc cs) = []" using i(1) g1(2) by (simp add: written_def)
  then have "cs = []" by (cases cs) (auto simp: sect_enc_def)
  then have P: "P = serials (alternating 0 n)" using i(2) by simp
  have "sect_buf (g_buf g1)" "sect_buf (g_sect g1)" using i(1) by (simp_all add: written_def)
  from finish_section_Inr [OF g2(1) i(3) this] obtain c where c: "sshbuf_bytes (g_buf g2) = sshbuf_bytes (g_buf g1) @ sect_enc c" "sect_buf (g_sect g2)"
    "sect_ok c" "string_valid (sect_bytes c)" "sect_serials c = P" "sect_ids c = {}" "sect_type c = g_state g1" by metis
  have "sshbuf_bytes (sshbuf_reset A (g_sect g2)) = []" "sshbuf_ok (sshbuf_reset A (g_sect g2))" using sect_buf_reset [OF c(2)] by (simp_all add: sect_buf_def)
  then have "sshbuf_len (sshbuf_reset A (g_sect g2)) = 0" using length_sshbuf_bytes by fastforce
  then have "gen_key_ids A [] g2 = (Inr (), reset_sect A g2)" by (simp add: gen_key_ids_def to_sect_def reset_sect_def ret_def andthen_def)
  then have "gen_body A junk (alternating_certs n) g = (Inr (), reset_sect A g2)"
    using g1(1) g2(1) st(2) by (simp add: gen_body_def alternating_certs_def andthen_def)
  then show ?thesis using g2(2) c P st(1) g1(2) by (intro exI [of _ "reset_sect A g2"] exI [of _ c]) (simp add: reset_sect_def one_bitmap_def)
qed

lemma generate_alternating:
  assumes buf: "roomy 0 buf" "sshbuf_bytes buf = []" and A: "never_fails A" and n: "1 < n" "2 * n \<le> BITMAP_MAX"
  shows "\<exists>buf' c. revoked_certs_generate K A junk (alternating_certs n) buf = (Inr (), buf') \<and> roomy (BIG + 13) buf' \<and>
    sshbuf_bytes buf' = authority_bytes [] [c] \<and> one_bitmap n c"
proof -
  obtain sect where sect: "sshbuf_new A = Some sect" using sshbuf_new_total [OF A] by blast
  obtain b1 where b1: "sshbuf_put_string A [] buf = (Inr (), b1)" "roomy 4 b1"
    using roomy_put_string [OF buf(1) _ A, of "[]"] by (auto simp: sshbuf_consts)
  obtain b2 where b2: "sshbuf_put_string A [] b1 = (Inr (), b2)" "roomy 8 b2"
    using roomy_put_string [OF b1(2) _ A, of "[]"] by (auto simp: sshbuf_consts)
  have "sect_buf buf" "put_all (sshbuf_put_string A) [[], []] buf = (Inr (), b2)" using buf(1) b1(1) b2(1) by (simp_all add: roomy_def andthen_def ret_def)
  from sect_buf_put_strings [OF this] have bytes: "sshbuf_bytes b2 = string_enc [] @ string_enc []" using buf(2) by simp
  let ?g = "\<lparr>g_buf = b2, g_sect = sect, g_state = 0, g_last = 0, g_bitmap_start = 0, g_bitmap = None\<rparr>"
  from gen_body_alternating [of ?g 8 A n junk] roomy_new [OF sect] b2(2) A n
  obtain g' c where g': "gen_body A junk (alternating_certs n :: 'a revoked_certs) ?g = (Inr (), g')" "roomy (8 + BIG + 5) (g_buf g')"
    "sshbuf_bytes (g_buf g') = sshbuf_bytes b2 @ sect_enc c" "one_bitmap n c" by (auto simp del: One_nat_def)
  have "revoked_certs_generate K A junk (alternating_certs n) buf = (Inr (), g_buf g')"
    unfolding revoked_certs_generate_def sect option.case gen_body_def [symmetric]
    using b1(1) b2(1) g'(1) by (simp add: alternating_certs_def to_buf_def andthen_def)
  then show ?thesis using g'(2-4) bytes by (intro exI [of _ "g_buf g'"] exI [of _ c]) (simp add: authority_bytes_def add.commute)
qed

lemma put_certs_alternating:
  assumes buf: "roomy m buf" "m \<le> 4096" and sect: "roomy k sect" and A: "never_fails A" and n: "1 < n" "2 * n \<le> BITMAP_MAX"
  shows "\<exists>buf' sect' c. put_certs K A junk (alternating_certs n) (buf, sect) = (Inr (), (buf', sect')) \<and> sect_buf buf' \<and> sect_buf sect' \<and>
    sshbuf_bytes buf' = sshbuf_bytes buf @ entry_enc (alternating_certs n :: 'k revoked_certs, [], [c]) \<and>
    string_valid (authority_bytes [] [c]) \<and> one_bitmap n c"
proof -
  have "roomy 0 (sshbuf_reset A sect)" "sshbuf_bytes (sshbuf_reset A sect) = []"
    using roomy_reset [OF sect] sect_buf_reset [of sect A] sect by (simp_all add: roomy_def)
  from generate_alternating [OF this A n] obtain s1 c where
    s1: "revoked_certs_generate K A junk (alternating_certs n) (sshbuf_reset A sect) = (Inr (), s1)" "roomy (BIG + 13) s1"
    "sshbuf_bytes s1 = authority_bytes [] [c]" "one_bitmap n c" by blast
  obtain b1 where b1: "andthen (sshbuf_put_u8 A KRL_SECTION_CERTIFICATES) (\<lambda>_. sshbuf_put_stringb A (Some s1)) buf = (Inr (), b1)"
    using roomy_put_section [OF buf(1) s1(2) _ A] buf(2) by (auto simp: BIG_def sshbuf_consts)
  have ok: "sshbuf_ok buf" "sshbuf_ok s1" "sect_buf buf" "sect_buf s1" using buf(1) s1(2) by (simp_all add: roomy_def sect_buf_def)
  note p = put_section [OF ok(1,2) b1]
  have "put_certs K A junk (alternating_certs n) (buf, sect) = (Inr (), (b1, s1))" using s1(1) b1 by (simp add: put_certs_def)
  then show ?thesis using p(2) [OF ok(3)] p(3,4) ok(4) s1(3,4) by (intro exI [of _ b1] exI [of _ s1] exI [of _ c]) simp
qed

lemma put_header_total:
  assumes "roomy 0 buf" and A: "never_fails A" and "comment krl = None"
  shows "\<exists>b. put_krl_header A krl buf = (Inr (), b) \<and> roomy 100 b"
proof -
  have max: "200 \<le> SSHBUF_SIZE_MAX" "length KRL_MAGIC = 8" by (simp_all add: sshbuf_consts KRL_MAGIC_def)
  obtain b0 where b0: "sshbuf_put A KRL_MAGIC buf = (Inr (), b0)" "roomy 8 b0" using roomy_put [OF assms(1) _ A, of KRL_MAGIC] max by auto
  obtain b1 where b1: "sshbuf_put A (POKE_U32 KRL_FORMAT_VERSION) b0 = (Inr (), b1)" "roomy 12 b1"
    using roomy_put [OF b0(2) _ A, of "POKE_U32 KRL_FORMAT_VERSION"] max by auto
  obtain b2 where b2: "sshbuf_put A (POKE_U64 (krl_version krl)) b1 = (Inr (), b2)" "roomy 20 b2"
    using roomy_put [OF b1(2) _ A, of "POKE_U64 (krl_version krl)"] max by auto
  obtain b3 where b3: "sshbuf_put A (POKE_U64 (generated_date krl)) b2 = (Inr (), b3)" "roomy 28 b3"
    using roomy_put [OF b2(2) _ A, of "POKE_U64 (generated_date krl)"] max by auto
  obtain b4 where b4: "sshbuf_put A (POKE_U64 (krl_flags krl)) b3 = (Inr (), b4)" "roomy 36 b4"
    using roomy_put [OF b3(2) _ A, of "POKE_U64 (krl_flags krl)"] max by auto
  obtain b5 where b5: "sshbuf_put_string A [] b4 = (Inr (), b5)" "roomy 40 b5" using roomy_put_string [OF b4(2) _ A, of "[]"] max by auto
  obtain b6 where b6: "sshbuf_put_string A [] b5 = (Inr (), b6)" "roomy 44 b6" using roomy_put_string [OF b5(2) _ A, of "[]"] max by auto
  have "put_krl_header A krl buf = (Inr (), b6)"
    using b0(1) b1(1) b2(1) b3(1) b4(1) b5(1) b6(1) assms(3) by (simp add: put_krl_header_def sshbuf_put_cstring_def sshbuf_put_int andthen_def)
  then show ?thesis using roomy_mono [OF b6(2)] by simp
qed

lemma put_no_blobs:
  assumes "sect_buf sect"
  shows "put_blobs A t [] (buf, sect) = (Inr (), (buf, sshbuf_reset A sect))" and "sect_buf (sshbuf_reset A sect)"
proof -
  show s: "sect_buf (sshbuf_reset A sect)" using sect_buf_reset [OF assms] by simp
  then have "sshbuf_len (sshbuf_reset A sect) = 0" using sect_buf_reset [OF assms] length_sshbuf_bytes by (fastforce simp: sect_buf_def)
  then show "put_blobs A t [] (buf, sect) = (Inr (), (buf, sshbuf_reset A sect))" by (simp add: put_blobs_def ret_def)
qed

text \<open>The file of such a list: the header and one section with the bitmap.\<close>

lemma to_blob_alternating:
  assumes buf: "sshbuf_new B = Some buf" and A: "never_fails A" and n: "1 < n" "2 * n \<le> BITMAP_MAX"
  shows "\<exists>krl1 out c. ssh_krl_to_blob K A junk now (alternating_krl n :: 'k ssh_krl, buf) = (Inr (), (krl1, out)) \<and> sect_buf out \<and>
    sshbuf_bytes out = header_enc 0 now 0 [] @ entry_enc (alternating_certs n :: 'k revoked_certs, [], [c]) \<and>
    string_valid (authority_bytes [] [c]) \<and> one_bitmap n c"
proof -
  let ?k = "(alternating_krl n :: 'k ssh_krl)\<lparr>generated_date := now\<rparr>"
  have k: "comment ?k = None" "revoked_cas ?k = [alternating_certs n]" "revoked_keys ?k = []" "revoked_sha1s ?k = []" "revoked_sha256s ?k = []"
    "generated_date (alternating_krl n :: 'k ssh_krl) = 0" "krl_version ?k = 0" "generated_date ?k = now" "krl_flags ?k = 0" "comment_bytes ?k = []"
    by (simp_all add: alternating_krl_def empty_krl_def comment_bytes_def)
  obtain sect where sect: "sshbuf_new A = Some sect" using sshbuf_new_total [OF A] by blast
  obtain b where b: "put_krl_header A ?k buf = (Inr (), b)" "roomy 100 b" using put_header_total [OF roomy_new [OF buf] A k(1)] by blast
  have bytes: "sshbuf_bytes b = header_enc 0 now 0 []" using put_header_Inr(2) [OF b(1)] sect_buf_new [OF buf] k(7-10) by simp
  obtain b1 s1 c where b1: "put_certs K A junk (alternating_certs n) (b, sect) = (Inr (), (b1, s1))" "sect_buf b1" "sect_buf s1"
    "sshbuf_bytes b1 = sshbuf_bytes b @ entry_enc (alternating_certs n :: 'k revoked_certs, [], [c])" "string_valid (authority_bytes [] [c])" "one_bitmap n c"
    using put_certs_alternating [OF b(2) _ roomy_new [OF sect] A n, of K junk] by auto
  note p1 = put_no_blobs [OF b1(3), of A]
  note p2 = put_no_blobs [OF p1(2), of A]
  note p3 = put_no_blobs [OF p2(2), of A]
  have "ssh_krl_to_blob K A junk now (alternating_krl n, buf) = (Inr (), (?k, b1))"
    unfolding ssh_krl_to_blob_def Let_def fst_conv snd_conv k(6) simp_thms if_True sect option.case b(1) prod.case sum.case k(2-5)
    using b1(1) p1(1) p2(1) p3(1) by (simp add: andthen_def ret_def)
  then show ?thesis using b1 bytes by (intro exI [of _ ?k] exI [of _ b1] exI [of _ c]) simp
qed

text \<open>From 8193 serials on the bitmap is too large for the reader.\<close>

lemma one_bitmap_oversized:
  assumes c: "one_bitmap n c" and n: "8192 < n" "2 * n \<le> BITMAP_MAX"
  shows "oversized c"
proof -
  obtain lo blob where b: "c = Bits lo blob" using c by (cases c) (auto simp: one_bitmap_def krl_sections)
  have ok: "lo \<noteq> 0" "\<forall>k \<in> string_bits blob. unat lo + k < 2 ^ 64" "bit_serials lo (string_bits blob) = serials (alternating 0 n)"
    using c by (simp_all add: b one_bitmap_def)
  have mem: "of_nat (2 * j + 1) \<in> bit_serials lo (string_bits blob)" if "j < n" for j
    unfolding ok(3) serials_def using that by (auto simp: alternating_def)
  obtain k where k: "k \<in> string_bits blob" "of_nat (2 * (n - 1) + 1) = lo + of_nat k" using mem [of "n - 1"] n(1) by (auto simp: bit_serials_def)
  obtain i where i: "i \<in> string_bits blob" "of_nat (2 * 0 + 1) = lo + of_nat i" using mem [of 0] n(1) by (auto simp: bit_serials_def)
  have u: "unat (lo + of_nat j) = unat lo + j" if "j \<in> string_bits blob" for j
  proof -
    have "unat lo + j < 2 ^ 64" using ok(2) that by simp
    then have "of_nat (unat lo + j) = lo + of_nat j" "unat (of_nat (unat lo + j) :: u64) = unat lo + j" by (simp, rule unat_of_nat64)
    then show ?thesis by simp
  qed
  have "unat lo + i = 1" using u [OF i(1)] i(2) by simp
  then have "unat lo = 1" using ok(1) by (metis Nat.add_0_right One_nat_def add_is_1 unat_eq_zero)
  moreover have "unat lo + k = 2 * (n - 1) + 1" using u [OF k(1)] k(2) unat_of_nat64 [of "2 * (n - 1) + 1"] n(2) by (simp add: BITMAP_MAX_def)
  ultimately have "k = 2 * (n - 1)" by simp
  moreover have "k < 8 * length (stripped blob)" using k(1) string_bits_bound string_bits_strip [of blob] unfolding stripped_def by blast
  ultimately show ?thesis using n(1) by (simp add: b sshbuf_consts)
qed

end
