(* ===== verification/Krl_Roundtrip.thy ===== *)
theory Krl_Roundtrip
  imports Krl_Alternating
begin

text \<open>
  The file format of revocation lists: what is written can be read back, and the one case in which it
  cannot.
\<close>

text \<open>Keys that are their own encoding, behind a byte for the type.\<close>

definition tagged_keys :: "u8 list key_ops" where
  "tagged_keys = demo_keys\<lparr>sshkey_to_blob := (\<lambda>k. Inr (0 # k)), sshkey_from_blob := (\<lambda>b. Inr (tl b))\<rparr>"

lemma tagged_keys_ok: "reader_env tagged_keys demo_shape demo_allocator" "blobs_ok tagged_keys"
  by (auto simp: reader_env_def blobs_ok_def tagged_keys_def demo_keys_def keys_ok_def identity_equivp demo_never_fails demo_shape_inorder)

lemma small_written:
  obtains krl1 out where "ssh_krl_to_blob tagged_keys demo_allocator (\<lambda>_. 0) 7 (alternating_krl 3, demo_buf) = (Inr (), (krl1, out))"
  using to_blob_alternating [OF demo_buf_new demo_never_fails, of 3 tagged_keys "\<lambda>_. 0" 7] that by (auto simp: BITMAP_MAX_def)

lemma small_krl:
  "krl_wf tagged_keys (alternating_krl 3)" "comment_bytes (alternating_krl 3 :: u8 list ssh_krl) = []"
  "revoked_cas (alternating_krl 3 :: u8 list ssh_krl) = [alternating_certs 3]" "length (revoked_serials (alternating_certs 3 :: u8 list revoked_certs)) = 3"
  using alternating_wf(2) [of 3 tagged_keys]
  by (simp_all add: BITMAP_MAX_def alternating_krl_def empty_krl_def comment_bytes_def alternating_certs_def alternating_def)

text \<open>Reading a file with one bitmap that is too large.\<close>

lemma read_one_bitmap:
  assumes env: "reader_env K sh C" and out: "sect_buf out"
    and bytes: "sshbuf_bytes out = header_enc v now f [] @ KRL_SECTION_CERTIFICATES # string_enc (authority_bytes [] [c]) @ []"
    and valid: "string_valid (authority_bytes [] [c])" and c: "one_bitmap n c" and n: "8192 < n" "2 * n \<le> BITMAP_MAX"
  shows "ssh_krl_from_blob K sh C out = (Inl SSH_ERR_BIGNUM_TOO_LARGE, out)"
proof -
  let ?P = "\<lambda>(r :: ssherr + unit) _. r = Inl SSH_ERR_BIGNUM_TOO_LARGE"
  let ?start = "empty_krl\<lparr>krl_version := v, generated_date := now, krl_flags := f, comment := Some []\<rparr>"
  have out': "sshbuf_ok out" "sb_refcount out < SSHBUF_REFS_MAX" using out by (auto simp: sect_buf_def sshbuf_writable_def sshbuf_consts)
  have "krl_reads K sh C (KRL_SECTION_CERTIFICATES # string_enc (authority_bytes [] [c]) @ []) ?start ?P"
  proof (rule krl_reads_section [OF env valid])
    show "KRL_SECTION_CERTIFICATES \<noteq> KRL_SECTION_SIGNATURE" by (simp add: krl_sections)
    fix s assume s: "sshbuf_ok s" "sb_refcount s = 1" "sshbuf_bytes s = authority_bytes [] [c]"
    have "sb_refcount s < SSHBUF_REFS_MAX" "string_valid []" "blob_ca K [] None" "krl_wf K ?start" "\<forall>c \<in> set [c]. sect_ok c \<and> string_valid (sect_bytes c)"
      using s(2) c by (simp_all add: sshbuf_consts string_valid_def blob_ca_def krl_wf_def empty_krl_def one_bitmap_def)
    from read_authority [OF env s(1) this(1) s(3) this(2,3,5,4)] one_bitmap_oversized [OF c n]
    have "fst (parse_krl_section K sh C KRL_SECTION_CERTIFICATES (s, ?start)) = Inl SSH_ERR_BIGNUM_TOO_LARGE" by (auto simp: parse_krl_section_def)
    then show "(\<exists>e s' krl'. parse_krl_section K sh C KRL_SECTION_CERTIFICATES (s, ?start) = (Inl e, (s', krl')) \<and> ?P (Inl e) krl') \<or>
      (\<exists>s' krl'. parse_krl_section K sh C KRL_SECTION_CERTIFICATES (s, ?start) = (Inr (), (s', krl')) \<and> sshbuf_len s' = 0 \<and> krl_reads K sh C [] krl' ?P)"
      by (cases "parse_krl_section K sh C KRL_SECTION_CERTIFICATES (s, ?start)") auto
  qed
  from read_krl [OF env out' bytes _ _ this] show ?thesis by (auto simp: string_valid_def)
qed

section \<open>Properties\<close>

text \<open>
  C39. The file format: when a well-formed list has been written to a fresh buffer, reading that buffer (with
  memory, and a key library that reads the keys it writes) leaves the buffer as it is and either
  gives a list with the same header that decides about every key as the written one does, or fails with
  \<^verbatim>\<open>SSH_ERR_BIGNUM_TOO_LARGE\<close>; the failure is possible only for an authority with more than 78 ranges of serials.
\<close>

theorem krl_roundtrip:
  assumes wf: "krl_wf K krl" and cm: "0 \<notin> set (comment_bytes krl)"
    and buf: "sshbuf_new B = Some buf" and run: "ssh_krl_to_blob K A junk now (krl, buf) = (Inr (), (krl1, out))"
    and env: "reader_env K sh C" and blobs: "blobs_ok K"
  shows "(\<exists>krl2. ssh_krl_from_blob K sh C out = (Inr (Some krl2), out) \<and>
       krl_version krl2 = krl_version krl \<and> generated_date krl2 = generated_date krl1 \<and> krl_flags krl2 = krl_flags krl \<and>
       comment krl2 = Some (comment_bytes krl) \<and> krl_same K krl krl2 \<and>
       (\<forall>key. ssh_krl_check_key K C krl2 key = Inr () \<longleftrightarrow> ssh_krl_check_key K A krl key = Inr ())) \<or>
    (ssh_krl_from_blob K sh C out = (Inl SSH_ERR_BIGNUM_TOO_LARGE, out) \<and> (\<exists>rc \<in> set (revoked_cas krl). 78 < length (revoked_serials rc)))"
proof -
  have b: "sect_buf buf" "sshbuf_bytes buf = []" using sect_buf_new [OF buf] by simp_all
  show ?thesis
  proof (rule to_blob_Inr [OF run b wf])
    fix es assume es: "map fst es = revoked_cas krl" "\<forall>e \<in> set es. entry_ok K e" and out: "sect_buf out" and c: "string_valid (comment_bytes krl)"
      and bytes: "sshbuf_bytes out = header_enc (krl_version krl) (generated_date krl1) (krl_flags krl) (comment_bytes krl) @ concat (map entry_enc es) @
        blobs_enc KRL_SECTION_EXPLICIT_KEY (revoked_keys krl) @ blobs_enc KRL_SECTION_FINGERPRINT_SHA1 (revoked_sha1s krl) @
        blobs_enc KRL_SECTION_FINGERPRINT_SHA256 (revoked_sha256s krl) @ []"
      and vs: "blobs_valid (revoked_keys krl)" "blobs_valid (revoked_sha1s krl)" "blobs_valid (revoked_sha256s krl)"
    have ok: "sshbuf_ok out" "sb_refcount out < SSHBUF_REFS_MAX" using out by (auto simp: sect_buf_def sshbuf_writable_def sshbuf_consts)
    from read_krl [OF env ok bytes c cm read_back [OF env blobs wf es vs refl]] show ?thesis
      using krl_same_decides [of K krl] by blast
  qed
qed

theorem krl_roundtrip_witness:
  "\<exists>krl1 out krl2. ssh_krl_to_blob tagged_keys demo_allocator (\<lambda>_. 0) 7 (alternating_krl 3, demo_buf) = (Inr (), (krl1, out)) \<and>
     ssh_krl_from_blob tagged_keys demo_shape demo_allocator out = (Inr (Some krl2), out) \<and> krl_same tagged_keys (alternating_krl 3) krl2"
proof -
  obtain krl1 out where run: "ssh_krl_to_blob tagged_keys demo_allocator (\<lambda>_. 0) 7 (alternating_krl 3, demo_buf) = (Inr (), (krl1, out))"
    by (rule small_written)
  have "0 \<notin> set (comment_bytes (alternating_krl 3 :: u8 list ssh_krl))" by (simp add: small_krl(2))
  note rt = krl_roundtrip [OF small_krl(1) this demo_buf_new run tagged_keys_ok]
  then have "\<exists>krl2. ssh_krl_from_blob tagged_keys demo_shape demo_allocator out = (Inr (Some krl2), out) \<and> krl_same tagged_keys (alternating_krl 3) krl2"
    using small_krl(3,4) by auto
  then show ?thesis using run by blast
qed



end
