(* ===== verification/Auth_Methods.thy ===== *)
theory Auth_Methods
  imports Cstring "HOL-Library.Sublist"
begin

text \<open>
  The authentication methods of the server and the lists of methods that a user has to complete, from
  \<^verbatim>\<open>auth2.c\<close>: which methods are enabled and allowed, and how the lists shrink as methods succeed. The
  configuration is the default one of the build, without GSSAPI and PAM.
\<close>

subsection \<open>Methods\<close>

datatype authmethod = Method_none | Method_pubkey | Method_passwd | Method_kbdint | Method_hostbased

fun am_name :: "authmethod \<Rightarrow> string" where
  "am_name Method_none = ''none''"
| "am_name Method_pubkey = ''publickey''"
| "am_name Method_passwd = ''password''"
| "am_name Method_kbdint = ''keyboard-interactive''"
| "am_name Method_hostbased = ''hostbased''"

fun am_synonym :: "authmethod \<Rightarrow> string option" where
  "am_synonym Method_pubkey = Some ''publickey-hostbound-v00@openssh.com''"
| "am_synonym _ = None"

definition authmethods :: "authmethod list" where
  "authmethods = [Method_none, Method_pubkey, Method_passwd, Method_kbdint, Method_hostbased]"

lemma in_authmethods [simp]: "m \<in> set authmethods"
  by (cases m) (simp_all add: authmethods_def)

lemma am_name_inject: "am_name m = am_name n \<longleftrightarrow> m = n"
  by (cases m; cases n) simp_all

lemma am_name_chars: "am_name m \<noteq> []" "CHR '','' \<notin> set (am_name m)" "CHR '':'' \<notin> set (am_name m)"
  by (cases m; simp)+

text \<open>The part of the server's options that authentication uses.\<close>

datatype root_login = PERMIT_NO | PERMIT_FORCED_ONLY | PERMIT_NO_PASSWD | PERMIT_YES

record auth_options =
  opt_auth_methods :: "string list"
  pubkey_authentication :: bool
  password_authentication :: bool
  kbd_interactive_authentication :: bool
  hostbased_authentication :: bool
  permit_empty_passwd :: bool
  max_authtries :: int
  permit_root_login :: root_login
  pubkey_accepted_algos :: string
  hostbased_accepted_algos :: string
  touch_required :: bool
  verify_required :: bool

text \<open>\<open>none\<close> is the static variable \<^verbatim>\<open>none_enabled\<close>.\<close>

fun am_enabled :: "auth_options \<Rightarrow> bool \<Rightarrow> authmethod \<Rightarrow> bool" where
  "am_enabled opts none Method_none = none"
| "am_enabled opts none Method_pubkey = pubkey_authentication opts"
| "am_enabled opts none Method_passwd = password_authentication opts"
| "am_enabled opts none Method_kbdint = kbd_interactive_authentication opts"
| "am_enabled opts none Method_hostbased = hostbased_authentication opts"

definition authmethod_byname :: "string \<Rightarrow> authmethod option" where
  "authmethod_byname name = find (\<lambda>m. name = am_name m \<or> am_synonym m = Some name) authmethods"

lemma byname_name [simp]: "authmethod_byname (am_name m) = Some m"
  by (cases m) (simp_all add: authmethod_byname_def authmethods_def)

subsection \<open>Lists of methods\<close>

datatype match_result = MATCH_NONE | MATCH_METHOD | MATCH_BOTH | MATCH_PARTIAL

definition list_starts_with :: "string \<Rightarrow> string \<Rightarrow> string option \<Rightarrow> match_result" where
  "list_starts_with methods method submethod =
     (let l = length method;
          ends = (\<lambda>p match. if p \<noteq> [] \<and> hd p \<noteq> CHR '','' then MATCH_NONE else match) in
      if take l methods \<noteq> take l method then MATCH_NONE
      else
        let p = drop l methods in
        if p \<noteq> [] \<and> hd p = CHR '':''
        then (case submethod of
                None \<Rightarrow> MATCH_PARTIAL
              | Some sub \<Rightarrow>
                  let l = length sub; p = drop 1 p in
                  if take l sub \<noteq> take l p then MATCH_NONE else ends (drop l p) MATCH_BOTH)
        else ends p MATCH_METHOD)"

definition remove_method :: "string \<Rightarrow> string \<Rightarrow> string option \<Rightarrow> string option" where
  "remove_method omethods method submethod =
     (let match = list_starts_with omethods method submethod in
      if match \<noteq> MATCH_METHOD \<and> match \<noteq> MATCH_BOTH then None
      else
        let p = drop (length method) omethods;
            p = (case submethod of None \<Rightarrow> p | Some sub \<Rightarrow> if match = MATCH_BOTH then drop (1 + length sub) p else p);
            p = (if p \<noteq> [] \<and> hd p = CHR '','' then drop 1 p else p)
        in Some p)"

text \<open>The loop over the lists: whether a list started with the method, whether one is complete, the lists.\<close>

fun update_loop :: "string \<Rightarrow> string option \<Rightarrow> bool \<Rightarrow> string list \<Rightarrow> bool \<times> bool \<times> string list" where
  "update_loop method submethod found [] = (found, False, [])"
| "update_loop method submethod found (l # ls) =
     (case remove_method l method submethod of
        None \<Rightarrow> (case update_loop method submethod found ls of (f, c, ls') \<Rightarrow> (f, c, l # ls'))
      | Some l' \<Rightarrow>
          if l' = [] then (True, True, l' # ls)
          else (case update_loop method submethod True ls of (f, c, ls') \<Rightarrow> (f, c, l' # ls')))"

text \<open>No result stands for the call of \<^verbatim>\<open>fatal\<close> when no list started with the method.\<close>

definition auth2_update_methods_lists :: "string list \<Rightarrow> string \<Rightarrow> string option \<Rightarrow> (bool \<times> string list) option" where
  "auth2_update_methods_lists mls method submethod =
     (case update_loop method submethod False mls of
        (found, complete, ls) \<Rightarrow> if complete then Some (True, ls) else if \<not> found then None else Some (False, ls))"

definition auth2_method_allowed :: "auth_options \<Rightarrow> string list \<Rightarrow> string \<Rightarrow> string option \<Rightarrow> bool" where
  "auth2_method_allowed opts mls method submethod \<longleftrightarrow>
     opt_auth_methods opts = [] \<or> (\<exists>l \<in> set mls. list_starts_with l method submethod \<noteq> MATCH_NONE)"

definition authmethods_get :: "auth_options \<Rightarrow> bool \<Rightarrow> string list \<Rightarrow> string" where
  "authmethods_get opts none mls =
     joins (CHR '','') (map am_name (filter (\<lambda>m.
       am_name m \<noteq> ''none'' \<and> am_enabled opts none m \<and> auth2_method_allowed opts mls (am_name m) None) authmethods))"

definition authmethod_lookup :: "auth_options \<Rightarrow> bool \<Rightarrow> string list \<Rightarrow> string \<Rightarrow> authmethod option" where
  "authmethod_lookup opts none mls name =
     (case authmethod_byname name of
        None \<Rightarrow> None
      | Some m \<Rightarrow>
          if \<not> am_enabled opts none m then None
          else if \<not> auth2_method_allowed opts mls (am_name m) None then None
          else Some m)"

text \<open>One entry of a list: the name before a colon is a method, which is enabled if that is asked for.\<close>

definition entry_valid :: "auth_options \<Rightarrow> bool \<Rightarrow> bool \<Rightarrow> string \<Rightarrow> bool" where
  "entry_valid opts none need_enable e \<longleftrightarrow>
     (case find (\<lambda>m. takeWhile (\<lambda>c. c \<noteq> CHR '':'') e = am_name m) authmethods of
        None \<Rightarrow> False
      | Some m \<Rightarrow> need_enable \<longrightarrow> am_enabled opts none m)"

function valid_loop :: "auth_options \<Rightarrow> bool \<Rightarrow> bool \<Rightarrow> string option \<Rightarrow> bool" where
  "valid_loop opts none need_enable sp =
     (case strsep '','' sp of
        (None, _) \<Rightarrow> True
      | (Some e, sp') \<Rightarrow> entry_valid opts none need_enable e \<and> valid_loop opts none need_enable sp')"
  by pat_completeness auto
termination
  by (relation "measure (\<lambda>(_, _, _, sp). case sp of None \<Rightarrow> 0 | Some s \<Rightarrow> Suc (length s))")
    (auto simp: strsep_def split: option.splits prod.splits dest: strsep_scan_shorter)

declare valid_loop.simps [simp del]

definition auth2_methods_valid :: "auth_options \<Rightarrow> bool \<Rightarrow> string \<Rightarrow> bool \<Rightarrow> bool" where
  "auth2_methods_valid opts none methods need_enable \<longleftrightarrow>
     methods \<noteq> [] \<and> valid_loop opts none need_enable (Some methods)"

text \<open>The configuration without the pseudo-method, and the lists that are left; no list is a failure.\<close>

definition auth2_setup_methods_lists :: "auth_options \<Rightarrow> bool \<Rightarrow> string list \<Rightarrow> bool \<times> auth_options \<times> string list" where
  "auth2_setup_methods_lists opts none mls =
     (let opts = (if opt_auth_methods opts = [''any''] then opts\<lparr>opt_auth_methods := []\<rparr> else opts) in
      if opt_auth_methods opts = [] then (True, opts, mls)
      else
        let ls = filter (\<lambda>l. auth2_methods_valid opts none l True) (opt_auth_methods opts)
        in (ls \<noteq> [], opts, ls))"

subsection \<open>What the functions do\<close>

text \<open>An entry of a list is satisfied by a method, or by a method with the submethod that it names.\<close>

definition satisfies :: "string \<times> string option \<Rightarrow> string \<Rightarrow> bool" where
  "satisfies p e \<longleftrightarrow> e = fst p \<or> (\<exists>sub. snd p = Some sub \<and> e = fst p @ CHR '':'' # sub)"

lemma valid_loop_splits:
  "valid_loop opts none need (Some s) \<longleftrightarrow> (\<forall>e \<in> set (splits (CHR '','') s). entry_valid opts none need e)"
proof (induction s rule: length_induct)
  case (1 s)
  obtain t rest where st: "strsep '','' (Some s) = (Some t, rest)" "splits (CHR '','') s = t # (case rest of None \<Rightarrow> [] | Some r \<Rightarrow> splits (CHR '','') r)"
    by (cases "strsep '','' (Some s)") (metis strsep_splits)
  show ?case
  proof (cases rest)
    case None
    then show ?thesis using st by (simp add: valid_loop.simps)
  next
    case (Some r)
    then have "length r < length s" using st(1) by (auto dest: strsep_shorter)
    then show ?thesis using 1 st Some by (subst valid_loop.simps) simp
  qed
qed

lemma no_empty_entry: "\<not> entry_valid opts none need []"
  by (simp add: entry_valid_def authmethods_def)

lemma methods_valid_iff:
  "auth2_methods_valid opts none l need \<longleftrightarrow> (\<forall>e \<in> set (splits (CHR '','') l). entry_valid opts none need e)"
  using no_empty_entry [of opts none need] by (auto simp: auth2_methods_valid_def valid_loop_splits)

text \<open>Removing a method is removing the first entry, if the method satisfies it.\<close>

lemma prefix_take: "take (length m) l = take (length m) m \<longleftrightarrow> (\<exists>r. l = m @ r)"
  by (metis append_eq_conv_conj append_take_drop_id take_all order_refl)

lemma splits_comma:
  assumes "CHR '','' \<notin> set e" and "r = [] \<or> (\<exists>r'. r = CHR '','' # r')"
  shows "splits (CHR '','') (e @ r) = e # (if r = [] then [] else splits (CHR '','') (tl r))"
  using assms splits_append [of "CHR '',''" e] splits_single [of "CHR '',''" e] by auto

lemma starts_with_other: "take (length m) l \<noteq> take (length m) m \<Longrightarrow> list_starts_with l m sub = MATCH_NONE"
  by (simp add: list_starts_with_def)

lemma starts_with_method: "r = [] \<or> hd r \<noteq> CHR '':'' \<Longrightarrow>
    list_starts_with (m @ r) m sub = (if r \<noteq> [] \<and> hd r \<noteq> CHR '','' then MATCH_NONE else MATCH_METHOD)"
  by (auto simp: list_starts_with_def Let_def)

lemma starts_with_colon: "list_starts_with (m @ CHR '':'' # q) m sub =
    (case sub of None \<Rightarrow> MATCH_PARTIAL
     | Some s \<Rightarrow> if take (length s) s \<noteq> take (length s) q then MATCH_NONE
         else if drop (length s) q \<noteq> [] \<and> hd (drop (length s) q) \<noteq> CHR '','' then MATCH_NONE else MATCH_BOTH)"
  by (simp add: list_starts_with_def Let_def split: option.splits)

lemma remove_method_Some:
  assumes run: "remove_method l m sub = Some l'" and m: "CHR '','' \<notin> set m" and sub: "\<forall>s. sub = Some s \<longrightarrow> CHR '','' \<notin> set s"
  obtains e where "splits (CHR '','') l = e # (if l' = [] \<and> length (splits (CHR '','') l) = 1 then [] else splits (CHR '','') l')"
    and "satisfies (m, sub) e"
proof -
  have mt: "list_starts_with l m sub = MATCH_METHOD \<or> list_starts_with l m sub = MATCH_BOTH"
    using run unfolding remove_method_def Let_def by (rule contrapos_pp) simp
  then have "take (length m) l = take (length m) m" using starts_with_other by fastforce
  then obtain r where l: "l = m @ r" using prefix_take by blast
  have fin: "splits (CHR '','') l = e # (if l' = [] \<and> length (splits (CHR '','') l) = 1 then [] else splits (CHR '','') l')"
    if "l = e @ p" "CHR '','' \<notin> set e" "p = [] \<or> (\<exists>q. p = CHR '','' # q)" "l' = (if p \<noteq> [] \<and> hd p = CHR '','' then drop 1 p else p)" for e p
    using splits_comma [OF that(2,3)] that by (auto simp: drop_Suc)
  show thesis
  proof (cases "r \<noteq> [] \<and> hd r = CHR '':''")
    case True
    then obtain q where q: "l = m @ CHR '':'' # q" using l by (cases r) auto
    obtain s where s: "sub = Some s" using mt unfolding q starts_with_colon by (cases sub) auto
    have b: "list_starts_with l m sub = MATCH_BOTH" "take (length s) s = take (length s) q" "drop (length s) q = [] \<or> hd (drop (length s) q) = CHR '',''"
      using mt unfolding q starts_with_colon s by (auto split: if_splits)
    obtain p where p: "q = s @ p" using b(2) prefix_take [of s q] by metis
    have e: "p = [] \<or> (\<exists>q. p = CHR '','' # q)" using b(3) p by (cases p) auto
    have "l' = (if p \<noteq> [] \<and> hd p = CHR '','' then drop 1 p else p)" using run unfolding remove_method_def b(1) by (simp add: q p s)
    then show thesis using fin [of "m @ CHR '':'' # s" p] q p s m sub e that [of "m @ CHR '':'' # s"] by (simp add: satisfies_def)
  next
    case False
    have b: "list_starts_with l m sub = MATCH_METHOD" "r = [] \<or> hd r = CHR '',''" using mt False unfolding l by (auto simp: starts_with_method split: if_splits)
    have e: "r = [] \<or> (\<exists>q. r = CHR '','' # q)" using b(2) by (cases r) auto
    have "l' = (if r \<noteq> [] \<and> hd r = CHR '','' then drop 1 r else r)" using run unfolding remove_method_def b(1) by (cases sub) (simp_all add: l)
    then show thesis using fin [OF l m e] that [of m] by (simp add: satisfies_def)
  qed
qed

text \<open>
  The methods that have succeeded, in order, contain one after the other methods that satisfy the entries of
  a list; what is left of a list are the entries that remain.
\<close>

definition completes :: "(string \<times> string option) list \<Rightarrow> string list \<Rightarrow> bool" where
  "completes ps es \<longleftrightarrow> (\<exists>qs. subseq qs ps \<and> list_all2 satisfies qs es)"

definition progress :: "(string \<times> string option) list \<Rightarrow> string \<Rightarrow> string \<Rightarrow> bool" where
  "progress ps L l \<longleftrightarrow> [] \<notin> set (splits (CHR '','') L) \<and>
     (\<exists>es. splits (CHR '','') L = es @ splits (CHR '','') l \<and> completes ps es)"

lemma completes_more: "completes ps es \<Longrightarrow> completes (ps @ [p]) es"
  unfolding completes_def using subseq_rev_drop_many by blast

lemma completes_snoc:
  assumes "completes ps es" and "satisfies p e"
  shows "completes (ps @ [p]) (es @ [e])"
proof -
  obtain qs where "subseq qs ps" "list_all2 satisfies qs es" using assms(1) by (auto simp: completes_def)
  then have "subseq (qs @ [p]) (ps @ [p])" "list_all2 satisfies (qs @ [p]) (es @ [e])" using assms(2)
    by (simp_all add: list_all2_appendI)
  then show ?thesis unfolding completes_def by blast
qed

lemma remove_progress:
  assumes "remove_method l m sub = Some l'" and p: "progress ps L l" and m: "CHR '','' \<notin> set m" and sub: "\<forall>s. sub = Some s \<longrightarrow> CHR '','' \<notin> set s"
  shows "if l' = [] then completes (ps @ [(m, sub)]) (splits (CHR '','') L) else progress (ps @ [(m, sub)]) L l'"
proof -
  obtain e where e: "splits (CHR '','') l = e # (if l' = [] \<and> length (splits (CHR '','') l) = 1 then [] else splits (CHR '','') l')" "satisfies (m, sub) e"
    using remove_method_Some [OF assms(1) m sub] by metis
  obtain es where es: "splits (CHR '','') L = es @ splits (CHR '','') l" "completes ps es" using p by (auto simp: progress_def)
  have c: "completes (ps @ [(m, sub)]) (es @ [e])" by (rule completes_snoc [OF es(2) e(2)])
  have "[] \<notin> set (splits (CHR '','') l)" using p es(1) by (auto simp: progress_def)
  then have "l' = [] \<Longrightarrow> length (splits (CHR '','') l) = 1" using e(1) by (auto split: if_splits)
  then show ?thesis using c es(1) e(1) p by (auto simp: progress_def intro!: exI [of _ "es @ [e]"])
qed

lemma update_loop_progress:
  assumes m: "CHR '','' \<notin> set m" and sub: "\<forall>s. sub = Some s \<longrightarrow> CHR '','' \<notin> set s"
  shows "list_all2 (progress ps) Ls ls \<Longrightarrow> update_loop m sub found ls = (f, c, ls') \<Longrightarrow>
    if c then \<exists>L \<in> set Ls. completes (ps @ [(m, sub)]) (splits (CHR '','') L) else list_all2 (progress (ps @ [(m, sub)])) Ls ls'"
proof (induction Ls ls arbitrary: found f ls' rule: list_all2_induct)
  case Nil
  then show ?case by simp
next
  case (Cons L Ls l ls)
  have keep: "progress (ps @ [(m, sub)]) L l" using Cons.hyps(1) completes_more by (auto simp: progress_def)
  show ?case
  proof (cases "remove_method l m sub")
    case None
    then obtain f1 ls1 where "update_loop m sub found ls = (f1, c, ls1)" "ls' = l # ls1" using Cons.prems by (auto split: prod.splits)
    then show ?thesis using Cons.IH [of found f1 ls1] keep by (auto split: if_splits)
  next
    case (Some l1)
    note r = remove_progress [OF Some Cons.hyps(1) m sub]
    show ?thesis
    proof (cases "l1 = []")
      case True
      then show ?thesis using Cons.prems Some r by auto
    next
      case False
      then obtain f1 ls1 where "update_loop m sub True ls = (f1, c, ls1)" "ls' = l1 # ls1" using Cons.prems Some by (auto split: prod.splits)
      then show ?thesis using Cons.IH [of True f1 ls1] r False by (auto split: if_splits)
    qed
  qed
qed

text \<open>What the call after a success means for the lists.\<close>

lemma update_lists_progress:
  assumes "list_all2 (progress ps) Ls ls" and "CHR '','' \<notin> set m" and "\<forall>s. sub = Some s \<longrightarrow> CHR '','' \<notin> set s"
    and "auth2_update_methods_lists ls m sub = Some (c, ls')"
  shows "if c then \<exists>L \<in> set Ls. completes (ps @ [(m, sub)]) (splits (CHR '','') L) else list_all2 (progress (ps @ [(m, sub)])) Ls ls'"
  using update_loop_progress [OF assms(2,3,1), of False] assms(4)
  by (cases "update_loop m sub False ls") (auto simp: auth2_update_methods_lists_def split: if_splits)

lemma setup_progress:
  assumes "auth2_setup_methods_lists opts none mls = (r, opts', ls)" and "opt_auth_methods opts' \<noteq> []"
  shows "ls = filter (\<lambda>l. auth2_methods_valid opts none l True) (opt_auth_methods opts)" and "opts' = opts"
    and "r \<longleftrightarrow> ls \<noteq> []" and "list_all2 (progress []) ls ls"
proof -
  show eqs: "ls = filter (\<lambda>l. auth2_methods_valid opts none l True) (opt_auth_methods opts)" "opts' = opts" "r \<longleftrightarrow> ls \<noteq> []"
    using assms by (auto simp: auth2_setup_methods_lists_def Let_def split: if_splits)
  have "progress [] l l" if "l \<in> set ls" for l
    using that no_empty_entry by (auto simp: eqs(1) progress_def methods_valid_iff completes_def intro!: exI [of _ "[]"])
  then show "list_all2 (progress []) ls ls" by (simp add: list_all2_same)
qed

end
