(* ===== verification/Auth_State.thy ===== *)
theory Auth_State
  imports Auth_Methods Match Sshbuf_Heap Sshbuf_Misc
begin

text \<open>
  The state of user authentication in the server (\<^verbatim>\<open>auth.h\<close>, \<^verbatim>\<open>auth2.c\<close>), the environment it works in, reading
  the fields of a message, and \<^verbatim>\<open>userauth_finish\<close>, through which every attempt ends. The verdicts, which are 0
  or 1, are truth values. Log messages, delays and what the privileged process is told are left out.
\<close>

subsection \<open>Data\<close>

datatype msg_handler = Protocol_error | Protocol_ignore | Service_request | Userauth_request | Userauth_info_response

text \<open>The fields of \<^verbatim>\<open>struct sshauthopt\<close> that authentication looks at.\<close>

record authopts =
  force_command :: "string option"
  no_require_user_presence :: bool
  require_verify :: bool

text \<open>A device is given by its place in the table \<^verbatim>\<open>devices\<close>.\<close>

record kbdint =
  ki_devices :: "string option"
  ki_ctxt :: bool
  ki_device :: "nat option"
  ki_nreq :: nat
  ki_devices_done :: u32

record 'k authctxt =
  ac_success :: bool
  ac_postponed :: bool
  ac_valid :: bool
  ac_attempt :: int
  ac_failures :: int
  ac_server_caused_failure :: bool
  ac_user :: "string option"
  ac_service :: "string option"
  ac_style :: "string option"
  ac_pw_uid :: u32
  ac_auth_methods :: "string list"
  ac_kbdintctxt :: "kbdint option"
  ac_prev_keys :: "'k list"
  ac_auth_method_key :: "'k option"
  ac_auth_method_info :: "string option"
  ac_session_info :: string

text \<open>The messages that are sent.\<close>

datatype auth_msg =
    Msg_unimplemented u32
  | Msg_service_accept string
  | Msg_banner string
  | Msg_success
  | Msg_failure string bool
  | Msg_info_request string string "(string \<times> u32) list"
  | Msg_pk_ok string "u8 list"

text \<open>
  What the code works on: the context, the options, the static variable of the method \<^verbatim>\<open>none\<close>, the options that
  keys have brought, the table of handlers, the packets to be skipped, the packet that is being read, and the
  messages sent.
\<close>

record 'k auth =
  au_ctxt :: "'k authctxt"
  au_options :: auth_options
  au_none_enabled :: bool
  au_auth_opts :: "authopts option"
  au_dispatch :: "nat \<Rightarrow> msg_handler option"
  au_skip :: nat
  au_incoming :: sshbuf
  au_sent :: "auth_msg list"

text \<open>
  The other modules. The keys, the exchanged values and the table of devices are fixed; what the system and
  the privileged process answer while one message is handled is a \<open>world\<close>.
\<close>

record 'k auth_env =
  env_devices :: "string list"
  key_type_from_name :: "string \<Rightarrow> nat option"
  key_from_blob :: "u8 list \<Rightarrow> 'k option"
  key_type :: "'k \<Rightarrow> nat"
  key_equal :: "'k \<Rightarrow> 'k \<Rightarrow> bool"
  key_equal_public :: "'k \<Rightarrow> 'k \<Rightarrow> bool"
  key_from_private :: "'k \<Rightarrow> 'k option"
  key_format_text :: "'k \<Rightarrow> string"
  key_to_blob :: "'k \<Rightarrow> u8 list"
  check_cert_sigtype :: "'k \<Rightarrow> bool"
  check_rsa_length :: "'k \<Rightarrow> bool"
  kex_session_id :: "u8 list"
  kex_initial_hostkey :: "'k option"
  compat_old_sessionid :: bool
  compat_bug_sigtype :: bool
  authopt_merge :: "authopts \<Rightarrow> authopts \<Rightarrow> authopts option"

record 'k world =
  w_alloc :: allocator
  w_memory :: bool
  w_send :: "auth_msg \<Rightarrow> ssherr option"
  w_getpwnamallow :: "string \<Rightarrow> u32 option"
  w_fake_uid :: u32
  w_banner :: "string option"
  w_auth_password :: "string \<Rightarrow> bool"
  w_init_ctx :: "nat \<Rightarrow> bool"
  w_query :: "nat \<Rightarrow> (string \<times> string \<times> (string \<times> u32) list) option"
  w_respond :: "nat \<Rightarrow> string list \<Rightarrow> int"
  w_user_key_allowed :: "'k \<Rightarrow> bool \<Rightarrow> authopts option"
  w_verify :: "'k \<Rightarrow> u8 list \<Rightarrow> u8 list \<Rightarrow> string option \<Rightarrow> (u32 \<times> u8) option option"
  w_hostbased_key_allowed :: "string \<Rightarrow> string \<Rightarrow> 'k \<Rightarrow> bool"

text \<open>How the handling of a message ends early: the process exits, the peer is disconnected, or an error code is returned.\<close>

datatype auth_exit = Fatal | Disconnect | Crash | Error ssherr

type_synonym ('k, 'a) authop = "(auth_exit, 'k auth, 'a) run"

subsection \<open>Reading a message\<close>

definition from_packet :: "'a bufop \<Rightarrow> (ssherr, 'k auth, 'a) run" where
  "from_packet m s = (case m (au_incoming s) of (r, b) \<Rightarrow> (r, s\<lparr>au_incoming := b\<rparr>))"

definition text_of :: "u8 list \<Rightarrow> string" where
  "text_of bs = cstr (map (\<lambda>b. char_of (unat b)) bs)"

definition sshpkt_get_u8 :: "(ssherr, 'k auth, u8) run" where
  "sshpkt_get_u8 = from_packet sshbuf_get_u8"

definition sshpkt_get_u32 :: "(ssherr, 'k auth, u32) run" where
  "sshpkt_get_u32 = from_packet sshbuf_get_u32"

definition sshpkt_get_string :: "allocator \<Rightarrow> (ssherr, 'k auth, u8 list) run" where
  "sshpkt_get_string A = andthen (from_packet (sshbuf_get_string A True)) (\<lambda>(v, len). ret (case v of None \<Rightarrow> [] | Some bs \<Rightarrow> take len bs))"

definition sshpkt_get_cstring :: "allocator \<Rightarrow> (ssherr, 'k auth, string) run" where
  "sshpkt_get_cstring A = andthen (from_packet (sshbuf_get_cstring A True)) (\<lambda>(v, _). ret (case v of None \<Rightarrow> [] | Some bs \<Rightarrow> text_of bs))"

text \<open>With the length asked for, the bytes are those of the packet, which may end in a NUL.\<close>

definition sshpkt_get_cstring_len :: "allocator \<Rightarrow> (ssherr, 'k auth, string \<times> u8 list) run" where
  "sshpkt_get_cstring_len A =
     andthen (from_packet (sshbuf_get_cstring A True)) (\<lambda>(v, len). ret (case v of None \<Rightarrow> ([], []) | Some bs \<Rightarrow> (text_of bs, take len bs)))"

definition sshpkt_skip_cstring :: "allocator \<Rightarrow> (ssherr, 'k auth, unit) run" where
  "sshpkt_skip_cstring A = andthen (from_packet (sshbuf_get_cstring A False)) (\<lambda>_. ret ())"

definition sshpkt_get_end :: "(ssherr, 'k auth, unit) run" where
  "sshpkt_get_end s = (if sshbuf_len (au_incoming s) > 0 then throw SSH_ERR_UNEXPECTED_TRAILING_DATA s else ret () s)"

definition exits :: "(ssherr \<Rightarrow> auth_exit) \<Rightarrow> (ssherr, 'k auth, 'a) run \<Rightarrow> ('k, 'a) authop" where
  "exits f m s = (case m s of (Inl e, s') \<Rightarrow> (Inl (f e), s') | (Inr x, s') \<Rightarrow> (Inr x, s'))"

abbreviation or_fatal :: "(ssherr, 'k auth, 'a) run \<Rightarrow> ('k, 'a) authop" where
  "or_fatal \<equiv> exits (\<lambda>_. Fatal)"

abbreviation or_error :: "(ssherr, 'k auth, 'a) run \<Rightarrow> ('k, 'a) authop" where
  "or_error \<equiv> exits Error"

subsection \<open>Steps\<close>

definition upd_ctxt :: "('k authctxt \<Rightarrow> 'k authctxt) \<Rightarrow> ('k, unit) authop" where
  "upd_ctxt f s = ret () (s\<lparr>au_ctxt := f (au_ctxt s)\<rparr>)"

definition set_dispatch :: "nat \<Rightarrow> msg_handler option \<Rightarrow> ('k, unit) authop" where
  "set_dispatch t h s = ret () (s\<lparr>au_dispatch := (au_dispatch s)(t := h)\<rparr>)"

text \<open>Starting, filling and sending a packet; a failure of any of these calls is fatal.\<close>

definition send_msg :: "'k world \<Rightarrow> auth_msg \<Rightarrow> ('k, unit) authop" where
  "send_msg W m s = (if w_send W m = None then ret () (s\<lparr>au_sent := au_sent s @ [m]\<rparr>) else throw Fatal s)"

definition SSH2_MSG_SERVICE_REQUEST :: nat where "SSH2_MSG_SERVICE_REQUEST = 5"
definition SSH2_MSG_USERAUTH_REQUEST :: nat where "SSH2_MSG_USERAUTH_REQUEST = 50"
definition SSH2_MSG_USERAUTH_INFO_RESPONSE :: nat where "SSH2_MSG_USERAUTH_INFO_RESPONSE = 61"

lemmas msg_numbers = SSH2_MSG_SERVICE_REQUEST_def SSH2_MSG_USERAUTH_REQUEST_def SSH2_MSG_USERAUTH_INFO_RESPONSE_def

definition auth2_authctxt_reset_info :: "('k, unit) authop" where
  "auth2_authctxt_reset_info = upd_ctxt (\<lambda>c. c\<lparr>ac_auth_method_key := None, ac_auth_method_info := None\<rparr>)"

definition auth2_record_info :: "'k world \<Rightarrow> string \<Rightarrow> ('k, unit) authop" where
  "auth2_record_info W info =
     andthen (upd_ctxt (\<lambda>c. c\<lparr>ac_auth_method_info := None\<rparr>)) (\<lambda>_.
       if w_memory W then upd_ctxt (\<lambda>c. c\<lparr>ac_auth_method_info := Some info\<rparr>) else throw Fatal)"

definition auth2_record_key :: "'k auth_env \<Rightarrow> 'k world \<Rightarrow> bool \<Rightarrow> 'k \<Rightarrow> ('k, unit) authop" where
  "auth2_record_key E W authenticated key =
     (case key_from_private E key of
        None \<Rightarrow> throw Fatal
      | Some dup \<Rightarrow>
          andthen (upd_ctxt (\<lambda>c. c\<lparr>ac_auth_method_key := Some dup\<rparr>)) (\<lambda>_ s.
            if \<not> authenticated then ret () s
            else if int (length (ac_prev_keys (au_ctxt s))) \<ge> INT_MAX \<or> \<not> w_memory W then throw Fatal s
            else upd_ctxt (\<lambda>c. c\<lparr>ac_prev_keys := ac_prev_keys c @ [dup]\<rparr>) s))"

definition auth2_key_already_used :: "'k auth_env \<Rightarrow> 'k \<Rightarrow> 'k authctxt \<Rightarrow> bool" where
  "auth2_key_already_used E key c \<longleftrightarrow> (\<exists>k \<in> set (ac_prev_keys c). key_equal_public E key k)"

text \<open>The line that is added to the session information.\<close>

definition session_line :: "string \<Rightarrow> string option \<Rightarrow> string \<Rightarrow> string" where
  "session_line method submethod rest =
     method @ (case submethod of None \<Rightarrow> [] | Some s \<Rightarrow> CHR ''/'' # s) @ rest @ [CHR 0x0A]"

definition auth2_update_session_info :: "'k auth_env \<Rightarrow> 'k world \<Rightarrow> string \<Rightarrow> string option \<Rightarrow> ('k, unit) authop" where
  "auth2_update_session_info E W method submethod s =
     (let c = au_ctxt s;
          key = (case ac_auth_method_key c of None \<Rightarrow> [] | Some k \<Rightarrow> CHR '' '' # key_format_text E k);
          info = (case ac_auth_method_info c of None \<Rightarrow> [] | Some i \<Rightarrow> CHR '' '' # i) in
      if \<not> w_memory W \<or> CHR 0x0A \<in> set info then throw Fatal s
      else upd_ctxt (\<lambda>c. c\<lparr>ac_session_info := ac_session_info c @ session_line method submethod (key @ info)\<rparr>) s)"

subsection \<open>The end of an attempt\<close>

definition auth_root_allowed :: "string \<Rightarrow> ('k, bool) authop" where
  "auth_root_allowed method s =
     (case permit_root_login (au_options s) of
        PERMIT_YES \<Rightarrow> ret True s
      | PERMIT_NO_PASSWD \<Rightarrow> ret (method = ''publickey'' \<or> method = ''hostbased'' \<or> method = ''gssapi-with-mic'') s
      | PERMIT_FORCED_ONLY \<Rightarrow>
          (case au_auth_opts s of None \<Rightarrow> throw Crash s | Some a \<Rightarrow> ret (force_command a \<noteq> None) s)
      | PERMIT_NO \<Rightarrow> ret False s)"

text \<open>The sanity checks; the result is the primary name of the method.\<close>

definition finish_name :: "bool \<Rightarrow> string \<Rightarrow> ('k, string) authop" where
  "finish_name authenticated packet_method s =
     (if \<not> authenticated then ret packet_method s
      else if \<not> ac_valid (au_ctxt s) then throw Fatal s
      else if ac_postponed (au_ctxt s) then throw Fatal s
      else (case authmethod_byname packet_method of None \<Rightarrow> throw Fatal s | Some m \<Rightarrow> ret (am_name m) s))"

definition finish_root :: "bool \<Rightarrow> string \<Rightarrow> ('k, bool) authop" where
  "finish_root authenticated method s =
     (if authenticated \<and> ac_pw_uid (au_ctxt s) = 0
      then andthen (auth_root_allowed method) (\<lambda>ok. ret (if ok then authenticated else False)) s
      else ret authenticated s)"

definition finish_lists :: "bool \<Rightarrow> string \<Rightarrow> string option \<Rightarrow> ('k, bool \<times> bool) authop" where
  "finish_lists authenticated method submethod s =
     (if authenticated \<and> opt_auth_methods (au_options s) \<noteq> []
      then (case auth2_update_methods_lists (ac_auth_methods (au_ctxt s)) method submethod of
              None \<Rightarrow> throw Fatal s
            | Some (complete, ls) \<Rightarrow>
                andthen (upd_ctxt (\<lambda>c. c\<lparr>ac_auth_methods := ls\<rparr>)) (\<lambda>_.
                  ret (if complete then (authenticated, False) else (False, True))) s)
      else ret (authenticated, False) s)"

definition finish_success :: "'k world \<Rightarrow> ('k, unit) authop" where
  "finish_success W =
     andthen (set_dispatch SSH2_MSG_USERAUTH_REQUEST (Some Protocol_ignore)) (\<lambda>_.
     andthen (send_msg W Msg_success) (\<lambda>_.
       upd_ctxt (\<lambda>c. c\<lparr>ac_success := True\<rparr>)))"

definition finish_failure :: "'k world \<Rightarrow> bool \<Rightarrow> string \<Rightarrow> ('k, unit) authop" where
  "finish_failure W partial method =
     andthen (\<lambda>s.
       if \<not> partial \<and> \<not> ac_server_caused_failure (au_ctxt s) \<and> (ac_attempt (au_ctxt s) > 1 \<or> method \<noteq> ''none'')
       then upd_ctxt (\<lambda>c. c\<lparr>ac_failures := ac_failures c + 1\<rparr>) s else ret () s) (\<lambda>_ s.
       if ac_failures (au_ctxt s) \<ge> max_authtries (au_options s) then throw Disconnect s
       else if \<not> w_memory W then throw Fatal s
       else send_msg W (Msg_failure (authmethods_get (au_options s) (au_none_enabled s) (ac_auth_methods (au_ctxt s))) partial) s)"

definition userauth_finish :: "'k auth_env \<Rightarrow> 'k world \<Rightarrow> bool \<Rightarrow> string \<Rightarrow> string option \<Rightarrow> ('k, unit) authop" where
  "userauth_finish E W authenticated packet_method submethod =
     andthen (finish_name authenticated packet_method) (\<lambda>method.
     andthen (finish_root authenticated method) (\<lambda>authenticated.
     andthen (finish_lists authenticated method submethod) (\<lambda>(authenticated, partial).
     andthen (if authenticated \<or> partial then auth2_update_session_info E W method submethod else ret ()) (\<lambda>_ s.
       if ac_postponed (au_ctxt s) then ret () s
       else if authenticated then finish_success W s
       else finish_failure W partial method s))))"

end
