(* ===== verification/Auth_Kbdint.thy ===== *)
theory Auth_Kbdint
  imports Auth_State
begin

text \<open>
  The methods \<^verbatim>\<open>none\<close>, \<^verbatim>\<open>password\<close> and \<^verbatim>\<open>keyboard-interactive\<close> (\<^verbatim>\<open>auth2-none.c\<close>, \<^verbatim>\<open>auth2-passwd.c\<close>, \<^verbatim>\<open>auth2-kbdint.c\<close>,
  \<^verbatim>\<open>auth2-chall.c\<close>). The last one asks the devices that the client names, one after the other; the answers
  arrive in messages of their own.
\<close>

definition userauth_none :: "'k world \<Rightarrow> ('k, bool) authop" where
  "userauth_none W =
     andthen (\<lambda>s. ret () (s\<lparr>au_none_enabled := False\<rparr>)) (\<lambda>_.
     andthen (or_fatal sshpkt_get_end) (\<lambda>_ s.
       if permit_empty_passwd (au_options s) \<and> password_authentication (au_options s) then ret (w_auth_password W []) s
       else ret False s))"

definition userauth_passwd :: "'k world \<Rightarrow> ('k, bool) authop" where
  "userauth_passwd W =
     or_fatal
       (andthen sshpkt_get_u8 (\<lambda>change.
        andthen (sshpkt_get_cstring (w_alloc W)) (\<lambda>password.
        andthen (if change \<noteq> 0 then sshpkt_skip_cstring (w_alloc W) else ret ()) (\<lambda>_.
        andthen sshpkt_get_end (\<lambda>_.
          ret (change = 0 \<and> w_auth_password W password))))))"

subsection \<open>Devices\<close>

definition kbdint_alloc :: "'k auth_env \<Rightarrow> string \<Rightarrow> kbdint" where
  "kbdint_alloc E devs =
     \<lparr>ki_devices = Some (if devs = [] then joins (CHR '','') (env_devices E) else devs),
      ki_ctxt = False, ki_device = None, ki_nreq = 0, ki_devices_done = 0\<rparr>"

definition kbdint_reset_device :: "kbdint \<Rightarrow> kbdint" where
  "kbdint_reset_device k = k\<lparr>ki_ctxt := False, ki_device := None\<rparr>"

text \<open>One step of the loop over the table: \<open>d\<close> is what is left of the client's list, \<open>len\<close> the length of its first name.\<close>

definition try_device :: "(string \<Rightarrow> bool) \<Rightarrow> string \<Rightarrow> nat \<Rightarrow> nat \<times> string \<Rightarrow> kbdint \<Rightarrow> kbdint" where
  "try_device allowed d len iname k =
     (case iname of (i, name) \<Rightarrow>
        if bit (ki_devices_done k) i \<or> \<not> allowed name then k
        else if take len d = take len name then k\<lparr>ki_device := Some i, ki_devices_done := set_bit i (ki_devices_done k)\<rparr>
        else k)"

function device_loop :: "'k auth_env \<Rightarrow> (string \<Rightarrow> bool) \<Rightarrow> kbdint \<Rightarrow> kbdint" where
  "device_loop E allowed k =
     (case ki_devices k of
        None \<Rightarrow> k
      | Some d \<Rightarrow>
          let len = length (takeWhile (\<lambda>c. c \<noteq> CHR '','') d) in
          if len = 0 then k
          else
            let k1 = fold (try_device allowed d len) (enumerate 0 (env_devices E)) k;
                k2 = k1\<lparr>ki_devices := (if len < length d then Some (drop (len + 1) d) else None)\<rparr>
            in if ki_devices k2 \<noteq> None \<and> ki_device k2 = None then device_loop E allowed k2 else k2)"
  by pat_completeness auto
termination
proof (relation "measure (\<lambda>(_, _, k). case ki_devices k of None \<Rightarrow> 0 | Some d \<Rightarrow> Suc (length d))", goal_cases)
  case (2 E allowed k d len k1 k2)
  then show ?case by (auto split: if_splits)
qed simp

declare device_loop.simps [simp del]

definition kbdint_next_device :: "'k auth_env \<Rightarrow> (string \<Rightarrow> bool) \<Rightarrow> kbdint \<Rightarrow> kbdint" where
  "kbdint_next_device E allowed k = device_loop E allowed (if ki_device k \<noteq> None then kbdint_reset_device k else k)"

subsection \<open>Challenges\<close>

definition auth2_challenge_stop :: "('k, unit) authop" where
  "auth2_challenge_stop =
     andthen (set_dispatch SSH2_MSG_USERAUTH_INFO_RESPONSE None) (\<lambda>_.
       upd_ctxt (\<lambda>c. c\<lparr>ac_kbdintctxt := None\<rparr>))"

text \<open>The functions below are called with a context, and where the code dereferences it, a missing one ends in a crash.\<close>

definition upd_kbdint :: "(kbdint \<Rightarrow> kbdint) \<Rightarrow> ('k, unit) authop" where
  "upd_kbdint f = upd_ctxt (\<lambda>c. c\<lparr>ac_kbdintctxt := map_option f (ac_kbdintctxt c)\<rparr>)"

definition send_userauth_info_request :: "'k world \<Rightarrow> ('k, bool) authop" where
  "send_userauth_info_request W s =
     (case ac_kbdintctxt (au_ctxt s) of
        None \<Rightarrow> throw Crash s
      | Some k \<Rightarrow>
          (case ki_device k of
             None \<Rightarrow> throw Crash s
           | Some i \<Rightarrow>
               (case w_query W i of
                  None \<Rightarrow> ret False s
                | Some (name, instr, prompts) \<Rightarrow>
                    andthen (upd_kbdint (\<lambda>k. k\<lparr>ki_nreq := length prompts\<rparr>)) (\<lambda>_.
                    andthen (send_msg W (Msg_info_request name instr prompts)) (\<lambda>_. ret True)) s)))"

definition auth2_challenge_start :: "'k auth_env \<Rightarrow> 'k world \<Rightarrow> ('k, bool) authop" where
  "auth2_challenge_start E W =
     andthen (\<lambda>s. upd_kbdint (kbdint_next_device E (\<lambda>name.
        auth2_method_allowed (au_options s) (ac_auth_methods (au_ctxt s)) ''keyboard-interactive'' (Some name))) s) (\<lambda>_ s.
     case ac_kbdintctxt (au_ctxt s) of
       None \<Rightarrow> throw Crash s
     | Some k \<Rightarrow>
         (case ki_device k of
            None \<Rightarrow> andthen auth2_challenge_stop (\<lambda>_. ret False) s
          | Some i \<Rightarrow>
              if \<not> w_init_ctx W i then andthen auth2_challenge_stop (\<lambda>_. ret False) s
              else
                andthen (upd_kbdint (\<lambda>k. k\<lparr>ki_ctxt := True\<rparr>)) (\<lambda>_.
                andthen (send_userauth_info_request W) (\<lambda>sent.
                  if \<not> sent then andthen auth2_challenge_stop (\<lambda>_. ret False)
                  else
                    andthen (set_dispatch SSH2_MSG_USERAUTH_INFO_RESPONSE (Some Userauth_info_response)) (\<lambda>_.
                    andthen (upd_ctxt (\<lambda>c. c\<lparr>ac_postponed := True\<rparr>)) (\<lambda>_. ret False)))) s))"

definition auth2_challenge :: "'k auth_env \<Rightarrow> 'k world \<Rightarrow> string \<Rightarrow> ('k, bool) authop" where
  "auth2_challenge E W devs s =
     (if ac_user (au_ctxt s) = None then ret False s
      else andthen (\<lambda>s. if ac_kbdintctxt (au_ctxt s) = None then upd_ctxt (\<lambda>c. c\<lparr>ac_kbdintctxt := Some (kbdint_alloc E devs)\<rparr>) s else ret () s)
             (\<lambda>_. auth2_challenge_start E W) s)"

definition userauth_kbdint :: "'k auth_env \<Rightarrow> 'k world \<Rightarrow> ('k, bool) authop" where
  "userauth_kbdint E W =
     andthen (or_fatal
       (andthen (sshpkt_get_cstring (w_alloc W)) (\<lambda>lang.
        andthen (sshpkt_get_cstring (w_alloc W)) (\<lambda>devs.
        andthen sshpkt_get_end (\<lambda>_. ret devs))))) (\<lambda>devs s.
       if kbd_interactive_authentication (au_options s) then auth2_challenge E W devs s else ret False s)"

fun get_responses :: "allocator \<Rightarrow> nat \<Rightarrow> (ssherr, 'k auth, string list) run" where
  "get_responses A 0 = ret []"
| "get_responses A (Suc n) = andthen (sshpkt_get_cstring A) (\<lambda>r. andthen (get_responses A n) (\<lambda>rs. ret (r # rs)))"

text \<open>The parsing of the answers: as many as were asked for.\<close>

definition read_responses :: "'k world \<Rightarrow> nat \<Rightarrow> ('k, string list) authop" where
  "read_responses W nreq =
     andthen (or_fatal sshpkt_get_u32) (\<lambda>nresp.
       if unat nresp \<noteq> nreq then throw Fatal
       else if nresp > 100 then throw Fatal
       else or_fatal (andthen (get_responses (w_alloc W) (unat nresp)) (\<lambda>rs. andthen sshpkt_get_end (\<lambda>_. ret rs))))"

definition input_userauth_info_response :: "'k auth_env \<Rightarrow> 'k world \<Rightarrow> ('k, unit) authop" where
  "input_userauth_info_response E W s =
     (case ac_kbdintctxt (au_ctxt s) of
        None \<Rightarrow> throw Fatal s
      | Some k \<Rightarrow>
          if \<not> ki_ctxt k then throw Fatal s
          else (case ki_device k of
             None \<Rightarrow> throw Fatal s
           | Some i \<Rightarrow>
               andthen (upd_ctxt (\<lambda>c. c\<lparr>ac_postponed := False\<rparr>)) (\<lambda>_.
               andthen (read_responses W (ki_nreq k)) (\<lambda>response.
               andthen (
                 if w_respond W i response = 0 then (\<lambda>s. ret (ac_valid (au_ctxt s)) s)
                 else if w_respond W i response = 1
                 then andthen (send_userauth_info_request W) (\<lambda>sent.
                        andthen (if sent then upd_ctxt (\<lambda>c. c\<lparr>ac_postponed := True\<rparr>) else ret ()) (\<lambda>_. ret False))
                 else ret False) (\<lambda>authenticated.
               andthen (\<lambda>s.
                 if ac_postponed (au_ctxt s) then ret () s
                 else if authenticated then auth2_challenge_stop s
                 else andthen (auth2_challenge_start E W) (\<lambda>_. ret ()) s) (\<lambda>_.
                 userauth_finish E W authenticated ''keyboard-interactive'' (Some (env_devices E ! i)))))) s))"

end
