(* ===== verification/Auth_Pubkey.thy ===== *)
theory Auth_Pubkey
  imports Auth_Kbdint
begin

text \<open>
  The methods \<^verbatim>\<open>publickey\<close> and \<^verbatim>\<open>hostbased\<close> (\<^verbatim>\<open>auth2-pubkey.c\<close>, \<^verbatim>\<open>auth2-hostbased.c\<close>): the checks of the offered key,
  the data that has to be signed, and the verification. Whether a key is authorised for the user, and whether a
  signature is good, are answers of the world.
\<close>

subsection \<open>The signed data\<close>

definition bytes_of :: "string \<Rightarrow> u8 list" where
  "bytes_of s = map byte_of s"

text \<open>The fields are written to a new buffer; a failure is fatal.\<close>

definition build :: "allocator \<Rightarrow> unit bufop list \<Rightarrow> ('k, u8 list) authop" where
  "build A puts =
     (case sshbuf_new A of
        None \<Rightarrow> throw Fatal
      | Some b \<Rightarrow> (case put_all (\<lambda>p. p) puts b of (Inl e, _) \<Rightarrow> throw Fatal | (Inr _, b') \<Rightarrow> ret (sshbuf_seen b')))"

definition put_session_id :: "'k auth_env \<Rightarrow> allocator \<Rightarrow> unit bufop" where
  "put_session_id E A = (if compat_old_sessionid E then sshbuf_put A (kex_session_id E) else sshbuf_put_string A (kex_session_id E))"

definition style_suffix :: "string option \<Rightarrow> string" where
  "style_suffix style = (case style of None \<Rightarrow> [] | Some s \<Rightarrow> CHR '':'' # s)"

definition pubkey_data ::
    "'k auth_env \<Rightarrow> allocator \<Rightarrow> 'k authctxt \<Rightarrow> string \<Rightarrow> u8 \<Rightarrow> string \<Rightarrow> u8 list \<Rightarrow> 'k option \<Rightarrow> unit bufop list" where
  "pubkey_data E A c method have_sig pkalg pkblob hostkey =
     [put_session_id E A, sshbuf_put_u8 A 50,
      sshbuf_put_cstring A (Some (bytes_of (the (ac_user c) @ style_suffix (ac_style c)))),
      sshbuf_put_cstring A (map_option bytes_of (ac_service c)), sshbuf_put_cstring A (Some (bytes_of method)),
      sshbuf_put_u8 A have_sig, sshbuf_put_cstring A (Some (bytes_of pkalg)), sshbuf_put_string A pkblob] @
     (case hostkey of None \<Rightarrow> [] | Some h \<Rightarrow> [sshbuf_put_string A (key_to_blob E h)])"

subsection \<open>Checks of the key\<close>

definition key_acceptable :: "'k auth_env \<Rightarrow> string \<Rightarrow> string \<Rightarrow> 'k \<Rightarrow> bool" where
  "key_acceptable E algos pkalg key \<longleftrightarrow>
     match_pattern_list pkalg algos False = 1 \<and> check_cert_sigtype E key \<and> check_rsa_length E key"

definition decode_key :: "'k auth_env \<Rightarrow> string \<Rightarrow> u8 list \<Rightarrow> 'k option" where
  "decode_key E pkalg pkblob =
     (case key_type_from_name E pkalg of
        None \<Rightarrow> None
      | Some pktype \<Rightarrow>
          (case key_from_blob E pkblob of
             None \<Rightarrow> None
           | Some key \<Rightarrow> if key_type E key \<noteq> pktype then None else Some key))"

text \<open>Printing of \<^verbatim>\<open>%u\<close>.\<close>

fun decimal :: "nat \<Rightarrow> string" where
  "decimal n = (if n < 10 then [char_of (48 + n)] else decimal (n div 10) @ [char_of (48 + n mod 10)])"

declare decimal.simps [simp del]

definition SSH_SK_USER_PRESENCE_REQD :: u8 where "SSH_SK_USER_PRESENCE_REQD = 0x01"
definition SSH_SK_USER_VERIFICATION_REQD :: u8 where "SSH_SK_USER_VERIFICATION_REQD = 0x04"

text \<open>The requirements on the signature of a security key.\<close>

definition sk_requirements :: "auth_options \<Rightarrow> authopts \<Rightarrow> u8 \<Rightarrow> bool" where
  "sk_requirements opts a flags \<longleftrightarrow>
     (touch_required opts \<or> \<not> no_require_user_presence a \<longrightarrow> flags AND SSH_SK_USER_PRESENCE_REQD \<noteq> 0) \<and>
     (verify_required opts \<or> require_verify a \<longrightarrow> flags AND SSH_SK_USER_VERIFICATION_REQD \<noteq> 0)"

definition auth_activate_options :: "'k auth_env \<Rightarrow> authopts \<Rightarrow> ('k, bool) authop" where
  "auth_activate_options E a s =
     (case au_auth_opts s of
        None \<Rightarrow> throw Crash s
      | Some old \<Rightarrow>
          (case authopt_merge E old a of
             None \<Rightarrow> ret False (s\<lparr>au_auth_opts := None\<rparr>)
           | Some m \<Rightarrow> ret True (s\<lparr>au_auth_opts := Some m\<rparr>)))"

subsection \<open>Public keys\<close>

text \<open>The host key of a request that is bound to the host.\<close>

definition read_hostkey :: "'k auth_env \<Rightarrow> allocator \<Rightarrow> ('k, 'k) authop" where
  "read_hostkey E A =
     andthen (or_fatal (from_packet (sshbuf_froms A 0))) (\<lambda>b s.
       case key_from_blob E (sshbuf_seen b) of
         None \<Rightarrow> throw Fatal s
       | Some hostkey \<Rightarrow>
           (case kex_initial_hostkey E of
              None \<Rightarrow> throw Fatal s
            | Some initial \<Rightarrow>
                if \<not> key_equal E hostkey initial then throw Fatal s
                else ret initial (s\<lparr>au_incoming := free_child (Some b) (au_incoming s)\<rparr>)))"

text \<open>
  The verdict on a signature, with the options that the key brings: the label \<^verbatim>\<open>done\<close> of the function
  activates them.
\<close>

definition pubkey_verdict :: "'k auth_env \<Rightarrow> 'k world \<Rightarrow> string \<Rightarrow> 'k \<Rightarrow> u8 list \<Rightarrow> u8 list \<Rightarrow> ('k, authopts option) authop" where
  "pubkey_verdict E W pkalg key sig data =
     (case w_user_key_allowed W key True of
        None \<Rightarrow> andthen (auth2_record_key E W False key) (\<lambda>_. ret None)
      | Some a \<Rightarrow>
          (case w_verify W key sig data (if compat_bug_sigtype E then None else Some pkalg) of
             None \<Rightarrow> andthen (auth2_record_key E W False key) (\<lambda>_. ret None)
           | Some None \<Rightarrow> andthen (auth2_record_key E W True key) (\<lambda>_. ret (Some a))
           | Some (Some (counter, flags)) \<Rightarrow>
               andthen (auth2_record_info W (''signature count = '' @ decimal (unat counter))) (\<lambda>_ s.
                 if \<not> sk_requirements (au_options s) a flags then ret None s
                 else andthen (auth2_record_key E W True key) (\<lambda>_. ret (Some a)) s)))"

text \<open>The branch with a signature.\<close>

definition pubkey_signed ::
    "'k auth_env \<Rightarrow> 'k world \<Rightarrow> string \<Rightarrow> u8 \<Rightarrow> string \<Rightarrow> u8 list \<Rightarrow> 'k option \<Rightarrow> 'k \<Rightarrow> ('k, authopts option) authop" where
  "pubkey_signed E W method have_sig pkalg pkblob hostkey key =
     andthen (or_fatal (andthen (sshpkt_get_string (w_alloc W)) (\<lambda>sig. andthen sshpkt_get_end (\<lambda>_. ret sig)))) (\<lambda>sig s.
       if \<not> ac_valid (au_ctxt s) \<or> ac_user (au_ctxt s) = None
       then andthen (build (w_alloc W) [put_session_id E (w_alloc W)]) (\<lambda>_. ret None) s
       else
         andthen (build (w_alloc W) (pubkey_data E (w_alloc W) (au_ctxt s) method have_sig pkalg pkblob hostkey))
           (pubkey_verdict E W pkalg key sig) s)"

text \<open>The branch that only asks whether the key would do.\<close>

definition pubkey_query :: "'k world \<Rightarrow> string \<Rightarrow> u8 list \<Rightarrow> 'k \<Rightarrow> ('k, authopts option) authop" where
  "pubkey_query W pkalg pkblob key =
     andthen (or_fatal sshpkt_get_end) (\<lambda>_ s.
       if \<not> ac_valid (au_ctxt s) \<or> ac_user (au_ctxt s) = None then ret None s
       else if w_user_key_allowed W key False = None then ret None s
       else
         andthen (send_msg W (Msg_pk_ok pkalg pkblob)) (\<lambda>_.
         andthen (upd_ctxt (\<lambda>c. c\<lparr>ac_postponed := True\<rparr>)) (\<lambda>_. ret None)) s)"

definition userauth_pubkey :: "'k auth_env \<Rightarrow> 'k world \<Rightarrow> string \<Rightarrow> ('k, bool) authop" where
  "userauth_pubkey E W method =
     andthen (or_fatal
       (andthen sshpkt_get_u8 (\<lambda>have_sig.
        andthen (sshpkt_get_cstring (w_alloc W)) (\<lambda>pkalg.
        andthen (sshpkt_get_string (w_alloc W)) (\<lambda>pkblob. ret (have_sig, pkalg, pkblob)))))) (\<lambda>(have_sig, pkalg, pkblob).
     andthen (if method = ''publickey-hostbound-v00@openssh.com''
              then andthen (read_hostkey E (w_alloc W)) (\<lambda>h. ret (Some h)) else ret None) (\<lambda>hostkey.
     andthen (\<lambda>s.
       case decode_key E pkalg pkblob of
         None \<Rightarrow> ret None s
       | Some key \<Rightarrow>
           if auth2_key_already_used E key (au_ctxt s) then ret None s
           else if \<not> key_acceptable E (pubkey_accepted_algos (au_options s)) pkalg key then ret None s
           else if have_sig \<noteq> 0 then pubkey_signed E W method have_sig pkalg pkblob hostkey key s
           else pubkey_query W pkalg pkblob key s) (\<lambda>authopts.
       case authopts of
         None \<Rightarrow> ret False
       | Some a \<Rightarrow> auth_activate_options E a)))"

subsection \<open>Hosts\<close>

definition hostbased_data ::
    "'k auth_env \<Rightarrow> allocator \<Rightarrow> 'k authctxt \<Rightarrow> string \<Rightarrow> u8 list \<Rightarrow> u8 list \<Rightarrow> string \<Rightarrow> string \<Rightarrow> unit bufop list" where
  "hostbased_data E A c method alg pkblob chost cuser =
     [sshbuf_put_string A (kex_session_id E), sshbuf_put_u8 A 50, sshbuf_put_cstring A (map_option bytes_of (ac_user c)),
      sshbuf_put_cstring A (map_option bytes_of (ac_service c)), sshbuf_put_cstring A (Some (bytes_of method)),
      sshbuf_put_string A alg, sshbuf_put_string A pkblob, sshbuf_put_cstring A (Some (bytes_of chost)),
      sshbuf_put_cstring A (Some (bytes_of cuser))]"

definition userauth_hostbased :: "'k auth_env \<Rightarrow> 'k world \<Rightarrow> string \<Rightarrow> ('k, bool) authop" where
  "userauth_hostbased E W method =
     andthen (or_fatal
       (andthen (sshpkt_get_cstring_len (w_alloc W)) (\<lambda>(pkalg, alg).
        andthen (sshpkt_get_string (w_alloc W)) (\<lambda>pkblob.
        andthen (sshpkt_get_cstring (w_alloc W)) (\<lambda>chost.
        andthen (sshpkt_get_cstring (w_alloc W)) (\<lambda>cuser.
        andthen (sshpkt_get_string (w_alloc W)) (\<lambda>sig. ret (pkalg, alg, pkblob, chost, cuser, sig)))))))) (\<lambda>(pkalg, alg, pkblob, chost, cuser, sig) s.
       case decode_key E pkalg pkblob of
         None \<Rightarrow> ret False s
       | Some key \<Rightarrow>
           if \<not> key_acceptable E (hostbased_accepted_algos (au_options s)) pkalg key then ret False s
           else if \<not> ac_valid (au_ctxt s) \<or> ac_user (au_ctxt s) = None then ret False s
           else
             andthen (build (w_alloc W) (hostbased_data E (w_alloc W) (au_ctxt s) method alg pkblob chost cuser)) (\<lambda>data.
             andthen (auth2_record_info W (''client user \"'' @ take 100 cuser @ ''\", client host \"'' @ take 100 chost @ ''\"'')) (\<lambda>_.
               let ok = w_hostbased_key_allowed W cuser chost key \<and> w_verify W key sig data (Some pkalg) \<noteq> None in
               andthen (auth2_record_key E W ok key) (\<lambda>_. ret ok))) s)"

end
