(* ===== verification/Auth2.thy ===== *)
theory Auth2
  imports Auth_Pubkey
begin

text \<open>
  The requests of a client and the loop that handles its messages (\<^verbatim>\<open>auth2.c\<close>, \<^verbatim>\<open>dispatch.c\<close>).
\<close>

subsection \<open>Requests\<close>

fun userauth :: "'k auth_env \<Rightarrow> 'k world \<Rightarrow> authmethod \<Rightarrow> string \<Rightarrow> ('k, bool) authop" where
  "userauth E W Method_none method = userauth_none W"
| "userauth E W Method_pubkey method = userauth_pubkey E W method"
| "userauth E W Method_passwd method = userauth_passwd W"
| "userauth E W Method_kbdint method = userauth_kbdint E W"
| "userauth E W Method_hostbased method = userauth_hostbased E W method"

definition userauth_banner :: "'k world \<Rightarrow> ('k, unit) authop" where
  "userauth_banner W = (case w_banner W of None \<Rightarrow> ret () | Some b \<Rightarrow> send_msg W (Msg_banner b))"

text \<open>The first request sets up the context.\<close>

definition first_request :: "'k world \<Rightarrow> string \<Rightarrow> string \<Rightarrow> string option \<Rightarrow> ('k, unit) authop" where
  "first_request W user service style =
     andthen (upd_ctxt (\<lambda>c. c\<lparr>ac_user := Some user\<rparr>)) (\<lambda>_.
     andthen (upd_ctxt (\<lambda>c.
       case w_getpwnamallow W user of
         Some uid \<Rightarrow> if service = ''ssh-connection'' then c\<lparr>ac_pw_uid := uid, ac_valid := True\<rparr> else c\<lparr>ac_pw_uid := w_fake_uid W, ac_valid := False\<rparr>
       | None \<Rightarrow> c\<lparr>ac_pw_uid := w_fake_uid W, ac_valid := False\<rparr>)) (\<lambda>_.
     andthen (upd_ctxt (\<lambda>c. c\<lparr>ac_service := Some service, ac_style := style\<rparr>)) (\<lambda>_.
     andthen (userauth_banner W) (\<lambda>_ s.
       case auth2_setup_methods_lists (au_options s) (au_none_enabled s) (ac_auth_methods (au_ctxt s)) of
         (ok, opts, ls) \<Rightarrow>
           (if ok then ret () else throw Disconnect)
             (s\<lparr>au_options := opts, au_ctxt := (au_ctxt s)\<lparr>ac_auth_methods := ls\<rparr>\<rparr>)))))"

text \<open>The user, and the style after a colon.\<close>

definition split_style :: "string \<Rightarrow> string \<times> string option" where
  "split_style user =
     (let u = takeWhile (\<lambda>c. c \<noteq> CHR '':'') user in
      (u, if length u < length user then Some (drop (length u + 1) user) else None))"

text \<open>Which context a request is for: the first one sets it up, a later one must agree with it.\<close>

definition open_request :: "'k world \<Rightarrow> string \<Rightarrow> string \<Rightarrow> string option \<Rightarrow> ('k, unit) authop" where
  "open_request W user service style s =
     (if ac_attempt (au_ctxt s) \<ge> 1024 then throw Disconnect s
      else
        andthen (upd_ctxt (\<lambda>c. c\<lparr>ac_attempt := ac_attempt c + 1\<rparr>)) (\<lambda>_.
          if ac_attempt (au_ctxt s) = 0 then first_request W user service style
          else if ac_user (au_ctxt s) \<noteq> Some user \<or> ac_service (au_ctxt s) \<noteq> Some service then throw Disconnect
          else ret ()) s)"

definition try_method :: "'k auth_env \<Rightarrow> 'k world \<Rightarrow> string \<Rightarrow> ('k, bool) authop" where
  "try_method E W method s =
     (case authmethod_lookup (au_options s) (au_none_enabled s) (ac_auth_methods (au_ctxt s)) method of
        None \<Rightarrow> ret False s
      | Some m \<Rightarrow> if ac_failures (au_ctxt s) < max_authtries (au_options s) then userauth E W m method s else ret False s)"

definition input_userauth_request :: "'k auth_env \<Rightarrow> 'k world \<Rightarrow> ('k, unit) authop" where
  "input_userauth_request E W =
     andthen (or_error
       (andthen (sshpkt_get_cstring (w_alloc W)) (\<lambda>user.
        andthen (sshpkt_get_cstring (w_alloc W)) (\<lambda>service.
        andthen (sshpkt_get_cstring (w_alloc W)) (\<lambda>method. ret (user, service, method)))))) (\<lambda>(user, service, method).
     andthen (open_request W (fst (split_style user)) service (snd (split_style user))) (\<lambda>_.
     andthen auth2_challenge_stop (\<lambda>_.
     andthen auth2_authctxt_reset_info (\<lambda>_.
     andthen (upd_ctxt (\<lambda>c. c\<lparr>ac_postponed := False, ac_server_caused_failure := False\<rparr>)) (\<lambda>_.
     andthen (try_method E W method) (\<lambda>authenticated.
       userauth_finish E W authenticated method None))))))"

definition input_service_request :: "'k world \<Rightarrow> ('k, unit) authop" where
  "input_service_request W =
     andthen (or_error (andthen (sshpkt_get_cstring (w_alloc W)) (\<lambda>service. andthen sshpkt_get_end (\<lambda>_. ret service)))) (\<lambda>service s.
       if service = ''ssh-userauth'' \<and> \<not> ac_success (au_ctxt s)
       then
         andthen (set_dispatch SSH2_MSG_USERAUTH_REQUEST (Some Userauth_request)) (\<lambda>_ s.
           case w_send W (Msg_service_accept service) of
             None \<Rightarrow> ret () (s\<lparr>au_sent := au_sent s @ [Msg_service_accept service]\<rparr>)
           | Some e \<Rightarrow> throw (Error e) s) s
       else throw Disconnect s)"

subsection \<open>Dispatch\<close>

definition DISPATCH_MAX :: nat where "DISPATCH_MAX = 255"

definition dispatch_protocol_error :: "'k world \<Rightarrow> u32 \<Rightarrow> ('k, unit) authop" where
  "dispatch_protocol_error W seq = send_msg W (Msg_unimplemented seq)"

definition dispatch_protocol_ignore :: "('k, unit) authop" where
  "dispatch_protocol_ignore = ret ()"

fun handle :: "'k auth_env \<Rightarrow> 'k world \<Rightarrow> u32 \<Rightarrow> msg_handler \<Rightarrow> ('k, unit) authop" where
  "handle E W seq Protocol_error = dispatch_protocol_error W seq"
| "handle E W seq Protocol_ignore = dispatch_protocol_ignore"
| "handle E W seq Service_request = input_service_request W"
| "handle E W seq Userauth_request = input_userauth_request E W"
| "handle E W seq Userauth_info_response = input_userauth_info_response E W"

definition ssh_dispatch_init :: "msg_handler \<Rightarrow> ('k, unit) authop" where
  "ssh_dispatch_init dflt s = ret () (s\<lparr>au_dispatch := (\<lambda>i. if i < DISPATCH_MAX then Some dflt else None)\<rparr>)"

text \<open>
  The loop. \<open>reads i\<close> is what the call number \<open>i\<close> of \<^verbatim>\<open>ssh_packet_read_seqnr\<close> gives: an error, or the type, the number
  and the contents of a packet, with the world in which it is handled. No result means that the loop
  does not end.
\<close>

type_synonym 'k reads = "nat \<Rightarrow> ssherr + (nat \<times> u32 \<times> sshbuf \<times> 'k world)"

partial_function (option) ssh_dispatch_run ::
    "'k auth_env \<Rightarrow> 'k reads \<Rightarrow> nat \<Rightarrow> 'k auth \<Rightarrow> ((auth_exit + unit) \<times> 'k auth) option" where
  "ssh_dispatch_run E reads i s =
     (case reads i of
        Inl e \<Rightarrow> Some (Inl (Error e), s)
      | Inr (type, seqnr, pkt, W) \<Rightarrow>
          let s = s\<lparr>au_incoming := pkt\<rparr> in
          if type > 0 \<and> type < DISPATCH_MAX \<and> au_dispatch s type \<noteq> None then
            (if au_skip s > 0 then ssh_dispatch_run E reads (i + 1) (s\<lparr>au_skip := au_skip s - 1\<rparr>)
             else (case handle E W seqnr (the (au_dispatch s type)) s of
                     (Inl e, s') \<Rightarrow> Some (Inl e, s')
                   | (Inr _, s') \<Rightarrow> if ac_success (au_ctxt s') then Some (Inr (), s') else ssh_dispatch_run E reads (i + 1) s'))
          else Some (Inl Disconnect, s))"

definition do_authentication2 :: "'k auth_env \<Rightarrow> 'k reads \<Rightarrow> 'k auth \<Rightarrow> ((auth_exit + unit) \<times> 'k auth) option" where
  "do_authentication2 E reads s =
     (case andthen (ssh_dispatch_init Protocol_error) (\<lambda>_. set_dispatch SSH2_MSG_SERVICE_REQUEST (Some Service_request)) s of
        (_, s') \<Rightarrow> ssh_dispatch_run E reads 0 s')"

end
