(* ===== verification/Auth2_Safe.thy ===== *)
theory Auth2_Safe
  imports Auth2
begin

text \<open>
  What authentication guarantees. The methods only return a verdict: what decides about the session is
  changed by \<^verbatim>\<open>userauth_finish\<close> and the first request alone.
\<close>

subsection \<open>What the methods leave alone\<close>

text \<open>The fields on which the outcome depends, and that challenges are only kept if the method is
  enabled, and are of devices that exist.\<close>

definition core :: "'k auth \<Rightarrow> auth_options \<times> bool \<times> bool \<times> int \<times> int \<times> string option \<times> string option \<times> u32 \<times> string list \<times> string \<times> nat" where
  "core s = (au_options s, ac_success (au_ctxt s), ac_valid (au_ctxt s), ac_attempt (au_ctxt s), ac_failures (au_ctxt s),
     ac_user (au_ctxt s), ac_service (au_ctxt s), ac_pw_uid (au_ctxt s), ac_auth_methods (au_ctxt s), ac_session_info (au_ctxt s), au_skip s)"

definition kbd_ok :: "'k auth_env \<Rightarrow> 'k auth \<Rightarrow> bool" where
  "kbd_ok E s \<longleftrightarrow> (\<forall>k. ac_kbdintctxt (au_ctxt s) = Some k \<longrightarrow> kbd_interactive_authentication (au_options s) \<and>
     (\<forall>i. ki_device k = Some i \<longrightarrow> i < length (env_devices E)))"

text \<open>The handler for requests is not touched either.\<close>

definition quietly :: "'k auth_env \<Rightarrow> 'k auth \<Rightarrow> 'k auth \<Rightarrow> bool" where
  "quietly E s t \<longleftrightarrow> core t = core s \<and> (kbd_ok E s \<longrightarrow> kbd_ok E t) \<and>
     (\<forall>n. n \<noteq> SSH2_MSG_USERAUTH_INFO_RESPONSE \<longrightarrow> au_dispatch t n = au_dispatch s n)"

definition quiet :: "'k auth_env \<Rightarrow> ('e, 'k auth, 'a) run \<Rightarrow> bool" where
  "quiet E m \<longleftrightarrow> (\<forall>s. quietly E s (snd (m s)))"

named_theorems quiet_intros \<open>computations that leave the core alone\<close>

lemma quietly_refl [simp]: "quietly E s s"
  by (simp add: quietly_def)

lemma quietly_trans: "quietly E s t \<Longrightarrow> quietly E t u \<Longrightarrow> quietly E s u"
  by (simp add: quietly_def)

lemma quietD: "quiet E m \<Longrightarrow> m s = (r, t) \<Longrightarrow> quietly E s t"
  unfolding quiet_def by (metis snd_conv)

lemma quietly_ret [simp]: "quietly E s (snd (ret x s))" "quietly E s (snd (throw e s))"
  by (simp_all add: ret_def throw_def)

lemma quiet_ret [quiet_intros]: "quiet E (ret x)"
  by (simp add: quiet_def ret_def)

lemma quiet_throw [quiet_intros]: "quiet E (throw e)"
  by (simp add: quiet_def throw_def)

lemma quiet_andthen [quiet_intros]:
  assumes "quiet E m" and "\<And>x. quiet E (k x)"
  shows "quiet E (andthen m k)"
  unfolding quiet_def
proof
  fix s
  obtain r t where "m s = (r, t)" by fastforce
  moreover have "quietly E s t" using quietD [OF assms(1)] calculation by blast
  moreover have "quietly E t (snd (k x t))" for x using assms(2) by (simp add: quiet_def)
  ultimately show "quietly E s (snd (andthen m k s))" by (cases r) (auto simp: andthen_def intro: quietly_trans)
qed

text \<open>A computation that looks at the state before it decides what to do.\<close>

lemma quiet_state: "(\<And>s. quietly E s (snd (f s s))) \<Longrightarrow> quiet E (\<lambda>s. f s s)"
  by (simp add: quiet_def)

lemma quiet_at: "quiet E m \<Longrightarrow> quietly E s (snd (m s))"
  by (simp add: quiet_def)

lemma quietly_if: "(c \<Longrightarrow> quietly E s (snd (m s))) \<Longrightarrow> (\<not> c \<Longrightarrow> quietly E s (snd (n s))) \<Longrightarrow> quietly E s (snd (if c then m s else n s))"
  by simp

lemma quiet_exits [quiet_intros]: "quiet E m \<Longrightarrow> quiet E (exits f m)"
  unfolding quiet_def exits_def by (metis (no_types, lifting) prod.case_eq_if snd_conv sum.case_eq_if)

lemma quiet_from_packet [quiet_intros]: "quiet E (from_packet m)"
  by (auto simp: quiet_def from_packet_def quietly_def core_def kbd_ok_def split: prod.splits)

lemma quiet_upd:
  assumes "\<And>c. ac_success (f c) = ac_success c \<and> ac_valid (f c) = ac_valid c \<and> ac_attempt (f c) = ac_attempt c \<and> ac_failures (f c) = ac_failures c \<and>
      ac_user (f c) = ac_user c \<and> ac_service (f c) = ac_service c \<and> ac_pw_uid (f c) = ac_pw_uid c \<and> ac_auth_methods (f c) = ac_auth_methods c \<and>
      ac_session_info (f c) = ac_session_info c \<and> (ac_kbdintctxt (f c) = ac_kbdintctxt c \<or> ac_kbdintctxt (f c) = None)"
  shows "quiet E (upd_ctxt f)"
  unfolding quiet_def
proof
  fix s
  show "quietly E s (snd (upd_ctxt f s))"
    using assms [of "au_ctxt s"] by (elim conjE disjE) (simp_all add: upd_ctxt_def quietly_def core_def kbd_ok_def ret_def)
qed

lemma quiet_send [quiet_intros]: "quiet E (send_msg W m)"
  by (simp add: quiet_def send_msg_def quietly_def core_def kbd_ok_def ret_def throw_def)

lemma quiet_set_dispatch [quiet_intros]: "quiet E (set_dispatch SSH2_MSG_USERAUTH_INFO_RESPONSE h)"
  by (simp add: quiet_def set_dispatch_def quietly_def core_def kbd_ok_def ret_def)

lemma quiet_gets [quiet_intros]:
  "quiet E sshpkt_get_u8" "quiet E sshpkt_get_u32" "quiet E (sshpkt_get_string A)" "quiet E (sshpkt_get_cstring A)"
  "quiet E (sshpkt_get_cstring_len A)" "quiet E (sshpkt_skip_cstring A)" "quiet E sshpkt_get_end"
proof -
  show "quiet E sshpkt_get_u8" "quiet E sshpkt_get_u32" unfolding sshpkt_get_u8_def sshpkt_get_u32_def by (rule quiet_intros)+
  show "quiet E (sshpkt_get_string A)" "quiet E (sshpkt_get_cstring A)" "quiet E (sshpkt_get_cstring_len A)" "quiet E (sshpkt_skip_cstring A)"
    unfolding sshpkt_get_string_def sshpkt_get_cstring_def sshpkt_get_cstring_len_def sshpkt_skip_cstring_def
    by (auto intro!: quiet_intros split: prod.splits)
  show "quiet E sshpkt_get_end" unfolding sshpkt_get_end_def by (auto intro!: quiet_state simp: ret_def throw_def)
qed

subsection \<open>The methods\<close>

lemma quiet_none [quiet_intros]: "quiet E (userauth_none W)"
proof -
  have "quiet E (\<lambda>s. ret () (s\<lparr>au_none_enabled := False\<rparr>))" by (simp add: quiet_def ret_def quietly_def core_def kbd_ok_def)
  then show ?thesis unfolding userauth_none_def
    by (rule quiet_andthen) (intro quiet_andthen quiet_exits quiet_gets quiet_state, simp add: ret_def)
qed

lemma quiet_passwd [quiet_intros]: "quiet E (userauth_passwd W)"
  unfolding userauth_passwd_def by (auto intro!: quiet_intros)

lemma quiet_stop [quiet_intros]: "quiet E auth2_challenge_stop"
  unfolding auth2_challenge_stop_def by (intro quiet_intros quiet_upd) simp

lemma quiet_upd_kbdint:
  assumes "\<And>k i. ki_device (f k) = Some i \<Longrightarrow> i < length (env_devices E) \<or> ki_device k = Some i"
  shows "quiet E (upd_kbdint f)"
  unfolding upd_kbdint_def quiet_def upd_ctxt_def quietly_def core_def kbd_ok_def ret_def using assms by auto

lemma try_devices:
  "ki_device (fold (try_device allowed d len) ds k) = Some i \<Longrightarrow> i \<in> fst ` set ds \<or> ki_device k = Some i"
proof (induction ds arbitrary: k)
  case (Cons x ds)
  have "ki_device (try_device allowed d len x k) = Some i \<Longrightarrow> i = fst x \<or> ki_device k = Some i"
    by (cases x) (auto simp: try_device_def split: if_splits)
  then show ?case using Cons.IH [of "try_device allowed d len x k"] Cons.prems by auto
qed simp

lemma device_loop_ok:
  "ki_device (device_loop E allowed k) = Some i \<Longrightarrow> i < length (env_devices E) \<or> ki_device k = Some i"
proof (induction E allowed k rule: device_loop.induct)
  case (1 E allowed k)
  have step: "ki_device (fold (try_device allowed d len) (enumerate 0 (env_devices E)) k) = Some i \<Longrightarrow> i < length (env_devices E) \<or> ki_device k = Some i"
    for d len using try_devices by (fastforce simp: in_set_enumerate_eq)
  show ?case
  proof (cases "ki_devices k")
    case None
    then show ?thesis using "1.prems" by (simp add: device_loop.simps)
  next
    case (Some d)
    let ?len = "length (takeWhile (\<lambda>c. c \<noteq> CHR '','') d)"
    show ?thesis
    proof (cases "?len = 0")
      case True
      then show ?thesis using "1.prems" Some by (simp add: device_loop.simps)
    next
      case False
      show ?thesis
        using "1.prems" "1.IH" [OF Some refl False refl refl] step [of d ?len] Some False
        by (subst (asm) device_loop.simps) (auto simp: Let_def split: if_splits)
    qed
  qed
qed

lemma quiet_next_device: "quiet E (upd_kbdint (kbdint_next_device E allowed))"
  by (rule quiet_upd_kbdint)
    (auto simp: kbdint_next_device_def kbdint_reset_device_def dest!: device_loop_ok split: if_splits)

lemma quiet_info_request [quiet_intros]: "quiet E (send_userauth_info_request W)"
  unfolding send_userauth_info_request_def
  by (rule quiet_state) (auto intro!: quiet_at quiet_intros quiet_upd_kbdint simp: ret_def throw_def split: option.splits)

lemma quiet_postponed: "quiet E (upd_ctxt (\<lambda>c. c\<lparr>ac_postponed := b\<rparr>))"
  by (rule quiet_upd) simp

lemma quiet_challenge_start [quiet_intros]: "quiet E (auth2_challenge_start E W)"
proof -
  have next_device: "quiet E (\<lambda>s. upd_kbdint (kbdint_next_device E (f s)) s)" for f
    using quiet_next_device by (auto simp: quiet_def)
  show ?thesis
    unfolding auth2_challenge_start_def
    by (rule quiet_andthen [OF next_device], rule quiet_state)
      (auto intro!: quiet_at quiet_intros quiet_postponed quiet_upd_kbdint simp: throw_def split: option.splits)
qed

text \<open>A challenge is created only where the method is enabled.\<close>

lemma quiet_kbdint [quiet_intros]: "quiet E (userauth_kbdint E W)"
proof -
  have create: "quietly E s (snd (auth2_challenge E W devs s))" if on: "kbd_interactive_authentication (au_options s)" for s devs
  proof -
    let ?m = "\<lambda>s. if ac_kbdintctxt (au_ctxt s) = None then upd_ctxt (\<lambda>c. c\<lparr>ac_kbdintctxt := Some (kbdint_alloc E devs)\<rparr>) s else ret () s"
    obtain t where t: "?m s = (Inr (), t)" "quietly E s t" using on
      by (cases "ac_kbdintctxt (au_ctxt s) = None") (simp_all add: upd_ctxt_def ret_def quietly_def core_def kbd_ok_def kbdint_alloc_def)
    have "quietly E t (snd (auth2_challenge_start E W t))" by (rule quiet_at) (rule quiet_intros)
    then show ?thesis using t quietly_trans by (auto simp: auth2_challenge_def ret_def andthen_def)
  qed
  show ?thesis
    unfolding userauth_kbdint_def
    by (intro quiet_andthen quiet_exits quiet_intros quiet_state) (auto simp: ret_def create)
qed

lemma quiet_build [quiet_intros]: "quiet E (build A puts)"
  unfolding build_def by (auto intro!: quiet_intros split: option.splits prod.splits sum.splits)

lemma quiet_record [quiet_intros]: "quiet E (auth2_record_info W i)" "quiet E (auth2_record_key E W b key)"
proof -
  have info: "quiet E (upd_ctxt (\<lambda>c. c\<lparr>ac_auth_method_info := x\<rparr>))" for x by (rule quiet_upd) simp
  show "quiet E (auth2_record_info W i)" unfolding auth2_record_info_def by (auto intro!: quiet_intros info)
  have key: "quiet E (upd_ctxt (\<lambda>c. c\<lparr>ac_auth_method_key := x\<rparr>))" for x by (rule quiet_upd) simp
  have prev: "quiet E (upd_ctxt (\<lambda>c. c\<lparr>ac_prev_keys := ac_prev_keys c @ x\<rparr>))" for x by (rule quiet_upd) simp
  have "quiet E (\<lambda>s. if \<not> b then ret () s else if int (length (ac_prev_keys (au_ctxt s))) \<ge> INT_MAX \<or> \<not> w_memory W then throw Fatal s
      else upd_ctxt (\<lambda>c. c\<lparr>ac_prev_keys := ac_prev_keys c @ [dup]\<rparr>) s)" for dup
    by (rule quiet_state) (auto simp: ret_def throw_def intro: quiet_at [OF prev])
  then show "quiet E (auth2_record_key E W b key)"
    unfolding auth2_record_key_def by (auto intro!: quiet_throw quiet_andthen key split: option.splits)
qed

lemma quiet_activate [quiet_intros]: "quiet E (auth_activate_options E a)"
  unfolding auth_activate_options_def quiet_def
  by (auto simp: ret_def throw_def quietly_def core_def kbd_ok_def split: option.splits)

lemma quiet_hostkey [quiet_intros]: "quiet E (read_hostkey E A)"
proof -
  have "quietly E s (s\<lparr>au_incoming := b\<rparr>)" for s b by (simp add: quietly_def core_def kbd_ok_def)
  then show ?thesis
    unfolding read_hostkey_def
    by (intro quiet_andthen quiet_exits quiet_from_packet quiet_state) (auto simp: ret_def throw_def split: option.splits)
qed

lemma quiet_verdict [quiet_intros]: "quiet E (pubkey_verdict E W pkalg key sig data)"
proof -
  have "quiet E (\<lambda>s. if \<not> sk_requirements (au_options s) a flags then ret None s
      else andthen (auth2_record_key E W True key) (\<lambda>_. ret (Some a)) s)" for a flags
    by (rule quiet_state) (auto intro!: quiet_at quiet_intros)
  then show ?thesis unfolding pubkey_verdict_def by (auto intro!: quiet_andthen quiet_record quiet_ret split: option.splits)
qed

lemma quiet_signed [quiet_intros]: "quiet E (pubkey_signed E W method have_sig pkalg pkblob hostkey key)"
proof -
  have skip: "quiet E (andthen (build (w_alloc W) [put_session_id E (w_alloc W)]) (\<lambda>_. ret None))" by (intro quiet_intros)
  have body: "quiet E (andthen (build (w_alloc W) ds) (pubkey_verdict E W pkalg key sig))" for ds sig by (intro quiet_intros)
  show ?thesis
    unfolding pubkey_signed_def
    by (rule quiet_andthen, intro quiet_exits quiet_andthen quiet_gets quiet_ret, rule quiet_state)
      (simp add: quiet_at [OF skip] quiet_at [OF body])
qed

lemma quiet_query [quiet_intros]: "quiet E (pubkey_query W pkalg pkblob key)"
  unfolding pubkey_query_def
  by (intro quiet_andthen quiet_exits quiet_gets quiet_state) (auto simp: ret_def intro!: quiet_at quiet_intros quiet_postponed)

lemma quiet_pubkey [quiet_intros]: "quiet E (userauth_pubkey E W method)"
proof -
  have "quiet E (\<lambda>s.
       case decode_key E pkalg pkblob of
         None \<Rightarrow> ret None s
       | Some key \<Rightarrow>
           if auth2_key_already_used E key (au_ctxt s) then ret None s
           else if \<not> key_acceptable E (pubkey_accepted_algos (au_options s)) pkalg key then ret None s
           else if have_sig \<noteq> 0 then pubkey_signed E W method have_sig pkalg pkblob hostkey key s
           else pubkey_query W pkalg pkblob key s)" for pkalg pkblob have_sig hostkey
    by (rule quiet_state) (auto simp: ret_def intro!: quiet_at [OF quiet_signed] quiet_at [OF quiet_query] split: option.splits)
  then show ?thesis
    unfolding userauth_pubkey_def
    by (auto intro!: quiet_andthen quiet_exits quiet_gets quiet_ret quiet_hostkey quiet_activate split: prod.splits option.splits)
qed

lemma quiet_hostbased [quiet_intros]: "quiet E (userauth_hostbased E W method)"
proof -
  have check: "quiet E (andthen (build (w_alloc W) ds) (\<lambda>data.
             andthen (auth2_record_info W i) (\<lambda>_.
               let ok = w_hostbased_key_allowed W cuser chost key \<and> w_verify W key sig data (Some pkalg) \<noteq> None in
               andthen (auth2_record_key E W ok key) (\<lambda>_. ret ok))))" for ds i cuser chost key sig pkalg
    unfolding Let_def by (intro quiet_intros)
  have "quiet E (\<lambda>s.
       case decode_key E pkalg pkblob of
         None \<Rightarrow> ret False s
       | Some key \<Rightarrow>
           if \<not> key_acceptable E (hostbased_accepted_algos (au_options s)) pkalg key then ret False s
           else if \<not> ac_valid (au_ctxt s) \<or> ac_user (au_ctxt s) = None then ret False s
           else
             andthen (build (w_alloc W) (hostbased_data E (w_alloc W) (au_ctxt s) method alg pkblob chost cuser)) (\<lambda>data.
             andthen (auth2_record_info W i) (\<lambda>_.
               let ok = w_hostbased_key_allowed W cuser chost key \<and> w_verify W key sig data (Some pkalg) \<noteq> None in
               andthen (auth2_record_key E W ok key) (\<lambda>_. ret ok))) s)" for pkalg pkblob alg chost cuser sig i
    by (rule quiet_state) (auto simp del: not_None_eq intro!: quiet_at [OF check] split: option.splits)
  then show ?thesis
    unfolding userauth_hostbased_def
    by (auto intro!: quiet_andthen quiet_exits quiet_gets quiet_ret split: prod.splits)
qed

lemma quiet_try [quiet_intros]: "quiet E (try_method E W method)"
proof -
  have "quiet E (userauth E W m method)" for m by (cases m) (simp_all add: quiet_intros)
  then show ?thesis unfolding try_method_def by (intro quiet_state) (auto simp: ret_def intro: quiet_at split: option.splits)
qed

subsection \<open>The end of an attempt\<close>

definition root_ok :: "auth_options \<Rightarrow> u32 \<Rightarrow> string \<Rightarrow> bool" where
  "root_ok opts uid method \<longleftrightarrow> uid = 0 \<longrightarrow>
     permit_root_login opts \<noteq> PERMIT_NO \<and> (permit_root_login opts = PERMIT_NO_PASSWD \<longrightarrow> method = ''publickey'' \<or> method = ''hostbased'')"

lemma finish_name_Inr:
  assumes "finish_name a pm s = (Inr m, t)"
  shows "t = s" and "a \<Longrightarrow> ac_valid (au_ctxt s)" and "a \<Longrightarrow> \<exists>am. authmethod_byname pm = Some am \<and> m = am_name am" and "\<not> a \<Longrightarrow> m = pm"
  using assms by (auto simp: finish_name_def ret_def throw_def split: if_splits option.splits)

lemma finish_root_Inr:
  assumes "finish_root a (am_name m) s = (Inr b, t)"
  shows "t = s" and "b \<Longrightarrow> a \<and> root_ok (au_options s) (ac_pw_uid (au_ctxt s)) (am_name m)"
proof -
  have "am_name m \<noteq> ''gssapi-with-mic''" by (cases m) simp_all
  then show "t = s" "b \<Longrightarrow> a \<and> root_ok (au_options s) (ac_pw_uid (au_ctxt s)) (am_name m)"
    using assms by (auto simp: finish_root_def auth_root_allowed_def root_ok_def andthen_def ret_def throw_def
      split: if_splits option.splits root_login.splits)
qed

lemma finish_root_False: "finish_root False m s = (Inr b, t) \<Longrightarrow> t = s \<and> \<not> b"
  by (simp add: finish_root_def ret_def)

lemma finish_lists_Inr:
  assumes "finish_lists b m sub s = (Inr (c, partial), t)"
  shows "if b \<and> opt_auth_methods (au_options s) \<noteq> []
    then (\<exists>ls. auth2_update_methods_lists (ac_auth_methods (au_ctxt s)) m sub = Some (c, ls) \<and> partial = (\<not> c) \<and>
      t = s\<lparr>au_ctxt := (au_ctxt s)\<lparr>ac_auth_methods := ls\<rparr>\<rparr>)
    else t = s \<and> c = b \<and> \<not> partial"
  using assms by (auto simp: finish_lists_def ret_def throw_def andthen_def upd_ctxt_def split: if_splits option.splits prod.splits)

text \<open>What is the same before and after an attempt has ended.\<close>

definition settled :: "'k auth \<Rightarrow> 'k auth \<Rightarrow> bool" where
  "settled s t \<longleftrightarrow> au_options t = au_options s \<and> ac_valid (au_ctxt t) = ac_valid (au_ctxt s) \<and> ac_attempt (au_ctxt t) = ac_attempt (au_ctxt s) \<and>
     ac_user (au_ctxt t) = ac_user (au_ctxt s) \<and> ac_service (au_ctxt t) = ac_service (au_ctxt s) \<and> ac_pw_uid (au_ctxt t) = ac_pw_uid (au_ctxt s) \<and>
     ac_kbdintctxt (au_ctxt t) = ac_kbdintctxt (au_ctxt s) \<and> au_skip t = au_skip s \<and> (ac_success (au_ctxt t) \<or> au_dispatch t = au_dispatch s)"

lemma finish_reply:
  assumes "(if ac_postponed (au_ctxt s) then ret () s else if a then finish_success W s else finish_failure W partial m s) = (Inr (), t)"
  shows "settled s t" and "ac_auth_methods (au_ctxt t) = ac_auth_methods (au_ctxt s)" and "ac_session_info (au_ctxt t) = ac_session_info (au_ctxt s)"
    and "ac_success (au_ctxt t) \<longleftrightarrow> ac_success (au_ctxt s) \<or> (a \<and> \<not> ac_postponed (au_ctxt s))"
  using assms
  by (auto simp: finish_success_def finish_failure_def settled_def andthen_def ret_def throw_def upd_ctxt_def set_dispatch_def send_msg_def
    split: if_splits)

lemma session_info_Inr:
  assumes "(if c then auth2_update_session_info E W m sub else ret ()) s = (Inr (), t)"
  shows "\<exists>rest. t = s\<lparr>au_ctxt := (au_ctxt s)\<lparr>ac_session_info := ac_session_info (au_ctxt s) @ (if c then session_line m sub rest else [])\<rparr>\<rparr>"
  using assms by (auto simp: auth2_update_session_info_def Let_def ret_def throw_def upd_ctxt_def split: if_splits)

text \<open>An attempt that ends without a pass changes nothing that counts; one that passes adds its line, and takes its entry off the lists.\<close>

definition passed :: "bool \<Rightarrow> string \<Rightarrow> string option \<Rightarrow> 'k auth \<Rightarrow> 'k auth \<Rightarrow> bool" where
  "passed a pm sub s t \<longleftrightarrow> a \<and> ac_valid (au_ctxt s) \<and> (\<exists>am rest. authmethod_byname pm = Some am \<and>
     root_ok (au_options s) (ac_pw_uid (au_ctxt s)) (am_name am) \<and>
     ac_session_info (au_ctxt t) = ac_session_info (au_ctxt s) @ session_line (am_name am) sub rest \<and>
     (if opt_auth_methods (au_options s) = [] then ac_auth_methods (au_ctxt t) = ac_auth_methods (au_ctxt s) \<and> ac_success (au_ctxt t)
      else auth2_update_methods_lists (ac_auth_methods (au_ctxt s)) (am_name am) sub = Some (ac_success (au_ctxt t), ac_auth_methods (au_ctxt t))))"

definition not_passed :: "'k auth \<Rightarrow> 'k auth \<Rightarrow> bool" where
  "not_passed s t \<longleftrightarrow> \<not> ac_success (au_ctxt t) \<and> ac_auth_methods (au_ctxt t) = ac_auth_methods (au_ctxt s) \<and>
     ac_session_info (au_ctxt t) = ac_session_info (au_ctxt s)"

lemma finish_Inr:
  assumes run: "userauth_finish E W a pm sub s = (Inr (), t)" and s: "\<not> ac_success (au_ctxt s)"
  shows "settled s t" and "passed a pm sub s t \<or> not_passed s t"
proof -
  from run [unfolded userauth_finish_def] obtain m s1 where 1: "finish_name a pm s = (Inr m, s1)" and
    r1: "andthen (finish_root a m) (\<lambda>a. andthen (finish_lists a m sub) (\<lambda>(a, partial).
      andthen (if a \<or> partial then auth2_update_session_info E W m sub else ret ()) (\<lambda>_ s.
       if ac_postponed (au_ctxt s) then ret () s else if a then finish_success W s else finish_failure W partial m s))) s1 = (Inr (), t)"
    by (rule andthen_InrE)
  note n = finish_name_Inr [OF 1]
  from r1 obtain b s2 where 2: "finish_root a m s1 = (Inr b, s2)" and
    r2: "andthen (finish_lists b m sub) (\<lambda>(a, partial). andthen (if a \<or> partial then auth2_update_session_info E W m sub else ret ()) (\<lambda>_ s.
       if ac_postponed (au_ctxt s) then ret () s else if a then finish_success W s else finish_failure W partial m s)) s2 = (Inr (), t)"
    by (rule andthen_InrE)
  have root: "s2 = s" "b \<Longrightarrow> a \<and> (\<exists>am. authmethod_byname pm = Some am \<and> m = am_name am \<and> root_ok (au_options s) (ac_pw_uid (au_ctxt s)) m)"
    using 2 n finish_root_False [of m s b s2] finish_root_Inr [of a _ s b s2] by (cases a; force)+
  from r2 obtain cp s3 where 3: "finish_lists b m sub s2 = (Inr cp, s3)" and
    r3: "(case cp of (a, partial) \<Rightarrow> andthen (if a \<or> partial then auth2_update_session_info E W m sub else ret ()) (\<lambda>_ s.
       if ac_postponed (au_ctxt s) then ret () s else if a then finish_success W s else finish_failure W partial m s)) s3 = (Inr (), t)"
    by (rule andthen_InrE)
  obtain c partial where cp: "cp = (c, partial)" by fastforce
  note l = finish_lists_Inr [OF 3 [unfolded cp root(1)]]
  from r3 [unfolded cp prod.case] obtain u s4 where 4: "(if c \<or> partial then auth2_update_session_info E W m sub else ret ()) s3 = (Inr u, s4)" and
    5: "(if ac_postponed (au_ctxt s4) then ret () s4 else if c then finish_success W s4 else finish_failure W partial m s4) = (Inr (), t)"
    by (rule andthen_InrE)
  obtain rest where s4: "s4 = s3\<lparr>au_ctxt := (au_ctxt s3)\<lparr>ac_session_info := ac_session_info (au_ctxt s3) @ (if c \<or> partial then session_line m sub rest else [])\<rparr>\<rparr>"
    using session_info_Inr [OF 4 [unfolded unit_eq [of u]]] by blast
  note f = finish_reply [OF 5]
  have "settled s s4" using l s4 by (auto simp: settled_def split: if_splits)
  then show "settled s t" using f(1,4) by (auto simp: settled_def)
  have post: "b \<Longrightarrow> \<not> ac_postponed (au_ctxt s)" using 1 root(2) by (auto simp: finish_name_def throw_def split: if_splits)
  show "passed a pm sub s t \<or> not_passed s t"
  proof (cases b)
    case False
    then show ?thesis using l f s4 s by (simp add: not_passed_def)
  next
    case True
    obtain am where am: "a" "authmethod_byname pm = Some am" "m = am_name am" "root_ok (au_options s) (ac_pw_uid (au_ctxt s)) (am_name am)"
      using root(2) [OF True] by auto
    have "passed a pm sub s t"
      unfolding passed_def using am n(2) l f s4 s True post
      by (intro conjI exI [of _ am] exI [of _ rest]) (auto split: if_splits)
    then show ?thesis by simp
  qed
qed

end
