(* ===== verification/Auth2_Run.thy ===== *)
theory Auth2_Run
  imports Auth2_Safe
begin

text \<open>
  Whole runs of authentication: access is granted only after a configured list of methods has been
  completed, and a client cannot go on forever.
\<close>

subsection \<open>The invariant\<close>

text \<open>The lists that are in force.\<close>

definition required :: "auth_options \<Rightarrow> string list" where
  "required opts = (if opt_auth_methods opts = [''any''] then [] else opt_auth_methods opts)"

definition usable :: "auth_options \<Rightarrow> string \<Rightarrow> bool" where
  "usable opts L \<longleftrightarrow> L \<in> set (required opts) \<and> auth2_methods_valid opts True L True"

text \<open>The text about the session records the methods that have passed.\<close>

definition session_text :: "((string \<times> string option) \<times> string) list \<Rightarrow> string" where
  "session_text es = concat (map (\<lambda>((m, sub), rest). session_line m sub rest) es)"

text \<open>A method that may pass for this user.\<close>

definition pass_ok :: "auth_options \<Rightarrow> u32 \<Rightarrow> string \<Rightarrow> bool" where
  "pass_ok opts uid m \<longleftrightarrow> (\<exists>am. m = am_name am \<and> am_enabled opts True am) \<and> root_ok opts uid m"

definition passes :: "auth_options \<Rightarrow> 'k auth \<Rightarrow> ((string \<times> string option) \<times> string) list \<Rightarrow> bool" where
  "passes opts s es \<longleftrightarrow> ac_session_info (au_ctxt s) = session_text es \<and> (es \<noteq> [] \<longrightarrow> ac_valid (au_ctxt s)) \<and>
     (\<forall>e \<in> set es. pass_ok opts (ac_pw_uid (au_ctxt s)) (fst (fst e)))"

definition auth_inv :: "'k auth_env \<Rightarrow> auth_options \<Rightarrow> 'k auth \<Rightarrow> bool" where
  "auth_inv E opts s \<longleftrightarrow> 0 \<le> ac_attempt (au_ctxt s) \<and> \<not> ac_success (au_ctxt s) \<and>
     (if ac_attempt (au_ctxt s) = 0
      then au_options s = opts \<and> au_none_enabled s \<and> ac_kbdintctxt (au_ctxt s) = None \<and> ac_session_info (au_ctxt s) = []
      else au_options s = opts\<lparr>opt_auth_methods := required opts\<rparr> \<and> kbd_ok E s \<and>
        (\<exists>es. passes opts s es \<and> (required opts \<noteq> [] \<longrightarrow>
          (\<exists>Ls. (\<forall>L \<in> set Ls. usable opts L) \<and> list_all2 (progress (map fst es)) Ls (ac_auth_methods (au_ctxt s))))))"

definition granted :: "auth_options \<Rightarrow> 'k auth \<Rightarrow> bool" where
  "granted opts s \<longleftrightarrow> ac_valid (au_ctxt s) \<and>
     (\<exists>es. es \<noteq> [] \<and> passes opts s es \<and> (required opts \<noteq> [] \<longrightarrow> (\<exists>L. usable opts L \<and> completes (map fst es) (splits (CHR '','') L))))"

lemma quiet_inv: "quietly E s t \<Longrightarrow> auth_inv E opts s \<Longrightarrow> ac_attempt (au_ctxt s) \<noteq> 0 \<Longrightarrow> auth_inv E opts t"
  by (auto simp: quietly_def core_def auth_inv_def passes_def)

lemma auth_inv_other [simp]:
  "auth_inv E opts (s\<lparr>au_sent := x\<rparr>) = auth_inv E opts s" "auth_inv E opts (s\<lparr>au_dispatch := d\<rparr>) = auth_inv E opts s"
  "auth_inv E opts (s\<lparr>au_incoming := b\<rparr>) = auth_inv E opts s" "auth_inv E opts (s\<lparr>au_skip := n\<rparr>) = auth_inv E opts s"
  by (simp_all add: auth_inv_def passes_def kbd_ok_def)

lemma inv_not_success: "auth_inv E opts s \<Longrightarrow> \<not> ac_success (au_ctxt s)"
  by (simp add: auth_inv_def)

lemma core_eqs:
  assumes "quietly E s t"
  shows "au_options t = au_options s" "ac_success (au_ctxt t) = ac_success (au_ctxt s)" "ac_attempt (au_ctxt t) = ac_attempt (au_ctxt s)"
    "ac_auth_methods (au_ctxt t) = ac_auth_methods (au_ctxt s)" "au_skip t = au_skip s" "ac_user (au_ctxt t) = ac_user (au_ctxt s)"
    "kbd_ok E s \<Longrightarrow> kbd_ok E t" "au_dispatch t SSH2_MSG_USERAUTH_REQUEST = au_dispatch s SSH2_MSG_USERAUTH_REQUEST"
  using assms by (simp_all add: quietly_def core_def msg_numbers)

subsection \<open>Steps\<close>

text \<open>The end of an attempt.\<close>

lemma session_text_snoc: "session_text (es @ [((m, sub), rest)]) = session_text es @ session_line m sub rest"
  by (simp add: session_text_def)

lemma finish_inv:
  assumes run: "userauth_finish E W a pm sub s = (Inr (), t)" and inv: "auth_inv E opts s" "ac_attempt (au_ctxt s) \<noteq> 0"
    and sub: "\<forall>x. sub = Some x \<longrightarrow> CHR '','' \<notin> set x" and on: "\<And>am. a \<Longrightarrow> authmethod_byname pm = Some am \<Longrightarrow> am_enabled opts True am"
  shows "if ac_success (au_ctxt t) then granted opts t else auth_inv E opts t"
proof -
  have s: "\<not> ac_success (au_ctxt s)" "au_options s = opts\<lparr>opt_auth_methods := required opts\<rparr>" using inv by (simp_all add: auth_inv_def)
  note f = finish_Inr [OF run s(1)]
  have "kbd_ok E s" using inv by (simp add: auth_inv_def)
  then have kbd: "kbd_ok E t" "au_options t = au_options s" "ac_attempt (au_ctxt t) = ac_attempt (au_ctxt s)" "ac_pw_uid (au_ctxt t) = ac_pw_uid (au_ctxt s)"
    "ac_valid (au_ctxt t) = ac_valid (au_ctxt s)" using f(1) by (auto simp: settled_def kbd_ok_def)
  obtain es where es: "passes opts s es" "required opts \<noteq> [] \<Longrightarrow>
      \<exists>Ls. (\<forall>L \<in> set Ls. usable opts L) \<and> list_all2 (progress (map fst es)) Ls (ac_auth_methods (au_ctxt s))"
    using inv by (auto simp: auth_inv_def)
  show ?thesis
  proof (cases "passed a pm sub s t")
    case False
    then have "not_passed s t" using f(2) by simp
    then show ?thesis using kbd inv by (auto simp: not_passed_def auth_inv_def passes_def)
  next
    case True
    then obtain am rest where p: "a" "ac_valid (au_ctxt s)" "authmethod_byname pm = Some am" "root_ok (au_options s) (ac_pw_uid (au_ctxt s)) (am_name am)"
      "ac_session_info (au_ctxt t) = ac_session_info (au_ctxt s) @ session_line (am_name am) sub rest"
      and l: "if required opts = [] then ac_success (au_ctxt t)
        else auth2_update_methods_lists (ac_auth_methods (au_ctxt s)) (am_name am) sub = Some (ac_success (au_ctxt t), ac_auth_methods (au_ctxt t))"
      unfolding passed_def s(2) by (auto split: if_splits)
    let ?es = "es @ [((am_name am, sub), rest)]"
    have "pass_ok opts (ac_pw_uid (au_ctxt s)) (am_name am)" using on [OF p(1,3)] p(4) s(2) by (auto simp: pass_ok_def root_ok_def)
    then have ps: "passes opts t ?es" using es(1) p(2,5) kbd by (auto simp: passes_def session_text_snoc)
    show ?thesis
    proof (cases "required opts = []")
      case True
      then show ?thesis using ps p(2) kbd l by (auto simp: granted_def)
    next
      case False
      then obtain Ls where Ls: "\<forall>L \<in> set Ls. usable opts L" "list_all2 (progress (map fst es)) Ls (ac_auth_methods (au_ctxt s))" using es(2) by blast
      have "auth2_update_methods_lists (ac_auth_methods (au_ctxt s)) (am_name am) sub = Some (ac_success (au_ctxt t), ac_auth_methods (au_ctxt t))" using l False by simp
      from update_lists_progress [OF Ls(2) am_name_chars(2) sub this] show ?thesis
        using ps p(2) kbd inv Ls(1) s(2) by (auto simp: granted_def auth_inv_def intro!: exI [of _ ?es] split: if_splits)
    qed
  qed
qed

text \<open>The first request.\<close>

lemma setup_inv:
  assumes run: "auth2_setup_methods_lists opts True mls = (True, opts', ls)"
  shows "opts' = opts\<lparr>opt_auth_methods := required opts\<rparr>"
    and "required opts \<noteq> [] \<longrightarrow> (\<exists>Ls. (\<forall>L \<in> set Ls. usable opts L) \<and> list_all2 (progress []) Ls ls)"
proof -
  show opts': "opts' = opts\<lparr>opt_auth_methods := required opts\<rparr>"
    using run by (auto simp: auth2_setup_methods_lists_def required_def Let_def split: if_splits)
  have "\<exists>Ls. (\<forall>L \<in> set Ls. usable opts L) \<and> list_all2 (progress []) Ls ls" if req: "required opts \<noteq> []"
  proof -
    have "opt_auth_methods opts' \<noteq> []" "required opts = opt_auth_methods opts" using req opts' by (auto simp: required_def split: if_splits)
    then show ?thesis using setup_progress [OF run] by (intro exI [of _ ls]) (auto simp: usable_def)
  qed
  then show "required opts \<noteq> [] \<longrightarrow> (\<exists>Ls. (\<forall>L \<in> set Ls. usable opts L) \<and> list_all2 (progress []) Ls ls)" by blast
qed

lemma open_facts:
  assumes run: "open_request W user service style s = (Inr (), t)"
  shows "ac_attempt (au_ctxt t) = ac_attempt (au_ctxt s) + 1" and "ac_attempt (au_ctxt t) \<le> 1024" and "au_skip t = au_skip s"
    and "au_dispatch t = au_dispatch s" and "ac_success (au_ctxt t) = ac_success (au_ctxt s)"
  using assms
  by (auto simp: open_request_def first_request_def upd_ctxt_def andthen_def ret_def throw_def userauth_banner_def send_msg_def
    split: option.splits if_splits prod.splits)

lemma open_inv:
  assumes run: "open_request W user service style s = (Inr (), t)" and inv: "auth_inv E opts s"
  shows "auth_inv E opts t"
proof -
  let ?t = "s\<lparr>au_ctxt := (au_ctxt s)\<lparr>ac_attempt := ac_attempt (au_ctxt s) + 1\<rparr>\<rparr>"
  have le: "\<not> ac_attempt (au_ctxt s) \<ge> 1024" using run by (auto simp: open_request_def throw_def split: if_splits)
  have go: "(if ac_attempt (au_ctxt s) = 0 then first_request W user service style
      else if ac_user (au_ctxt s) \<noteq> Some user \<or> ac_service (au_ctxt s) \<noteq> Some service then throw Disconnect else ret ()) ?t = (Inr (), t)"
    using run le by (simp add: open_request_def upd_ctxt_def andthen_def ret_def)
  show ?thesis
  proof (cases "ac_attempt (au_ctxt s) = 0")
    case False
    then have "t = ?t" using go by (auto simp: ret_def throw_def split: if_splits)
    then show ?thesis using inv False by (auto simp: auth_inv_def passes_def kbd_ok_def)
  next
    case True
    have o: "au_options s = opts" "au_none_enabled s" "ac_kbdintctxt (au_ctxt s) = None" "ac_session_info (au_ctxt s) = []" "\<not> ac_success (au_ctxt s)"
      using inv True by (simp_all add: auth_inv_def)
    obtain ok opts' ls where set: "auth2_setup_methods_lists opts True (ac_auth_methods (au_ctxt s)) = (ok, opts', ls)" using prod_cases3 by blast
    have "first_request W user service style ?t = (Inr (), t)" using go True by simp
    then have t: "ok" "au_options t = opts'" "ac_auth_methods (au_ctxt t) = ls" "ac_attempt (au_ctxt t) = ac_attempt (au_ctxt s) + 1"
      "ac_kbdintctxt (au_ctxt t) = None" "ac_session_info (au_ctxt t) = []" "\<not> ac_success (au_ctxt t)"
      using o set
      by (auto simp: first_request_def upd_ctxt_def andthen_def ret_def throw_def userauth_banner_def send_msg_def split: option.splits if_splits)
    have set_ok: "auth2_setup_methods_lists opts True (ac_auth_methods (au_ctxt s)) = (True, opts', ls)" using set t(1) by simp
    have "passes opts t [] \<and> (required opts \<noteq> [] \<longrightarrow>
        (\<exists>Ls. (\<forall>L \<in> set Ls. usable opts L) \<and> list_all2 (progress (map fst ([] :: ((string \<times> string option) \<times> string) list))) Ls (ac_auth_methods (au_ctxt t))))"
      using setup_inv(2) [OF set_ok] t(3,6) by (simp add: passes_def session_text_def)
    then have "\<exists>es. passes opts t es \<and> (required opts \<noteq> [] \<longrightarrow>
        (\<exists>Ls. (\<forall>L \<in> set Ls. usable opts L) \<and> list_all2 (progress (map fst es)) Ls (ac_auth_methods (au_ctxt t))))" by (rule exI)
    then have "auth_inv E opts t"
      unfolding auth_inv_def using setup_inv(1) [OF set_ok] t True by (simp add: kbd_ok_def)
    then show ?thesis .
  qed
qed

text \<open>A verdict for a method means that the method is enabled.\<close>

lemma try_method_enabled:
  assumes "try_method E W method s = (Inr True, t)" and "authmethod_byname method = Some am" and "au_options s = opts\<lparr>opt_auth_methods := x\<rparr>"
  shows "am_enabled opts True am"
proof -
  have "am_enabled (au_options s) (au_none_enabled s) am"
    using assms(1,2) by (auto simp: try_method_def authmethod_lookup_def ret_def split: if_splits option.splits)
  then show ?thesis using assms(3) by (cases am) simp_all
qed

text \<open>Reading the fields of a message.\<close>

definition reading :: "('e, 'k auth, 'a) run \<Rightarrow> bool" where
  "reading m \<longleftrightarrow> (\<forall>s. \<exists>b. snd (m s) = s\<lparr>au_incoming := b\<rparr>)"

lemma reading_basic: "reading (ret x)" "reading (from_packet b)" "reading m \<Longrightarrow> reading (exits f m)"
proof -
  show "reading (ret x)" unfolding reading_def
  proof
    fix s show "\<exists>b. snd (ret x s) = s\<lparr>au_incoming := b\<rparr>" by (rule exI [of _ "au_incoming s"]) (simp add: ret_def)
  qed
  show "reading (from_packet b)" by (auto simp: reading_def from_packet_def split: prod.splits)
  assume m: "reading m"
  show "reading (exits f m)" unfolding reading_def
  proof
    fix s
    obtain b where "snd (m s) = s\<lparr>au_incoming := b\<rparr>" using m by (auto simp: reading_def)
    then show "\<exists>b. snd (exits f m s) = s\<lparr>au_incoming := b\<rparr>" by (cases "m s"; cases "fst (m s)") (auto simp: exits_def)
  qed
qed

lemma reading_andthen:
  assumes "reading m" and "\<And>x. reading (k x)"
  shows "reading (andthen m k)"
  unfolding reading_def
proof
  fix s
  obtain r b where m: "m s = (r, s\<lparr>au_incoming := b\<rparr>)" using assms(1) by (metis prod.collapse reading_def)
  have "\<exists>b'. snd (k x (s\<lparr>au_incoming := b\<rparr>)) = s\<lparr>au_incoming := b'\<rparr>" for x using assms(2) [of x] unfolding reading_def
    by (metis auth.surjective auth.update_convs(7))
  then show "\<exists>b. snd (andthen m k s) = s\<lparr>au_incoming := b\<rparr>" using m by (cases r) (auto simp: andthen_def)
qed

lemma reading_cstring: "reading (sshpkt_get_cstring A)"
  unfolding sshpkt_get_cstring_def by (auto intro!: reading_andthen reading_basic split: prod.splits)

lemma reading_end: "reading sshpkt_get_end"
  using reading_basic(1) [of "()"] by (auto simp: reading_def sshpkt_get_end_def ret_def throw_def)

lemma reading_inv:
  assumes "reading m" and "m s = (r, t)" and "auth_inv E opts s"
  shows "auth_inv E opts t"
proof -
  obtain b where "t = s\<lparr>au_incoming := b\<rparr>" using assms(1,2) by (metis reading_def snd_conv)
  then show ?thesis using assms(3) by simp
qed

text \<open>A request: after the context has been opened, the method gives its verdict, and the attempt ends.\<close>

lemma request_parts:
  assumes "input_userauth_request E W s = (Inr (), t)"
  obtains user service meth style a s1 s2 s3 where "\<And>opts. auth_inv E opts s \<Longrightarrow> auth_inv E opts s1" and "quietly E s s1" and "open_request W user service style s1 = (Inr (), s2)"
    and "quietly E s2 s3" and "a \<Longrightarrow> \<forall>am opts x. authmethod_byname meth = Some am \<longrightarrow> au_options s3 = opts\<lparr>opt_auth_methods := x\<rparr> \<longrightarrow> am_enabled opts True am"
    and "userauth_finish E W a meth None s3 = (Inr (), t)"
proof -
  let ?get = "or_error (andthen (sshpkt_get_cstring (w_alloc W)) (\<lambda>user. andthen (sshpkt_get_cstring (w_alloc W)) (\<lambda>service.
        andthen (sshpkt_get_cstring (w_alloc W)) (\<lambda>meth. ret (user, service, meth)))))"
  from assms [unfolded input_userauth_request_def] obtain usm s1 where 1: "?get s = (Inr usm, s1)" and
    r1: "(case usm of (user, service, meth) \<Rightarrow> andthen (open_request W (fst (split_style user)) service (snd (split_style user))) (\<lambda>_.
      andthen auth2_challenge_stop (\<lambda>_. andthen auth2_authctxt_reset_info (\<lambda>_.
      andthen (upd_ctxt (\<lambda>c. c\<lparr>ac_postponed := False, ac_server_caused_failure := False\<rparr>)) (\<lambda>_.
      andthen (try_method E W meth) (\<lambda>authenticated. userauth_finish E W authenticated meth None)))))) s1 = (Inr (), t)"
    by (rule andthen_InrE)
  have q1: "quietly E s s1" by (rule quietD [where m = ?get, OF _ 1]) (intro quiet_exits quiet_andthen quiet_gets quiet_ret)
  have "reading ?get" by (intro reading_andthen reading_basic reading_cstring)
  note i1 = reading_inv [OF this 1]
  obtain user service meth where usm: "usm = (user, service, meth)" using prod_cases3 by blast
  let ?mid = "andthen auth2_challenge_stop (\<lambda>_. andthen auth2_authctxt_reset_info (\<lambda>_.
      upd_ctxt (\<lambda>c. c\<lparr>ac_postponed := False, ac_server_caused_failure := False\<rparr>)))"
  from r1 [unfolded usm prod.case] obtain u s2 where 2: "open_request W (fst (split_style user)) service (snd (split_style user)) s1 = (Inr u, s2)" and
    r2: "andthen auth2_challenge_stop (\<lambda>_. andthen auth2_authctxt_reset_info (\<lambda>_.
      andthen (upd_ctxt (\<lambda>c. c\<lparr>ac_postponed := False, ac_server_caused_failure := False\<rparr>)) (\<lambda>_.
      andthen (try_method E W meth) (\<lambda>authenticated. userauth_finish E W authenticated meth None)))) s2 = (Inr (), t)"
    by (rule andthen_InrE)
  from r2 have "andthen ?mid (\<lambda>_. andthen (try_method E W meth) (\<lambda>authenticated. userauth_finish E W authenticated meth None)) s2 = (Inr (), t)"
    by (simp only: andthen_assoc)
  then obtain v s2' where 3: "?mid s2 = (Inr v, s2')" and
    r3: "andthen (try_method E W meth) (\<lambda>authenticated. userauth_finish E W authenticated meth None) s2' = (Inr (), t)" by (rule andthen_InrE)
  have "quiet E ?mid" unfolding auth2_authctxt_reset_info_def by (intro quiet_andthen quiet_stop quiet_upd) simp_all
  then have q2: "quietly E s2 s2'" using 3 by (rule quietD)
  from r3 obtain a s3 where 4: "try_method E W meth s2' = (Inr a, s3)" and fin: "userauth_finish E W a meth None s3 = (Inr (), t)" by (rule andthen_InrE)
  have q3: "quietly E s2' s3" by (rule quietD [OF quiet_try 4])
  show thesis
    using that [OF i1 q1 2 [unfolded unit_eq [of u]] quietly_trans [OF q2 q3] _ fin] try_method_enabled [of E W meth s2' s3] 4 core_eqs(1) [OF q3] by auto
qed

lemma request_inv:
  assumes run: "input_userauth_request E W s = (Inr (), t)" and inv: "auth_inv E opts s"
  shows "if ac_success (au_ctxt t) then granted opts t else auth_inv E opts t"
proof (rule request_parts [OF run])
  fix user service meth style a s1 s2 s3
  assume i1: "\<And>opts. auth_inv E opts s \<Longrightarrow> auth_inv E opts s1" and 2: "open_request W user service style s1 = (Inr (), s2)" and q3: "quietly E s2 s3"
    and on: "a \<Longrightarrow> \<forall>am opts x. authmethod_byname meth = Some am \<longrightarrow> au_options s3 = opts\<lparr>opt_auth_methods := x\<rparr> \<longrightarrow> am_enabled opts True am"
    and fin: "userauth_finish E W a meth None s3 = (Inr (), t)"
  have o: "auth_inv E opts s2" "ac_attempt (au_ctxt s2) \<noteq> 0" using open_inv [OF 2 i1 [OF inv]] open_facts [OF 2] i1 [OF inv] by (auto simp: auth_inv_def)
  have i3: "auth_inv E opts s3" "ac_attempt (au_ctxt s3) \<noteq> 0" using quiet_inv [OF q3 o] core_eqs(3) [OF q3] o(2) by simp_all
  then have "au_options s3 = opts\<lparr>opt_auth_methods := required opts\<rparr>" by (simp add: auth_inv_def)
  then show ?thesis using finish_inv [OF fin i3] on by blast
qed

text \<open>An answer to a challenge.\<close>

lemma info_parts:
  assumes "input_userauth_info_response E W s = (Inr (), t)"
  obtains k i a s1 where "ac_kbdintctxt (au_ctxt s) = Some k" and "ki_device k = Some i" and "quietly E s s1"
    and "userauth_finish E W a ''keyboard-interactive'' (Some (env_devices E ! i)) s1 = (Inr (), t)"
proof -
  obtain k i where k: "ac_kbdintctxt (au_ctxt s) = Some k" "ki_ctxt k" "ki_device k = Some i"
    using assms by (auto simp: input_userauth_info_response_def throw_def split: option.splits if_splits)
  let ?respond = "\<lambda>response. if w_respond W i response = 0 then (\<lambda>s. ret (ac_valid (au_ctxt s)) s)
      else if w_respond W i response = 1
      then andthen (send_userauth_info_request W) (\<lambda>sent. andthen (if sent then upd_ctxt (\<lambda>c. c\<lparr>ac_postponed := True\<rparr>) else ret ()) (\<lambda>_. ret False))
      else ret False"
  let ?go_on = "\<lambda>authenticated s. if ac_postponed (au_ctxt s) then ret () s else if authenticated then auth2_challenge_stop s
      else andthen (auth2_challenge_start E W) (\<lambda>_. ret ()) s"
  let ?all = "andthen (upd_ctxt (\<lambda>c. c\<lparr>ac_postponed := False\<rparr>)) (\<lambda>_. andthen (read_responses W (ki_nreq k)) (\<lambda>response.
      andthen (?respond response) (\<lambda>a. andthen (?go_on a) (\<lambda>_. ret a))))"
  have "andthen ?all (\<lambda>a. userauth_finish E W a ''keyboard-interactive'' (Some (env_devices E ! i))) s = (Inr (), t)"
    using assms k unfolding input_userauth_info_response_def andthen_assoc andthen_ret by simp
  then obtain a s1 where 1: "?all s = (Inr a, s1)" and fin: "userauth_finish E W a ''keyboard-interactive'' (Some (env_devices E ! i)) s1 = (Inr (), t)"
    by (rule andthen_InrE)
  have gr: "quiet E (get_responses A n)" for A n by (induction n) (auto intro!: quiet_intros)
  have "quiet E (read_responses W n)" for n
    unfolding read_responses_def by (auto intro!: quiet_andthen quiet_exits quiet_gets quiet_throw quiet_ret gr)
  moreover have "quiet E (?respond r)" for r by (auto intro!: quiet_intros quiet_postponed simp: quiet_def [of E "\<lambda>s. ret (ac_valid (au_ctxt s)) s"])
  moreover have "quiet E (andthen (auth2_challenge_start E W) (\<lambda>_. ret ()))" by (intro quiet_intros)
  then have "quiet E (?go_on b)" for b by (intro quiet_state) (auto intro: quiet_at quiet_stop)
  ultimately have "quiet E ?all" by (intro quiet_andthen quiet_postponed quiet_ret)
  then show thesis using that [OF k(1,3) _ fin] quietD [where m = ?all, OF _ 1] by blast
qed

lemma info_inv:
  assumes run: "input_userauth_info_response E W s = (Inr (), t)" and inv: "auth_inv E opts s" and dev: "\<forall>d \<in> set (env_devices E). CHR '','' \<notin> set d"
  shows "if ac_success (au_ctxt t) then granted opts t else auth_inv E opts t"
proof (rule info_parts [OF run])
  fix k i a s1 assume k: "ac_kbdintctxt (au_ctxt s) = Some k" "ki_device k = Some i" and q: "quietly E s s1"
    and fin: "userauth_finish E W a ''keyboard-interactive'' (Some (env_devices E ! i)) s1 = (Inr (), t)"
  have s: "ac_attempt (au_ctxt s) \<noteq> 0" "kbd_ok E s" "au_options s = opts\<lparr>opt_auth_methods := required opts\<rparr>" using inv k(1) by (auto simp: auth_inv_def split: if_splits)
  have "i < length (env_devices E)" "kbd_interactive_authentication opts" using s(2,3) k by (auto simp: kbd_ok_def)
  moreover have "authmethod_byname ''keyboard-interactive'' = Some Method_kbdint" using byname_name [of Method_kbdint] by simp
  ultimately show ?thesis
    using finish_inv [OF fin quiet_inv [OF q inv s(1)]] core_eqs(3) [OF q] s(1) dev by auto
qed

subsection \<open>The loop\<close>

lemma handle_inv:
  assumes run: "handle E W seq h s = (Inr (), t)" and inv: "auth_inv E opts s" and dev: "\<forall>d \<in> set (env_devices E). CHR '','' \<notin> set d"
  shows "if ac_success (au_ctxt t) then granted opts t else auth_inv E opts t"
proof (cases h)
  case Protocol_error
  then obtain x where "t = s\<lparr>au_sent := x\<rparr>" using run by (auto simp: dispatch_protocol_error_def send_msg_def ret_def throw_def split: if_splits)
  then show ?thesis using inv inv_not_success [OF inv] by simp
next
  case Protocol_ignore
  then show ?thesis using run inv inv_not_success [OF inv] by (simp add: dispatch_protocol_ignore_def ret_def)
next
  case Userauth_request
  then show ?thesis using request_inv [of E W s t opts] run inv by simp
next
  case Userauth_info_response
  then show ?thesis using info_inv [of E W s t opts] run inv dev by simp
next
  case Service_request
  let ?get = "or_error (andthen (sshpkt_get_cstring (w_alloc W)) (\<lambda>service. andthen sshpkt_get_end (\<lambda>_. ret service)))"
  from Service_request run obtain service s1 where 1: "?get s = (Inr service, s1)" and t: "\<exists>d x. t = s1\<lparr>au_dispatch := d, au_sent := x\<rparr>"
    by (auto simp: input_service_request_def andthen_def [of ?get] set_dispatch_def ret_def throw_def andthen_def
      split: prod.splits sum.splits if_splits option.splits)
  have "reading ?get" by (intro reading_andthen reading_basic reading_cstring reading_end)
  then have "auth_inv E opts s1" using 1 inv by (rule reading_inv)
  then show ?thesis using t inv_not_success [of E opts s1] by auto
qed

lemma run_granted:
  assumes "ssh_dispatch_run E reads i s = Some x" and "auth_inv E opts s" and "\<forall>d \<in> set (env_devices E). CHR '','' \<notin> set d" and "fst x = Inr ()"
  shows "ac_success (au_ctxt (snd x)) \<and> granted opts (snd x)"
  using assms
proof (induction rule: ssh_dispatch_run.raw_induct [rotated, consumes 1, case_names 1])
  case (1 run E reads i s x)
  show ?case
  proof (cases "reads i")
    case (Inl e)
    then show ?thesis using "1.hyps" "1.prems"(3) by auto
  next
    case (Inr r)
    obtain type seq pkt W where r: "r = (type, seq, pkt, W)" using prod_cases4 by blast
    define u where "u = s\<lparr>au_incoming := pkt\<rparr>"
    have u: "auth_inv E opts u" using "1.prems"(1) by (simp add: u_def)
    have body: "(if type > 0 \<and> type < DISPATCH_MAX \<and> au_dispatch u type \<noteq> None then
            (if au_skip u > 0 then run E reads (i + 1) (u\<lparr>au_skip := au_skip u - 1\<rparr>)
             else (case handle E W seq (the (au_dispatch u type)) u of
                     (Inl e, s') \<Rightarrow> Some (Inl e, s')
                   | (Inr _, s') \<Rightarrow> if ac_success (au_ctxt s') then Some (Inr (), s') else run E reads (i + 1) s'))
          else Some (Inl Disconnect, u)) = Some x"
      using "1.hyps" unfolding Inr r sum.case prod.case Let_def u_def .
    show ?thesis
    proof (cases "type > 0 \<and> type < DISPATCH_MAX \<and> au_dispatch u type \<noteq> None")
      case False
      then show ?thesis using body "1.prems"(3) by (simp only: if_False) auto
    next
      case True
      show ?thesis
      proof (cases "au_skip u > 0")
        case True2: True
        then have "run E reads (i + 1) (u\<lparr>au_skip := au_skip u - 1\<rparr>) = Some x" using body True by simp
        then show ?thesis using "1.IH" u "1.prems"(2,3) by simp
      next
        case False
        obtain q t where h: "handle E W seq (the (au_dispatch u type)) u = (q, t)" by fastforce
        have q: "q = Inr ()" using body True False h "1.prems"(3) by (cases q) auto
        note inv = handle_inv [OF h [unfolded q] u "1.prems"(2)]
        show ?thesis
        proof (cases "ac_success (au_ctxt t)")
          case True3: True
          then show ?thesis using body True False h q inv by auto
        next
          case False3: False
          then have "run E reads (i + 1) t = Some x" using body True False h q by simp
          then show ?thesis using "1.IH" inv False3 "1.prems"(2,3) by simp
        qed
      qed
    qed
  qed
qed

end
