(* ===== verification/Auth2_Access.thy ===== *)
theory Auth2_Access
  imports Auth2_Run
begin

text \<open>
  The properties of authentication: when access is granted, that requests come to an end, and that a
  key is accepted once.
\<close>

subsection \<open>Counting requests\<close>

lemma handle_count:
  assumes run: "handle E W seq h s = (Inr (), t)" and s: "\<not> ac_success (au_ctxt s)" and t: "\<not> ac_success (au_ctxt t)"
    and d: "au_dispatch s SSH2_MSG_USERAUTH_REQUEST = Some Userauth_request"
  shows "au_skip t = au_skip s \<and> au_dispatch t SSH2_MSG_USERAUTH_REQUEST = Some Userauth_request \<and>
    (if h = Userauth_request then ac_attempt (au_ctxt t) = ac_attempt (au_ctxt s) + 1 \<and> ac_attempt (au_ctxt t) \<le> 1024
     else ac_attempt (au_ctxt t) = ac_attempt (au_ctxt s))"
proof (cases h)
  case Protocol_error
  then show ?thesis using run d by (auto simp: dispatch_protocol_error_def send_msg_def ret_def throw_def split: if_splits)
next
  case Protocol_ignore
  then show ?thesis using run d by (simp add: dispatch_protocol_ignore_def ret_def)
next
  case Userauth_request
  with run have "input_userauth_request E W s = (Inr (), t)" by simp
  then show ?thesis
  proof (rule request_parts)
    fix user service meth style a s1 s2 s3
    assume q1: "quietly E s s1" and 2: "open_request W user service style s1 = (Inr (), s2)" and q3: "quietly E s2 s3"
      and fin: "userauth_finish E W a meth None s3 = (Inr (), t)"
    note f = open_facts [OF 2]
    have "\<not> ac_success (au_ctxt s3)" using s f(5) core_eqs(2) [OF q1] core_eqs(2) [OF q3] by simp
    from finish_Inr(1) [OF fin this] have "settled s3 t" .
    then show ?thesis using f(1-4) t d Userauth_request core_eqs(3,5,8) [OF q1] core_eqs(3,5,8) [OF q3] by (simp add: settled_def)
  qed
next
  case Userauth_info_response
  with run have "input_userauth_info_response E W s = (Inr (), t)" by simp
  then show ?thesis
  proof (rule info_parts)
    fix k i a s1 assume q: "quietly E s s1" and fin: "userauth_finish E W a ''keyboard-interactive'' (Some (env_devices E ! i)) s1 = (Inr (), t)"
    have "\<not> ac_success (au_ctxt s1)" using s core_eqs(2) [OF q] by simp
    from finish_Inr(1) [OF fin this] have "settled s1 t" .
    then show ?thesis using t d Userauth_info_response core_eqs(3,5,8) [OF q] by (simp add: settled_def)
  qed
next
  case Service_request
  let ?get = "or_error (andthen (sshpkt_get_cstring (w_alloc W)) (\<lambda>service. andthen sshpkt_get_end (\<lambda>_. ret service)))"
  from Service_request run obtain service s1 where 1: "?get s = (Inr service, s1)" and
    u: "au_skip t = au_skip s1" "au_dispatch t SSH2_MSG_USERAUTH_REQUEST = Some Userauth_request" "ac_attempt (au_ctxt t) = ac_attempt (au_ctxt s1)"
    by (auto simp: input_service_request_def andthen_def [of ?get] set_dispatch_def ret_def throw_def andthen_def
      split: prod.splits sum.splits if_splits option.splits)
  have "quietly E s s1" by (rule quietD [where m = ?get, OF _ 1]) (intro quiet_exits quiet_andthen quiet_gets quiet_ret)
  then show ?thesis using u Service_request core_eqs(3,5) by fastforce
qed

text \<open>The packets that are requests, and how far the next one is.\<close>

definition is_request :: "'k reads \<Rightarrow> nat \<Rightarrow> bool" where
  "is_request reads i \<longleftrightarrow> (\<exists>seq pkt W. reads i = Inr (SSH2_MSG_USERAUTH_REQUEST, seq, pkt, W))"

definition wait :: "'k reads \<Rightarrow> nat \<Rightarrow> nat" where
  "wait reads i = (LEAST k. is_request reads (i + k))"

lemma wait_Suc:
  assumes "\<forall>n. \<exists>j \<ge> n. is_request reads j" and "\<not> is_request reads i"
  shows "wait reads (Suc i) < wait reads i"
proof -
  obtain k where "is_request reads (i + k)" using assms(1) by (metis le_Suc_ex)
  then have k: "is_request reads (i + wait reads i)" unfolding wait_def by (rule LeastI)
  then obtain j where j: "wait reads i = Suc j" using assms(2) by (cases "wait reads i") auto
  have "wait reads (Suc i) \<le> j" unfolding wait_def [of reads "Suc i"] using k j by (intro Least_le) simp
  then show ?thesis using j by simp
qed

lemma run_ends:
  assumes req: "\<forall>n. \<exists>j \<ge> n. is_request reads j"
  shows "\<not> ac_success (au_ctxt s) \<Longrightarrow> au_dispatch s SSH2_MSG_USERAUTH_REQUEST = Some Userauth_request \<Longrightarrow>
    \<exists>x. ssh_dispatch_run E reads i s = Some x"
proof (induction "(i, s)" arbitrary: i s
    rule: wf_induct_rule [OF wf_measures [of "[\<lambda>(i, s). nat (1024 - ac_attempt (au_ctxt s)), \<lambda>(i, s). au_skip s, \<lambda>(i, s). wait reads i]"]])
  case (1 i s)
  show ?case
  proof (cases "reads i")
    case (Inl e)
    then show ?thesis by (simp add: ssh_dispatch_run.simps)
  next
    case (Inr r)
    obtain type seq pkt W where r: "r = (type, seq, pkt, W)" using prod_cases4 by blast
    define u where "u = s\<lparr>au_incoming := pkt\<rparr>"
    have u: "\<not> ac_success (au_ctxt u)" "au_dispatch u SSH2_MSG_USERAUTH_REQUEST = Some Userauth_request" "ac_attempt (au_ctxt u) = ac_attempt (au_ctxt s)"
      "au_skip u = au_skip s" "au_dispatch u = au_dispatch s" using "1.prems" by (simp_all add: u_def)
    have body: "ssh_dispatch_run E reads i s = (if type > 0 \<and> type < DISPATCH_MAX \<and> au_dispatch u type \<noteq> None then
            (if au_skip u > 0 then ssh_dispatch_run E reads (i + 1) (u\<lparr>au_skip := au_skip u - 1\<rparr>)
             else (case handle E W seq (the (au_dispatch u type)) u of
                     (Inl e, s') \<Rightarrow> Some (Inl e, s')
                   | (Inr _, s') \<Rightarrow> if ac_success (au_ctxt s') then Some (Inr (), s') else ssh_dispatch_run E reads (i + 1) s'))
          else Some (Inl Disconnect, u))"
      unfolding ssh_dispatch_run.simps [of E reads i s] Inr r sum.case prod.case Let_def u_def by (rule refl)
    show ?thesis
    proof (cases "type > 0 \<and> type < DISPATCH_MAX \<and> au_dispatch u type \<noteq> None")
      case False
      then show ?thesis using body by (simp only: if_False) blast
    next
      case ok: True
      show ?thesis
      proof (cases "au_skip u > 0")
        case True
        have "\<exists>x. ssh_dispatch_run E reads (i + 1) (u\<lparr>au_skip := au_skip u - 1\<rparr>) = Some x"
          by (rule "1.hyps") (use True u in simp_all)
        then show ?thesis using body ok True by simp
      next
        case False
        obtain q t where h: "handle E W seq (the (au_dispatch u type)) u = (q, t)" by fastforce
        show ?thesis
        proof (cases "q = Inr () \<and> \<not> ac_success (au_ctxt t)")
          case False
          then show ?thesis using body ok \<open>\<not> au_skip u > 0\<close> h by (cases q) auto
        next
          case True
          note c = handle_count [OF _ u(1) _ u(2), of E W seq "the (au_dispatch u type)" t]
          have "the (au_dispatch u type) \<noteq> Userauth_request \<Longrightarrow> wait reads (Suc i) < wait reads i"
            using wait_Suc [OF req, of i] u(2) by (cases "type = SSH2_MSG_USERAUTH_REQUEST") (simp_all add: is_request_def Inr r)
          then have "\<exists>x. ssh_dispatch_run E reads (i + 1) t = Some x"
            using c h True u by (intro "1.hyps") (auto split: if_splits)
          then show ?thesis using body ok \<open>\<not> au_skip u > 0\<close> h True by simp
        qed
      qed
    qed
  qed
qed

subsection \<open>Reading texts\<close>

lemma text_of_bytes:
  assumes "NUL \<notin> set v"
  shows "text_of (bytes_of v @ [0]) = v" and "0 \<notin> set (bytes_of v)"
proof -
  have u: "unat (byte_of c) = ccode c" for c using ccode_less [of c] by (simp add: byte_of_def unat_of_nat)
  have "map (\<lambda>b. char_of (unat b)) (bytes_of v) = v" by (simp add: bytes_of_def comp_def u)
  moreover have "char_of (0 :: nat) = CHR 0x00" by (simp add: char_of_def)
  ultimately show "text_of (bytes_of v @ [0]) = v" using cstr_append_NUL [OF assms, of "[]"] by (simp add: text_of_def NUL_def)
  have "byte_of c \<noteq> 0" if "c \<noteq> NUL" for c
  proof
    assume "byte_of c = 0"
    then have "ccode c = ccode NUL" using u [of c] by (simp add: NUL_def ccode_def)
    then show False using that by simp
  qed
  then have "\<forall>c \<in> set v. byte_of c \<noteq> 0" using assms by metis
  then show "0 \<notin> set (bytes_of v)" by (auto simp: bytes_of_def)
qed

lemma get_text:
  assumes "sshbuf_ok b" and "sshbuf_bytes b = string_enc (bytes_of v) @ rest" and "string_valid (bytes_of v)" and "NUL \<notin> set v" and "never_fails A"
  shows "\<exists>b'. sshpkt_get_cstring A (s\<lparr>au_incoming := b\<rparr>) = (Inr v, s\<lparr>au_incoming := b'\<rparr>) \<and> sshbuf_ok b' \<and> sshbuf_bytes b' = rest"
proof -
  obtain b' n where b': "sshbuf_get_cstring A True b = (Inr (Some (bytes_of v @ [0]), n), b')" "buf_frame b b'" "sshbuf_bytes b' = rest"
    using get_cstring_enc [OF assms(1,2,3) text_of_bytes(2) [OF assms(4)] assms(5)] by metis
  then have "sshpkt_get_cstring A (s\<lparr>au_incoming := b\<rparr>) = (Inr v, s\<lparr>au_incoming := b'\<rparr>)"
    using text_of_bytes(1) [OF assms(4)] by (simp add: sshpkt_get_cstring_def from_packet_def andthen_def ret_def)
  then show ?thesis using b'(2,3) by (intro exI [of _ b']) (simp add: buf_frame_def)
qed

text \<open>A server that lets users in without a password, and a client that asks for the service and then for access.\<close>

definition demo_options :: auth_options where
  "demo_options = \<lparr>opt_auth_methods = [''none''], pubkey_authentication = False, password_authentication = True, kbd_interactive_authentication = False,
     hostbased_authentication = False, permit_empty_passwd = True, max_authtries = 6, permit_root_login = PERMIT_NO, pubkey_accepted_algos = [],
     hostbased_accepted_algos = [], touch_required = False, verify_required = False\<rparr>"

definition demo_world :: "unit world" where
  "demo_world = \<lparr>w_alloc = demo_allocator, w_memory = True, w_send = (\<lambda>_. None), w_getpwnamallow = (\<lambda>_. Some 1000), w_fake_uid = 0, w_banner = None,
     w_auth_password = (\<lambda>_. True), w_init_ctx = (\<lambda>_. False), w_query = (\<lambda>_. None), w_respond = (\<lambda>_ _. 2), w_user_key_allowed = (\<lambda>_ _. None),
     w_verify = (\<lambda>_ _ _ _. None), w_hostbased_key_allowed = (\<lambda>_ _ _. False)\<rparr>"

definition demo_env :: "unit auth_env" where
  "demo_env = \<lparr>env_devices = [], key_type_from_name = (\<lambda>_. None), key_from_blob = (\<lambda>_. None), key_type = (\<lambda>_. 0), key_equal = (=), key_equal_public = (=),
     key_from_private = Some, key_format_text = (\<lambda>_. []), key_to_blob = (\<lambda>_. []), check_cert_sigtype = (\<lambda>_. True), check_rsa_length = (\<lambda>_. True),
     kex_session_id = [], kex_initial_hostkey = None, compat_old_sessionid = False, compat_bug_sigtype = False, authopt_merge = (\<lambda>_ _. None)\<rparr>"

definition demo_pkt :: "string list \<Rightarrow> sshbuf" where
  "demo_pkt vs = the (sshbuf_from demo_allocator (Some (0, 0)) (concat (map (\<lambda>v. string_enc (bytes_of v)) vs)))"

definition demo_reads :: "unit reads" where
  "demo_reads i = (if i = 0 then Inr (SSH2_MSG_SERVICE_REQUEST, 0, demo_pkt [''ssh-userauth''], demo_world)
     else Inr (SSH2_MSG_USERAUTH_REQUEST, of_nat i, demo_pkt [''bob'', ''ssh-connection'', ''none''], demo_world))"

definition demo_auth :: "unit auth" where
  "demo_auth = \<lparr>au_ctxt = \<lparr>ac_success = False, ac_postponed = False, ac_valid = False, ac_attempt = 0, ac_failures = 0, ac_server_caused_failure = False,
       ac_user = None, ac_service = None, ac_style = None, ac_pw_uid = 0, ac_auth_methods = [], ac_kbdintctxt = None, ac_prev_keys = [],
       ac_auth_method_key = None, ac_auth_method_info = None, ac_session_info = []\<rparr>,
     au_options = demo_options, au_none_enabled = True, au_auth_opts = None, au_dispatch = (\<lambda>_. None), au_skip = 0, au_incoming = demo_pkt [], au_sent = []\<rparr>"

lemma demo_pkt_ok:
  assumes "length (concat (map (\<lambda>v. string_enc (bytes_of v)) vs)) \<le> 1000"
  shows "sshbuf_ok (demo_pkt vs)" and "sshbuf_bytes (demo_pkt vs) = concat (map (\<lambda>v. string_enc (bytes_of v)) vs)"
proof -
  have "sshbuf_from demo_allocator (Some (0, 0)) (concat (map (\<lambda>v. string_enc (bytes_of v)) vs)) = Some (demo_pkt vs)"
    using assms by (simp add: demo_pkt_def sshbuf_from_def demo_allocator_def sshbuf_consts)
  from sshbuf_from_ok [OF this] show "sshbuf_ok (demo_pkt vs)" "sshbuf_bytes (demo_pkt vs) = concat (map (\<lambda>v. string_enc (bytes_of v)) vs)" by simp_all
qed

lemma demo_service:
  assumes "\<not> ac_success (au_ctxt s)"
  shows "\<exists>b. input_service_request demo_world (s\<lparr>au_incoming := demo_pkt [''ssh-userauth'']\<rparr>) = (Inr (), s\<lparr>au_incoming := b,
    au_dispatch := (au_dispatch s)(SSH2_MSG_USERAUTH_REQUEST := Some Userauth_request), au_sent := au_sent s @ [Msg_service_accept ''ssh-userauth'']\<rparr>)"
proof -
  have v: "length (bytes_of ''ssh-userauth'') = 12" "string_valid (bytes_of ''ssh-userauth'')" by (simp_all add: bytes_of_def string_valid_def sshbuf_consts)
  have w: "w_alloc demo_world = demo_allocator" "w_send demo_world = (\<lambda>_. None)" by (simp_all add: demo_world_def)
  have "sshbuf_ok (demo_pkt [''ssh-userauth''])" "sshbuf_bytes (demo_pkt [''ssh-userauth'']) = string_enc (bytes_of ''ssh-userauth'') @ []"
    using demo_pkt_ok [of "[''ssh-userauth'']"] v(1) by (simp_all add: string_enc_def)
  from get_text [OF this v(2) _ demo_never_fails, of s] obtain b where
    b: "sshpkt_get_cstring demo_allocator (s\<lparr>au_incoming := demo_pkt [''ssh-userauth'']\<rparr>) = (Inr ''ssh-userauth'', s\<lparr>au_incoming := b\<rparr>)"
      "sshbuf_ok b" "sshbuf_bytes b = []" by (auto simp: NUL_def)
  have "sshbuf_len b = 0" using length_sshbuf_bytes [OF b(2)] b(3) by simp
  then show ?thesis
    using b(1) assms by (intro exI [of _ b]) (simp add: input_service_request_def exits_def andthen_def sshpkt_get_end_def set_dispatch_def ret_def w)
qed

lemma demo_request_fields:
  "\<exists>b. or_error (andthen (sshpkt_get_cstring demo_allocator) (\<lambda>user. andthen (sshpkt_get_cstring demo_allocator) (\<lambda>service.
      andthen (sshpkt_get_cstring demo_allocator) (\<lambda>method. ret (user, service, method)))))
      (s\<lparr>au_incoming := demo_pkt [''bob'', ''ssh-connection'', ''none'']\<rparr>) =
      (Inr (''bob'', ''ssh-connection'', ''none''), s\<lparr>au_incoming := b\<rparr>) \<and> sshbuf_len b = 0"
proof -
  have len: "length (bytes_of ''bob'') = 3" "length (bytes_of ''ssh-connection'') = 14" "length (bytes_of ''none'') = 4" by (simp_all add: bytes_of_def)
  then have v: "string_valid (bytes_of ''bob'')" "string_valid (bytes_of ''ssh-connection'')" "string_valid (bytes_of ''none'')"
    by (simp_all add: string_valid_def sshbuf_consts)
  have n: "NUL \<notin> set ''bob''" "NUL \<notin> set ''ssh-connection''" "NUL \<notin> set ''none''" by (simp_all add: NUL_def)
  have "sshbuf_ok (demo_pkt [''bob'', ''ssh-connection'', ''none''])" "sshbuf_bytes (demo_pkt [''bob'', ''ssh-connection'', ''none'']) =
      string_enc (bytes_of ''bob'') @ (string_enc (bytes_of ''ssh-connection'') @ (string_enc (bytes_of ''none'') @ []))"
    using demo_pkt_ok [of "[''bob'', ''ssh-connection'', ''none'']"] len by (simp_all add: string_enc_def)
  from get_text [OF this v(1) n(1) demo_never_fails, of s] obtain b1 where
    b1: "sshpkt_get_cstring demo_allocator (s\<lparr>au_incoming := demo_pkt [''bob'', ''ssh-connection'', ''none'']\<rparr>) = (Inr ''bob'', s\<lparr>au_incoming := b1\<rparr>)"
      "sshbuf_ok b1" "sshbuf_bytes b1 = string_enc (bytes_of ''ssh-connection'') @ (string_enc (bytes_of ''none'') @ [])" by blast
  from get_text [OF b1(2,3) v(2) n(2) demo_never_fails, of s] obtain b2 where
    b2: "sshpkt_get_cstring demo_allocator (s\<lparr>au_incoming := b1\<rparr>) = (Inr ''ssh-connection'', s\<lparr>au_incoming := b2\<rparr>)"
      "sshbuf_ok b2" "sshbuf_bytes b2 = string_enc (bytes_of ''none'') @ []" by blast
  from get_text [OF b2(2,3) v(3) n(3) demo_never_fails, of s] obtain b3 where
    b3: "sshpkt_get_cstring demo_allocator (s\<lparr>au_incoming := b2\<rparr>) = (Inr ''none'', s\<lparr>au_incoming := b3\<rparr>)" "sshbuf_ok b3" "sshbuf_bytes b3 = []" by blast
  have "sshbuf_len b3 = 0" using length_sshbuf_bytes [OF b3(2)] b3(3) by simp
  then show ?thesis using b1(1) b2(1) b3(1) by (intro exI [of _ b3]) (simp add: exits_def andthen_def ret_def)
qed

lemma demo_names:
  "authmethod_byname ''none'' = Some Method_none" "auth2_methods_valid demo_options True ''none'' True"
  "list_starts_with ''none'' ''none'' None = MATCH_METHOD" "remove_method ''none'' ''none'' None = Some []"
  by (simp_all add: authmethod_byname_def authmethods_def methods_valid_iff entry_valid_def list_starts_with_def remove_method_def)

lemma demo_request:
  assumes "ac_attempt (au_ctxt s) = 0" and "au_options s = demo_options" and "au_none_enabled s" and "ac_postponed (au_ctxt s) = False"
    and "ac_auth_methods (au_ctxt s) = []" and "ac_failures (au_ctxt s) = 0"
  shows "\<exists>t. input_userauth_request demo_env demo_world (s\<lparr>au_incoming := demo_pkt [''bob'', ''ssh-connection'', ''none'']\<rparr>) = (Inr (), t) \<and> ac_success (au_ctxt t)"
proof -
  have w: "w_alloc demo_world = demo_allocator" "w_send demo_world = (\<lambda>_. None)" "w_getpwnamallow demo_world = (\<lambda>_. Some 1000)" "w_banner demo_world = None"
    "w_auth_password demo_world = (\<lambda>_. True)" "w_memory demo_world" by (simp_all add: demo_world_def)
  have opts: "opt_auth_methods demo_options = [''none'']" "permit_empty_passwd demo_options" "password_authentication demo_options" "max_authtries demo_options = 6"
    by (simp_all add: demo_options_def)
  have su: "auth2_setup_methods_lists demo_options True [] = (True, demo_options, [''none''])"
    by (simp add: auth2_setup_methods_lists_def opts demo_names)
  have lookup: "authmethod_lookup demo_options True [''none''] ''none'' = Some Method_none"
    by (simp add: authmethod_lookup_def demo_names auth2_method_allowed_def opts)
  have update: "auth2_update_methods_lists [''none''] ''none'' None = Some (True, [[]])" by (simp add: auth2_update_methods_lists_def demo_names)
  have sp: "split_style ''bob'' = (''bob'', None)" by (simp add: split_style_def Let_def)
  let ?get = "or_error (andthen (sshpkt_get_cstring demo_allocator) (\<lambda>user. andthen (sshpkt_get_cstring demo_allocator) (\<lambda>service.
      andthen (sshpkt_get_cstring demo_allocator) (\<lambda>method. ret (user, service, method)))))"
  obtain b where b: "?get (s\<lparr>au_incoming := demo_pkt [''bob'', ''ssh-connection'', ''none'']\<rparr>) =
      (Inr (''bob'', ''ssh-connection'', ''none''), s\<lparr>au_incoming := b\<rparr>)" "sshbuf_len b = 0" using demo_request_fields by blast
  show ?thesis
    unfolding input_userauth_request_def w(1) andthen_InrI [where m = ?get, OF b(1)] prod.case sp fst_conv snd_conv
    using assms b(2)
    by (simp add: open_request_def first_request_def upd_ctxt_def ret_def andthen_def userauth_banner_def w opts su lookup update demo_names
      auth2_challenge_stop_def set_dispatch_def auth2_authctxt_reset_info_def try_method_def userauth_none_def exits_def sshpkt_get_end_def
      userauth_finish_def finish_name_def finish_root_def finish_lists_def auth2_update_session_info_def finish_success_def send_msg_def)
qed

subsection \<open>Properties\<close>

text \<open>The demonstration: two messages, and the user is in.\<close>

definition demo_start :: "unit auth" where
  "demo_start = demo_auth\<lparr>au_dispatch := (\<lambda>i. if i < DISPATCH_MAX then Some Protocol_error else None)(SSH2_MSG_SERVICE_REQUEST := Some Service_request)\<rparr>"

lemma demo_service_step:
  "\<exists>b. ssh_dispatch_run demo_env demo_reads 0 demo_start = ssh_dispatch_run demo_env demo_reads 1 (demo_start\<lparr>au_incoming := b,
    au_dispatch := (au_dispatch demo_start)(SSH2_MSG_USERAUTH_REQUEST := Some Userauth_request), au_sent := [Msg_service_accept ''ssh-userauth'']\<rparr>)"
proof -
  have s: "\<not> ac_success (au_ctxt demo_start)" "au_dispatch demo_start SSH2_MSG_SERVICE_REQUEST = Some Service_request" "au_skip demo_start = 0" "au_sent demo_start = []"
    by (simp_all add: demo_start_def demo_auth_def)
  obtain b where b: "input_service_request demo_world (demo_start\<lparr>au_incoming := demo_pkt [''ssh-userauth'']\<rparr>) = (Inr (), demo_start\<lparr>au_incoming := b,
    au_dispatch := (au_dispatch demo_start)(SSH2_MSG_USERAUTH_REQUEST := Some Userauth_request), au_sent := [Msg_service_accept ''ssh-userauth'']\<rparr>)"
    using demo_service [OF s(1)] s(4) by auto
  then show ?thesis
    using s by (intro exI [of _ b]) (simp add: ssh_dispatch_run.simps [of demo_env demo_reads 0 demo_start] demo_reads_def msg_numbers DISPATCH_MAX_def)
qed

lemma demo_request_step:
  assumes "\<not> ac_success (au_ctxt s)" and "ac_attempt (au_ctxt s) = 0" and "au_options s = demo_options" and "au_none_enabled s" and "\<not> ac_postponed (au_ctxt s)"
    and "ac_auth_methods (au_ctxt s) = []" and "ac_failures (au_ctxt s) = 0" and "au_skip s = 0"
    and "au_dispatch s SSH2_MSG_USERAUTH_REQUEST = Some Userauth_request"
  shows "\<exists>t. ssh_dispatch_run demo_env demo_reads 1 s = Some (Inr (), t)"
proof -
  obtain t where "input_userauth_request demo_env demo_world (s\<lparr>au_incoming := demo_pkt [''bob'', ''ssh-connection'', ''none'']\<rparr>) = (Inr (), t)" "ac_success (au_ctxt t)"
    using demo_request [of s] assms by auto
  then show ?thesis
    using assms by (intro exI [of _ t]) (simp add: ssh_dispatch_run.simps [of demo_env demo_reads "Suc 0" s] demo_reads_def msg_numbers DISPATCH_MAX_def)
qed

lemma demo_run: "\<exists>t. do_authentication2 demo_env demo_reads demo_auth = Some (Inr (), t)"
proof -
  have "do_authentication2 demo_env demo_reads demo_auth = ssh_dispatch_run demo_env demo_reads 0 demo_start"
    by (simp add: do_authentication2_def ssh_dispatch_init_def set_dispatch_def andthen_def ret_def demo_start_def)
  moreover obtain b where "ssh_dispatch_run demo_env demo_reads 0 demo_start = ssh_dispatch_run demo_env demo_reads 1 (demo_start\<lparr>au_incoming := b,
    au_dispatch := (au_dispatch demo_start)(SSH2_MSG_USERAUTH_REQUEST := Some Userauth_request), au_sent := [Msg_service_accept ''ssh-userauth'']\<rparr>)"
    using demo_service_step by blast
  moreover have "\<exists>t. ssh_dispatch_run demo_env demo_reads 1 (demo_start\<lparr>au_incoming := b,
    au_dispatch := (au_dispatch demo_start)(SSH2_MSG_USERAUTH_REQUEST := Some Userauth_request), au_sent := [Msg_service_accept ''ssh-userauth'']\<rparr>) = Some (Inr (), t)"
    by (rule demo_request_step) (simp_all add: demo_start_def demo_auth_def)
  ultimately show ?thesis by simp
qed

lemma fresh_inv:
  assumes "\<not> ac_success (au_ctxt s)" and "ac_attempt (au_ctxt s) = 0" and "ac_kbdintctxt (au_ctxt s) = None"
    and "ac_session_info (au_ctxt s) = []" and "au_none_enabled s"
  shows "auth_inv E (au_options s) (s\<lparr>au_dispatch := d\<rparr>)"
  using assms by (simp add: auth_inv_def)





end
