(* ===== verification/Rijndael_Correct.thy ===== *)
theory Rijndael_Correct
  imports Rijndael
begin

text \<open>
  The cipher of \<^verbatim>\<open>rijndael.c\<close> computes AES. The standard is stated on the sixteen bytes of the state, column by column, with the
  steps that it names; the code combines three of the steps in the tables of 32-bit words.
\<close>

subsection \<open>The standard\<close>

text \<open>Multiplication by \<open>x\<close> in the field with 256 elements, and the substitution.\<close>

definition xtime :: "u8 \<Rightarrow> u8" where
  "xtime a = (if bit a 7 then push_bit 1 a XOR 0x1b else push_bit 1 a)"

definition sbox :: "u8 list" where
  "sbox =
     [0x63, 0x7c, 0x77, 0x7b, 0xf2, 0x6b, 0x6f, 0xc5, 0x30, 0x01, 0x67, 0x2b, 0xfe, 0xd7, 0xab, 0x76,
      0xca, 0x82, 0xc9, 0x7d, 0xfa, 0x59, 0x47, 0xf0, 0xad, 0xd4, 0xa2, 0xaf, 0x9c, 0xa4, 0x72, 0xc0,
      0xb7, 0xfd, 0x93, 0x26, 0x36, 0x3f, 0xf7, 0xcc, 0x34, 0xa5, 0xe5, 0xf1, 0x71, 0xd8, 0x31, 0x15,
      0x04, 0xc7, 0x23, 0xc3, 0x18, 0x96, 0x05, 0x9a, 0x07, 0x12, 0x80, 0xe2, 0xeb, 0x27, 0xb2, 0x75,
      0x09, 0x83, 0x2c, 0x1a, 0x1b, 0x6e, 0x5a, 0xa0, 0x52, 0x3b, 0xd6, 0xb3, 0x29, 0xe3, 0x2f, 0x84,
      0x53, 0xd1, 0x00, 0xed, 0x20, 0xfc, 0xb1, 0x5b, 0x6a, 0xcb, 0xbe, 0x39, 0x4a, 0x4c, 0x58, 0xcf,
      0xd0, 0xef, 0xaa, 0xfb, 0x43, 0x4d, 0x33, 0x85, 0x45, 0xf9, 0x02, 0x7f, 0x50, 0x3c, 0x9f, 0xa8,
      0x51, 0xa3, 0x40, 0x8f, 0x92, 0x9d, 0x38, 0xf5, 0xbc, 0xb6, 0xda, 0x21, 0x10, 0xff, 0xf3, 0xd2,
      0xcd, 0x0c, 0x13, 0xec, 0x5f, 0x97, 0x44, 0x17, 0xc4, 0xa7, 0x7e, 0x3d, 0x64, 0x5d, 0x19, 0x73,
      0x60, 0x81, 0x4f, 0xdc, 0x22, 0x2a, 0x90, 0x88, 0x46, 0xee, 0xb8, 0x14, 0xde, 0x5e, 0x0b, 0xdb,
      0xe0, 0x32, 0x3a, 0x0a, 0x49, 0x06, 0x24, 0x5c, 0xc2, 0xd3, 0xac, 0x62, 0x91, 0x95, 0xe4, 0x79,
      0xe7, 0xc8, 0x37, 0x6d, 0x8d, 0xd5, 0x4e, 0xa9, 0x6c, 0x56, 0xf4, 0xea, 0x65, 0x7a, 0xae, 0x08,
      0xba, 0x78, 0x25, 0x2e, 0x1c, 0xa6, 0xb4, 0xc6, 0xe8, 0xdd, 0x74, 0x1f, 0x4b, 0xbd, 0x8b, 0x8a,
      0x70, 0x3e, 0xb5, 0x66, 0x48, 0x03, 0xf6, 0x0e, 0x61, 0x35, 0x57, 0xb9, 0x86, 0xc1, 0x1d, 0x9e,
      0xe1, 0xf8, 0x98, 0x11, 0x69, 0xd9, 0x8e, 0x94, 0x9b, 0x1e, 0x87, 0xe9, 0xce, 0x55, 0x28, 0xdf,
      0x8c, 0xa1, 0x89, 0x0d, 0xbf, 0xe6, 0x42, 0x68, 0x41, 0x99, 0x2d, 0x0f, 0xb0, 0x54, 0xbb, 0x16]"
definition aes_sub :: "u8 \<Rightarrow> u8" where
  "aes_sub x = sbox ! unat x"

definition mix_byte :: "u8 \<Rightarrow> u8 \<Rightarrow> u8 \<Rightarrow> u8 \<Rightarrow> u8" where
  "mix_byte a b c d = xtime a XOR (xtime b XOR b) XOR c XOR d"

definition sub_bytes :: "u8 list \<Rightarrow> u8 list" where
  "sub_bytes = map aes_sub"

definition shift_rows :: "u8 list \<Rightarrow> u8 list" where
  "shift_rows s = map (\<lambda>i. s ! ((i + 4 * (i mod 4)) mod 16)) [0..<16]"

definition mix_columns :: "u8 list \<Rightarrow> u8 list" where
  "mix_columns s =
     map (\<lambda>i. let c = 4 * (i div 4) in
                mix_byte (s ! i) (s ! (c + (i + 1) mod 4)) (s ! (c + (i + 2) mod 4)) (s ! (c + (i + 3) mod 4))) [0..<16]"

text \<open>The round keys are a sequence of words, of which each round takes four.\<close>

definition add_round_key :: "(nat \<Rightarrow> u32) \<Rightarrow> nat \<Rightarrow> u8 list \<Rightarrow> u8 list" where
  "add_round_key w n s = map2 (XOR) s (concat (map (\<lambda>j. PUTU32 (w (4 * n + j))) [0..<4]))"

definition aes_round :: "(nat \<Rightarrow> u32) \<Rightarrow> nat \<Rightarrow> u8 list \<Rightarrow> u8 list" where
  "aes_round w n s = add_round_key w n (mix_columns (shift_rows (sub_bytes s)))"

definition aes_cipher :: "(nat \<Rightarrow> u32) \<Rightarrow> nat \<Rightarrow> u8 list \<Rightarrow> u8 list" where
  "aes_cipher w Nr pt = add_round_key w Nr (shift_rows (sub_bytes (fold (aes_round w) [1..<Nr] (add_round_key w 0 pt))))"

definition sub_word :: "u32 \<Rightarrow> u32" where
  "sub_word x = GETU32 (map aes_sub (PUTU32 x))"

definition rot_word :: "u32 \<Rightarrow> u32" where
  "rot_word x = GETU32 (rotate1 (PUTU32 x))"

definition round_const :: "nat \<Rightarrow> u32" where
  "round_const n = GETU32 [(xtime ^^ (n - 1)) 1, 0, 0, 0]"

function expand_key :: "u8 list \<Rightarrow> nat \<Rightarrow> nat \<Rightarrow> u32" where
  "expand_key key nk i =
     (if i < nk \<or> nk = 0 then GETU32 (drop (4 * i) key)
      else let temp = expand_key key nk (i - 1);
               temp = (if i mod nk = 0 then sub_word (rot_word temp) XOR round_const (i div nk)
                       else if nk > 6 \<and> i mod nk = 4 then sub_word temp else temp)
           in expand_key key nk (i - nk) XOR temp)"
  by pat_completeness auto
termination by (relation "measure (\<lambda>(_, _, i). i)") auto

declare expand_key.simps [simp del]

subsection \<open>Words and their bytes\<close>

lemma u8_high: "8 \<le> n \<Longrightarrow> \<not> bit (x :: u8) n"
  using bit_imp_le_length [of x n] by auto

lemma PUT_GET: "PUTU32 (GETU32 [a, b, c, d]) = [a, b, c, d]"
  by (auto simp: PUTU32_def GETU32_def bit_eq_iff bit_simps u8_high)

lemma PUT_xor: "PUTU32 (x XOR y) = map2 (XOR) (PUTU32 x) (PUTU32 y)"
  by (auto simp: PUTU32_def bit_eq_iff bit_simps)

lemma GET_PUT: "GETU32 (PUTU32 x) = x"
proof (rule bit_word_eqI)
  fix n assume n: "n < LENGTH(32)"
  have "\<exists>m<8. n = m \<or> n = 8 + m \<or> n = 16 + m \<or> n = 24 + m" using n by simp presburger
  then obtain m where "m < 8" "n = m \<or> n = 8 + m \<or> n = 16 + m \<or> n = 24 + m" by blast
  then show "bit (GETU32 (PUTU32 x)) n = bit x n" by (elim disjE) (simp_all add: PUTU32_def GETU32_def bit_simps)
qed

definition byte_of :: "nat \<Rightarrow> u32 \<Rightarrow> u8" where
  "byte_of n x = ucast (drop_bit (8 * n) x)"

lemma PUTU32_bytes: "PUTU32 x = [byte_of 3 x, byte_of 2 x, byte_of 1 x, byte_of 0 x]"
  by (simp add: PUTU32_def byte_of_def)

lemma index_bytes:
  "unat (drop_bit 24 x :: u32) = unat (byte_of 3 x)" "unat (drop_bit 16 x AND 0xff :: u32) = unat (byte_of 2 x)"
  "unat (drop_bit 8 x AND 0xff :: u32) = unat (byte_of 1 x)" "unat (x AND 0xff :: u32) = unat (byte_of 0 x)"
proof -
  have u: "unat (y :: u32) = unat (z :: u8)" if "y = ucast z" for y z
    using unsigned_less [of z, where ?'a = nat] by (simp add: that unsigned_ucast_eq take_bit_nat_eq_self less_trans [of "unat z" 256])
  have m: "y AND 0xff = ucast (ucast y :: u8)" for y :: u32 
  proof -
    have "(0xff :: u32) = mask 8" by (simp add: mask_eq_exp_minus_1)
    then show ?thesis by (auto simp: bit_eq_iff bit_simps)
  qed
  show "unat (drop_bit 16 x AND 0xff :: u32) = unat (byte_of 2 x)" "unat (drop_bit 8 x AND 0xff :: u32) = unat (byte_of 1 x)"
    "unat (x AND 0xff :: u32) = unat (byte_of 0 x)"
    unfolding m by (rule u; simp add: byte_of_def)+
  show "unat (drop_bit 24 x :: u32) = unat (byte_of 3 x)"
    by (rule u) (auto simp: byte_of_def bit_eq_iff bit_simps dest: bit_imp_le_length)
qed

subsection \<open>The tables\<close>

definition te0 :: "u8 \<Rightarrow> u32" where "te0 s = GETU32 [xtime s, s, s, xtime s XOR s]"
definition te1 :: "u8 \<Rightarrow> u32" where "te1 s = GETU32 [xtime s XOR s, xtime s, s, s]"
definition te2 :: "u8 \<Rightarrow> u32" where "te2 s = GETU32 [s, xtime s XOR s, xtime s, s]"
definition te3 :: "u8 \<Rightarrow> u32" where "te3 s = GETU32 [s, s, xtime s XOR s, xtime s]"

lemma Te0_spec: "Te0 = map te0 sbox"
  by (simp add: te0_def GETU32_def xtime_def sbox_def Te0_def)

lemma Te1_spec: "Te1 = map te1 sbox"
  by (simp add: te1_def GETU32_def xtime_def sbox_def Te1_def)

lemma Te2_spec: "Te2 = map te2 sbox"
  by (simp add: te2_def GETU32_def xtime_def sbox_def Te2_def)

lemma Te3_spec: "Te3 = map te3 sbox"
  by (simp add: te3_def GETU32_def xtime_def sbox_def Te3_def)


lemma length_sbox: "length sbox = 256"
  by (simp add: sbox_def)

lemma table_lookup:
  "Te0 ! unat (x :: u8) = te0 (aes_sub x)" "Te1 ! unat x = te1 (aes_sub x)" "Te2 ! unat x = te2 (aes_sub x)" "Te3 ! unat x = te3 (aes_sub x)"
  using unsigned_less [of x, where ?'a = nat] by (simp_all add: Te0_spec Te1_spec Te2_spec Te3_spec aes_sub_def length_sbox)

text \<open>The masks of the code keep one byte of a word.\<close>

lemma PUT_masks:
  "PUTU32 (x AND 0xff000000) = [byte_of 3 x, 0, 0, 0]" "PUTU32 (x AND 0x00ff0000) = [0, byte_of 2 x, 0, 0]"
  "PUTU32 (x AND 0x0000ff00) = [0, 0, byte_of 1 x, 0]" "PUTU32 (x AND 0x000000ff) = [0, 0, 0, byte_of 0 x]"
proof -
  have m: "(0xff000000 :: u32) = push_bit 24 (mask 8)" "(0x00ff0000 :: u32) = push_bit 16 (mask 8)" "(0x0000ff00 :: u32) = push_bit 8 (mask 8)"
    "(0x000000ff :: u32) = mask 8"
    by (simp_all add: mask_eq_exp_minus_1)
  show "PUTU32 (x AND 0xff000000) = [byte_of 3 x, 0, 0, 0]" "PUTU32 (x AND 0x00ff0000) = [0, byte_of 2 x, 0, 0]"
    "PUTU32 (x AND 0x0000ff00) = [0, 0, byte_of 1 x, 0]" "PUTU32 (x AND 0x000000ff) = [0, 0, 0, byte_of 0 x]"
    unfolding m PUTU32_def byte_of_def by (auto simp: bit_eq_iff bit_simps)
qed

lemma byte_of_drop: "byte_of 0 (drop_bit 16 x) = byte_of 2 x" "byte_of 0 (drop_bit 8 x) = byte_of 1 x"
  by (simp_all add: byte_of_def)

lemma bytes_of_te:
  "byte_of 3 (te2 s) = s" "byte_of 2 (te3 s) = s" "byte_of 1 (te0 s) = s" "byte_of 0 (te1 s) = s"
proof -
  have "[byte_of 3 (GETU32 [a, b, c, d]), byte_of 2 (GETU32 [a, b, c, d]), byte_of 1 (GETU32 [a, b, c, d]), byte_of 0 (GETU32 [a, b, c, d])] = [a, b, c, d]" for a b c d
    unfolding PUTU32_bytes [symmetric] by (rule PUT_GET)
  then show "byte_of 3 (te2 s) = s" "byte_of 2 (te3 s) = s" "byte_of 1 (te0 s) = s" "byte_of 0 (te1 s) = s"
    by (simp_all add: te0_def te1_def te2_def te3_def)
qed

subsection \<open>The rounds\<close>

lemma PUT_tables:
  "PUTU32 (te0 a XOR te1 b XOR te2 c XOR te3 d XOR k) =
     [mix_byte a b c d XOR byte_of 3 k, mix_byte b c d a XOR byte_of 2 k, mix_byte c d a b XOR byte_of 1 k, mix_byte d a b c XOR byte_of 0 k]"
  unfolding PUT_xor te0_def te1_def te2_def te3_def PUT_GET PUTU32_bytes [of k]
  by (simp add: mix_byte_def xor.assoc xor.commute xor.left_commute)

lemma table_col_bytes:
  "table_col a b c d k = te0 (aes_sub (byte_of 3 a)) XOR te1 (aes_sub (byte_of 2 b)) XOR te2 (aes_sub (byte_of 1 c)) XOR te3 (aes_sub (byte_of 0 d)) XOR k"
  by (simp only: table_col_def index_bytes(1-3) index_bytes(4) table_lookup byte_of_drop)

lemma PUT_last_col:
  "PUTU32 (last_col a b c d k) =
     [aes_sub (byte_of 3 a) XOR byte_of 3 k, aes_sub (byte_of 2 b) XOR byte_of 2 k, aes_sub (byte_of 1 c) XOR byte_of 1 k, aes_sub (byte_of 0 d) XOR byte_of 0 k]"
  unfolding last_col_def index_bytes(1-3) index_bytes(4) table_lookup PUT_xor PUT_masks bytes_of_te PUTU32_bytes [of k] by (simp add: byte_of_drop)

definition quad_bytes :: "quad \<Rightarrow> u8 list" where
  "quad_bytes s = (case s of (s0, s1, s2, s3) \<Rightarrow> PUTU32 s0 @ PUTU32 s1 @ PUTU32 s2 @ PUTU32 s3)"

definition quad_key :: "(nat \<Rightarrow> u32) \<Rightarrow> nat \<Rightarrow> quad" where
  "quad_key w n = (w (4 * n), w (4 * n + 1), w (4 * n + 2), w (4 * n + 3))"

lemma add_round_key_bytes: "add_round_key w n s = map2 (XOR) s (quad_bytes (quad_key w n))"
proof -
  have "[0..<4] = [0, 1, 2, 3 :: nat]" by (simp add: upt_rec)
  then show ?thesis by (simp add: add_round_key_def quad_bytes_def quad_key_def)
qed

lemma upt_16: "[0..<16] = [0, 1, 2, 3, 4, 5, 6, 7, 8, 9, 10, 11, 12, 13, 14, 15 :: nat]"
  by (simp add: upt_rec)

lemma byte_table_col:
  "byte_of 3 (table_col a b c d k) = mix_byte (aes_sub (byte_of 3 a)) (aes_sub (byte_of 2 b)) (aes_sub (byte_of 1 c)) (aes_sub (byte_of 0 d)) XOR byte_of 3 k"
  "byte_of 2 (table_col a b c d k) = mix_byte (aes_sub (byte_of 2 b)) (aes_sub (byte_of 1 c)) (aes_sub (byte_of 0 d)) (aes_sub (byte_of 3 a)) XOR byte_of 2 k"
  "byte_of 1 (table_col a b c d k) = mix_byte (aes_sub (byte_of 1 c)) (aes_sub (byte_of 0 d)) (aes_sub (byte_of 3 a)) (aes_sub (byte_of 2 b)) XOR byte_of 1 k"
  "byte_of 0 (table_col a b c d k) = mix_byte (aes_sub (byte_of 0 d)) (aes_sub (byte_of 3 a)) (aes_sub (byte_of 2 b)) (aes_sub (byte_of 1 c)) XOR byte_of 0 k"
  using PUT_tables [of "aes_sub (byte_of 3 a)" "aes_sub (byte_of 2 b)" "aes_sub (byte_of 1 c)" "aes_sub (byte_of 0 d)" k]
  unfolding PUTU32_bytes [of "te0 x XOR y" for x y] table_col_bytes by simp_all

lemma table_round_aes: "quad_bytes (table_round rk (4 * n) s) = aes_round ((!) rk) n (quad_bytes s)"
  by (cases s) (simp add: aes_round_def add_round_key_bytes quad_bytes_def table_round_def quad_key_def sub_bytes_def PUTU32_bytes
      byte_table_col [simplified] shift_rows_def mix_columns_def upt_16)

text \<open>Each turn of the loop is two rounds, and the last one a single round.\<close>

lemma round_loop_aes:
  "0 < r \<Longrightarrow> quad_bytes (fst (round_loop rk (4 * n) r s)) = fold (aes_round ((!) rk)) [n + 1..<n + 2 * r] (quad_bytes s) \<and>
     snd (round_loop rk (4 * n) r s) = 4 * (n + 2 * r)"
proof (induction r arbitrary: n s)
  case (Suc r)
  have t: "quad_bytes (table_round rk (4 * n + 4) s) = aes_round ((!) rk) (n + 1) (quad_bytes s)" for n s
    using table_round_aes [of rk "n + 1" s] by (simp add: algebra_simps)
  show ?case
  proof (cases "r = 0")
    case True
    then show ?thesis by (simp add: round_loop.simps [of _ _ "Suc 0"] Let_def t)
  next
    case False
    have p: "4 * n + 8 = 4 * (n + 2)" by simp
    have l: "round_loop rk (4 * n) (Suc r) s = round_loop rk (4 * (n + 2)) r (table_round rk (4 * (n + 2)) (table_round rk (4 * n + 4) s))"
      unfolding round_loop.simps [of rk "4 * n" "Suc r" s] Let_def p using False by simp
    have "[n + 1..<n + 2 * Suc r] = (n + 1) # (n + 2) # [n + 2 + 1..<n + 2 + 2 * r]"
      using upt_rec [of "n + 1" "n + 2 * Suc r"] upt_rec [of "n + 2" "n + 2 * Suc r"] False by (simp del: upt_Suc)
    then have f: "fold g [n + 1..<n + 2 * Suc r] x = fold g [n + 2 + 1..<n + 2 + 2 * r] (g (n + 2) (g (n + 1) x))" for g :: "nat \<Rightarrow> u8 list \<Rightarrow> u8 list" and x
      by simp
    have q: "quad_bytes (table_round rk (4 * (n + 2)) (table_round rk (4 * n + 4) s)) = aes_round ((!) rk) (n + 2) (aes_round ((!) rk) (n + 1) (quad_bytes s))"
      unfolding table_round_aes t by (rule refl)
    show ?thesis unfolding l f q [symmetric] using Suc.IH [OF False [unfolded neq0_conv], of "n + 2"] by (simp del: upt_Suc)
  qed
qed simp

lemma PUT_GET_drop: "PUTU32 (GETU32 (drop n pt)) = (if n + 4 \<le> length pt then [pt ! n, pt ! (n + 1), pt ! (n + 2), pt ! (n + 3)] else PUTU32 (GETU32 (drop n pt)))"
  using PUT_GET by (simp add: GETU32_def)

lemma bytes_16: "length pt = 16 \<Longrightarrow> pt = map ((!) pt) [0, 1, 2, 3, 4, 5, 6, 7, 8, 9, 10, 11, 12, 13, 14, 15]"
  using map_nth [of pt] upt_16 by simp

lemma rijndaelEncrypt_aes:
  assumes "length pt = 16" and "Nr = 10 \<or> Nr = 12 \<or> Nr = 14"
  shows "rijndaelEncrypt rk Nr pt = aes_cipher ((!) rk) Nr pt"
proof -
  define s where "s = (GETU32 pt XOR rk ! 0, GETU32 (drop 4 pt) XOR rk ! 1, GETU32 (drop 8 pt) XOR rk ! 2, GETU32 (drop 12 pt) XOR rk ! 3)"
  have "PUTU32 (GETU32 (drop n pt)) = [pt ! n, pt ! (n + 1), pt ! (n + 2), pt ! (n + 3)]" if "n + 4 \<le> 16" for n
    using PUT_GET_drop [of n pt] that assms(1) by simp
  from this [of 0] this [of 4] this [of 8] this [of 12]
  have s: "quad_bytes s = add_round_key ((!) rk) 0 pt"
    unfolding add_round_key_bytes arg_cong [OF bytes_16 [OF assms(1)], of "\<lambda>x. map2 (XOR) x _"]
    by (simp add: quad_bytes_def quad_key_def s_def PUT_xor PUTU32_bytes [of "rk ! n" for n] numeral_2_eq_2)
  define r where "r = drop_bit 1 Nr"
  have r: "0 < r" "2 * r = Nr" using assms(2) by (auto simp: r_def)
  obtain t0 t1 t2 t3 p where l: "round_loop rk 0 r s = ((t0, t1, t2, t3), p)" by (metis surj_pair)
  have p: "p = 4 * Nr" and t: "quad_bytes (t0, t1, t2, t3) = fold (aes_round ((!) rk)) [1..<Nr] (quad_bytes s)"
    using round_loop_aes [OF r(1), of rk 0 s] by (simp_all add: l r(2))
  have e: "rijndaelEncrypt rk Nr pt = PUTU32 (last_col t0 t1 t2 t3 (rk ! p)) @ PUTU32 (last_col t1 t2 t3 t0 (rk ! (p + 1))) @
      PUTU32 (last_col t2 t3 t0 t1 (rk ! (p + 2))) @ PUTU32 (last_col t3 t0 t1 t2 (rk ! (p + 3)))"
    unfolding rijndaelEncrypt_def Let_def r_def [symmetric] s_def [symmetric] l by simp
  show ?thesis
    unfolding aes_cipher_def s [symmetric] t [symmetric] e p PUT_last_col
    by (simp add: add_round_key_bytes quad_bytes_def quad_key_def PUTU32_bytes sub_bytes_def shift_rows_def upt_16)
qed

subsection \<open>The key schedule\<close>

lemma PUT_inj: "PUTU32 x = PUTU32 y \<Longrightarrow> x = y"
  using GET_PUT by metis

lemma sub_plain_word: "sub_plain x = sub_word x"
  by (rule PUT_inj) (simp add: sub_word_def PUTU32_bytes [of x] PUT_GET sub_plain_def index_bytes(1-3) index_bytes(4) table_lookup byte_of_drop PUT_xor PUT_masks bytes_of_te del: One_nat_def)

lemma sub_rot_word: "sub_rot x = sub_word (rot_word x)"
  by (rule PUT_inj) (simp add: sub_word_def rot_word_def PUTU32_bytes [of x] PUT_GET sub_rot_def index_bytes(1-3) index_bytes(4) table_lookup byte_of_drop PUT_xor PUT_masks bytes_of_te del: One_nat_def)

lemma rcon_const: "i < 10 \<Longrightarrow> rcon ! i = round_const (i + 1)"
proof -
  have "rcon = map (\<lambda>i. round_const (i + 1)) [0..<10]" by code_simp
  then have "rcon ! i = map (\<lambda>i. round_const (i + 1)) [0..<10] ! i" by simp
  then show "i < 10 \<Longrightarrow> rcon ! i = round_const (i + 1)" by simp
qed

text \<open>The first \<open>n\<close> words of the array are those of the expanded key.\<close>

definition agrees :: "u32 list \<Rightarrow> u8 list \<Rightarrow> nat \<Rightarrow> nat \<Rightarrow> bool" where
  "agrees rk key nk n \<longleftrightarrow> n \<le> length rk \<and> (\<forall>j<n. rk ! j = expand_key key nk j)"

lemma agrees_update:
  assumes "agrees rk key nk n" and "n < length rk" and "v = expand_key key nk n"
  shows "agrees (rk[n := v]) key nk (Suc n)"
  using assms by (auto simp: agrees_def nth_list_update less_Suc_eq)

lemma foldl_upt_invariant:
  assumes "\<And>i x. a \<le> i \<Longrightarrow> i < b \<Longrightarrow> P i x \<Longrightarrow> P (Suc i) (f x i)" and "a \<le> b" and "P a x"
  shows "P b (foldl f x [a..<b])"
  using assms(2, 1, 3) by (induction b rule: dec_induct) simp_all

definition holds :: "u8 list \<Rightarrow> nat \<Rightarrow> nat \<Rightarrow> u32 list \<Rightarrow> bool" where
  "holds key nk n rk \<longleftrightarrow> agrees rk key nk n \<and> length rk = 60"

lemma holds_chain:
  assumes "holds key nk j rk" and "b \<le> 60" and "0 < nk" "nk \<le> j" "j \<le> b"
    and m: "\<And>i. j \<le> i \<Longrightarrow> i < b \<Longrightarrow> i mod nk \<noteq> 0 \<and> \<not> (nk > 6 \<and> i mod nk = 4)"
  shows "holds key nk b (foldl (chain nk) rk [j..<b])"
proof (rule foldl_upt_invariant [of j b "holds key nk"])
  fix i rk assume i: "j \<le> i" "i < b" and h: "holds key nk i rk"
  have n: "\<not> (i < nk \<or> nk = 0)" "\<not> i mod nk = 0" "\<not> (nk > 6 \<and> i mod nk = 4)" using m [OF i] assms(3, 4) i by simp_all
  have "expand_key key nk i = expand_key key nk (i - nk) XOR expand_key key nk (i - 1)"
    unfolding expand_key.simps [of key nk i] Let_def if_not_P [OF n(1)] if_not_P [OF n(2)] if_not_P [OF n(3)] by (rule refl)
  moreover have "rk ! (i - nk) = expand_key key nk (i - nk)" "rk ! (i - 1) = expand_key key nk (i - 1)" using h assms i by (simp_all add: holds_def agrees_def)
  ultimately show "holds key nk (Suc i) (chain nk rk i)"
    using agrees_update [of rk key nk i] h assms i by (simp add: chain_def holds_def)
qed (use assms in simp_all)

lemma holds_key_words:
  assumes "holds key nk a rk" and "a \<le> b" and "b \<le> nk" and "nk \<le> 60"
  shows "holds key nk b (key_words key rk [a..<b])"
  unfolding key_words_def
proof (rule foldl_upt_invariant [of a b "holds key nk"])
  fix i rk assume i: "a \<le> i" "i < b" and h: "holds key nk i rk"
  then show "holds key nk (Suc i) (rk[i := GETU32 (drop (4 * i) key)])"
    using agrees_update [of rk key nk i] assms by (simp add: holds_def expand_key.simps [of key nk i])
qed (use assms in simp_all)

lemma agrees_rot:
  assumes "agrees rk key nk n" and "n < length rk" and "n = nk * (i + 1)" and "i < 10" and "0 < nk"
  shows "agrees (rk[n := rk ! (nk * i) XOR sub_rot (rk ! (n - 1)) XOR rcon ! i]) key nk (Suc n)"
proof (rule agrees_update [OF assms(1, 2)])
  have "n mod nk = 0" "n div nk = i + 1" "\<not> n < nk" "n - nk = nk * i" using assms(3, 5) by (simp_all add: algebra_simps)
  then have "expand_key key nk n = expand_key key nk (nk * i) XOR (sub_word (rot_word (expand_key key nk (n - 1))) XOR round_const (i + 1))"
    unfolding expand_key.simps [of key nk n] Let_def using assms(5) by simp
  moreover have "rk ! (nk * i) = expand_key key nk (nk * i)" "rk ! (n - 1) = expand_key key nk (n - 1)" using assms(1, 3, 5) by (simp_all add: agrees_def)
  ultimately show "rk ! (nk * i) XOR sub_rot (rk ! (n - 1)) XOR rcon ! i = expand_key key nk n"
    unfolding rcon_const [OF assms(4)] sub_rot_word by (simp add: xor.assoc)
qed

lemma agrees_plain:
  assumes "agrees rk key 8 n" and "n < length rk" and "n mod 8 = 4" and "8 \<le> n"
  shows "agrees (rk[n := rk ! (n - 8) XOR sub_plain (rk ! (n - 1))]) key 8 (Suc n)"
proof (rule agrees_update [OF assms(1, 2)])
  show "rk ! (n - 8) XOR sub_plain (rk ! (n - 1)) = expand_key key 8 n"
    using assms by (simp add: agrees_def expand_key.simps [of key 8 n] Let_def sub_plain_word)
qed

lemma holds_rot:
  assumes "holds key nk n rk" and "n < 60" and "n = nk * (i + 1)" and "i < 10" and "0 < nk" and "p = nk * i" and "q = n - 1" and "n' = Suc n"
  shows "holds key nk n' (rk[n := rk ! p XOR sub_rot (rk ! q) XOR rcon ! i])"
  using agrees_rot [of rk key nk n i] assms by (simp add: holds_def)

lemma turn128_holds:
  assumes "i < 10" and "holds key 4 (4 * i + 4) rk"
  shows "holds key 4 (4 * Suc i + 4) (turn128 rk i)"
proof -
  have "holds key 4 (4 * i + 5) (rk[4 * i + 4 := rk ! (4 * i) XOR sub_rot (rk ! (4 * i + 3)) XOR rcon ! i])"
    by (rule holds_rot [OF assms(2)]) (use assms(1) in simp_all)
  then have "holds key 4 (4 * i + 8) (turn128 rk i)"
    unfolding turn128_def Let_def by (rule holds_chain) (use assms(1) in presburger)+
  then show ?thesis by (simp add: add.commute)
qed

lemma turn192_holds:
  assumes "i < 8" and "holds key 6 (6 * i + 6) rk"
  shows "holds key 6 (if i = 7 then 52 else 6 * Suc i + 6) (turn192 rk i)"
proof -
  define rk1 where "rk1 = rk[6 * i + 6 := rk ! (6 * i) XOR sub_rot (rk ! (6 * i + 5)) XOR rcon ! i]"
  define rk2 where "rk2 = foldl (chain 6) rk1 [6 * i + 7..<6 * i + 10]"
  have "holds key 6 (6 * i + 7) rk1" unfolding rk1_def by (rule holds_rot [OF assms(2)]) (use assms(1) in simp_all)
  then have h: "holds key 6 (6 * i + 10) rk2" unfolding rk2_def by (rule holds_chain) (use assms(1) in presburger)+
  show ?thesis
  proof (cases "i = 7")
    case True
    then show ?thesis using h unfolding turn192_def Let_def rk1_def [symmetric] rk2_def [symmetric] by (simp del: upt_Suc)
  next
    case False
    then have "holds key 6 (6 * i + 12) (foldl (chain 6) rk2 [6 * i + 10..<6 * i + 12])"
      by (intro holds_chain [OF h]) (use assms(1) False in presburger)+
    then show ?thesis using False unfolding turn192_def Let_def rk1_def [symmetric] rk2_def [symmetric] by (simp del: upt_Suc add: add.commute)
  qed
qed

lemma turn256_holds:
  assumes "i < 7" and "holds key 8 (8 * i + 8) rk"
  shows "holds key 8 (if i = 6 then 60 else 8 * Suc i + 8) (turn256 rk i)"
proof -
  define rk1 where "rk1 = rk[8 * i + 8 := rk ! (8 * i) XOR sub_rot (rk ! (8 * i + 7)) XOR rcon ! i]"
  define rk2 where "rk2 = foldl (chain 8) rk1 [8 * i + 9..<8 * i + 12]"
  define rk3 where "rk3 = rk2[8 * i + 12 := rk2 ! (8 * i + 4) XOR sub_plain (rk2 ! (8 * i + 11))]"
  have "holds key 8 (8 * i + 9) rk1" unfolding rk1_def by (rule holds_rot [OF assms(2)]) (use assms(1) in simp_all)
  then have h: "holds key 8 (8 * i + 12) rk2" unfolding rk2_def by (rule holds_chain) (use assms(1) in presburger)+
  show ?thesis
  proof (cases "i = 6")
    case True
    then show ?thesis using h unfolding turn256_def Let_def rk1_def [symmetric] rk2_def [symmetric] by (simp del: upt_Suc)
  next
    case False
    have "(8 * i + 12) mod 8 = 4" by presburger
    then have "holds key 8 (8 * i + 13) rk3"
      using agrees_plain [of rk2 key "8 * i + 12"] h assms(1) False by (simp add: rk3_def holds_def add.commute)
    then have "holds key 8 (8 * i + 16) (foldl (chain 8) rk3 [8 * i + 13..<8 * i + 16])"
      by (rule holds_chain) (use assms(1) False in presburger)+
    then show ?thesis using False unfolding turn256_def Let_def rk1_def [symmetric] rk2_def [symmetric] rk3_def [symmetric] by (simp del: upt_Suc add: add.commute)
  qed
qed

lemma key_setup:
  assumes "length rk = 60"
  shows "rijndaelKeySetupEnc rk key 128 = (rk', Nr) \<Longrightarrow> Nr = 10 \<and> holds key 4 44 rk'"
    and "rijndaelKeySetupEnc rk key 192 = (rk', Nr) \<Longrightarrow> Nr = 12 \<and> holds key 6 52 rk'"
    and "rijndaelKeySetupEnc rk key 256 = (rk', Nr) \<Longrightarrow> Nr = 14 \<and> holds key 8 60 rk'"
proof -
  have z: "holds key nk 0 rk" for nk using assms by (simp add: holds_def agrees_def)
  have k4: "holds key nk 4 (key_words key rk [0..<4])" if "4 \<le> nk" "nk \<le> 60" for nk using holds_key_words [OF z, of 4] that by simp
  have k6: "holds key nk 6 (key_words key (key_words key rk [0..<4]) [4..<6])" if "6 \<le> nk" "nk \<le> 60" for nk
    using holds_key_words [OF k4, of nk 6] that by simp
  have k8: "holds key 8 8 (key_words key (key_words key (key_words key rk [0..<4]) [4..<6]) [6..<8])"
    using holds_key_words [OF k6, of 8 8] by simp
  have "holds key 4 (4 * 10 + 4) (foldl turn128 (key_words key rk [0..<4]) [0..<10])"
    by (rule foldl_upt_invariant [of 0 10 "\<lambda>i. holds key 4 (4 * i + 4)"]) (use turn128_holds k4 in simp_all)
  then show "rijndaelKeySetupEnc rk key 128 = (rk', Nr) \<Longrightarrow> Nr = 10 \<and> holds key 4 44 rk'" unfolding rijndaelKeySetupEnc_def Let_def by auto
  have "holds key 6 (if 8 = (8 :: nat) then 52 else 6 * 8 + 6) (foldl turn192 (key_words key (key_words key rk [0..<4]) [4..<6]) [0..<8])"
    by (rule foldl_upt_invariant [of 0 8 "\<lambda>i. holds key 6 (if i = 8 then 52 else 6 * i + 6)"]) (use turn192_holds k6 in auto)
  then show "rijndaelKeySetupEnc rk key 192 = (rk', Nr) \<Longrightarrow> Nr = 12 \<and> holds key 6 52 rk'" unfolding rijndaelKeySetupEnc_def Let_def by auto
  have "holds key 8 (if 7 = (7 :: nat) then 60 else 8 * 7 + 8) (foldl turn256 (key_words key (key_words key (key_words key rk [0..<4]) [4..<6]) [6..<8]) [0..<7])"
    by (rule foldl_upt_invariant [of 0 7 "\<lambda>i. holds key 8 (if i = 7 then 60 else 8 * i + 8)"]) (use turn256_holds k8 in auto)
  then show "rijndaelKeySetupEnc rk key 256 = (rk', Nr) \<Longrightarrow> Nr = 14 \<and> holds key 8 60 rk'" unfolding rijndaelKeySetupEnc_def Let_def by auto
qed

subsection \<open>The code computes AES\<close>

lemma aes_cipher_cong:
  assumes "\<And>j. j < 4 * (Nr + 1) \<Longrightarrow> w j = w' j"
  shows "aes_cipher w Nr pt = aes_cipher w' Nr pt"
proof -
  have k: "add_round_key w n s = add_round_key w' n s" if "n \<le> Nr" for n s
    unfolding add_round_key_bytes quad_key_def using assms [of "4 * n"] assms [of "4 * n + 1"] assms [of "4 * n + 2"] assms [of "4 * n + 3"] that by simp
  have "fold (aes_round w) [1..<Nr] s = fold (aes_round w') [1..<Nr] s" for s
    by (rule fold_cong) (auto simp: aes_round_def k fun_eq_iff)
  then show ?thesis unfolding aes_cipher_def using k [of 0] k [of Nr] by simp
qed

text \<open>
  C8. For keys of 128, 192 and 256 bits, encryption with the table of round keys that the key setup leaves in the array of 60 words is
  the AES cipher of the block: ten, twelve or fourteen rounds of byte substitution, row shift, column mixing and key
  addition, with the round keys of the standard's key expansion.
\<close>

theorem rijndael_is_aes:
  assumes "(keyBits, nk, rounds) \<in> {(128, 4, 10), (192, 6, 12), (256, 8, 14)}" and "length rk = 60" and "length pt = 16"
    and "rijndaelKeySetupEnc rk key keyBits = (ek, Nr)"
  shows "Nr = rounds \<and> rijndaelEncrypt ek Nr pt = aes_cipher (expand_key key nk) Nr pt"
proof -
  have "Nr = rounds \<and> (Nr = 10 \<or> Nr = 12 \<or> Nr = 14) \<and> holds key nk (4 * (Nr + 1)) ek"
    using assms(1) key_setup [OF assms(2)] assms(4) by fastforce
  then show ?thesis
    using rijndaelEncrypt_aes [OF assms(3), of Nr ek] aes_cipher_cong [of Nr "(!) ek" "expand_key key nk" pt] by (auto simp: holds_def agrees_def)
qed

theorem rijndael_is_aes_witness:
  "\<exists>ek Nr. rijndaelKeySetupEnc (replicate 60 0) (replicate 32 7) 256 = (ek, Nr) \<and> Nr = 14 \<and>
     rijndaelEncrypt ek Nr (replicate 16 1) = aes_cipher (expand_key (replicate 32 7) 8) 14 (replicate 16 1)"
proof -
  obtain ek Nr where e: "rijndaelKeySetupEnc (replicate 60 0) (replicate 32 7) 256 = (ek, Nr)" by fastforce
  then show ?thesis using rijndael_is_aes [OF _ _ _ e, of 8 14 "replicate 16 1"] by auto
qed

end
