(* ===== verification/Stream_Cipher.thy ===== *)
theory Stream_Cipher
  imports Prelude
begin

text \<open>
  The interface of a stream cipher: encrypting adds a key stream that depends on the state of the cipher only. What the
  clients need follows once for all of them: decrypting is encrypting again from the same state, and both ends
  reach the same state.
\<close>

abbreviation xors :: "u8 list \<Rightarrow> u8 list \<Rightarrow> u8 list" where
  "xors \<equiv> map2 (XOR)"

lemma xors_involution: "length m \<le> length k \<Longrightarrow> xors (xors m k) k = m"
  by (induction m k rule: list_induct2') (simp_all add: xor.assoc)

lemma xors_append: "length a = length c \<Longrightarrow> xors (a @ b) (c @ d) = xors a c @ xors b d"
  by (simp add: zip_append)

lemma xors_take: "length m \<le> n \<Longrightarrow> xors m (take n k) = xors m k"
  by (induction m k arbitrary: n rule: list_induct2') (auto simp: take_Cons split: nat.split)

locale stream_cipher =
  fixes crypt :: "'c \<Rightarrow> u8 list \<Rightarrow> u8 list \<times> 'c" and ok :: "'c \<Rightarrow> bool" and stream :: "'c \<Rightarrow> nat \<Rightarrow> u8 list"
  assumes crypt_stream: "ok x \<Longrightarrow> fst (crypt x m) = xors m (stream x (length m))"
    and stream_length: "ok x \<Longrightarrow> n \<le> length (stream x n)"
    and same_state: "length m = length m' \<Longrightarrow> snd (crypt x m) = snd (crypt x m')"
    and keeps_ok: "ok x \<Longrightarrow> ok (snd (crypt x m))"
begin

lemma crypt_length: "ok x \<Longrightarrow> length (fst (crypt x m)) = length m"
  using stream_length [of x "length m"] by (simp add: crypt_stream)

lemma crypt_involution: "ok x \<Longrightarrow> crypt x (fst (crypt x m)) = (m, snd (crypt x m))"
  using crypt_length [of x m] xors_involution [OF stream_length, of x m] same_state [of "fst (crypt x m)" m x]
  by (simp add: crypt_stream prod_eq_iff)

end

text \<open>A stream that may be continued at multiples of its block size.\<close>

locale block_stream = stream_cipher +
  fixes bs :: nat
  assumes crypt_append: "ok x \<Longrightarrow> bs dvd length a \<Longrightarrow> crypt x (a @ b) = (fst (crypt x a) @ fst (crypt (snd (crypt x a)) b), snd (crypt (snd (crypt x a)) b))"
begin

lemma decrypt_in_parts:
  assumes "ok x" and "bs dvd n" and "n \<le> length m"
  shows "crypt x (take n (fst (crypt x m))) = (take n m, snd (crypt x (take n m)))"
    and "crypt (snd (crypt x (take n m))) (drop n (fst (crypt x m))) = (drop n m, snd (crypt x m))"
proof -
  have n: "bs dvd length (take n m)" "length (take n m) = n" using assms by simp_all
  have m: "crypt x m = (fst (crypt x (take n m)) @ fst (crypt (snd (crypt x (take n m))) (drop n m)), snd (crypt (snd (crypt x (take n m))) (drop n m)))"
    using crypt_append [OF assms(1) n(1), of "drop n m"] by simp
  have l: "length (fst (crypt x (take n m))) = n" using crypt_length [OF assms(1)] n(2) by simp
  then have f: "take n (fst (crypt x m)) = fst (crypt x (take n m))" "drop n (fst (crypt x m)) = fst (crypt (snd (crypt x (take n m))) (drop n m))"
    by (simp_all add: arg_cong [OF m, of fst])
  show "crypt x (take n (fst (crypt x m))) = (take n m, snd (crypt x (take n m)))"
    unfolding f by (rule crypt_involution [OF assms(1)])
  show "crypt (snd (crypt x (take n m))) (drop n (fst (crypt x m))) = (drop n m, snd (crypt x m))"
    unfolding f crypt_involution [OF keeps_ok [OF assms(1)]] using m by (metis snd_conv)
qed

end

end
