(* ===== verification/Chacha.thy ===== *)
theory Chacha
  imports Stream_Cipher
begin

text \<open>
  The stream cipher of \<^verbatim>\<open>chacha.c\<close>. The context is the array \<^verbatim>\<open>input\<close> of sixteen words. Encrypting is adding a
  key stream that depends on the context only, so encrypting again from the same context decrypts.
\<close>

subsection \<open>The code\<close>

definition ROTL32 :: "u32 \<Rightarrow> nat \<Rightarrow> u32" where
  "ROTL32 v n = push_bit n v OR drop_bit (32 - n) v"

definition U8TO32_LITTLE :: "u8 list \<Rightarrow> u32" where
  "U8TO32_LITTLE p = ucast (p ! 0) OR push_bit 8 (ucast (p ! 1)) OR push_bit 16 (ucast (p ! 2)) OR push_bit 24 (ucast (p ! 3))"

definition U32TO8_LITTLE :: "u32 \<Rightarrow> u8 list" where
  "U32TO8_LITTLE v = [ucast v, ucast (drop_bit 8 v), ucast (drop_bit 16 v), ucast (drop_bit 24 v)]"

definition QUARTERROUND :: "nat \<Rightarrow> nat \<Rightarrow> nat \<Rightarrow> nat \<Rightarrow> u32 list \<Rightarrow> u32 list" where
  "QUARTERROUND a b c d x =
     (let x = x[a := x ! a + x ! b]; x = x[d := ROTL32 (x ! d XOR x ! a) 16];
          x = x[c := x ! c + x ! d]; x = x[b := ROTL32 (x ! b XOR x ! c) 12];
          x = x[a := x ! a + x ! b]; x = x[d := ROTL32 (x ! d XOR x ! a) 8];
          x = x[c := x ! c + x ! d]; x = x[b := ROTL32 (x ! b XOR x ! c) 7]
      in x)"

definition double_round :: "u32 list \<Rightarrow> u32 list" where
  "double_round x =
     (let x = QUARTERROUND 0 4 8 12 x; x = QUARTERROUND 1 5 9 13 x;
          x = QUARTERROUND 2 6 10 14 x; x = QUARTERROUND 3 7 11 15 x;
          x = QUARTERROUND 0 5 10 15 x; x = QUARTERROUND 1 6 11 12 x;
          x = QUARTERROUND 2 7 8 13 x; x = QUARTERROUND 3 4 9 14 x
      in x)"

text \<open>The ASCII codes of \<^verbatim>\<open>expand 32-byte k\<close> and \<^verbatim>\<open>expand 16-byte k\<close>.\<close>

definition sigma :: "u8 list" where
  "sigma = [101, 120, 112, 97, 110, 100, 32, 51, 50, 45, 98, 121, 116, 101, 32, 107]"

definition tau :: "u8 list" where
  "tau = [101, 120, 112, 97, 110, 100, 32, 49, 54, 45, 98, 121, 116, 101, 32, 107]"

type_synonym chacha_ctx = "u32 list"

definition chacha_keysetup :: "chacha_ctx \<Rightarrow> u8 list \<Rightarrow> u32 \<Rightarrow> chacha_ctx" where
  "chacha_keysetup x k kbits =
     (let x = x[4 := U8TO32_LITTLE k, 5 := U8TO32_LITTLE (drop 4 k), 6 := U8TO32_LITTLE (drop 8 k), 7 := U8TO32_LITTLE (drop 12 k)];
          k = (if kbits = 256 then drop 16 k else k);
          constants = (if kbits = 256 then sigma else tau);
          x = x[8 := U8TO32_LITTLE k, 9 := U8TO32_LITTLE (drop 4 k), 10 := U8TO32_LITTLE (drop 8 k), 11 := U8TO32_LITTLE (drop 12 k)]
      in x[0 := U8TO32_LITTLE constants, 1 := U8TO32_LITTLE (drop 4 constants),
           2 := U8TO32_LITTLE (drop 8 constants), 3 := U8TO32_LITTLE (drop 12 constants)])"

definition chacha_ivsetup :: "chacha_ctx \<Rightarrow> u8 list \<Rightarrow> u8 list option \<Rightarrow> chacha_ctx" where
  "chacha_ivsetup x iv counter =
     x[12 := (case counter of None \<Rightarrow> 0 | Some c \<Rightarrow> U8TO32_LITTLE c),
       13 := (case counter of None \<Rightarrow> 0 | Some c \<Rightarrow> U8TO32_LITTLE (drop 4 c)),
       14 := U8TO32_LITTLE iv, 15 := U8TO32_LITTLE (drop 4 iv)]"

text \<open>One turn of the loop: twenty rounds, the words of the message are added, and the counter advances.\<close>

definition block_words :: "u32 list \<Rightarrow> u32 list" where
  "block_words j = map2 (+) ((double_round ^^ 10) j) j"

definition crypt_words :: "u32 list \<Rightarrow> u8 list \<Rightarrow> u32 list" where
  "crypt_words x m = map (\<lambda>i. x ! i XOR U8TO32_LITTLE (drop (4 * i) m)) [0..<16]"

definition next_counter :: "u32 list \<Rightarrow> u32 list" where
  "next_counter j = (let j = j[12 := j ! 12 + 1] in if j ! 12 = 0 then j[13 := j ! 13 + 1] else j)"

definition crypt_block :: "u32 list \<Rightarrow> u8 list \<Rightarrow> u8 list" where
  "crypt_block j m = concat (map U32TO8_LITTLE (crypt_words (block_words j) m))"

text \<open>
  The loop over the message, which is not empty. A last short block goes through the array \<^verbatim>\<open>tmp\<close>, whose bytes
  behind the message are not set by the code; they are zero here, and only their part of the result,
  which is dropped, depends on them.
\<close>

function chacha_loop :: "u32 list \<Rightarrow> u8 list \<Rightarrow> u8 list \<times> u32 list" where
  "chacha_loop j m =
     (if length m \<le> 64
      then (take (length m) (crypt_block j (m @ replicate (64 - length m) 0)), next_counter j)
      else (case chacha_loop (next_counter j) (drop 64 m) of (c, j') \<Rightarrow> (crypt_block j m @ c, j')))"
  by pat_completeness auto
termination by (relation "measure (\<lambda>(_, m). length m)") auto

declare chacha_loop.simps [simp del]

definition chacha_encrypt_bytes :: "chacha_ctx \<Rightarrow> u8 list \<Rightarrow> u8 list \<times> chacha_ctx" where
  "chacha_encrypt_bytes x m = (if m = [] then ([], x) else chacha_loop x m)"

subsection \<open>Encryption adds a key stream\<close>

lemma U32TO8_xor:
  assumes "length m = 4"
  shows "U32TO8_LITTLE (x XOR U8TO32_LITTLE m) = xors m (U32TO8_LITTLE x)"
proof -
  obtain a b c d where m: "m = [a, b, c, d]" using length_4_ex [OF assms] by blast
  have byte: "v = w" if "\<And>n. n < 8 \<Longrightarrow> bit v n = bit w n" for v w :: u8
    using that by (intro bit_word_eqI) simp
  show ?thesis
    unfolding m U32TO8_LITTLE_def U8TO32_LITTLE_def
    by (auto intro!: byte simp: bit_xor_iff bit_or_iff bit_push_bit_iff bit_unsigned_iff bit_drop_bit_eq bit_u8_high less_diff_conv2)
qed

lemma length_U32TO8 [simp]: "length (U32TO8_LITTLE v) = 4"
  by (simp add: U32TO8_LITTLE_def)

lemma length_quarter [simp]: "length (QUARTERROUND a b c d x) = length x"
  by (simp add: QUARTERROUND_def Let_def)

lemma length_double [simp]: "length (double_round x) = length x"
  by (simp add: double_round_def Let_def)

lemma length_rounds [simp]: "length ((double_round ^^ n) x) = length x"
  by (induction n) simp_all

lemma length_block [simp]: "length (block_words j) = length j"
  by (simp add: block_words_def)

lemma length_next [simp]: "length (next_counter j) = length j"
  by (simp add: next_counter_def Let_def)

lemma length_concat_words: "length (concat (map U32TO8_LITTLE ws)) = 4 * length ws"
  by (induction ws) simp_all

lemma U8TO32_take: "4 \<le> n \<Longrightarrow> U8TO32_LITTLE (take n m) = U8TO32_LITTLE m"
  by (simp add: U8TO32_LITTLE_def)

lemma words_xors:
  assumes "4 * length x \<le> length m"
  shows "concat (map U32TO8_LITTLE (map (\<lambda>i. x ! i XOR U8TO32_LITTLE (drop (4 * i) m)) [0..<length x])) =
    xors (take (4 * length x) m) (concat (map U32TO8_LITTLE x))"
  using assms
proof (induction x arbitrary: m)
  case Nil
  then show ?case by simp
next
  case (Cons w x)
  have m: "m = take 4 m @ drop 4 m" "length (take 4 m) = 4" using Cons.prems by simp_all
  have "[0..<length (w # x)] = 0 # map Suc [0..<length x]" by (simp add: upt_conv_Cons map_Suc_upt del: upt_Suc)
  moreover have "xors (take 4 m) (U32TO8_LITTLE w) = U32TO8_LITTLE (w XOR U8TO32_LITTLE m)"
    using U32TO8_xor [OF m(2), of w] U8TO32_take [of 4 m] by simp
  moreover have "take (4 * length (w # x)) m = take 4 m @ take (4 * length x) (drop 4 m)" by (simp add: take_add)
  ultimately show ?case using Cons.IH [of "drop 4 m"] Cons.prems m(2) by (simp add: comp_def xors_append add.commute)
qed

definition block_bytes :: "u32 list \<Rightarrow> u8 list" where
  "block_bytes j = concat (map U32TO8_LITTLE (block_words j))"

lemma length_block_bytes [simp]: "length j = 16 \<Longrightarrow> length (block_bytes j) = 64"
  by (simp add: block_bytes_def length_concat_words)

lemma crypt_block_xors:
  assumes "length j = 16" and "64 \<le> length m"
  shows "crypt_block j m = xors (take 64 m) (block_bytes j)"
  using words_xors [of "block_words j" m] assms by (simp add: crypt_block_def crypt_words_def block_bytes_def)

text \<open>The key stream of a context, for a message of a given length.\<close>

function keystream :: "u32 list \<Rightarrow> nat \<Rightarrow> u8 list" where
  "keystream j n = (if n \<le> 64 then block_bytes j else block_bytes j @ keystream (next_counter j) (n - 64))"
  by pat_completeness auto
termination by (relation "measure snd") auto

declare keystream.simps [simp del]

lemma length_keystream: "length j = 16 \<Longrightarrow> n \<le> length (keystream j n)"
proof (induction j n rule: keystream.induct)
  case (1 j n)
  then show ?case by (subst keystream.simps) (auto simp: not_le)
qed

lemma chacha_loop_keystream:
  "length j = 16 \<Longrightarrow> fst (chacha_loop j m) = xors m (keystream j (length m))"
proof (induction j m rule: chacha_loop.induct)
  case (1 j m)
  show ?case
  proof (cases "length m \<le> 64")
    case True
    have "length m \<le> length (block_bytes j)" using True 1 by simp
    then have "take (length m) (xors (m @ replicate (64 - length m) 0) (block_bytes j)) = xors m (block_bytes j)"
      by (simp add: take_map take_zip xors_take)
    then show ?thesis
      using 1 True crypt_block_xors [of j "m @ replicate (64 - length m) 0"]
      by (simp add: chacha_loop.simps [of j m] keystream.simps [of j "length m"])
  next
    case False
    then have "m = take 64 m @ drop 64 m" "length (take 64 m) = 64" by simp_all
    then have "xors m (block_bytes j @ keystream (next_counter j) (length m - 64)) =
        xors (take 64 m) (block_bytes j) @ xors (drop 64 m) (keystream (next_counter j) (length m - 64))"
      using 1 xors_append by (metis length_block_bytes)
    then show ?thesis
      using 1 False crypt_block_xors [of j m]
      by (simp add: chacha_loop.simps [of j m] keystream.simps [of j "length m"] case_prod_unfold)
  qed
qed

text \<open>The context after a message depends on its length only.\<close>

lemma chacha_loop_ctx: "length m = length m' \<Longrightarrow> snd (chacha_loop j m) = snd (chacha_loop j m')"
proof (induction j m arbitrary: m' rule: chacha_loop.induct)
  case (1 j m)
  then show ?case by (simp add: chacha_loop.simps [of j m] chacha_loop.simps [of j m'] split: prod.split) (metis length_drop not_le snd_conv)
qed

lemma length_chacha_loop_ctx: "length (snd (chacha_loop j m)) = length j"
proof (induction j m rule: chacha_loop.induct)
  case (1 j m)
  then show ?case by (simp add: chacha_loop.simps [of j m] split: prod.split) (metis length_next not_le snd_conv)
qed

lemma length_setup [simp]:
  "length (chacha_keysetup x k b) = length x" "length (chacha_ivsetup x iv c) = length x"
  by (simp_all add: chacha_keysetup_def chacha_ivsetup_def Let_def split: if_splits)

interpretation chacha: stream_cipher chacha_encrypt_bytes "\<lambda>x. length x = 16" keystream
proof
  fix x :: chacha_ctx and m m' :: "u8 list" and n
  show "length x = 16 \<Longrightarrow> fst (chacha_encrypt_bytes x m) = xors m (keystream x (length m))"
    by (simp add: chacha_encrypt_bytes_def chacha_loop_keystream)
  show "length x = 16 \<Longrightarrow> n \<le> length (keystream x n)" by (rule length_keystream)
  show "length m = length m' \<Longrightarrow> snd (chacha_encrypt_bytes x m) = snd (chacha_encrypt_bytes x m')"
    using chacha_loop_ctx [of m m' x] by (auto simp: chacha_encrypt_bytes_def)
  show "length x = 16 \<Longrightarrow> length (snd (chacha_encrypt_bytes x m)) = 16"
    by (simp add: chacha_encrypt_bytes_def length_chacha_loop_ctx)
qed

end
