(* ===== verification/Poly1305_Correct.thy ===== *)
theory Poly1305_Correct
  imports Poly1305
begin

text \<open>
  The limbs of \<^verbatim>\<open>poly1305.c\<close> hold the accumulator of Poly1305: no product or carry overflows its word, and the value of the
  limbs is right modulo \<open>2 ^ 130 - 5\<close> after each block.
\<close>

subsection \<open>Words as numbers\<close>

lemma unat_and_26 [simp]: "unat (x AND 0x3ffffff :: u32) = unat x mod 2 ^ 26" "unat (y AND 0x3ffffff :: u64) = unat y mod 2 ^ 26"
proof -
  have "x AND 0x3ffffff = take_bit 26 x" "y AND 0x3ffffff = take_bit 26 y" by (simp_all add: take_bit_eq_mask mask_eq_exp_minus_1)
  then show "unat (x AND 0x3ffffff) = unat x mod 2 ^ 26" "unat (y AND 0x3ffffff) = unat y mod 2 ^ 26"
    by (simp_all only: unsigned_take_bit_eq) (simp_all only: take_bit_eq_mod)
qed

lemma unat_drop: "unat (drop_bit n x) = unat x div 2 ^ n"
  unfolding unat_drop_bit_eq by (simp add: drop_bit_eq_div)

lemma unat_of_nat_small: "n < 2 ^ LENGTH('a) \<Longrightarrow> unat (of_nat n :: 'a :: len word) = n"
  by (simp add: unsigned_of_nat take_bit_nat_eq_self_iff)

lemma unat_ucast_u32: "unat (ucast (x :: u64) :: u32) = unat x mod 2 ^ 32"
  unfolding unsigned_ucast_eq by (simp add: take_bit_eq_mod)

lemma unat_u32: "unat (x :: u32) < 2 ^ 32"
  using unsigned_less [where 'a = nat, of x] by simp

lemma unat_ucast_u64 [simp]: "unat (ucast (x :: u32) :: u64) = unat x"
  unfolding unsigned_ucast_eq using unat_u32 [of x] by (simp add: take_bit_nat_eq_self_iff)

subsection \<open>Bits of a little-endian number\<close>

lemma bit_le_Cons: "bit (le_val (b # bs)) n = (if n < 8 then bit b n else bit (le_val bs) (n - 8))"
proof -
  have "le_val (b # bs) = push_bit 8 (le_val bs) + unat b" by (simp add: push_bit_eq_mult)
  also have "\<dots> = push_bit 8 (le_val bs) OR unat b"
    by (rule disjunctive_add) (auto simp: bit_push_bit_iff bit_unsigned_iff bit_u8_high)
  finally show ?thesis by (auto simp: bit_or_iff bit_push_bit_iff bit_unsigned_iff bit_u8_high not_less)
qed

lemma le_val_append: "le_val (xs @ ys) = le_val xs + 256 ^ length xs * le_val ys"
  by (induction xs) simp_all

lemma le_val_less: "le_val xs < 256 ^ length xs"
proof (induction xs)
  case (Cons b bs)
  have "unat b < 256" using unsigned_less [of b] by simp
  then show ?case using Cons by simp
qed simp

lemma unat_word_le:
  assumes "length p \<ge> 4"
  shows "unat (U8TO32_LE p) = take_bit 32 (le_val p)"
proof -
  have "length (take 4 p) = 4" using assms by simp
  then obtain a b c d where "take 4 p = [a, b, c, d]" using length_4_ex by blast
  then have p: "p = a # b # c # d # drop 4 p" by (metis append_Cons append_Nil append_take_drop_id)
  define q where "q = drop 4 p"
  note p = p [folded q_def]
  show ?thesis
    unfolding p U8TO32_LE_def
    by (rule bit_eqI) (auto simp del: le_val.simps simp: bit_le_Cons bit_take_bit_iff bit_unsigned_iff bit_or_iff bit_push_bit_iff bit_u8_high)
qed

lemma le_val_drop: "i \<le> length p \<Longrightarrow> le_val (drop i p) = drop_bit (8 * i) (le_val p)"
proof (induction i arbitrary: p)
  case (Suc i)
  then obtain b q where p: "p = b # q" by (cases p) auto
  have "drop_bit 8 (le_val p) = le_val q" by (rule bit_eqI) (simp add: p bit_drop_bit_eq bit_le_Cons del: le_val.simps)
  then have "le_val (drop i q) = drop_bit (8 * i) (drop_bit 8 (le_val p))" using Suc p by simp
  also have "\<dots> = drop_bit (8 * Suc i) (le_val p)" by (simp add: drop_bit_drop_bit add.commute)
  finally show ?case by (simp add: p)
qed simp

lemma unat_word_at:
  assumes "length p \<ge> i + 4"
  shows "unat (U8TO32_LE (drop i p)) = take_bit 32 (drop_bit (8 * i) (le_val p))"
  using unat_word_le [of "drop i p"] le_val_drop [of i p] assms by simp

text \<open>A number below \<open>2 ^ 130\<close> is the sum of its five limbs.\<close>

abbreviation limb :: "nat \<Rightarrow> nat \<Rightarrow> nat" where
  "limb i n \<equiv> take_bit 26 (drop_bit (26 * i) n)"

lemma limb_split: "(n :: nat) = take_bit 26 n + 2 ^ 26 * drop_bit 26 n"
  by (simp add: take_bit_eq_mod drop_bit_eq_div)

lemma limbs_sum:
  assumes "n < 2 ^ 130"
  shows "n = limb 0 n + 2 ^ 26 * limb 1 n + 2 ^ 52 * limb 2 n + 2 ^ 78 * limb 3 n + 2 ^ 104 * limb 4 n"
proof -
  have d: "drop_bit (26 * Suc i) n = drop_bit 26 (drop_bit (26 * i) n)" for i by (simp add: drop_bit_drop_bit add.commute)
  have "drop_bit 130 n = 0" using assms by (simp add: drop_bit_eq_div)
  then have "drop_bit 26 (drop_bit 104 n) = 0" by (simp add: drop_bit_drop_bit)
  then show ?thesis
    using limb_split [of n] limb_split [of "drop_bit 26 n"] limb_split [of "drop_bit 52 n"] limb_split [of "drop_bit 78 n"] limb_split [of "drop_bit 104 n"]
    by (simp add: drop_bit_drop_bit)
qed

subsection \<open>Blocks and key\<close>

text \<open>Two neighbouring words of a block hold a limb.\<close>

lemma limb_of_words:
  assumes x: "unat (x :: u32) = take_bit 32 (drop_bit k n)" and y: "unat (y :: u32) = take_bit 32 (drop_bit (k + 32) n)" and "j \<le> 38"
  shows "unat (ucast (drop_bit j (push_bit 32 (ucast y) OR ucast x :: u64) AND 0x3ffffff) :: u32) = take_bit 26 (drop_bit (k + j) n)"
proof -
  let ?w = "drop_bit j (push_bit 32 (ucast y) OR ucast x :: u64) AND 0x3ffffff"
  have "unat (push_bit 32 (ucast y) OR ucast x :: u64) = take_bit 64 (push_bit 32 (unat y)) OR unat x"
    unfolding unsigned_or_eq unsigned_push_bit_eq unat_ucast_u64 by simp
  also have "\<dots> = take_bit 64 (drop_bit k n)"
    unfolding x y by (rule bit_eqI) (auto simp: bit_or_iff bit_take_bit_iff bit_push_bit_iff bit_drop_bit_eq)
  finally have "unat ?w = take_bit 26 (drop_bit j (take_bit 64 (drop_bit k n)))"
    unfolding unat_and_26 unat_drop by (simp add: take_bit_eq_mod drop_bit_eq_div)
  also have "\<dots> = take_bit 26 (drop_bit (k + j) n)"
    using assms(3) by (intro bit_eqI) (auto simp: bit_take_bit_iff bit_drop_bit_eq ac_simps)
  finally have w: "unat ?w = take_bit 26 (drop_bit (k + j) n)" .
  have "take_bit 26 (drop_bit (k + j) n) < 2 ^ 26" by (rule take_bit_nat_less_exp)
  then show ?thesis unfolding unat_ucast_u32 w by simp
qed

lemma limb_less: "limb i n < 2 ^ 26"
  by (rule take_bit_nat_less_exp)

definition limbs_val :: "limbs \<Rightarrow> nat" where
  "limbs_val h = (case h of (h0, h1, h2, h3, h4) \<Rightarrow> unat h0 + 2 ^ 26 * unat h1 + 2 ^ 52 * unat h2 + 2 ^ 78 * unat h3 + 2 ^ 104 * unat h4)"

text \<open>
  What holds of the accumulator between two blocks, and after a block has been added. The first limb may exceed its 26 bits
  by a factor of 42 and 43; the sums below show that this is enough for every product to fit.
\<close>

definition acc_ok :: "limbs \<Rightarrow> bool" where
  "acc_ok h \<longleftrightarrow> (case h of (h0, h1, h2, h3, h4) \<Rightarrow>
     unat h0 < 42 * 2 ^ 26 \<and> unat h1 < 2 ^ 26 \<and> unat h2 < 2 ^ 26 \<and> unat h3 < 2 ^ 26 \<and> unat h4 < 2 ^ 26)"

definition sum_ok :: "limbs \<Rightarrow> bool" where
  "sum_ok h \<longleftrightarrow> (case h of (h0, h1, h2, h3, h4) \<Rightarrow>
     unat h0 < 43 * 2 ^ 26 \<and> unat h1 < 2 ^ 27 \<and> unat h2 < 2 ^ 27 \<and> unat h3 < 2 ^ 27 \<and> unat h4 < 3 * 2 ^ 25)"

definition key_ok :: "limbs \<Rightarrow> bool" where
  "key_ok r \<longleftrightarrow> (case r of (r0, r1, r2, r3, r4) \<Rightarrow>
     unat r0 < 2 ^ 26 \<and> unat r1 < 2 ^ 26 \<and> unat r2 < 2 ^ 26 \<and> unat r3 < 2 ^ 26 \<and> unat r4 < 2 ^ 20)"

lemma unat_plus: "unat y = k \<Longrightarrow> unat x + k < 2 ^ 32 \<Longrightarrow> unat (x + y :: u32) = unat x + k"
  by (simp add: unat_word_ariths)

lemma plus_high_bit: "(a :: nat) < 2 ^ k \<Longrightarrow> a + 2 ^ k = a OR 2 ^ k"
proof (rule disjunctive_add)
  fix n assume "a < 2 ^ k"
  then have "a = take_bit k a" by (simp add: take_bit_nat_eq_self)
  then have "bit a n \<Longrightarrow> n < k" by (metis bit_take_bit_iff)
  then show "\<not> bit a n \<or> \<not> bit (2 ^ k) n" by (auto simp: bit_exp_iff)
qed

lemma or_high_bit:
  assumes "unat (x :: u32) < 2 ^ 24"
  shows "unat (x OR push_bit 24 1) = unat x + 2 ^ 24"
proof -
  have "unat x + 2 ^ 24 = unat x OR 2 ^ 24" using assms by (rule plus_high_bit)
  moreover have "unat (push_bit 24 1 :: u32) = 2 ^ 24" by simp
  ultimately show ?thesis unfolding unsigned_or_eq by simp
qed

lemma weights_plus:
  "(a0 + l0) + 2 ^ 26 * (a1 + l1) + 2 ^ 52 * (a2 + l2) + 2 ^ 78 * (a3 + l3) + 2 ^ 104 * (a4 + (l4 + (x :: nat))) =
    (a0 + 2 ^ 26 * a1 + 2 ^ 52 * a2 + 2 ^ 78 * a3 + 2 ^ 104 * a4) + (l0 + 2 ^ 26 * l1 + 2 ^ 52 * l2 + 2 ^ 78 * l3 + 2 ^ 104 * l4) + 2 ^ 104 * x"
  by (simp add: distrib_left)

lemma add_block_val:
  assumes m: "length m = 16" and h: "acc_ok h" and hi: "hibit = 0 \<or> hibit = push_bit 24 1"
  shows "limbs_val (add_block hibit m h) = limbs_val h + le_val m + 2 ^ 104 * unat hibit" and "sum_ok (add_block hibit m h)"
proof -
  obtain h0 h1 h2 h3 h4 where hs: "h = (h0, h1, h2, h3, h4)" using prod_cases5 by blast
  note b = h [unfolded hs acc_ok_def prod.case]
  define n where "n = le_val m"
  define t0 t1 t2 t3 where t: "t0 = U8TO32_LE m" "t1 = U8TO32_LE (drop 4 m)" "t2 = U8TO32_LE (drop 8 m)" "t3 = U8TO32_LE (drop 12 m)"
  have u: "unat t0 = take_bit 32 (drop_bit 0 n)" "unat t1 = take_bit 32 (drop_bit (0 + 32) n)" "unat t2 = take_bit 32 (drop_bit (32 + 32) n)"
    "unat t3 = take_bit 32 (drop_bit (64 + 32) n)" "unat t1 = take_bit 32 (drop_bit 32 n)" "unat t2 = take_bit 32 (drop_bit 64 n)"
    using unat_word_at [of 0 m] unat_word_at [of 4 m] unat_word_at [of 8 m] unat_word_at [of 12 m] m by (simp_all add: t n_def)
  have n: "n < 2 ^ 128" using le_val_less [of m] m by (simp add: n_def)
  let ?l1 = "ucast (drop_bit 26 (push_bit 32 (ucast t1) OR ucast t0 :: u64) AND 0x3ffffff) :: u32"
  let ?l2 = "ucast (drop_bit 20 (push_bit 32 (ucast t2) OR ucast t1 :: u64) AND 0x3ffffff) :: u32"
  let ?l3 = "ucast (drop_bit 14 (push_bit 32 (ucast t3) OR ucast t2 :: u64) AND 0x3ffffff) :: u32"
  have l0: "unat (t0 AND 0x3ffffff) = limb 0 n"
    unfolding unat_and_26 u(1) by (simp add: take_bit_eq_mod mod_mod_cancel)
  have l1: "unat ?l1 = limb 1 n" using limb_of_words [OF u(1,2), of 26] by simp
  have l2: "unat ?l2 = limb 2 n" using limb_of_words [OF u(5,3), of 20] by simp
  have l3: "unat ?l3 = limb 3 n" using limb_of_words [OF u(6,4), of 14] by simp
  have "take_bit 32 (drop_bit 96 n) = drop_bit 96 n" using n by (intro take_bit_nat_eq_self) (simp add: drop_bit_eq_div)
  then have "unat t3 = drop_bit 96 n" using u(4) by simp
  then have l4: "unat (drop_bit 8 t3) = limb 4 n" "limb 4 n < 2 ^ 24"
    unfolding unat_drop using n by (simp_all add: drop_bit_eq_div take_bit_eq_mod div_mult2_eq [symmetric])
  have hb: "unat hibit \<le> 2 ^ 24" "unat (drop_bit 8 t3 OR hibit) = limb 4 n + unat hibit"
    using hi or_high_bit [OF l4(2) [folded l4(1)]] by (auto simp: l4(1))
  have less: "limb 0 n < 2 ^ 26" "limb 1 n < 2 ^ 26" "limb 2 n < 2 ^ 26" "limb 3 n < 2 ^ 26" by (rule limb_less)+
  have s: "unat (h0 + (t0 AND 0x3ffffff)) = unat h0 + limb 0 n" "unat (h1 + ?l1) = unat h1 + limb 1 n" "unat (h2 + ?l2) = unat h2 + limb 2 n"
    "unat (h3 + ?l3) = unat h3 + limb 3 n" "unat (h4 + (drop_bit 8 t3 OR hibit)) = unat h4 + (limb 4 n + unat hibit)"
    by (rule unat_plus [OF l0] unat_plus [OF l1] unat_plus [OF l2] unat_plus [OF l3] unat_plus [OF hb(2)]; use b less l4(2) hb(1) in simp)+
  have e: "add_block hibit m h = (h0 + (t0 AND 0x3ffffff), h1 + ?l1, h2 + ?l2, h3 + ?l3, h4 + (drop_bit 8 t3 OR hibit))"
    by (simp add: add_block_def hs t Let_def)
  have "n < 2 ^ 130" using n by simp
  note sum = limbs_sum [OF this]
  show "limbs_val (add_block hibit m h) = limbs_val h + le_val m + 2 ^ 104 * unat hibit"
    unfolding n_def [symmetric] e by (simp only: hs limbs_val_def prod.case s weights_plus sum [symmetric])
  show "sum_ok (add_block hibit m h)"
    unfolding e sum_ok_def prod.case s using b less l4(2) hb(1) by simp
qed

text \<open>The clamped key: the limbs of the key with the clamped bits cleared.\<close>

lemma key_limb:
  assumes x: "unat (x :: u32) = take_bit 32 (drop_bit k n)" and y: "unat (y :: u32) = take_bit 32 (drop_bit (k + 32) n)" and "j < 32"
    and m: "unat m = take_bit 26 (drop_bit (k + j) c)"
  shows "unat ((drop_bit j x OR push_bit (32 - j) y) AND m :: u32) = take_bit 26 (drop_bit (k + j) (n AND c))"
proof -
  have "unat (drop_bit j x OR push_bit (32 - j) y) = drop_bit j (unat x) OR take_bit 32 (push_bit (32 - j) (unat y))"
    unfolding unsigned_or_eq unsigned_push_bit_eq unat_drop_bit_eq by simp
  also have "\<dots> = take_bit 32 (drop_bit (k + j) n)"
    unfolding x y using assms(3) by (intro bit_eqI) (auto simp: bit_or_iff bit_take_bit_iff bit_push_bit_iff bit_drop_bit_eq ac_simps)
  finally show ?thesis
    unfolding unsigned_and_eq m by (intro bit_eqI) (auto simp: bit_and_iff bit_take_bit_iff bit_drop_bit_eq)
qed

lemma and_mask_20: "(n :: nat) AND 1048575 = take_bit 20 n"
  by (simp add: take_bit_eq_mask mask_eq_exp_minus_1)

lemma clamp_key_val:
  assumes "length key \<ge> 16"
  shows "limbs_val (clamp_key key) = le_val (take 16 key) AND poly_clamp" and "key_ok (clamp_key key)"
proof -
  define n where "n = le_val (take 16 key)"
  define t0 t1 t2 t3 where t: "t0 = U8TO32_LE key" "t1 = U8TO32_LE (drop 4 key)" "t2 = U8TO32_LE (drop 8 key)" "t3 = U8TO32_LE (drop 12 key)"
  have w: "U8TO32_LE (drop i key) = U8TO32_LE (drop i (take 16 key))" if "i \<le> 12" for i using that assms by (simp add: U8TO32_LE_def)
  have u: "unat t0 = take_bit 32 (drop_bit 0 n)" "unat t1 = take_bit 32 (drop_bit (0 + 32) n)" "unat t2 = take_bit 32 (drop_bit (32 + 32) n)"
    "unat t3 = take_bit 32 (drop_bit (64 + 32) n)" "unat t1 = take_bit 32 (drop_bit 32 n)" "unat t2 = take_bit 32 (drop_bit 64 n)"
    using unat_word_at [of 0 "take 16 key"] unat_word_at [of 4 "take 16 key"] unat_word_at [of 8 "take 16 key"] unat_word_at [of 12 "take 16 key"]
      w [of 0] w [of 4] w [of 8] w [of 12] assms by (simp_all add: t n_def)
  let ?c = "n AND poly_clamp"
  have "take_bit 26 poly_clamp = mask 26" by (simp add: poly_clamp_def mask_eq_exp_minus_1)
  then have "limb 0 ?c = take_bit 26 n AND mask 26" by (simp add: take_bit_and)
  also have "\<dots> = take_bit 26 n" by (simp flip: take_bit_eq_mask)
  finally have r0: "unat (t0 AND 0x3ffffff) = limb 0 ?c"
    unfolding unat_and_26 u(1) by (simp add: take_bit_eq_mod mod_mod_cancel)
  have r1: "unat ((drop_bit 26 t0 OR push_bit 6 t1) AND 0x3ffff03) = limb 1 ?c"
    using key_limb [OF u(1,2), of 26 "0x3ffff03" poly_clamp] by (simp add: poly_clamp_def)
  have r2: "unat ((drop_bit 20 t1 OR push_bit 12 t2) AND 0x3ffc0ff) = limb 2 ?c"
    using key_limb [OF u(5,3), of 20 "0x3ffc0ff" poly_clamp] by (simp add: poly_clamp_def)
  have r3: "unat ((drop_bit 14 t2 OR push_bit 18 t3) AND 0x3f03fff) = limb 3 ?c"
    using key_limb [OF u(6,4), of 14 "0x3f03fff" poly_clamp] by (simp add: poly_clamp_def)
  have c: "?c < 2 ^ 124"
  proof -
    have "poly_clamp = take_bit 124 poly_clamp" by (simp add: poly_clamp_def)
    then have "bit poly_clamp k \<Longrightarrow> k < 124" for k by (metis bit_take_bit_iff)
    then have "?c = take_bit 124 ?c" by (intro bit_eqI) (auto simp: bit_and_iff bit_take_bit_iff)
    then show ?thesis by (metis take_bit_nat_less_exp)
  qed
  have "take_bit 32 (drop_bit 96 n) = drop_bit 96 n"
    using le_val_less [of "take 16 key"] assms by (intro take_bit_nat_eq_self) (simp add: drop_bit_eq_div n_def)
  then have "unat t3 = drop_bit 96 n" using u(4) by simp
  then have "unat (drop_bit 8 t3) = drop_bit 104 n" unfolding unat_drop_bit_eq by (simp add: drop_bit_drop_bit)
  then have r4: "unat (drop_bit 8 t3 AND 0x00fffff) = limb 4 ?c"
    unfolding unsigned_and_eq and_mask_20 by (simp add: poly_clamp_def take_bit_and) (simp add: and_mask_20)
  have e: "clamp_key key = (t0 AND 0x3ffffff, (drop_bit 26 t0 OR push_bit 6 t1) AND 0x3ffff03, (drop_bit 20 t1 OR push_bit 12 t2) AND 0x3ffc0ff,
      (drop_bit 14 t2 OR push_bit 18 t3) AND 0x3f03fff, drop_bit 8 t3 AND 0x00fffff)" by (simp add: clamp_key_def t Let_def)
  have "?c < 2 ^ 130" using c by simp
  from limbs_sum [OF this] show "limbs_val (clamp_key key) = le_val (take 16 key) AND poly_clamp"
    unfolding n_def [symmetric] e limbs_val_def prod.case r0 r1 r2 r3 r4 by (rule sym)
  have "limb 4 ?c < 2 ^ 20"
    using c by (simp add: drop_bit_eq_div take_bit_eq_mod)
  then show "key_ok (clamp_key key)"
    unfolding e key_ok_def prod.case r0 r1 r2 r3 r4 by (intro conjI limb_less)
qed

subsection \<open>Multiplication\<close>

text \<open>The sums of products, with the multiples of \<open>2 ^ 130\<close> folded back as multiples of 5.\<close>

lemma products_mod:
  fixes h0 h1 h2 h3 h4 r0 r1 r2 r3 r4 :: int
  assumes h: "h = h0 + 2 ^ 26 * h1 + 2 ^ 52 * h2 + 2 ^ 78 * h3 + 2 ^ 104 * h4"
    and r: "r = r0 + 2 ^ 26 * r1 + 2 ^ 52 * r2 + 2 ^ 78 * r3 + 2 ^ 104 * r4"
    and "t0 = h0 * r0 + h1 * (r4 * 5) + h2 * (r3 * 5) + h3 * (r2 * 5) + h4 * (r1 * 5)"
    and "t1 = h0 * r1 + h1 * r0 + h2 * (r4 * 5) + h3 * (r3 * 5) + h4 * (r2 * 5)"
    and "t2 = h0 * r2 + h1 * r1 + h2 * r0 + h3 * (r4 * 5) + h4 * (r3 * 5)"
    and "t3 = h0 * r3 + h1 * r2 + h2 * r1 + h3 * r0 + h4 * (r4 * 5)"
    and "t4 = h0 * r4 + h1 * r3 + h2 * r2 + h3 * r1 + h4 * r0"
  shows "h * r = t0 + 2 ^ 26 * t1 + 2 ^ 52 * t2 + 2 ^ 78 * t3 + 2 ^ 104 * t4 + (2 ^ 130 - 5) *
    ((h1 * r4 + h2 * r3 + h3 * r2 + h4 * r1) + 2 ^ 26 * (h2 * r4 + h3 * r3 + h4 * r2) + 2 ^ 52 * (h3 * r4 + h4 * r3) + 2 ^ 78 * (h4 * r4))"
  unfolding assms by (simp add: algebra_simps)

lemma products_nat:
  fixes h0 h1 h2 h3 h4 r0 r1 r2 r3 r4 :: nat
  assumes "t0 = h0 * r0 + h1 * (r4 * 5) + h2 * (r3 * 5) + h3 * (r2 * 5) + h4 * (r1 * 5)"
    and "t1 = h0 * r1 + h1 * r0 + h2 * (r4 * 5) + h3 * (r3 * 5) + h4 * (r2 * 5)"
    and "t2 = h0 * r2 + h1 * r1 + h2 * r0 + h3 * (r4 * 5) + h4 * (r3 * 5)"
    and "t3 = h0 * r3 + h1 * r2 + h2 * r1 + h3 * r0 + h4 * (r4 * 5)"
    and "t4 = h0 * r4 + h1 * r3 + h2 * r2 + h3 * r1 + h4 * r0"
  shows "(h0 + 2 ^ 26 * h1 + 2 ^ 52 * h2 + 2 ^ 78 * h3 + 2 ^ 104 * h4) * (r0 + 2 ^ 26 * r1 + 2 ^ 52 * r2 + 2 ^ 78 * r3 + 2 ^ 104 * r4) =
    t0 + 2 ^ 26 * t1 + 2 ^ 52 * t2 + 2 ^ 78 * t3 + 2 ^ 104 * t4 + poly_p *
    ((h1 * r4 + h2 * r3 + h3 * r2 + h4 * r1) + 2 ^ 26 * (h2 * r4 + h3 * r3 + h4 * r2) + 2 ^ 52 * (h3 * r4 + h4 * r3) + 2 ^ 78 * (h4 * r4))"
proof -
  have "int poly_p = 2 ^ 130 - 5" by (simp add: poly_p_def)
  note q = products_mod [OF refl refl refl refl refl refl refl, of "int h0" "int h1" "int h2" "int h3" "int h4" "int r0" "int r1" "int r2" "int r3" "int r4", folded this]
  show ?thesis
    unfolding of_nat_eq_iff [where 'a = int, symmetric] assms
    using q by (simp only: of_nat_add of_nat_mult of_nat_power of_nat_numeral)
qed

text \<open>The chain of carries, as numbers.\<close>

definition carry_chain :: "nat \<Rightarrow> nat \<Rightarrow> nat \<Rightarrow> nat \<Rightarrow> nat \<Rightarrow> nat \<times> nat \<times> nat \<times> nat \<times> nat" where
  "carry_chain t0 t1 t2 t3 t4 =
     (let t1 = t1 + t0 div 2 ^ 26; t2 = t2 + t1 div 2 ^ 26; t3 = t3 + t2 div 2 ^ 26; t4 = t4 + t3 div 2 ^ 26
      in (t0 mod 2 ^ 26 + t4 div 2 ^ 26 * 5, t1 mod 2 ^ 26, t2 mod 2 ^ 26, t3 mod 2 ^ 26, t4 mod 2 ^ 26))"

lemma carry_sum:
  fixes t0 t1 t2 t3 t4 :: nat
  assumes "t0 = m0 + 2 ^ 26 * q0" and "t1 + q0 = m1 + 2 ^ 26 * q1" and "t2 + q1 = m2 + 2 ^ 26 * q2"
    and "t3 + q2 = m3 + 2 ^ 26 * q3" and "t4 + q3 = m4 + 2 ^ 26 * q4"
  shows "t0 + 2 ^ 26 * t1 + 2 ^ 52 * t2 + 2 ^ 78 * t3 + 2 ^ 104 * t4 =
    m0 + 2 ^ 26 * m1 + 2 ^ 52 * m2 + 2 ^ 78 * m3 + 2 ^ 104 * m4 + 2 ^ 130 * q4"
  using assms by simp

lemma split_26: "(t :: nat) = t mod 2 ^ 26 + 2 ^ 26 * (t div 2 ^ 26)"
  by simp

lemma carry_chain_val:
  assumes "carry_chain t0 t1 t2 t3 t4 = (h0, h1, h2, h3, h4)"
  shows "\<exists>k. t0 + 2 ^ 26 * t1 + 2 ^ 52 * t2 + 2 ^ 78 * t3 + 2 ^ 104 * t4 =
    h0 + 2 ^ 26 * h1 + 2 ^ 52 * h2 + 2 ^ 78 * h3 + 2 ^ 104 * h4 + poly_p * k"
proof -
  define u1 u2 u3 u4 where u: "u1 = t1 + t0 div 2 ^ 26" "u2 = t2 + u1 div 2 ^ 26" "u3 = t3 + u2 div 2 ^ 26" "u4 = t4 + u3 div 2 ^ 26"
  have h: "h0 = t0 mod 2 ^ 26 + u4 div 2 ^ 26 * 5" "h1 = u1 mod 2 ^ 26" "h2 = u2 mod 2 ^ 26" "h3 = u3 mod 2 ^ 26" "h4 = u4 mod 2 ^ 26"
    using assms by (simp_all add: carry_chain_def Let_def u)
  have "t0 + 2 ^ 26 * t1 + 2 ^ 52 * t2 + 2 ^ 78 * t3 + 2 ^ 104 * t4 = t0 mod 2 ^ 26 + 2 ^ 26 * h1 + 2 ^ 52 * h2 + 2 ^ 78 * h3 + 2 ^ 104 * h4 + 2 ^ 130 * (u4 div 2 ^ 26)"
    unfolding h by (rule carry_sum [OF split_26 trans [OF u(1) [symmetric] split_26] trans [OF u(2) [symmetric] split_26]
      trans [OF u(3) [symmetric] split_26] trans [OF u(4) [symmetric] split_26]])
  moreover have "2 ^ 130 * k = 5 * k + poly_p * k" for k by (simp add: poly_p_def)
  ultimately show ?thesis unfolding h by (intro exI [of _ "u4 div 2 ^ 26"]) simp
qed

text \<open>Every sum of products and every carry fits into its word.\<close>

lemma mult_less_le: "(a :: nat) < A \<Longrightarrow> b < B \<Longrightarrow> a * b \<le> A * B"
  by (simp add: mult_le_mono)

lemma product_bounds:
  fixes h0 h1 h2 h3 h4 r0 r1 r2 r3 r4 :: nat
  assumes h: "h0 < 43 * 2 ^ 26" "h1 < 2 ^ 27" "h2 < 2 ^ 27" "h3 < 2 ^ 27" "h4 < 3 * 2 ^ 25"
    and r: "r0 < 2 ^ 26" "r1 < 2 ^ 26" "r2 < 2 ^ 26" "r3 < 2 ^ 26" "r4 < 2 ^ 20"
  shows "h0 * r0 + h1 * (r4 * 5) + h2 * (r3 * 5) + h3 * (r2 * 5) + h4 * (r1 * 5) < 71 * 2 ^ 52"
    and "h0 * r1 + h1 * r0 + h2 * (r4 * 5) + h3 * (r3 * 5) + h4 * (r2 * 5) < 63 * 2 ^ 52"
    and "h0 * r2 + h1 * r1 + h2 * r0 + h3 * (r4 * 5) + h4 * (r3 * 5) < 63 * 2 ^ 52"
    and "h0 * r3 + h1 * r2 + h2 * r1 + h3 * r0 + h4 * (r4 * 5) < 63 * 2 ^ 52"
    and "5 * (h0 * r4 + h1 * r3 + h2 * r2 + h3 * r1 + h4 * r0 + 2 ^ 32) < 41 * 2 ^ 52"
  using mult_less_le [OF h(1) r(1)] mult_less_le [OF h(2) r(5)] mult_less_le [OF h(3) r(4)] mult_less_le [OF h(4) r(3)] mult_less_le [OF h(5) r(2)]
    mult_less_le [OF h(1) r(2)] mult_less_le [OF h(2) r(1)] mult_less_le [OF h(3) r(5)] mult_less_le [OF h(4) r(4)] mult_less_le [OF h(5) r(3)]
    mult_less_le [OF h(1) r(3)] mult_less_le [OF h(2) r(2)] mult_less_le [OF h(3) r(1)] mult_less_le [OF h(4) r(5)] mult_less_le [OF h(5) r(4)]
    mult_less_le [OF h(1) r(4)] mult_less_le [OF h(2) r(3)] mult_less_le [OF h(3) r(2)] mult_less_le [OF h(4) r(1)] mult_less_le [OF h(5) r(5)]
    mult_less_le [OF h(1) r(5)] mult_less_le [OF h(2) r(4)] mult_less_le [OF h(3) r(3)] mult_less_le [OF h(4) r(2)] mult_less_le [OF h(5) r(1)]
  by simp_all

lemma mul_nat: "mul32x32_64 a b = of_nat (unat a * unat b)"
  unfolding mul32x32_64_def of_nat_mult of_nat_unat ..

lemma word_of_unat: "unat x = n \<Longrightarrow> x = of_nat n"
  by (metis of_nat_unat ucast_id)

text \<open>A 64-bit sum and its carry, as numbers.\<close>

lemma sum_parts:
  assumes "t = of_nat n" and "n < 2 ^ 64"
  shows "unat (ucast (t :: u64) AND 0x3ffffff :: u32) = n mod 2 ^ 26" and "drop_bit 26 t = of_nat (n div 2 ^ 26)"
    and "n < 2 ^ 58 \<Longrightarrow> unat (ucast (drop_bit 26 t) :: u32) = n div 2 ^ 26" and "n < 2 ^ 58 \<Longrightarrow> ucast (ucast (drop_bit 26 t) :: u32) = (of_nat (n div 2 ^ 26) :: u64)"
proof -
  have t: "unat t = n" unfolding assms(1) using assms(2) by (intro unat_of_nat_small) simp
  show "unat (ucast t AND 0x3ffffff :: u32) = n mod 2 ^ 26"
    unfolding unat_and_26 unat_ucast_u32 t by (simp add: mod_mod_cancel)
  have d: "unat (drop_bit 26 t) = n div 2 ^ 26" unfolding unat_drop t ..
  then show "drop_bit 26 t = of_nat (n div 2 ^ 26)" by (rule word_of_unat)
  assume "n < 2 ^ 58"
  then show c: "unat (ucast (drop_bit 26 t) :: u32) = n div 2 ^ 26" unfolding unat_ucast_u32 d by simp
  show "ucast (ucast (drop_bit 26 t) :: u32) = (of_nat (n div 2 ^ 26) :: u64)"
    using c by (intro word_of_unat) simp
qed

lemma mult_div_le: "c * (a div b) \<le> c * a div (b :: nat)"
proof (cases "b = 0")
  case False
  have "a div b * b \<le> a" by simp
  then have "c * (a div b) * b \<le> c * a" by (metis mult.assoc mult_le_mono2)
  then show ?thesis using False by (simp add: less_eq_div_iff_mult_less_eq)
qed simp

lemma donna_mul_val:
  assumes h: "sum_ok h" and r: "key_ok r"
  shows "limbs_val (donna_mul r h) mod poly_p = (limbs_val h * limbs_val r) mod poly_p" and "acc_ok (donna_mul r h)"
proof -
  obtain h0 h1 h2 h3 h4 where hs: "h = (h0, h1, h2, h3, h4)" using prod_cases5 by blast
  obtain r0 r1 r2 r3 r4 where rs: "r = (r0, r1, r2, r3, r4)" using prod_cases5 by blast
  have hb: "unat h0 < 43 * 2 ^ 26" "unat h1 < 2 ^ 27" "unat h2 < 2 ^ 27" "unat h3 < 2 ^ 27" "unat h4 < 3 * 2 ^ 25"
    using h unfolding hs sum_ok_def prod.case by blast+
  have rb: "unat r0 < 2 ^ 26" "unat r1 < 2 ^ 26" "unat r2 < 2 ^ 26" "unat r3 < 2 ^ 26" "unat r4 < 2 ^ 20"
    using r unfolding rs key_ok_def prod.case by blast+
  have s: "unat (r1 * 5) = unat r1 * 5" "unat (r2 * 5) = unat r2 * 5" "unat (r3 * 5) = unat r3 * 5" "unat (r4 * 5) = unat r4 * 5"
    using rb by (simp_all add: unat_word_ariths)
  define t0 t1 t2 t3 t4 where t:
    "t0 = unat h0 * unat r0 + unat h1 * (unat r4 * 5) + unat h2 * (unat r3 * 5) + unat h3 * (unat r2 * 5) + unat h4 * (unat r1 * 5)"
    "t1 = unat h0 * unat r1 + unat h1 * unat r0 + unat h2 * (unat r4 * 5) + unat h3 * (unat r3 * 5) + unat h4 * (unat r2 * 5)"
    "t2 = unat h0 * unat r2 + unat h1 * unat r1 + unat h2 * unat r0 + unat h3 * (unat r4 * 5) + unat h4 * (unat r3 * 5)"
    "t3 = unat h0 * unat r3 + unat h1 * unat r2 + unat h2 * unat r1 + unat h3 * unat r0 + unat h4 * (unat r4 * 5)"
    "t4 = unat h0 * unat r4 + unat h1 * unat r3 + unat h2 * unat r2 + unat h3 * unat r1 + unat h4 * unat r0"
  note b = product_bounds [OF hb rb, folded t]
  define u1 u2 u3 u4 where u: "u1 = t1 + t0 div 2 ^ 26" "u2 = t2 + u1 div 2 ^ 26" "u3 = t3 + u2 div 2 ^ 26" "u4 = t4 + u3 div 2 ^ 26"
  have d: "n < A * 2 ^ 26 \<Longrightarrow> n div 2 ^ 26 < A" for n A :: nat by (rule less_mult_imp_div_less)
  have tb: "t0 < 2 ^ 64" "u1 < 2 ^ 58" using b d [of t0 "71 * 2 ^ 26"] by (simp_all add: u(1))
  then have u2: "u2 < 2 ^ 58" using b d [of u1 "2 ^ 32"] by (simp add: u(2))
  then have u3: "u3 < 2 ^ 58" using b d [of u2 "2 ^ 32"] by (simp add: u(3))
  then have u4: "5 * u4 < 41 * 2 ^ 52" using b d [of u3 "2 ^ 32"] by (simp add: u(4))
  define w0 w1 w2 w3 w4 :: u64 where w: "w0 = of_nat t0" "w1 = of_nat u1" "w2 = of_nat u2" "w3 = of_nat u3" "w4 = of_nat u4"
  have w64: "u1 < 2 ^ 64" "u2 < 2 ^ 64" "u3 < 2 ^ 64" using tb u2 u3 by simp_all
  have c: "drop_bit 26 w0 = of_nat (t0 div 2 ^ 26)" "ucast (ucast (drop_bit 26 w1) :: u32) = (of_nat (u1 div 2 ^ 26) :: u64)"
    "ucast (ucast (drop_bit 26 w2) :: u32) = (of_nat (u2 div 2 ^ 26) :: u64)" "ucast (ucast (drop_bit 26 w3) :: u32) = (of_nat (u3 div 2 ^ 26) :: u64)"
    by (rule sum_parts(2) [OF w(1) tb(1)] sum_parts(4) [OF w(2) w64(1) tb(2)] sum_parts(4) [OF w(3) w64(2) u2] sum_parts(4) [OF w(4) w64(3) u3])+
  have p: "mul32x32_64 h0 r0 + mul32x32_64 h1 (r4 * 5) + mul32x32_64 h2 (r3 * 5) + mul32x32_64 h3 (r2 * 5) + mul32x32_64 h4 (r1 * 5) = w0"
    "mul32x32_64 h0 r1 + mul32x32_64 h1 r0 + mul32x32_64 h2 (r4 * 5) + mul32x32_64 h3 (r3 * 5) + mul32x32_64 h4 (r2 * 5) + drop_bit 26 w0 = w1"
    "mul32x32_64 h0 r2 + mul32x32_64 h1 r1 + mul32x32_64 h2 r0 + mul32x32_64 h3 (r4 * 5) + mul32x32_64 h4 (r3 * 5) + ucast (ucast (drop_bit 26 w1) :: u32) = w2"
    "mul32x32_64 h0 r3 + mul32x32_64 h1 r2 + mul32x32_64 h2 r1 + mul32x32_64 h3 r0 + mul32x32_64 h4 (r4 * 5) + ucast (ucast (drop_bit 26 w2) :: u32) = w3"
    "mul32x32_64 h0 r4 + mul32x32_64 h1 r3 + mul32x32_64 h2 r2 + mul32x32_64 h3 r1 + mul32x32_64 h4 r0 + ucast (ucast (drop_bit 26 w3) :: u32) = w4"
    by (simp_all only: mul_nat s c flip: of_nat_add) (simp_all only: w u t)
  have e: "donna_mul r h = ((ucast w0 AND 0x3ffffff) + ucast (drop_bit 26 w4) * 5, ucast w1 AND 0x3ffffff, ucast w2 AND 0x3ffffff, ucast w3 AND 0x3ffffff, ucast w4 AND 0x3ffffff)"
    by (simp only: donna_mul_def hs rs prod.case Let_def p)
  have w4: "u4 < 2 ^ 64" "u4 < 2 ^ 58" using u4 by simp_all
  have b4: "unat (ucast (drop_bit 26 w4) :: u32) = u4 div 2 ^ 26" by (rule sum_parts(3) [OF w(5) w4])
  have "5 * (u4 div 2 ^ 26) \<le> 5 * u4 div 2 ^ 26" by (rule mult_div_le)
  moreover have "5 * u4 div 2 ^ 26 < 41 * 2 ^ 26" using u4 by (intro d) simp
  ultimately have five: "u4 div 2 ^ 26 * 5 < 41 * 2 ^ 26" by linarith
  have "unat (ucast (drop_bit 26 w4) * 5 :: u32) = u4 div 2 ^ 26 * 5"
    using five unat_word_ariths(2) [of "ucast (drop_bit 26 w4) :: u32" 5] unfolding b4 by simp
  then have v0: "unat ((ucast w0 AND 0x3ffffff) + ucast (drop_bit 26 w4) * 5 :: u32) = t0 mod 2 ^ 26 + u4 div 2 ^ 26 * 5"
    using unat_plus [of "ucast (drop_bit 26 w4) * 5" "u4 div 2 ^ 26 * 5" "ucast w0 AND 0x3ffffff"] five
    unfolding sum_parts(1) [OF w(1) tb(1)] by simp
  note v = v0 sum_parts(1) [OF w(2) w64(1)] sum_parts(1) [OF w(3) w64(2)] sum_parts(1) [OF w(4) w64(3)] sum_parts(1) [OF w(5) w4(1)]
  have "carry_chain t0 t1 t2 t3 t4 = (t0 mod 2 ^ 26 + u4 div 2 ^ 26 * 5, u1 mod 2 ^ 26, u2 mod 2 ^ 26, u3 mod 2 ^ 26, u4 mod 2 ^ 26)"
    by (simp only: carry_chain_def Let_def u)
  from carry_chain_val [OF this] obtain k where k: "t0 + 2 ^ 26 * t1 + 2 ^ 52 * t2 + 2 ^ 78 * t3 + 2 ^ 104 * t4 = limbs_val (donna_mul r h) + poly_p * k"
    unfolding e limbs_val_def prod.case v by blast
  obtain l where prod_hr: "limbs_val h * limbs_val r = (t0 + 2 ^ 26 * t1 + 2 ^ 52 * t2 + 2 ^ 78 * t3 + 2 ^ 104 * t4) + poly_p * l"
    using products_nat [OF t] unfolding hs rs limbs_val_def prod.case by blast
  show "limbs_val (donna_mul r h) mod poly_p = (limbs_val h * limbs_val r) mod poly_p"
    unfolding prod_hr k by (simp add: add.assoc flip: distrib_left)
  show "acc_ok (donna_mul r h)"
    unfolding e acc_ok_def prod.case v using five by simp
qed

end
