(* ===== verification/Poly1305_Tag.thy ===== *)
theory Poly1305_Tag
  imports Poly1305_Correct
begin

text \<open>The loop over the blocks, the final reduction, and the theorem that \<^verbatim>\<open>poly1305_auth\<close> computes Poly1305.\<close>

subsection \<open>The loop\<close>

lemma add_block_take: "16 \<le> length m \<Longrightarrow> add_block hibit m h = add_block hibit (take 16 m) h"
proof -
  assume "16 \<le> length m"
  then have "U8TO32_LE (drop i m) = U8TO32_LE (drop i (take 16 m))" if "i \<le> 12" for i using that by (simp add: U8TO32_LE_def)
  from this [of 0] this [of 4] this [of 8] this [of 12] show ?thesis by (simp add: add_block_def Let_def split: prod.split)
qed

lemma le_val_zeros: "le_val (xs @ replicate n 0) = le_val xs"
proof -
  have "le_val (replicate n 0) = 0" by (induction n) simp_all
  then show ?thesis by (simp add: le_val_append)
qed

lemma block_step:
  assumes r: "key_ok r" and h: "acc_ok h" "limbs_val h mod poly_p = a" and "length b = 16" and "hibit = 0 \<or> hibit = push_bit 24 1"
    and v: "le_val b + 2 ^ 104 * unat hibit = n"
  shows "acc_ok (donna_mul r (add_block hibit b h))" and "limbs_val (donna_mul r (add_block hibit b h)) mod poly_p = ((a + n) * limbs_val r) mod poly_p"
proof -
  note ab = add_block_val [OF assms(4) h(1) assms(5)]
  show "acc_ok (donna_mul r (add_block hibit b h))" by (rule donna_mul_val(2) [OF ab(2) r])
  have "limbs_val (add_block hibit b h) = limbs_val h + n" using ab(1) v by simp
  then show "limbs_val (donna_mul r (add_block hibit b h)) mod poly_p = ((a + n) * limbs_val r) mod poly_p"
    unfolding donna_mul_val(1) [OF ab(2) r] h(2) [symmetric] by (metis mod_add_left_eq mod_mult_left_eq)
qed

lemma donna_blocks_val:
  assumes "key_ok r"
  shows "acc_ok h \<Longrightarrow> limbs_val h mod poly_p = a \<Longrightarrow>
    acc_ok (donna_blocks r h m) \<and> limbs_val (donna_blocks r h m) mod poly_p = poly_acc (limbs_val r) a m"
proof (induction m arbitrary: h a rule: length_induct)
  case (1 m)
  consider "m = []" | "m \<noteq> []" "length m < 16" | "16 \<le> length m" by linarith
  then show ?case
  proof cases
    case 1
    then show ?thesis using "1.prems" by (simp add: donna_blocks.simps [of r h "[]"] poly_acc.simps [of _ _ "[]"])
  next
    case 2
    let ?b = "m @ [1] @ replicate (15 - length m) 0"
    have "le_val ?b + 2 ^ 104 * unat (0 :: u32) = le_val (m @ [1])" using le_val_zeros [of "m @ [1]"] by simp
    note s = block_step [OF assms "1.prems" _ _ this]
    have "donna_blocks r h m = donna_mul r (add_block 0 ?b h)" using 2 by (simp add: donna_blocks.simps [of r h m])
    moreover have "poly_acc (limbs_val r) a m = ((a + le_val (m @ [1])) * limbs_val r) mod poly_p"
      using 2 by (simp add: poly_acc.simps [of _ _ m] poly_acc.simps [of _ _ "[]"])
    ultimately show ?thesis using s 2 by simp
  next
    case 3
    have "le_val (take 16 m) + 2 ^ 104 * unat (push_bit 24 1 :: u32) = le_val (take 16 m @ [1])" using 3 by (simp add: le_val_append)
    note s = block_step [OF assms "1.prems" _ disjI2 [OF refl] this]
    have "donna_blocks r h m = donna_blocks r (donna_mul r (add_block (push_bit 24 1) (take 16 m) h)) (drop 16 m)"
      using 3 add_block_take [OF 3] by (simp add: donna_blocks.simps [of r h m])
    moreover have "poly_acc (limbs_val r) a m = poly_acc (limbs_val r) (((a + le_val (take 16 m @ [1])) * limbs_val r) mod poly_p) (drop 16 m)"
      using 3 by (subst poly_acc.simps) auto
    moreover have "length (drop 16 m) < length m" "length (take 16 m) = 16" using 3 by simp_all
    ultimately show ?thesis using "1.IH" s by presburger
  qed
qed

subsection \<open>The final reduction\<close>

definition reduced :: "limbs \<Rightarrow> bool" where
  "reduced h \<longleftrightarrow> (case h of (h0, h1, h2, h3, h4) \<Rightarrow>
     unat h0 < 2 ^ 26 \<and> unat h1 < 2 ^ 26 \<and> unat h2 < 2 ^ 26 \<and> unat h3 < 2 ^ 26 \<and> unat h4 < 2 ^ 26)"

lemma small_excess: "(x :: nat) < 2 ^ 26 + 42 \<Longrightarrow> x div 2 ^ 26 \<le> 1 \<and> (x div 2 ^ 26 = 1 \<longrightarrow> x mod 2 ^ 26 < 42)"
  by (cases "x < 2 ^ 26") (simp_all add: le_div_geq le_mod_geq)

lemma carry_digit:
  assumes "unat h < 2 ^ 26" and "unat w div 2 ^ 26 \<le> 1"
  shows "unat (h + drop_bit 26 w :: u32) = unat h + unat w div 2 ^ 26" and "unat (h + drop_bit 26 w) div 2 ^ 26 \<le> 1"
    and "unat (h + drop_bit 26 w) \<le> 2 ^ 26" and "2 ^ 26 \<le> unat (h + drop_bit 26 w) \<Longrightarrow> unat w div 2 ^ 26 = 1"
proof -
  have "unat h + unat w div 2 ^ 26 < 2 ^ 32" using assms by simp
  then show w: "unat (h + drop_bit 26 w) = unat h + unat w div 2 ^ 26" using unat_plus [OF unat_drop] by blast
  then show le: "unat (h + drop_bit 26 w) \<le> 2 ^ 26" using assms by linarith
  then have "unat (h + drop_bit 26 w) < 2 ^ 26 + 42" by simp
  then show "unat (h + drop_bit 26 w) div 2 ^ 26 \<le> 1" using small_excess by blast
  assume "2 ^ 26 \<le> unat (h + drop_bit 26 w)"
  then show "unat w div 2 ^ 26 = 1" using w assms by linarith
qed

text \<open>
  The carries through four limbs, from a carry of at most 41 into the first. A carry leaves the last limb only when one has
  gone through all of them, and then the first limb has become small.
\<close>

lemma carry_words:
  fixes h1 h2 h3 h4 :: u32
  assumes h: "unat h1 < 2 ^ 26" "unat h2 < 2 ^ 26" "unat h3 < 2 ^ 26" "unat h4 < 2 ^ 26" and t: "unat b = t div 2 ^ 26" "t < 42 * 2 ^ 26"
    and w: "w1 = h1 + b" "w2 = h2 + drop_bit 26 w1" "w3 = h3 + drop_bit 26 w2" "w4 = h4 + drop_bit 26 w3"
  shows "t + 2 ^ 26 * unat h1 + 2 ^ 52 * unat h2 + 2 ^ 78 * unat h3 + 2 ^ 104 * unat h4 =
      t mod 2 ^ 26 + 2 ^ 26 * (unat w1 mod 2 ^ 26) + 2 ^ 52 * (unat w2 mod 2 ^ 26) + 2 ^ 78 * (unat w3 mod 2 ^ 26) + 2 ^ 104 * (unat w4 mod 2 ^ 26) + 2 ^ 130 * (unat w4 div 2 ^ 26)"
    and "unat w4 \<le> 2 ^ 26" and "2 ^ 26 \<le> unat w4 \<Longrightarrow> unat w1 mod 2 ^ 26 < 42"
proof -
  have q: "t div 2 ^ 26 < 42" using t(2) by (rule less_mult_imp_div_less)
  then have "unat h1 + t div 2 ^ 26 < 2 ^ 32" using h(1) by simp
  then have u1: "unat w1 = unat h1 + t div 2 ^ 26" unfolding w(1) by (rule unat_plus [OF t(1)])
  then have "unat w1 < 2 ^ 26 + 42" using h(1) q by linarith
  note s = small_excess [OF this]
  note d2 = carry_digit [OF h(2) conjunct1 [OF s], folded w(2)]
  note d3 = carry_digit [OF h(3) d2(2), folded w(3)]
  note d4 = carry_digit [OF h(4) d3(2), folded w(4)]
  show "unat w4 \<le> 2 ^ 26" by (rule d4(3))
  show "t + 2 ^ 26 * unat h1 + 2 ^ 52 * unat h2 + 2 ^ 78 * unat h3 + 2 ^ 104 * unat h4 =
      t mod 2 ^ 26 + 2 ^ 26 * (unat w1 mod 2 ^ 26) + 2 ^ 52 * (unat w2 mod 2 ^ 26) + 2 ^ 78 * (unat w3 mod 2 ^ 26) + 2 ^ 104 * (unat w4 mod 2 ^ 26) + 2 ^ 130 * (unat w4 div 2 ^ 26)"
    by (rule carry_sum [OF split_26 trans [OF u1 [symmetric] split_26] trans [OF d2(1) [symmetric] split_26] trans [OF d3(1) [symmetric] split_26] trans [OF d4(1) [symmetric] split_26]])
  have full: "2 ^ 26 \<le> x" if "x div 2 ^ 26 = 1" for x :: nat using that by (cases "x < 2 ^ 26") simp_all
  assume "2 ^ 26 \<le> unat w4"
  then show "unat w1 mod 2 ^ 26 < 42" using d4(4) d3(4) d2(4) s full by blast
qed

lemma mod_26: "(n :: nat) mod 2 ^ 26 < 2 ^ 26"
  by (rule mod_less_divisor) simp

lemma donna_carry_val:
  assumes "acc_ok h"
  shows "limbs_val (donna_carry h) mod poly_p = limbs_val h mod poly_p" and "reduced (donna_carry h)"
proof -
  obtain h0 h1 h2 h3 h4 where hs: "h = (h0, h1, h2, h3, h4)" using prod_cases5 by blast
  have hb: "unat h0 < 42 * 2 ^ 26" "unat h1 < 2 ^ 26" "unat h2 < 2 ^ 26" "unat h3 < 2 ^ 26" "unat h4 < 2 ^ 26"
    using assms unfolding hs acc_ok_def prod.case by blast+
  define w1 w2 w3 w4 where w: "w1 = h1 + drop_bit 26 h0" "w2 = h2 + drop_bit 26 w1" "w3 = h3 + drop_bit 26 w2" "w4 = h4 + drop_bit 26 w3"
  note c = carry_words [OF hb(2-5) unat_drop hb(1) w]
  define q where "q = unat w4 div 2 ^ 26"
  define y where "y = unat h0 mod 2 ^ 26 + q * 5"
  have q: "q \<le> 1" using c(2) small_excess [of "unat w4"] by (simp add: q_def)
  then have y: "y < 2 ^ 26 + 42" unfolding y_def using mod_26 [of "unat h0"] by linarith
  have carry: "y div 2 ^ 26 \<le> 1" using small_excess [OF y] by blast
  have z: "unat w1 mod 2 ^ 26 + y div 2 ^ 26 < 2 ^ 26"
  proof (cases "2 ^ 26 \<le> unat w4")
    case True
    then have "unat w1 mod 2 ^ 26 < 42" by (rule c(3))
    then show ?thesis using carry by simp
  next
    case False
    then have "y div 2 ^ 26 = 0" unfolding y_def q_def by simp
    then show ?thesis using mod_26 [of "unat w1"] by linarith
  qed
  define x where "x = (h0 AND 0x3ffffff) + drop_bit 26 w4 * 5"
  have "unat (drop_bit 26 w4 * 5) = q * 5" using q by (simp add: unat_word_ariths unat_drop q_def)
  moreover have "unat (h0 AND 0x3ffffff) + q * 5 < 2 ^ 32" unfolding unat_and_26 y_def [symmetric] using y by simp
  ultimately have x: "unat x = y" unfolding x_def y_def unat_and_26(1) [symmetric] by (rule unat_plus)
  have "unat (w1 AND 0x3ffffff) + y div 2 ^ 26 < 2 ^ 32" unfolding unat_and_26 using z by simp
  then have x1: "unat ((w1 AND 0x3ffffff) + drop_bit 26 x) = unat w1 mod 2 ^ 26 + y div 2 ^ 26"
    unfolding unat_and_26(1) [of w1, symmetric] by (intro unat_plus) (simp_all add: unat_drop x)
  have e: "donna_carry h = (x AND 0x3ffffff, (w1 AND 0x3ffffff) + drop_bit 26 x, w2 AND 0x3ffffff, w3 AND 0x3ffffff, w4 AND 0x3ffffff)"
    by (simp only: donna_carry_def hs prod.case Let_def w x_def)
  show "reduced (donna_carry h)"
    unfolding e reduced_def prod.case x1 unat_and_26 x using z mod_26 by blast
  have "limbs_val (donna_carry h) = y + 2 ^ 26 * (unat w1 mod 2 ^ 26) + 2 ^ 52 * (unat w2 mod 2 ^ 26) + 2 ^ 78 * (unat w3 mod 2 ^ 26) + 2 ^ 104 * (unat w4 mod 2 ^ 26)"
    unfolding e limbs_val_def prod.case x1 unat_and_26 x using split_26 [of y] by simp
  moreover have "2 ^ 130 * q = 5 * q + poly_p * q" by (simp add: poly_p_def)
  ultimately have "limbs_val h = limbs_val (donna_carry h) + poly_p * q" using c(1) unfolding hs limbs_val_def [of "(h0, _)"] prod.case y_def q_def by simp
  then show "limbs_val (donna_carry h) mod poly_p = limbs_val h mod poly_p" by simp
qed

lemma reduced_val: "reduced h \<Longrightarrow> limbs_val h < 2 ^ 130"
  unfolding reduced_def limbs_val_def by (auto split: prod.splits)

text \<open>The mask selects: the difference to the modulus is taken when it is not negative.\<close>

lemma donna_select_val:
  assumes "reduced h"
  shows "limbs_val (donna_select h) = limbs_val h mod poly_p \<and> reduced (donna_select h)"
proof -
  obtain h0 h1 h2 h3 h4 where hs: "h = (h0, h1, h2, h3, h4)" using prod_cases5 by blast
  have hb: "unat h0 < 2 ^ 26" "unat h1 < 2 ^ 26" "unat h2 < 2 ^ 26" "unat h3 < 2 ^ 26" "unat h4 < 2 ^ 26"
    using assms unfolding hs reduced_def prod.case by blast+
  define w0 w1 w2 w3 w4 where w0: "w0 = h0 + 5" and w: "w1 = h1 + drop_bit 26 w0" "w2 = h2 + drop_bit 26 w1" "w3 = h3 + drop_bit 26 w2" "w4 = h4 + drop_bit 26 w3"
  have u0: "unat w0 = unat h0 + 5" unfolding w0 using hb(1) by (intro unat_plus) simp_all
  then have "unat w0 < 42 * 2 ^ 26" using hb(1) by simp
  note c = carry_words [OF hb(2-5) unat_drop this w]
  define g4 where "g4 = w4 - push_bit 26 1"
  define b where "b = drop_bit 31 g4 - 1"
  have e: "donna_select h = ((h0 AND NOT b) OR ((w0 AND 0x3ffffff) AND b), (h1 AND NOT b) OR ((w1 AND 0x3ffffff) AND b),
      (h2 AND NOT b) OR ((w2 AND 0x3ffffff) AND b), (h3 AND NOT b) OR ((w3 AND 0x3ffffff) AND b), (h4 AND NOT b) OR (g4 AND b))"
    by (simp only: donna_select_def hs prod.case Let_def w0 w g4_def b_def)
  have g4: "unat g4 = (if 2 ^ 26 \<le> unat w4 then unat w4 - 2 ^ 26 else unat w4 + 2 ^ 32 - 2 ^ 26)" unfolding g4_def unat_sub_if' by simp
  have sum: "limbs_val h + 5 = unat w0 mod 2 ^ 26 + 2 ^ 26 * (unat w1 mod 2 ^ 26) + 2 ^ 52 * (unat w2 mod 2 ^ 26) + 2 ^ 78 * (unat w3 mod 2 ^ 26) +
      2 ^ 104 * (unat w4 mod 2 ^ 26) + 2 ^ 130 * (unat w4 div 2 ^ 26)"
    using c(1) unfolding hs limbs_val_def prod.case u0 by linarith
  show ?thesis
  proof (cases "unat w4 = 2 ^ 26")
    case True
    then have "unat g4 = 0" using g4 by simp
    then have "g4 = 0" by (simp add: unat_eq_zero)
    then have e': "donna_select h = (w0 AND 0x3ffffff, w1 AND 0x3ffffff, w2 AND 0x3ffffff, w3 AND 0x3ffffff, 0)" unfolding e b_def by simp
    have "limbs_val (donna_select h) + poly_p = limbs_val h"
      unfolding e' limbs_val_def [of "(_, _)"] prod.case unat_and_26 using sum True by (simp add: poly_p_def)
    moreover have "limbs_val h < 2 ^ 130" by (rule reduced_val [OF assms])
    ultimately have "limbs_val (donna_select h) = limbs_val h mod poly_p" by (simp add: poly_p_def le_mod_geq)
    then show ?thesis unfolding e' reduced_def prod.case unat_and_26 using mod_26 by simp
  next
    case False
    then have x: "unat w4 < 2 ^ 26" using c(2) by simp
    then have "unat (drop_bit 31 g4) = 1" unfolding unat_drop g4 by (simp add: le_div_geq)
    then have "drop_bit 31 g4 = 1" by (metis unat_1 word_of_unat)
    then have e': "donna_select h = h" unfolding e b_def by (simp add: hs)
    have "limbs_val h < poly_p"
      using sum x mod_26 [of "unat w0"] mod_26 [of "unat w1"] mod_26 [of "unat w2"] mod_26 [of "unat w3"] by (simp add: poly_p_def)
    then show ?thesis using e' assms by simp
  qed
qed

subsection \<open>The tag\<close>

lemma word_of_limbs:
  assumes x: "unat (x :: u32) = take_bit 26 (drop_bit k v)" and y: "unat (y :: u32) = take_bit 26 (drop_bit (k + 26) v)" and "j \<le> 20"
  shows "unat (drop_bit j x OR push_bit (26 - j) y) = take_bit 32 (drop_bit (k + j) v)"
proof -
  have "unat (drop_bit j x OR push_bit (26 - j) y) = drop_bit j (unat x) OR take_bit 32 (push_bit (26 - j) (unat y))"
    unfolding unsigned_or_eq unsigned_push_bit_eq unat_drop_bit_eq by simp
  also have "\<dots> = take_bit 32 (drop_bit (k + j) v)"
    unfolding x y using assms(3) by (intro bit_eqI) (auto simp: bit_or_iff bit_take_bit_iff bit_push_bit_iff bit_drop_bit_eq ac_simps)
  finally show ?thesis .
qed

lemma digit_26: "(a :: nat) < 2 ^ 26 \<Longrightarrow> take_bit 26 (a + 2 ^ 26 * b) = a \<and> drop_bit 26 (a + 2 ^ 26 * b) = b"
  by (simp add: take_bit_eq_mod drop_bit_eq_div)

lemma reduced_limbs:
  assumes "reduced (h0, h1, h2, h3, h4)"
  defines "v \<equiv> limbs_val (h0, h1, h2, h3, h4)"
  shows "unat h0 = take_bit 26 (drop_bit 0 v)" "unat h1 = take_bit 26 (drop_bit 26 v)" "unat h2 = take_bit 26 (drop_bit 52 v)"
    "unat h3 = take_bit 26 (drop_bit 78 v)" "unat h4 = take_bit 26 (drop_bit 104 v)"
proof -
  have b: "unat h0 < 2 ^ 26" "unat h1 < 2 ^ 26" "unat h2 < 2 ^ 26" "unat h3 < 2 ^ 26" "unat h4 < 2 ^ 26"
    using assms(1) unfolding reduced_def prod.case by blast+
  have "v = unat h0 + 2 ^ 26 * (unat h1 + 2 ^ 26 * (unat h2 + 2 ^ 26 * (unat h3 + 2 ^ 26 * (unat h4 + 2 ^ 26 * 0))))"
    by (simp add: v_def limbs_val_def)
  then have d: "take_bit 26 v = unat h0" "take_bit 26 (drop_bit 26 v) = unat h1" "take_bit 26 (drop_bit 26 (drop_bit 26 v)) = unat h2"
    "take_bit 26 (drop_bit 26 (drop_bit 26 (drop_bit 26 v))) = unat h3" "take_bit 26 (drop_bit 26 (drop_bit 26 (drop_bit 26 (drop_bit 26 v)))) = unat h4"
    using digit_26 [OF b(1)] digit_26 [OF b(2)] digit_26 [OF b(3)] digit_26 [OF b(4)] digit_26 [OF b(5), of 0] by presburger+
  show "unat h0 = take_bit 26 (drop_bit 0 v)" "unat h1 = take_bit 26 (drop_bit 26 v)" "unat h2 = take_bit 26 (drop_bit 52 v)"
    "unat h3 = take_bit 26 (drop_bit 78 v)" "unat h4 = take_bit 26 (drop_bit 104 v)"
    using d by (simp_all add: drop_bit_drop_bit)
qed

text \<open>Four words of 32 bits with their carries.\<close>

lemma carry_sum_32:
  fixes t0 t1 t2 t3 :: nat
  assumes "t0 = m0 + 2 ^ 32 * q0" and "t1 + q0 = m1 + 2 ^ 32 * q1" and "t2 + q1 = m2 + 2 ^ 32 * q2" and "t3 + q2 = m3 + 2 ^ 32 * q3"
  shows "t0 + 2 ^ 32 * t1 + 2 ^ 64 * t2 + 2 ^ 96 * t3 = m0 + 2 ^ 32 * m1 + 2 ^ 64 * m2 + 2 ^ 96 * m3 + 2 ^ 128 * q3"
  using assms by simp

lemma split_32: "(t :: nat) = t mod 2 ^ 32 + 2 ^ 32 * (t div 2 ^ 32)"
  by simp

lemma words_sum: "take_bit 128 n = take_bit 32 (drop_bit 0 n) + 2 ^ 32 * take_bit 32 (drop_bit 32 n) + 2 ^ 64 * take_bit 32 (drop_bit 64 n) + 2 ^ 96 * take_bit 32 (drop_bit 96 (n :: nat))"
proof -
  have s: "take_bit (32 + k) m = take_bit 32 m + 2 ^ 32 * take_bit k (drop_bit 32 m)" for k and m :: nat
  proof -
    have "m mod (2 ^ 32 * 2 ^ k) = 2 ^ 32 * (m div 2 ^ 32 mod 2 ^ k) + m mod 2 ^ 32" by (rule mod_mult2_eq)
    then show ?thesis by (simp add: take_bit_eq_mod drop_bit_eq_div power_add)
  qed
  show ?thesis using s [of 96 n] s [of 64 "drop_bit 32 n"] s [of 32 "drop_bit 64 n"] by (simp add: drop_bit_drop_bit)
qed

lemma le_val_word: "le_val (U32TO8_LE f) = unat f mod 2 ^ 32"
proof -
  have "le_val (U32TO8_LE f) = take_bit 32 (unat f)"
    unfolding U32TO8_LE_def
    by (rule bit_eqI) (auto simp del: le_val.simps(2) simp: bit_le_Cons bit_take_bit_iff bit_unsigned_iff bit_drop_bit_eq dest: bit_imp_le_length)
  then show ?thesis by (simp add: take_bit_eq_mod)
qed

lemma length_word [simp]: "length (U32TO8_LE f) = 4"
  by (simp add: U32TO8_LE_def)

lemma sum_word:
  assumes "unat (x :: u32) = a" and "unat (y :: u32) = s"
  shows "unat (ucast x + ucast y :: u64) = a + s" and "unat (c :: u64) < 2 ^ 32 \<Longrightarrow> unat (ucast x + ucast y + c :: u64) = a + s + unat c"
  using assms unat_u32 [of x] unat_u32 [of y] by (simp_all add: unat_word_ariths)

lemma donna_tag_val:
  assumes "reduced h" and "length key = 32"
  shows "le_val (donna_tag h key) = (limbs_val h + le_val (take 16 (drop 16 key))) mod 2 ^ 128"
proof -
  obtain h0 h1 h2 h3 h4 where hs: "h = (h0, h1, h2, h3, h4)" using prod_cases5 by blast
  define v where "v = limbs_val h"
  define n where "n = le_val (drop 16 key)"
  note l = reduced_limbs [OF assms(1) [unfolded hs], folded hs, folded v_def]
  have a: "unat (h0 OR push_bit 26 h1) = take_bit 32 (drop_bit 0 v)" "unat (drop_bit 6 h1 OR push_bit 20 h2) = take_bit 32 (drop_bit 32 v)"
    "unat (drop_bit 12 h2 OR push_bit 14 h3) = take_bit 32 (drop_bit 64 v)" "unat (drop_bit 18 h3 OR push_bit 8 h4) = take_bit 32 (drop_bit 96 v)"
    using word_of_limbs [of h0 0 v h1 0] word_of_limbs [of h1 26 v h2 6] word_of_limbs [of h2 52 v h3 12] word_of_limbs [of h3 78 v h4 18] l by simp_all
  have k: "unat (U8TO32_LE (drop 16 key)) = take_bit 32 (drop_bit 0 n)" "unat (U8TO32_LE (drop 20 key)) = take_bit 32 (drop_bit 32 n)"
    "unat (U8TO32_LE (drop 24 key)) = take_bit 32 (drop_bit 64 n)" "unat (U8TO32_LE (drop 28 key)) = take_bit 32 (drop_bit 96 n)"
    using unat_word_at [of 0 "drop 16 key"] unat_word_at [of 4 "drop 16 key"] unat_word_at [of 8 "drop 16 key"] unat_word_at [of 12 "drop 16 key"] assms(2)
    by (simp_all add: n_def)
  define f0 f1 f2 f3 :: u64 where f: "f0 = ucast (h0 OR push_bit 26 h1) + ucast (U8TO32_LE (drop 16 key))"
    "f1 = ucast (drop_bit 6 h1 OR push_bit 20 h2) + ucast (U8TO32_LE (drop 20 key)) + drop_bit 32 f0"
    "f2 = ucast (drop_bit 12 h2 OR push_bit 14 h3) + ucast (U8TO32_LE (drop 24 key)) + drop_bit 32 f1"
    "f3 = ucast (drop_bit 18 h3 OR push_bit 8 h4) + ucast (U8TO32_LE (drop 28 key)) + drop_bit 32 f2"
  have c: "unat (drop_bit 32 x) < 2 ^ 32" for x :: u64 unfolding unat_drop using unsigned_less [where 'a = nat, of x] by (intro less_mult_imp_div_less) simp
  note u = sum_word(1) [OF a(1) k(1), folded f(1)] sum_word(2) [OF a(2) k(2) c [of f0], folded f(2), unfolded unat_drop]
    sum_word(2) [OF a(3) k(3) c [of f1], folded f(3), unfolded unat_drop] sum_word(2) [OF a(4) k(4) c [of f2], folded f(4), unfolded unat_drop]
  have "donna_tag h key = U32TO8_LE f0 @ U32TO8_LE f1 @ U32TO8_LE f2 @ U32TO8_LE f3"
    by (simp only: donna_tag_def hs prod.case Let_def f)
  then have "le_val (donna_tag h key) = unat f0 mod 2 ^ 32 + 2 ^ 32 * (unat f1 mod 2 ^ 32) + 2 ^ 64 * (unat f2 mod 2 ^ 32) + 2 ^ 96 * (unat f3 mod 2 ^ 32)"
    by (simp add: le_val_append le_val_word)
  moreover have "take_bit 128 v + take_bit 128 n = unat f0 mod 2 ^ 32 + 2 ^ 32 * (unat f1 mod 2 ^ 32) + 2 ^ 64 * (unat f2 mod 2 ^ 32) + 2 ^ 96 * (unat f3 mod 2 ^ 32) + 2 ^ 128 * (unat f3 div 2 ^ 32)"
    using carry_sum_32 [OF trans [OF u(1) [symmetric] split_32] trans [OF u(2) [symmetric] split_32] trans [OF u(3) [symmetric] split_32] trans [OF u(4) [symmetric] split_32]]
    unfolding words_sum [of v] words_sum [of n] by (simp only: distrib_left ac_simps)
  ultimately have sum: "take_bit 128 v + take_bit 128 n = le_val (donna_tag h key) + 2 ^ 128 * (unat f3 div 2 ^ 32)" by simp
  have "length (donna_tag h key) = 16" by (simp add: donna_tag_def hs Let_def)
  then have "le_val (donna_tag h key) < 2 ^ 128" using le_val_less [of "donna_tag h key"] by simp
  then have "le_val (donna_tag h key) = (take_bit 128 v + take_bit 128 n) mod 2 ^ 128" unfolding sum by simp
  then show ?thesis using assms(2) by (simp add: v_def n_def take_bit_eq_mod mod_simps)
qed

text \<open>
  C7. Poly1305: for every message and every key, the tag that \<^verbatim>\<open>poly1305_auth\<close> computes with its 26-bit limbs is the message, as a polynomial over the
  clamped first half of the key, modulo \<open>2 ^ 130 - 5\<close>, plus the second half of the key, modulo \<open>2 ^ 128\<close>.
\<close>

theorem poly1305_correct:
  assumes "length key = 32"
  shows "le_val (poly1305_auth m key) = poly_tag m key \<and> length (poly1305_auth m key) = 16"
proof -
  define r where "r = clamp_key key"
  define h where "h = donna_blocks r (0, 0, 0, 0, 0) m"
  have r: "key_ok r" "limbs_val r = le_val (take 16 key) AND poly_clamp" using clamp_key_val [of key] assms by (simp_all add: r_def)
  have "acc_ok h \<and> limbs_val h mod poly_p = poly_acc (limbs_val r) 0 m"
    unfolding h_def by (rule donna_blocks_val [OF r(1)]) (simp_all add: acc_ok_def limbs_val_def)
  then have h: "acc_ok h" "limbs_val h mod poly_p = poly_acc (limbs_val r) 0 m" by simp_all
  have s: "limbs_val (donna_select (donna_carry h)) = poly_acc (limbs_val r) 0 m" "reduced (donna_select (donna_carry h))"
    using donna_select_val [OF donna_carry_val(2) [OF h(1)]] donna_carry_val(1) [OF h(1)] h(2) by simp_all
  have e: "poly1305_auth m key = donna_tag (donna_select (donna_carry h)) key" by (simp add: poly1305_auth_def h_def r_def)
  have "length (donna_tag x key) = 16" for x by (simp add: donna_tag_def Let_def split: prod.split)
  then show ?thesis using donna_tag_val [OF s(2) assms] unfolding e s(1) r(2) by (simp add: poly_tag_def)
qed

text \<open>The tag of the message with one byte, under a key of ones.\<close>

theorem poly1305_correct_witness:
  "le_val (poly1305_auth [7] (replicate 32 1)) = poly_tag [7] (replicate 32 1) \<and> length (poly1305_auth [7] (replicate 32 1)) = 16"
  using poly1305_correct [of "replicate 32 1" "[7]"] by simp

end
