(* ===== verification/Chachapoly.thy ===== *)
theory Chachapoly
  imports Chacha Poly1305_Tag Sshbuf_Misc
begin

text \<open>
  The authenticated cipher of \<^verbatim>\<open>cipher-chachapoly.c\<close>: two instances of ChaCha20, one for the length of the packet and one for
  its contents, and a Poly1305 tag over the encrypted packet.
\<close>

subsection \<open>The code\<close>

definition POLY1305_TAGLEN :: nat where "POLY1305_TAGLEN = 16"
definition POLY1305_KEYLEN :: nat where "POLY1305_KEYLEN = 32"

record chachapoly_ctx =
  main_ctx :: chacha_ctx
  header_ctx :: chacha_ctx

text \<open>\<open>mem\<close> tells whether \<^verbatim>\<open>calloc\<close> succeeds.\<close>

definition chachapoly_new :: "bool \<Rightarrow> u8 list \<Rightarrow> nat \<Rightarrow> chachapoly_ctx option" where
  "chachapoly_new mem key keylen =
     (if keylen \<noteq> 32 + 32 then None
      else if \<not> mem then None
      else Some \<lparr>main_ctx = chacha_keysetup (replicate 16 0) key 256, header_ctx = chacha_keysetup (replicate 16 0) (drop 32 key) 256\<rparr>)"

definition one_le :: "u8 list" where
  "one_le = [1, 0, 0, 0, 0, 0, 0, 0]"

definition chachapoly_crypt :: "chachapoly_ctx \<Rightarrow> u32 \<Rightarrow> u8 list \<Rightarrow> nat \<Rightarrow> nat \<Rightarrow> bool \<Rightarrow> (ssherr + u8 list) \<times> chachapoly_ctx" where
  "chachapoly_crypt ctx seqnr src len aadlen do_encrypt =
     (let seqbuf = POKE_U64 (ucast seqnr);
          main = chacha_ivsetup (main_ctx ctx) seqbuf None;
          (poly_key, main) = chacha_encrypt_bytes main (replicate POLY1305_KEYLEN 0);
          expected_tag = poly1305_auth (take (aadlen + len) src) poly_key in
      if \<not> do_encrypt \<and> timingsafe_bcmp expected_tag (take POLY1305_TAGLEN (drop (aadlen + len) src))
      then (Inl SSH_ERR_MAC_INVALID, ctx\<lparr>main_ctx := main\<rparr>)
      else
        let (aad, header) = (if aadlen > 0 then chacha_encrypt_bytes (chacha_ivsetup (header_ctx ctx) seqbuf None) (take aadlen src)
                             else ([], header_ctx ctx));
            main = chacha_ivsetup main seqbuf (Some one_le);
            (body, main) = chacha_encrypt_bytes main (take len (drop aadlen src));
            dest = aad @ body
        in (Inr (if do_encrypt then dest @ poly1305_auth dest poly_key else dest), \<lparr>main_ctx = main, header_ctx = header\<rparr>))"

definition chachapoly_get_length :: "chachapoly_ctx \<Rightarrow> u32 \<Rightarrow> u8 list \<Rightarrow> (ssherr + u32) \<times> chachapoly_ctx" where
  "chachapoly_get_length ctx seqnr cp =
     (if length cp < 4 then (Inl SSH_ERR_MESSAGE_INCOMPLETE, ctx)
      else
        let seqbuf = POKE_U64 (ucast seqnr);
            (buf, header) = chacha_encrypt_bytes (chacha_ivsetup (header_ctx ctx) seqbuf None) (take 4 cp)
        in (Inr (PEEK_U32 buf), ctx\<lparr>header_ctx := header\<rparr>))"

subsection \<open>Contexts\<close>

text \<open>
  Setting the initial vector overwrites the last four words, so two contexts behave in the same way when their keys agree.
\<close>

definition same_key :: "chacha_ctx \<Rightarrow> chacha_ctx \<Rightarrow> bool" where
  "same_key x y \<longleftrightarrow> length x = 16 \<and> length y = 16 \<and> take 12 x = take 12 y"

lemma list_update_take: "i \<ge> n \<Longrightarrow> take n (xs[i := v]) = take n xs"
  by simp

lemma ivsetup_same_key: "same_key x y \<Longrightarrow> chacha_ivsetup x iv c = chacha_ivsetup y iv c"
proof -
  assume s: "same_key x y"
  have l: "length x = 16" "length y = 16" "take 12 x = take 12 y" using s by (simp_all add: same_key_def)
  show ?thesis
  proof (rule nth_equalityI)
    show "length (chacha_ivsetup x iv c) = length (chacha_ivsetup y iv c)" using l by simp
    fix i assume "i < length (chacha_ivsetup x iv c)"
    then have i: "i < 16" using l by simp
    have "i < 12 \<Longrightarrow> x ! i = y ! i" using l(3) by (metis nth_take)
    moreover have "i < 12 \<or> i = 12 \<or> i = 13 \<or> i = 14 \<or> i = 15" using i by linarith
    ultimately show "chacha_ivsetup x iv c ! i = chacha_ivsetup y iv c ! i" using l by (auto simp: chacha_ivsetup_def nth_list_update)
  qed
qed

lemma next_counter_key: "take 12 (next_counter j) = take 12 j"
  by (simp add: next_counter_def Let_def)

lemma loop_key: "take 12 (snd (chacha_loop j m)) = take 12 j"
proof (induction j m rule: chacha_loop.induct)
  case (1 j m)
  then show ?case by (simp add: chacha_loop.simps [of j m] next_counter_key case_prod_unfold)
qed

lemma encrypt_key: "length x = 16 \<Longrightarrow> same_key (snd (chacha_encrypt_bytes x m)) x"
  by (simp add: same_key_def chacha_encrypt_bytes_def loop_key length_chacha_loop_ctx)

lemma ivsetup_key: "length x = 16 \<Longrightarrow> same_key (chacha_ivsetup x iv c) x"
  by (simp add: same_key_def chacha_ivsetup_def)

lemma same_key_trans: "same_key x y \<Longrightarrow> same_key y z \<Longrightarrow> same_key x z"
  by (simp add: same_key_def)

lemma same_key_sym: "same_key x y \<Longrightarrow> same_key y x"
  by (simp add: same_key_def)

definition cp_same :: "chachapoly_ctx \<Rightarrow> chachapoly_ctx \<Rightarrow> bool" where
  "cp_same a b \<longleftrightarrow> same_key (main_ctx a) (main_ctx b) \<and> same_key (header_ctx a) (header_ctx b)"

lemma cp_same_sym: "cp_same a b \<Longrightarrow> cp_same b a"
  by (auto simp: cp_same_def same_key_sym)

lemma cp_same_trans: "cp_same a b \<Longrightarrow> cp_same b c \<Longrightarrow> cp_same a c"
  unfolding cp_same_def using same_key_trans by blast

text \<open>A call leaves the keys as they are.\<close>

lemma chachapoly_crypt_keeps: "cp_same ctx ctx \<Longrightarrow> cp_same (snd (chachapoly_crypt ctx seqnr src len aadlen enc)) ctx"
proof -
  assume "cp_same ctx ctx"
  then have l: "length (main_ctx ctx) = 16" "length (header_ctx ctx) = 16" by (simp_all add: cp_same_def same_key_def)
  have k: "same_key (snd (chacha_encrypt_bytes (chacha_ivsetup x iv c) m)) x" if "length x = 16" for x iv c m
    using same_key_trans [OF encrypt_key ivsetup_key [OF that]] that by simp
  show ?thesis
    using k [OF l(1)] k [OF l(2)] same_key_trans [OF k k [OF l(1)]] l
    by (auto simp: chachapoly_crypt_def Let_def cp_same_def case_prod_unfold same_key_def)
qed

lemma chachapoly_get_length_keeps: "cp_same ctx ctx \<Longrightarrow> cp_same (snd (chachapoly_get_length ctx seqnr src)) ctx"
proof -
  assume "cp_same ctx ctx"
  then have l: "length (main_ctx ctx) = 16" "length (header_ctx ctx) = 16" by (simp_all add: cp_same_def same_key_def)
  have "same_key (snd (chacha_encrypt_bytes (chacha_ivsetup (header_ctx ctx) iv c) m)) (header_ctx ctx)" for iv c m
    using same_key_trans [OF encrypt_key ivsetup_key [OF l(2)]] l by simp
  then show ?thesis using l by (auto simp: chachapoly_get_length_def Let_def cp_same_def case_prod_unfold same_key_def)
qed

subsection \<open>Decryption\<close>

text \<open>The parts of a call: the one-time key, and the two streams.\<close>

definition cp_poly_key :: "chachapoly_ctx \<Rightarrow> u32 \<Rightarrow> u8 list" where
  "cp_poly_key ctx seqnr = fst (chacha_encrypt_bytes (chacha_ivsetup (main_ctx ctx) (POKE_U64 (ucast seqnr)) None) (replicate POLY1305_KEYLEN 0))"

definition cp_streams :: "chachapoly_ctx \<Rightarrow> u32 \<Rightarrow> u8 list \<Rightarrow> nat \<Rightarrow> nat \<Rightarrow> u8 list" where
  "cp_streams ctx seqnr src len aadlen =
     fst (chacha_encrypt_bytes (chacha_ivsetup (header_ctx ctx) (POKE_U64 (ucast seqnr)) None) (take aadlen src)) @
     fst (chacha_encrypt_bytes (chacha_ivsetup (main_ctx ctx) (POKE_U64 (ucast seqnr)) (Some one_le)) (take len (drop aadlen src)))"

lemma chachapoly_crypt_parts:
  assumes "cp_same ctx ctx"
  shows "fst (chachapoly_crypt ctx seqnr src len aadlen enc) =
    (let key = cp_poly_key ctx seqnr; dest = cp_streams ctx seqnr src len aadlen in
     if enc then Inr (dest @ poly1305_auth dest key)
     else if timingsafe_bcmp (poly1305_auth (take (aadlen + len) src) key) (take POLY1305_TAGLEN (drop (aadlen + len) src)) then Inl SSH_ERR_MAC_INVALID
     else Inr dest)"
proof -
  have l: "length (main_ctx ctx) = 16" using assms by (simp add: cp_same_def same_key_def)
  have "same_key (snd (chacha_encrypt_bytes (chacha_ivsetup (main_ctx ctx) iv c) m)) (main_ctx ctx)" for iv c m
    using same_key_trans [OF encrypt_key ivsetup_key [OF l]] l by simp
  note iv = ivsetup_same_key [OF this]
  have "aadlen = 0 \<Longrightarrow> fst (chacha_encrypt_bytes x (take aadlen src)) = []" for x by (simp add: chacha_encrypt_bytes_def)
  then show ?thesis by (auto simp: chachapoly_crypt_def cp_poly_key_def cp_streams_def Let_def case_prod_unfold iv)
qed

lemma cp_same_parts:
  assumes "cp_same a b"
  shows "cp_poly_key a seqnr = cp_poly_key b seqnr" and "cp_streams a seqnr src len aadlen = cp_streams b seqnr src len aadlen"
proof -
  have m: "chacha_ivsetup (main_ctx a) iv c = chacha_ivsetup (main_ctx b) iv c" for iv c using assms unfolding cp_same_def by (blast intro: ivsetup_same_key)
  have h: "chacha_ivsetup (header_ctx a) iv c = chacha_ivsetup (header_ctx b) iv c" for iv c using assms unfolding cp_same_def by (blast intro: ivsetup_same_key)
  show "cp_poly_key a seqnr = cp_poly_key b seqnr" unfolding cp_poly_key_def m by (rule refl)
  show "cp_streams a seqnr src len aadlen = cp_streams b seqnr src len aadlen" unfolding cp_streams_def m h by (rule refl)
qed

text \<open>The laws of the stream cipher at the contexts a call sets up.\<close>

lemma iv_crypt:
  assumes "length x = 16"
  shows "length (fst (chacha_encrypt_bytes (chacha_ivsetup x iv c) m)) = length m"
    and "fst (chacha_encrypt_bytes (chacha_ivsetup x iv c) (fst (chacha_encrypt_bytes (chacha_ivsetup x iv c) m))) = m"
proof -
  have l: "length (chacha_ivsetup x iv c) = 16" using assms by simp
  show "length (fst (chacha_encrypt_bytes (chacha_ivsetup x iv c) m)) = length m" by (rule chacha.crypt_length [OF l])
  show "fst (chacha_encrypt_bytes (chacha_ivsetup x iv c) (fst (chacha_encrypt_bytes (chacha_ivsetup x iv c) m))) = m"
    unfolding chacha.crypt_involution [OF l] by simp
qed

lemma cp_same_lengths:
  assumes "cp_same a b"
  shows "length (main_ctx a) = 16" and "length (header_ctx a) = 16"
  using assms by (simp_all add: cp_same_def same_key_def)

lemma cp_same_refl:
  assumes "cp_same a b"
  shows "cp_same a a" and "cp_same b b"
  using cp_same_trans [OF assms cp_same_sym [OF assms]] cp_same_trans [OF cp_same_sym [OF assms] assms] by simp_all

lemma cp_streams_length:
  assumes "cp_same ctx ctx" and "aadlen + len \<le> length src"
  shows "length (cp_streams ctx seqnr src len aadlen) = aadlen + len"
  unfolding cp_streams_def length_append iv_crypt(1) [OF cp_same_lengths(1) [OF assms(1)]] iv_crypt(1) [OF cp_same_lengths(2) [OF assms(1)]]
  using assms(2) by simp

lemma cp_streams_involution:
  assumes "cp_same ctx ctx" and "aadlen + len = length src"
  shows "cp_streams ctx seqnr (cp_streams ctx seqnr src len aadlen @ rest) len aadlen = src"
proof -
  note h = iv_crypt [OF cp_same_lengths(2) [OF assms(1)], of "POKE_U64 (ucast seqnr)" None "take aadlen src"]
  note m = iv_crypt [OF cp_same_lengths(1) [OF assms(1)], of "POKE_U64 (ucast seqnr)" "Some one_le" "take len (drop aadlen src)"]
  have "take len (drop aadlen src) = drop aadlen src" "length (take aadlen src) = aadlen" "length (drop aadlen src) = len" using assms(2) by simp_all
  then show ?thesis using h m unfolding cp_streams_def by simp
qed

lemma poly_key_length: "cp_same ctx ctx \<Longrightarrow> length (cp_poly_key ctx seqnr) = 32"
  unfolding cp_poly_key_def iv_crypt(1) [OF cp_same_lengths(1)] POLY1305_KEYLEN_def by simp

lemma tag_length: "length (poly1305_auth m key) = 16"
  by (simp add: poly1305_auth_def donna_tag_def Let_def split: prod.split)

lemma chachapoly_encrypts:
  assumes "cp_same cs cs" and "aadlen + len = length p" and "chachapoly_crypt cs seqnr p len aadlen True = (Inr ct, cs')"
  shows "ct = cp_streams cs seqnr p len aadlen @ poly1305_auth (cp_streams cs seqnr p len aadlen) (cp_poly_key cs seqnr)"
    and "length ct = aadlen + len + POLY1305_TAGLEN" and "cp_same cs' cs"
proof -
  show ct: "ct = cp_streams cs seqnr p len aadlen @ poly1305_auth (cp_streams cs seqnr p len aadlen) (cp_poly_key cs seqnr)"
    using chachapoly_crypt_parts [OF assms(1), of seqnr p len aadlen True] unfolding assms(3) Let_def by simp
  show "length ct = aadlen + len + POLY1305_TAGLEN"
    unfolding ct length_append tag_length POLY1305_TAGLEN_def using cp_streams_length [OF assms(1)] assms(2) by simp
  show "cp_same cs' cs" using chachapoly_crypt_keeps [OF assms(1), of seqnr p len aadlen True] unfolding assms(3) by simp
qed

lemma chachapoly_decrypts:
  assumes s: "cp_same cs cr" and p: "aadlen + len = length p" and enc: "chachapoly_crypt cs seqnr p len aadlen True = (Inr ct, cs')"
  shows "\<exists>cr'. chachapoly_crypt cr seqnr (ct @ rest) len aadlen False = (Inr p, cr') \<and> cp_same cs' cr'"
proof -
  note c = cp_same_refl [OF s]
  define d where "d = cp_streams cs seqnr p len aadlen"
  define tag where "tag = poly1305_auth d (cp_poly_key cs seqnr)"
  have ct: "ct = d @ tag" using chachapoly_encrypts(1) [OF c(1) p enc] by (simp add: d_def tag_def)
  have d: "length d = aadlen + len" unfolding d_def using cp_streams_length [OF c(1)] p by simp
  have t: "length tag = 16" by (simp add: tag_def tag_length)
  have i: "cp_streams cr seqnr (d @ tag @ rest) len aadlen = p"
    using cp_streams_involution [OF c(1) p, of seqnr "tag @ rest"] unfolding cp_same_parts(2) [OF s, symmetric] d_def by simp
  have k: "poly1305_auth d (cp_poly_key cr seqnr) = tag" unfolding cp_same_parts(1) [OF s, symmetric] tag_def by simp
  have f: "fst (chachapoly_crypt cr seqnr (ct @ rest) len aadlen False) = Inr p"
    unfolding chachapoly_crypt_parts [OF c(2)] Let_def ct using d t i k by (simp add: timingsafe_bcmp_iff POLY1305_TAGLEN_def)
  have "cp_same (snd (chachapoly_crypt cr seqnr (ct @ rest) len aadlen False)) cr" by (rule chachapoly_crypt_keeps [OF c(2)])
  then have "cp_same cs' (snd (chachapoly_crypt cr seqnr (ct @ rest) len aadlen False))"
    using cp_same_trans [OF chachapoly_encrypts(3) [OF c(1) p enc] cp_same_trans [OF s cp_same_sym]] by simp
  then show ?thesis using f by (intro exI [of _ "snd (chachapoly_crypt cr seqnr (ct @ rest) len aadlen False)"]) (simp add: prod_eq_iff)
qed

text \<open>The length of a packet is read before the rest of it has arrived.\<close>

lemma chachapoly_length:
  assumes s: "cp_same cs cr" and p: "4 + len = length p" and enc: "chachapoly_crypt cs seqnr p len 4 True = (Inr ct, cs')" and n: "4 \<le> n"
  shows "fst (chachapoly_get_length cr seqnr (take n ct)) = Inr (PEEK_U32 (take 4 p))"
proof -
  note c = cp_same_refl [OF s]
  have h: "chacha_ivsetup (header_ctx cr) iv x = chacha_ivsetup (header_ctx cs) iv x" for iv x
    using cp_same_sym [OF s] unfolding cp_same_def by (blast intro: ivsetup_same_key)
  note i = iv_crypt [OF cp_same_lengths(2) [OF c(1)], of "POKE_U64 (ucast seqnr)" None "take 4 p"]
  have "take 4 ct = fst (chacha_encrypt_bytes (chacha_ivsetup (header_ctx cs) (POKE_U64 (ucast seqnr)) None) (take 4 p))"
    using i(1) p unfolding chachapoly_encrypts(1) [OF c(1) p enc] cp_streams_def by simp
  then have "take 4 (take n ct) = fst (chacha_encrypt_bytes (chacha_ivsetup (header_ctx cs) (POKE_U64 (ucast seqnr)) None) (take 4 p))" using n by (simp add: min_absorb1)
  moreover have "4 \<le> length ct" using chachapoly_encrypts(2) [OF c(1) p enc] by simp
  ultimately show ?thesis using i(2) n unfolding chachapoly_get_length_def Let_def h by (simp add: case_prod_unfold)
qed

text \<open>Decryption accepts only what carries the right tag; nothing is decrypted otherwise.\<close>

lemma chachapoly_accepts:
  assumes "cp_same ctx ctx" and "aadlen + len + POLY1305_TAGLEN \<le> length src"
  shows "fst (chachapoly_crypt ctx seqnr src len aadlen False) =
    (if take POLY1305_TAGLEN (drop (aadlen + len) src) = poly1305_auth (take (aadlen + len) src) (cp_poly_key ctx seqnr)
     then Inr (cp_streams ctx seqnr src len aadlen) else Inl SSH_ERR_MAC_INVALID)"
proof -
  have "length (take POLY1305_TAGLEN (drop (aadlen + len) src)) = 16" using assms(2) by (simp add: POLY1305_TAGLEN_def)
  then show ?thesis
    using chachapoly_crypt_parts [OF assms(1), of seqnr src len aadlen False] by (auto simp: Let_def timingsafe_bcmp_iff tag_length)
qed

text \<open>Two contexts made from the same key agree.\<close>

lemma chachapoly_new_same:
  assumes "chachapoly_new mem key keylen = Some cs"
  shows "cp_same cs cs" and "keylen = 64" and "chachapoly_new mem' key keylen = Some cr \<Longrightarrow> cr = cs"
  using assms by (auto simp: chachapoly_new_def cp_same_def same_key_def split: if_splits)

text \<open>
  C9. The sender and the receiver, each with a context made from the same key: what the receiver gets for a packet the sender encrypted, whatever
  follows it in the input, is the packet; its length can be read from the first four bytes alone; and in a received packet any other tag is refused
  as a MAC error, with no plain text returned.
\<close>

theorem chachapoly_roundtrip:
  assumes "chachapoly_new mem key keylen = Some cs" and "chachapoly_new mem' key keylen = Some cr" and "4 + len = length p"
  shows "\<exists>ct cs' cr'. chachapoly_crypt cs seqnr p len 4 True = (Inr ct, cs') \<and> length ct = length p + POLY1305_TAGLEN \<and>
      chachapoly_crypt cr seqnr (ct @ rest) len 4 False = (Inr p, cr') \<and>
      fst (chachapoly_get_length cr seqnr (take 4 ct)) = Inr (PEEK_U32 (take 4 p)) \<and>
      (\<forall>tag. length tag = POLY1305_TAGLEN \<and> tag \<noteq> drop (length p) ct \<longrightarrow>
         fst (chachapoly_crypt cr seqnr (take (length p) ct @ tag @ rest) len 4 False) = Inl SSH_ERR_MAC_INVALID)"
proof -
  have s: "cp_same cs cr" "cp_same cr cr" using chachapoly_new_same [OF assms(1)] assms(2) by auto
  obtain ct cs' where enc: "chachapoly_crypt cs seqnr p len 4 True = (Inr ct, cs')"
    using chachapoly_crypt_parts [OF cp_same_refl(1) [OF s(1)], of seqnr p len 4 True] by (metis (full_types) prod.collapse)
  note e = chachapoly_encrypts [OF cp_same_refl(1) [OF s(1)] assms(3) enc]
  have l: "length (cp_streams cs seqnr p len 4) = length p" using cp_streams_length [OF cp_same_refl(1) [OF s(1)]] assms(3) by simp
  have "fst (chachapoly_crypt cr seqnr (take (length p) ct @ tag @ rest) len 4 False) = Inl SSH_ERR_MAC_INVALID"
    if t: "length tag = POLY1305_TAGLEN" "tag \<noteq> drop (length p) ct" for tag
  proof -
    have "take (length p) ct = cp_streams cs seqnr p len 4" "drop (length p) ct = poly1305_auth (cp_streams cs seqnr p len 4) (cp_poly_key cr seqnr)"
      unfolding e(1) cp_same_parts(1) [OF s(1)] using l by simp_all
    then show ?thesis using chachapoly_accepts [OF s(2), of 4 len "take (length p) ct @ tag @ rest" seqnr] t l assms(3) by simp
  qed
  then show ?thesis using enc e(2) chachapoly_decrypts [OF s(1) assms(3) enc, of rest] chachapoly_length [OF s(1) assms(3) enc, of 4] assms(3) by auto
qed

theorem chachapoly_roundtrip_witness:
  "\<exists>cs cr ct cs' cr'. chachapoly_new True (replicate 64 7) 64 = Some cs \<and> chachapoly_new True (replicate 64 7) 64 = Some cr \<and>
     chachapoly_crypt cs 3 (replicate 12 1) 8 4 True = (Inr ct, cs') \<and> length ct = 28 \<and>
     chachapoly_crypt cr 3 (ct @ [9]) 8 4 False = (Inr (replicate 12 1), cr')"
proof -
  obtain cs where c: "chachapoly_new True (replicate 64 7) 64 = Some cs" by (simp add: chachapoly_new_def)
  show ?thesis
    using chachapoly_roundtrip [OF c c, of 8 "replicate 12 1" 3 "[9]"] c by (auto simp: POLY1305_TAGLEN_def)
qed

end
