(* ===== verification/Aesctr.thy ===== *)
theory Aesctr
  imports Stream_Cipher Rijndael
begin

text \<open>
  AES in counter mode (\<^verbatim>\<open>cipher-aesctr.c\<close>), over the block cipher of \<^verbatim>\<open>rijndael.c\<close>.
\<close>

subsection \<open>The code\<close>

definition AES_BLOCK_SIZE :: nat where "AES_BLOCK_SIZE = 16"

record aesctr_ctx =
  ac_rounds :: nat
  ac_ek :: "u32 list"
  ac_ctr :: "u8 list"

text \<open>The counter is big-endian: the loop runs from the last byte.\<close>

fun inc_from_end :: "u8 list \<Rightarrow> u8 list" where
  "inc_from_end [] = []"
| "inc_from_end (b # bs) = (if b + 1 \<noteq> 0 then (b + 1) # bs else 0 # inc_from_end bs)"

definition aesctr_inc :: "u8 list \<Rightarrow> u8 list" where
  "aesctr_inc ctr = rev (inc_from_end (rev ctr))"

definition aesctr_keysetup :: "aesctr_ctx \<Rightarrow> u8 list \<Rightarrow> nat \<Rightarrow> aesctr_ctx" where
  "aesctr_keysetup x k kbits = (case rijndaelKeySetupEnc (ac_ek x) k kbits of (ek, rounds) \<Rightarrow> x\<lparr>ac_ek := ek, ac_rounds := rounds\<rparr>)"

definition aesctr_ivsetup :: "aesctr_ctx \<Rightarrow> u8 list \<Rightarrow> aesctr_ctx" where
  "aesctr_ivsetup x iv = x\<lparr>ac_ctr := take AES_BLOCK_SIZE iv\<rparr>"

definition ctr_block :: "aesctr_ctx \<Rightarrow> u8 list" where
  "ctr_block x = rijndaelEncrypt (ac_ek x) (ac_rounds x) (ac_ctr x)"

definition ctr_next :: "aesctr_ctx \<Rightarrow> aesctr_ctx" where
  "ctr_next x = x\<lparr>ac_ctr := aesctr_inc (ac_ctr x)\<rparr>"

text \<open>The loop over the bytes; \<open>n\<close> is the place in the block \<open>buf\<close>.\<close>

fun ctr_loop :: "aesctr_ctx \<Rightarrow> nat \<Rightarrow> u8 list \<Rightarrow> u8 list \<Rightarrow> u8 list \<times> aesctr_ctx" where
  "ctr_loop x n buf [] = ([], x)"
| "ctr_loop x n buf (b # m) =
     (let (buf, x) = (if n = 0 then (ctr_block x, ctr_next x) else (buf, x));
          (c, x') = ctr_loop x ((n + 1) mod AES_BLOCK_SIZE) buf m
      in ((b XOR buf ! n) # c, x'))"

definition aesctr_encrypt_bytes :: "aesctr_ctx \<Rightarrow> u8 list \<Rightarrow> u8 list \<times> aesctr_ctx" where
  "aesctr_encrypt_bytes x m = ctr_loop x 0 [] m"

subsection \<open>A stream cipher\<close>

fun ctr_stream :: "aesctr_ctx \<Rightarrow> nat \<Rightarrow> u8 list \<Rightarrow> nat \<Rightarrow> u8 list" where
  "ctr_stream x n buf 0 = []"
| "ctr_stream x n buf (Suc k) =
     (let (buf, x) = (if n = 0 then (ctr_block x, ctr_next x) else (buf, x))
      in buf ! n # ctr_stream x ((n + 1) mod AES_BLOCK_SIZE) buf k)"

lemma ctr_loop_stream: "fst (ctr_loop x n buf m) = xors m (ctr_stream x n buf (length m))"
  by (induction x n buf m rule: ctr_loop.induct) (auto simp: Let_def case_prod_unfold)

lemma ctr_loop_state: "length m = length m' \<Longrightarrow> snd (ctr_loop x n buf m) = snd (ctr_loop x n buf m')"
  by (induction m m' arbitrary: x n buf rule: list_induct2) (auto simp: Let_def case_prod_unfold)

lemma length_ctr_stream [simp]: "length (ctr_stream x n buf k) = k"
  by (induction x n buf k rule: ctr_stream.induct) (auto simp: Let_def case_prod_unfold)

text \<open>At the beginning of a block the old block does not matter.\<close>

lemma ctr_loop_start: "ctr_loop x 0 buf m = ctr_loop x 0 [] m"
  by (cases m) simp_all

lemma ctr_loop_append:
  "n < 16 \<Longrightarrow> (n + length a) mod 16 = 0 \<Longrightarrow>
   ctr_loop x n buf (a @ b) = (fst (ctr_loop x n buf a) @ fst (ctr_loop (snd (ctr_loop x n buf a)) 0 [] b), snd (ctr_loop (snd (ctr_loop x n buf a)) 0 [] b))"
proof (induction a arbitrary: x n buf)
  case Nil
  then have "n = 0" by simp
  then show ?case using ctr_loop_start [of x buf b] by simp
next
  case (Cons c a)
  have "(n + 1) mod 16 < 16" "((n + 1) mod 16 + length a) mod 16 = 0" using Cons.prems by (simp_all add: mod_simps)
  from Cons.IH [OF this] show ?case by (simp add: Let_def case_prod_unfold AES_BLOCK_SIZE_def)
qed

interpretation aesctr: block_stream aesctr_encrypt_bytes "\<lambda>x. True" "\<lambda>x. ctr_stream x 0 []" 16
proof
  fix x :: aesctr_ctx and m m' a b :: "u8 list" and n
  show "fst (aesctr_encrypt_bytes x m) = xors m (ctr_stream x 0 [] (length m))"
    unfolding aesctr_encrypt_bytes_def by (rule ctr_loop_stream)
  show "n \<le> length (ctr_stream x 0 [] n)" by simp
  show "length m = length m' \<Longrightarrow> snd (aesctr_encrypt_bytes x m) = snd (aesctr_encrypt_bytes x m')"
    unfolding aesctr_encrypt_bytes_def by (rule ctr_loop_state)
  show "16 dvd length a \<Longrightarrow> aesctr_encrypt_bytes x (a @ b) = (fst (aesctr_encrypt_bytes x a) @ fst (aesctr_encrypt_bytes (snd (aesctr_encrypt_bytes x a)) b),
      snd (aesctr_encrypt_bytes (snd (aesctr_encrypt_bytes x a)) b))"
    unfolding aesctr_encrypt_bytes_def using ctr_loop_append [of 0 a x "[]" b] by (simp add: dvd_eq_mod_eq_0)
qed simp_all

end
