(* ===== verification/Cipher.thy ===== *)
theory Cipher
  imports Chachapoly Aesctr Cstring
begin

text \<open>
  The ciphers of the transport (\<^verbatim>\<open>cipher.c\<close>) in the build of the repository, which is configured without OpenSSL: AES in counter mode,
  ChaCha20 with Poly1305, and no encryption. \<open>transport_cipher\<close> is what the packet layer relies on.
\<close>

subsection \<open>The table\<close>

definition CFLAG_CBC :: u32 where "CFLAG_CBC = push_bit 0 1"
definition CFLAG_CHACHAPOLY :: u32 where "CFLAG_CHACHAPOLY = push_bit 1 1"
definition CFLAG_AESCTR :: u32 where "CFLAG_AESCTR = push_bit 2 1"
definition CFLAG_NONE :: u32 where "CFLAG_NONE = push_bit 3 1"
definition CFLAG_INTERNAL :: u32 where "CFLAG_INTERNAL = CFLAG_NONE"

record sshcipher =
  ci_name :: string
  ci_block_size :: nat
  ci_key_len :: nat
  ci_iv_len :: nat
  ci_auth_len :: nat
  ci_flags :: u32

definition ciphers :: "sshcipher list" where
  "ciphers =
     [\<lparr>ci_name = ''aes128-ctr'', ci_block_size = 16, ci_key_len = 16, ci_iv_len = 0, ci_auth_len = 0, ci_flags = CFLAG_AESCTR\<rparr>,
      \<lparr>ci_name = ''aes192-ctr'', ci_block_size = 16, ci_key_len = 24, ci_iv_len = 0, ci_auth_len = 0, ci_flags = CFLAG_AESCTR\<rparr>,
      \<lparr>ci_name = ''aes256-ctr'', ci_block_size = 16, ci_key_len = 32, ci_iv_len = 0, ci_auth_len = 0, ci_flags = CFLAG_AESCTR\<rparr>,
      \<lparr>ci_name = ''chacha20-poly1305@openssh.com'', ci_block_size = 8, ci_key_len = 64, ci_iv_len = 0, ci_auth_len = 16, ci_flags = CFLAG_CHACHAPOLY\<rparr>,
      \<lparr>ci_name = ''none'', ci_block_size = 8, ci_key_len = 0, ci_iv_len = 0, ci_auth_len = 0, ci_flags = CFLAG_NONE\<rparr>]"

definition cipher_blocksize :: "sshcipher \<Rightarrow> nat" where "cipher_blocksize c = ci_block_size c"
definition cipher_keylen :: "sshcipher \<Rightarrow> nat" where "cipher_keylen c = ci_key_len c"
definition cipher_seclen :: "sshcipher \<Rightarrow> nat" where
  "cipher_seclen c = (if ci_name c = ''3des-cbc'' then 14 else cipher_keylen c)"
definition cipher_authlen :: "sshcipher \<Rightarrow> nat" where "cipher_authlen c = ci_auth_len c"
definition cipher_ivlen :: "sshcipher \<Rightarrow> nat" where
  "cipher_ivlen c = (if ci_iv_len c \<noteq> 0 \<or> ci_flags c AND CFLAG_CHACHAPOLY \<noteq> 0 then ci_iv_len c else ci_block_size c)"
definition cipher_is_cbc :: "sshcipher \<Rightarrow> bool" where "cipher_is_cbc c \<longleftrightarrow> ci_flags c AND CFLAG_CBC \<noteq> 0"

definition cipher_by_name :: "string \<Rightarrow> sshcipher option" where
  "cipher_by_name name = find (\<lambda>c. ci_name c = name) ciphers"

text \<open>The list of names; \<open>mem\<close> tells which reallocations succeed.\<close>

fun alg_list :: "(nat \<Rightarrow> bool) \<Rightarrow> char \<Rightarrow> string option \<Rightarrow> string list \<Rightarrow> string option" where
  "alg_list mem sep acc [] = acc"
| "alg_list mem sep acc (n # ns) =
     (if \<not> mem (length ns) then None
      else alg_list mem sep (Some (case acc of None \<Rightarrow> n | Some r \<Rightarrow> r @ [sep] @ n)) ns)"

definition cipher_alg_list :: "(nat \<Rightarrow> bool) \<Rightarrow> char \<Rightarrow> bool \<Rightarrow> string option" where
  "cipher_alg_list mem sep auth_only =
     alg_list mem sep None (map ci_name (filter (\<lambda>c. ci_flags c AND CFLAG_INTERNAL = 0 \<and> \<not> (auth_only \<and> ci_auth_len c = 0)) ciphers))"

definition compression_alg_list :: "bool \<Rightarrow> string" where
  "compression_alg_list compression = (if compression then ''zlib@openssh.com,zlib,none'' else ''none,zlib@openssh.com,zlib'')"

text \<open>The loop over the fields of a list of names ends at the first empty field.\<close>

function valid_fields :: "(string \<Rightarrow> bool) \<Rightarrow> string option \<Rightarrow> bool" where
  "valid_fields known cp =
     (case strsep '','' cp of
        (None, _) \<Rightarrow> True
      | (Some p, cp') \<Rightarrow> if p = [] then True else if \<not> known p then False else valid_fields known cp')"
  by pat_completeness auto
termination
proof (relation "measure (\<lambda>(_, cp). case cp of None \<Rightarrow> 0 | Some s \<Rightarrow> Suc (length s))")
  fix known cp x y y' assume a: "(x, y) = strsep '','' cp" "x = Some y'"
  show "((known, y), known, cp) \<in> measure (\<lambda>(_, cp). case cp of None \<Rightarrow> 0 | Some s \<Rightarrow> Suc (length s))"
    using a by (cases cp; cases y) (auto dest: strsep_shorter [OF sym])
qed auto

declare valid_fields.simps [simp del]

definition ciphers_valid :: "bool \<Rightarrow> string option \<Rightarrow> bool" where
  "ciphers_valid mem names =
     (case names of
        None \<Rightarrow> False
      | Some s \<Rightarrow> if s = [] then False else if \<not> mem then False
                  else valid_fields (\<lambda>p. case cipher_by_name p of None \<Rightarrow> False | Some c \<Rightarrow> ci_flags c AND CFLAG_INTERNAL = 0) (Some s))"

subsection \<open>Contexts\<close>

record sshcipher_ctx =
  cc_plaintext :: bool
  cc_encrypt :: bool
  cp_ctx :: "chachapoly_ctx option"
  ac_ctx :: aesctr_ctx
  cc_cipher :: sshcipher

definition zero_aesctr :: aesctr_ctx where
  "zero_aesctr = \<lparr>ac_rounds = 0, ac_ek = replicate 60 0, ac_ctr = replicate 16 0\<rparr>"

definition cipher_ctx_is_plaintext :: "sshcipher_ctx \<Rightarrow> bool" where
  "cipher_ctx_is_plaintext cc = cc_plaintext cc"

text \<open>
  \<open>mem\<close> tells which allocations succeed. Counter mode needs an initial vector; without one the code would copy from a null pointer, and the model gives
  an error.
\<close>

definition cipher_init :: "(nat \<Rightarrow> bool) \<Rightarrow> sshcipher \<Rightarrow> u8 list \<Rightarrow> nat \<Rightarrow> u8 list option \<Rightarrow> nat \<Rightarrow> bool \<Rightarrow> ssherr + sshcipher_ctx" where
  "cipher_init mem cipher key keylen iv ivlen do_encrypt =
     (if \<not> mem 0 then Inl SSH_ERR_ALLOC_FAIL
      else
        let cc = \<lparr>cc_plaintext = (ci_flags cipher AND CFLAG_NONE \<noteq> 0), cc_encrypt = do_encrypt, cp_ctx = None, ac_ctx = zero_aesctr, cc_cipher = cipher\<rparr> in
        if keylen < ci_key_len cipher \<or> (iv \<noteq> None \<and> ivlen < cipher_ivlen cipher) then Inl SSH_ERR_INVALID_ARGUMENT
        else if ci_flags cipher AND CFLAG_CHACHAPOLY \<noteq> 0
        then (case chachapoly_new (mem 1) key keylen of None \<Rightarrow> Inl SSH_ERR_INVALID_ARGUMENT | Some cp \<Rightarrow> Inr (cc\<lparr>cp_ctx := Some cp\<rparr>))
        else if ci_flags cipher AND CFLAG_NONE \<noteq> 0 then Inr cc
        else if ci_flags cipher AND CFLAG_AESCTR \<noteq> 0
        then (case iv of None \<Rightarrow> Inl SSH_ERR_INVALID_ARGUMENT | Some iv \<Rightarrow> Inr (cc\<lparr>ac_ctx := aesctr_ivsetup (aesctr_keysetup (ac_ctx cc) key (8 * keylen)) iv\<rparr>))
        else Inl SSH_ERR_INVALID_ARGUMENT)"

text \<open>
  \<open>src\<close> is the input from the pointer on; the result is what is stored behind the pointer \<^verbatim>\<open>dest\<close>.
\<close>

definition cipher_crypt :: "sshcipher_ctx \<Rightarrow> u32 \<Rightarrow> u8 list \<Rightarrow> nat \<Rightarrow> nat \<Rightarrow> nat \<Rightarrow> (ssherr + u8 list) \<times> sshcipher_ctx" where
  "cipher_crypt cc seqnr src len aadlen authlen =
     (if ci_flags (cc_cipher cc) AND CFLAG_CHACHAPOLY \<noteq> 0
      then (case chachapoly_crypt (the (cp_ctx cc)) seqnr src len aadlen (cc_encrypt cc) of (r, cp) \<Rightarrow> (r, cc\<lparr>cp_ctx := Some cp\<rparr>))
      else if ci_flags (cc_cipher cc) AND CFLAG_NONE \<noteq> 0 then (Inr (take (aadlen + len) src), cc)
      else if ci_flags (cc_cipher cc) AND CFLAG_AESCTR \<noteq> 0
      then (case aesctr_encrypt_bytes (ac_ctx cc) (take len (drop aadlen src)) of (c, ac) \<Rightarrow> (Inr (take aadlen src @ c), cc\<lparr>ac_ctx := ac\<rparr>))
      else (Inl SSH_ERR_INVALID_ARGUMENT, cc))"

definition cipher_get_length :: "sshcipher_ctx \<Rightarrow> u32 \<Rightarrow> u8 list \<Rightarrow> (ssherr + u32) \<times> sshcipher_ctx" where
  "cipher_get_length cc seqnr cp =
     (if ci_flags (cc_cipher cc) AND CFLAG_CHACHAPOLY \<noteq> 0
      then (case chachapoly_get_length (the (cp_ctx cc)) seqnr cp of (r, c) \<Rightarrow> (r, cc\<lparr>cp_ctx := Some c\<rparr>))
      else if length cp < 4 then (Inl SSH_ERR_MESSAGE_INCOMPLETE, cc)
      else (Inr (PEEK_U32 cp), cc))"

text \<open>The initial vector, as the unprivileged process exports it.\<close>

definition cipher_get_keyiv_len :: "sshcipher_ctx \<Rightarrow> nat" where
  "cipher_get_keyiv_len cc =
     (if ci_flags (cc_cipher cc) AND CFLAG_CHACHAPOLY \<noteq> 0 then 0
      else if ci_flags (cc_cipher cc) AND CFLAG_AESCTR \<noteq> 0 then AES_BLOCK_SIZE
      else 0)"

definition cipher_get_keyiv :: "sshcipher_ctx \<Rightarrow> nat \<Rightarrow> ssherr + u8 list" where
  "cipher_get_keyiv cc len =
     (if ci_flags (cc_cipher cc) AND CFLAG_CHACHAPOLY \<noteq> 0 then (if len \<noteq> 0 then Inl SSH_ERR_INVALID_ARGUMENT else Inr [])
      else if ci_flags (cc_cipher cc) AND CFLAG_AESCTR \<noteq> 0
      then (if len \<noteq> AES_BLOCK_SIZE then Inl SSH_ERR_INVALID_ARGUMENT else Inr (take len (ac_ctr (ac_ctx cc))))
      else Inr [])"

definition cipher_set_keyiv :: "sshcipher_ctx \<Rightarrow> u8 list \<Rightarrow> (ssherr + unit) \<times> sshcipher_ctx" where
  "cipher_set_keyiv cc iv = (Inr (), cc)"

subsection \<open>What the packet layer relies on\<close>

text \<open>
  The contexts of a sender and a receiver are in step: what the sender encrypts the receiver decrypts, at once or, for
  ciphers without a tag, the first blocks ahead of the rest; afterwards they are in step again. The length of a packet can be
  read ahead of it.
\<close>

locale transport_cipher =
  fixes crypt :: "'c \<Rightarrow> u32 \<Rightarrow> u8 list \<Rightarrow> nat \<Rightarrow> nat \<Rightarrow> nat \<Rightarrow> (ssherr + u8 list) \<times> 'c"
    and getlen :: "'c \<Rightarrow> u32 \<Rightarrow> u8 list \<Rightarrow> (ssherr + u32) \<times> 'c"
    and sync :: "'c \<Rightarrow> 'c \<Rightarrow> bool" and block :: "'c \<Rightarrow> nat" and auth :: "'c \<Rightarrow> nat"
  assumes encrypts: "sync s r \<Longrightarrow> aad + len = length p \<Longrightarrow> \<exists>ct s'. crypt s q p len aad (auth s) = (Inr ct, s') \<and> length ct = length p + auth s"
    and decrypts: "sync s r \<Longrightarrow> aad + len = length p \<Longrightarrow> crypt s q p len aad (auth s) = (Inr ct, s') \<Longrightarrow>
      \<exists>r'. crypt r q (ct @ rest) len aad (auth s) = (Inr p, r') \<and> sync s' r'"
    and decrypts_ahead: "sync s r \<Longrightarrow> auth s = 0 \<Longrightarrow> crypt s q p (length p) 0 0 = (Inr ct, s') \<Longrightarrow> block s dvd n \<Longrightarrow> n \<le> length p \<Longrightarrow>
      \<exists>r1 r2. crypt r q' (ct @ rest) n 0 0 = (Inr (take n p), r1) \<and> crypt r1 q (drop n ct @ rest) (length p - n) 0 0 = (Inr (drop n p), r2) \<and> sync s' r2"
    and reads_length: "sync s r \<Longrightarrow> 4 + len = length p \<Longrightarrow> crypt s q p len 4 (auth s) = (Inr ct, s') \<Longrightarrow> 4 \<le> n \<Longrightarrow>
      \<exists>r'. getlen r q (take n ct @ rest) = (Inr (PEEK_U32 p), r') \<and> sync s r'"
begin

text \<open>Reading the length first does not disturb the decryption.\<close>

lemma decrypts_after_length:
  assumes "sync s r" and "4 + len = length p" and "crypt s q p len 4 (auth s) = (Inr ct, s')"
  shows "\<exists>r1 r2. getlen r q (ct @ rest) = (Inr (PEEK_U32 p), r1) \<and> crypt r1 q (ct @ rest) len 4 (auth s) = (Inr p, r2) \<and> sync s' r2"
proof -
  have "4 \<le> length ct" using encrypts [OF assms(1, 2), of q] assms(2, 3) by auto
  then obtain r1 where r1: "getlen r q (ct @ rest) = (Inr (PEEK_U32 p), r1)" "sync s r1"
    using reads_length [OF assms, of "length ct" rest] by auto
  then show ?thesis using decrypts [OF r1(2) assms(2, 3), of rest] by auto
qed

end

subsection \<open>The ciphers of the table\<close>

lemma cipher_flags:
  "CFLAG_CHACHAPOLY \<noteq> 0" "CFLAG_NONE AND CFLAG_CHACHAPOLY = 0" "CFLAG_AESCTR AND CFLAG_CHACHAPOLY = 0" "CFLAG_AESCTR AND CFLAG_NONE = 0" "CFLAG_NONE \<noteq> 0" "CFLAG_AESCTR \<noteq> 0"
  "CFLAG_CHACHAPOLY AND CFLAG_NONE = 0" "CFLAG_CHACHAPOLY AND CFLAG_CBC = 0" "CFLAG_NONE AND CFLAG_CBC = 0" "CFLAG_AESCTR AND CFLAG_CBC = 0"
  by (simp_all add: CFLAG_CHACHAPOLY_def CFLAG_NONE_def CFLAG_AESCTR_def CFLAG_CBC_def)

lemma cipher_in_table:
  assumes "c \<in> set ciphers"
  shows "(ci_flags c = CFLAG_AESCTR \<and> ci_block_size c = 16 \<and> ci_auth_len c = 0) \<or> (ci_flags c = CFLAG_CHACHAPOLY \<and> ci_block_size c = 8 \<and> ci_auth_len c = 16) \<or>
    (ci_flags c = CFLAG_NONE \<and> ci_block_size c = 8 \<and> ci_auth_len c = 0)"
  using assms by (auto simp: ciphers_def)

definition cc_sync :: "sshcipher_ctx \<Rightarrow> sshcipher_ctx \<Rightarrow> bool" where
  "cc_sync s r \<longleftrightarrow> cc_cipher s \<in> set ciphers \<and> cc_cipher r = cc_cipher s \<and> cc_encrypt s \<and> \<not> cc_encrypt r \<and>
     (ci_flags (cc_cipher s) = CFLAG_CHACHAPOLY \<longrightarrow> (\<exists>a b. cp_ctx s = Some a \<and> cp_ctx r = Some b \<and> cp_same a b)) \<and>
     (ci_flags (cc_cipher s) = CFLAG_AESCTR \<longrightarrow> ac_ctx r = ac_ctx s)"

lemma cc_sync_cases [consumes 1, case_names chacha aes plain]:
  assumes "cc_sync s r"
  obtains a b where "ci_flags (cc_cipher s) = CFLAG_CHACHAPOLY" "cp_ctx s = Some a" "cp_ctx r = Some b" "cp_same a b" "ci_auth_len (cc_cipher s) = 16"
  | "ci_flags (cc_cipher s) = CFLAG_AESCTR" "ac_ctx r = ac_ctx s" "ci_block_size (cc_cipher s) = 16" "ci_auth_len (cc_cipher s) = 0"
  | "ci_flags (cc_cipher s) = CFLAG_NONE" "ci_auth_len (cc_cipher s) = 0"
proof -
  have t: "cc_cipher s \<in> set ciphers" using assms by (simp add: cc_sync_def)
  show ?thesis using cipher_in_table [OF t] assms that unfolding cc_sync_def by blast
qed

lemma cipher_crypt_chacha:
  "ci_flags (cc_cipher cc) = CFLAG_CHACHAPOLY \<Longrightarrow> cp_ctx cc = Some a \<Longrightarrow>
   cipher_crypt cc q p len aad auth = (fst (chachapoly_crypt a q p len aad (cc_encrypt cc)), cc\<lparr>cp_ctx := Some (snd (chachapoly_crypt a q p len aad (cc_encrypt cc)))\<rparr>)"
  by (simp add: cipher_crypt_def cipher_flags case_prod_unfold)

lemma cipher_crypt_aes:
  "ci_flags (cc_cipher cc) = CFLAG_AESCTR \<Longrightarrow>
   cipher_crypt cc q p len aad auth = (Inr (take aad p @ fst (aesctr_encrypt_bytes (ac_ctx cc) (take len (drop aad p)))), cc\<lparr>ac_ctx := snd (aesctr_encrypt_bytes (ac_ctx cc) (take len (drop aad p)))\<rparr>)"
  by (simp add: cipher_crypt_def cipher_flags case_prod_unfold)

lemma cipher_crypt_none:
  "ci_flags (cc_cipher cc) = CFLAG_NONE \<Longrightarrow> cipher_crypt cc q p len aad auth = (Inr (take (aad + len) p), cc)"
  by (simp add: cipher_crypt_def cipher_flags)

lemma get_length_take: "4 \<le> length x \<Longrightarrow> chachapoly_get_length c q x = chachapoly_get_length c q (take 4 x)"
  by (simp add: chachapoly_get_length_def)

lemma cc_encrypts:
  assumes "cc_sync s r" and p: "aad + len = length p"
  shows "\<exists>ct s'. cipher_crypt s q p len aad (cipher_authlen (cc_cipher s)) = (Inr ct, s') \<and> length ct = length p + cipher_authlen (cc_cipher s)"
  using assms(1)
proof (cases rule: cc_sync_cases)
  case (chacha a b)
  have e: "cc_encrypt s" using assms(1) by (simp add: cc_sync_def)
  note c = cp_same_refl(1) [OF chacha(4)]
  obtain ct a' where x: "chachapoly_crypt a q p len aad True = (Inr ct, a')"
    using chachapoly_crypt_parts [OF c, of q p len aad True] by (metis (full_types) prod.collapse)
  then show ?thesis
    using chachapoly_encrypts(2) [OF c p x] p chacha(5) by (simp add: cipher_crypt_chacha [OF chacha(1, 2)] e cipher_authlen_def POLY1305_TAGLEN_def)
next
  case aes
  then show ?thesis using p aesctr.crypt_length [of "ac_ctx s" "drop aad p"] by (simp add: cipher_crypt_aes cipher_authlen_def)
next
  case plain
  then show ?thesis using p by (simp add: cipher_crypt_none cipher_authlen_def)
qed

lemma cc_decrypts:
  assumes "cc_sync s r" and p: "aad + len = length p" and enc: "cipher_crypt s q p len aad (cipher_authlen (cc_cipher s)) = (Inr ct, s')"
  shows "\<exists>r'. cipher_crypt r q (ct @ rest) len aad (cipher_authlen (cc_cipher s)) = (Inr p, r') \<and> cc_sync s' r'"
proof -
  have e: "cc_encrypt s" "\<not> cc_encrypt r" "cc_cipher r = cc_cipher s" using assms(1) by (simp_all add: cc_sync_def)
  from assms(1) show ?thesis
  proof (cases rule: cc_sync_cases)
    case (chacha a b)
    then obtain a' where x: "chachapoly_crypt a q p len aad True = (Inr ct, a')" "s' = s\<lparr>cp_ctx := Some a'\<rparr>"
      using enc by (auto simp: cipher_crypt_chacha [OF chacha(1, 2)] e prod_eq_iff)
    obtain b' where "chachapoly_crypt b q (ct @ rest) len aad False = (Inr p, b')" "cp_same a' b'"
      using chachapoly_decrypts [OF chacha(4) p x(1), of rest] by blast
    moreover have "ci_flags (cc_cipher r) = CFLAG_CHACHAPOLY" by (simp add: e chacha(1))
    ultimately have "cipher_crypt r q (ct @ rest) len aad (cipher_authlen (cc_cipher s)) = (Inr p, r\<lparr>cp_ctx := Some b'\<rparr>)"
      by (simp add: cipher_crypt_chacha [OF _ chacha(3)] e)
    moreover have "cc_sync s' (r\<lparr>cp_ctx := Some b'\<rparr>)"
      using assms(1) x(2) \<open>cp_same a' b'\<close> chacha(1) by (simp add: cc_sync_def)
    ultimately show ?thesis by blast
  next
    case aes
    have l: "length (fst (aesctr_encrypt_bytes (ac_ctx s) (drop aad p))) = len" using p aesctr.crypt_length [of "ac_ctx s" "drop aad p"] by simp
    have i: "aesctr_encrypt_bytes (ac_ctx s) (fst (aesctr_encrypt_bytes (ac_ctx s) (drop aad p))) = (drop aad p, snd (aesctr_encrypt_bytes (ac_ctx s) (drop aad p)))"
      by (rule aesctr.crypt_involution) simp
    have r: "ci_flags (cc_cipher r) = CFLAG_AESCTR" by (simp add: e aes(1))
    have s': "ct = take aad p @ fst (aesctr_encrypt_bytes (ac_ctx s) (drop aad p))" "s' = s\<lparr>ac_ctx := snd (aesctr_encrypt_bytes (ac_ctx s) (drop aad p))\<rparr>"
      using enc p by (simp_all add: cipher_crypt_aes [OF aes(1)])
    have "length (take aad p) = aad" using p by simp
    then have "cipher_crypt r q (ct @ rest) len aad (cipher_authlen (cc_cipher s)) = (Inr p, r\<lparr>ac_ctx := ac_ctx s'\<rparr>)"
      using l i by (simp add: cipher_crypt_aes [OF r] s' aes(2))
    moreover have "cc_sync s' (r\<lparr>ac_ctx := ac_ctx s'\<rparr>)" using assms(1) s'(2) aes(1) cipher_flags by (auto simp: cc_sync_def)
    ultimately show ?thesis by blast
  next
    case plain
    have r: "ci_flags (cc_cipher r) = CFLAG_NONE" by (simp add: e plain(1))
    show ?thesis using enc p assms(1) by (simp add: cipher_crypt_none [OF plain(1)] cipher_crypt_none [OF r])
  qed
qed

lemma cc_decrypts_ahead:
  assumes "cc_sync s r" and a: "cipher_authlen (cc_cipher s) = 0" and enc: "cipher_crypt s q p (length p) 0 0 = (Inr ct, s')"
    and n: "ci_block_size (cc_cipher s) dvd n" "n \<le> length p"
  shows "\<exists>r1 r2. cipher_crypt r q' (ct @ rest) n 0 0 = (Inr (take n p), r1) \<and>
    cipher_crypt r1 q (drop n ct @ rest) (length p - n) 0 0 = (Inr (drop n p), r2) \<and> cc_sync s' r2"
proof -
  have e: "cc_cipher r = cc_cipher s" using assms(1) by (simp add: cc_sync_def)
  from assms(1) show ?thesis
  proof (cases rule: cc_sync_cases)
    case (chacha a b)
    then show ?thesis using a by (simp add: cipher_authlen_def)
  next
    case aes
    have r: "ci_flags (cc_cipher r) = CFLAG_AESCTR" by (simp add: e aes(1))
    have s': "ct = fst (aesctr_encrypt_bytes (ac_ctx s) p)" "s' = s\<lparr>ac_ctx := snd (aesctr_encrypt_bytes (ac_ctx s) p)\<rparr>"
      using enc by (simp_all add: cipher_crypt_aes [OF aes(1)])
    have l: "length ct = length p" using aesctr.crypt_length [of "ac_ctx s" p] by (simp add: s')
    define x where "x = snd (aesctr_encrypt_bytes (ac_ctx s) (take n p))"
    have d: "aesctr_encrypt_bytes (ac_ctx s) (take n ct) = (take n p, x)" "aesctr_encrypt_bytes x (drop n ct) = (drop n p, ac_ctx s')"
      using aesctr.decrypt_in_parts [where x = "ac_ctx s" and n = n and m = p] n aes(3) by (simp_all add: s' x_def)
    have "cipher_crypt r q' (ct @ rest) n 0 0 = (Inr (take n p), r\<lparr>ac_ctx := x\<rparr>)" using d(1) l n(2) by (simp add: cipher_crypt_aes [OF r] aes(2))
    moreover have "cipher_crypt (r\<lparr>ac_ctx := x\<rparr>) q (drop n ct @ rest) (length p - n) 0 0 = (Inr (drop n p), r\<lparr>ac_ctx := ac_ctx s'\<rparr>)"
      using d(2) l r by (simp add: cipher_crypt_aes)
    moreover have "cc_sync s' (r\<lparr>ac_ctx := ac_ctx s'\<rparr>)" using assms(1) s'(2) aes(1) cipher_flags by (auto simp: cc_sync_def)
    ultimately show ?thesis by blast
  next
    case plain
    have r: "ci_flags (cc_cipher r) = CFLAG_NONE" by (simp add: e plain(1))
    show ?thesis using enc n(2) assms(1) by (auto simp: cipher_crypt_none [OF plain(1)] cipher_crypt_none [OF r])
  qed
qed

lemma cc_reads_length:
  assumes "cc_sync s r" and p: "4 + len = length p" and enc: "cipher_crypt s q p len 4 (cipher_authlen (cc_cipher s)) = (Inr ct, s')" and n: "4 \<le> n"
  shows "\<exists>r'. cipher_get_length r q (take n ct @ rest) = (Inr (PEEK_U32 p), r') \<and> cc_sync s r'"
proof -
  have e: "cc_cipher r = cc_cipher s" "cc_encrypt s" using assms(1) by (simp_all add: cc_sync_def)
  have l: "4 \<le> length ct" using cc_encrypts [OF assms(1) p, of q] p enc by auto
  then have t: "take 4 (take n ct @ rest) = take 4 ct" "4 \<le> length (take n ct @ rest)" using n by (simp_all add: min_absorb1)
  have pp: "PEEK_U32 (take 4 p) = PEEK_U32 p" using p by simp
  have peek: "PEEK_U32 (take n ct @ rest) = PEEK_U32 p" if "take 4 ct = take 4 p"
  proof -
    have "PEEK_U32 (take n ct @ rest) = PEEK_U32 (take 4 (take n ct @ rest))" by (rule PEEK_take(2) [OF order_refl t(2), symmetric])
    also have "\<dots> = PEEK_U32 p" unfolding t(1) that by (rule pp)
    finally show ?thesis .
  qed
  from assms(1) show ?thesis
  proof (cases rule: cc_sync_cases)
    case (chacha a b)
    then obtain a' where x: "chachapoly_crypt a q p len 4 True = (Inr ct, a')"
      using enc by (auto simp: cipher_crypt_chacha [OF chacha(1, 2)] e prod_eq_iff)
    have "fst (chachapoly_get_length b q (take n ct @ rest)) = Inr (PEEK_U32 p)"
      unfolding get_length_take [OF t(2)] t(1) using chachapoly_length [OF chacha(4) p x, of 4] pp by simp
    moreover have "cp_same a (snd (chachapoly_get_length b q (take n ct @ rest)))"
      by (rule cp_same_trans [OF chacha(4) cp_same_sym [OF chachapoly_get_length_keeps [OF cp_same_refl(2) [OF chacha(4)]]]])
    ultimately show ?thesis
      using assms(1) chacha cipher_flags by (simp add: cipher_get_length_def e case_prod_unfold cc_sync_def)
  next
    case aes
    have "take 4 ct = take 4 p" using enc p by (auto simp: cipher_crypt_aes [OF aes(1)])
    then have "PEEK_U32 (take n ct @ rest) = PEEK_U32 p" by (rule peek)
    then show ?thesis using assms(1) t(2) by (simp add: cipher_get_length_def e aes(1) cipher_flags)
  next
    case plain
    have "take 4 ct = take 4 p" using enc p by (auto simp: cipher_crypt_none [OF plain(1)])
    then have "PEEK_U32 (take n ct @ rest) = PEEK_U32 p" by (rule peek)
    then show ?thesis using assms(1) t(2) by (simp add: cipher_get_length_def e plain(1) cipher_flags)
  qed
qed

interpretation cc: transport_cipher cipher_crypt cipher_get_length cc_sync "\<lambda>s. ci_block_size (cc_cipher s)" "\<lambda>s. cipher_authlen (cc_cipher s)"
  by unfold_locales (rule cc_encrypts cc_decrypts cc_decrypts_ahead cc_reads_length; assumption)+

text \<open>Contexts made from the same key and initial vector are in step.\<close>

lemma cipher_init_chacha:
  assumes "ci_flags c = CFLAG_CHACHAPOLY" and "cipher_init mem c key keylen iv ivlen enc = Inr s"
  shows "\<exists>a. chachapoly_new (mem 1) key keylen = Some a \<and> cp_ctx s = Some a \<and> cc_encrypt s = enc \<and> cc_cipher s = c"
proof (cases "chachapoly_new (mem 1) key keylen")
  case None
  then show ?thesis using assms cipher_flags(1) by (simp add: cipher_init_def Let_def split: if_splits)
next
  case (Some a)
  then show ?thesis using assms cipher_flags(1) by (auto simp: cipher_init_def Let_def split: if_splits)
qed

lemma cipher_init_sync:
  assumes "c \<in> set ciphers" and "cipher_init mem c key keylen iv ivlen True = Inr s" and "cipher_init mem' c key keylen iv ivlen False = Inr r"
  shows "cc_sync s r"
  using cipher_in_table [OF assms(1)]
proof (elim disjE conjE)
  assume f: "ci_flags c = CFLAG_CHACHAPOLY"
  obtain a b where ab: "chachapoly_new (mem 1) key keylen = Some a" "cp_ctx s = Some a" "cc_encrypt s" "cc_cipher s = c"
      "chachapoly_new (mem' 1) key keylen = Some b" "cp_ctx r = Some b" "\<not> cc_encrypt r" "cc_cipher r = c"
    using cipher_init_chacha [OF f assms(2)] cipher_init_chacha [OF f assms(3)] by blast
  then have "b = a" "cp_same a a" using chachapoly_new_same(1, 3) [OF ab(1)] by simp_all
  then show ?thesis using assms(1) ab f cipher_flags by (auto simp: cc_sync_def)
next
  assume "ci_flags c = CFLAG_AESCTR"
  then show ?thesis using assms cipher_flags by (auto simp: cipher_init_def Let_def cc_sync_def split: if_splits option.splits)
next
  assume "ci_flags c = CFLAG_NONE"
  then show ?thesis using assms cipher_flags by (auto simp: cipher_init_def Let_def cc_sync_def split: if_splits option.splits)
qed

text \<open>A list of names is valid when the names in front of its first empty field are all known, and not internal ones.\<close>

lemma valid_fields_splits: "valid_fields known (Some s) \<longleftrightarrow> list_all known (takeWhile (\<lambda>p. p \<noteq> []) (splits (CHR '','') s))"
proof (induction s rule: length_induct)
  case (1 s)
  obtain t rest where st: "strsep '','' (Some s) = (Some t, rest)" "splits (CHR '','') s = t # (case rest of None \<Rightarrow> [] | Some r \<Rightarrow> splits (CHR '','') r)"
    using strsep_splits [of "CHR '',''" s] by (metis surj_pair)
  have n: "valid_fields known None" by (simp add: valid_fields.simps)
  show ?case
    using 1 strsep_shorter [of "'',''" s "Some t"] st n by (cases rest) (auto simp: valid_fields.simps [of known "Some s"])
qed

end
