(* ===== verification/Hmac.thy ===== *)
theory Hmac
  imports Ssherr
begin

text \<open>
  The digests of \<^verbatim>\<open>digest-libc.c\<close> and HMAC over them (\<^verbatim>\<open>hmac.c\<close>). The hash functions themselves are a parameter \<open>H\<close>: the digest of an
  algorithm for a message. A context holds what has been hashed so far.
\<close>

subsection \<open>Digests\<close>

definition SSH_DIGEST_MAX_LENGTH :: nat where "SSH_DIGEST_MAX_LENGTH = 64"
definition SSH_DIGEST_MD5 :: nat where "SSH_DIGEST_MD5 = 0"
definition SSH_DIGEST_SHA1 :: nat where "SSH_DIGEST_SHA1 = 1"
definition SSH_DIGEST_SHA256 :: nat where "SSH_DIGEST_SHA256 = 2"
definition SSH_DIGEST_SHA384 :: nat where "SSH_DIGEST_SHA384 = 3"
definition SSH_DIGEST_SHA512 :: nat where "SSH_DIGEST_SHA512 = 4"
definition SSH_DIGEST_MAX :: nat where "SSH_DIGEST_MAX = 5"

type_synonym hashes = "nat \<Rightarrow> u8 list \<Rightarrow> u8 list"

record ssh_digest =
  dg_name :: string
  block_len :: nat
  digest_len :: nat

definition digests :: "ssh_digest list" where
  "digests =
     [\<lparr>dg_name = ''MD5'', block_len = 64, digest_len = 16\<rparr>, \<lparr>dg_name = ''SHA1'', block_len = 64, digest_len = 20\<rparr>,
      \<lparr>dg_name = ''SHA256'', block_len = 64, digest_len = 32\<rparr>, \<lparr>dg_name = ''SHA384'', block_len = 128, digest_len = 48\<rparr>,
      \<lparr>dg_name = ''SHA512'', block_len = 128, digest_len = 64\<rparr>]"

record ssh_digest_ctx =
  dc_alg :: nat
  mdctx :: "u8 list"

definition ssh_digest_by_alg :: "nat \<Rightarrow> ssh_digest option" where
  "ssh_digest_by_alg alg = (if alg \<ge> SSH_DIGEST_MAX then None else Some (digests ! alg))"

definition ssh_digest_bytes :: "nat \<Rightarrow> nat" where
  "ssh_digest_bytes alg = (case ssh_digest_by_alg alg of None \<Rightarrow> 0 | Some d \<Rightarrow> digest_len d)"

definition ssh_digest_blocksize :: "ssh_digest_ctx \<Rightarrow> nat" where
  "ssh_digest_blocksize ctx = (case ssh_digest_by_alg (dc_alg ctx) of None \<Rightarrow> 0 | Some d \<Rightarrow> block_len d)"

definition ssh_digest_start :: "bool \<Rightarrow> nat \<Rightarrow> ssh_digest_ctx option" where
  "ssh_digest_start mem alg =
     (case ssh_digest_by_alg alg of None \<Rightarrow> None | Some _ \<Rightarrow> if \<not> mem then None else Some \<lparr>dc_alg = alg, mdctx = []\<rparr>)"

definition ssh_digest_copy_state :: "ssh_digest_ctx \<Rightarrow> ssh_digest_ctx \<Rightarrow> ssherr + ssh_digest_ctx" where
  "ssh_digest_copy_state from to =
     (if ssh_digest_by_alg (dc_alg from) = None \<or> dc_alg from \<noteq> dc_alg to then Inl SSH_ERR_INVALID_ARGUMENT
      else Inr (to\<lparr>mdctx := mdctx from\<rparr>))"

definition ssh_digest_update :: "ssh_digest_ctx \<Rightarrow> u8 list \<Rightarrow> ssherr + ssh_digest_ctx" where
  "ssh_digest_update ctx m =
     (if ssh_digest_by_alg (dc_alg ctx) = None then Inl SSH_ERR_INVALID_ARGUMENT else Inr (ctx\<lparr>mdctx := mdctx ctx @ m\<rparr>))"

definition ssh_digest_final :: "hashes \<Rightarrow> ssh_digest_ctx \<Rightarrow> nat \<Rightarrow> ssherr + u8 list" where
  "ssh_digest_final H ctx dlen =
     (case ssh_digest_by_alg (dc_alg ctx) of
        None \<Rightarrow> Inl SSH_ERR_INVALID_ARGUMENT
      | Some d \<Rightarrow> if dlen > 2 ^ 32 - 1 then Inl SSH_ERR_INVALID_ARGUMENT
                  else if dlen < digest_len d then Inl SSH_ERR_INVALID_ARGUMENT
                  else Inr (H (dc_alg ctx) (mdctx ctx)))"

definition ssh_digest_memory :: "hashes \<Rightarrow> bool \<Rightarrow> nat \<Rightarrow> u8 list \<Rightarrow> nat \<Rightarrow> ssherr + u8 list" where
  "ssh_digest_memory H mem alg m dlen =
     (case ssh_digest_start mem alg of
        None \<Rightarrow> Inl SSH_ERR_INVALID_ARGUMENT
      | Some ctx \<Rightarrow>
          (case ssh_digest_update ctx m of
             Inl _ \<Rightarrow> Inl SSH_ERR_INVALID_ARGUMENT
           | Inr ctx \<Rightarrow> (case ssh_digest_final H ctx dlen of Inl _ \<Rightarrow> Inl SSH_ERR_INVALID_ARGUMENT | Inr d \<Rightarrow> Inr d)))"

subsection \<open>HMAC\<close>

text \<open>The functions return \<open>-1\<close> on failure, here \<open>None\<close>.\<close>

record ssh_hmac_ctx =
  hm_alg :: nat
  ictx :: ssh_digest_ctx
  octx :: ssh_digest_ctx
  digest :: ssh_digest_ctx
  hm_buf :: "u8 list"
  buf_len :: nat

definition ssh_hmac_bytes :: "nat \<Rightarrow> nat" where
  "ssh_hmac_bytes alg = ssh_digest_bytes alg"

definition ssh_hmac_start :: "bool \<Rightarrow> nat \<Rightarrow> ssh_hmac_ctx option" where
  "ssh_hmac_start mem alg =
     (if \<not> mem then None
      else case ssh_digest_start mem alg of
        None \<Rightarrow> None
      | Some d \<Rightarrow> Some \<lparr>hm_alg = alg, ictx = d, octx = d, digest = d, hm_buf = replicate (ssh_digest_blocksize d) 0, buf_len = ssh_digest_blocksize d\<rparr>)"

definition hmac_load_key :: "hashes \<Rightarrow> bool \<Rightarrow> ssh_hmac_ctx \<Rightarrow> u8 list \<Rightarrow> u8 list option" where
  "hmac_load_key H mem ctx key =
     (if length key \<le> buf_len ctx then Some (key @ drop (length key) (hm_buf ctx))
      else case ssh_digest_memory H mem (hm_alg ctx) key (buf_len ctx) of
        Inl _ \<Rightarrow> None
      | Inr d \<Rightarrow> Some (d @ drop (length d) (hm_buf ctx)))"

definition hmac_set_key :: "hashes \<Rightarrow> bool \<Rightarrow> ssh_hmac_ctx \<Rightarrow> u8 list \<Rightarrow> ssh_hmac_ctx option" where
  "hmac_set_key H mem ctx key =
     (case hmac_load_key H mem ctx key of
        None \<Rightarrow> None
      | Some buf \<Rightarrow>
          let buf = map (\<lambda>b. b XOR 0x36) buf in
          case ssh_digest_update (ictx ctx) buf of
            Inl _ \<Rightarrow> None
          | Inr ic \<Rightarrow>
              let buf = map (\<lambda>b. b XOR (0x36 XOR 0x5c)) buf in
              case ssh_digest_update (octx ctx) buf of
                Inl _ \<Rightarrow> None
              | Inr oc \<Rightarrow> Some (ctx\<lparr>ictx := ic, octx := oc, hm_buf := replicate (length buf) 0\<rparr>))"

definition ssh_hmac_init :: "hashes \<Rightarrow> bool \<Rightarrow> ssh_hmac_ctx \<Rightarrow> u8 list option \<Rightarrow> ssh_hmac_ctx option" where
  "ssh_hmac_init H mem ctx key =
     (case (case key of None \<Rightarrow> Some ctx | Some k \<Rightarrow> hmac_set_key H mem ctx k) of
        None \<Rightarrow> None
      | Some ctx \<Rightarrow> (case ssh_digest_copy_state (ictx ctx) (digest ctx) of Inl _ \<Rightarrow> None | Inr d \<Rightarrow> Some (ctx\<lparr>digest := d\<rparr>)))"

definition ssh_hmac_update :: "ssh_hmac_ctx \<Rightarrow> u8 list \<Rightarrow> ssh_hmac_ctx option" where
  "ssh_hmac_update ctx m = (case ssh_digest_update (digest ctx) m of Inl _ \<Rightarrow> None | Inr d \<Rightarrow> Some (ctx\<lparr>digest := d\<rparr>))"

definition ssh_hmac_final :: "hashes \<Rightarrow> ssh_hmac_ctx \<Rightarrow> nat \<Rightarrow> (u8 list \<times> ssh_hmac_ctx) option" where
  "ssh_hmac_final H ctx dlen =
     (let len = ssh_digest_bytes (hm_alg ctx) in
      if dlen < len then None
      else case ssh_digest_final H (digest ctx) len of
        Inl _ \<Rightarrow> None
      | Inr inner \<Rightarrow>
          let ctx = ctx\<lparr>hm_buf := inner @ drop (length inner) (hm_buf ctx)\<rparr> in
          case ssh_digest_copy_state (octx ctx) (digest ctx) of
            Inl _ \<Rightarrow> None
          | Inr d \<Rightarrow>
              (case ssh_digest_update d (take len (hm_buf ctx)) of
                 Inl _ \<Rightarrow> None
               | Inr d \<Rightarrow> (case ssh_digest_final H d dlen of Inl _ \<Rightarrow> None | Inr out \<Rightarrow> Some (out, ctx\<lparr>digest := d\<rparr>))))"

subsection \<open>What it computes\<close>

text \<open>HMAC as defined in RFC 2104, for a hash function \<open>h\<close> with blocks of \<open>B\<close> bytes.\<close>

definition hmac_pad :: "(u8 list \<Rightarrow> u8 list) \<Rightarrow> nat \<Rightarrow> u8 list \<Rightarrow> u8 list" where
  "hmac_pad h B key = (let k = (if length key > B then h key else key) in k @ replicate (B - length k) 0)"

definition hmac :: "(u8 list \<Rightarrow> u8 list) \<Rightarrow> nat \<Rightarrow> u8 list \<Rightarrow> u8 list \<Rightarrow> u8 list" where
  "hmac h B key m = h (map (\<lambda>b. b XOR 0x5c) (hmac_pad h B key) @ h (map (\<lambda>b. b XOR 0x36) (hmac_pad h B key) @ m))"

text \<open>The hash functions produce digests of the length in the table.\<close>

definition hashes_ok :: "hashes \<Rightarrow> bool" where
  "hashes_ok H \<longleftrightarrow> (\<forall>alg<SSH_DIGEST_MAX. \<forall>m. length (H alg m) = ssh_digest_bytes alg)"

definition alg_block :: "nat \<Rightarrow> nat" where
  "alg_block alg = block_len (digests ! alg)"

lemma digest_sizes:
  assumes "alg < SSH_DIGEST_MAX"
  shows "ssh_digest_by_alg alg = Some (digests ! alg)" and "ssh_digest_bytes alg \<le> alg_block alg" and "ssh_digest_bytes alg \<le> SSH_DIGEST_MAX_LENGTH"
    and "ssh_digest_bytes alg = digest_len (digests ! alg)" and "alg_block alg \<le> 128"
proof -
  show 1: "ssh_digest_by_alg alg = Some (digests ! alg)" using assms by (simp add: ssh_digest_by_alg_def)
  then show 2: "ssh_digest_bytes alg = digest_len (digests ! alg)" by (simp add: ssh_digest_bytes_def)
  have "alg \<in> {0, 1, 2, 3, 4}" using assms by (auto simp: SSH_DIGEST_MAX_def)
  then show "ssh_digest_bytes alg \<le> alg_block alg" "ssh_digest_bytes alg \<le> SSH_DIGEST_MAX_LENGTH" "alg_block alg \<le> 128"
    unfolding 2 by (auto simp: digests_def alg_block_def SSH_DIGEST_MAX_LENGTH_def)
qed

text \<open>A context that has been given a key.\<close>

definition keyed :: "hashes \<Rightarrow> nat \<Rightarrow> u8 list \<Rightarrow> ssh_hmac_ctx \<Rightarrow> bool" where
  "keyed H alg key ctx \<longleftrightarrow> alg < SSH_DIGEST_MAX \<and> hm_alg ctx = alg \<and> length (hm_buf ctx) = alg_block alg \<and>
     ictx ctx = \<lparr>dc_alg = alg, mdctx = map (\<lambda>b. b XOR 0x36) (hmac_pad (H alg) (alg_block alg) key)\<rparr> \<and>
     octx ctx = \<lparr>dc_alg = alg, mdctx = map (\<lambda>b. b XOR 0x5c) (hmac_pad (H alg) (alg_block alg) key)\<rparr> \<and> dc_alg (digest ctx) = alg"

lemma hmac_init_keyed:
  assumes "hashes_ok H" and "ssh_hmac_start mem alg = Some ctx" and "ssh_hmac_init H mem' ctx (Some key) = Some ctx'"
  shows "keyed H alg key ctx'"
proof -
  have a: "alg < SSH_DIGEST_MAX" using assms(2) by (auto simp: ssh_hmac_start_def ssh_digest_start_def ssh_digest_by_alg_def split: option.splits if_splits)
  note d = digest_sizes [OF a]
  have ctx: "ctx = \<lparr>hm_alg = alg, ictx = \<lparr>dc_alg = alg, mdctx = []\<rparr>, octx = \<lparr>dc_alg = alg, mdctx = []\<rparr>, digest = \<lparr>dc_alg = alg, mdctx = []\<rparr>,
      hm_buf = replicate (alg_block alg) 0, buf_len = alg_block alg\<rparr>"
    using assms(2) d(1) by (auto simp: ssh_hmac_start_def ssh_digest_start_def ssh_digest_blocksize_def alg_block_def split: if_splits)
  have h: "length (H alg key) = ssh_digest_bytes alg" using assms(1) a by (simp add: hashes_ok_def)
  have "hmac_load_key H mem' ctx key = Some buf \<Longrightarrow> buf = hmac_pad (H alg) (alg_block alg) key \<and> length buf = alg_block alg" for buf
    using d h by (auto simp: hmac_load_key_def ctx hmac_pad_def Let_def ssh_digest_memory_def ssh_digest_start_def ssh_digest_update_def ssh_digest_final_def
        split: if_splits sum.splits option.splits)
  then show ?thesis
    using assms(3) a d(1) by (auto simp: ssh_hmac_init_def hmac_set_key_def Let_def keyed_def ctx ssh_digest_update_def ssh_digest_copy_state_def xor.assoc
        split: option.splits if_splits)
qed

text \<open>A context with a key computes HMAC, any number of times.\<close>

lemma hmac_computes:
  assumes "hashes_ok H" and "keyed H alg key ctx"
  shows "\<exists>c1. ssh_hmac_init H mem ctx None = Some c1 \<and> mdctx (digest c1) = mdctx (ictx ctx) \<and> c1 = ctx\<lparr>digest := digest c1\<rparr> \<and> dc_alg (digest c1) = alg"
    and "ssh_hmac_update ctx m = Some (ctx\<lparr>digest := (digest ctx)\<lparr>mdctx := mdctx (digest ctx) @ m\<rparr>\<rparr>)"
    and "mdctx (digest ctx) = mdctx (ictx ctx) @ m \<Longrightarrow> SSH_DIGEST_MAX_LENGTH \<le> dlen \<Longrightarrow> dlen < 2 ^ 32 \<Longrightarrow>
      \<exists>c2. ssh_hmac_final H ctx dlen = Some (hmac (H alg) (alg_block alg) key m, c2) \<and> keyed H alg key c2"
proof -
  have a: "alg < SSH_DIGEST_MAX" using assms(2) by (simp add: keyed_def)
  note d = digest_sizes [OF a]
  have h: "length (H alg m) = ssh_digest_bytes alg" for m using assms(1) a by (simp add: hashes_ok_def)
  show "\<exists>c1. ssh_hmac_init H mem ctx None = Some c1 \<and> mdctx (digest c1) = mdctx (ictx ctx) \<and> c1 = ctx\<lparr>digest := digest c1\<rparr> \<and> dc_alg (digest c1) = alg"
    using assms(2) d(1) by (auto simp: keyed_def ssh_hmac_init_def ssh_digest_copy_state_def)
  show "ssh_hmac_update ctx m = Some (ctx\<lparr>digest := (digest ctx)\<lparr>mdctx := mdctx (digest ctx) @ m\<rparr>\<rparr>)"
    using assms(2) d(1) by (simp add: keyed_def ssh_hmac_update_def ssh_digest_update_def)
  assume m: "mdctx (digest ctx) = mdctx (ictx ctx) @ m" "SSH_DIGEST_MAX_LENGTH \<le> dlen" "dlen < 2 ^ 32"
  show "\<exists>c2. ssh_hmac_final H ctx dlen = Some (hmac (H alg) (alg_block alg) key m, c2) \<and> keyed H alg key c2"
    using assms(2) d h m by (simp add: keyed_def ssh_hmac_final_def ssh_digest_final_def ssh_digest_copy_state_def ssh_digest_update_def Let_def hmac_def)
qed

end
