(* ===== verification/Mac.thy ===== *)
theory Mac
  imports Hmac Cipher Sshbuf_Misc
begin

text \<open>
  Message authentication codes (\<^verbatim>\<open>mac.c\<close>): the table of algorithms, the setup of a MAC, and computing and checking a code. HMAC is that of
  \<open>Hmac\<close>; UMAC is a parameter, a function of the key, the nonce and the message that is told which of its two tag lengths to use.
\<close>

subsection \<open>The code\<close>

definition SSH_DIGEST :: nat where "SSH_DIGEST = 1"
definition SSH_UMAC :: nat where "SSH_UMAC = 2"
definition SSH_UMAC128 :: nat where "SSH_UMAC128 = 3"

record macalg =
  ma_name :: string
  ma_type :: nat
  ma_alg :: nat
  ma_truncatebits :: nat
  ma_key_len :: nat
  ma_len :: nat
  ma_etm :: bool

definition mk_mac :: "string \<Rightarrow> nat \<Rightarrow> nat \<Rightarrow> nat \<Rightarrow> nat \<Rightarrow> nat \<Rightarrow> bool \<Rightarrow> macalg" where
  "mk_mac n ty alg tr kl len etm =
     \<lparr>ma_name = n, ma_type = ty, ma_alg = alg, ma_truncatebits = tr, ma_key_len = kl, ma_len = len, ma_etm = etm\<rparr>"

definition macs :: "macalg list" where
  "macs =
     [mk_mac ''hmac-sha1'' SSH_DIGEST SSH_DIGEST_SHA1 0 0 0 False,
      mk_mac ''hmac-sha1-96'' SSH_DIGEST SSH_DIGEST_SHA1 96 0 0 False,
      mk_mac ''hmac-sha2-256'' SSH_DIGEST SSH_DIGEST_SHA256 0 0 0 False,
      mk_mac ''hmac-sha2-512'' SSH_DIGEST SSH_DIGEST_SHA512 0 0 0 False,
      mk_mac ''hmac-md5'' SSH_DIGEST SSH_DIGEST_MD5 0 0 0 False,
      mk_mac ''hmac-md5-96'' SSH_DIGEST SSH_DIGEST_MD5 96 0 0 False,
      mk_mac ''umac-64@openssh.com'' SSH_UMAC 0 0 128 64 False,
      mk_mac ''umac-128@openssh.com'' SSH_UMAC128 0 0 128 128 False,
      mk_mac ''hmac-sha1-etm@openssh.com'' SSH_DIGEST SSH_DIGEST_SHA1 0 0 0 True,
      mk_mac ''hmac-sha1-96-etm@openssh.com'' SSH_DIGEST SSH_DIGEST_SHA1 96 0 0 True,
      mk_mac ''hmac-sha2-256-etm@openssh.com'' SSH_DIGEST SSH_DIGEST_SHA256 0 0 0 True,
      mk_mac ''hmac-sha2-512-etm@openssh.com'' SSH_DIGEST SSH_DIGEST_SHA512 0 0 0 True,
      mk_mac ''hmac-md5-etm@openssh.com'' SSH_DIGEST SSH_DIGEST_MD5 0 0 0 True,
      mk_mac ''hmac-md5-96-etm@openssh.com'' SSH_DIGEST SSH_DIGEST_MD5 96 0 0 True,
      mk_mac ''umac-64-etm@openssh.com'' SSH_UMAC 0 0 128 64 True,
      mk_mac ''umac-128-etm@openssh.com'' SSH_UMAC128 0 0 128 128 True]"

record mac_prims =
  mp_hash :: hashes
  mp_umac :: "bool \<Rightarrow> u8 list \<Rightarrow> u8 list \<Rightarrow> u8 list \<Rightarrow> u8 list"

text \<open>The context of UMAC is the key it was made from.\<close>

record sshmac =
  mac_enabled :: bool
  mac_len :: nat
  mac_key :: "u8 list option"
  mac_key_len :: nat
  mac_type :: nat
  mac_etm :: bool
  hmac_ctx :: "ssh_hmac_ctx option"
  umac_ctx :: "u8 list option"

definition mac_setup_by_alg :: "bool \<Rightarrow> sshmac \<Rightarrow> macalg \<Rightarrow> (ssherr + unit) \<times> sshmac" where
  "mac_setup_by_alg mem mac m =
     (let mac = mac\<lparr>mac_type := ma_type m\<rparr>;
          finish = (\<lambda>mac. (Inr (), (if ma_truncatebits m \<noteq> 0 then mac\<lparr>mac_len := ma_truncatebits m div 8\<rparr> else mac)\<lparr>mac_etm := ma_etm m\<rparr>)) in
      if mac_type mac = SSH_DIGEST
      then (case ssh_hmac_start mem (ma_alg m) of
              None \<Rightarrow> (Inl SSH_ERR_ALLOC_FAIL, mac\<lparr>hmac_ctx := None\<rparr>)
            | Some c \<Rightarrow> finish (mac\<lparr>hmac_ctx := Some c, mac_key_len := ssh_hmac_bytes (ma_alg m), mac_len := ssh_hmac_bytes (ma_alg m)\<rparr>))
      else finish (mac\<lparr>mac_len := ma_len m div 8, mac_key_len := ma_key_len m div 8, umac_ctx := None\<rparr>))"

text \<open>Without a MAC to fill in, \<^verbatim>\<open>mac_setup\<close> only looks the name up.\<close>

definition mac_setup :: "bool \<Rightarrow> sshmac option \<Rightarrow> string \<Rightarrow> (ssherr + unit) \<times> sshmac option" where
  "mac_setup mem mac name =
     (case find (\<lambda>m. ma_name m = name) macs of
        None \<Rightarrow> (Inl SSH_ERR_INVALID_ARGUMENT, mac)
      | Some m \<Rightarrow> (case mac of None \<Rightarrow> (Inr (), None) | Some mac \<Rightarrow> (case mac_setup_by_alg mem mac m of (r, mac) \<Rightarrow> (r, Some mac))))"

definition mac_init :: "mac_prims \<Rightarrow> bool \<Rightarrow> sshmac \<Rightarrow> (ssherr + unit) \<times> sshmac" where
  "mac_init P mem mac =
     (case mac_key mac of
        None \<Rightarrow> (Inl SSH_ERR_INVALID_ARGUMENT, mac)
      | Some key \<Rightarrow>
          if mac_type mac = SSH_DIGEST
          then (case hmac_ctx mac of
                  None \<Rightarrow> (Inl SSH_ERR_INVALID_ARGUMENT, mac)
                | Some c \<Rightarrow> (case ssh_hmac_init (mp_hash P) mem c (Some (take (mac_key_len mac) key)) of
                              None \<Rightarrow> (Inl SSH_ERR_INVALID_ARGUMENT, mac)
                            | Some c \<Rightarrow> (Inr (), mac\<lparr>hmac_ctx := Some c\<rparr>)))
          else if mac_type mac = SSH_UMAC \<or> mac_type mac = SSH_UMAC128
          then (if \<not> mem then (Inl SSH_ERR_ALLOC_FAIL, mac\<lparr>umac_ctx := None\<rparr>) else (Inr (), mac\<lparr>umac_ctx := Some key\<rparr>))
          else (Inl SSH_ERR_INVALID_ARGUMENT, mac))"

text \<open>
  The code over the sequence number and the data. A missing context would be a null pointer in the code; the model
  gives an error there, and \<open>mac_ready\<close> below excludes it.
\<close>

definition mac_code :: "mac_prims \<Rightarrow> bool \<Rightarrow> sshmac \<Rightarrow> u32 \<Rightarrow> u8 list \<Rightarrow> (ssherr + u8 list) \<times> sshmac" where
  "mac_code P mem mac seqno data =
     (if mac_type mac = SSH_DIGEST
      then (case hmac_ctx mac of
              None \<Rightarrow> (Inl SSH_ERR_LIBCRYPTO_ERROR, mac)
            | Some c \<Rightarrow>
                (case ssh_hmac_init (mp_hash P) mem c None of
                   None \<Rightarrow> (Inl SSH_ERR_LIBCRYPTO_ERROR, mac)
                 | Some c \<Rightarrow>
                     (case ssh_hmac_update c (POKE_U32 seqno) of
                        None \<Rightarrow> (Inl SSH_ERR_LIBCRYPTO_ERROR, mac\<lparr>hmac_ctx := Some c\<rparr>)
                      | Some c \<Rightarrow>
                          (case ssh_hmac_update c data of
                             None \<Rightarrow> (Inl SSH_ERR_LIBCRYPTO_ERROR, mac\<lparr>hmac_ctx := Some c\<rparr>)
                           | Some c \<Rightarrow>
                               (case ssh_hmac_final (mp_hash P) c SSH_DIGEST_MAX_LENGTH of
                                  None \<Rightarrow> (Inl SSH_ERR_LIBCRYPTO_ERROR, mac\<lparr>hmac_ctx := Some c\<rparr>)
                                | Some (d, c) \<Rightarrow> (Inr d, mac\<lparr>hmac_ctx := Some c\<rparr>))))))
      else if mac_type mac = SSH_UMAC \<or> mac_type mac = SSH_UMAC128
      then (case umac_ctx mac of
              None \<Rightarrow> (Inl SSH_ERR_LIBCRYPTO_ERROR, mac)
            | Some key \<Rightarrow> (Inr (mp_umac P (mac_type mac = SSH_UMAC128) key (POKE_U64 (ucast seqno)) data), mac))
      else (Inl SSH_ERR_INVALID_ARGUMENT, mac))"

definition mac_compute :: "mac_prims \<Rightarrow> bool \<Rightarrow> sshmac \<Rightarrow> u32 \<Rightarrow> u8 list \<Rightarrow> nat \<Rightarrow> (ssherr + u8 list) \<times> sshmac" where
  "mac_compute P mem mac seqno data dlen =
     (if mac_len mac > SSH_DIGEST_MAX_LENGTH then (Inl SSH_ERR_INTERNAL_ERROR, mac)
      else case mac_code P mem mac seqno data of
        (Inl e, mac) \<Rightarrow> (Inl e, mac)
      | (Inr m, mac) \<Rightarrow> (Inr (take (if dlen > mac_len mac then mac_len mac else dlen) m), mac))"

definition mac_check :: "mac_prims \<Rightarrow> bool \<Rightarrow> sshmac \<Rightarrow> u32 \<Rightarrow> u8 list \<Rightarrow> u8 list \<Rightarrow> (ssherr + unit) \<times> sshmac" where
  "mac_check P mem mac seqno data theirmac =
     (if mac_len mac > length theirmac then (Inl SSH_ERR_INVALID_ARGUMENT, mac)
      else case mac_compute P mem mac seqno data SSH_DIGEST_MAX_LENGTH of
        (Inl e, mac) \<Rightarrow> (Inl e, mac)
      | (Inr ourmac, mac) \<Rightarrow>
          if timingsafe_bcmp ourmac (take (mac_len mac) theirmac) then (Inl SSH_ERR_MAC_INVALID, mac) else (Inr (), mac))"

text \<open>Freeing a context leaves null pointers; the list of the names and its validation are those of \<open>Cipher\<close>.\<close>

definition mac_clear :: "sshmac \<Rightarrow> sshmac" where
  "mac_clear mac = mac\<lparr>hmac_ctx := None, umac_ctx := None\<rparr>"

definition mac_alg_list :: "(nat \<Rightarrow> bool) \<Rightarrow> char \<Rightarrow> string option" where
  "mac_alg_list mem sep = alg_list mem sep None (map ma_name macs)"

definition mac_valid :: "bool \<Rightarrow> string option \<Rightarrow> bool" where
  "mac_valid mem names =
     (case names of
        None \<Rightarrow> False
      | Some s \<Rightarrow> if s = [] then False else if \<not> mem then False else valid_fields (\<lambda>p. fst (mac_setup mem None p) = Inr ()) (Some s))"

subsection \<open>What is computed\<close>

definition mac_prims_ok :: "mac_prims \<Rightarrow> bool" where
  "mac_prims_ok P \<longleftrightarrow> hashes_ok (mp_hash P) \<and> (\<forall>big key nonce m. length (mp_umac P big key nonce m) = (if big then 16 else 8))"

text \<open>A MAC that has been set up for an algorithm of the table and initialised with a key.\<close>

datatype mac_scheme = Hmac_of nat | Umac_of bool

definition mac_ready :: "mac_prims \<Rightarrow> mac_scheme \<Rightarrow> u8 list \<Rightarrow> sshmac \<Rightarrow> bool" where
  "mac_ready P sc key mac \<longleftrightarrow> mac_len mac \<le> SSH_DIGEST_MAX_LENGTH \<and>
     (case sc of
        Hmac_of alg \<Rightarrow> mac_type mac = SSH_DIGEST \<and> mac_len mac \<le> ssh_digest_bytes alg \<and> (\<exists>c. hmac_ctx mac = Some c \<and> keyed (mp_hash P) alg key c)
      | Umac_of big \<Rightarrow> mac_type mac = (if big then SSH_UMAC128 else SSH_UMAC) \<and> mac_len mac \<le> (if big then 16 else 8) \<and> umac_ctx mac = Some key)"

definition mac_value :: "mac_prims \<Rightarrow> mac_scheme \<Rightarrow> u8 list \<Rightarrow> u32 \<Rightarrow> u8 list \<Rightarrow> u8 list" where
  "mac_value P sc key seqno data =
     (case sc of
        Hmac_of alg \<Rightarrow> hmac (mp_hash P alg) (alg_block alg) key (POKE_U32 seqno @ data)
      | Umac_of big \<Rightarrow> mp_umac P big key (POKE_U64 (ucast seqno)) data)"

lemma mac_code_ready:
  assumes "mac_prims_ok P" and "mac_ready P sc key mac"
  obtains mac' where "mac_code P mem mac seqno data = (Inr (mac_value P sc key seqno data), mac')" and "mac_ready P sc key mac'"
    and "mac' = mac\<lparr>hmac_ctx := hmac_ctx mac'\<rparr>"
proof (cases sc)
  case (Umac_of big)
  have "mac_code P mem mac seqno data = (Inr (mac_value P sc key seqno data), mac)"
    using assms(2) by (cases big) (simp_all add: mac_ready_def mac_code_def mac_value_def Umac_of SSH_DIGEST_def SSH_UMAC_def SSH_UMAC128_def)
  then show ?thesis using that assms(2) by simp
next
  case (Hmac_of alg)
  obtain c where c: "hmac_ctx mac = Some c" "keyed (mp_hash P) alg key c" and t: "mac_type mac = SSH_DIGEST"
    using assms(2) by (auto simp: mac_ready_def Hmac_of)
  have H: "hashes_ok (mp_hash P)" using assms(1) by (simp add: mac_prims_ok_def)
  obtain c1 where c1: "ssh_hmac_init (mp_hash P) mem c None = Some c1" "mdctx (digest c1) = mdctx (ictx c)" "c1 = c\<lparr>digest := digest c1\<rparr>" "dc_alg (digest c1) = alg"
    using hmac_computes(1) [OF H c(2)] by blast
  have k1: "keyed (mp_hash P) alg key (c1\<lparr>digest := (digest c1)\<lparr>mdctx := x\<rparr>\<rparr>)" "ictx c1 = ictx c" for x
  proof -
    have "keyed (mp_hash P) alg key (c\<lparr>digest := (digest c1)\<lparr>mdctx := x\<rparr>\<rparr>)" using c(2) c1(4) by (simp add: keyed_def)
    moreover have "c1\<lparr>digest := (digest c1)\<lparr>mdctx := x\<rparr>\<rparr> = c\<lparr>digest := (digest c1)\<lparr>mdctx := x\<rparr>\<rparr>" by (subst c1(3)) simp
    ultimately show "keyed (mp_hash P) alg key (c1\<lparr>digest := (digest c1)\<lparr>mdctx := x\<rparr>\<rparr>)" by simp
    show "ictx c1 = ictx c" by (subst c1(3)) simp
  qed
  have k0: "keyed (mp_hash P) alg key c1" using k1(1) [of "mdctx (digest c1)"] by simp
  define c3 where "c3 = c1\<lparr>digest := (digest c1)\<lparr>mdctx := mdctx (ictx c) @ (POKE_U32 seqno @ data)\<rparr>\<rparr>"
  note u1 = hmac_computes(2) [OF H k0, of "POKE_U32 seqno"]
  note u2 = hmac_computes(2) [OF H k1(1), of "mdctx (digest c1) @ POKE_U32 seqno" data]
  have "keyed (mp_hash P) alg key c3" unfolding c3_def by (rule k1)
  moreover have "mdctx (digest c3) = mdctx (ictx c3) @ (POKE_U32 seqno @ data)" by (simp add: c3_def k1(2))
  ultimately obtain c2 where c2: "ssh_hmac_final (mp_hash P) c3 SSH_DIGEST_MAX_LENGTH = Some (mac_value P sc key seqno data, c2)" "keyed (mp_hash P) alg key c2"
    using hmac_computes(3) [OF H, of alg key c3 "POKE_U32 seqno @ data" SSH_DIGEST_MAX_LENGTH] by (auto simp: mac_value_def Hmac_of SSH_DIGEST_MAX_LENGTH_def)
  have "mac_code P mem mac seqno data = (Inr (mac_value P sc key seqno data), mac\<lparr>hmac_ctx := Some c2\<rparr>)"
    using u2 c2(1) c1(2) by (simp add: mac_code_def t c(1) c1(1) u1 c3_def)
  moreover have "mac_ready P sc key (mac\<lparr>hmac_ctx := Some c2\<rparr>)" using assms(2) c2(2) by (simp add: mac_ready_def Hmac_of)
  ultimately show ?thesis using that by simp
qed

lemma mac_value_length:
  assumes "mac_prims_ok P" and "mac_ready P sc key mac"
  shows "mac_len mac \<le> length (mac_value P sc key seqno data)"
proof (cases sc)
  case (Hmac_of alg)
  then have "alg < SSH_DIGEST_MAX" using assms(2) by (auto simp: mac_ready_def keyed_def)
  then show ?thesis using assms Hmac_of by (auto simp: mac_ready_def mac_value_def mac_prims_ok_def hashes_ok_def hmac_def)
qed (use assms in \<open>auto simp: mac_ready_def mac_value_def mac_prims_ok_def\<close>)

lemma mac_compute_ready:
  assumes "mac_prims_ok P" and "mac_ready P sc key mac"
  obtains mac' where "mac_compute P mem mac seqno data SSH_DIGEST_MAX_LENGTH = (Inr (take (mac_len mac) (mac_value P sc key seqno data)), mac')"
    and "mac_ready P sc key mac'" and "mac' = mac\<lparr>hmac_ctx := hmac_ctx mac'\<rparr>"
proof -
  obtain mac' where m: "mac_code P mem mac seqno data = (Inr (mac_value P sc key seqno data), mac')" "mac_ready P sc key mac'" "mac' = mac\<lparr>hmac_ctx := hmac_ctx mac'\<rparr>"
    using mac_code_ready [OF assms] by blast
  have "mac_len mac' = mac_len mac" by (subst m(3)) simp
  moreover have "mac_len mac \<le> SSH_DIGEST_MAX_LENGTH" using assms(2) by (simp add: mac_ready_def)
  ultimately show ?thesis using that [of mac'] m by (auto simp: mac_compute_def min_def)
qed

lemma mac_check_ready:
  assumes "mac_prims_ok P" and "mac_ready P sc key mac" and "mac_len mac \<le> length theirs"
  obtains mac' where "mac_check P mem mac seqno data theirs =
      (if take (mac_len mac) theirs = take (mac_len mac) (mac_value P sc key seqno data) then Inr () else Inl SSH_ERR_MAC_INVALID, mac')"
    and "mac_ready P sc key mac'" and "mac' = mac\<lparr>hmac_ctx := hmac_ctx mac'\<rparr>"
proof -
  obtain mac' where m: "mac_compute P mem mac seqno data SSH_DIGEST_MAX_LENGTH = (Inr (take (mac_len mac) (mac_value P sc key seqno data)), mac')"
    "mac_ready P sc key mac'" "mac' = mac\<lparr>hmac_ctx := hmac_ctx mac'\<rparr>"
    using mac_compute_ready [OF assms(1, 2)] by blast
  have "mac_len mac' = mac_len mac" by (subst m(3)) simp
  moreover have "length (take (mac_len mac) (mac_value P sc key seqno data)) = mac_len mac" using mac_value_length [OF assms(1, 2)] by simp
  ultimately show ?thesis using that [of mac'] m assms(3) by (auto simp: mac_check_def timingsafe_bcmp_iff)
qed

text \<open>A MAC from the table of algorithms, with its key.\<close>

definition scheme_of :: "macalg \<Rightarrow> mac_scheme" where
  "scheme_of m = (if ma_type m = SSH_DIGEST then Hmac_of (ma_alg m) else Umac_of (ma_type m = SSH_UMAC128))"

text \<open>HMAC uses as much of the key as the digest is long; UMAC takes the key as it is.\<close>

definition mac_key_of :: "macalg \<Rightarrow> sshmac \<Rightarrow> u8 list \<Rightarrow> u8 list" where
  "mac_key_of m mac key = (if ma_type m = SSH_DIGEST then take (mac_key_len mac) key else key)"

definition macalg_ok :: "macalg \<Rightarrow> bool" where
  "macalg_ok m \<longleftrightarrow>
     (ma_type m = SSH_DIGEST \<and> ma_alg m < SSH_DIGEST_MAX \<and> 0 < ssh_digest_bytes (ma_alg m) \<and>
        (ma_truncatebits m \<noteq> 0 \<longrightarrow> ma_truncatebits m div 8 \<le> ssh_digest_bytes (ma_alg m) \<and> 0 < ma_truncatebits m div 8)) \<or>
     (ma_type m = SSH_UMAC \<and> ma_truncatebits m = 0 \<and> ma_len m = 64) \<or> (ma_type m = SSH_UMAC128 \<and> ma_truncatebits m = 0 \<and> ma_len m = 128)"

lemma macs_ok: "list_all macalg_ok macs"
  by (simp add: macs_def macalg_ok_def mk_mac_def SSH_DIGEST_MAX_def SSH_DIGEST_SHA1_def SSH_DIGEST_SHA256_def SSH_DIGEST_SHA512_def SSH_DIGEST_MD5_def
      ssh_digest_bytes_def ssh_digest_by_alg_def digests_def SSH_UMAC_def SSH_UMAC128_def SSH_DIGEST_def)

lemma mac_setup_ready:
  assumes P: "mac_prims_ok P" and "find (\<lambda>m. ma_name m = name) macs = Some m" and "mac_setup mem (Some mac) name = (Inr (), Some mac1)"
    and "mac_init P mem' (mac1\<lparr>mac_key := Some key\<rparr>) = (Inr (), mac2)"
  shows "mac_ready P (scheme_of m) (mac_key_of m mac1 key) mac2" and "mac_etm mac2 = ma_etm m" and "0 < mac_len mac2"
proof -
  have m: "m \<in> set macs" using assms(2) by (auto simp: find_Some_iff)
  have s: "mac_setup_by_alg mem mac m = (Inr (), mac1)" using assms(2, 3) by (auto simp: mac_setup_def split: prod.splits)
  have props: "macalg_ok m" using m macs_ok by (simp add: list_all_iff)
  note props = props [unfolded macalg_ok_def]
  show "mac_ready P (scheme_of m) (mac_key_of m mac1 key) mac2" "mac_etm mac2 = ma_etm m" "0 < mac_len mac2"
  proof (atomize (full), cases "ma_type m = SSH_DIGEST")
    case True
    then obtain c where c: "ssh_hmac_start mem (ma_alg m) = Some c" "hmac_ctx mac1 = Some c" "mac_type mac1 = SSH_DIGEST" "mac_etm mac1 = ma_etm m"
        "mac_len mac1 = (if ma_truncatebits m \<noteq> 0 then ma_truncatebits m div 8 else ssh_digest_bytes (ma_alg m))"
      using s by (auto simp: mac_setup_by_alg_def Let_def ssh_hmac_bytes_def split: option.splits if_splits)
    obtain c' where c': "ssh_hmac_init (mp_hash P) mem' c (Some (take (mac_key_len mac1) key)) = Some c'" "mac2 = mac1\<lparr>mac_key := Some key, hmac_ctx := Some c'\<rparr>"
      using assms(4) c by (auto simp: mac_init_def split: option.splits)
    have a: "ma_alg m < SSH_DIGEST_MAX" using props True by (auto simp: SSH_DIGEST_def SSH_UMAC_def SSH_UMAC128_def)
    have "keyed (mp_hash P) (ma_alg m) (take (mac_key_len mac1) key) c'"
      using hmac_init_keyed [OF _ c(1) c'(1)] P by (simp add: mac_prims_ok_def)
    then have "mac_ready P (scheme_of m) (mac_key_of m mac1 key) mac2"
      using c c' props True digest_sizes(3) [OF a] by (auto simp: mac_ready_def scheme_of_def mac_key_of_def SSH_DIGEST_def SSH_UMAC_def SSH_UMAC128_def)
    then show "mac_ready P (scheme_of m) (mac_key_of m mac1 key) mac2 \<and> mac_etm mac2 = ma_etm m \<and> 0 < mac_len mac2"
      using c c' props True by (auto simp: SSH_DIGEST_def SSH_UMAC_def SSH_UMAC128_def)
  next
    case False
    then have c: "mac_type mac1 = ma_type m" "mac_etm mac1 = ma_etm m" "mac_len mac1 = ma_len m div 8"
      using s props by (auto simp: mac_setup_by_alg_def Let_def)
    then have "mac2 = mac1\<lparr>mac_key := Some key, umac_ctx := Some key\<rparr>"
      using assms(4) False props by (auto simp: mac_init_def split: if_splits)
    then show "mac_ready P (scheme_of m) (mac_key_of m mac1 key) mac2 \<and> mac_etm mac2 = ma_etm m \<and> 0 < mac_len mac2"
      using c False props by (auto simp: mac_ready_def scheme_of_def mac_key_of_def SSH_UMAC_def SSH_UMAC128_def SSH_DIGEST_def SSH_DIGEST_MAX_LENGTH_def)
  qed
qed

text \<open>Initialised with the same key, two MACs differ at most in the context.\<close>

lemma mac_init_alike:
  "mac_init P mem mac = (Inr (), m1) \<Longrightarrow> mac_init P mem' mac = (Inr (), m2) \<Longrightarrow> m1\<lparr>hmac_ctx := None\<rparr> = m2\<lparr>hmac_ctx := None\<rparr>"
  by (auto simp: mac_init_def split: option.splits if_splits)


definition demo_prims :: mac_prims where
  "demo_prims = \<lparr>mp_hash = (\<lambda>alg m. replicate (ssh_digest_bytes alg) 0), mp_umac = (\<lambda>big key nonce m. replicate (if big then 16 else 8) 0)\<rparr>"

lemma demo_prims_ok: "mac_prims_ok demo_prims"
  by (simp add: mac_prims_ok_def hashes_ok_def demo_prims_def)


end
