(* ===== verification/Packet.thy ===== *)
theory Packet
  imports Cipher Mac
begin

text \<open>
  The packet layer (\<^verbatim>\<open>packet.c\<close>): its state, sending a packet (compression, padding, MAC, encryption, the queue while keys are exchanged), and
  reading packets from the input buffer. Parameters, in the record \<open>env\<close>: the allocator, the primitives of the MACs, random bytes, the clock,
  zlib, the start of a key exchange (\<^verbatim>\<open>kex_start_rekex\<close>), writing out the output buffer (\<^verbatim>\<open>ssh_packet_write_wait\<close>) and the
  hook for incoming packets.
\<close>

subsection \<open>The state\<close>

definition PACKET_MAX_SIZE :: nat where "PACKET_MAX_SIZE = 256 * 1024"
definition MAX_PACKETS :: u32 where "MAX_PACKETS = push_bit 31 1"
definition SSH_MSG_NONE :: u8 where "SSH_MSG_NONE = 0"
definition SSH2_MSG_MIN :: u8 where "SSH2_MSG_MIN = 1"
definition SSH2_MSG_TRANSPORT_MIN :: u8 where "SSH2_MSG_TRANSPORT_MIN = 1"
definition SSH2_MSG_TRANSPORT_MAX :: u8 where "SSH2_MSG_TRANSPORT_MAX = 49"
definition SSH2_MSG_CONNECTION_MIN :: u8 where "SSH2_MSG_CONNECTION_MIN = 80"
definition SSH2_MSG_CONNECTION_MAX :: u8 where "SSH2_MSG_CONNECTION_MAX = 127"
definition SSH2_MSG_DISCONNECT :: u8 where "SSH2_MSG_DISCONNECT = 1"
definition SSH2_MSG_SERVICE_ACCEPT :: u8 where "SSH2_MSG_SERVICE_ACCEPT = 6"
definition SSH2_MSG_SERVICE_REQ :: u8 where "SSH2_MSG_SERVICE_REQ = 5"
definition SSH2_MSG_EXT_INFO :: u8 where "SSH2_MSG_EXT_INFO = 7"
definition SSH2_MSG_KEXINIT :: u8 where "SSH2_MSG_KEXINIT = 20"
definition SSH2_MSG_NEWKEYS :: u8 where "SSH2_MSG_NEWKEYS = 21"
definition SSH2_MSG_USERAUTH_SUCCESS :: u8 where "SSH2_MSG_USERAUTH_SUCCESS = 52"
definition SSH2_DISCONNECT_PROTOCOL_ERROR :: u32 where "SSH2_DISCONNECT_PROTOCOL_ERROR = 2"
definition COMP_ZLIB :: nat where "COMP_ZLIB = 1"
definition COMP_DELAYED :: nat where "COMP_DELAYED = 2"
definition SSH_BUG_NOREKEY :: u32 where "SSH_BUG_NOREKEY = 0x00008000"

record packet_state =
  seqnr :: u32
  packets :: u32
  blocks :: u64
  bytes :: u64

record sshenc =
  enc_cipher :: sshcipher
  enc_key :: "u8 list"
  enc_key_len :: nat
  enc_iv :: "u8 list option"
  enc_iv_len :: nat
  enc_block_size :: nat

record sshcomp =
  comp_type :: nat
  comp_enabled :: bool

record newkeys =
  nk_enc :: sshenc
  nk_mac :: sshmac
  nk_comp :: sshcomp

record kex =
  kex_done :: bool
  kex_keys_in :: "newkeys option"
  kex_keys_out :: "newkeys option"

text \<open>
  A zlib stream is determined by the blocks that have gone through it since it was opened. \<^verbatim>\<open>packet_discard_mac\<close>, which points
  to the MAC of the incoming keys or is null, is a truth value.
\<close>

type_synonym z_stream = "u8 list list"

record ssh =
  receive_context :: "sshcipher_ctx option"
  send_context :: "sshcipher_ctx option"
  input_buf :: sshbuf
  output_buf :: sshbuf
  outgoing_packet :: sshbuf
  incoming_packet :: sshbuf
  compression_buffer :: "sshbuf option"
  z_in :: z_stream
  z_out :: z_stream
  compression_in_started :: bool
  compression_out_started :: bool
  server_side :: bool
  after_authentication :: bool
  newkeys_in :: "newkeys option"
  newkeys_out :: "newkeys option"
  p_read :: packet_state
  p_send :: packet_state
  max_blocks_in :: u64
  max_blocks_out :: u64
  rekey_limit :: u64
  rekey_interval :: u32
  rekey_time :: int
  extra_pad :: u8
  packet_discard :: u32
  packet_discard_mac_already :: nat
  packet_discard_mac :: bool
  packlen :: u32
  rekeying :: bool
  mux :: bool
  outgoing :: "(u8 \<times> sshbuf) list"
  kex_state :: "kex option"
  compat :: u32

type_synonym 'a pop = "(ssherr, ssh, 'a) run"

record env =
  e_alloc :: allocator
  e_mem :: "nat \<Rightarrow> bool"
  e_prims :: mac_prims
  e_random :: "ssh \<Rightarrow> nat \<Rightarrow> u8 list"
  e_time :: "ssh \<Rightarrow> int"
  e_deflate :: "z_stream \<Rightarrow> u8 list \<Rightarrow> u8 list list \<times> ssherr option"
  e_inflate :: "z_stream \<Rightarrow> u8 list \<Rightarrow> u8 list list \<times> ssherr option"
  e_zinit :: "ssh \<Rightarrow> ssherr option"
  e_rekex :: "unit pop"
  e_write_wait :: "unit pop"
  e_hook_in :: "u8 \<Rightarrow> u8 pop"

text \<open>
  A new connection. The four buffers come from \<^verbatim>\<open>sshbuf_new\<close>; keys are not yet exchanged, so packets are queued.
\<close>

definition ssh_alloc_session_state :: "env \<Rightarrow> ssh option" where
  "ssh_alloc_session_state E =
     (if \<not> e_mem E 2 then None
      else case sshbuf_new (e_alloc E) of
        None \<Rightarrow> None
      | Some b \<Rightarrow> Some \<lparr>receive_context = None, send_context = None, input_buf = b, output_buf = b, outgoing_packet = b, incoming_packet = b,
          compression_buffer = None, z_in = [], z_out = [], compression_in_started = False, compression_out_started = False, server_side = False,
          after_authentication = False, newkeys_in = None, newkeys_out = None,
          p_read = \<lparr>seqnr = 0, packets = 0, blocks = 0, bytes = 0\<rparr>, p_send = \<lparr>seqnr = 0, packets = 0, blocks = 0, bytes = 0\<rparr>,
          max_blocks_in = 0, max_blocks_out = 0, rekey_limit = 0, rekey_interval = 0, rekey_time = 0, extra_pad = 0, packet_discard = 0,
          packet_discard_mac_already = 0, packet_discard_mac = False, packlen = 0, rekeying = True, mux = False, outgoing = [],
          kex_state = Some \<lparr>kex_done = False, kex_keys_in = None, kex_keys_out = None\<rparr>, compat = 0\<rparr>)"

definition ssh_packet_set_connection :: "env \<Rightarrow> ssh option \<Rightarrow> ssh option" where
  "ssh_packet_set_connection E ssh =
     (case cipher_by_name ''none'' of
        None \<Rightarrow> None
      | Some none \<Rightarrow>
          (case (case ssh of None \<Rightarrow> ssh_alloc_session_state E | Some s \<Rightarrow> Some s) of
             None \<Rightarrow> None
           | Some s \<Rightarrow>
               (case cipher_init (e_mem E) none [] 0 None 0 True of
                  Inl _ \<Rightarrow> None
                | Inr c \<Rightarrow>
                    (case cipher_init (e_mem E) none [] 0 None 0 False of
                       Inl _ \<Rightarrow> None
                     | Inr d \<Rightarrow> Some (s\<lparr>send_context := Some c, receive_context := Some d, newkeys_in := None, newkeys_out := None\<rparr>)))))"

definition ssh_packet_set_mux :: "ssh \<Rightarrow> ssh" where
  "ssh_packet_set_mux s = s\<lparr>mux := True, rekeying := False, kex_state := None\<rparr>"

text \<open>An operation on one of the buffers.\<close>

definition on_input :: "'a bufop \<Rightarrow> 'a pop" where
  "on_input m s = (case m (input_buf s) of (r, b) \<Rightarrow> (r, s\<lparr>input_buf := b\<rparr>))"

definition on_output :: "'a bufop \<Rightarrow> 'a pop" where
  "on_output m s = (case m (output_buf s) of (r, b) \<Rightarrow> (r, s\<lparr>output_buf := b\<rparr>))"

definition on_outgoing :: "'a bufop \<Rightarrow> 'a pop" where
  "on_outgoing m s = (case m (outgoing_packet s) of (r, b) \<Rightarrow> (r, s\<lparr>outgoing_packet := b\<rparr>))"

definition on_incoming :: "'a bufop \<Rightarrow> 'a pop" where
  "on_incoming m s = (case m (incoming_packet s) of (r, b) \<Rightarrow> (r, s\<lparr>incoming_packet := b\<rparr>))"

text \<open>The compression buffer exists when compression is enabled; on a null pointer the buffer operations would not return.\<close>

definition on_compression :: "'a bufop \<Rightarrow> 'a pop" where
  "on_compression m s =
     (case compression_buffer s of
        None \<Rightarrow> throw SSH_ERR_INTERNAL_ERROR s
      | Some c \<Rightarrow> (case m c of (r, b) \<Rightarrow> (r, s\<lparr>compression_buffer := Some b\<rparr>)))"

definition buf_reset :: "env \<Rightarrow> unit bufop" where
  "buf_reset E b = (Inr (), sshbuf_reset (e_alloc E) b)"

definition buf_append :: "env \<Rightarrow> u8 list \<Rightarrow> unit bufop" where
  "buf_append E bs = andthen (sshbuf_reserve (e_alloc E) (length bs)) (\<lambda>dp b. ret () (sshbuf_store dp bs b))"

definition modify :: "(ssh \<Rightarrow> ssh) \<Rightarrow> unit pop" where
  "modify f s = (Inr (), f s)"

subsection \<open>Keys\<close>

text \<open>What the two directions take from the keys in use: a MAC is used unless the cipher has a tag of its own.\<close>

definition nk_authlen :: "newkeys option \<Rightarrow> nat" where
  "nk_authlen nk = (case nk of None \<Rightarrow> 0 | Some k \<Rightarrow> cipher_authlen (enc_cipher (nk_enc k)))"

definition nk_block :: "newkeys option \<Rightarrow> nat" where
  "nk_block nk = (case nk of None \<Rightarrow> 8 | Some k \<Rightarrow> enc_block_size (nk_enc k))"

definition nk_active_mac :: "newkeys option \<Rightarrow> sshmac option" where
  "nk_active_mac nk =
     (case nk of
        None \<Rightarrow> None
      | Some k \<Rightarrow> if cipher_authlen (enc_cipher (nk_enc k)) \<noteq> 0 then None else if mac_enabled (nk_mac k) then Some (nk_mac k) else None)"

definition nk_etm :: "newkeys option \<Rightarrow> bool" where
  "nk_etm nk = (case nk_active_mac nk of None \<Rightarrow> False | Some m \<Rightarrow> mac_etm m)"

definition nk_aadlen :: "newkeys option \<Rightarrow> nat" where
  "nk_aadlen nk = (if nk_etm nk \<or> nk_authlen nk \<noteq> 0 then 4 else 0)"

definition nk_maclen :: "newkeys option \<Rightarrow> nat" where
  "nk_maclen nk = (case nk_active_mac nk of None \<Rightarrow> 0 | Some m \<Rightarrow> mac_len m)"

definition nk_compressed :: "newkeys option \<Rightarrow> bool" where
  "nk_compressed nk = (case nk of None \<Rightarrow> False | Some k \<Rightarrow> comp_enabled (nk_comp k))"

text \<open>Whether the keys have to be exchanged again before a packet of \<open>outbound_packet_len\<close> bytes.\<close>

definition ssh_packet_is_rekeying :: "ssh \<Rightarrow> bool" where
  "ssh_packet_is_rekeying s \<longleftrightarrow> rekeying s \<or> (case kex_state s of None \<Rightarrow> False | Some k \<Rightarrow> \<not> kex_done k)"

definition ssh_packet_need_rekeying :: "env \<Rightarrow> ssh \<Rightarrow> nat \<Rightarrow> bool" where
  "ssh_packet_need_rekeying E s outbound_packet_len \<longleftrightarrow>
     (if \<not> after_authentication s then False
      else if ssh_packet_is_rekeying s then False
      else if compat s AND SSH_BUG_NOREKEY \<noteq> 0 then False
      else if packets (p_send s) = 0 \<and> packets (p_read s) = 0 then False
      else if rekey_interval s \<noteq> 0 \<and> rekey_time s + uint (rekey_interval s) \<le> e_time E s then True
      else if packets (p_send s) > MAX_PACKETS \<or> packets (p_read s) > MAX_PACKETS then True
      else
        let out_blocks = (word_of_nat (ROUNDUP outbound_packet_len (nk_block (newkeys_out s))) :: u32) in
        (max_blocks_out s \<noteq> 0 \<and> blocks (p_send s) + ucast out_blocks > max_blocks_out s) \<or>
        (max_blocks_in s \<noteq> 0 \<and> blocks (p_read s) > max_blocks_in s))"

definition ssh_packet_check_rekey :: "env \<Rightarrow> unit pop" where
  "ssh_packet_check_rekey E s = (if \<not> ssh_packet_need_rekeying E s 0 then ret () s else e_rekex E s)"

definition ssh_packet_init_compression :: "env \<Rightarrow> unit pop" where
  "ssh_packet_init_compression E s =
     (case compression_buffer s of
        Some _ \<Rightarrow> ret () s
      | None \<Rightarrow> (case sshbuf_new (e_alloc E) of None \<Rightarrow> throw SSH_ERR_ALLOC_FAIL s | Some b \<Rightarrow> ret () (s\<lparr>compression_buffer := Some b\<rparr>)))"

definition start_compression_out :: "env \<Rightarrow> unit pop" where
  "start_compression_out E s =
     (case e_zinit E s of Some e \<Rightarrow> throw e s | None \<Rightarrow> ret () (s\<lparr>z_out := [], compression_out_started := True\<rparr>))"

definition start_compression_in :: "env \<Rightarrow> unit pop" where
  "start_compression_in E s =
     (case e_zinit E s of Some e \<Rightarrow> throw e s | None \<Rightarrow> ret () (s\<lparr>z_in := [], compression_in_started := True\<rparr>))"

text \<open>The directions: \<open>out\<close> tells which one.\<close>

definition get_newkeys :: "bool \<Rightarrow> ssh \<Rightarrow> newkeys option" where
  "get_newkeys dir s = (if dir then newkeys_out s else newkeys_in s)"

definition put_newkeys :: "bool \<Rightarrow> newkeys option \<Rightarrow> ssh \<Rightarrow> ssh" where
  "put_newkeys dir nk s = (if dir then s\<lparr>newkeys_out := nk\<rparr> else s\<lparr>newkeys_in := nk\<rparr>)"

definition put_context :: "bool \<Rightarrow> sshcipher_ctx option \<Rightarrow> ssh \<Rightarrow> ssh" where
  "put_context dir c s = (if dir then s\<lparr>send_context := c\<rparr> else s\<lparr>receive_context := c\<rparr>)"

definition enable_compression :: "env \<Rightarrow> bool \<Rightarrow> unit pop" where
  "enable_compression E dir =
     andthen (ssh_packet_init_compression E) (\<lambda>_.
     andthen (if dir then start_compression_out E else start_compression_in E) (\<lambda>_.
     modify (\<lambda>s. put_newkeys dir (map_option (\<lambda>k. k\<lparr>nk_comp := (nk_comp k)\<lparr>comp_enabled := True\<rparr>\<rparr>) (get_newkeys dir s)) s)))"

text \<open>The limit on the blocks, and the counters that start again with new keys.\<close>

definition block_limit :: "nat \<Rightarrow> u64 \<Rightarrow> u64" where
  "block_limit bs limit =
     (let m = (if bs \<ge> 16 then push_bit (bs * 2) 1 else push_bit 30 1 div word_of_nat bs)
      in if limit \<noteq> 0 then min m (limit div word_of_nat bs) else m)"

definition reset_counters :: "bool \<Rightarrow> ssh \<Rightarrow> ssh" where
  "reset_counters dir s =
     (if dir then s\<lparr>newkeys_out := None, p_send := (p_send s)\<lparr>packets := 0, blocks := 0\<rparr>\<rparr>
      else s\<lparr>newkeys_in := None, p_read := (p_read s)\<lparr>packets := 0, blocks := 0\<rparr>\<rparr>)"

definition take_keys :: "bool \<Rightarrow> newkeys pop" where
  "take_keys dir s =
     (case kex_state s of
        None \<Rightarrow> throw SSH_ERR_INTERNAL_ERROR s
      | Some kx \<Rightarrow>
          (case (if dir then kex_keys_out kx else kex_keys_in kx) of
             None \<Rightarrow> throw SSH_ERR_INTERNAL_ERROR s
           | Some k \<Rightarrow> ret k (put_newkeys dir (Some k) (s\<lparr>kex_state := Some (if dir then kx\<lparr>kex_keys_out := None\<rparr> else kx\<lparr>kex_keys_in := None\<rparr>)\<rparr>))))"

definition init_mac :: "env \<Rightarrow> bool \<Rightarrow> newkeys \<Rightarrow> unit pop" where
  "init_mac E dir k s =
     (if cipher_authlen (enc_cipher (nk_enc k)) = 0
      then (case mac_init (e_prims E) (e_mem E 0) (nk_mac k) of
              (Inl e, m) \<Rightarrow> throw e (put_newkeys dir (Some (k\<lparr>nk_mac := m\<rparr>)) s)
            | (Inr _, m) \<Rightarrow> ret () (put_newkeys dir (Some (k\<lparr>nk_mac := m\<lparr>mac_enabled := True\<rparr>\<rparr>)) s))
      else ret () (put_newkeys dir (Some (k\<lparr>nk_mac := (nk_mac k)\<lparr>mac_enabled := True\<rparr>\<rparr>)) s))"

definition init_cipher :: "env \<Rightarrow> bool \<Rightarrow> sshenc \<Rightarrow> unit pop" where
  "init_cipher E dir enc s =
     (case cipher_init (e_mem E) (enc_cipher enc) (enc_key enc) (enc_key_len enc) (enc_iv enc) (enc_iv_len enc) dir of
        Inl e \<Rightarrow> throw e (put_context dir None s)
      | Inr c \<Rightarrow> ret () (put_context dir (Some c) s))"

definition ssh_set_newkeys :: "env \<Rightarrow> bool \<Rightarrow> unit pop" where
  "ssh_set_newkeys E dir =
     andthen (modify (reset_counters dir)) (\<lambda>_.
     andthen (take_keys dir) (\<lambda>k.
     andthen (init_mac E dir k) (\<lambda>_.
     andthen (init_cipher E dir (nk_enc k)) (\<lambda>_.
     andthen (\<lambda>s. if (comp_type (nk_comp k) = COMP_ZLIB \<or> (comp_type (nk_comp k) = COMP_DELAYED \<and> after_authentication s)) \<and> \<not> comp_enabled (nk_comp k)
                  then enable_compression E dir s else ret () s) (\<lambda>_.
     modify (\<lambda>s. let m = block_limit (enc_block_size (nk_enc k)) (rekey_limit s)
                 in if dir then s\<lparr>max_blocks_out := m\<rparr> else s\<lparr>max_blocks_in := m\<rparr>))))))"

definition delayed_compress :: "env \<Rightarrow> bool \<Rightarrow> unit pop" where
  "delayed_compress E dir s =
     (case get_newkeys dir s of
        None \<Rightarrow> ret () s
      | Some k \<Rightarrow> if \<not> comp_enabled (nk_comp k) \<and> comp_type (nk_comp k) = COMP_DELAYED then enable_compression E dir s else ret () s)"

definition ssh_packet_enable_delayed_compress :: "env \<Rightarrow> unit pop" where
  "ssh_packet_enable_delayed_compress E =
     andthen (modify (\<lambda>s. s\<lparr>after_authentication := True\<rparr>)) (\<lambda>_.
     andthen (delayed_compress E False) (\<lambda>_. delayed_compress E True))"

subsection \<open>Sending\<close>

text \<open>Compression in chunks; the stream has taken the block even when storing a chunk fails.\<close>

definition compress_buffer :: "env \<Rightarrow> sshbuf \<Rightarrow> unit pop" where
  "compress_buffer E inb s =
     (if \<not> compression_out_started s then throw SSH_ERR_INTERNAL_ERROR s
      else if sshbuf_len inb = 0 then ret () s
      else if sshbuf_mutable_ptr inb = None then throw SSH_ERR_INTERNAL_ERROR s
      else case e_deflate E (z_out s) (sshbuf_seen inb) of (chunks, err) \<Rightarrow>
        andthen (on_compression (put_all (sshbuf_put (e_alloc E)) chunks)) (\<lambda>_. case err of None \<Rightarrow> ret () | Some e \<Rightarrow> throw e)
          (s\<lparr>z_out := z_out s @ [sshbuf_seen inb]\<rparr>))"

definition uncompress_buffer :: "env \<Rightarrow> sshbuf \<Rightarrow> unit pop" where
  "uncompress_buffer E inb s =
     (if \<not> compression_in_started s then throw SSH_ERR_INTERNAL_ERROR s
      else if sshbuf_mutable_ptr inb = None then throw SSH_ERR_INTERNAL_ERROR s
      else case e_inflate E (z_in s) (sshbuf_seen inb) of (chunks, err) \<Rightarrow>
        andthen (on_compression (put_all (sshbuf_put (e_alloc E)) chunks)) (\<lambda>_. case err of None \<Rightarrow> ret () | Some e \<Rightarrow> throw e)
          (s\<lparr>z_in := z_in s @ [sshbuf_seen inb]\<rparr>))"

definition send_compress :: "env \<Rightarrow> unit pop" where
  "send_compress E s =
     (if nk_compressed (newkeys_out s)
      then andthen (on_outgoing (sshbuf_consume 5)) (\<lambda>_.
           andthen (on_compression (buf_reset E)) (\<lambda>_.
           andthen (\<lambda>s. compress_buffer E (outgoing_packet s) s) (\<lambda>_.
           andthen (on_outgoing (buf_reset E)) (\<lambda>_.
           andthen (on_outgoing (sshbuf_put (e_alloc E) (replicate 5 0))) (\<lambda>_ s.
           on_outgoing (sshbuf_putb (e_alloc E) (compression_buffer s)) s))))) s
      else ret () s)"

text \<open>The length of the padding, in a byte, and the extra padding that a caller has asked for.\<close>

definition pad_length :: "nat \<Rightarrow> nat \<Rightarrow> u8" where
  "pad_length block_size len =
     (let padlen = word_of_nat (block_size - len mod block_size) in if padlen < 4 then padlen + word_of_nat block_size else padlen)"

definition extra_padding :: "nat \<Rightarrow> nat \<Rightarrow> u8 \<Rightarrow> u8 pop" where
  "extra_padding block_size len padlen s =
     (if extra_pad s = 0 then ret padlen s
      else
        let tmp = extra_pad s; s = s\<lparr>extra_pad := word_of_nat (ROUNDUP (unat tmp) block_size)\<rparr> in
        if extra_pad s < tmp then throw SSH_ERR_INVALID_ARGUMENT s
        else
          let tmp = word_of_nat ((len + unat padlen) mod unat (extra_pad s)) in
          if tmp > extra_pad s then throw SSH_ERR_INVALID_ARGUMENT s
          else
            let pad = extra_pad s - tmp; tmp = padlen; padlen = padlen + pad in
            if padlen < tmp then throw SSH_ERR_INVALID_ARGUMENT s else ret padlen (s\<lparr>extra_pad := 0\<rparr>))"

definition pad_bytes :: "env \<Rightarrow> ssh \<Rightarrow> nat \<Rightarrow> u8 list" where
  "pad_bytes E s n =
     (if newkeys_out s \<noteq> None \<and> (case send_context s of None \<Rightarrow> False | Some c \<Rightarrow> \<not> cipher_ctx_is_plaintext c)
      then take n (e_random E s n @ replicate n 0) else replicate n 0)"

text \<open>The length fields are stored at the beginning of the packet.\<close>

definition poke_header :: "u8 \<Rightarrow> unit bufop" where
  "poke_header padlen b =
     (if sshbuf_mutable_ptr b = None then throw SSH_ERR_INTERNAL_ERROR b
      else ret () (sshbuf_store (sb_off b) (POKE_U32 (word_of_nat (sshbuf_len b - 4)) @ [padlen]) b))"

definition send_pad :: "env \<Rightarrow> unit pop" where
  "send_pad E s =
     (let bs = nk_block (newkeys_out s); len = sshbuf_len (outgoing_packet s) - nk_aadlen (newkeys_out s) in
      andthen (extra_padding bs len (pad_length bs len)) (\<lambda>padlen.
      andthen (\<lambda>s. on_outgoing (buf_append E (pad_bytes E s (unat padlen))) s) (\<lambda>_.
      on_outgoing (poke_header padlen))) s)"

text \<open>The MAC of outgoing packets; the context of an HMAC changes when it computes.\<close>

definition mac_out :: "env \<Rightarrow> u8 list \<Rightarrow> u8 list pop" where
  "mac_out E data s =
     (case newkeys_out s of
        None \<Rightarrow> throw SSH_ERR_INTERNAL_ERROR s
      | Some k \<Rightarrow>
          (case mac_compute (e_prims E) (e_mem E 0) (nk_mac k) (seqnr (p_send s)) data SSH_DIGEST_MAX_LENGTH of
             (r, m) \<Rightarrow> (r, s\<lparr>newkeys_out := Some (k\<lparr>nk_mac := m\<rparr>)\<rparr>)))"

text \<open>The packet is encrypted into the space that is reserved in the output buffer; the result is what was stored.\<close>

definition send_crypt :: "env \<Rightarrow> u8 list pop" where
  "send_crypt E s =
     (let aad = nk_aadlen (newkeys_out s); auth = nk_authlen (newkeys_out s); p = sshbuf_seen (outgoing_packet s) in
      andthen (on_output (sshbuf_reserve (e_alloc E) (length p + auth))) (\<lambda>dp s.
        case send_context s of
          None \<Rightarrow> throw SSH_ERR_INTERNAL_ERROR s
        | Some c \<Rightarrow>
            (case cipher_crypt c (seqnr (p_send s)) p (length p - aad) aad auth of
               (Inl e, c) \<Rightarrow> throw e (s\<lparr>send_context := Some c\<rparr>)
             | (Inr ct, c) \<Rightarrow> ret ct (s\<lparr>send_context := Some c, output_buf := sshbuf_store dp ct (output_buf s)\<rparr>))) s)"

definition send_protected :: "env \<Rightarrow> unit pop" where
  "send_protected E s =
     (let nk = newkeys_out s; len = sshbuf_len (outgoing_packet s) in
      andthen (\<lambda>s. if nk_active_mac nk \<noteq> None \<and> \<not> nk_etm nk then mac_out E (sshbuf_seen (outgoing_packet s)) s else ret [] s) (\<lambda>macbuf.
      andthen (send_crypt E) (\<lambda>ct.
      if nk_active_mac nk \<noteq> None
      then andthen (if nk_etm nk then mac_out E (take len ct) else ret macbuf) (\<lambda>macbuf.
           on_output (sshbuf_put (e_alloc E) (take (nk_maclen nk) macbuf)))
      else ret ())) s)"

definition count_sent :: "nat \<Rightarrow> nat \<Rightarrow> unit pop" where
  "count_sent block_size len s =
     (let s = s\<lparr>p_send := (p_send s)\<lparr>seqnr := seqnr (p_send s) + 1, packets := packets (p_send s) + 1\<rparr>\<rparr> in
      if packets (p_send s) = 0 \<and> compat s AND SSH_BUG_NOREKEY = 0 then throw SSH_ERR_NEED_REKEY s
      else ret () (s\<lparr>p_send := (p_send s)\<lparr>blocks := blocks (p_send s) + word_of_nat (len div block_size), bytes := bytes (p_send s) + word_of_nat len\<rparr>\<rparr>))"

definition ssh_packet_send2_wrapped :: "env \<Rightarrow> unit pop" where
  "ssh_packet_send2_wrapped E s =
     (let type = sshbuf_seen (outgoing_packet s) ! 5; bs = nk_block (newkeys_out s) in
      andthen (send_compress E) (\<lambda>_.
      andthen (send_pad E) (\<lambda>_ s.
      let len = sshbuf_len (outgoing_packet s) in
      andthen (send_protected E) (\<lambda>_.
      andthen (count_sent bs len) (\<lambda>_.
      andthen (on_outgoing (buf_reset E)) (\<lambda>_ s.
      if type = SSH2_MSG_NEWKEYS then ssh_set_newkeys E True s
      else if type = SSH2_MSG_USERAUTH_SUCCESS \<and> server_side s then ssh_packet_enable_delayed_compress E s
      else ret () s))) s)) s)"

definition ssh_packet_type_is_kex :: "u8 \<Rightarrow> bool" where
  "ssh_packet_type_is_kex type \<longleftrightarrow> type \<ge> SSH2_MSG_TRANSPORT_MIN \<and> type \<le> SSH2_MSG_TRANSPORT_MAX \<and>
     type \<noteq> SSH2_MSG_SERVICE_REQ \<and> type \<noteq> SSH2_MSG_SERVICE_ACCEPT \<and> type \<noteq> SSH2_MSG_EXT_INFO"

text \<open>
  After the new keys the queue is sent. Each turn removes one packet and nothing is added, so the length of the queue bounds the turns.
\<close>

fun send_queue :: "env \<Rightarrow> nat \<Rightarrow> unit pop" where
  "send_queue E 0 s = ret () s"
| "send_queue E (Suc n) s =
     (case outgoing s of
        [] \<Rightarrow> ret () s
      | (type, p) # q \<Rightarrow>
          if ssh_packet_need_rekeying E s (sshbuf_len p) then e_rekex E s
          else andthen (ssh_packet_send2_wrapped E) (\<lambda>_. send_queue E n) (s\<lparr>outgoing_packet := p, outgoing := q\<rparr>))"

text \<open>When there is no memory for the next buffer, the pointer to it is null in the code; the model keeps the old buffer there.\<close>

definition enqueue :: "env \<Rightarrow> u8 \<Rightarrow> unit pop" where
  "enqueue E type s =
     (if \<not> e_mem E 1 then throw SSH_ERR_ALLOC_FAIL s
      else
        let s' = s\<lparr>outgoing := outgoing s @ [(type, outgoing_packet s)]\<rparr> in
        case sshbuf_new (e_alloc E) of None \<Rightarrow> throw SSH_ERR_ALLOC_FAIL s' | Some b \<Rightarrow> ret () (s'\<lparr>outgoing_packet := b\<rparr>))"

definition ssh_packet_send2 :: "env \<Rightarrow> unit pop" where
  "ssh_packet_send2 E s =
     (if sshbuf_len (outgoing_packet s) < 6 then throw SSH_ERR_INTERNAL_ERROR s
      else
        let type = sshbuf_seen (outgoing_packet s) ! 5;
            need_rekey = (\<not> ssh_packet_type_is_kex type \<and> ssh_packet_need_rekeying E s (sshbuf_len (outgoing_packet s))) in
        if (need_rekey \<or> rekeying s) \<and> \<not> ssh_packet_type_is_kex type
        then andthen (enqueue E type) (\<lambda>_. if need_rekey then e_rekex E else ret ()) s
        else
          andthen (ssh_packet_send2_wrapped E) (\<lambda>_ s.
            if type = SSH2_MSG_NEWKEYS
            then let s = s\<lparr>rekeying := False, rekey_time := e_time E s\<rparr> in send_queue E (length (outgoing s)) s
            else ret () s) (if type = SSH2_MSG_KEXINIT then s\<lparr>rekeying := True\<rparr> else s))"

text \<open>Building a packet, and the message that ends the connection.\<close>

definition sshpkt_start :: "env \<Rightarrow> u8 \<Rightarrow> unit pop" where
  "sshpkt_start E type = andthen (on_outgoing (buf_reset E)) (\<lambda>_. on_outgoing (sshbuf_put (e_alloc E) [0, 0, 0, 0, 0, type]))"

definition sshpkt_put :: "env \<Rightarrow> u8 list \<Rightarrow> unit pop" where "sshpkt_put E v = on_outgoing (sshbuf_put (e_alloc E) v)"
definition sshpkt_putb :: "env \<Rightarrow> sshbuf option \<Rightarrow> unit pop" where "sshpkt_putb E b = on_outgoing (sshbuf_putb (e_alloc E) b)"
definition sshpkt_put_u8 :: "env \<Rightarrow> u8 \<Rightarrow> unit pop" where "sshpkt_put_u8 E val = on_outgoing (sshbuf_put_u8 (e_alloc E) val)"
definition sshpkt_put_u32 :: "env \<Rightarrow> u32 \<Rightarrow> unit pop" where "sshpkt_put_u32 E val = on_outgoing (sshbuf_put_u32 (e_alloc E) val)"
definition sshpkt_put_u64 :: "env \<Rightarrow> u64 \<Rightarrow> unit pop" where "sshpkt_put_u64 E val = on_outgoing (sshbuf_put_u64 (e_alloc E) val)"
definition sshpkt_put_string :: "env \<Rightarrow> u8 list \<Rightarrow> unit pop" where "sshpkt_put_string E v = on_outgoing (sshbuf_put_string (e_alloc E) v)"
definition sshpkt_put_cstring :: "env \<Rightarrow> u8 list option \<Rightarrow> unit pop" where "sshpkt_put_cstring E v = on_outgoing (sshbuf_put_cstring (e_alloc E) v)"
definition sshpkt_put_stringb :: "env \<Rightarrow> sshbuf option \<Rightarrow> unit pop" where "sshpkt_put_stringb E v = on_outgoing (sshbuf_put_stringb (e_alloc E) v)"

definition ssh_packet_send_mux :: "env \<Rightarrow> unit pop" where
  "ssh_packet_send_mux E s =
     (if kex_state s \<noteq> None then throw SSH_ERR_INTERNAL_ERROR s
      else
        let len = sshbuf_len (outgoing_packet s); type = sshbuf_seen (outgoing_packet s) ! 5 in
        if len < 6 then throw SSH_ERR_INTERNAL_ERROR s
        else
          andthen (\<lambda>s. if type \<ge> SSH2_MSG_CONNECTION_MIN \<and> type \<le> SSH2_MSG_CONNECTION_MAX
                       then let s = s\<lparr>outgoing_packet := sshbuf_store (sb_off (outgoing_packet s)) (POKE_U32 (word_of_nat (len - 4))) (outgoing_packet s)\<rparr>
                            in on_output (sshbuf_putb (e_alloc E) (Some (outgoing_packet s))) s
                       else ret () s) (\<lambda>_.
          on_outgoing (buf_reset E)) s)"

definition sshpkt_send :: "env \<Rightarrow> unit pop" where
  "sshpkt_send E s = (if mux s then ssh_packet_send_mux E s else ssh_packet_send2 E s)"

definition sshpkt_disconnect :: "env \<Rightarrow> u8 list \<Rightarrow> unit pop" where
  "sshpkt_disconnect E msg =
     andthen (sshpkt_start E SSH2_MSG_DISCONNECT) (\<lambda>_.
     andthen (sshpkt_put_u32 E SSH2_DISCONNECT_PROTOCOL_ERROR) (\<lambda>_.
     andthen (sshpkt_put_cstring E (Some msg)) (\<lambda>_.
     andthen (sshpkt_put_cstring E (Some [])) (\<lambda>_. sshpkt_send E))))"

text \<open>The text of a message, as bytes; a number in it is decimal.\<close>

definition ascii :: "string \<Rightarrow> u8 list" where
  "ascii = map (\<lambda>c. word_of_nat (ccode c))"

fun dec_digits :: "nat \<Rightarrow> string" where
  "dec_digits n = (if n < 10 then [] else dec_digits (n div 10)) @ [char_of (48 + n mod 10)]"

declare dec_digits.simps [simp del]

definition sshpkt_add_padding :: "u8 \<Rightarrow> unit pop" where
  "sshpkt_add_padding pad = modify (\<lambda>s. s\<lparr>extra_pad := pad\<rparr>)"

text \<open>Settings.\<close>

definition ssh_packet_set_rekey_limits :: "u64 \<Rightarrow> u32 \<Rightarrow> ssh \<Rightarrow> ssh" where
  "ssh_packet_set_rekey_limits limit seconds s = s\<lparr>rekey_limit := limit, rekey_interval := seconds\<rparr>"

definition ssh_packet_set_server :: "ssh \<Rightarrow> ssh" where
  "ssh_packet_set_server s = s\<lparr>server_side := True\<rparr>"

definition ssh_packet_set_authenticated :: "ssh \<Rightarrow> ssh" where
  "ssh_packet_set_authenticated s = s\<lparr>after_authentication := True\<rparr>"

definition ssh_packet_set_postauth :: "env \<Rightarrow> unit pop" where
  "ssh_packet_set_postauth E s = ssh_packet_enable_delayed_compress E (s\<lparr>after_authentication := True, rekeying := False\<rparr>)"

subsection \<open>Discarding\<close>

text \<open>
  After an error with a CBC cipher more input is read and a MAC computed over it. The buffer is filled with blocks of 1024 bytes; the number
  of turns is bounded by the length that is aimed at.
\<close>

primrec fill_discard :: "env \<Rightarrow> nat \<Rightarrow> nat \<Rightarrow> unit pop" where
  "fill_discard E dlen 0 = ret ()"
| "fill_discard E dlen (Suc n) = (\<lambda>s.
     if sshbuf_len (incoming_packet s) < dlen
     then andthen (on_incoming (sshbuf_put (e_alloc E) (replicate 1024 97))) (\<lambda>_. fill_discard E dlen n) s
     else ret () s)"

definition ssh_packet_stop_discard :: "env \<Rightarrow> unit pop" where
  "ssh_packet_stop_discard E s =
     (if packet_discard_mac s
      then
        let dlen = (if PACKET_MAX_SIZE > packet_discard_mac_already s then PACKET_MAX_SIZE - packet_discard_mac_already s else PACKET_MAX_SIZE) in
        andthen (fill_discard E dlen (dlen div 1024 + 1)) (\<lambda>_ s.
          throw SSH_ERR_MAC_INVALID
            (case newkeys_in s of
               None \<Rightarrow> s
             | Some k \<Rightarrow> s\<lparr>newkeys_in := Some (k\<lparr>nk_mac := snd (mac_compute (e_prims E) (e_mem E 0) (nk_mac k) (seqnr (p_read s))
                              (take dlen (sshbuf_seen (incoming_packet s))) 0)\<rparr>)\<rparr>)) s
      else throw SSH_ERR_MAC_INVALID s)"

definition ssh_packet_start_discard :: "env \<Rightarrow> nat \<Rightarrow> nat \<Rightarrow> unit pop" where
  "ssh_packet_start_discard E mac_already discard s =
     (if (case newkeys_in s of
            None \<Rightarrow> True
          | Some k \<Rightarrow> \<not> cipher_is_cbc (enc_cipher (nk_enc k)) \<or> (cipher_authlen (enc_cipher (nk_enc k)) = 0 \<and> mac_etm (nk_mac k)))
      then andthen (sshpkt_disconnect E (ascii ''Packet corrupt'')) (\<lambda>_. throw SSH_ERR_MAC_INVALID) s
      else
        let s = (if nk_active_mac (newkeys_in s) \<noteq> None then s\<lparr>packet_discard_mac := True, packet_discard_mac_already := mac_already\<rparr> else s) in
        if sshbuf_len (input_buf s) \<ge> discard then ssh_packet_stop_discard E s
        else ret () (s\<lparr>packet_discard := word_of_nat (discard - sshbuf_len (input_buf s))\<rparr>))"

subsection \<open>Reading\<close>

definition packlen_bad :: "ssh \<Rightarrow> bool" where
  "packlen_bad s \<longleftrightarrow> packlen s < 1 + 4 \<or> unat (packlen s) > PACKET_MAX_SIZE"

text \<open>
  The length of the packet, when it is not known yet: either in clear or decrypted on its own, or in the first block, which is then decrypted. The result is
  \<open>False\<close> when no packet can be read, because there is not enough input or the packet is being discarded.
\<close>

definition read_length_ahead :: "env \<Rightarrow> bool pop" where
  "read_length_ahead E s =
     (case receive_context s of
        None \<Rightarrow> throw SSH_ERR_INTERNAL_ERROR s
      | Some c \<Rightarrow>
          (case cipher_get_length c (seqnr (p_read s)) (sshbuf_seen (input_buf s)) of
             (Inl _, c) \<Rightarrow> ret False (s\<lparr>receive_context := Some c\<rparr>)
           | (Inr n, c) \<Rightarrow>
               let s = s\<lparr>receive_context := Some c, packlen := n\<rparr> in
               if packlen_bad s then andthen (sshpkt_disconnect E (ascii ''Packet corrupt'')) (\<lambda>_. throw SSH_ERR_CONN_CORRUPT) s
               else andthen (on_incoming (buf_reset E)) (\<lambda>_. ret True) s))"

definition read_first_block :: "env \<Rightarrow> bool pop" where
  "read_first_block E s =
     (let bs = nk_block (newkeys_in s) in
      if sshbuf_len (input_buf s) < bs then ret False s
      else
        andthen (on_incoming (buf_reset E)) (\<lambda>_.
        andthen (on_incoming (sshbuf_reserve (e_alloc E) bs)) (\<lambda>dp s.
          case receive_context s of
            None \<Rightarrow> throw SSH_ERR_INTERNAL_ERROR s
          | Some c \<Rightarrow>
              (case cipher_crypt c (seqnr (p_send s)) (sshbuf_seen (input_buf s)) bs 0 0 of
                 (Inl e, c) \<Rightarrow> throw e (s\<lparr>receive_context := Some c\<rparr>)
               | (Inr p, c) \<Rightarrow>
                   let s = s\<lparr>receive_context := Some c, incoming_packet := sshbuf_store dp p (incoming_packet s)\<rparr>;
                       s = s\<lparr>packlen := PEEK_U32 (sshbuf_seen (incoming_packet s))\<rparr> in
                   if packlen_bad s then andthen (ssh_packet_start_discard E 0 PACKET_MAX_SIZE) (\<lambda>_. ret False) s
                   else andthen (on_input (sshbuf_consume bs)) (\<lambda>_. ret True) s))) s)"

definition read_length :: "env \<Rightarrow> bool pop" where
  "read_length E s =
     (if packlen s \<noteq> 0 then ret True s
      else if nk_aadlen (newkeys_in s) \<noteq> 0 then read_length_ahead E s
      else read_first_block E s)"

definition mac_in :: "env \<Rightarrow> u8 list \<Rightarrow> u8 list \<Rightarrow> unit pop" where
  "mac_in E data theirmac s =
     (case newkeys_in s of
        None \<Rightarrow> throw SSH_ERR_INTERNAL_ERROR s
      | Some k \<Rightarrow>
          (case mac_check (e_prims E) (e_mem E 0) (nk_mac k) (seqnr (p_read s)) data theirmac of
             (r, m) \<Rightarrow> (r, s\<lparr>newkeys_in := Some (k\<lparr>nk_mac := m\<rparr>)\<rparr>)))"

definition read_crypt :: "env \<Rightarrow> nat \<Rightarrow> unit pop" where
  "read_crypt E need s =
     (let aad = nk_aadlen (newkeys_in s); auth = nk_authlen (newkeys_in s) in
      andthen (on_incoming (sshbuf_reserve (e_alloc E) (aad + need))) (\<lambda>dp s.
        case receive_context s of
          None \<Rightarrow> throw SSH_ERR_INTERNAL_ERROR s
        | Some c \<Rightarrow>
            (case cipher_crypt c (seqnr (p_read s)) (sshbuf_seen (input_buf s)) need aad auth of
               (Inl e, c) \<Rightarrow> throw e (s\<lparr>receive_context := Some c\<rparr>)
             | (Inr p, c) \<Rightarrow> on_input (sshbuf_consume (aad + need + auth))
                 (s\<lparr>receive_context := Some c, incoming_packet := sshbuf_store dp p (incoming_packet s)\<rparr>))) s)"

text \<open>
  The MAC over the clear text. A wrong one ends the packet: the result is \<open>False\<close> when it is being discarded.
\<close>

definition read_mac :: "env \<Rightarrow> nat \<Rightarrow> bool pop" where
  "read_mac E need s =
     (let nk = newkeys_in s; finish = andthen (on_input (sshbuf_consume (nk_maclen nk))) (\<lambda>_. ret True) in
      if nk_active_mac nk = None then ret True s
      else if nk_etm nk then finish s
      else
        (case mac_in E (sshbuf_seen (incoming_packet s)) (take (nk_maclen nk) (sshbuf_seen (input_buf s))) s of
           (Inr _, s) \<Rightarrow> finish s
         | (Inl e, s) \<Rightarrow>
             if e \<noteq> SSH_ERR_MAC_INVALID then throw e s
             else if need + nk_block nk > PACKET_MAX_SIZE then throw SSH_ERR_INTERNAL_ERROR s
             else andthen (ssh_packet_start_discard E (sshbuf_len (incoming_packet s)) (PACKET_MAX_SIZE - need - nk_block nk)) (\<lambda>_. ret False) s))"

definition count_read :: "nat \<Rightarrow> u32 pop" where
  "count_read block_size s =
     (let q = seqnr (p_read s); s = s\<lparr>p_read := (p_read s)\<lparr>seqnr := seqnr (p_read s) + 1, packets := packets (p_read s) + 1\<rparr>\<rparr> in
      if packets (p_read s) = 0 \<and> compat s AND SSH_BUG_NOREKEY = 0 then throw SSH_ERR_NEED_REKEY s
      else ret q (s\<lparr>p_read := (p_read s)\<lparr>blocks := blocks (p_read s) + ucast ((packlen s + 4) div word_of_nat block_size), bytes := bytes (p_read s) + ucast (packlen s + 4)\<rparr>\<rparr>))"

definition uncompress_incoming :: "env \<Rightarrow> unit pop" where
  "uncompress_incoming E =
     andthen (on_compression (buf_reset E)) (\<lambda>_.
     andthen (\<lambda>s. uncompress_buffer E (incoming_packet s) s) (\<lambda>_.
     andthen (on_incoming (buf_reset E)) (\<lambda>_ s.
     on_incoming (sshbuf_putb (e_alloc E) (compression_buffer s)) s)))"

text \<open>The padding is removed and the payload uncompressed.\<close>

definition read_payload :: "env \<Rightarrow> unit pop" where
  "read_payload E s =
     (let padlen = unat (sshbuf_seen (incoming_packet s) ! 4) in
      if padlen < 4
      then andthen (sshpkt_disconnect E (ascii (''Corrupted padlen '' @ dec_digits padlen @ '' on input.''))) (\<lambda>_. andthen (e_write_wait E) (\<lambda>_. throw SSH_ERR_CONN_CORRUPT)) s
      else
        andthen (on_incoming (sshbuf_consume (4 + 1))) (\<lambda>_.
        andthen (on_incoming (sshbuf_consume_end padlen)) (\<lambda>_ s.
        if nk_compressed (newkeys_in s)
        then uncompress_incoming E s else ret () s)) s)"

text \<open>The type of the packet. An error of the delayed start of compression is overwritten by the result of the check for a new key exchange.\<close>

definition read_type :: "env \<Rightarrow> u8 pop" where
  "read_type E =
     andthen (on_incoming sshbuf_get_u8) (\<lambda>type.
       if type < SSH2_MSG_MIN
       then andthen (sshpkt_disconnect E (ascii (''Invalid ssh2 packet type: '' @ dec_digits (unat type)))) (\<lambda>_. andthen (e_write_wait E) (\<lambda>_. throw SSH_ERR_PROTOCOL_ERROR))
       else
         andthen (e_hook_in E type) (\<lambda>type s.
           let s = (if type = SSH2_MSG_USERAUTH_SUCCESS \<and> \<not> server_side s then snd (ssh_packet_enable_delayed_compress E s) else s) in
           andthen (ssh_packet_check_rekey E) (\<lambda>_. ret type) (s\<lparr>packlen := 0\<rparr>)))"

definition read_needed :: "ssh \<Rightarrow> u32" where
  "read_needed s =
     (if nk_aadlen (newkeys_in s) \<noteq> 0 then packlen s else 4 + packlen s - word_of_nat (nk_block (newkeys_in s)))"

text \<open>A MAC over the encrypted packet is checked in front of the decryption, one over the clear text after it.\<close>

definition read_protected :: "env \<Rightarrow> nat \<Rightarrow> bool pop" where
  "read_protected E need s =
     (let nk = newkeys_in s; aad = nk_aadlen nk; auth = nk_authlen nk in
      andthen (if nk_etm nk
               then mac_in E (take (aad + need) (sshbuf_seen (input_buf s))) (take (nk_maclen nk) (drop (aad + need + auth) (sshbuf_seen (input_buf s))))
               else ret ()) (\<lambda>_.
      andthen (read_crypt E need) (\<lambda>_. read_mac E need)) s)"

definition read_packet :: "env \<Rightarrow> (u8 \<times> u32) pop" where
  "read_packet E s =
     (let nk = newkeys_in s; bs = nk_block nk; need = unat (read_needed s) in
      if need mod bs \<noteq> 0 then andthen (ssh_packet_start_discard E 0 (PACKET_MAX_SIZE - bs)) (\<lambda>_. ret (SSH_MSG_NONE, 0)) s
      else if sshbuf_len (input_buf s) < unat (word_of_nat (nk_aadlen nk) + word_of_nat need + word_of_nat (nk_authlen nk) + word_of_nat (nk_maclen nk) :: u32)
      then ret (SSH_MSG_NONE, 0) s
      else
        andthen (read_protected E need) (\<lambda>good.
        if \<not> good then ret (SSH_MSG_NONE, 0)
        else
          andthen (count_read bs) (\<lambda>q.
          andthen (read_payload E) (\<lambda>_.
          andthen (read_type E) (\<lambda>type. ret (type, q))))) s)"

definition ssh_packet_read_poll2_mux :: "env \<Rightarrow> (u8 \<times> u32) pop" where
  "ssh_packet_read_poll2_mux E s =
     (if kex_state s \<noteq> None then throw SSH_ERR_INTERNAL_ERROR s
      else if packlen s = 0 \<and> sshbuf_len (input_buf s) < 4 + 1 then ret (SSH_MSG_NONE, 0) s
      else
        let fresh = (packlen s = 0); s = (if fresh then s\<lparr>packlen := PEEK_U32 (sshbuf_seen (input_buf s))\<rparr> else s) in
        if fresh \<and> packlen_bad s then throw SSH_ERR_MESSAGE_INCOMPLETE s
        else
          let need = unat (packlen s + 4) in
          if sshbuf_len (input_buf s) < need then ret (SSH_MSG_NONE, 0) s
          else
            andthen (on_incoming (buf_reset E)) (\<lambda>_.
            andthen (on_incoming (sshbuf_put (e_alloc E) (take (unat (packlen s)) (drop 4 (sshbuf_seen (input_buf s)))))) (\<lambda>_.
            andthen (on_input (sshbuf_consume need)) (\<lambda>_.
            andthen (on_incoming sshbuf_get_u8) (\<lambda>_.
            andthen (on_incoming sshbuf_get_u8) (\<lambda>type.
            andthen (modify (\<lambda>s. s\<lparr>packlen := 0\<rparr>)) (\<lambda>_. ret (type, 0))))))) s)"

definition ssh_packet_read_poll2 :: "env \<Rightarrow> (u8 \<times> u32) pop" where
  "ssh_packet_read_poll2 E s =
     (if mux s then ssh_packet_read_poll2_mux E s
      else if packet_discard s \<noteq> 0 then ret (SSH_MSG_NONE, 0) s
      else andthen (read_length E) (\<lambda>ok. if ok then read_packet E else ret (SSH_MSG_NONE, 0)) s)"

definition ssh_packet_process_incoming :: "env \<Rightarrow> u8 list \<Rightarrow> unit pop" where
  "ssh_packet_process_incoming E buf s =
     (if packet_discard s \<noteq> 0
      then andthen (if length buf \<ge> unat (packet_discard s) then ssh_packet_stop_discard E else ret ())
             (\<lambda>_. modify (\<lambda>s. s\<lparr>packet_discard := packet_discard s - word_of_nat (length buf)\<rparr>)) s
      else on_input (sshbuf_put (e_alloc E) buf) s)"

end
