(* ===== verification/Packet_Buffers.thy ===== *)
theory Packet_Buffers
  imports Packet
begin

text \<open>
  The buffers of the packet layer as lists of bytes: what each operation does on a buffer that is well formed, not shared, and has the default
  limit, with an allocator that does not fail.
\<close>

definition buf_good :: "sshbuf \<Rightarrow> bool" where
  "buf_good b \<longleftrightarrow> sshbuf_ok b \<and> sshbuf_writable b \<and> sb_max_size b = SSHBUF_SIZE_MAX"

lemma good_owner: "buf_good b \<Longrightarrow> sshbuf_ok b' \<Longrightarrow> same_owner b b' \<Longrightarrow> buf_good b'"
  using same_owner_writable [of b b'] by (auto simp: buf_good_def same_owner_def)

lemma good_len: "buf_good b \<Longrightarrow> sshbuf_len b = length (sshbuf_bytes b)"
  by (simp add: buf_good_def)

lemma good_seen: "buf_good b \<Longrightarrow> sshbuf_seen b = sshbuf_bytes b"
  by (simp add: buf_good_def sshbuf_seen_def sshbuf_bytes_def sshbuf_len_ok)

lemma good_mutable: "buf_good b \<Longrightarrow> sshbuf_mutable_ptr b \<noteq> None"
  using sshbuf_mutable_ptr_ok by (simp add: buf_good_def)

lemma good_bound: "buf_good b \<Longrightarrow> length (sshbuf_bytes b) \<le> SSHBUF_SIZE_MAX"
  using sshbuf_okD [of b] by (simp add: buf_good_def sshbuf_bytes_def mem_read_def)

lemma good_new: "sshbuf_new A = Some b \<Longrightarrow> buf_good b \<and> sshbuf_bytes b = []"
  using sshbuf_new_ok by (simp add: buf_good_def)

lemma good_consume:
  assumes "buf_good b" and "n \<le> length (sshbuf_bytes b)"
  obtains b' where "sshbuf_consume n b = (Inr (), b')" and "buf_good b'" and "sshbuf_bytes b' = drop n (sshbuf_bytes b)"
  using sshbuf_consume_Inr [of b n] assms good_owner good_len by (metis buf_good_def)

lemma good_consume_end:
  assumes "buf_good b" and "n \<le> length (sshbuf_bytes b)"
  obtains b' where "sshbuf_consume_end n b = (Inr (), b')" and "buf_good b'" and "sshbuf_bytes b' = take (length (sshbuf_bytes b) - n) (sshbuf_bytes b)"
  using sshbuf_consume_end_Inr [of b n] assms good_owner good_len by (metis buf_good_def)

lemma good_reset:
  assumes "buf_good b"
  shows "buf_good (sshbuf_reset A b)" and "sshbuf_bytes (sshbuf_reset A b) = []"
  using assms sshbuf_reset_erases [of b A] sshbuf_reset_ok [of b A] good_owner [OF assms] by (auto simp: buf_good_def sshbuf_consts)

lemma good_reserve:
  assumes "buf_good b" and "never_fails A" and "length (sshbuf_bytes b) + n \<le> SSHBUF_SIZE_MAX"
  obtains dp b' where "sshbuf_reserve A n b = (Inr dp, b')"
    and "\<And>bs. length bs = n \<Longrightarrow> buf_good (sshbuf_store dp bs b') \<and> sshbuf_bytes (sshbuf_store dp bs b') = sshbuf_bytes b @ bs"
proof -
  have g: "sshbuf_ok b" "sshbuf_writable b" "sb_max_size b = SSHBUF_SIZE_MAX" using assms(1) by (simp_all add: buf_good_def)
  have f: "sshbuf_ok b" "sshbuf_writable b" "sshbuf_len b + n \<le> sb_max_size b" using g assms(3) by simp_all
  obtain b0 where "sshbuf_allocate A n b = (Inr (), b0)" using sshbuf_allocate_total [OF f assms(2)] by (metis prod.collapse)
  then obtain dp b' where r: "sshbuf_reserve A n b = (Inr dp, b')" by (auto simp: sshbuf_reserve_def andthen_def ret_def Let_def)
  show ?thesis
  proof (rule that [OF r])
    fix bs :: "u8 list" assume "length bs = n"
    then show "buf_good (sshbuf_store dp bs b') \<and> sshbuf_bytes (sshbuf_store dp bs b') = sshbuf_bytes b @ bs"
      using sshbuf_reserve_store [OF f(1), of A bs dp b'] r good_owner [OF assms(1)] by simp
  qed
qed

lemma good_put:
  assumes "buf_good b" and "never_fails A" and "length (sshbuf_bytes b) + length bs \<le> SSHBUF_SIZE_MAX"
  obtains b' where "sshbuf_put A bs b = (Inr (), b')" and "buf_good b'" and "sshbuf_bytes b' = sshbuf_bytes b @ bs"
proof -
  obtain dp b1 where r: "sshbuf_reserve A (length bs) b = (Inr dp, b1)"
    and st: "buf_good (sshbuf_store dp bs b1) \<and> sshbuf_bytes (sshbuf_store dp bs b1) = sshbuf_bytes b @ bs"
    using good_reserve [OF assms(1, 2), of "length bs"] assms(3) by metis
  have "sshbuf_put A bs b = (Inr (), sshbuf_store dp bs b1)" by (simp add: sshbuf_put_def andthen_def r ret_def)
  then show ?thesis using that st by blast
qed

lemma good_put_all:
  assumes "buf_good b" and "never_fails A" and "length (sshbuf_bytes b) + length (concat bss) \<le> SSHBUF_SIZE_MAX"
  shows "\<exists>b'. put_all (sshbuf_put A) bss b = (Inr (), b') \<and> buf_good b' \<and> sshbuf_bytes b' = sshbuf_bytes b @ concat bss"
  using assms(1, 3)
proof (induction bss arbitrary: b)
  case (Cons bs bss)
  obtain b1 where b1: "sshbuf_put A bs b = (Inr (), b1)" "buf_good b1" "sshbuf_bytes b1 = sshbuf_bytes b @ bs"
    using good_put [OF Cons.prems(1) assms(2), of bs] Cons.prems(2) by auto
  then show ?case using Cons.IH [OF b1(2)] Cons.prems(2) by (auto simp: andthen_def)
qed (simp add: ret_def)

lemma good_get_u8:
  assumes "buf_good b" and "sshbuf_bytes b = x # xs"
  obtains b' where "sshbuf_get_u8 b = (Inr x, b')" and "buf_good b'" and "sshbuf_bytes b' = xs"
proof -
  have ok: "sshbuf_ok b" using assms(1) by (simp add: buf_good_def)
  obtain b' where g: "sshbuf_get 1 b = (Inr (take 1 (sshbuf_bytes b)), b')" "sshbuf_ok b'" "sshbuf_bytes b' = drop 1 (sshbuf_bytes b)" "same_owner b b'"
    using sshbuf_get_ok [OF ok, of 1] assms good_len [OF assms(1)] by auto
  show ?thesis
    using that [of b'] g assms good_owner [OF assms(1)] by (simp add: sshbuf_get_u8_eq [OF ok] andthen_def ret_def)
qed

text \<open>The header is written over the first five bytes.\<close>

lemma good_poke_header:
  assumes "buf_good b" and "5 \<le> length (sshbuf_bytes b)"
  obtains b' where "poke_header padlen b = (Inr (), b')" and "buf_good b'"
    and "sshbuf_bytes b' = POKE_U32 (word_of_nat (length (sshbuf_bytes b) - 4)) @ [padlen] @ drop 5 (sshbuf_bytes b)"
proof -
  define h where "h = POKE_U32 (word_of_nat (length (sshbuf_bytes b) - 4)) @ [padlen]"
  have h: "length h = 5" by (simp add: h_def)
  have ok: "sshbuf_ok b" using assms(1) by (simp add: buf_good_def)
  note d = sshbuf_okD [OF ok]
  have l: "sb_off b + 5 \<le> sb_size b" using assms good_len [OF assms(1)] by (simp add: sshbuf_len_ok [OF ok])
  define n where "n = sb_size b - sb_off b - 5"
  have n: "sb_size b - sb_off b = 5 + n" using l by (simp add: n_def)
  have run: "poke_header padlen b = (Inr (), sshbuf_store (sb_off b) h b)"
    using good_mutable [OF assms(1)] by (auto simp: poke_header_def ret_def h_def good_len [OF assms(1)])
  have "sshbuf_ok (sshbuf_store (sb_off b) h b)" using sshbuf_store_ok [OF ok, of "sb_off b" h] h l d by simp
  moreover have "sshbuf_bytes (sshbuf_store (sb_off b) h b) = h @ drop 5 (sshbuf_bytes b)"
    using l d h by (simp add: sshbuf_bytes_def sshbuf_store_def mem_read_def mem_write_def n take_drop add.commute add.left_commute)
  ultimately show ?thesis using that [OF run] good_owner [OF assms(1)] by (simp add: h_def)
qed

subsection \<open>Operations on the state\<close>

lemma on_buffers:
  "m (input_buf s) = (r, b) \<Longrightarrow> on_input m s = (r, s\<lparr>input_buf := b\<rparr>)"
  "m (output_buf s) = (r, b) \<Longrightarrow> on_output m s = (r, s\<lparr>output_buf := b\<rparr>)"
  "m (outgoing_packet s) = (r, b) \<Longrightarrow> on_outgoing m s = (r, s\<lparr>outgoing_packet := b\<rparr>)"
  "m (incoming_packet s) = (r, b) \<Longrightarrow> on_incoming m s = (r, s\<lparr>incoming_packet := b\<rparr>)"
  "compression_buffer s = Some c \<Longrightarrow> m c = (r, b) \<Longrightarrow> on_compression m s = (r, s\<lparr>compression_buffer := Some b\<rparr>)"
  by (simp_all add: on_input_def on_output_def on_outgoing_def on_incoming_def on_compression_def)

lemma good_append:
  assumes "buf_good b" and "never_fails (e_alloc E)" and "length (sshbuf_bytes b) + length bs \<le> SSHBUF_SIZE_MAX"
  obtains b' where "buf_append E bs b = (Inr (), b')" and "buf_good b'" and "sshbuf_bytes b' = sshbuf_bytes b @ bs"
  using good_put [OF assms] unfolding buf_append_def sshbuf_put_def by blast

end
