(* ===== verification/Packet_Keys.thy ===== *)
theory Packet_Keys
  imports Packet_Buffers
begin

text \<open>
  Keys in use. What the packet layer takes from the keys of a direction does not change when a packet is authenticated: only the context of an HMAC
  does. \<open>keys_use\<close> says that the keys fit the cipher context and that the MAC is ready.
\<close>

subsection \<open>The shape of keys\<close>

definition strip_ctx :: "newkeys \<Rightarrow> newkeys" where
  "strip_ctx k = k\<lparr>nk_mac := (nk_mac k)\<lparr>hmac_ctx := None\<rparr>\<rparr>"

definition nk_shape :: "newkeys option \<Rightarrow> newkeys option" where
  "nk_shape = map_option strip_ctx"

lemma shape_mac: "nk_shape (Some (k\<lparr>nk_mac := (nk_mac k)\<lparr>hmac_ctx := x\<rparr>\<rparr>)) = nk_shape (Some k)"
  by (simp add: nk_shape_def strip_ctx_def)

lemma nk_shape_fields:
  "nk_authlen (nk_shape nk) = nk_authlen nk" "nk_block (nk_shape nk) = nk_block nk" "nk_etm (nk_shape nk) = nk_etm nk"
  "nk_maclen (nk_shape nk) = nk_maclen nk" "nk_compressed (nk_shape nk) = nk_compressed nk" "nk_aadlen (nk_shape nk) = nk_aadlen nk"
  "nk_active_mac (nk_shape nk) = None \<longleftrightarrow> nk_active_mac nk = None"
  by (cases nk; simp add: nk_shape_def strip_ctx_def nk_authlen_def nk_block_def nk_etm_def nk_active_mac_def nk_maclen_def nk_compressed_def nk_aadlen_def)+

lemma same_shape:
  assumes "nk_shape nk = nk_shape nk'"
  shows "nk_authlen nk = nk_authlen nk'" "nk_block nk = nk_block nk'" "nk_etm nk = nk_etm nk'" "nk_maclen nk = nk_maclen nk'"
    "nk_compressed nk = nk_compressed nk'" "nk_aadlen nk = nk_aadlen nk'" "nk_active_mac nk = None \<longleftrightarrow> nk_active_mac nk' = None"
  using nk_shape_fields [of nk] nk_shape_fields [of nk'] assms by simp_all

subsection \<open>Keys that fit a cipher\<close>

definition keys_use :: "mac_prims \<Rightarrow> mac_scheme \<Rightarrow> u8 list \<Rightarrow> newkeys option \<Rightarrow> sshcipher \<Rightarrow> bool" where
  "keys_use P sc key nk c \<longleftrightarrow> c \<in> set ciphers \<and>
     (case nk of
        None \<Rightarrow> ci_flags c = CFLAG_NONE
      | Some k \<Rightarrow> enc_cipher (nk_enc k) = c \<and> enc_block_size (nk_enc k) = ci_block_size c \<and>
          (\<forall>m. nk_active_mac nk = Some m \<longrightarrow> mac_ready P sc key m))"

lemma keys_use_sizes:
  assumes "keys_use P sc key nk c"
  shows "nk_authlen nk = cipher_authlen c" and "nk_block nk = ci_block_size c" and "nk_block nk = 8 \<or> nk_block nk = 16"
    and "nk_aadlen nk = 0 \<or> nk_aadlen nk = 4" and "nk_aadlen nk = 0 \<Longrightarrow> cipher_authlen c = 0" and "nk_authlen nk = 0 \<or> nk_authlen nk = 16"
  using assms cipher_flags cipher_in_table [of c]
  by (cases nk; auto simp: keys_use_def nk_authlen_def nk_block_def nk_aadlen_def cipher_authlen_def)+

lemma active_mac:
  assumes "keys_use P sc key nk c" and "nk_active_mac nk \<noteq> None"
  obtains k where "nk = Some k" and "nk_active_mac nk = Some (nk_mac k)" and "mac_ready P sc key (nk_mac k)" and "nk_maclen nk = mac_len (nk_mac k)"
  using assms by (cases nk) (auto simp: keys_use_def nk_active_mac_def nk_maclen_def split: if_splits)

lemma maclen_bound: "keys_use P sc key nk c \<Longrightarrow> nk_maclen nk \<le> 64"
  by (cases "nk_active_mac nk = None") (auto simp: nk_maclen_def mac_ready_def SSH_DIGEST_MAX_LENGTH_def elim!: active_mac)

lemma mac_changes_ctx:
  assumes "keys_use P sc key (Some k) c" and "m = (nk_mac k)\<lparr>hmac_ctx := hmac_ctx m\<rparr>" and "mac_ready P sc key m"
  shows "keys_use P sc key (Some (k\<lparr>nk_mac := m\<rparr>)) c" and "nk_shape (Some (k\<lparr>nk_mac := m\<rparr>)) = nk_shape (Some k)"
proof -
  show "nk_shape (Some (k\<lparr>nk_mac := m\<rparr>)) = nk_shape (Some k)" by (subst assms(2)) (rule shape_mac)
  show "keys_use P sc key (Some (k\<lparr>nk_mac := m\<rparr>)) c" using assms(1, 3) by (auto simp: keys_use_def nk_active_mac_def split: if_splits)
qed

subsection \<open>Computing and checking a code with the keys\<close>

lemma mac_out_ready:
  assumes P: "mac_prims_ok (e_prims E)" and k: "keys_use (e_prims E) sc key (newkeys_out s) c" and a: "nk_active_mac (newkeys_out s) \<noteq> None"
  obtains nk where "mac_out E data s = (Inr (take (nk_maclen (newkeys_out s)) (mac_value (e_prims E) sc key (seqnr (p_send s)) data)), s\<lparr>newkeys_out := nk\<rparr>)"
    and "keys_use (e_prims E) sc key nk c" and "nk_shape nk = nk_shape (newkeys_out s)"
proof -
  obtain k' where k': "newkeys_out s = Some k'" "mac_ready (e_prims E) sc key (nk_mac k')" "nk_maclen (newkeys_out s) = mac_len (nk_mac k')"
    using active_mac [OF k a] by metis
  obtain m where "mac_compute (e_prims E) (e_mem E 0) (nk_mac k') (seqnr (p_send s)) data SSH_DIGEST_MAX_LENGTH =
      (Inr (take (mac_len (nk_mac k')) (mac_value (e_prims E) sc key (seqnr (p_send s)) data)), m)" "mac_ready (e_prims E) sc key m" "m = (nk_mac k')\<lparr>hmac_ctx := hmac_ctx m\<rparr>"
    using mac_compute_ready [OF P k'(2)] by metis
  then show ?thesis using that [of "Some (k'\<lparr>nk_mac := m\<rparr>)"] mac_changes_ctx [of "e_prims E" sc key k' c m] k k' by (simp add: mac_out_def)
qed

lemma mac_in_ready:
  assumes P: "mac_prims_ok (e_prims E)" and k: "keys_use (e_prims E) sc key (newkeys_in s) c" and a: "nk_active_mac (newkeys_in s) \<noteq> None"
    and l: "nk_maclen (newkeys_in s) \<le> length theirs"
  obtains nk where "mac_in E data theirs s =
      (if take (nk_maclen (newkeys_in s)) theirs = take (nk_maclen (newkeys_in s)) (mac_value (e_prims E) sc key (seqnr (p_read s)) data)
       then Inr () else Inl SSH_ERR_MAC_INVALID, s\<lparr>newkeys_in := nk\<rparr>)"
    and "keys_use (e_prims E) sc key nk c" and "nk_shape nk = nk_shape (newkeys_in s)"
proof -
  obtain k' where k': "newkeys_in s = Some k'" "mac_ready (e_prims E) sc key (nk_mac k')" "nk_maclen (newkeys_in s) = mac_len (nk_mac k')"
    using active_mac [OF k a] by metis
  obtain m where "mac_check (e_prims E) (e_mem E 0) (nk_mac k') (seqnr (p_read s)) data theirs =
      (if take (mac_len (nk_mac k')) theirs = take (mac_len (nk_mac k')) (mac_value (e_prims E) sc key (seqnr (p_read s)) data) then Inr () else Inl SSH_ERR_MAC_INVALID, m)"
      "mac_ready (e_prims E) sc key m" "m = (nk_mac k')\<lparr>hmac_ctx := hmac_ctx m\<rparr>"
    using mac_check_ready [OF P k'(2)] l k'(3) by metis
  then show ?thesis using that [of "Some (k'\<lparr>nk_mac := m\<rparr>)"] mac_changes_ctx [of "e_prims E" sc key k' c m] k k' by (simp add: mac_in_def)
qed

end
