(* ===== verification/Packet_Compress.thy ===== *)
theory Packet_Compress
  imports Packet_Keys
begin

text \<open>
  Compression of payloads. zlib is a parameter of the packet layer; what the code relies on is \<open>zlib_ok\<close>: an inflating stream that has been given, block
  by block, what a deflating stream has produced returns the blocks that went into it.
\<close>

inductive zsync :: "env \<Rightarrow> z_stream \<Rightarrow> z_stream \<Rightarrow> bool" for E where
  zsync_start: "zsync E [] []"
| zsync_block: "zsync E zo zi \<Longrightarrow> e_deflate E zo p = (chunks, None) \<Longrightarrow> zsync E (zo @ [p]) (zi @ [concat chunks])"

definition zlib_ok :: "env \<Rightarrow> env \<Rightarrow> bool" where
  "zlib_ok E F \<longleftrightarrow> (\<forall>zo p. snd (e_deflate E zo p) = None) \<and>
     (\<forall>zo zi p. zsync E zo zi \<longrightarrow> snd (e_inflate F zi (concat (fst (e_deflate E zo p)))) = None \<and>
        concat (fst (e_inflate F zi (concat (fst (e_deflate E zo p))))) = p)"

definition comp_ready :: "bool \<Rightarrow> bool \<Rightarrow> sshbuf option \<Rightarrow> bool" where
  "comp_ready active started buf \<longleftrightarrow> (active \<longrightarrow> started \<and> (\<exists>b. buf = Some b \<and> buf_good b))"

text \<open>What is sent for a payload.\<close>

definition payload_out :: "env \<Rightarrow> ssh \<Rightarrow> u8 list \<Rightarrow> u8 list" where
  "payload_out E s payload = (if nk_compressed (newkeys_out s) then concat (fst (e_deflate E (z_out s) payload)) else payload)"

lemma refill:
  assumes E: "never_fails A" and g: "buf_good b" "buf_good c" and l: "length (sshbuf_bytes c) + length bs \<le> SSHBUF_SIZE_MAX"
  obtains b' where "sshbuf_put A bs (sshbuf_reset A b) = (Inr (), b')" and "buf_good b'" and "sshbuf_bytes b' = bs"
    and "length bs + length (sshbuf_bytes c) \<le> SSHBUF_SIZE_MAX \<Longrightarrow> \<exists>b''. sshbuf_put A (sshbuf_bytes c) b' = (Inr (), b'') \<and> buf_good b'' \<and> sshbuf_bytes b'' = bs @ sshbuf_bytes c"
proof -
  note r = good_reset [OF g(1), of A]
  obtain b' where b': "sshbuf_put A bs (sshbuf_reset A b) = (Inr (), b')" "buf_good b'" "sshbuf_bytes b' = bs"
    using good_put [OF r(1) E, of bs] r(2) l by auto
  show ?thesis using that [OF b'] good_put [OF b'(2) E, of "sshbuf_bytes c"] b'(3) by metis
qed

lemma send_compress_payload:
  assumes E: "never_fails (e_alloc E)" and o: "buf_good (outgoing_packet s)" "sshbuf_bytes (outgoing_packet s) = h @ payload" "length h = 5" "payload \<noteq> []"
    and c: "comp_ready (nk_compressed (newkeys_out s)) (compression_out_started s) (compression_buffer s)"
    and z: "snd (e_deflate E (z_out s) payload) = None" and l: "length (payload_out E s payload) + 5 \<le> SSHBUF_SIZE_MAX"
  obtains b h' cb where
    "send_compress E s = (Inr (), s\<lparr>outgoing_packet := b, compression_buffer := cb, z_out := (if nk_compressed (newkeys_out s) then z_out s @ [payload] else z_out s)\<rparr>)"
    and "buf_good b" and "sshbuf_bytes b = h' @ payload_out E s payload" and "length h' = 5"
    and "comp_ready (nk_compressed (newkeys_out s)) (compression_out_started s) cb"
proof (cases "nk_compressed (newkeys_out s)")
  case False
  then have "send_compress E s = (Inr (), s\<lparr>outgoing_packet := outgoing_packet s, compression_buffer := compression_buffer s, z_out := z_out s\<rparr>)"
    by (simp add: send_compress_def ret_def)
  then show ?thesis using that [where b = "outgoing_packet s" and cb = "compression_buffer s" and h' = h] o c False by (simp add: payload_out_def)
next
  case True
  define out where "out = payload_out E s payload"
  obtain chunks where ch: "e_deflate E (z_out s) payload = (chunks, None)" "concat chunks = out"
    using z True by (cases "e_deflate E (z_out s) payload") (simp add: out_def payload_out_def)
  obtain cb where cb: "compression_buffer s = Some cb" "buf_good cb" "compression_out_started s" using c True by (auto simp: comp_ready_def)
  obtain b1 where b1: "sshbuf_consume 5 (outgoing_packet s) = (Inr (), b1)" "buf_good b1" "sshbuf_bytes b1 = payload"
    using good_consume [OF o(1), of 5] o by auto
  note r = good_reset [OF cb(2), of "e_alloc E"]
  obtain c1 where c1: "put_all (sshbuf_put (e_alloc E)) chunks (sshbuf_reset (e_alloc E) cb) = (Inr (), c1)" "buf_good c1" "sshbuf_bytes c1 = out"
    using good_put_all [OF r(1) E, of chunks] r(2) ch(2) l by (auto simp: out_def)
  obtain b2 where b2: "sshbuf_put (e_alloc E) (replicate 5 0) (sshbuf_reset (e_alloc E) b1) = (Inr (), b2)" "buf_good b2" "sshbuf_bytes b2 = replicate 5 0"
    and b3': "\<exists>b''. sshbuf_put (e_alloc E) (sshbuf_bytes c1) b2 = (Inr (), b'') \<and> buf_good b'' \<and> sshbuf_bytes b'' = replicate 5 0 @ sshbuf_bytes c1"
    using refill [OF E b1(2) c1(2), of "replicate 5 0"] l c1(3) by (auto simp: out_def add.commute)
  obtain b3 where b3: "sshbuf_put (e_alloc E) out b2 = (Inr (), b3)" "buf_good b3" "sshbuf_bytes b3 = replicate 5 0 @ out" using b3' c1(3) by auto
  have x: "compress_buffer E b1 t = (Inr (), t\<lparr>z_out := z_out t @ [payload], compression_buffer := Some c1\<rparr>)"
    if "compression_buffer t = Some (sshbuf_reset (e_alloc E) cb)" "compression_out_started t" "z_out t = z_out s" for t
    using that ch(1) c1(1) o(4) good_mutable [OF b1(2)]
    by (auto simp: compress_buffer_def good_seen [OF b1(2)] good_len [OF b1(2)] b1(3) andthen_def on_compression_def ret_def)
  have "send_compress E s = (Inr (), s\<lparr>outgoing_packet := b3, compression_buffer := Some c1, z_out := z_out s @ [payload]\<rparr>)"
    using True b1(1) b2(1) b3(1) cb
    by (simp add: send_compress_def andthen_def on_outgoing_def on_compression_def buf_reset_def x sshbuf_putb_def good_seen [OF c1(2)] c1(3) del: replicate.simps replicate_Suc)
  then show ?thesis using that [where b = b3 and cb = "Some c1" and h' = "replicate 5 0"] b3 c1(2) cb(3) True by (simp add: comp_ready_def out_def)
qed

text \<open>The receiving side.\<close>

lemma uncompress_incoming_payload:
  assumes F: "never_fails (e_alloc F)" and i: "buf_good (incoming_packet r)" "sshbuf_bytes (incoming_packet r) = out"
    and c: "comp_ready True (compression_in_started r) (compression_buffer r)"
    and z: "snd (e_inflate F (z_in r) out) = None" "concat (fst (e_inflate F (z_in r) out)) = payload" and l: "length payload \<le> SSHBUF_SIZE_MAX"
  obtains b cb where "uncompress_incoming F r = (Inr (), r\<lparr>incoming_packet := b, compression_buffer := cb, z_in := z_in r @ [out]\<rparr>)"
    and "buf_good b" and "sshbuf_bytes b = payload" and "comp_ready True (compression_in_started r) cb"
proof -
  obtain chunks where ch: "e_inflate F (z_in r) out = (chunks, None)" "concat chunks = payload" using z by (cases "e_inflate F (z_in r) out") simp
  obtain cb where cb: "compression_buffer r = Some cb" "buf_good cb" "compression_in_started r" using c by (auto simp: comp_ready_def)
  note t = good_reset [OF cb(2), of "e_alloc F"]
  obtain c1 where c1: "put_all (sshbuf_put (e_alloc F)) chunks (sshbuf_reset (e_alloc F) cb) = (Inr (), c1)" "buf_good c1" "sshbuf_bytes c1 = payload"
    using good_put_all [OF t(1) F, of chunks] t(2) ch(2) l by auto
  note u = good_reset [OF i(1), of "e_alloc F"]
  obtain b where b: "sshbuf_put (e_alloc F) payload (sshbuf_reset (e_alloc F) (incoming_packet r)) = (Inr (), b)" "buf_good b" "sshbuf_bytes b = payload"
    using good_put [OF u(1) F, of payload] u(2) l by auto
  have "uncompress_incoming F r = (Inr (), r\<lparr>incoming_packet := b, compression_buffer := Some c1, z_in := z_in r @ [out]\<rparr>)"
    using b(1) c1(1) cb ch(1) good_mutable [OF i(1)]
    by (auto simp: uncompress_incoming_def uncompress_buffer_def andthen_def on_incoming_def on_compression_def buf_reset_def sshbuf_putb_def
        good_seen [OF c1(2)] good_seen [OF i(1)] i(2) c1(3) ret_def)
  then show ?thesis using that [where b = b and cb = "Some c1"] b c1(2) cb(3) by (simp add: comp_ready_def)
qed

end
