(* ===== verification/Packet_Send.thy ===== *)
theory Packet_Send
  imports Packet_Compress
begin

text \<open>
  What sending a packet puts into the output buffer: the packet with its length fields and padding, encrypted, and its MAC.
\<close>

subsection \<open>Padding\<close>

lemma unat_small: "n < 256 \<Longrightarrow> unat (word_of_nat n :: u8) = n"
  by (simp add: unat_of_nat)

lemma pad_length_spec:
  assumes "bs = 8 \<or> bs = 16"
  shows "4 \<le> unat (pad_length bs len)" and "unat (pad_length bs len) \<le> bs + 3" and "(len + unat (pad_length bs len)) mod bs = 0"
proof -
  define m where "m = bs - len mod bs"
  have m: "1 \<le> m" "m \<le> bs" "(len + m) mod bs = 0"
  proof -
    have "len mod bs < bs" using assms by auto
    then show "1 \<le> m" "m \<le> bs" by (simp_all add: m_def)
    have "(len + m) mod bs = (len mod bs + m) mod bs" by (simp add: mod_simps)
    also have "len mod bs + m = bs" using \<open>len mod bs < bs\<close> by (simp add: m_def)
    finally show "(len + m) mod bs = 0" by simp
  qed
  have u: "unat (word_of_nat m :: u8) = m" "unat (word_of_nat (m + bs) :: u8) = m + bs"
    using m assms unat_small [of m] unat_small [of "m + bs"] by auto
  have l: "(word_of_nat m :: u8) < 4 \<longleftrightarrow> m < 4" using u(1) by (simp add: word_less_nat_alt)
  have p: "unat (pad_length bs len) = (if m < 4 then m + bs else m)"
    using u l by (simp add: pad_length_def m_def [symmetric] Let_def)
  have "(len + (m + bs)) mod bs = (len + m) mod bs" by (metis add.assoc mod_add_self2)
  then show "4 \<le> unat (pad_length bs len)" "unat (pad_length bs len) \<le> bs + 3" "(len + unat (pad_length bs len)) mod bs = 0"
    using m assms by (auto simp: p)
qed

lemma u8_add_le: "x \<le> x + y \<Longrightarrow> unat (x + y :: u8) = unat x + unat y"
  by (simp add: no_olen_add_nat unat_add_lem [THEN iffD1])

lemma extra_padding_spec:
  assumes bs: "bs = 8 \<or> bs = 16" and p: "4 \<le> unat padlen" "(len + unat padlen) mod bs = 0" and run: "extra_padding bs len padlen s = (Inr pl, s')"
  shows "4 \<le> unat pl" and "(len + unat pl) mod bs = 0" and "s' = s\<lparr>extra_pad := 0\<rparr>"
proof (atomize (full), cases "extra_pad s = 0")
  case True
  then show "4 \<le> unat pl \<and> (len + unat pl) mod bs = 0 \<and> s' = s\<lparr>extra_pad := 0\<rparr>" using run p by (auto simp: extra_padding_def ret_def)
next
  case False
  define ep where "ep = (word_of_nat (ROUNDUP (unat (extra_pad s)) bs) :: u8)"
  define tmp where "tmp = (word_of_nat ((len + unat padlen) mod unat ep) :: u8)"
  have c: "\<not> ep < extra_pad s" "\<not> tmp > ep" "\<not> padlen + (ep - tmp) < padlen" "pl = padlen + (ep - tmp)" "s' = s\<lparr>extra_pad := 0\<rparr>"
    using run False by (auto simp: extra_padding_def Let_def ep_def tmp_def run_simps split: if_splits)
  have "0 < unat (extra_pad s)" using False by (simp add: unat_gt_0)
  then have e0: "0 < unat ep" using c(1) by (simp add: word_less_nat_alt)
  have "bs dvd 2 ^ 8" using bs by auto
  moreover have "bs dvd ROUNDUP (unat (extra_pad s)) bs" by (simp add: ROUNDUP_def)
  ultimately have "bs dvd unat ep" unfolding ep_def unat_of_nat by (simp add: dvd_mod)
  then have "unat ep mod bs = 0" by simp
  moreover have t: "unat tmp = (len + unat padlen) mod unat ep"
  proof -
    have "(len + unat padlen) mod unat ep < 256" using mod_less_divisor [OF e0, of "len + unat padlen"] unsigned_less [of ep, where ?'a = nat] by simp
    then show ?thesis by (simp add: tmp_def unat_small)
  qed
  ultimately have m: "unat tmp mod bs = 0" using p(2) by (metis dvd_eq_mod_eq_0 dvd_mod)
  have d: "unat (ep - tmp) = unat ep - unat tmp" using c(2) by (simp add: unat_sub word_le_nat_alt word_less_nat_alt not_less)
  have "(unat ep - unat tmp) mod bs = 0" using \<open>unat ep mod bs = 0\<close> m by (metis dvd_diff_nat dvd_eq_mod_eq_0)
  moreover have u: "unat pl = unat padlen + (unat ep - unat tmp)" using c(3, 4) d u8_add_le [of padlen "ep - tmp"] by (simp add: not_less)
  ultimately have "(len + unat pl) mod bs = 0" using p(2) by (metis add.assoc dvd_add dvd_eq_mod_eq_0)
  then show "4 \<le> unat pl \<and> (len + unat pl) mod bs = 0 \<and> s' = s\<lparr>extra_pad := 0\<rparr>" using u p(1) c(5) by simp
qed

lemma extra_padding_total:
  assumes bs: "bs = 8 \<or> bs = 16" and p: "unat padlen \<le> bs + 3" and x: "unat (extra_pad s) \<le> 224"
  shows "\<exists>pl. extra_padding bs len padlen s = (Inr pl, s\<lparr>extra_pad := 0\<rparr>)"
proof (cases "extra_pad s = 0")
  case True
  then have "s\<lparr>extra_pad := 0\<rparr> = s" by simp
  then show ?thesis using True by (simp add: extra_padding_def ret_def)
next
  case False
  define n where "n = ROUNDUP (unat (extra_pad s)) bs"
  have n: "unat (extra_pad s) \<le> n" "n \<le> 224" "0 < n"
  proof -
    have b0: "0 < bs" using bs by auto
    have "unat (extra_pad s) div bs * bs \<le> unat (extra_pad s)" by simp
    show "unat (extra_pad s) \<le> n" using bs unfolding n_def ROUNDUP_def by auto
    have "n \<le> ROUNDUP 224 bs" using x unfolding n_def ROUNDUP_def by (intro mult_right_mono div_le_mono add_right_mono) auto
    then show "n \<le> 224" using bs by (auto simp: ROUNDUP_def)
    show "0 < n" using \<open>unat (extra_pad s) \<le> n\<close> False by (simp add: unat_gt_0 [symmetric])
  qed
  define ep where "ep = (word_of_nat n :: u8)"
  have e: "unat ep = n" using n(2) unat_small [of n] by (simp add: ep_def)
  define m where "m = (len + unat padlen) mod n"
  have m: "m < n" using n(3) by (simp add: m_def)
  define tmp where "tmp = (word_of_nat m :: u8)"
  have t: "unat tmp = m" using m n(2) unat_small [of m] by (simp add: tmp_def)
  have c1: "\<not> ep < extra_pad s" using n(1) e by (simp add: word_less_nat_alt)
  have c2: "\<not> ep < tmp" using m e t by (simp add: word_less_nat_alt)
  have "tmp \<le> ep" using c2 by simp
  then have d: "unat (ep - tmp) = n - m" using e t unat_sub [of tmp ep] by simp
  have "unat padlen + unat (ep - tmp) < 2 ^ 8" using d p n(2) bs by auto
  then have "unat (padlen + (ep - tmp)) = unat padlen + unat (ep - tmp)" using unat_add_lem [of padlen "ep - tmp"] by simp
  then have c3: "\<not> padlen + (ep - tmp) < padlen" by (simp add: word_less_nat_alt)
  have "extra_padding bs len padlen s = (Inr (padlen + (ep - tmp)), s\<lparr>extra_pad := 0\<rparr>)"
    using False c1 c2 c3 by (simp add: extra_padding_def Let_def n_def [symmetric] ep_def [symmetric] e m_def [symmetric] tmp_def [symmetric] ret_def)
  then show ?thesis by blast
qed

lemma length_pad_bytes [simp]: "length (pad_bytes E s n) = n"
  by (simp add: pad_bytes_def min_def)

text \<open>A packet before encryption.\<close>

definition plain_packet :: "u8 list \<Rightarrow> u8 list \<Rightarrow> u8 list" where
  "plain_packet payload pad = POKE_U32 (word_of_nat (1 + length payload + length pad)) @ [word_of_nat (length pad)] @ payload @ pad"

lemma length_plain [simp]: "length (plain_packet payload pad) = 5 + length payload + length pad"
  by (simp add: plain_packet_def)

lemma send_pad_packet:
  assumes E: "never_fails (e_alloc E)" and g: "buf_good (outgoing_packet s)" and o: "sshbuf_bytes (outgoing_packet s) = h @ payload" "length h = 5"
    and sz: "length payload \<le> 2 ^ 26" and bs: "nk_block (newkeys_out s) = 8 \<or> nk_block (newkeys_out s) = 16" and aad: "nk_aadlen (newkeys_out s) \<le> 5"
    and x: "extra_padding (nk_block (newkeys_out s)) (5 + length payload - nk_aadlen (newkeys_out s))
        (pad_length (nk_block (newkeys_out s)) (5 + length payload - nk_aadlen (newkeys_out s))) s = (Inr pl, s1)"
  obtains b pad where "send_pad E s = (Inr (), s\<lparr>extra_pad := 0, outgoing_packet := b\<rparr>)" and "buf_good b" and "sshbuf_bytes b = plain_packet payload pad"
    and "4 \<le> length pad" "length pad \<le> 255" "(5 + length payload - nk_aadlen (newkeys_out s) + length pad) mod nk_block (newkeys_out s) = 0"
proof -
  have s1: "4 \<le> unat pl" "(5 + length payload - nk_aadlen (newkeys_out s) + unat pl) mod nk_block (newkeys_out s) = 0" "s1 = s\<lparr>extra_pad := 0\<rparr>"
    using extra_padding_spec [OF bs pad_length_spec(1, 3) [OF bs] x] by blast+
  define pad where "pad = pad_bytes E s1 (unat pl)"
  have lp: "length pad = unat pl" by (simp add: pad_def)
  have small: "unat pl \<le> 255" using unsigned_less [of pl, where ?'a = nat] by simp
  have len: "sshbuf_len (outgoing_packet s) = 5 + length payload" using good_len [OF g] o by simp
  have "buf_good (outgoing_packet s1)" "sshbuf_bytes (outgoing_packet s1) = h @ payload" using g o s1(3) by simp_all
  then obtain b1 where b1: "buf_append E pad (outgoing_packet s1) = (Inr (), b1)" "buf_good b1" "sshbuf_bytes b1 = h @ payload @ pad"
    using good_append [of "outgoing_packet s1" E pad] E sz small o(2) lp by (auto simp: sshbuf_consts)
  obtain b2 where b2: "poke_header pl b1 = (Inr (), b2)" "buf_good b2"
      "sshbuf_bytes b2 = POKE_U32 (word_of_nat (length (sshbuf_bytes b1) - 4)) @ [pl] @ drop 5 (sshbuf_bytes b1)"
    using good_poke_header [OF b1(2), of pl] b1(3) o(2) by auto
  have "sshbuf_bytes b2 = plain_packet payload pad"
    unfolding b2(3) b1(3) plain_packet_def using o(2) lp by (simp add: add.commute)
  moreover have "send_pad E s = (Inr (), s\<lparr>extra_pad := 0, outgoing_packet := b2\<rparr>)"
    using b1(1) b2(1) x by (simp add: send_pad_def Let_def len andthen_def pad_def s1(3) on_outgoing_def)
  ultimately show ?thesis using that [of b2 pad] b2(2) s1 small lp by simp
qed

subsection \<open>Encryption and MAC\<close>

text \<open>What goes over the wire for a packet whose encryption is \<open>ct\<close>: the MAC follows, over the clear text or over the encrypted packet.\<close>

definition wire :: "mac_prims \<Rightarrow> mac_scheme \<Rightarrow> u8 list \<Rightarrow> newkeys option \<Rightarrow> u32 \<Rightarrow> u8 list \<Rightarrow> u8 list \<Rightarrow> u8 list" where
  "wire P sc key nk q p ct =
     (if nk_active_mac nk = None then ct
      else ct @ take (nk_maclen nk) (mac_value P sc key q (if nk_etm nk then take (length p) ct else p)))"

lemma send_crypt_ready:
  assumes E: "never_fails (e_alloc E)" and c: "send_context s = Some c" "cc_sync c d" and k: "keys_use (e_prims E) sc key (newkeys_out s) (cc_cipher c)"
    and p: "buf_good (outgoing_packet s)" "sshbuf_bytes (outgoing_packet s) = p" "4 \<le> length p"
    and g: "buf_good (output_buf s)" "length (sshbuf_bytes (output_buf s)) + length p + 16 \<le> SSHBUF_SIZE_MAX"
  obtains ct c' b where "send_crypt E s = (Inr ct, s\<lparr>send_context := Some c', output_buf := b\<rparr>)" and "buf_good b"
    and "sshbuf_bytes b = sshbuf_bytes (output_buf s) @ ct" and "length ct = length p + nk_authlen (newkeys_out s)"
    and "cipher_crypt c (seqnr (p_send s)) p (length p - nk_aadlen (newkeys_out s)) (nk_aadlen (newkeys_out s)) (nk_authlen (newkeys_out s)) = (Inr ct, c')"
proof -
  note z = keys_use_sizes [OF k]
  obtain ct c' where ct: "cipher_crypt c (seqnr (p_send s)) p (length p - nk_aadlen (newkeys_out s)) (nk_aadlen (newkeys_out s)) (nk_authlen (newkeys_out s)) = (Inr ct, c')"
      "length ct = length p + nk_authlen (newkeys_out s)"
    using cc.encrypts [OF c(2), where aad = "nk_aadlen (newkeys_out s)" and len = "length p - nk_aadlen (newkeys_out s)" and p = p and q = "seqnr (p_send s)"] z(1, 4) p(3)
    by auto
  have room: "length (sshbuf_bytes (output_buf s)) + (length p + nk_authlen (newkeys_out s)) \<le> SSHBUF_SIZE_MAX" using g(2) z(6) by auto
  obtain dp b where r: "sshbuf_reserve (e_alloc E) (length p + nk_authlen (newkeys_out s)) (output_buf s) = (Inr dp, b)"
    and st: "buf_good (sshbuf_store dp ct b)" "sshbuf_bytes (sshbuf_store dp ct b) = sshbuf_bytes (output_buf s) @ ct"
    using good_reserve [OF g(1) E room] ct(2) by metis
  have "send_crypt E s = (Inr ct, s\<lparr>send_context := Some c', output_buf := sshbuf_store dp ct b\<rparr>)"
    using r ct(1) c(1) by (simp add: send_crypt_def Let_def andthen_def good_seen [OF p(1)] p(2) on_output_def ret_def)
  then show ?thesis using that st ct by blast
qed

lemma context_and_buf: "s\<lparr>send_context := x, output_buf := y\<rparr> = s\<lparr>send_context := x', output_buf := y'\<rparr> \<longleftrightarrow> x = x' \<and> y = y'"
  by (auto dest: arg_cong [where f = send_context] arg_cong [where f = output_buf])

lemma send_protected_wire:
  assumes E: "never_fails (e_alloc E)" "mac_prims_ok (e_prims E)" and c: "send_context s = Some c" "cc_sync c d"
    and k: "keys_use (e_prims E) sc key (newkeys_out s) (cc_cipher c)"
    and p: "buf_good (outgoing_packet s)" "sshbuf_bytes (outgoing_packet s) = p" "4 \<le> length p"
    and g: "buf_good (output_buf s)" "length (sshbuf_bytes (output_buf s)) + length p + 80 \<le> SSHBUF_SIZE_MAX"
  obtains ct c' b nk where "send_protected E s = (Inr (), s\<lparr>send_context := Some c', output_buf := b, newkeys_out := nk\<rparr>)" and "buf_good b"
    and "sshbuf_bytes b = sshbuf_bytes (output_buf s) @ wire (e_prims E) sc key (newkeys_out s) (seqnr (p_send s)) p ct"
    and "cipher_crypt c (seqnr (p_send s)) p (length p - nk_aadlen (newkeys_out s)) (nk_aadlen (newkeys_out s)) (nk_authlen (newkeys_out s)) = (Inr ct, c')"
    and "keys_use (e_prims E) sc key nk (cc_cipher c)" and "nk_shape nk = nk_shape (newkeys_out s)" and "length ct = length p + nk_authlen (newkeys_out s)"
proof -
  have g16: "length (sshbuf_bytes (output_buf s)) + length p + 16 \<le> SSHBUF_SIZE_MAX" using g(2) by simp
  have len: "sshbuf_len (outgoing_packet s) = length p" using good_len [OF p(1)] p(2) by simp
  have seen: "sshbuf_seen (outgoing_packet s) = p" using good_seen [OF p(1)] p(2) by simp
  obtain ct c' b where x: "send_crypt E s = (Inr ct, s\<lparr>send_context := Some c', output_buf := b\<rparr>)" "buf_good b"
      "sshbuf_bytes b = sshbuf_bytes (output_buf s) @ ct" "length ct = length p + nk_authlen (newkeys_out s)"
      "cipher_crypt c (seqnr (p_send s)) p (length p - nk_aadlen (newkeys_out s)) (nk_aadlen (newkeys_out s)) (nk_authlen (newkeys_out s)) = (Inr ct, c')"
    using send_crypt_ready [OF E(1) c k p g(1) g16] by metis
  show ?thesis
  proof (cases "nk_active_mac (newkeys_out s) = None")
    case True
    have "send_protected E s = (Inr (), s\<lparr>send_context := Some c', output_buf := b, newkeys_out := newkeys_out s\<rparr>)"
      using x(1) True by (simp add: send_protected_def Let_def andthen_def ret_def)
    then show ?thesis using that [where ct = ct and c' = c' and b = b and nk = "newkeys_out s"] x k True by (simp add: wire_def)
  next
    case False
    define data where "data = (if nk_etm (newkeys_out s) then take (length p) ct else p)"
    define code where "code = take (nk_maclen (newkeys_out s)) (mac_value (e_prims E) sc key (seqnr (p_send s)) data)"
    have "length code \<le> 64" using maclen_bound [OF k] by (simp add: code_def)
    then have room: "length (sshbuf_bytes b) + length code \<le> SSHBUF_SIZE_MAX" using g(2) x(3, 4) keys_use_sizes(6) [OF k] by auto
    obtain b2 where b2: "sshbuf_put (e_alloc E) code b = (Inr (), b2)" "buf_good b2" "sshbuf_bytes b2 = sshbuf_bytes b @ code"
      using good_put [OF x(2) E(1) room] by metis
    have tc: "take (nk_maclen (newkeys_out s)) code = code" by (simp add: code_def)
    have w: "wire (e_prims E) sc key (newkeys_out s) (seqnr (p_send s)) p ct = ct @ code" using False by (auto simp: wire_def code_def data_def)
    show ?thesis
    proof (cases "nk_etm (newkeys_out s)")
      case etm: True
      define s1 where "s1 = s\<lparr>send_context := Some c', output_buf := b\<rparr>"
      have f: "newkeys_out s1 = newkeys_out s" "p_send s1 = p_send s" by (simp_all add: s1_def)
      obtain nk where nk: "mac_out E data s1 = (Inr code, s1\<lparr>newkeys_out := nk\<rparr>)" "keys_use (e_prims E) sc key nk (cc_cipher c)" "nk_shape nk = nk_shape (newkeys_out s)"
        using mac_out_ready [OF E(2), of sc key s1 "cc_cipher c" data] k False by (auto simp: f code_def)
      have "send_protected E s = (Inr (), s\<lparr>send_context := Some c', output_buf := b2, newkeys_out := nk\<rparr>)"
        using x(1) False etm nk(1) b2(1) by (simp add: send_protected_def Let_def andthen_def ret_def data_def s1_def on_output_def tc len)
      then show ?thesis using that [where ct = ct and c' = c' and b = b2 and nk = nk] b2 x nk w by simp
    next
      case etm: False
      obtain nk where nk: "mac_out E data s = (Inr code, s\<lparr>newkeys_out := nk\<rparr>)" "keys_use (e_prims E) sc key nk (cc_cipher c)" "nk_shape nk = nk_shape (newkeys_out s)"
        using mac_out_ready [OF E(2), of sc key s "cc_cipher c" data] k False by (auto simp: code_def)
      define s2 where "s2 = s\<lparr>newkeys_out := nk\<rparr>"
      have f: "newkeys_out s2 = nk" "p_send s2 = p_send s" "output_buf s2 = output_buf s" "outgoing_packet s2 = outgoing_packet s" "send_context s2 = Some c"
        using c(1) by (simp_all add: s2_def)
      note eq = same_shape [OF nk(3)]
      have "send_crypt E s2 = (Inr ct, s2\<lparr>send_context := Some c', output_buf := b\<rparr>)"
        using x(1) c(1) by (auto simp: send_crypt_def Let_def andthen_def f eq s2_def on_output_def ret_def throw_def context_and_buf split: prod.splits sum.splits option.splits)
      then have "send_protected E s = (Inr (), s\<lparr>send_context := Some c', output_buf := b2, newkeys_out := nk\<rparr>)"
        using False etm nk(1) b2(1) by (simp add: send_protected_def Let_def andthen_def ret_def data_def s2_def [symmetric] on_output_def tc len seen)
           (simp add: s2_def)
      then show ?thesis using that [where ct = ct and c' = c' and b = b2 and nk = nk] b2 x nk w by simp
    qed
  qed
qed

subsection \<open>A whole packet\<close>

definition env_ok :: "env \<Rightarrow> bool" where
  "env_ok E \<longleftrightarrow> never_fails (e_alloc E) \<and> mac_prims_ok (e_prims E)"

definition send_ready :: "env \<Rightarrow> mac_scheme \<Rightarrow> u8 list \<Rightarrow> sshcipher_ctx \<Rightarrow> sshcipher_ctx \<Rightarrow> ssh \<Rightarrow> bool" where
  "send_ready E sc key c d s \<longleftrightarrow> send_context s = Some c \<and> cc_sync c d \<and> keys_use (e_prims E) sc key (newkeys_out s) (cc_cipher c) \<and>
     comp_ready (nk_compressed (newkeys_out s)) (compression_out_started s) (compression_buffer s) \<and> buf_good (outgoing_packet s) \<and> buf_good (output_buf s)"

text \<open>The packet in front of encryption: header, payload and padding up to the block size.\<close>

definition packed :: "newkeys option \<Rightarrow> u8 list \<Rightarrow> u8 list \<Rightarrow> bool" where
  "packed nk payload p \<longleftrightarrow>
     (\<exists>pad. p = plain_packet payload pad \<and> 4 \<le> length pad \<and> length pad \<le> 255 \<and> (length p - nk_aadlen nk) mod nk_block nk = 0)"

lemma count_sent_ok:
  "packets (p_send s) + 1 \<noteq> 0 \<Longrightarrow>
   \<exists>ps. count_sent bs len s = (Inr (), s\<lparr>p_send := ps\<rparr>) \<and> seqnr ps = seqnr (p_send s) + 1 \<and> packets ps = packets (p_send s) + 1"
  by (rule exI [where x = "(p_send s)\<lparr>seqnr := seqnr (p_send s) + 1, packets := packets (p_send s) + 1, blocks := blocks (p_send s) + word_of_nat (len div bs),
         bytes := bytes (p_send s) + word_of_nat len\<rparr>"]) (simp add: count_sent_def Let_def ret_def)

lemma send_wrapped_wire:
  assumes E: "env_ok E" and r: "send_ready E sc key c d s" and o: "sshbuf_bytes (outgoing_packet s) = h @ payload" "length h = 5" "payload \<noteq> []"
    and t: "hd payload \<noteq> SSH2_MSG_NEWKEYS" "hd payload \<noteq> SSH2_MSG_USERAUTH_SUCCESS"
    and z: "snd (e_deflate E (z_out s) payload) = None" and l: "length (payload_out E s payload) + 256 \<le> PACKET_MAX_SIZE"
    and x: "unat (extra_pad s) \<le> 224" and room: "length (sshbuf_bytes (output_buf s)) + PACKET_MAX_SIZE + 100 \<le> SSHBUF_SIZE_MAX"
    and n: "packets (p_send s) + 1 \<noteq> 0"
  obtains p ct c' b ob cb nk ps where
    "ssh_packet_send2_wrapped E s = (Inr (), s\<lparr>outgoing_packet := b, compression_buffer := cb,
       z_out := (if nk_compressed (newkeys_out s) then z_out s @ [payload] else z_out s), extra_pad := 0, send_context := Some c', output_buf := ob,
       newkeys_out := nk, p_send := ps\<rparr>)"
    and "buf_good b" and "buf_good ob" and "comp_ready (nk_compressed (newkeys_out s)) (compression_out_started s) cb"
    and "keys_use (e_prims E) sc key nk (cc_cipher c)" and "nk_shape nk = nk_shape (newkeys_out s)"
    and "sshbuf_bytes ob = sshbuf_bytes (output_buf s) @ wire (e_prims E) sc key (newkeys_out s) (seqnr (p_send s)) p ct"
    and "packed (newkeys_out s) (payload_out E s payload) p"
    and "cipher_crypt c (seqnr (p_send s)) p (length p - nk_aadlen (newkeys_out s)) (nk_aadlen (newkeys_out s)) (nk_authlen (newkeys_out s)) = (Inr ct, c')"
    and "length ct = length p + nk_authlen (newkeys_out s)" and "seqnr ps = seqnr (p_send s) + 1" and "packets ps = packets (p_send s) + 1"
proof -
  have e: "never_fails (e_alloc E)" "mac_prims_ok (e_prims E)" using E by (simp_all add: env_ok_def)
  have R: "send_context s = Some c" "cc_sync c d" "keys_use (e_prims E) sc key (newkeys_out s) (cc_cipher c)"
      "comp_ready (nk_compressed (newkeys_out s)) (compression_out_started s) (compression_buffer s)" "buf_good (outgoing_packet s)" "buf_good (output_buf s)"
    using r by (simp_all add: send_ready_def)
  note zs = keys_use_sizes [OF R(3)]
  define out where "out = payload_out E s payload"
  have lo: "length out + 256 \<le> PACKET_MAX_SIZE" using l by (simp add: out_def)
  define zo where "zo = (if nk_compressed (newkeys_out s) then z_out s @ [payload] else z_out s)"
  have type: "sshbuf_seen (outgoing_packet s) ! 5 = hd payload" using good_seen [OF R(5)] o by (simp add: nth_append hd_conv_nth)
  have lo5: "length (payload_out E s payload) + 5 \<le> SSHBUF_SIZE_MAX" using l by (simp add: PACKET_MAX_SIZE_def sshbuf_consts)
  obtain b1 h1 cb where s1: "send_compress E s = (Inr (), s\<lparr>outgoing_packet := b1, compression_buffer := cb, z_out := zo\<rparr>)" "buf_good b1"
      "sshbuf_bytes b1 = h1 @ out" "length h1 = 5" "comp_ready (nk_compressed (newkeys_out s)) (compression_out_started s) cb"
    using send_compress_payload [OF e(1) R(5) o R(4) z lo5] unfolding out_def zo_def by metis
  define s1' where "s1' = s\<lparr>outgoing_packet := b1, compression_buffer := cb, z_out := zo\<rparr>"
  have f1: "newkeys_out s1' = newkeys_out s" "outgoing_packet s1' = b1" "extra_pad s1' = extra_pad s" by (simp_all add: s1'_def)
  define bs where "bs = nk_block (newkeys_out s)"
  define len where "len = 5 + length out - nk_aadlen (newkeys_out s)"
  have bs: "bs = 8 \<or> bs = 16" using zs(3) by (simp add: bs_def)
  obtain pl where pl: "extra_padding bs len (pad_length bs len) s1' = (Inr pl, s1'\<lparr>extra_pad := 0\<rparr>)"
    using extra_padding_total [OF bs pad_length_spec(2) [OF bs], of s1' len] x f1(3) by auto
  have g1: "buf_good (outgoing_packet s1')" "sshbuf_bytes (outgoing_packet s1') = h1 @ out" using s1 f1 by simp_all
  have sz: "length out \<le> 2 ^ 26" using lo by (simp add: PACKET_MAX_SIZE_def)
  have bs1: "nk_block (newkeys_out s1') = 8 \<or> nk_block (newkeys_out s1') = 16" using bs by (simp add: f1 bs_def)
  have aad1: "nk_aadlen (newkeys_out s1') \<le> 5" using zs(4) by (auto simp: f1)
  have pl1: "extra_padding (nk_block (newkeys_out s1')) (5 + length out - nk_aadlen (newkeys_out s1'))
      (pad_length (nk_block (newkeys_out s1')) (5 + length out - nk_aadlen (newkeys_out s1'))) s1' = (Inr pl, s1'\<lparr>extra_pad := 0\<rparr>)"
    using pl by (simp add: f1 bs_def len_def)
  obtain b2 pad where s2: "send_pad E s1' = (Inr (), s1'\<lparr>extra_pad := 0, outgoing_packet := b2\<rparr>)" "buf_good b2" "sshbuf_bytes b2 = plain_packet out pad"
      "4 \<le> length pad" "length pad \<le> 255" "(len + length pad) mod bs = 0"
    using send_pad_packet [OF e(1) g1 s1(4) sz bs1 aad1 pl1] unfolding f1 bs_def [symmetric] len_def [symmetric] by metis
  define p where "p = plain_packet out pad"
  have lp: "length p = 5 + length out + length pad" by (simp add: p_def)
  have packed: "packed (newkeys_out s) out p" unfolding packed_def
  proof (intro exI conjI)
    show "p = plain_packet out pad" "4 \<le> length pad" "length pad \<le> 255" using s2 by (simp_all add: p_def)
    have "length p - nk_aadlen (newkeys_out s) = len + length pad" using zs(4) by (auto simp: len_def lp)
    then show "(length p - nk_aadlen (newkeys_out s)) mod nk_block (newkeys_out s) = 0" using s2(6) by (simp add: bs_def)
  qed
  define s2' where "s2' = s\<lparr>outgoing_packet := b2, compression_buffer := cb, z_out := zo, extra_pad := 0\<rparr>"
  have eq2: "s1'\<lparr>extra_pad := 0, outgoing_packet := b2\<rparr> = s2'" by (simp add: s1'_def s2'_def)
  have f2: "newkeys_out s2' = newkeys_out s" "outgoing_packet s2' = b2" "send_context s2' = Some c" "output_buf s2' = output_buf s" "p_send s2' = p_send s"
    using R(1) by (simp_all add: s2'_def)
  have p4: "4 \<le> length p" using lp by simp
  have room2: "length (sshbuf_bytes (output_buf s2')) + length p + 80 \<le> SSHBUF_SIZE_MAX" using room lo s2(5) lp f2(4) by simp
  obtain ct c' ob nk where s3: "send_protected E s2' = (Inr (), s2'\<lparr>send_context := Some c', output_buf := ob, newkeys_out := nk\<rparr>)" "buf_good ob"
      "sshbuf_bytes ob = sshbuf_bytes (output_buf s) @ wire (e_prims E) sc key (newkeys_out s) (seqnr (p_send s)) p ct"
      "cipher_crypt c (seqnr (p_send s)) p (length p - nk_aadlen (newkeys_out s)) (nk_aadlen (newkeys_out s)) (nk_authlen (newkeys_out s)) = (Inr ct, c')"
      "keys_use (e_prims E) sc key nk (cc_cipher c)" "nk_shape nk = nk_shape (newkeys_out s)" "length ct = length p + nk_authlen (newkeys_out s)"
    using send_protected_wire [OF e f2(3) R(2), of sc key p] R(3, 6) s2(2, 3) p4 room2 unfolding f2 p_def by metis
  define s3' where "s3' = s2'\<lparr>send_context := Some c', output_buf := ob, newkeys_out := nk\<rparr>"
  have f3: "p_send s3' = p_send s" "outgoing_packet s3' = b2" by (simp_all add: s3'_def f2)
  obtain ps where s4: "count_sent bs (sshbuf_len b2) s3' = (Inr (), s3'\<lparr>p_send := ps\<rparr>)" "seqnr ps = seqnr (p_send s) + 1" "packets ps = packets (p_send s) + 1"
    using count_sent_ok [of s3' bs "sshbuf_len b2"] n f3(1) by auto
  have "ssh_packet_send2_wrapped E s = (Inr (), s3'\<lparr>p_send := ps, outgoing_packet := sshbuf_reset (e_alloc E) b2\<rparr>)"
    using s4(1) t unfolding ssh_packet_send2_wrapped_def Let_def andthen_def s1(1) type
    by (simp add: s1'_def [symmetric] s2(1) eq2 s3(1) s3'_def [symmetric] bs_def f2 f3 on_outgoing_def buf_reset_def ret_def)
  also have "s3'\<lparr>p_send := ps, outgoing_packet := sshbuf_reset (e_alloc E) b2\<rparr> = s\<lparr>outgoing_packet := sshbuf_reset (e_alloc E) b2, compression_buffer := cb,
       z_out := zo, extra_pad := 0, send_context := Some c', output_buf := ob, newkeys_out := nk, p_send := ps\<rparr>" by (simp add: s3'_def s2'_def)
  finally show ?thesis
    using that [where p = p and ct = ct and c' = c' and b = "sshbuf_reset (e_alloc E) b2" and ob = ob and cb = cb and nk = nk and ps = ps]
      good_reset(1) [OF s2(2), of "e_alloc E"] s1(5) s3 s4 packed unfolding zo_def out_def by simp
qed

end
