(* ===== verification/Packet_Read.thy ===== *)
theory Packet_Read
  imports Packet_Send
begin

text \<open>
  Reading a packet that has been sent: its length, its decryption, in one step or the first block ahead of the rest, and its MAC.
\<close>

subsection \<open>The packet and its length\<close>

definition wire_mac :: "mac_prims \<Rightarrow> mac_scheme \<Rightarrow> u8 list \<Rightarrow> newkeys option \<Rightarrow> u32 \<Rightarrow> u8 list \<Rightarrow> u8 list \<Rightarrow> u8 list" where
  "wire_mac P sc key nk q p ct =
     (if nk_active_mac nk = None then [] else take (nk_maclen nk) (mac_value P sc key q (if nk_etm nk then take (length p) ct else p)))"

lemma wire_parts: "wire P sc key nk q p ct = ct @ wire_mac P sc key nk q p ct"
  by (simp add: wire_def wire_mac_def)

lemma wire_mac_length:
  assumes "mac_prims_ok P" and "keys_use P sc key nk c"
  shows "length (wire_mac P sc key nk q p ct) = nk_maclen nk"
proof (cases "nk_active_mac nk = None")
  case False
  obtain k :: newkeys where "mac_ready P sc key (nk_mac k)" "nk_maclen nk = mac_len (nk_mac k)" by (rule active_mac [OF assms(2) False]) blast
  then show ?thesis using False mac_value_length [OF assms(1)] by (auto simp: wire_mac_def)
qed (simp add: wire_mac_def nk_maclen_def)

lemma wire_mac_shape: "nk_shape nk = nk_shape nk' \<Longrightarrow> wire_mac P sc key nk q p ct = wire_mac P sc key nk' q p ct"
  using same_shape [of nk nk'] by (auto simp: wire_mac_def)

lemma packed_shape: "nk_shape nk = nk_shape nk' \<Longrightarrow> packed nk out p = packed nk' out p"
  using same_shape [of nk nk'] by (auto simp: packed_def)

lemma packed_length:
  assumes "packed nk out p" and "length out + 256 \<le> PACKET_MAX_SIZE"
  shows "9 \<le> length p" and "length p - 4 \<le> PACKET_MAX_SIZE" and "PEEK_U32 p = word_of_nat (length p - 4)" and "(length p - nk_aadlen nk) mod nk_block nk = 0"
    and "unat (PEEK_U32 p) = length p - 4"
proof -
  obtain pad where p: "p = plain_packet out pad" "4 \<le> length pad" "length pad \<le> 255" using assms(1) by (auto simp: packed_def)
  show "9 \<le> length p" using p by simp
  show 1: "length p - 4 \<le> PACKET_MAX_SIZE" using p assms(2) by simp
  show 2: "PEEK_U32 p = word_of_nat (length p - 4)" using p(1) by (simp add: plain_packet_def)
  show "(length p - nk_aadlen nk) mod nk_block nk = 0" using assms(1) by (auto simp: packed_def)
  have "length p - 4 < 2 ^ 32" using 1 by (simp add: PACKET_MAX_SIZE_def)
  then show "unat (PEEK_U32 p) = length p - 4" unfolding 2 by (simp add: unat_of_nat)
qed

text \<open>What is decrypted ahead of the rest: the first block, when the length is in it.\<close>

definition ahead :: "newkeys option \<Rightarrow> nat" where
  "ahead nk = (if nk_aadlen nk = 0 then nk_block nk else 0)"

lemma ahead_le:
  assumes "packed nk out p" and "nk_block nk = 8 \<or> nk_block nk = 16" and "length out + 256 \<le> PACKET_MAX_SIZE"
  shows "ahead nk \<le> length p" and "(length p - ahead nk - nk_aadlen nk) mod nk_block nk = 0"
proof -
  note l = packed_length [OF assms(1, 3)]
  have b: "nk_block nk \<le> length p" if "nk_aadlen nk = 0" 
  proof -
    have "nk_block nk dvd length p" using l(4) that by (simp add: mod_eq_0_iff_dvd)
    then show ?thesis using l(1) by (intro dvd_imp_le) auto
  qed
  then show "ahead nk \<le> length p" by (simp add: ahead_def)
  show "(length p - ahead nk - nk_aadlen nk) mod nk_block nk = 0"
  proof (cases "nk_aadlen nk = 0")
    case True
    then show ?thesis using l(4) b by (simp add: ahead_def mod_eq_dvd_iff_nat [symmetric] le_mod_geq)
  qed (use l(4) in \<open>simp add: ahead_def\<close>)
qed

lemma packlen_good:
  assumes "packed nk out p" and "length out + 256 \<le> PACKET_MAX_SIZE"
  shows "\<not> packlen_bad (s\<lparr>packlen := PEEK_U32 p\<rparr>)" and "PEEK_U32 p \<noteq> 0"
proof -
  note l = packed_length [OF assms]
  show "PEEK_U32 p \<noteq> 0" using l(1, 5) by (metis unat_0 diff_is_0_eq not_numeral_le_zero numeral_le_iff order_trans semiring_norm(69, 71, 72))
  show "\<not> packlen_bad (s\<lparr>packlen := PEEK_U32 p\<rparr>)" using l(1, 2, 5) by (simp add: packlen_bad_def word_less_nat_alt)
qed

lemma read_length_ok:
  assumes F: "never_fails (e_alloc F)" and c: "receive_context r = Some d" "cc_sync c d" and k: "keys_use P sc key (newkeys_in r) (cc_cipher c)"
    and p: "packed (newkeys_in r) out p" "length out + 256 \<le> PACKET_MAX_SIZE"
    and enc: "cipher_crypt c q p (length p - nk_aadlen (newkeys_in r)) (nk_aadlen (newkeys_in r)) (nk_authlen (newkeys_in r)) = (Inr ct, c')"
      "length ct = length p + nk_authlen (newkeys_in r)"
    and r: "seqnr (p_read r) = q" "packlen r = 0" "buf_good (input_buf r)" "sshbuf_bytes (input_buf r) = ct @ X" "buf_good (incoming_packet r)"
  obtains d1 d2 ib inc where
    "read_length F r = (Inr True, r\<lparr>receive_context := Some d1, packlen := PEEK_U32 p, incoming_packet := inc, input_buf := ib\<rparr>)"
    and "buf_good ib" and "buf_good inc" and "sshbuf_bytes inc = take (ahead (newkeys_in r)) p" and "sshbuf_bytes ib = drop (ahead (newkeys_in r)) ct @ X"
    and "cipher_crypt d1 q (drop (ahead (newkeys_in r)) ct @ X) (length p - ahead (newkeys_in r) - nk_aadlen (newkeys_in r)) (nk_aadlen (newkeys_in r)) (nk_authlen (newkeys_in r)) =
      (Inr (drop (ahead (newkeys_in r)) p), d2)"
    and "cc_sync c' d2"
proof (cases "nk_aadlen (newkeys_in r) = 0")
  case False
  note zs = keys_use_sizes [OF k]
  then have aad: "nk_aadlen (newkeys_in r) = 4" using False by blast
  have p4: "4 + (length p - 4) = length p" using packed_length(1) [OF p] by simp
  obtain d1 d2 where d: "cipher_get_length d q (ct @ X) = (Inr (PEEK_U32 p), d1)" "cipher_crypt d1 q (ct @ X) (length p - 4) 4 (nk_authlen (newkeys_in r)) = (Inr p, d2)"
      "cc_sync c' d2"
    using cc.decrypts_after_length [OF c(2) p4, of q ct c' X] enc(1) unfolding zs(1) aad by blast
  define r1 where "r1 = r\<lparr>receive_context := Some d1, packlen := PEEK_U32 p\<rparr>"
  have good: "\<not> packlen_bad r1" using packlen_good(1) [OF p, of "r\<lparr>receive_context := Some d1\<rparr>"] by (simp add: r1_def)
  have "read_length F r = (Inr True, r1\<lparr>incoming_packet := sshbuf_reset (e_alloc F) (incoming_packet r)\<rparr>)"
    using r(1, 2) aad c(1) d(1) good
    by (simp add: read_length_def read_length_ahead_def good_seen [OF r(3)] r(4) r1_def [symmetric] Let_def andthen_def on_incoming_def buf_reset_def ret_def) (simp add: r1_def)
  then have "read_length F r = (Inr True, r\<lparr>receive_context := Some d1, packlen := PEEK_U32 p, incoming_packet := sshbuf_reset (e_alloc F) (incoming_packet r), input_buf := input_buf r\<rparr>)"
    by (simp add: r1_def)
  then show ?thesis
    using that [where ?d1.0 = d1 and ?d2.0 = d2 and ib = "input_buf r" and inc = "sshbuf_reset (e_alloc F) (incoming_packet r)"] good_reset [OF r(5), of "e_alloc F"] r(3, 4) d aad by (simp add: ahead_def)
next
  case True
  note zs = keys_use_sizes [OF k]
  define bs where "bs = nk_block (newkeys_in r)"
  have bs: "bs = 8 \<or> bs = 16" "bs dvd ci_block_size (cc_cipher c)" using zs(2, 3) by (auto simp: bs_def)
  have a: "ahead (newkeys_in r) = bs" using True by (simp add: ahead_def bs_def)
  have bl: "bs \<le> length p" using ahead_le(1) [OF p(1) zs(3) p(2)] a by simp
  have auth: "nk_authlen (newkeys_in r) = 0" "cipher_authlen (cc_cipher c) = 0" using zs(1, 5) True by simp_all
  have dv: "ci_block_size (cc_cipher c) dvd bs" using zs(2) by (simp add: bs_def)
  obtain d1 d2 where d: "cipher_crypt d (seqnr (p_send r)) (ct @ X) bs 0 0 = (Inr (take bs p), d1)"
      "cipher_crypt d1 q (drop bs ct @ X) (length p - bs) 0 0 = (Inr (drop bs p), d2)" "cc_sync c' d2"
    using cc.decrypts_ahead [OF c(2) auth(2), of q p ct c' bs "seqnr (p_send r)" X] enc(1) True auth(1) dv bl by auto
  note g1 = good_reset [OF r(5), of "e_alloc F"]
  have room: "length (sshbuf_bytes (sshbuf_reset (e_alloc F) (incoming_packet r))) + bs \<le> SSHBUF_SIZE_MAX" using g1(2) bs(1) by (auto simp: sshbuf_consts)
  obtain dp b where rs: "sshbuf_reserve (e_alloc F) bs (sshbuf_reset (e_alloc F) (incoming_packet r)) = (Inr dp, b)"
    and st: "buf_good (sshbuf_store dp (take bs p) b)" "sshbuf_bytes (sshbuf_store dp (take bs p) b) = take bs p"
    using good_reserve [OF g1(1) F room] g1(2) bl by (metis append_Nil length_take min_absorb2)
  have bin: "bs \<le> length (sshbuf_bytes (input_buf r))" using r(4) enc(2) bl by simp
  have lb: "\<not> sshbuf_len (input_buf r) < bs" unfolding good_len [OF r(3)] using bin by simp
  obtain ib where ib: "sshbuf_consume bs (input_buf r) = (Inr (), ib)" "buf_good ib" "sshbuf_bytes ib = drop bs ct @ X"
    using good_consume [OF r(3) bin] r(4) enc(2) bl by auto
  define r1 where "r1 = r\<lparr>receive_context := Some d1, incoming_packet := sshbuf_store dp (take bs p) b, packlen := PEEK_U32 p\<rparr>"
  have good: "\<not> packlen_bad r1" using packlen_good(1) [OF p, of "r\<lparr>receive_context := Some d1, incoming_packet := sshbuf_store dp (take bs p) b\<rparr>"] by (simp add: r1_def)
  have pk: "PEEK_U32 (take bs p) = PEEK_U32 p" using bs(1) bl by auto
  have "read_first_block F r = (Inr True, r1\<lparr>input_buf := ib\<rparr>)"
    using lb rs c(1) d(1) good ib(1)
    by (simp add: read_first_block_def Let_def bs_def [symmetric] andthen_def on_incoming_def buf_reset_def on_input_def good_seen [OF r(3)] r(4)
        good_seen [OF st(1)] st(2) pk r1_def ret_def)
  then have "read_length F r = (Inr True, r\<lparr>receive_context := Some d1, packlen := PEEK_U32 p, incoming_packet := sshbuf_store dp (take bs p) b, input_buf := ib\<rparr>)"
    using r(2) True by (simp add: read_length_def r1_def)
  then show ?thesis
    using that [where ?d1.0 = d1 and ?d2.0 = d2 and ib = ib and inc = "sshbuf_store dp (take bs p) b"] st ib d True auth a by simp
qed

subsection \<open>Decryption and MAC\<close>

lemma read_crypt_ok:
  assumes F: "never_fails (e_alloc F)" and c: "receive_context r = Some d1"
      "cipher_crypt d1 (seqnr (p_read r)) (drop a ct @ Y) need (nk_aadlen (newkeys_in r)) (nk_authlen (newkeys_in r)) = (Inr (drop a p), d2)"
    and i: "buf_good (input_buf r)" "sshbuf_bytes (input_buf r) = drop a ct @ Y" "buf_good (incoming_packet r)" "sshbuf_bytes (incoming_packet r) = take a p"
    and l: "a + nk_aadlen (newkeys_in r) + need = length p" "length ct = length p + nk_authlen (newkeys_in r)" "length p \<le> SSHBUF_SIZE_MAX"
  obtains ib inc where "read_crypt F need r = (Inr (), r\<lparr>receive_context := Some d2, incoming_packet := inc, input_buf := ib\<rparr>)"
    and "buf_good ib" and "buf_good inc" and "sshbuf_bytes ib = Y" and "sshbuf_bytes inc = p"
proof -
  define aad where "aad = nk_aadlen (newkeys_in r)"
  define auth where "auth = nk_authlen (newkeys_in r)"
  have ap: "a \<le> length p" "length (drop a p) = aad + need" using l(1) by (auto simp: aad_def)
  have room: "length (sshbuf_bytes (incoming_packet r)) + (aad + need) \<le> SSHBUF_SIZE_MAX" using l(1, 3) i(4) by (simp add: aad_def)
  obtain dp b where rs: "sshbuf_reserve (e_alloc F) (aad + need) (incoming_packet r) = (Inr dp, b)"
    and st: "buf_good (sshbuf_store dp (drop a p) b)" "sshbuf_bytes (sshbuf_store dp (drop a p) b) = p"
    using good_reserve [OF i(3) F room] i(4) ap(2) by (metis append_take_drop_id)
  have n: "aad + need + auth \<le> length (sshbuf_bytes (input_buf r))" using i(2) l(1, 2) by (simp add: aad_def auth_def)
  have d: "drop (aad + need + auth) (drop a ct @ Y) = Y" using l(1, 2) by (simp add: aad_def auth_def)
  obtain ib where ib: "sshbuf_consume (aad + need + auth) (input_buf r) = (Inr (), ib)" "buf_good ib" "sshbuf_bytes ib = Y"
    using good_consume [OF i(1) n] d unfolding i(2) by metis
  have "read_crypt F need r = (Inr (), r\<lparr>receive_context := Some d2, incoming_packet := sshbuf_store dp (drop a p) b, input_buf := ib\<rparr>)"
    using rs c ib(1) by (simp add: read_crypt_def Let_def aad_def [symmetric] auth_def [symmetric] andthen_def on_incoming_def on_input_def good_seen [OF i(1)] i(2))
  then show ?thesis using that [where ib = ib and inc = "sshbuf_store dp (drop a p) b"] st ib by simp
qed

lemma read_protected_ok:
  assumes F: "env_ok F" and k: "keys_use (e_prims F) sc key (newkeys_in r) C" and a: "a = ahead (newkeys_in r)" and c: "receive_context r = Some d1"
      "cipher_crypt d1 (seqnr (p_read r)) (drop a ct @ M @ rest) need (nk_aadlen (newkeys_in r)) (nk_authlen (newkeys_in r)) = (Inr (drop a p), d2)"
    and M: "M = wire_mac (e_prims F) sc key (newkeys_in r) (seqnr (p_read r)) p ct"
    and i: "buf_good (input_buf r)" "sshbuf_bytes (input_buf r) = drop a ct @ M @ rest" "buf_good (incoming_packet r)" "sshbuf_bytes (incoming_packet r) = take a p"
    and l: "a + nk_aadlen (newkeys_in r) + need = length p" "length ct = length p + nk_authlen (newkeys_in r)" "length p \<le> SSHBUF_SIZE_MAX"
  obtains nk ib inc where "read_protected F need r = (Inr True, r\<lparr>receive_context := Some d2, newkeys_in := nk, incoming_packet := inc, input_buf := ib\<rparr>)"
    and "keys_use (e_prims F) sc key nk C" and "nk_shape nk = nk_shape (newkeys_in r)" and "buf_good ib" and "buf_good inc" and "sshbuf_bytes ib = rest" and "sshbuf_bytes inc = p"
proof (cases "nk_active_mac (newkeys_in r) = None")
  case True
  then have [simp]: "M = []" "\<not> nk_etm (newkeys_in r)" using M by (simp_all add: wire_mac_def nk_etm_def)
  have nf: "never_fails (e_alloc F)" using F by (simp add: env_ok_def)
  obtain ib inc where x: "read_crypt F need r = (Inr (), r\<lparr>receive_context := Some d2, incoming_packet := inc, input_buf := ib\<rparr>)"
      "buf_good ib" "buf_good inc" "sshbuf_bytes ib = M @ rest" "sshbuf_bytes inc = p"
    using read_crypt_ok [OF nf c i l] by metis
  have "read_protected F need r = (Inr True, r\<lparr>receive_context := Some d2, newkeys_in := newkeys_in r, incoming_packet := inc, input_buf := ib\<rparr>)"
    using x(1) True by (simp add: read_protected_def Let_def andthen_def read_mac_def ret_def)
  then show ?thesis using that [where nk = "newkeys_in r" and inc = inc and ib = ib] k x by simp
next
  case False
  have nf: "never_fails (e_alloc F)" "mac_prims_ok (e_prims F)" using F by (simp_all add: env_ok_def)
  define ml where "ml = nk_maclen (newkeys_in r)"
  have Ml: "length M = ml" using wire_mac_length [OF nf(2) k] by (simp add: M ml_def)
  have auth: "nk_authlen (newkeys_in r) = 0" using False by (auto simp: nk_active_mac_def nk_authlen_def split: option.splits if_splits)
  have finish: "\<exists>b. sshbuf_consume ml ib = (Inr (), b) \<and> buf_good b \<and> sshbuf_bytes b = rest" if "buf_good ib" "sshbuf_bytes ib = M @ rest" for ib
    using good_consume [OF that(1), of ml] that(2) Ml by auto
  show ?thesis
  proof (cases "nk_etm (newkeys_in r)")
    case etm: True
    then have aad: "nk_aadlen (newkeys_in r) = 4" "a = 0" by (simp_all add: nk_aadlen_def a ahead_def)
    have data: "take (4 + need) (ct @ M @ rest) = take (length p) ct" "drop (4 + need) (ct @ M @ rest) = M @ rest" using l auth aad by simp_all
    have seen: "take (nk_aadlen (newkeys_in r) + need) (sshbuf_seen (input_buf r)) = take (length p) ct"
        "take (nk_maclen (newkeys_in r)) (drop (nk_aadlen (newkeys_in r) + need + nk_authlen (newkeys_in r)) (sshbuf_seen (input_buf r))) = M"
      unfolding good_seen [OF i(1)] i(2) aad auth ml_def [symmetric] using data Ml by simp_all
    have lm: "nk_maclen (newkeys_in r) \<le> length M" using Ml by (simp add: ml_def)
    obtain nk where nk: "mac_in F (take (length p) ct) M r = (Inr (), r\<lparr>newkeys_in := nk\<rparr>)" "keys_use (e_prims F) sc key nk C" "nk_shape nk = nk_shape (newkeys_in r)"
      using mac_in_ready [OF nf(2) k False lm, of "take (length p) ct"] False etm Ml by (auto simp: M wire_mac_def ml_def)
    define r1 where "r1 = r\<lparr>newkeys_in := nk\<rparr>"
    have f: "newkeys_in r1 = nk" "receive_context r1 = Some d1" "p_read r1 = p_read r" "input_buf r1 = input_buf r" "incoming_packet r1 = incoming_packet r"
      using c(1) by (simp_all add: r1_def)
    note eq = same_shape [OF nk(3)]
    obtain ib inc where x: "read_crypt F need r1 = (Inr (), r1\<lparr>receive_context := Some d2, incoming_packet := inc, input_buf := ib\<rparr>)"
        "buf_good ib" "buf_good inc" "sshbuf_bytes ib = M @ rest" "sshbuf_bytes inc = p"
      using read_crypt_ok [OF nf(1), of r1 d1 a ct "M @ rest" need p d2] c i l unfolding f eq by metis
    obtain b where b: "sshbuf_consume ml ib = (Inr (), b)" "buf_good b" "sshbuf_bytes b = rest" using finish [OF x(2, 4)] by blast
    have "read_protected F need r = (Inr True, r\<lparr>receive_context := Some d2, newkeys_in := nk, incoming_packet := inc, input_buf := b\<rparr>)"
      using etm nk(1) x(1) b(1) False unfolding read_protected_def Let_def andthen_def seen
      by (auto simp: ml_def [symmetric] r1_def [symmetric] read_mac_def Let_def f eq andthen_def on_input_def ret_def) (simp add: r1_def)
    then show ?thesis using that [where nk = nk and inc = inc and ib = b] nk x b by simp
  next
    case etm: False
    obtain ib inc where x: "read_crypt F need r = (Inr (), r\<lparr>receive_context := Some d2, incoming_packet := inc, input_buf := ib\<rparr>)"
        "buf_good ib" "buf_good inc" "sshbuf_bytes ib = M @ rest" "sshbuf_bytes inc = p"
      using read_crypt_ok [OF nf(1) c i l] by metis
    define r1 where "r1 = r\<lparr>receive_context := Some d2, incoming_packet := inc, input_buf := ib\<rparr>"
    have f: "newkeys_in r1 = newkeys_in r" "p_read r1 = p_read r" "input_buf r1 = ib" "incoming_packet r1 = inc" by (simp_all add: r1_def)
    have tk: "take ml (M @ rest) = M" "take ml M = M" using Ml by simp_all
    have lm: "nk_maclen (newkeys_in r1) \<le> length M" using Ml by (simp add: ml_def f)
    obtain nk where nk: "mac_in F p M r1 = (Inr (), r1\<lparr>newkeys_in := nk\<rparr>)" "keys_use (e_prims F) sc key nk C" "nk_shape nk = nk_shape (newkeys_in r)"
      using mac_in_ready [OF nf(2) _ _ lm, of sc key C p] k False etm Ml by (auto simp: M wire_mac_def ml_def f)
    obtain b where b: "sshbuf_consume ml ib = (Inr (), b)" "buf_good b" "sshbuf_bytes b = rest" using finish [OF x(2, 4)] by blast
    have "read_protected F need r = (Inr True, r\<lparr>receive_context := Some d2, newkeys_in := nk, incoming_packet := inc, input_buf := b\<rparr>)"
      using etm nk(1) x(1) b(1) False unfolding read_protected_def Let_def andthen_def
      by (auto simp: tk Ml ml_def [symmetric] r1_def [symmetric] read_mac_def Let_def f good_seen [OF x(2)] x(4) good_seen [OF x(3)] x(5) andthen_def on_input_def ret_def) (simp add: r1_def)
    then show ?thesis using that [where nk = nk and inc = inc and ib = b] nk x b by simp
  qed
qed

end
