(* ===== verification/Packet_Roundtrip.thy ===== *)
theory Packet_Roundtrip
  imports Packet_Read
begin

text \<open>
  What one end of a connection sends the other end reads. The two ends are in step when their cipher contexts are, they use the same keys, count the same packets and
  their zlib streams correspond; a packet that is sent and read leaves them in step.
\<close>

subsection \<open>In step\<close>

definition recv_ready :: "env \<Rightarrow> mac_scheme \<Rightarrow> u8 list \<Rightarrow> sshcipher_ctx \<Rightarrow> sshcipher_ctx \<Rightarrow> ssh \<Rightarrow> bool" where
  "recv_ready F sc key c d r \<longleftrightarrow> receive_context r = Some d \<and> keys_use (e_prims F) sc key (newkeys_in r) (cc_cipher c) \<and>
     comp_ready (nk_compressed (newkeys_in r)) (compression_in_started r) (compression_buffer r) \<and> buf_good (input_buf r) \<and> buf_good (incoming_packet r) \<and>
     packlen r = 0 \<and> packet_discard r = 0 \<and> \<not> mux r"

definition in_step :: "env \<Rightarrow> env \<Rightarrow> mac_scheme \<Rightarrow> u8 list \<Rightarrow> ssh \<Rightarrow> ssh \<Rightarrow> bool" where
  "in_step E F sc key s r \<longleftrightarrow> (\<exists>c d. send_ready E sc key c d s \<and> recv_ready F sc key c d r) \<and> nk_shape (newkeys_out s) = nk_shape (newkeys_in r) \<and>
     seqnr (p_send s) = seqnr (p_read r) \<and> (nk_compressed (newkeys_out s) \<longrightarrow> zsync E (z_out s) (z_in r))"

text \<open>Starting a key exchange sends a packet: it leaves alone what is read. No hook is installed for incoming packets.\<close>

definition recv_same :: "ssh \<Rightarrow> ssh \<Rightarrow> bool" where
  "recv_same r r' \<longleftrightarrow> receive_context r' = receive_context r \<and> newkeys_in r' = newkeys_in r \<and> p_read r' = p_read r \<and> packlen r' = packlen r \<and>
     packet_discard r' = packet_discard r \<and> mux r' = mux r \<and> input_buf r' = input_buf r \<and> incoming_packet r' = incoming_packet r \<and> z_in r' = z_in r \<and>
     compression_in_started r' = compression_in_started r \<and> ((\<exists>b. compression_buffer r = Some b \<and> buf_good b) \<longrightarrow> (\<exists>b. compression_buffer r' = Some b \<and> buf_good b))"

definition quiet_env :: "env \<Rightarrow> bool" where
  "quiet_env F \<longleftrightarrow> e_hook_in F = ret \<and> (\<forall>r. \<exists>r'. e_rekex F r = (Inr (), r') \<and> recv_same r r')"

lemma recv_same_refl: "recv_same r r"
  by (simp add: recv_same_def)

lemma recv_same_ready: "recv_same r r' \<Longrightarrow> recv_ready F sc key c d r \<Longrightarrow> recv_ready F sc key c d r'"
  by (simp add: recv_same_def recv_ready_def comp_ready_def)

lemma crypt_keeps_cipher: "cipher_crypt c q p len aad auth = (x, c') \<Longrightarrow> cc_cipher c' = cc_cipher c"
  by (auto simp: cipher_crypt_def split: if_splits prod.splits)

subsection \<open>The payload\<close>

lemma count_read_ok:
  "packets (p_read r) + 1 \<noteq> 0 \<Longrightarrow>
   \<exists>pr. count_read bs r = (Inr (seqnr (p_read r)), r\<lparr>p_read := pr\<rparr>) \<and> seqnr pr = seqnr (p_read r) + 1 \<and> packets pr = packets (p_read r) + 1"
  by (rule exI [where x = "(p_read r)\<lparr>seqnr := seqnr (p_read r) + 1, packets := packets (p_read r) + 1,
         blocks := blocks (p_read r) + ucast ((packlen r + 4) div word_of_nat bs), bytes := bytes (p_read r) + ucast (packlen r + 4)\<rparr>"])
    (simp add: count_read_def Let_def ret_def)

lemma read_payload_ok:
  assumes F: "never_fails (e_alloc F)" and i: "buf_good (incoming_packet r)" "sshbuf_bytes (incoming_packet r) = p" and p: "packed nk out p"
    and c: "comp_ready (nk_compressed (newkeys_in r)) (compression_in_started r) (compression_buffer r)"
    and z: "nk_compressed (newkeys_in r) \<Longrightarrow> snd (e_inflate F (z_in r) out) = None \<and> concat (fst (e_inflate F (z_in r) out)) = payload"
      "\<not> nk_compressed (newkeys_in r) \<Longrightarrow> out = payload" and l: "length payload \<le> SSHBUF_SIZE_MAX"
  obtains b cb zi where "read_payload F r = (Inr (), r\<lparr>incoming_packet := b, compression_buffer := cb, z_in := zi\<rparr>)"
    and "zi = (if nk_compressed (newkeys_in r) then z_in r @ [out] else z_in r)"
    and "buf_good b" and "sshbuf_bytes b = payload" and "comp_ready (nk_compressed (newkeys_in r)) (compression_in_started r) cb"
proof -
  obtain pad where pad: "p = plain_packet out pad" "4 \<le> length pad" "length pad \<le> 255" using p by (auto simp: packed_def)
  have p4: "unat (sshbuf_seen (incoming_packet r) ! 4) = length pad" using good_seen [OF i(1)] i(2) pad(1, 3) unat_small [of "length pad"] by (simp add: plain_packet_def nth_append)
  have d5: "drop 5 p = out @ pad" using pad(1) by (simp add: plain_packet_def)
  obtain b1 where b1: "sshbuf_consume 5 (incoming_packet r) = (Inr (), b1)" "buf_good b1" "sshbuf_bytes b1 = out @ pad"
    using good_consume [OF i(1), of 5] i(2) d5 pad(1) by auto
  obtain b2 where b2: "sshbuf_consume_end (length pad) b1 = (Inr (), b2)" "buf_good b2" "sshbuf_bytes b2 = out"
    using good_consume_end [OF b1(2), of "length pad"] b1(3) by auto
  define r1 where "r1 = r\<lparr>incoming_packet := b2\<rparr>"
  have run: "read_payload F r = (if nk_compressed (newkeys_in r) then uncompress_incoming F r1 else (Inr (), r1))"
    using p4 pad(2) b1(1) b2(1) by (simp add: read_payload_def Let_def andthen_def on_incoming_def r1_def ret_def)
  show ?thesis
  proof (cases "nk_compressed (newkeys_in r)")
    case False
    have "read_payload F r = (Inr (), r\<lparr>incoming_packet := b2, compression_buffer := compression_buffer r, z_in := z_in r\<rparr>)" using run False by (simp add: r1_def)
    then show ?thesis using that [where b = b2 and cb = "compression_buffer r" and zi = "z_in r"] z(2) b2 c False by simp
  next
    case True
    have g: "buf_good (incoming_packet r1)" "sshbuf_bytes (incoming_packet r1) = out" "comp_ready True (compression_in_started r1) (compression_buffer r1)" "z_in r1 = z_in r"
      using b2 c True by (simp_all add: r1_def)
    obtain b cb where u: "uncompress_incoming F r1 = (Inr (), r1\<lparr>incoming_packet := b, compression_buffer := cb, z_in := z_in r1 @ [out]\<rparr>)" "buf_good b"
        "sshbuf_bytes b = payload" "comp_ready True (compression_in_started r1) cb"
      using uncompress_incoming_payload [OF F g(1-3), of payload] z(1) [OF True] l g(4) by metis
    have "read_payload F r = (Inr (), r\<lparr>incoming_packet := b, compression_buffer := cb, z_in := z_in r @ [out]\<rparr>)" using run True u(1) by (simp add: r1_def)
    then show ?thesis using that [where b = b and cb = cb and zi = "z_in r @ [out]"] u True by (simp add: r1_def)
  qed
qed

lemma read_type_ok:
  assumes F: "quiet_env F" and i: "buf_good (incoming_packet r)" "sshbuf_bytes (incoming_packet r) = type # data"
    and t: "SSH2_MSG_MIN \<le> type" "type \<noteq> SSH2_MSG_USERAUTH_SUCCESS"
  obtains b r' where "read_type F r = (Inr type, r')" and "recv_same (r\<lparr>incoming_packet := b, packlen := 0\<rparr>) r'" and "buf_good b" and "sshbuf_bytes b = data"
proof -
  obtain b where b: "sshbuf_get_u8 (incoming_packet r) = (Inr type, b)" "buf_good b" "sshbuf_bytes b = data" using good_get_u8 [OF i] by metis
  define r1 where "r1 = r\<lparr>incoming_packet := b, packlen := 0\<rparr>"
  have nt: "\<not> type < SSH2_MSG_MIN" using t(1) by simp
  have run: "read_type F r = andthen (ssh_packet_check_rekey F) (\<lambda>_. ret type) r1"
    using F nt t(2) b(1) by (simp add: read_type_def andthen_def on_incoming_def quiet_env_def r1_def Let_def ret_def)
  obtain r' where "ssh_packet_check_rekey F r1 = (Inr (), r')" "recv_same r1 r'"
    using F recv_same_refl [of r1] by (cases "ssh_packet_need_rekeying F r1 0") (auto simp: ssh_packet_check_rekey_def quiet_env_def ret_def)
  then show ?thesis using that [where b = b and r' = r'] run b by (simp add: andthen_def r1_def ret_def)
qed

subsection \<open>Reading\<close>

lemma read_needed_ok:
  assumes k: "keys_use P sc key (newkeys_in r) C" and p: "packed (newkeys_in r) out p" "length out + 256 \<le> PACKET_MAX_SIZE" and n: "packlen r = PEEK_U32 p"
  shows "unat (read_needed r) = length p - ahead (newkeys_in r) - nk_aadlen (newkeys_in r)"
    and "ahead (newkeys_in r) + nk_aadlen (newkeys_in r) + unat (read_needed r) = length p"
    and "unat (word_of_nat (nk_aadlen (newkeys_in r)) + word_of_nat (unat (read_needed r)) + word_of_nat (nk_authlen (newkeys_in r)) + word_of_nat (nk_maclen (newkeys_in r)) :: u32) =
      nk_aadlen (newkeys_in r) + unat (read_needed r) + nk_authlen (newkeys_in r) + nk_maclen (newkeys_in r)"
proof -
  note zs = keys_use_sizes [OF k]
  note l = packed_length [OF p]
  note a = ahead_le [OF p(1) zs(3) p(2)]
  have lt: "length p < 2 ^ 20" using l(1, 2) by (simp add: PACKET_MAX_SIZE_def)
  show 1: "unat (read_needed r) = length p - ahead (newkeys_in r) - nk_aadlen (newkeys_in r)"
  proof (cases "nk_aadlen (newkeys_in r) = 0")
    case True
    have "read_needed r = word_of_nat (length p - nk_block (newkeys_in r))"
      using True a(1) l(1) by (simp add: read_needed_def n l(3) ahead_def of_nat_diff)
    moreover have "length p - nk_block (newkeys_in r) < 2 ^ 32" using lt by simp
    ultimately show ?thesis using True by (simp add: ahead_def unat_of_nat)
  next
    case False
    then show ?thesis using zs(4) l(5) by (auto simp: read_needed_def n ahead_def)
  qed
  show "ahead (newkeys_in r) + nk_aadlen (newkeys_in r) + unat (read_needed r) = length p" unfolding 1 using a(1) l(1) zs(4) by (auto simp: ahead_def)
  define m where "m = nk_aadlen (newkeys_in r) + unat (read_needed r) + nk_authlen (newkeys_in r) + nk_maclen (newkeys_in r)"
  have "m < 2 ^ 32" unfolding m_def 1 using lt zs(4, 6) maclen_bound [OF k] by auto
  then have "unat (word_of_nat m :: u32) = m" by (simp add: unat_of_nat)
  then show "unat (word_of_nat (nk_aadlen (newkeys_in r)) + word_of_nat (unat (read_needed r)) + word_of_nat (nk_authlen (newkeys_in r)) + word_of_nat (nk_maclen (newkeys_in r)) :: u32) =
      nk_aadlen (newkeys_in r) + unat (read_needed r) + nk_authlen (newkeys_in r) + nk_maclen (newkeys_in r)" by (simp add: m_def)
qed

lemma read_poll_wire:
  assumes F: "env_ok F" "quiet_env F" and r: "recv_ready F sc key c d r" "cc_sync c d" and p: "packed (newkeys_in r) out p" "length out + 256 \<le> PACKET_MAX_SIZE"
    and enc: "cipher_crypt c (seqnr (p_read r)) p (length p - nk_aadlen (newkeys_in r)) (nk_aadlen (newkeys_in r)) (nk_authlen (newkeys_in r)) = (Inr ct, c')"
      "length ct = length p + nk_authlen (newkeys_in r)"
    and inp: "sshbuf_bytes (input_buf r) = ct @ wire_mac (e_prims F) sc key (newkeys_in r) (seqnr (p_read r)) p ct @ rest"
    and z: "nk_compressed (newkeys_in r) \<Longrightarrow> snd (e_inflate F (z_in r) out) = None \<and> concat (fst (e_inflate F (z_in r) out)) = type # data"
      "\<not> nk_compressed (newkeys_in r) \<Longrightarrow> out = type # data" and l: "Suc (length data) \<le> SSHBUF_SIZE_MAX"
    and t: "SSH2_MSG_MIN \<le> type" "type \<noteq> SSH2_MSG_USERAUTH_SUCCESS" and n: "packets (p_read r) + 1 \<noteq> 0"
  obtains r' d' where "ssh_packet_read_poll2 F r = (Inr (type, seqnr (p_read r)), r')" and "recv_ready F sc key c' d' r'" and "cc_sync c' d'"
    and "nk_shape (newkeys_in r') = nk_shape (newkeys_in r)" and "sshbuf_bytes (incoming_packet r') = data" and "sshbuf_bytes (input_buf r') = rest"
    and "seqnr (p_read r') = seqnr (p_read r) + 1" and "packets (p_read r') = packets (p_read r) + 1" and "z_in r' = (if nk_compressed (newkeys_in r) then z_in r @ [out] else z_in r)"
proof -
  have R: "receive_context r = Some d" "keys_use (e_prims F) sc key (newkeys_in r) (cc_cipher c)"
      "comp_ready (nk_compressed (newkeys_in r)) (compression_in_started r) (compression_buffer r)" "buf_good (input_buf r)" "buf_good (incoming_packet r)"
      "packlen r = 0" "packet_discard r = 0" "\<not> mux r"
    using r(1) by (simp_all add: recv_ready_def)
  have nf: "never_fails (e_alloc F)" "mac_prims_ok (e_prims F)" using F(1) by (simp_all add: env_ok_def)
  define M where "M = wire_mac (e_prims F) sc key (newkeys_in r) (seqnr (p_read r)) p ct"
  define a where "a = ahead (newkeys_in r)"
  obtain d1 d2 ib inc where r1: "read_length F r = (Inr True, r\<lparr>receive_context := Some d1, packlen := PEEK_U32 p, incoming_packet := inc, input_buf := ib\<rparr>)"
      "buf_good ib" "buf_good inc" "sshbuf_bytes inc = take a p" "sshbuf_bytes ib = drop a ct @ M @ rest"
      "cipher_crypt d1 (seqnr (p_read r)) (drop a ct @ M @ rest) (length p - a - nk_aadlen (newkeys_in r)) (nk_aadlen (newkeys_in r)) (nk_authlen (newkeys_in r)) = (Inr (drop a p), d2)"
      "cc_sync c' d2"
    using read_length_ok [OF nf(1) R(1) r(2) R(2) p enc refl R(6, 4) inp R(5)] unfolding a_def M_def by metis
  define s1 where "s1 = r\<lparr>receive_context := Some d1, packlen := PEEK_U32 p, incoming_packet := inc, input_buf := ib\<rparr>"
  have f1: "newkeys_in s1 = newkeys_in r" "receive_context s1 = Some d1" "p_read s1 = p_read r" "input_buf s1 = ib" "incoming_packet s1 = inc" "packlen s1 = PEEK_U32 p"
    by (simp_all add: s1_def)
  define need where "need = unat (read_needed s1)"
  have k1: "keys_use (e_prims F) sc key (newkeys_in s1) (cc_cipher c)" "packed (newkeys_in s1) out p" using R(2) p(1) by (simp_all add: f1)
  note nd = read_needed_ok [OF k1 p(2) f1(6), unfolded f1(1), folded need_def a_def]
  note zs = keys_use_sizes [OF R(2)]
  have lp: "length p \<le> SSHBUF_SIZE_MAX" using packed_length(2) [OF p] by (simp add: PACKET_MAX_SIZE_def sshbuf_consts)
  obtain nk ib2 inc2 where r2: "read_protected F need s1 = (Inr True, s1\<lparr>receive_context := Some d2, newkeys_in := nk, incoming_packet := inc2, input_buf := ib2\<rparr>)"
      "keys_use (e_prims F) sc key nk (cc_cipher c)" "nk_shape nk = nk_shape (newkeys_in r)" "buf_good ib2" "buf_good inc2" "sshbuf_bytes ib2 = rest" "sshbuf_bytes inc2 = p"
    using read_protected_ok [OF F(1), of sc key s1 "cc_cipher c" a d1 ct M rest need p d2] R(2) r1 nd enc(2) lp unfolding f1 a_def [symmetric] M_def [symmetric] nd(1) [symmetric] by metis
  define s2 where "s2 = s1\<lparr>receive_context := Some d2, newkeys_in := nk, incoming_packet := inc2, input_buf := ib2\<rparr>"
  note eq = same_shape [OF r2(3)]
  obtain pr where s3: "count_read (nk_block (newkeys_in r)) s2 = (Inr (seqnr (p_read r)), s2\<lparr>p_read := pr\<rparr>)" "seqnr pr = seqnr (p_read r) + 1" "packets pr = packets (p_read r) + 1"
    using count_read_ok [of s2 "nk_block (newkeys_in r)"] n by (auto simp: s2_def f1)
  define s3 where "s3 = s2\<lparr>p_read := pr\<rparr>"
  have f3: "incoming_packet s3 = inc2" "newkeys_in s3 = nk" "compression_in_started s3 = compression_in_started r" "compression_buffer s3 = compression_buffer r" "z_in s3 = z_in r"
    by (simp_all add: s3_def s2_def s1_def)
  have c3: "comp_ready (nk_compressed (newkeys_in s3)) (compression_in_started s3) (compression_buffer s3)" using R(3) by (simp add: f3 eq)
  have z3: "nk_compressed (newkeys_in s3) \<Longrightarrow> snd (e_inflate F (z_in s3) out) = None \<and> concat (fst (e_inflate F (z_in s3) out)) = type # data"
    "\<not> nk_compressed (newkeys_in s3) \<Longrightarrow> out = type # data" using z by (simp_all add: f3 eq)
  have l3: "length (type # data) \<le> SSHBUF_SIZE_MAX" using l by simp
  have i3: "buf_good (incoming_packet s3)" "sshbuf_bytes (incoming_packet s3) = p" using r2 by (simp_all add: f3)
  obtain b cb zi where r4: "read_payload F s3 = (Inr (), s3\<lparr>incoming_packet := b, compression_buffer := cb, z_in := zi\<rparr>)"
      "zi = (if nk_compressed (newkeys_in r) then z_in r @ [out] else z_in r)" "buf_good b" "sshbuf_bytes b = type # data"
      "comp_ready (nk_compressed (newkeys_in r)) (compression_in_started r) cb"
    using read_payload_ok [OF nf(1) i3 p(1) c3 z3 l3] unfolding f3 eq by metis
  define s4 where "s4 = s3\<lparr>incoming_packet := b, compression_buffer := cb, z_in := zi\<rparr>"
  have i4: "buf_good (incoming_packet s4)" "sshbuf_bytes (incoming_packet s4) = type # data" using r4 by (simp_all add: s4_def)
  obtain b5 r' where r5: "read_type F s4 = (Inr type, r')" "recv_same (s4\<lparr>incoming_packet := b5, packlen := 0\<rparr>) r'" "buf_good b5" "sshbuf_bytes b5 = data"
    using read_type_ok [OF F(2) i4 t] by metis
  have "need mod nk_block (newkeys_in r) = 0" using ahead_le(2) [OF p(1) zs(3) p(2)] nd(1) by (simp add: a_def)
  moreover have "\<not> sshbuf_len ib < nk_aadlen (newkeys_in r) + need + nk_authlen (newkeys_in r) + nk_maclen (newkeys_in r)"
    unfolding good_len [OF r1(2)] r1(5) using nd(2) enc(2) wire_mac_length [OF nf(2) R(2)] by (simp add: M_def)
  ultimately have "read_packet F s1 = (Inr (type, seqnr (p_read r)), r')"
    using r2(1) s3(1) r4(1) r5(1)
    by (simp add: read_packet_def Let_def f1 need_def [symmetric] nd(3) andthen_def s2_def [symmetric] s3_def [symmetric] s4_def [symmetric] ret_def)
  then have run: "ssh_packet_read_poll2 F r = (Inr (type, seqnr (p_read r)), r')"
    using r1(1) R(7, 8) by (simp add: ssh_packet_read_poll2_def andthen_def s1_def)
  have x: "s4\<lparr>incoming_packet := b5, packlen := 0\<rparr> = r\<lparr>receive_context := Some d2, packlen := 0, incoming_packet := b5, input_buf := ib2, newkeys_in := nk, p_read := pr,
      compression_buffer := cb, z_in := zi\<rparr>" by (simp add: s4_def s3_def s2_def s1_def)
  have "recv_ready F sc key c' d2 (s4\<lparr>incoming_packet := b5, packlen := 0\<rparr>)"
    unfolding x using R r2 r4 r5 crypt_keeps_cipher [OF enc(1)] eq by (simp add: recv_ready_def)
  then have "recv_ready F sc key c' d2 r'" by (rule recv_same_ready [OF r5(2)])
  then show ?thesis using that [where r' = r' and d' = d2] run r1(7) r2(3, 6) s3(2, 3) r4(2) r5(2, 4) unfolding x recv_same_def by simp
qed

subsection \<open>A packet from one end to the other\<close>

definition connected :: "env \<Rightarrow> env \<Rightarrow> bool" where
  "connected E F \<longleftrightarrow> env_ok E \<and> env_ok F \<and> e_prims F = e_prims E \<and> quiet_env F \<and> zlib_ok E F"

lemma send2_wrapped_kex:
  assumes "6 \<le> sshbuf_len (outgoing_packet s)" and "sshbuf_seen (outgoing_packet s) ! 5 = type" and "type \<noteq> SSH2_MSG_NEWKEYS"
    and "ssh_packet_type_is_kex type \<or> (\<not> rekeying s \<and> \<not> ssh_packet_need_rekeying E s (sshbuf_len (outgoing_packet s)))"
  shows "ssh_packet_send2 E s = ssh_packet_send2_wrapped E (if type = SSH2_MSG_KEXINIT then s\<lparr>rekeying := True\<rparr> else s)"
  using assms by (auto simp: ssh_packet_send2_def Let_def andthen_def ret_def split: prod.splits sum.splits)

text \<open>What the sender has put into its zlib stream the receiver gets out of its own.\<close>

lemma zlib_step:
  assumes "zlib_ok E F" and "zsync E (z_out s) zi" and "nk_compressed (newkeys_out s)"
  shows "snd (e_inflate F zi (payload_out E s payload)) = None" and "concat (fst (e_inflate F zi (payload_out E s payload))) = payload"
    and "zsync E (z_out s @ [payload]) (zi @ [payload_out E s payload])"
proof -
  show "snd (e_inflate F zi (payload_out E s payload)) = None" "concat (fst (e_inflate F zi (payload_out E s payload))) = payload"
    using assms by (auto simp: zlib_ok_def payload_out_def)
  have "e_deflate E (z_out s) payload = (fst (e_deflate E (z_out s) payload), None)" using assms(1) by (simp add: zlib_ok_def prod_eq_iff)
  then show "zsync E (z_out s @ [payload]) (zi @ [payload_out E s payload])" using zsync_block [OF assms(2)] assms(3) by (auto simp: payload_out_def)
qed

lemma in_step_wrapped:
  assumes step: "in_step E F sc key s r" and EF: "connected E F"
    and o: "sshbuf_bytes (outgoing_packet s) = h @ type # data" "length h = 5"
    and t: "SSH2_MSG_MIN \<le> type" "type \<noteq> SSH2_MSG_NEWKEYS" "type \<noteq> SSH2_MSG_USERAUTH_SUCCESS"
    and l: "length (payload_out E s (type # data)) + 256 \<le> PACKET_MAX_SIZE" and x: "unat (extra_pad s) \<le> 224"
    and room: "length (sshbuf_bytes (output_buf s)) + PACKET_MAX_SIZE + 100 \<le> SSHBUF_SIZE_MAX"
    and n: "packets (p_send s) + 1 \<noteq> 0" "packets (p_read r) + 1 \<noteq> 0"
  shows "\<exists>s' w. ssh_packet_send2_wrapped E s = (Inr (), s') \<and> buf_good (output_buf s') \<and> sshbuf_bytes (output_buf s') = sshbuf_bytes (output_buf s) @ w \<and>
    (\<forall>b rest. buf_good b \<and> sshbuf_bytes b = w @ rest \<longrightarrow>
      (\<exists>r'. ssh_packet_read_poll2 F (r\<lparr>input_buf := b\<rparr>) = (Inr (type, seqnr (p_send s)), r') \<and> sshbuf_bytes (incoming_packet r') = data \<and>
         sshbuf_bytes (input_buf r') = rest \<and> in_step E F sc key s' r'))"
proof -
  obtain c d where S: "send_ready E sc key c d s" and R: "recv_ready F sc key c d r" using step by (auto simp: in_step_def)
  have sh: "nk_shape (newkeys_out s) = nk_shape (newkeys_in r)" and sq: "seqnr (p_send s) = seqnr (p_read r)"
    and zs: "nk_compressed (newkeys_out s) \<Longrightarrow> zsync E (z_out s) (z_in r)" using step by (simp_all add: in_step_def)
  have env: "env_ok E" "env_ok F" "e_prims F = e_prims E" "quiet_env F" "zlib_ok E F" using EF by (simp_all add: connected_def)
  note eq = same_shape [OF sh]
  define out where "out = payload_out E s (type # data)"
  have z: "snd (e_deflate E (z_out s) (type # data)) = None" using env(5) by (simp add: zlib_ok_def)
  have hd: "type # data \<noteq> []" "hd (type # data) \<noteq> SSH2_MSG_NEWKEYS" "hd (type # data) \<noteq> SSH2_MSG_USERAUTH_SUCCESS" using t by simp_all
  obtain p ct c' b ob cb nk ps where w: "ssh_packet_send2_wrapped E s = (Inr (), s\<lparr>outgoing_packet := b, compression_buffer := cb,
       z_out := (if nk_compressed (newkeys_out s) then z_out s @ [type # data] else z_out s), extra_pad := 0, send_context := Some c', output_buf := ob,
       newkeys_out := nk, p_send := ps\<rparr>)"
      "buf_good b" "buf_good ob" "comp_ready (nk_compressed (newkeys_out s)) (compression_out_started s) cb" "keys_use (e_prims E) sc key nk (cc_cipher c)"
      "nk_shape nk = nk_shape (newkeys_out s)" "sshbuf_bytes ob = sshbuf_bytes (output_buf s) @ wire (e_prims E) sc key (newkeys_out s) (seqnr (p_send s)) p ct"
      "packed (newkeys_out s) out p"
      "cipher_crypt c (seqnr (p_send s)) p (length p - nk_aadlen (newkeys_out s)) (nk_aadlen (newkeys_out s)) (nk_authlen (newkeys_out s)) = (Inr ct, c')"
      "length ct = length p + nk_authlen (newkeys_out s)" "seqnr ps = seqnr (p_send s) + 1"
    unfolding out_def by (rule send_wrapped_wire [OF env(1) S o hd z l x room n(1)])
  define s' where "s' = s\<lparr>outgoing_packet := b, compression_buffer := cb, z_out := (if nk_compressed (newkeys_out s) then z_out s @ [type # data] else z_out s),
      extra_pad := 0, send_context := Some c', output_buf := ob, newkeys_out := nk, p_send := ps\<rparr>"
  have f: "output_buf s' = ob" "newkeys_out s' = nk" "p_send s' = ps" "z_out s' = (if nk_compressed (newkeys_out s) then z_out s @ [type # data] else z_out s)" by (simp_all add: s'_def)
  have "buf_good (outgoing_packet s)" using S by (simp add: send_ready_def)
  then have ld: "Suc (length data) \<le> SSHBUF_SIZE_MAX" using o good_bound [of "outgoing_packet s"] by simp
  have read: "\<exists>r'. ssh_packet_read_poll2 F (r\<lparr>input_buf := i\<rparr>) = (Inr (type, seqnr (p_send s)), r') \<and> sshbuf_bytes (incoming_packet r') = data \<and>
      sshbuf_bytes (input_buf r') = rest \<and> in_step E F sc key s' r'"
    if i: "buf_good i" "sshbuf_bytes i = wire (e_prims E) sc key (newkeys_out s) (seqnr (p_send s)) p ct @ rest" for i rest
  proof -
    define ri where "ri = r\<lparr>input_buf := i\<rparr>"
    have fi: "newkeys_in ri = newkeys_in r" "p_read ri = p_read r" "z_in ri = z_in r" "input_buf ri = i" by (simp_all add: ri_def)
    have R': "recv_ready F sc key c d ri" and cd: "cc_sync c d" using R S i(1) by (simp_all add: recv_ready_def send_ready_def ri_def)
    have pk: "packed (newkeys_in ri) out p" "length out + 256 \<le> PACKET_MAX_SIZE" using w(8) packed_shape [OF sh] l by (simp_all add: fi out_def)
    have e: "cipher_crypt c (seqnr (p_read ri)) p (length p - nk_aadlen (newkeys_in ri)) (nk_aadlen (newkeys_in ri)) (nk_authlen (newkeys_in ri)) = (Inr ct, c')"
      "length ct = length p + nk_authlen (newkeys_in ri)" using w(9, 10) by (simp_all add: fi eq sq)
    have inp: "sshbuf_bytes (input_buf ri) = ct @ wire_mac (e_prims F) sc key (newkeys_in ri) (seqnr (p_read ri)) p ct @ rest"
      using i(2) wire_mac_shape [OF sh] by (simp add: fi wire_parts env(3) sq)
    have zz: "nk_compressed (newkeys_in ri) \<Longrightarrow> snd (e_inflate F (z_in ri) out) = None \<and> concat (fst (e_inflate F (z_in ri) out)) = type # data"
      "\<not> nk_compressed (newkeys_in ri) \<Longrightarrow> out = type # data"
      using zlib_step(1, 2) [OF env(5) zs, of "type # data"] by (simp_all add: fi eq out_def payload_out_def)
    have n': "packets (p_read ri) + 1 \<noteq> 0" using n(2) by (simp add: fi)
    obtain r' d' where r': "ssh_packet_read_poll2 F ri = (Inr (type, seqnr (p_read ri)), r')" "recv_ready F sc key c' d' r'" "cc_sync c' d'"
        "nk_shape (newkeys_in r') = nk_shape (newkeys_in ri)" "sshbuf_bytes (incoming_packet r') = data" "sshbuf_bytes (input_buf r') = rest"
        "seqnr (p_read r') = seqnr (p_read ri) + 1" "z_in r' = (if nk_compressed (newkeys_in ri) then z_in ri @ [out] else z_in ri)"
      by (rule read_poll_wire [OF env(2, 4) R' cd pk e inp zz ld t(1, 3) n'])
    have cc: "cc_cipher c' = cc_cipher c" by (rule crypt_keeps_cipher [OF w(9)])
    have S': "send_ready E sc key c' d' s'" using S w r'(3) same_shape(5) [OF w(6)] cc by (simp add: send_ready_def s'_def)
    have "nk_compressed (newkeys_out s') \<Longrightarrow> zsync E (z_out s') (z_in r')"
      using zlib_step(3) [OF env(5) zs, of "type # data"] same_shape(5) [OF w(6)] r'(8) by (simp add: f fi eq out_def)
    then have "in_step E F sc key s' r'" using S' r'(2, 4, 7) w(6, 11) sh sq unfolding in_step_def f fi by auto
    then show ?thesis using r' by (auto simp: ri_def sq)
  qed
  show ?thesis
    by (rule exI [where x = s'], rule exI [where x = "wire (e_prims E) sc key (newkeys_out s) (seqnr (p_send s)) p ct"]) (use w(1, 3, 7) read s'_def f in auto)
qed

end
