(* ===== verification/Packet_Session.thy ===== *)
theory Packet_Session
  imports Packet_Roundtrip
begin

text \<open>
  A connection: its two ends are in step when it is made, and again after new keys; packets go from one end to the other, and while keys are being exchanged
  only packets of the exchange are sent.
\<close>

subsection \<open>The beginning\<close>

lemma cipher_none: "cipher_by_name ''none'' = Some (ciphers ! 4)" "ciphers ! 4 \<in> set ciphers" "ci_flags (ciphers ! 4) = CFLAG_NONE"
  by (simp_all add: cipher_by_name_def ciphers_def)

lemma fresh_connection:
  assumes "ssh_packet_set_connection E None = Some s"
  obtains b c d where "sshbuf_new (e_alloc E) = Some b" and "cipher_init (e_mem E) (ciphers ! 4) [] 0 None 0 True = Inr c"
    and "cipher_init (e_mem E) (ciphers ! 4) [] 0 None 0 False = Inr d" and "send_context s = Some c" and "receive_context s = Some d"
    and "input_buf s = b" and "output_buf s = b" and "incoming_packet s = b" and "outgoing_packet s = b" and "newkeys_in s = None" and "newkeys_out s = None"
    and "seqnr (p_send s) = 0" and "seqnr (p_read s) = 0" and "packets (p_send s) = 0" and "packets (p_read s) = 0"
    and "packlen s = 0" and "packet_discard s = 0" and "\<not> mux s" and "extra_pad s = 0" and "rekeying s"
  using assms by (auto simp: ssh_packet_set_connection_def cipher_none ssh_alloc_session_state_def split: option.splits sum.splits if_splits)

lemma cipher_init_cipher: "cipher_init mem c key keylen iv ivlen enc = Inr x \<Longrightarrow> cc_cipher x = c"
  by (auto simp: cipher_init_def Let_def split: if_splits option.splits)

lemma fresh_in_step:
  assumes "ssh_packet_set_connection E None = Some s" and "ssh_packet_set_connection F None = Some r"
  shows "in_step E F sc key s r"
proof -
  obtain bs cs where s: "sshbuf_new (e_alloc E) = Some bs" "cipher_init (e_mem E) (ciphers ! 4) [] 0 None 0 True = Inr cs" "send_context s = Some cs"
      "output_buf s = bs" "outgoing_packet s = bs" "newkeys_out s = None" "seqnr (p_send s) = 0"
    using fresh_connection [OF assms(1)] by metis
  obtain br dr where r: "sshbuf_new (e_alloc F) = Some br" "cipher_init (e_mem F) (ciphers ! 4) [] 0 None 0 False = Inr dr" "receive_context r = Some dr"
      "input_buf r = br" "incoming_packet r = br" "newkeys_in r = None" "seqnr (p_read r) = 0" "packlen r = 0" "packet_discard r = 0" "\<not> mux r"
    using fresh_connection [OF assms(2)] by metis
  have c: "cc_sync cs dr" by (rule cipher_init_sync [OF cipher_none(2) s(2) r(2)])
  have k: "keys_use P sc key None (cc_cipher cs)" for P using cipher_none by (simp add: keys_use_def cipher_init_cipher [OF s(2)])
  have n: "\<not> nk_compressed None" by (simp add: nk_compressed_def)
  have "send_ready E sc key cs dr s" using s c k n good_new [OF s(1)] by (simp add: send_ready_def comp_ready_def)
  moreover have "recv_ready F sc key cs dr r" using r k n good_new [OF r(1)] by (simp add: recv_ready_def comp_ready_def)
  ultimately show ?thesis using s r n by (auto simp: in_step_def)
qed

subsection \<open>From one end to the other\<close>

lemma in_step_rekeying: "in_step E F sc key s r \<Longrightarrow> in_step E F sc key (s\<lparr>rekeying := x\<rparr>) r"
  by (simp add: in_step_def send_ready_def)


text \<open>A closed instance: two fresh ends, and the first packet of a key exchange.\<close>

definition demo_peer :: env where
  "demo_peer = \<lparr>e_alloc = demo_allocator, e_mem = (\<lambda>_. True), e_prims = demo_prims, e_random = (\<lambda>s n. replicate n 7), e_time = (\<lambda>s. 0),
     e_deflate = (\<lambda>z p. ([p], None)), e_inflate = (\<lambda>z p. ([p], None)), e_zinit = (\<lambda>s. None), e_rekex = ret (), e_write_wait = ret (), e_hook_in = ret\<rparr>"

lemma demo_connected: "connected demo_peer demo_peer"
  using demo_never_fails demo_prims_ok recv_same_refl by (auto simp: connected_def env_ok_def quiet_env_def zlib_ok_def demo_peer_def ret_def)

lemma demo_connection: "\<exists>s. ssh_packet_set_connection demo_peer None = Some s"
  using demo_buf_new cipher_flags
  by (auto simp: ssh_packet_set_connection_def cipher_none ssh_alloc_session_state_def demo_peer_def cipher_init_def Let_def ciphers_def)


subsection \<open>Packets wait for the end of a key exchange\<close>

definition packet_type :: "sshbuf \<Rightarrow> u8" where
  "packet_type p = sshbuf_seen p ! 5"

primrec send_packets :: "env \<Rightarrow> sshbuf list \<Rightarrow> unit pop" where
  "send_packets E [] = ret ()"
| "send_packets E (p # ps) = andthen (\<lambda>s. ssh_packet_send2 E (s\<lparr>outgoing_packet := p\<rparr>)) (\<lambda>_. send_packets E ps)"

lemma send2_queues:
  assumes "rekeying s" and "6 \<le> sshbuf_len (outgoing_packet s)" and "\<not> ssh_packet_type_is_kex (packet_type (outgoing_packet s))"
  shows "ssh_packet_send2 E s = enqueue E (packet_type (outgoing_packet s)) s"
  using assms by (auto simp: ssh_packet_send2_def Let_def packet_type_def ssh_packet_need_rekeying_def ssh_packet_is_rekeying_def andthen_def ret_def
      split: prod.splits sum.splits)

text \<open>
  C6. While keys are being exchanged nothing but the key exchange is sent: packets of other types that are sent then, any number of them, leave the output buffer, the sequence number and the
  cipher context as they are, and stand in the queue in the order in which they were sent.
\<close>

theorem rekey_queues:
  assumes "rekeying s" and "\<And>p. p \<in> set ps \<Longrightarrow> 6 \<le> sshbuf_len p \<and> \<not> ssh_packet_type_is_kex (packet_type p)" and "send_packets E ps s = (x, s')"
  shows "output_buf s' = output_buf s \<and> p_send s' = p_send s \<and> send_context s' = send_context s \<and> rekeying s' \<and>
    (x = Inr () \<longrightarrow> outgoing s' = outgoing s @ map (\<lambda>p. (packet_type p, p)) ps)"
  using assms
proof (induction ps arbitrary: s)
  case Nil
  then show ?case by (simp add: ret_def)
next
  case (Cons p ps)
  define t where "t = s\<lparr>outgoing_packet := p\<rparr>"
  have "ssh_packet_send2 E t = enqueue E (packet_type p) t" using send2_queues [of t E] Cons.prems(1, 2) by (simp add: t_def)
  then obtain y s1 where s1: "ssh_packet_send2 E t = (y, s1)" "output_buf s1 = output_buf s" "p_send s1 = p_send s" "send_context s1 = send_context s" "rekeying s1"
      "y = Inr () \<longrightarrow> outgoing s1 = outgoing s @ [(packet_type p, p)]"
    using Cons.prems(1) by (cases "sshbuf_new (e_alloc E)") (auto simp: enqueue_def Let_def throw_def ret_def t_def split: if_splits)
  show ?case
  proof (cases y)
    case (Inl e)
    then show ?thesis using s1 Cons.prems(3) by (auto simp: andthen_def t_def)
  next
    case (Inr u)
    then have "send_packets E ps s1 = (x, s')" using s1(1) Cons.prems(3) by (simp add: andthen_def t_def)
    then show ?thesis using Cons.IH [OF s1(5)] Cons.prems(2) s1 Inr by auto
  qed
qed

lemma rekey_queues_witness:
  "\<exists>b s s'. sshbuf_bytes b = [0, 0, 0, 0, 0, 90, 1] \<and> ssh_packet_set_connection demo_peer None = Some s \<and> send_packets demo_peer [b, b] s = (Inr (), s') \<and>
     output_buf s' = output_buf s \<and> outgoing s' = outgoing s @ [(90, b), (90, b)]"
proof -
  obtain s where s: "ssh_packet_set_connection demo_peer None = Some s" using demo_connection by blast
  have rk: "rekeying s" using fresh_connection [OF s] by metis
  have new: "sshbuf_new (e_alloc demo_peer) = Some demo_buf" "e_mem demo_peer 1" using demo_buf_new by (simp_all add: demo_peer_def)
  obtain b where b: "buf_good b" "sshbuf_bytes b = [0, 0, 0, 0, 0, 90, 1]"
    using good_put [of demo_buf demo_allocator "[0, 0, 0, 0, 0, 90, 1]"] good_new [OF new(1)] demo_never_fails by (auto simp: sshbuf_consts)
  have p: "packet_type b = 90" "6 \<le> sshbuf_len b" using good_seen [OF b(1)] good_len [OF b(1)] b(2) by (simp_all add: packet_type_def)
  have k: "\<not> ssh_packet_type_is_kex 90" by (simp add: ssh_packet_type_is_kex_def SSH2_MSG_TRANSPORT_MAX_def)
  have step: "ssh_packet_send2 demo_peer (t\<lparr>outgoing_packet := b\<rparr>) = (Inr (), t\<lparr>outgoing_packet := demo_buf, outgoing := outgoing t @ [(90, b)]\<rparr>)" if "rekeying t" for t
    using that send2_queues [of "t\<lparr>outgoing_packet := b\<rparr>" demo_peer] p k new by (simp add: enqueue_def Let_def ret_def)
  have run: "send_packets demo_peer [b, b] s = (Inr (), s\<lparr>outgoing_packet := demo_buf, outgoing := outgoing s @ [(90, b), (90, b)]\<rparr>)"
    using rk by (simp add: andthen_def step ret_def)
  have "p' \<in> set [b, b] \<Longrightarrow> 6 \<le> sshbuf_len p' \<and> \<not> ssh_packet_type_is_kex (packet_type p')" for p' using p k by auto
  from rekey_queues [OF rk this run] show ?thesis using s b(2) run p(1) by auto
qed

subsection \<open>Only authenticated packets are delivered\<close>

lemma mac_in_authentic:
  assumes P: "mac_prims_ok (e_prims F)" and k: "keys_use (e_prims F) sc key (newkeys_in s) C" and a: "nk_active_mac (newkeys_in s) \<noteq> None"
    and run: "mac_in F data theirs s = (Inr (), s')"
  shows "nk_maclen (newkeys_in s) \<le> length theirs" and "take (nk_maclen (newkeys_in s)) theirs = take (nk_maclen (newkeys_in s)) (mac_value (e_prims F) sc key (seqnr (p_read s)) data)"
    and "incoming_packet s' = incoming_packet s"
proof -
  obtain k' :: newkeys where k': "newkeys_in s = Some k'" "nk_maclen (newkeys_in s) = mac_len (nk_mac k')" by (rule active_mac [OF k a]) blast
  show l: "nk_maclen (newkeys_in s) \<le> length theirs" unfolding k'(2)
    by (rule ccontr) (use run k'(1) in \<open>auto simp: mac_in_def mac_check_def\<close>)
  show "take (nk_maclen (newkeys_in s)) theirs = take (nk_maclen (newkeys_in s)) (mac_value (e_prims F) sc key (seqnr (p_read s)) data)"
    by (rule mac_in_ready [OF P k a l, of data]) (use run in \<open>auto split: if_splits\<close>)
  show "incoming_packet s' = incoming_packet s" using run k'(1) by (auto simp: mac_in_def split: prod.splits)
qed

lemma read_crypt_frame:
  assumes "buf_good (input_buf r)" and "read_crypt F need r = (Inr (), r')"
  shows "newkeys_in r' = newkeys_in r" and "p_read r' = p_read r"
    and "sshbuf_seen (input_buf r') = drop (nk_aadlen (newkeys_in r) + need + nk_authlen (newkeys_in r)) (sshbuf_seen (input_buf r))"
proof -
  define m where "m = nk_aadlen (newkeys_in r) + need + nk_authlen (newkeys_in r)"
  obtain d p dp b i where x: "sshbuf_consume m (input_buf r) = (Inr (), i)"
      "r' = r\<lparr>receive_context := Some d, incoming_packet := sshbuf_store dp p b, input_buf := i\<rparr>"
    using assms(2) by (auto simp: read_crypt_def Let_def andthen_def on_incoming_def on_input_def throw_def m_def split: prod.splits sum.splits option.splits)
  then show "newkeys_in r' = newkeys_in r" "p_read r' = p_read r" by simp_all
  have ok: "sshbuf_ok (input_buf r)" using assms(1) by (simp add: buf_good_def)
  have l: "m \<le> length (sshbuf_bytes (input_buf r))"
    by (rule ccontr) (use x(1) sshbuf_consume_Inl [OF ok, of m] good_len [OF assms(1)] in auto)
  obtain i' where "sshbuf_consume m (input_buf r) = (Inr (), i')" "buf_good i'" "sshbuf_bytes i' = drop m (sshbuf_bytes (input_buf r))" by (rule good_consume [OF assms(1) l])
  then show "sshbuf_seen (input_buf r') = drop (nk_aadlen (newkeys_in r) + need + nk_authlen (newkeys_in r)) (sshbuf_seen (input_buf r))"
    using x good_seen [of i] good_seen [OF assms(1)] by (simp add: m_def)
qed

lemma read_length_frame:
  assumes "buf_good (input_buf r)" and "read_length F r = (Inr True, r')"
  shows "newkeys_in r' = newkeys_in r" and "p_read r' = p_read r" and "buf_good (input_buf r')"
proof -
  have x: "newkeys_in r' = newkeys_in r \<and> p_read r' = p_read r \<and> (\<exists>m i. input_buf r' = i \<and> (i = input_buf r \<or> sshbuf_consume m (input_buf r) = (Inr (), i)))"
    using assms(2)
    by (auto simp: read_length_def read_length_ahead_def read_first_block_def Let_def andthen_def on_incoming_def on_input_def buf_reset_def ret_def throw_def
        split: if_splits prod.splits sum.splits option.splits)
  then show "newkeys_in r' = newkeys_in r" "p_read r' = p_read r" by simp_all
  have ok: "sshbuf_ok (input_buf r)" using assms(1) by (simp add: buf_good_def)
  have "buf_good i" if "sshbuf_consume m (input_buf r) = (Inr (), i)" for m i
  proof -
    have "m \<le> length (sshbuf_bytes (input_buf r))"
      by (rule ccontr) (use that sshbuf_consume_Inl [OF ok, of m] good_len [OF assms(1)] in auto)
    then show ?thesis using that good_consume [OF assms(1)] by (metis prod.inject)
  qed
  then show "buf_good (input_buf r')" using x assms(1) by auto
qed

lemma read_packet_authentic:
  assumes P: "mac_prims_ok (e_prims F)" and k: "keys_use (e_prims F) sc key (newkeys_in r) C" and a: "nk_active_mac (newkeys_in r) \<noteq> None" and i: "buf_good (input_buf r)"
    and run: "read_packet F r = (Inr (type, q), r')" and t: "type \<noteq> SSH_MSG_NONE"
  shows "\<exists>r1. read_protected F (unat (read_needed r)) r = (Inr True, r1) \<and>
    take (nk_maclen (newkeys_in r)) (drop (nk_aadlen (newkeys_in r) + unat (read_needed r) + nk_authlen (newkeys_in r)) (sshbuf_seen (input_buf r))) =
    take (nk_maclen (newkeys_in r)) (mac_value (e_prims F) sc key (seqnr (p_read r))
      (if nk_etm (newkeys_in r) then take (nk_aadlen (newkeys_in r) + unat (read_needed r)) (sshbuf_seen (input_buf r)) else sshbuf_seen (incoming_packet r1)))"
proof -
  define need where "need = unat (read_needed r)"
  obtain r1 where r1: "read_protected F need r = (Inr True, r1)"
    using run t by (auto simp: read_packet_def Let_def need_def andthen_def ret_def split: if_splits prod.splits sum.splits)
  show ?thesis
  proof (cases "nk_etm (newkeys_in r)")
    case True
    obtain s where m: "mac_in F (take (nk_aadlen (newkeys_in r) + need) (sshbuf_seen (input_buf r)))
        (take (nk_maclen (newkeys_in r)) (drop (nk_aadlen (newkeys_in r) + need + nk_authlen (newkeys_in r)) (sshbuf_seen (input_buf r)))) r = (Inr (), s)"
      using r1 True by (auto simp: read_protected_def Let_def andthen_def split: prod.splits sum.splits)
    show ?thesis using mac_in_authentic(2) [OF P k a m] r1 True by (simp add: need_def)
  next
    case False
    obtain s where s: "read_crypt F need r = (Inr (), s)" "read_mac F need s = (Inr True, r1)"
      using r1 False by (auto simp: read_protected_def Let_def andthen_def ret_def split: prod.splits sum.splits)
    note f = read_crypt_frame [OF i s(1)]
    obtain s2 where s2: "mac_in F (sshbuf_seen (incoming_packet s)) (take (nk_maclen (newkeys_in r)) (sshbuf_seen (input_buf s))) s = (Inr (), s2)"
        "andthen (on_input (sshbuf_consume (nk_maclen (newkeys_in r)))) (\<lambda>_. ret True) s2 = (Inr True, r1)"
      using s(2) a False by (auto simp: read_mac_def Let_def f andthen_def ret_def throw_def split: prod.splits sum.splits if_splits)
    have "incoming_packet r1 = incoming_packet s2" using s2(2) by (auto simp: andthen_def on_input_def ret_def split: prod.splits sum.splits)
    then show ?thesis using mac_in_authentic [OF P _ _ s2(1), unfolded f, OF k a] r1 False by (auto simp: need_def)
  qed
qed

text \<open>
  C4. A packet is delivered only with the right MAC: when keys with a MAC are in use and \<^verbatim>\<open>ssh_packet_read_poll2\<close> returns a packet, then the bytes behind the packet in the
  input buffer are the MAC, under the key of this direction and for the sequence number of the packet, of the encrypted packet in the input or of the packet that was decrypted.
\<close>

theorem read_authentic:
  assumes P: "mac_prims_ok (e_prims F)" and k: "keys_use (e_prims F) sc key (newkeys_in r) C" and a: "nk_active_mac (newkeys_in r) \<noteq> None" and i: "buf_good (input_buf r)"
    and m: "\<not> mux r" and run: "ssh_packet_read_poll2 F r = (Inr (type, q), r')" and t: "type \<noteq> SSH_MSG_NONE"
  shows "\<exists>r1 r2. read_length F r = (Inr True, r1) \<and> read_protected F (unat (read_needed r1)) r1 = (Inr True, r2) \<and>
    take (nk_maclen (newkeys_in r)) (drop (nk_aadlen (newkeys_in r) + unat (read_needed r1) + nk_authlen (newkeys_in r)) (sshbuf_seen (input_buf r1))) =
    take (nk_maclen (newkeys_in r)) (mac_value (e_prims F) sc key (seqnr (p_read r))
      (if nk_etm (newkeys_in r) then take (nk_aadlen (newkeys_in r) + unat (read_needed r1)) (sshbuf_seen (input_buf r1)) else sshbuf_seen (incoming_packet r2)))"
proof -
  obtain r1 where r1: "read_length F r = (Inr True, r1)" "read_packet F r1 = (Inr (type, q), r')"
    using run t m by (auto simp: ssh_packet_read_poll2_def andthen_def ret_def split: if_splits prod.splits sum.splits)
  note f = read_length_frame [OF i r1(1)]
  have k1: "keys_use (e_prims F) sc key (newkeys_in r1) C" "nk_active_mac (newkeys_in r1) \<noteq> None" using k a by (simp_all add: f)
  show ?thesis using read_packet_authentic [OF P k1 f(3) r1(2) t] r1(1) unfolding f(1, 2) by blast
qed

text \<open>A closed instance: the cipher \<^verbatim>\<open>none\<close> with a MAC of 128 bits.\<close>

definition demo_mac :: sshmac where
  "demo_mac = \<lparr>mac_enabled = True, mac_len = 16, mac_key = Some [], mac_key_len = 16, mac_type = SSH_UMAC128, mac_etm = False, hmac_ctx = None, umac_ctx = Some []\<rparr>"

definition demo_newkeys :: newkeys where
  "demo_newkeys = \<lparr>nk_enc = \<lparr>enc_cipher = ciphers ! 4, enc_key = [], enc_key_len = 0, enc_iv = None, enc_iv_len = 0, enc_block_size = 8\<rparr>,
     nk_mac = demo_mac, nk_comp = \<lparr>comp_type = 0, comp_enabled = False\<rparr>\<rparr>"

lemma demo_newkeys_use: "keys_use demo_prims (Umac_of True) [] (Some demo_newkeys) (ciphers ! 4)" "nk_active_mac (Some demo_newkeys) = Some demo_mac" "\<not> nk_compressed (Some demo_newkeys)"
  by (simp_all add: keys_use_def demo_newkeys_def nk_active_mac_def cipher_authlen_def ciphers_def demo_mac_def mac_ready_def SSH_DIGEST_MAX_LENGTH_def nk_compressed_def)

lemma read_authentic_witness:
  "\<exists>r r1 r2 r'. nk_active_mac (newkeys_in r) = Some demo_mac \<and> ssh_packet_read_poll2 demo_peer r = (Inr (90, 0), r') \<and>
     read_length demo_peer r = (Inr True, r1) \<and> read_protected demo_peer (unat (read_needed r1)) r1 = (Inr True, r2) \<and>
     take 16 (drop (unat (read_needed r1)) (sshbuf_seen (input_buf r1))) = take 16 (mac_value demo_prims (Umac_of True) [] 0 (sshbuf_seen (incoming_packet r2)))"
proof -
  obtain s where s: "ssh_packet_set_connection demo_peer None = Some s" using demo_connection by blast
  have new: "sshbuf_new (e_alloc demo_peer) = Some demo_buf" using demo_buf_new by (simp add: demo_peer_def)
  obtain c d where f: "output_buf s = demo_buf" "seqnr (p_send s) = 0" "seqnr (p_read s) = 0" "packets (p_send s) = 0" "packets (p_read s) = 0" "extra_pad s = 0" "\<not> mux s"
      "send_context s = Some c" "receive_context s = Some d" "cipher_init (e_mem demo_peer) (ciphers ! 4) [] 0 None 0 True = Inr c"
      "cipher_init (e_mem demo_peer) (ciphers ! 4) [] 0 None 0 False = Inr d" "incoming_packet s = demo_buf" "packlen s = 0" "packet_discard s = 0" "input_buf s = demo_buf"
    using fresh_connection [OF s] new by (metis option.inject)
  have g: "buf_good demo_buf" "sshbuf_bytes demo_buf = []" using good_new [OF demo_buf_new] by simp_all
  obtain b where b: "buf_good b" "sshbuf_bytes b = [0, 0, 0, 0, 0] @ 90 # [1, 2]"
    using good_put [of demo_buf demo_allocator "[0, 0, 0, 0, 0, 90, 1, 2]"] g demo_never_fails by (auto simp: sshbuf_consts)
  define s1 where "s1 = s\<lparr>newkeys_out := Some demo_newkeys, outgoing_packet := b\<rparr>"
  define r where "r = s\<lparr>newkeys_in := Some demo_newkeys\<rparr>"
  have cs: "cc_sync c d" "cc_cipher c = ciphers ! 4" using cipher_init_sync [OF cipher_none(2) f(10, 11)] cipher_init_cipher [OF f(10)] by simp_all
  have pe: "e_prims demo_peer = demo_prims" by (simp add: demo_peer_def)
  have step: "in_step demo_peer demo_peer (Umac_of True) [] s1 r"
    unfolding in_step_def
    by (intro conjI exI [of _ c] exI [of _ d]) (use f g b(1) cs demo_newkeys_use in \<open>simp_all add: send_ready_def recv_ready_def comp_ready_def s1_def r_def pe\<close>)
  have "\<exists>s' w. ssh_packet_send2_wrapped demo_peer s1 = (Inr (), s') \<and> buf_good (output_buf s') \<and> sshbuf_bytes (output_buf s') = [] @ w \<and>
      (\<forall>b rest. buf_good b \<and> sshbuf_bytes b = w @ rest \<longrightarrow>
        (\<exists>r'. ssh_packet_read_poll2 demo_peer (r\<lparr>input_buf := b\<rparr>) = (Inr (90, 0), r') \<and> sshbuf_bytes (incoming_packet r') = [1, 2] \<and>
           sshbuf_bytes (input_buf r') = rest \<and> in_step demo_peer demo_peer (Umac_of True) [] s' r'))"
    using in_step_wrapped [OF step demo_connected, of "[0, 0, 0, 0, 0]" 90 "[1, 2]"] f g b(2) demo_newkeys_use(3)
    by (simp add: s1_def r_def SSH2_MSG_MIN_def SSH2_MSG_NEWKEYS_def SSH2_MSG_USERAUTH_SUCCESS_def payload_out_def PACKET_MAX_SIZE_def sshbuf_consts)
  then obtain s' w where sent: "buf_good (output_buf s')" "sshbuf_bytes (output_buf s') = [] @ w"
      "\<forall>b rest. buf_good b \<and> sshbuf_bytes b = w @ rest \<longrightarrow>
        (\<exists>r'. ssh_packet_read_poll2 demo_peer (r\<lparr>input_buf := b\<rparr>) = (Inr (90, 0), r') \<and> sshbuf_bytes (incoming_packet r') = [1, 2] \<and>
           sshbuf_bytes (input_buf r') = rest \<and> in_step demo_peer demo_peer (Umac_of True) [] s' r')" by blast
  have front: "buf_good (output_buf s') \<and> sshbuf_bytes (output_buf s') = w @ []" using sent(1, 2) by simp
  define ri where "ri = r\<lparr>input_buf := output_buf s'\<rparr>"
  obtain r' where run: "ssh_packet_read_poll2 demo_peer ri = (Inr (90, 0), r')" using sent(3) [rule_format, OF front] unfolding ri_def by blast
  have F: "newkeys_in ri = Some demo_newkeys" "buf_good (input_buf ri)" "\<not> mux ri" "seqnr (p_read ri) = 0" using sent(1) f by (simp_all add: ri_def r_def)
  have z: "nk_maclen (Some demo_newkeys) = 16" "nk_aadlen (Some demo_newkeys) = 0" "nk_authlen (Some demo_newkeys) = 0" "nk_etm (Some demo_newkeys) = False"
    using demo_newkeys_use(2) by (simp_all add: nk_maclen_def nk_aadlen_def nk_authlen_def nk_etm_def demo_mac_def) (simp_all add: demo_newkeys_def cipher_authlen_def ciphers_def)
  have P: "mac_prims_ok (e_prims demo_peer)" using demo_connected by (simp add: connected_def env_ok_def)
  have K: "keys_use (e_prims demo_peer) (Umac_of True) [] (newkeys_in ri) (ciphers ! 4)" "nk_active_mac (newkeys_in ri) \<noteq> None" using demo_newkeys_use by (simp_all add: F pe)
  have "(90 :: u8) \<noteq> SSH_MSG_NONE" by (simp add: SSH_MSG_NONE_def)
  from read_authentic [OF P K F(2, 3) run this] obtain r1 r2 where "read_length demo_peer ri = (Inr True, r1)" "read_protected demo_peer (unat (read_needed r1)) r1 = (Inr True, r2)"
      "take 16 (drop (unat (read_needed r1)) (sshbuf_seen (input_buf r1))) = take 16 (mac_value demo_prims (Umac_of True) [] 0 (sshbuf_seen (incoming_packet r2)))"
    unfolding F z pe if_False add_0 add_0_right by blast
  moreover have "nk_active_mac (newkeys_in ri) = Some demo_mac" using demo_newkeys_use(2) by (simp add: F)
  ultimately show ?thesis using run by blast
qed

subsection \<open>New keys\<close>

text \<open>Keys as the key exchange makes them: a cipher and, unless it has a tag, a MAC of the tables.\<close>

definition keys_made :: "newkeys \<Rightarrow> bool" where
  "keys_made k \<longleftrightarrow> enc_cipher (nk_enc k) \<in> set ciphers \<and> enc_block_size (nk_enc k) = cipher_blocksize (enc_cipher (nk_enc k)) \<and> \<not> comp_enabled (nk_comp k) \<and>
     (cipher_authlen (enc_cipher (nk_enc k)) = 0 \<longrightarrow>
        (\<exists>mem mac name mac1 key. mac_setup mem (Some mac) name = (Inr (), Some mac1) \<and> nk_mac k = mac1\<lparr>mac_key := Some key\<rparr>))"

definition comp_starts :: "newkeys \<Rightarrow> ssh \<Rightarrow> bool" where
  "comp_starts k s \<longleftrightarrow> comp_type (nk_comp k) = COMP_ZLIB \<or> (comp_type (nk_comp k) = COMP_DELAYED \<and> after_authentication s)"

definition installed :: "newkeys \<Rightarrow> sshmac \<Rightarrow> bool \<Rightarrow> newkeys" where
  "installed k m z = k\<lparr>nk_mac := m\<lparr>mac_enabled := True\<rparr>, nk_comp := (nk_comp k)\<lparr>comp_enabled := z\<rparr>\<rparr>"

definition mac_inits :: "env \<Rightarrow> newkeys \<Rightarrow> sshmac \<Rightarrow> bool" where
  "mac_inits E k m \<longleftrightarrow> (if cipher_authlen (enc_cipher (nk_enc k)) = 0 then mac_init (e_prims E) (e_mem E 0) (nk_mac k) = (Inr (), m) else m = nk_mac k)"

lemma init_mac_run:
  assumes "init_mac E dir k s = (Inr (), s')"
  obtains m where "mac_inits E k m" and "s' = put_newkeys dir (Some (k\<lparr>nk_mac := m\<lparr>mac_enabled := True\<rparr>\<rparr>)) s"
  using assms by (auto simp: init_mac_def mac_inits_def throw_def ret_def split: if_splits prod.splits sum.splits)

lemma init_compression_run:
  assumes "ssh_packet_init_compression E s = (Inr (), s')" and "\<And>b. compression_buffer s = Some b \<Longrightarrow> buf_good b"
  obtains b where "s' = s\<lparr>compression_buffer := Some b\<rparr>" and "buf_good b"
proof (cases "compression_buffer s")
  case None
  then show ?thesis using assms(1) that good_new by (auto simp: ssh_packet_init_compression_def ret_def throw_def split: option.splits)
next
  case (Some b)
  then show ?thesis using assms that [of b] by (auto simp: ssh_packet_init_compression_def ret_def)
qed

lemma set_newkeys_out:
  assumes run: "ssh_set_newkeys E True s = (Inr (), s')" and k: "kex_state s = Some kx" "kex_keys_out kx = Some k" "\<not> comp_enabled (nk_comp k)"
    and g: "\<And>b. compression_buffer s = Some b \<Longrightarrow> buf_good b"
  obtains m c where "mac_inits E k m" and "send_context s' = Some c" and "newkeys_out s' = Some (installed k m (comp_starts k s))"
    and "cipher_init (e_mem E) (enc_cipher (nk_enc k)) (enc_key (nk_enc k)) (enc_key_len (nk_enc k)) (enc_iv (nk_enc k)) (enc_iv_len (nk_enc k)) True = Inr c"
    and "output_buf s' = output_buf s" and "outgoing_packet s' = outgoing_packet s" and "seqnr (p_send s') = seqnr (p_send s)"
    and "comp_ready (comp_starts k s) (compression_out_started s') (compression_buffer s')" and "comp_starts k s \<Longrightarrow> z_out s' = []"
proof -
  define s1 where "s1 = reset_counters True s"
  define s2 where "s2 = s1\<lparr>kex_state := Some (kx\<lparr>kex_keys_out := None\<rparr>), newkeys_out := Some k\<rparr>"
  have f1: "kex_state s1 = Some kx" using k(1) by (simp add: s1_def reset_counters_def)
  have t: "take_keys True s1 = (Inr k, s2)" using f1 k(2) by (simp add: take_keys_def ret_def put_newkeys_def s2_def)
  obtain s3 s4 s5 where run3: "init_mac E True k s2 = (Inr (), s3)" and run4: "init_cipher E True (nk_enc k) s3 = (Inr (), s4)"
    and run5: "(if comp_starts k s4 then enable_compression E True s4 else ret () s4) = (Inr (), s5)"
    and s': "s' = s5\<lparr>max_blocks_out := block_limit (enc_block_size (nk_enc k)) (rekey_limit s5)\<rparr>"
    using run k(3) t unfolding ssh_set_newkeys_def modify_def s1_def [symmetric]
    by (auto simp: andthen_def s1_def [symmetric] comp_starts_def Let_def split: prod.splits sum.splits)
  obtain m where m: "mac_inits E k m" "s3 = s2\<lparr>newkeys_out := Some (k\<lparr>nk_mac := m\<lparr>mac_enabled := True\<rparr>\<rparr>)\<rparr>"
    using init_mac_run [OF run3] by (auto simp: put_newkeys_def)
  obtain c where c: "cipher_init (e_mem E) (enc_cipher (nk_enc k)) (enc_key (nk_enc k)) (enc_key_len (nk_enc k)) (enc_iv (nk_enc k)) (enc_iv_len (nk_enc k)) True = Inr c"
      "s4 = s3\<lparr>send_context := Some c\<rparr>"
    using run4 by (auto simp: init_cipher_def put_context_def throw_def ret_def split: sum.splits)
  have f4: "send_context s4 = Some c" "newkeys_out s4 = Some (k\<lparr>nk_mac := m\<lparr>mac_enabled := True\<rparr>\<rparr>)" "output_buf s4 = output_buf s" "outgoing_packet s4 = outgoing_packet s"
      "seqnr (p_send s4) = seqnr (p_send s)" "compression_buffer s4 = compression_buffer s" "comp_starts k s4 = comp_starts k s"
    by (simp_all add: c(2) m(2) s2_def s1_def reset_counters_def comp_starts_def)
  show ?thesis
  proof (cases "comp_starts k s")
    case False
    then have "s5 = s4" using run5 by (simp add: f4 ret_def)
    moreover have "(k\<lparr>nk_mac := m\<lparr>mac_enabled := True\<rparr>\<rparr>) = installed k m False" using k(3) by (simp add: installed_def)
    ultimately show ?thesis using that [where m = m and c = c] m(1) c(1) f4 False by (simp add: s' comp_ready_def)
  next
    case True
    obtain s6 s7 where x: "ssh_packet_init_compression E s4 = (Inr (), s6)" "start_compression_out E s6 = (Inr (), s7)"
        "s5 = put_newkeys True (map_option (\<lambda>k. k\<lparr>nk_comp := (nk_comp k)\<lparr>comp_enabled := True\<rparr>\<rparr>) (get_newkeys True s7)) s7"
      using run5 True by (auto simp: f4 enable_compression_def andthen_def modify_def split: prod.splits sum.splits)
    obtain b where b: "s6 = s4\<lparr>compression_buffer := Some b\<rparr>" "buf_good b" using init_compression_run [OF x(1)] g f4(6) by metis
    have s7: "s7 = s6\<lparr>z_out := [], compression_out_started := True\<rparr>" using x(2) by (auto simp: start_compression_out_def ret_def throw_def split: option.splits)
    show ?thesis using that [where m = m and c = c] m(1) c(1) f4 True b(2)
      by (simp add: s' x(3) s7 b(1) put_newkeys_def get_newkeys_def comp_ready_def installed_def)
  qed
qed

lemma set_newkeys_in:
  assumes run: "ssh_set_newkeys E False s = (Inr (), s')" and k: "kex_state s = Some kx" "kex_keys_in kx = Some k" "\<not> comp_enabled (nk_comp k)"
    and g: "\<And>b. compression_buffer s = Some b \<Longrightarrow> buf_good b"
  obtains m c where "mac_inits E k m" and "receive_context s' = Some c" and "newkeys_in s' = Some (installed k m (comp_starts k s))"
    and "cipher_init (e_mem E) (enc_cipher (nk_enc k)) (enc_key (nk_enc k)) (enc_key_len (nk_enc k)) (enc_iv (nk_enc k)) (enc_iv_len (nk_enc k)) False = Inr c"
    and "input_buf s' = input_buf s" and "incoming_packet s' = incoming_packet s" and "packlen s' = packlen s" and "packet_discard s' = packet_discard s" and "mux s' = mux s" and "seqnr (p_read s') = seqnr (p_read s)"
    and "comp_ready (comp_starts k s) (compression_in_started s') (compression_buffer s')" and "comp_starts k s \<Longrightarrow> z_in s' = []"
proof -
  define s1 where "s1 = reset_counters False s"
  define s2 where "s2 = s1\<lparr>kex_state := Some (kx\<lparr>kex_keys_in := None\<rparr>), newkeys_in := Some k\<rparr>"
  have f1: "kex_state s1 = Some kx" using k(1) by (simp add: s1_def reset_counters_def)
  have t: "take_keys False s1 = (Inr k, s2)" using f1 k(2) by (simp add: take_keys_def ret_def put_newkeys_def s2_def)
  obtain s3 s4 s5 where run3: "init_mac E False k s2 = (Inr (), s3)" and run4: "init_cipher E False (nk_enc k) s3 = (Inr (), s4)"
    and run5: "(if comp_starts k s4 then enable_compression E False s4 else ret () s4) = (Inr (), s5)"
    and s': "s' = s5\<lparr>max_blocks_in := block_limit (enc_block_size (nk_enc k)) (rekey_limit s5)\<rparr>"
    using run k(3) t unfolding ssh_set_newkeys_def modify_def s1_def [symmetric]
    by (auto simp: andthen_def s1_def [symmetric] comp_starts_def Let_def split: prod.splits sum.splits)
  obtain m where m: "mac_inits E k m" "s3 = s2\<lparr>newkeys_in := Some (k\<lparr>nk_mac := m\<lparr>mac_enabled := True\<rparr>\<rparr>)\<rparr>"
    using init_mac_run [OF run3] by (auto simp: put_newkeys_def)
  obtain c where c: "cipher_init (e_mem E) (enc_cipher (nk_enc k)) (enc_key (nk_enc k)) (enc_key_len (nk_enc k)) (enc_iv (nk_enc k)) (enc_iv_len (nk_enc k)) False = Inr c"
      "s4 = s3\<lparr>receive_context := Some c\<rparr>"
    using run4 by (auto simp: init_cipher_def put_context_def throw_def ret_def split: sum.splits)
  have f4: "receive_context s4 = Some c" "newkeys_in s4 = Some (k\<lparr>nk_mac := m\<lparr>mac_enabled := True\<rparr>\<rparr>)" "input_buf s4 = input_buf s" "incoming_packet s4 = incoming_packet s" "packlen s4 = packlen s" "packet_discard s4 = packet_discard s" "mux s4 = mux s"
      "seqnr (p_read s4) = seqnr (p_read s)" "compression_buffer s4 = compression_buffer s" "comp_starts k s4 = comp_starts k s"
    by (simp_all add: c(2) m(2) s2_def s1_def reset_counters_def comp_starts_def)
  show ?thesis
  proof (cases "comp_starts k s")
    case False
    then have "s5 = s4" using run5 by (simp add: f4 ret_def)
    moreover have "(k\<lparr>nk_mac := m\<lparr>mac_enabled := True\<rparr>\<rparr>) = installed k m False" using k(3) by (simp add: installed_def)
    ultimately show ?thesis using that [where m = m and c = c] m(1) c(1) f4 False by (simp add: s' comp_ready_def)
  next
    case True
    obtain s6 s7 where x: "ssh_packet_init_compression E s4 = (Inr (), s6)" "start_compression_in E s6 = (Inr (), s7)"
        "s5 = put_newkeys False (map_option (\<lambda>k. k\<lparr>nk_comp := (nk_comp k)\<lparr>comp_enabled := True\<rparr>\<rparr>) (get_newkeys False s7)) s7"
      using run5 True by (auto simp: f4 enable_compression_def andthen_def modify_def split: prod.splits sum.splits)
    obtain b where b: "s6 = s4\<lparr>compression_buffer := Some b\<rparr>" "buf_good b" using init_compression_run [OF x(1)] g f4(9) by metis
    have s7: "s7 = s6\<lparr>z_in := [], compression_in_started := True\<rparr>" using x(2) by (auto simp: start_compression_in_def ret_def throw_def split: option.splits)
    show ?thesis using that [where m = m and c = c] m(1) c(1) f4 True b(2)
      by (simp add: s' x(3) s7 b(1) put_newkeys_def get_newkeys_def comp_ready_def installed_def)
  qed
qed

lemma installed_keys:
  assumes "keys_made k" and "mac_prims_ok P" and "mac_inits E k m" and "mac_inits F k m'" and "e_prims E = P" and "e_prims F = P"
  obtains sc key where "keys_use P sc key (Some (installed k m z)) (enc_cipher (nk_enc k))" and "keys_use P sc key (Some (installed k m' z)) (enc_cipher (nk_enc k))"
proof (cases "cipher_authlen (enc_cipher (nk_enc k)) = 0")
  case False
  then show ?thesis using that [of undefined undefined] assms(1) by (simp add: keys_use_def keys_made_def installed_def nk_active_mac_def cipher_blocksize_def)
next
  case True
  obtain mem mac name mac1 key where mac: "mac_setup mem (Some mac) name = (Inr (), Some mac1)" "nk_mac k = mac1\<lparr>mac_key := Some key\<rparr>"
    using assms(1) True by (auto simp: keys_made_def)
  obtain alg where alg: "find (\<lambda>a. ma_name a = name) macs = Some alg" using mac(1) by (auto simp: mac_setup_def split: option.splits)
  have i: "mac_init P (e_mem E 0) (mac1\<lparr>mac_key := Some key\<rparr>) = (Inr (), m)" "mac_init P (e_mem F 0) (mac1\<lparr>mac_key := Some key\<rparr>) = (Inr (), m')"
    using assms(3-6) True mac(2) by (simp_all add: mac_inits_def)
  have "mac_ready P (scheme_of alg) (mac_key_of alg mac1 key) m" "mac_ready P (scheme_of alg) (mac_key_of alg mac1 key) m'"
    by (rule mac_setup_ready(1) [OF assms(2) alg mac(1) i(1)], rule mac_setup_ready(1) [OF assms(2) alg mac(1) i(2)])
  then show ?thesis
    using that [of "scheme_of alg" "mac_key_of alg mac1 key"] assms(1)
    by (simp add: keys_use_def keys_made_def installed_def nk_active_mac_def cipher_blocksize_def mac_ready_def split: mac_scheme.splits)
qed

lemma installed_shape:
  assumes "mac_inits E k m" and "mac_inits F k m'" and "e_prims F = e_prims E"
  shows "nk_shape (Some (installed k m z)) = nk_shape (Some (installed k m' z))"
proof -
  have "m\<lparr>hmac_ctx := None\<rparr> = m'\<lparr>hmac_ctx := None\<rparr>"
  proof (cases "cipher_authlen (enc_cipher (nk_enc k)) = 0")
    case True
    then show ?thesis using assms mac_init_alike [of "e_prims E" "e_mem E 0" "nk_mac k" m "e_mem F 0" m'] by (simp add: mac_inits_def)
  qed (use assms in \<open>simp add: mac_inits_def\<close>)
  then have "m\<lparr>mac_enabled := True, hmac_ctx := None\<rparr> = m'\<lparr>mac_enabled := True, hmac_ctx := None\<rparr>" by (cases m, cases m') simp
  then show ?thesis by (simp add: nk_shape_def strip_ctx_def installed_def)
qed


definition demo_setup :: sshmac where
  "demo_setup = demo_mac\<lparr>mac_enabled := False, umac_ctx := None\<rparr>"

definition demo_kex :: kex where
  "demo_kex = \<lparr>kex_done = False, kex_keys_in = Some (demo_newkeys\<lparr>nk_mac := demo_setup\<rparr>), kex_keys_out = Some (demo_newkeys\<lparr>nk_mac := demo_setup\<rparr>)\<rparr>"

lemma demo_made: "keys_made (demo_newkeys\<lparr>nk_mac := demo_setup\<rparr>)"
proof -
  have "mac_setup True (Some demo_setup) ''umac-128@openssh.com'' = (Inr (), Some demo_setup)"
    by (simp add: mac_setup_def macs_def mk_mac_def mac_setup_by_alg_def demo_setup_def demo_mac_def SSH_DIGEST_def SSH_UMAC_def SSH_UMAC128_def)
  moreover have "demo_setup = demo_setup\<lparr>mac_key := Some []\<rparr>" by (simp add: demo_setup_def demo_mac_def)
  ultimately have "\<exists>mem mac name mac1 key. mac_setup mem (Some mac) name = (Inr (), Some mac1) \<and> demo_setup = mac1\<lparr>mac_key := Some key\<rparr>" by blast
  then show ?thesis by (simp add: keys_made_def demo_newkeys_def cipher_none ciphers_def cipher_blocksize_def)
qed

lemma demo_set_newkeys: "kex_state s = Some demo_kex \<Longrightarrow> \<exists>s'. ssh_set_newkeys demo_peer dir s = (Inr (), s')"
  using cipher_flags
  by (cases dir)
    (simp_all add: ssh_set_newkeys_def andthen_def modify_def reset_counters_def take_keys_def demo_kex_def ret_def init_mac_def demo_newkeys_def cipher_authlen_def ciphers_def
      mac_init_def demo_setup_def demo_mac_def SSH_DIGEST_def SSH_UMAC_def SSH_UMAC128_def demo_peer_def init_cipher_def cipher_init_def Let_def COMP_ZLIB_def COMP_DELAYED_def put_newkeys_def)


end
