(* ===== verification/Spec2Isabelle.thy ===== *)
theory Spec2Isabelle
  imports Bitmap Nchan Addrmatch Srclimit Krl_Roundtrip Auth2_Access Rijndael_Correct Packet_Session
begin

text \<open>
  Verification of core components of the WALI repository.

  WALI runs unmodified Linux applications on a WebAssembly engine. Its own sources are a specification
  of the system call interface, tests and build scripts, with the compiler, the runtime and libc in
  submodules that are not part of the tree. The C code of the repository is the application that it
  ports, \<^verbatim>\<open>src/applications/openssh\<close>, and the development verifies components of that application for the
  target of the port, \<^verbatim>\<open>wasm32\<close>: \<^verbatim>\<open>size_t\<close>, \<^verbatim>\<open>long\<close> and pointers have 32 bits.

  \<^bold>\<open>Parts of the program and how they interact.\<close> All messages and key material are built and parsed in
  \<^verbatim>\<open>sshbuf\<close> buffers, which report errors with the codes of \<^verbatim>\<open>ssherr.h\<close> and grow through \<^verbatim>\<open>recallocarray\<close>.
  The connection protocol keeps one state machine per channel (\<^verbatim>\<open>nchan.c\<close>), whose actions close
  descriptors in \<^verbatim>\<open>channels.c\<close>. Access rules are lists matched by \<^verbatim>\<open>match.c\<close> and \<^verbatim>\<open>addrmatch.c\<close>, over the
  addresses and networks of \<^verbatim>\<open>addr.c\<close>; the server's limit on connections per source (\<^verbatim>\<open>srclimit.c\<close>) uses
  the same addresses. Keys are checked against revocation lists (\<^verbatim>\<open>krl.c\<close>), which keep sets of serial
  numbers in search trees and are stored with buffers and bitmaps. A client of the server authenticates
  (\<^verbatim>\<open>auth2.c\<close> and the files of its methods) through messages that a table of handlers dispatches
  (\<^verbatim>\<open>dispatch.c\<close>). Messages travel as packets (\<^verbatim>\<open>packet.c\<close>): compressed, padded, authenticated with a MAC (\<^verbatim>\<open>mac.c\<close>) and encrypted
  (\<^verbatim>\<open>cipher.c\<close>) with AES in counter mode or with ChaCha20 and Poly1305; while keys are exchanged, other packets wait in a queue.

  \<^bold>\<open>Theories.\<close>

  \<^item> \<open>Prelude\<close>: machine words, computations with an error result and a state, the big-endian macros of
    \<^verbatim>\<open>sshbuf.h\<close>, lists as memory.
  \<^item> \<open>Ssherr\<close>: the error codes of \<^verbatim>\<open>ssherr.h\<close> and the messages of \<^verbatim>\<open>ssherr.c\<close>.
  \<^item> \<open>Alloc\<close>: the allocator, which is a parameter and may fail at any request, and \<^verbatim>\<open>recallocarray\<close>.
  \<^item> \<open>Byte_Buffer\<close>: the interfaces of a byte queue and of a codec, as locales, with what sequences of
    writes and reads do.
  \<^item> \<open>Sshbuf\<close>, \<open>Sshbuf_Getput\<close>: the structure \<^verbatim>\<open>sshbuf\<close> as a record, every operation of \<^verbatim>\<open>sshbuf.c\<close> on one
    buffer and the typed operations of \<^verbatim>\<open>sshbuf-getput-basic.c\<close>; they interpret the interfaces. Shown: no
    operation leaves a buffer malformed or touches shared storage; the buffer is a queue; integers,
    strings and multiple-precision integers are read back as written; limits and resets.
  \<^item> \<open>Sshbuf_Heap\<close>: parents, children and reference counts over a heap of buffers. Shown: freeing is
    always defined, frees exactly the buffers without a reference, and a child's bytes stay in place.
  \<^item> \<open>Base64\<close>, \<open>Sshbuf_Misc\<close>: \<^verbatim>\<open>openbsd-compat/base64.c\<close> and the text conversions, comparisons and searches
    of \<^verbatim>\<open>sshbuf-misc.c\<close>. Shown: the decoder accepts exactly the canonical encodings; text is read back
    as the bytes it was made of; searches find the first occurrence.
  \<^item> \<open>Cstring\<close>, \<open>Match\<close>: C strings, \<^verbatim>\<open>strlcpy\<close>, \<^verbatim>\<open>strlcat\<close>, \<^verbatim>\<open>strsep\<close>; wildcard patterns, pattern lists,
    algorithm negotiation and filters of \<^verbatim>\<open>match.c\<close>. Shown: the matcher decides the declarative meaning of
    patterns; negated entries win; what negotiation picks.
  \<^item> \<open>Bitmap\<close>: \<^verbatim>\<open>bitmap.c\<close> as a set of numbers, through an interface of number sets, and its string form.
  \<^item> \<open>Nchan\<close>: the channel state machine of \<^verbatim>\<open>nchan.c\<close> with \<^verbatim>\<open>channel_close_fd\<close>; runs are sequences of events.
    Shown: at most one EOF, EOW and CLOSE per channel and in order, no fatal error on a reachable state,
    teardown, descriptors closed once.
  \<^item> \<open>Strtonum\<close>: \<^verbatim>\<open>strtoul\<close>, \<^verbatim>\<open>strtoull\<close>, \<^verbatim>\<open>strtoll\<close>, \<^verbatim>\<open>strtonum\<close>, \<^verbatim>\<open>atoi_err\<close>, \<^verbatim>\<open>a2port\<close>; the bounded
    conversion accepts exactly the numerals of its range.
  \<^item> \<open>Addr\<close>, \<open>Addrmatch\<close>: addresses, masks, networks in text form, lists of them, \<^verbatim>\<open>match_host_and_ip\<close>,
    \<^verbatim>\<open>match_user\<close>. Shown: membership in a network is agreement on the prefix bits; the verdict of lists.
  \<^item> \<open>Srclimit\<close>: the connection limit holds in every run.
  \<^item> \<open>Rbtree\<close>, \<open>Krl\<close>: the tree searches of \<^verbatim>\<open>sys-tree.h\<close>; revoking and checking of \<^verbatim>\<open>krl.c\<close>. Shown: the tree of
    ranges is a set of serial numbers in canonical form, for every shape of the tree; a revoked key is
    never accepted again.
  \<^item> \<open>Krl_View\<close>, \<open>Krl_Write\<close>, \<open>Krl_Read\<close>, \<open>Krl_Safe\<close>: what a list says of each authority, the writer and the reader of
    the file format of \<^verbatim>\<open>krl.c\<close>. Shown: the reader returns on all inputs, keeps its buffer and gives
    well-formed lists only.
  \<^item> \<open>Krl_Format\<close>, \<open>Krl_Stream\<close>, \<open>Krl_Gen\<close>, \<open>Krl_File\<close>: the sections of the file as a datatype; what the reader makes of
    the encoding of a section, an authority and a file; which sections the writer produces. \<open>Krl_Alternating\<close>: lists
    with every other serial, for which the writer succeeds. \<open>Krl_Roundtrip\<close>: a list that was written is read back
    and decides as before, unless a bitmap has outgrown the limit of the reader, which does happen.
  \<^item> \<open>Auth_Methods\<close>: the methods of authentication, the lists of them that the configuration requires, and how the
    lists shrink (\<^verbatim>\<open>auth2.c\<close>). \<open>Auth_State\<close>: \<^verbatim>\<open>struct Authctxt\<close>, the fields of a message, \<^verbatim>\<open>userauth_finish\<close>. \<open>Auth_Kbdint\<close>,
    \<open>Auth_Pubkey\<close>: the methods. \<open>Auth2\<close>: the requests and the loop \<^verbatim>\<open>ssh_dispatch_run\<close>.
  \<^item> \<open>Auth2_Safe\<close>, \<open>Auth2_Run\<close>, \<open>Auth2_Access\<close>: what each step keeps, the invariant of a run, and the properties: access
    is granted only after a configured list of methods has been completed, and requests come to an end.

  \<^item> \<open>Stream_Cipher\<close>: the interface of a stream cipher, as a locale, with what its clients need. \<open>Chacha\<close> (\<^verbatim>\<open>chacha.c\<close>) and \<open>Aesctr\<close>
    (\<^verbatim>\<open>cipher-aesctr.c\<close>, over \<open>Rijndael\<close>, \<^verbatim>\<open>rijndael.c\<close>) interpret it. \<open>Poly1305\<close> (\<^verbatim>\<open>poly1305.c\<close>), \<open>Poly1305_Correct\<close>, \<open>Poly1305_Tag\<close>: the
    authenticator with limbs of 26 bits computes the polynomial of the message modulo \<open>2 ^ 130 - 5\<close>. \<open>Rijndael_Correct\<close>: the table-driven block
    cipher is AES. \<open>Chachapoly\<close>: the authenticated cipher of \<^verbatim>\<open>cipher-chachapoly.c\<close>; packets come through, other tags are refused.
  \<^item> \<open>Hmac\<close>, \<open>Mac\<close>: digest contexts (\<^verbatim>\<open>digest-libc.c\<close>), HMAC (\<^verbatim>\<open>hmac.c\<close>) and the table of MACs (\<^verbatim>\<open>mac.c\<close>). Shown: the code computes HMAC of RFC 2104. \<open>Cipher\<close>:
    the table of ciphers and their contexts (\<^verbatim>\<open>cipher.c\<close>); the interface of a transport cipher is a locale, interpreted on them.
  \<^item> \<open>Packet\<close>: the state of a connection and the operations of \<^verbatim>\<open>packet.c\<close> that send, queue, read and discard packets and install keys. \<open>Packet_Buffers\<close>,
    \<open>Packet_Keys\<close>, \<open>Packet_Compress\<close>: its buffers as lists of bytes, the keys in use, compression. \<open>Packet_Send\<close>: the bytes that a packet puts on the wire. \<open>Packet_Read\<close>,
    \<open>Packet_Roundtrip\<close>: reading them. \<open>Packet_Session\<close>: two ends of a connection are in step from its beginning, stay so with every packet and with new keys; packets wait
    during an exchange; only packets with the right MAC are delivered.

  \<^bold>\<open>How the code is modelled.\<close> Structures are records, enumerations and error codes datatypes, machine
  integers words where wrap-around matters and otherwise numbers with the bounds written out. A function
  that updates an object and may fail is a computation that returns the error or the result together with
  the object, which is returned on failure too. Loops are recursive functions with a termination measure;
  the loop over the queue of packets and the one that fills a discarded packet carry a number of turns, the length of the queue and of the packet, that they cannot exceed; otherwise
  no fuel is used, and every function of the model is total, except for the loop of \<^verbatim>\<open>ssh_dispatch_run\<close>, which
  is a partial function into an option: it has no value where the C code would not return, and a
  theorem says when it returns. A pointer into an object is an offset; the
  contents of an allocation are a list. Functions outside the modelled files are parameters: the
  allocator, the resolver (\<^verbatim>\<open>getaddrinfo\<close>, \<^verbatim>\<open>getnameinfo\<close>, \<^verbatim>\<open>getpeername\<close>, \<^verbatim>\<open>getservbyname\<close>), the packet
  layer under the channels, the functions of \<^verbatim>\<open>sshkey.c\<close> under the revocation lists, and for authentication
  the packets read, the password check, the devices, the verification and the authorisation of keys; under the packets the hash functions, UMAC, zlib, random bytes, the clock,
  the start of a key exchange (\<^verbatim>\<open>kex_start_rekex\<close>) and the waiting for output. What a property
  needs of them is a named hypothesis with a concrete instance in its witness.

  \<^bold>\<open>Not modelled.\<close> The rest of the cryptographic code and the key formats, the key exchange, the input and output of packets and the export of their state, the rest
  of \<^verbatim>\<open>channels.c\<close>, configuration files, what is behind the authentication methods, the programs themselves, file transfer and
  whatever is input, output or the operating system; messages written to the log have no effect on the
  state and are left out of the modelled functions. The balancing of the search trees is not modelled:
  the theorems hold for every shape of the trees. The interface specification, tests, examples and build
  files of the repository are not programs with a state of their own.
\<close>

end
